(* ===== verification/C_Prelude.thy ===== *)
theory C_Prelude
  imports Main "HOL-Library.Word"
begin

text \<open>
  Shared ground of the development: the machine types of the C sources, the three-valued
  outcome of a C call, sequencing of calls, and the generic lemmas on bytes and words that
  the component theories use.

  A C function that returns \<^verbatim>\<open>bool\<close> or \<^verbatim>\<open>int\<close> and updates an object through a pointer is a HOL
  function from the object to a pair of an outcome and the updated object: \<open>Ok\<close> carries what
  the function stores through its output pointers when it returns true, \<open>Fail\<close> is a return of
  false (the object is still the updated one: an error message is set, bytes are consumed),
  and \<open>Undef\<close> is an access outside of an object, which C leaves undefined.
\<close>

unbundle bit_operations_syntax

section \<open>Machine types\<close>

type_synonym byte = "8 word"
type_synonym u16 = "16 word"
type_synonym u32 = "32 word"
type_synonym u64 = "64 word"

section \<open>Outcomes of calls\<close>

datatype 'a outcome = Ok 'a | Fail | Undef

definition seq_ok :: "'a outcome \<times> 's \<Rightarrow> ('a \<Rightarrow> 's \<Rightarrow> 'b outcome \<times> 's) \<Rightarrow> 'b outcome \<times> 's" where
  "seq_ok r k = (case fst r of
      Ok a \<Rightarrow> k a (snd r)
    | Fail \<Rightarrow> (Fail, snd r)
    | Undef \<Rightarrow> (Undef, snd r))"

lemma seq_ok_simps [simp]:
  "seq_ok (Ok a, s) k = k a s"
  "seq_ok (Fail, s) k = (Fail, s)"
  "seq_ok (Undef, s) k = (Undef, s)"
  by (simp_all add: seq_ok_def)

lemma seq_ok_cong [fundef_cong]:
  assumes "r = r'" and "\<And>a. fst r' = Ok a \<Longrightarrow> k a (snd r') = k' a (snd r')"
  shows "seq_ok r k = seq_ok r' k'"
  using assms by (auto simp: seq_ok_def split: outcome.splits)

lemma seq_ok_eq_Ok:
  "seq_ok r k = (Ok b, t) \<longleftrightarrow> (\<exists>a s. r = (Ok a, s) \<and> k a s = (Ok b, t))"
  by (cases r) (auto simp: seq_ok_def split: outcome.splits)

lemma seq_ok_assoc:
  "seq_ok (seq_ok r k) l = seq_ok r (\<lambda>a s. seq_ok (k a s) l)"
  by (cases r) (auto simp: seq_ok_def split: outcome.splits)

text \<open>Calls whose only result is the outcome.\<close>

fun bind_out :: "'a outcome \<Rightarrow> ('a \<Rightarrow> 'b outcome) \<Rightarrow> 'b outcome" where
  "bind_out (Ok a) k = k a"
| "bind_out Fail k = Fail"
| "bind_out Undef k = Undef"

lemma bind_out_cong [fundef_cong]: "r = r' \<Longrightarrow> (\<And>a. r' = Ok a \<Longrightarrow> k a = k' a) \<Longrightarrow> bind_out r k = bind_out r' k'"
  by (cases r') auto

lemma bind_out_eq_Ok: "bind_out r k = Ok x \<longleftrightarrow> (\<exists>a. r = Ok a \<and> k a = Ok x)"
  by (cases r) auto

text \<open>The same for calls that may not return.\<close>

definition step_ok :: "('a outcome \<times> 's) option \<Rightarrow> ('a \<Rightarrow> 's \<Rightarrow> ('b outcome \<times> 's) option) \<Rightarrow> ('b outcome \<times> 's) option" where
  "step_ok m k = Option.bind m (\<lambda>r. case fst r of
      Ok a \<Rightarrow> k a (snd r) | Fail \<Rightarrow> Some (Fail, snd r) | Undef \<Rightarrow> Some (Undef, snd r))"

lemma step_ok_simps [simp]:
  "step_ok (Some (Ok a, s)) k = k a s" "step_ok (Some (Fail, s)) k = Some (Fail, s)"
  "step_ok (Some (Undef, s)) k = Some (Undef, s)"
  by (simp_all add: step_ok_def)

lemma step_ok_assoc: "step_ok (step_ok m k) l = step_ok m (\<lambda>a s. step_ok (k a s) l)"
  by (cases m; cases "fst (the m)") (simp_all add: step_ok_def)

lemma step_ok_mono [partial_function_mono]:
  assumes "mono_option m" "\<And>a s. mono_option (\<lambda>g. k g a s)"
  shows "mono_option (\<lambda>g. step_ok (m g) (k g))"
proof -
  have "mono_option (\<lambda>g. case fst r of Ok a \<Rightarrow> k g a (snd r) | Fail \<Rightarrow> Some (Fail, snd r) | Undef \<Rightarrow> Some (Undef, snd r))" for r
    by (cases "fst r") (simp_all add: assms(2) option.const_mono)
  then show ?thesis unfolding step_ok_def by (rule bind_mono [OF assms(1)])
qed

section \<open>Lists\<close>

lemma take_eq_Cons_take:
  "take n xs = b # bs \<Longrightarrow> \<exists>m ys. n = Suc m \<and> xs = b # ys \<and> take m ys = bs"
  by (cases n; cases xs) auto

lemma all_below: "\<forall>d\<in>set [0..<n]. P d \<Longrightarrow> d < n \<Longrightarrow> P d" for d n :: nat
  by simp

lemma drop_take_drop: "drop m (take n xs) = take (n - m) (drop m xs)"
  by (simp add: drop_take)

lemma take_store:
  assumes "i + length xs \<le> n" "n \<le> length bs"
  shows "take n (take i bs @ xs @ drop (i + length xs) bs) =
    take i (take n bs) @ xs @ drop (i + length xs) (take n bs)"
proof -
  have "take (n - i) xs = xs" "min i n = i" "min (length bs) i = i" using assms by auto
  then show ?thesis using assms by (simp add: drop_take)
qed

section \<open>Bytes and words\<close>

lemma byte_lt_256 [simp]: "unat (b :: byte) < 256"
  using unsigned_less [of b] by simp

lemma and_mask_byte: "(b :: byte) AND 127 = b mod 128"
proof -
  have "b AND mask 7 = take_bit 7 b" by (rule take_bit_eq_mask [symmetric])
  then show ?thesis by (simp add: mask_eq_exp_minus_1 take_bit_eq_mod)
qed

lemma unat_and_127: "unat ((b :: byte) AND 127) = unat b mod 128"
  by (simp add: and_mask_byte unat_mod_distrib)

lemma bit_top_iff:
  fixes w :: "'a::len word"
  assumes "LENGTH('a) = Suc n"
  shows "bit w n \<longleftrightarrow> 2 ^ n \<le> unat w"
proof -
  have lt: "unat w < 2 * 2 ^ n" using unsigned_less [of w] assms by simp
  then have "unat w div 2 ^ n < 2" by (simp add: div_less_iff_less_mult)
  then have "odd (unat w div 2 ^ n) \<longleftrightarrow> unat w div 2 ^ n = 1" by (auto simp: less_2_cases_iff)
  also have "\<dots> \<longleftrightarrow> 2 ^ n \<le> unat w" using lt \<open>unat w div 2 ^ n < 2\<close>
      div_greater_zero_iff [of "unat w" "2 ^ n"] by linarith
  finally have "bit (unat w) n \<longleftrightarrow> 2 ^ n \<le> unat w" by (simp add: bit_iff_odd)
  then show ?thesis using assms by (simp add: bit_unsigned_iff)
qed

lemma byte_and_128_eq_0: "(b :: byte) AND 128 = 0 \<longleftrightarrow> unat b < 128"
proof -
  have "b AND 128 = 0 \<longleftrightarrow> \<not> bit b 7"
    using and_exp_eq_0_iff_not_bit [of b 7] by simp
  then show ?thesis by (simp add: bit_top_iff not_le)
qed

lemma byte_high: "128 \<le> unat (b :: byte) \<Longrightarrow> unat b mod 128 + 128 = unat b"
proof -
  assume b: "128 \<le> unat b"
  have "unat b - 128 < 128" using b byte_lt_256 [of b] by linarith
  then show ?thesis using le_mod_geq [OF b] b by simp
qed

lemma nat_or_push_bit:
  fixes m k n :: nat
  assumes "m < 2 ^ n"
  shows "m OR push_bit n k = m + k * 2 ^ n"
proof -
  have "\<not> bit m j" if "n \<le> j" for j
    using assms that by (simp add: bit_iff_odd div_less order_less_le_trans[of m "2^n" "2^j"])
  then have "m AND push_bit n k = 0"
    by (auto simp: bit_eq_iff bit_simps)
  then have "m + push_bit n k = m OR push_bit n k" by (rule disjunctive_add_eq_or)
  then show ?thesis by (simp add: push_bit_eq_mult)
qed

lemma unat_or_push_bit:
  fixes a b :: "'a::len word"
  assumes "unat a < 2 ^ n"
  shows "unat (a OR push_bit n b) = unat a + (unat b * 2 ^ n) mod 2 ^ LENGTH('a)"
proof -
  have "unat (a OR push_bit n b) = unat a OR take_bit LENGTH('a) (push_bit n (unat b))"
    by (simp add: unsigned_or_eq unsigned_push_bit_eq)
  also have "take_bit LENGTH('a) (push_bit n (unat b)) = push_bit n (take_bit (LENGTH('a) - n) (unat b))"
    by (simp add: take_bit_push_bit)
  also have "unat a OR \<dots> = unat a + take_bit (LENGTH('a) - n) (unat b) * 2 ^ n"
    using assms by (rule nat_or_push_bit)
  also have "take_bit (LENGTH('a) - n) (unat b) * 2 ^ n = push_bit n (take_bit (LENGTH('a) - n) (unat b))"
    by (simp add: push_bit_eq_mult)
  also have "\<dots> = take_bit LENGTH('a) (push_bit n (unat b))"
    by (simp add: take_bit_push_bit)
  also have "\<dots> = (unat b * 2 ^ n) mod 2 ^ LENGTH('a)"
    by (simp add: take_bit_eq_mod push_bit_eq_mult)
  finally show ?thesis .
qed

lemma unat_ucast_up:
  assumes "LENGTH('a::len) \<le> LENGTH('b::len)"
  shows "unat (ucast (w :: 'a word) :: 'b word) = unat w"
proof -
  have "unat w < 2 ^ LENGTH('a)" by simp
  also have "\<dots> \<le> 2 ^ LENGTH('b)" using assms by simp
  finally show ?thesis by (simp add: unsigned_ucast_eq take_bit_nat_eq_self_iff)
qed

lemma unat_ucast_down:
  "unat (ucast (w :: 'a::len word) :: 'b::len word) = unat w mod 2 ^ LENGTH('b)"
  by (simp add: unsigned_ucast_eq take_bit_eq_mod)

lemma unat_or_byte_128: "unat ((b :: byte) OR 128) = unat b mod 128 + 128"
proof -
  have "b OR 128 = (b AND 127) OR push_bit 7 1"
    by (rule bit_word_eqI) (auto simp: bit_simps numeral_eq_Suc less_Suc_eq)
  also have "unat \<dots> = unat (b AND 127) + (unat (1 :: byte) * 2 ^ 7) mod 2 ^ LENGTH(8)"
    by (rule unat_or_push_bit) (simp add: unat_and_127)
  finally show ?thesis by (simp add: unat_and_127)
qed

lemma and_field:
  fixes a :: "'a::len word"
  shows "a AND push_bit j (mask k) = push_bit j (take_bit k (drop_bit j a))"
  by (rule bit_word_eqI) (auto simp: bit_simps)

lemma unat_and_field:
  fixes a :: "'a::len word"
  assumes "j + k \<le> LENGTH('a)"
  shows "unat (a AND push_bit j (mask k)) = unat a div 2 ^ j mod 2 ^ k * 2 ^ j"
proof -
  have "unat a div 2 ^ j mod 2 ^ k < 2 ^ k" by simp
  then have "unat a div 2 ^ j mod 2 ^ k * 2 ^ j < 2 ^ k * 2 ^ j" by (rule mult_strict_right_mono) simp
  also have "(2::nat) ^ k * 2 ^ j \<le> 2 ^ LENGTH('a)"
    using assms by (simp add: power_add [symmetric] add.commute)
  finally show ?thesis
    unfolding and_field unsigned_push_bit_eq unsigned_take_bit_eq unsigned_drop_bit_eq
    by (simp add: push_bit_eq_mult take_bit_eq_mod drop_bit_eq_div)
qed

lemma byte_and_112: "unat ((t :: byte) AND 112) = unat t div 16 mod 8 * 16"
  using unat_and_field [of 4 3 t] by (simp add: mask_eq_exp_minus_1)

lemma byte_and_112_eq_0: "unat t < 128 \<Longrightarrow> (t :: byte) AND 112 = 0 \<longleftrightarrow> unat t < 16"
  using byte_and_112 [of t] by (auto simp: unat_0_iff [symmetric])

lemma unat_drop_bit_div: "unat (drop_bit n (w :: 'a::len word)) = unat w div 2 ^ n"
  unfolding unat_drop_bit_eq by (simp add: drop_bit_eq_div)

lemma pow256: "(256::nat) ^ n = 2 ^ (8 * n)"
  by (simp add: power_mult)

lemma unat_take_bit_mod: "unat (take_bit n (w :: 'a::len word)) = unat w mod 2 ^ n"
  unfolding unsigned_take_bit_eq by (simp add: take_bit_eq_mod)

lemma unat_u64_less: "unat (v :: u64) < 2 ^ 64"
  using unsigned_less [of v] by simp

lemma unat_u32_less: "unat (v :: u32) < 2 ^ 32"
  using unsigned_less [of v] by simp

lemma unat_eq_of_nat: "unat w = n \<Longrightarrow> w = of_nat n"
  by auto

lemma ucast_up_down:
  assumes "LENGTH('a::len) \<le> LENGTH('b::len)"
  shows "ucast (ucast (w :: 'a word) :: 'b word) = w"
proof -
  have "unat (ucast (ucast w :: 'b word) :: 'a word) = unat (ucast w :: 'b word) mod 2 ^ LENGTH('a)"
    by (rule unat_ucast_down)
  also have "\<dots> = unat w" by (simp add: unat_ucast_up [OF assms])
  finally show ?thesis by (simp add: word_unat_eq_iff)
qed

lemma unat_less_pow256: "LENGTH('a::len) = 8 * n \<Longrightarrow> unat (w :: 'a word) < 256 ^ n"
  using unsigned_less [of w] by (simp add: pow256)

lemma low7_byte: "(ucast ((v :: u64) AND 0x7F) :: byte) = of_nat (unat v mod 128)"
proof -
  have "unat (v AND 0x7F) = unat v mod 128"
    using unat_and_field [of 0 7 v] by (simp add: mask_eq_exp_minus_1)
  then show ?thesis by (simp add: word_unat_eq_iff unat_ucast_down unat_of_nat)
qed

lemma varint_byte: "ucast ((v :: u64) AND 0x7F) OR 0x80 = (of_nat (unat v mod 128 + 128) :: byte)"
  unfolding low7_byte
  by (simp add: word_unat_eq_iff unat_or_byte_128 unat_of_nat del: of_nat_add)

lemma sint_neg_iff_bit: "sint (w :: 'a::len word) < 0 \<longleftrightarrow> bit w (LENGTH('a) - 1)"
  by (simp add: sint_uint bit_uint_iff)

section \<open>Little-endian values\<close>

fun le_value :: "byte list \<Rightarrow> nat" where
  "le_value [] = 0"
| "le_value (b # bs) = unat b + 256 * le_value bs"

lemma le_value_less: "le_value bs < 256 ^ length bs"
proof (induction bs)
  case (Cons b bs)
  have "unat b < 256" by simp
  with Cons have "unat b + 256 * le_value bs < 256 * Suc (le_value bs)" by simp
  also have "\<dots> \<le> 256 * 256 ^ length bs" using Cons by (intro mult_le_mono) auto
  finally show ?case by simp
qed simp

lemma digit256_unique:
  fixes x y a b :: nat
  assumes "x < 256" "y < 256" "x + 256 * a = y + 256 * b"
  shows "x = y \<and> a = b"
proof -
  have "x = (x + 256 * a) mod 256" using assms(1) by simp
  also have "\<dots> = (y + 256 * b) mod 256" unfolding assms(3) ..
  also have "\<dots> = y" using assms(2) by simp
  finally show ?thesis using assms(3) by simp
qed

lemma le_value_inj: "length xs = length ys \<Longrightarrow> le_value xs = le_value ys \<Longrightarrow> xs = ys"
proof (induction xs ys rule: list_induct2)
  case (Cons x xs y ys)
  have "unat x = unat y \<and> le_value xs = le_value ys"
    by (rule digit256_unique [OF byte_lt_256 byte_lt_256]) (use Cons.prems in simp)
  with Cons show ?case by (simp add: word_unat_eq_iff)
qed simp

fun le_word :: "byte list \<Rightarrow> 'a::len word" where
  "le_word [] = 0"
| "le_word (b # bs) = ucast b OR push_bit 8 (le_word bs)"

lemma unat_le_word:
  "8 * length bs \<le> LENGTH('a) \<Longrightarrow> unat (le_word bs :: 'a::len word) = le_value bs"
proof (induction bs)
  case (Cons b bs)
  have u: "unat (ucast b :: 'a word) = unat b" using Cons.prems by (simp add: unat_ucast_up)
  then have "unat (ucast b :: 'a word) < 2 ^ 8" by simp
  from unat_or_push_bit [OF this, of "le_word bs"]
  have "unat (le_word (b # bs) :: 'a word) = unat b + (le_value bs * 256) mod 2 ^ LENGTH('a)"
    using Cons u by simp
  moreover have "le_value bs * 256 < 2 ^ LENGTH('a)"
  proof -
    have "le_value bs * 256 < 256 ^ length (b # bs)" using le_value_less [of bs] by simp
    also have "\<dots> = 2 ^ (8 * length (b # bs))" by (rule pow256)
    also have "\<dots> \<le> 2 ^ LENGTH('a)" using Cons.prems by (intro power_increasing) auto
    finally show ?thesis .
  qed
  ultimately show ?case by simp
qed simp

fun le_bytes :: "nat \<Rightarrow> nat \<Rightarrow> byte list" where
  "le_bytes 0 v = []"
| "le_bytes (Suc n) v = of_nat v # le_bytes n (v div 256)"

lemma length_le_bytes [simp]: "length (le_bytes n v) = n"
  by (induction n arbitrary: v) auto

lemma le_value_le_bytes: "le_value (le_bytes n v) = v mod 256 ^ n"
proof (induction n arbitrary: v)
  case (Suc n)
  have "v mod (256 * 256 ^ n) = 256 * (v div 256 mod 256 ^ n) + v mod 256"
    by (rule mod_mult2_eq)
  with Suc show ?case by (simp add: unat_of_nat)
qed simp

lemma le_word_4:
  "push_bit 0 (ucast b0) OR push_bit 8 (ucast b1) OR push_bit 16 (ucast b2) OR push_bit 24 (ucast b3) =
   (le_word [b0, b1, b2, b3] :: u32)"
  by (simp add: push_bit_or push_bit_push_bit)

lemma le_word_8:
  "push_bit 0 (ucast b0) OR push_bit 8 (ucast b1) OR push_bit 16 (ucast b2) OR push_bit 24 (ucast b3) OR
   push_bit 32 (ucast b4) OR push_bit 40 (ucast b5) OR push_bit 48 (ucast b6) OR push_bit 56 (ucast b7) =
   (le_word [b0, b1, b2, b3, b4, b5, b6, b7] :: u64)"
  by (simp add: push_bit_or push_bit_push_bit)

lemma low_byte:
  assumes "8 \<le> LENGTH('a)"
  shows "(ucast ((v :: 'a::len word) AND 0xFF) :: byte) = ucast v"
proof -
  have "push_bit 0 (mask 8) = (0xFF :: 'a word)" by (simp add: mask_eq_exp_minus_1)
  then have "unat (v AND 0xFF) = unat v mod 256"
    using unat_and_field [of 0 8 v] assms by simp
  then show ?thesis by (simp add: word_unat_eq_iff unat_ucast_down)
qed

lemma ucast_drop_bit: "(ucast (drop_bit k (v :: 'a::len word)) :: byte) = of_nat (unat v div 2 ^ k)"
  by (simp only: word_unat_eq_iff unat_of_nat unat_ucast_down unat_drop_bit_div)

lemma le_bytes_4:
  "le_bytes 4 v = [of_nat v, of_nat (v div 256), of_nat (v div 65536), of_nat (v div 16777216)]"
proof -
  have "4 = Suc (Suc (Suc (Suc 0)))" by simp
  then show ?thesis by (simp only: le_bytes.simps) (simp flip: div_mult2_eq)
qed

lemma le_bytes_8:
  "le_bytes 8 v = [of_nat v, of_nat (v div 256), of_nat (v div 65536), of_nat (v div 16777216),
     of_nat (v div 4294967296), of_nat (v div 1099511627776), of_nat (v div 281474976710656),
     of_nat (v div 72057594037927936)]"
proof -
  have "8 = Suc (Suc (Suc (Suc (Suc (Suc (Suc (Suc 0)))))))" by simp
  then show ?thesis by (simp only: le_bytes.simps) (simp flip: div_mult2_eq)
qed

section \<open>Big-endian values\<close>

definition be_value :: "byte list \<Rightarrow> nat" where
  "be_value bs = le_value (rev bs)"

lemma le_value_append: "le_value (xs @ ys) = le_value xs + 256 ^ length xs * le_value ys"
  by (induction xs) (auto simp: algebra_simps)

lemma be_value_simps [simp]:
  "be_value [] = 0"
  "be_value (bs @ [b]) = be_value bs * 256 + unat b"
  by (simp_all add: be_value_def)

lemma be_value_less: "be_value bs < 256 ^ length bs"
  using le_value_less [of "rev bs"] by (simp add: be_value_def)

definition be_bytes :: "nat \<Rightarrow> nat \<Rightarrow> byte list" where
  "be_bytes n v = rev (le_bytes n v)"

lemma length_be_bytes [simp]: "length (be_bytes n v) = n"
  by (simp add: be_bytes_def)

lemma be_value_be_bytes: "be_value (be_bytes n v) = v mod 256 ^ n"
  by (simp add: be_value_def be_bytes_def le_value_le_bytes)

lemma be_bytes_Suc: "be_bytes (Suc n) v = be_bytes n (v div 256) @ [of_nat v]"
  by (simp add: be_bytes_def)

lemma be_bytes_0 [simp]: "be_bytes 0 v = []"
  by (simp add: be_bytes_def)

lemma be_bytes_be_value: "length bs = n \<Longrightarrow> be_bytes n (be_value bs) = bs"
proof -
  assume "length bs = n"
  then have "le_bytes n (le_value (rev bs)) = rev bs"
    using le_value_less [of "rev bs"] by (intro le_value_inj) (simp_all add: le_value_le_bytes)
  then show ?thesis by (simp add: be_bytes_def be_value_def)
qed

lemma be_bytes_eq_Nil [simp]: "be_bytes n v = [] \<longleftrightarrow> n = 0"
  by (metis be_bytes_0 length_be_bytes list.size(3))

text \<open>The accumulator of a big-endian read.\<close>

lemma unat_shift_or_byte:
  fixes w :: "'a::len word"
  assumes "unat w * 256 < 2 ^ LENGTH('a)" "8 \<le> LENGTH('a)"
  shows "unat (push_bit 8 w OR ucast (b :: byte)) = unat w * 256 + unat b"
proof -
  have u: "unat (ucast b :: 'a word) = unat b" using assms(2) by (simp add: unat_ucast_up)
  have "unat (ucast b OR push_bit 8 w) = unat (ucast b :: 'a word) + (unat w * 2 ^ 8) mod 2 ^ LENGTH('a)"
    by (rule unat_or_push_bit) (simp add: u)
  with u assms(1) show ?thesis by (simp add: or.commute)
qed

lemma unat_foldl_be:
  assumes "8 * length bs \<le> LENGTH('a::len)"
  shows "unat (foldl (\<lambda>r (b :: byte). push_bit 8 r OR ucast b) (0 :: 'a word) bs) = be_value bs"
  using assms
proof (induction bs rule: rev_induct)
  case (snoc b bs)
  have "be_value bs * 256 < 256 ^ length bs * 256" using be_value_less [of bs] by simp
  also have "\<dots> = 2 ^ (8 * Suc (length bs))" by (simp add: pow256 power_add)
  also have "\<dots> \<le> 2 ^ LENGTH('a)" using snoc.prems by (intro power_increasing) auto
  finally show ?case using snoc by (simp add: unat_shift_or_byte)
qed simp

section \<open>Printed numbers\<close>

text \<open>The digits that \<^verbatim>\<open>printf\<close> writes for an unsigned number, in base 10 and, in small letters, in base 16.\<close>

fun decimal :: "nat \<Rightarrow> byte list" where
  "decimal n = (if n < 10 then [of_nat (48 + n)] else decimal (n div 10) @ [of_nat (48 + n mod 10)])"

definition hex_digit :: "nat \<Rightarrow> byte" where
  "hex_digit d = of_nat (if d < 10 then 48 + d else 87 + d)"

fun hexadecimal :: "nat \<Rightarrow> byte list" where
  "hexadecimal n = (if n < 16 then [hex_digit n] else hexadecimal (n div 16) @ [hex_digit (n mod 16)])"

declare decimal.simps [simp del] hexadecimal.simps [simp del]

end
