(* ===== verification/Pb_Istream.thy ===== *)
theory Pb_Istream
  imports C_Prelude
begin

text \<open>
  The input stream of nanopb (\<^verbatim>\<open>Pods/nanopb/pb_decode.c\<close>) and the decoders of the wire format
  that work on a stream alone: bytes, varints, tags, fixed-width values, skipping of unknown
  fields and length-limited substreams.

  A \<^verbatim>\<open>pb_istream_t\<close> is the record \<open>pb_istream\<close>. Its \<^verbatim>\<open>callback\<close> is either the library's own
  \<^verbatim>\<open>buf_read\<close>, whose \<^verbatim>\<open>state\<close> is a pointer into a buffer (here: the bytes of the buffer from that
  pointer on), or a function of the application over an application state.
\<close>

section \<open>The stream\<close>

datatype 'u istream_state = Buf_ptr "byte list" | User_state 'u

datatype 'u istream_callback =
    Buf_read
  | User_read "'u \<Rightarrow> nat \<Rightarrow> byte list option \<times> 'u"

record 'u pb_istream =
  is_callback :: "'u istream_callback"
  is_state :: "'u istream_state"
  bytes_left :: nat
  is_errmsg :: "string option"

text \<open>\<^verbatim>\<open>PB_SET_ERROR\<close> keeps the first message; \<^verbatim>\<open>PB_RETURN_ERROR\<close> also returns false.\<close>

definition pb_set_error :: "string \<Rightarrow> 'u pb_istream \<Rightarrow> 'u pb_istream" where
  "pb_set_error msg s =
     s\<lparr>is_errmsg := (case is_errmsg s of None \<Rightarrow> Some msg | Some m \<Rightarrow> Some m)\<rparr>"

definition pb_return_error :: "string \<Rightarrow> 'u pb_istream \<Rightarrow> 'a outcome \<times> 'u pb_istream" where
  "pb_return_error msg s = (Fail, pb_set_error msg s)"

text \<open>
  \<open>to_buf\<close> says whether the destination pointer is non-null; the bytes are returned in that
  case. Reading past the end of the buffer object is undefined.
\<close>

definition buf_read :: "bool \<Rightarrow> nat \<Rightarrow> 'u pb_istream \<Rightarrow> byte list outcome \<times> 'u pb_istream" where
  "buf_read to_buf count s = (case is_state s of
      Buf_ptr source \<Rightarrow>
        if count \<le> length source
        then (Ok (if to_buf then take count source else []),
              s\<lparr>is_state := Buf_ptr (drop count source)\<rparr>)
        else (Undef, s)
    | User_state _ \<Rightarrow> (Undef, s))"

definition call_callback :: "bool \<Rightarrow> nat \<Rightarrow> 'u pb_istream \<Rightarrow> byte list outcome \<times> 'u pb_istream" where
  "call_callback to_buf count s = (case is_callback s of
      Buf_read \<Rightarrow> buf_read to_buf count s
    | User_read f \<Rightarrow> (case is_state s of
          User_state u \<Rightarrow> (case f u count of
              (Some bs, u') \<Rightarrow> (Ok bs, s\<lparr>is_state := User_state u'\<rparr>)
            | (None, u') \<Rightarrow> (Fail, s\<lparr>is_state := User_state u'\<rparr>))
        | Buf_ptr _ \<Rightarrow> (Undef, s)))"

text \<open>The tail of \<^verbatim>\<open>pb_read\<close>: the check of \<^verbatim>\<open>bytes_left\<close>, the call and the count.\<close>

definition pb_read_some :: "bool \<Rightarrow> nat \<Rightarrow> 'u pb_istream \<Rightarrow> byte list outcome \<times> 'u pb_istream" where
  "pb_read_some to_buf count s =
     (if bytes_left s < count then pb_return_error ''end-of-stream'' s
      else (case call_callback to_buf count s of
          (Ok bs, s1) \<Rightarrow> (Ok bs, s1\<lparr>bytes_left := bytes_left s1 - count\<rparr>)
        | (Fail, s1) \<Rightarrow> pb_return_error ''io error'' s1
        | (Undef, s1) \<Rightarrow> (Undef, s1)))"

text \<open>Skipping on a stream that is not a buffer reads into a temporary of 16 bytes.\<close>

function pb_read_skip :: "nat \<Rightarrow> 'u pb_istream \<Rightarrow> byte list outcome \<times> 'u pb_istream" where
  "pb_read_skip count s =
     (if 16 < count then seq_ok (pb_read_some True 16 s) (\<lambda>_ s1. pb_read_skip (count - 16) s1)
      else seq_ok (pb_read_some True count s) (\<lambda>_ s1. (Ok [], s1)))"
  by pat_completeness auto
termination by (relation "measure fst") auto

declare pb_read_skip.simps [simp del]

definition pb_read :: "bool \<Rightarrow> nat \<Rightarrow> 'u pb_istream \<Rightarrow> byte list outcome \<times> 'u pb_istream" where
  "pb_read to_buf count s =
     (if count = 0 then (Ok [], s)
      else if \<not> to_buf \<and> is_callback s \<noteq> Buf_read then pb_read_skip count s
      else pb_read_some to_buf count s)"

lemma pb_read_code [code]:
  "pb_read to_buf count s =
     (if count = 0 then (Ok [], s)
      else if \<not> to_buf \<and> (case is_callback s of Buf_read \<Rightarrow> False | User_read _ \<Rightarrow> True) then pb_read_skip count s
      else pb_read_some to_buf count s)"
  by (simp add: pb_read_def split: istream_callback.split)

definition pb_readbyte :: "'u pb_istream \<Rightarrow> byte outcome \<times> 'u pb_istream" where
  "pb_readbyte s =
     (if bytes_left s = 0 then pb_return_error ''end-of-stream'' s
      else (case call_callback True 1 s of
          (Ok bs, s1) \<Rightarrow> (Ok (hd bs), s1\<lparr>bytes_left := bytes_left s1 - 1\<rparr>)
        | (Fail, s1) \<Rightarrow> pb_return_error ''io error'' s1
        | (Undef, s1) \<Rightarrow> (Undef, s1)))"

definition pb_istream_from_buffer :: "byte list \<Rightarrow> nat \<Rightarrow> 'u pb_istream" where
  "pb_istream_from_buffer buf bufsize =
     \<lparr>is_callback = Buf_read, is_state = Buf_ptr buf, bytes_left = bufsize, is_errmsg = None\<rparr>"

section \<open>Termination: a read byte is a byte less\<close>

lemma call_callback_frame:
  assumes "call_callback t n s = (r, s')"
  shows "is_callback s' = is_callback s" "bytes_left s' = bytes_left s" "is_errmsg s' = is_errmsg s"
  using assms
  by (auto simp: call_callback_def buf_read_def split: istream_callback.splits istream_state.splits
      if_splits prod.splits option.splits)

lemma pb_readbyte_decreases:
  "fst (pb_readbyte s) = Ok b \<Longrightarrow> bytes_left (snd (pb_readbyte s)) < bytes_left s"
  by (auto simp: pb_readbyte_def pb_return_error_def dest: call_callback_frame
      split: if_splits prod.splits outcome.splits)

lemma pb_read_byte_decreases:
  "fst (pb_read True (Suc 0) s) = Ok b \<Longrightarrow> bytes_left (snd (pb_read True (Suc 0) s)) < bytes_left s"
  by (auto simp: pb_read_def pb_read_some_def pb_return_error_def dest: call_callback_frame
      split: if_splits prod.splits outcome.splits)

section \<open>Varints\<close>

text \<open>
  The loop of \<^verbatim>\<open>pb_decode_varint32_eof\<close>. The bit position is a \<^verbatim>\<open>uint_fast8_t\<close>, eight bits wide
  on the platforms the application is built for, so it wraps at 256.
\<close>

function varint32_loop :: "byte \<Rightarrow> u32 \<Rightarrow> 'u pb_istream \<Rightarrow> (u32 \<times> byte \<times> byte) outcome \<times> 'u pb_istream" where
  "varint32_loop bitpos result s =
     seq_ok (pb_readbyte s) (\<lambda>b s1.
       if 32 \<le> bitpos \<and> b AND 0x7F \<noteq> 0 \<and>
          (drop_bit 31 result = 0 \<or> b \<noteq> (if bitpos < 63 then 0xFF else 0x01))
       then pb_return_error ''varint overflow'' s1
       else let result' = (if 32 \<le> bitpos then result
                           else result OR push_bit (unat bitpos) (ucast (b AND 0x7F)));
                bitpos' = bitpos + 7
            in if b AND 0x80 \<noteq> 0 then varint32_loop bitpos' result' s1
               else (Ok (result', bitpos', b), s1))"
  by pat_completeness auto
termination
  by (relation "measure (\<lambda>(bitpos, result, s). bytes_left s)") (auto dest: pb_readbyte_decreases)

declare varint32_loop.simps [simp del]

text \<open>The Boolean of the result is the value left in \<^verbatim>\<open>*eof\<close>; it is given to the caller also when the
  function returns false.\<close>

definition pb_decode_varint32_eof :: "'u pb_istream \<Rightarrow> bool \<times> u32 outcome \<times> 'u pb_istream" where
  "pb_decode_varint32_eof s = (case pb_readbyte s of
      (Ok b, s1) \<Rightarrow> (False,
         if b AND 0x80 = 0 then (Ok (ucast b), s1)
         else seq_ok (varint32_loop 7 (ucast (b AND 0x7F)) s1) (\<lambda>(result, bitpos, b') s2.
           if bitpos = 35 \<and> b' AND 0x70 \<noteq> 0 then pb_return_error ''varint overflow'' s2
           else (Ok result, s2)))
    | (Fail, s1) \<Rightarrow> (bytes_left s1 = 0, Fail, s1)
    | (Undef, s1) \<Rightarrow> (False, Undef, s1))"

definition pb_decode_varint32 :: "'u pb_istream \<Rightarrow> u32 outcome \<times> 'u pb_istream" where
  "pb_decode_varint32 s = snd (pb_decode_varint32_eof s)"

function varint_loop :: "byte \<Rightarrow> u64 \<Rightarrow> 'u pb_istream \<Rightarrow> u64 outcome \<times> 'u pb_istream" where
  "varint_loop bitpos result s =
     (if 64 \<le> bitpos then pb_return_error ''varint overflow'' s
      else seq_ok (pb_readbyte s) (\<lambda>b s1.
        let result' = result OR push_bit (unat bitpos) (ucast (b AND 0x7F));
            bitpos' = bitpos + 7
        in if b AND 0x80 \<noteq> 0 then varint_loop bitpos' result' s1 else (Ok result', s1)))"
  by pat_completeness auto
termination
  by (relation "measure (\<lambda>(bitpos, result, s). bytes_left s)") (auto dest: pb_readbyte_decreases)

declare varint_loop.simps [simp del]

definition pb_decode_varint :: "'u pb_istream \<Rightarrow> u64 outcome \<times> 'u pb_istream" where
  "pb_decode_varint s = varint_loop 0 0 s"

function pb_skip_varint :: "'u pb_istream \<Rightarrow> unit outcome \<times> 'u pb_istream" where
  "pb_skip_varint s =
     seq_ok (pb_read True 1 s) (\<lambda>bs s1.
       if hd bs AND 0x80 \<noteq> 0 then pb_skip_varint s1 else (Ok (), s1))"
  by pat_completeness auto
termination
  by (relation "measure bytes_left") (auto dest: pb_read_byte_decreases)

declare pb_skip_varint.simps [simp del]

section \<open>Tags, skipping, raw values and substreams\<close>

text \<open>An uninterpreted wire type is any value of the low three bits of a tag.\<close>

definition PB_WT_VARINT :: nat where "PB_WT_VARINT = 0"
definition PB_WT_64BIT :: nat where "PB_WT_64BIT = 1"
definition PB_WT_STRING :: nat where "PB_WT_STRING = 2"
definition PB_WT_32BIT :: nat where "PB_WT_32BIT = 5"

lemmas pb_wt_defs [simp] = PB_WT_VARINT_def PB_WT_64BIT_def PB_WT_STRING_def PB_WT_32BIT_def

definition ignore_bytes :: "byte list outcome \<times> 's \<Rightarrow> unit outcome \<times> 's" where
  "ignore_bytes r = seq_ok r (\<lambda>_ s. (Ok (), s))"

definition pb_skip_string :: "'u pb_istream \<Rightarrow> unit outcome \<times> 'u pb_istream" where
  "pb_skip_string s =
     seq_ok (pb_decode_varint32 s) (\<lambda>len s1. ignore_bytes (pb_read False (unat len) s1))"

text \<open>The Boolean is \<^verbatim>\<open>*eof\<close>; on success the wire type and the tag are returned.\<close>

definition pb_decode_tag :: "'u pb_istream \<Rightarrow> bool \<times> (nat \<times> u32) outcome \<times> 'u pb_istream" where
  "pb_decode_tag s = (case pb_decode_varint32_eof s of
      (eof, Ok temp, s1) \<Rightarrow>
        if temp = 0 then (True, Fail, s1)
        else (eof, Ok (unat (temp AND 7), drop_bit 3 temp), s1)
    | (eof, Fail, s1) \<Rightarrow> (eof, Fail, s1)
    | (eof, Undef, s1) \<Rightarrow> (eof, Undef, s1))"

definition pb_skip_field :: "nat \<Rightarrow> 'u pb_istream \<Rightarrow> unit outcome \<times> 'u pb_istream" where
  "pb_skip_field wire_type s =
     (if wire_type = PB_WT_VARINT then pb_skip_varint s
      else if wire_type = PB_WT_64BIT then ignore_bytes (pb_read False 8 s)
      else if wire_type = PB_WT_STRING then pb_skip_string s
      else if wire_type = PB_WT_32BIT then ignore_bytes (pb_read False 4 s)
      else pb_return_error ''invalid wire_type'' s)"

function raw_varint_loop :: "nat \<Rightarrow> nat \<Rightarrow> byte list \<Rightarrow> 'u pb_istream \<Rightarrow> byte list outcome \<times> 'u pb_istream" where
  "raw_varint_loop max_size sz buf s =
     (if max_size < Suc sz then (Fail, s)
      else seq_ok (pb_read True 1 s) (\<lambda>bs s1.
        if hd bs AND 0x80 \<noteq> 0 then raw_varint_loop max_size (Suc sz) (buf @ bs) s1
        else (Ok (buf @ bs), s1)))"
  by pat_completeness auto
termination by (relation "measure (\<lambda>(m, sz, buf, s). m - sz)") auto

declare raw_varint_loop.simps [simp del]

text \<open>\<^verbatim>\<open>*size\<close> on return is the length of the bytes returned.\<close>

definition read_raw_value :: "nat \<Rightarrow> nat \<Rightarrow> 'u pb_istream \<Rightarrow> byte list outcome \<times> 'u pb_istream" where
  "read_raw_value wire_type max_size s =
     (if wire_type = PB_WT_VARINT then raw_varint_loop max_size 0 [] s
      else if wire_type = PB_WT_64BIT then pb_read True 8 s
      else if wire_type = PB_WT_32BIT then pb_read True 4 s
      else pb_return_error ''invalid wire_type'' s)"

text \<open>On success the substream is returned and the parent has the length taken off.\<close>

definition pb_make_string_substream :: "'u pb_istream \<Rightarrow> 'u pb_istream outcome \<times> 'u pb_istream" where
  "pb_make_string_substream s =
     seq_ok (pb_decode_varint32 s) (\<lambda>len s1.
       if bytes_left s1 < unat len then pb_return_error ''parent stream too short'' s1
       else (Ok (s1\<lparr>bytes_left := unat len\<rparr>), s1\<lparr>bytes_left := bytes_left s1 - unat len\<rparr>))"

definition pb_close_string_substream ::
  "'u pb_istream \<Rightarrow> 'u pb_istream \<Rightarrow> unit outcome \<times> 'u pb_istream" where
  "pb_close_string_substream substream s =
     (let finish = (\<lambda>sub. (Ok (), s\<lparr>is_state := is_state sub, is_errmsg := is_errmsg sub\<rparr>))
      in if bytes_left substream \<noteq> 0
         then (case pb_read False (bytes_left substream) substream of
             (Ok _, sub) \<Rightarrow> finish sub
           | (Fail, _) \<Rightarrow> (Fail, s)
           | (Undef, _) \<Rightarrow> (Undef, s))
         else finish substream)"

section \<open>Values\<close>

definition pb_decode_svarint :: "'u pb_istream \<Rightarrow> u64 outcome \<times> 'u pb_istream" where
  "pb_decode_svarint s =
     seq_ok (pb_decode_varint s) (\<lambda>value s1.
       (Ok (if value AND 1 \<noteq> 0 then NOT (drop_bit 1 value) else drop_bit 1 value), s1))"

definition pb_decode_bool :: "'u pb_istream \<Rightarrow> bool outcome \<times> 'u pb_istream" where
  "pb_decode_bool s = seq_ok (pb_decode_varint32 s) (\<lambda>value s1. (Ok (value \<noteq> 0), s1))"

definition pb_decode_fixed32 :: "'u pb_istream \<Rightarrow> u32 outcome \<times> 'u pb_istream" where
  "pb_decode_fixed32 s =
     seq_ok (pb_read True 4 s) (\<lambda>bytes s1.
       (Ok (push_bit 0 (ucast (bytes ! 0)) OR push_bit 8 (ucast (bytes ! 1)) OR
            push_bit 16 (ucast (bytes ! 2)) OR push_bit 24 (ucast (bytes ! 3))), s1))"

definition pb_decode_fixed64 :: "'u pb_istream \<Rightarrow> u64 outcome \<times> 'u pb_istream" where
  "pb_decode_fixed64 s =
     seq_ok (pb_read True 8 s) (\<lambda>bytes s1.
       (Ok (push_bit 0 (ucast (bytes ! 0)) OR push_bit 8 (ucast (bytes ! 1)) OR
            push_bit 16 (ucast (bytes ! 2)) OR push_bit 24 (ucast (bytes ! 3)) OR
            push_bit 32 (ucast (bytes ! 4)) OR push_bit 40 (ucast (bytes ! 5)) OR
            push_bit 48 (ucast (bytes ! 6)) OR push_bit 56 (ucast (bytes ! 7))), s1))"

end
