(* ===== verification/Pb_Source.thy ===== *)
theory Pb_Source
  imports Pb_Istream
begin

text \<open>
  What the decoders rely on a stream callback for, as the locale \<open>pb_source\<close>: the documented
  contract of \<^verbatim>\<open>pb_istream_s\<close> in \<^verbatim>\<open>pb_decode.h\<close> (a callback delivers the next \<^verbatim>\<open>count\<close> bytes of its
  source and moves on). The behaviour of every stream decoder is proved once in the locale,
  against the list of bytes the stream still offers, and holds for each interpretation: the
  library's own \<^verbatim>\<open>buf_read\<close> is interpreted at the end.
\<close>

section \<open>The value of a varint\<close>

text \<open>Seven bits per byte, least significant group first.\<close>

fun varint_value :: "byte list \<Rightarrow> nat" where
  "varint_value [] = 0"
| "varint_value (b # bs) = unat b mod 128 + 128 * varint_value bs"

lemma varint_value_append:
  "varint_value (xs @ ys) = varint_value xs + 128 ^ length xs * varint_value ys"
  by (induction xs) (auto simp: algebra_simps)

lemma pow2_7: "(2::nat) ^ (7 * n) = 128 ^ n" "(2::nat) ^ (n * 7) = 128 ^ n"
  by (simp_all add: power_mult mult.commute [of n])

lemma varint_value_less: "varint_value bs < 128 ^ length bs"
proof (induction bs)
  case (Cons b bs)
  have "unat b mod 128 < 128" by simp
  with Cons have "unat b mod 128 + 128 * varint_value bs < 128 * Suc (varint_value bs)" by simp
  also have "\<dots> \<le> 128 * 128 ^ length bs" using Cons by (intro mult_le_mono) auto
  finally show ?case by simp
qed simp

text \<open>A byte with the continuation bit.\<close>

abbreviation cont :: "byte \<Rightarrow> bool" where
  "cont b \<equiv> 128 \<le> unat b"

lemma cont_iff [simp]: "(b :: byte) AND 128 = 0 \<longleftrightarrow> \<not> cont b"
  by (simp add: byte_and_128_eq_0 not_le)

text \<open>The canonical encoding of a number, the inverse of \<open>varint_value\<close>.\<close>

fun venc :: "nat \<Rightarrow> byte list" where
  "venc n = (if n < 128 then [of_nat n] else of_nat (n mod 128 + 128) # venc (n div 128))"

declare venc.simps [simp del]

lemma venc_shape:
  obtains pre t where "venc n = pre @ [t]" "\<forall>b \<in> set pre. cont b" "\<not> cont t" "n \<noteq> 0 \<longrightarrow> t \<noteq> 0"
proof (induction n arbitrary: thesis rule: venc.induct)
  case (1 n)
  show ?case
  proof (cases "n < 128")
    case True
    have "n \<noteq> 0 \<longrightarrow> (of_nat n :: byte) \<noteq> 0" using True by (auto simp: word_unat_eq_iff unat_of_nat)
    with True show ?thesis by (intro "1.prems" [of "[]" "of_nat n"]) (simp_all add: venc.simps unat_of_nat)
  next
    case False
    obtain pre t where *: "venc (n div 128) = pre @ [t]" "\<forall>b \<in> set pre. cont b" "\<not> cont t"
      "n div 128 \<noteq> 0 \<longrightarrow> t \<noteq> 0" using "1.IH" [OF False] by blast
    have "cont (of_nat (n mod 128 + 128))" by (simp add: unat_of_nat del: of_nat_add)
    with * False show ?thesis
      by (intro "1.prems" [of "of_nat (n mod 128 + 128) # pre" t]) (simp_all add: venc.simps [of n])
  qed
qed

lemma varint_value_venc [simp]: "varint_value (venc n) = n"
proof (induction n rule: venc.induct)
  case (1 n)
  have "(n mod 128 + 128) mod 256 mod 128 = n mod 128" by (simp add: mod_mod_cancel)
  with 1 show ?case by (cases "n < 128") (simp_all add: venc.simps [of n] unat_of_nat del: of_nat_add)
qed

lemma length_venc: "0 < k \<Longrightarrow> n < 128 ^ k \<Longrightarrow> length (venc n) \<le> k"
proof (induction n arbitrary: k rule: venc.induct)
  case (1 n)
  show ?case
  proof (cases "n < 128")
    case False
    with "1.prems" obtain j where j: "k = Suc j" "0 < j" by (cases k; cases "k - 1") auto
    with "1.prems" have "n div 128 < 128 ^ j" by (simp add: less_mult_imp_div_less mult.commute)
    with "1.IH" [OF False, of j] j False show ?thesis by (simp add: venc.simps [of n])
  qed (use "1.prems" in \<open>simp add: venc.simps [of n]\<close>)
qed

lemma length_venc_ge: "128 ^ k \<le> n \<Longrightarrow> k < length (venc n)"
proof (induction k arbitrary: n)
  case 0
  then show ?case by (simp add: venc.simps [of n])
next
  case (Suc k)
  have "(128::nat) \<le> 128 ^ Suc k" by simp
  with Suc.prems have n: "128 \<le> n" by linarith
  from Suc.prems have "128 ^ k \<le> n div 128" by (simp add: less_eq_div_iff_mult_less_eq mult.commute)
  with Suc.IH [of "n div 128"] n show ?case by (simp add: venc.simps [of n])
qed

lemma venc_neq_Nil [simp]: "venc n \<noteq> []"
  by (simp add: venc.simps [of n])

lemma venc_split:
  "128 ^ k \<le> n \<Longrightarrow> \<exists>pre. venc n = pre @ venc (n div 128 ^ k) \<and> length pre = k \<and>
     (\<forall>b \<in> set pre. cont b) \<and> varint_value pre = n mod 128 ^ k"
proof (induction k arbitrary: n)
  case 0
  then show ?case by simp
next
  case (Suc k)
  have "(128::nat) \<le> 128 ^ Suc k" by simp
  with Suc.prems have n: "128 \<le> n" by linarith
  from Suc.prems have "128 ^ k \<le> n div 128" by (simp add: less_eq_div_iff_mult_less_eq mult.commute)
  from Suc.IH [OF this] obtain pre where
    pre: "venc (n div 128) = pre @ venc (n div 128 div 128 ^ k)" "length pre = k"
      "\<forall>b \<in> set pre. cont b" "varint_value pre = n div 128 mod 128 ^ k" by blast
  let ?b = "of_nat (n mod 128 + 128) :: byte"
  have "unat ?b = n mod 128 + 128" by (simp add: unat_of_nat del: of_nat_add)
  moreover have "n mod (128 * 128 ^ k) = 128 * (n div 128 mod 128 ^ k) + n mod 128"
    by (rule mod_mult2_eq)
  ultimately show ?case using n pre
    by (intro exI [of _ "?b # pre"]) (simp add: venc.simps [of n] div_mult2_eq del: of_nat_add)
qed

section \<open>One step of the accumulators\<close>

lemma varint_acc_step:
  fixes r :: "'a::len word"
  assumes r: "unat r < 2 ^ (7 * i)" and len: "8 \<le> LENGTH('a)"
  shows "r OR push_bit (7 * i) (ucast (b AND (127 :: byte))) =
           of_nat (unat r + (unat b mod 128) * 2 ^ (7 * i))" (is ?eq)
    and "unat (r OR push_bit (7 * i) (ucast (b AND (127 :: byte)) :: 'a word)) < 2 ^ (7 * Suc i)" (is ?less)
proof -
  have "unat (ucast (b AND (127 :: byte)) :: 'a word) = unat b mod 128"
    using len by (simp add: unat_ucast_up unat_and_127)
  with unat_or_push_bit [OF r]
  have u: "unat (r OR push_bit (7 * i) (ucast (b AND (127 :: byte)))) =
      unat r + ((unat b mod 128) * 2 ^ (7 * i)) mod 2 ^ LENGTH('a)" by simp
  then have "unat (r OR push_bit (7 * i) (ucast (b AND (127 :: byte)))) mod 2 ^ LENGTH('a) =
      (unat r + (unat b mod 128) * 2 ^ (7 * i)) mod 2 ^ LENGTH('a)"
    by (simp add: mod_add_right_eq)
  then show ?eq by (simp add: word_unat_eq_iff unat_of_nat del: of_nat_add of_nat_mult)
  have "((unat b mod 128) * 2 ^ (7 * i)) mod 2 ^ LENGTH('a) \<le> 127 * 2 ^ (7 * i)"
    by (rule order_trans [OF mod_less_eq_dividend]) simp
  with u r show ?less by (simp add: power_add)
qed

lemma varint_acc_shift:
  fixes r :: "'a::len word"
  assumes "unat r < 2 ^ (7 * i)" "8 \<le> LENGTH('a)"
  shows "(of_nat (unat (r OR push_bit (7 * i) (ucast (b AND (127 :: byte)) :: 'a word)) +
            varint_value bs * 2 ^ (7 * Suc i)) :: 'a word) =
         of_nat (unat r + varint_value (b # bs) * 2 ^ (7 * i))"
proof -
  have "(of_nat (unat (r OR push_bit (7 * i) (ucast (b AND (127 :: byte)) :: 'a word)) +
      varint_value bs * 2 ^ (7 * Suc i)) :: 'a word) =
    of_nat (unat r + (unat b mod 128) * 2 ^ (7 * i)) + of_nat (varint_value bs * 2 ^ (7 * Suc i))"
    using varint_acc_step(1) [OF assms] by (simp del: of_nat_mult)
  also have "\<dots> = of_nat (unat r + varint_value (b # bs) * 2 ^ (7 * i))"
    unfolding of_nat_add [symmetric]
    by (rule arg_cong [where f = of_nat]) (simp add: algebra_simps power_add)
  finally show ?thesis .
qed

section \<open>The contract of a source of bytes\<close>

locale pb_source =
  fixes cb :: "'u istream_callback"
    and content :: "'u istream_state \<Rightarrow> byte list"
    and valid :: "'u istream_state \<Rightarrow> bool"
    and adv :: "nat \<Rightarrow> 'u istream_state \<Rightarrow> 'u istream_state"
  assumes read_law: "is_callback s = cb \<Longrightarrow> valid (is_state s) \<Longrightarrow>
      0 < n \<Longrightarrow> n \<le> length (content (is_state s)) \<Longrightarrow>
      call_callback True n s = (Ok (take n (content (is_state s))), s\<lparr>is_state := adv n (is_state s)\<rparr>)"
    and skip_law: "cb = Buf_read \<Longrightarrow> is_callback s = cb \<Longrightarrow> valid (is_state s) \<Longrightarrow>
      n \<le> length (content (is_state s)) \<Longrightarrow>
      call_callback False n s = (Ok [], s\<lparr>is_state := adv n (is_state s)\<rparr>)"
    and content_adv [simp]: "valid st \<Longrightarrow> n \<le> length (content st) \<Longrightarrow>
      content (adv n st) = drop n (content st)"
    and valid_adv [simp]: "valid st \<Longrightarrow> n \<le> length (content st) \<Longrightarrow> valid (adv n st)"
    and adv_adv [simp]: "valid st \<Longrightarrow> m + n \<le> length (content st) \<Longrightarrow>
      adv n (adv m st) = adv (m + n) st"
    and adv_0 [simp]: "valid st \<Longrightarrow> adv 0 st = st"
begin

definition ok :: "'u pb_istream \<Rightarrow> bool" where
  "ok s \<longleftrightarrow> is_callback s = cb \<and> valid (is_state s) \<and> bytes_left s \<le> length (content (is_state s))"

definition avail :: "'u pb_istream \<Rightarrow> byte list" where
  "avail s = take (bytes_left s) (content (is_state s))"

definition consume :: "nat \<Rightarrow> 'u pb_istream \<Rightarrow> 'u pb_istream" where
  "consume n s = s\<lparr>is_state := adv n (is_state s), bytes_left := bytes_left s - n\<rparr>"

lemma length_avail: "ok s \<Longrightarrow> length (avail s) = bytes_left s"
  by (simp add: ok_def avail_def)

lemma ok_consume [simp]: "ok s \<Longrightarrow> n \<le> bytes_left s \<Longrightarrow> ok (consume n s)"
  by (auto simp: ok_def consume_def)

lemma avail_consume [simp]: "ok s \<Longrightarrow> n \<le> bytes_left s \<Longrightarrow> avail (consume n s) = drop n (avail s)"
  by (auto simp: ok_def avail_def consume_def drop_take)

lemma consume_consume [simp]:
  "ok s \<Longrightarrow> m + n \<le> bytes_left s \<Longrightarrow> consume n (consume m s) = consume (m + n) s"
  by (auto simp: ok_def consume_def)

lemma consume_0 [simp]: "ok s \<Longrightarrow> consume 0 s = s"
  by (simp add: ok_def consume_def)

lemma consume_sel [simp]:
  "bytes_left (consume n s) = bytes_left s - n" "is_errmsg (consume n s) = is_errmsg s"
  "is_callback (consume n s) = is_callback s" "is_state (consume n s) = adv n (is_state s)"
  by (simp_all add: consume_def)

lemma ok_set_error [simp]: "ok (pb_set_error m s) = ok s"
  by (simp add: ok_def pb_set_error_def)

lemma avail_set_error [simp]: "avail (pb_set_error m s) = avail s"
  by (simp add: avail_def pb_set_error_def)

subsection \<open>Bytes\<close>

lemma readbyte:
  "ok s \<Longrightarrow> pb_readbyte s = (case avail s of
      [] \<Rightarrow> pb_return_error ''end-of-stream'' s
    | b # _ \<Rightarrow> (Ok b, consume 1 s))"
  by (cases "content (is_state s)"; cases "bytes_left s")
    (auto simp: pb_readbyte_def ok_def avail_def consume_def read_law)

lemma readbyte_Cons: "ok s \<Longrightarrow> avail s = b # bs \<Longrightarrow> pb_readbyte s = (Ok b, consume 1 s)"
  by (simp add: readbyte)

lemma readbyte_Nil: "ok s \<Longrightarrow> avail s = [] \<Longrightarrow> pb_readbyte s = pb_return_error ''end-of-stream'' s"
  by (simp add: readbyte)

lemma read_some:
  "ok s \<Longrightarrow> 0 < n \<Longrightarrow> pb_read_some True n s =
     (if bytes_left s < n then pb_return_error ''end-of-stream'' s
      else (Ok (take n (avail s)), consume n s))"
  by (auto simp: pb_read_some_def read_law ok_def avail_def consume_def)

lemma read:
  "ok s \<Longrightarrow> pb_read True n s =
     (if bytes_left s < n then pb_return_error ''end-of-stream'' s
      else (Ok (take n (avail s)), consume n s))"
  by (auto simp: pb_read_def read_some)

lemma read_skip_ok: "ok s \<Longrightarrow> 0 < n \<Longrightarrow> n \<le> bytes_left s \<Longrightarrow> pb_read_skip n s = (Ok [], consume n s)"
proof (induction n arbitrary: s rule: less_induct)
  case (less n)
  then show ?case
    by (subst pb_read_skip.simps) (auto simp: read_some)
qed

text \<open>
  Skipping succeeds and moves on by the length when the stream has the bytes, whichever way it
  is done; when it has not, it fails, after at most what was there.
\<close>

lemma skip_ok: "ok s \<Longrightarrow> n \<le> bytes_left s \<Longrightarrow> pb_read False n s = (Ok [], consume n s)"
  by (cases "is_callback s = Buf_read")
    (auto simp: pb_read_def read_skip_ok pb_read_some_def skip_law ok_def consume_def)

lemma read_skip_short:
  "ok s \<Longrightarrow> bytes_left s < n \<Longrightarrow>
     \<exists>k \<le> bytes_left s. pb_read_skip n s = pb_return_error ''end-of-stream'' (consume k s)"
proof (induction n arbitrary: s rule: less_induct)
  case (less n)
  show ?case
  proof (cases "16 < n \<and> 16 \<le> bytes_left s")
    case True
    with less have "\<exists>k \<le> bytes_left s - 16. pb_read_skip (n - 16) (consume 16 s) =
        pb_return_error ''end-of-stream'' (consume k (consume 16 s))"
      using less.IH [of "n - 16" "consume 16 s"] by auto
    then obtain k where k: "k \<le> bytes_left s - 16"
        "pb_read_skip (n - 16) (consume 16 s) = pb_return_error ''end-of-stream'' (consume k (consume 16 s))"
      by blast
    have "16 + k \<le> bytes_left s" using k(1) True by linarith
    with k True less.prems have "pb_read_skip n s = pb_return_error ''end-of-stream'' (consume (16 + k) s)"
      by (subst pb_read_skip.simps) (simp add: read_some)
    with k True show ?thesis by (intro exI [of _ "16 + k"]) auto
  next
    case False
    with less.prems have "pb_read_skip n s = pb_return_error ''end-of-stream'' (consume 0 s)"
      by (subst pb_read_skip.simps) (auto simp: read_some pb_return_error_def)
    then show ?thesis by blast
  qed
qed

lemma skip_short:
  "ok s \<Longrightarrow> bytes_left s < n \<Longrightarrow>
     \<exists>k \<le> bytes_left s. pb_read False n s = pb_return_error ''end-of-stream'' (consume k s)"
proof (cases "is_callback s = Buf_read")
  case True
  assume "ok s" "bytes_left s < n"
  with True have "pb_read False n s = pb_return_error ''end-of-stream'' (consume 0 s)"
    by (auto simp: pb_read_def pb_read_some_def)
  then show ?thesis by blast
qed (auto simp: pb_read_def read_skip_short)

subsection \<open>64-bit varints\<close>

text \<open>One turn of the loop: the bit position stays below 256 for the ten bytes it may read.\<close>

lemma bitpos_step: "unat (bp :: byte) = 7 * i \<Longrightarrow> i \<le> 10 \<Longrightarrow> unat (bp + 7) = 7 * Suc i"
  by (simp add: unat_word_ariths)

lemma varint_loop_more:
  assumes "ok s" "avail s = b # bs" "cont b" "unat bp = 7 * i" "i < 10"
  shows "varint_loop bp r s =
     varint_loop (bp + 7) (r OR push_bit (7 * i) (ucast (b AND 127))) (consume 1 s)"
  using assms by (subst varint_loop.simps) (simp add: readbyte_Cons word_le_nat_alt)

lemma varint_loop_end:
  assumes "ok s" "avail s = pre @ t # rest" "\<forall>b \<in> set pre. cont b" "\<not> cont t"
    and "unat bp = 7 * i" "i + length pre < 10" "unat r < 2 ^ (7 * i)"
  shows "varint_loop bp r s =
     (Ok (of_nat (unat r + varint_value (pre @ [t]) * 2 ^ (7 * i))), consume (Suc (length pre)) s)"
  using assms
proof (induction pre arbitrary: i bp r s)
  case Nil
  then have "varint_loop bp r s = (Ok (r OR push_bit (7 * i) (ucast (t AND 127))), consume 1 s)"
    by (subst varint_loop.simps) (simp add: readbyte_Cons word_le_nat_alt)
  with Nil show ?case by (simp add: varint_acc_step(1) del: of_nat_add of_nat_mult)
next
  case (Cons b pre)
  let ?r = "r OR push_bit (7 * i) (ucast (b AND (127 :: byte)))"
  have len: "Suc (length pre) < bytes_left s"
    using length_avail [of s] Cons.prems by simp
  have "varint_loop bp r s = varint_loop (bp + 7) ?r (consume 1 s)"
    using Cons.prems by (intro varint_loop_more) auto
  also have "\<dots> = (Ok (of_nat (unat ?r + varint_value (pre @ [t]) * 2 ^ (7 * Suc i))),
      consume (Suc (length pre)) (consume 1 s))"
    using Cons.prems len varint_acc_step(2) [of r i b] bitpos_step [of bp i]
    by (intro Cons.IH) auto
  also have "of_nat (unat ?r + varint_value (pre @ [t]) * 2 ^ (7 * Suc i)) =
      (of_nat (unat r + varint_value ((b # pre) @ [t]) * 2 ^ (7 * i)) :: u64)"
    using varint_acc_shift [of r i b "pre @ [t]"] Cons.prems by simp
  finally show ?case using Cons.prems len by simp
qed

lemma varint_loop_overflow:
  assumes "ok s" "avail s = pre @ rest" "\<forall>b \<in> set pre. cont b"
    and "unat bp = 7 * i" "i + length pre = 10"
  shows "varint_loop bp r s = pb_return_error ''varint overflow'' (consume (length pre) s)"
  using assms
proof (induction pre arbitrary: i bp r s)
  case Nil
  then show ?case by (subst varint_loop.simps) (simp add: word_le_nat_alt)
next
  case (Cons b pre)
  then have "Suc (length pre) \<le> bytes_left s" using length_avail [of s] by simp
  with Cons show ?case using bitpos_step [of bp i] Cons.IH [of "consume 1 s" "bp + 7" "Suc i"]
    by (simp add: varint_loop_more)
qed

lemma varint_loop_short:
  assumes "ok s" "avail s = pre" "\<forall>b \<in> set pre. cont b"
    and "unat bp = 7 * i" "i + length pre < 10"
  shows "varint_loop bp r s = pb_return_error ''end-of-stream'' (consume (length pre) s)"
  using assms
proof (induction pre arbitrary: i bp r s)
  case Nil
  then show ?case by (subst varint_loop.simps) (simp add: word_le_nat_alt readbyte_Nil pb_return_error_def)
next
  case (Cons b pre)
  then have "Suc (length pre) = bytes_left s" using length_avail [of s] by simp
  with Cons show ?case using bitpos_step [of bp i] Cons.IH [of "consume 1 s" "bp + 7" "Suc i"]
    by (simp add: varint_loop_more)
qed

text \<open>
  The whole of \<^verbatim>\<open>pb_decode_varint\<close>: with the bytes that carry the continuation bit split off, the
  value of up to ten bytes modulo \<open>2\<^sup>6\<^sup>4\<close>, or the error after the bytes read.
\<close>

lemma decode_varint:
  assumes "ok s" and pre: "pre = takeWhile cont (avail s)" and rest: "rest = dropWhile cont (avail s)"
  shows "pb_decode_varint s =
     (if 10 \<le> length pre then pb_return_error ''varint overflow'' (consume 10 s)
      else case rest of
          [] \<Rightarrow> pb_return_error ''end-of-stream'' (consume (length pre) s)
        | t # _ \<Rightarrow> (Ok (of_nat (varint_value (pre @ [t]))), consume (Suc (length pre)) s))"
proof -
  have split: "avail s = pre @ rest" and cont: "\<forall>b \<in> set pre. cont b"
    by (auto simp: pre rest dest: set_takeWhileD)
  show ?thesis
  proof (cases "10 \<le> length pre")
    case True
    then have "avail s = take 10 pre @ (drop 10 pre @ rest)" "length (take 10 pre) = 10"
      using split by auto
    moreover have "\<forall>b \<in> set (take 10 pre). cont b" using cont by (auto dest: in_set_takeD)
    ultimately show ?thesis using True assms(1) varint_loop_overflow [of s "take 10 pre" _ 0 0]
      by (simp add: pb_decode_varint_def)
  next
    case False
    show ?thesis
    proof (cases rest)
      case Nil
      with False split cont assms(1) show ?thesis using varint_loop_short [of s pre 0 0]
        by (simp add: pb_decode_varint_def)
    next
      case (Cons t ts)
      then have "\<not> cont t" using rest by (metis hd_dropWhile list.discI list.sel(1))
      with False split cont assms(1) Cons show ?thesis
        using varint_loop_end [of s pre t ts 0 0 0] by (simp add: pb_decode_varint_def)
    qed
  qed
qed

lemma decode_varint_venc:
  assumes "ok s" "avail s = venc n @ rest" "n < 2 ^ 64"
  shows "pb_decode_varint s = (Ok (of_nat n), consume (length (venc n)) s)"
proof -
  obtain pre t where v: "venc n = pre @ [t]" "\<forall>b \<in> set pre. cont b" "\<not> cont t"
    using venc_shape [of n] by metis
  have "length (venc n) \<le> 10" using assms(3) by (intro length_venc) auto
  with v have "length pre < 10" by simp
  with assms v show ?thesis using varint_loop_end [of s pre t rest 0 0 0] varint_value_venc [of n]
    by (simp add: pb_decode_varint_def)
qed

subsection \<open>32-bit varints\<close>

lemma varint32_loop_more:
  assumes "ok s" "avail s = b # bs" "cont b" "unat bp = 7 * i" "i < 5"
  shows "varint32_loop bp r s =
     varint32_loop (bp + 7) (r OR push_bit (7 * i) (ucast (b AND 127))) (consume 1 s)"
  using assms by (subst varint32_loop.simps) (simp add: readbyte_Cons word_le_nat_alt)

lemma varint32_loop_run:
  assumes "ok s" "avail s = pre @ rest" "\<forall>b \<in> set pre. cont b"
    and "unat bp = 7 * i" "i + length pre \<le> 5" "unat r < 2 ^ (7 * i)"
  shows "\<exists>bp' r'. varint32_loop bp r s = varint32_loop bp' r' (consume (length pre) s) \<and>
     unat bp' = 7 * (i + length pre) \<and> unat r' < 2 ^ (7 * (i + length pre)) \<and>
     r' = of_nat (unat r + varint_value pre * 2 ^ (7 * i))"
  using assms
proof (induction pre arbitrary: i bp r s)
  case Nil
  then show ?case by auto
next
  case (Cons b pre)
  let ?r = "r OR push_bit (7 * i) (ucast (b AND (127 :: byte)))"
  have len: "Suc (length pre) \<le> bytes_left s" using length_avail [of s] Cons.prems by simp
  have step: "varint32_loop bp r s = varint32_loop (bp + 7) ?r (consume 1 s)"
    using Cons.prems by (intro varint32_loop_more) auto
  have "\<exists>bp' r'. varint32_loop (bp + 7) ?r (consume 1 s) =
      varint32_loop bp' r' (consume (length pre) (consume 1 s)) \<and>
      unat bp' = 7 * (Suc i + length pre) \<and> unat r' < 2 ^ (7 * (Suc i + length pre)) \<and>
      r' = of_nat (unat ?r + varint_value pre * 2 ^ (7 * Suc i))"
    using Cons.prems len varint_acc_step(2) [of r i b] bitpos_step [of bp i]
    by (intro Cons.IH) auto
  then obtain bp' r' where *: "varint32_loop (bp + 7) ?r (consume 1 s) =
        varint32_loop bp' r' (consume (length pre) (consume 1 s))"
      "unat bp' = 7 * (Suc i + length pre)" "unat r' < 2 ^ (7 * (Suc i + length pre))"
      "r' = of_nat (unat ?r + varint_value pre * 2 ^ (7 * Suc i))"
    by blast
  have "varint32_loop bp r s = varint32_loop bp' r' (consume (length (b # pre)) s)"
    unfolding step *(1) using len Cons.prems(1) by simp
  moreover have "r' = of_nat (unat r + varint_value (b # pre) * 2 ^ (7 * i))"
    unfolding *(4) using Cons.prems by (intro varint_acc_shift) auto
  moreover have "unat bp' = 7 * (i + length (b # pre))" "unat r' < 2 ^ (7 * (i + length (b # pre)))"
    using *(2,3) by simp_all
  ultimately show ?case by blast
qed

lemma varint32_loop_end:
  assumes "ok s" "avail s = pre @ t # rest" "\<forall>b \<in> set pre. cont b" "\<not> cont t"
    and "unat bp = 7 * i" "i + length pre < 5" "unat r < 2 ^ (7 * i)"
  shows "\<exists>bp'. varint32_loop bp r s =
      (Ok (of_nat (unat r + varint_value (pre @ [t]) * 2 ^ (7 * i)), bp', t), consume (Suc (length pre)) s) \<and>
    unat bp' = 7 * Suc (i + length pre)"
proof -
  obtain bp' r' where *: "varint32_loop bp r s = varint32_loop bp' r' (consume (length pre) s)"
      "unat bp' = 7 * (i + length pre)" "unat r' < 2 ^ (7 * (i + length pre))"
      "r' = of_nat (unat r + varint_value pre * 2 ^ (7 * i))"
    using varint32_loop_run [of s pre "t # rest" bp i r] assms by auto
  have len: "Suc (length pre) \<le> bytes_left s" using length_avail [of s] assms by simp
  have "varint32_loop bp' r' (consume (length pre) s) =
      (Ok (r' OR push_bit (7 * (i + length pre)) (ucast (t AND 127)), bp' + 7, t), consume (Suc (length pre)) s)"
    using assms * len by (subst varint32_loop.simps) (simp add: readbyte_Cons word_le_nat_alt)
  moreover have "r' OR push_bit (7 * (i + length pre)) (ucast (t AND (127 :: byte))) =
      r' + of_nat ((unat t mod 128) * 2 ^ (7 * (i + length pre)))"
    using varint_acc_step(1) [OF *(3)] by (simp del: of_nat_mult)
  moreover have "r' + of_nat ((unat t mod 128) * 2 ^ (7 * (i + length pre))) =
      of_nat (unat r + varint_value (pre @ [t]) * 2 ^ (7 * i))"
    unfolding *(4) of_nat_add [symmetric]
    by (rule arg_cong [where f = of_nat]) (simp add: varint_value_append pow2_7 power_add distrib_left distrib_right ac_simps)
  ultimately show ?thesis using * bitpos_step [of bp' "i + length pre"] assms by auto
qed

text \<open>A value of up to five bytes is accepted exactly when it fits into 32 bits.\<close>

lemma varint32_five_bytes:
  assumes "length pre \<le> 4" "\<not> cont t"
  shows "length pre = 4 \<and> (t :: byte) AND 0x70 \<noteq> 0 \<longleftrightarrow> 2 ^ 32 \<le> varint_value (pre @ [t])"
proof -
  have val: "varint_value (pre @ [t]) = varint_value pre + 128 ^ length pre * unat t"
    using assms(2) by (simp add: varint_value_append)
  have t16: "t AND 0x70 = 0 \<longleftrightarrow> unat t < 16" using assms(2) by (simp add: byte_and_112_eq_0)
  show ?thesis
  proof (cases "length pre = 4")
    case True
    with varint_value_less [of pre] val t16 show ?thesis by auto
  next
    case False
    with assms have "length pre \<le> 3" by simp
    then have "(128::nat) ^ length (pre @ [t]) \<le> 128 ^ 4" by (intro power_increasing) auto
    with varint_value_less [of "pre @ [t]"] have "varint_value (pre @ [t]) < 128 ^ 4" by linarith
    with False show ?thesis by simp
  qed
qed

lemma decode_varint32_short:
  assumes "ok s" "avail s = pre @ t # rest" "\<forall>b \<in> set pre. cont b" "\<not> cont t" "length pre \<le> 4"
  shows "pb_decode_varint32_eof s = (False,
     if varint_value (pre @ [t]) < 2 ^ 32
     then (Ok (of_nat (varint_value (pre @ [t]))), consume (Suc (length pre)) s)
     else pb_return_error ''varint overflow'' (consume (Suc (length pre)) s))"
proof (cases pre)
  case Nil
  have "(of_nat (unat t) :: u32) = ucast t" by simp
  with Nil assms show ?thesis
    using varint_value_less [of "[t]"] by (simp add: pb_decode_varint32_eof_def readbyte_Cons)
next
  case (Cons b bs)
  have len: "Suc (length pre) \<le> bytes_left s" using length_avail [of s] assms by simp
  have r0: "unat (ucast (b AND (127 :: byte)) :: u32) = unat b mod 128"
    by (simp add: unat_ucast_up unat_and_127)
  obtain bp' where run: "varint32_loop 7 (ucast (b AND (127 :: byte))) (consume 1 s) =
      (Ok (of_nat (unat b mod 128 + varint_value (bs @ [t]) * 2 ^ 7), bp', t),
       consume (Suc (length bs)) (consume 1 s))" and bp': "unat bp' = 7 * Suc (Suc (length bs))"
    using varint32_loop_end [of "consume 1 s" bs t rest 7 1 "ucast (b AND (127 :: byte))"]
      assms Cons len r0 by auto
  have "bp' = 35 \<longleftrightarrow> length pre = 4" using bp' Cons assms(5) by (auto simp: word_unat_eq_iff)
  with varint32_five_bytes [OF assms(5,4)] Cons
  have chk: "(bp' = 35 \<and> t AND 0x70 \<noteq> 0) = (2 ^ 32 \<le> varint_value (pre @ [t]))" by simp
  have val: "unat b mod 128 + varint_value (bs @ [t]) * 2 ^ 7 = varint_value (pre @ [t])"
    using Cons by simp
  show ?thesis
    using assms Cons len run chk val
    by (simp add: pb_decode_varint32_eof_def readbyte_Cons not_le mult.commute [of _ 128]
        del: of_nat_add of_nat_mult)
qed

lemma decode_varint32_venc:
  assumes "ok s" "avail s = venc n @ rest" "n < 2 ^ 32"
  shows "pb_decode_varint32_eof s = (False, Ok (of_nat n), consume (length (venc n)) s)"
proof -
  obtain pre t where v: "venc n = pre @ [t]" "\<forall>b \<in> set pre. cont b" "\<not> cont t"
    using venc_shape [of n] by metis
  have "length (venc n) \<le> 5" using assms(3) by (intro length_venc) auto
  with v have "length pre \<le> 4" by simp
  with assms v show ?thesis using decode_varint32_short [of s pre t rest] varint_value_venc [of n]
    by simp
qed

text \<open>
  Longer varints. From the sixth byte on nothing is added to the value any cont: a byte with
  value bits is only accepted as the sign extension of a negative number.
\<close>

lemma varint32_loop_reject:
  assumes "ok s" "avail s = pre @ t # rest" "\<forall>b \<in> set pre. cont b" "\<not> cont t" "t \<noteq> 0"
    and "unat bp = 7 * i" "5 \<le> i" "i + length pre \<le> 8"
  shows "\<exists>k \<le> Suc (length pre). varint32_loop bp r s = pb_return_error ''varint overflow'' (consume k s)"
  using assms
proof (induction pre arbitrary: i bp s)
  case Nil
  have "t AND 0x7F \<noteq> 0" using Nil by (metis append_Nil mod_less not_le unat_and_127 unat_eq_0)
  moreover have "t \<noteq> 0xFF" using Nil by auto
  ultimately have "varint32_loop bp r s = pb_return_error ''varint overflow'' (consume 1 s)"
    using Nil by (subst varint32_loop.simps) (simp add: readbyte_Cons word_le_nat_alt word_less_nat_alt)
  then show ?case by auto
next
  case (Cons b pre)
  have len: "Suc (length pre) < bytes_left s" using length_avail [of s] Cons.prems by simp
  have rd: "pb_readbyte s = (Ok b, consume 1 s)" using Cons.prems by (simp add: readbyte_Cons)
  show ?case
  proof (cases "b AND 0x7F \<noteq> 0 \<and> (drop_bit 31 r = 0 \<or> b \<noteq> 0xFF)")
    case True
    with Cons.prems rd have "varint32_loop bp r s = pb_return_error ''varint overflow'' (consume 1 s)"
      by (subst varint32_loop.simps) (auto simp: word_le_nat_alt word_less_nat_alt)
    then show ?thesis by (intro exI [of _ 1]) simp
  next
    case False
    with Cons.prems rd have "varint32_loop bp r s = varint32_loop (bp + 7) r (consume 1 s)"
      by (subst varint32_loop.simps) (auto simp: word_le_nat_alt word_less_nat_alt)
    moreover have "\<exists>k \<le> Suc (length pre). varint32_loop (bp + 7) r (consume 1 s) =
        pb_return_error ''varint overflow'' (consume k (consume 1 s))"
      using Cons.prems len bitpos_step [of bp i] by (intro Cons.IH [of _ _ "Suc i"]) auto
    ultimately obtain k where k: "k \<le> Suc (length pre)"
        "varint32_loop bp r s = pb_return_error ''varint overflow'' (consume k (consume 1 s))" by auto
    moreover have "1 + k \<le> bytes_left s" using k(1) len by linarith
    ultimately show ?thesis using Cons.prems(1) by (intro exI [of _ "Suc k"]) simp
  qed
qed

lemma varint32_after_five:
  assumes "ok s" "avail s = five @ rest" "length five = 5" "\<forall>b \<in> set five. cont b"
  shows "\<exists>bp. unat bp = 35 \<and> pb_decode_varint32_eof s =
     (False, seq_ok (varint32_loop bp (of_nat (varint_value five)) (consume 5 s)) (\<lambda>(result, bitpos, b') s2.
        if bitpos = 35 \<and> b' AND 0x70 \<noteq> 0 then pb_return_error ''varint overflow'' s2
        else (Ok result, s2)))"
proof -
  obtain b bs where five: "five = b # bs" using assms(3) by (cases five) auto
  let ?r = "ucast (b AND (127 :: byte)) :: u32"
  have left: "5 \<le> bytes_left s" using length_avail [of s] assms by simp
  have r0: "unat ?r = unat b mod 128" by (simp add: unat_ucast_up unat_and_127)
  have "\<exists>bp r'. varint32_loop 7 ?r (consume 1 s) = varint32_loop bp r' (consume (length bs) (consume 1 s)) \<and>
      unat bp = 7 * (1 + length bs) \<and> unat r' < 2 ^ (7 * (1 + length bs)) \<and>
      r' = of_nat (unat ?r + varint_value bs * 2 ^ (7 * 1))"
    using assms left five r0 by (intro varint32_loop_run) auto
  then obtain bp where run: "varint32_loop 7 ?r (consume 1 s) =
      varint32_loop bp (of_nat (unat ?r + varint_value bs * 2 ^ (7 * 1))) (consume (length bs) (consume 1 s))"
      and bp: "unat bp = 7 * (1 + length bs)" by blast
  have "consume (length bs) (consume 1 s) = consume 5 s" using left assms five by simp
  moreover have "unat ?r + varint_value bs * 2 ^ (7 * 1) = varint_value five" using r0 five by simp
  moreover have "pb_readbyte s = (Ok b, consume 1 s)" using assms five by (simp add: readbyte_Cons)
  ultimately show ?thesis using run bp assms five
    by (intro exI [of _ bp]) (simp add: pb_decode_varint32_eof_def mult.commute [of _ 128])
qed

lemma decode_varint32_overflow:
  assumes "ok s" "avail s = venc n @ rest" "2 ^ 32 \<le> n" "n < 2 ^ 63"
  shows "\<exists>k \<le> length (venc n).
    pb_decode_varint32_eof s = (False, pb_return_error ''varint overflow'' (consume k s))"
proof -
  obtain pre t where v: "venc n = pre @ [t]" "\<forall>b \<in> set pre. cont b" "\<not> cont t" "t \<noteq> 0"
    using venc_shape [of n] assms(3) by (metis le_zero_eq power_not_zero zero_neq_numeral)
  show ?thesis
  proof (cases "length pre \<le> 4")
    case True
    then show ?thesis using decode_varint32_short [of s pre t rest] v assms varint_value_venc [of n]
      by (intro exI [of _ "Suc (length pre)"]) simp
  next
    case False
    have "length (venc n) \<le> 9" using assms(4) by (intro length_venc) auto
    then have len: "length pre \<le> 8" using v by simp
    have left: "Suc (length pre) \<le> bytes_left s" using length_avail [of s] assms v by simp
    have av: "avail s = take 5 pre @ (drop 5 pre @ t # rest)"
      using assms(2) v(1) by simp
    have "\<forall>b \<in> set (take 5 pre). cont b" using v(2) by (auto dest: in_set_takeD)
    then obtain bp where bp: "unat bp = 35" "pb_decode_varint32_eof s =
       (False, seq_ok (varint32_loop bp (of_nat (varint_value (take 5 pre))) (consume 5 s))
          (\<lambda>(result, bitpos, b') s2.
             if bitpos = 35 \<and> b' AND 0x70 \<noteq> 0 then pb_return_error ''varint overflow'' s2
             else (Ok result, s2)))"
      using varint32_after_five [OF assms(1) av] False by auto
    have "avail (consume 5 s) = drop 5 pre @ t # rest"
      using av left False assms(1) by simp
    then have "\<exists>k \<le> Suc (length (drop 5 pre)).
        varint32_loop bp (of_nat (varint_value (take 5 pre))) (consume 5 s) =
        pb_return_error ''varint overflow'' (consume k (consume 5 s))"
      using assms(1) left v bp(1) len False
      by (intro varint32_loop_reject [where i = 5]) (auto dest: in_set_dropD)
    then obtain k where k: "k \<le> Suc (length (drop 5 pre))"
        "varint32_loop bp (of_nat (varint_value (take 5 pre))) (consume 5 s) =
         pb_return_error ''varint overflow'' (consume k (consume 5 s))" by blast
    have "5 + k \<le> length (venc n)" "5 + k \<le> bytes_left s" using k(1) v(1) False left by auto
    then show ?thesis using k(2) bp(2) assms(1)
      by (intro exI [of _ "5 + k"]) (simp add: pb_return_error_def)
  qed
qed

text \<open>A negative 32-bit number arrives as ten bytes, sign-extended to 64 bits.\<close>

lemma varint32_loop_sign:
  assumes "ok s" "avail s = [0xFF, 0xFF, 0xFF, 0xFF, 0x01] @ rest" "unat bp = 35" "drop_bit 31 r \<noteq> 0"
  shows "\<exists>bp'. unat bp' = 70 \<and> varint32_loop bp r s = (Ok (r, bp', 0x01), consume 5 s)"
proof -
  have left: "5 \<le> bytes_left s" using length_avail [of s] assms by simp
  have bps: "unat (bp + 7) = 42" "unat (bp + 7 + 7) = 49" "unat (bp + 7 + 7 + 7) = 56"
      "unat (bp + 7 + 7 + 7 + 7) = 63" "unat (bp + 7 + 7 + 7 + 7 + 7) = 70"
    using assms(3) by (simp_all add: unat_word_ariths)
  have step: "varint32_loop b r u = varint32_loop (b + 7) r (consume 1 u)"
    if "ok u" "avail u = 0xFF # xs" "35 \<le> unat b" "unat b < 63" for b u xs
    using that assms(4) by (subst varint32_loop.simps)
      (auto simp: readbyte_Cons word_le_nat_alt word_less_nat_alt)
  have last: "varint32_loop b r u = (Ok (r, b + 7, 0x01), consume 1 u)"
    if "ok u" "avail u = 0x01 # rest" "unat b = 63" for b u
    using that assms(4) by (subst varint32_loop.simps)
      (auto simp: readbyte_Cons word_le_nat_alt word_less_nat_alt)
  have "varint32_loop bp r s = varint32_loop (bp + 7 + 7 + 7 + 7) r (consume (Suc (Suc (Suc (Suc 0)))) s)"
    using assms left bps by (simp add: step)
  also have "\<dots> = (Ok (r, bp + 7 + 7 + 7 + 7 + 7, 0x01), consume (Suc (Suc (Suc (Suc (Suc 0))))) s)"
    using assms left bps by (simp add: last)
  finally have "varint32_loop bp r s = (Ok (r, bp + 7 + 7 + 7 + 7 + 7, 0x01), consume 5 s)"
    by (simp add: eval_nat_numeral)
  with bps(5) show ?thesis by blast
qed

lemma decode_varint32_negative:
  assumes "ok s" "avail s = venc n @ rest" "2 ^ 64 - 2 ^ 31 \<le> n" "n < 2 ^ 64"
  shows "pb_decode_varint32_eof s = (False, Ok (of_nat n), consume (length (venc n)) s)"
proof -
  obtain five where v: "venc n = five @ venc (n div 128 ^ 5)" "length five = 5"
      "\<forall>b \<in> set five. cont b" "varint_value five = n mod 128 ^ 5"
    using venc_split [of 5 n] assms(3) by auto
  have "n div 128 ^ 5 = 2 ^ 29 - 1" using assms(3,4) by simp
  moreover have "venc (2 ^ 29 - 1) = [0xFF, 0xFF, 0xFF, 0xFF, 0x01]" by (simp add: venc.simps)
  ultimately have venc: "venc n = five @ [0xFF, 0xFF, 0xFF, 0xFF, 0x01]" using v(1) by simp
  have left: "10 \<le> bytes_left s" using length_avail [of s] assms venc v(2) by simp
  have r: "(of_nat (varint_value five) :: u32) = of_nat n"
    unfolding v(4) by (simp add: word_unat_eq_iff unat_of_nat mod_mod_cancel)
  have "unat (drop_bit 31 (of_nat n :: u32)) = n mod 2 ^ 32 div 2 ^ 31"
    unfolding unat_drop_bit_eq unat_of_nat by (simp add: drop_bit_eq_div)
  also have "n = 4294967295 * 2 ^ 32 + (2 ^ 31 + (n - (2 ^ 64 - 2 ^ 31)))" using assms(3) by simp
  then have "n mod 2 ^ 32 div 2 ^ 31 = (2 ^ 31 + (n - (2 ^ 64 - 2 ^ 31))) mod 2 ^ 32 div 2 ^ 31"
    by (metis mod_mult_self3)
  also have "\<dots> = 1" using assms(3,4) by simp
  finally have sign: "drop_bit 31 (of_nat n :: u32) \<noteq> 0" by auto
  have "avail s = five @ ([0xFF, 0xFF, 0xFF, 0xFF, 0x01] @ rest)" using assms(2) venc by simp
  from varint32_after_five [OF assms(1) this v(2,3)] obtain bp where bp: "unat bp = 35"
      "pb_decode_varint32_eof s = (False, seq_ok (varint32_loop bp (of_nat n) (consume 5 s))
         (\<lambda>(result, bitpos, b') s2.
             if bitpos = 35 \<and> b' AND 0x70 \<noteq> 0 then pb_return_error ''varint overflow'' s2
             else (Ok result, s2)))" unfolding r by blast
  have "avail (consume 5 s) = [0xFF, 0xFF, 0xFF, 0xFF, 0x01] @ rest"
    using assms(1,2) venc v(2) left by simp
  from varint32_loop_sign [OF _ this bp(1) sign] obtain bp' where
    "unat bp' = 70" "varint32_loop bp (of_nat n) (consume 5 s) = (Ok (of_nat n, bp', 1), consume 5 (consume 5 s))"
    using assms(1) left by auto
  with bp(2) venc v(2) assms(1) left show ?thesis by auto
qed

subsection \<open>Tags\<close>

lemma decode_tag:
  assumes "ok s" "avail s = venc (unat (w :: u32)) @ rest" "w \<noteq> 0"
  shows "pb_decode_tag s = (False, Ok (unat (w AND 7), drop_bit 3 w), consume (length (venc (unat w))) s)"
proof -
  have "unat w < 2 ^ 32" using unsigned_less [of w] by simp
  from decode_varint32_venc [OF assms(1,2) this] assms(3) show ?thesis
    by (simp add: pb_decode_tag_def)
qed

lemma decode_tag_eof: "ok s \<Longrightarrow> avail s = [] \<Longrightarrow> pb_decode_tag s = (True, pb_return_error ''end-of-stream'' s)"
  using length_avail [of s]
  by (simp add: pb_decode_tag_def pb_decode_varint32_eof_def readbyte_Nil pb_return_error_def pb_set_error_def)

lemma decode_tag_zero: "ok s \<Longrightarrow> avail s = 0 # bs \<Longrightarrow> pb_decode_tag s = (True, Fail, consume 1 s)"
  by (simp add: pb_decode_tag_def pb_decode_varint32_eof_def readbyte_Cons)

subsection \<open>Skipping\<close>

lemma skip_varint:
  assumes "ok s" "avail s = pre @ t # rest" "\<forall>b \<in> set pre. cont b" "\<not> cont t"
  shows "pb_skip_varint s = (Ok (), consume (Suc (length pre)) s)"
  using assms
proof (induction pre arbitrary: s)
  case Nil
  then have "1 \<le> bytes_left s" using length_avail [of s] by simp
  with Nil show ?case by (subst pb_skip_varint.simps) (simp add: read)
next
  case (Cons b pre)
  then have "Suc (Suc (length pre)) \<le> bytes_left s" using length_avail [of s] by simp
  with Cons show ?case by (subst pb_skip_varint.simps) (simp add: read)
qed

lemma skip_varint_venc:
  "ok s \<Longrightarrow> avail s = venc n @ rest \<Longrightarrow> pb_skip_varint s = (Ok (), consume (length (venc n)) s)"
  using venc_shape [of n] skip_varint by (metis append.assoc append_Cons append_Nil length_append_singleton)

lemma skip_string:
  assumes "ok s" "avail s = venc (length bs) @ bs @ rest" "length bs < 2 ^ 32"
  shows "pb_skip_string s = (Ok (), consume (length (venc (length bs)) + length bs) s)"
proof -
  have "length (venc (length bs)) + length bs \<le> bytes_left s" using length_avail [of s] assms by simp
  with decode_varint32_venc [OF assms] assms show ?thesis
    by (simp add: pb_skip_string_def pb_decode_varint32_def skip_ok unat_of_nat ignore_bytes_def)
qed

subsection \<open>Raw values\<close>

lemma raw_varint:
  assumes "ok s" "avail s = pre @ t # rest" "\<forall>b \<in> set pre. cont b" "\<not> cont t" "i + length pre < m"
  shows "raw_varint_loop m i buf s = (Ok (buf @ pre @ [t]), consume (Suc (length pre)) s)"
  using assms
proof (induction pre arbitrary: i buf s)
  case Nil
  then have "1 \<le> bytes_left s" using length_avail [of s] by simp
  with Nil show ?case by (subst raw_varint_loop.simps) (simp add: read)
next
  case (Cons b pre)
  then have "Suc (Suc (length pre)) \<le> bytes_left s" using length_avail [of s] by simp
  with Cons show ?case by (subst raw_varint_loop.simps) (simp add: read)
qed

subsection \<open>Substreams\<close>

text \<open>
  The substream offers exactly the bytes of the string; whatever was read from it, closing it
  leaves the parent just behind the string.
\<close>

lemma make_substream:
  assumes "ok s" "avail s = venc (length bs) @ bs @ rest" "length bs < 2 ^ 32"
  shows "pb_make_string_substream s =
      (Ok ((consume (length (venc (length bs))) s)\<lparr>bytes_left := length bs\<rparr>),
       (consume (length (venc (length bs))) s)\<lparr>bytes_left := length rest\<rparr>)"
    and "ok ((consume (length (venc (length bs))) s)\<lparr>bytes_left := length bs\<rparr>)"
    and "avail ((consume (length (venc (length bs))) s)\<lparr>bytes_left := length bs\<rparr>) = bs"
proof -
  let ?n = "length (venc (length bs))"
  have left: "?n + length bs + length rest = bytes_left s" using length_avail [of s] assms by simp
  then have diff: "bytes_left s - ?n = length bs + length rest" by linarith
  with decode_varint32_venc [OF assms]
  show "pb_make_string_substream s =
      (Ok ((consume ?n s)\<lparr>bytes_left := length bs\<rparr>), (consume ?n s)\<lparr>bytes_left := length rest\<rparr>)"
    using assms(3) by (simp add: pb_make_string_substream_def pb_decode_varint32_def unat_of_nat)
  have ok: "ok (consume ?n s)" using assms(1) left by simp
  have av: "avail (consume ?n s) = bs @ rest" using assms left by simp
  show "ok ((consume ?n s)\<lparr>bytes_left := length bs\<rparr>)" using ok diff by (simp add: ok_def)
  have "take (bytes_left (consume ?n s)) (content (is_state (consume ?n s))) = bs @ rest"
    using av unfolding avail_def .
  moreover have "length bs \<le> bytes_left (consume ?n s)" using left by simp
  then have "take (length bs) (content (is_state (consume ?n s))) =
      take (length bs) (take (bytes_left (consume ?n s)) (content (is_state (consume ?n s))))"
    by (simp only: take_take min.absorb1)
  ultimately have "take (length bs) (content (is_state (consume ?n s))) = bs" by simp
  then show "avail ((consume ?n s)\<lparr>bytes_left := length bs\<rparr>) = bs" by (simp add: avail_def)
qed

lemma close_substream:
  assumes "ok (s\<lparr>bytes_left := m + l\<rparr>)" "k \<le> m"
  shows "pb_close_string_substream (consume k (s\<lparr>bytes_left := m\<rparr>)) (s\<lparr>bytes_left := l\<rparr>) =
     (Ok (), (s\<lparr>bytes_left := l\<rparr>)\<lparr>is_state := adv m (is_state s)\<rparr>)"
proof -
  have ok: "ok (s\<lparr>bytes_left := m\<rparr>)" using assms by (simp add: ok_def)
  have close: "pb_read False (m - k) (consume k (s\<lparr>bytes_left := m\<rparr>)) = (Ok [], consume m (s\<lparr>bytes_left := m\<rparr>))"
    using ok assms(2) by (subst skip_ok) auto
  show ?thesis
  proof (cases "m = k")
    case False
    with assms(2) close show ?thesis by (simp add: pb_close_string_substream_def Let_def)
  qed (simp add: pb_close_string_substream_def)
qed

subsection \<open>Fixed-width values\<close>

lemma list_length_4: "length xs = 4 \<Longrightarrow> \<exists>a b c d. xs = [a, b, c, d]"
  by (auto simp: numeral_eq_Suc length_Suc_conv)

lemma list_length_8: "length xs = 8 \<Longrightarrow> \<exists>a b c d e f g h. xs = [a, b, c, d, e, f, g, h]"
  by (auto simp: numeral_eq_Suc length_Suc_conv)

lemma decode_fixed32:
  assumes "ok s" "avail s = bs @ rest" "length bs = 4"
  shows "pb_decode_fixed32 s = (Ok (le_word bs), consume 4 s)"
proof -
  obtain a b c d where "bs = [a, b, c, d]" using list_length_4 [OF assms(3)] by blast
  moreover have "4 \<le> bytes_left s" using length_avail [of s] assms by simp
  ultimately show ?thesis using assms le_word_4 [of a b c d]
    by (simp add: pb_decode_fixed32_def read numeral_eq_Suc del: le_word.simps)
qed

lemma decode_fixed64:
  assumes "ok s" "avail s = bs @ rest" "length bs = 8"
  shows "pb_decode_fixed64 s = (Ok (le_word bs), consume 8 s)"
proof -
  obtain a b c d e f g h where "bs = [a, b, c, d, e, f, g, h]" using list_length_8 [OF assms(3)] by blast
  moreover have "8 \<le> bytes_left s" using length_avail [of s] assms by simp
  ultimately show ?thesis using assms le_word_8 [of a b c d e f g h]
    by (simp add: pb_decode_fixed64_def read numeral_eq_Suc del: le_word.simps)
qed

subsection \<open>Safety on arbitrary input\<close>

text \<open>
  On whatever bytes, a decoder never leaves the buffer, and the stream it returns is the one it
  got with some bytes consumed, apart from the error message.
\<close>

definition advances :: "'u pb_istream \<Rightarrow> 'u pb_istream \<Rightarrow> bool" where
  "advances s s' \<longleftrightarrow> (\<exists>k e. k \<le> bytes_left s \<and> s' = (consume k s)\<lparr>is_errmsg := e\<rparr>)"

definition safe :: "'u pb_istream \<Rightarrow> 'a outcome \<times> 'u pb_istream \<Rightarrow> bool" where
  "safe s r \<longleftrightarrow> fst r \<noteq> Undef \<and> advances s (snd r)"

lemma ok_errmsg [simp]: "ok (s\<lparr>is_errmsg := e\<rparr>) = ok s"
  by (simp add: ok_def)

lemma advances_ok: "advances s s' \<Longrightarrow> ok s \<Longrightarrow> ok s'"
  by (auto simp: advances_def)

lemma advances_refl: "ok s \<Longrightarrow> advances s s"
  by (auto simp: advances_def intro!: exI [of _ 0] exI [of _ "is_errmsg s"])

lemma advances_consume: "n \<le> bytes_left s \<Longrightarrow> advances s (consume n s)"
  by (auto simp: advances_def intro!: exI [of _ n] exI [of _ "is_errmsg s"])

lemma advances_trans: "ok s \<Longrightarrow> advances s t \<Longrightarrow> advances t u \<Longrightarrow> advances s u"
proof -
  assume "ok s" "advances s t" "advances t u"
  then obtain k e l f where kl: "k \<le> bytes_left s" "t = (consume k s)\<lparr>is_errmsg := e\<rparr>"
      "l \<le> bytes_left t" "u = (consume l t)\<lparr>is_errmsg := f\<rparr>" by (auto simp: advances_def)
  then have "k + l \<le> bytes_left s" by simp
  moreover have "u = (consume (k + l) s)\<lparr>is_errmsg := f\<rparr>"
    using kl \<open>ok s\<close> by (auto simp: consume_def ok_def)
  ultimately show ?thesis unfolding advances_def by blast
qed

lemma advances_errmsg: "advances s s' \<Longrightarrow> advances s (s'\<lparr>is_errmsg := e\<rparr>)"
  unfolding advances_def
proof (elim exE conjE)
  fix k e'
  assume "k \<le> bytes_left s" "s' = (consume k s)\<lparr>is_errmsg := e'\<rparr>"
  then have "k \<le> bytes_left s \<and> s'\<lparr>is_errmsg := e\<rparr> = (consume k s)\<lparr>is_errmsg := e\<rparr>" by simp
  then show "\<exists>k f. k \<le> bytes_left s \<and> s'\<lparr>is_errmsg := e\<rparr> = (consume k s)\<lparr>is_errmsg := f\<rparr>" by blast
qed

lemma advances_set_error: "advances s s' \<Longrightarrow> advances s (pb_set_error m s')"
  unfolding pb_set_error_def by (rule advances_errmsg)

lemma safe_Ok [intro]: "advances s s' \<Longrightarrow> safe s (Ok a, s')"
  by (simp add: safe_def)

lemma safe_error [intro]: "advances s s' \<Longrightarrow> safe s (pb_return_error m s')"
  by (simp add: safe_def pb_return_error_def advances_set_error)

lemma safe_Fail [intro]: "advances s s' \<Longrightarrow> safe s (Fail, s')"
  by (simp add: safe_def)

lemma safe_trans:
  assumes "ok s" "advances s s1" "safe s1 r"
  shows "safe s r"
  using assms by (auto simp: safe_def intro: advances_trans)

lemma safe_seq:
  assumes "ok s" "safe s r" "\<And>a s1. r = (Ok a, s1) \<Longrightarrow> ok s1 \<Longrightarrow> safe s1 (k a s1)"
  shows "safe s (seq_ok r k)"
proof (cases r)
  case (Pair a s1)
  with assms have "advances s s1" "ok s1" by (auto simp: safe_def intro: advances_ok)
  with Pair assms show ?thesis by (cases a) (auto simp: safe_def intro: advances_trans)
qed

lemma safe_readbyte: "ok s \<Longrightarrow> safe s (pb_readbyte s)"
proof (cases "avail s")
  case (Cons b bs)
  assume "ok s"
  moreover have "1 \<le> bytes_left s" using length_avail [of s] Cons \<open>ok s\<close> by simp
  ultimately show ?thesis using Cons by (auto simp: readbyte_Cons intro: advances_consume)
qed (auto simp: readbyte_Nil intro: advances_refl)

lemma safe_read: "ok s \<Longrightarrow> safe s (pb_read True n s)"
  by (auto simp: read intro!: safe_Ok safe_error advances_refl advances_consume)

lemma safe_skip: "ok s \<Longrightarrow> safe s (pb_read False n s)"
  using skip_ok [of s n] skip_short [of s n]
  by (cases "n \<le> bytes_left s") (auto intro!: safe_Ok safe_error advances_refl advances_consume)

lemma safe_varint32_loop: "ok s \<Longrightarrow> safe s (varint32_loop bp r s)"
proof (induction bp r s rule: varint32_loop.induct)
  case (1 bp r s)
  show ?case
  proof (subst varint32_loop.simps, rule safe_seq [OF \<open>ok s\<close> safe_readbyte [OF \<open>ok s\<close>]], goal_cases)
    case (1 b s1)
    then show ?case using "1.IH" [of b] by (auto simp: Let_def intro: advances_refl)
  qed
qed

lemma safe_varint32: "ok s \<Longrightarrow> safe s (snd (pb_decode_varint32_eof s))"
proof (cases "pb_readbyte s")
  case (Pair a s1)
  assume ok: "ok s"
  with Pair safe_readbyte [OF ok] have s1: "advances s s1" "ok s1" "a \<noteq> Undef"
    by (auto simp: safe_def intro: advances_ok)
  have "safe s1 (seq_ok (varint32_loop 7 r s1) (\<lambda>(result, bitpos, b') s2.
      if bitpos = 35 \<and> b' AND 0x70 \<noteq> 0 then pb_return_error ''varint overflow'' s2 else (Ok result, s2)))" for r
    using s1(2) by (intro safe_seq safe_varint32_loop) (auto intro!: safe_Ok safe_error advances_refl)
  with s1 ok Pair show ?thesis
    by (cases a) (auto simp: pb_decode_varint32_eof_def intro: safe_trans)
qed

lemma decode_varint32_progress:
  assumes "ok s" "pb_decode_varint32 s = (Ok v, s')"
  shows "bytes_left s' < bytes_left s"
proof -
  from assms(2) obtain b s1 where b: "pb_readbyte s = (Ok b, s1)"
    by (auto simp: pb_decode_varint32_def pb_decode_varint32_eof_def split: prod.splits outcome.splits)
  have s1: "ok s1" "bytes_left s1 < bytes_left s"
    using safe_readbyte [OF assms(1)] assms(1) pb_readbyte_decreases [of s b] b
    by (auto simp: safe_def intro: advances_ok)
  have "bytes_left t \<le> bytes_left s1" if "varint32_loop 7 r s1 = (x, t)" for r x t
    using safe_varint32_loop [OF s1(1), of 7 r] that by (auto simp: safe_def advances_def)
  with s1 b assms(2) show ?thesis
    by (force simp: pb_decode_varint32_def pb_decode_varint32_eof_def seq_ok_eq_Ok pb_return_error_def
        split: if_splits)
qed

lemma safe_varint: "ok s \<Longrightarrow> safe s (varint_loop bp r s)"
proof (induction bp r s rule: varint_loop.induct)
  case (1 bp r s)
  show ?case
  proof (cases "64 \<le> bp")
    case True
    with 1 show ?thesis by (subst varint_loop.simps) (auto intro: advances_refl)
  next
    case False
    have "safe s (seq_ok (pb_readbyte s) (\<lambda>b s1.
        let result' = r OR push_bit (unat bp) (ucast (b AND 0x7F)); bitpos' = bp + 7
        in if b AND 0x80 \<noteq> 0 then varint_loop bitpos' result' s1 else (Ok result', s1)))"
      using "1.IH" [OF False] \<open>ok s\<close>
      by (intro safe_seq safe_readbyte) (auto simp: Let_def intro: advances_refl)
    with False show ?thesis by (subst varint_loop.simps) simp
  qed
qed

lemma safe_skip_varint: "ok s \<Longrightarrow> safe s (pb_skip_varint s)"
proof (induction s rule: pb_skip_varint.induct)
  case (1 s)
  show ?case
    by (subst pb_skip_varint.simps, intro safe_seq safe_read)
      (use 1 in \<open>auto intro: advances_refl\<close>)
qed

lemma safe_ignore: "ok s \<Longrightarrow> safe s r \<Longrightarrow> safe s (ignore_bytes r)"
  unfolding ignore_bytes_def by (rule safe_seq) (auto intro: advances_refl)

lemma safe_skip_field: "ok s \<Longrightarrow> safe s (pb_skip_field w s)"
  by (auto simp: pb_skip_field_def pb_skip_string_def pb_decode_varint32_def
      intro!: safe_skip_varint safe_ignore safe_skip safe_seq safe_varint32 safe_error advances_refl)

lemma safe_raw_loop: "ok s \<Longrightarrow> safe s (raw_varint_loop m i buf s)"
proof (induction m i buf s rule: raw_varint_loop.induct)
  case (1 m i buf s)
  have "safe s (seq_ok (pb_read True 1 s) (\<lambda>bs s1.
        if hd bs AND 0x80 \<noteq> 0 then raw_varint_loop m (Suc i) (buf @ bs) s1 else (Ok (buf @ bs), s1)))"
    if "\<not> m < Suc i"
    using 1 that by (intro safe_seq safe_read) (auto intro: advances_refl)
  with 1 show ?case by (subst raw_varint_loop.simps) (auto intro: advances_refl)
qed

lemma safe_raw_value: "ok s \<Longrightarrow> safe s (read_raw_value w m s)"
  by (auto simp: read_raw_value_def intro!: safe_raw_loop safe_read safe_error advances_refl)

lemma safe_tag: "ok s \<Longrightarrow> safe s (snd (pb_decode_tag s))"
  using safe_varint32 [of s]
  by (auto simp: pb_decode_tag_def safe_def split: prod.splits outcome.splits)

lemma safe_values:
  assumes "ok s"
  shows "safe s (pb_decode_varint s)" "safe s (pb_decode_svarint s)" "safe s (pb_decode_bool s)"
    "safe s (pb_decode_fixed32 s)" "safe s (pb_decode_fixed64 s)" "safe s (pb_decode_varint32 s)"
  using assms
  by (auto simp: pb_decode_varint_def pb_decode_svarint_def pb_decode_bool_def pb_decode_fixed32_def
      pb_decode_fixed64_def pb_decode_varint32_def
      intro!: safe_seq safe_varint safe_varint32 safe_read safe_Ok advances_refl)

lemma safe_substream:
  assumes "ok s"
  shows "fst (pb_make_string_substream s) \<noteq> Undef"
    and "pb_make_string_substream s = (Ok sub, s') \<Longrightarrow>
      ok sub \<and> ok s' \<and> is_state sub = is_state s' \<and> bytes_left sub + bytes_left s' < bytes_left s \<and>
      ok (s'\<lparr>bytes_left := bytes_left sub + bytes_left s'\<rparr>)"
proof -
  obtain r s1 where v: "pb_decode_varint32 s = (r, s1)" by force
  with safe_values(6) [OF assms] have s1: "r \<noteq> Undef" "ok s1" "advances s s1"
    using assms by (auto simp: safe_def intro: advances_ok)
  show "fst (pb_make_string_substream s) \<noteq> Undef"
    using v s1 by (cases r) (auto simp: pb_make_string_substream_def pb_return_error_def)
  have "bytes_left s1 < bytes_left s" if "r = Ok len" for len
    using decode_varint32_progress [OF assms] v that by simp
  then show "pb_make_string_substream s = (Ok sub, s') \<Longrightarrow>
      ok sub \<and> ok s' \<and> is_state sub = is_state s' \<and> bytes_left sub + bytes_left s' < bytes_left s \<and>
      ok (s'\<lparr>bytes_left := bytes_left sub + bytes_left s'\<rparr>)"
    using v s1(2)
    by (auto simp: pb_make_string_substream_def pb_return_error_def seq_ok_eq_Ok ok_def split: if_splits)
qed

end

section \<open>The library's buffer streams keep the contract\<close>

definition buf_content :: "'u istream_state \<Rightarrow> byte list" where
  "buf_content st = (case st of Buf_ptr bs \<Rightarrow> bs | User_state _ \<Rightarrow> [])"

definition buf_valid :: "'u istream_state \<Rightarrow> bool" where
  "buf_valid st = (case st of Buf_ptr _ \<Rightarrow> True | User_state _ \<Rightarrow> False)"

definition buf_adv :: "nat \<Rightarrow> 'u istream_state \<Rightarrow> 'u istream_state" where
  "buf_adv n st = (case st of Buf_ptr bs \<Rightarrow> Buf_ptr (drop n bs) | User_state u \<Rightarrow> User_state u)"

lemmas buf_source_defs = buf_content_def buf_valid_def buf_adv_def

interpretation buf: pb_source Buf_read buf_content buf_valid buf_adv
  by unfold_locales
    (auto simp: buf_source_defs call_callback_def buf_read_def add.commute split: istream_state.splits)

lemma buf_ok_from_buffer: "n \<le> length bs \<Longrightarrow> buf.ok (pb_istream_from_buffer bs n)"
  by (simp add: buf.ok_def pb_istream_from_buffer_def buf_source_defs)

lemma buf_avail_from_buffer: "buf.avail (pb_istream_from_buffer bs n) = take n bs"
  by (simp add: buf.avail_def pb_istream_from_buffer_def buf_source_defs)

lemma buf_consume_from_buffer:
  "buf.consume k (pb_istream_from_buffer bs n) = pb_istream_from_buffer (drop k bs) (n - k)"
  by (simp add: buf.consume_def pb_istream_from_buffer_def buf_source_defs)

lemmas from_buffer_simps = buf_ok_from_buffer buf_avail_from_buffer buf_consume_from_buffer

end
