(* ===== verification/Pb_Ostream.thy ===== *)
theory Pb_Ostream
  imports Pb_Source
begin

text \<open>
  The output stream of nanopb (\<^verbatim>\<open>Pods/nanopb/pb_encode.c\<close>) and the encoders of the wire format
  that work on a stream alone. A stream without a callback only counts bytes
  (\<^verbatim>\<open>PB_OSTREAM_SIZING\<close>). The state of \<^verbatim>\<open>buf_write\<close> is a pointer into a buffer: the buffer object and
  the offset of the pointer.
\<close>

section \<open>The stream\<close>

datatype 'u ostream_state = Out_ptr "byte list" nat | Out_user 'u | Out_null

datatype 'u ostream_callback =
    Null_write
  | Buf_write
  | User_write "'u \<Rightarrow> byte list \<Rightarrow> bool \<times> 'u"

record 'u pb_ostream =
  os_callback :: "'u ostream_callback"
  os_state :: "'u ostream_state"
  max_size :: u64
  bytes_written :: u64
  os_errmsg :: "string option"

definition PB_OSTREAM_SIZING :: "'u pb_ostream" where
  "PB_OSTREAM_SIZING = \<lparr>os_callback = Null_write, os_state = Out_null, max_size = 0,
     bytes_written = 0, os_errmsg = None\<rparr>"

definition os_set_error :: "string \<Rightarrow> 'u pb_ostream \<Rightarrow> 'u pb_ostream" where
  "os_set_error msg s =
     s\<lparr>os_errmsg := (case os_errmsg s of None \<Rightarrow> Some msg | Some m \<Rightarrow> Some m)\<rparr>"

definition os_return_error :: "string \<Rightarrow> 'u pb_ostream \<Rightarrow> 'a outcome \<times> 'u pb_ostream" where
  "os_return_error msg s = (Fail, os_set_error msg s)"

text \<open>Writing past the end of the buffer object is undefined.\<close>

definition buf_write :: "byte list \<Rightarrow> 'u pb_ostream \<Rightarrow> unit outcome \<times> 'u pb_ostream" where
  "buf_write data s = (case os_state s of
      Out_ptr dest pos \<Rightarrow>
        if pos + length data \<le> length dest
        then (Ok (), s\<lparr>os_state := Out_ptr (take pos dest @ data @ drop (pos + length data) dest)
                                          (pos + length data)\<rparr>)
        else (Undef, s)
    | _ \<Rightarrow> (Undef, s))"

definition call_write :: "byte list \<Rightarrow> 'u pb_ostream \<Rightarrow> unit outcome \<times> 'u pb_ostream" where
  "call_write data s = (case os_callback s of
      Null_write \<Rightarrow> (Undef, s)
    | Buf_write \<Rightarrow> buf_write data s
    | User_write f \<Rightarrow> (case os_state s of
          Out_user u \<Rightarrow> (case f u data of (r, u') \<Rightarrow>
            (if r then Ok () else Fail, s\<lparr>os_state := Out_user u'\<rparr>))
        | _ \<Rightarrow> (Undef, s)))"

definition pb_ostream_from_buffer :: "byte list \<Rightarrow> u64 \<Rightarrow> 'u pb_ostream" where
  "pb_ostream_from_buffer buf bufsize =
     \<lparr>os_callback = Buf_write, os_state = Out_ptr buf 0, max_size = bufsize, bytes_written = 0,
      os_errmsg = None\<rparr>"

text \<open>
  The source pointer may be null (\<open>None\<close>) when the stream only counts; an object shorter than
  \<^verbatim>\<open>count\<close> is read out of bounds.
\<close>

definition pb_write :: "byte list option \<Rightarrow> u64 \<Rightarrow> 'u pb_ostream \<Rightarrow> unit outcome \<times> 'u pb_ostream" where
  "pb_write buf count s =
     (if 0 < count \<and> os_callback s \<noteq> Null_write then
        if bytes_written s + count < bytes_written s \<or> max_size s < bytes_written s + count
        then os_return_error ''stream full'' s
        else case buf of
            None \<Rightarrow> (Undef, s)
          | Some data \<Rightarrow>
              if length data < unat count then (Undef, s)
              else (case call_write (take (unat count) data) s of
                  (Ok _, s1) \<Rightarrow> (Ok (), s1\<lparr>bytes_written := bytes_written s1 + count\<rparr>)
                | (Fail, s1) \<Rightarrow> os_return_error ''io error'' s1
                | (Undef, s1) \<Rightarrow> (Undef, s1))
      else (Ok (), s\<lparr>bytes_written := bytes_written s + count\<rparr>))"

section \<open>The encoders\<close>

text \<open>The stack buffer of ten bytes is the list of the bytes stored so far.\<close>

function encode_varint_loop :: "u64 \<Rightarrow> byte list \<Rightarrow> byte list" where
  "encode_varint_loop value buffer =
     (if value = 0 then buffer
      else encode_varint_loop (drop_bit 7 value) (buffer @ [ucast (value AND 0x7F) OR 0x80]))"
  by pat_completeness auto
termination
proof (relation "measure (\<lambda>(value, buffer). unat value)", goal_cases)
  case (2 v buffer)
  then have "0 < unat v" by (simp add: unat_gt_0)
  then show ?case unfolding in_measure prod.case unat_drop_bit_div by simp
qed simp

declare encode_varint_loop.simps [simp del]

definition pb_encode_varint :: "u64 \<Rightarrow> 'u pb_ostream \<Rightarrow> unit outcome \<times> 'u pb_ostream" where
  "pb_encode_varint value s =
     (if value \<le> 0x7F then pb_write (Some [ucast value]) 1 s
      else let buffer = encode_varint_loop value [];
               i = length buffer;
               buffer' = buffer[i - 1 := (buffer ! (i - 1)) AND 0x7F]
           in pb_write (Some buffer') (of_nat i) s)"

text \<open>The argument is the 64-bit pattern of the signed value.\<close>

definition pb_encode_svarint :: "u64 \<Rightarrow> 'u pb_ostream \<Rightarrow> unit outcome \<times> 'u pb_ostream" where
  "pb_encode_svarint value s =
     (let zigzagged = (if sint value < 0 then NOT (push_bit 1 value) else push_bit 1 value)
      in pb_encode_varint zigzagged s)"

definition pb_encode_fixed32 :: "u32 \<Rightarrow> 'u pb_ostream \<Rightarrow> unit outcome \<times> 'u pb_ostream" where
  "pb_encode_fixed32 val s =
     pb_write (Some [ucast (val AND 0xFF), ucast (drop_bit 8 val AND 0xFF),
                     ucast (drop_bit 16 val AND 0xFF), ucast (drop_bit 24 val AND 0xFF)]) 4 s"

definition pb_encode_fixed64 :: "u64 \<Rightarrow> 'u pb_ostream \<Rightarrow> unit outcome \<times> 'u pb_ostream" where
  "pb_encode_fixed64 val s =
     pb_write (Some [ucast (val AND 0xFF), ucast (drop_bit 8 val AND 0xFF),
                     ucast (drop_bit 16 val AND 0xFF), ucast (drop_bit 24 val AND 0xFF),
                     ucast (drop_bit 32 val AND 0xFF), ucast (drop_bit 40 val AND 0xFF),
                     ucast (drop_bit 48 val AND 0xFF), ucast (drop_bit 56 val AND 0xFF)]) 8 s"

definition pb_encode_tag :: "nat \<Rightarrow> u32 \<Rightarrow> 'u pb_ostream \<Rightarrow> unit outcome \<times> 'u pb_ostream" where
  "pb_encode_tag wiretype field_number s =
     pb_encode_varint (push_bit 3 (ucast field_number) OR of_nat wiretype) s"

definition pb_encode_string :: "byte list option \<Rightarrow> u64 \<Rightarrow> 'u pb_ostream \<Rightarrow> unit outcome \<times> 'u pb_ostream" where
  "pb_encode_string buffer count s =
     seq_ok (pb_encode_varint count s) (\<lambda>_ s1. pb_write buffer count s1)"

section \<open>What the encoders put out\<close>

subsection \<open>Varints are canonical\<close>

fun vraw :: "nat \<Rightarrow> byte list" where
  "vraw n = (if n = 0 then [] else of_nat (n mod 128 + 128) # vraw (n div 128))"

declare vraw.simps [simp del]

lemma encode_varint_loop: "encode_varint_loop v buf = buf @ vraw (unat v)"
proof (induction v buf rule: encode_varint_loop.induct)
  case (1 v buf)
  have "unat (drop_bit 7 v) = unat v div 128" unfolding unat_drop_bit_div by simp
  with 1 show ?case
    by (cases "v = 0")
      (simp_all add: encode_varint_loop.simps [of v] encode_varint_loop.simps [of 0]
        vraw.simps [of "unat v"] vraw.simps [of 0] varint_byte unat_eq_0)
qed

lemma vraw_venc:
  "0 < n \<Longrightarrow> vraw n \<noteq> [] \<and> butlast (vraw n) @ [last (vraw n) AND 0x7F] = venc n"
proof (induction n rule: vraw.induct)
  case (1 n)
  let ?b = "of_nat (n mod 128 + 128) :: byte"
  show ?case
  proof (cases "n < 128")
    case True
    then have "n mod 128 = n" "n div 128 = 0" by simp_all
    moreover have "(of_nat (n + 128) :: byte) AND 0x7F = of_nat n"
      using True by (simp add: word_unat_eq_iff unat_and_127 unat_of_nat del: of_nat_add)
    ultimately show ?thesis using True 1
      by (simp add: vraw.simps [of n] vraw.simps [of 0] venc.simps [of n])
  next
    case False
    then have "0 < n div 128" by (simp add: div_greater_zero_iff)
    with False 1 show ?thesis by (simp add: vraw.simps [of n] venc.simps [of n])
  qed
qed

lemma list_update_last: "xs \<noteq> [] \<Longrightarrow> xs[length xs - 1 := y] = butlast xs @ [y]"
  by (cases xs rule: rev_cases) auto

lemma length_vraw: "0 < n \<Longrightarrow> length (vraw n) = length (venc n)"
  using vraw_venc [of n] by (metis Suc_pred' length_append_singleton length_butlast length_greater_0_conv)

lemma pb_encode_varint_venc:
  "pb_encode_varint v s = pb_write (Some (venc (unat v))) (of_nat (length (venc (unat v)))) s"
proof (cases "v \<le> 0x7F")
  case True
  then have "unat v < 128" by (simp add: word_le_nat_alt)
  moreover have "(ucast v :: byte) = of_nat (unat v)" by simp
  ultimately show ?thesis using True by (simp add: pb_encode_varint_def venc.simps [of "unat v"])
next
  case False
  then have pos: "0 < unat v" by (simp add: word_le_nat_alt)
  let ?b = "vraw (unat v)"
  have "?b[length ?b - 1 := ?b ! (length ?b - 1) AND 0x7F] = venc (unat v)"
    using vraw_venc [OF pos] by (metis last_conv_nth list_update_last)
  with length_vraw [OF pos] False show ?thesis
    by (simp add: pb_encode_varint_def encode_varint_loop Let_def)
qed

lemma length_venc_64: "length (venc (unat (v :: u64))) \<le> 10"
proof (rule length_venc)
  have "unat v < 2 ^ 64" using unsigned_less [of v] by simp
  then show "unat v < 128 ^ 10" by simp
qed simp

subsection \<open>Tags\<close>

lemma tag_value:
  assumes "w < 8"
  shows "unat (push_bit 3 (ucast (tag :: u32)) OR of_nat w :: u64) = 8 * unat tag + w"
proof -
  have w: "unat (of_nat w :: u64) = w" using assms by (simp add: unat_of_nat)
  have "unat tag < 2 ^ 32" using unsigned_less [of tag] by simp
  moreover have "unat (ucast tag :: u64) = unat tag" by (simp add: unat_ucast_up)
  moreover have "unat (of_nat w OR push_bit 3 (ucast tag) :: u64) =
      unat (of_nat w :: u64) + (unat (ucast tag :: u64) * 2 ^ 3) mod 2 ^ LENGTH(64)"
    using assms w by (intro unat_or_push_bit) simp
  ultimately show ?thesis using w by (simp add: or.commute)
qed

subsection \<open>Zigzag\<close>

text \<open>The zigzag coding of \<^verbatim>\<open>pb_encode_svarint\<close> is undone by \<^verbatim>\<open>pb_decode_svarint\<close>.\<close>

definition zigzag :: "u64 \<Rightarrow> u64" where
  "zigzag v = (if sint v < 0 then NOT (push_bit 1 v) else push_bit 1 v)"

definition unzigzag :: "u64 \<Rightarrow> u64" where
  "unzigzag w = (if w AND 1 \<noteq> 0 then NOT (drop_bit 1 w) else drop_bit 1 w)"

lemma bit_double: "bit ((v :: u64) * 2) n \<longleftrightarrow> 0 < n \<and> n < 64 \<and> bit v (n - 1)"
proof -
  have "v * 2 = push_bit 1 v" by (simp add: push_bit_eq_mult)
  then have "bit (v * 2) n \<longleftrightarrow> bit (push_bit 1 v) n" by (rule arg_cong)
  also have "\<dots> \<longleftrightarrow> 0 < n \<and> n < 64 \<and> bit v (n - 1)" unfolding bit_push_bit_iff by auto
  finally show ?thesis .
qed

lemma bit_zigzag: "bit (zigzag v) 0 \<longleftrightarrow> sint v < 0"
  by (simp add: zigzag_def bit_simps bit_double)

lemma unzigzag_zigzag [simp]: "unzigzag (zigzag v) = v"
proof (cases "sint v < 0")
  case True
  then have top: "bit v 63" using sint_neg_iff_bit [of v] by simp
  have "unzigzag (zigzag v) = NOT (drop_bit 1 (NOT (push_bit 1 v)))"
    using True bit_zigzag [of v] and_exp_eq_0_iff_not_bit [of "zigzag v" 0]
    by (simp add: unzigzag_def zigzag_def)
  also have "\<dots> = v"
  proof (rule bit_word_eqI)
    fix n assume "n < LENGTH(64)"
    with top show "bit (NOT (drop_bit 1 (NOT (push_bit 1 v)))) n = bit v n"
      by (cases "n = 63") (auto simp: bit_simps bit_double)
  qed
  finally show ?thesis .
next
  case False
  then have top: "\<not> bit v 63" using sint_neg_iff_bit [of v] by simp
  have "unzigzag (zigzag v) = drop_bit 1 (push_bit 1 v)"
    using False bit_zigzag [of v] and_exp_eq_0_iff_not_bit [of "zigzag v" 0]
    by (simp add: unzigzag_def zigzag_def)
  also have "\<dots> = v"
  proof (rule bit_word_eqI)
    fix n assume "n < LENGTH(64)"
    with top show "bit (drop_bit 1 (push_bit 1 v)) n = bit v n"
      by (cases "n = 63") (auto simp: bit_simps bit_double)
  qed
  finally show ?thesis .
qed

end
