(* ===== verification/Pb_Sink.thy ===== *)
theory Pb_Sink
  imports Pb_Ostream
begin

text \<open>
  What the encoders rely on an output callback for, as the locale \<open>pb_sink\<close>: a callback appends
  the bytes it is given to what was delivered before. The bytes each encoder delivers and the
  condition under which it reports a full stream are proved in the locale; the library's
  \<^verbatim>\<open>buf_write\<close> is interpreted at the end. A stream without a callback counts the same bytes.
\<close>

locale pb_sink =
  fixes cb :: "'u ostream_callback"
    and written :: "'u ostream_state \<Rightarrow> byte list"
    and room :: "'u ostream_state \<Rightarrow> nat"
    and valid :: "'u ostream_state \<Rightarrow> bool"
    and put :: "byte list \<Rightarrow> 'u ostream_state \<Rightarrow> 'u ostream_state"
  assumes not_null: "cb \<noteq> Null_write"
    and write_law: "os_callback s = cb \<Longrightarrow> valid (os_state s) \<Longrightarrow> length d \<le> room (os_state s) \<Longrightarrow>
      call_write d s = (Ok (), s\<lparr>os_state := put d (os_state s)\<rparr>)"
    and written_put [simp]: "valid st \<Longrightarrow> length d \<le> room st \<Longrightarrow> written (put d st) = written st @ d"
    and room_put [simp]: "valid st \<Longrightarrow> length d \<le> room st \<Longrightarrow> room (put d st) = room st - length d"
    and valid_put [simp]: "valid st \<Longrightarrow> length d \<le> room st \<Longrightarrow> valid (put d st)"
    and put_put [simp]: "valid st \<Longrightarrow> length d + length e \<le> room st \<Longrightarrow> put e (put d st) = put (d @ e) st"
    and put_Nil [simp]: "valid st \<Longrightarrow> put [] st = st"
begin

definition space :: "'u pb_ostream \<Rightarrow> nat" where
  "space s = unat (max_size s) - unat (bytes_written s)"

definition ok :: "'u pb_ostream \<Rightarrow> bool" where
  "ok s \<longleftrightarrow> os_callback s = cb \<and> valid (os_state s) \<and>
     unat (bytes_written s) \<le> unat (max_size s) \<and> space s \<le> room (os_state s)"

definition emit :: "byte list \<Rightarrow> 'u pb_ostream \<Rightarrow> 'u pb_ostream" where
  "emit d s = s\<lparr>os_state := put d (os_state s), bytes_written := bytes_written s + of_nat (length d)\<rparr>"

lemma unat_bytes_written_emit:
  assumes "ok s" "length d \<le> space s"
  shows "unat (bytes_written (emit d s)) = unat (bytes_written s) + length d"
proof -
  have "unat (bytes_written s) + length d \<le> unat (max_size s)" using assms by (auto simp: ok_def space_def)
  also have "\<dots> < 2 ^ 64" using unsigned_less [of "max_size s"] by simp
  finally show ?thesis by (simp add: emit_def unat_word_ariths unat_of_nat)
qed

lemma emit_sel [simp]:
  "max_size (emit d s) = max_size s" "os_callback (emit d s) = os_callback s"
  "os_state (emit d s) = put d (os_state s)" "os_errmsg (emit d s) = os_errmsg s"
  by (simp_all add: emit_def)

lemma space_emit [simp]: "ok s \<Longrightarrow> length d \<le> space s \<Longrightarrow> space (emit d s) = space s - length d"
  by (simp add: space_def [of "emit d s"] unat_bytes_written_emit) (simp add: space_def)

lemma ok_emit [simp]: "ok s \<Longrightarrow> length d \<le> space s \<Longrightarrow> ok (emit d s)"
  using unat_bytes_written_emit [of s d] space_emit [of s d] unfolding ok_def [of "emit d s"]
  by (auto simp: ok_def space_def)

lemma emit_emit [simp]:
  "ok s \<Longrightarrow> length d + length e \<le> space s \<Longrightarrow> emit e (emit d s) = emit (d @ e) s"
  by (auto simp: ok_def emit_def)

lemma emit_Nil [simp]: "ok s \<Longrightarrow> emit [] s = s"
  by (simp add: ok_def emit_def)

lemma write_emit:
  assumes "ok s" "length d < 2 ^ 64"
  shows "pb_write (Some d) (of_nat (length d)) s =
     (if length d \<le> space s then (Ok (), emit d s) else os_return_error ''stream full'' s)"
proof (cases "d = []")
  case True
  with assms show ?thesis by (simp add: pb_write_def emit_def ok_def)
next
  case False
  let ?n = "of_nat (length d) :: u64"
  have n: "unat ?n = length d" using assms(2) by (simp add: unat_of_nat)
  then have pos: "0 < ?n" using False by (simp add: word_less_nat_alt)
  have full: "(bytes_written s + ?n < bytes_written s \<or> max_size s < bytes_written s + ?n) =
      (\<not> length d \<le> space s)"
  proof (cases "unat (bytes_written s) + length d < 2 ^ 64")
    case True
    then have "unat (bytes_written s + ?n) = unat (bytes_written s) + length d"
      using n by (simp add: unat_word_ariths)
    then show ?thesis using assms(1) by (auto simp: word_less_nat_alt ok_def space_def)
  next
    case False
    have lt: "unat (bytes_written s) < 2 ^ 64" "unat (max_size s) < 2 ^ 64"
      using unsigned_less [of "bytes_written s"] unsigned_less [of "max_size s"] by simp_all
    have "unat (bytes_written s + ?n) = unat (bytes_written s) + length d - 2 ^ 64"
      using False lt assms(2) n by (simp add: unat_word_ariths mod_if)
    then show ?thesis using assms lt False by (auto simp: word_less_nat_alt ok_def space_def)
  qed
  show ?thesis
  proof (cases "length d \<le> space s")
    case True
    with assms(1) have "call_write d s = (Ok (), s\<lparr>os_state := put d (os_state s)\<rparr>)"
      by (intro write_law) (auto simp: ok_def)
    with True full n pos not_null assms(1) show ?thesis
      by (auto simp: pb_write_def emit_def ok_def)
  next
    case False
    with full pos not_null assms(1) show ?thesis by (auto simp: pb_write_def ok_def)
  qed
qed

lemma encode_varint:
  "ok s \<Longrightarrow> pb_encode_varint v s =
     (if length (venc (unat v)) \<le> space s then (Ok (), emit (venc (unat v)) s)
      else os_return_error ''stream full'' s)"
  using length_venc_64 [of v] by (simp add: pb_encode_varint_venc write_emit)

lemma encode_string:
  assumes "ok s" "length bs < 2 ^ 64" "length (venc (length bs)) + length bs \<le> space s"
  shows "pb_encode_string (Some bs) (of_nat (length bs)) s = (Ok (), emit (venc (length bs) @ bs) s)"
  using assms by (auto simp: pb_encode_string_def encode_varint write_emit unat_of_nat)

lemma encode_string_full:
  assumes "ok s" "length bs < 2 ^ 64" "space s < length (venc (length bs)) + length bs"
  shows "fst (pb_encode_string (Some bs) (of_nat (length bs)) s) = Fail"
  using assms by (auto simp: pb_encode_string_def encode_varint write_emit unat_of_nat os_return_error_def)

lemma encode_tag:
  assumes "ok s" "w < 8" "length (venc (8 * unat tag + w)) \<le> space s"
  shows "pb_encode_tag w tag s = (Ok (), emit (venc (8 * unat tag + w)) s)"
  using assms by (simp add: pb_encode_tag_def encode_varint tag_value)

lemma encode_fixed32:
  assumes "ok s"
  shows "pb_encode_fixed32 v s = (if 4 \<le> space s then (Ok (), emit (le_bytes 4 (unat v)) s)
     else os_return_error ''stream full'' s)"
  using write_emit [OF assms, of "le_bytes 4 (unat v)"]
  by (simp add: pb_encode_fixed32_def low_byte ucast_drop_bit le_bytes_4)

lemma encode_fixed64:
  assumes "ok s"
  shows "pb_encode_fixed64 v s = (if 8 \<le> space s then (Ok (), emit (le_bytes 8 (unat v)) s)
     else os_return_error ''stream full'' s)"
  using write_emit [OF assms, of "le_bytes 8 (unat v)"]
  by (simp add: pb_encode_fixed64_def low_byte ucast_drop_bit le_bytes_8)

end

section \<open>The library's buffer streams keep the contract\<close>

definition obuf_written :: "'u ostream_state \<Rightarrow> byte list" where
  "obuf_written st = (case st of Out_ptr buf pos \<Rightarrow> take pos buf | _ \<Rightarrow> [])"

definition obuf_room :: "'u ostream_state \<Rightarrow> nat" where
  "obuf_room st = (case st of Out_ptr buf pos \<Rightarrow> length buf - pos | _ \<Rightarrow> 0)"

definition obuf_valid :: "'u ostream_state \<Rightarrow> bool" where
  "obuf_valid st = (case st of Out_ptr buf pos \<Rightarrow> pos \<le> length buf | _ \<Rightarrow> False)"

definition obuf_put :: "byte list \<Rightarrow> 'u ostream_state \<Rightarrow> 'u ostream_state" where
  "obuf_put d st = (case st of
      Out_ptr buf pos \<Rightarrow> Out_ptr (take pos buf @ d @ drop (pos + length d) buf) (pos + length d)
    | st' \<Rightarrow> st')"

lemmas obuf_defs = obuf_written_def obuf_room_def obuf_valid_def obuf_put_def

interpretation obuf: pb_sink Buf_write obuf_written obuf_room obuf_valid obuf_put
  by unfold_locales
    (auto simp: obuf_defs call_write_def buf_write_def ac_simps split: ostream_state.splits)

lemma obuf_from_buffer:
  assumes "unat n \<le> length buf"
  shows "obuf.ok (pb_ostream_from_buffer buf n)" "obuf.space (pb_ostream_from_buffer buf n) = unat n"
  using assms by (simp_all add: obuf.ok_def obuf.space_def pb_ostream_from_buffer_def obuf_defs)

section \<open>Counting streams\<close>

text \<open>Without a callback every write succeeds and only counts.\<close>

lemma pb_write_sizing:
  "os_callback s = Null_write \<Longrightarrow> pb_write b n s = (Ok (), s\<lparr>bytes_written := bytes_written s + n\<rparr>)"
  by (simp add: pb_write_def)

lemma encode_varint_sizing:
  "os_callback s = Null_write \<Longrightarrow>
   pb_encode_varint v s = (Ok (), s\<lparr>bytes_written := bytes_written s + of_nat (length (venc (unat v)))\<rparr>)"
  by (simp add: pb_encode_varint_venc pb_write_sizing)

end
