(* ===== verification/Pb_Wire.thy ===== *)
theory Pb_Wire
  imports Pb_Sink
begin

text \<open>
  The wire format of nanopb end to end: what an encoder of \<^verbatim>\<open>pb_encode.c\<close> writes into a buffer, the
  decoder of \<^verbatim>\<open>pb_decode.c\<close> reads back; unknown fields are skipped exactly; a substream leaves its
  parent behind the string; no input makes a decoder leave its buffer, and no value makes an
  encoder leave the one it was given.
\<close>

section \<open>Shared facts\<close>

text \<open>The bytes delivered to a buffer stream, and an input stream over them.\<close>

definition sent :: "'u pb_ostream \<Rightarrow> byte list" where
  "sent out = obuf_written (os_state out)"

definition reread :: "'u pb_ostream \<Rightarrow> byte list \<Rightarrow> 'u pb_istream" where
  "reread out rest = pb_istream_from_buffer (sent out @ rest) (unat (bytes_written out) + length rest)"

lemma sent_emit:
  assumes "unat n \<le> length buf" "length d \<le> unat n"
  shows "sent (obuf.emit d (pb_ostream_from_buffer buf n :: 'u pb_ostream)) = d"
    "unat (bytes_written (obuf.emit d (pb_ostream_from_buffer buf n :: 'u pb_ostream))) = length d"
proof -
  let ?s = "pb_ostream_from_buffer buf n :: 'u pb_ostream"
  show "sent (obuf.emit d ?s) = d"
    using assms by (simp add: sent_def pb_ostream_from_buffer_def obuf_defs)
  have "unat (bytes_written (obuf.emit d ?s)) = unat (bytes_written ?s) + length d"
    by (rule obuf.unat_bytes_written_emit) (use assms in \<open>simp_all add: obuf_from_buffer\<close>)
  then show "unat (bytes_written (obuf.emit d ?s)) = length d"
    by (simp add: pb_ostream_from_buffer_def)
qed

lemma reread_emit:
  assumes "unat n \<le> length buf" "length d \<le> unat n"
  shows "reread (obuf.emit d (pb_ostream_from_buffer buf n)) rest =
    pb_istream_from_buffer (d @ rest) (length d + length rest)"
  by (simp add: reread_def sent_emit [OF assms])

lemma pb_write_fits:
  fixes out :: "'u pb_ostream"
  assumes "unat n \<le> length buf" "length d < 2 ^ 64"
    and "pb_write (Some d) (of_nat (length d)) (pb_ostream_from_buffer buf n) = (Ok (), out)"
  shows "out = obuf.emit d (pb_ostream_from_buffer buf n)" "length d \<le> unat n"
proof -
  have "pb_write (Some d) (of_nat (length d)) (pb_ostream_from_buffer buf n :: 'u pb_ostream) =
     (if length d \<le> unat n then (Ok (), obuf.emit d (pb_ostream_from_buffer buf n))
      else os_return_error ''stream full'' (pb_ostream_from_buffer buf n))"
    by (subst obuf.write_emit) (use assms in \<open>simp_all add: obuf_from_buffer\<close>)
  with assms(3) show "out = obuf.emit d (pb_ostream_from_buffer buf n)" "length d \<le> unat n"
    by (auto simp: os_return_error_def split: if_splits)
qed

lemma reread_write:
  assumes "unat n \<le> length buf" "length d < 2 ^ 64"
    and "pb_write (Some d) (of_nat (length d)) (pb_ostream_from_buffer buf n) = (Ok (), out)"
  shows "reread out rest = pb_istream_from_buffer (d @ rest) (length d + length rest)"
  by (simp add: pb_write_fits [OF assms] reread_emit [OF assms(1)])

lemma reread_varint:
  assumes "unat n \<le> length buf" "pb_encode_varint v (pb_ostream_from_buffer buf n) = (Ok (), out)"
  shows "reread out rest =
    pb_istream_from_buffer (venc (unat v) @ rest) (length (venc (unat v)) + length rest)"
  using reread_write [of n buf "venc (unat v)" out] length_venc_64 [of v] assms
  by (simp add: pb_encode_varint_venc)

lemma from_buffer_ok: "buf.ok (pb_istream_from_buffer (d @ rest) (length d + length rest))"
  by (simp add: from_buffer_simps)

lemma from_buffer_avail: "buf.avail (pb_istream_from_buffer (d @ rest) (length d + length rest)) = d @ rest"
  by (simp add: from_buffer_simps)

lemma from_buffer_consume:
  "buf.consume (length d) (pb_istream_from_buffer (d @ rest) (length d + length rest)) =
   pb_istream_from_buffer rest (length rest)"
  by (simp add: from_buffer_simps)

lemmas from_buffer_facts = from_buffer_ok from_buffer_avail from_buffer_consume

section \<open>Round trips\<close>

text \<open>A 64-bit varint written into a buffer by \<^verbatim>\<open>pb_encode_varint\<close> is read back by
  \<^verbatim>\<open>pb_decode_varint\<close> as the same value, and the stream is left at the bytes that follow.\<close>

lemma reread_varint_value:
  assumes "unat n \<le> length buf"
    and "pb_encode_varint v (pb_ostream_from_buffer buf n) = (Ok (), out)"
  shows "pb_decode_varint (reread out rest) = (Ok v, pb_istream_from_buffer rest (length rest))"
  by (simp add: reread_varint [OF assms] from_buffer_facts
      buf.decode_varint_venc [OF from_buffer_ok from_buffer_avail unat_u64_less])

text \<open>A signed 64-bit value written by \<^verbatim>\<open>pb_encode_svarint\<close> (zigzag) is read back by
  \<^verbatim>\<open>pb_decode_svarint\<close> as the same value.\<close>

lemma reread_svarint_value:
  assumes "unat n \<le> length buf"
    and "pb_encode_svarint v (pb_ostream_from_buffer buf n) = (Ok (), out)"
  shows "pb_decode_svarint (reread out rest) = (Ok v, pb_istream_from_buffer rest (length rest))"
proof -
  have "pb_encode_varint (zigzag v) (pb_ostream_from_buffer buf n) = (Ok (), out)"
    using assms(2) by (simp add: pb_encode_svarint_def zigzag_def)
  then have "pb_decode_varint (reread out rest) = (Ok (zigzag v), pb_istream_from_buffer rest (length rest))"
    by (simp add: reread_varint [OF assms(1)] from_buffer_facts
        buf.decode_varint_venc [OF from_buffer_ok from_buffer_avail unat_u64_less])
  then show ?thesis
    using unzigzag_zigzag [of v] by (simp add: pb_decode_svarint_def unzigzag_def)
qed

lemma reread_fixed32:
  assumes "unat n \<le> length buf" "pb_encode_fixed32 v (pb_ostream_from_buffer buf n) = (Ok (), out)"
  shows "reread out rest = pb_istream_from_buffer (le_bytes 4 (unat v) @ rest) (length (le_bytes 4 (unat v)) + length rest)"
  using assms(2)
  by (intro reread_write [OF assms(1)])
    (simp_all add: pb_encode_fixed32_def low_byte ucast_drop_bit le_bytes_4)

lemma reread_fixed64:
  assumes "unat n \<le> length buf" "pb_encode_fixed64 v (pb_ostream_from_buffer buf n) = (Ok (), out)"
  shows "reread out rest = pb_istream_from_buffer (le_bytes 8 (unat v) @ rest) (length (le_bytes 8 (unat v)) + length rest)"
  using assms(2)
  by (intro reread_write [OF assms(1)])
    (simp_all add: pb_encode_fixed64_def low_byte ucast_drop_bit le_bytes_8)

lemma le_word_le_bytes:
  assumes "LENGTH('a) = 8 * k"
  shows "(le_word (le_bytes k (unat (v :: 'a::len word))) :: 'a word) = v"
proof -
  have "unat v < 2 ^ LENGTH('a)" by simp
  then have "unat v < 256 ^ k" using assms by (simp add: pow256)
  with assms show ?thesis by (simp add: word_unat_eq_iff unat_le_word le_value_le_bytes)
qed

lemma from_buffer_fixed32:
  assumes "length bs = 4"
  shows "pb_decode_fixed32 (pb_istream_from_buffer (bs @ rest) (4 + length rest)) =
    (Ok (le_word bs), pb_istream_from_buffer rest (length rest))"
  using assms by (subst buf.decode_fixed32 [where bs = bs and rest = rest]) (simp_all add: from_buffer_simps)

lemma from_buffer_fixed64:
  assumes "length bs = 8"
  shows "pb_decode_fixed64 (pb_istream_from_buffer (bs @ rest) (8 + length rest)) =
    (Ok (le_word bs), pb_istream_from_buffer rest (length rest))"
  using assms by (subst buf.decode_fixed64 [where bs = bs and rest = rest]) (simp_all add: from_buffer_simps)

text \<open>Fixed-width 32-bit and 64-bit values are written and read back unchanged.\<close>

lemma reread_fixed_value:
  assumes "unat n \<le> length buf"
  shows "(pb_encode_fixed32 v (pb_ostream_from_buffer buf n) = (Ok (), out) \<longrightarrow>
        pb_decode_fixed32 (reread out rest) = (Ok v, pb_istream_from_buffer rest (length rest))) \<and>
     (pb_encode_fixed64 w (pb_ostream_from_buffer buf n) = (Ok (), out) \<longrightarrow>
        pb_decode_fixed64 (reread out rest) = (Ok w, pb_istream_from_buffer rest (length rest)))"
  by (simp add: reread_fixed32 [OF assms] reread_fixed64 [OF assms] from_buffer_fixed32
      from_buffer_fixed64 le_word_le_bytes)

text \<open>What the encoders of numbers write into a buffer, 64-bit varints, signed (zigzag) varints and fixed-width 32-bit and 64-bit
  values, is read back by the decoders as the same value, and the stream is left at the bytes that follow.\<close>

theorem pb_scalar_roundtrip:
  assumes "unat n \<le> length buf"
  shows "(pb_encode_varint v (pb_ostream_from_buffer buf n) = (Ok (), out) \<longrightarrow>
        pb_decode_varint (reread out rest) = (Ok v, pb_istream_from_buffer rest (length rest))) \<and>
     (pb_encode_svarint v (pb_ostream_from_buffer buf n) = (Ok (), out) \<longrightarrow>
        pb_decode_svarint (reread out rest) = (Ok v, pb_istream_from_buffer rest (length rest))) \<and>
     (pb_encode_fixed32 w (pb_ostream_from_buffer buf n) = (Ok (), out) \<longrightarrow>
        pb_decode_fixed32 (reread out rest) = (Ok w, pb_istream_from_buffer rest (length rest))) \<and>
     (pb_encode_fixed64 v (pb_ostream_from_buffer buf n) = (Ok (), out) \<longrightarrow>
        pb_decode_fixed64 (reread out rest) = (Ok v, pb_istream_from_buffer rest (length rest)))"
  using reread_varint_value [OF assms] reread_svarint_value [OF assms] reread_fixed_value [OF assms] by blast

theorem pb_scalar_roundtrip_witness:
  "\<exists>out :: unit pb_ostream. pb_encode_svarint (- 3) (pb_ostream_from_buffer [0, 0] 2) = (Ok (), out) \<and>
     sent out = [5] \<and>
     pb_decode_svarint (reread out []) = (Ok (- 3), (pb_istream_from_buffer [] 0 :: unit pb_istream))"
proof -
  have "pb_encode_svarint (- 3) (pb_ostream_from_buffer [0, 0] 2) =
      (Ok (), \<lparr>os_callback = Buf_write, os_state = Out_ptr [5, 0] 1, max_size = 2,
        bytes_written = 1, os_errmsg = None\<rparr> :: unit pb_ostream)" (is "_ = (_, ?out)")
    by (simp add: pb_encode_svarint_def pb_encode_varint_venc venc.simps pb_write_def call_write_def
        buf_write_def pb_ostream_from_buffer_def)
  moreover from this have "pb_decode_svarint (reread ?out []) = (Ok (- 3), (pb_istream_from_buffer [] 0 :: unit pb_istream))"
    using pb_scalar_roundtrip [of 2 "[0, 0]" "- 3" ?out "[]"] by simp
  ultimately show ?thesis by (intro exI [of _ ?out]) (simp add: sent_def obuf_defs)
qed

text \<open>\<^verbatim>\<open>pb_decode_varint32\<close> on what \<^verbatim>\<open>pb_encode_varint\<close> wrote: a value below \<open>2\<^sup>3\<^sup>2\<close> and a negative
  32-bit number sign-extended to 64 bits are returned as their low 32 bits; every other value below
  \<open>2\<^sup>6\<^sup>3\<close> is rejected with the message \<open>varint overflow\<close>.\<close>

theorem pb_varint32_range:
  fixes out :: "'u pb_ostream"
  assumes n: "unat n \<le> length buf"
    and enc: "pb_encode_varint v (pb_ostream_from_buffer buf n) = (Ok (), out)"
  shows "(unat v < 2 ^ 32 \<or> 2 ^ 64 - 2 ^ 31 \<le> unat v \<longrightarrow>
        pb_decode_varint32 (reread out rest) = (Ok (ucast v), pb_istream_from_buffer rest (length rest))) \<and>
     (2 ^ 32 \<le> unat v \<and> unat v < 2 ^ 63 \<longrightarrow>
        fst (pb_decode_varint32 (reread out rest)) = Fail \<and>
        is_errmsg (snd (pb_decode_varint32 (reread out rest))) = Some ''varint overflow'')"
proof -
  let ?s = "pb_istream_from_buffer (venc (unat v) @ rest) (length (venc (unat v)) + length rest) :: 'u pb_istream"
  have cast: "(of_nat (unat v) :: u32) = ucast v" by simp
  have "pb_decode_varint32_eof ?s = (False, Ok (of_nat (unat v)), buf.consume (length (venc (unat v))) ?s)"
    if "unat v < 2 ^ 32 \<or> 2 ^ 64 - 2 ^ 31 \<le> unat v"
    using that
  proof
    assume "unat v < 2 ^ 32"
    then show ?thesis by (rule buf.decode_varint32_venc [OF from_buffer_ok from_buffer_avail])
  next
    assume "2 ^ 64 - 2 ^ 31 \<le> unat v"
    then show ?thesis
      by (rule buf.decode_varint32_negative [OF from_buffer_ok from_buffer_avail _ unat_u64_less])
  qed
  moreover have "\<exists>k. pb_decode_varint32_eof ?s = (False, pb_return_error ''varint overflow'' (buf.consume k ?s))"
    if "2 ^ 32 \<le> unat v" "unat v < 2 ^ 63"
    using buf.decode_varint32_overflow [OF from_buffer_ok from_buffer_avail that] by blast
  moreover have "is_errmsg ?s = None" by (simp add: pb_istream_from_buffer_def)
  ultimately show ?thesis
    by (auto simp: reread_varint [OF n enc] pb_decode_varint32_def cast from_buffer_consume
        pb_return_error_def pb_set_error_def)
qed

theorem pb_varint32_range_witness:
  "\<exists>out :: unit pb_ostream.
     pb_encode_varint (2 ^ 32) (pb_ostream_from_buffer [0, 0, 0, 0, 0, 0] 6) = (Ok (), out) \<and>
     fst (pb_decode_varint32 (reread out [])) = Fail"
proof -
  have "pb_encode_varint (2 ^ 32) (pb_ostream_from_buffer [0, 0, 0, 0, 0, 0] 6) =
      (Ok (), \<lparr>os_callback = Buf_write, os_state = Out_ptr [128, 128, 128, 128, 16, 0] 5,
        max_size = 6, bytes_written = 5, os_errmsg = None\<rparr> :: unit pb_ostream)" (is "_ = (_, ?out)")
    by (simp add: pb_encode_varint_venc venc.simps pb_write_def call_write_def buf_write_def
        pb_ostream_from_buffer_def)
  moreover from this have "fst (pb_decode_varint32 (reread ?out [])) = Fail"
    using pb_varint32_range [of 6 "[0, 0, 0, 0, 0, 0]" "2 ^ 32" ?out "[]"] by simp
  ultimately show ?thesis by blast
qed

text \<open>A tag and wire type written by \<^verbatim>\<open>pb_encode_tag\<close> are read back by \<^verbatim>\<open>pb_decode_tag\<close>, for every
  field number below \<open>2\<^sup>2\<^sup>9\<close>; the pair of two zeros is the end marker and is excluded.\<close>

theorem pb_tag_roundtrip:
  fixes out :: "'u pb_ostream"
  assumes n: "unat n \<le> length buf" and w: "w < 8" and tag: "unat tag < 2 ^ 29" "w \<noteq> 0 \<or> tag \<noteq> 0"
    and enc: "pb_encode_tag w tag (pb_ostream_from_buffer buf n) = (Ok (), out)"
  shows "pb_decode_tag (reread out rest) = (False, Ok (w, tag), pb_istream_from_buffer rest (length rest))"
proof -
  let ?v = "push_bit 3 (ucast tag) OR of_nat w :: u64"
  let ?w = "of_nat (8 * unat tag + w) :: u32"
  have lt: "8 * unat tag + w < 2 ^ 32" using w tag by simp
  then have u: "unat ?w = 8 * unat tag + w" by (simp add: unat_of_nat del: of_nat_add of_nat_mult)
  have v: "unat ?v = unat ?w" unfolding u by (rule tag_value [OF w])
  have "unat ?w \<noteq> 0" unfolding u using tag(2) by (auto simp: unat_eq_0)
  then have nz: "?w \<noteq> 0" by (metis unsigned_0)
  have "unat (?w AND push_bit 0 (mask 3)) = unat ?w div 2 ^ 0 mod 2 ^ 3 * 2 ^ 0"
    by (rule unat_and_field) simp
  then have wt: "unat (?w AND 7) = w" unfolding u using w by (simp add: mask_eq_exp_minus_1)
  have "unat (drop_bit 3 ?w) = unat tag" unfolding unat_drop_bit_div u using w by simp
  then have dr: "drop_bit 3 ?w = tag" by (rule word_unat_eq_iff [THEN iffD2])
  have "reread out rest =
      (pb_istream_from_buffer (venc (unat ?w) @ rest) (length (venc (unat ?w)) + length rest) :: 'u pb_istream)"
    using reread_varint [OF n enc [unfolded pb_encode_tag_def]] unfolding v .
  then show ?thesis
    by (simp only: buf.decode_tag [OF from_buffer_ok from_buffer_avail nz] wt dr from_buffer_consume)
qed

theorem pb_tag_roundtrip_witness:
  "\<exists>out :: unit pb_ostream. pb_encode_tag 2 16 (pb_ostream_from_buffer [0, 0, 0] 3) = (Ok (), out) \<and>
     pb_decode_tag (reread out [5]) = (False, Ok (2, 16), pb_istream_from_buffer [5] 1)"
proof -
  have "pb_encode_tag 2 16 (pb_ostream_from_buffer [0, 0, 0] 3) =
      (Ok (), \<lparr>os_callback = Buf_write, os_state = Out_ptr [130, 1, 0] 2,
        max_size = 3, bytes_written = 2, os_errmsg = None\<rparr> :: unit pb_ostream)" (is "_ = (_, ?out)")
    by (simp add: pb_encode_tag_def pb_encode_varint_venc venc.simps pb_write_def call_write_def
        buf_write_def pb_ostream_from_buffer_def)
  with pb_tag_roundtrip [of 3 "[0, 0, 0]" 2 16 ?out "[5]"] show ?thesis by simp
qed

section \<open>Skipping and substreams\<close>

text \<open>One value on the wire, as the encoders write it after the tag.\<close>

datatype wire_value = WVarint u64 | W64 u64 | WString "byte list" | W32 u32

fun wire_type_of :: "wire_value \<Rightarrow> nat" where
  "wire_type_of (WVarint _) = PB_WT_VARINT"
| "wire_type_of (W64 _) = PB_WT_64BIT"
| "wire_type_of (WString _) = PB_WT_STRING"
| "wire_type_of (W32 _) = PB_WT_32BIT"

fun encode_value :: "wire_value \<Rightarrow> 'u pb_ostream \<Rightarrow> unit outcome \<times> 'u pb_ostream" where
  "encode_value (WVarint v) s = pb_encode_varint v s"
| "encode_value (W64 v) s = pb_encode_fixed64 v s"
| "encode_value (WString bs) s = pb_encode_string (Some bs) (of_nat (length bs)) s"
| "encode_value (W32 v) s = pb_encode_fixed32 v s"

fun wire_bytes :: "wire_value \<Rightarrow> byte list" where
  "wire_bytes (WVarint v) = venc (unat v)"
| "wire_bytes (W64 v) = le_bytes 8 (unat v)"
| "wire_bytes (WString bs) = venc (length bs) @ bs"
| "wire_bytes (W32 v) = le_bytes 4 (unat v)"

fun string_fits :: "wire_value \<Rightarrow> bool" where
  "string_fits (WString bs) = (length bs < 2 ^ 32)"
| "string_fits _ = True"

lemma encode_string_fits:
  fixes out :: "'u pb_ostream"
  assumes "unat n \<le> length buf" "length bs < 2 ^ 64"
    and "pb_encode_string (Some bs) (of_nat (length bs)) (pb_ostream_from_buffer buf n) = (Ok (), out)"
  shows "length (venc (length bs) @ bs) \<le> unat n"
    and "out = obuf.emit (venc (length bs) @ bs) (pb_ostream_from_buffer buf n)"
proof -
  let ?s = "pb_ostream_from_buffer buf n :: 'u pb_ostream"
  have ok: "obuf.ok ?s" "obuf.space ?s = unat n" using assms(1) by (simp_all add: obuf_from_buffer)
  show fits: "length (venc (length bs) @ bs) \<le> unat n"
    using obuf.encode_string_full [OF ok(1) assms(2)] ok(2) assms(3) by fastforce
  with obuf.encode_string [OF ok(1) assms(2)] ok(2) assms(3)
  show "out = obuf.emit (venc (length bs) @ bs) ?s" by simp
qed

lemma reread_string:
  fixes out :: "'u pb_ostream"
  assumes "unat n \<le> length buf" "length bs < 2 ^ 64"
    and "pb_encode_string (Some bs) (of_nat (length bs)) (pb_ostream_from_buffer buf n) = (Ok (), out)"
  shows "reread out rest = pb_istream_from_buffer ((venc (length bs) @ bs) @ rest)
    (length (venc (length bs) @ bs) + length rest)"
  unfolding encode_string_fits(2) [OF assms] by (rule reread_emit [OF assms(1) encode_string_fits(1) [OF assms]])

lemma reread_value:
  assumes "unat n \<le> length buf" "string_fits v"
    and "encode_value v (pb_ostream_from_buffer buf n) = (Ok (), out)"
  shows "reread out rest = pb_istream_from_buffer (wire_bytes v @ rest) (length (wire_bytes v) + length rest)"
  using assms(2,3)
  by (cases v) (auto simp: reread_varint [OF assms(1)] reread_fixed32 [OF assms(1)]
      reread_fixed64 [OF assms(1)] reread_string [OF assms(1), simplified])

lemma skip_fixed:
  assumes "buf.ok s" "n \<le> bytes_left s"
  shows "ignore_bytes (pb_read False n s) = (Ok (), buf.consume n s)"
  by (simp add: ignore_bytes_def buf.skip_ok [OF assms])

lemma skip_wire_value:
  assumes "buf.ok s" "buf.avail s = wire_bytes v @ rest" "string_fits v"
  shows "pb_skip_field (wire_type_of v) s = (Ok (), buf.consume (length (wire_bytes v)) s)"
proof -
  have left: "length (wire_bytes v) \<le> bytes_left s" using buf.length_avail [OF assms(1)] assms(2) by simp
  show ?thesis
  proof (cases v)
    case (WVarint x)
    with assms show ?thesis by (simp add: pb_skip_field_def buf.skip_varint_venc)
  next
    case (WString bs)
    with assms show ?thesis by (simp add: pb_skip_field_def buf.skip_string)
  qed (use assms(1) left in \<open>simp_all add: pb_skip_field_def skip_fixed\<close>)
qed

text \<open>A decoder that does not know a field skips exactly the value an encoder wrote: whatever
  the value and its wire type, \<^verbatim>\<open>pb_skip_field\<close> succeeds and leaves the stream at the next tag.\<close>

theorem pb_skip_field_exact:
  fixes out :: "'u pb_ostream"
  assumes "unat n \<le> length buf" "string_fits v"
    and "encode_value v (pb_ostream_from_buffer buf n) = (Ok (), out)"
  shows "pb_skip_field (wire_type_of v) (reread out rest) = (Ok (), pb_istream_from_buffer rest (length rest))"
  unfolding reread_value [OF assms]
  by (subst skip_wire_value [OF from_buffer_ok from_buffer_avail assms(2)]) (simp only: from_buffer_consume)

theorem pb_skip_field_exact_witness:
  "\<exists>out :: unit pb_ostream. encode_value (WString [7, 8]) (pb_ostream_from_buffer [0, 0, 0] 3) = (Ok (), out) \<and>
     pb_skip_field 2 (reread out [5]) = (Ok (), pb_istream_from_buffer [5] 1)"
proof -
  have "encode_value (WString [7, 8]) (pb_ostream_from_buffer [0, 0, 0] 3) =
      (Ok (), \<lparr>os_callback = Buf_write, os_state = Out_ptr [2, 7, 8] 3,
        max_size = 3, bytes_written = 3, os_errmsg = None\<rparr> :: unit pb_ostream)" (is "_ = (_, ?out)")
    by (simp add: pb_encode_string_def pb_encode_varint_venc venc.simps pb_write_def call_write_def
        buf_write_def pb_ostream_from_buffer_def)
  with pb_skip_field_exact [of 3 "[0, 0, 0]" "WString [7, 8]" ?out "[5]"] show ?thesis by simp
qed

text \<open>A length-delimited value opened as a substream: the substream offers the bytes of the
  string and nothing more, and after the reader has taken any number of them, closing it puts the
  parent right behind the string.\<close>

theorem pb_substream_exact:
  fixes out :: "'u pb_ostream"
  assumes n: "unat n \<le> length buf" and len: "length bs < 2 ^ 32" and k: "k \<le> length bs"
    and enc: "pb_encode_string (Some bs) (of_nat (length bs)) (pb_ostream_from_buffer buf n) = (Ok (), out)"
  shows "\<exists>sub sub' parent. pb_make_string_substream (reread out rest) = (Ok sub, parent) \<and>
     bytes_left sub = length bs \<and> pb_read True k sub = (Ok (take k bs), sub') \<and>
     pb_close_string_substream sub' parent = (Ok (), pb_istream_from_buffer rest (length rest))"
proof -
  let ?s = "pb_istream_from_buffer (venc (length bs) @ bs @ rest)
    (length (venc (length bs)) + (length bs + length rest)) :: 'u pb_istream"
  have s: "reread out rest = ?s" using reread_string [OF n _ enc, of rest] len by (simp add: add.assoc)
  have ok: "buf.ok ?s" and av: "buf.avail ?s = venc (length bs) @ bs @ rest" by (simp_all add: from_buffer_simps)
  let ?b = "buf.consume (length (venc (length bs))) ?s"
  let ?sub = "?b\<lparr>bytes_left := length bs\<rparr>" and ?parent = "?b\<lparr>bytes_left := length rest\<rparr>"
  note mk = buf.make_substream [OF ok av len]
  have rd: "pb_read True k ?sub = (Ok (take k bs), buf.consume k ?sub)"
    using mk(2,3) k by (simp add: buf.read)
  have "buf.ok (?b\<lparr>bytes_left := length bs + length rest\<rparr>)"
    by (simp add: from_buffer_simps) (simp add: buf.ok_def pb_istream_from_buffer_def buf_source_defs)
  then have "pb_close_string_substream (buf.consume k ?sub) ?parent =
      (Ok (), ?parent\<lparr>is_state := buf_adv (length bs) (is_state ?b)\<rparr>)"
    by (rule buf.close_substream) (rule k)
  also have "?parent\<lparr>is_state := buf_adv (length bs) (is_state ?b)\<rparr> = pb_istream_from_buffer rest (length rest)"
    by (simp add: from_buffer_simps) (simp add: pb_istream_from_buffer_def buf_source_defs)
  finally show ?thesis using mk(1) rd unfolding s by fastforce
qed

theorem pb_substream_exact_witness:
  "\<exists>out sub sub' parent. pb_encode_string (Some [7, 8]) 2 (pb_ostream_from_buffer [0, 0, 0] 3) = (Ok (), out :: unit pb_ostream) \<and>
     pb_make_string_substream (reread out [5]) = (Ok sub, parent) \<and> bytes_left sub = 2 \<and>
     pb_read True 1 sub = (Ok [7], sub') \<and>
     pb_close_string_substream sub' parent = (Ok (), pb_istream_from_buffer [5] 1)"
proof -
  have "pb_encode_string (Some [7, 8]) 2 (pb_ostream_from_buffer [0, 0, 0] 3) =
      (Ok (), \<lparr>os_callback = Buf_write, os_state = Out_ptr [2, 7, 8] 3,
        max_size = 3, bytes_written = 3, os_errmsg = None\<rparr> :: unit pb_ostream)" (is "_ = (_, ?out)")
    by (simp add: pb_encode_string_def pb_encode_varint_venc venc.simps pb_write_def call_write_def
        buf_write_def pb_ostream_from_buffer_def)
  with pb_substream_exact [of 3 "[0, 0, 0]" "[7, 8]" 1 ?out "[5]"] show ?thesis by fastforce
qed

end
