(* ===== verification/Pb_Streams.thy ===== *)
theory Pb_Streams
  imports Pb_Wire
begin

text \<open>
  Whole runs of the stream layer of nanopb: any sequence of decoder calls on any buffer, and any
  sequence of encoder calls into any buffer, the way the generated code and the callbacks of an
  application issue them. No run leaves its buffer; a run on a counting stream measures exactly
  what the same run puts into a buffer.
\<close>

lemma seq_ok_weak_cong: "r = r' \<Longrightarrow> seq_ok r k = seq_ok r' k"
  by simp

section \<open>Runs of decoders\<close>

datatype decode_op =
    Dec_varint | Dec_varint32 | Dec_svarint | Dec_bool | Dec_fixed32 | Dec_fixed64 | Dec_tag
  | Dec_skip nat | Dec_raw nat nat | Dec_read bool nat

definition forget :: "'a outcome \<times> 's \<Rightarrow> unit outcome \<times> 's" where
  "forget r = seq_ok r (\<lambda>_ s. (Ok (), s))"

fun decode_step :: "decode_op \<Rightarrow> 'u pb_istream \<Rightarrow> unit outcome \<times> 'u pb_istream" where
  "decode_step Dec_varint s = forget (pb_decode_varint s)"
| "decode_step Dec_varint32 s = forget (pb_decode_varint32 s)"
| "decode_step Dec_svarint s = forget (pb_decode_svarint s)"
| "decode_step Dec_bool s = forget (pb_decode_bool s)"
| "decode_step Dec_fixed32 s = forget (pb_decode_fixed32 s)"
| "decode_step Dec_fixed64 s = forget (pb_decode_fixed64 s)"
| "decode_step Dec_tag s = forget (snd (pb_decode_tag s))"
| "decode_step (Dec_skip w) s = pb_skip_field w s"
| "decode_step (Dec_raw w m) s = forget (read_raw_value w m s)"
| "decode_step (Dec_read t n) s = forget (pb_read t n s)"

text \<open>A run goes on after a failed call, as a careless caller may.\<close>

fun decode_run :: "decode_op list \<Rightarrow> 'u pb_istream \<Rightarrow> unit outcome \<times> 'u pb_istream" where
  "decode_run [] s = (Ok (), s)"
| "decode_run (op # ops) s = (case decode_step op s of
      (Undef, s1) \<Rightarrow> (Undef, s1)
    | (_, s1) \<Rightarrow> decode_run ops s1)"

lemma safe_forget: "buf.ok s \<Longrightarrow> buf.safe s r \<Longrightarrow> buf.safe s (forget r)"
  unfolding forget_def by (rule buf.safe_seq) (auto intro: buf.advances_refl)

lemma safe_decode_step:
  fixes s :: "'u pb_istream"
  assumes "buf.ok s"
  shows "buf.safe s (decode_step op s)"
proof (cases op)
  case (Dec_read t n)
  with assms show ?thesis by (cases t) (simp_all add: safe_forget buf.safe_read buf.safe_skip)
qed (use assms in \<open>simp_all add: safe_forget buf.safe_values buf.safe_tag buf.safe_raw_value buf.safe_skip_field\<close>)

lemma safe_decode_run:
  fixes s :: "'u pb_istream"
  assumes "buf.ok s"
  shows "fst (decode_run ops s) = Ok () \<and> buf.advances s (snd (decode_run ops s))"
  using assms
proof (induction ops arbitrary: s)
  case (Cons op ops)
  obtain r s1 where r: "decode_step op s = (r, s1)" by force
  with safe_decode_step [OF Cons.prems, of op] have adv: "r \<noteq> Undef" "buf.advances s s1"
    by (simp_all add: buf.safe_def)
  with Cons.IH [OF buf.advances_ok [OF adv(2) Cons.prems]] r show ?case
    by (cases r) (auto intro: buf.advances_trans [OF Cons.prems])
qed (simp add: buf.advances_refl)

lemma from_buffer_sel: "bytes_left (pb_istream_from_buffer bytes n) = n"
  by (simp add: pb_istream_from_buffer_def)

text \<open>C7: Memory safety on hostile input: whatever bytes a buffer holds and whatever decoder calls
  are issued on it, also after failures, no call reads outside the buffer, and the stream stays the
  rest of the same buffer, with the count of bytes left in step.\<close>

theorem pb_decode_memory_safe:
  assumes "n \<le> length bytes"
  shows "\<exists>k e. k \<le> n \<and> decode_run ops (pb_istream_from_buffer bytes n :: 'u pb_istream) =
     (Ok (), (pb_istream_from_buffer (drop k bytes) (n - k))\<lparr>is_errmsg := e\<rparr>)"
proof -
  let ?s = "pb_istream_from_buffer bytes n :: 'u pb_istream"
  have "buf.ok ?s" using assms by (simp add: from_buffer_simps)
  from safe_decode_run [OF this, of ops] obtain k e where
    "fst (decode_run ops ?s) = Ok ()" "k \<le> n" "snd (decode_run ops ?s) = (buf.consume k ?s)\<lparr>is_errmsg := e\<rparr>"
    by (auto simp: buf.advances_def from_buffer_sel)
  then show ?thesis
    by (intro exI [of _ k] exI [of _ e]) (simp add: prod_eq_iff buf_consume_from_buffer)
qed

theorem pb_decode_memory_safe_witness:
  "\<exists>k e. k \<le> 2 \<and> decode_run [Dec_varint, Dec_skip 2, Dec_fixed64] (pb_istream_from_buffer [0xFF, 0xFF, 0] 2) =
     (Ok (), (pb_istream_from_buffer (drop k [0xFF, 0xFF, 0]) (2 - k))\<lparr>is_errmsg := e\<rparr>)"
  by (rule pb_decode_memory_safe) simp

section \<open>Runs of encoders\<close>

datatype encode_op = Enc_tag nat u32 | Enc_value wire_value | Enc_raw "byte list"

fun encode_step :: "encode_op \<Rightarrow> 'u pb_ostream \<Rightarrow> unit outcome \<times> 'u pb_ostream" where
  "encode_step (Enc_tag w t) s = pb_encode_tag w t s"
| "encode_step (Enc_value v) s = encode_value v s"
| "encode_step (Enc_raw bs) s = pb_write (Some bs) (of_nat (length bs)) s"

text \<open>A run stops at the first failure, as the generated code does.\<close>

fun encode_run :: "encode_op list \<Rightarrow> 'u pb_ostream \<Rightarrow> unit outcome \<times> 'u pb_ostream" where
  "encode_run [] s = (Ok (), s)"
| "encode_run (op # ops) s = seq_ok (encode_step op s) (\<lambda>_ s1. encode_run ops s1)"

text \<open>A run that ignores failures.\<close>

fun encode_careless :: "encode_op list \<Rightarrow> 'u pb_ostream \<Rightarrow> unit outcome \<times> 'u pb_ostream" where
  "encode_careless [] s = (Ok (), s)"
| "encode_careless (op # ops) s = (case encode_step op s of
      (Undef, s1) \<Rightarrow> (Undef, s1)
    | (_, s1) \<Rightarrow> encode_careless ops s1)"

fun op_bytes :: "encode_op \<Rightarrow> byte list" where
  "op_bytes (Enc_tag w t) = venc (unat (push_bit 3 (ucast t) OR of_nat w :: u64))"
| "op_bytes (Enc_value v) = wire_bytes v"
| "op_bytes (Enc_raw bs) = bs"

definition run_bytes :: "encode_op list \<Rightarrow> byte list" where
  "run_bytes ops = concat (map op_bytes ops)"

lemma run_bytes_simps [simp]:
  "run_bytes [] = []" "run_bytes (op # ops) = op_bytes op @ run_bytes ops"
  by (simp_all add: run_bytes_def)

subsection \<open>No write outside the buffer\<close>

text \<open>The first \<open>n\<close> bytes of the object \<open>b\<close> belong to the stream.\<close>

definition confined :: "byte list \<Rightarrow> nat \<Rightarrow> 'u pb_ostream \<Rightarrow> bool" where
  "confined b n s \<longleftrightarrow> obuf.ok s \<and> unat (max_size s) = n \<and>
     (\<exists>b' pos. os_state s = Out_ptr b' pos \<and> length b' = length b \<and> drop n b' = drop n b \<and>
       pos = unat (bytes_written s))"

lemma confined_emit:
  fixes s :: "'u pb_ostream"
  assumes "confined b n s" "length d \<le> obuf.space s"
  shows "confined b n (obuf.emit d s)"
proof -
  from assms(1) obtain b' pos where s: "obuf.ok s" "unat (max_size s) = n" "os_state s = Out_ptr b' pos"
      "length b' = length b" "drop n b' = drop n b" "pos = unat (bytes_written s)"
    by (auto simp: confined_def)
  have "pos + length d \<le> n" using s assms(2) by (auto simp: obuf.ok_def obuf.space_def)
  moreover have "n \<le> length b"
    using s by (auto simp: obuf.ok_def obuf.space_def obuf_defs)
  ultimately have "length (take pos b' @ d @ drop (pos + length d) b') = length b"
      "drop n (take pos b' @ d @ drop (pos + length d) b') = drop n b"
    using s by simp_all
  with s assms(2) show ?thesis
    by (simp add: confined_def obuf.unat_bytes_written_emit obuf_put_def)
qed

lemma confined_error: "confined b n s \<Longrightarrow> confined b n (os_set_error m s)"
  by (auto simp: confined_def os_set_error_def obuf.ok_def obuf.space_def)

definition keeps :: "byte list \<Rightarrow> nat \<Rightarrow> 'a outcome \<times> 'u pb_ostream \<Rightarrow> bool" where
  "keeps b n r \<longleftrightarrow> fst r \<noteq> Undef \<and> confined b n (snd r)"

lemma keeps_seq: "keeps b n r \<Longrightarrow> (\<And>a s. confined b n s \<Longrightarrow> keeps b n (k a s)) \<Longrightarrow> keeps b n (seq_ok r k)"
  by (cases r; cases "fst r") (auto simp: keeps_def)

lemma pb_write_take:
  "unat c \<le> length d \<Longrightarrow>
   pb_write (Some d) c s = pb_write (Some (take (unat c) d)) (of_nat (length (take (unat c) d))) s"
  by (simp add: pb_write_def min_absorb2)

lemma keeps_write:
  fixes s :: "'u pb_ostream"
  assumes "confined b n s" "unat c \<le> length d"
  shows "keeps b n (pb_write (Some d) c s)"
proof -
  have "unat c < 2 ^ 64" by (rule unat_u64_less)
  then have "length (take (unat c) d) < 2 ^ 64" by simp
  with assms obuf.write_emit [of s "take (unat c) d"] show ?thesis
    by (subst pb_write_take [OF assms(2)])
      (simp add: keeps_def os_return_error_def confined_error confined_emit confined_def [of b n s])
qed

lemma unat_of_nat_le: "unat (of_nat k :: u64) \<le> k"
  by (simp add: unat_of_nat)

lemma keeps_varint: "confined b n s \<Longrightarrow> keeps b n (pb_encode_varint v s)"
  by (simp add: pb_encode_varint_venc keeps_write unat_of_nat_le)

lemma keeps_encode_step: "confined b n s \<Longrightarrow> keeps b n (encode_step op s)"
proof (cases op)
  case (Enc_value v)
  assume "confined b n s"
  with Enc_value show ?thesis
    by (cases v) (auto simp: pb_encode_string_def pb_encode_fixed32_def pb_encode_fixed64_def
        intro!: keeps_seq keeps_varint keeps_write unat_of_nat_le)
qed (auto simp: pb_encode_tag_def keeps_varint keeps_write unat_of_nat_le)

lemma keeps_careless: "confined b n s \<Longrightarrow> keeps b n (encode_careless ops s)"
proof (induction ops arbitrary: s)
  case (Cons op ops)
  obtain r s1 where "encode_step op s = (r, s1)" by force
  with keeps_encode_step [OF Cons.prems, of op] Cons.IH [of s1] show ?case
    by (cases r) (simp_all add: keeps_def)
qed (simp add: keeps_def)

lemma confined_from_buffer:
  "unat n \<le> length b \<Longrightarrow> confined b (unat n) (pb_ostream_from_buffer b n)"
  by (simp add: confined_def obuf_from_buffer) (simp add: pb_ostream_from_buffer_def)

text \<open>C8: No encoder call writes outside the space it was given: whatever is encoded, also after a
  failed call, the object keeps its length, the bytes from \<^verbatim>\<open>bufsize\<close> on are untouched, and
  \<^verbatim>\<open>bytes_written\<close> never exceeds \<^verbatim>\<open>bufsize\<close>.\<close>

theorem pb_encode_memory_safe:
  assumes "unat n \<le> length bytes"
  shows "\<exists>out bytes'. encode_careless ops (pb_ostream_from_buffer bytes n :: 'u pb_ostream) = (Ok (), out) \<and>
     os_state out = Out_ptr bytes' (unat (bytes_written out)) \<and> length bytes' = length bytes \<and>
     drop (unat n) bytes' = drop (unat n) bytes \<and> unat (bytes_written out) \<le> unat n"
proof -
  let ?r = "encode_careless ops (pb_ostream_from_buffer bytes n :: 'u pb_ostream)"
  have "fst (encode_careless ops s) \<in> {Ok (), Undef}" for s :: "'u pb_ostream"
    by (induction ops arbitrary: s) (auto split: prod.splits outcome.splits)
  then have "fst ?r \<in> {Ok (), Undef}" .
  moreover have "keeps bytes (unat n) ?r" by (rule keeps_careless [OF confined_from_buffer [OF assms]])
  ultimately show ?thesis
    by (cases ?r) (auto simp: keeps_def confined_def obuf.ok_def)
qed

theorem pb_encode_memory_safe_witness:
  "\<exists>out bytes'. encode_careless [Enc_raw [1, 2, 3], Enc_value (WVarint 5)]
      (pb_ostream_from_buffer [0, 0, 9] 2 :: unit pb_ostream) = (Ok (), out) \<and>
     os_state out = Out_ptr bytes' (unat (bytes_written out)) \<and> length bytes' = length [0, 0, 9 :: byte] \<and>
     drop (unat (2 :: u64)) bytes' = drop (unat (2 :: u64)) [0, 0, 9] \<and>
     unat (bytes_written out) \<le> unat (2 :: u64)"
  by (rule pb_encode_memory_safe) simp

subsection \<open>Counting before writing\<close>

lemma encode_step_sizing:
  assumes "os_callback s = Null_write" "length (op_bytes op) < 2 ^ 64"
  shows "encode_step op s = (Ok (), s\<lparr>bytes_written := bytes_written s + of_nat (length (op_bytes op))\<rparr>)"
proof (cases op)
  case (Enc_value v)
  show ?thesis
  proof (cases v)
    case (WString bs)
    then have "length bs < 2 ^ 64" using assms(2) Enc_value by simp
    then have "unat (of_nat (length bs) :: u64) = length bs" by (simp add: unat_of_nat)
    with WString Enc_value assms(1) show ?thesis
      by (simp add: encode_varint_sizing pb_write_sizing pb_encode_string_def add.assoc)
  qed (use Enc_value assms(1) in \<open>simp_all add: encode_varint_sizing pb_write_sizing
        pb_encode_fixed32_def pb_encode_fixed64_def\<close>)
qed (use assms in \<open>simp_all add: pb_encode_tag_def encode_varint_sizing pb_write_sizing\<close>)

lemma encode_run_sizing:
  assumes "os_callback s = Null_write" "length (run_bytes ops) < 2 ^ 64"
  shows "encode_run ops s = (Ok (), s\<lparr>bytes_written := bytes_written s + of_nat (length (run_bytes ops))\<rparr>)"
  using assms by (induction ops arbitrary: s) (auto simp: encode_step_sizing ac_simps)

lemma encode_step_emit:
  fixes s :: "'u pb_ostream"
  assumes "obuf.ok s" "length (op_bytes op) < 2 ^ 64"
  shows "length (op_bytes op) \<le> obuf.space s \<Longrightarrow> encode_step op s = (Ok (), obuf.emit (op_bytes op) s)"
    and "obuf.space s < length (op_bytes op) \<Longrightarrow> fst (encode_step op s) = Fail"
proof -
  note facts = pb_encode_tag_def obuf.encode_varint obuf.write_emit obuf.encode_string
    obuf.encode_string_full obuf.encode_fixed32 obuf.encode_fixed64 os_return_error_def
  show "length (op_bytes op) \<le> obuf.space s \<Longrightarrow> encode_step op s = (Ok (), obuf.emit (op_bytes op) s)"
    using assms by (cases op rule: op_bytes.cases; cases "case op of Enc_value v \<Rightarrow> v | _ \<Rightarrow> W32 0")
      (auto simp: facts)
  show "obuf.space s < length (op_bytes op) \<Longrightarrow> fst (encode_step op s) = Fail"
    using assms by (cases op rule: op_bytes.cases; cases "case op of Enc_value v \<Rightarrow> v | _ \<Rightarrow> W32 0")
      (auto simp: facts)
qed

lemma encode_run_emit:
  fixes s :: "'u pb_ostream"
  assumes "obuf.ok s" "length (run_bytes ops) < 2 ^ 64"
  shows "length (run_bytes ops) \<le> obuf.space s \<Longrightarrow> encode_run ops s = (Ok (), obuf.emit (run_bytes ops) s)"
    and "obuf.space s < length (run_bytes ops) \<Longrightarrow> fst (encode_run ops s) = Fail"
  using assms
proof (induction ops arbitrary: s)
  case (Cons op ops)
  { case 1
    then show ?case using Cons.IH(1) [of "obuf.emit (op_bytes op) s"]
      by (simp add: encode_step_emit(1))
  next
    case 2
    show ?case
    proof (cases "length (op_bytes op) \<le> obuf.space s")
      case True
      with 2 Cons.IH(2) [of "obuf.emit (op_bytes op) s"] show ?thesis by (simp add: encode_step_emit(1))
    next
      case False
      with 2 have "fst (encode_step op s) = Fail" by (intro encode_step_emit(2)) simp_all
      then show ?thesis by (cases "encode_step op s") simp
    qed
  }
qed simp_all

text \<open>The counting pass of nanopb is exact: a run of encoder calls on \<^verbatim>\<open>PB_OSTREAM_SIZING\<close> counts
  the bytes that the same run puts into a buffer, the run into a buffer succeeds exactly when the
  counted size fits, and then the buffer holds the concatenation of what each call writes.\<close>

theorem pb_sizing_exact:
  assumes "length (run_bytes ops) < 2 ^ 64" "unat n \<le> length bytes"
  shows "\<exists>counted :: 'u pb_ostream. encode_run ops PB_OSTREAM_SIZING = (Ok (), counted) \<and>
     unat (bytes_written counted) = length (run_bytes ops) \<and>
     (if bytes_written counted \<le> n
      then \<exists>out :: 'u pb_ostream. encode_run ops (pb_ostream_from_buffer bytes n) = (Ok (), out) \<and>
        bytes_written out = bytes_written counted \<and> sent out = run_bytes ops
      else fst (encode_run ops (pb_ostream_from_buffer bytes n :: 'u pb_ostream)) = Fail)"
proof -
  let ?d = "run_bytes ops" and ?s = "pb_ostream_from_buffer bytes n :: 'u pb_ostream"
  let ?c = "(PB_OSTREAM_SIZING :: 'u pb_ostream)\<lparr>bytes_written := of_nat (length ?d)\<rparr>"
  have "encode_run ops PB_OSTREAM_SIZING = (Ok (), ?c)"
    using encode_run_sizing [of "PB_OSTREAM_SIZING :: 'u pb_ostream", OF _ assms(1)]
    by (simp add: PB_OSTREAM_SIZING_def)
  moreover have c: "unat (bytes_written ?c) = length ?d" using assms(1) by (simp add: unat_of_nat)
  moreover have ok: "obuf.ok ?s" "obuf.space ?s = unat n" using obuf_from_buffer [OF assms(2)] by simp_all
  moreover have "encode_run ops ?s = (Ok (), obuf.emit ?d ?s)" if "length ?d \<le> unat n"
    using encode_run_emit(1) [OF ok(1) assms(1)] that ok(2) by simp
  moreover have "fst (encode_run ops ?s) = Fail" if "unat n < length ?d"
    using encode_run_emit(2) [OF ok(1) assms(1)] that ok(2) by simp
  moreover have "bytes_written (obuf.emit ?d ?s) = bytes_written ?c" "sent (obuf.emit ?d ?s) = ?d"
    if "length ?d \<le> unat n"
    using sent_emit [OF assms(2) that, where 'u = 'u] c by (simp_all add: word_unat_eq_iff)
  ultimately show ?thesis
    by (intro exI [of _ ?c]) (auto simp: word_le_nat_alt)
qed

theorem pb_sizing_exact_witness:
  "\<exists>counted :: unit pb_ostream. encode_run [Enc_tag 2 1, Enc_value (WString [7, 8])] PB_OSTREAM_SIZING = (Ok (), counted) \<and>
     unat (bytes_written counted) = 4 \<and>
     fst (encode_run [Enc_tag 2 1, Enc_value (WString [7, 8])] (pb_ostream_from_buffer [0, 0, 0] 3 :: unit pb_ostream)) = Fail"
proof -
  let ?ops = "[Enc_tag 2 1, Enc_value (WString [7, 8])]"
  have len: "length (run_bytes ?ops) = 4" by (simp add: venc.simps)
  then have "length (run_bytes ?ops) < 2 ^ 64" by simp
  from pb_sizing_exact [OF this, of 3 "[0, 0, 0]", where 'u = unit] len
  show ?thesis by (auto simp: word_le_nat_alt split: if_splits)
qed

section \<open>Varints from arbitrary bytes\<close>

text \<open>C9: What \<^verbatim>\<open>pb_decode_varint\<close> does on any bytes: with ten continuation bytes in front it reports
  \<open>varint overflow\<close> after consuming them; when the stream ends inside the varint it reports
  \<open>end-of-stream\<close>; otherwise it returns the value of the seven-bit groups, reduced to 64 bits, and
  stands behind the first byte without the continuation bit.\<close>

theorem pb_decode_varint_spec:
  assumes "n \<le> length bytes" and k: "k = length (takeWhile cont (take n bytes))"
  shows "pb_decode_varint (pb_istream_from_buffer bytes n :: 'u pb_istream) =
     (if 10 \<le> k then pb_return_error ''varint overflow'' (pb_istream_from_buffer (drop 10 bytes) (n - 10))
      else if k = n then pb_return_error ''end-of-stream'' (pb_istream_from_buffer (drop n bytes) 0)
      else (Ok (of_nat (varint_value (take (Suc k) bytes))),
            pb_istream_from_buffer (drop (Suc k) bytes) (n - Suc k)))"
proof -
  let ?bs = "take n bytes"
  have "buf.ok (pb_istream_from_buffer bytes n :: 'u pb_istream)" using assms(1) by (simp add: from_buffer_simps)
  note dec = buf.decode_varint [OF this refl refl, unfolded buf_avail_from_buffer buf_consume_from_buffer]
  have split: "takeWhile cont ?bs @ dropWhile cont ?bs = ?bs" by simp
  have len: "length ?bs = n" using assms(1) by simp
  show ?thesis
  proof (cases "dropWhile cont ?bs")
    case Nil
    then have all: "takeWhile cont ?bs = ?bs" using split by (metis append_Nil2)
    have kn: "k = n" unfolding k all by (rule len)
    show ?thesis unfolding dec Nil k [symmetric] kn by (simp only: list.case simp_thms if_True diff_self_eq_0)
  next
    case (Cons t ts)
    have "k + length (dropWhile cont ?bs) = n"
      unfolding k length_append [symmetric] split by (rule len)
    then have kn: "k < n" unfolding Cons by simp
    have "take (Suc k) bytes = take (Suc k) ?bs" using kn by simp
    also have "\<dots> = take (Suc k) (takeWhile cont ?bs @ t # ts)" unfolding Cons [symmetric] split ..
    also have "\<dots> = takeWhile cont ?bs @ [t]" by (simp add: k)
    finally have "take (Suc k) bytes = takeWhile cont ?bs @ [t]" .
    then show ?thesis unfolding dec Cons k [symmetric] using kn by simp
  qed
qed

theorem pb_decode_varint_spec_witness:
  "pb_decode_varint (pb_istream_from_buffer [0x96, 0x01, 0x55] 3) =
     (Ok 150, (pb_istream_from_buffer [0x55] 1 :: unit pb_istream))"
  using pb_decode_varint_spec [of 3 "[0x96, 0x01, 0x55]" 1, where 'u = unit] by simp

text \<open>C10: Where the 32-bit decoder is laxer than the 64-bit one: 38 bytes that no 64-bit varint has
  decode to 8, because the 8-bit bit position wraps and the last byte lands at bit 3; and the
  64-bit number \<open>2\<^sup>6\<^sup>3 + 2\<^sup>3\<^sup>1\<close>, which is no sign-extended 32-bit number, decodes to \<open>2\<^sup>3\<^sup>1\<close>.\<close>

theorem pb_varint32_lenient:
  "pb_decode_varint32 (pb_istream_from_buffer (replicate 37 0x80 @ [0x01]) 38) =
     (Ok 8, (pb_istream_from_buffer [] 0 :: unit pb_istream)) \<and>
   fst (pb_decode_varint (pb_istream_from_buffer (replicate 37 0x80 @ [0x01]) 38 :: unit pb_istream)) = Fail \<and>
   pb_decode_varint32 (pb_istream_from_buffer (venc (2 ^ 63 + 2 ^ 31)) 10) =
     (Ok (2 ^ 31), (pb_istream_from_buffer [] 0 :: unit pb_istream))"
proof -
  note run = pb_decode_varint32_def pb_decode_varint32_eof_def varint32_loop.simps pb_readbyte_def
    call_callback_def buf_read_def pb_istream_from_buffer_def pb_decode_varint_def varint_loop.simps
    pb_return_error_def
  have rep: "replicate 37 (0x80 :: byte) @ [0x01] = [128,128,128,128,128,128,128,128,128,128,128,128,128,
    128,128,128,128,128,128,128,128,128,128,128,128,128,128,128,128,128,128,128,128,128,128,128,128,1]"
    by (simp add: numeral_eq_Suc)
  have "pb_decode_varint32 (pb_istream_from_buffer (replicate 37 0x80 @ [0x01]) 38) =
     (Ok 8, (pb_istream_from_buffer [] 0 :: unit pb_istream))"
    unfolding rep by (simp add: run cong: seq_ok_weak_cong)
  moreover have "fst (pb_decode_varint (pb_istream_from_buffer (replicate 37 0x80 @ [0x01]) 38 :: unit pb_istream)) = Fail"
    unfolding rep by (simp add: run cong: seq_ok_weak_cong)
  moreover have "pb_decode_varint32 (pb_istream_from_buffer (venc (2 ^ 63 + 2 ^ 31)) 10) =
     (Ok (2 ^ 31), (pb_istream_from_buffer [] 0 :: unit pb_istream))"
    by (simp add: run venc.simps cong: seq_ok_weak_cong)
  ultimately show ?thesis by blast
qed

end
