(* ===== verification/Pb_Memory.thy ===== *)
theory Pb_Memory
  imports C_Prelude
begin

text \<open>
  The memory that the field layer of nanopb works on: objects with addresses, read and written through pointers with offsets. A
  cell holds a byte, one byte of a stored pointer, or nothing yet. Every access checks that the object lives and that the range is
  inside of it; the check failing is \<open>Undef\<close>. The answers of the allocator are a list.
\<close>

datatype addr = Null | Addr nat int

datatype cell = Byte byte | Pointer_byte addr nat | Uninit

record memory =
  mem_objects :: "nat \<Rightarrow> cell list option"
  mem_fresh :: nat
  mem_answers :: "bool list"

definition shift :: "addr \<Rightarrow> int \<Rightarrow> addr outcome" where
  "shift a k = (case a of Null \<Rightarrow> Undef | Addr b i \<Rightarrow> Ok (Addr b (i + k)))"

definition in_object :: "memory \<Rightarrow> addr \<Rightarrow> nat \<Rightarrow> bool" where
  "in_object m a n = (case a of
      Null \<Rightarrow> False
    | Addr b i \<Rightarrow> (case mem_objects m b of None \<Rightarrow> False | Some cs \<Rightarrow> 0 \<le> i \<and> nat i + n \<le> length cs))"

definition load_cells :: "addr \<Rightarrow> nat \<Rightarrow> memory \<Rightarrow> cell list outcome" where
  "load_cells a n m = (case a of
      Null \<Rightarrow> Undef
    | Addr b i \<Rightarrow> if in_object m a n then Ok (take n (drop (nat i) (the (mem_objects m b)))) else Undef)"

definition store_cells :: "addr \<Rightarrow> cell list \<Rightarrow> memory \<Rightarrow> unit outcome \<times> memory" where
  "store_cells a cs m = (case a of
      Null \<Rightarrow> (Undef, m)
    | Addr b i \<Rightarrow>
        if in_object m a (length cs)
        then let old = the (mem_objects m b)
             in (Ok (), m\<lparr>mem_objects := (mem_objects m)(b \<mapsto> take (nat i) old @ cs @ drop (nat i + length cs) old)\<rparr>)
        else (Undef, m))"

fun cell_byte :: "cell \<Rightarrow> byte option" where
  "cell_byte (Byte b) = Some b"
| "cell_byte _ = None"

definition load_bytes :: "addr \<Rightarrow> nat \<Rightarrow> memory \<Rightarrow> byte list outcome" where
  "load_bytes a n m = bind_out (load_cells a n m) (\<lambda>cs. case those (map cell_byte cs) of Some bs \<Rightarrow> Ok bs | None \<Rightarrow> Undef)"

definition store_bytes :: "addr \<Rightarrow> byte list \<Rightarrow> memory \<Rightarrow> unit outcome \<times> memory" where
  "store_bytes a bs m = store_cells a (map Byte bs) m"

text \<open>Numbers are stored with the low byte first; a pointer takes eight bytes, and the null pointer is zero.\<close>

definition load_u32 :: "addr \<Rightarrow> memory \<Rightarrow> u32 outcome" where
  "load_u32 a m = bind_out (load_bytes a 4 m) (\<lambda>bs. Ok (le_word bs))"

definition store_u32 :: "addr \<Rightarrow> u32 \<Rightarrow> memory \<Rightarrow> unit outcome \<times> memory" where
  "store_u32 a v m = store_bytes a (le_bytes 4 (unat v)) m"

definition pointer_cells :: "addr \<Rightarrow> cell list" where
  "pointer_cells p = (if p = Null then replicate 8 (Byte 0) else map (Pointer_byte p) [0..<8])"

definition load_ptr :: "addr \<Rightarrow> memory \<Rightarrow> addr outcome" where
  "load_ptr a m = bind_out (load_cells a 8 m) (\<lambda>cs.
     if cs = pointer_cells Null then Ok Null
     else case cs of Pointer_byte p k # _ \<Rightarrow> if cs = pointer_cells p then Ok p else Undef | _ \<Rightarrow> Undef)"

definition store_ptr :: "addr \<Rightarrow> addr \<Rightarrow> memory \<Rightarrow> unit outcome \<times> memory" where
  "store_ptr a p m = store_cells a (pointer_cells p) m"

text \<open>\<^verbatim>\<open>realloc\<close> and \<^verbatim>\<open>free\<close>: what is not a live allocation, given by its first byte, may not be passed to them. An
  answer that is false, or no answer, is running out of memory.\<close>

definition pb_realloc :: "addr \<Rightarrow> nat \<Rightarrow> memory \<Rightarrow> addr outcome \<times> memory" where
  "pb_realloc p n m =
     (let valid = (case p of Null \<Rightarrow> True | Addr b i \<Rightarrow> i = 0 \<and> mem_objects m b \<noteq> None);
          old = (case p of Null \<Rightarrow> [] | Addr b i \<Rightarrow> the (mem_objects m b));
          live = (case p of Null \<Rightarrow> mem_objects m | Addr b i \<Rightarrow> (mem_objects m)(b := None))
      in if \<not> valid then (Undef, m)
         else case mem_answers m of
            True # rest \<Rightarrow>
              (Ok (Addr (mem_fresh m) 0),
               m\<lparr>mem_objects := live(mem_fresh m \<mapsto> take n old @ replicate (n - length old) Uninit), mem_fresh := mem_fresh m + 1, mem_answers := rest\<rparr>)
          | _ \<Rightarrow> (Ok Null, m\<lparr>mem_answers := tl (mem_answers m)\<rparr>))"

definition pb_free :: "addr \<Rightarrow> memory \<Rightarrow> unit outcome \<times> memory" where
  "pb_free p m = (case p of
      Null \<Rightarrow> (Ok (), m)
    | Addr b i \<Rightarrow> if i = 0 \<and> mem_objects m b \<noteq> None then (Ok (), m\<lparr>mem_objects := (mem_objects m)(b := None)\<rparr>) else (Undef, m))"

end
