(* ===== verification/Pb_Common.thy ===== *)
theory Pb_Common
  imports Pb_Memory
begin

text \<open>
  Field descriptors (\<^verbatim>\<open>nanopb/pb.h\<close>) and the iterator over them (\<^verbatim>\<open>nanopb/pb_common.c\<close>). A table of descriptors is the list of its
  entries with the terminator; a pointer into a table is a position. What a descriptor points to is another table, by its number, or
  a default value.
\<close>

section \<open>Descriptors\<close>

datatype field_ptr = No_ptr | Sub_fields nat | Default_value "byte list"

record pb_field =
  fd_tag :: u32
  fd_type :: byte
  fd_data_offset :: u32
  fd_size_offset :: u32
  fd_data_size :: u32
  fd_array_size :: u32
  fd_ptr :: field_ptr

abbreviation PB_LTYPE_BOOL :: byte where "PB_LTYPE_BOOL \<equiv> 0x00"
abbreviation PB_LTYPE_VARINT :: byte where "PB_LTYPE_VARINT \<equiv> 0x01"
abbreviation PB_LTYPE_UVARINT :: byte where "PB_LTYPE_UVARINT \<equiv> 0x02"
abbreviation PB_LTYPE_SVARINT :: byte where "PB_LTYPE_SVARINT \<equiv> 0x03"
abbreviation PB_LTYPE_FIXED32 :: byte where "PB_LTYPE_FIXED32 \<equiv> 0x04"
abbreviation PB_LTYPE_FIXED64 :: byte where "PB_LTYPE_FIXED64 \<equiv> 0x05"
abbreviation PB_LTYPE_LAST_PACKABLE :: byte where "PB_LTYPE_LAST_PACKABLE \<equiv> 0x05"
abbreviation PB_LTYPE_BYTES :: byte where "PB_LTYPE_BYTES \<equiv> 0x06"
abbreviation PB_LTYPE_STRING :: byte where "PB_LTYPE_STRING \<equiv> 0x07"
abbreviation PB_LTYPE_SUBMESSAGE :: byte where "PB_LTYPE_SUBMESSAGE \<equiv> 0x08"
abbreviation PB_LTYPE_EXTENSION :: byte where "PB_LTYPE_EXTENSION \<equiv> 0x09"
abbreviation PB_LTYPE_FIXED_LENGTH_BYTES :: byte where "PB_LTYPE_FIXED_LENGTH_BYTES \<equiv> 0x0A"
abbreviation PB_HTYPE_REQUIRED :: byte where "PB_HTYPE_REQUIRED \<equiv> 0x00"
abbreviation PB_HTYPE_OPTIONAL :: byte where "PB_HTYPE_OPTIONAL \<equiv> 0x10"
abbreviation PB_HTYPE_REPEATED :: byte where "PB_HTYPE_REPEATED \<equiv> 0x20"
abbreviation PB_HTYPE_ONEOF :: byte where "PB_HTYPE_ONEOF \<equiv> 0x30"
abbreviation PB_ATYPE_STATIC :: byte where "PB_ATYPE_STATIC \<equiv> 0x00"
abbreviation PB_ATYPE_POINTER :: byte where "PB_ATYPE_POINTER \<equiv> 0x80"
abbreviation PB_ATYPE_CALLBACK :: byte where "PB_ATYPE_CALLBACK \<equiv> 0x40"
abbreviation PB_SIZE_MAX :: u32 where "PB_SIZE_MAX \<equiv> -1"

definition PB_ATYPE :: "pb_field \<Rightarrow> byte" where "PB_ATYPE f = fd_type f AND 0xC0"
definition PB_HTYPE :: "pb_field \<Rightarrow> byte" where "PB_HTYPE f = fd_type f AND 0x30"
definition PB_LTYPE :: "pb_field \<Rightarrow> byte" where "PB_LTYPE f = fd_type f AND 0x0F"

section \<open>The iterator\<close>

record pb_field_iter =
  it_start :: "pb_field list"
  it_pos :: nat
  it_required :: u32
  it_dest :: addr
  it_data :: addr
  it_size :: addr

definition it_field :: "pb_field_iter \<Rightarrow> pb_field" where
  "it_field it = it_start it ! it_pos it"

text \<open>The two pointers of a field that starts \<open>k\<close> bytes behind \<open>a\<close>.\<close>

definition place :: "addr \<Rightarrow> int \<Rightarrow> pb_field \<Rightarrow> pb_field_iter \<Rightarrow> pb_field_iter outcome" where
  "place a k f it =
     bind_out (shift a k) (\<lambda>pd. bind_out (shift pd (sint (fd_size_offset f))) (\<lambda>ps. Ok (it\<lparr>it_data := pd, it_size := ps\<rparr>)))"

definition pb_field_iter_begin :: "pb_field list \<Rightarrow> addr \<Rightarrow> (bool \<times> pb_field_iter) outcome" where
  "pb_field_iter_begin tab dest =
     (if tab = [] then Undef
      else let f = tab ! 0;
               it = \<lparr>it_start = tab, it_pos = 0, it_required = 0, it_dest = dest, it_data = Null, it_size = Null\<rparr>
        in bind_out (if dest = Null then Ok it else place dest (int (unat (fd_data_offset f))) f it) (\<lambda>it.
           Ok (fd_tag f \<noteq> 0, it)))"

text \<open>The size of a field in its structure.\<close>

definition prev_size :: "pb_field \<Rightarrow> nat" where
  "prev_size f =
     (if PB_ATYPE f = PB_ATYPE_STATIC \<and> PB_HTYPE f = PB_HTYPE_REPEATED then unat (fd_data_size f) * unat (fd_array_size f)
      else if PB_ATYPE f = PB_ATYPE_POINTER then 8
      else unat (fd_data_size f))"

definition pb_field_iter_next :: "pb_field_iter \<Rightarrow> (bool \<times> pb_field_iter) outcome" where
  "pb_field_iter_next it =
     (if length (it_start it) \<le> it_pos it then Undef
      else let prev = it_field it
        in if fd_tag prev = 0 then Ok (False, it)
           else let it' = it\<lparr>it_pos := it_pos it + 1\<rparr>; f = it_field it'
             in if length (it_start it) \<le> it_pos it' then Undef
                else if fd_tag f = 0
                then bind_out (pb_field_iter_begin (it_start it) (it_dest it)) (\<lambda>(_, it). Ok (False, it))
                else if PB_HTYPE prev = PB_HTYPE_ONEOF \<and> PB_HTYPE f = PB_HTYPE_ONEOF \<and> fd_data_offset f = PB_SIZE_MAX
                then Ok (True, it')
                else let it' = (if PB_HTYPE prev = PB_HTYPE_REQUIRED then it'\<lparr>it_required := it_required it + 1\<rparr> else it')
                  in bind_out (place (it_data it) (int (prev_size prev) + int (unat (fd_data_offset f))) f it') (\<lambda>it. Ok (True, it)))"

partial_function (option) iter_find_loop :: "(pb_field \<Rightarrow> bool) \<Rightarrow> nat \<Rightarrow> pb_field_iter \<Rightarrow> (bool \<times> pb_field_iter) outcome option" where
  "iter_find_loop wanted start it =
     (if length (it_start it) \<le> it_pos it then Some Undef
      else if wanted (it_field it) then Some (Ok (True, it))
      else case pb_field_iter_next it of
          Ok (_, it) \<Rightarrow> if it_pos it \<noteq> start then iter_find_loop wanted start it else Some (Ok (False, it))
        | Fail \<Rightarrow> Some Fail
        | Undef \<Rightarrow> Some Undef)"

declare iter_find_loop.simps [code]

definition wanted_field :: "u32 \<Rightarrow> pb_field \<Rightarrow> bool" where
  "wanted_field tag f \<longleftrightarrow> fd_tag f = tag \<and> PB_LTYPE f \<noteq> PB_LTYPE_EXTENSION"

definition pb_field_iter_find :: "pb_field_iter \<Rightarrow> u32 \<Rightarrow> (bool \<times> pb_field_iter) outcome option" where
  "pb_field_iter_find it tag = iter_find_loop (wanted_field tag) (it_pos it) it"

text \<open>The same loop, in \<^verbatim>\<open>pb_decode.c\<close>.\<close>

definition find_extension_field :: "pb_field_iter \<Rightarrow> (bool \<times> pb_field_iter) outcome option" where
  "find_extension_field it = iter_find_loop (\<lambda>f. PB_LTYPE f = PB_LTYPE_EXTENSION) (it_pos it) it"

section \<open>Where the iterator points\<close>

text \<open>A table with \<open>n\<close> fields and its terminator.\<close>

definition wf_table :: "pb_field list \<Rightarrow> nat \<Rightarrow> bool" where
  "wf_table tab n \<longleftrightarrow> length tab = Suc n \<and> fd_tag (tab ! n) = 0 \<and> (\<forall>i < n. fd_tag (tab ! i) \<noteq> 0)"

text \<open>A field of a union behind another one has the place of that one.\<close>

definition continues :: "pb_field list \<Rightarrow> nat \<Rightarrow> bool" where
  "continues tab i \<longleftrightarrow> PB_HTYPE (tab ! i) = PB_HTYPE_ONEOF \<and> PB_HTYPE (tab ! Suc i) = PB_HTYPE_ONEOF \<and> fd_data_offset (tab ! Suc i) = PB_SIZE_MAX"

fun field_off :: "pb_field list \<Rightarrow> nat \<Rightarrow> nat" where
  "field_off tab 0 = unat (fd_data_offset (tab ! 0))"
| "field_off tab (Suc i) =
     (if continues tab i then field_off tab i else field_off tab i + prev_size (tab ! i) + unat (fd_data_offset (tab ! Suc i)))"

fun size_off :: "pb_field list \<Rightarrow> nat \<Rightarrow> int" where
  "size_off tab 0 = int (field_off tab 0) + sint (fd_size_offset (tab ! 0))"
| "size_off tab (Suc i) =
     (if continues tab i then size_off tab i else int (field_off tab (Suc i)) + sint (fd_size_offset (tab ! Suc i)))"

definition required_before :: "pb_field list \<Rightarrow> nat \<Rightarrow> nat" where
  "required_before tab i = length (filter (\<lambda>f. PB_HTYPE f = PB_HTYPE_REQUIRED) (take i tab))"

definition it_at :: "pb_field list \<Rightarrow> nat \<Rightarrow> int \<Rightarrow> nat \<Rightarrow> pb_field_iter" where
  "it_at tab b k i = \<lparr>it_start = tab, it_pos = i, it_required = of_nat (required_before tab i), it_dest = Addr b k,
     it_data = Addr b (k + int (field_off tab i)), it_size = Addr b (k + size_off tab i)\<rparr>"

lemma it_at_simps [simp]:
  "it_start (it_at tab b k i) = tab" "it_pos (it_at tab b k i) = i" "it_dest (it_at tab b k i) = Addr b k"
  "it_field (it_at tab b k i) = tab ! i" "it_data (it_at tab b k i) = Addr b (k + int (field_off tab i))"
  "it_size (it_at tab b k i) = Addr b (k + size_off tab i)"
  by (simp_all add: it_at_def it_field_def)

lemma required_before_Suc:
  "i < length tab \<Longrightarrow> required_before tab (Suc i) = required_before tab i + (if PB_HTYPE (tab ! i) = PB_HTYPE_REQUIRED then 1 else 0)"
  by (simp add: required_before_def take_Suc_conv_app_nth)

lemma iter_begin_at: "wf_table tab n \<Longrightarrow> pb_field_iter_begin tab (Addr b k) = Ok (0 < n, it_at tab b k 0)"
  by (cases "n = 0") (auto simp: wf_table_def pb_field_iter_begin_def place_def shift_def it_at_def required_before_def add.assoc Let_def)

lemma iter_next_at:
  assumes "wf_table tab n" "i < n"
  shows "pb_field_iter_next (it_at tab b k i) = Ok (Suc i < n, it_at tab b k (if Suc i < n then Suc i else 0))"
proof (cases "Suc i < n")
  case True
  have t: "fd_tag (tab ! i) \<noteq> 0" "fd_tag (tab ! Suc i) \<noteq> 0" "length tab = Suc n" using assms True by (simp_all add: wf_table_def)
  have r: "required_before tab (Suc i) = required_before tab i + (if PB_HTYPE (tab ! i) = PB_HTYPE_REQUIRED then 1 else 0)"
    using assms t by (intro required_before_Suc) simp
  show ?thesis
  proof (cases "continues tab i")
    case cont: True
    then have "PB_HTYPE (tab ! i) = PB_HTYPE_ONEOF" by (simp add: continues_def)
    then show ?thesis using cont t r True by (simp add: pb_field_iter_next_def it_at_def it_field_def continues_def Let_def)
  next
    case False
    then show ?thesis using t r True
      by (auto simp: pb_field_iter_next_def it_at_def it_field_def continues_def Let_def place_def shift_def algebra_simps)
  qed
next
  case False
  then have "Suc i = n" using assms(2) by simp
  then have t: "fd_tag (tab ! i) \<noteq> 0" "fd_tag (tab ! Suc i) = 0" "length tab = Suc n" using assms by (simp_all add: wf_table_def)
  then show ?thesis using iter_begin_at [OF assms(1), of b k] False assms(2)
    by (simp add: pb_field_iter_next_def it_field_def Let_def)
qed

text \<open>The loop visits the fields in cyclic order, each once.\<close>

lemma cyclic_step:
  assumes "s < n" "t < n"
  shows "(if Suc ((s + t) mod n) < n then Suc ((s + t) mod n) else 0) = (s + Suc t) mod n" "(s + Suc t) mod n = s \<longleftrightarrow> Suc t = n"
proof -
  have n: "0 < n" using assms by simp
  show "(if Suc ((s + t) mod n) < n then Suc ((s + t) mod n) else 0) = (s + Suc t) mod n"
    using n mod_less_divisor [OF n, of "s + t"] by (auto simp: mod_Suc)
  show "(s + Suc t) mod n = s \<longleftrightarrow> Suc t = n"
  proof (cases "s + Suc t < n")
    case True
    then show ?thesis by auto
  next
    case False
    then have "(s + Suc t) mod n = (s + Suc t - n) mod n" by (simp add: le_mod_geq)
    then show ?thesis using assms False by auto
  qed
qed

definition first_from :: "(pb_field \<Rightarrow> bool) \<Rightarrow> pb_field list \<Rightarrow> nat \<Rightarrow> nat \<Rightarrow> nat" where
  "first_from P tab n s = (s + (LEAST t. P (tab ! ((s + t) mod n)))) mod n"

lemma find_loop_at:
  assumes "wf_table tab n" "s < n" "t < n" "\<forall>u < t. \<not> P (tab ! ((s + u) mod n))"
  shows "iter_find_loop P s (it_at tab b k ((s + t) mod n)) =
    Some (Ok (if \<exists>u < n. P (tab ! ((s + u) mod n)) then (True, it_at tab b k (first_from P tab n s)) else (False, it_at tab b k s)))"
  using assms(3,4)
proof (induction "n - t" arbitrary: t)
  case (Suc d)
  let ?i = "(s + t) mod n"
  have i: "?i < n" using assms(2) by simp
  have len: "length tab = Suc n" using assms(1) by (simp add: wf_table_def)
  show ?case
  proof (cases "P (tab ! ?i)")
    case True
    have "(LEAST t. P (tab ! ((s + t) mod n))) = t" using True Suc.prems(2) by (intro Least_equality) (auto simp: not_less [symmetric])
    moreover have "iter_find_loop P s (it_at tab b k ?i) = Some (Ok (True, it_at tab b k ?i))"
      using True i len by (subst iter_find_loop.simps) simp
    ultimately show ?thesis using True Suc.prems(1) by (auto simp: first_from_def)
  next
    case False
    have none: "\<forall>u < Suc t. \<not> P (tab ! ((s + u) mod n))" using Suc.prems(2) False by (auto simp: less_Suc_eq)
    have step: "iter_find_loop P s (it_at tab b k ?i) =
        (if Suc t = n then Some (Ok (False, it_at tab b k s)) else iter_find_loop P s (it_at tab b k ((s + Suc t) mod n)))"
      using False i len iter_next_at [OF assms(1) i, of b k] cyclic_step [OF assms(2) Suc.prems(1)]
      by (subst iter_find_loop.simps) (auto split: if_splits)
    show ?thesis
    proof (cases "Suc t = n")
      case True
      then show ?thesis using step none by auto
    next
      case False
      then have "Suc t < n" using Suc.prems(1) by simp
      then show ?thesis using step False Suc.hyps(1) [of "Suc t"] Suc.hyps(2) none by simp
    qed
  qed
qed simp

lemma cyclic_all: "s < n \<Longrightarrow> (\<exists>u < n. P (tab ! ((s + u) mod n))) \<longleftrightarrow> (\<exists>j < n. P (tab ! j))"
proof
  assume s: "s < n" and "\<exists>j < n. P (tab ! j)"
  then obtain j where j: "j < n" "P (tab ! j)" by blast
  show "\<exists>u < n. P (tab ! ((s + u) mod n))"
  proof (cases "s \<le> j")
    case True
    then show ?thesis using j by (intro exI [of _ "j - s"]) auto
  next
    case False
    then have "(s + (n - s + j)) mod n = j" using s j by simp
    then show ?thesis using False s j by (intro exI [of _ "n - s + j"]) auto
  qed
qed (metis mod_less_divisor gr_implies_not0 neq0_conv)

lemma first_from:
  assumes "s < n" "\<exists>j < n. P (tab ! j)"
  shows "first_from P tab n s < n" "P (tab ! first_from P tab n s)"
proof -
  obtain u where "P (tab ! ((s + u) mod n))" using assms cyclic_all [of s n P tab] by blast
  from LeastI [of "\<lambda>t. P (tab ! ((s + t) mod n))", OF this] show "P (tab ! first_from P tab n s)" by (simp add: first_from_def)
  show "first_from P tab n s < n" using assms(1) by (simp add: first_from_def)
qed

lemma find_loop_exact:
  assumes "wf_table tab n" "s < n"
  shows "iter_find_loop P s (it_at tab b k s) =
    Some (Ok (if \<exists>j < n. P (tab ! j) then (True, it_at tab b k (first_from P tab n s)) else (False, it_at tab b k s)))"
  using find_loop_at [OF assms, of 0 P b k] assms(2) cyclic_all [OF assms(2), of P tab] by simp

lemma find_loop_empty:
  "wf_table tab 0 \<Longrightarrow> iter_find_loop P 0 (it_at tab b k 0) = Some (Ok (P (tab ! 0), it_at tab b k 0))"
  by (subst iter_find_loop.simps) (simp add: wf_table_def pb_field_iter_next_def)

section \<open>Structures\<close>

text \<open>The data offsets that the macros of \<^verbatim>\<open>pb.h\<close> give to the members of a structure, from the offsets of the members.\<close>

definition PB_DATAOFFSET_OTHER :: "nat list \<Rightarrow> pb_field list \<Rightarrow> nat \<Rightarrow> int" where
  "PB_DATAOFFSET_OTHER offs tab i = int (offs ! Suc i) - int (offs ! i) - int (prev_size (tab ! i))"

definition laid_out :: "nat list \<Rightarrow> pb_field list \<Rightarrow> nat \<Rightarrow> bool" where
  "laid_out offs tab n \<longleftrightarrow> wf_table tab n \<and> length offs = n \<and> (0 < n \<longrightarrow> unat (fd_data_offset (tab ! 0)) = offs ! 0) \<and>
     (\<forall>i. Suc i < n \<longrightarrow>
       (if continues tab i then offs ! Suc i = offs ! i else int (unat (fd_data_offset (tab ! Suc i))) = PB_DATAOFFSET_OTHER offs tab i))"

lemma laid_out_off: "laid_out offs tab n \<Longrightarrow> i < n \<Longrightarrow> field_off tab i = offs ! i"
proof (induction i)
  case (Suc i)
  then have "field_off tab i = offs ! i" by simp
  moreover have "if continues tab i then offs ! Suc i = offs ! i else int (unat (fd_data_offset (tab ! Suc i))) = PB_DATAOFFSET_OTHER offs tab i"
    using Suc.prems unfolding laid_out_def by blast
  ultimately show ?case unfolding PB_DATAOFFSET_OTHER_def field_off.simps by (simp only: split: if_splits) (linarith | simp only: simp_thms)+
qed (auto simp: laid_out_def)


definition sample_table :: "pb_field list" where
  "sample_table =
     [\<lparr>fd_tag = 1, fd_type = 0x01, fd_data_offset = 0, fd_size_offset = 0, fd_data_size = 4, fd_array_size = 0, fd_ptr = No_ptr\<rparr>,
      \<lparr>fd_tag = 2, fd_type = 0x21, fd_data_offset = 4, fd_size_offset = -4, fd_data_size = 4, fd_array_size = 3, fd_ptr = No_ptr\<rparr>,
      \<lparr>fd_tag = 3, fd_type = 0x05, fd_data_offset = 4, fd_size_offset = 0, fd_data_size = 8, fd_array_size = 0, fd_ptr = No_ptr\<rparr>,
      \<lparr>fd_tag = 0, fd_type = 0, fd_data_offset = 0, fd_size_offset = 0, fd_data_size = 0, fd_array_size = 0, fd_ptr = No_ptr\<rparr>]"


end
