(* ===== verification/Pb_Fields.thy ===== *)
theory Pb_Fields
  imports Pb_Common Pb_Istream
begin

text \<open>
  The field layer of the decoder (\<^verbatim>\<open>nanopb/pb_decode.c\<close>): from the wire into a structure in memory, driven by field descriptors. The
  state is the stream and the memory. The functions call each other through submessages, so what they call is an argument
  of the definitions, and \<open>run\<close> closes the recursion: a job is a call or the rest of a loop, and every job takes one unit of fuel.
  Callbacks and extension types of the application are found through the environment, by the addresses stored in the structures.
\<close>

section \<open>State\<close>

type_synonym 'u dst = "'u pb_istream \<times> memory"

type_synonym 'u client = "'u pb_istream \<Rightarrow> pb_field \<Rightarrow> addr \<Rightarrow> memory \<Rightarrow> bool \<times> 'u pb_istream \<times> memory"

type_synonym 'u ext_client = "'u pb_istream \<Rightarrow> addr \<Rightarrow> u32 \<Rightarrow> nat \<Rightarrow> memory \<Rightarrow> bool \<times> 'u pb_istream \<times> memory"

record 'u ext_type =
  et_decode :: "'u ext_client option"
  et_arg :: nat

record 'u env =
  ev_tables :: "nat \<Rightarrow> pb_field list"
  ev_callbacks :: "nat \<Rightarrow> 'u client option"
  ev_ext_types :: "nat \<Rightarrow> 'u ext_type option"

definition on_stream :: "('s \<Rightarrow> 'a outcome \<times> 's) \<Rightarrow> 's \<times> memory \<Rightarrow> 'a outcome \<times> 's \<times> memory" where
  "on_stream f st = (case f (fst st) of (r, s) \<Rightarrow> (r, (s, snd st)))"

definition on_mem :: "(memory \<Rightarrow> 'a outcome \<times> memory) \<Rightarrow> 's \<times> memory \<Rightarrow> 'a outcome \<times> 's \<times> memory" where
  "on_mem f st = (case f (snd st) of (r, m) \<Rightarrow> (r, (fst st, m)))"

definition peek :: "(memory \<Rightarrow> 'a outcome) \<Rightarrow> 's \<times> memory \<Rightarrow> 'a outcome \<times> 's \<times> memory" where
  "peek f st = (f (snd st), st)"

abbreviation field_error :: "string \<Rightarrow> 'u dst \<Rightarrow> 'a outcome \<times> 'u dst" where
  "field_error msg \<equiv> on_stream (pb_return_error msg)"

text \<open>\<^verbatim>\<open>pb_read\<close> into memory.\<close>

definition read_into :: "addr \<Rightarrow> nat \<Rightarrow> 'u dst \<Rightarrow> unit outcome \<times> 'u dst" where
  "read_into dest n st = seq_ok (on_stream (pb_read True n) st) (\<lambda>bs st. if bs = [] then (Ok (), st) else on_mem (store_bytes dest bs) st)"

section \<open>Scalars\<close>

definition pb_dec_bool :: "pb_field \<Rightarrow> addr \<Rightarrow> 'u dst \<Rightarrow> unit outcome \<times> 'u dst" where
  "pb_dec_bool f dest st = seq_ok (on_stream pb_decode_varint32 st) (\<lambda>v. on_mem (store_bytes dest [if v \<noteq> 0 then 1 else 0]))"

text \<open>The value that an integer of \<open>k\<close> bytes has after it was assigned, signed and unsigned.\<close>

definition narrow_signed :: "nat \<Rightarrow> u64 \<Rightarrow> u64" where
  "narrow_signed k v = (if k = 4 then scast (ucast v :: u32) else if k = 2 then scast (ucast v :: u16) else if k = 1 then scast (ucast v :: byte) else v)"

definition narrow_unsigned :: "nat \<Rightarrow> u64 \<Rightarrow> u64" where
  "narrow_unsigned k v = (if k = 4 then ucast (ucast v :: u32) else if k = 2 then ucast (ucast v :: u16) else if k = 1 then ucast (ucast v :: byte) else v)"

definition store_clamped :: "(nat \<Rightarrow> u64 \<Rightarrow> u64) \<Rightarrow> pb_field \<Rightarrow> addr \<Rightarrow> u64 \<Rightarrow> 'u dst \<Rightarrow> unit outcome \<times> 'u dst" where
  "store_clamped narrow f dest v st =
     (let k = unat (fd_data_size f)
      in if k = 8 \<or> k = 4 \<or> k = 2 \<or> k = 1
         then seq_ok (on_mem (store_bytes dest (le_bytes k (unat v))) st) (\<lambda>_ st.
              if narrow k v \<noteq> v then field_error ''integer too large'' st else (Ok (), st))
         else field_error ''invalid data_size'' st)"

definition pb_dec_varint :: "pb_field \<Rightarrow> addr \<Rightarrow> 'u dst \<Rightarrow> unit outcome \<times> 'u dst" where
  "pb_dec_varint f dest st = seq_ok (on_stream pb_decode_varint st) (\<lambda>value.
     store_clamped narrow_signed f dest (if fd_data_size f = 8 then value else scast (ucast value :: u32)))"

definition pb_dec_uvarint :: "pb_field \<Rightarrow> addr \<Rightarrow> 'u dst \<Rightarrow> unit outcome \<times> 'u dst" where
  "pb_dec_uvarint f dest st = seq_ok (on_stream pb_decode_varint st) (store_clamped narrow_unsigned f dest)"

definition pb_dec_svarint :: "pb_field \<Rightarrow> addr \<Rightarrow> 'u dst \<Rightarrow> unit outcome \<times> 'u dst" where
  "pb_dec_svarint f dest st = seq_ok (on_stream pb_decode_svarint st) (store_clamped narrow_signed f dest)"

definition pb_dec_fixed32 :: "pb_field \<Rightarrow> addr \<Rightarrow> 'u dst \<Rightarrow> unit outcome \<times> 'u dst" where
  "pb_dec_fixed32 f dest st = seq_ok (on_stream pb_decode_fixed32 st) (\<lambda>v. on_mem (store_bytes dest (le_bytes 4 (unat v))))"

definition pb_dec_fixed64 :: "pb_field \<Rightarrow> addr \<Rightarrow> 'u dst \<Rightarrow> unit outcome \<times> 'u dst" where
  "pb_dec_fixed64 f dest st = seq_ok (on_stream pb_decode_fixed64 st) (\<lambda>v. on_mem (store_bytes dest (le_bytes 8 (unat v))))"

section \<open>Strings\<close>

definition allocate_field :: "addr \<Rightarrow> u64 \<Rightarrow> u64 \<Rightarrow> 'u dst \<Rightarrow> unit outcome \<times> 'u dst" where
  "allocate_field pData data_size array_size st =
     seq_ok (peek (load_ptr pData) st) (\<lambda>ptr st.
       if data_size = 0 \<or> array_size = 0 then field_error ''invalid size'' st
       else if (2 ^ 32 \<le> data_size \<or> 2 ^ 32 \<le> array_size) \<and> -1 div array_size < data_size then field_error ''size too large'' st
       else seq_ok (on_mem (pb_realloc ptr (unat (array_size * data_size))) st) (\<lambda>ptr st.
            if ptr = Null then field_error ''realloc failed'' st else on_mem (store_ptr pData ptr) st))"

text \<open>Where a string or byte array goes: into its structure if it fits, or into memory of its own.\<close>

definition string_dest :: "string \<Rightarrow> pb_field \<Rightarrow> addr \<Rightarrow> nat \<Rightarrow> u64 \<Rightarrow> 'u dst \<Rightarrow> addr outcome \<times> 'u dst" where
  "string_dest msg f dest sz alloc_size st =
     (if PB_ATYPE f = PB_ATYPE_POINTER
      then if bytes_left (fst st) < sz then field_error ''end-of-stream'' st
           else seq_ok (allocate_field dest alloc_size 1 st) (\<lambda>_. peek (load_ptr dest))
      else if unat (fd_data_size f) < unat alloc_size then field_error msg st
      else (Ok dest, st))"

definition pb_dec_bytes :: "pb_field \<Rightarrow> addr \<Rightarrow> 'u dst \<Rightarrow> unit outcome \<times> 'u dst" where
  "pb_dec_bytes f dest st =
     seq_ok (on_stream pb_decode_varint32 st) (\<lambda>sz st.
       let alloc_size = ucast sz + 4
       in if PB_SIZE_MAX < sz then field_error ''bytes overflow'' st
          else if alloc_size < ucast sz then field_error ''size too large'' st
          else seq_ok (string_dest ''bytes overflow'' f dest (unat sz) alloc_size st) (\<lambda>bdest st.
               seq_ok (on_mem (store_u32 bdest sz) st) (\<lambda>_ st.
               seq_ok (peek (\<lambda>_. shift bdest 4) st) (\<lambda>bytes. read_into bytes (unat sz)))))"

definition pb_dec_string :: "pb_field \<Rightarrow> addr \<Rightarrow> 'u dst \<Rightarrow> unit outcome \<times> 'u dst" where
  "pb_dec_string f dest st =
     seq_ok (on_stream pb_decode_varint32 st) (\<lambda>sz st.
       let alloc_size = ucast (sz + 1)
       in if alloc_size < ucast sz then field_error ''size too large'' st
          else seq_ok (string_dest ''string overflow'' f dest (unat sz) alloc_size st) (\<lambda>dest st.
            case read_into dest (unat sz) st of
              (Undef, st) \<Rightarrow> (Undef, st)
            | (status, st) \<Rightarrow>
                seq_ok (peek (\<lambda>_. shift dest (int (unat sz))) st) (\<lambda>end_ptr st.
                seq_ok (on_mem (store_bytes end_ptr [0]) st) (\<lambda>_ st. (status, st)))))"

definition pb_dec_fixed_length_bytes :: "pb_field \<Rightarrow> addr \<Rightarrow> 'u dst \<Rightarrow> unit outcome \<times> 'u dst" where
  "pb_dec_fixed_length_bytes f dest st =
     seq_ok (on_stream pb_decode_varint32 st) (\<lambda>sz st.
       if PB_SIZE_MAX < sz then field_error ''bytes overflow'' st
       else if sz = 0 then on_mem (store_bytes dest (replicate (unat (fd_data_size f)) 0)) st
       else if sz \<noteq> fd_data_size f then field_error ''incorrect fixed length bytes size'' st
       else read_into dest (unat (fd_data_size f)) st)"

section \<open>Jobs\<close>

text \<open>The variables of the loop in \<^verbatim>\<open>pb_decode_noinit\<close>; \<^verbatim>\<open>fixed_count_size\<close>, whose address is taken, is an object in memory.\<close>

record loop_state =
  ls_iter :: pb_field_iter
  ls_seen :: "u32 list"
  ls_ext_start :: u32
  ls_fixed_field :: "nat option"
  ls_fixed_size :: addr

datatype job =
    Decode_message bool nat addr
  | Decode_fields loop_state
  | Decode_extension addr u32 nat nat
  | Set_defaults nat addr
  | Default_fields pb_field_iter
  | Default_extensions addr
  | Release nat addr
  | Release_fields pb_field_iter
  | Release_extensions addr
  | Release_items nat addr u32 u32

type_synonym 'u calls = "job \<Rightarrow> 'u dst \<Rightarrow> (unit outcome \<times> 'u dst) option"

definition submessage :: "pb_field \<Rightarrow> nat outcome" where
  "submessage f = (case fd_ptr f of Sub_fields t \<Rightarrow> Ok t | _ \<Rightarrow> Undef)"

text \<open>The loop \<^verbatim>\<open>do ... while (pb_field_iter_next(&iter))\<close>.\<close>

definition next_field :: "(pb_field_iter \<Rightarrow> 'j) \<Rightarrow> ('j \<Rightarrow> 's \<Rightarrow> (unit outcome \<times> 's) option) \<Rightarrow> pb_field_iter \<Rightarrow> 's \<Rightarrow> (unit outcome \<times> 's) option" where
  "next_field k call it st = (case pb_field_iter_next it of
      Ok (True, it) \<Rightarrow> call (k it) st
    | Ok (False, _) \<Rightarrow> Some (Ok (), st)
    | _ \<Rightarrow> Some (Undef, st))"

section \<open>Extensions\<close>

text \<open>\<^verbatim>\<open>pb_extension_t\<close>: the pointers \<^verbatim>\<open>type\<close>, \<^verbatim>\<open>dest\<close> and \<^verbatim>\<open>next\<close>, and \<^verbatim>\<open>found\<close>.\<close>

definition ext_member :: "addr \<Rightarrow> int \<Rightarrow> memory \<Rightarrow> addr outcome" where
  "ext_member ext k m = bind_out (shift ext k) (\<lambda>a. load_ptr a m)"

definition ext_type_of :: "'u env \<Rightarrow> addr \<Rightarrow> memory \<Rightarrow> 'u ext_type outcome" where
  "ext_type_of env ext m = bind_out (ext_member ext 0 m) (\<lambda>a. case a of
      Addr t _ \<Rightarrow> (case ev_ext_types env t of Some et \<Rightarrow> Ok et | None \<Rightarrow> Undef) | Null \<Rightarrow> Undef)"

definition iter_from_extension :: "'u env \<Rightarrow> addr \<Rightarrow> memory \<Rightarrow> pb_field_iter outcome" where
  "iter_from_extension env ext m =
     bind_out (ext_type_of env ext m) (\<lambda>et.
     bind_out (ext_member ext 8 m) (\<lambda>dest.
     bind_out (pb_field_iter_begin (ev_tables env (et_arg et)) dest) (\<lambda>(_, it).
     bind_out (shift ext 8) (\<lambda>pdest. bind_out (shift ext 24) (\<lambda>found.
       Ok (it\<lparr>it_data := (if PB_ATYPE (it_field it) = PB_ATYPE_POINTER then pdest else dest), it_size := found\<rparr>))))))"

section \<open>Defaults\<close>

definition pb_field_set_to_default :: "'u calls \<Rightarrow> pb_field_iter \<Rightarrow> 'u dst \<Rightarrow> (unit outcome \<times> 'u dst) option" where
  "pb_field_set_to_default call it st =
     (let f = it_field it
      in if PB_LTYPE f = PB_LTYPE_EXTENSION
         then step_ok (Some (peek (load_ptr (it_data it)) st)) (\<lambda>ext. call (Default_extensions ext))
         else if PB_ATYPE f = PB_ATYPE_STATIC
         then step_ok (Some
                (if PB_HTYPE f = PB_HTYPE_OPTIONAL \<and> it_size it \<noteq> it_data it
                 then seq_ok (on_mem (store_bytes (it_size it) [0]) st) (\<lambda>_ st. (Ok True, st))
                 else if PB_HTYPE f = PB_HTYPE_REPEATED \<or> PB_HTYPE f = PB_HTYPE_ONEOF
                 then seq_ok (on_mem (store_u32 (it_size it) 0) st) (\<lambda>_ st. (Ok False, st))
                 else (Ok True, st)))
              (\<lambda>init_data st.
                if \<not> init_data then Some (Ok (), st)
                else if PB_LTYPE f = PB_LTYPE_SUBMESSAGE
                then step_ok (Some (submessage f, st)) (\<lambda>t. call (Set_defaults t (it_data it)))
                else Some (case fd_ptr f of
                    Default_value bs \<Rightarrow>
                      if length bs < unat (fd_data_size f) then (Undef, st)
                      else on_mem (store_bytes (it_data it) (take (unat (fd_data_size f)) bs)) st
                  | Sub_fields _ \<Rightarrow> (Undef, st)
                  | No_ptr \<Rightarrow> on_mem (store_bytes (it_data it) (replicate (unat (fd_data_size f)) 0)) st))
         else if PB_ATYPE f = PB_ATYPE_POINTER
         then Some (seq_ok (on_mem (store_ptr (it_data it) Null) st) (\<lambda>_ st.
                if PB_HTYPE f = PB_HTYPE_REPEATED \<or> PB_HTYPE f = PB_HTYPE_ONEOF then on_mem (store_u32 (it_size it) 0) st else (Ok (), st)))
         else Some (Ok (), st))"

definition pb_message_set_to_defaults :: "'u env \<Rightarrow> 'u calls \<Rightarrow> nat \<Rightarrow> addr \<Rightarrow> 'u dst \<Rightarrow> (unit outcome \<times> 'u dst) option" where
  "pb_message_set_to_defaults env call t dest st =
     step_ok (Some (peek (\<lambda>_. pb_field_iter_begin (ev_tables env t) dest) st)) (\<lambda>(nonempty, it) st.
       if nonempty then call (Default_fields it) st else Some (Ok (), st))"

definition default_fields :: "'u calls \<Rightarrow> pb_field_iter \<Rightarrow> 'u dst \<Rightarrow> (unit outcome \<times> 'u dst) option" where
  "default_fields call it st = step_ok (pb_field_set_to_default call it st) (\<lambda>_. next_field Default_fields call it)"

definition default_extensions :: "'u env \<Rightarrow> 'u calls \<Rightarrow> addr \<Rightarrow> 'u dst \<Rightarrow> (unit outcome \<times> 'u dst) option" where
  "default_extensions env call ext st =
     (if ext = Null then Some (Ok (), st)
      else step_ok (Some (peek (\<lambda>_. shift ext 24) st)) (\<lambda>found st.
           step_ok (Some (on_mem (store_bytes found [0]) st)) (\<lambda>_ st.
           step_ok (Some (peek (iter_from_extension env ext) st)) (\<lambda>it st.
           step_ok (pb_field_set_to_default call it st) (\<lambda>_ st.
           step_ok (Some (peek (ext_member ext 16) st)) (\<lambda>ext. call (Default_extensions ext)))))))"

section \<open>Releasing\<close>

text \<open>The loop over the entries of an array of pointers.\<close>

fun free_entries :: "nat \<Rightarrow> addr \<Rightarrow> 'u dst \<Rightarrow> unit outcome \<times> 'u dst" where
  "free_entries 0 pItem st = (Ok (), st)"
| "free_entries (Suc n) pItem st =
     seq_ok (peek (load_ptr pItem) st) (\<lambda>p st. seq_ok (on_mem (pb_free p) st) (\<lambda>_ st.
     seq_ok (on_mem (store_ptr pItem Null) st) (\<lambda>_ st. seq_ok (peek (\<lambda>_. shift pItem 8) st) (free_entries n))))"

definition release_count :: "pb_field_iter \<Rightarrow> memory \<Rightarrow> u32 outcome" where
  "release_count it m =
     (let f = it_field it
      in if PB_HTYPE f \<noteq> PB_HTYPE_REPEATED then Ok 1
         else bind_out (if PB_ATYPE f = PB_ATYPE_STATIC \<and> it_size it = it_data it then Ok (fd_array_size f) else load_u32 (it_size it) m) (\<lambda>count.
              Ok (if PB_ATYPE f = PB_ATYPE_STATIC \<and> fd_array_size f < count then fd_array_size f else count)))"

definition pb_release_single_field :: "'u calls \<Rightarrow> pb_field_iter \<Rightarrow> 'u dst \<Rightarrow> (unit outcome \<times> 'u dst) option" where
  "pb_release_single_field call it st =
     (let f = it_field it
      in step_ok (Some (if PB_HTYPE f = PB_HTYPE_ONEOF then seq_ok (peek (load_u32 (it_size it)) st) (\<lambda>w st. (Ok (w = fd_tag f), st)) else (Ok True, st))) (\<lambda>current st.
         if \<not> current then Some (Ok (), st)
         else step_ok
           (if PB_LTYPE f = PB_LTYPE_EXTENSION
            then step_ok (Some (peek (load_ptr (it_data it)) st)) (\<lambda>ext. call (Release_extensions ext))
            else if PB_LTYPE f = PB_LTYPE_SUBMESSAGE \<and> PB_ATYPE f \<noteq> PB_ATYPE_CALLBACK
            then step_ok (Some (if PB_ATYPE f = PB_ATYPE_POINTER then peek (load_ptr (it_data it)) st else (Ok (it_data it), st))) (\<lambda>pItem st.
                 step_ok (Some (peek (release_count it) st)) (\<lambda>count st.
                 if pItem = Null \<or> count = 0 then Some (Ok (), st)
                 else step_ok (Some (submessage f, st)) (\<lambda>t. call (Release_items t pItem count (fd_data_size f)))))
            else Some (Ok (), st))
           (\<lambda>_ st. Some
             (if PB_ATYPE f \<noteq> PB_ATYPE_POINTER then (Ok (), st)
              else seq_ok
                (if PB_HTYPE f = PB_HTYPE_REPEATED \<and> (PB_LTYPE f = PB_LTYPE_STRING \<or> PB_LTYPE f = PB_LTYPE_BYTES)
                 then seq_ok (peek (load_ptr (it_data it)) st) (\<lambda>pItem st. seq_ok (peek (load_u32 (it_size it)) st) (\<lambda>count. free_entries (unat count) pItem))
                 else (Ok (), st)) (\<lambda>_ st.
              seq_ok (if PB_HTYPE f = PB_HTYPE_REPEATED then on_mem (store_u32 (it_size it) 0) st else (Ok (), st)) (\<lambda>_ st.
              seq_ok (peek (load_ptr (it_data it)) st) (\<lambda>p st. seq_ok (on_mem (pb_free p) st) (\<lambda>_. on_mem (store_ptr (it_data it) Null)))))))))"

definition pb_release :: "'u env \<Rightarrow> 'u calls \<Rightarrow> nat \<Rightarrow> addr \<Rightarrow> 'u dst \<Rightarrow> (unit outcome \<times> 'u dst) option" where
  "pb_release env call t dest st =
     (if dest = Null then Some (Ok (), st)
      else step_ok (Some (peek (\<lambda>_. pb_field_iter_begin (ev_tables env t) dest) st)) (\<lambda>(nonempty, it) st.
        if nonempty then call (Release_fields it) st else Some (Ok (), st)))"

definition release_fields :: "'u calls \<Rightarrow> pb_field_iter \<Rightarrow> 'u dst \<Rightarrow> (unit outcome \<times> 'u dst) option" where
  "release_fields call it st = step_ok (pb_release_single_field call it st) (\<lambda>_. next_field Release_fields call it)"

definition release_extensions :: "'u env \<Rightarrow> 'u calls \<Rightarrow> addr \<Rightarrow> 'u dst \<Rightarrow> (unit outcome \<times> 'u dst) option" where
  "release_extensions env call ext st =
     (if ext = Null then Some (Ok (), st)
      else step_ok (Some (peek (iter_from_extension env ext) st)) (\<lambda>it st.
           step_ok (pb_release_single_field call it st) (\<lambda>_ st.
           step_ok (Some (peek (ext_member ext 16) st)) (\<lambda>ext. call (Release_extensions ext)))))"

definition release_items :: "'u calls \<Rightarrow> nat \<Rightarrow> addr \<Rightarrow> u32 \<Rightarrow> u32 \<Rightarrow> 'u dst \<Rightarrow> (unit outcome \<times> 'u dst) option" where
  "release_items call t pItem count data_size st =
     (if count = 0 then Some (Ok (), st)
      else step_ok (call (Release t pItem) st) (\<lambda>_ st.
           step_ok (Some (peek (\<lambda>_. shift pItem (int (unat data_size))) st)) (\<lambda>pItem. call (Release_items t pItem (count - 1) data_size))))"

definition pb_release_union_field :: "'u calls \<Rightarrow> pb_field_iter \<Rightarrow> 'u dst \<Rightarrow> (pb_field_iter outcome \<times> 'u dst) option" where
  "pb_release_union_field call it st =
     (let new_tag = fd_tag (it_field it)
      in step_ok (Some (peek (load_u32 (it_size it)) st)) (\<lambda>old_tag st.
         if old_tag = 0 \<or> old_tag = new_tag then Some (Ok it, st)
         else step_ok (map_option (\<lambda>r. (r, st)) (pb_field_iter_find it old_tag)) (\<lambda>(found, it) st.
           if \<not> found then Some (field_error ''invalid union tag'' st)
           else step_ok (pb_release_single_field call it st) (\<lambda>_ st.
                step_ok (map_option (\<lambda>r. (r, st)) (pb_field_iter_find it new_tag)) (\<lambda>(found, it) st.
                if \<not> found then Some (field_error ''iterator error'' st)
                else Some (if PB_ATYPE (it_field it) = PB_ATYPE_POINTER then seq_ok (on_mem (store_ptr (it_data it) Null) st) (\<lambda>_ st. (Ok it, st)) else (Ok it, st)))))))"

end
