(* ===== verification/Pb_Decode.thy ===== *)
theory Pb_Decode
  imports Pb_Fields
begin

text \<open>
  Decoding of messages (\<^verbatim>\<open>nanopb/pb_decode.c\<close>): one field into static, allocated or callback storage, extensions, and the loop over
  the fields of a message with its bookkeeping of required and of fixed count fields. \<open>run\<close> closes the recursion.
\<close>

section \<open>Decoders\<close>

text \<open>The types up to \<^verbatim>\<open>PB_LTYPE_LAST_PACKABLE\<close>.\<close>

definition dec_packable :: "pb_field \<Rightarrow> addr \<Rightarrow> 'u dst \<Rightarrow> unit outcome \<times> 'u dst" where
  "dec_packable f dest st =
     (let lt = PB_LTYPE f
      in if lt = PB_LTYPE_BOOL then pb_dec_bool f dest st
         else if lt = PB_LTYPE_VARINT then pb_dec_varint f dest st
         else if lt = PB_LTYPE_UVARINT then pb_dec_uvarint f dest st
         else if lt = PB_LTYPE_SVARINT then pb_dec_svarint f dest st
         else if lt = PB_LTYPE_FIXED32 then pb_dec_fixed32 f dest st
         else pb_dec_fixed64 f dest st)"

text \<open>What a function does with a substream: the substream is closed also after a failure.\<close>

definition close_after :: "'u pb_istream \<Rightarrow> unit outcome \<times> 'u dst \<Rightarrow> unit outcome \<times> 'u dst" where
  "close_after s r = (case r of
      (Undef, st) \<Rightarrow> (Undef, st)
    | (status, (sub, m)) \<Rightarrow> seq_ok (on_stream (pb_close_string_substream sub) (s, m)) (\<lambda>_ st. (status, st)))"

definition pb_dec_submessage :: "'u calls \<Rightarrow> pb_field \<Rightarrow> addr \<Rightarrow> 'u dst \<Rightarrow> (unit outcome \<times> 'u dst) option" where
  "pb_dec_submessage call f dest st =
     step_ok (Some (on_stream pb_make_string_substream st)) (\<lambda>sub (s, m).
       if fd_ptr f = No_ptr then Some (field_error ''invalid field descriptor'' (s, m))
       else step_ok (Some (submessage f, (s, m))) (\<lambda>t (s, m).
            map_option (close_after s) (call (Decode_message (PB_HTYPE f = PB_HTYPE_REPEATED) t dest) (sub, m))))"

definition PB_DECODERS :: "'u calls \<Rightarrow> pb_field \<Rightarrow> addr \<Rightarrow> 'u dst \<Rightarrow> (unit outcome \<times> 'u dst) option" where
  "PB_DECODERS call f dest st =
     (let lt = PB_LTYPE f
      in if lt \<le> PB_LTYPE_LAST_PACKABLE then Some (dec_packable f dest st)
         else if lt = PB_LTYPE_BYTES then Some (pb_dec_bytes f dest st)
         else if lt = PB_LTYPE_STRING then Some (pb_dec_string f dest st)
         else if lt = PB_LTYPE_SUBMESSAGE then pb_dec_submessage call f dest st
         else if lt = PB_LTYPE_FIXED_LENGTH_BYTES then Some (pb_dec_fixed_length_bytes f dest st)
         else Some (Undef, st))"

section \<open>Static fields\<close>

definition incr_u32 :: "addr \<Rightarrow> 'u dst \<Rightarrow> unit outcome \<times> 'u dst" where
  "incr_u32 a st = seq_ok (peek (load_u32 a) st) (\<lambda>n. on_mem (store_u32 a (n + 1)))"

text \<open>The loop over a packed array, on the substream. The offset of an entry is a product of 32 bits.\<close>

partial_function (option) static_items :: "pb_field_iter \<Rightarrow> 'u dst \<Rightarrow> (unit outcome \<times> 'u dst) option" where
  "static_items it st =
     (if bytes_left (fst st) = 0 then Some (Ok (), st)
      else step_ok (Some (peek (load_u32 (it_size it)) st)) (\<lambda>n st.
        if \<not> n < fd_array_size (it_field it) then Some (Ok (), st)
        else step_ok (Some (peek (\<lambda>_. shift (it_data it) (int (unat (fd_data_size (it_field it) * n)))) st)) (\<lambda>pItem st.
             step_ok (Some (dec_packable (it_field it) pItem st)) (\<lambda>_ st.
             step_ok (Some (incr_u32 (it_size it) st)) (\<lambda>_. static_items it)))))"

declare static_items.simps [code]

definition decode_static_packed :: "pb_field_iter \<Rightarrow> 'u dst \<Rightarrow> (unit outcome \<times> 'u dst) option" where
  "decode_static_packed it st =
     step_ok (Some (on_stream pb_make_string_substream st)) (\<lambda>sub (s, m).
       map_option (\<lambda>r. case r of
           (Undef, st) \<Rightarrow> (Undef, st)
         | (_, (sub, m)) \<Rightarrow> if bytes_left sub \<noteq> 0 then field_error ''array overflow'' (s, m) else close_after s r)
         (static_items it (sub, m)))"

definition decode_static_field :: "'u calls \<Rightarrow> nat \<Rightarrow> pb_field_iter \<Rightarrow> 'u dst \<Rightarrow> (unit outcome \<times> 'u dst) option" where
  "decode_static_field call wire_type it st =
     (let f = it_field it
      in if PB_LTYPE_FIXED_LENGTH_BYTES < PB_LTYPE f then Some (Undef, st)
         else if PB_HTYPE f = PB_HTYPE_REQUIRED then PB_DECODERS call f (it_data it) st
         else if PB_HTYPE f = PB_HTYPE_OPTIONAL
         then step_ok (Some (if it_size it \<noteq> it_data it then on_mem (store_bytes (it_size it) [1]) st else (Ok (), st))) (\<lambda>_.
              PB_DECODERS call f (it_data it))
         else if PB_HTYPE f = PB_HTYPE_REPEATED
         then if wire_type = PB_WT_STRING \<and> PB_LTYPE f \<le> PB_LTYPE_LAST_PACKABLE then decode_static_packed it st
              else step_ok (Some (peek (load_u32 (it_size it)) st)) (\<lambda>n st.
                   step_ok (Some (peek (\<lambda>_. shift (it_data it) (int (unat (fd_data_size f * n)))) st)) (\<lambda>pItem st.
                   step_ok (Some (on_mem (store_u32 (it_size it) (n + 1)) st)) (\<lambda>_ st.
                   if fd_array_size f \<le> n then Some (field_error ''array overflow'' st)
                   else PB_DECODERS call f pItem st)))
         else step_ok (Some (if PB_LTYPE f = PB_LTYPE_SUBMESSAGE then seq_ok (peek (load_u32 (it_size it)) st) (\<lambda>w st. (Ok (w \<noteq> fd_tag f), st)) else (Ok False, st))) (\<lambda>fresh st.
              step_ok
                (if fresh
                 then step_ok (Some (on_mem (store_bytes (it_data it) (replicate (unat (fd_data_size f)) 0)) st)) (\<lambda>_ st.
                      step_ok (Some (submessage f, st)) (\<lambda>t. call (Set_defaults t (it_data it))))
                 else Some (Ok (), st)) (\<lambda>_ st.
              step_ok (Some (on_mem (store_u32 (it_size it) (fd_tag f)) st)) (\<lambda>_. PB_DECODERS call f (it_data it)))))"

section \<open>Allocated fields\<close>

definition initialize_pointer_field :: "'u calls \<Rightarrow> addr \<Rightarrow> pb_field_iter \<Rightarrow> 'u dst \<Rightarrow> (unit outcome \<times> 'u dst) option" where
  "initialize_pointer_field call pItem it st =
     (let f = it_field it
      in if PB_LTYPE f = PB_LTYPE_STRING \<or> PB_LTYPE f = PB_LTYPE_BYTES then Some (on_mem (store_ptr pItem Null) st)
         else if PB_LTYPE f = PB_LTYPE_SUBMESSAGE
         then step_ok (Some (on_mem (store_bytes pItem (replicate (unat (fd_data_size f)) 0)) st)) (\<lambda>_ st.
              step_ok (Some (submessage f, st)) (\<lambda>t. call (Set_defaults t pItem)))
         else Some (Ok (), st))"

text \<open>The room that the array gets when it is full, for the bytes that are left.\<close>

definition grown :: "u32 \<Rightarrow> nat \<Rightarrow> u64 \<Rightarrow> u64" where
  "grown data_size left allocated_size =
     (let remain = of_nat ((left - 1) div unat data_size + 1)
      in if remain < ucast PB_SIZE_MAX - allocated_size then allocated_size + remain else allocated_size + 1)"

text \<open>The loop over a packed array; \<open>Ok False\<close> is too many entries, which the parent stream is told of. Entries of packable types are
  not initialized.\<close>

partial_function (option) pointer_items :: "pb_field_iter \<Rightarrow> u64 \<Rightarrow> 'u dst \<Rightarrow> (bool outcome \<times> 'u dst) option" where
  "pointer_items it allocated_size st =
     (let f = it_field it
      in if bytes_left (fst st) = 0 then Some (Ok True, st)
         else step_ok (Some (peek (load_u32 (it_size it)) st)) (\<lambda>n st.
           if n = PB_SIZE_MAX then Some (Ok False, st)
           else let full = allocated_size < ucast n + 1;
                    allocated_size' = (if full then grown (fd_data_size f) (bytes_left (fst st)) allocated_size else allocated_size)
             in step_ok (Some
                  (if \<not> full then (Ok (), st)
                   else if fd_data_size f = 0 then (Undef, st)
                   else allocate_field (it_data it) (ucast (fd_data_size f)) allocated_size' st)) (\<lambda>_ st.
                step_ok (Some (peek (load_ptr (it_data it)) st)) (\<lambda>p st.
                  let k = int (unat (fd_data_size f * n))
                  in if p = Null \<and> k = 0 then Some (Fail, st)
                     else step_ok (Some (peek (\<lambda>_. shift p k) st)) (\<lambda>pItem st.
                          step_ok (Some (dec_packable f pItem st)) (\<lambda>_ st.
                          step_ok (Some (incr_u32 (it_size it) st)) (\<lambda>_. pointer_items it allocated_size')))))))"

declare pointer_items.simps [code]

definition decode_pointer_packed :: "pb_field_iter \<Rightarrow> 'u dst \<Rightarrow> (unit outcome \<times> 'u dst) option" where
  "decode_pointer_packed it st =
     step_ok (Some (peek (load_u32 (it_size it)) st)) (\<lambda>n st.
     step_ok (Some (on_stream pb_make_string_substream st)) (\<lambda>sub (s, m).
       map_option (\<lambda>(r, sub, m). case r of
           Undef \<Rightarrow> (Undef, sub, m)
         | Fail \<Rightarrow> close_after s (Fail, sub, m)
         | Ok True \<Rightarrow> close_after s (Ok (), sub, m)
         | Ok False \<Rightarrow> close_after (s\<lparr>is_errmsg := Some ''too many array entries''\<rparr>) (Fail, sub, m))
         (pointer_items it (ucast n) (sub, m))))"

definition decode_pointer_single :: "'u calls \<Rightarrow> pb_field_iter \<Rightarrow> 'u dst \<Rightarrow> (unit outcome \<times> 'u dst) option" where
  "decode_pointer_single call it st =
     (let f = it_field it
      in step_ok
           (if PB_LTYPE f = PB_LTYPE_SUBMESSAGE
            then step_ok (Some (peek (load_ptr (it_data it)) st)) (\<lambda>p st. if p \<noteq> Null then pb_release_single_field call it st else Some (Ok (), st))
            else Some (Ok (), st)) (\<lambda>_ st.
         step_ok (Some (if PB_HTYPE f = PB_HTYPE_ONEOF then on_mem (store_u32 (it_size it) (fd_tag f)) st else (Ok (), st))) (\<lambda>_ st.
         if PB_LTYPE f = PB_LTYPE_STRING \<or> PB_LTYPE f = PB_LTYPE_BYTES then PB_DECODERS call f (it_data it) st
         else step_ok (Some (allocate_field (it_data it) (ucast (fd_data_size f)) 1 st)) (\<lambda>_ st.
              step_ok (Some (peek (load_ptr (it_data it)) st)) (\<lambda>p st.
              step_ok (initialize_pointer_field call p it st) (\<lambda>_ st.
              step_ok (Some (peek (load_ptr (it_data it)) st)) (PB_DECODERS call f)))))))"

definition decode_pointer_field :: "'u calls \<Rightarrow> nat \<Rightarrow> pb_field_iter \<Rightarrow> 'u dst \<Rightarrow> (unit outcome \<times> 'u dst) option" where
  "decode_pointer_field call wire_type it st =
     (let f = it_field it
      in if PB_LTYPE_FIXED_LENGTH_BYTES < PB_LTYPE f then Some (Undef, st)
         else if PB_HTYPE f \<noteq> PB_HTYPE_REPEATED then decode_pointer_single call it st
         else if wire_type = PB_WT_STRING \<and> PB_LTYPE f \<le> PB_LTYPE_LAST_PACKABLE then decode_pointer_packed it st
         else step_ok (Some (peek (load_u32 (it_size it)) st)) (\<lambda>n st.
              if n = PB_SIZE_MAX then Some (field_error ''too many array entries'' st)
              else step_ok (Some (allocate_field (it_data it) (ucast (fd_data_size f)) (ucast (n + 1)) st)) (\<lambda>_ st.
                   step_ok (Some (peek (\<lambda>m. bind_out (load_ptr (it_data it) m) (\<lambda>p. shift p (int (unat (fd_data_size f * n))))) st)) (\<lambda>pItem st.
                   step_ok (Some (incr_u32 (it_size it) st)) (\<lambda>_ st.
                   step_ok (initialize_pointer_field call pItem it st) (\<lambda>_. PB_DECODERS call f pItem))))))"

section \<open>Callbacks\<close>

definition pb_callback_decode :: "'u env \<Rightarrow> addr \<Rightarrow> memory \<Rightarrow> 'u client option outcome" where
  "pb_callback_decode env pCallback m = (if pCallback = Null then Ok None
     else bind_out (load_ptr pCallback m) (\<lambda>p. case p of
         Null \<Rightarrow> Ok None
       | Addr b _ \<Rightarrow> (case ev_callbacks env b of None \<Rightarrow> Undef | Some c \<Rightarrow> Ok (Some c))))"

definition call_client :: "'u client \<Rightarrow> pb_field \<Rightarrow> addr \<Rightarrow> 'u dst \<Rightarrow> unit outcome \<times> 'u dst" where
  "call_client c f arg st = (case c (fst st) f arg (snd st) of (ok, st) \<Rightarrow> (if ok then Ok () else Fail, st))"

partial_function (option) callback_items :: "'u client \<Rightarrow> pb_field \<Rightarrow> addr \<Rightarrow> 'u dst \<Rightarrow> (unit outcome \<times> 'u dst) option" where
  "callback_items c f arg st =
     step_ok (Some (call_client c f arg st)) (\<lambda>_ st. if bytes_left (fst st) \<noteq> 0 then callback_items c f arg st else Some (Ok (), st))"

declare callback_items.simps [code]

definition decode_callback_field :: "'u env \<Rightarrow> nat \<Rightarrow> pb_field_iter \<Rightarrow> 'u dst \<Rightarrow> (unit outcome \<times> 'u dst) option" where
  "decode_callback_field env wire_type it st =
     step_ok (Some (peek (pb_callback_decode env (it_data it)) st)) (\<lambda>c st. case c of
         None \<Rightarrow> Some (on_stream (pb_skip_field wire_type) st)
       | Some c \<Rightarrow>
           step_ok (Some (peek (\<lambda>_. shift (it_data it) 8) st)) (\<lambda>arg st.
           if wire_type = PB_WT_STRING
           then step_ok (Some (on_stream pb_make_string_substream st)) (\<lambda>sub (s, m).
                map_option (\<lambda>r. case r of
                    (Ok _, _) \<Rightarrow> close_after s r
                  | (Fail, (_, m)) \<Rightarrow> field_error ''callback failed'' (s, m)
                  | (Undef, st) \<Rightarrow> (Undef, st))
                  (callback_items c (it_field it) arg (sub, m)))
           else step_ok (Some (on_stream (read_raw_value wire_type 10) st)) (\<lambda>buffer (s, m).
                Some (case call_client c (it_field it) arg (pb_istream_from_buffer buffer (length buffer), m) of (r, (_, m)) \<Rightarrow> (r, (s, m))))))"

section \<open>One field\<close>

text \<open>The iterator is returned as the function leaves it.\<close>

definition decode_field :: "'u env \<Rightarrow> 'u calls \<Rightarrow> nat \<Rightarrow> pb_field_iter \<Rightarrow> 'u dst \<Rightarrow> (pb_field_iter outcome \<times> 'u dst) option" where
  "decode_field env call wire_type it st =
     step_ok (if PB_HTYPE (it_field it) = PB_HTYPE_ONEOF then pb_release_union_field call it st else Some (Ok it, st)) (\<lambda>it st.
     step_ok
       (if PB_ATYPE (it_field it) = PB_ATYPE_STATIC then decode_static_field call wire_type it st
        else if PB_ATYPE (it_field it) = PB_ATYPE_POINTER then decode_pointer_field call wire_type it st
        else if PB_ATYPE (it_field it) = PB_ATYPE_CALLBACK then decode_callback_field env wire_type it st
        else Some (field_error ''invalid field type'' st)) (\<lambda>_ st. Some (Ok it, st)))"

definition default_extension_decoder :: "'u env \<Rightarrow> 'u calls \<Rightarrow> addr \<Rightarrow> u32 \<Rightarrow> nat \<Rightarrow> 'u dst \<Rightarrow> (unit outcome \<times> 'u dst) option" where
  "default_extension_decoder env call ext tag wire_type st =
     step_ok (Some (peek (ext_type_of env ext) st)) (\<lambda>et st.
       case ev_tables env (et_arg et) of
         [] \<Rightarrow> Some (Undef, st)
       | f # _ \<Rightarrow>
           if fd_tag f \<noteq> tag then Some (Ok (), st)
           else step_ok (Some (peek (iter_from_extension env ext) st)) (\<lambda>it st.
                step_ok (Some (on_mem (store_bytes (it_size it) [1]) st)) (\<lambda>_ st.
                step_ok (decode_field env call wire_type it st) (\<lambda>_ st. Some (Ok (), st)))))"

definition decode_extension :: "'u env \<Rightarrow> 'u calls \<Rightarrow> addr \<Rightarrow> u32 \<Rightarrow> nat \<Rightarrow> nat \<Rightarrow> 'u dst \<Rightarrow> (unit outcome \<times> 'u dst) option" where
  "decode_extension env call ext tag wire_type pos st =
     (if ext = Null \<or> pos \<noteq> bytes_left (fst st) then Some (Ok (), st)
      else step_ok (Some (peek (ext_type_of env ext) st)) (\<lambda>et st.
           step_ok
             (case et_decode et of
                Some c \<Rightarrow> Some (case c (fst st) ext tag wire_type (snd st) of (ok, st) \<Rightarrow> (if ok then Ok () else Fail, st))
              | None \<Rightarrow> default_extension_decoder env call ext tag wire_type st) (\<lambda>_ st.
           step_ok (Some (peek (ext_member ext 16) st)) (\<lambda>ext. call (Decode_extension ext tag wire_type pos)))))"

section \<open>All fields\<close>

definition PB_MAX_REQUIRED_FIELDS :: u32 where "PB_MAX_REQUIRED_FIELDS = 64"

text \<open>A local variable whose address is taken, for the time of a call.\<close>

definition enter_local :: "cell list \<Rightarrow> 'u dst \<Rightarrow> addr \<times> 'u dst" where
  "enter_local cs st = (let m = snd st; b = mem_fresh m
     in (Addr b 0, (fst st, m\<lparr>mem_objects := (mem_objects m)(b \<mapsto> cs), mem_fresh := b + 1\<rparr>)))"

definition leave_local :: "addr \<Rightarrow> 'u dst \<Rightarrow> 'u dst" where
  "leave_local a st = (fst st, snd (pb_free a (snd st)))"

definition check_fixed_count :: "loop_state \<Rightarrow> 'u dst \<Rightarrow> unit outcome \<times> 'u dst" where
  "check_fixed_count ls st = (case ls_fixed_field ls of
      None \<Rightarrow> (Ok (), st)
    | Some p \<Rightarrow> seq_ok (peek (load_u32 (ls_fixed_size ls)) st) (\<lambda>n st.
        if n \<noteq> fd_array_size (it_start (ls_iter ls) ! p) then field_error ''wrong size for fixed count field'' st else (Ok (), st)))"

definition fixed_count_field :: "loop_state \<Rightarrow> 'u dst \<Rightarrow> loop_state outcome \<times> 'u dst" where
  "fixed_count_field ls st =
     (let it = ls_iter ls
      in if PB_HTYPE (it_field it) = PB_HTYPE_REPEATED \<and> it_size it = it_data it
         then seq_ok
           (if ls_fixed_field ls \<noteq> Some (it_pos it)
            then seq_ok (check_fixed_count ls st) (\<lambda>_. on_mem (store_u32 (ls_fixed_size ls) 0))
            else (Ok (), st)) (\<lambda>_ st.
           (Ok (ls\<lparr>ls_fixed_field := Some (it_pos it), ls_iter := it\<lparr>it_size := ls_fixed_size ls\<rparr>\<rparr>), st))
         else (Ok ls, st))"

definition mark_seen :: "loop_state \<Rightarrow> loop_state" where
  "mark_seen ls =
     (let it = ls_iter ls; i = unat (drop_bit 5 (it_required it))
      in if PB_HTYPE (it_field it) = PB_HTYPE_REQUIRED \<and> it_required it < PB_MAX_REQUIRED_FIELDS
         then ls\<lparr>ls_seen := (ls_seen ls)[i := ls_seen ls ! i OR push_bit (unat (it_required it AND 31)) 1]\<rparr>
         else ls)"

text \<open>The loop that seeks the end of the table.\<close>

lemma iter_next_advances: "pb_field_iter_next it = Ok (True, it') \<Longrightarrow> it_start it' = it_start it \<and> it_pos it' = Suc (it_pos it) \<and> it_pos it < length (it_start it)"
  by (auto simp: pb_field_iter_next_def place_def shift_def Let_def bind_out_eq_Ok split: if_splits addr.splits)

function seek_end :: "pb_field_iter \<Rightarrow> (u32 \<times> pb_field \<times> pb_field_iter) outcome" where
  "seek_end it = (case pb_field_iter_next it of
      Ok (True, it') \<Rightarrow> seek_end it'
    | Ok (False, it') \<Rightarrow> Ok (it_required it, it_field it, it')
    | Fail \<Rightarrow> Fail
    | Undef \<Rightarrow> Undef)"
  by pat_completeness auto
termination by (relation "measure (\<lambda>it. length (it_start it) - it_pos it)") (auto dest: iter_next_advances)

definition required_count :: "pb_field_iter \<Rightarrow> u32 outcome" where
  "required_count it = bind_out (seek_end it) (\<lambda>(n, last_field, it).
     let n = (if PB_HTYPE last_field = PB_HTYPE_REQUIRED \<and> fd_tag (it_field it) \<noteq> 0 then n + 1 else n)
     in Ok (if PB_MAX_REQUIRED_FIELDS < n then PB_MAX_REQUIRED_FIELDS else n))"

definition all_seen :: "u32 \<Rightarrow> u32 list \<Rightarrow> bool" where
  "all_seen n seen \<longleftrightarrow>
     list_all (\<lambda>w. w = -1) (take (unat (drop_bit 5 n)) seen) \<and>
     (n AND 31 \<noteq> 0 \<longrightarrow> seen ! unat (drop_bit 5 n) = drop_bit (32 - unat (n AND 31)) (-1))"

definition check_end :: "loop_state \<Rightarrow> 'u dst \<Rightarrow> unit outcome \<times> 'u dst" where
  "check_end ls st =
     seq_ok (check_fixed_count ls st) (\<lambda>_ st.
     seq_ok (peek (\<lambda>_. required_count (ls_iter ls)) st) (\<lambda>n st.
       if all_seen n (ls_seen ls) then (Ok (), st) else field_error ''missing required field'' st))"

definition unknown_field :: "'u calls \<Rightarrow> loop_state \<Rightarrow> nat \<Rightarrow> u32 \<Rightarrow> 'u dst \<Rightarrow> (unit outcome \<times> 'u dst) option" where
  "unknown_field call ls wire_type tag st =
     (let skip = (\<lambda>ls st. step_ok (Some (on_stream (pb_skip_field wire_type) st)) (\<lambda>_. call (Decode_fields ls)))
      in if tag < ls_ext_start ls then skip ls st
         else step_ok (map_option (\<lambda>r. (r, st)) (find_extension_field (ls_iter ls))) (\<lambda>(found, it) st.
           let ls = ls\<lparr>ls_iter := it, ls_ext_start := (if found then fd_tag (it_field it) else -1)\<rparr>; pos = bytes_left (fst st)
           in if tag < ls_ext_start ls then skip ls st
              else step_ok (Some (peek (load_ptr (it_data it)) st)) (\<lambda>ext st.
                   step_ok (call (Decode_extension ext tag wire_type pos) st) (\<lambda>_ st.
                   if pos \<noteq> bytes_left (fst st) then call (Decode_fields ls) st else skip ls st))))"

definition known_field :: "'u env \<Rightarrow> 'u calls \<Rightarrow> loop_state \<Rightarrow> nat \<Rightarrow> 'u dst \<Rightarrow> (unit outcome \<times> 'u dst) option" where
  "known_field env call ls wire_type st =
     step_ok (Some (fixed_count_field ls st)) (\<lambda>ls st.
     step_ok (decode_field env call wire_type (ls_iter ls) st) (\<lambda>it. call (Decode_fields ((mark_seen ls)\<lparr>ls_iter := it\<rparr>))))"

text \<open>One round of the loop of \<^verbatim>\<open>pb_decode_noinit\<close>.\<close>

definition decode_fields :: "'u env \<Rightarrow> 'u calls \<Rightarrow> loop_state \<Rightarrow> 'u dst \<Rightarrow> (unit outcome \<times> 'u dst) option" where
  "decode_fields env call ls st =
     (if bytes_left (fst st) = 0 then Some (check_end ls st)
      else case pb_decode_tag (fst st) of
          (eof, Undef, s) \<Rightarrow> Some (Undef, (s, snd st))
        | (eof, Fail, s) \<Rightarrow> Some (if eof then check_end ls (s, snd st) else (Fail, (s, snd st)))
        | (eof, Ok (wire_type, tag), s) \<Rightarrow>
            step_ok (map_option (\<lambda>r. (r, (s, snd st))) (pb_field_iter_find (ls_iter ls) tag)) (\<lambda>(found, it) st.
              if found then known_field env call (ls\<lparr>ls_iter := it\<rparr>) wire_type st
              else unknown_field call (ls\<lparr>ls_iter := it\<rparr>) wire_type tag st))"

definition pb_decode_noinit :: "'u env \<Rightarrow> 'u calls \<Rightarrow> nat \<Rightarrow> addr \<Rightarrow> 'u dst \<Rightarrow> (unit outcome \<times> 'u dst) option" where
  "pb_decode_noinit env call t dest st =
     (case enter_local (map Byte [0, 0, 0, 0]) st of (fixed, st) \<Rightarrow>
        map_option (\<lambda>(r, st). (r, leave_local fixed st))
          (step_ok (Some (peek (\<lambda>_. pb_field_iter_begin (ev_tables env t) dest) st)) (\<lambda>(_, it).
             call (Decode_fields \<lparr>ls_iter = it, ls_seen = [0, 0], ls_ext_start = 0, ls_fixed_field = None, ls_fixed_size = fixed\<rparr>))))"

definition pb_decode :: "'u env \<Rightarrow> 'u calls \<Rightarrow> nat \<Rightarrow> addr \<Rightarrow> 'u dst \<Rightarrow> (unit outcome \<times> 'u dst) option" where
  "pb_decode env call t dest st =
     step_ok (call (Set_defaults t dest) st) (\<lambda>_ st.
       Option.bind (pb_decode_noinit env call t dest st) (\<lambda>(r, st). case r of
           Fail \<Rightarrow> step_ok (call (Release t dest) st) (\<lambda>_ st. Some (Fail, st))
         | _ \<Rightarrow> Some (r, st)))"

section \<open>Calls\<close>

text \<open>What each job is.\<close>

fun perform :: "'u env \<Rightarrow> 'u calls \<Rightarrow> job \<Rightarrow> 'u dst \<Rightarrow> (unit outcome \<times> 'u dst) option" where
  "perform env call (Decode_message init t dest) = (if init then pb_decode env call t dest else pb_decode_noinit env call t dest)"
| "perform env call (Decode_fields ls) = decode_fields env call ls"
| "perform env call (Decode_extension ext tag wire_type pos) = decode_extension env call ext tag wire_type pos"
| "perform env call (Set_defaults t dest) = pb_message_set_to_defaults env call t dest"
| "perform env call (Default_fields it) = default_fields call it"
| "perform env call (Default_extensions ext) = default_extensions env call ext"
| "perform env call (Release t dest) = pb_release env call t dest"
| "perform env call (Release_fields it) = release_fields call it"
| "perform env call (Release_extensions ext) = release_extensions env call ext"
| "perform env call (Release_items t pItem count data_size) = release_items call t pItem count data_size"

primrec run :: "nat \<Rightarrow> 'u env \<Rightarrow> 'u calls" where
  "run 0 env job st = None"
| "run (Suc n) env job st = perform env (run n env) job st"

definition pb_decode_delimited :: "bool \<Rightarrow> 'u env \<Rightarrow> 'u calls \<Rightarrow> nat \<Rightarrow> addr \<Rightarrow> 'u dst \<Rightarrow> (unit outcome \<times> 'u dst) option" where
  "pb_decode_delimited init env call t dest st =
     step_ok (Some (on_stream pb_make_string_substream st)) (\<lambda>sub (s, m).
       map_option (close_after s) (perform env call (Decode_message init t dest) (sub, m)))"

definition pb_decode_nullterminated :: "'u env \<Rightarrow> 'u calls \<Rightarrow> nat \<Rightarrow> addr \<Rightarrow> 'u dst \<Rightarrow> (unit outcome \<times> 'u dst) option" where
  "pb_decode_nullterminated env call t dest st = pb_decode env call t dest st"

end
