(* ===== verification/Pb_Regions.thy ===== *)
theory Pb_Regions
  imports Pb_Decode Pb_Source
begin

text \<open>
  Regions of memory and what a call may do to them: a set of cells that hold bytes is all that is read and written. A call that
  is \<open>fine\<close> does nothing undefined, writes bytes into the region alone, and leaves a readable stream with no more bytes in it; a
  call that \<open>settles\<close> is fine and returns for every sufficient amount of fuel.
\<close>

section \<open>Regions\<close>

type_synonym region = "(nat \<times> nat) set"

definition cells :: "nat \<Rightarrow> nat \<Rightarrow> nat \<Rightarrow> region" where
  "cells b k n = {b} \<times> {k..<k + n}"

lemma cells_sub: "k \<le> i \<Longrightarrow> i + l \<le> k + n \<Longrightarrow> cells b i l \<subseteq> cells b k n"
  by (auto simp: cells_def)

definition is_byte :: "cell \<Rightarrow> bool" where
  "is_byte c \<longleftrightarrow> (\<exists>v. c = Byte v)"

lemma is_byte_simps [simp]: "is_byte (Byte v)"
  by (simp add: is_byte_def)

definition unused_above :: "memory \<Rightarrow> bool" where
  "unused_above m \<longleftrightarrow> (\<forall>c \<ge> mem_fresh m. mem_objects m c = None)"

definition live :: "region \<Rightarrow> memory \<Rightarrow> bool" where
  "live R m \<longleftrightarrow> unused_above m \<and> (\<forall>(b, i) \<in> R. \<exists>cs. mem_objects m b = Some cs \<and> i < length cs \<and> is_byte (cs ! i))"

definition only_object :: "nat set \<Rightarrow> cell list option \<Rightarrow> cell list option \<Rightarrow> bool" where
  "only_object I c c' \<longleftrightarrow> (case c of
      None \<Rightarrow> c' = None
    | Some cs \<Rightarrow> \<exists>cs'. c' = Some cs' \<and> length cs' = length cs \<and> (\<forall>i < length cs. cs' ! i = cs ! i \<or> i \<in> I \<and> is_byte (cs' ! i)))"

definition only :: "region \<Rightarrow> memory \<Rightarrow> memory \<Rightarrow> bool" where
  "only R m m' \<longleftrightarrow> mem_fresh m \<le> mem_fresh m' \<and> mem_answers m' = mem_answers m \<and>
     (\<forall>b. only_object {i. (b, i) \<in> R} (mem_objects m b) (mem_objects m' b))"

lemma only_object_refl: "only_object I c c"
  by (simp add: only_object_def split: option.split)

lemma only_object_trans: "only_object I c d \<Longrightarrow> only_object I d e \<Longrightarrow> only_object I c e"
  by (auto simp: only_object_def split: option.splits) metis+

lemma only_refl [simp]: "only R m m"
  by (simp add: only_def only_object_refl)

lemma only_trans: "only R m m1 \<Longrightarrow> only R m1 m2 \<Longrightarrow> only R m m2"
  by (auto simp: only_def intro: only_object_trans)

lemma only_mono: "only R m m' \<Longrightarrow> R \<subseteq> S \<Longrightarrow> only S m m'"
  unfolding only_def only_object_def by (fastforce split: option.splits)

lemma live_mono: "live S m \<Longrightarrow> R \<subseteq> S \<Longrightarrow> live R m"
  unfolding live_def by blast

lemma live_only:
  assumes "live S m" "only R m m'"
  shows "live S m'"
proof -
  have "mem_objects m' c = None" if c: "mem_fresh m' \<le> c" for c
  proof -
    have "mem_fresh m \<le> c" "only_object {i. (c, i) \<in> R} (mem_objects m c) (mem_objects m' c)"
      using c assms(2) unfolding only_def by auto
    moreover have "unused_above m" using assms(1) unfolding live_def by simp
    ultimately show ?thesis by (simp add: unused_above_def only_object_def)
  qed
  then have "unused_above m'" by (simp add: unused_above_def)
  moreover have "\<exists>cs. mem_objects m' b = Some cs \<and> i < length cs \<and> is_byte (cs ! i)" if bi: "(b, i) \<in> S" for b i
  proof -
    obtain cs where cs: "mem_objects m b = Some cs" "i < length cs" "is_byte (cs ! i)" using assms(1) bi unfolding live_def by blast
    have "only_object {i. (b, i) \<in> R} (mem_objects m b) (mem_objects m' b)" using assms(2) unfolding only_def by blast
    then obtain cs' where cs': "mem_objects m' b = Some cs'" "length cs' = length cs" "\<forall>i < length cs. cs' ! i = cs ! i \<or> i \<in> {i. (b, i) \<in> R} \<and> is_byte (cs' ! i)"
      using cs(1) unfolding only_object_def by auto
    have "is_byte (cs' ! i)" using cs'(3) cs(2,3) by metis
    then show ?thesis using cs' cs(2) by simp
  qed
  ultimately show ?thesis unfolding live_def by blast
qed

section \<open>Loads and stores\<close>

lemma live_cells:
  assumes "live R m" "cells b k n \<subseteq> R" "0 < n"
  obtains cs where "mem_objects m b = Some cs" "k + n \<le> length cs" "\<forall>i. k \<le> i \<and> i < k + n \<longrightarrow> is_byte (cs ! i)"
proof -
  have c: "\<exists>cs. mem_objects m b = Some cs \<and> i < length cs \<and> is_byte (cs ! i)" if "k \<le> i" "i < k + n" for i
    using assms(1,2) that unfolding live_def cells_def by fastforce
  have "k \<le> k + n - 1" "k + n - 1 < k + n" using assms(3) by simp_all
  from c [OF this] obtain cs where cs: "mem_objects m b = Some cs" "k + n - 1 < length cs" by blast
  have "k + n \<le> length cs" using cs(2) assms(3) by simp
  moreover have "is_byte (cs ! i)" if "k \<le> i" "i < k + n" for i using c [OF that] cs(1) by simp
  ultimately show thesis using that cs(1) by blast
qed

lemma load_bytes_live:
  assumes "live R m" "cells b k n \<subseteq> R" "0 < n"
  obtains bs where "load_bytes (Addr b (int k)) n m = Ok bs" "length bs = n"
proof -
  obtain cs where cs: "mem_objects m b = Some cs" "k + n \<le> length cs" "\<forall>i. k \<le> i \<and> i < k + n \<longrightarrow> is_byte (cs ! i)"
    using live_cells [OF assms] by blast
  have "\<forall>c \<in> set (take n (drop k cs)). \<exists>v. c = Byte v"
    using cs(2,3) by (auto simp: in_set_conv_nth is_byte_def)
  then have "\<exists>bs. take n (drop k cs) = map Byte bs" by (simp only: ex_map_conv)
  then obtain bs where bs: "take n (drop k cs) = map Byte bs" by blast
  have "those (map cell_byte (map Byte bs)) = Some bs" by (induction bs) auto
  moreover have "length bs = n" using arg_cong [OF bs, of length] cs(2) by simp
  ultimately show thesis using that cs(1,2) bs by (simp add: load_bytes_def load_cells_def in_object_def)
qed

lemma load_u32_live:
  assumes "live R m" "cells b k 4 \<subseteq> R"
  obtains v where "load_u32 (Addr b (int k)) m = Ok v"
proof -
  obtain bs where "load_bytes (Addr b (int k)) 4 m = Ok bs" using load_bytes_live [OF assms] by auto
  then show thesis using that by (simp add: load_u32_def)
qed

lemma store_bytes_live:
  assumes "live R m" "cells b k (length bs) \<subseteq> R" "bs \<noteq> []"
  obtains m' where "store_bytes (Addr b (int k)) bs m = (Ok (), m')" "only R m m'"
proof -
  obtain cs where cs: "mem_objects m b = Some cs" "k + length bs \<le> length cs"
    using live_cells [OF assms(1,2)] assms(3) by (metis length_greater_0_conv)
  let ?cs' = "take k cs @ map Byte bs @ drop (k + length bs) cs"
  let ?m' = "m\<lparr>mem_objects := (mem_objects m)(b \<mapsto> ?cs')\<rparr>"
  have "store_bytes (Addr b (int k)) bs m = (Ok (), ?m')"
    using cs by (simp add: store_bytes_def store_cells_def in_object_def Let_def)
  moreover have "only R m ?m'" unfolding only_def
  proof (intro conjI allI)
    fix c
    have "?cs' ! i = cs ! i \<or> (b, i) \<in> R \<and> is_byte (?cs' ! i)" if i: "i < length cs" for i
    proof (cases "k \<le> i \<and> i < k + length bs")
      case True
      then have "(b, i) \<in> R" using assms(2) by (auto simp: cells_def)
      moreover have "?cs' ! i = map Byte bs ! (i - k)" using True cs(2) by (auto simp: nth_append)
      ultimately show ?thesis using True by auto
    next
      case False
      then show ?thesis using cs(2) i by (auto simp: nth_append)
    qed
    then show "only_object {i. (c, i) \<in> R} (mem_objects m c) (mem_objects ?m' c)"
      using cs by (auto simp: only_object_def split: option.split)
  qed simp_all
  ultimately show thesis using that by blast
qed

section \<open>Calls\<close>

context pb_source begin

definition slack :: "'u pb_istream \<Rightarrow> nat" where
  "slack s = length (content (is_state s)) - bytes_left s"

definition flows :: "'u pb_istream \<Rightarrow> 'u pb_istream \<Rightarrow> bool" where
  "flows s s' \<longleftrightarrow> ok s' \<and> bytes_left s' \<le> bytes_left s \<and> slack s \<le> slack s'"

definition ready :: "region \<Rightarrow> 'u dst \<Rightarrow> bool" where
  "ready R st \<longleftrightarrow> ok (fst st) \<and> live R (snd st)"

definition moves :: "region \<Rightarrow> 'u dst \<Rightarrow> 'u dst \<Rightarrow> bool" where
  "moves R st st' \<longleftrightarrow> flows (fst st) (fst st') \<and> only R (snd st) (snd st')"

definition fine :: "region \<Rightarrow> ('a \<Rightarrow> 'u dst \<Rightarrow> bool) \<Rightarrow> 'u dst \<Rightarrow> 'a outcome \<times> 'u dst \<Rightarrow> bool" where
  "fine R Q st r \<longleftrightarrow> fst r \<noteq> Undef \<and> moves R st (snd r) \<and> (\<forall>a. fst r = Ok a \<longrightarrow> Q a (snd r))"

definition settles :: "'u env \<Rightarrow> region \<Rightarrow> ('a \<Rightarrow> 'u dst \<Rightarrow> bool) \<Rightarrow> 'u dst \<Rightarrow> ('u calls \<Rightarrow> ('a outcome \<times> 'u dst) option) \<Rightarrow> bool" where
  "settles env R Q st body \<longleftrightarrow> (\<exists>r. (\<forall>\<^sub>F n in sequentially. body (run n env) = Some r) \<and> fine R Q st r)"

lemma flows_refl: "ok s \<Longrightarrow> flows s s"
  by (simp add: flows_def)

lemma flows_trans: "flows s t \<Longrightarrow> flows t u \<Longrightarrow> flows s u"
  by (simp add: flows_def)

lemma flows_errmsg [simp]: "flows s (t\<lparr>is_errmsg := e\<rparr>) = flows s t"
  by (simp add: flows_def slack_def)

lemma flows_set_error [simp]: "flows s (pb_set_error e t) = flows s t"
  by (simp add: pb_set_error_def)

lemma flows_advances: "ok s \<Longrightarrow> advances s s' \<Longrightarrow> flows s s'"
  by (auto simp: advances_def flows_def slack_def consume_def ok_def)

lemma ready_moves: "ready R st \<Longrightarrow> moves S st st' \<Longrightarrow> ready R st'"
  by (auto simp: ready_def moves_def flows_def intro: live_only)

lemma ready_mono: "ready S st \<Longrightarrow> R \<subseteq> S \<Longrightarrow> ready R st"
  by (auto simp: ready_def intro: live_mono)

lemma moves_refl: "ready R st \<Longrightarrow> moves S st st"
  by (simp add: ready_def moves_def flows_refl)

lemma moves_trans: "moves R st st1 \<Longrightarrow> moves R st1 st2 \<Longrightarrow> moves R st st2"
  by (auto simp: moves_def intro: flows_trans only_trans)

lemma moves_mono: "moves R st st' \<Longrightarrow> R \<subseteq> S \<Longrightarrow> moves S st st'"
  by (auto simp: moves_def intro: only_mono)

lemma fine_mono: "fine R P st r \<Longrightarrow> R \<subseteq> S \<Longrightarrow> (\<And>a st'. P a st' \<Longrightarrow> Q a st') \<Longrightarrow> fine S Q st r"
  by (auto simp: fine_def intro: moves_mono)

lemma fine_Ok: "ready R st \<Longrightarrow> Q a st \<Longrightarrow> fine R Q st (Ok a, st)"
  by (simp add: fine_def moves_refl)

lemma fine_error: "ready R st \<Longrightarrow> fine R Q st (field_error e st)"
  by (auto simp: fine_def on_stream_def pb_return_error_def moves_def ready_def flows_refl)

lemma fine_then:
  assumes "moves R st st1" "fine R Q st1 r"
  shows "fine R Q st r"
  using assms by (auto simp: fine_def intro: moves_trans)

lemma fine_bind:
  assumes "ready R st" "fine R P st r"
    "\<And>a st1. r = (Ok a, st1) \<Longrightarrow> P a st1 \<Longrightarrow> moves R st st1 \<Longrightarrow> ready R st1 \<Longrightarrow> fine R Q st1 (k a st1)"
  shows "fine R Q st (seq_ok r k)"
proof -
  obtain x st1 where Pair: "r = (x, st1)" by (rule prod.exhaust)
  then have m: "moves R st st1" "ready R st1" using assms(1,2) by (auto simp: fine_def intro: ready_moves)
  show ?thesis
  proof (cases x)
    case (Ok a)
    then have "fine R Q st1 (k a st1)" using Pair assms(2,3) m by (simp add: fine_def)
    then show ?thesis using Ok Pair fine_then [OF m(1)] by simp
  qed (use assms(2) Pair in \<open>auto simp: fine_def\<close>)
qed

lemma fine_stream:
  assumes "ready R st" "safe (fst st) (f (fst st))"
  shows "fine R (\<lambda>a st'. f (fst st) = (Ok a, fst st')) st (on_stream f st)"
proof -
  obtain x s where f: "f (fst st) = (x, s)" by (cases "f (fst st)")
  then have "x \<noteq> Undef" "flows (fst st) s" using assms by (auto simp: safe_def ready_def intro: flows_advances)
  then show ?thesis using f by (simp add: fine_def on_stream_def moves_def)
qed

lemma fine_load_u32:
  assumes "ready R st" "cells b k 4 \<subseteq> R"
  shows "fine R (\<lambda>_ st'. st' = st) st (peek (load_u32 (Addr b (int k))) st)"
proof -
  obtain v where "load_u32 (Addr b (int k)) (snd st) = Ok v" using load_u32_live [OF _ assms(2)] assms(1) by (auto simp: ready_def)
  then show ?thesis using assms(1) by (simp add: fine_def peek_def moves_refl)
qed

lemma fine_store:
  assumes "ready R st" "cells b k (length bs) \<subseteq> R" "bs \<noteq> []"
  shows "fine R (\<lambda>_ st'. fst st' = fst st) st (on_mem (store_bytes (Addr b (int k)) bs) st)"
proof -
  obtain m' where "store_bytes (Addr b (int k)) bs (snd st) = (Ok (), m')" "only R (snd st) m'"
    using store_bytes_live [OF _ assms(2,3)] assms(1) by (auto simp: ready_def)
  then show ?thesis using assms(1) by (simp add: fine_def on_mem_def moves_def flows_refl ready_def)
qed

lemma fine_store_u32:
  assumes "ready R st" "cells b k 4 \<subseteq> R"
  shows "fine R (\<lambda>_ st'. fst st' = fst st) st (on_mem (store_u32 (Addr b (int k)) v) st)"
proof -
  have "le_bytes 4 (unat v) \<noteq> []" using length_le_bytes [of 4 "unat v"] by (metis list.size(3) zero_neq_numeral)
  then show ?thesis unfolding store_u32_def using assms by (intro fine_store) auto
qed

lemma settles_mono:
  "settles env R P st body \<Longrightarrow> R \<subseteq> S \<Longrightarrow> (\<And>a st'. P a st' \<Longrightarrow> Q a st') \<Longrightarrow> settles env S Q st body"
  unfolding settles_def by (blast intro: fine_mono)

lemma settles_Some: "fine R Q st r \<Longrightarrow> settles env R Q st (\<lambda>_. Some r)"
  unfolding settles_def by auto

lemma settles_call:
  assumes "settles env R Q st (\<lambda>call. perform env call job st)"
  shows "settles env R Q st (\<lambda>call. call job st)"
proof -
  obtain r where "\<forall>\<^sub>F n in sequentially. run (Suc n) env job st = Some r" "fine R Q st r" using assms by (auto simp: settles_def)
  then show ?thesis unfolding settles_def using eventually_sequentially_Suc [of "\<lambda>n. run n env job st = Some r"] by blast
qed

lemma settles_step:
  assumes "ready R st" "settles env R P st x"
    "\<And>a st1. P a st1 \<Longrightarrow> moves R st st1 \<Longrightarrow> ready R st1 \<Longrightarrow> settles env R Q st1 (\<lambda>call. k call a st1)"
  shows "settles env R Q st (\<lambda>call. step_ok (x call) (k call))"
proof -
  obtain r where r: "\<forall>\<^sub>F n in sequentially. x (run n env) = Some r" "fine R P st r" using assms(2) by (auto simp: settles_def)
  obtain a st1 where p: "r = (a, st1)" by (cases r)
  have m: "moves R st st1" "ready R st1" using r(2) p assms(1) by (auto simp: fine_def intro: ready_moves)
  show ?thesis
  proof (cases a)
    case (Ok v)
    then have "settles env R Q st1 (\<lambda>call. k call v st1)" using assms(3) m r(2) p by (simp add: fine_def)
    then obtain q where q: "\<forall>\<^sub>F n in sequentially. k (run n env) v st1 = Some q" "fine R Q st1 q" by (auto simp: settles_def)
    have "\<forall>\<^sub>F n in sequentially. step_ok (x (run n env)) (k (run n env)) = Some q"
      using r(1) q(1) by eventually_elim (simp add: p Ok)
    then show ?thesis using fine_then [OF m(1) q(2)] unfolding settles_def by blast
  next
    case Fail
    have "\<forall>\<^sub>F n in sequentially. step_ok (x (run n env)) (k (run n env)) = Some (Fail, st1)"
      using r(1) by eventually_elim (simp add: p Fail)
    moreover have "fine R Q st (Fail, st1)" using m by (simp add: fine_def)
    ultimately show ?thesis unfolding settles_def by blast
  next
    case Undef
    then show ?thesis using r(2) p by (simp add: fine_def)
  qed
qed

lemma settles_seq:
  assumes "ready R st" "fine R P st r"
    "\<And>a st1. r = (Ok a, st1) \<Longrightarrow> P a st1 \<Longrightarrow> moves R st st1 \<Longrightarrow> ready R st1 \<Longrightarrow> settles env R Q st1 (\<lambda>call. k call a st1)"
  shows "settles env R Q st (\<lambda>call. step_ok (Some r) (k call))"
proof (rule settles_step [where P = "\<lambda>a st1. r = (Ok a, st1) \<and> P a st1"])
  have "fine R (\<lambda>a st1. r = (Ok a, st1) \<and> P a st1) st r" using assms(2) by (cases r) (simp add: fine_def)
  then show "settles env R (\<lambda>a st1. r = (Ok a, st1) \<and> P a st1) st (\<lambda>_. Some r)" by (rule settles_Some)
qed (use assms in blast)+

end

end
