(* ===== verification/Pb_Decode_Safe.thy ===== *)
theory Pb_Decode_Safe
  imports Pb_Regions
begin

text \<open>
  Messages whose fields are all stored in the structure itself: decoding them returns on every input, stays inside of the structure and
  does nothing undefined.
\<close>

section \<open>Values\<close>

lemma le_bytes_neq_Nil [simp]: "0 < n \<Longrightarrow> le_bytes n v \<noteq> []"
  by (metis length_le_bytes less_numeral_extra(3) list.size(3))

definition packable_fits :: "pb_field \<Rightarrow> bool" where
  "packable_fits f \<longleftrightarrow> 0 < unat (fd_data_size f) \<and> (PB_LTYPE f = PB_LTYPE_FIXED32 \<longrightarrow> 4 \<le> unat (fd_data_size f)) \<and>
     (PB_LTYPE f = PB_LTYPE_FIXED64 \<longrightarrow> 8 \<le> unat (fd_data_size f))"

context pb_source begin

lemma read_progress: "ok s \<Longrightarrow> 0 < n \<Longrightarrow> pb_read True n s = (Ok a, s') \<Longrightarrow> bytes_left s' < bytes_left s \<and> length a = n"
  by (auto simp: read pb_return_error_def avail_def ok_def split: if_splits)

lemma decode_varint_progress:
  assumes "ok s" "pb_decode_varint s = (Ok v, s')"
  shows "bytes_left s' < bytes_left s"
proof -
  from assms(2) obtain b s1 where b: "pb_readbyte s = (Ok b, s1)"
    and r: "let result' = 0 OR push_bit (unat (0::byte)) (ucast (b AND 0x7F)); bitpos' = (0::byte) + 7
      in (if b AND 0x80 \<noteq> 0 then varint_loop bitpos' result' s1 else (Ok result', s1)) = (Ok v, s')"
    unfolding pb_decode_varint_def by (subst (asm) varint_loop.simps) (auto simp: seq_ok_eq_Ok Let_def)
  have s1: "ok s1" "bytes_left s1 < bytes_left s"
    using safe_readbyte [OF assms(1)] assms(1) pb_readbyte_decreases [of s b] b by (auto simp: safe_def intro: advances_ok)
  have "bytes_left t \<le> bytes_left s1" if "varint_loop 7 r s1 = (x, t)" for r x t
    using safe_varint [OF s1(1), of 7 r] that by (auto simp: safe_def advances_def)
  with s1 r show ?thesis by (fastforce simp: Let_def split: if_splits)
qed

lemma decode_svarint_progress: "ok s \<Longrightarrow> pb_decode_svarint s = (Ok v, s') \<Longrightarrow> bytes_left s' < bytes_left s"
  by (auto simp: pb_decode_svarint_def seq_ok_eq_Ok dest: decode_varint_progress)

lemma decode_fixed_progress:
  assumes "ok s"
  shows "pb_decode_fixed32 s = (Ok v, s') \<Longrightarrow> bytes_left s' < bytes_left s"
    and "pb_decode_fixed64 s = (Ok w, s') \<Longrightarrow> bytes_left s' < bytes_left s"
  using read_progress [OF assms, of 4] read_progress [OF assms, of 8] by (auto simp: pb_decode_fixed32_def pb_decode_fixed64_def seq_ok_eq_Ok)

text \<open>A decoder that consumes something and stores.\<close>

lemma fine_decode:
  assumes "ready R st" "safe (fst st) (f (fst st))" "\<And>a s. f (fst st) = (Ok a, s) \<Longrightarrow> bytes_left s < bytes_left (fst st)"
    "\<And>a st1. ready R st1 \<Longrightarrow> fine R (\<lambda>_ st'. fst st' = fst st1) st1 (k a st1)"
  shows "fine R (\<lambda>_ st'. bytes_left (fst st') < bytes_left (fst st)) st (seq_ok (on_stream f st) k)"
proof (rule fine_bind [OF assms(1) fine_stream [of R st f, OF assms(1,2)]])
  fix a st1
  assume a: "f (fst st) = (Ok a, fst st1)" and st1: "ready R st1"
  show "fine R (\<lambda>_ st'. bytes_left (fst st') < bytes_left (fst st)) st1 (k a st1)"
    by (rule fine_mono [OF assms(4) [OF st1]]) (use assms(3) [OF a] in auto)
qed

lemma fine_store_clamped:
  assumes "ready R st" "cells b k (unat (fd_data_size f)) \<subseteq> R"
  shows "fine R (\<lambda>_ st'. fst st' = fst st) st (store_clamped narrow f (Addr b (int k)) v st)"
proof -
  let ?n = "unat (fd_data_size f)"
  show ?thesis
  proof (cases "?n = 8 \<or> ?n = 4 \<or> ?n = 2 \<or> ?n = 1")
    case True
    have "le_bytes ?n (unat v) \<noteq> []" by (rule le_bytes_neq_Nil) (use True in linarith)
    then have "fine R (\<lambda>_ st'. fst st' = fst st) st (on_mem (store_bytes (Addr b (int k)) (le_bytes ?n (unat v))) st)"
      using assms by (intro fine_store) auto
    from fine_bind [OF assms(1) this, of "\<lambda>_ st'. fst st' = fst st" "\<lambda>_ st. if narrow ?n v \<noteq> v then field_error ''integer too large'' st else (Ok (), st)"]
    have "fine R (\<lambda>_ st'. fst st' = fst st) st (seq_ok (on_mem (store_bytes (Addr b (int k)) (le_bytes ?n (unat v))) st)
        (\<lambda>_ st. if narrow ?n v \<noteq> v then field_error ''integer too large'' st else (Ok (), st)))"
      by (simp add: fine_error fine_Ok)
    then show ?thesis using True by (simp add: store_clamped_def Let_def)
  next
    case False
    then show ?thesis using assms(1) by (simp add: store_clamped_def Let_def fine_error)
  qed
qed

lemma fine_dec_bool:
  assumes "ready R st" "cells b k 1 \<subseteq> R"
  shows "fine R (\<lambda>_ st'. bytes_left (fst st') < bytes_left (fst st)) st (pb_dec_bool f (Addr b (int k)) st)"
  unfolding pb_dec_bool_def
proof (rule fine_decode [OF assms(1)])
  show "safe (fst st) (pb_decode_varint32 (fst st))" using assms(1) safe_values(6) by (simp add: ready_def)
  show "bytes_left s < bytes_left (fst st)" if "pb_decode_varint32 (fst st) = (Ok a, s)" for a s
    using decode_varint32_progress that assms(1) by (simp add: ready_def)
qed (use assms(2) in \<open>auto intro!: fine_store\<close>)

lemma fine_dec_packable:
  assumes "ready R st" "cells b k (unat (fd_data_size f)) \<subseteq> R" "packable_fits f" "PB_LTYPE f \<le> PB_LTYPE_LAST_PACKABLE"
  shows "fine R (\<lambda>_ st'. bytes_left (fst st') < bytes_left (fst st)) st (dec_packable f (Addr b (int k)) st)"
proof -
  have s: "ok (fst st)" using assms(1) by (simp add: ready_def)
  have pos: "0 < unat (fd_data_size f)" using assms(3) by (simp add: packable_fits_def)
  have sub: "cells b k n \<subseteq> R" if "n \<le> unat (fd_data_size f)" for n
    using assms(2) cells_sub [of k k n "unat (fd_data_size f)" b] that by auto
  have "unat (PB_LTYPE f) \<le> 5" using assms(4) by (simp add: word_le_nat_alt)
  then have "unat (PB_LTYPE f) = 0 \<or> unat (PB_LTYPE f) = 1 \<or> unat (PB_LTYPE f) = 2 \<or> unat (PB_LTYPE f) = 3 \<or> unat (PB_LTYPE f) = 4 \<or> unat (PB_LTYPE f) = 5"
    by linarith
  then consider "PB_LTYPE f = 0" | "PB_LTYPE f = 1" | "PB_LTYPE f = 2" | "PB_LTYPE f = 3" | "PB_LTYPE f = 4" | "PB_LTYPE f = 5"
    by (simp only: word_unat_eq_iff unat_0 unat_1 unat_numeral) auto
  then show ?thesis
  proof cases
    case 1
    then show ?thesis using fine_dec_bool [OF assms(1) sub] pos by (simp add: dec_packable_def)
  next
    case 2
    have "fine R (\<lambda>_ st'. bytes_left (fst st') < bytes_left (fst st)) st (pb_dec_varint f (Addr b (int k)) st)"
      unfolding pb_dec_varint_def
      by (rule fine_decode [where f = pb_decode_varint, OF assms(1) safe_values(1) [OF s] decode_varint_progress [OF s]]) (use assms(2) in \<open>auto intro: fine_store_clamped\<close>)
    then show ?thesis using 2 by (simp add: dec_packable_def)
  next
    case 3
    have "fine R (\<lambda>_ st'. bytes_left (fst st') < bytes_left (fst st)) st (pb_dec_uvarint f (Addr b (int k)) st)"
      unfolding pb_dec_uvarint_def
      by (rule fine_decode [where f = pb_decode_varint, OF assms(1) safe_values(1) [OF s] decode_varint_progress [OF s]]) (use assms(2) in \<open>auto intro: fine_store_clamped\<close>)
    then show ?thesis using 3 by (simp add: dec_packable_def)
  next
    case 4
    have "fine R (\<lambda>_ st'. bytes_left (fst st') < bytes_left (fst st)) st (pb_dec_svarint f (Addr b (int k)) st)"
      unfolding pb_dec_svarint_def
      by (rule fine_decode [where f = pb_decode_svarint, OF assms(1) safe_values(2) [OF s] decode_svarint_progress [OF s]]) (use assms(2) in \<open>auto intro: fine_store_clamped\<close>)
    then show ?thesis using 4 by (simp add: dec_packable_def)
  next
    case 5
    have "fine R (\<lambda>_ st'. bytes_left (fst st') < bytes_left (fst st)) st (pb_dec_fixed32 f (Addr b (int k)) st)"
      unfolding pb_dec_fixed32_def
      by (rule fine_decode [where f = pb_decode_fixed32, OF assms(1) safe_values(4) [OF s] decode_fixed_progress(1) [OF s]])
        (use 5 assms(3) in \<open>auto simp: packable_fits_def intro!: fine_store sub [THEN subsetD]\<close>)
    then show ?thesis using 5 by (simp add: dec_packable_def)
  next
    case 6
    have "fine R (\<lambda>_ st'. bytes_left (fst st') < bytes_left (fst st)) st (pb_dec_fixed64 f (Addr b (int k)) st)"
      unfolding pb_dec_fixed64_def
      by (rule fine_decode [where f = pb_decode_fixed64, OF assms(1) safe_values(5) [OF s] decode_fixed_progress(2) [OF s]])
        (use 6 assms(3) in \<open>auto simp: packable_fits_def intro!: fine_store sub [THEN subsetD]\<close>)
    then show ?thesis using 6 by (simp add: dec_packable_def)
  qed
qed

section \<open>Strings\<close>

lemma fine_read_into:
  assumes "ready R st" "cells b k n \<subseteq> R"
  shows "fine R (\<lambda>_ st'. bytes_left (fst st') \<le> bytes_left (fst st)) st (read_into (Addr b (int k)) n st)"
proof -
  have s: "ok (fst st)" using assms(1) by (simp add: ready_def)
  show ?thesis unfolding read_into_def
  proof (rule fine_bind [OF assms(1) fine_stream [of R st "pb_read True n", OF assms(1) safe_read [OF s]]])
    fix a st1
    assume a: "pb_read True n (fst st) = (Ok a, fst st1)" and st1: "ready R st1" "moves R st st1"
    have le: "bytes_left (fst st1) \<le> bytes_left (fst st)" using st1(2) by (simp add: moves_def flows_def)
    have len: "a = [] \<or> length a = n" using read_progress [OF s _ a] a s by (cases "n = 0") (auto simp: pb_read_def)
    show "fine R (\<lambda>_ st'. bytes_left (fst st') \<le> bytes_left (fst st)) st1 (if a = [] then (Ok (), st1) else on_mem (store_bytes (Addr b (int k)) a) st1)"
    proof (cases "a = []")
      case True
      then show ?thesis using st1 le by (simp add: fine_Ok)
    next
      case False
      have "fine R (\<lambda>_ st'. fst st' = fst st1) st1 (on_mem (store_bytes (Addr b (int k)) a) st1)"
        using False len assms(2) st1(1) by (intro fine_store) auto
      then show ?thesis using False le by (auto intro: fine_mono)
    qed
  qed
qed

lemma fine_string_dest:
  assumes "ready R st" "PB_ATYPE f = PB_ATYPE_STATIC"
  shows "fine R (\<lambda>a st'. st' = st \<and> a = dest \<and> unat alloc_size \<le> unat (fd_data_size f)) st (string_dest msg f dest n alloc_size st)"
  using assms by (auto simp: string_dest_def fine_error fine_Ok)

lemma fine_varint32:
  assumes "ready R st"
  shows "fine R (\<lambda>a st'. bytes_left (fst st') < bytes_left (fst st)) st (on_stream pb_decode_varint32 st)"
proof -
  have s: "ok (fst st)" using assms by (simp add: ready_def)
  show ?thesis
    by (rule fine_mono [OF fine_stream [of R st pb_decode_varint32, OF assms safe_values(6) [OF s]]]) (auto dest: decode_varint32_progress [OF s])
qed

lemma fine_dec_bytes:
  assumes "ready R st" "cells b k (unat (fd_data_size f)) \<subseteq> R" "PB_ATYPE f = PB_ATYPE_STATIC"
  shows "fine R (\<lambda>_ _. True) st (pb_dec_bytes f (Addr b (int k)) st)"
  unfolding pb_dec_bytes_def
proof (rule fine_bind [OF assms(1) fine_varint32 [OF assms(1)]], unfold Let_def, goal_cases)
  case (1 sz st1)
  let ?n = "ucast sz + 4 :: u64"
  have n: "unat ?n = unat sz + 4" using unat_u32_less [of sz] by (simp add: unat_word_ariths unat_ucast_up)
  show ?case
  proof (simp add: fine_error [OF 1(4)] word_less_nat_alt n unat_ucast_up not_less, intro impI conjI,
      rule fine_bind [OF 1(4) fine_string_dest [OF 1(4) assms(3)]], goal_cases)
    case d: (1 a st2)
    then have fit: "unat sz + 4 \<le> unat (fd_data_size f)" and a: "a = Addr b (int k)" by (simp_all add: n)
    have sub: "cells b i l \<subseteq> R" if "k \<le> i" "i + l \<le> k + unat sz + 4" for i l
      using assms(2) cells_sub [of k i l "unat (fd_data_size f)" b] that fit by auto
    show ?case unfolding a
    proof (rule fine_bind [OF d(5) fine_store_u32 [OF d(5) sub]], simp, simp, goal_cases)
      case (1 _ st3)
      then show ?case using fine_read_into [OF 1(4) sub [of "k + 4" "unat sz"]]
        by (auto simp: peek_def shift_def intro: fine_mono)
    qed
  qed
qed

lemma fine_dec_string:
  assumes "ready R st" "cells b k (unat (fd_data_size f)) \<subseteq> R" "PB_ATYPE f = PB_ATYPE_STATIC"
  shows "fine R (\<lambda>_ _. True) st (pb_dec_string f (Addr b (int k)) st)"
  unfolding pb_dec_string_def
proof (rule fine_bind [OF assms(1) fine_varint32 [OF assms(1)]], unfold Let_def, goal_cases)
  case (1 sz st1)
  let ?n = "ucast (sz + 1) :: u64"
  show ?case
  proof (cases "?n < ucast sz")
    case True
    then show ?thesis using 1(4) by (simp add: fine_error)
  next
    case False
    have "sz + 1 \<noteq> 0"
    proof
      assume "sz + 1 = 0"
      then have "sz = -1" by (simp add: eq_neg_iff_add_eq_0)
      then show False using False by (simp add: unsigned_minus_1_eq_mask mask_eq_exp_minus_1)
    qed
    then have n: "unat ?n = unat sz + 1" by (simp add: unat_ucast_up unatSuc add.commute)
    have "fine R (\<lambda>_ _. True) st1 (seq_ok (string_dest ''string overflow'' f (Addr b (int k)) (unat sz) ?n st1) (\<lambda>dest st.
            case read_into dest (unat sz) st of
              (Undef, st) \<Rightarrow> (Undef, st)
            | (status, st) \<Rightarrow>
                seq_ok (peek (\<lambda>_. shift dest (int (unat sz))) st) (\<lambda>end_ptr st.
                seq_ok (on_mem (store_bytes end_ptr [0]) st) (\<lambda>_ st. (status, st)))))"
    proof (rule fine_bind [OF 1(4) fine_string_dest [OF 1(4) assms(3)]], goal_cases)
      case d: (1 a st2)
      then have fit: "unat sz + 1 \<le> unat (fd_data_size f)" and a: "a = Addr b (int k)" by (simp_all add: n)
      have sub: "cells b i l \<subseteq> R" if "k \<le> i" "i + l \<le> k + unat sz + 1" for i l
        using assms(2) cells_sub [of k i l "unat (fd_data_size f)" b] that fit by auto
      have ri: "fine R (\<lambda>_ st'. bytes_left (fst st') \<le> bytes_left (fst st2)) st2 (read_into (Addr b (int k)) (unat sz) st2)"
        by (rule fine_read_into [OF d(4) sub]) auto
      obtain status st3 where st3: "read_into (Addr b (int k)) (unat sz) st2 = (status, st3)" by (rule prod.exhaust)
      have r3: "status \<noteq> Undef" "moves R st2 st3" "ready R st3" using ri st3 d(4) by (auto simp: fine_def intro: ready_moves)
      have "fine R (\<lambda>_ _. True) st3 (seq_ok (on_mem (store_bytes (Addr b (int (k + unat sz))) [0]) st3) (\<lambda>_ st. (status, st)))"
      proof (rule fine_bind [OF r3(3) fine_store [OF r3(3)]], goal_cases)
        case 1
        then show ?case by (rule sub) auto
      next
        case (3 _ st4)
        then show ?case using r3(1) by (simp add: fine_def moves_refl)
      qed simp
      from fine_then [OF r3(2) this] show ?case unfolding a st3
        using r3(1) by (cases status) (simp_all add: peek_def shift_def)
    qed
    then show ?thesis using False by simp
  qed
qed

lemma fine_dec_fixed_length:
  assumes "ready R st" "cells b k (unat (fd_data_size f)) \<subseteq> R" "0 < unat (fd_data_size f)"
  shows "fine R (\<lambda>_ _. True) st (pb_dec_fixed_length_bytes f (Addr b (int k)) st)"
  unfolding pb_dec_fixed_length_bytes_def
proof (rule fine_bind [OF assms(1) fine_varint32 [OF assms(1)]], goal_cases)
  case (1 sz st1)
  let ?n = "unat (fd_data_size f)"
  have "fine R (\<lambda>_ st'. fst st' = fst st1) st1 (on_mem (store_bytes (Addr b (int k)) (replicate ?n 0)) st1)"
    using assms(2,3) 1(4) by (intro fine_store) auto
  then have "fine R (\<lambda>_ _. True) st1 (on_mem (store_bytes (Addr b (int k)) (replicate ?n 0)) st1)" by (rule fine_mono) auto
  moreover have "fine R (\<lambda>_ _. True) st1 (read_into (Addr b (int k)) ?n st1)" by (rule fine_mono [OF fine_read_into [OF 1(4) assms(2)]]) auto
  ultimately show ?case by (simp add: fine_error [OF 1(4)])
qed

end

end
