(* ===== verification/Pb_Static.thy ===== *)
theory Pb_Static
  imports Pb_Decode_Safe
begin

text \<open>
  Tables of descriptors whose fields are all stored in the structure: what has to hold of such a table, where the iterator may stand
  while such a message is decoded, and substreams.
\<close>

section \<open>Tables\<close>

definition PB_LAST_FIELD :: pb_field where
  "PB_LAST_FIELD = \<lparr>fd_tag = 0, fd_type = 0, fd_data_offset = 0, fd_size_offset = 0, fd_data_size = 0, fd_array_size = 0, fd_ptr = No_ptr\<rparr>"

text \<open>A default value has the size of the field; only submessages point to tables.\<close>

definition points_well :: "(nat \<Rightarrow> nat \<Rightarrow> bool) \<Rightarrow> pb_field \<Rightarrow> bool" where
  "points_well sub f = (case fd_ptr f of
      No_ptr \<Rightarrow> PB_LTYPE f \<noteq> PB_LTYPE_SUBMESSAGE
    | Default_value bs \<Rightarrow> PB_LTYPE f \<noteq> PB_LTYPE_SUBMESSAGE \<and> unat (fd_data_size f) \<le> length bs
    | Sub_fields t \<Rightarrow> PB_LTYPE f = PB_LTYPE_SUBMESSAGE \<and> sub t (unat (fd_data_size f)))"

text \<open>The \<^verbatim>\<open>has_\<close> flag is a byte, the counter of an array and the tag of a union are four, all of them inside of the structure.\<close>

definition size_fits :: "pb_field list \<Rightarrow> nat \<Rightarrow> nat \<Rightarrow> bool" where
  "size_fits tab sz i \<longleftrightarrow>
     (PB_HTYPE (tab ! i) = PB_HTYPE_OPTIONAL \<longrightarrow> size_off tab i = int (field_off tab i) \<or> 0 \<le> size_off tab i \<and> nat (size_off tab i) + 1 \<le> sz) \<and>
     (PB_HTYPE (tab ! i) = PB_HTYPE_REPEATED \<or> PB_HTYPE (tab ! i) = PB_HTYPE_ONEOF \<longrightarrow> 0 \<le> size_off tab i \<and> nat (size_off tab i) + 4 \<le> sz)"

definition static_field :: "(nat \<Rightarrow> nat \<Rightarrow> bool) \<Rightarrow> pb_field list \<Rightarrow> nat \<Rightarrow> nat \<Rightarrow> bool" where
  "static_field sub tab sz i \<longleftrightarrow>
     PB_ATYPE (tab ! i) = PB_ATYPE_STATIC \<and> PB_LTYPE (tab ! i) \<le> PB_LTYPE_FIXED_LENGTH_BYTES \<and> PB_LTYPE (tab ! i) \<noteq> PB_LTYPE_EXTENSION \<and>
     packable_fits (tab ! i) \<and> points_well sub (tab ! i) \<and> field_off tab i + prev_size (tab ! i) \<le> sz \<and> size_fits tab sz i"

primrec static_table :: "nat \<Rightarrow> 'u env \<Rightarrow> nat \<Rightarrow> nat \<Rightarrow> bool" where
  "static_table 0 env t sz = False"
| "static_table (Suc d) env t sz =
     (let tab = ev_tables env t; n = length tab - 1
      in 0 < sz \<and> sz < 2 ^ 32 \<and> wf_table tab n \<and> tab ! n = PB_LAST_FIELD \<and> list_all (static_field (static_table d env) tab sz) [0..<n])"

section \<open>The iterator\<close>

definition fixed_count :: "pb_field list \<Rightarrow> nat \<Rightarrow> bool" where
  "fixed_count tab i \<longleftrightarrow> PB_HTYPE (tab ! i) = PB_HTYPE_REPEATED \<and> size_off tab i = int (field_off tab i)"

definition good_iter :: "pb_field list \<Rightarrow> nat \<Rightarrow> nat \<Rightarrow> nat \<Rightarrow> nat \<Rightarrow> pb_field_iter \<Rightarrow> bool" where
  "good_iter tab n b k loc it \<longleftrightarrow> n = 0 \<and> it = it_at tab b (int k) 0 \<or>
     (\<exists>i < n. it = it_at tab b (int k) i \<or> fixed_count tab i \<and> it = (it_at tab b (int k) i)\<lparr>it_size := Addr loc 0\<rparr>)"

lemma iter_next_size:
  assumes "PB_HTYPE (it_field it) = PB_HTYPE_REPEATED" "fd_tag (it_field it) \<noteq> 0"
  shows "pb_field_iter_next (it\<lparr>it_size := x\<rparr>) = pb_field_iter_next it"
  using assms by (simp add: pb_field_iter_next_def Let_def it_field_def place_def)

lemma find_loop_size:
  assumes "PB_HTYPE (it_field it) = PB_HTYPE_REPEATED" "fd_tag (it_field it) \<noteq> 0" "it_pos it < length (it_start it)"
  shows "iter_find_loop P s (it\<lparr>it_size := x\<rparr>) = (if P (it_field it) then Some (Ok (True, it\<lparr>it_size := x\<rparr>)) else iter_find_loop P s it)"
proof -
  have "it_field (it\<lparr>it_size := x\<rparr>) = it_field it" by (simp add: it_field_def)
  then show ?thesis using iter_next_size [OF assms(1,2), of x] assms(3)
    by (subst (1 2) iter_find_loop.simps) simp
qed

lemma find_good:
  assumes "wf_table tab n" "good_iter tab n b k loc it"
  shows "\<exists>found it'. iter_find_loop P (it_pos it) it = Some (Ok (found, it')) \<and> good_iter tab n b k loc it' \<and> (found \<longrightarrow> P (it_field it'))"
proof (cases "n = 0")
  case True
  then have it: "it = it_at tab b (int k) 0" using assms(2) by (simp add: good_iter_def)
  then show ?thesis using find_loop_empty [of tab P b "int k"] assms True by simp
next
  case False
  then obtain i where i: "i < n" "it = it_at tab b (int k) i \<or> fixed_count tab i \<and> it = (it_at tab b (int k) i)\<lparr>it_size := Addr loc 0\<rparr>"
    using assms(2) unfolding good_iter_def by blast
  have t: "fd_tag (tab ! i) \<noteq> 0" "i < length tab" using assms(1) i(1) by (simp_all add: wf_table_def)
  have plain: "\<exists>found it'. iter_find_loop P i (it_at tab b (int k) i) = Some (Ok (found, it')) \<and> good_iter tab n b k loc it' \<and> (found \<longrightarrow> P (it_field it'))"
    using find_loop_exact [OF assms(1) i(1), of P b "int k"] first_from [OF i(1), of P tab] i(1)
    by (auto simp: good_iter_def)
  show ?thesis
  proof (cases "it = it_at tab b (int k) i")
    case True
    then show ?thesis using plain by simp
  next
    case False
    then have m: "fixed_count tab i" "it = (it_at tab b (int k) i)\<lparr>it_size := Addr loc 0\<rparr>" using i(2) by blast+
    have "iter_find_loop P i it = (if P (tab ! i) then Some (Ok (True, it)) else iter_find_loop P i (it_at tab b (int k) i))"
      unfolding m(2) using find_loop_size [of "it_at tab b (int k) i" P i] m(1) t by (simp add: fixed_count_def)
    moreover have "it_pos it = i" "it_field it = tab ! i" using m(2) by (simp_all add: it_field_def it_at_def)
    ultimately show ?thesis using plain assms(2) by (cases "P (tab ! i)") auto
  qed
qed

lemma seek_end_at:
  assumes "wf_table tab n" "i < n"
  shows "\<exists>x. seek_end (it_at tab b k i) = Ok x"
  using assms(2)
proof (induction "n - i" arbitrary: i)
  case (Suc d)
  show ?case
  proof (cases "Suc i < n")
    case True
    then have "\<exists>x. seek_end (it_at tab b k (Suc i)) = Ok x" using Suc by simp
    then show ?thesis using iter_next_at [OF assms(1) Suc.prems] True by (subst seek_end.simps) simp
  next
    case False
    then show ?thesis using iter_next_at [OF assms(1) Suc.prems] by (subst seek_end.simps) simp
  qed
qed simp

lemma seek_end_good:
  assumes "wf_table tab n" "good_iter tab n b k loc it"
  shows "\<exists>x. seek_end it = Ok x"
proof (cases "n = 0")
  case True
  then have it: "it = it_at tab b (int k) 0" using assms(2) by (simp add: good_iter_def)
  have "pb_field_iter_next it = Ok (False, it)" using assms(1) True it by (simp add: pb_field_iter_next_def wf_table_def)
  then show ?thesis by (subst seek_end.simps) simp
next
  case False
  then obtain i where i: "i < n" "it = it_at tab b (int k) i \<or> fixed_count tab i \<and> it = (it_at tab b (int k) i)\<lparr>it_size := Addr loc 0\<rparr>"
    using assms(2) unfolding good_iter_def by blast
  have t: "fd_tag (tab ! i) \<noteq> 0" using assms(1) i(1) by (simp add: wf_table_def)
  have "pb_field_iter_next it = pb_field_iter_next (it_at tab b (int k) i)"
    using i(2) iter_next_size [of "it_at tab b (int k) i"] t by (auto simp: fixed_count_def)
  then show ?thesis
    using iter_next_at [OF assms(1) i(1), of b "int k"] seek_end_at [OF assms(1), of "Suc i" b "int k"] by (subst seek_end.simps) auto
qed

section \<open>Places of fields\<close>

definition static_layout :: "(nat \<Rightarrow> nat \<Rightarrow> bool) \<Rightarrow> pb_field list \<Rightarrow> nat \<Rightarrow> nat \<Rightarrow> bool" where
  "static_layout sub tab n sz \<longleftrightarrow> 0 < sz \<and> sz < 2 ^ 32 \<and> wf_table tab n \<and> tab ! n = PB_LAST_FIELD \<and> (\<forall>i < n. static_field sub tab sz i)"

lemma static_table_layout:
  "static_table (Suc d) env t sz \<longleftrightarrow> static_layout (static_table d env) (ev_tables env t) (length (ev_tables env t) - 1) sz"
  by (auto simp: static_layout_def list_all_iff Let_def)

lemma submessage_static:
  assumes "points_well sub f" "PB_LTYPE f = PB_LTYPE_SUBMESSAGE"
  obtains t where "fd_ptr f = Sub_fields t" "submessage f = Ok t" "sub t (unat (fd_data_size f))"
  using assms by (auto simp: points_well_def submessage_def split: field_ptr.splits)

lemma static_places:
  assumes "static_field sub tab sz i"
  shows "cells b (k + field_off tab i) (prev_size (tab ! i)) \<subseteq> cells b k sz"
    and "PB_HTYPE (tab ! i) \<noteq> PB_HTYPE_REPEATED \<Longrightarrow> prev_size (tab ! i) = unat (fd_data_size (tab ! i))"
    and "PB_HTYPE (tab ! i) = PB_HTYPE_REPEATED \<or> PB_HTYPE (tab ! i) = PB_HTYPE_ONEOF \<Longrightarrow>
      0 \<le> size_off tab i \<and> cells b (k + nat (size_off tab i)) 4 \<subseteq> cells b k sz"
    and "PB_HTYPE (tab ! i) = PB_HTYPE_OPTIONAL \<Longrightarrow> size_off tab i \<noteq> int (field_off tab i) \<Longrightarrow>
      0 \<le> size_off tab i \<and> cells b (k + nat (size_off tab i)) 1 \<subseteq> cells b k sz"
proof -
  have s: "PB_ATYPE (tab ! i) = PB_ATYPE_STATIC" "field_off tab i + prev_size (tab ! i) \<le> sz" "size_fits tab sz i"
    using assms by (simp_all add: static_field_def)
  show "cells b (k + field_off tab i) (prev_size (tab ! i)) \<subseteq> cells b k sz" using s(2) by (intro cells_sub) auto
  show "PB_HTYPE (tab ! i) \<noteq> PB_HTYPE_REPEATED \<Longrightarrow> prev_size (tab ! i) = unat (fd_data_size (tab ! i))" using s(1) by (simp add: prev_size_def)
  show "PB_HTYPE (tab ! i) = PB_HTYPE_REPEATED \<or> PB_HTYPE (tab ! i) = PB_HTYPE_ONEOF \<Longrightarrow>
      0 \<le> size_off tab i \<and> cells b (k + nat (size_off tab i)) 4 \<subseteq> cells b k sz"
    using s(3) unfolding size_fits_def by (intro conjI cells_sub; linarith | blast)+
  show "PB_HTYPE (tab ! i) = PB_HTYPE_OPTIONAL \<Longrightarrow> size_off tab i \<noteq> int (field_off tab i) \<Longrightarrow>
      0 \<le> size_off tab i \<and> cells b (k + nat (size_off tab i)) 1 \<subseteq> cells b k sz"
    using s(3) unfolding size_fits_def by (intro conjI cells_sub; linarith | blast)+
qed

lemma it_data_nat: "it_data (it_at tab b (int k) i) = Addr b (int (k + field_off tab i))"
  by simp

lemma it_size_nat: "0 \<le> size_off tab i \<Longrightarrow> it_size (it_at tab b (int k) i) = Addr b (int (k + nat (size_off tab i)))"
  by simp

end
