(* ===== verification/Pb_Static_Safe.thy ===== *)
theory Pb_Static_Safe
  imports Pb_Static
begin

text \<open>
  The calls of the decoder on static tables settle: defaults, releasing, one field, all fields.
\<close>

section \<open>Substreams\<close>

context pb_source begin

definition substream_of :: "'u pb_istream \<Rightarrow> 'u pb_istream \<Rightarrow> 'u pb_istream \<Rightarrow> bool" where
  "substream_of s sub s' \<longleftrightarrow> (\<exists>s1 n. flows s s1 \<and> n \<le> bytes_left s1 \<and> sub = s1\<lparr>bytes_left := n\<rparr> \<and> s' = s1\<lparr>bytes_left := bytes_left s1 - n\<rparr>)"

lemma substream_ok: "substream_of s sub s' \<Longrightarrow> ok sub" "substream_of s sub s' \<Longrightarrow> flows s s'"
  by (auto simp: substream_of_def flows_def ok_def slack_def)

lemma make_substream_of:
  assumes "ok s"
  shows "fst (pb_make_string_substream s) \<noteq> Undef" "flows s (snd (pb_make_string_substream s))"
    "pb_make_string_substream s = (Ok sub, s') \<Longrightarrow> substream_of s sub s'"
proof -
  obtain r s1 where v: "pb_decode_varint32 s = (r, s1)" by (rule prod.exhaust)
  have s1: "r \<noteq> Undef" "flows s s1" using safe_values(6) [OF assms] v assms by (auto simp: safe_def intro: flows_advances)
  show "fst (pb_make_string_substream s) \<noteq> Undef" by (rule safe_substream(1) [OF assms])
  show sub: "pb_make_string_substream s = (Ok sub, s') \<Longrightarrow> substream_of s sub s'" for sub s'
  proof -
    assume "pb_make_string_substream s = (Ok sub, s')"
    then obtain n where "r = Ok n" "unat n \<le> bytes_left s1" "sub = s1\<lparr>bytes_left := unat n\<rparr>" "s' = s1\<lparr>bytes_left := bytes_left s1 - unat n\<rparr>"
      using v by (auto simp: pb_make_string_substream_def seq_ok_eq_Ok pb_return_error_def not_less split: if_splits)
    then show ?thesis using s1(2) unfolding substream_of_def by blast
  qed
  show "flows s (snd (pb_make_string_substream s))"
  proof (cases "fst (pb_make_string_substream s)")
    case (Ok x)
    then show ?thesis using sub [of x "snd (pb_make_string_substream s)"] substream_ok(2) by (metis prod.collapse)
  next
    case Fail
    then show ?thesis using v s1 by (cases r) (auto simp: pb_make_string_substream_def pb_return_error_def split: if_splits)
  next
    case Undef
    then show ?thesis using safe_substream(1) [OF assms] by simp
  qed
qed

lemma settles_substream:
  assumes "ready R st" "\<And>sub s'. substream_of (fst st) sub s' \<Longrightarrow> ready R (sub, snd st) \<Longrightarrow> settles env R Q st (\<lambda>call. k call sub (s', snd st))"
  shows "settles env R Q st (\<lambda>call. step_ok (Some (on_stream pb_make_string_substream st)) (k call))"
proof -
  have s: "ok (fst st)" using assms(1) by (simp add: ready_def)
  obtain r s' where p: "pb_make_string_substream (fst st) = (r, s')" by (rule prod.exhaust)
  note m = make_substream_of [OF s]
  show ?thesis
  proof (cases r)
    case (Ok sub)
    then have "substream_of (fst st) sub s'" using m(3) p by simp
    then show ?thesis using assms substream_ok(1) Ok p by (simp add: on_stream_def ready_def)
  next
    case Fail
    then have "fine R Q st (Fail, s', snd st)" using m(2) p by (simp add: fine_def moves_def)
    then show ?thesis using Fail p by (simp add: on_stream_def settles_Some)
  next
    case Undef
    then show ?thesis using m(1) p by simp
  qed
qed

lemma close_of:
  assumes "substream_of s sub s'" "flows sub sub'"
  obtains s2 where "pb_close_string_substream sub' s' = (Ok (), s2)" "flows s s2"
proof -
  obtain s1 n where d: "flows s s1" "n \<le> bytes_left s1" "sub = s1\<lparr>bytes_left := n\<rparr>" "s' = s1\<lparr>bytes_left := bytes_left s1 - n\<rparr>"
    using assms(1) by (auto simp: substream_of_def)
  let ?l = "bytes_left sub'"
  let ?s2 = "s'\<lparr>is_state := adv ?l (is_state sub'), is_errmsg := is_errmsg sub'\<rparr>"
  have sub': "ok sub'" "slack sub \<le> slack sub'" using assms(2) by (simp_all add: flows_def)
  then have v: "valid (is_state sub')" "?l \<le> length (content (is_state sub'))" by (simp_all add: ok_def)
  have "pb_read False ?l sub' = (Ok [], consume ?l sub')" by (rule skip_ok [OF sub'(1)]) simp
  then have "pb_close_string_substream sub' s' = (Ok (), ?s2)"
    using v by (cases "?l = 0") (simp_all add: pb_close_string_substream_def Let_def consume_def)
  moreover have "flows s ?s2"
  proof -
    have "ok s1" "bytes_left s1 \<le> bytes_left s" "slack s \<le> slack s1" using d(1) by (simp_all add: flows_def)
    then show ?thesis using d(2-4) v sub'(2) unfolding flows_def ok_def slack_def by (simp; linarith)
  qed
  ultimately show thesis using that by blast
qed

lemma fine_close:
  assumes "substream_of s sub s'" "fine R Q (sub, m) r"
  shows "fine R (\<lambda>_ _. True) (s, m) (close_after s' r)"
proof -
  obtain x sub' m' where r: "r = (x, sub', m')" by (metis prod.exhaust)
  have f: "x \<noteq> Undef" "flows sub sub'" "only R m m'" using assms(2) r by (simp_all add: fine_def moves_def)
  obtain s2 where c: "pb_close_string_substream sub' s' = (Ok (), s2)" "flows s s2" using close_of [OF assms(1) f(2)] by blast
  then show ?thesis using f r by (cases x) (simp_all add: close_after_def on_stream_def fine_def moves_def)
qed

lemma fine_parent_error:
  assumes "substream_of s sub s'" "only R m m'"
  shows "fine R Q (s, m) (field_error e (s', m'))"
  using assms substream_ok(2) [OF assms(1)] by (simp add: fine_def moves_def on_stream_def pb_return_error_def)

end

section \<open>Fields of static tables\<close>

text \<open>What submessages are relied on for.\<close>

context pb_source begin

definition handles :: "'u env \<Rightarrow> (nat \<Rightarrow> nat \<Rightarrow> bool) \<Rightarrow> bool" where
  "handles env sub \<longleftrightarrow> (\<forall>t sz b k R st. sub t sz \<longrightarrow> cells b k sz \<subseteq> R \<longrightarrow> ready R st \<longrightarrow>
     settles env R (\<lambda>_ _. True) st (\<lambda>call. call (Set_defaults t (Addr b (int k))) st) \<and>
     settles env R (\<lambda>_ _. True) st (\<lambda>call. call (Release t (Addr b (int k))) st) \<and>
     (\<forall>init. settles env R (\<lambda>_ _. True) st (\<lambda>call. call (Decode_message init t (Addr b (int k))) st)))"

lemma handlesD:
  assumes "handles env sub" "sub t sz" "cells b k sz \<subseteq> R" "ready R st" "a = Addr b (int k)"
  shows "settles env R (\<lambda>_ _. True) st (\<lambda>call. call (Set_defaults t a) st)"
    and "settles env R (\<lambda>_ _. True) st (\<lambda>call. call (Release t a) st)"
    and "settles env R (\<lambda>_ _. True) st (\<lambda>call. call (Decode_message init t a) st)"
  using assms unfolding handles_def by blast+

lemma settles_true: "settles env R Q st body \<Longrightarrow> settles env R (\<lambda>_ _. True) st body"
  by (rule settles_mono) auto

lemma fine_true: "fine R Q st r \<Longrightarrow> fine R (\<lambda>_ _. True) st r"
  by (rule fine_mono) auto

section \<open>Defaults\<close>

lemma static_data:
  assumes "static_field sub tab sz i" "PB_HTYPE (tab ! i) \<noteq> PB_HTYPE_REPEATED" "cells b k sz \<subseteq> R"
  shows "cells b (k + field_off tab i) (unat (fd_data_size (tab ! i))) \<subseteq> R" "0 < unat (fd_data_size (tab ! i))"
  using static_places(1) [OF assms(1), of b k] static_places(2) [OF assms(1)] assms by (auto simp: static_field_def packable_fits_def)

lemma fine_has:
  assumes "static_field sub tab sz i" "cells b k sz \<subseteq> R" "ready R st" "PB_HTYPE (tab ! i) = PB_HTYPE_OPTIONAL"
    "it_size (it_at tab b (int k) i) \<noteq> it_data (it_at tab b (int k) i)"
  shows "fine R (\<lambda>_ st'. fst st' = fst st) st (on_mem (store_bytes (it_size (it_at tab b (int k) i)) [v]) st)"
proof -
  have "0 \<le> size_off tab i \<and> cells b (k + nat (size_off tab i)) 1 \<subseteq> cells b k sz" using static_places(4) [OF assms(1,4)] assms(5) by simp
  then have z: "0 \<le> size_off tab i" "cells b (k + nat (size_off tab i)) 1 \<subseteq> R" using assms(2) by auto
  show ?thesis unfolding it_size_nat [OF z(1)] by (rule fine_store [OF assms(3)]) (use z(2) in auto)
qed

lemma fine_counter:
  assumes "static_field sub tab sz i" "cells b k sz \<subseteq> R" "ready R st"
    "PB_HTYPE (tab ! i) = PB_HTYPE_REPEATED \<or> PB_HTYPE (tab ! i) = PB_HTYPE_ONEOF"
  shows "fine R (\<lambda>_ st'. fst st' = fst st) st (on_mem (store_u32 (it_size (it_at tab b (int k) i)) v) st)"
    and "fine R (\<lambda>_ st'. st' = st) st (peek (load_u32 (it_size (it_at tab b (int k) i))) st)"
    and "\<exists>c. load_u32 (it_size (it_at tab b (int k) i)) (snd st) = Ok c"
proof -
  have z: "0 \<le> size_off tab i" "cells b (k + nat (size_off tab i)) 4 \<subseteq> R" using static_places(3) [OF assms(1,4), of b k] assms(2) by auto
  show "fine R (\<lambda>_ st'. fst st' = fst st) st (on_mem (store_u32 (it_size (it_at tab b (int k) i)) v) st)"
    unfolding it_size_nat [OF z(1)] by (rule fine_store_u32 [OF assms(3) z(2)])
  show "fine R (\<lambda>_ st'. st' = st) st (peek (load_u32 (it_size (it_at tab b (int k) i))) st)"
    unfolding it_size_nat [OF z(1)] by (rule fine_load_u32 [OF assms(3) z(2)])
  show "\<exists>c. load_u32 (it_size (it_at tab b (int k) i)) (snd st) = Ok c"
  proof -
    have "live R (snd st)" using assms(3) by (simp add: ready_def)
    from load_u32_live [OF this z(2)] obtain c where "load_u32 (Addr b (int (k + nat (size_off tab i)))) (snd st) = Ok c" .
    then show ?thesis unfolding it_size_nat [OF z(1)] by blast
  qed
qed

lemma settles_default:
  assumes "handles env sub" "static_field sub tab sz i" "cells b k sz \<subseteq> R" "ready R st"
  shows "settles env R (\<lambda>_ _. True) st (\<lambda>call. pb_field_set_to_default call (it_at tab b (int k) i) st)"
proof -
  let ?it = "it_at tab b (int k) i" and ?f = "tab ! i"
  have f: "PB_ATYPE ?f = PB_ATYPE_STATIC" "PB_LTYPE ?f \<noteq> PB_LTYPE_EXTENSION" "points_well sub ?f" using assms(2) by (simp_all add: static_field_def)
  define r where "r = (if PB_HTYPE ?f = PB_HTYPE_OPTIONAL \<and> it_size ?it \<noteq> it_data ?it
                 then seq_ok (on_mem (store_bytes (it_size ?it) [0]) st) (\<lambda>_ st. (Ok True, st))
                 else if PB_HTYPE ?f = PB_HTYPE_REPEATED \<or> PB_HTYPE ?f = PB_HTYPE_ONEOF
                 then seq_ok (on_mem (store_u32 (it_size ?it) 0) st) (\<lambda>_ st. (Ok False, st))
                 else (Ok True, st))"
  have r: "fine R (\<lambda>a _. a \<longrightarrow> PB_HTYPE ?f \<noteq> PB_HTYPE_REPEATED) st r"
  proof (cases "PB_HTYPE ?f = PB_HTYPE_OPTIONAL \<and> it_size ?it \<noteq> it_data ?it")
    case True
    then have "r = seq_ok (on_mem (store_bytes (it_size ?it) [0]) st) (\<lambda>_ st. (Ok True, st))" unfolding r_def by (rule if_P)
    then show ?thesis
      by (simp only:) (rule fine_bind [OF assms(4) fine_has [OF assms(2-4)]], use True in \<open>auto intro: fine_Ok\<close>)
  next
    case no: False
    show ?thesis
    proof (cases "PB_HTYPE ?f = PB_HTYPE_REPEATED \<or> PB_HTYPE ?f = PB_HTYPE_ONEOF")
      case True
      then have "r = seq_ok (on_mem (store_u32 (it_size ?it) 0) st) (\<lambda>_ st. (Ok False, st))" unfolding r_def if_not_P [OF no] by (rule if_P)
      then show ?thesis
        by (simp only:) (rule fine_bind [OF assms(4) fine_counter(1) [OF assms(2-4) True]], auto intro: fine_Ok)
    next
      case False
      then show ?thesis using no assms(4) unfolding r_def if_not_P [OF no] by (auto intro: fine_Ok)
    qed
  qed
  have "settles env R (\<lambda>_ _. True) st (\<lambda>call. step_ok (Some r) (\<lambda>init_data st.
      if \<not> init_data then Some (Ok (), st)
      else if PB_LTYPE ?f = PB_LTYPE_SUBMESSAGE then step_ok (Some (submessage ?f, st)) (\<lambda>t. call (Set_defaults t (it_data ?it)))
      else Some (case fd_ptr ?f of
          Default_value bs \<Rightarrow> if length bs < unat (fd_data_size ?f) then (Undef, st)
            else on_mem (store_bytes (it_data ?it) (take (unat (fd_data_size ?f)) bs)) st
        | Sub_fields _ \<Rightarrow> (Undef, st)
        | No_ptr \<Rightarrow> on_mem (store_bytes (it_data ?it) (replicate (unat (fd_data_size ?f)) 0)) st)))"
  proof (rule settles_seq [OF assms(4) r], goal_cases)
    case (1 init_data st1)
    show ?case
    proof (cases init_data)
      case True
      then have data: "cells b (k + field_off tab i) (unat (fd_data_size ?f)) \<subseteq> R" "0 < unat (fd_data_size ?f)"
        using static_data [OF assms(2) _ assms(3)] 1(2) by auto
      have st: "fine R (\<lambda>_ _. True) st1 (on_mem (store_bytes (it_data ?it) bs) st1)" if "length bs = unat (fd_data_size ?f)" for bs
        unfolding it_data_nat by (rule fine_true, rule fine_store [OF 1(4)]) (use that data in auto)
      show ?thesis
      proof (cases "PB_LTYPE ?f = PB_LTYPE_SUBMESSAGE")
        case sm: True
        obtain t where "submessage ?f = Ok t" "sub t (unat (fd_data_size ?f))" using submessage_static [OF f(3) sm] by blast
        then show ?thesis using sm True handlesD(1) [OF assms(1) _ data(1) 1(4) it_data_nat] by simp
      next
        case False
        have "fine R (\<lambda>_ _. True) st1 (case fd_ptr ?f of
          Default_value bs \<Rightarrow> if length bs < unat (fd_data_size ?f) then (Undef, st1)
            else on_mem (store_bytes (it_data ?it) (take (unat (fd_data_size ?f)) bs)) st1
        | Sub_fields _ \<Rightarrow> (Undef, st1)
        | No_ptr \<Rightarrow> on_mem (store_bytes (it_data ?it) (replicate (unat (fd_data_size ?f)) 0)) st1)"
          using f(3) False st by (auto simp: points_well_def simp del: it_at_simps split: field_ptr.splits)
        then show ?thesis using True False by (simp add: settles_Some)
      qed
    next
      case False
      then show ?thesis using 1(4) by (simp add: settles_Some fine_Ok)
    qed
  qed
  then show ?thesis unfolding pb_field_set_to_default_def r_def Let_def by (simp only: it_at_simps(4) f(1,2) if_True if_False simp_thms)
qed

text \<open>The loop over the fields of a message, for a function that settles on each of them.\<close>

lemma settles_each:
  assumes "wf_table tab n" "i < n" "ready R st"
    "\<And>i st. i < n \<Longrightarrow> ready R st \<Longrightarrow> settles env R (\<lambda>_ _. True) st (\<lambda>call. f call (it_at tab b (int k) i) st)"
    "\<And>it st call. perform env call (job it) st = step_ok (f call it st) (\<lambda>_. next_field job call it)"
  shows "settles env R (\<lambda>_ _. True) st (\<lambda>call. call (job (it_at tab b (int k) i)) st)"
  using assms(2,3)
proof (induction "n - i" arbitrary: i st)
  case (Suc d)
  show ?case
  proof (rule settles_call, unfold assms(5), rule settles_step [OF Suc.prems(2) assms(4) [OF Suc.prems]], goal_cases)
    case (1 _ st1)
    note nx = iter_next_at [OF assms(1) Suc.prems(1), of b "int k"]
    show ?case
    proof (cases "Suc i < n")
      case True
      have "d = n - Suc i" using Suc.hyps(2) by simp
      from Suc.hyps(1) [OF this True 1(3)] show ?thesis using nx True by (simp add: next_field_def)
    next
      case False
      then show ?thesis using nx 1(3) by (simp add: next_field_def settles_Some fine_Ok)
    qed
  qed
qed simp

lemma settles_set_defaults:
  assumes "handles env sub" "static_layout sub (ev_tables env t) n sz" "cells b k sz \<subseteq> R" "ready R st"
  shows "settles env R (\<lambda>_ _. True) st (\<lambda>call. call (Set_defaults t (Addr b (int k))) st)"
proof -
  let ?tab = "ev_tables env t"
  have wf: "wf_table ?tab n" "\<forall>i < n. static_field sub ?tab sz i" using assms(2) by (simp_all add: static_layout_def)
  have "settles env R (\<lambda>_ _. True) st (\<lambda>call. call (Default_fields (it_at ?tab b (int k) 0)) st)" if "0 < n"
  proof (rule settles_each [OF wf(1) that assms(4)])
    show "settles env R (\<lambda>_ _. True) st (\<lambda>call. pb_field_set_to_default call (it_at ?tab b (int k) i) st)" if "i < n" "ready R st" for i st
      using settles_default [OF assms(1) _ assms(3) that(2)] wf(2) that(1) by blast
  qed (simp add: default_fields_def)
  then show ?thesis using iter_begin_at [OF wf(1), of b "int k"] assms(4)
    by (intro settles_call) (cases "0 < n"; simp add: pb_message_set_to_defaults_def peek_def settles_Some fine_Ok)
qed

section \<open>Releasing\<close>

lemma settles_release_items:
  assumes "handles env sub" "sub t (unat ds)" "cells b k (unat count * unat ds) \<subseteq> R" "ready R st"
  shows "settles env R (\<lambda>_ _. True) st (\<lambda>call. call (Release_items t (Addr b (int k)) count ds) st)"
  using assms(3,4)
proof (induction "unat count" arbitrary: count k st)
  case 0
  then have "count = 0" by (simp add: unat_eq_zero)
  then show ?case using 0 by (intro settles_call) (simp add: release_items_def settles_Some fine_Ok)
next
  case (Suc c)
  have nz: "count \<noteq> 0" using Suc.hyps(2) by auto
  have c: "c = unat (count - 1)" using nz Suc.hyps(2) by (simp add: unat_minus_one)
  have sub1: "cells b k (unat ds) \<subseteq> R" "cells b (k + unat ds) (unat (count - 1) * unat ds) \<subseteq> R"
  proof -
    have n: "unat count * unat ds = unat ds + unat (count - 1) * unat ds" using c Suc.hyps(2) by (metis mult_Suc)
    have "cells b k (unat ds) \<subseteq> cells b k (unat count * unat ds)" "cells b (k + unat ds) (unat (count - 1) * unat ds) \<subseteq> cells b k (unat count * unat ds)"
      unfolding n by (rule cells_sub; simp)+
    then show "cells b k (unat ds) \<subseteq> R" "cells b (k + unat ds) (unat (count - 1) * unat ds) \<subseteq> R" using Suc.prems(1) by blast+
  qed
  have rel: "settles env R (\<lambda>_ _. True) st (\<lambda>call. call (Release t (Addr b (int k))) st)"
    using assms(1,2) sub1(1) Suc.prems(2) unfolding handles_def by blast
  have "settles env R (\<lambda>_ _. True) st (\<lambda>call. step_ok (call (Release t (Addr b (int k))) st) (\<lambda>_ st.
           step_ok (Some (peek (\<lambda>_. shift (Addr b (int k)) (int (unat ds))) st)) (\<lambda>pItem. call (Release_items t pItem (count - 1) ds))))"
  proof (rule settles_step [OF Suc.prems(2) rel], goal_cases)
    case (1 _ st1)
    then show ?case using Suc.hyps(1) [OF c sub1(2) 1(3)] by (simp add: peek_def shift_def)
  qed
  then show ?case using nz by (intro settles_call) (simp add: release_items_def)
qed

lemma fine_release_count:
  assumes "static_field sub tab sz i" "cells b k sz \<subseteq> R" "ready R st"
  shows "fine R (\<lambda>count st'. st' = st \<and> unat count * unat (fd_data_size (tab ! i)) \<le> prev_size (tab ! i)) st
    (peek (release_count (it_at tab b (int k) i)) st)"
proof -
  let ?it = "it_at tab b (int k) i" and ?f = "tab ! i"
  have a: "PB_ATYPE ?f = PB_ATYPE_STATIC" using assms(1) by (simp add: static_field_def)
  show ?thesis
  proof (cases "PB_HTYPE ?f = PB_HTYPE_REPEATED")
    case False
    then have "prev_size ?f = unat (fd_data_size ?f)" by (rule static_places(2) [OF assms(1)])
    then show ?thesis using False assms(3) by (simp add: release_count_def Let_def peek_def fine_Ok)
  next
    case True
    then have ps: "prev_size ?f = unat (fd_data_size ?f) * unat (fd_array_size ?f)" using a by (simp add: prev_size_def)
    have "\<exists>c. release_count ?it (snd st) = Ok c \<and> c \<le> fd_array_size ?f"
    proof (cases "it_size ?it = it_data ?it")
      case same: True
      then show ?thesis using True a unfolding release_count_def Let_def it_at_simps(4) by (simp del: it_at_simps)
    next
      case False
      obtain c where "load_u32 (it_size ?it) (snd st) = Ok c"
        using fine_counter(3) [OF assms] True by blast
      then show ?thesis using True a False unfolding release_count_def Let_def it_at_simps(4) by (auto simp: not_less simp del: it_at_simps)
    qed
    then obtain c where c: "release_count ?it (snd st) = Ok c" "unat c \<le> unat (fd_array_size ?f)" by (auto simp: word_le_nat_alt)
    then have "unat c * unat (fd_data_size ?f) \<le> prev_size ?f" unfolding ps by (simp add: mult.commute)
    then show ?thesis using c(1) assms(3) by (simp add: peek_def fine_Ok)
  qed
qed

lemma settles_release_single:
  assumes "handles env sub" "static_field sub tab sz i" "cells b k sz \<subseteq> R" "ready R st"
  shows "settles env R (\<lambda>_ _. True) st (\<lambda>call. pb_release_single_field call (it_at tab b (int k) i) st)"
proof -
  let ?it = "it_at tab b (int k) i" and ?f = "tab ! i"
  have f: "PB_ATYPE ?f = PB_ATYPE_STATIC" "PB_LTYPE ?f \<noteq> PB_LTYPE_EXTENSION" "points_well sub ?f" using assms(2) by (simp_all add: static_field_def)
  have g: "PB_ATYPE ?f \<noteq> PB_ATYPE_POINTER" "PB_ATYPE ?f \<noteq> PB_ATYPE_CALLBACK" "it_data ?it \<noteq> Null" using f(1) by simp_all
  have cur: "fine R (\<lambda>_ st'. st' = st) st
      (if PB_HTYPE ?f = PB_HTYPE_ONEOF then seq_ok (peek (load_u32 (it_size ?it)) st) (\<lambda>w st. (Ok (w = fd_tag ?f), st)) else (Ok True, st))"
    (is "fine R _ st ?cur")
  proof (cases "PB_HTYPE ?f = PB_HTYPE_ONEOF")
    case True
    show ?thesis unfolding if_P [OF True] by (rule fine_bind [OF assms(4) fine_counter(2) [OF assms(2-4)]]) (use True in \<open>auto intro: fine_Ok\<close>)
  qed (use assms(4) in \<open>simp add: fine_Ok\<close>)
  have items: "settles env R (\<lambda>_ _. True) st (\<lambda>call.
      if PB_LTYPE ?f = PB_LTYPE_SUBMESSAGE
      then step_ok (Some (peek (release_count ?it) st)) (\<lambda>count st.
           if count = 0 then Some (Ok (), st)
           else step_ok (Some (submessage ?f, st)) (\<lambda>t. call (Release_items t (it_data ?it) count (fd_data_size ?f))))
      else Some (Ok (), st))"
  proof (cases "PB_LTYPE ?f = PB_LTYPE_SUBMESSAGE")
    case True
    obtain t where t: "submessage ?f = Ok t" "sub t (unat (fd_data_size ?f))" using submessage_static [OF f(3) True] by blast
    have "settles env R (\<lambda>_ _. True) st (\<lambda>call. step_ok (Some (peek (release_count ?it) st)) (\<lambda>count st.
           if count = 0 then Some (Ok (), st)
           else step_ok (Some (submessage ?f, st)) (\<lambda>t. call (Release_items t (it_data ?it) count (fd_data_size ?f)))))"
    proof (rule settles_seq [OF assms(4) fine_release_count [OF assms(2-4)]], goal_cases)
      case (1 count st1)
      have "cells b (k + field_off tab i) (unat count * unat (fd_data_size ?f)) \<subseteq> cells b (k + field_off tab i) (prev_size ?f)"
        using 1(2) by (intro cells_sub) auto
      also have "\<dots> \<subseteq> R" using static_places(1) [OF assms(2), of b k] assms(3) by blast
      finally have "settles env R (\<lambda>_ _. True) st1 (\<lambda>call. call (Release_items t (it_data ?it) count (fd_data_size ?f)) st1)"
        unfolding it_data_nat by (rule settles_release_items [OF assms(1) t(2) _ 1(4)])
      then show ?case using 1(4) t(1) by (cases "count = 0") (simp_all add: settles_Some fine_Ok)
    qed
    then show ?thesis using True by simp
  next
    case False
    then show ?thesis using assms(4) by (simp add: settles_Some fine_Ok)
  qed
  have "pb_release_single_field call ?it st = step_ok (Some ?cur) (\<lambda>current st.
      if \<not> current then Some (Ok (), st)
      else step_ok (if PB_LTYPE ?f = PB_LTYPE_SUBMESSAGE
        then step_ok (Some (peek (release_count ?it) st)) (\<lambda>count st.
           if count = 0 then Some (Ok (), st)
           else step_ok (Some (submessage ?f, st)) (\<lambda>t. call (Release_items t (it_data ?it) count (fd_data_size ?f))))
        else Some (Ok (), st)) (\<lambda>_ st. Some (Ok (), st)))" for call
    unfolding pb_release_single_field_def Let_def by (simp only: it_at_simps(4) g f(2) if_False if_True simp_thms step_ok_simps)
  moreover have "settles env R (\<lambda>_ _. True) st (\<lambda>call. step_ok (Some ?cur) (\<lambda>current st.
      if \<not> current then Some (Ok (), st)
      else step_ok (if PB_LTYPE ?f = PB_LTYPE_SUBMESSAGE
        then step_ok (Some (peek (release_count ?it) st)) (\<lambda>count st.
           if count = 0 then Some (Ok (), st)
           else step_ok (Some (submessage ?f, st)) (\<lambda>t. call (Release_items t (it_data ?it) count (fd_data_size ?f))))
        else Some (Ok (), st)) (\<lambda>_ st. Some (Ok (), st))))"
  proof (rule settles_seq [OF assms(4) cur], goal_cases)
    case (1 current st1)
    show ?case
    proof (cases current)
      case True
      then show ?thesis unfolding 1(2) not_True_eq_False if_False
        by simp (rule settles_step [OF assms(4) items], simp add: settles_Some fine_Ok)
    next
      case False
      then show ?thesis using 1(4) by (simp add: settles_Some fine_Ok)
    qed
  qed
  ultimately show ?thesis by simp
qed

lemma settles_release:
  assumes "handles env sub" "static_layout sub (ev_tables env t) n sz" "cells b k sz \<subseteq> R" "ready R st"
  shows "settles env R (\<lambda>_ _. True) st (\<lambda>call. call (Release t (Addr b (int k))) st)"
proof -
  let ?tab = "ev_tables env t"
  have wf: "wf_table ?tab n" "\<forall>i < n. static_field sub ?tab sz i" using assms(2) by (simp_all add: static_layout_def)
  have "settles env R (\<lambda>_ _. True) st (\<lambda>call. call (Release_fields (it_at ?tab b (int k) 0)) st)" if "0 < n"
  proof (rule settles_each [OF wf(1) that assms(4)])
    show "settles env R (\<lambda>_ _. True) st (\<lambda>call. pb_release_single_field call (it_at ?tab b (int k) i) st)" if "i < n" "ready R st" for i st
      using settles_release_single [OF assms(1) _ assms(3) that(2)] wf(2) that(1) by blast
  qed (simp add: release_fields_def)
  then show ?thesis using iter_begin_at [OF wf(1), of b "int k"] assms(4)
    by (intro settles_call) (cases "0 < n"; simp add: pb_release_def peek_def settles_Some fine_Ok)
qed

end

end
