(* ===== verification/Pb_Static_Decode.thy ===== *)
theory Pb_Static_Decode
  imports Pb_Static_Safe
begin

text \<open>
  Decoding of one field and of all fields of a static table settles, and so does decoding a message whose submessages do.
\<close>

section \<open>Decoders\<close>

definition static_types :: "(nat \<Rightarrow> nat \<Rightarrow> bool) \<Rightarrow> pb_field \<Rightarrow> bool" where
  "static_types sub f \<longleftrightarrow> PB_ATYPE f = PB_ATYPE_STATIC \<and> PB_LTYPE f \<le> PB_LTYPE_FIXED_LENGTH_BYTES \<and> PB_LTYPE f \<noteq> PB_LTYPE_EXTENSION \<and>
     packable_fits f \<and> points_well sub f"

lemma above_packable:
  assumes "\<not> lt \<le> PB_LTYPE_LAST_PACKABLE" "lt \<le> PB_LTYPE_FIXED_LENGTH_BYTES" "lt \<noteq> PB_LTYPE_EXTENSION"
  shows "lt = PB_LTYPE_BYTES \<or> lt = PB_LTYPE_STRING \<or> lt = PB_LTYPE_SUBMESSAGE \<or> lt = PB_LTYPE_FIXED_LENGTH_BYTES"
proof -
  have "5 < unat lt" "unat lt \<le> 10" "unat lt \<noteq> 9" using assms by (simp_all add: word_le_nat_alt word_unat_eq_iff)
  then have "unat lt = 6 \<or> unat lt = 7 \<or> unat lt = 8 \<or> unat lt = 10" by linarith
  then show ?thesis by (simp add: word_unat_eq_iff)
qed

context pb_source begin

lemma settles_map:
  assumes "settles env R Q st body" "\<And>r. fine R Q st r \<Longrightarrow> fine S P st1 (g r)"
  shows "settles env S P st1 (\<lambda>call. map_option g (body call))"
proof -
  obtain r where r: "\<forall>\<^sub>F n in sequentially. body (run n env) = Some r" "fine R Q st r" using assms(1) by (auto simp: settles_def)
  have "\<forall>\<^sub>F n in sequentially. map_option g (body (run n env)) = Some (g r)" using r(1) by eventually_elim simp
  then show ?thesis using assms(2) [OF r(2)] unfolding settles_def by blast
qed

lemma settles_decoders:
  assumes "handles env sub" "static_types sub f" "cells b k (unat (fd_data_size f)) \<subseteq> R" "ready R st"
  shows "settles env R (\<lambda>_ _. True) st (\<lambda>call. PB_DECODERS call f (Addr b (int k)) st)"
proof -
  have f: "PB_ATYPE f = PB_ATYPE_STATIC" "PB_LTYPE f \<le> PB_LTYPE_FIXED_LENGTH_BYTES" "PB_LTYPE f \<noteq> PB_LTYPE_EXTENSION" "packable_fits f"
    "points_well sub f" "0 < unat (fd_data_size f)" using assms(2) by (simp_all add: static_types_def packable_fits_def)
  show ?thesis
  proof (cases "PB_LTYPE f \<le> PB_LTYPE_LAST_PACKABLE")
    case True
    then show ?thesis using fine_true [OF fine_dec_packable [OF assms(4,3) f(4) True]] by (simp add: PB_DECODERS_def settles_Some)
  next
    case False
    from above_packable [OF False f(2,3)] consider "PB_LTYPE f = PB_LTYPE_BYTES" | "PB_LTYPE f = PB_LTYPE_STRING" |
      "PB_LTYPE f = PB_LTYPE_SUBMESSAGE" | "PB_LTYPE f = PB_LTYPE_FIXED_LENGTH_BYTES" by blast
    then show ?thesis
    proof cases
      case 1
      then show ?thesis using fine_dec_bytes [OF assms(4,3) f(1)] by (simp add: PB_DECODERS_def settles_Some)
    next
      case 2
      then show ?thesis using fine_dec_string [OF assms(4,3) f(1)] by (simp add: PB_DECODERS_def settles_Some)
    next
      case 3
      obtain t where t: "fd_ptr f = Sub_fields t" "submessage f = Ok t" "sub t (unat (fd_data_size f))" using submessage_static [OF f(5) 3] by blast
      have "settles env R (\<lambda>_ _. True) st (\<lambda>call. pb_dec_submessage call f (Addr b (int k)) st)"
        unfolding pb_dec_submessage_def
      proof (rule settles_substream [OF assms(4)], goal_cases)
        case (1 s1 s')
        have "settles env R (\<lambda>_ _. True) (fst st, snd st) (\<lambda>call. map_option (close_after s')
            (call (Decode_message (PB_HTYPE f = PB_HTYPE_REPEATED) t (Addr b (int k))) (s1, snd st)))"
          by (rule settles_map [OF handlesD(3) [OF assms(1) t(3) assms(3) 1(2) refl]]) (rule fine_close [OF 1(1)])
        then show ?case using t by simp
      qed
      then show ?thesis using 3 by (simp add: PB_DECODERS_def)
    next
      case 4
      then show ?thesis using fine_dec_fixed_length [OF assms(4,3) f(6)] by (simp add: PB_DECODERS_def settles_Some)
    qed
  qed
qed

end

section \<open>Static fields\<close>

text \<open>Where the pointers of an iterator point.\<close>

definition counts_in :: "region \<Rightarrow> addr \<Rightarrow> bool" where
  "counts_in R a \<longleftrightarrow> (\<exists>c k. a = Addr c (int k) \<and> cells c k 4 \<subseteq> R)"

definition placed :: "(nat \<Rightarrow> nat \<Rightarrow> bool) \<Rightarrow> region \<Rightarrow> pb_field_iter \<Rightarrow> bool" where
  "placed sub R it \<longleftrightarrow> static_types sub (it_field it) \<and> prev_size (it_field it) < 2 ^ 32 \<and>
     (\<exists>b k. it_data it = Addr b (int k) \<and> cells b k (prev_size (it_field it)) \<subseteq> R) \<and>
     (PB_HTYPE (it_field it) = PB_HTYPE_OPTIONAL \<and> it_size it \<noteq> it_data it \<longrightarrow> (\<exists>c k. it_size it = Addr c (int k) \<and> cells c k 1 \<subseteq> R)) \<and>
     (PB_HTYPE (it_field it) = PB_HTYPE_REPEATED \<or> PB_HTYPE (it_field it) = PB_HTYPE_ONEOF \<longrightarrow> counts_in R (it_size it))"

lemma good_iter_placed:
  assumes "static_layout sub tab n sz" "good_iter tab n b k loc it" "0 < n" "cells b k sz \<union> cells loc 0 4 \<subseteq> R"
  shows "placed sub R it"
proof -
  obtain i where i: "i < n" "it = it_at tab b (int k) i \<or> fixed_count tab i \<and> it = (it_at tab b (int k) i)\<lparr>it_size := Addr loc 0\<rparr>"
    using assms(2,3) unfolding good_iter_def by blast
  have s: "static_field sub tab sz i" "sz < 2 ^ 32" using assms(1) i(1) by (simp_all add: static_layout_def)
  then have t: "static_types sub (tab ! i)" "prev_size (tab ! i) < 2 ^ 32" by (simp_all add: static_field_def static_types_def)
  have f: "it_field it = tab ! i" "it_data it = Addr b (int (k + field_off tab i))" using i(2) by (auto simp: it_field_def it_at_def)
  have data: "cells b (k + field_off tab i) (prev_size (tab ! i)) \<subseteq> R" using static_places(1) [OF s(1), of b k] assms(4) by blast
  have loc: "counts_in R (Addr loc 0)" using assms(4) unfolding counts_in_def by (intro exI [of _ loc] exI [of _ 0]) simp
  have cnt: "counts_in R (it_size it)" if h: "PB_HTYPE (tab ! i) = PB_HTYPE_REPEATED \<or> PB_HTYPE (tab ! i) = PB_HTYPE_ONEOF"
  proof (cases "it = it_at tab b (int k) i")
    case True
    have z: "0 \<le> size_off tab i \<and> cells b (k + nat (size_off tab i)) 4 \<subseteq> cells b k sz" by (rule static_places(3) [OF s(1) h])
    then show ?thesis using it_size_nat [of tab i b k] assms(4) True unfolding counts_in_def by blast
  next
    case False
    then show ?thesis using i(2) loc by auto
  qed
  have has: "\<exists>c l. it_size it = Addr c (int l) \<and> cells c l 1 \<subseteq> R"
    if h: "PB_HTYPE (tab ! i) = PB_HTYPE_OPTIONAL" "it_size it \<noteq> it_data it"
  proof -
    have it: "it = it_at tab b (int k) i" using i(2) h(1) by (auto simp: fixed_count_def)
    have z: "0 \<le> size_off tab i \<and> cells b (k + nat (size_off tab i)) 1 \<subseteq> cells b k sz" using static_places(4) [OF s(1) h(1)] h(2) it by simp
    then show ?thesis using it_size_nat [of tab i b k] assms(4) it by blast
  qed
  show ?thesis unfolding placed_def f(1) using t f(2) data cnt has by blast
qed

context pb_source begin

lemma fine_counts:
  assumes "counts_in R a" "ready R st"
  shows "fine R (\<lambda>_ st'. st' = st) st (peek (load_u32 a) st)" "fine R (\<lambda>_ st'. fst st' = fst st) st (on_mem (store_u32 a v) st)"
proof -
  obtain c k where a: "a = Addr c (int k)" "cells c k 4 \<subseteq> R" using assms(1) by (auto simp: counts_in_def)
  show "fine R (\<lambda>_ st'. st' = st) st (peek (load_u32 a) st)" "fine R (\<lambda>_ st'. fst st' = fst st) st (on_mem (store_u32 a v) st)"
    unfolding a(1) by (rule fine_load_u32 [OF assms(2) a(2)], rule fine_store_u32 [OF assms(2) a(2)])
qed

lemma fine_incr: "counts_in R a \<Longrightarrow> ready R st \<Longrightarrow> fine R (\<lambda>_ st'. fst st' = fst st) st (incr_u32 a st)"
  unfolding incr_u32_def by (rule fine_bind [OF _ fine_counts(1)]) (auto intro: fine_counts(2))

text \<open>The entry of an array: the product of 32 bits does not wrap.\<close>

lemma array_entry:
  fixes ds n len :: u32
  assumes "unat ds * unat len < 2 ^ 32" "n < len" "cells b k (unat ds * unat len) \<subseteq> R"
  shows "int k + int (unat (ds * n)) = int (k + unat ds * unat n)" "cells b (k + unat ds * unat n) (unat ds) \<subseteq> R"
proof -
  have n: "Suc (unat n) \<le> unat len" using assms(2) by (simp add: word_less_nat_alt)
  then have le: "unat ds * unat n + unat ds \<le> unat ds * unat len" by (metis mult_Suc_right add.commute mult_le_mono2)
  then have "unat ds * unat n < 2 ^ 32" using assms(1) by linarith
  then have "unat (ds * n) = unat ds * unat n" by (simp add: unat_word_ariths)
  then show "int k + int (unat (ds * n)) = int (k + unat ds * unat n)" by simp
  have "cells b (k + unat ds * unat n) (unat ds) \<subseteq> cells b k (unat ds * unat len)" by (rule cells_sub) (use le in auto)
  then show "cells b (k + unat ds * unat n) (unat ds) \<subseteq> R" using assms(3) by blast
qed

lemma placed_array:
  assumes "placed sub R it" "PB_HTYPE (it_field it) = PB_HTYPE_REPEATED"
  obtains b k where "it_data it = Addr b (int k)" "cells b k (unat (fd_data_size (it_field it)) * unat (fd_array_size (it_field it))) \<subseteq> R"
    "unat (fd_data_size (it_field it)) * unat (fd_array_size (it_field it)) < 2 ^ 32"
  using assms by (auto simp: placed_def static_types_def prev_size_def)

lemma static_items_returns:
  assumes "placed sub R it" "PB_HTYPE (it_field it) = PB_HTYPE_REPEATED" "PB_LTYPE (it_field it) \<le> PB_LTYPE_LAST_PACKABLE" "ready R st"
  shows "\<exists>r. static_items it st = Some r \<and> fine R (\<lambda>_ _. True) st r"
  using assms(4)
proof (induction "bytes_left (fst st)" arbitrary: st rule: less_induct)
  case less
  let ?f = "it_field it"
  obtain b k where d: "it_data it = Addr b (int k)" "cells b k (unat (fd_data_size ?f) * unat (fd_array_size ?f)) \<subseteq> R"
    "unat (fd_data_size ?f) * unat (fd_array_size ?f) < 2 ^ 32" using placed_array [OF assms(1,2)] by blast
  have cnt: "counts_in R (it_size it)" and fits: "packable_fits ?f" using assms(1,2) by (simp_all add: placed_def static_types_def)
  show ?case
  proof (cases "bytes_left (fst st) = 0")
    case True
    then show ?thesis using less.prems by (subst static_items.simps) (simp add: fine_Ok)
  next
    case False
    obtain n where n: "peek (load_u32 (it_size it)) st = (Ok n, st)"
      using cnt less.prems load_u32_live [of R "snd st"] unfolding counts_in_def ready_def peek_def by metis
    show ?thesis
    proof (cases "n < fd_array_size ?f")
      case no: False
      then show ?thesis using less.prems n False by (subst static_items.simps) (simp add: fine_Ok)
    next
      case True
      note e = array_entry [OF d(3) True d(2)]
      let ?a = "Addr b (int (k + unat (fd_data_size ?f) * unat n))"
      have unf: "static_items it st = step_ok (Some (dec_packable ?f ?a st)) (\<lambda>_ st. step_ok (Some (incr_u32 (it_size it) st)) (\<lambda>_. static_items it))"
        using False True n by (subst static_items.simps) (simp only: d(1) if_False if_True step_ok_simps peek_def shift_def addr.case e(1) simp_thms)
      have p: "fine R (\<lambda>_ st'. bytes_left (fst st') < bytes_left (fst st)) st (dec_packable ?f ?a st)"
        by (rule fine_dec_packable [OF less.prems e(2) fits assms(3)])
      obtain x st1 where x: "dec_packable ?f ?a st = (x, st1)" by (rule prod.exhaust)
      have m1: "x \<noteq> Undef" "moves R st st1" "ready R st1" "\<And>v. x = Ok v \<Longrightarrow> bytes_left (fst st1) < bytes_left (fst st)"
        using p x less.prems by (auto simp: fine_def intro: ready_moves)
      show ?thesis
      proof (cases x)
        case (Ok v)
        obtain y st2 where y: "incr_u32 (it_size it) st1 = (y, st2)" by (rule prod.exhaust)
        have m2: "y \<noteq> Undef" "moves R st1 st2" "ready R st2" "\<And>v. y = Ok v \<Longrightarrow> fst st2 = fst st1"
          using fine_incr [OF cnt m1(3)] y m1(3) by (auto simp: fine_def intro: ready_moves)
        show ?thesis
        proof (cases y)
          case yok: (Ok w)
          have "bytes_left (fst st2) < bytes_left (fst st)" using m1(4) [OF Ok] m2(4) [OF yok] by simp
          from less.hyps [OF this m2(3)] obtain r where r: "static_items it st2 = Some r" "fine R (\<lambda>_ _. True) st2 r" by blast
          have "fine R (\<lambda>_ _. True) st r" by (rule fine_then [OF m1(2) fine_then [OF m2(2) r(2)]])
          then show ?thesis using unf x y Ok yok r(1) by simp
        qed (use unf x y Ok m1 m2 in \<open>auto simp: fine_def intro: moves_trans\<close>)
      qed (use unf x m1 in \<open>auto simp: fine_def\<close>)
    qed
  qed
qed

lemma settles_static_packed:
  assumes "placed sub R it" "PB_HTYPE (it_field it) = PB_HTYPE_REPEATED" "PB_LTYPE (it_field it) \<le> PB_LTYPE_LAST_PACKABLE" "ready R st"
  shows "settles env R (\<lambda>_ _. True) st (\<lambda>_. decode_static_packed it st)"
  unfolding decode_static_packed_def
proof (rule settles_substream [OF assms(4)], goal_cases)
  case (1 s1 s')
  obtain r where r: "static_items it (s1, snd st) = Some r" "fine R (\<lambda>_ _. True) (s1, snd st) r"
    using static_items_returns [OF assms(1-3) 1(2)] by blast
  obtain x s2 m2 where x: "r = (x, s2, m2)" by (metis prod.exhaust)
  have "x \<noteq> Undef" "only R (snd st) m2" using r(2) x by (simp_all add: fine_def moves_def)
  then show ?case using r x fine_close [OF 1(1) r(2)] fine_parent_error [OF 1(1), of R "snd st" m2]
    by (cases x) (auto intro!: settles_Some)
qed

lemma placed_single:
  assumes "placed sub R it" "PB_HTYPE (it_field it) \<noteq> PB_HTYPE_REPEATED"
  obtains b k where "it_data it = Addr b (int k)" "cells b k (unat (fd_data_size (it_field it))) \<subseteq> R"
  using assms by (auto simp: placed_def static_types_def prev_size_def)

lemma settles_decode_single:
  assumes "handles env sub" "placed sub R it" "PB_HTYPE (it_field it) \<noteq> PB_HTYPE_REPEATED" "ready R st"
  shows "settles env R (\<lambda>_ _. True) st (\<lambda>call. PB_DECODERS call (it_field it) (it_data it) st)"
proof -
  obtain b k where d: "it_data it = Addr b (int k)" "cells b k (unat (fd_data_size (it_field it))) \<subseteq> R" using placed_single [OF assms(2,3)] by blast
  have t: "static_types sub (it_field it)" using assms(2) by (simp add: placed_def)
  show ?thesis unfolding d(1) by (rule settles_decoders [OF assms(1) t d(2) assms(4)])
qed

lemma settles_optional:
  assumes "handles env sub" "placed sub R it" "PB_HTYPE (it_field it) = PB_HTYPE_OPTIONAL" "ready R st"
  shows "settles env R (\<lambda>_ _. True) st (\<lambda>call.
    step_ok (Some (if it_size it \<noteq> it_data it then on_mem (store_bytes (it_size it) [1]) st else (Ok (), st))) (\<lambda>_. PB_DECODERS call (it_field it) (it_data it)))"
proof (rule settles_seq [OF assms(4), where P = "\<lambda>_ _. True"], goal_cases)
  case 1
  show ?case
  proof (cases "it_size it = it_data it")
    case False
    then obtain c k where z: "it_size it = Addr c (int k)" "cells c k 1 \<subseteq> R" using assms(2,3) unfolding placed_def by blast
    have "fine R (\<lambda>_ st'. fst st' = fst st) st (on_mem (store_bytes (Addr c (int k)) [1]) st)" by (rule fine_store [OF assms(4)]) (use z(2) in auto)
    from fine_true [OF this] show ?thesis unfolding z(1) using False z(1) by simp
  qed (use assms(4) in \<open>simp add: fine_Ok\<close>)
next
  case (2 a st1)
  show ?case by (rule settles_decode_single [OF assms(1,2) _ 2(4)]) (simp add: assms(3))
qed

lemma settles_repeated:
  assumes "handles env sub" "placed sub R it" "PB_HTYPE (it_field it) = PB_HTYPE_REPEATED" "ready R st"
  shows "settles env R (\<lambda>_ _. True) st (\<lambda>call. step_ok (Some (peek (load_u32 (it_size it)) st)) (\<lambda>n st.
     step_ok (Some (peek (\<lambda>_. shift (it_data it) (int (unat (fd_data_size (it_field it) * n)))) st)) (\<lambda>pItem st.
     step_ok (Some (on_mem (store_u32 (it_size it) (n + 1)) st)) (\<lambda>_ st.
     if fd_array_size (it_field it) \<le> n then Some (field_error ''array overflow'' st) else PB_DECODERS call (it_field it) pItem st))))"
proof -
  let ?f = "it_field it"
  obtain b k where d: "it_data it = Addr b (int k)" "cells b k (unat (fd_data_size ?f) * unat (fd_array_size ?f)) \<subseteq> R"
    "unat (fd_data_size ?f) * unat (fd_array_size ?f) < 2 ^ 32" using placed_array [OF assms(2,3)] by blast
  have cnt: "counts_in R (it_size it)" and t: "static_types sub ?f" using assms(2,3) by (simp_all add: placed_def)
  show ?thesis
  proof (rule settles_seq [OF assms(4) fine_counts(1) [OF cnt assms(4)]], goal_cases)
    case (1 n st1)
    have "settles env R (\<lambda>_ _. True) st1 (\<lambda>call. step_ok (Some (on_mem (store_u32 (it_size it) (n + 1)) st1)) (\<lambda>_ st.
       if fd_array_size ?f \<le> n then Some (field_error ''array overflow'' st) else PB_DECODERS call ?f (Addr b (int k + int (unat (fd_data_size ?f * n)))) st))"
    proof (rule settles_seq [OF 1(4) fine_counts(2) [OF cnt 1(4)]], goal_cases)
      case s: (1 a st2)
      show ?case
      proof (cases "fd_array_size ?f \<le> n")
        case True
        then show ?thesis using s(4) by (simp add: settles_Some fine_error)
      next
        case False
        then have n: "n < fd_array_size ?f" by simp
        show ?thesis unfolding array_entry(1) [OF d(3) n d(2)] if_not_P [OF False]
          by (rule settles_decoders [OF assms(1) t array_entry(2) [OF d(3) n d(2)] s(4)])
      qed
    qed
    then show ?case by (simp only: d(1) peek_def shift_def addr.case step_ok_simps)
  qed
qed

lemma settles_union:
  assumes "handles env sub" "placed sub R it" "PB_HTYPE (it_field it) = PB_HTYPE_ONEOF" "ready R st"
  shows "settles env R (\<lambda>_ _. True) st (\<lambda>call.
    step_ok (Some (if PB_LTYPE (it_field it) = PB_LTYPE_SUBMESSAGE then seq_ok (peek (load_u32 (it_size it)) st) (\<lambda>w st. (Ok (w \<noteq> fd_tag (it_field it)), st)) else (Ok False, st))) (\<lambda>fresh st.
    step_ok
      (if fresh
       then step_ok (Some (on_mem (store_bytes (it_data it) (replicate (unat (fd_data_size (it_field it))) 0)) st)) (\<lambda>_ st.
            step_ok (Some (submessage (it_field it), st)) (\<lambda>t. call (Set_defaults t (it_data it))))
       else Some (Ok (), st)) (\<lambda>_ st.
    step_ok (Some (on_mem (store_u32 (it_size it) (fd_tag (it_field it))) st)) (\<lambda>_. PB_DECODERS call (it_field it) (it_data it)))))"
proof -
  let ?f = "it_field it"
  have nr: "PB_HTYPE ?f \<noteq> PB_HTYPE_REPEATED" using assms(3) by simp
  obtain b k where d: "it_data it = Addr b (int k)" "cells b k (unat (fd_data_size ?f)) \<subseteq> R" using placed_single [OF assms(2) nr] by blast
  have cnt: "counts_in R (it_size it)" and t: "points_well sub ?f" "0 < unat (fd_data_size ?f)"
    using assms(2,3) by (simp_all add: placed_def static_types_def packable_fits_def)
  show ?thesis
  proof (rule settles_seq [OF assms(4), where P = "\<lambda>fresh _. fresh \<longrightarrow> PB_LTYPE ?f = PB_LTYPE_SUBMESSAGE"], goal_cases)
    case 1
    have "fine R (\<lambda>_ _. True) st (seq_ok (peek (load_u32 (it_size it)) st) (\<lambda>w st. (Ok (w \<noteq> fd_tag ?f), st)))"
      by (rule fine_bind [OF assms(4) fine_counts(1) [OF cnt assms(4)]]) (auto intro: fine_Ok)
    then show ?case using assms(4) by (auto simp: fine_Ok intro: fine_mono)
  next
    case (2 fresh st1)
    show ?case
    proof (rule settles_step [OF 2(4), where P = "\<lambda>_ _. True"], goal_cases)
      case 1
      show ?case
      proof (cases fresh)
        case True
        obtain t' where t': "submessage ?f = Ok t'" "sub t' (unat (fd_data_size ?f))" using submessage_static [OF t(1)] 2(2) True by blast
        have z: "fine R (\<lambda>_ st'. fst st' = fst st1) st1 (on_mem (store_bytes (Addr b (int k)) (replicate (unat (fd_data_size ?f)) 0)) st1)"
          by (rule fine_store [OF 2(4)]) (use d(2) t(2) in auto)
        have "settles env R (\<lambda>_ _. True) st1 (\<lambda>call. step_ok (Some (on_mem (store_bytes (Addr b (int k)) (replicate (unat (fd_data_size ?f)) 0)) st1)) (\<lambda>_.
            call (Set_defaults t' (Addr b (int k)))))"
          by (rule settles_seq [OF 2(4) z]) (rule handlesD(1) [OF assms(1) t'(2) d(2) _ refl])
        then show ?thesis using True by (simp only: d(1) t'(1) step_ok_simps if_True)
      next
        case False
        then show ?thesis using 2(4) by (simp add: settles_Some fine_Ok)
      qed
    next
      case s: (2 a st2)
      show ?case
        by (rule settles_seq [OF s(3) fine_counts(2) [OF cnt s(3)]]) (rule settles_decode_single [OF assms(1,2) nr])
    qed
  qed
qed

end

lemma PB_HTYPE_cases: "PB_HTYPE f = PB_HTYPE_REQUIRED \<or> PB_HTYPE f = PB_HTYPE_OPTIONAL \<or> PB_HTYPE f = PB_HTYPE_REPEATED \<or> PB_HTYPE f = PB_HTYPE_ONEOF"
proof -
  have "\<forall>d \<in> set [0..<256]. (of_nat d :: byte) AND 0x30 = 0 \<or> (of_nat d :: byte) AND 0x30 = 0x10 \<or> (of_nat d :: byte) AND 0x30 = 0x20 \<or> (of_nat d :: byte) AND 0x30 = 0x30"
    by code_simp
  from all_below [OF this byte_lt_256 [of "fd_type f"]] show ?thesis by (simp add: PB_HTYPE_def)
qed

context pb_source begin

lemma settles_static_field:
  assumes "handles env sub" "placed sub R it" "ready R st"
  shows "settles env R (\<lambda>_ _. True) st (\<lambda>call. decode_static_field call wire_type it st)"
proof -
  let ?f = "it_field it"
  have lt: "\<not> PB_LTYPE_FIXED_LENGTH_BYTES < PB_LTYPE ?f" using assms(2) by (simp add: placed_def static_types_def not_less)
  consider "PB_HTYPE ?f = PB_HTYPE_REQUIRED" | "PB_HTYPE ?f = PB_HTYPE_OPTIONAL" | "PB_HTYPE ?f = PB_HTYPE_REPEATED" | "PB_HTYPE ?f = PB_HTYPE_ONEOF"
    using PB_HTYPE_cases [of ?f] by blast
  then show ?thesis
  proof cases
    case 1
    show ?thesis unfolding decode_static_field_def Let_def if_not_P [OF lt] if_P [OF 1]
      by (rule settles_decode_single [OF assms(1,2) _ assms(3)]) (simp add: 1)
  next
    case 2
    then have n: "PB_HTYPE ?f \<noteq> PB_HTYPE_REQUIRED" by simp
    show ?thesis unfolding decode_static_field_def Let_def if_not_P [OF lt] if_not_P [OF n] if_P [OF 2]
      by (rule settles_optional [OF assms(1,2) 2 assms(3)])
  next
    case 3
    then have n: "PB_HTYPE ?f \<noteq> PB_HTYPE_REQUIRED" "PB_HTYPE ?f \<noteq> PB_HTYPE_OPTIONAL" by simp_all
    show ?thesis
    proof (cases "wire_type = PB_WT_STRING \<and> PB_LTYPE ?f \<le> PB_LTYPE_LAST_PACKABLE")
      case True
      show ?thesis unfolding decode_static_field_def Let_def if_not_P [OF lt] if_not_P [OF n(1)] if_not_P [OF n(2)] if_P [OF 3] if_P [OF True]
        by (rule settles_static_packed [OF assms(2) 3 _ assms(3)]) (simp add: True)
    next
      case False
      show ?thesis unfolding decode_static_field_def Let_def if_not_P [OF lt] if_not_P [OF n(1)] if_not_P [OF n(2)] if_P [OF 3] if_not_P [OF False]
        by (rule settles_repeated [OF assms(1,2) 3 assms(3)])
    qed
  next
    case 4
    then have n: "PB_HTYPE ?f \<noteq> PB_HTYPE_REQUIRED" "PB_HTYPE ?f \<noteq> PB_HTYPE_OPTIONAL" "PB_HTYPE ?f \<noteq> PB_HTYPE_REPEATED" by simp_all
    show ?thesis unfolding decode_static_field_def Let_def if_not_P [OF lt] if_not_P [OF n(1)] if_not_P [OF n(2)] if_not_P [OF n(3)]
      by (rule settles_union [OF assms(1,2) 4 assms(3)])
  qed
qed

end

end
