(* ===== verification/Pb_Static_Message.thy ===== *)
theory Pb_Static_Message
  imports Pb_Static_Decode
begin

text \<open>
  The loop over the fields of a static message settles, hence so does decoding a message, by induction on the depth of its
  submessages.
\<close>

section \<open>One field\<close>

lemma find_plain:
  assumes "wf_table tab n" "i < n"
  obtains found j where "j < n" "pb_field_iter_find (it_at tab b k i) tag = Some (Ok (found, it_at tab b k j))"
proof (cases "\<exists>j < n. wanted_field tag (tab ! j)")
  case True
  then show thesis using that [OF first_from(1) [OF assms(2) True]] find_loop_exact [OF assms, of "wanted_field tag" b k] by (simp add: pb_field_iter_find_def)
next
  case False
  have "pb_field_iter_find (it_at tab b k i) tag = Some (Ok (False, it_at tab b k i))"
    using find_loop_exact [OF assms, of "wanted_field tag" b k] unfolding if_not_P [OF False] by (simp add: pb_field_iter_find_def)
  then show thesis by (rule that [OF assms(2)])
qed

lemma good_iter_plain: "i < n \<Longrightarrow> good_iter tab n b k loc (it_at tab b (int k) i)"
  unfolding good_iter_def by blast

lemma good_iter_oneof:
  assumes "good_iter tab n b k loc it" "0 < n" "PB_HTYPE (it_field it) = PB_HTYPE_ONEOF"
  obtains i where "i < n" "it = it_at tab b (int k) i"
proof -
  obtain i where i: "i < n" "it = it_at tab b (int k) i \<or> fixed_count tab i \<and> it = (it_at tab b (int k) i)\<lparr>it_size := Addr loc 0\<rparr>"
    using assms(1,2) unfolding good_iter_def by blast
  have "it_field it = tab ! i" using i(2) by (auto simp: it_field_def it_at_def)
  then have "\<not> fixed_count tab i" using assms(3) by (simp add: fixed_count_def)
  then show thesis using that i by blast
qed

context pb_source begin

lemma settles_then: "moves R st st1 \<Longrightarrow> settles env R Q st1 body \<Longrightarrow> settles env R Q st body"
  unfolding settles_def by (blast intro: fine_then)

lemma settles_bind:
  assumes "settles env R Q st body" "\<And>r. fine R Q st r \<Longrightarrow> settles env S P st1 (\<lambda>call. k call r)"
  shows "settles env S P st1 (\<lambda>call. Option.bind (body call) (k call))"
proof -
  obtain r where r: "\<forall>\<^sub>F n in sequentially. body (run n env) = Some r" "fine R Q st r" using assms(1) by (auto simp: settles_def)
  obtain q where q: "\<forall>\<^sub>F n in sequentially. k (run n env) r = Some q" "fine S P st1 q" using assms(2) [OF r(2)] by (auto simp: settles_def)
  have "\<forall>\<^sub>F n in sequentially. Option.bind (body (run n env)) (k (run n env)) = Some q" using r(1) q(1) by eventually_elim simp
  then show ?thesis using q(2) unfolding settles_def by blast
qed

lemma settles_release_union:
  assumes "handles env sub" "static_layout sub tab n sz" "i < n" "cells b k sz \<subseteq> R" "ready R st" "PB_HTYPE (tab ! i) = PB_HTYPE_ONEOF"
  shows "settles env R (\<lambda>it' _. \<exists>j < n. it' = it_at tab b (int k) j) st (\<lambda>call. pb_release_union_field call (it_at tab b (int k) i) st)"
proof -
  let ?it = "it_at tab b (int k) i" and ?Q = "\<lambda>it' (_ :: 'u dst). \<exists>j < n. it' = it_at tab b (int k) j"
  have wf: "wf_table tab n" "\<forall>i < n. static_field sub tab sz i" using assms(2) by (simp_all add: static_layout_def)
  have sf: "static_field sub tab sz i" using wf(2) assms(3) by blast
  have q: "settles env R ?Q st1 (\<lambda>call. Some (Ok (it_at tab b (int k) j), st1))" if "ready R st1" "j < n" for st1 j
    by (intro settles_Some fine_Ok) (use that in auto)
  show ?thesis unfolding pb_release_union_field_def Let_def it_at_simps(4)
  proof (rule settles_seq [OF assms(5) fine_counter(2) [OF sf assms(4,5)]], goal_cases)
    case 1
    then show ?case using assms(6) by simp
  next
    case (2 old_tag st1)
    show ?case
    proof (cases "old_tag = 0 \<or> old_tag = fd_tag (tab ! i)")
      case True
      then show ?thesis using q [OF 2(4) assms(3)] by simp
    next
      case False
      obtain found j where j: "j < n" "pb_field_iter_find ?it old_tag = Some (Ok (found, it_at tab b (int k) j))" using find_plain [OF wf(1) assms(3)] by blast
      have sj: "static_field sub tab sz j" using wf(2) j(1) by blast
      obtain found' l where l: "l < n" "pb_field_iter_find (it_at tab b (int k) j) (fd_tag (tab ! i)) = Some (Ok (found', it_at tab b (int k) l))"
        using find_plain [OF wf(1) j(1)] by blast
      have la: "PB_ATYPE (tab ! l) \<noteq> PB_ATYPE_POINTER" using wf(2) l(1) by (simp add: static_field_def)
      have "settles env R ?Q st1 (\<lambda>call. step_ok (pb_release_single_field call (it_at tab b (int k) j) st1) (\<lambda>_ st.
          if \<not> found' then Some (field_error ''iterator error'' st)
          else Some (if PB_ATYPE (it_field (it_at tab b (int k) l)) = PB_ATYPE_POINTER
            then seq_ok (on_mem (store_ptr (it_data (it_at tab b (int k) l)) Null) st) (\<lambda>_ st. (Ok (it_at tab b (int k) l), st))
            else (Ok (it_at tab b (int k) l), st))))"
      proof (rule settles_step [OF 2(4) settles_release_single [OF assms(1) sj assms(4) 2(4)]], goal_cases)
        case (1 a st2)
        then show ?case using q [OF 1(3) l(1)] la by (cases found') (simp_all add: settles_Some fine_error)
      qed
      then show ?thesis using False j(2) l(2) by (cases found) (simp_all add: settles_Some fine_error [OF 2(4)])
    qed
  qed
qed

lemma settles_decode_field:
  assumes "handles env sub" "static_layout sub tab n sz" "good_iter tab n b k loc it" "cells b k sz \<union> cells loc 0 4 \<subseteq> R" "ready R st"
  shows "settles env R (\<lambda>it' _. good_iter tab n b k loc it') st (\<lambda>call. decode_field env call wire_type it st)"
proof -
  let ?Q = "\<lambda>it' (_ :: 'u dst). good_iter tab n b k loc it'"
  have static: "settles env R ?Q st1 (\<lambda>call. step_ok (decode_static_field call wire_type it1 st1) (\<lambda>_ st. Some (Ok it1, st)))"
    if "good_iter tab n b k loc it1" "0 < n" "ready R st1" for it1 st1
    by (rule settles_step [OF that(3) settles_static_field [OF assms(1) good_iter_placed [OF assms(2) that(1,2) assms(4)] that(3)]])
      (use that(1) in \<open>auto intro: settles_Some fine_Ok\<close>)
  have atype: "PB_ATYPE (it_field it1) = PB_ATYPE_STATIC" if "good_iter tab n b k loc it1" "0 < n" for it1
    using good_iter_placed [OF assms(2) that assms(4)] by (simp add: placed_def static_types_def)
  show ?thesis
  proof (cases "n = 0")
    case True
    then have it: "it = it_at tab b (int k) 0" "tab ! 0 = PB_LAST_FIELD" "0 < sz" using assms(2,3) by (simp_all add: good_iter_def static_layout_def)
    have sub: "cells b k 1 \<subseteq> R" using assms(4) cells_sub [of k k 1 sz b] it(3) by auto
    have f: "fine R (\<lambda>_ _. True) st (pb_dec_bool PB_LAST_FIELD (Addr b (int k)) st)" by (rule fine_true [OF fine_dec_bool [OF assms(5) sub]])
    have "decode_field env call wire_type it st = step_ok (Some (pb_dec_bool PB_LAST_FIELD (Addr b (int k)) st)) (\<lambda>_ st. Some (Ok it, st))" for call
      using it(1,2) by (simp add: decode_field_def decode_static_field_def PB_DECODERS_def dec_packable_def PB_HTYPE_def PB_ATYPE_def PB_LTYPE_def PB_LAST_FIELD_def)
    moreover have "settles env R ?Q st (\<lambda>call. step_ok (Some (pb_dec_bool PB_LAST_FIELD (Addr b (int k)) st)) (\<lambda>_ st. Some (Ok it, st)))"
      by (rule settles_seq [OF assms(5) f]) (use assms(3) in \<open>auto intro: settles_Some fine_Ok\<close>)
    ultimately show ?thesis by simp
  next
    case False
    then have n: "0 < n" by simp
    show ?thesis unfolding decode_field_def
    proof (rule settles_step [OF assms(5), where P = ?Q], goal_cases)
      case 1
      show ?case
      proof (cases "PB_HTYPE (it_field it) = PB_HTYPE_ONEOF")
        case True
        obtain i where i: "i < n" "it = it_at tab b (int k) i" using good_iter_oneof [OF assms(3) n True] by blast
        have h: "PB_HTYPE (tab ! i) = PB_HTYPE_ONEOF" using True i(2) by simp
        have R: "cells b k sz \<subseteq> R" using assms(4) by blast
        have "settles env R ?Q st (\<lambda>call. pb_release_union_field call it st)" unfolding i(2)
          by (rule settles_mono [OF settles_release_union [OF assms(1,2) i(1) R assms(5) h]]) (auto intro: good_iter_plain)
        then show ?thesis using True by simp
      next
        case False
        then show ?thesis using assms(3,5) by (simp add: settles_Some fine_Ok)
      qed
    next
      case (2 it1 st1)
      show ?case unfolding if_P [OF atype [OF 2(1) n]] by (rule static [OF 2(1) n 2(3)])
    qed
  qed
qed

end

section \<open>All fields\<close>

definition good_loop :: "pb_field list \<Rightarrow> nat \<Rightarrow> nat \<Rightarrow> nat \<Rightarrow> nat \<Rightarrow> loop_state \<Rightarrow> bool" where
  "good_loop tab n b k loc ls \<longleftrightarrow> good_iter tab n b k loc (ls_iter ls) \<and> ls_fixed_size ls = Addr loc 0"

lemma good_iter_fixed:
  assumes "good_iter tab n b k loc it" "PB_HTYPE (it_field it) = PB_HTYPE_REPEATED" "it_size it = it_data it" "0 < n"
  shows "good_iter tab n b k loc (it\<lparr>it_size := Addr loc 0\<rparr>)"
proof -
  obtain i where i: "i < n" "it = it_at tab b (int k) i \<or> fixed_count tab i \<and> it = (it_at tab b (int k) i)\<lparr>it_size := Addr loc 0\<rparr>"
    using assms(1,4) unfolding good_iter_def by blast
  then have "fixed_count tab i \<and> it\<lparr>it_size := Addr loc 0\<rparr> = (it_at tab b (int k) i)\<lparr>it_size := Addr loc 0\<rparr>"
    using assms(2,3) by (auto simp: fixed_count_def)
  then show ?thesis unfolding good_iter_def using i(1) by blast
qed

lemma mark_seen_sel [simp]: "ls_fixed_size (mark_seen ls) = ls_fixed_size ls" "ls_iter (mark_seen ls) = ls_iter ls"
  by (simp_all add: mark_seen_def Let_def)

context pb_source begin

lemma fine_check_fixed:
  assumes "good_loop tab n b k loc ls" "cells loc 0 4 \<subseteq> R" "ready R st"
  shows "fine R (\<lambda>_ st'. fst st' = fst st) st (check_fixed_count ls st)"
proof (cases "ls_fixed_field ls")
  case None
  then show ?thesis using assms(3) by (simp add: check_fixed_count_def fine_Ok)
next
  case (Some p)
  have c: "counts_in R (ls_fixed_size ls)" using assms(1,2) unfolding counts_in_def good_loop_def by (intro exI [of _ loc] exI [of _ 0]) simp
  have "fine R (\<lambda>_ st'. fst st' = fst st) st (seq_ok (peek (load_u32 (ls_fixed_size ls)) st) (\<lambda>n st.
        if n \<noteq> fd_array_size (it_start (ls_iter ls) ! p) then field_error ''wrong size for fixed count field'' st else (Ok (), st)))"
    by (rule fine_bind [OF assms(3) fine_counts(1) [OF c assms(3)]]) (auto intro: fine_Ok fine_error)
  then show ?thesis using Some by (simp add: check_fixed_count_def)
qed

lemma fine_fixed_count:
  assumes "static_layout sub tab n sz" "good_loop tab n b k loc ls" "cells loc 0 4 \<subseteq> R" "ready R st"
  shows "fine R (\<lambda>ls' st'. good_loop tab n b k loc ls' \<and> fst st' = fst st) st (fixed_count_field ls st)"
proof (cases "PB_HTYPE (it_field (ls_iter ls)) = PB_HTYPE_REPEATED \<and> it_size (ls_iter ls) = it_data (ls_iter ls)")
  case False
  then show ?thesis using assms(2,4) unfolding fixed_count_field_def Let_def if_not_P [OF False] by (simp add: fine_Ok)
next
  case True
  have g: "good_iter tab n b k loc (ls_iter ls)" "ls_fixed_size ls = Addr loc 0" using assms(2) by (simp_all add: good_loop_def)
  have n: "0 < n"
  proof (rule ccontr)
    assume "\<not> 0 < n"
    then have "it_field (ls_iter ls) = PB_LAST_FIELD" using g(1) assms(1) by (simp add: good_iter_def static_layout_def)
    then show False using True by (simp add: PB_LAST_FIELD_def PB_HTYPE_def)
  qed
  have c: "counts_in R (ls_fixed_size ls)" using g(2) assms(3) unfolding counts_in_def by (intro exI [of _ loc] exI [of _ 0]) simp
  have st: "fine R (\<lambda>_ st'. fst st' = fst st) st
      (if ls_fixed_field ls \<noteq> Some (it_pos (ls_iter ls)) then seq_ok (check_fixed_count ls st) (\<lambda>_. on_mem (store_u32 (ls_fixed_size ls) 0)) else (Ok (), st))"
  proof (cases "ls_fixed_field ls = Some (it_pos (ls_iter ls))")
    case False
    have "fine R (\<lambda>_ st'. fst st' = fst st) st (seq_ok (check_fixed_count ls st) (\<lambda>_. on_mem (store_u32 (ls_fixed_size ls) 0)))"
    proof (rule fine_bind [OF assms(4) fine_check_fixed [OF assms(2-4)]], goal_cases)
      case (1 a st1)
      show ?case by (rule fine_mono [OF fine_counts(2) [OF c 1(4)]]) (use 1(2) in auto)
    qed
    then show ?thesis using False by simp
  qed (use assms(4) in \<open>simp add: fine_Ok\<close>)
  show ?thesis unfolding fixed_count_field_def Let_def if_P [OF True]
  proof (rule fine_bind [OF assms(4) st], goal_cases)
    case (1 a st1)
    have "good_loop tab n b k loc (ls\<lparr>ls_fixed_field := Some (it_pos (ls_iter ls)), ls_iter := (ls_iter ls)\<lparr>it_size := ls_fixed_size ls\<rparr>\<rparr>)"
      using good_iter_fixed [OF g(1) conjunct1 [OF True] conjunct2 [OF True] n] g(2) by (simp add: good_loop_def)
    then show ?case using 1(2,4) by (intro fine_Ok) auto
  qed
qed

lemma fine_check_end:
  assumes "static_layout sub tab n sz" "good_loop tab n b k loc ls" "cells loc 0 4 \<subseteq> R" "ready R st"
  shows "fine R (\<lambda>_ _. True) st (check_end ls st)"
  unfolding check_end_def
proof (rule fine_bind [OF assms(4) fine_check_fixed [OF assms(2-4)]], goal_cases)
  case (1 a st1)
  have "wf_table tab n" "good_iter tab n b k loc (ls_iter ls)" using assms(1,2) by (simp_all add: static_layout_def good_loop_def)
  then obtain x where "seek_end (ls_iter ls) = Ok x" using seek_end_good by blast
  then obtain c where "required_count (ls_iter ls) = Ok c" by (cases x) (auto simp: required_count_def Let_def)
  then show ?case using 1(4) by (simp add: peek_def fine_Ok fine_error)
qed

lemma extension_free:
  assumes "static_layout sub tab n sz" "good_iter tab n b k loc it"
  obtains it' where "find_extension_field it = Some (Ok (False, it'))" "good_iter tab n b k loc it'"
proof -
  have "wf_table tab n" using assms(1) by (simp add: static_layout_def)
  from find_good [OF this assms(2), of "\<lambda>f. PB_LTYPE f = PB_LTYPE_EXTENSION"] obtain found it' where
    f: "find_extension_field it = Some (Ok (found, it'))" "good_iter tab n b k loc it'" "found \<longrightarrow> PB_LTYPE (it_field it') = PB_LTYPE_EXTENSION"
    unfolding find_extension_field_def by blast
  have "PB_LTYPE (it_field it') \<noteq> PB_LTYPE_EXTENSION"
  proof (cases "n = 0")
    case True
    then have "it_field it' = PB_LAST_FIELD" using f(2) assms(1) by (simp add: good_iter_def static_layout_def)
    then show ?thesis by (simp add: PB_LAST_FIELD_def PB_LTYPE_def)
  next
    case False
    then have "0 < n" by simp
    from good_iter_placed [OF assms(1) f(2) this subset_refl] show ?thesis by (simp add: placed_def static_types_def)
  qed
  then show thesis using that f by auto
qed

lemma tag_progress:
  assumes "ok s" "pb_decode_tag s = (eof, Ok (wire_type, tag), s')"
  shows "bytes_left s' < bytes_left s" "tag < -1"
proof -
  obtain temp where t: "pb_decode_varint32 s = (Ok temp, s')" "tag = drop_bit 3 temp"
    using assms(2) by (auto simp: pb_decode_tag_def pb_decode_varint32_def split: prod.splits outcome.splits if_splits)
  show "bytes_left s' < bytes_left s" by (rule decode_varint32_progress [OF assms(1) t(1)])
  have "unat tag = drop_bit 3 (unat temp)" by (simp only: t(2) unat_drop_bit_eq)
  then have "unat tag = unat temp div 8" by (simp add: drop_bit_eq_div)
  then have "unat tag < 2 ^ 29" using unat_u32_less [of temp] by simp
  moreover have "unat (-1 :: u32) = 2 ^ 32 - 1" by (simp add: unsigned_minus_1_eq_mask mask_eq_exp_minus_1)
  ultimately show "tag < -1" by (simp add: word_less_nat_alt)
qed

lemma settles_fields:
  assumes "handles env sub" "static_layout sub tab n sz" "cells b k sz \<union> cells loc 0 4 \<subseteq> R"
  shows "good_loop tab n b k loc ls \<Longrightarrow> ready R st \<Longrightarrow> settles env R (\<lambda>_ _. True) st (\<lambda>call. call (Decode_fields ls) st)"
proof (induction "bytes_left (fst st)" arbitrary: ls st rule: less_induct)
  case less
  have loc: "cells loc 0 4 \<subseteq> R" using assms(3) by blast
  have s: "ok (fst st)" using less.prems(2) by (simp add: ready_def)
  have wf: "wf_table tab n" using assms(2) by (simp add: static_layout_def)
  obtain eof r s' where tg: "pb_decode_tag (fst st) = (eof, r, s')" by (metis prod.exhaust)
  have sf: "r \<noteq> Undef" "flows (fst st) s'" using safe_tag [OF s] tg by (auto simp: safe_def intro: flows_advances [OF s])
  let ?st = "(s', snd st)"
  have mv: "moves R st ?st" using sf(2) by (simp add: moves_def)
  have rd: "ready R ?st" by (rule ready_moves [OF less.prems(2) mv])
  have "settles env R (\<lambda>_ _. True) st (\<lambda>call. decode_fields env call ls st)"
  proof (cases "bytes_left (fst st) = 0")
    case True
    then show ?thesis using fine_check_end [OF assms(2) less.prems(1) loc less.prems(2)] by (simp add: decode_fields_def settles_Some)
  next
    case False
    show ?thesis
    proof (cases r)
      case (Ok wt)
      obtain wire_type tag where wt: "wt = (wire_type, tag)" by (rule prod.exhaust)
      note pr = tag_progress [OF s tg [unfolded Ok wt]]
      have again: "settles env R (\<lambda>_ _. True) st2 (\<lambda>call. call (Decode_fields ls2) st2)"
        if "good_loop tab n b k loc ls2" "ready R st2" "bytes_left (fst st2) \<le> bytes_left s'" for ls2 st2
        by (rule less.hyps) (use that pr(1) in auto)
      obtain found it where it: "pb_field_iter_find (ls_iter ls) tag = Some (Ok (found, it))" "good_iter tab n b k loc it"
        using find_good [OF wf, of b k loc "ls_iter ls" "wanted_field tag"] less.prems(1) unfolding good_loop_def pb_field_iter_find_def by blast
      let ?ls = "ls\<lparr>ls_iter := it\<rparr>"
      have gl: "good_loop tab n b k loc ?ls" using less.prems(1) it(2) by (simp add: good_loop_def)
      have "settles env R (\<lambda>_ _. True) ?st (\<lambda>call. if found then known_field env call ?ls wire_type ?st else unknown_field call ?ls wire_type tag ?st)"
      proof (cases found)
        case True
        have "settles env R (\<lambda>_ _. True) ?st (\<lambda>call. known_field env call ?ls wire_type ?st)"
          unfolding known_field_def
        proof (rule settles_seq [OF rd fine_fixed_count [OF assms(2) gl loc rd]], goal_cases)
          case (1 ls1 st1)
          then have g1: "good_iter tab n b k loc (ls_iter ls1)" "ls_fixed_size ls1 = Addr loc 0" "fst st1 = s'" by (simp_all add: good_loop_def)
          show ?case
          proof (rule settles_step [OF 1(4) settles_decode_field [OF assms(1,2) g1(1) assms(3) 1(4)]], goal_cases)
            case (1 it1 st2)
            have "bytes_left (fst st2) \<le> bytes_left s'" using 1(2) g1(3) by (simp add: moves_def flows_def)
            then show ?case using again [OF _ 1(3)] 1(1) g1(2) by (simp add: good_loop_def)
          qed
        qed
        then show ?thesis using True by simp
      next
        case False
        have skip: "settles env R (\<lambda>_ _. True) ?st (\<lambda>call. step_ok (Some (on_stream (pb_skip_field wire_type) ?st)) (\<lambda>_. call (Decode_fields ls1)))"
          if "good_loop tab n b k loc ls1" for ls1
        proof -
          have "fine R (\<lambda>a st'. pb_skip_field wire_type (fst ?st) = (Ok a, fst st')) ?st (on_stream (pb_skip_field wire_type) ?st)"
            by (rule fine_stream [OF rd]) (use rd in \<open>simp add: ready_def safe_skip_field\<close>)
          then show ?thesis
          proof (rule settles_seq [OF rd], goal_cases)
            case (1 a st1)
            then show ?case using again [OF that 1(4)] by (simp add: moves_def flows_def)
          qed
        qed
        obtain it' where e: "find_extension_field it = Some (Ok (False, it'))" "good_iter tab n b k loc it'" using extension_free [OF assms(2) it(2)] by blast
        have gl': "good_loop tab n b k loc (ls\<lparr>ls_iter := it', ls_ext_start := -1\<rparr>)" using less.prems(1) e(2) by (simp add: good_loop_def)
        have "settles env R (\<lambda>_ _. True) ?st (\<lambda>call. unknown_field call ?ls wire_type tag ?st)"
          using skip [OF gl] skip [OF gl'] e(1) pr(2) unfolding unknown_field_def Let_def by (cases "tag < ls_ext_start ?ls") simp_all
        then show ?thesis using False by simp
      qed
      from settles_then [OF mv this] show ?thesis using False tg Ok wt it(1) by (simp add: decode_fields_def)
    next
      case Fail
      have "fine R (\<lambda>_ _. True) ?st (check_end ls ?st)" by (rule fine_check_end [OF assms(2) less.prems(1) loc rd])
      moreover have "fine R (\<lambda>_ _. True) ?st (Fail :: unit outcome, ?st)" using rd by (simp add: fine_def moves_refl)
      ultimately have "fine R (\<lambda>_ _. True) st (if eof then check_end ls ?st else (Fail, ?st))" by (simp add: fine_then [OF mv])
      then show ?thesis using False tg Fail by (simp add: decode_fields_def settles_Some)
    next
      case Undef
      then show ?thesis using sf(1) by simp
    qed
  qed
  then show ?case by (intro settles_call) simp
qed

end

section \<open>Messages\<close>

lemma local_cells:
  assumes "live R m"
  shows "live (R \<union> cells (mem_fresh m) 0 4) (m\<lparr>mem_objects := (mem_objects m)(mem_fresh m \<mapsto> map Byte [0, 0, 0, 0]), mem_fresh := mem_fresh m + 1\<rparr>)"
proof -
  have "b \<noteq> mem_fresh m" if "(b, i) \<in> R" for b i
    using assms that unfolding live_def unused_above_def by fastforce
  moreover have "is_byte (map Byte [0, 0, 0, 0] ! i)" if "i < 4" for i :: nat
    using that nth_map [of i "[0, 0, 0, 0]" Byte] by simp
  ultimately show ?thesis using assms by (fastforce simp: live_def unused_above_def cells_def)
qed

lemma only_local:
  assumes "live R m" "only (R \<union> cells (mem_fresh m) 0 4) (m\<lparr>mem_objects := (mem_objects m)(mem_fresh m \<mapsto> cs), mem_fresh := mem_fresh m + 1\<rparr>) m'"
  shows "only R m (snd (pb_free (Addr (mem_fresh m) 0) m'))"
proof -
  let ?l = "mem_fresh m"
  have none: "mem_objects m ?l = None" using assms(1) by (simp add: live_def unused_above_def)
  have o: "only_object {i. (c, i) \<in> R \<union> cells ?l 0 4} (((mem_objects m)(?l \<mapsto> cs)) c) (mem_objects m' c)" for c
    using assms(2) by (simp add: only_def)
  from o [of ?l] have "mem_objects m' ?l \<noteq> None" by (auto simp: only_object_def)
  then have f: "snd (pb_free (Addr ?l 0) m') = m'\<lparr>mem_objects := (mem_objects m')(?l := None)\<rparr>" by (simp add: pb_free_def)
  have "only_object {i. (c, i) \<in> R} (mem_objects m c) (((mem_objects m')(?l := None)) c)" for c
  proof (cases "c = ?l")
    case True
    then show ?thesis using none by (simp add: only_object_def)
  next
    case False
    then have "{i. (c, i) \<in> R \<union> cells ?l 0 4} = {i. (c, i) \<in> R}" by (auto simp: cells_def)
    then show ?thesis using o [of c] False by simp
  qed
  then show ?thesis using assms(2) unfolding f by (simp add: only_def)
qed

context pb_source begin

lemma settles_noinit:
  assumes "handles env sub" "static_layout sub (ev_tables env t) n sz" "cells b k sz \<subseteq> R" "ready R st"
  shows "settles env R (\<lambda>_ _. True) st (\<lambda>call. pb_decode_noinit env call t (Addr b (int k)) st)"
proof -
  let ?tab = "ev_tables env t" and ?l = "mem_fresh (snd st)"
  let ?m = "(snd st)\<lparr>mem_objects := (mem_objects (snd st))(?l \<mapsto> map Byte [0, 0, 0, 0]), mem_fresh := ?l + 1\<rparr>"
  let ?S = "R \<union> cells ?l 0 4" and ?it = "it_at ?tab b (int k) 0"
  let ?ls = "\<lparr>ls_iter = ?it, ls_seen = [0, 0], ls_ext_start = 0, ls_fixed_field = None, ls_fixed_size = Addr ?l 0\<rparr>"
  have lv: "live R (snd st)" using assms(4) by (simp add: ready_def)
  have rd: "ready ?S (fst st, ?m)" using local_cells [OF lv] assms(4) by (simp add: ready_def)
  have wf: "wf_table ?tab n" using assms(2) by (simp add: static_layout_def)
  have "good_iter ?tab n b k ?l ?it" using good_iter_plain [of 0 n] by (cases "n = 0") (simp_all add: good_iter_def)
  then have gl: "good_loop ?tab n b k ?l ?ls" by (simp add: good_loop_def)
  have S: "cells b k sz \<union> cells ?l 0 4 \<subseteq> ?S" using assms(3) by blast
  have "settles env R (\<lambda>_ _. True) st (\<lambda>call. map_option (\<lambda>(r, st). (r, leave_local (Addr ?l 0) st)) (call (Decode_fields ?ls) (fst st, ?m)))"
  proof (rule settles_map [OF settles_fields [OF assms(1,2) S gl rd]])
    fix r :: "unit outcome \<times> 'u dst"
    assume r: "fine ?S (\<lambda>_ _. True) (fst st, ?m) r"
    obtain x s' m' where x: "r = (x, s', m')" by (metis prod.exhaust)
    have "x \<noteq> Undef" "flows (fst st) s'" "only ?S ?m m'" using r x by (simp_all add: fine_def moves_def)
    then show "fine R (\<lambda>_ _. True) st ((\<lambda>(r, st). (r, leave_local (Addr ?l 0) st)) r)"
      using only_local [OF lv, of "map Byte [0, 0, 0, 0]" m'] x by (simp add: fine_def moves_def leave_local_def)
  qed
  then show ?thesis using iter_begin_at [OF wf, of b "int k"]
    by (simp add: pb_decode_noinit_def enter_local_def Let_def peek_def)
qed

lemma settles_message:
  assumes "handles env sub" "static_layout sub (ev_tables env t) n sz" "cells b k sz \<subseteq> R" "ready R st"
  shows "settles env R (\<lambda>_ _. True) st (\<lambda>call. call (Decode_message init t (Addr b (int k))) st)"
proof (rule settles_call, cases init)
  case False
  then show "settles env R (\<lambda>_ _. True) st (\<lambda>call. perform env call (Decode_message init t (Addr b (int k))) st)"
    using settles_noinit [OF assms] by simp
next
  case True
  have "settles env R (\<lambda>_ _. True) st (\<lambda>call. pb_decode env call t (Addr b (int k)) st)"
    unfolding pb_decode_def
  proof (rule settles_step [OF assms(4) settles_set_defaults [OF assms]], goal_cases)
    case (1 a st1)
    show ?case
    proof (rule settles_bind [OF settles_noinit [OF assms(1-3) 1(3)]], goal_cases)
      case r: (1 r)
      obtain x st2 where x: "r = (x, st2)" by (rule prod.exhaust)
      have m: "x \<noteq> Undef" "moves R st1 st2" "ready R st2" using r x 1(3) by (auto simp: fine_def intro: ready_moves)
      have "settles env R (\<lambda>_ _. True) st2 (\<lambda>call. step_ok (call (Release t (Addr b (int k))) st2) (\<lambda>_ st. Some (Fail, st)))"
        by (rule settles_step [OF m(3) settles_release [OF assms(1-3) m(3)]]) (auto simp: fine_def moves_refl intro: settles_Some)
      from settles_then [OF m(2) this] show ?case using x m(1) r by (cases x) (simp_all add: settles_Some)
    qed
  qed
  then show "settles env R (\<lambda>_ _. True) st (\<lambda>call. perform env call (Decode_message init t (Addr b (int k))) st)" using True by simp
qed

lemma handles_static: "handles env (static_table d env)"
proof (induction d)
  case (Suc d)
  show ?case unfolding handles_def static_table_layout
    by (intro allI impI conjI settles_set_defaults [OF Suc] settles_release [OF Suc] settles_message [OF Suc]; assumption)
qed (simp add: handles_def)

theorem static_decode_settles:
  assumes "static_table d env t sz" "ready (cells b k sz) st"
  shows "settles env (cells b k sz) (\<lambda>_ _. True) st (\<lambda>call. call (Decode_message init t (Addr b (int k))) st)"
  using handlesD(3) [OF handles_static assms(1) subset_refl assms(2) refl] .

end

end
