(* ===== verification/Pb_Fuel.thy ===== *)
theory Pb_Fuel
  imports Pb_Decode
begin

text \<open>
  Fuel is only a bound: a run that returns gives the same result with more fuel. Every definition that makes calls keeps this, by rules
  that follow the structure of its body.
\<close>

named_theorems grows_rules

definition extends :: "('j \<Rightarrow> 's \<Rightarrow> 'r option) \<Rightarrow> ('j \<Rightarrow> 's \<Rightarrow> 'r option) \<Rightarrow> bool" where
  "extends call call' \<longleftrightarrow> (\<forall>job st r. call job st = Some r \<longrightarrow> call' job st = Some r)"

definition grows :: "(('j \<Rightarrow> 's \<Rightarrow> 'r option) \<Rightarrow> 'a option) \<Rightarrow> bool" where
  "grows body \<longleftrightarrow> (\<forall>call call' r. extends call call' \<longrightarrow> body call = Some r \<longrightarrow> body call' = Some r)"

lemma grows_const [grows_rules]: "grows (\<lambda>_. x)"
  by (simp add: grows_def)

lemma grows_call [grows_rules]: "grows (\<lambda>call. call job st)"
  unfolding grows_def extends_def by blast

lemma grows_step [grows_rules]:
  fixes x :: "('j \<Rightarrow> 't \<Rightarrow> 'r option) \<Rightarrow> ('a outcome \<times> 's) option"
  assumes "grows x" "\<And>a st. grows (\<lambda>call. k call a st)"
  shows "grows (\<lambda>call. step_ok (x call) (k call))"
  unfolding grows_def
proof (intro allI impI)
  fix call call' :: "'j \<Rightarrow> 't \<Rightarrow> 'r option" and r
  assume e: "extends call call'" and s: "step_ok (x call) (k call) = Some r"
  obtain y st where x: "x call = Some (y, st)" using s by (cases "x call") (auto simp: step_ok_def)
  then have x': "x call' = Some (y, st)" using assms(1) e by (simp add: grows_def)
  have "k call' a st = Some r" if "k call a st = Some r" for a using assms(2) e that unfolding grows_def by blast
  then show "step_ok (x call') (k call') = Some r" using s x x' by (cases y) auto
qed

lemma grows_bind [grows_rules]:
  "grows x \<Longrightarrow> (\<And>a. grows (\<lambda>call. k call a)) \<Longrightarrow> grows (\<lambda>call. Option.bind (x call) (k call))"
  unfolding grows_def by (auto simp: bind_eq_Some_conv)

lemma grows_map [grows_rules]: "grows x \<Longrightarrow> grows (\<lambda>call. map_option g (x call))"
  unfolding grows_def by auto

lemma grows_if [grows_rules]: "grows x \<Longrightarrow> grows y \<Longrightarrow> grows (\<lambda>call. if c then x call else y call)"
  by (cases c) simp_all

lemma grows_option [grows_rules]: "grows x \<Longrightarrow> (\<And>a. grows (\<lambda>call. y call a)) \<Longrightarrow> grows (\<lambda>call. case o' of None \<Rightarrow> x call | Some a \<Rightarrow> y call a)"
  by (cases o') simp_all

lemma grows_prod [grows_rules]: "(\<And>a b. grows (\<lambda>call. y call a b)) \<Longrightarrow> grows (\<lambda>call. case p of (a, b) \<Rightarrow> y call a b)"
  by (cases p) simp

lemma grows_prod_fun [grows_rules]: "(\<And>a b. grows (\<lambda>call. y call a b s)) \<Longrightarrow> grows (\<lambda>call. (case p of (a, b) \<Rightarrow> y call a b) s)"
  by (cases p) simp

lemma grows_outcome [grows_rules]:
  "(\<And>a. grows (\<lambda>call. x call a)) \<Longrightarrow> grows y \<Longrightarrow> grows z \<Longrightarrow> grows (\<lambda>call. case r of Ok a \<Rightarrow> x call a | Fail \<Rightarrow> y call | Undef \<Rightarrow> z call)"
  by (cases r) simp_all

lemma grows_bool [grows_rules]: "grows x \<Longrightarrow> grows y \<Longrightarrow> grows (\<lambda>call. case b of True \<Rightarrow> x call | False \<Rightarrow> y call)"
  by (cases b) simp_all

lemma grows_list [grows_rules]: "grows x \<Longrightarrow> (\<And>a as. grows (\<lambda>call. y call a as)) \<Longrightarrow> grows (\<lambda>call. case xs of [] \<Rightarrow> x call | a # as \<Rightarrow> y call a as)"
  by (cases xs) simp_all

lemma step_ok_bind: "step_ok x k = Option.bind x (\<lambda>(r, st). case r of Ok a \<Rightarrow> k a st | Fail \<Rightarrow> Some (Fail, st) | Undef \<Rightarrow> Some (Undef, st))"
  by (cases x) (auto simp: step_ok_def split: outcome.splits)

section \<open>Closing a recursion\<close>

text \<open>A runner that gives each call one unit of fuel less than its caller. A result that is reached with some fuel is reached with more.\<close>

locale fuelled =
  fixes runner :: "nat \<Rightarrow> 'j \<Rightarrow> 's \<Rightarrow> 'r option" and body :: "('j \<Rightarrow> 's \<Rightarrow> 'r option) \<Rightarrow> 'j \<Rightarrow> 's \<Rightarrow> 'r option"
  assumes runner_0: "runner 0 job st = None" and runner_Suc: "runner (Suc n) job st = body (runner n) job st"
    and body_grows: "grows (\<lambda>call. body call job st)"
begin

lemma runner_extends: "extends (runner n) (runner (n + k))"
proof (induction n)
  case (Suc n)
  show ?case unfolding extends_def using Suc body_grows by (auto simp: grows_def runner_Suc)
qed (simp add: extends_def runner_0)

lemma runner_more: "grows G \<Longrightarrow> G (runner n) = Some r \<Longrightarrow> n \<le> n' \<Longrightarrow> G (runner n') = Some r"
  using runner_extends [of n "n' - n"] unfolding grows_def by (metis le_add_diff_inverse)

definition reach :: "(('j \<Rightarrow> 's \<Rightarrow> 'r option) \<Rightarrow> 'a option) \<Rightarrow> 'a \<Rightarrow> bool" where
  "reach G x \<longleftrightarrow> (\<exists>n. G (runner n) = Some x)"

lemma reach_Some [simp]: "reach (\<lambda>_. Some x) y \<longleftrightarrow> x = y"
  by (simp add: reach_def)

lemma reach_call:
  assumes "reach (\<lambda>call. body call job st) x"
  shows "reach (\<lambda>call. call job st) x"
proof -
  obtain n where "body (runner n) job st = Some x" using assms by (auto simp: reach_def)
  then have "runner (Suc n) job st = Some x" by (simp add: runner_Suc)
  then show ?thesis unfolding reach_def by blast
qed

lemma reach_body:
  assumes "reach (\<lambda>call. call job st) x"
  shows "reach (\<lambda>call. body call job st) x"
proof -
  obtain n where n: "runner n job st = Some x" using assms by (auto simp: reach_def)
  then have "body (runner (n - 1)) job st = Some x" by (cases n) (simp_all add: runner_0 runner_Suc)
  then show ?thesis unfolding reach_def by blast
qed

lemma reach_enough: "reach (\<lambda>call. call job st) x \<Longrightarrow> \<exists>enough. \<forall>k \<ge> enough. runner k job st = Some x"
  unfolding reach_def using runner_more [OF grows_call] by blast

lemma reach_bind:
  assumes "grows G" "\<And>y. grows (\<lambda>call. H call y)" "reach G y" "reach (\<lambda>call. H call y) x"
  shows "reach (\<lambda>call. Option.bind (G call) (H call)) x"
proof -
  obtain n k where "G (runner n) = Some y" "H (runner k) y = Some x" using assms(3,4) by (auto simp: reach_def)
  then have "G (runner (max n k)) = Some y" "H (runner (max n k)) y = Some x"
    using runner_more [OF assms(1), of n y "max n k"] runner_more [OF assms(2), of k y x "max n k"] by simp_all
  then show ?thesis unfolding reach_def by (intro exI [of _ "max n k"]) simp
qed

lemma reach_step:
  fixes G :: "('j \<Rightarrow> 's \<Rightarrow> 'r option) \<Rightarrow> ('a outcome \<times> 't) option"
  assumes "grows G" "\<And>a st. grows (\<lambda>call. H call a st)"
  shows "reach G (Ok a, st) \<Longrightarrow> reach (\<lambda>call. H call a st) x \<Longrightarrow> reach (\<lambda>call. step_ok (G call) (H call)) x"
    and "reach G (Fail, st) \<Longrightarrow> reach (\<lambda>call. step_ok (G call) (H call)) (Fail, st)"
proof -
  have g: "grows (\<lambda>call. case y of (r, st) \<Rightarrow> (case r of Ok a \<Rightarrow> H call a st | Fail \<Rightarrow> Some (Fail, st) | Undef \<Rightarrow> Some (Undef, st)))" for y
    using assms(2) by (intro grows_rules)
  show "reach G (Ok a, st) \<Longrightarrow> reach (\<lambda>call. H call a st) x \<Longrightarrow> reach (\<lambda>call. step_ok (G call) (H call)) x"
    unfolding step_ok_bind using g by (intro reach_bind [OF assms(1), of _ "(Ok a, st)"]) simp_all
  show "reach G (Fail, st) \<Longrightarrow> reach (\<lambda>call. step_ok (G call) (H call)) (Fail, st)"
    unfolding step_ok_bind using g by (intro reach_bind [OF assms(1), of _ "(Fail, st)"]) simp_all
qed

lemma reach_map: "reach G y \<Longrightarrow> reach (\<lambda>call. map_option g (G call)) (g y)"
  unfolding reach_def by auto

lemma reach_if: "(c \<Longrightarrow> reach G x) \<Longrightarrow> (\<not> c \<Longrightarrow> reach H x) \<Longrightarrow> reach (\<lambda>call. if c then G call else H call) x"
  by (cases c) simp_all

end

section \<open>The definitions\<close>

lemma grows_next_field [grows_rules]: "grows (\<lambda>call. next_field k call it st)"
  unfolding next_field_def by (intro grows_rules)

lemma grows_default [grows_rules]: "grows (\<lambda>call. pb_field_set_to_default call it st)"
  unfolding pb_field_set_to_default_def Let_def by (intro grows_rules)

lemma grows_release_single [grows_rules]: "grows (\<lambda>call. pb_release_single_field call it st)"
  unfolding pb_release_single_field_def Let_def by (intro grows_rules)

lemma grows_release_union [grows_rules]: "grows (\<lambda>call. pb_release_union_field call it st)"
  unfolding pb_release_union_field_def Let_def by (intro grows_rules)

lemma grows_submessage [grows_rules]: "grows (\<lambda>call. pb_dec_submessage call f dest st)"
  unfolding pb_dec_submessage_def by (intro grows_rules)

lemma grows_decoders [grows_rules]: "grows (\<lambda>call. PB_DECODERS call f dest st)"
  unfolding PB_DECODERS_def Let_def by (intro grows_rules)

lemma grows_static_field [grows_rules]: "grows (\<lambda>call. decode_static_field call wire_type it st)"
  unfolding decode_static_field_def Let_def by (intro grows_rules)

lemma grows_initialize [grows_rules]: "grows (\<lambda>call. initialize_pointer_field call p it st)"
  unfolding initialize_pointer_field_def Let_def by (intro grows_rules)

lemma grows_pointer_field [grows_rules]: "grows (\<lambda>call. decode_pointer_field call wire_type it st)"
  unfolding decode_pointer_field_def decode_pointer_single_def Let_def by (intro grows_rules)

lemma grows_field [grows_rules]: "grows (\<lambda>call. decode_field env call wire_type it st)"
  unfolding decode_field_def by (intro grows_rules)

lemma grows_extension_decoder [grows_rules]: "grows (\<lambda>call. default_extension_decoder env call ext tag wire_type st)"
  unfolding default_extension_decoder_def by (intro grows_rules)

lemma grows_loop [grows_rules]: "grows (\<lambda>call. known_field env call ls wire_type st)" "grows (\<lambda>call. unknown_field call ls wire_type tag st)"
  unfolding known_field_def unknown_field_def Let_def by (intro grows_rules)+

lemma grows_noinit [grows_rules]: "grows (\<lambda>call. pb_decode_noinit env call t dest st)"
  unfolding pb_decode_noinit_def by (intro grows_rules)

lemma grows_perform: "grows (\<lambda>call. perform env call job st)"
  by (cases job; simp only: perform.simps pb_decode_def decode_fields_def decode_extension_def pb_message_set_to_defaults_def default_fields_def
      default_extensions_def pb_release_def release_fields_def release_extensions_def release_items_def if_distribR prod.case; intro grows_rules)

interpretation dec: fuelled "\<lambda>n. run n env" "perform env" for env
  by unfold_locales (simp_all add: grows_perform)

lemma run_more: "run n env job st = Some r \<Longrightarrow> n \<le> n' \<Longrightarrow> run n' env job st = Some r"
  by (rule dec.runner_more [OF grows_call])

end
