(* ===== verification/Pb_Messages.thy ===== *)
theory Pb_Messages
  imports Pb_Static_Message Pb_Fuel
begin

text \<open>
  What decoding into structures guarantees, on streams over buffers: static messages, allocation, and two places where the code
  does not keep to the structure.
\<close>

text \<open>C1: Decoding any bytes into a structure whose descriptors keep every member inside of it returns, does nothing undefined, and writes only
  bytes of the structure; the allocator and all other objects are left alone.\<close>

theorem decode_static_safe:
  assumes "static_table d env t sz" "live (cells b k sz) m" "len \<le> length bytes"
  shows "\<exists>enough r s m'. (\<forall>n \<ge> enough. run n env (Decode_message init t (Addr b (int k))) (pb_istream_from_buffer bytes len, m) = Some (r, s, m')) \<and>
    r \<noteq> Undef \<and> only (cells b k sz) m m'"
proof -
  let ?st = "(pb_istream_from_buffer bytes len, m)"
  have "buf.ready (cells b k sz) ?st" using assms(2) buf_ok_from_buffer [OF assms(3)] by (simp add: buf.ready_def)
  from buf.static_decode_settles [OF assms(1) this, of init] obtain q where
    q: "\<forall>\<^sub>F n in sequentially. run n env (Decode_message init t (Addr b (int k))) ?st = Some q" "buf.fine (cells b k sz) (\<lambda>_ _. True) ?st q"
    unfolding buf.settles_def by blast
  obtain enough where e: "\<forall>n \<ge> enough. run n env (Decode_message init t (Addr b (int k))) ?st = Some q" using q(1) unfolding eventually_sequentially by blast
  obtain r s m' where r: "q = (r, s, m')" by (metis prod.exhaust)
  have "r \<noteq> Undef" "only (cells b k sz) m m'" using q(2) r by (simp_all add: buf.fine_def buf.moves_def)
  then show ?thesis using e r by blast
qed

definition sample_env :: "unit env" where
  "sample_env = \<lparr>ev_tables = (\<lambda>t. if t = 0 then sample_table else []), ev_callbacks = (\<lambda>_. None), ev_ext_types = (\<lambda>_. None)\<rparr>"

definition sample_memory :: "nat \<Rightarrow> memory" where
  "sample_memory n = \<lparr>mem_objects = [0 \<mapsto> replicate n (Byte 0)], mem_fresh = 1, mem_answers = []\<rparr>"

lemma live_sample: "live (cells 0 0 n) (sample_memory n)"
  by (auto simp: live_def unused_above_def sample_memory_def cells_def)

lemma sample_static: "static_table 1 sample_env 0 32"
proof -
  have l: "ev_tables sample_env 0 = sample_table" "length sample_table - 1 = 3" by (simp_all add: sample_env_def sample_table_def)
  have less: "i < 3 \<longleftrightarrow> i = 0 \<or> i = Suc 0 \<or> i = Suc (Suc 0)" for i :: nat by auto
  have wf: "wf_table sample_table 3" "sample_table ! 3 = PB_LAST_FIELD" unfolding wf_table_def less
    by (auto simp: sample_table_def PB_LAST_FIELD_def)
  have off: "field_off sample_table 0 = 0" "field_off sample_table (Suc 0) = 8" "field_off sample_table (Suc (Suc 0)) = 24" "size_off sample_table (Suc 0) = 4"
    by (simp_all add: sample_table_def continues_def prev_size_def PB_ATYPE_def PB_HTYPE_def)
  note defs = static_field_def packable_fits_def points_well_def size_fits_def prev_size_def off PB_ATYPE_def PB_HTYPE_def PB_LTYPE_def
  have "static_field (static_table 0 sample_env) sample_table 32 0" unfolding defs by (simp add: sample_table_def)
  moreover have "static_field (static_table 0 sample_env) sample_table 32 (Suc 0)" unfolding defs by (simp add: sample_table_def)
  moreover have "static_field (static_table 0 sample_env) sample_table 32 (Suc (Suc 0))" unfolding defs by (simp add: sample_table_def)
  ultimately have "static_field (static_table 0 sample_env) sample_table 32 i" if "i < 3" for i using that unfolding less by blast
  then show ?thesis using wf l by (simp add: list_all_iff)
qed

theorem decode_static_safe_witness:
  "\<exists>enough r s m'. (\<forall>n \<ge> enough. run n sample_env (Decode_message True 0 (Addr 0 0)) (pb_istream_from_buffer [8, 5, 0x12, 1, 7] 5, sample_memory 32) = Some (r, s, m')) \<and>
    r \<noteq> Undef \<and> only (cells 0 0 32) (sample_memory 32) m'"
  using decode_static_safe [OF sample_static live_sample, of 5 "[8, 5, 0x12, 1, 7]" True] by simp

section \<open>Allocation\<close>

lemma product_check:
  fixes a d :: u64
  assumes "a \<noteq> 0" "d \<noteq> 0"
  shows "(2 ^ 32 \<le> d \<or> 2 ^ 32 \<le> a) \<and> -1 div a < d \<longleftrightarrow> 2 ^ 64 \<le> unat a * unat d"
proof -
  have a: "0 < unat a" using assms(1) by (simp add: unat_gt_0)
  have u: "unat (-1 :: u64) = 2 ^ 64 - 1" by (simp add: unsigned_minus_1_eq_mask mask_eq_exp_minus_1)
  have q: "-1 div a < d \<longleftrightarrow> (2 ^ 64 - 1) div unat a < unat d" by (simp only: word_less_nat_alt unat_div u)
  have "-1 div a < d \<longleftrightarrow> 2 ^ 64 - 1 < unat d * unat a" unfolding q by (rule div_less_iff_less_mult [OF a])
  then have large: "-1 div a < d \<longleftrightarrow> 2 ^ 64 \<le> unat a * unat d" by (simp add: mult.commute) linarith
  have "unat a * unat d < 2 ^ 64" if "\<not> (2 ^ 32 \<le> d \<or> 2 ^ 32 \<le> a)"
  proof -
    have "unat a < 2 ^ 32" "unat d < 2 ^ 32" using that by (simp_all add: word_le_nat_alt not_le)
    then have "unat a * unat d < 2 ^ 32 * 2 ^ 32" by (intro mult_strict_mono) simp_all
    then show ?thesis by simp
  qed
  then show ?thesis using large by (metis not_le)
qed

text \<open>C37: The storage of an allocated field has exactly as many bytes as its entries need, computed without wrap-around: sizes whose product does not fit
  are refused, and so are empty ones, before the allocator is asked.\<close>

theorem allocate_field_exact:
  assumes "load_ptr pData (snd st) = Ok ptr"
  shows "allocate_field pData data_size array_size st =
    (if unat array_size * unat data_size = 0 then field_error ''invalid size'' st
     else if 2 ^ 64 \<le> unat array_size * unat data_size then field_error ''size too large'' st
     else seq_ok (on_mem (pb_realloc ptr (unat array_size * unat data_size)) st) (\<lambda>ptr st.
       if ptr = Null then field_error ''realloc failed'' st else on_mem (store_ptr pData ptr) st))"
proof (cases "data_size = 0 \<or> array_size = 0")
  case True
  then show ?thesis using assms by (auto simp: allocate_field_def peek_def)
next
  case False
  then have nz: "array_size \<noteq> 0" "data_size \<noteq> 0" "unat array_size * unat data_size \<noteq> 0" by (simp_all add: unat_eq_zero)
  have "unat (array_size * data_size) = unat array_size * unat data_size" if "\<not> 2 ^ 64 \<le> unat array_size * unat data_size"
    using that by (simp add: unat_word_ariths)
  then show ?thesis using assms nz unfolding allocate_field_def product_check [OF nz(1,2)] by (simp add: peek_def)
qed

theorem allocate_field_exact_witness:
  "allocate_field (Addr 0 0) (2 ^ 33) (2 ^ 33) (pb_istream_from_buffer [] 0, sample_memory 8) =
     field_error ''size too large'' (pb_istream_from_buffer [] 0 :: unit pb_istream, sample_memory 8)"
proof -
  have "load_ptr (Addr 0 0) (snd (pb_istream_from_buffer [] 0 :: unit pb_istream, sample_memory 8)) = Ok Null" by code_simp
  from allocate_field_exact [OF this, of "2 ^ 33" "2 ^ 33"] show ?thesis by simp
qed

section \<open>Fixed counts\<close>

definition flags_table :: "pb_field list" where
  "flags_table = [\<lparr>fd_tag = 1, fd_type = 0x20, fd_data_offset = 0, fd_size_offset = 0, fd_data_size = 1, fd_array_size = 2, fd_ptr = No_ptr\<rparr>, PB_LAST_FIELD]"

definition flags_env :: "unit env" where
  "flags_env = \<lparr>ev_tables = (\<lambda>t. if t = 0 then flags_table else [PB_LAST_FIELD]), ev_callbacks = (\<lambda>_. None), ev_ext_types = (\<lambda>_. None)\<rparr>"

text \<open>C38: A repeated field with a fixed count has no counter, so its counter pointer is the array itself; setting the message to its defaults still
  clears a four-byte counter there, beyond the end of a structure that is an array of two flags, whatever the input is.\<close>

theorem fixed_count_overrun:
  "run (Suc (Suc (Suc n))) flags_env (Decode_message True 0 (Addr 0 0)) (pb_istream_from_buffer bytes len, sample_memory 2) =
     Some (Undef, pb_istream_from_buffer bytes len, sample_memory 2)"
  by (simp add: flags_env_def flags_table_def pb_decode_def pb_message_set_to_defaults_def default_fields_def pb_field_set_to_default_def
      pb_field_iter_begin_def place_def shift_def peek_def it_field_def PB_ATYPE_def PB_LTYPE_def PB_HTYPE_def on_mem_def store_u32_def
      store_bytes_def store_cells_def in_object_def sample_memory_def)

section \<open>Messages without fields\<close>

text \<open>In a message without fields the number zero, which no field may have, finds the terminator of the table: the value is decoded as a
  flag into the first byte of the structure, and decoding succeeds.\<close>

theorem zero_field_decoded:
  "map_option (\<lambda>(r, s, m). (r, is_errmsg s, mem_objects m 0)) (run (5 + n) flags_env (Decode_message True 1 (Addr 0 0)) (pb_istream_from_buffer [1, 1] 2, sample_memory 1)) =
     Some (Ok (), None, Some [Byte 1])"
proof -
  have e: "map_option (\<lambda>(r, s, m). (r, is_errmsg s, mem_objects m 0)) (run 5 flags_env (Decode_message True 1 (Addr 0 0)) (pb_istream_from_buffer [1, 1] 2, sample_memory 1)) =
     Some (Ok (), None, Some [Byte 1])" by code_simp
  then obtain q where q: "run 5 flags_env (Decode_message True 1 (Addr 0 0)) (pb_istream_from_buffer [1, 1] 2, sample_memory 1) = Some q" by auto
  have "run (5 + n) flags_env (Decode_message True 1 (Addr 0 0)) (pb_istream_from_buffer [1, 1] 2, sample_memory 1) = Some q" by (rule run_more [OF q]) simp
  then show ?thesis using e unfolding q by (simp only:)
qed

end
