(* ===== verification/Pb_Encode.thy ===== *)
theory Pb_Encode
  imports Pb_Fields Pb_Ostream
begin

text \<open>
  The field layer of the encoder (\<^verbatim>\<open>nanopb/pb_encode.c\<close>): from a structure in memory, described by a table of fields, onto an output
  stream. The state is the stream and the memory, which the library itself only reads. A job is a call through which the functions
  call each other, or the rest of a loop; \<open>erun\<close> closes the recursion, and every job takes one unit of fuel. A job that asks a
  question answers by success or failure.
\<close>

section \<open>State\<close>

type_synonym 'u est = "'u pb_ostream \<times> memory"

type_synonym 'u enc_client = "'u pb_ostream \<Rightarrow> pb_field \<Rightarrow> addr \<Rightarrow> memory \<Rightarrow> bool \<times> 'u pb_ostream \<times> memory"

type_synonym 'u enc_ext_client = "'u pb_ostream \<Rightarrow> addr \<Rightarrow> memory \<Rightarrow> bool \<times> 'u pb_ostream \<times> memory"

record 'u enc_ext_type =
  xt_encode :: "'u enc_ext_client option"
  xt_arg :: nat

text \<open>The bytes that a stored pointer consists of are up to the platform.\<close>

record 'u enc_env =
  ee_tables :: "nat \<Rightarrow> pb_field list"
  ee_callbacks :: "nat \<Rightarrow> 'u enc_client option"
  ee_ext_types :: "nat \<Rightarrow> 'u enc_ext_type option"
  ee_pointer_byte :: "addr \<Rightarrow> nat \<Rightarrow> byte"

datatype enc_job =
    Encode_message nat addr
  | Encode_fields pb_field_iter
  | Encode_extensions addr
  | Check_default pb_field addr
  | Check_fields pb_field_iter

type_synonym 'u enc_calls = "enc_job \<Rightarrow> 'u est \<Rightarrow> (unit outcome \<times> 'u est) option"

abbreviation enc_error :: "string \<Rightarrow> 'u est \<Rightarrow> 'a outcome \<times> 'u est" where
  "enc_error msg \<equiv> on_stream (os_return_error msg)"

lemma null_write_code [code_unfold]:
  "HOL.equal cb Null_write \<longleftrightarrow> (case cb of Null_write \<Rightarrow> True | _ \<Rightarrow> False)"
  by (cases cb) (simp_all add: equal)

section \<open>Reading characters\<close>

fun cell_char :: "(addr \<Rightarrow> nat \<Rightarrow> byte) \<Rightarrow> cell \<Rightarrow> byte option" where
  "cell_char ptr (Byte b) = Some b"
| "cell_char ptr (Pointer_byte p k) = Some (ptr p k)"
| "cell_char ptr Uninit = None"

definition load_chars :: "(addr \<Rightarrow> nat \<Rightarrow> byte) \<Rightarrow> addr \<Rightarrow> nat \<Rightarrow> memory \<Rightarrow> byte list outcome" where
  "load_chars ptr a n m = bind_out (load_cells a n m) (\<lambda>cs. case those (map (cell_char ptr) cs) of Some bs \<Rightarrow> Ok bs | None \<Rightarrow> Undef)"

definition load_char :: "(addr \<Rightarrow> nat \<Rightarrow> byte) \<Rightarrow> addr \<Rightarrow> memory \<Rightarrow> byte outcome" where
  "load_char ptr a m = bind_out (load_chars ptr a 1 m) (\<lambda>bs. Ok (hd bs))"

definition safe_read_bool :: "(addr \<Rightarrow> nat \<Rightarrow> byte) \<Rightarrow> addr \<Rightarrow> memory \<Rightarrow> bool outcome" where
  "safe_read_bool ptr a m = bind_out (load_char ptr a m) (\<lambda>c. Ok (c \<noteq> 0))"

text \<open>What \<^verbatim>\<open>pb_write\<close> reads when the stream has a callback.\<close>

definition bytes_at :: "(addr \<Rightarrow> nat \<Rightarrow> byte) \<Rightarrow> addr \<Rightarrow> u64 \<Rightarrow> memory \<Rightarrow> byte list option" where
  "bytes_at ptr a n m = (case load_chars ptr a (unat n) m of Ok bs \<Rightarrow> Some bs | _ \<Rightarrow> None)"

definition encode_string_at :: "(addr \<Rightarrow> nat \<Rightarrow> byte) \<Rightarrow> addr \<Rightarrow> u64 \<Rightarrow> 'u est \<Rightarrow> unit outcome \<times> 'u est" where
  "encode_string_at ptr a n st = on_stream (pb_encode_string (bytes_at ptr a n (snd st)) n) st"

section \<open>Encoders of values\<close>

definition pb_enc_bool :: "(addr \<Rightarrow> nat \<Rightarrow> byte) \<Rightarrow> pb_field \<Rightarrow> addr \<Rightarrow> 'u est \<Rightarrow> unit outcome \<times> 'u est" where
  "pb_enc_bool ptr f src st = seq_ok (peek (safe_read_bool ptr src) st) (\<lambda>b. on_stream (pb_encode_varint (if b then 1 else 0)))"

text \<open>An integer of \<open>k\<close> bytes, extended to 64 bits.\<close>

definition enc_int :: "(nat \<Rightarrow> u64 \<Rightarrow> u64) \<Rightarrow> (u64 \<Rightarrow> 'u pb_ostream \<Rightarrow> unit outcome \<times> 'u pb_ostream) \<Rightarrow> pb_field \<Rightarrow> addr \<Rightarrow> 'u est \<Rightarrow> unit outcome \<times> 'u est" where
  "enc_int widen enc f src st =
     (let k = unat (fd_data_size f)
      in if k = 1 \<or> k = 2 \<or> k = 4 \<or> k = 8
         then seq_ok (peek (load_bytes src k) st) (\<lambda>bs. on_stream (enc (widen k (le_word bs))))
         else enc_error ''invalid data_size'' st)"

definition pb_enc_varint :: "pb_field \<Rightarrow> addr \<Rightarrow> 'u est \<Rightarrow> unit outcome \<times> 'u est" where
  "pb_enc_varint = enc_int narrow_signed pb_encode_varint"

definition pb_enc_uvarint :: "pb_field \<Rightarrow> addr \<Rightarrow> 'u est \<Rightarrow> unit outcome \<times> 'u est" where
  "pb_enc_uvarint = enc_int narrow_unsigned pb_encode_varint"

definition pb_enc_svarint :: "pb_field \<Rightarrow> addr \<Rightarrow> 'u est \<Rightarrow> unit outcome \<times> 'u est" where
  "pb_enc_svarint = enc_int narrow_signed pb_encode_svarint"

definition pb_enc_fixed32 :: "pb_field \<Rightarrow> addr \<Rightarrow> 'u est \<Rightarrow> unit outcome \<times> 'u est" where
  "pb_enc_fixed32 f src st = seq_ok (peek (load_u32 src) st) (\<lambda>v. on_stream (pb_encode_fixed32 v))"

definition pb_enc_fixed64 :: "pb_field \<Rightarrow> addr \<Rightarrow> 'u est \<Rightarrow> unit outcome \<times> 'u est" where
  "pb_enc_fixed64 f src st = seq_ok (peek (load_bytes src 8) st) (\<lambda>bs. on_stream (pb_encode_fixed64 (le_word bs)))"

text \<open>The comparison with the capacity of a byte array is one of \<^verbatim>\<open>size_t\<close>.\<close>

definition pb_enc_bytes :: "(addr \<Rightarrow> nat \<Rightarrow> byte) \<Rightarrow> pb_field \<Rightarrow> addr \<Rightarrow> 'u est \<Rightarrow> unit outcome \<times> 'u est" where
  "pb_enc_bytes ptr f src st =
     (if src = Null then on_stream (pb_encode_string None 0) st
      else seq_ok (peek (load_u32 src) st) (\<lambda>n st.
        if PB_ATYPE f = PB_ATYPE_STATIC \<and> (ucast (fd_data_size f) :: u64) - 4 < ucast n then enc_error ''bytes size exceeded'' st
        else seq_ok (peek (\<lambda>_. shift src 4) st) (\<lambda>bytes. encode_string_at ptr bytes (ucast n))))"

text \<open>The loop that looks for the end of a string.\<close>

function string_size :: "(addr \<Rightarrow> nat \<Rightarrow> byte) \<Rightarrow> memory \<Rightarrow> u64 \<Rightarrow> u64 \<Rightarrow> addr \<Rightarrow> u64 outcome" where
  "string_size ptr m limit n p =
     (if n < limit
      then bind_out (load_char ptr p m) (\<lambda>c. if c \<noteq> 0 then bind_out (shift p 1) (string_size ptr m limit (n + 1)) else Ok n)
      else Ok n)"
  by pat_completeness auto
termination
proof (relation "measure (\<lambda>(ptr, m, limit, n, p). unat limit - unat n)", goal_cases)
  case (2 ptr m limit n p c q)
  then have l: "unat n < unat limit" by (simp add: word_less_nat_alt)
  moreover have "unat limit < 2 ^ 64" by (rule unat_u64_less)
  ultimately have "unat (n + 1) = Suc (unat n)" by (simp add: unat_word_ariths)
  with l show ?case by simp
qed simp

declare string_size.simps [simp del]

definition pb_enc_string :: "(addr \<Rightarrow> nat \<Rightarrow> byte) \<Rightarrow> pb_field \<Rightarrow> addr \<Rightarrow> 'u est \<Rightarrow> unit outcome \<times> 'u est" where
  "pb_enc_string ptr f src st =
     (let limit = (if PB_ATYPE f = PB_ATYPE_POINTER then -1 else ucast (fd_data_size f))
      in seq_ok (if src = Null then (Ok 0, st) else peek (\<lambda>m. string_size ptr m limit 0 src) st) (\<lambda>n. encode_string_at ptr src n))"

definition pb_enc_fixed_length_bytes :: "(addr \<Rightarrow> nat \<Rightarrow> byte) \<Rightarrow> pb_field \<Rightarrow> addr \<Rightarrow> 'u est \<Rightarrow> unit outcome \<times> 'u est" where
  "pb_enc_fixed_length_bytes ptr f src = encode_string_at ptr src (ucast (fd_data_size f))"

text \<open>Back on the stream after a substream that shares its callback.\<close>

definition after_substream :: "'u pb_ostream \<Rightarrow> u64 \<Rightarrow> unit outcome \<times> 'u est \<Rightarrow> unit outcome \<times> 'u est" where
  "after_substream s n r = (case r of (status, (sub, m)) \<Rightarrow>
     let s = s\<lparr>bytes_written := bytes_written s + bytes_written sub, os_state := os_state sub, os_errmsg := os_errmsg sub\<rparr>
     in if status = Undef then (Undef, (s, m))
        else if bytes_written sub \<noteq> n then enc_error ''submsg size changed'' (s, m)
        else (status, (s, m)))"

definition pb_encode_submessage :: "'u enc_calls \<Rightarrow> nat \<Rightarrow> addr \<Rightarrow> 'u est \<Rightarrow> (unit outcome \<times> 'u est) option" where
  "pb_encode_submessage call t src st =
     Option.bind (call (Encode_message t src) (PB_OSTREAM_SIZING, snd st)) (\<lambda>(r, (sub, m)).
       step_ok (Some (case r of
           Ok _ \<Rightarrow> (Ok (bytes_written sub), (fst st, m))
         | Fail \<Rightarrow> (Fail, ((fst st)\<lparr>os_errmsg := os_errmsg sub\<rparr>, m))
         | Undef \<Rightarrow> (Undef, (fst st, m)))) (\<lambda>n st.
       step_ok (Some (on_stream (pb_encode_varint n) st)) (\<lambda>_ (s, m).
         if os_callback s = Null_write then Some (on_stream (pb_write None n) (s, m))
         else if max_size s < bytes_written s + n then Some (enc_error ''stream full'' (s, m))
         else map_option (after_substream s n) (call (Encode_message t src)
           (\<lparr>os_callback = os_callback s, os_state = os_state s, max_size = n, bytes_written = 0, os_errmsg = None\<rparr>, m)))))"

definition pb_enc_submessage :: "'u enc_calls \<Rightarrow> pb_field \<Rightarrow> addr \<Rightarrow> 'u est \<Rightarrow> (unit outcome \<times> 'u est) option" where
  "pb_enc_submessage call f src st =
     (if fd_ptr f = No_ptr then Some (enc_error ''invalid field descriptor'' st)
      else step_ok (Some (peek (\<lambda>_. submessage f) st)) (\<lambda>t. pb_encode_submessage call t src))"

text \<open>The types up to \<^verbatim>\<open>PB_LTYPE_LAST_PACKABLE\<close>, and all of them.\<close>

definition enc_packable :: "(addr \<Rightarrow> nat \<Rightarrow> byte) \<Rightarrow> pb_field \<Rightarrow> addr \<Rightarrow> 'u est \<Rightarrow> unit outcome \<times> 'u est" where
  "enc_packable ptr f src =
     (let lt = PB_LTYPE f
      in if lt = PB_LTYPE_BOOL then pb_enc_bool ptr f src
         else if lt = PB_LTYPE_VARINT then pb_enc_varint f src
         else if lt = PB_LTYPE_UVARINT then pb_enc_uvarint f src
         else if lt = PB_LTYPE_SVARINT then pb_enc_svarint f src
         else if lt = PB_LTYPE_FIXED32 then pb_enc_fixed32 f src
         else pb_enc_fixed64 f src)"

definition PB_ENCODERS :: "'u enc_env \<Rightarrow> 'u enc_calls \<Rightarrow> pb_field \<Rightarrow> addr \<Rightarrow> 'u est \<Rightarrow> (unit outcome \<times> 'u est) option" where
  "PB_ENCODERS env call f src st =
     (let lt = PB_LTYPE f; ptr = ee_pointer_byte env
      in if lt \<le> PB_LTYPE_LAST_PACKABLE then Some (enc_packable ptr f src st)
         else if lt = PB_LTYPE_BYTES then Some (pb_enc_bytes ptr f src st)
         else if lt = PB_LTYPE_STRING then Some (pb_enc_string ptr f src st)
         else if lt = PB_LTYPE_SUBMESSAGE then pb_enc_submessage call f src st
         else if lt = PB_LTYPE_FIXED_LENGTH_BYTES then Some (pb_enc_fixed_length_bytes ptr f src st)
         else Some (Undef, st))"

section \<open>Tags and arrays\<close>

definition field_wire_type :: "pb_field \<Rightarrow> nat option" where
  "field_wire_type f =
     (let lt = PB_LTYPE f
      in if lt = PB_LTYPE_BOOL \<or> lt = PB_LTYPE_VARINT \<or> lt = PB_LTYPE_UVARINT \<or> lt = PB_LTYPE_SVARINT then Some PB_WT_VARINT
         else if lt = PB_LTYPE_FIXED32 then Some PB_WT_32BIT
         else if lt = PB_LTYPE_FIXED64 then Some PB_WT_64BIT
         else if lt = PB_LTYPE_BYTES \<or> lt = PB_LTYPE_STRING \<or> lt = PB_LTYPE_SUBMESSAGE \<or> lt = PB_LTYPE_FIXED_LENGTH_BYTES then Some PB_WT_STRING
         else None)"

definition pb_encode_tag_for_field :: "pb_field \<Rightarrow> 'u pb_ostream \<Rightarrow> unit outcome \<times> 'u pb_ostream" where
  "pb_encode_tag_for_field f s = (case field_wire_type f of
      None \<Rightarrow> os_return_error ''invalid field type'' s
    | Some w \<Rightarrow> pb_encode_tag w (fd_tag f) s)"

fun packed_items :: "(addr \<Rightarrow> nat \<Rightarrow> byte) \<Rightarrow> pb_field \<Rightarrow> nat \<Rightarrow> addr \<Rightarrow> 'u est \<Rightarrow> unit outcome \<times> 'u est" where
  "packed_items ptr f 0 p st = (Ok (), st)"
| "packed_items ptr f (Suc n) p st =
     seq_ok (enc_packable ptr f p st) (\<lambda>_ st. seq_ok (peek (\<lambda>_. shift p (int (unat (fd_data_size f)))) st) (packed_items ptr f n))"

definition packed_size :: "(addr \<Rightarrow> nat \<Rightarrow> byte) \<Rightarrow> pb_field \<Rightarrow> u32 \<Rightarrow> addr \<Rightarrow> 'u est \<Rightarrow> u64 outcome \<times> 'u est" where
  "packed_size ptr f count pData st =
     (if PB_LTYPE f = PB_LTYPE_FIXED32 then (Ok (4 * ucast count), st)
      else if PB_LTYPE f = PB_LTYPE_FIXED64 then (Ok (8 * ucast count), st)
      else case packed_items ptr f (unat count) pData (PB_OSTREAM_SIZING :: 'u pb_ostream, snd st) of
          (Ok _, (sub, m)) \<Rightarrow> (Ok (bytes_written sub), (fst st, m))
        | (Fail, (_, m)) \<Rightarrow> (Fail, (fst st, m))
        | (Undef, (_, m)) \<Rightarrow> (Undef, (fst st, m)))"

definition encode_packed :: "(addr \<Rightarrow> nat \<Rightarrow> byte) \<Rightarrow> pb_field \<Rightarrow> addr \<Rightarrow> u32 \<Rightarrow> 'u est \<Rightarrow> unit outcome \<times> 'u est" where
  "encode_packed ptr f pData count st =
     seq_ok (on_stream (pb_encode_tag PB_WT_STRING (fd_tag f)) st) (\<lambda>_ st.
     seq_ok (packed_size ptr f count pData st) (\<lambda>n st.
     seq_ok (on_stream (pb_encode_varint n) st) (\<lambda>_ st.
       if os_callback (fst st) = Null_write then on_stream (pb_write None n) st
       else packed_items ptr f (unat count) pData st)))"

text \<open>The entries of an array that is not packed; those of strings that are allocated are pointers.\<close>

fun unpacked_items :: "'u enc_env \<Rightarrow> 'u enc_calls \<Rightarrow> pb_field \<Rightarrow> nat \<Rightarrow> addr \<Rightarrow> 'u est \<Rightarrow> (unit outcome \<times> 'u est) option" where
  "unpacked_items env call f 0 p st = Some (Ok (), st)"
| "unpacked_items env call f (Suc n) p st =
     step_ok (Some (on_stream (pb_encode_tag_for_field f) st)) (\<lambda>_ st.
     step_ok (Some (if PB_ATYPE f = PB_ATYPE_POINTER \<and> (PB_LTYPE f = PB_LTYPE_STRING \<or> PB_LTYPE f = PB_LTYPE_BYTES)
         then peek (load_ptr p) st else (Ok p, st))) (\<lambda>item st.
     step_ok (PB_ENCODERS env call f item st) (\<lambda>_ st.
     step_ok (Some (peek (\<lambda>_. shift p (int (unat (fd_data_size f)))) st)) (unpacked_items env call f n))))"

definition encode_array :: "'u enc_env \<Rightarrow> 'u enc_calls \<Rightarrow> pb_field \<Rightarrow> addr \<Rightarrow> u32 \<Rightarrow> 'u est \<Rightarrow> (unit outcome \<times> 'u est) option" where
  "encode_array env call f pData count st =
     (if count = 0 then Some (Ok (), st)
      else if PB_ATYPE f \<noteq> PB_ATYPE_POINTER \<and> fd_array_size f < count then Some (enc_error ''array max size exceeded'' st)
      else if PB_LTYPE f \<le> PB_LTYPE_LAST_PACKABLE then Some (encode_packed (ee_pointer_byte env) f pData count st)
      else unpacked_items env call f (unat count) pData st)"

section \<open>Default values of singular fields\<close>

fun zero_chars :: "(addr \<Rightarrow> nat \<Rightarrow> byte) \<Rightarrow> nat \<Rightarrow> addr \<Rightarrow> memory \<Rightarrow> bool outcome" where
  "zero_chars ptr 0 p m = Ok True"
| "zero_chars ptr (Suc n) p m =
     bind_out (load_char ptr p m) (\<lambda>c. if c \<noteq> 0 then Ok False else bind_out (shift p 1) (\<lambda>p. zero_chars ptr n p m))"

text \<open>A question about the memory.\<close>

definition answer :: "(memory \<Rightarrow> bool outcome) \<Rightarrow> 'u est \<Rightarrow> unit outcome \<times> 'u est" where
  "answer q st = seq_ok (peek q st) (\<lambda>b st. (if b then Ok () else Fail, st))"

definition pb_check_proto3_default_value :: "'u enc_env \<Rightarrow> 'u enc_calls \<Rightarrow> pb_field \<Rightarrow> addr \<Rightarrow> 'u est \<Rightarrow> (unit outcome \<times> 'u est) option" where
  "pb_check_proto3_default_value env call f pData st =
     (let ht = PB_HTYPE f; lt = PB_LTYPE f; at = PB_ATYPE f; ptr = ee_pointer_byte env;
          count_zero = (\<lambda>a m. bind_out (load_u32 a m) (\<lambda>n. Ok (n = 0)))
      in step_ok (Some (peek (\<lambda>_. shift pData (sint (fd_size_offset f))) st)) (\<lambda>pSize st.
         if ht = PB_HTYPE_REQUIRED then Some (answer (\<lambda>_. Ok False) st)
         else if ht = PB_HTYPE_REPEATED \<and> fd_size_offset f \<noteq> 0 then Some (answer (count_zero pSize) st)
         else if ht = PB_HTYPE_REPEATED \<and> at = PB_ATYPE_STATIC then Some (answer (\<lambda>_. Ok False) st)
         else if ht = PB_HTYPE_ONEOF then Some (answer (count_zero pSize) st)
         else if ht = PB_HTYPE_OPTIONAL \<and> fd_size_offset f \<noteq> 0
         then Some (answer (\<lambda>m. bind_out (safe_read_bool ptr pSize m) (\<lambda>b. Ok (\<not> b))) st)
         else if at = PB_ATYPE_STATIC \<and> lt = PB_LTYPE_BYTES then Some (answer (count_zero pData) st)
         else if at = PB_ATYPE_STATIC \<and> lt = PB_LTYPE_STRING
         then Some (answer (\<lambda>m. bind_out (load_char ptr pData m) (\<lambda>c. Ok (c = 0))) st)
         else if at = PB_ATYPE_STATIC \<and> lt = PB_LTYPE_FIXED_LENGTH_BYTES then Some (answer (\<lambda>_. Ok (fd_data_size f = 0)) st)
         else if at = PB_ATYPE_STATIC \<and> lt = PB_LTYPE_SUBMESSAGE
         then step_ok (Some (peek (\<lambda>_. submessage f) st)) (\<lambda>t st.
              step_ok (Some (peek (\<lambda>_. pb_field_iter_begin (ee_tables env t) pData) st)) (\<lambda>(nonempty, it) st.
              if nonempty then call (Check_fields it) st else Some (Ok (), st)))
         else if at = PB_ATYPE_POINTER \<and> PB_LTYPE_LAST_PACKABLE < lt
         then Some (answer (\<lambda>m. bind_out (load_ptr pData m) (\<lambda>p. Ok (p = Null))) st)
         else Some (answer (zero_chars ptr (unat (fd_data_size f)) pData) st)))"

definition check_fields :: "'u enc_calls \<Rightarrow> pb_field_iter \<Rightarrow> 'u est \<Rightarrow> (unit outcome \<times> 'u est) option" where
  "check_fields call it st = step_ok (call (Check_default (it_field it) (it_data it)) st) (\<lambda>_. next_field Check_fields call it)"

section \<open>One field\<close>

text \<open>The flag that stands for a missing \<^verbatim>\<open>has_\<close> member.\<close>

definition implicit_flag :: "'u enc_calls \<Rightarrow> pb_field \<Rightarrow> addr \<Rightarrow> 'u est \<Rightarrow> (bool outcome \<times> 'u est) option" where
  "implicit_flag call f pData st =
     (if fd_size_offset f = 0 \<and> PB_HTYPE f = PB_HTYPE_OPTIONAL
      then map_option (\<lambda>(r, st). (case r of Ok _ \<Rightarrow> Ok False | Fail \<Rightarrow> Ok True | Undef \<Rightarrow> Undef, st)) (call (Check_default f pData) st)
      else Some (Ok True, st))"

definition tag_and_value :: "'u enc_env \<Rightarrow> 'u enc_calls \<Rightarrow> pb_field \<Rightarrow> addr \<Rightarrow> 'u est \<Rightarrow> (unit outcome \<times> 'u est) option" where
  "tag_and_value env call f src st = step_ok (Some (on_stream (pb_encode_tag_for_field f) st)) (\<lambda>_. PB_ENCODERS env call f src)"

text \<open>What \<^verbatim>\<open>pSize\<close> points to; it is the implicit flag, a local variable, if the field has no member of its own for it.\<close>

definition size_member :: "(addr \<Rightarrow> memory \<Rightarrow> 'a outcome) \<Rightarrow> 'a outcome \<Rightarrow> pb_field \<Rightarrow> addr \<Rightarrow> memory \<Rightarrow> 'a outcome" where
  "size_member load implicit f pField m =
     (if fd_size_offset f \<noteq> 0 then bind_out (shift pField (sint (fd_size_offset f))) (\<lambda>a. load a m) else implicit)"

text \<open>The switch over \<^verbatim>\<open>PB_HTYPE\<close>.\<close>

definition encode_present :: "'u enc_env \<Rightarrow> 'u enc_calls \<Rightarrow> pb_field \<Rightarrow> addr \<Rightarrow> addr \<Rightarrow> bool \<Rightarrow> 'u est \<Rightarrow> (unit outcome \<times> 'u est) option" where
  "encode_present env call f pField pData flag st =
     (let ht = PB_HTYPE f
      in if ht = PB_HTYPE_REQUIRED
         then if pData = Null then Some (enc_error ''missing required field'' st) else tag_and_value env call f pData st
         else if ht = PB_HTYPE_OPTIONAL
         then step_ok (Some (peek (size_member (safe_read_bool (ee_pointer_byte env)) (Ok flag) f pField) st)) (\<lambda>has st.
              if has then tag_and_value env call f pData st else Some (Ok (), st))
         else if ht = PB_HTYPE_REPEATED
         then step_ok (Some (peek (size_member load_u32 (Ok (fd_array_size f)) f pField) st)) (encode_array env call f pData)
         else step_ok (Some (peek (size_member load_u32 Undef f pField) st)) (\<lambda>which st.
              if which = fd_tag f then tag_and_value env call f pData st else Some (Ok (), st)))"

text \<open>An allocated field is present if its pointer is not null.\<close>

definition field_data :: "pb_field \<Rightarrow> addr \<Rightarrow> bool \<Rightarrow> memory \<Rightarrow> (addr \<times> bool) outcome" where
  "field_data f pField flag m =
     (if PB_ATYPE f = PB_ATYPE_POINTER then bind_out (load_ptr pField m) (\<lambda>p. Ok (p, p \<noteq> Null)) else Ok (pField, flag))"

definition encode_basic_field :: "'u enc_env \<Rightarrow> 'u enc_calls \<Rightarrow> pb_field \<Rightarrow> addr \<Rightarrow> 'u est \<Rightarrow> (unit outcome \<times> 'u est) option" where
  "encode_basic_field env call f pField st =
     (if PB_LTYPE_FIXED_LENGTH_BYTES < PB_LTYPE f then Some (Undef, st)
      else step_ok (implicit_flag call f pField st) (\<lambda>flag st.
           step_ok (Some (peek (field_data f pField flag) st)) (\<lambda>(pData, flag). encode_present env call f pField pData flag)))"

definition encode_callback_field :: "'u enc_env \<Rightarrow> pb_field \<Rightarrow> addr \<Rightarrow> 'u est \<Rightarrow> unit outcome \<times> 'u est" where
  "encode_callback_field env f pData st =
     seq_ok (peek (load_ptr pData) st) (\<lambda>func st. case func of
         Null \<Rightarrow> (Ok (), st)
       | Addr b _ \<Rightarrow> (case ee_callbacks env b of
             None \<Rightarrow> (Undef, st)
           | Some c \<Rightarrow> seq_ok (peek (\<lambda>_. shift pData 8) st) (\<lambda>arg st.
               case c (fst st) f arg (snd st) of (ok, st) \<Rightarrow> if ok then (Ok (), st) else enc_error ''callback error'' st)))"

definition encode_field :: "'u enc_env \<Rightarrow> 'u enc_calls \<Rightarrow> pb_field \<Rightarrow> addr \<Rightarrow> 'u est \<Rightarrow> (unit outcome \<times> 'u est) option" where
  "encode_field env call f pData st =
     (if PB_ATYPE f = PB_ATYPE_STATIC \<or> PB_ATYPE f = PB_ATYPE_POINTER then encode_basic_field env call f pData st
      else if PB_ATYPE f = PB_ATYPE_CALLBACK then Some (encode_callback_field env f pData st)
      else Some (enc_error ''invalid field type'' st))"

section \<open>Extensions\<close>

definition enc_ext_type_of :: "'u enc_env \<Rightarrow> addr \<Rightarrow> memory \<Rightarrow> 'u enc_ext_type outcome" where
  "enc_ext_type_of env ext m = bind_out (ext_member ext 0 m) (\<lambda>a. case a of
      Addr t _ \<Rightarrow> (case ee_ext_types env t of Some et \<Rightarrow> Ok et | None \<Rightarrow> Undef) | Null \<Rightarrow> Undef)"

definition default_extension_encoder :: "'u enc_env \<Rightarrow> 'u enc_calls \<Rightarrow> addr \<Rightarrow> 'u est \<Rightarrow> (unit outcome \<times> 'u est) option" where
  "default_extension_encoder env call ext st =
     step_ok (Some (peek (enc_ext_type_of env ext) st)) (\<lambda>et st. case ee_tables env (xt_arg et) of
         [] \<Rightarrow> Some (Undef, st)
       | f # _ \<Rightarrow> step_ok (Some (peek (if PB_ATYPE f = PB_ATYPE_POINTER then (\<lambda>_. shift ext 8) else ext_member ext 8) st)) (encode_field env call f))"

definition encode_extensions :: "'u enc_env \<Rightarrow> 'u enc_calls \<Rightarrow> addr \<Rightarrow> 'u est \<Rightarrow> (unit outcome \<times> 'u est) option" where
  "encode_extensions env call ext st =
     (if ext = Null then Some (Ok (), st)
      else step_ok (Some (peek (enc_ext_type_of env ext) st)) (\<lambda>et st.
           step_ok (case xt_encode et of
               Some c \<Rightarrow> Some (case c (fst st) ext (snd st) of (ok, st) \<Rightarrow> (if ok then Ok () else Fail, st))
             | None \<Rightarrow> default_extension_encoder env call ext st) (\<lambda>_ st.
           step_ok (Some (peek (ext_member ext 16) st)) (\<lambda>ext. call (Encode_extensions ext)))))"

definition encode_extension_field :: "'u enc_calls \<Rightarrow> addr \<Rightarrow> 'u est \<Rightarrow> (unit outcome \<times> 'u est) option" where
  "encode_extension_field call pData st = step_ok (Some (peek (load_ptr pData) st)) (\<lambda>ext. call (Encode_extensions ext))"

section \<open>All fields\<close>

definition encode_fields :: "'u enc_env \<Rightarrow> 'u enc_calls \<Rightarrow> pb_field_iter \<Rightarrow> 'u est \<Rightarrow> (unit outcome \<times> 'u est) option" where
  "encode_fields env call it st =
     step_ok (if PB_LTYPE (it_field it) = PB_LTYPE_EXTENSION then encode_extension_field call (it_data it) st
              else encode_field env call (it_field it) (it_data it) st) (\<lambda>_. next_field Encode_fields call it)"

definition pb_encode :: "'u enc_env \<Rightarrow> 'u enc_calls \<Rightarrow> nat \<Rightarrow> addr \<Rightarrow> 'u est \<Rightarrow> (unit outcome \<times> 'u est) option" where
  "pb_encode env call t src st =
     step_ok (Some (peek (\<lambda>_. pb_field_iter_begin (ee_tables env t) src) st)) (\<lambda>(nonempty, it) st.
       if nonempty then call (Encode_fields it) st else Some (Ok (), st))"

fun enc_perform :: "'u enc_env \<Rightarrow> 'u enc_calls \<Rightarrow> enc_job \<Rightarrow> 'u est \<Rightarrow> (unit outcome \<times> 'u est) option" where
  "enc_perform env call (Encode_message t src) = pb_encode env call t src"
| "enc_perform env call (Encode_fields it) = encode_fields env call it"
| "enc_perform env call (Encode_extensions ext) = encode_extensions env call ext"
| "enc_perform env call (Check_default f pData) = pb_check_proto3_default_value env call f pData"
| "enc_perform env call (Check_fields it) = check_fields call it"

primrec erun :: "nat \<Rightarrow> 'u enc_env \<Rightarrow> 'u enc_calls" where
  "erun 0 env job st = None"
| "erun (Suc n) env job st = enc_perform env (erun n env) job st"

section \<open>Entry points\<close>

definition pb_encode_delimited :: "'u enc_calls \<Rightarrow> nat \<Rightarrow> addr \<Rightarrow> 'u est \<Rightarrow> (unit outcome \<times> 'u est) option" where
  "pb_encode_delimited call t src st = pb_encode_submessage call t src st"

definition pb_encode_nullterminated :: "'u enc_env \<Rightarrow> 'u enc_calls \<Rightarrow> nat \<Rightarrow> addr \<Rightarrow> 'u est \<Rightarrow> (unit outcome \<times> 'u est) option" where
  "pb_encode_nullterminated env call t src st =
     step_ok (pb_encode env call t src st) (\<lambda>_ st. Some (on_stream (pb_write (Some [0]) 1) st))"

definition pb_get_encoded_size :: "'u enc_env \<Rightarrow> 'u enc_calls \<Rightarrow> nat \<Rightarrow> addr \<Rightarrow> memory \<Rightarrow> (u64 outcome \<times> memory) option" where
  "pb_get_encoded_size env call t src m =
     map_option (\<lambda>(r, (s, m)). (bind_out r (\<lambda>_. Ok (bytes_written s)), m)) (pb_encode env call t src (PB_OSTREAM_SIZING, m))"

end
