(* ===== verification/Pb_View.thy ===== *)
theory Pb_View
  imports Pb_Encode Pb_Wire
begin

text \<open>
  What a message in memory is, apart from streams, iterators and substreams: the list of its present fields with their numbers and
  values, read from the structure through its descriptors. The wire format gives the bytes of such a list. Fuel bounds the nesting
  of messages and the chain of extensions; what lies deeper, what an application's callback would write, and submessages of
  \<open>2\<^sup>6\<^sup>3\<close> bytes have no view.
\<close>

section \<open>Messages and their bytes\<close>

datatype pb_value = Scalar wire_value | Packed "wire_value list" | Nested "(u32 \<times> pb_value) list"

definition field_bytes :: "u32 \<Rightarrow> wire_value \<Rightarrow> byte list" where
  "field_bytes tag v = venc (8 * unat tag + wire_type_of v) @ wire_bytes v"

primrec to_wire :: "pb_value \<Rightarrow> wire_value" where
  "to_wire (Scalar v) = v"
| "to_wire (Packed vs) = WString (concat (map wire_bytes vs))"
| "to_wire (Nested fs) = WString (concat (map (\<lambda>(tag, v). field_bytes tag v) (map (map_prod id to_wire) fs)))"

type_synonym pb_message = "(u32 \<times> pb_value) list"

definition message_bytes :: "pb_message \<Rightarrow> byte list" where
  "message_bytes fs = concat (map (\<lambda>(tag, v). field_bytes tag (to_wire v)) fs)"

lemma to_wire_Nested: "to_wire (Nested fs) = WString (message_bytes fs)"
  by (simp add: message_bytes_def o_def split_def)

declare to_wire.simps(3) [simp del]
declare to_wire_Nested [simp]

lemma message_bytes_simps [simp]:
  "message_bytes [] = []"
  "message_bytes ((tag, v) # fs) = field_bytes tag (to_wire v) @ message_bytes fs"
  "message_bytes (fs @ gs) = message_bytes fs @ message_bytes gs"
  by (simp_all add: message_bytes_def)

text \<open>Bytes that fit into an object.\<close>

definition fits_object :: "byte list \<Rightarrow> bool" where
  "fits_object d \<longleftrightarrow> length d < 2 ^ 63"

lemma fits_object_code [code]: "fits_object d \<longleftrightarrow> int (length d) < 9223372036854775808"
  by (simp add: fits_object_def)

section \<open>Values\<close>

fun collect :: "('a \<Rightarrow> 'b outcome) \<Rightarrow> 'a list \<Rightarrow> 'b list outcome" where
  "collect g [] = Ok []"
| "collect g (x # xs) = bind_out (g x) (\<lambda>y. bind_out (collect g xs) (\<lambda>ys. Ok (y # ys)))"

fun all_out :: "('a \<Rightarrow> bool outcome) \<Rightarrow> 'a list \<Rightarrow> bool outcome" where
  "all_out g [] = Ok True"
| "all_out g (x # xs) = bind_out (g x) (\<lambda>b. if b then all_out g xs else Ok False)"

definition int_view :: "(nat \<Rightarrow> u64 \<Rightarrow> u64) \<Rightarrow> pb_field \<Rightarrow> addr \<Rightarrow> memory \<Rightarrow> u64 outcome" where
  "int_view widen f p m =
     (let k = unat (fd_data_size f)
      in if k = 1 \<or> k = 2 \<or> k = 4 \<or> k = 8 then bind_out (load_bytes p k m) (\<lambda>bs. Ok (widen k (le_word bs))) else Fail)"

definition scalar_view :: "(addr \<Rightarrow> nat \<Rightarrow> byte) \<Rightarrow> pb_field \<Rightarrow> addr \<Rightarrow> memory \<Rightarrow> wire_value outcome" where
  "scalar_view ptr f p m =
     (let lt = PB_LTYPE f
      in if lt = PB_LTYPE_BOOL then bind_out (safe_read_bool ptr p m) (\<lambda>b. Ok (WVarint (if b then 1 else 0)))
         else if lt = PB_LTYPE_VARINT then bind_out (int_view narrow_signed f p m) (\<lambda>v. Ok (WVarint v))
         else if lt = PB_LTYPE_UVARINT then bind_out (int_view narrow_unsigned f p m) (\<lambda>v. Ok (WVarint v))
         else if lt = PB_LTYPE_SVARINT then bind_out (int_view narrow_signed f p m) (\<lambda>v. Ok (WVarint (zigzag v)))
         else if lt = PB_LTYPE_FIXED32 then bind_out (load_u32 p m) (\<lambda>v. Ok (W32 v))
         else bind_out (load_bytes p 8 m) (\<lambda>bs. Ok (W64 (le_word bs))))"

definition bytes_view :: "(addr \<Rightarrow> nat \<Rightarrow> byte) \<Rightarrow> pb_field \<Rightarrow> addr \<Rightarrow> memory \<Rightarrow> byte list outcome" where
  "bytes_view ptr f p m =
     (if p = Null then Ok []
      else bind_out (load_u32 p m) (\<lambda>n.
        if PB_ATYPE f = PB_ATYPE_STATIC \<and> (ucast (fd_data_size f) :: u64) - 4 < ucast n then Fail
        else bind_out (shift p 4) (\<lambda>q. load_chars ptr q (unat n) m)))"

definition string_view :: "(addr \<Rightarrow> nat \<Rightarrow> byte) \<Rightarrow> pb_field \<Rightarrow> addr \<Rightarrow> memory \<Rightarrow> byte list outcome" where
  "string_view ptr f p m =
     (if p = Null then Ok []
      else bind_out (string_size ptr m (if PB_ATYPE f = PB_ATYPE_POINTER then -1 else ucast (fd_data_size f)) 0 p) (\<lambda>n.
        load_chars ptr p (unat n) m))"

definition value_view :: "'u enc_env \<Rightarrow> (nat \<Rightarrow> addr \<Rightarrow> pb_message outcome) \<Rightarrow> pb_field \<Rightarrow> addr \<Rightarrow> memory \<Rightarrow> pb_value outcome" where
  "value_view env sub f p m =
     (let lt = PB_LTYPE f; ptr = ee_pointer_byte env
      in if lt \<le> PB_LTYPE_LAST_PACKABLE then bind_out (scalar_view ptr f p m) (\<lambda>v. Ok (Scalar v))
         else if lt = PB_LTYPE_BYTES then bind_out (bytes_view ptr f p m) (\<lambda>bs. Ok (Scalar (WString bs)))
         else if lt = PB_LTYPE_STRING then bind_out (string_view ptr f p m) (\<lambda>bs. Ok (Scalar (WString bs)))
         else if lt = PB_LTYPE_SUBMESSAGE
         then if fd_ptr f = No_ptr then Fail
              else bind_out (submessage f) (\<lambda>t. bind_out (sub t p) (\<lambda>fs.
                if fits_object (message_bytes fs) then Ok (Nested fs) else Undef))
         else if lt = PB_LTYPE_FIXED_LENGTH_BYTES
         then bind_out (load_chars ptr p (unat (fd_data_size f)) m) (\<lambda>bs. Ok (Scalar (WString bs)))
         else Undef)"

definition entry_at :: "pb_field \<Rightarrow> addr \<Rightarrow> nat \<Rightarrow> addr outcome" where
  "entry_at f p i = shift p (int (i * unat (fd_data_size f)))"

section \<open>Fields\<close>

definition single_view :: "'u enc_env \<Rightarrow> (nat \<Rightarrow> addr \<Rightarrow> pb_message outcome) \<Rightarrow> pb_field \<Rightarrow> addr \<Rightarrow> memory \<Rightarrow> pb_message outcome" where
  "single_view env sub f p m =
     (if field_wire_type f = None then Fail else bind_out (value_view env sub f p m) (\<lambda>v. Ok [(fd_tag f, v)]))"

definition array_view :: "'u enc_env \<Rightarrow> (nat \<Rightarrow> addr \<Rightarrow> pb_message outcome) \<Rightarrow> pb_field \<Rightarrow> addr \<Rightarrow> u32 \<Rightarrow> memory \<Rightarrow> pb_message outcome" where
  "array_view env sub f p count m =
     (if count = 0 then Ok []
      else if PB_ATYPE f \<noteq> PB_ATYPE_POINTER \<and> fd_array_size f < count then Fail
      else if PB_LTYPE f \<le> PB_LTYPE_LAST_PACKABLE
      then bind_out (collect (\<lambda>i. bind_out (entry_at f p i) (\<lambda>q. scalar_view (ee_pointer_byte env) f q m)) [0..<unat count]) (\<lambda>vs.
           Ok [(fd_tag f, Packed vs)])
      else bind_out (collect (\<lambda>i. bind_out (entry_at f p i) (\<lambda>q.
             bind_out (if PB_ATYPE f = PB_ATYPE_POINTER \<and> (PB_LTYPE f = PB_LTYPE_STRING \<or> PB_LTYPE f = PB_LTYPE_BYTES) then load_ptr q m else Ok q) (\<lambda>q.
             single_view env sub f q m))) [0..<unat count]) (\<lambda>fs. Ok (concat fs)))"

definition present_view :: "'u enc_env \<Rightarrow> (nat \<Rightarrow> addr \<Rightarrow> pb_message outcome) \<Rightarrow> pb_field \<Rightarrow> addr \<Rightarrow> addr \<Rightarrow> bool \<Rightarrow> memory \<Rightarrow> pb_message outcome" where
  "present_view env sub f p q flag m =
     (let ht = PB_HTYPE f
      in if ht = PB_HTYPE_REQUIRED then if q = Null then Fail else single_view env sub f q m
         else if ht = PB_HTYPE_OPTIONAL
         then bind_out (size_member (safe_read_bool (ee_pointer_byte env)) (Ok flag) f p m) (\<lambda>has. if has then single_view env sub f q m else Ok [])
         else if ht = PB_HTYPE_REPEATED
         then bind_out (size_member load_u32 (Ok (fd_array_size f)) f p m) (\<lambda>count. array_view env sub f q count m)
         else bind_out (size_member load_u32 Undef f p m) (\<lambda>which. if which = fd_tag f then single_view env sub f q m else Ok []))"

definition basic_view :: "'u enc_env \<Rightarrow> (nat \<Rightarrow> addr \<Rightarrow> pb_message outcome) \<Rightarrow> (pb_field \<Rightarrow> addr \<Rightarrow> bool outcome) \<Rightarrow>
    pb_field \<Rightarrow> addr \<Rightarrow> memory \<Rightarrow> pb_message outcome" where
  "basic_view env sub dflt f p m =
     (if PB_LTYPE_FIXED_LENGTH_BYTES < PB_LTYPE f then Undef
      else bind_out (if fd_size_offset f = 0 \<and> PB_HTYPE f = PB_HTYPE_OPTIONAL then bind_out (dflt f p) (\<lambda>b. Ok (\<not> b)) else Ok True) (\<lambda>flag.
           bind_out (field_data f p flag m) (\<lambda>(q, flag). present_view env sub f p q flag m)))"

definition callback_view :: "addr \<Rightarrow> memory \<Rightarrow> pb_message outcome" where
  "callback_view p m = bind_out (load_ptr p m) (\<lambda>func. if func = Null then Ok [] else Undef)"

definition field_view :: "'u enc_env \<Rightarrow> (nat \<Rightarrow> addr \<Rightarrow> pb_message outcome) \<Rightarrow> (pb_field \<Rightarrow> addr \<Rightarrow> bool outcome) \<Rightarrow>
    pb_field \<Rightarrow> addr \<Rightarrow> memory \<Rightarrow> pb_message outcome" where
  "field_view env sub dflt f p m =
     (if PB_ATYPE f = PB_ATYPE_STATIC \<or> PB_ATYPE f = PB_ATYPE_POINTER then basic_view env sub dflt f p m
      else if PB_ATYPE f = PB_ATYPE_CALLBACK then callback_view p m
      else Fail)"

section \<open>Default values\<close>

text \<open>A submessage has the default value if all of its fields have it.\<close>

definition all_fields :: "pb_field list \<Rightarrow> (pb_field \<Rightarrow> addr \<Rightarrow> bool outcome) \<Rightarrow> addr \<Rightarrow> bool outcome" where
  "all_fields tab g p =
     (if wf_table tab (length tab - 1)
      then all_out (\<lambda>i. bind_out (shift p (int (field_off tab i))) (g (tab ! i))) [0..<length tab - 1] else Undef)"

definition own_default :: "(addr \<Rightarrow> nat \<Rightarrow> byte) \<Rightarrow> pb_field \<Rightarrow> addr \<Rightarrow> memory \<Rightarrow> bool outcome" where
  "own_default ptr f p m =
     (let lt = PB_LTYPE f; at = PB_ATYPE f
      in if at = PB_ATYPE_STATIC \<and> lt = PB_LTYPE_BYTES then bind_out (load_u32 p m) (\<lambda>n. Ok (n = 0))
         else if at = PB_ATYPE_STATIC \<and> lt = PB_LTYPE_STRING then bind_out (load_char ptr p m) (\<lambda>c. Ok (c = 0))
         else if at = PB_ATYPE_STATIC \<and> lt = PB_LTYPE_FIXED_LENGTH_BYTES then Ok (fd_data_size f = 0)
         else if at = PB_ATYPE_POINTER \<and> PB_LTYPE_LAST_PACKABLE < lt then bind_out (load_ptr p m) (\<lambda>q. Ok (q = Null))
         else zero_chars ptr (unat (fd_data_size f)) p m)"

primrec is_default :: "nat \<Rightarrow> 'u enc_env \<Rightarrow> pb_field \<Rightarrow> addr \<Rightarrow> memory \<Rightarrow> bool outcome" where
  "is_default 0 env f p m = Undef"
| "is_default (Suc n) env f p m =
     (let ht = PB_HTYPE f; ptr = ee_pointer_byte env
      in bind_out (shift p (sint (fd_size_offset f))) (\<lambda>q.
         if ht = PB_HTYPE_REQUIRED then Ok False
         else if ht = PB_HTYPE_REPEATED \<and> fd_size_offset f \<noteq> 0 \<or> ht = PB_HTYPE_ONEOF then bind_out (load_u32 q m) (\<lambda>n. Ok (n = 0))
         else if ht = PB_HTYPE_REPEATED \<and> PB_ATYPE f = PB_ATYPE_STATIC then Ok False
         else if ht = PB_HTYPE_OPTIONAL \<and> fd_size_offset f \<noteq> 0 then bind_out (safe_read_bool ptr q m) (\<lambda>b. Ok (\<not> b))
         else if PB_ATYPE f = PB_ATYPE_STATIC \<and> PB_LTYPE f = PB_LTYPE_SUBMESSAGE
         then bind_out (submessage f) (\<lambda>t. all_fields (ee_tables env t) (\<lambda>g r. is_default n env g r m) p)
         else own_default ptr f p m))"

section \<open>Messages\<close>

datatype view_job = View_message nat addr | View_extensions addr

definition message_view :: "'u enc_env \<Rightarrow> (view_job \<Rightarrow> pb_message outcome) \<Rightarrow> (pb_field \<Rightarrow> addr \<Rightarrow> bool outcome) \<Rightarrow> nat \<Rightarrow> addr \<Rightarrow> memory \<Rightarrow> pb_message outcome" where
  "message_view env sub dflt t p m =
     (let tab = ee_tables env t
      in if wf_table tab (length tab - 1)
         then bind_out (collect (\<lambda>i. bind_out (shift p (int (field_off tab i))) (\<lambda>q.
                if PB_LTYPE (tab ! i) = PB_LTYPE_EXTENSION then bind_out (load_ptr q m) (\<lambda>ext. sub (View_extensions ext))
                else field_view env (\<lambda>t r. sub (View_message t r)) dflt (tab ! i) q m)) [0..<length tab - 1]) (\<lambda>fs. Ok (concat fs))
         else Undef)"

definition extensions_view :: "'u enc_env \<Rightarrow> (view_job \<Rightarrow> pb_message outcome) \<Rightarrow> (pb_field \<Rightarrow> addr \<Rightarrow> bool outcome) \<Rightarrow> addr \<Rightarrow> memory \<Rightarrow> pb_message outcome" where
  "extensions_view env sub dflt ext m =
     (if ext = Null then Ok []
      else bind_out (enc_ext_type_of env ext m) (\<lambda>et.
        if xt_encode et \<noteq> None then Undef
        else case ee_tables env (xt_arg et) of
            [] \<Rightarrow> Undef
          | f # _ \<Rightarrow>
              bind_out (if PB_ATYPE f = PB_ATYPE_POINTER then shift ext 8 else ext_member ext 8 m) (\<lambda>q.
              bind_out (field_view env (\<lambda>t r. sub (View_message t r)) dflt f q m) (\<lambda>fs.
              bind_out (ext_member ext 16 m) (\<lambda>next.
              bind_out (sub (View_extensions next)) (\<lambda>gs. Ok (fs @ gs)))))))"

primrec view :: "nat \<Rightarrow> 'u enc_env \<Rightarrow> view_job \<Rightarrow> memory \<Rightarrow> pb_message outcome" where
  "view 0 env job m = Undef"
| "view (Suc n) env job m = (case job of
      View_message t p \<Rightarrow> message_view env (\<lambda>j. view n env j m) (\<lambda>f q. is_default n env f q m) t p m
    | View_extensions ext \<Rightarrow> extensions_view env (\<lambda>j. view n env j m) (\<lambda>f q. is_default n env f q m) ext m)"

end
