(* ===== verification/Pb_Image.thy ===== *)
theory Pb_Image
  imports Pb_View
begin

text \<open>
  Structures as bytes: what part of memory a structure occupies, and how the bytes of a structure represent a message. The messages are
  those of tables whose fields all are singular fields of proto3, stored in the structure; submessages are such structures in turn.
\<close>

section \<open>Memory\<close>

text \<open>The bytes \<open>x\<close> stand in an object between the cells \<open>pre\<close> and \<open>post\<close>.\<close>

definition occupies :: "cell list \<Rightarrow> cell list \<Rightarrow> nat \<Rightarrow> byte list \<Rightarrow> memory \<Rightarrow> bool" where
  "occupies pre post b x m \<longleftrightarrow> b < mem_fresh m \<and> mem_objects m b = Some (pre @ map Byte x @ post)"

lemma occupies_part: "occupies pre post b (u @ y @ w) m \<longleftrightarrow> occupies (pre @ map Byte u) (map Byte w @ post) b y m"
  by (simp add: occupies_def)

lemma those_Byte: "those (map cell_byte (map Byte bs)) = Some bs" "those (map (cell_char ptr) (map Byte bs)) = Some bs"
  by (induction bs) auto

lemma occupies_load:
  assumes "occupies pre post b x m" "n \<le> length x"
  shows "load_bytes (Addr b (int (length pre))) n m = Ok (take n x)" "load_chars ptr (Addr b (int (length pre))) n m = Ok (take n x)"
proof -
  have "load_cells (Addr b (int (length pre))) n m = Ok (map Byte (take n x))"
    using assms by (simp add: load_cells_def in_object_def occupies_def take_map)
  then show "load_bytes (Addr b (int (length pre))) n m = Ok (take n x)" "load_chars ptr (Addr b (int (length pre))) n m = Ok (take n x)"
    by (simp_all add: load_bytes_def load_chars_def those_Byte del: map_map)
qed

lemma occupies_char:
  assumes "occupies pre post b (c # x) m"
  shows "load_char ptr (Addr b (int (length pre))) m = Ok c" "occupies (pre @ [Byte c]) post b x m"
  using occupies_load(2) [OF assms, of 1 ptr] occupies_part [of pre post b "[c]" x "[]" m] assms by (simp_all add: load_char_def)

lemma occupies_store:
  assumes "occupies pre post b x m" "length bs \<le> length x"
  obtains m' where "store_bytes (Addr b (int (length pre))) bs m = (Ok (), m')" "occupies pre post b (bs @ drop (length bs) x) m'"
proof -
  let ?m = "m\<lparr>mem_objects := (mem_objects m)(b \<mapsto> pre @ map Byte bs @ drop (length bs) (map Byte x @ post))\<rparr>"
  have "store_bytes (Addr b (int (length pre))) bs m = (Ok (), ?m)"
    using assms by (simp add: store_bytes_def store_cells_def in_object_def occupies_def)
  moreover have "occupies pre post b (bs @ drop (length bs) x) ?m" using assms by (simp add: occupies_def drop_map)
  ultimately show thesis by (rule that)
qed

lemma zero_chars_occupied:
  "occupies pre post b x m \<Longrightarrow> zero_chars ptr (length x) (Addr b (int (length pre))) m = Ok (list_all (\<lambda>c. c = 0) x)"
proof (induction x arbitrary: pre)
  case (Cons c x)
  from Cons.IH [OF occupies_char(2) [OF Cons.prems]] show ?case
    using occupies_char(1) [OF Cons.prems, of ptr] by (simp add: shift_def add.commute)
qed simp

lemma string_size_occupied:
  assumes "occupies pre post b (bs @ 0 # r) m" "0 \<notin> set bs" "unat n + length bs < unat limit"
  shows "string_size ptr m limit n (Addr b (int (length pre))) = Ok (n + of_nat (length bs))"
  using assms
proof (induction bs arbitrary: pre n)
  case Nil
  then have "n < limit" by (simp add: word_less_nat_alt)
  then show ?case using occupies_char(1) [of pre post b 0 r m ptr] Nil.prems(1) by (simp add: string_size.simps)
next
  case (Cons c bs)
  have o: "occupies pre post b (c # bs @ 0 # r) m" using Cons.prems(1) by simp
  have l: "n < limit" "unat (n + 1) = Suc (unat n)"
    using Cons.prems(3) unat_u64_less [of limit] by (simp_all add: word_less_nat_alt unat_word_ariths)
  have "string_size ptr m limit (n + 1) (Addr b (int (length (pre @ [Byte c])))) = Ok (n + 1 + of_nat (length bs))"
    using Cons.prems(2,3) l(2) by (intro Cons.IH [OF occupies_char(2) [OF o]]) simp_all
  then show ?case using occupies_char(1) [OF o, of ptr] l(1) Cons.prems(2)
    by (subst string_size.simps) (simp add: shift_def add.commute add.left_commute)
qed

section \<open>Segments\<close>

definition segment :: "nat \<Rightarrow> nat \<Rightarrow> 'a list \<Rightarrow> 'a list" where
  "segment k n x = take n (drop k x)"

definition patch :: "nat \<Rightarrow> 'a list \<Rightarrow> 'a list \<Rightarrow> 'a list" where
  "patch k y x = take k x @ y @ drop (k + length y) x"

lemma segment_split: "k + n \<le> length x \<Longrightarrow> x = take k x @ segment k n x @ drop (k + n) x"
  by (simp add: segment_def) (metis append_take_drop_id drop_drop add.commute)

lemma length_segment [simp]: "k + n \<le> length x \<Longrightarrow> length (segment k n x) = n"
  by (simp add: segment_def)

lemma length_patch [simp]: "k + length y \<le> length x \<Longrightarrow> length (patch k y x) = length x"
  by (simp add: patch_def)

lemma segment_patch_same: "k + length y \<le> length x \<Longrightarrow> segment k (length y) (patch k y x) = y"
  by (simp add: segment_def patch_def)

lemma segment_patch_other:
  assumes "k + length y \<le> length x" "i + n \<le> k \<or> k + length y \<le> i"
  shows "segment i n (patch k y x) = segment i n x"
proof -
  have "take n (drop i (take k x)) = take n (drop i x)" if "i + n \<le> k" using that by (simp add: drop_take)
  then show ?thesis using assms by (auto simp: segment_def patch_def)
qed

section \<open>Tables\<close>

definition scalar_size :: "pb_field \<Rightarrow> bool" where
  "scalar_size f =
     (let lt = PB_LTYPE f; k = unat (fd_data_size f)
      in if lt = PB_LTYPE_BOOL then k = 1
         else if lt \<le> PB_LTYPE_SVARINT then k = 1 \<or> k = 2 \<or> k = 4 \<or> k = 8
         else if lt = PB_LTYPE_FIXED32 then k = 4
         else if lt = PB_LTYPE_FIXED64 then k = 8
         else if lt = PB_LTYPE_BYTES then 4 \<le> k
         else 0 < k)"

definition singular_field :: "(nat \<Rightarrow> nat \<Rightarrow> bool) \<Rightarrow> pb_field \<Rightarrow> bool" where
  "singular_field sub f \<longleftrightarrow>
     PB_ATYPE f = PB_ATYPE_STATIC \<and> PB_HTYPE f = PB_HTYPE_OPTIONAL \<and> fd_size_offset f = 0 \<and> fd_tag f < 2 ^ 29 \<and> PB_LTYPE f \<le> PB_LTYPE_SUBMESSAGE \<and>
     scalar_size f \<and> (case fd_ptr f of
         No_ptr \<Rightarrow> PB_LTYPE f \<noteq> PB_LTYPE_SUBMESSAGE
       | Sub_fields t \<Rightarrow> PB_LTYPE f = PB_LTYPE_SUBMESSAGE \<and> sub t (unat (fd_data_size f))
       | Default_value _ \<Rightarrow> False)"

primrec singular_table :: "nat \<Rightarrow> (nat \<Rightarrow> pb_field list) \<Rightarrow> nat \<Rightarrow> nat \<Rightarrow> bool" where
  "singular_table 0 tabs t sz = False"
| "singular_table (Suc d) tabs t sz =
     (let tab = tabs t; n = length tab - 1
      in 0 < sz \<and> wf_table tab n \<and> distinct (map fd_tag tab) \<and>
         list_all (\<lambda>i. singular_field (singular_table d tabs) (tab ! i) \<and> field_off tab i + unat (fd_data_size (tab ! i)) \<le> sz) [0..<n])"

section \<open>Messages of a table\<close>

definition of_field :: "pb_field \<Rightarrow> pb_message \<Rightarrow> pb_message" where
  "of_field f fs = filter (\<lambda>(tag, _). tag = fd_tag f) fs"

definition sub_index :: "pb_field \<Rightarrow> nat" where
  "sub_index f = (case fd_ptr f of Sub_fields t \<Rightarrow> t | _ \<Rightarrow> 0)"

definition fits_varint32 :: "byte list \<Rightarrow> bool" where
  "fits_varint32 d \<longleftrightarrow> length d < 2 ^ 32"

lemma fits_varint32_code [code]: "fits_varint32 d \<longleftrightarrow> int (length d) < 4294967296"
  by (simp add: fits_varint32_def)

text \<open>A value that the field can have and that is not its default.\<close>

definition value_fits :: "(nat \<Rightarrow> pb_message \<Rightarrow> bool) \<Rightarrow> pb_field \<Rightarrow> pb_value \<Rightarrow> bool" where
  "value_fits sub f v =
     (let lt = PB_LTYPE f; k = unat (fd_data_size f)
      in case v of
          Packed _ \<Rightarrow> False
        | Nested fs \<Rightarrow> lt = PB_LTYPE_SUBMESSAGE \<and> fs \<noteq> [] \<and> fits_varint32 (message_bytes fs) \<and> sub (sub_index f) fs
        | Scalar w \<Rightarrow> (case w of
              WVarint u \<Rightarrow> u \<noteq> 0 \<and>
                (if lt = PB_LTYPE_BOOL then u = 1
                 else if lt = PB_LTYPE_VARINT then narrow_signed k u = u
                 else if lt = PB_LTYPE_UVARINT then narrow_unsigned k u = u
                 else lt = PB_LTYPE_SVARINT \<and> narrow_signed k (unzigzag u) = unzigzag u)
            | W32 u \<Rightarrow> lt = PB_LTYPE_FIXED32 \<and> u \<noteq> 0
            | W64 u \<Rightarrow> lt = PB_LTYPE_FIXED64 \<and> u \<noteq> 0
            | WString bs \<Rightarrow> bs \<noteq> [] \<and>
                (if lt = PB_LTYPE_BYTES then length bs + 4 \<le> k
                 else lt = PB_LTYPE_STRING \<and> 0 \<notin> set bs \<and> length bs < k)))"

definition field_fits :: "(nat \<Rightarrow> pb_message \<Rightarrow> bool) \<Rightarrow> pb_field \<Rightarrow> pb_message \<Rightarrow> bool" where
  "field_fits sub f fs = (case fs of [] \<Rightarrow> True | [(_, v)] \<Rightarrow> value_fits sub f v | _ \<Rightarrow> False)"

text \<open>Its fields are those of the table, in their order and each at most once.\<close>

primrec message_fits :: "nat \<Rightarrow> (nat \<Rightarrow> pb_field list) \<Rightarrow> nat \<Rightarrow> pb_message \<Rightarrow> bool" where
  "message_fits 0 tabs t fs = False"
| "message_fits (Suc d) tabs t fs =
     (let fields = butlast (tabs t)
      in concat (map (\<lambda>f. of_field f fs) fields) = fs \<and> list_all (\<lambda>f. field_fits (message_fits d tabs) f (of_field f fs)) fields)"

section \<open>Images\<close>

definition value_image :: "(nat \<Rightarrow> byte list \<Rightarrow> pb_message \<Rightarrow> bool) \<Rightarrow> pb_field \<Rightarrow> byte list \<Rightarrow> pb_value \<Rightarrow> bool" where
  "value_image sub f x v =
     (let lt = PB_LTYPE f; k = unat (fd_data_size f)
      in case v of
          Packed _ \<Rightarrow> False
        | Nested fs \<Rightarrow> sub (sub_index f) x fs
        | Scalar w \<Rightarrow> (case w of
              WVarint u \<Rightarrow> x = le_bytes k (unat (if lt = PB_LTYPE_SVARINT then unzigzag u else u))
            | W32 u \<Rightarrow> x = le_bytes 4 (unat u)
            | W64 u \<Rightarrow> x = le_bytes 8 (unat u)
            | WString bs \<Rightarrow> if lt = PB_LTYPE_BYTES then \<exists>r. x = le_bytes 4 (length bs) @ bs @ r else \<exists>r. x = bs @ 0 # r))"

definition field_image :: "(nat \<Rightarrow> byte list \<Rightarrow> pb_message \<Rightarrow> bool) \<Rightarrow> pb_field \<Rightarrow> byte list \<Rightarrow> pb_message \<Rightarrow> bool" where
  "field_image sub f x fs = (case fs of
      [] \<Rightarrow> if PB_LTYPE f = PB_LTYPE_SUBMESSAGE then sub (sub_index f) x [] else x = replicate (length x) 0
    | (_, v) # _ \<Rightarrow> value_image sub f x v)"

definition member_bytes :: "pb_field list \<Rightarrow> nat \<Rightarrow> byte list \<Rightarrow> byte list" where
  "member_bytes tab i x = segment (field_off tab i) (unat (fd_data_size (tab ! i))) x"

primrec message_image :: "nat \<Rightarrow> (nat \<Rightarrow> pb_field list) \<Rightarrow> nat \<Rightarrow> byte list \<Rightarrow> pb_message \<Rightarrow> bool" where
  "message_image 0 tabs t x fs = False"
| "message_image (Suc d) tabs t x fs =
     (\<forall>i < length (tabs t) - 1. field_image (message_image d tabs) (tabs t ! i) (member_bytes (tabs t) i x) (of_field (tabs t ! i) fs))"

end
