(* ===== verification/Pb_Image_View.thy ===== *)
theory Pb_Image_View
  imports Pb_Image
begin

text \<open>The view reads the message that the bytes of a structure represent.\<close>

section \<open>Numbers\<close>

lemma le_value_zero: "le_value bs = 0 \<longleftrightarrow> list_all (\<lambda>c. c = 0) bs"
  by (induction bs) (auto simp: unat_eq_zero)

lemma ucast_le_word:
  assumes "LENGTH('a) = 8 * k" "k \<le> 8"
  shows "(ucast (le_word (le_bytes k (unat u)) :: u64) :: 'a::len word) = ucast u"
proof -
  have "unat (le_word (le_bytes k (unat u)) :: u64) = unat u mod 2 ^ LENGTH('a)"
    using assms by (simp add: unat_le_word le_value_le_bytes pow256)
  then show ?thesis by (simp add: word_unat_eq_iff unsigned_ucast_eq take_bit_eq_mod)
qed

definition int_size :: "nat \<Rightarrow> bool" where
  "int_size k \<longleftrightarrow> k = 1 \<or> k = 2 \<or> k = 4 \<or> k = 8"

lemma narrow_le_word:
  assumes "int_size k"
  shows "narrow_signed k (le_word (le_bytes k (unat u))) = narrow_signed k u"
    and "narrow_unsigned k (le_word (le_bytes k (unat u))) = narrow_unsigned k u"
  using assms le_word_le_bytes [of 8 u] ucast_le_word [where 'a = 8, of 1 u] ucast_le_word [where 'a = 16, of 2 u] ucast_le_word [where 'a = 32, of 4 u]
  by (auto simp: int_size_def narrow_signed_def narrow_unsigned_def simp del: le_bytes.simps le_word.simps)

lemma narrow_0 [simp]: "narrow_signed k 0 = 0" "narrow_unsigned k 0 = 0"
  by (simp_all add: narrow_signed_def narrow_unsigned_def)

lemma le_bytes_zero:
  assumes "list_all (\<lambda>c. c = 0) (le_bytes k (unat u))" "int_size k"
  shows "narrow_signed k u = 0" "narrow_unsigned k u = 0"
proof -
  have "8 * length (le_bytes k (unat u)) \<le> 64" using assms(2) by (auto simp: int_size_def)
  then have "(le_word (le_bytes k (unat u)) :: u64) = 0"
    using assms(1) unat_le_word [where 'a = 64, of "le_bytes k (unat u)"] by (simp add: word_unat_eq_iff le_value_zero)
  then show "narrow_signed k u = 0" "narrow_unsigned k u = 0" using narrow_le_word [OF assms(2), of u] by simp_all
qed

lemma zigzag_unzigzag [simp]: "zigzag (unzigzag w) = w"
proof -
  have "inj zigzag" by (metis injI unzigzag_zigzag)
  then have "surj zigzag" by (intro finite_UNIV_inj_surj) simp_all
  then obtain v where "w = zigzag v" by blast
  then show ?thesis by simp
qed

lemma unzigzag_zero: "unzigzag w = 0 \<longleftrightarrow> w = 0"
proof -
  have "zigzag 0 = 0" by (simp add: zigzag_def)
  then show ?thesis by (metis zigzag_unzigzag unzigzag_zigzag)
qed

section \<open>Types\<close>

lemma singular_types:
  assumes "singular_field tables f"
  shows "PB_ATYPE f = PB_ATYPE_STATIC" "PB_HTYPE f = PB_HTYPE_OPTIONAL" "fd_size_offset f = 0" "PB_LTYPE f \<le> PB_LTYPE_SUBMESSAGE" "scalar_size f" "fd_tag f < 2 ^ 29"
  using assms by (simp_all add: singular_field_def)

lemma singular_submessage:
  assumes "singular_field tables f" "PB_LTYPE f = PB_LTYPE_SUBMESSAGE"
  shows "submessage f = Ok (sub_index f)" "fd_ptr f \<noteq> No_ptr" "tables (sub_index f) (unat (fd_data_size f))"
  using assms by (auto simp: singular_field_def submessage_def sub_index_def split: field_ptr.splits)

lemma singular_No_ptr: "singular_field tables f \<Longrightarrow> PB_LTYPE f \<noteq> PB_LTYPE_SUBMESSAGE \<Longrightarrow> fd_ptr f = No_ptr"
  by (auto simp: singular_field_def split: field_ptr.splits)

lemma ltype_cases:
  assumes "PB_LTYPE f \<le> PB_LTYPE_SUBMESSAGE"
  obtains "PB_LTYPE f = PB_LTYPE_BOOL" | "PB_LTYPE f = PB_LTYPE_VARINT" | "PB_LTYPE f = PB_LTYPE_UVARINT" | "PB_LTYPE f = PB_LTYPE_SVARINT"
    | "PB_LTYPE f = PB_LTYPE_FIXED32" | "PB_LTYPE f = PB_LTYPE_FIXED64" | "PB_LTYPE f = PB_LTYPE_BYTES" | "PB_LTYPE f = PB_LTYPE_STRING"
    | "PB_LTYPE f = PB_LTYPE_SUBMESSAGE"
proof -
  have "unat (PB_LTYPE f) \<le> 8" using assms by (simp add: word_le_nat_alt)
  then have "unat (PB_LTYPE f) \<in> {0, 1, 2, 3, 4, 5, 6, 7, 8}" by (simp; linarith)
  then show thesis using that by (simp only: word_unat_eq_iff unat_0 unat_1 unat_numeral insert_iff empty_iff) auto
qed

lemma value_fits_WVarint:
  "value_fits fits f (Scalar (WVarint u)) \<longleftrightarrow> u \<noteq> 0 \<and>
     (if PB_LTYPE f = PB_LTYPE_BOOL then u = 1
      else if PB_LTYPE f = PB_LTYPE_VARINT then narrow_signed (unat (fd_data_size f)) u = u
      else if PB_LTYPE f = PB_LTYPE_UVARINT then narrow_unsigned (unat (fd_data_size f)) u = u
      else PB_LTYPE f = PB_LTYPE_SVARINT \<and> narrow_signed (unat (fd_data_size f)) (unzigzag u) = unzigzag u)"
  unfolding value_fits_def Let_def pb_value.case wire_value.case by (rule refl)

lemma value_fits_cases:
  assumes "value_fits fits f v"
  obtains (int) u where "v = Scalar (WVarint u)" "PB_LTYPE f \<le> PB_LTYPE_SVARINT" "u \<noteq> 0"
    | (w32) u where "v = Scalar (W32 u)" "PB_LTYPE f = PB_LTYPE_FIXED32" "u \<noteq> 0"
    | (w64) u where "v = Scalar (W64 u)" "PB_LTYPE f = PB_LTYPE_FIXED64" "u \<noteq> 0"
    | (bytes) bs where "v = Scalar (WString bs)" "PB_LTYPE f = PB_LTYPE_BYTES" "bs \<noteq> []" "length bs + 4 \<le> unat (fd_data_size f)"
    | (string) bs where "v = Scalar (WString bs)" "PB_LTYPE f = PB_LTYPE_STRING" "bs \<noteq> []" "0 \<notin> set bs" "length bs < unat (fd_data_size f)"
    | (sub) fs where "v = Nested fs" "PB_LTYPE f = PB_LTYPE_SUBMESSAGE" "fs \<noteq> []" "length (message_bytes fs) < 2 ^ 32" "fits (sub_index f) fs"
proof (cases v)
  case (Scalar w)
  show thesis
  proof (cases w)
    case (WVarint u)
    have "PB_LTYPE f = PB_LTYPE_BOOL \<or> PB_LTYPE f = PB_LTYPE_VARINT \<or> PB_LTYPE f = PB_LTYPE_UVARINT \<or> PB_LTYPE f = PB_LTYPE_SVARINT" "u \<noteq> 0"
      using assms unfolding Scalar WVarint value_fits_WVarint by (metis, blast)
    then have "PB_LTYPE f \<le> PB_LTYPE_SVARINT" "u \<noteq> 0" by auto
    then show thesis using int Scalar WVarint by blast
  next
    case (WString bs)
    then have "bs \<noteq> []" "if PB_LTYPE f = PB_LTYPE_BYTES then length bs + 4 \<le> unat (fd_data_size f)
        else PB_LTYPE f = PB_LTYPE_STRING \<and> 0 \<notin> set bs \<and> length bs < unat (fd_data_size f)"
      using assms Scalar by (simp_all add: value_fits_def Let_def)
    then show thesis using bytes string Scalar WString by (cases "PB_LTYPE f = PB_LTYPE_BYTES") simp_all
  qed (use assms Scalar w32 w64 in \<open>simp_all add: value_fits_def Let_def\<close>)
qed (use assms sub in \<open>simp_all add: value_fits_def Let_def fits_varint32_def\<close>)

section \<open>Values\<close>

lemma int_size_singular:
  assumes "scalar_size f" "PB_LTYPE f \<le> PB_LTYPE_SVARINT"
  shows "int_size (unat (fd_data_size f))"
  using assms by (auto simp: scalar_size_def Let_def int_size_def split: if_splits)

lemma load_u32_image:
  assumes "occupies pre post b (le_bytes 4 (unat u) @ r) m"
  shows "load_u32 (Addr b (int (length pre))) m = Ok u"
  using occupies_load(1) [OF assms, of 4] le_word_le_bytes [of 4 u] by (simp add: load_u32_def)

lemma int_view_image:
  assumes "occupies pre post b (le_bytes (unat (fd_data_size f)) (unat u)) m" "int_size (unat (fd_data_size f))"
  shows "int_view narrow_signed f (Addr b (int (length pre))) m = Ok (narrow_signed (unat (fd_data_size f)) u)"
    and "int_view narrow_unsigned f (Addr b (int (length pre))) m = Ok (narrow_unsigned (unat (fd_data_size f)) u)"
  using occupies_load(1) [OF assms(1), of "unat (fd_data_size f)"] narrow_le_word [OF assms(2), of u] assms(2)
  by (simp_all add: int_view_def Let_def int_size_def)

lemma scalar_shown:
  assumes "singular_field tables f" "value_fits fits f (Scalar (WVarint u))" "PB_LTYPE f \<le> PB_LTYPE_SVARINT"
    and "value_image img f x (Scalar (WVarint u))" "occupies pre post b x m"
  shows "scalar_view ptr f (Addr b (int (length pre))) m = Ok (WVarint u)" "list_all (\<lambda>c. c = 0) x = False"
proof -
  let ?k = "unat (fd_data_size f)" and ?u = "if PB_LTYPE f = PB_LTYPE_SVARINT then unzigzag u else u"
  have ty: "scalar_size f" "PB_LTYPE f \<le> PB_LTYPE_SUBMESSAGE" using singular_types [OF assms(1)] by simp_all
  note k = int_size_singular [OF ty(1) assms(3)]
  have x: "x = le_bytes ?k (unat ?u)" using assms(4) by (simp add: value_image_def)
  have o: "occupies pre post b (le_bytes ?k (unat ?u)) m" using assms(5) x by simp
  have nz: "u \<noteq> 0" using assms(2) unfolding value_fits_WVarint by blast
  then have nz': "?u \<noteq> 0" using unzigzag_zero [of u] by simp
  note iv = int_view_image [OF o k] and z = le_bytes_zero [OF _ k, of ?u]
  from ty(2) show "scalar_view ptr f (Addr b (int (length pre))) m = Ok (WVarint u)"
  proof (cases rule: ltype_cases)
    case 1
    then have "?k = 1" "u = 1" using ty(1) assms(2) by (simp_all add: scalar_size_def value_fits_WVarint Let_def)
    then have "x = [1]" using x 1 by simp
    then show ?thesis using occupies_char(1) [of pre post b 1 "[]" m ptr] assms(5) 1 \<open>u = 1\<close> by (simp add: scalar_view_def safe_read_bool_def)
  qed (use assms(2,3) iv in \<open>simp_all add: scalar_view_def value_fits_WVarint Let_def\<close>)
  have "?u = 0" if "list_all (\<lambda>c. c = 0) x"
    using z that assms(2,3) ty unfolding x
    by (cases rule: ltype_cases [OF ty(2)]) (simp_all add: value_fits_WVarint Let_def scalar_size_def)
  then show "list_all (\<lambda>c. c = 0) x = False" using nz' by blast
qed

lemma le_bytes_nonzero:
  fixes u :: "'a::len word"
  assumes "LENGTH('a) = 8 * k" "u \<noteq> 0"
  shows "list_all (\<lambda>c. c = 0) (le_bytes k (unat u)) = False"
proof -
  have "unat u < 256 ^ k" using unsigned_less [of u] assms(1) by (simp add: pow256)
  then have "le_value (le_bytes k (unat u)) = unat u" by (simp add: le_value_le_bytes)
  then show ?thesis using assms(2) le_value_zero [of "le_bytes k (unat u)"] by (simp add: unat_eq_zero)
qed

lemma bytes_shown:
  assumes "occupies pre post b (le_bytes 4 (length bs) @ bs @ r) m" "length bs + 4 \<le> unat (fd_data_size f)"
  shows "bytes_view ptr f (Addr b (int (length pre))) m = Ok bs" "load_u32 (Addr b (int (length pre))) m = Ok (of_nat (length bs))"
proof -
  have l: "length bs < 2 ^ 32" using assms(2) unat_u32_less [of "fd_data_size f"] by linarith
  then have u: "unat (of_nat (length bs) :: u32) = length bs" by (simp add: unat_of_nat)
  have o: "occupies pre post b (le_bytes 4 (unat (of_nat (length bs) :: u32)) @ bs @ r) m" unfolding u by (rule assms(1))
  show n: "load_u32 (Addr b (int (length pre))) m = Ok (of_nat (length bs))" by (rule load_u32_image [OF o])
  have "occupies (pre @ map Byte (le_bytes 4 (length bs))) (map Byte r @ post) b bs m"
    using assms(1) occupies_part [of pre post b "le_bytes 4 (length bs)" bs r m] by simp
  from occupies_load(2) [OF this, of "length bs" ptr]
  have d: "load_chars ptr (Addr b (int (length pre) + 4)) (length bs) m = Ok bs" by (simp add: add.commute)
  have "\<not> (ucast (fd_data_size f) :: u64) - 4 < ucast (of_nat (length bs) :: u32)"
  proof -
    have f: "unat (ucast (fd_data_size f) :: u64) = unat (fd_data_size f)" by (simp add: unat_ucast_up)
    then have "(4 :: u64) \<le> ucast (fd_data_size f)" using assms(2) by (simp add: word_le_nat_alt)
    then have "unat ((ucast (fd_data_size f) :: u64) - 4) = unat (fd_data_size f) - 4" using f by (simp add: unat_sub)
    moreover have "unat (ucast (of_nat (length bs) :: u32) :: u64) = length bs" using u by (simp add: unat_ucast_up)
    ultimately show ?thesis using assms(2) by (simp add: word_less_nat_alt)
  qed
  then show "bytes_view ptr f (Addr b (int (length pre))) m = Ok bs" using n d u by (simp add: bytes_view_def shift_def)
qed

lemma string_shown:
  assumes "occupies pre post b (bs @ 0 # r) m" "0 \<notin> set bs" "length bs < unat (fd_data_size f)" "PB_ATYPE f = PB_ATYPE_STATIC"
  shows "string_view ptr f (Addr b (int (length pre))) m = Ok bs"
proof -
  have l: "length bs < 2 ^ 64" using assms(3) unat_u32_less [of "fd_data_size f"] by simp
  have "string_size ptr m (ucast (fd_data_size f)) 0 (Addr b (int (length pre))) = Ok (of_nat (length bs))"
    using string_size_occupied [OF assms(1,2), of 0 "ucast (fd_data_size f)" ptr] assms(3) by (simp add: unat_ucast_up)
  moreover have "load_chars ptr (Addr b (int (length pre))) (length bs) m = Ok bs" using occupies_load(2) [OF assms(1), of "length bs" ptr] by simp
  ultimately show ?thesis using assms(4) l by (simp add: string_view_def unat_of_nat)
qed

lemma value_shown:
  assumes f: "singular_field tables f" "value_fits fits f v" "value_image img f x v" "occupies pre post b x m"
    and sub: "\<And>fs. PB_LTYPE f = PB_LTYPE_SUBMESSAGE \<Longrightarrow> fits (sub_index f) fs \<Longrightarrow> img (sub_index f) x fs \<Longrightarrow> sub (sub_index f) (Addr b (int (length pre))) = Ok fs"
  shows "value_view env sub f (Addr b (int (length pre))) m = Ok v"
  using f(2)
proof (cases rule: value_fits_cases)
  case (int u)
  moreover have "PB_LTYPE f \<le> PB_LTYPE_LAST_PACKABLE" using int(2) by (rule order_trans) simp
  ultimately show ?thesis using scalar_shown(1) [of tables f fits u img x pre post b m] f by (simp add: value_view_def)
next
  case (w32 u)
  then have "occupies pre post b (le_bytes 4 (unat u)) m" using f(3,4) by (simp add: value_image_def)
  then show ?thesis using load_u32_image [of pre post b u "[]" m] w32 by (simp add: value_view_def scalar_view_def)
next
  case (w64 u)
  then have "occupies pre post b (le_bytes 8 (unat u)) m" using f(3,4) by (simp add: value_image_def)
  then have "load_bytes (Addr b (int (length pre))) 8 m = Ok (le_bytes 8 (unat u))" using occupies_load(1) [of pre post b "le_bytes 8 (unat u)" m 8] by simp
  then show ?thesis using w64 le_word_le_bytes [of 8 u] by (simp add: value_view_def scalar_view_def)
next
  case (bytes bs)
  then obtain r where "x = le_bytes 4 (length bs) @ bs @ r" using f(3) by (auto simp: value_image_def)
  then show ?thesis using bytes_shown(1) [of pre post b bs r m f] bytes f(4) by (simp add: value_view_def)
next
  case (string bs)
  then obtain r where "x = bs @ 0 # r" using f(3) by (auto simp: value_image_def)
  then show ?thesis using string_shown [of pre post b bs r m f] string f(4) singular_types(1) [OF f(1)] by (simp add: value_view_def)
next
  case (sub fs)
  moreover have "img (sub_index f) x fs" using f(3) sub(1) by (simp add: value_image_def)
  moreover have "fits_object (message_bytes fs)" using sub(4) by (simp add: fits_object_def)
  ultimately show ?thesis using assms(5) singular_submessage(1,2) [OF f(1) sub(2)] by (simp add: value_view_def)
qed

lemma own_default_value:
  assumes f: "singular_field tables f" "value_fits fits f v" "value_image img f x v" "occupies pre post b x m" "PB_LTYPE f \<noteq> PB_LTYPE_SUBMESSAGE"
    and len: "length x = unat (fd_data_size f)"
  shows "own_default ptr f (Addr b (int (length pre))) m = Ok False"
proof -
  note z = zero_chars_occupied [OF f(4), of ptr, unfolded len] and a = singular_types(1) [OF f(1)]
  from f(2) show ?thesis
  proof (cases rule: value_fits_cases)
    case (int u)
    then have "PB_LTYPE f \<noteq> PB_LTYPE_BYTES" "PB_LTYPE f \<noteq> PB_LTYPE_STRING" "PB_LTYPE f \<noteq> PB_LTYPE_FIXED_LENGTH_BYTES" by auto
    then show ?thesis using z a scalar_shown(2) [of tables f fits u img x pre post b m] f int by (simp add: own_default_def)
  next
    case (w32 u)
    then have "x = le_bytes 4 (unat u)" using f(3) by (simp add: value_image_def)
    then show ?thesis using z a w32 le_bytes_nonzero [of 4 u] by (simp add: own_default_def)
  next
    case (w64 u)
    then have "x = le_bytes 8 (unat u)" using f(3) by (simp add: value_image_def)
    then show ?thesis using z a w64 le_bytes_nonzero [of 8 u] by (simp add: own_default_def)
  next
    case (bytes bs)
    then obtain r where x: "x = le_bytes 4 (length bs) @ bs @ r" using f(3) by (auto simp: value_image_def)
    have "length bs < 2 ^ 32" using bytes(4) unat_u32_less [of "fd_data_size f"] by linarith
    then have "unat (of_nat (length bs) :: u32) = length bs" by (simp add: unat_of_nat)
    then have "(of_nat (length bs) :: u32) \<noteq> 0" using bytes(3) by (metis length_0_conv unat_0)
    then show ?thesis using bytes_shown(2) [of pre post b bs r m f] bytes f(4) a x by (simp add: own_default_def)
  next
    case (string bs)
    then obtain r c where x: "x = c # r" "c \<noteq> 0" using f(3) by (cases bs) (auto simp: value_image_def)
    then show ?thesis using occupies_char(1) [of pre post b c r m ptr] string f(4) a by (simp add: own_default_def)
  qed (use f(5) in simp)
qed

lemma own_default_blank:
  assumes "singular_field tables f" "x = replicate (unat (fd_data_size f)) 0" "occupies pre post b x m" "PB_LTYPE f \<noteq> PB_LTYPE_SUBMESSAGE"
  shows "own_default ptr f (Addr b (int (length pre))) m = Ok True"
proof -
  note t = singular_types [OF assms(1)]
  have z: "zero_chars ptr (unat (fd_data_size f)) (Addr b (int (length pre))) m = Ok True"
    using zero_chars_occupied [OF assms(3), of ptr] assms(2) by (simp add: list_all_iff)
  have c: "load_char ptr (Addr b (int (length pre))) m = Ok 0" if "0 < unat (fd_data_size f)"
  proof -
    have "x = 0 # replicate (unat (fd_data_size f) - 1) 0" using assms(2) that by (cases "unat (fd_data_size f)") simp_all
    then show ?thesis using occupies_char(1) assms(3) by blast
  qed
  have n: "load_u32 (Addr b (int (length pre))) m = Ok 0" if "4 \<le> unat (fd_data_size f)"
  proof -
    have "x = replicate 4 0 @ replicate (unat (fd_data_size f) - 4) 0" using assms(2) that by (simp flip: replicate_add)
    moreover have "replicate 4 0 = le_bytes 4 (unat (0 :: u32))" by code_simp
    ultimately have "x = le_bytes 4 (unat (0 :: u32)) @ replicate (unat (fd_data_size f) - 4) 0" by simp
    then show ?thesis using load_u32_image assms(3) by blast
  qed
  show ?thesis using t(4,5) z c n t(1) assms(4) by (cases rule: ltype_cases [OF t(4)]) (simp_all add: own_default_def scalar_size_def)
qed

section \<open>Fields\<close>

text \<open>The bytes of a structure are read as the message that they represent, and as the default value if the message is empty.\<close>

definition readable :: "'u enc_env \<Rightarrow> nat \<Rightarrow> (nat \<Rightarrow> nat \<Rightarrow> bool) \<Rightarrow> (nat \<Rightarrow> pb_message \<Rightarrow> bool) \<Rightarrow> (nat \<Rightarrow> byte list \<Rightarrow> pb_message \<Rightarrow> bool) \<Rightarrow> bool" where
  "readable env n tables fits img \<longleftrightarrow> (\<forall>t pre post b x m fs. tables t (length x) \<longrightarrow> fits t fs \<longrightarrow> img t x fs \<longrightarrow> occupies pre post b x m \<longrightarrow>
     view (Suc n) env (View_message t (Addr b (int (length pre)))) m = Ok fs \<and>
     all_fields (ee_tables env t) (\<lambda>g r. is_default n env g r m) (Addr b (int (length pre))) = Ok (fs = []))"

lemma readableD:
  assumes "readable env n tables fits img" "tables t (length x)" "fits t fs" "img t x fs" "occupies pre post b x m"
  shows "view (Suc n) env (View_message t (Addr b (int (length pre)))) m = Ok fs"
    and "all_fields (ee_tables env t) (\<lambda>g r. is_default n env g r m) (Addr b (int (length pre))) = Ok (fs = [])"
  using assms unfolding readable_def by blast+

lemma field_wire_type_singular: "singular_field tables f \<Longrightarrow> field_wire_type f \<noteq> None"
  by (drule singular_types(4), erule ltype_cases) (simp_all add: field_wire_type_def)

lemma is_default_singular:
  assumes "singular_field tables f"
  shows "is_default (Suc n) env f (Addr b k) m =
    (if PB_LTYPE f = PB_LTYPE_SUBMESSAGE then all_fields (ee_tables env (sub_index f)) (\<lambda>g r. is_default n env g r m) (Addr b k)
     else own_default (ee_pointer_byte env) f (Addr b k) m)"
  using singular_types(1-3) [OF assms] singular_submessage(1) [OF assms] by (simp add: shift_def)

lemma field_default_shown:
  assumes r: "readable env n tables fits img" and f: "singular_field tables f" "field_fits fits f fs" "field_image img f x fs" and e: "\<And>t sz. tables t sz \<Longrightarrow> fits t []"
    and x: "occupies pre post b x m" "length x = unat (fd_data_size f)"
  shows "is_default (Suc n) env f (Addr b (int (length pre))) m = Ok (fs = [])"
proof (cases fs)
  case Nil
  show ?thesis
  proof (cases "PB_LTYPE f = PB_LTYPE_SUBMESSAGE")
    case True
    then have "img (sub_index f) x []" using f(3) Nil by (simp add: field_image_def)
    then show ?thesis using readableD(2) [OF r _ e _ x(1)] singular_submessage(3) [OF f(1) True] x(2) True Nil
      by (simp add: is_default_singular [OF f(1)] del: is_default.simps)
  next
    case False
    then have "x = replicate (unat (fd_data_size f)) 0" using f(3) Nil x(2) by (simp add: field_image_def)
    then show ?thesis using own_default_blank [OF f(1) _ x(1) False] False Nil by (simp add: is_default_singular [OF f(1)] del: is_default.simps)
  qed
next
  case (Cons g gs)
  then obtain tag v where v: "fs = [(tag, v)]" "value_fits fits f v" "value_image img f x v"
    using f(2,3) by (cases g; cases gs) (simp_all add: field_fits_def field_image_def)
  show ?thesis
  proof (cases "PB_LTYPE f = PB_LTYPE_SUBMESSAGE")
    case True
    from v(2) True obtain gs where "v = Nested gs" "gs \<noteq> []" "fits (sub_index f) gs" by (cases rule: value_fits_cases) auto
    moreover from this(1) have "img (sub_index f) x gs" using v(3) by (simp add: value_image_def)
    ultimately show ?thesis using readableD(2) [OF r _ _ _ x(1)] singular_submessage(3) [OF f(1) True] x(2) True v(1)
      by (simp add: is_default_singular [OF f(1)] del: is_default.simps)
  next
    case False
    then show ?thesis using own_default_value [OF f(1) v(2,3) x(1) False x(2)] v(1) by (simp add: is_default_singular [OF f(1)] del: is_default.simps)
  qed
qed

lemma field_view_singular:
  assumes "singular_field tables f"
  shows "field_view env sub dflt f (Addr b k) m = bind_out (dflt f (Addr b k)) (\<lambda>d. if d then Ok [] else single_view env sub f (Addr b k) m)"
proof -
  have "\<not> PB_LTYPE_FIXED_LENGTH_BYTES < PB_LTYPE f" using singular_types(4) [OF assms] by (auto simp: word_less_nat_alt word_le_nat_alt)
  then show ?thesis using singular_types(1-3) [OF assms]
    by (cases "dflt f (Addr b k)") (simp_all add: field_view_def basic_view_def field_data_def present_view_def size_member_def)
qed

lemma field_shown:
  assumes r: "readable env n tables fits img" and f: "singular_field tables f" "field_fits fits f fs" "field_image img f x fs" and e: "\<And>t sz. tables t sz \<Longrightarrow> fits t []"
    and x: "occupies pre post b x m" "length x = unat (fd_data_size f)" and tag: "\<forall>(tag, _) \<in> set fs. tag = fd_tag f"
  shows "field_view env (\<lambda>t r. view (Suc n) env (View_message t r) m) (\<lambda>f q. is_default (Suc n) env f q m) f (Addr b (int (length pre))) m = Ok fs"
proof (cases fs)
  case Nil
  then show ?thesis using field_default_shown [OF r f e x] by (simp add: field_view_singular [OF f(1)] del: is_default.simps view.simps)
next
  case (Cons g gs)
  then obtain v where v: "fs = [(fd_tag f, v)]" "value_fits fits f v" "value_image img f x v"
    using f(2,3) tag by (cases g; cases gs) (auto simp: field_fits_def field_image_def)
  have "value_view env (\<lambda>t r. view (Suc n) env (View_message t r) m) f (Addr b (int (length pre))) m = Ok v"
  proof (rule value_shown [OF f(1) v(2,3) x(1)])
    fix gs assume g: "PB_LTYPE f = PB_LTYPE_SUBMESSAGE" "fits (sub_index f) gs" "img (sub_index f) x gs"
    show "view (Suc n) env (View_message (sub_index f) (Addr b (int (length pre)))) m = Ok gs"
      using readableD(1) [OF r _ g(2,3) x(1)] singular_submessage(3) [OF f(1) g(1)] x(2) by simp
  qed
  then show ?thesis using field_default_shown [OF r f e x] field_wire_type_singular [OF f(1)] v(1)
    by (simp add: field_view_singular [OF f(1)] single_view_def del: is_default.simps view.simps)
qed

section \<open>Messages\<close>

lemma collect_all_Ok: "(\<And>i. i \<in> set xs \<Longrightarrow> g i = Ok (h i)) \<Longrightarrow> collect g xs = Ok (map h xs)"
  by (induction xs) simp_all

lemma all_out_Ok: "(\<And>i. i \<in> set xs \<Longrightarrow> g i = Ok (P i)) \<Longrightarrow> all_out g xs = Ok (\<forall>i \<in> set xs. P i)"
  by (induction xs) simp_all

lemma butlast_nth: "butlast xs = map ((!) xs) [0..<length xs - 1]"
  by (rule nth_equalityI) (simp_all add: nth_butlast)

lemma of_field_tags: "\<forall>(tag, _) \<in> set (of_field f fs). tag = fd_tag f"
  by (auto simp: of_field_def)

lemma of_field_Nil [simp]: "of_field f [] = []"
  by (simp add: of_field_def)

definition singular_layout :: "(nat \<Rightarrow> nat \<Rightarrow> bool) \<Rightarrow> pb_field list \<Rightarrow> nat \<Rightarrow> nat \<Rightarrow> bool" where
  "singular_layout tables tab n sz \<longleftrightarrow> 0 < sz \<and> wf_table tab n \<and> distinct (map fd_tag tab) \<and>
     (\<forall>i < n. singular_field tables (tab ! i) \<and> field_off tab i + unat (fd_data_size (tab ! i)) \<le> sz)"

lemma singular_table_layout: "singular_table (Suc d) tabs t sz \<longleftrightarrow> singular_layout (singular_table d tabs) (tabs t) (length (tabs t) - 1) sz"
  by (auto simp: singular_layout_def list_all_iff Let_def)

lemma message_fits_Nil: "singular_table d tabs t sz \<Longrightarrow> message_fits d tabs t []"
  by (cases d) (simp_all add: field_fits_def list_all_iff)

lemma message_fits_Suc:
  "message_fits (Suc d) tabs t fs \<longleftrightarrow> concat (map (\<lambda>i. of_field (tabs t ! i) fs) [0..<length (tabs t) - 1]) = fs \<and>
     (\<forall>i < length (tabs t) - 1. field_fits (message_fits d tabs) (tabs t ! i) (of_field (tabs t ! i) fs))"
  by (auto simp: Let_def butlast_nth list_all_iff o_def)

lemma occupies_member:
  assumes "occupies pre post b x m" "field_off tab i + unat (fd_data_size (tab ! i)) \<le> length x"
  obtains pre' post' where "occupies pre' post' b (member_bytes tab i x) m" "length pre' = length pre + field_off tab i"
    "\<forall>y m. length y = unat (fd_data_size (tab ! i)) \<longrightarrow> occupies pre' post' b y m \<longrightarrow> occupies pre post b (patch (field_off tab i) y x) m"
proof -
  let ?k = "field_off tab i" and ?n = "unat (fd_data_size (tab ! i))"
  let ?pre = "pre @ map Byte (take ?k x)" and ?post = "map Byte (drop (?k + ?n) x) @ post"
  have "occupies ?pre ?post b (member_bytes tab i x) m"
    using assms segment_split [OF assms(2)] occupies_part [of pre post b "take ?k x" "segment ?k ?n x" "drop (?k + ?n) x" m] by (simp add: member_bytes_def)
  moreover have "occupies pre post b (patch ?k y x) m" if "length y = ?n" "occupies ?pre ?post b y m" for y m
    using that occupies_part [of pre post b "take ?k x" y "drop (?k + ?n) x" m] by (simp add: patch_def)
  ultimately show thesis using that assms(2) by simp
qed

lemma readable_singular: "ee_tables env = tabs \<Longrightarrow> d \<le> n \<Longrightarrow> readable env n (singular_table d tabs) (message_fits d tabs) (message_image d tabs)"
proof (induction d arbitrary: n)
  case (Suc d)
  then obtain k where n: "n = Suc k" and k: "d \<le> k" by (cases n) auto
  note r = Suc.IH [OF Suc.prems(1) k]
  have e: "message_fits d tabs t []" if "singular_table d tabs t sz" for t sz using that by (rule message_fits_Nil)
  show ?case unfolding n readable_def
  proof (intro allI impI, goal_cases)
    case (1 t pre post b x m fs)
    let ?tab = "tabs t" and ?p = "Addr b (int (length pre))"
    let ?n = "length ?tab - 1"
    have lay: "wf_table ?tab ?n" "singular_field (singular_table d tabs) (?tab ! i)" "field_off ?tab i + unat (fd_data_size (?tab ! i)) \<le> length x" if "i < ?n" for i
      using 1(1) that by (auto simp: singular_table_layout singular_layout_def simp del: singular_table.simps)
    have wf: "wf_table ?tab ?n" using 1(1) by (simp add: Let_def)
    have q: "shift ?p (int (field_off ?tab i)) = Ok (Addr b (int (length pre + field_off ?tab i)))" for i by (simp add: shift_def)
    have fit: "field_fits (message_fits d tabs) (?tab ! i) (of_field (?tab ! i) fs)" "field_image (message_image d tabs) (?tab ! i) (member_bytes ?tab i x) (of_field (?tab ! i) fs)"
      if "i < ?n" for i using 1(2,3) that unfolding message_fits_Suc by simp_all
    have def: "is_default (Suc k) env (?tab ! i) (Addr b (int (length pre + field_off ?tab i))) m = Ok (of_field (?tab ! i) fs = [])"
      and val: "field_view env (\<lambda>t r. view (Suc k) env (View_message t r) m) (\<lambda>f q. is_default (Suc k) env f q m) (?tab ! i)
        (Addr b (int (length pre + field_off ?tab i))) m = Ok (of_field (?tab ! i) fs)" if i: "i < ?n" for i
    proof -
      from occupies_member [OF 1(4) lay(3) [OF i]] obtain pre' post' where
        o: "occupies pre' post' b (member_bytes ?tab i x) m" "length pre' = length pre + field_off ?tab i"
          "\<forall>y m. length y = unat (fd_data_size (?tab ! i)) \<longrightarrow> occupies pre' post' b y m \<longrightarrow> occupies pre post b (patch (field_off ?tab i) y x) m" .
      have l: "length (member_bytes ?tab i x) = unat (fd_data_size (?tab ! i))" using lay(3) [OF i] by (simp add: member_bytes_def)
      show "is_default (Suc k) env (?tab ! i) (Addr b (int (length pre + field_off ?tab i))) m = Ok (of_field (?tab ! i) fs = [])"
        using field_default_shown [OF r lay(2) [OF i] fit [OF i] e o(1) l] o(2) by simp
      show "field_view env (\<lambda>t r. view (Suc k) env (View_message t r) m) (\<lambda>f q. is_default (Suc k) env f q m) (?tab ! i)
        (Addr b (int (length pre + field_off ?tab i))) m = Ok (of_field (?tab ! i) fs)"
        using field_shown [OF r lay(2) [OF i] fit [OF i] e o(1) l of_field_tags] o(2) by simp
    qed
    have "PB_LTYPE (?tab ! i) \<noteq> PB_LTYPE_EXTENSION" if "i < ?n" for i
      using singular_types(4) [OF lay(2) [OF that]] by auto
    then have "collect (\<lambda>i. bind_out (shift ?p (int (field_off ?tab i))) (\<lambda>q.
          if PB_LTYPE (?tab ! i) = PB_LTYPE_EXTENSION then bind_out (load_ptr q m) (\<lambda>ext. view (Suc k) env (View_extensions ext) m)
          else field_view env (\<lambda>t r. view (Suc k) env (View_message t r) m) (\<lambda>f q. is_default (Suc k) env f q m) (?tab ! i) q m)) [0..<?n] =
        Ok (map (\<lambda>i. of_field (?tab ! i) fs) [0..<?n])"
      using val by (intro collect_all_Ok) (simp add: q del: is_default.simps view.simps of_nat_add)
    then have "view (Suc (Suc k)) env (View_message t ?p) m = Ok fs"
      using 1(2) wf Suc.prems(1) unfolding message_fits_Suc by (subst view.simps) (simp add: message_view_def Let_def del: is_default.simps view.simps)
    moreover have "all_fields (ee_tables env t) (\<lambda>g r. is_default (Suc k) env g r m) ?p = Ok (fs = [])"
    proof -
      have "all_out (\<lambda>i. bind_out (shift ?p (int (field_off ?tab i))) (\<lambda>r. is_default (Suc k) env (?tab ! i) r m)) [0..<?n] =
          Ok (\<forall>i \<in> set [0..<?n]. of_field (?tab ! i) fs = [])"
        using def by (intro all_out_Ok) (simp add: q del: is_default.simps of_nat_add)
      moreover have "(\<forall>i \<in> set [0..<?n]. of_field (?tab ! i) fs = []) \<longleftrightarrow> concat (map (\<lambda>i. of_field (?tab ! i) fs) [0..<?n]) = []" by auto
      moreover have "concat (map (\<lambda>i. of_field (?tab ! i) fs) [0..<?n]) = fs" using 1(2) unfolding message_fits_Suc by blast
      ultimately have "all_out (\<lambda>i. bind_out (shift ?p (int (field_off ?tab i))) (\<lambda>r. is_default (Suc k) env (?tab ! i) r m)) [0..<?n] = Ok (fs = [])" by (simp only:)
      then show ?thesis using wf Suc.prems(1) by (simp add: all_fields_def del: is_default.simps)
    qed
    ultimately show ?case by blast
  qed
qed (simp add: readable_def)

end
