(* ===== verification/Pb_Restore.thy ===== *)
theory Pb_Restore
  imports Pb_Image_View Pb_Fuel
begin

text \<open>
  Decoding of the wire format of a message into a structure: the bytes of the structure represent the message afterwards. Each decoder
  is run on the bytes of its own member, between what is before and behind it in the object.
\<close>

section \<open>Stores\<close>

lemma narrow_signed_32:
  assumes "narrow_signed k u = u" "k = 1 \<or> k = 2 \<or> k = 4"
  shows "(scast (ucast u :: u32) :: u64) = u"
proof -
  have "scast (ucast (scast w :: u64) :: u32) = (scast w :: u64)" if "w = (ucast u :: byte)" for w
    by (rule bit_word_eqI) (auto simp: bit_simps min_def not_le)
  moreover have "scast (ucast (scast w :: u64) :: u32) = (scast w :: u64)" if "w = (ucast u :: u16)" for w
    by (rule bit_word_eqI) (auto simp: bit_simps min_def not_le)
  ultimately show ?thesis using assms by (auto simp: narrow_signed_def)
qed

lemma store_all:
  assumes "occupies pre post b x m" "length bs = length x"
  obtains m' where "on_mem (store_bytes (Addr b (int (length pre))) bs) (s, m) = (Ok (), s, m')" "occupies pre post b bs m'"
proof -
  from occupies_store [OF assms(1), of bs] assms(2) obtain m' where
    "store_bytes (Addr b (int (length pre))) bs m = (Ok (), m')" "occupies pre post b (bs @ drop (length bs) x) m'" by auto
  then show thesis using that [of m'] assms(2) by (simp add: on_mem_def)
qed

lemma store_clamped_fits:
  fixes s :: "'u pb_istream"
  assumes "occupies pre post b x m" "length x = unat (fd_data_size f)" "int_size (unat (fd_data_size f))" "narrow (unat (fd_data_size f)) u = u"
  obtains m' where "store_clamped narrow f (Addr b (int (length pre))) u (s, m) = (Ok (), s, m')" "occupies pre post b (le_bytes (unat (fd_data_size f)) (unat u)) m'"
proof -
  have "length (le_bytes (unat (fd_data_size f)) (unat u)) = length x" using assms(2) by simp
  from store_all [OF assms(1) this, where s = s] obtain m' where
    m': "on_mem (store_bytes (Addr b (int (length pre))) (le_bytes (unat (fd_data_size f)) (unat u))) (s, m) = (Ok (), s, m')"
      "occupies pre post b (le_bytes (unat (fd_data_size f)) (unat u)) m'" .
  then show thesis using that assms(3,4) by (auto simp: store_clamped_def int_size_def)
qed

section \<open>Values\<close>

context pb_source
begin

lemma varint32_small:
  assumes "ok s" "avail s = venc n @ rest" "n < 2 ^ 32"
  shows "on_stream pb_decode_varint32 (s, m) = (Ok (of_nat n), consume (length (venc n)) s, m)"
  using decode_varint32_venc [OF assms] by (simp add: on_stream_def pb_decode_varint32_def)

lemma decode_int_fits:
  assumes f: "singular_field tables f" "value_fits fits f (Scalar (WVarint u))" "PB_LTYPE f \<le> PB_LTYPE_SVARINT"
    and s: "ok s" "avail s = venc (unat u) @ rest" and x: "occupies pre post b x m" "length x = unat (fd_data_size f)"
  obtains m' where "dec_packable f (Addr b (int (length pre))) (s, m) = (Ok (), consume (length (venc (unat u))) s, m')"
    "occupies pre post b (le_bytes (unat (fd_data_size f)) (unat (if PB_LTYPE f = PB_LTYPE_SVARINT then unzigzag u else u))) m'"
proof -
  let ?p = "Addr b (int (length pre))" and ?s = "consume (length (venc (unat u))) s" and ?k = "unat (fd_data_size f)"
  have ty: "scalar_size f" "PB_LTYPE f \<le> PB_LTYPE_SUBMESSAGE" using singular_types [OF f(1)] by simp_all
  note k = int_size_singular [OF ty(1) f(3)] and store = store_clamped_fits [OF x k]
  have d: "pb_decode_varint s = (Ok u, ?s)" using decode_varint_venc [OF s unat_u64_less] by simp
  from ty(2) show thesis
  proof (cases rule: ltype_cases)
    case 1
    then have u: "u = 1" "?k = 1" using f(2) ty(1) by (simp_all add: value_fits_WVarint scalar_size_def Let_def)
    then have l: "length [1 :: byte] = length x" "le_bytes ?k (unat u) = [1]" using x(2) by simp_all
    have d: "on_stream pb_decode_varint32 (s, m) = (Ok 1, ?s, m)" using varint32_small [of s 1 rest m] s u by simp
    from store_all [OF x(1) l(1), of ?s] obtain m' where
      "on_mem (store_bytes ?p [1]) (?s, m) = (Ok (), ?s, m')" "occupies pre post b [1] m'" .
    then show thesis using that [of m'] 1 d l(2) by (simp add: dec_packable_def pb_dec_bool_def)
  next
    case 2
    then have n: "narrow_signed ?k u = u" using f(2) by (simp add: value_fits_WVarint)
    have "(if fd_data_size f = 8 then u else scast (ucast u :: u32)) = u"
    proof (cases "fd_data_size f = 8")
      case False
      then have "?k \<noteq> 8" by (simp add: word_unat_eq_iff)
      then show ?thesis using narrow_signed_32 [OF n] k False by (auto simp: int_size_def)
    qed simp
    moreover from store [where narrow = narrow_signed and u = u and s = ?s, OF n] obtain m' where
      "store_clamped narrow_signed f ?p u (?s, m) = (Ok (), ?s, m')" "occupies pre post b (le_bytes ?k (unat u)) m'" .
    ultimately show thesis using that [of m'] d 2 by (simp add: dec_packable_def pb_dec_varint_def on_stream_def)
  next
    case 3
    then have "narrow_unsigned ?k u = u" using f(2) by (simp add: value_fits_WVarint)
    from store [where narrow = narrow_unsigned and u = u and s = ?s, OF this] obtain m' where
      "store_clamped narrow_unsigned f ?p u (?s, m) = (Ok (), ?s, m')" "occupies pre post b (le_bytes ?k (unat u)) m'" .
    then show thesis using that [of m'] d 3 by (simp add: dec_packable_def pb_dec_uvarint_def on_stream_def)
  next
    case 4
    then have "narrow_signed ?k (unzigzag u) = unzigzag u" using f(2) by (simp add: value_fits_WVarint)
    from store [where narrow = narrow_signed and u = "unzigzag u" and s = ?s, OF this] obtain m' where
      "store_clamped narrow_signed f ?p (unzigzag u) (?s, m) = (Ok (), ?s, m')" "occupies pre post b (le_bytes ?k (unat (unzigzag u))) m'" .
    moreover have "pb_decode_svarint s = (Ok (unzigzag u), ?s)" using d by (simp add: pb_decode_svarint_def unzigzag_def)
    ultimately show thesis using that [of m'] 4 by (simp add: dec_packable_def pb_dec_svarint_def on_stream_def)
  qed (use f(3) in simp_all)
qed

lemma decode_fixed_fits:
  fixes u :: u32 and w :: u64
  assumes s: "ok s" and x: "occupies pre post b x m" "length x = k"
  shows "avail s = le_bytes 4 (unat u) @ rest \<Longrightarrow> k = 4 \<Longrightarrow>
      \<exists>m'. pb_dec_fixed32 f (Addr b (int (length pre))) (s, m) = (Ok (), consume 4 s, m') \<and> occupies pre post b (le_bytes 4 (unat u)) m'"
    and "avail s = le_bytes 8 (unat w) @ rest \<Longrightarrow> k = 8 \<Longrightarrow>
      \<exists>m'. pb_dec_fixed64 f (Addr b (int (length pre))) (s, m) = (Ok (), consume 8 s, m') \<and> occupies pre post b (le_bytes 8 (unat w)) m'"
proof -
  assume a: "avail s = le_bytes 4 (unat u) @ rest" "k = 4"
  have "length (le_bytes 4 (unat u)) = length x" using x(2) a(2) by simp
  from store_all [OF x(1) this, of "consume 4 s"] obtain m' where
    "on_mem (store_bytes (Addr b (int (length pre))) (le_bytes 4 (unat u))) (consume 4 s, m) = (Ok (), consume 4 s, m')" "occupies pre post b (le_bytes 4 (unat u)) m'" .
  moreover have "pb_decode_fixed32 s = (Ok u, consume 4 s)" using decode_fixed32 [OF s a(1)] le_word_le_bytes [of 4 u] by simp
  ultimately show "\<exists>m'. pb_dec_fixed32 f (Addr b (int (length pre))) (s, m) = (Ok (), consume 4 s, m') \<and> occupies pre post b (le_bytes 4 (unat u)) m'"
    by (simp add: pb_dec_fixed32_def on_stream_def)
next
  assume a: "avail s = le_bytes 8 (unat w) @ rest" "k = 8"
  have "length (le_bytes 8 (unat w)) = length x" using x(2) a(2) by simp
  from store_all [OF x(1) this, of "consume 8 s"] obtain m' where
    "on_mem (store_bytes (Addr b (int (length pre))) (le_bytes 8 (unat w))) (consume 8 s, m) = (Ok (), consume 8 s, m')" "occupies pre post b (le_bytes 8 (unat w)) m'" .
  moreover have "pb_decode_fixed64 s = (Ok w, consume 8 s)" using decode_fixed64 [OF s a(1)] le_word_le_bytes [of 8 w] by simp
  ultimately show "\<exists>m'. pb_dec_fixed64 f (Addr b (int (length pre))) (s, m) = (Ok (), consume 8 s, m') \<and> occupies pre post b (le_bytes 8 (unat w)) m'"
    by (simp add: pb_dec_fixed64_def on_stream_def)
qed

text \<open>A string, of which something is read.\<close>

lemma read_into_fits:
  assumes "ok s" "avail s = bs @ rest" "bs \<noteq> []" "occupies pre post b x m" "length bs \<le> length x"
  obtains m' where "read_into (Addr b (int (length pre))) (length bs) (s, m) = (Ok (), consume (length bs) s, m')" "occupies pre post b (bs @ drop (length bs) x) m'"
proof -
  have "length bs \<le> bytes_left s" using length_avail [OF assms(1)] assms(2) by simp
  then have "pb_read True (length bs) s = (Ok bs, consume (length bs) s)" using assms(1,2) by (simp add: read)
  moreover from occupies_store [OF assms(4,5)] obtain m' where
    "store_bytes (Addr b (int (length pre))) bs m = (Ok (), m')" "occupies pre post b (bs @ drop (length bs) x) m'" .
  ultimately show thesis using that [of m'] assms(3) by (simp add: read_into_def on_stream_def on_mem_def)
qed

lemma decode_bytes_fits:
  assumes s: "ok s" "avail s = venc (length bs) @ bs @ rest" "bs \<noteq> []" and x: "occupies pre post b x m" "length x = unat (fd_data_size f)"
    and f: "length bs + 4 \<le> unat (fd_data_size f)" "PB_ATYPE f = PB_ATYPE_STATIC"
  obtains m' r where "pb_dec_bytes f (Addr b (int (length pre))) (s, m) = (Ok (), consume (length (venc (length bs) @ bs)) s, m')"
    "occupies pre post b (le_bytes 4 (length bs) @ bs @ r) m'" "length (le_bytes 4 (length bs) @ bs @ r) = length x"
proof -
  let ?s = "consume (length (venc (length bs))) s" and ?n = "of_nat (length bs) :: u32" and ?p = "Addr b (int (length pre))"
  have l: "length bs < 2 ^ 32" using f(1) unat_u32_less [of "fd_data_size f"] by linarith
  then have n: "unat ?n = length bs" by (simp add: unat_of_nat)
  have a: "unat (ucast ?n + 4 :: u64) = length bs + 4" using l n by (simp add: unat_word_ariths unat_ucast_up)
  have u: "unat (ucast ?n :: u64) = length bs" using n by (simp add: unat_ucast_up)
  have left: "length (venc (length bs)) + length bs \<le> bytes_left s" using length_avail [OF s(1)] s(2) by simp
  have s': "ok ?s" "avail ?s = bs @ rest" using s left by simp_all
  have "length (le_bytes 4 (length bs)) \<le> length x" using f(1) x(2) by simp
  from occupies_store [OF x(1) this] obtain m1 where
    m1: "store_bytes ?p (le_bytes 4 (length bs)) m = (Ok (), m1)" "occupies pre post b (le_bytes 4 (length bs) @ drop 4 x) m1" by auto
  have o: "occupies (pre @ map Byte (le_bytes 4 (length bs))) post b (drop 4 x) m1"
    using m1(2) occupies_part [of pre post b "le_bytes 4 (length bs)" "drop 4 x" "[]" m1] by simp
  have "length bs \<le> length (drop 4 x)" using f(1) x(2) by simp
  from read_into_fits [OF s' s(3) o this] obtain m2 where
    m2: "read_into (Addr b (int (length pre) + 4)) (length bs) (?s, m1) = (Ok (), consume (length bs) ?s, m2)"
      "occupies (pre @ map Byte (le_bytes 4 (length bs))) post b (bs @ drop (length bs) (drop 4 x)) m2" by (auto simp: add.commute)
  have "occupies pre post b (le_bytes 4 (length bs) @ bs @ drop (length bs) (drop 4 x)) m2"
    using m2(2) occupies_part [of pre post b "le_bytes 4 (length bs)" "bs @ drop (length bs) (drop 4 x)" "[]" m2] by simp
  moreover have "pb_dec_bytes f ?p (s, m) = (Ok (), consume (length bs) ?s, m2)"
  proof -
    have c: "\<not> PB_SIZE_MAX < ?n" by (rule leD [OF word_n1_ge])
    have c': "\<not> (ucast ?n + 4 :: u64) < ucast ?n" "\<not> unat (fd_data_size f) < unat (ucast ?n + 4 :: u64)" using a u f(1) by (simp_all add: word_less_nat_alt)
    show ?thesis unfolding pb_dec_bytes_def varint32_small [OF s(1,2) l] using c c' m1(1) m2(1) n f(2)
      by (simp add: string_dest_def on_mem_def store_u32_def peek_def shift_def)
  qed
  ultimately show thesis using that [of m2 "drop (length bs) (drop 4 x)"] s(1) left f(1) x(2) by simp
qed

lemma decode_string_fits:
  assumes s: "ok s" "avail s = venc (length bs) @ bs @ rest" "bs \<noteq> []" and x: "occupies pre post b x m" "length x = unat (fd_data_size f)"
    and f: "length bs < unat (fd_data_size f)" "PB_ATYPE f = PB_ATYPE_STATIC"
  obtains m' r where "pb_dec_string f (Addr b (int (length pre))) (s, m) = (Ok (), consume (length (venc (length bs) @ bs)) s, m')"
    "occupies pre post b (bs @ 0 # r) m'" "length (bs @ 0 # r) = length x"
proof -
  let ?s = "consume (length (venc (length bs))) s" and ?n = "of_nat (length bs) :: u32" and ?p = "Addr b (int (length pre))"
  have l: "Suc (length bs) < 2 ^ 32" using f(1) unat_u32_less [of "fd_data_size f"] by linarith
  then have n: "unat ?n = length bs" "unat (?n + 1) = Suc (length bs)" by (simp_all add: unat_of_nat unat_word_ariths)
  have a: "unat (ucast (?n + 1) :: u64) = Suc (length bs)" "unat (ucast ?n :: u64) = length bs" using n by (simp_all add: unat_ucast_up)
  have left: "length (venc (length bs)) + length bs \<le> bytes_left s" using length_avail [OF s(1)] s(2) by simp
  have s': "ok ?s" "avail ?s = bs @ rest" using s left by simp_all
  have "length bs \<le> length x" using f(1) x(2) by simp
  from read_into_fits [OF s' s(3) x(1) this] obtain m1 where
    m1: "read_into ?p (length bs) (?s, m) = (Ok (), consume (length bs) ?s, m1)" "occupies pre post b (bs @ drop (length bs) x) m1" .
  have o: "occupies (pre @ map Byte bs) post b (drop (length bs) x) m1" using m1(2) occupies_part [of pre post b bs "drop (length bs) x" "[]" m1] by simp
  have "length [0 :: byte] \<le> length (drop (length bs) x)" using f(1) x(2) by simp
  from occupies_store [OF o this] obtain m2 where
    m2: "store_bytes (Addr b (int (length pre) + int (length bs))) [0] m1 = (Ok (), m2)" "occupies (pre @ map Byte bs) post b (0 # drop (Suc (length bs)) x) m2" by auto
  have "occupies pre post b (bs @ 0 # drop (Suc (length bs)) x) m2" using m2(2) occupies_part [of pre post b bs "0 # drop (Suc (length bs)) x" "[]" m2] by simp
  moreover have "pb_dec_string f ?p (s, m) = (Ok (), consume (length bs) ?s, m2)"
  proof -
    have c: "\<not> (ucast (?n + 1) :: u64) < ucast ?n" "\<not> unat (fd_data_size f) < unat (ucast (?n + 1) :: u64)" using a f(1) by (simp_all add: word_less_nat_alt)
    show ?thesis unfolding pb_dec_string_def varint32_small [OF s(1,2) Suc_lessD [OF l]] using c m1(1) m2(1) n(1) f(2)
      by (simp add: string_dest_def on_mem_def peek_def shift_def)
  qed
  ultimately show thesis using that [of m2 "drop (Suc (length bs)) x"] s(1) left f(1) x(2) by simp
qed

section \<open>Submessages\<close>

text \<open>A call returns with the stream \<open>s\<close> and with bytes in the place that satisfy \<open>P\<close>.\<close>

definition yields :: "'u env \<Rightarrow> ('u calls \<Rightarrow> (unit outcome \<times> 'u dst) option) \<Rightarrow> 'u pb_istream \<Rightarrow> cell list \<Rightarrow> cell list \<Rightarrow> nat \<Rightarrow> nat \<Rightarrow> (byte list \<Rightarrow> bool) \<Rightarrow> bool" where
  "yields env G s pre post b n P \<longleftrightarrow> (\<exists>x m. dec.reach env G (Ok (), s, m) \<and> occupies pre post b x m \<and> length x = n \<and> P x)"

definition restores :: "'u env \<Rightarrow> (nat \<Rightarrow> nat \<Rightarrow> bool) \<Rightarrow> (nat \<Rightarrow> pb_message \<Rightarrow> bool) \<Rightarrow> (nat \<Rightarrow> byte list \<Rightarrow> pb_message \<Rightarrow> bool) \<Rightarrow> bool" where
  "restores env tables fits img \<longleftrightarrow> (\<forall>t pre post b x m s fs. tables t (length x) \<longrightarrow> fits t fs \<longrightarrow> img t x [] \<longrightarrow> occupies pre post b x m \<longrightarrow>
     ok s \<longrightarrow> avail s = message_bytes fs \<longrightarrow>
     yields env (\<lambda>call. call (Decode_message False t (Addr b (int (length pre)))) (s, m)) (consume (length (message_bytes fs)) s) pre post b (length x) (\<lambda>y. img t y fs))"

lemma restoresD:
  assumes "restores env tables fits img" "tables t (length x)" "fits t fs" "img t x []" "occupies pre post b x m" "ok s" "avail s = message_bytes fs"
  shows "yields env (\<lambda>call. call (Decode_message False t (Addr b (int (length pre)))) (s, m)) (consume (length (message_bytes fs)) s) pre post b (length x) (\<lambda>y. img t y fs)"
  using assms unfolding restores_def by blast

lemma yields_Some: "yields env (\<lambda>_. Some (Ok (), s, m)) s pre post b n P \<longleftrightarrow> (\<exists>x. occupies pre post b x m \<and> length x = n \<and> P x)"
  by (auto simp: yields_def)

lemma yields_submessage:
  assumes r: "restores env tables fits img" and f: "singular_field tables f" "PB_LTYPE f = PB_LTYPE_SUBMESSAGE" "fits (sub_index f) fs" "length (message_bytes fs) < 2 ^ 32"
    and s: "ok s" "avail s = venc (length (message_bytes fs)) @ message_bytes fs @ rest"
    and x: "occupies pre post b x m" "length x = unat (fd_data_size f)" "img (sub_index f) x []"
  shows "yields env (\<lambda>call. pb_dec_submessage call f (Addr b (int (length pre))) (s, m))
    (consume (length (venc (length (message_bytes fs)) @ message_bytes fs)) s) pre post b (length x) (\<lambda>y. img (sub_index f) y fs)"
proof -
  let ?d = "message_bytes fs"
  let ?s = "consume (length (venc (length ?d))) s"
  let ?sub = "?s\<lparr>bytes_left := length ?d\<rparr>" and ?par = "?s\<lparr>bytes_left := length rest\<rparr>"
  note mk = make_substream [OF s f(4)] and sm = singular_submessage [OF f(1,2)]
  have left: "bytes_left s = length (venc (length ?d)) + length ?d + length rest" using length_avail [OF s(1)] s(2) by simp
  have "yields env (\<lambda>call. call (Decode_message False (sub_index f) (Addr b (int (length pre)))) (?sub, m)) (consume (length ?d) ?sub) pre post b (length x) (\<lambda>y. img (sub_index f) y fs)"
    by (rule restoresD [OF r _ f(3) x(3,1) mk(2,3)]) (use sm(3) x(2) in simp)
  then obtain y m' where y: "dec.reach env (\<lambda>call. call (Decode_message False (sub_index f) (Addr b (int (length pre)))) (?sub, m)) (Ok (), consume (length ?d) ?sub, m')"
    "occupies pre post b y m'" "length y = length x" "img (sub_index f) y fs" unfolding yields_def by blast
  have "ok (?s\<lparr>bytes_left := length ?d + length rest\<rparr>)" using s(1) left by (clarsimp simp: ok_def) linarith
  from close_substream [OF this order_refl] have "pb_close_string_substream (consume (length ?d) ?sub) ?par = (Ok (), ?par\<lparr>is_state := adv (length ?d) (is_state ?s)\<rparr>)" .
  moreover have "?par\<lparr>is_state := adv (length ?d) (is_state ?s)\<rparr> = consume (length (venc (length ?d) @ ?d)) s"
    using s(1) left by (auto simp: consume_def ok_def)
  ultimately have c: "close_after ?par (Ok (), consume (length ?d) ?sub, m') = (Ok (), consume (length (venc (length ?d) @ ?d)) s, m')"
    by (simp add: close_after_def on_stream_def)
  have "dec.reach env (\<lambda>call. map_option (close_after ?par) (call (Decode_message False (sub_index f) (Addr b (int (length pre)))) (?sub, m)))
      (Ok (), consume (length (venc (length ?d) @ ?d)) s, m')"
    using dec.reach_map [OF y(1), of "close_after ?par"] unfolding c .
  then have "dec.reach env (\<lambda>call. pb_dec_submessage call f (Addr b (int (length pre))) (s, m)) (Ok (), consume (length (venc (length ?d) @ ?d)) s, m')"
    using sm mk(1) singular_types(2) [OF f(1)] by (simp add: pb_dec_submessage_def on_stream_def)
  then show ?thesis using y(2-4) unfolding yields_def by blast
qed

section \<open>Fields\<close>

lemma yields_value:
  assumes r: "restores env tables fits img" and f: "singular_field tables f" "value_fits fits f v"
    and s: "ok s" "avail s = wire_bytes (to_wire v) @ rest"
    and x: "occupies pre post b x m" "length x = unat (fd_data_size f)" "field_image img f x []"
  shows "yields env (\<lambda>call. PB_DECODERS call f (Addr b (int (length pre))) (s, m)) (consume (length (wire_bytes (to_wire v))) s) pre post b (length x) (\<lambda>y. value_image img f y v)"
  using f(2)
proof (cases rule: value_fits_cases)
  case (int u)
  have p: "PB_LTYPE f \<le> PB_LTYPE_LAST_PACKABLE" using int(2) by (rule order_trans) simp
  from decode_int_fits [OF f(1) f(2) [unfolded int(1)] int(2) s(1) _ x(1,2)] s(2) int(1) obtain m' where
    "dec_packable f (Addr b (int (length pre))) (s, m) = (Ok (), consume (length (venc (unat u))) s, m')"
    "occupies pre post b (le_bytes (unat (fd_data_size f)) (unat (if PB_LTYPE f = PB_LTYPE_SVARINT then unzigzag u else u))) m'" by auto
  then show ?thesis using p x(2) int(1) by (auto simp: PB_DECODERS_def yields_Some value_image_def)
next
  case (w32 u)
  then have "unat (fd_data_size f) = 4" using singular_types(5) [OF f(1)] by (simp add: scalar_size_def)
  then show ?thesis using decode_fixed_fits(1) [OF s(1) x(1,2), of u rest f] s(2) w32 x(2) by (auto simp: PB_DECODERS_def dec_packable_def yields_Some value_image_def)
next
  case (w64 u)
  then have "unat (fd_data_size f) = 8" using singular_types(5) [OF f(1)] by (simp add: scalar_size_def)
  then show ?thesis using decode_fixed_fits(2) [OF s(1) x(1,2), of u rest f] s(2) w64 x(2) by (auto simp: PB_DECODERS_def dec_packable_def yields_Some value_image_def)
next
  case (bytes bs)
  from decode_bytes_fits [OF s(1) _ bytes(3) x(1,2) bytes(4) singular_types(1) [OF f(1)]] s(2) bytes(1) obtain m' r where
    "pb_dec_bytes f (Addr b (int (length pre))) (s, m) = (Ok (), consume (length (venc (length bs) @ bs)) s, m')"
    "occupies pre post b (le_bytes 4 (length bs) @ bs @ r) m'" "length (le_bytes 4 (length bs) @ bs @ r) = length x" by auto
  then show ?thesis using bytes(1,2) by (auto simp: PB_DECODERS_def yields_Some value_image_def)
next
  case (string bs)
  from decode_string_fits [OF s(1) _ string(3) x(1,2) string(5) singular_types(1) [OF f(1)]] s(2) string(1) obtain m' r where
    "pb_dec_string f (Addr b (int (length pre))) (s, m) = (Ok (), consume (length (venc (length bs) @ bs)) s, m')"
    "occupies pre post b (bs @ 0 # r) m'" "length (bs @ 0 # r) = length x" by auto
  then show ?thesis using string(1,2) by (auto simp: PB_DECODERS_def yields_Some value_image_def)
next
  case (sub fs)
  have "avail s = venc (length (message_bytes fs)) @ message_bytes fs @ rest" using s(2) sub(1) by simp
  moreover have "img (sub_index f) x []" using x(3) sub(2) by (simp add: field_image_def)
  ultimately show ?thesis using yields_submessage [OF r f(1) sub(2,5,4) s(1) _ x(1,2)] sub(1,2) by (simp add: PB_DECODERS_def value_image_def)
qed

lemma decode_field_singular:
  assumes "singular_field tables (tab ! i)" "size_off tab i = int (field_off tab i)"
  shows "decode_field env call wire_type (it_at tab b k i) st =
    step_ok (PB_DECODERS call (tab ! i) (Addr b (k + int (field_off tab i))) st) (\<lambda>_ st. Some (Ok (it_at tab b k i), st))"
proof -
  have "\<not> PB_LTYPE_FIXED_LENGTH_BYTES < PB_LTYPE (tab ! i)" using singular_types(4) [OF assms(1)] by (auto simp: word_less_nat_alt word_le_nat_alt)
  then show ?thesis using singular_types(1,2) [OF assms(1)] assms(2) by (simp add: decode_field_def decode_static_field_def)
qed

end

section \<open>Tables\<close>

lemma singular_off:
  assumes "singular_layout tables tab n sz"
  shows "i < n \<Longrightarrow> size_off tab i = int (field_off tab i)" "i < j \<Longrightarrow> j < n \<Longrightarrow> field_off tab i + unat (fd_data_size (tab ! i)) \<le> field_off tab j"
proof -
  have t: "PB_ATYPE (tab ! i) = PB_ATYPE_STATIC" "PB_HTYPE (tab ! i) = PB_HTYPE_OPTIONAL" "fd_size_offset (tab ! i) = 0" if "i < n" for i
    using assms that singular_types by (auto simp: singular_layout_def)
  have c: "\<not> continues tab i" if "i < n" for i using t(2) [OF that] by (simp add: continues_def)
  show "i < n \<Longrightarrow> size_off tab i = int (field_off tab i)" using t(3) [of i] c [of "i - 1"] by (cases i) simp_all
  show "i < j \<Longrightarrow> j < n \<Longrightarrow> field_off tab i + unat (fd_data_size (tab ! i)) \<le> field_off tab j"
  proof (induction j)
    case (Suc j)
    have "field_off tab (Suc j) = field_off tab j + unat (fd_data_size (tab ! j)) + unat (fd_data_offset (tab ! Suc j))"
      using t [of j] c [of j] Suc.prems by (simp add: prev_size_def)
    then show ?case using Suc by (cases "i = j") simp_all
  qed simp
qed

lemma find_singular:
  assumes "singular_layout tables tab n sz" "i < n" "j < n"
  shows "pb_field_iter_find (it_at tab b k j) (fd_tag (tab ! i)) = Some (Ok (True, it_at tab b k i))"
proof -
  let ?P = "wanted_field (fd_tag (tab ! i))"
  have wf: "wf_table tab n" "distinct (map fd_tag tab)" "singular_field tables (tab ! i)" using assms by (simp_all add: singular_layout_def)
  have len: "length tab = Suc n" using wf(1) by (simp add: wf_table_def)
  have "?P (tab ! i)" using singular_types(4) [OF wf(3)] by (auto simp: wanted_field_def)
  then have e: "\<exists>j < n. ?P (tab ! j)" using assms(2) by blast
  note ff = first_from [OF assms(3) e]
  have "fd_tag (tab ! first_from ?P tab n j) = fd_tag (tab ! i)" using ff(2) unfolding wanted_field_def [of _ "tab ! first_from ?P tab n j"] by blast
  then have "first_from ?P tab n j = i" using wf(2) ff(1) assms(2) len nth_eq_iff_index_eq [OF wf(2), of "first_from ?P tab n j" i] by simp
  then show ?thesis using find_loop_exact [OF wf(1) assms(3), of ?P b k] e by (simp add: pb_field_iter_find_def)
qed

lemma required_singular:
  assumes "singular_layout tables tab n sz" "i < n \<or> n = 0 \<and> i = 0"
  shows "required_count (it_at tab b k i) = Ok 0"
proof -
  have wf: "wf_table tab n" using assms(1) by (simp add: singular_layout_def)
  have len: "length tab = Suc n" using wf by (simp add: wf_table_def)
  have opt: "PB_HTYPE (tab ! j) = PB_HTYPE_OPTIONAL" if "j < n" for j using assms(1) that singular_types(2) by (auto simp: singular_layout_def)
  have none: "required_before tab j = 0" if "j \<le> n" for j
  proof -
    have "filter (\<lambda>f. PB_HTYPE f = PB_HTYPE_REQUIRED) (take j tab) = []" using opt that len by (auto simp: filter_empty_conv in_set_conv_nth)
    then show ?thesis by (simp add: required_before_def)
  qed
  have req: "it_required (it_at tab b k j) = 0" if "j \<le> n" for j using none [OF that] by (simp add: it_at_def)
  show ?thesis
  proof (cases "n = 0")
    case True
    then have "pb_field_iter_next (it_at tab b k i) = Ok (False, it_at tab b k i)" "fd_tag (tab ! i) = 0"
      using wf assms(2) by (auto simp: pb_field_iter_next_def wf_table_def)
    moreover from this(1) have "seek_end (it_at tab b k i) = Ok (it_required (it_at tab b k i), tab ! i, it_at tab b k i)" by (subst seek_end.simps) simp
    ultimately show ?thesis using req [of i] True assms(2) by (simp add: required_count_def PB_MAX_REQUIRED_FIELDS_def del: seek_end.simps)
  next
    case False
    have "seek_end (it_at tab b k i) = Ok (0, tab ! (n - 1), it_at tab b k 0)" if "i < n" for i
      using that
    proof (induction "n - i" arbitrary: i)
      case (Suc d)
      note nxt = iter_next_at [OF wf Suc.prems, of b k]
      show ?case
      proof (cases "Suc i < n")
        case True
        then have "seek_end (it_at tab b k (Suc i)) = Ok (0, tab ! (n - 1), it_at tab b k 0)" using Suc by (intro Suc.hyps(1)) simp_all
        then show ?thesis using nxt True by (subst seek_end.simps) (simp del: seek_end.simps)
      next
        case False
        then have "i = n - 1" using Suc.prems by linarith
        then show ?thesis using nxt False req [of i] by (subst seek_end.simps) (simp del: seek_end.simps)
      qed
    qed simp
    then show ?thesis using assms(2) False opt [of "n - 1"] by (simp add: required_count_def PB_MAX_REQUIRED_FIELDS_def del: seek_end.simps)
  qed
qed

end
