(* ===== verification/Pb_Restored.thy ===== *)
theory Pb_Restored
  imports Pb_Restore
begin

text \<open>Decoding of all fields of a message, and of messages, with the defaults that are set before.\<close>

section \<open>All fields\<close>

lemma member_patch:
  assumes "singular_layout tables tab n sz" "i < n" "j < n" "length x = sz" "length y = unat (fd_data_size (tab ! j))"
  shows "member_bytes tab i (patch (field_off tab j) y x) = (if i = j then y else member_bytes tab i x)"
proof -
  have j: "field_off tab j + length y \<le> length x" using assms by (simp add: singular_layout_def)
  show ?thesis
  proof (cases "i = j")
    case True
    then show ?thesis using segment_patch_same [OF j] assms(5) by (simp add: member_bytes_def)
  next
    case False
    then have "field_off tab i + unat (fd_data_size (tab ! i)) \<le> field_off tab j \<or> field_off tab j + length y \<le> field_off tab i"
      using singular_off(2) [OF assms(1), of i j] singular_off(2) [OF assms(1), of j i] assms(2,3,5) by (cases "i < j") simp_all
    then show ?thesis using segment_patch_other [OF j] False by (simp add: member_bytes_def)
  qed
qed

lemma wire_type_of_less: "wire_type_of v < 8"
  by (cases v) simp_all

context pb_source
begin

lemma decode_tag_of:
  assumes "ok s" "avail s = venc (8 * unat tag + w) @ rest" "tag \<noteq> 0" "tag < 2 ^ 29" "w < 8"
  obtains w' where "pb_decode_tag s = (False, Ok (w', tag), consume (length (venc (8 * unat tag + w))) s)"
proof -
  let ?w = "of_nat (8 * unat tag + w) :: u32"
  have "unat tag < 2 ^ 29" using assms(4) by (simp add: word_less_nat_alt)
  then have u: "unat ?w = 8 * unat tag + w" using assms(5) by (simp add: unat_of_nat del: of_nat_add of_nat_mult)
  have "0 < unat tag" using assms(3) by (simp add: unat_gt_0)
  then have "?w \<noteq> 0" using u by (metis add_is_0 less_not_refl mult_is_0 unat_0 zero_neq_numeral)
  moreover have "drop_bit 3 ?w = tag"
  proof -
    have "unat (drop_bit 3 ?w) = drop_bit 3 (unat ?w)" by (simp only: unat_drop_bit_eq)
    then show ?thesis using u assms(5) by (simp add: word_unat_eq_iff drop_bit_eq_div del: of_nat_add of_nat_mult)
  qed
  ultimately show thesis using that [of "unat (?w AND 7)"] decode_tag [OF assms(1), of ?w rest] assms(2) u by (simp del: of_nat_add of_nat_mult)
qed

lemma yields_call: "yields env (\<lambda>call. perform env call job st) s pre post b n P \<Longrightarrow> yields env (\<lambda>call. call job st) s pre post b n P"
  unfolding yields_def using dec.reach_call by blast

lemma yields_step:
  assumes "dec.reach env G (Ok a, st)" "grows G" "\<And>a st. grows (\<lambda>call. H call a st)" "yields env (\<lambda>call. H call a st) s pre post b n P"
  shows "yields env (\<lambda>call. step_ok (G call) (H call)) s pre post b n P"
  using assms(4) dec.reach_step(1) [where H = H, OF assms(2,3,1)] unfolding yields_def by blast

text \<open>One round of the loop.\<close>

lemma decode_fields_singular:
  fixes s :: "'u pb_istream"
  assumes lay: "singular_layout tables tab n sz" "i < n" "j < n" and ls: "ls_iter ls = it_at tab b k i"
    and s: "pb_decode_tag s = (False, Ok (w, fd_tag (tab ! j)), s1)" "bytes_left s \<noteq> 0"
  shows "decode_fields env call ls (s, m) =
    step_ok (step_ok (PB_DECODERS call (tab ! j) (Addr b (k + int (field_off tab j))) (s1, m)) (\<lambda>_ st. Some (Ok (it_at tab b k j), st)))
      (\<lambda>it. call (Decode_fields (ls\<lparr>ls_iter := it\<rparr>)))"
proof -
  have f: "singular_field tables (tab ! j)" using lay(1,3) by (simp add: singular_layout_def)
  have "fixed_count_field (ls\<lparr>ls_iter := it_at tab b k j\<rparr>) st = (Ok (ls\<lparr>ls_iter := it_at tab b k j\<rparr>), st)" for st :: "'u dst"
    using singular_types(2) [OF f] by (simp add: fixed_count_field_def Let_def)
  moreover have "mark_seen (ls\<lparr>ls_iter := it_at tab b k j\<rparr>) = ls\<lparr>ls_iter := it_at tab b k j\<rparr>"
    using singular_types(2) [OF f] by (simp add: mark_seen_def Let_def)
  ultimately show ?thesis using s ls find_singular [OF lay(1,3,2), of b k]
    by (simp add: decode_fields_def known_field_def decode_field_singular [OF f singular_off(1) [OF lay(1,3)]])
qed

lemma fields_restored:
  assumes r: "restores env tables fits img" and lay: "singular_layout tables tab n sz"
    and part: "\<And>i. i < n \<Longrightarrow> field_fits fits (tab ! i) (part i)" "\<And>i. i < n \<Longrightarrow> \<forall>(tag, _) \<in> set (part i). tag = fd_tag (tab ! i)"
  shows "j \<le> n \<Longrightarrow> ls_iter ls = it_at tab b (int (length pre)) i0 \<Longrightarrow> i0 < n \<or> n = 0 \<and> i0 = 0 \<Longrightarrow> ls_fixed_field ls = None \<Longrightarrow>
    ok s \<Longrightarrow> avail s = message_bytes (concat (map part [j..<n])) \<Longrightarrow> occupies pre post b x m \<Longrightarrow> length x = sz \<Longrightarrow>
    (\<And>i. i < n \<Longrightarrow> field_image img (tab ! i) (member_bytes tab i x) (if i < j then part i else [])) \<Longrightarrow>
    yields env (\<lambda>call. call (Decode_fields ls) (s, m)) (consume (length (message_bytes (concat (map part [j..<n])))) s) pre post b sz
      (\<lambda>y. \<forall>i < n. field_image img (tab ! i) (member_bytes tab i y) (part i))"
proof (induction "n - j" arbitrary: j ls s x m i0)
  case 0
  then have j: "j = n" by simp
  then have left: "bytes_left s = 0" using length_avail [OF 0(6)] 0(7) by simp
  have "check_end ls (s, m) = (Ok (), s, m)"
    using required_singular [OF lay 0(4), of b "int (length pre)"] 0(3,5) by (simp add: check_end_def check_fixed_count_def peek_def all_seen_def)
  then have "dec.reach env (\<lambda>call. perform env call (Decode_fields ls) (s, m)) (Ok (), s, m)" using left by (simp add: decode_fields_def)
  from dec.reach_call [OF this] show ?case using 0(6,8-10) j unfolding yields_def by auto
next
  case (Suc d)
  then have j: "j < n" by linarith
  then have up: "[j..<n] = j # [Suc j..<n]" by (rule upt_conv_Cons)
  show ?case
  proof (cases "part j")
    case Nil
    have img: "field_image img (tab ! i) (member_bytes tab i x) (if i < Suc j then part i else [])" if "i < n" for i
      using Suc.prems(9) [OF that] Nil by (cases "i = j") (simp_all add: less_Suc_eq)
    have "yields env (\<lambda>call. call (Decode_fields ls) (s, m)) (consume (length (message_bytes (concat (map part [Suc j..<n])))) s) pre post b sz
      (\<lambda>y. \<forall>i < n. field_image img (tab ! i) (member_bytes tab i y) (part i))"
      using Suc.hyps(2) Nil j by (intro Suc.hyps(1) [OF _ _ Suc.prems(2-5) _ Suc.prems(7,8) img]) (simp_all add: Suc.prems(6) up)
    then show ?thesis using Nil up by simp
  next
    case (Cons g gs)
    let ?f = "tab ! j"
    obtain v where v: "part j = [(fd_tag ?f, v)]" "value_fits fits ?f v"
      using part [OF j] Cons by (cases g; cases gs) (auto simp: field_fits_def)
    have f: "singular_field tables ?f" "field_off tab j + unat (fd_data_size ?f) \<le> length x" "fd_tag ?f \<noteq> 0"
      using lay j Suc.prems(8) by (simp_all add: singular_layout_def wf_table_def)
    let ?rest = "message_bytes (concat (map part [Suc j..<n]))" and ?t = "venc (8 * unat (fd_tag ?f) + wire_type_of (to_wire v))" and ?w = "wire_bytes (to_wire v)"
    have av: "avail s = ?t @ ?w @ ?rest" using Suc.prems(6) up v(1) by (simp add: field_bytes_def)
    have left: "bytes_left s = length ?t + length ?w + length ?rest" using length_avail [OF Suc.prems(5)] av by simp
    from decode_tag_of [OF Suc.prems(5) av f(3) singular_types(6) [OF f(1)] wire_type_of_less] obtain w where
      tg: "pb_decode_tag s = (False, Ok (w, fd_tag ?f), consume (length ?t) s)" .
    have s1: "ok (consume (length ?t) s)" "avail (consume (length ?t) s) = ?w @ ?rest" using Suc.prems(5) av left by simp_all
    from occupies_member [OF Suc.prems(7) f(2)] obtain pre' post' where
      o: "occupies pre' post' b (member_bytes tab j x) m" "length pre' = length pre + field_off tab j"
        "\<forall>y m. length y = unat (fd_data_size ?f) \<longrightarrow> occupies pre' post' b y m \<longrightarrow> occupies pre post b (patch (field_off tab j) y x) m" .
    have mb: "length (member_bytes tab j x) = unat (fd_data_size ?f)" "field_image img ?f (member_bytes tab j x) []"
      using f(2) Suc.prems(9) [OF j] by (simp_all add: member_bytes_def)
    from yields_value [OF r f(1) v(2) s1 o(1) mb] obtain y m' where
      y: "dec.reach env (\<lambda>call. PB_DECODERS call ?f (Addr b (int (length pre'))) (consume (length ?t) s, m)) (Ok (), consume (length ?w) (consume (length ?t) s), m')"
        "occupies pre' post' b y m'" "length y = length (member_bytes tab j x)" "value_image img ?f y v" unfolding yields_def by blast
    let ?s2 = "consume (length ?t + length ?w) s" and ?x = "patch (field_off tab j) y x" and ?it = "it_at tab b (int (length pre)) j"
    have s2: "consume (length ?w) (consume (length ?t) s) = ?s2" "ok ?s2" "avail ?s2 = ?rest" using Suc.prems(5) av left by simp_all
    have ly: "length y = unat (fd_data_size ?f)" using y(3) mb(1) by simp
    have "field_image img ?f y (part j)" using y(4) v(1) by (simp add: field_image_def)
    then have img: "field_image img (tab ! i) (member_bytes tab i ?x) (if i < Suc j then part i else [])" if i: "i < n" for i
      using member_patch [OF lay i j Suc.prems(8) ly] Suc.prems(9) [OF i] by (cases "i = j") (simp_all add: less_Suc_eq)
    have "yields env (\<lambda>call. call (Decode_fields (ls\<lparr>ls_iter := ?it\<rparr>)) (?s2, m')) (consume (length ?rest) ?s2) pre post b sz
      (\<lambda>y. \<forall>i < n. field_image img (tab ! i) (member_bytes tab i y) (part i))"
      using j Suc.hyps(2) s2(2,3) Suc.prems(4,8) f(2) ly img by (intro Suc.hyps(1) [OF _ _ _ _ _ _ _ o(3) [rule_format, OF ly y(2)]]) simp_all
    then have again: "yields env (\<lambda>call. call (Decode_fields (ls\<lparr>ls_iter := ?it\<rparr>)) (?s2, m')) (consume (length (message_bytes (concat (map part [j..<n])))) s) pre post b sz
      (\<lambda>y. \<forall>i < n. field_image img (tab ! i) (member_bytes tab i y) (part i))"
      using left Suc.prems(5) up v(1) by (simp add: field_bytes_def add.assoc)
    have "dec.reach env (\<lambda>call. step_ok (PB_DECODERS call ?f (Addr b (int (length pre) + int (field_off tab j))) (consume (length ?t) s, m)) (\<lambda>_ st. Some (Ok ?it, st))) (Ok ?it, ?s2, m')"
      using y(1) o(2) s2(1) by (intro dec.reach_step(1) [where a = "()"] grows_rules) simp_all
    from yields_step [where H = "\<lambda>call it. call (Decode_fields (ls\<lparr>ls_iter := it\<rparr>))", OF this _ _ again]
    have "yields env (\<lambda>call. perform env call (Decode_fields ls) (s, m)) (consume (length (message_bytes (concat (map part [j..<n])))) s) pre post b sz
      (\<lambda>y. \<forall>i < n. field_image img (tab ! i) (member_bytes tab i y) (part i))"
      using decode_fields_singular [OF lay _ j Suc.prems(2) tg, of env _ m] Suc.prems(3) j left by (simp add: grows_rules)
    then show ?thesis by (rule yields_call)
  qed
qed

section \<open>Messages\<close>

text \<open>The local variable of \<^verbatim>\<open>pb_decode_noinit\<close> is an object of its own.\<close>

lemma occupies_local:
  assumes "occupies pre post b x m"
  shows "occupies pre post b x (snd (snd (enter_local cs (s, m))))"
    and "occupies pre post b y m' \<Longrightarrow> occupies pre post b y (snd (leave_local (fst (enter_local cs (s, m))) (s', m')))"
  using assms by (auto simp: occupies_def enter_local_def leave_local_def pb_free_def Let_def)

lemma yields_noinit:
  assumes r: "restores env tables fits img" and lay: "singular_layout tables (ev_tables env t) n sz"
    and part: "\<And>i. i < n \<Longrightarrow> field_fits fits (ev_tables env t ! i) (part i)" "\<And>i. i < n \<Longrightarrow> \<forall>(tag, _) \<in> set (part i). tag = fd_tag (ev_tables env t ! i)"
    and s: "ok s" "avail s = message_bytes (concat (map part [0..<n]))"
    and x: "occupies pre post b x m" "length x = sz" "\<And>i. i < n \<Longrightarrow> field_image img (ev_tables env t ! i) (member_bytes (ev_tables env t) i x) []"
  shows "yields env (\<lambda>call. pb_decode_noinit env call t (Addr b (int (length pre))) (s, m)) (consume (length (message_bytes (concat (map part [0..<n])))) s) pre post b sz
      (\<lambda>y. \<forall>i < n. field_image img (ev_tables env t ! i) (member_bytes (ev_tables env t) i y) (part i))"
proof -
  let ?tab = "ev_tables env t" and ?it = "it_at (ev_tables env t) b (int (length pre)) 0" and ?cs = "map Byte [0, 0, 0, 0]"
  obtain fixed s0 m1 where e: "enter_local ?cs (s, m) = (fixed, s0, m1)" by (metis prod.exhaust)
  then have s0: "s0 = s" by (auto simp: enter_local_def Let_def)
  note o = occupies_local [OF x(1), where cs = ?cs and s = s, unfolded e s0 fst_conv snd_conv]
  let ?ls = "\<lparr>ls_iter = ?it, ls_seen = [0, 0], ls_ext_start = 0, ls_fixed_field = None, ls_fixed_size = fixed\<rparr>"
  have wf: "wf_table ?tab n" using lay by (simp add: singular_layout_def)
  have "yields env (\<lambda>call. call (Decode_fields ?ls) (s, m1)) (consume (length (message_bytes (concat (map part [0..<n])))) s) pre post b sz
      (\<lambda>y. \<forall>i < n. field_image img (?tab ! i) (member_bytes ?tab i y) (part i))"
  proof (rule fields_restored [OF r lay part _ _ _ _ s o(1) x(2)])
    show "field_image img (?tab ! i) (member_bytes ?tab i x) (if i < 0 then part i else [])" if "i < n" for i using x(3) [OF that] by simp
  qed auto
  then obtain y m2 where y: "dec.reach env (\<lambda>call. call (Decode_fields ?ls) (s, m1)) (Ok (), consume (length (message_bytes (concat (map part [0..<n])))) s, m2)"
    "occupies pre post b y m2" "length y = sz" "\<forall>i < n. field_image img (?tab ! i) (member_bytes ?tab i y) (part i)" unfolding yields_def by blast
  have "dec.reach env (\<lambda>call. pb_decode_noinit env call t (Addr b (int (length pre))) (s, m))
      (Ok (), leave_local fixed (consume (length (message_bytes (concat (map part [0..<n])))) s, m2))"
    using dec.reach_map [OF y(1), of "\<lambda>(r, st). (r, leave_local fixed st)"] iter_begin_at [OF wf, of b "int (length pre)"] e s0
    by (simp add: pb_decode_noinit_def peek_def)
  then show ?thesis using o(2) [OF y(2)] y(3,4) unfolding yields_def by (auto simp: leave_local_def)
qed

lemma restores_singular: "ev_tables env = tabs \<Longrightarrow> restores env (singular_table d tabs) (message_fits d tabs) (message_image d tabs)"
proof (induction d)
  case (Suc d)
  show ?case unfolding restores_def
  proof (intro allI impI, goal_cases)
    case (1 t pre post b x m s fs)
    let ?tab = "tabs t"
    let ?n = "length ?tab - 1" and ?part = "\<lambda>i. of_field (tabs t ! i) fs"
    have fs: "concat (map ?part [0..<?n]) = fs" using 1(2) unfolding message_fits_Suc by blast
    have "yields env (\<lambda>call. pb_decode_noinit env call t (Addr b (int (length pre))) (s, m)) (consume (length (message_bytes (concat (map ?part [0..<?n])))) s) pre post b (length x)
      (\<lambda>y. \<forall>i < ?n. field_image (message_image d tabs) (ev_tables env t ! i) (member_bytes (ev_tables env t) i y) (?part i))"
    proof (rule yields_noinit [OF Suc.IH [OF Suc.prems]])
      show "singular_layout (singular_table d tabs) (ev_tables env t) ?n (length x)" using 1(1) Suc.prems by (simp only: singular_table_layout)
      show "field_fits (message_fits d tabs) (ev_tables env t ! i) (?part i)" if "i < ?n" for i using 1(2) that Suc.prems unfolding message_fits_Suc by simp
      show "\<forall>(tag, _) \<in> set (?part i). tag = fd_tag (ev_tables env t ! i)" if "i < ?n" for i using of_field_tags Suc.prems by simp
      show "avail s = message_bytes (concat (map ?part [0..<?n]))" using 1(6) fs by simp
      show "field_image (message_image d tabs) (ev_tables env t ! i) (member_bytes (ev_tables env t) i x) []" if "i < ?n" for i
        using 1(3) that Suc.prems by simp
    qed (use 1 in simp_all)
    then show ?case unfolding fs using Suc.prems by (intro yields_call) simp
  qed
qed (simp add: restores_def)

section \<open>Defaults\<close>

definition blanks :: "'u env \<Rightarrow> (nat \<Rightarrow> nat \<Rightarrow> bool) \<Rightarrow> (nat \<Rightarrow> byte list \<Rightarrow> pb_message \<Rightarrow> bool) \<Rightarrow> bool" where
  "blanks env tables img \<longleftrightarrow> (\<forall>t pre post b x m s. tables t (length x) \<longrightarrow> occupies pre post b x m \<longrightarrow>
     yields env (\<lambda>call. call (Set_defaults t (Addr b (int (length pre)))) (s, m)) s pre post b (length x) (\<lambda>y. img t y []))"

lemma yields_default:
  assumes bl: "blanks env tables img" and f: "singular_field tables (tab ! j)" "size_off tab j = int (field_off tab j)"
    and x: "occupies pre' post' b x m" "length x = unat (fd_data_size (tab ! j))" "length pre' = k + field_off tab j"
  shows "yields env (\<lambda>call. pb_field_set_to_default call (it_at tab b (int k) j) (s, m)) s pre' post' b (length x) (\<lambda>y. field_image img (tab ! j) y [])"
proof -
  let ?f = "tab ! j" and ?p = "Addr b (int (length pre'))"
  have lt: "PB_LTYPE ?f \<noteq> PB_LTYPE_EXTENSION" using singular_types(4) [OF f(1)] by auto
  have p: "it_data (it_at tab b (int k) j) = ?p" using x(3) by simp
  show ?thesis
  proof (cases "PB_LTYPE ?f = PB_LTYPE_SUBMESSAGE")
    case True
    have "yields env (\<lambda>call. call (Set_defaults (sub_index ?f) ?p) (s, m)) s pre' post' b (length x) (\<lambda>y. img (sub_index ?f) y [])"
      using bl singular_submessage(3) [OF f(1) True] x(1,2) unfolding blanks_def by metis
    then show ?thesis using True f(2) p singular_types(1,2) [OF f(1)] singular_submessage(1) [OF f(1) True] x(3)
      by (simp add: pb_field_set_to_default_def field_image_def)
  next
    case False
    have "length (replicate (unat (fd_data_size ?f)) (0 :: byte)) = length x" using x(2) by simp
    from store_all [OF x(1) this, where s = s] obtain m' where
      "on_mem (store_bytes ?p (replicate (unat (fd_data_size ?f)) 0)) (s, m) = (Ok (), s, m')" "occupies pre' post' b (replicate (unat (fd_data_size ?f)) 0) m'" .
    then show ?thesis using False lt f(2) singular_types(1,2) [OF f(1)] singular_No_ptr [OF f(1) False] x(2,3)
      by (auto simp: pb_field_set_to_default_def yields_Some field_image_def)
  qed
qed

lemma defaults_fields:
  assumes bl: "blanks env tables img" and lay: "singular_layout tables tab n sz"
  shows "j < n \<Longrightarrow> occupies pre post b x m \<Longrightarrow> length x = sz \<Longrightarrow> (\<And>i. i < j \<Longrightarrow> field_image img (tab ! i) (member_bytes tab i x) []) \<Longrightarrow>
    yields env (\<lambda>call. call (Default_fields (it_at tab b (int (length pre)) j)) (s, m)) s pre post b sz (\<lambda>y. \<forall>i < n. field_image img (tab ! i) (member_bytes tab i y) [])"
proof (induction "n - j" arbitrary: j x m)
  case (Suc d)
  let ?it = "it_at tab b (int (length pre))"
  have f: "wf_table tab n" "singular_field tables (tab ! j)" "field_off tab j + unat (fd_data_size (tab ! j)) \<le> length x"
    using lay Suc.prems(1,3) by (simp_all add: singular_layout_def)
  from occupies_member [OF Suc.prems(2) f(3)] obtain pre' post' where
    o: "occupies pre' post' b (member_bytes tab j x) m" "length pre' = length pre + field_off tab j"
      "\<forall>y m. length y = unat (fd_data_size (tab ! j)) \<longrightarrow> occupies pre' post' b y m \<longrightarrow> occupies pre post b (patch (field_off tab j) y x) m" .
  have "length (member_bytes tab j x) = unat (fd_data_size (tab ! j))" using f(3) by (simp add: member_bytes_def)
  from yields_default [OF bl f(2) singular_off(1) [OF lay Suc.prems(1)] o(1) this o(2), where s = s] this obtain y m' where
    y: "dec.reach env (\<lambda>call. pb_field_set_to_default call (?it j) (s, m)) (Ok (), s, m')" "occupies pre' post' b y m'"
      "length y = unat (fd_data_size (tab ! j))" "field_image img (tab ! j) y []" unfolding yields_def by auto
  let ?x = "patch (field_off tab j) y x"
  have img: "field_image img (tab ! i) (member_bytes tab i ?x) []" if "i < Suc j" for i
    using member_patch [OF lay _ Suc.prems(1,3) y(3), of i] that Suc.prems(1,4) y(4) by (cases "i = j") simp_all
  note o' = o(3) [rule_format, OF y(3,2)]
  have lx: "length ?x = sz" using f(3) y(3) Suc.prems(3) by simp
  have "yields env (\<lambda>call. next_field Default_fields call (?it j) (s, m')) s pre post b sz (\<lambda>y. \<forall>i < n. field_image img (tab ! i) (member_bytes tab i y) [])"
  proof (cases "Suc j < n")
    case True
    then have "yields env (\<lambda>call. call (Default_fields (?it (Suc j))) (s, m')) s pre post b sz (\<lambda>y. \<forall>i < n. field_image img (tab ! i) (member_bytes tab i y) [])"
      using Suc.hyps(2) by (intro Suc.hyps(1) [OF _ True o' lx img]) simp_all
    then show ?thesis using iter_next_at [OF f(1) Suc.prems(1), of b "int (length pre)"] True by (simp add: next_field_def)
  next
    case False
    then have "n = Suc j" using Suc.prems(1) by simp
    then show ?thesis using iter_next_at [OF f(1) Suc.prems(1), of b "int (length pre)"] o' lx img by (auto simp: next_field_def yields_Some)
  qed
  then show ?case
    by (intro yields_call) (simp only: perform.simps default_fields_def, rule yields_step [OF y(1)], (rule grows_rules)+)
qed simp

lemma blanks_singular: "ev_tables env = tabs \<Longrightarrow> blanks env (singular_table d tabs) (message_image d tabs)"
proof (induction d)
  case (Suc d)
  show ?case unfolding blanks_def
  proof (intro allI impI, goal_cases)
    case (1 t pre post b x m s)
    let ?n = "length (tabs t) - 1" and ?it = "it_at (tabs t) b (int (length pre)) 0"
    have lay: "singular_layout (singular_table d tabs) (tabs t) ?n (length x)" using 1(1) by (simp only: singular_table_layout)
    then have wf: "wf_table (tabs t) ?n" by (simp add: singular_layout_def)
    have "yields env (\<lambda>call. pb_message_set_to_defaults env call t (Addr b (int (length pre))) (s, m)) s pre post b (length x)
      (\<lambda>y. \<forall>i < ?n. field_image (message_image d tabs) (tabs t ! i) (member_bytes (tabs t) i y) [])"
    proof (cases "?n = 0")
      case True
      then show ?thesis using iter_begin_at [OF wf, of b "int (length pre)"] 1(2) Suc.prems by (auto simp: pb_message_set_to_defaults_def peek_def yields_Some)
    next
      case False
      then show ?thesis using iter_begin_at [OF wf, of b "int (length pre)"] defaults_fields [OF Suc.IH [OF Suc.prems] lay, of 0 pre post b x m s] 1(2) Suc.prems
        by (simp add: pb_message_set_to_defaults_def peek_def)
    qed
    then show ?case by (intro yields_call) simp
  qed
qed (simp add: blanks_def)

text \<open>Decoding with the defaults set before.\<close>

theorem decode_restores:
  assumes "singular_table d (ev_tables env) t (length x)" "message_fits d (ev_tables env) t fs" "occupies pre post b x m" "ok s" "avail s = message_bytes fs"
  shows "yields env (\<lambda>call. call (Decode_message True t (Addr b (int (length pre)))) (s, m)) (consume (length (message_bytes fs)) s) pre post b (length x)
    (\<lambda>y. message_image d (ev_tables env) t y fs)"
proof -
  let ?p = "Addr b (int (length pre))"
  from blanks_singular [OF refl, of env d] assms(1,3) obtain y m1 where
    y: "dec.reach env (\<lambda>call. call (Set_defaults t ?p) (s, m)) (Ok (), s, m1)" "occupies pre post b y m1" "length y = length x" "message_image d (ev_tables env) t y []"
    unfolding blanks_def yields_def by blast
  from restoresD [OF restores_singular [OF refl] _ assms(2) y(4,2) assms(4,5)] assms(1) y(3) obtain z m2 where
    z: "dec.reach env (\<lambda>call. call (Decode_message False t ?p) (s, m1)) (Ok (), consume (length (message_bytes fs)) s, m2)"
      "occupies pre post b z m2" "length z = length x" "message_image d (ev_tables env) t z fs" unfolding yields_def by auto
  have "dec.reach env (\<lambda>call. pb_decode_noinit env call t ?p (s, m1)) (Ok (), consume (length (message_bytes fs)) s, m2)"
    using dec.reach_body [OF z(1)] by simp
  then have "dec.reach env (\<lambda>call. perform env call (Decode_message True t ?p) (s, m)) (Ok (), consume (length (message_bytes fs)) s, m2)"
    unfolding perform.simps if_P [OF TrueI] pb_decode_def
    by (intro dec.reach_step(1) [OF _ _ y(1)] dec.reach_bind [where y = "(Ok (), consume (length (message_bytes fs)) s, m2)"] grows_rules) simp_all
  from dec.reach_call [OF this] show ?thesis using z(2-4) unfolding yields_def by blast
qed

end

end
