(* ===== verification/Pb_Delivers.thy ===== *)
theory Pb_Delivers
  imports Pb_View Pb_Sink Pb_Fuel
begin

text \<open>
  What it means that a piece of the encoder puts a list of bytes onto any stream, and how such pieces are put together. The streams
  are those of the contract \<open>pb_sink\<close> and the ones that only count.
\<close>

section \<open>Fuel\<close>

lemma grows_enc_submessage [grows_rules]: "grows (\<lambda>call. pb_encode_submessage call t src st)" "grows (\<lambda>call. pb_enc_submessage call f src st)"
  unfolding pb_enc_submessage_def pb_encode_submessage_def by (intro grows_rules)+

lemma grows_encoders [grows_rules]: "grows (\<lambda>call. PB_ENCODERS env call f src st)"
  unfolding PB_ENCODERS_def Let_def by (intro grows_rules)

lemma grows_unpacked [grows_rules]: "grows (\<lambda>call. unpacked_items env call f n p st)"
  by (induction n arbitrary: p st) (simp_all only: unpacked_items.simps, (intro grows_rules; assumption)+)

lemma grows_array [grows_rules]: "grows (\<lambda>call. encode_array env call f p count st)"
  unfolding encode_array_def by (intro grows_rules)

lemma grows_tag_and_value [grows_rules]: "grows (\<lambda>call. tag_and_value env call f p st)"
  unfolding tag_and_value_def by (intro grows_rules)

lemma grows_flag [grows_rules]: "grows (\<lambda>call. implicit_flag call f p st)"
  unfolding implicit_flag_def by (intro grows_rules)

lemma grows_present [grows_rules]: "grows (\<lambda>call. encode_present env call f p q flag st)"
  unfolding encode_present_def Let_def by (intro grows_rules)

lemma grows_enc_field [grows_rules]: "grows (\<lambda>call. encode_field env call f p st)"
  unfolding encode_field_def encode_basic_field_def by (intro grows_rules)

lemma grows_enc_extension [grows_rules]: "grows (\<lambda>call. default_extension_encoder env call ext st)" "grows (\<lambda>call. encode_extension_field call p st)"
  unfolding default_extension_encoder_def encode_extension_field_def by (intro grows_rules)+

lemma grows_enc_perform: "grows (\<lambda>call. enc_perform env call job st)"
  by (cases job; simp only: enc_perform.simps pb_encode_def encode_fields_def encode_extensions_def pb_check_proto3_default_value_def
      check_fields_def Let_def; intro grows_rules)

interpretation enc: fuelled "\<lambda>n. erun n env" "enc_perform env" for env
  by unfold_locales (simp_all add: grows_enc_perform)

section \<open>Streams\<close>

definition counting :: "'u pb_ostream \<Rightarrow> bool" where
  "counting s \<longleftrightarrow> os_callback s = Null_write \<and> os_errmsg s = None"

definition counted :: "byte list \<Rightarrow> 'u pb_ostream \<Rightarrow> 'u pb_ostream" where
  "counted d s = s\<lparr>bytes_written := bytes_written s + of_nat (length d)\<rparr>"

lemma counting_counted [simp]: "counting s \<Longrightarrow> counting (counted d s)"
  by (simp add: counting_def counted_def)

lemma counted_simps [simp]: "counted [] s = s" "counted e (counted d s) = counted (d @ e) s"
  by (simp_all add: counted_def add.assoc)

context pb_sink
begin

text \<open>Sizes up to the largest object a program can have.\<close>

definition fresh :: "'u pb_ostream \<Rightarrow> bool" where
  "fresh s \<longleftrightarrow> ok s \<and> os_errmsg s = None \<and> unat (max_size s) \<le> 2 ^ 63"

text \<open>Bytes written in front of a failure.\<close>

definition stopped :: "byte list \<Rightarrow> 'u pb_ostream \<Rightarrow> 'u pb_ostream \<Rightarrow> bool" where
  "stopped d s s' \<longleftrightarrow> length d \<le> space s \<and> (\<exists>e. s' = (emit d s)\<lparr>os_errmsg := e\<rparr>)"

definition usable :: "'u pb_ostream \<Rightarrow> bool" where
  "usable s \<longleftrightarrow> counting s \<or> fresh s"

definition puts :: "byte list \<Rightarrow> 'u pb_ostream \<Rightarrow> unit outcome \<times> 'u pb_ostream \<Rightarrow> bool" where
  "puts d s x \<longleftrightarrow>
     (counting s \<longrightarrow> x = (Ok (), counted d s)) \<and>
     (fresh s \<longrightarrow> (if length d \<le> space s then x = (Ok (), emit d s)
        else fst x = Fail \<and> (\<exists>d' d''. d = d' @ d'' \<and> stopped d' s (snd x))))"

definition delivers :: "'u enc_env \<Rightarrow> ('u enc_calls \<Rightarrow> 'u est \<Rightarrow> (unit outcome \<times> 'u est) option) \<Rightarrow> memory \<Rightarrow> byte list outcome \<Rightarrow> bool" where
  "delivers env G m r \<longleftrightarrow> (\<forall>st. grows (\<lambda>call. G call st)) \<and>
     (\<forall>s. usable s \<longrightarrow> (case r of
        Ok d \<Rightarrow> \<exists>x. puts d s x \<and> enc.reach env (\<lambda>call. G call (s, m)) (fst x, snd x, m)
      | Fail \<Rightarrow> \<exists>s'. (fresh s \<longrightarrow> (\<exists>d. stopped d s s')) \<and> enc.reach env (\<lambda>call. G call (s, m)) (Fail, s', m)
      | Undef \<Rightarrow> True))"

lemma delivers_grows: "delivers env G m r \<Longrightarrow> grows (\<lambda>call. G call st)"
  unfolding delivers_def by blast

lemma delivers_OkE:
  assumes "delivers env G m (Ok d)" "usable s"
  obtains x where "puts d s x" "enc.reach env (\<lambda>call. G call (s, m)) (fst x, snd x, m)"
  using assms unfolding delivers_def outcome.case by blast

lemma delivers_FailE:
  assumes "delivers env G m Fail" "usable s"
  obtains s' where "fresh s \<Longrightarrow> \<exists>d. stopped d s s'" "enc.reach env (\<lambda>call. G call (s, m)) (Fail, s', m)"
  using assms unfolding delivers_def outcome.case by blast

lemma deliversI:
  assumes "\<And>st. grows (\<lambda>call. G call st)"
    and "\<And>s d. usable s \<Longrightarrow> r = Ok d \<Longrightarrow> \<exists>x. puts d s x \<and> enc.reach env (\<lambda>call. G call (s, m)) (fst x, snd x, m)"
    and "\<And>s. usable s \<Longrightarrow> r = Fail \<Longrightarrow> \<exists>s'. (fresh s \<longrightarrow> (\<exists>d. stopped d s s')) \<and> enc.reach env (\<lambda>call. G call (s, m)) (Fail, s', m)"
  shows "delivers env G m r"
  unfolding delivers_def using assms by (cases r) simp_all

lemma not_counting: "fresh s \<Longrightarrow> \<not> counting s"
  using not_null by (auto simp: fresh_def counting_def ok_def)

lemma fresh_ok: "fresh s \<Longrightarrow> ok s"
  by (simp add: fresh_def)

lemma fresh_emit [simp]: "fresh s \<Longrightarrow> length d \<le> space s \<Longrightarrow> fresh (emit d s)"
  by (simp add: fresh_def)

lemma stopped_Nil: "fresh s \<Longrightarrow> stopped [] s (s\<lparr>os_errmsg := e\<rparr>)"
  unfolding stopped_def using emit_Nil [of s] by (auto simp: fresh_def)

lemma stopped_self: "fresh s \<Longrightarrow> stopped [] s s"
  using stopped_Nil [of s None] by (cases s) (simp add: fresh_def)

lemma stopped_emit:
  assumes "fresh s" "length d \<le> space s" "stopped d' (emit d s) s'"
  shows "stopped (d @ d') s s'"
proof -
  have "length d' \<le> space s - length d" using assms(2,3) space_emit [OF fresh_ok [OF assms(1)], of d] by (simp add: stopped_def)
  then have l: "length d + length d' \<le> space s" using assms(2) by linarith
  obtain e where "s' = (emit d' (emit d s))\<lparr>os_errmsg := e\<rparr>" using assms(3) by (auto simp: stopped_def)
  then have "s' = (emit (d @ d') s)\<lparr>os_errmsg := e\<rparr>" using emit_emit [OF fresh_ok [OF assms(1)] l] by simp
  then show ?thesis using l by (auto simp: stopped_def)
qed

text \<open>Either all of the bytes were put out, and the stream is usable, or the stream is full.\<close>

lemma puts_cases:
  assumes "puts d s x" "usable s"
  obtains (all) s1 where "x = (Ok (), s1)" "usable s1" "counting s \<Longrightarrow> counting s1 \<and> s1 = counted d s" "fresh s \<Longrightarrow> length d \<le> space s \<and> s1 = emit d s"
    | (full) d' d'' where "fst x = Fail" "fresh s" "space s < length d" "d = d' @ d''" "stopped d' s (snd x)"
proof (cases "fresh s \<and> space s < length d")
  case True
  then show ?thesis using assms(1) full unfolding puts_def by auto
next
  case False
  let ?s1 = "if counting s then counted d s else emit d s"
  show ?thesis
    by (rule all [of ?s1]) (use False assms not_counting [of s] in \<open>auto simp: puts_def usable_def\<close>)
qed

lemma puts_full:
  assumes "fst x = Fail" "fresh s" "space s < length d" "d = d' @ d''" "stopped d' s (snd x)"
  shows "puts (d @ e) s x"
  unfolding puts_def
proof (intro conjI impI)
  have "d @ e = d' @ (d'' @ e)" using assms(4) by simp
  then show "if length (d @ e) \<le> space s then x = (Ok (), emit (d @ e) s) else fst x = Fail \<and> (\<exists>d' d''. d @ e = d' @ d'' \<and> stopped d' s (snd x))"
    using assms by auto
qed (use not_counting [OF assms(2)] in simp)

lemma puts_append:
  assumes "counting s \<Longrightarrow> s1 = counted d s" "fresh s \<Longrightarrow> length d \<le> space s \<and> s1 = emit d s" "puts e s1 y"
  shows "puts (d @ e) s y"
  unfolding puts_def
proof (intro conjI impI)
  show "y = (Ok (), counted (d @ e) s)" if "counting s" using that assms(1,3) by (simp add: puts_def)
  assume f: "fresh s"
  then have l: "length d \<le> space s" "s1 = emit d s" "space s1 = space s - length d" "fresh s1" using assms(2) fresh_ok by auto
  show "if length (d @ e) \<le> space s then y = (Ok (), emit (d @ e) s) else fst y = Fail \<and> (\<exists>d' d''. d @ e = d' @ d'' \<and> stopped d' s (snd y))"
  proof (cases "length e \<le> space s1")
    case True
    then have "y = (Ok (), emit e s1)" using assms(3) l(4) by (simp add: puts_def)
    moreover have "length d + length e \<le> space s" using True l(1,3) by linarith
    ultimately show ?thesis using l(2) emit_emit [OF fresh_ok [OF f]] by simp
  next
    case False
    then obtain e' e'' where e: "fst y = Fail" "e = e' @ e''" "stopped e' s1 (snd y)" using assms(3) l(4) by (auto simp: puts_def)
    then have "stopped (d @ e') s (snd y)" using stopped_emit [OF f l(1), of e' "snd y"] l(2) by simp
    moreover have "d @ e = (d @ e') @ e''" using e(2) by simp
    moreover have "\<not> length (d @ e) \<le> space s" using False l(1,3) by simp
    ultimately show ?thesis using e(1) by metis
  qed
qed

section \<open>Rules\<close>

lemma delivers_Undef: "(\<And>st. grows (\<lambda>call. G call st)) \<Longrightarrow> delivers env G m Undef"
  by (rule deliversI) simp_all

lemma delivers_nothing: "delivers env (\<lambda>_ st. Some (Ok (), st)) m (Ok [])"
proof (rule deliversI)
  fix s d assume "usable s" "Ok [] = (Ok d :: byte list outcome)"
  then show "\<exists>x. puts d s x \<and> enc.reach env (\<lambda>call. Some (Ok (), s, m)) (fst x, snd x, m)"
    using emit_Nil [OF fresh_ok, of s] by (intro exI [of _ "(Ok (), s)"]) (simp add: puts_def)
qed (simp_all add: grows_rules)

lemma delivers_error: "delivers env (\<lambda>_ st. Some (enc_error msg st)) m Fail"
proof (rule deliversI)
  fix s assume "usable s"
  show "\<exists>s'. (fresh s \<longrightarrow> (\<exists>d. stopped d s s')) \<and> enc.reach env (\<lambda>call. Some (enc_error msg (s, m))) (Fail, s', m)"
    using stopped_Nil [of s] by (intro exI [of _ "os_set_error msg s"]) (auto simp: on_stream_def os_return_error_def os_set_error_def)
qed (simp_all add: grows_rules)

lemma delivers_seq:
  assumes "delivers env G m r" "delivers env H m r'"
  shows "delivers env (\<lambda>call st. step_ok (G call st) (\<lambda>_. H call)) m (bind_out r (\<lambda>d. bind_out r' (\<lambda>e. Ok (d @ e))))"
proof (rule deliversI)
  note g = delivers_grows [OF assms(1)] delivers_grows [OF assms(2)]
  have ok: "enc.reach env (\<lambda>call. step_ok (G call st) (\<lambda>_. H call)) x" if "enc.reach env (\<lambda>call. G call st) (Ok (), st')" "enc.reach env (\<lambda>call. H call st') x" for st st' x
    using that by (rule enc.reach_step(1) [OF g])
  have bad: "enc.reach env (\<lambda>call. step_ok (G call st) (\<lambda>_. H call)) (Fail, st')" if "enc.reach env (\<lambda>call. G call st) (Fail, st')" for st st'
    using that by (rule enc.reach_step(2) [OF g])
  show "grows (\<lambda>call. step_ok (G call st) (\<lambda>_. H call))" for st using g by (intro grows_rules)
  fix s assume s: "usable s"
  { fix d assume "bind_out r (\<lambda>d. bind_out r' (\<lambda>e. Ok (d @ e))) = Ok d"
    then obtain d1 d2 where d: "r = Ok d1" "r' = Ok d2" "d = d1 @ d2" by (auto simp: bind_out_eq_Ok)
    from delivers_OkE [OF assms(1) [unfolded d(1)] s] obtain x where x: "puts d1 s x" "enc.reach env (\<lambda>call. G call (s, m)) (fst x, snd x, m)" .
    show "\<exists>x. puts d s x \<and> enc.reach env (\<lambda>call. step_ok (G call (s, m)) (\<lambda>_. H call)) (fst x, snd x, m)"
      using x(1) s
    proof (cases rule: puts_cases)
      case (all s1)
      from delivers_OkE [OF assms(2) [unfolded d(2)] all(2)] obtain y where y: "puts d2 s1 y" "enc.reach env (\<lambda>call. H call (s1, m)) (fst y, snd y, m)" .
      have "puts d s y" unfolding d(3) using all(3,4) y(1) by (intro puts_append) auto
      moreover have "enc.reach env (\<lambda>call. step_ok (G call (s, m)) (\<lambda>_. H call)) (fst y, snd y, m)"
        using ok [OF _ y(2), of "(s, m)"] x(2) all(1) by simp
      ultimately show ?thesis by blast
    next
      case (full d' d'')
      then show ?thesis using bad [of "(s, m)" "(snd x, m)"] x(2) puts_full [OF full] unfolding d(3) by (intro exI [of _ x]) simp
    qed }
  assume "bind_out r (\<lambda>d. bind_out r' (\<lambda>e. Ok (d @ e))) = Fail"
  then consider "r = Fail" | d where "r = Ok d" "r' = Fail" by (cases r; cases r') auto
  then show "\<exists>s'. (fresh s \<longrightarrow> (\<exists>d. stopped d s s')) \<and> enc.reach env (\<lambda>call. step_ok (G call (s, m)) (\<lambda>_. H call)) (Fail, s', m)"
  proof cases
    case 1
    from delivers_FailE [OF assms(1) [unfolded 1] s] bad [of "(s, m)"] show ?thesis by blast
  next
    case 2
    from delivers_OkE [OF assms(1) [unfolded 2(1)] s] obtain x where x: "puts d s x" "enc.reach env (\<lambda>call. G call (s, m)) (fst x, snd x, m)" .
    show ?thesis
      using x(1) s
    proof (cases rule: puts_cases)
      case (all s1)
      from delivers_FailE [OF assms(2) [unfolded 2(2)] all(2)] obtain s' where
        s': "fresh s1 \<longrightarrow> (\<exists>d. stopped d s1 s')" "enc.reach env (\<lambda>call. H call (s1, m)) (Fail, s', m)" by blast
      have "\<exists>d. stopped d s s'" if "fresh s" using all(4) [OF that] s'(1) stopped_emit [OF that, of d] that by auto
      moreover have "enc.reach env (\<lambda>call. step_ok (G call (s, m)) (\<lambda>_. H call)) (Fail, s', m)"
        using ok [OF _ s'(2), of "(s, m)"] x(2) all(1) by simp
      ultimately show ?thesis by blast
    next
      case (full d' d'')
      then show ?thesis using bad [of "(s, m)" "(snd x, m)"] x(2) by auto
    qed
  qed
qed

lemma delivers_peek:
  assumes "\<And>a. f m = Ok a \<Longrightarrow> delivers env (\<lambda>call. G call a) m (r a)" "\<And>a st. grows (\<lambda>call. G call a st)" "f m \<noteq> Fail"
  shows "delivers env (\<lambda>call st. step_ok (Some (peek f st)) (G call)) m (bind_out (f m) r)"
proof (rule deliversI)
  show "grows (\<lambda>call. step_ok (Some (peek f st)) (G call))" for st using assms(2) by (intro grows_rules)
  fix s assume s: "usable s"
  { fix d assume "bind_out (f m) r = Ok d"
    then obtain a where a: "f m = Ok a" "r a = Ok d" by (auto simp: bind_out_eq_Ok)
    from delivers_OkE [OF assms(1) [OF a(1), unfolded a(2)] s] show "\<exists>x. puts d s x \<and> enc.reach env (\<lambda>call. step_ok (Some (peek f (s, m))) (G call)) (fst x, snd x, m)"
      unfolding peek_def snd_conv a(1) step_ok_simps by blast }
  assume "bind_out (f m) r = Fail"
  then obtain a where a: "f m = Ok a" "r a = Fail" using assms(3) by (cases "f m") auto
  from delivers_FailE [OF assms(1) [OF a(1), unfolded a(2)] s] show "\<exists>s'. (fresh s \<longrightarrow> (\<exists>d. stopped d s s')) \<and> enc.reach env (\<lambda>call. step_ok (Some (peek f (s, m))) (G call)) (Fail, s', m)"
    unfolding peek_def snd_conv a(1) step_ok_simps by blast
qed

lemma delivers_call: "delivers env (\<lambda>call. enc_perform env call job) m r \<Longrightarrow> delivers env (\<lambda>call. call job) m r"
  by (rule deliversI) (blast intro: grows_rules enc.reach_call elim: delivers_OkE delivers_FailE)+

end

end
