(* ===== verification/Pb_Encode_Values.thy ===== *)
theory Pb_Encode_Values
  imports Pb_Delivers
begin

text \<open>The encoders of single values and of arrays put out the bytes of what the view reads.\<close>

section \<open>Reading\<close>

lemma bind_out_assoc: "bind_out (bind_out r f) g = bind_out r (\<lambda>a. bind_out (f a) g)"
  by (cases r) simp_all

lemma bind_out_if: "bind_out (if c then r else r') k = (if c then bind_out r k else bind_out r' k)"
  by simp

lemma loads_no_Fail [simp]:
  "shift a k \<noteq> Fail" "load_cells a n m \<noteq> Fail" "load_bytes a n m \<noteq> Fail" "load_chars ptr a n m \<noteq> Fail"
  "load_char ptr a m \<noteq> Fail" "safe_read_bool ptr a m \<noteq> Fail" "load_u32 a m \<noteq> Fail" "load_ptr a m \<noteq> Fail"
proof -
  show s: "shift a k \<noteq> Fail" by (cases a) (simp_all add: shift_def)
  show c: "load_cells a n m \<noteq> Fail" for n by (cases a) (simp_all add: load_cells_def)
  show b: "load_bytes a n m \<noteq> Fail" for n using c [of n] by (cases "load_cells a n m") (simp_all add: load_bytes_def split: option.splits)
  show l: "load_chars ptr a n m \<noteq> Fail" for n using c [of n] by (cases "load_cells a n m") (simp_all add: load_chars_def split: option.splits)
  show h: "load_char ptr a m \<noteq> Fail" using l [of 1] by (cases "load_chars ptr a 1 m") (simp_all add: load_char_def)
  show "safe_read_bool ptr a m \<noteq> Fail" using h by (cases "load_char ptr a m") (simp_all add: safe_read_bool_def)
  show "load_u32 a m \<noteq> Fail" using b [of 4] by (cases "load_bytes a 4 m") (simp_all add: load_u32_def)
  show "load_ptr a m \<noteq> Fail" using c [of 8] by (cases "load_cells a 8 m") (simp_all add: load_ptr_def split: list.splits cell.splits)
qed

lemma size_member_no_Fail [simp]: "(\<And>a. load a m \<noteq> Fail) \<Longrightarrow> r \<noteq> Fail \<Longrightarrow> size_member load r f p m \<noteq> Fail"
  using loads_no_Fail(1) [of p "sint (fd_size_offset f)"] by (cases "shift p (sint (fd_size_offset f))") (simp_all add: size_member_def)

lemma ext_member_no_Fail [simp]: "ext_member ext k m \<noteq> Fail"
  using loads_no_Fail(1) [of ext k] by (cases "shift ext k") (simp_all add: ext_member_def)

lemma string_size_no_Fail [simp]: "string_size ptr m limit n p \<noteq> Fail"
proof (induction ptr m limit n p rule: string_size.induct)
  case (1 ptr m limit n p)
  show ?case
  proof (cases "load_char ptr p m")
    case (Ok c)
    then show ?thesis using 1 by (cases "shift p 1") (auto simp: string_size.simps [of ptr m limit n p] shift_def split: addr.splits)
  qed (use loads_no_Fail(5) [of ptr p m] in \<open>auto simp: string_size.simps [of ptr m limit n p]\<close>)
qed

lemma length_those: "those xs = Some ys \<Longrightarrow> length ys = length xs"
  by (induction xs arbitrary: ys) (auto split: option.splits)

lemma length_load_cells: "load_cells a n m = Ok cs \<Longrightarrow> length cs = n"
  by (auto simp: load_cells_def in_object_def split: addr.splits option.splits if_splits)

lemma length_load_chars: "load_chars ptr a n m = Ok bs \<Longrightarrow> length bs = n"
  by (cases "load_cells a n m") (auto simp: load_chars_def dest!: length_those length_load_cells split: option.splits)

lemma length_load_bytes: "load_bytes a n m = Ok bs \<Longrightarrow> length bs = n"
  by (cases "load_cells a n m") (auto simp: load_bytes_def dest!: length_those length_load_cells split: option.splits)

section \<open>Collecting\<close>

lemma collect_map: "collect g (map h xs) = collect (\<lambda>x. g (h x)) xs"
  by (induction xs) simp_all

lemma collect_entries:
  "collect (\<lambda>i. bind_out (entry_at f (Addr b k) i) h) [0..<Suc n] = bind_out (h (Addr b k)) (\<lambda>y.
     bind_out (collect (\<lambda>i. bind_out (entry_at f (Addr b (k + int (unat (fd_data_size f)))) i) h) [0..<n]) (\<lambda>ys. Ok (y # ys)))"
proof -
  have "[0..<Suc n] = 0 # map Suc [0..<n]" by (simp add: map_Suc_upt upt_conv_Cons del: upt_Suc)
  then show ?thesis by (simp add: collect_map entry_at_def shift_def algebra_simps del: upt_Suc)
qed

lemma collect_Null: "0 < n \<Longrightarrow> collect (\<lambda>i. bind_out (entry_at f Null i) h) [0..<n] = Undef"
  by (simp add: upt_conv_Cons entry_at_def shift_def)

section \<open>Streams\<close>

lemma Some_seq_ok: "Some (seq_ok r k) = step_ok (Some r) (\<lambda>a st. Some (k a st))"
  by (cases r; cases "fst r") (auto simp: seq_ok_def step_ok_def)

context pb_sink
begin

lemma puts_write:
  assumes "counting s \<Longrightarrow> x = (Ok (), counted d s)"
    and "fresh s \<Longrightarrow> x = (if length d \<le> space s then (Ok (), emit d s) else os_return_error msg s)"
  shows "puts d s x"
  unfolding puts_def
proof (intro conjI impI)
  assume f: "fresh s"
  have "\<exists>d' d''. d = d' @ d'' \<and> stopped d' s (os_set_error msg s)"
    using stopped_Nil [OF f] by (intro exI [of _ "[]"] exI [of _ d]) (simp add: os_set_error_def)
  then show "if length d \<le> space s then x = (Ok (), emit d s) else fst x = Fail \<and> (\<exists>d' d''. d = d' @ d'' \<and> stopped d' s (snd x))"
    using assms(2) [OF f] by (auto simp: os_return_error_def)
qed (rule assms(1))

lemma puts_seq:
  assumes "puts d s x" "usable s" "\<And>s1. usable s1 \<Longrightarrow> puts e s1 (k s1)"
  shows "puts (d @ e) s (seq_ok x (\<lambda>_. k))"
  using assms(1,2)
proof (cases rule: puts_cases)
  case (all s1)
  then show ?thesis using assms(3) [OF all(2)] by (intro puts_append [of s s1]) auto
next
  case (full d' d'')
  then have "seq_ok x (\<lambda>_. k) = x" by (cases x) simp
  then show ?thesis using puts_full [OF full] by simp
qed

lemma puts_varint: "puts (venc (unat v)) s (pb_encode_varint v s)"
  by (rule puts_write [where msg = "''stream full''"]) (simp_all add: counting_def counted_def encode_varint_sizing encode_varint fresh_ok)

lemma puts_tag: "w < 8 \<Longrightarrow> puts (venc (8 * unat tag + w)) s (pb_encode_tag w tag s)"
  using puts_varint [of "push_bit 3 (ucast tag) OR of_nat w" s] by (simp add: pb_encode_tag_def tag_value)

lemma puts_svarint: "puts (venc (unat (zigzag v))) s (pb_encode_svarint v s)"
  using puts_varint [of "zigzag v" s] by (simp add: pb_encode_svarint_def zigzag_def Let_def)

lemma puts_fixed: "puts (le_bytes 4 (unat v)) s (pb_encode_fixed32 v s)" "puts (le_bytes 8 (unat w)) s (pb_encode_fixed64 w s)"
  by (rule puts_write [where msg = "''stream full''"],
      simp_all add: counting_def counted_def pb_encode_fixed32_def pb_encode_fixed64_def pb_write_sizing encode_fixed32 [unfolded pb_encode_fixed32_def]
        encode_fixed64 [unfolded pb_encode_fixed64_def] fresh_ok)+

lemma puts_bytes:
  assumes "bs \<noteq> [] \<Longrightarrow> b = Some bs" "unat n = length bs"
  shows "puts bs s (pb_write b n s)"
proof (rule puts_write [where msg = "''stream full''"])
  have n: "n = of_nat (length bs)" unfolding assms(2) [symmetric] by simp
  show "counting s \<Longrightarrow> pb_write b n s = (Ok (), counted bs s)" using n by (simp add: counting_def counted_def pb_write_sizing)
  have "length bs < 2 ^ 64" using assms(2) unat_u64_less [of n] by simp
  then show "fresh s \<Longrightarrow> pb_write b n s = (if length bs \<le> space s then (Ok (), emit bs s) else os_return_error ''stream full'' s)"
    using assms(1) n write_emit [of s bs] by (cases "bs = []") (simp_all add: fresh_ok pb_write_def)
qed

lemma puts_string:
  assumes "usable s" "bs \<noteq> [] \<Longrightarrow> b = Some bs" "unat n = length bs"
  shows "puts (venc (length bs) @ bs) s (pb_encode_string b n s)"
  unfolding pb_encode_string_def using puts_varint [of n s] assms by (intro puts_seq puts_bytes) simp_all

lemma delivers_stream:
  assumes "\<And>s. usable s \<Longrightarrow> puts d s (g s)"
  shows "delivers env (\<lambda>_ st. Some (on_stream g st)) m (Ok d)"
proof (rule deliversI)
  fix s e assume "usable s" "Ok d = (Ok e :: byte list outcome)"
  then show "\<exists>x. puts e s x \<and> enc.reach env (\<lambda>call. Some (on_stream g (s, m))) (fst x, snd x, m)"
    using assms by (intro exI [of _ "g s"]) (simp add: on_stream_def split: prod.splits)
qed (simp_all add: grows_rules)

lemma delivers_string_at:
  assumes "load_chars ptr a (unat n) m = Ok bs"
  shows "delivers env (\<lambda>_ st. Some (encode_string_at ptr a n st)) m (Ok (venc (length bs) @ bs))"
proof (rule deliversI)
  fix s e assume "usable s" "Ok (venc (length bs) @ bs) = Ok e"
  moreover have "bytes_at ptr a n m = Some bs" using assms by (simp add: bytes_at_def)
  ultimately show "\<exists>x. puts e s x \<and> enc.reach env (\<lambda>call. Some (encode_string_at ptr a n (s, m))) (fst x, snd x, m)"
    using puts_string [of s bs _ n] length_load_chars [OF assms]
    by (intro exI [of _ "pb_encode_string (Some bs) n s"]) (simp add: encode_string_at_def on_stream_def split: prod.splits)
qed (simp_all add: grows_rules)

text \<open>A function of the memory and one of the stream.\<close>

lemma delivers_read:
  assumes "\<And>a. f m = Ok a \<Longrightarrow> delivers env (\<lambda>_ st. Some (k a st)) m (r a)" "f m \<noteq> Fail"
  shows "delivers env (\<lambda>_ st. Some (seq_ok (peek f st) k)) m (bind_out (f m) r)"
  unfolding Some_seq_ok using assms by (intro delivers_peek) (simp_all add: grows_rules)

lemma delivers_if:
  assumes "c \<Longrightarrow> delivers env G m r" "\<not> c \<Longrightarrow> delivers env H m r'"
  shows "delivers env (\<lambda>call st. if c then G call st else H call st) m (if c then r else r')"
  using assms by (cases c) simp_all

lemma delivers_if_Some:
  assumes "c \<Longrightarrow> delivers env (\<lambda>_ st. Some (g st)) m r" "\<not> c \<Longrightarrow> delivers env (\<lambda>_ st. Some (h st)) m r'"
  shows "delivers env (\<lambda>_ st. Some (if c then g st else h st)) m (if c then r else r')"
  using assms by (cases c) simp_all

section \<open>Values\<close>

lemma delivers_int:
  assumes "\<And>v s. usable s \<Longrightarrow> puts (e v) s (enc v s)"
  shows "delivers env (\<lambda>_ st. Some (enc_int widen enc f p st)) m (bind_out (int_view widen f p m) (\<lambda>v. Ok (e v)))"
proof (cases "unat (fd_data_size f) = 1 \<or> unat (fd_data_size f) = 2 \<or> unat (fd_data_size f) = 4 \<or> unat (fd_data_size f) = 8")
  case True
  then show ?thesis
    by (simp add: enc_int_def int_view_def Let_def bind_out_assoc delivers_read delivers_stream [OF assms])
next
  case False
  then show ?thesis by (simp add: enc_int_def int_view_def Let_def delivers_error)
qed

lemma delivers_scalar: "delivers env (\<lambda>_ st. Some (enc_packable ptr f p st)) m (bind_out (scalar_view ptr f p m) (\<lambda>v. Ok (wire_bytes v)))"
proof -
  have s: "delivers env (\<lambda>_ st. Some (pb_enc_bool ptr f p st)) m (bind_out (safe_read_bool ptr p m) (\<lambda>b. Ok (venc (unat (if b then 1 else 0 :: u64)))))"
    unfolding pb_enc_bool_def by (intro delivers_read delivers_stream puts_varint) simp_all
  have w: "delivers env (\<lambda>_ st. Some (pb_enc_fixed32 f p st)) m (bind_out (load_u32 p m) (\<lambda>v. Ok (le_bytes 4 (unat v))))"
    "delivers env (\<lambda>_ st. Some (pb_enc_fixed64 f p st)) m (bind_out (load_bytes p 8 m) (\<lambda>bs. Ok (le_bytes 8 (unat (le_word bs :: u64)))))"
    unfolding pb_enc_fixed32_def pb_enc_fixed64_def by (intro delivers_read delivers_stream puts_fixed; simp)+
  note v = delivers_int [of "\<lambda>v. venc (unat v)", OF puts_varint] delivers_int [of "\<lambda>v. venc (unat (zigzag v))", OF puts_svarint]
  show ?thesis
    unfolding enc_packable_def scalar_view_def Let_def pb_enc_varint_def pb_enc_uvarint_def pb_enc_svarint_def
    using s w v by (simp add: bind_out_assoc)
qed

lemma delivers_bytes: "delivers env (\<lambda>_ st. Some (pb_enc_bytes ptr f p st)) m (bind_out (bytes_view ptr f p m) (\<lambda>bs. Ok (wire_bytes (WString bs))))"
proof (cases "p = Null")
  case True
  then show ?thesis using puts_string [of _ "[]" None 0] by (simp add: pb_enc_bytes_def bytes_view_def delivers_stream)
next
  case False
  have b: "delivers env (\<lambda>_ st. Some (encode_string_at ptr q (ucast n) st)) m (bind_out (load_chars ptr q (unat n) m) (\<lambda>bs. Ok (venc (length bs) @ bs)))" for q and n :: u32
  proof (cases "load_chars ptr q (unat n) m")
    case (Ok bs)
    then show ?thesis using delivers_string_at [of ptr q "ucast n" m bs] by (simp add: unat_ucast_up)
  qed (use loads_no_Fail(4) [of ptr q "unat n" m] in \<open>simp_all add: delivers_Undef grows_rules\<close>)
  show ?thesis using False unfolding pb_enc_bytes_def bytes_view_def
    by (simp only: if_False bind_out_assoc bind_out_if bind_out.simps wire_bytes.simps) (intro delivers_read delivers_if_Some delivers_error b; simp)
qed

lemma delivers_string: "delivers env (\<lambda>_ st. Some (pb_enc_string ptr f p st)) m (bind_out (string_view ptr f p m) (\<lambda>bs. Ok (wire_bytes (WString bs))))"
proof (cases "p = Null")
  case True
  have "delivers env (\<lambda>_ st. Some (encode_string_at ptr Null 0 st)) m (Ok (venc 0))"
  proof (rule deliversI)
    fix s e assume "usable s" "Ok (venc 0) = Ok e"
    then show "\<exists>x. puts e s x \<and> enc.reach env (\<lambda>call. Some (encode_string_at ptr Null 0 (s, m))) (fst x, snd x, m)"
      using puts_string [of s "[]" "bytes_at ptr Null 0 m" 0]
      by (intro exI [of _ "pb_encode_string (bytes_at ptr Null 0 m) 0 s"]) (simp add: encode_string_at_def on_stream_def split: prod.splits)
  qed (simp_all add: grows_rules)
  then show ?thesis using True by (simp add: pb_enc_string_def string_view_def Let_def)
next
  case False
  have "delivers env (\<lambda>_ st. Some (encode_string_at ptr p n st)) m (bind_out (load_chars ptr p (unat n) m) (\<lambda>bs. Ok (wire_bytes (WString bs))))" for n
    using loads_no_Fail(4) [of ptr p "unat n" m]
    by (cases "load_chars ptr p (unat n) m") (simp_all add: delivers_string_at delivers_Undef grows_rules)
  then show ?thesis using False unfolding pb_enc_string_def string_view_def Let_def by (simp only: if_False bind_out_assoc) (intro delivers_read; simp)
qed

lemma delivers_fixed_bytes:
  "delivers env (\<lambda>_ st. Some (pb_enc_fixed_length_bytes ptr f p st)) m (bind_out (load_chars ptr p (unat (fd_data_size f)) m) (\<lambda>bs. Ok (wire_bytes (WString bs))))"
  using loads_no_Fail(4) [of ptr p "unat (fd_data_size f)" m]
  by (cases "load_chars ptr p (unat (fd_data_size f)) m")
    (simp_all add: pb_enc_fixed_length_bytes_def delivers_string_at unat_ucast_up delivers_Undef grows_rules)

section \<open>Submessages\<close>

lemma sizing_usable: "counting (PB_OSTREAM_SIZING :: 'u pb_ostream)" "usable PB_OSTREAM_SIZING"
  by (simp_all add: usable_def counting_def PB_OSTREAM_SIZING_def)

text \<open>The substream that a message of known size is written on has just the space it needs.\<close>

lemma substream_fresh:
  assumes "fresh s" "length d \<le> space s" "length d < 2 ^ 63"
    and sub: "sub = \<lparr>os_callback = os_callback s, os_state = os_state s, max_size = of_nat (length d), bytes_written = 0, os_errmsg = None\<rparr>"
  shows "fresh sub" "space sub = length d"
    "after_substream s (of_nat (length d)) (Ok (), (emit d sub, m)) = (Ok (), (emit d s, m))"
proof -
  have n: "unat (of_nat (length d) :: u64) = length d" using assms(3) by (simp add: unat_of_nat)
  then show sp: "space sub = length d" unfolding sub space_def by simp
  have "length d \<le> room (os_state s)" using assms(1,2) by (simp add: fresh_def ok_def)
  then show "fresh sub" using assms(1,3) n sp unfolding sub by (simp add: fresh_def ok_def)
  show "after_substream s (of_nat (length d)) (Ok (), (emit d sub, m)) = (Ok (), (emit d s, m))"
    using assms(1) unfolding sub after_substream_def emit_def by (cases s) (simp add: fresh_def)
qed

lemma submessage_body:
  assumes del: "delivers env (\<lambda>call. call (Encode_message t p)) m (Ok d)" and d: "length d < 2 ^ 63"
  shows "delivers env (\<lambda>call (s, m).
      if os_callback s = Null_write then Some (on_stream (pb_write None (of_nat (length d))) (s, m))
      else if max_size s < bytes_written s + of_nat (length d) then Some (enc_error ''stream full'' (s, m))
      else map_option (after_substream s (of_nat (length d))) (call (Encode_message t p)
        (\<lparr>os_callback = os_callback s, os_state = os_state s, max_size = of_nat (length d), bytes_written = 0, os_errmsg = None\<rparr>, m))) m (Ok d)"
    (is "delivers env ?G m _")
proof (rule deliversI)
  show "grows (\<lambda>call. ?G call st)" for st by (cases st) (simp only: prod.case, intro grows_rules)
  let ?n = "of_nat (length d) :: u64"
  fix s e assume s: "usable s" and "Ok d = (Ok e :: byte list outcome)"
  then have e: "e = d" by simp
  have "\<exists>x. puts d s x \<and> enc.reach env (\<lambda>call. ?G call (s, m)) (fst x, snd x, m)"
  proof (cases "counting s")
    case True
    then show ?thesis using not_counting [of s]
      by (intro exI [of _ "(Ok (), counted d s)"]) (auto simp: counting_def puts_def on_stream_def pb_write_sizing counted_def)
  next
    case False
    then have f: "fresh s" "os_callback s \<noteq> Null_write" using s not_null by (auto simp: usable_def fresh_def ok_def)
    have n: "unat ?n = length d" using d by (simp add: unat_of_nat)
    have "unat (bytes_written s) \<le> 2 ^ 63" "unat (bytes_written s) \<le> unat (max_size s)" using f(1) by (simp_all add: fresh_def ok_def)
    moreover from this(1) have "unat (bytes_written s + ?n) = unat (bytes_written s) + length d" using n d by (simp add: unat_word_ariths)
    ultimately have full: "max_size s < bytes_written s + ?n \<longleftrightarrow> space s < length d" unfolding word_less_nat_alt space_def by linarith
    show ?thesis
    proof (cases "space s < length d")
      case True
      then have "puts d s (os_return_error ''stream full'' s)" using False by (intro puts_write) simp_all
      then show ?thesis using True f(2) full
        by (intro exI [of _ "os_return_error ''stream full'' s"]) (simp add: on_stream_def os_return_error_def)
    next
      case fits: False
      let ?sub = "\<lparr>os_callback = os_callback s, os_state = os_state s, max_size = ?n, bytes_written = 0, os_errmsg = None\<rparr>"
      note sub = substream_fresh [OF f(1) _ d, of ?sub, OF leI [OF fits] refl]
      have "usable ?sub" using sub(1) by (simp add: usable_def)
      from delivers_OkE [OF del this] obtain x where x: "puts d ?sub x" "enc.reach env (\<lambda>call. call (Encode_message t p) (?sub, m)) (fst x, snd x, m)" .
      have "x = (Ok (), emit d ?sub)" using x(1) sub(1,2) by (simp add: puts_def)
      then have "enc.reach env (\<lambda>call. map_option (after_substream s ?n) (call (Encode_message t p) (?sub, m))) (Ok (), (emit d s, m))"
        using enc.reach_map [OF x(2), of "after_substream s ?n"] sub(3) [of m] by simp
      then show ?thesis using fits f full False
        by (intro exI [of _ "(Ok (), emit d s)"]) (simp add: puts_def)
    qed
  qed
  then show "\<exists>x. puts e s x \<and> enc.reach env (\<lambda>call. ?G call (s, m)) (fst x, snd x, m)" unfolding e .
qed simp

end

end
