(* ===== verification/Pb_View_Fits.thy ===== *)
theory Pb_View_Fits
  imports Pb_Image_View Pb_Regions Pb_Encode_Values
begin

text \<open>
  What the view reads from a structure with singular fields is a message of its table: every value is one that the field can have, and
  none of them is the default. Only a string that fills its array up to the end, without a terminator, and submessages that are too long
  for the decoder have to be excluded.
\<close>

definition value_storable :: "(nat \<Rightarrow> pb_message \<Rightarrow> bool) \<Rightarrow> pb_field \<Rightarrow> pb_value \<Rightarrow> bool" where
  "value_storable sub f v = (case v of
      Scalar w \<Rightarrow> (case w of WString bs \<Rightarrow> PB_LTYPE f \<noteq> PB_LTYPE_STRING \<or> length bs < unat (fd_data_size f) | _ \<Rightarrow> True)
    | Nested fs \<Rightarrow> fits_varint32 (message_bytes fs) \<and> sub (sub_index f) fs
    | Packed _ \<Rightarrow> True)"

primrec storable :: "nat \<Rightarrow> (nat \<Rightarrow> pb_field list) \<Rightarrow> nat \<Rightarrow> pb_message \<Rightarrow> bool" where
  "storable 0 tabs t fs = False"
| "storable (Suc d) tabs t fs = list_all (\<lambda>f. list_all (\<lambda>(_, v). value_storable (storable d tabs) f v) (of_field f fs)) (butlast (tabs t))"

section \<open>Reading\<close>

lemma load_bytes_occupies:
  assumes "unused_above m" "load_bytes (Addr b i) n m = Ok bs"
  obtains pre post where "occupies pre post b bs m" "i = int (length pre)" "length bs = n"
proof -
  obtain cs where cs: "load_cells (Addr b i) n m = Ok cs" "those (map cell_byte cs) = Some bs"
    using assms(2) by (cases "load_cells (Addr b i) n m") (auto simp: load_bytes_def split: option.splits)
  have "cs = map Byte bs" if "those (map cell_byte cs) = Some bs" for cs bs
    using that
  proof (induction cs arbitrary: bs)
    case (Cons c cs)
    then show ?case by (cases c) (auto split: option.splits)
  qed simp
  then have b: "cs = map Byte bs" using cs(2) by blast
  obtain os where os: "mem_objects m b = Some os" "0 \<le> i" "nat i + n \<le> length os" "cs = take n (drop (nat i) os)"
    using cs(1) by (auto simp: load_cells_def in_object_def split: option.splits if_splits)
  have "os = take (nat i) os @ map Byte bs @ drop (nat i + n) os"
    using segment_split [OF os(3)] os(4) b by (simp add: segment_def)
  moreover have "b < mem_fresh m" using assms(1) os(1) by (auto simp: unused_above_def not_le [symmetric])
  ultimately have "occupies (take (nat i) os) (drop (nat i + n) os) b bs m" using os(1) by (simp add: occupies_def)
  moreover have "length bs = n" using b os(3,4) by (metis length_drop length_map length_take min.absorb2 add_leD2 le_diff_conv2 add.commute nat_le_iff_add)
  ultimately show thesis using that os(2,3) by simp
qed

lemma load_chars_Suc:
  "load_chars ptr (Addr b i) (Suc n) m = Ok (c # cs) \<Longrightarrow> load_char ptr (Addr b i) m = Ok c \<and> load_chars ptr (Addr b (i + 1)) n m = Ok cs"
proof -
  assume l: "load_chars ptr (Addr b i) (Suc n) m = Ok (c # cs)"
  then obtain os where os: "mem_objects m b = Some os" "0 \<le> i" "nat i + Suc n \<le> length os" "those (map (cell_char ptr) (take (Suc n) (drop (nat i) os))) = Some (c # cs)"
    by (auto simp: load_chars_def load_cells_def in_object_def split: option.splits if_splits)
  have "drop (nat i) os = os ! nat i # drop (nat (i + 1)) os" using os(2,3) by (simp add: Cons_nth_drop_Suc nat_add_distrib)
  then show ?thesis using os by (auto simp: load_char_def load_chars_def load_cells_def in_object_def nat_add_distrib split: option.splits)
qed

lemma string_size_step:
  assumes "string_size ptr m limit n (Addr b i) = Ok r"
  obtains "r = n" | c where "load_char ptr (Addr b i) m = Ok c" "c \<noteq> 0" "string_size ptr m limit (n + 1) (Addr b (i + 1)) = Ok r" "unat (n + 1) = Suc (unat n)" "n < limit"
proof (cases "r = n")
  case False
  have s: "n < limit" using assms False by (subst (asm) string_size.simps) (simp split: if_splits)
  then obtain c where c: "load_char ptr (Addr b i) m = Ok c" "c \<noteq> 0" "string_size ptr m limit (n + 1) (Addr b (i + 1)) = Ok r"
    using assms False by (subst (asm) string_size.simps) (auto simp: bind_out_eq_Ok shift_def split: if_splits)
  have "unat n < unat limit" using s by (simp add: word_less_nat_alt)
  then have "unat (n + 1) = Suc (unat n)" using unat_u64_less [of limit] by (simp add: unat_word_ariths)
  then show thesis using that(2) c s by blast
qed (use that(1) in blast)

lemma string_size_ge: "string_size ptr m limit n (Addr b i) = Ok r \<Longrightarrow> unat n \<le> unat r"
proof (induction "unat limit - unat n" arbitrary: n i rule: less_induct)
  case less
  from less.prems show ?case
  proof (cases rule: string_size_step)
    case (2 c)
    then have "unat (n + 1) \<le> unat r" by (intro less.hyps) (auto simp: word_less_nat_alt)
    then show ?thesis using 2(4) by simp
  qed simp
qed

lemma string_size_chars:
  "string_size ptr m limit n (Addr b i) = Ok r \<Longrightarrow> load_chars ptr (Addr b i) (unat r - unat n) m = Ok bs \<Longrightarrow> 0 \<notin> set bs"
proof (induction bs arbitrary: n i)
  case (Cons c bs)
  from Cons.prems(1) show ?case
  proof (cases rule: string_size_step)
    case 1
    then show ?thesis using Cons.prems(2) length_load_chars by fastforce
  next
    case (2 c')
    have "unat r - unat n = Suc (unat r - unat (n + 1))" using string_size_ge [OF 2(3)] 2(4) by simp
    from load_chars_Suc [OF Cons.prems(2) [unfolded this]] have c: "load_char ptr (Addr b i) m = Ok c" "load_chars ptr (Addr b (i + 1)) (unat r - unat (n + 1)) m = Ok bs" by simp_all
    then show ?thesis using Cons.IH [OF 2(3) c(2)] 2(1,2) by simp
  qed
qed simp

section \<open>Numbers\<close>

lemma ucast_scast:
  "ucast (scast (w :: byte) :: u64) = w" "ucast (scast (x :: u16) :: u64) = x" "ucast (scast (y :: u32) :: u64) = y"
  by (transfer, simp add: take_bit_signed_take_bit)+

lemma ucast_and_back:
  "ucast (ucast (w :: byte) :: u64) = w" "ucast (ucast (x :: u16) :: u64) = x" "ucast (ucast (y :: u32) :: u64) = y"
  by (transfer, simp add: min_def)+

lemma narrow_idem: "narrow_signed k (narrow_signed k v) = narrow_signed k v" "narrow_unsigned k (narrow_unsigned k v) = narrow_unsigned k v"
  by (simp_all add: narrow_signed_def narrow_unsigned_def ucast_scast ucast_and_back)

lemma unat_mod_256: "unat (u :: u64) mod 256 ^ k = unat (ucast u :: 'a word)" if "LENGTH('a::len) = 8 * k"
  using that by (simp add: unsigned_ucast_eq take_bit_eq_mod pow256)

lemma narrow_mod:
  assumes "int_size k"
  shows "unat (narrow_signed k v) mod 256 ^ k = unat v mod 256 ^ k" "unat (narrow_unsigned k v) mod 256 ^ k = unat v mod 256 ^ k"
  using assms unat_mod_256 [where 'a = 8 and k = 1] unat_mod_256 [where 'a = 16 and k = 2] unat_mod_256 [where 'a = 32 and k = 4]
  by (auto simp: int_size_def narrow_signed_def narrow_unsigned_def ucast_scast ucast_and_back)

lemma le_word_zero:
  assumes "8 * length bs \<le> LENGTH('a)" "unat (le_word bs :: 'a::len word) mod 256 ^ length bs = 0"
  shows "list_all (\<lambda>c. c = 0) bs"
proof -
  have "le_value bs = 0" using assms unat_le_word [OF assms(1)] le_value_less [of bs] by simp
  then show ?thesis by (simp add: le_value_zero)
qed

lemma narrow_zero:
  assumes "int_size (length bs)" "narrow_signed (length bs) (le_word bs) = 0 \<or> narrow_unsigned (length bs) (le_word bs) = 0"
  shows "list_all (\<lambda>c. c = 0) bs"
proof (rule le_word_zero [where 'a = 64])
  show "8 * length bs \<le> LENGTH(64)" using assms(1) by (auto simp: int_size_def)
  show "unat (le_word bs :: u64) mod 256 ^ length bs = 0" using narrow_mod [OF assms(1), of "le_word bs"] assms(2) by auto
qed

section \<open>Values\<close>

lemma int_view_nonzero:
  assumes m: "unused_above m" and z: "zero_chars ptr (unat (fd_data_size f)) (Addr b k) m = Ok False"
  shows "int_view narrow_signed f (Addr b k) m = Ok u \<Longrightarrow> u \<noteq> 0 \<and> narrow_signed (unat (fd_data_size f)) u = u"
    and "int_view narrow_unsigned f (Addr b k) m = Ok u \<Longrightarrow> u \<noteq> 0 \<and> narrow_unsigned (unat (fd_data_size f)) u = u"
proof -
  let ?n = "unat (fd_data_size f)"
  have bs: "\<exists>bs. u = w ?n (le_word bs) \<and> length bs = ?n \<and> int_size ?n \<and> \<not> list_all (\<lambda>c. c = 0) bs" if iv: "int_view w f (Addr b k) m = Ok u" for w
  proof -
    have k: "int_size ?n" using iv by (auto simp: int_view_def int_size_def Let_def split: if_splits)
    then obtain bs where bs: "load_bytes (Addr b k) ?n m = Ok bs" "u = w ?n (le_word bs)"
      using iv by (auto simp: int_view_def int_size_def Let_def bind_out_eq_Ok)
    from load_bytes_occupies [OF m bs(1)] obtain pre post where o: "occupies pre post b bs m" "k = int (length pre)" "length bs = ?n" .
    then show ?thesis using zero_chars_occupied [OF o(1), of ptr] z bs(2) k by auto
  qed
  show "int_view narrow_signed f (Addr b k) m = Ok u \<Longrightarrow> u \<noteq> 0 \<and> narrow_signed ?n u = u"
    using bs [of narrow_signed] narrow_zero narrow_idem(1) by metis
  show "int_view narrow_unsigned f (Addr b k) m = Ok u \<Longrightarrow> u \<noteq> 0 \<and> narrow_unsigned ?n u = u"
    using bs [of narrow_unsigned] narrow_zero narrow_idem(2) by metis
qed

lemma le_word_nonzero:
  fixes bs :: "byte list"
  assumes "unused_above m" "zero_chars ptr n (Addr b k) m = Ok False" "load_bytes (Addr b k) n m = Ok bs" "LENGTH('a) = 8 * n"
  shows "(le_word bs :: 'a::len word) \<noteq> 0"
proof
  assume z: "(le_word bs :: 'a word) = 0"
  from load_bytes_occupies [OF assms(1,3)] obtain pre post where o: "occupies pre post b bs m" "k = int (length pre)" "length bs = n" .
  have "list_all (\<lambda>c. c = 0) bs" using le_word_zero [where 'a = 'a, of bs] z o(3) assms(4) by simp
  then show False using zero_chars_occupied [OF o(1), of ptr] o(2,3) assms(2) by simp
qed

lemma bytes_view_fits:
  assumes "bytes_view ptr f (Addr b k) m = Ok bs" "own_default ptr f (Addr b k) m = Ok False" "PB_ATYPE f = PB_ATYPE_STATIC" "PB_LTYPE f = PB_LTYPE_BYTES"
    "4 \<le> unat (fd_data_size f)"
  shows "bs \<noteq> []" "length bs + 4 \<le> unat (fd_data_size f)"
proof -
  obtain n where n: "load_u32 (Addr b k) m = Ok n" "n \<noteq> 0" using assms(2-4) by (auto simp: own_default_def bind_out_eq_Ok)
  then have c: "\<not> (ucast (fd_data_size f) :: u64) - 4 < ucast n" and l: "load_chars ptr (Addr b (k + 4)) (unat n) m = Ok bs"
    using assms(1,3) by (auto simp: bytes_view_def shift_def split: if_splits)
  have len: "length bs = unat n" by (rule length_load_chars [OF l])
  then show "bs \<noteq> []" using n(2) by (auto simp: unat_eq_zero)
  have f: "unat (ucast (fd_data_size f) :: u64) = unat (fd_data_size f)" by (simp add: unat_ucast_up)
  then have "(4 :: u64) \<le> ucast (fd_data_size f)" using assms(5) by (simp add: word_le_nat_alt)
  then have "unat ((ucast (fd_data_size f) :: u64) - 4) = unat (fd_data_size f) - 4" using f by (simp add: unat_sub)
  then have "unat n \<le> unat (fd_data_size f) - 4" using c by (simp add: word_less_nat_alt unat_ucast_up)
  then show "length bs + 4 \<le> unat (fd_data_size f)" using assms(5) len by simp
qed

lemma string_view_fits:
  assumes "string_view ptr f (Addr b k) m = Ok bs" "own_default ptr f (Addr b k) m = Ok False" "PB_ATYPE f = PB_ATYPE_STATIC" "PB_LTYPE f = PB_LTYPE_STRING"
    "0 < unat (fd_data_size f)"
  shows "bs \<noteq> []" "0 \<notin> set bs"
proof -
  obtain c where c: "load_char ptr (Addr b k) m = Ok c" "c \<noteq> 0" using assms(2-4) by (auto simp: own_default_def bind_out_eq_Ok)
  obtain n where n: "string_size ptr m (ucast (fd_data_size f)) 0 (Addr b k) = Ok n" "load_chars ptr (Addr b k) (unat n) m = Ok bs"
    using assms(1,3) by (auto simp: string_view_def bind_out_eq_Ok)
  show "0 \<notin> set bs" using string_size_chars [OF n(1)] n(2) by simp
  have "(0 :: u64) < ucast (fd_data_size f)" using assms(5) by (simp add: word_less_nat_alt unat_ucast_up)
  then have "string_size ptr m (ucast (fd_data_size f)) 1 (Addr b (k + 1)) = Ok n" using n(1) c by (subst (asm) string_size.simps) (simp add: shift_def)
  from string_size_ge [OF this] have "0 < unat n" by simp
  then show "bs \<noteq> []" using length_load_chars [OF n(2)] by auto
qed

lemma view_value_fits:
  assumes f: "singular_field tables f" and m: "unused_above m" and v: "value_view env sub f (Addr b k) m = Ok v" "value_storable st f v"
    and own: "PB_LTYPE f \<noteq> PB_LTYPE_SUBMESSAGE \<Longrightarrow> own_default (ee_pointer_byte env) f (Addr b k) m = Ok False"
    and sub: "\<And>fs. PB_LTYPE f = PB_LTYPE_SUBMESSAGE \<Longrightarrow> sub (sub_index f) (Addr b k) = Ok fs \<Longrightarrow> st (sub_index f) fs \<Longrightarrow> fs \<noteq> [] \<and> fits (sub_index f) fs"
  shows "value_fits fits f v"
proof -
  note t = singular_types [OF f] and sz = singular_types(5) [OF f, unfolded scalar_size_def Let_def]
  have zero: "zero_chars (ee_pointer_byte env) (unat (fd_data_size f)) (Addr b k) m = Ok False" if "PB_LTYPE f \<le> PB_LTYPE_LAST_PACKABLE"
  proof -
    have "PB_LTYPE f \<noteq> PB_LTYPE_SUBMESSAGE" "PB_LTYPE f \<noteq> PB_LTYPE_BYTES" "PB_LTYPE f \<noteq> PB_LTYPE_STRING" "PB_LTYPE f \<noteq> PB_LTYPE_FIXED_LENGTH_BYTES"
      using that by auto
    then show ?thesis using own t(1) by (simp add: own_default_def)
  qed
  note iv = int_view_nonzero [OF m zero]
  from t(4) show ?thesis
  proof (cases rule: ltype_cases)
    case 1
    then have "unat (fd_data_size f) = 1" using sz by simp
    then obtain c where "load_char (ee_pointer_byte env) (Addr b k) m = Ok c" "c \<noteq> 0"
      using zero 1 by (cases "load_char (ee_pointer_byte env) (Addr b k) m") (auto simp: shift_def split: if_splits)
    then have "v = Scalar (WVarint 1)" using v(1) 1 by (simp add: value_view_def scalar_view_def safe_read_bool_def)
    then show ?thesis using 1 by (simp add: value_fits_WVarint)
  next
    case 2
    then obtain u where u: "v = Scalar (WVarint u)" "int_view narrow_signed f (Addr b k) m = Ok u"
      using v(1) by (auto simp: value_view_def scalar_view_def bind_out_eq_Ok)
    show ?thesis using iv(1) [OF _ u(2)] 2 unfolding u(1) value_fits_WVarint by simp
  next
    case 3
    then obtain u where u: "v = Scalar (WVarint u)" "int_view narrow_unsigned f (Addr b k) m = Ok u"
      using v(1) by (auto simp: value_view_def scalar_view_def bind_out_eq_Ok)
    show ?thesis using iv(2) [OF _ u(2)] 3 unfolding u(1) value_fits_WVarint by simp
  next
    case 4
    then obtain u where u: "v = Scalar (WVarint (zigzag u))" "int_view narrow_signed f (Addr b k) m = Ok u"
      using v(1) by (auto simp: value_view_def scalar_view_def bind_out_eq_Ok)
    have "u \<noteq> 0" "narrow_signed (unat (fd_data_size f)) u = u" using iv(1) [OF _ u(2)] 4 by simp_all
    moreover from this(1) have "zigzag u \<noteq> 0" using unzigzag_zero [of "zigzag u"] by simp
    ultimately show ?thesis using 4 unfolding u(1) value_fits_WVarint by simp
  next
    case 5
    then obtain bs where bs: "load_bytes (Addr b k) 4 m = Ok bs" "v = Scalar (W32 (le_word bs))"
      using v(1) by (auto simp: value_view_def scalar_view_def load_u32_def bind_out_eq_Ok)
    have "zero_chars (ee_pointer_byte env) 4 (Addr b k) m = Ok False" using zero 5 sz by simp
    from le_word_nonzero [where 'a = 32, OF m this bs(1)] show ?thesis using 5 bs(2) by (simp add: value_fits_def)
  next
    case 6
    then obtain bs where bs: "load_bytes (Addr b k) 8 m = Ok bs" "v = Scalar (W64 (le_word bs))"
      using v(1) by (auto simp: value_view_def scalar_view_def bind_out_eq_Ok)
    have "zero_chars (ee_pointer_byte env) 8 (Addr b k) m = Ok False" using zero 6 sz by simp
    from le_word_nonzero [where 'a = 64, OF m this bs(1)] show ?thesis using 6 bs(2) by (simp add: value_fits_def)
  next
    case 7
    then obtain bs where bs: "bytes_view (ee_pointer_byte env) f (Addr b k) m = Ok bs" "v = Scalar (WString bs)"
      using v(1) by (auto simp: value_view_def bind_out_eq_Ok)
    show ?thesis using bytes_view_fits [OF bs(1) _ t(1) 7] own 7 sz bs(2) by (simp add: value_fits_def)
  next
    case 8
    then obtain bs where bs: "string_view (ee_pointer_byte env) f (Addr b k) m = Ok bs" "v = Scalar (WString bs)"
      using v(1) by (auto simp: value_view_def bind_out_eq_Ok)
    show ?thesis using string_view_fits [OF bs(1) _ t(1) 8] own 8 sz bs(2) v(2) by (simp add: value_fits_def value_storable_def)
  next
    case 9
    then obtain fs where fs: "sub (sub_index f) (Addr b k) = Ok fs" "v = Nested fs"
      using v(1) singular_submessage(1,2) [OF f 9] by (auto simp: value_view_def bind_out_eq_Ok split: if_splits)
    show ?thesis using sub [OF 9 fs(1)] v(2) fs(2) 9 by (simp add: value_fits_def value_storable_def)
  qed
qed

section \<open>Messages\<close>

lemma collect_OkE:
  assumes "collect g [0..<n] = Ok ys"
  obtains "length ys = n" "\<And>i. i < n \<Longrightarrow> g i = Ok (ys ! i)"
proof -
  have "collect g xs = Ok ys \<Longrightarrow> length ys = length xs \<and> (\<forall>i < length xs. g (xs ! i) = Ok (ys ! i))" for xs
  proof (induction xs arbitrary: ys)
    case (Cons x xs)
    then obtain z zs where "ys = z # zs" "g x = Ok z" "collect g xs = Ok zs" by (auto simp: bind_out_eq_Ok)
    then show ?case using Cons.IH [of zs] by (auto simp: less_Suc_eq_0_disj)
  qed simp
  from this [OF assms] show thesis using that by simp
qed

text \<open>A structure with singular fields, read field by field.\<close>

lemma view_parts:
  assumes lay: "singular_layout tables (ee_tables env t) n sz" and v: "view (Suc k) env (View_message t (Addr b p)) m = Ok fs"
  obtains part where "fs = concat (map part [0..<n])"
    "\<forall>i < n. bind_out (is_default k env (ee_tables env t ! i) (Addr b (p + int (field_off (ee_tables env t) i))) m) (\<lambda>d. if d then Ok []
      else single_view env (\<lambda>t r. view k env (View_message t r) m) (ee_tables env t ! i) (Addr b (p + int (field_off (ee_tables env t) i))) m) = Ok (part i)"
proof -
  let ?tab = "ee_tables env t"
  have wf: "wf_table ?tab n" using lay by (simp add: singular_layout_def)
  then have n: "n = length ?tab - 1" by (simp add: wf_table_def)
  let ?g = "\<lambda>i. bind_out (shift (Addr b p) (int (field_off ?tab i))) (\<lambda>q.
      if PB_LTYPE (?tab ! i) = PB_LTYPE_EXTENSION then bind_out (load_ptr q m) (\<lambda>ext. view k env (View_extensions ext) m)
      else field_view env (\<lambda>t r. view k env (View_message t r) m) (\<lambda>f q. is_default k env f q m) (?tab ! i) q m)"
  obtain ys where ys: "collect ?g [0..<n] = Ok ys" "fs = concat ys"
    using v wf by (auto simp: message_view_def Let_def bind_out_eq_Ok n)
  from collect_OkE [OF ys(1)] have y: "length ys = n" "\<And>i. i < n \<Longrightarrow> ?g i = Ok (ys ! i)" by auto
  have f: "singular_field tables (?tab ! i)" "PB_LTYPE (?tab ! i) \<noteq> PB_LTYPE_EXTENSION" if "i < n" for i
    using lay that singular_types(4) [of tables "?tab ! i"] by (auto simp: singular_layout_def)
  have "ys = map ((!) ys) [0..<n]" using y(1) map_nth [of ys] by simp
  then have "fs = concat (map ((!) ys) [0..<n])" using ys(2) by simp
  moreover have "\<forall>i < n. bind_out (is_default k env (?tab ! i) (Addr b (p + int (field_off ?tab i))) m) (\<lambda>d. if d then Ok []
      else single_view env (\<lambda>t r. view k env (View_message t r) m) (?tab ! i) (Addr b (p + int (field_off ?tab i))) m) = Ok (ys ! i)"
  proof (intro allI impI)
    fix i assume i: "i < n"
    show "bind_out (is_default k env (?tab ! i) (Addr b (p + int (field_off ?tab i))) m) (\<lambda>d. if d then Ok []
        else single_view env (\<lambda>t r. view k env (View_message t r) m) (?tab ! i) (Addr b (p + int (field_off ?tab i))) m) = Ok (ys ! i)"
      using y(2) [OF i] f(2) [OF i] field_view_singular [OF f(1) [OF i], of env "\<lambda>t r. view k env (View_message t r) m" "\<lambda>f q. is_default k env f q m"]
      by (simp add: shift_def)
  qed
  ultimately show thesis by (rule that)
qed

lemma single_view_Ok: "single_view env sub f q m = Ok gs \<Longrightarrow> \<exists>v. gs = [(fd_tag f, v)] \<and> value_view env sub f q m = Ok v"
  by (auto simp: single_view_def bind_out_eq_Ok split: if_splits)

lemma part_shape:
  assumes "bind_out dflt (\<lambda>d. if d then Ok [] else single_view env sub f q m) = Ok gs"
  shows "dflt = Ok (gs = [])" "gs = [] \<or> (\<exists>v. gs = [(fd_tag f, v)] \<and> value_view env sub f q m = Ok v)"
proof -
  obtain d where d: "dflt = Ok d" "(if d then Ok [] else single_view env sub f q m) = Ok gs" using assms by (auto simp: bind_out_eq_Ok)
  then show "dflt = Ok (gs = [])" "gs = [] \<or> (\<exists>v. gs = [(fd_tag f, v)] \<and> value_view env sub f q m = Ok v)"
    using single_view_Ok [of env sub f q m gs] by (cases d; auto)+
qed

lemma view_default:
  assumes lay: "singular_layout tables (ee_tables env t) n sz" and v: "view (Suc k) env (View_message t (Addr b p)) m = Ok fs"
  shows "all_fields (ee_tables env t) (\<lambda>g r. is_default k env g r m) (Addr b p) = Ok (fs = [])"
proof -
  let ?tab = "ee_tables env t"
  from view_parts [OF lay v] obtain part where part: "fs = concat (map part [0..<n])"
    "\<forall>i < n. bind_out (is_default k env (?tab ! i) (Addr b (p + int (field_off ?tab i))) m) (\<lambda>d. if d then Ok []
      else single_view env (\<lambda>t r. view k env (View_message t r) m) (?tab ! i) (Addr b (p + int (field_off ?tab i))) m) = Ok (part i)" .
  have wf: "wf_table ?tab (length ?tab - 1)" "n = length ?tab - 1" using lay by (auto simp: singular_layout_def wf_table_def)
  have "is_default k env (?tab ! i) (Addr b (p + int (field_off ?tab i))) m = Ok (part i = [])" if "i < n" for i
    using part_shape(1) part(2) that by blast
  then have "all_out (\<lambda>i. bind_out (shift (Addr b p) (int (field_off ?tab i))) (\<lambda>r. is_default k env (?tab ! i) r m)) [0..<n] = Ok (\<forall>i \<in> set [0..<n]. part i = [])"
    by (intro all_out_Ok) (simp add: shift_def)
  moreover have "(\<forall>i \<in> set [0..<n]. part i = []) \<longleftrightarrow> fs = []" unfolding part(1) by auto
  ultimately show ?thesis using wf by (simp add: all_fields_def)
qed

lemma filter_single:
  assumes "i < n" "\<And>j. j < n \<Longrightarrow> filter P (part j) = (if j = i then part j else [])"
  shows "filter P (concat (map part [0..<n])) = part i"
proof -
  have "concat (map (\<lambda>j. if j = i then part j else []) [0..<k]) = (if i < k then part i else [])" for k by (induction k) auto
  moreover have "filter P (concat (map part [0..<n])) = concat (map (\<lambda>j. if j = i then part j else []) [0..<n])"
    unfolding filter_concat map_map using assms(2) by (intro arg_cong [of _ _ concat] map_cong) simp_all
  ultimately show ?thesis using assms(1) by simp
qed

lemma of_field_part:
  assumes "distinct (map fd_tag tab)" "n < length tab" "i < n" "\<And>j. j < n \<Longrightarrow> part j = [] \<or> (\<exists>v. part j = [(fd_tag (tab ! j), v)])"
  shows "of_field (tab ! i) (concat (map part [0..<n])) = part i"
  unfolding of_field_def
proof (rule filter_single [OF assms(3)])
  fix j assume j: "j < n"
  then have "fd_tag (tab ! j) = fd_tag (tab ! i) \<longleftrightarrow> j = i" using nth_eq_iff_index_eq [OF assms(1), of j i] assms(2,3) by simp
  then show "filter (\<lambda>(tag, _). tag = fd_tag (tab ! i)) (part j) = (if j = i then part j else [])" using assms(4) [OF j] by auto
qed

lemma view_fits:
  assumes "ee_tables env = tabs" "unused_above m"
  shows "singular_table d tabs t sz \<Longrightarrow> view k env (View_message t (Addr b p)) m = Ok fs \<Longrightarrow> storable d tabs t fs \<Longrightarrow> message_fits d tabs t fs"
proof (induction d arbitrary: t sz k p fs)
  case (Suc d)
  obtain k' where k: "k = Suc k'" using Suc.prems(2) by (cases k) auto
  let ?tab = "tabs t"
  let ?n = "length ?tab - 1" and ?q = "\<lambda>i. Addr b (p + int (field_off ?tab i))"
  have lay: "singular_layout (singular_table d tabs) ?tab ?n sz" using Suc.prems(1) by (simp only: singular_table_layout)
  from view_parts [of _ env t, unfolded assms(1), OF lay Suc.prems(2) [unfolded k]] obtain part where part: "fs = concat (map part [0..<?n])"
    "\<forall>i < ?n. bind_out (is_default k' env (?tab ! i) (?q i) m) (\<lambda>d. if d then Ok [] else single_view env (\<lambda>t r. view k' env (View_message t r) m) (?tab ! i) (?q i) m) = Ok (part i)" .
  have shape: "is_default k' env (?tab ! i) (?q i) m = Ok (part i = [])"
    "part i = [] \<or> (\<exists>v. part i = [(fd_tag (?tab ! i), v)] \<and> value_view env (\<lambda>t r. view k' env (View_message t r) m) (?tab ! i) (?q i) m = Ok v)" if "i < ?n" for i
    using part_shape [OF part(2) [rule_format, OF that]] by blast+
  have of: "of_field (?tab ! i) fs = part i" if "i < ?n" for i
    unfolding part(1) using lay shape(2) that by (intro of_field_part) (auto simp: singular_layout_def wf_table_def)
  have "field_fits (message_fits d tabs) (?tab ! i) (part i)" if i: "i < ?n" for i
  proof (cases "part i = []")
    case False
    then obtain v where v: "part i = [(fd_tag (?tab ! i), v)]" "value_view env (\<lambda>t r. view k' env (View_message t r) m) (?tab ! i) (?q i) m = Ok v" using shape(2) [OF i] by blast
    have f: "singular_field (singular_table d tabs) (?tab ! i)" using lay i by (simp add: singular_layout_def)
    have st: "value_storable (storable d tabs) (?tab ! i) v"
      using Suc.prems(3) [unfolded storable.simps butlast_nth list_all_iff set_map, rule_format, of "?tab ! i" "(fd_tag (?tab ! i), v)"] i of [OF i] v(1) by simp
    obtain j where j: "k' = Suc j" using shape(1) [OF i] by (cases k') auto
    note d = shape(1) [OF i, unfolded j is_default_singular [OF f]]
    have "value_fits (message_fits d tabs) (?tab ! i) v"
    proof (rule view_value_fits [OF f assms(2) v(2) st])
      show "own_default (ee_pointer_byte env) (?tab ! i) (?q i) m = Ok False" if "PB_LTYPE (?tab ! i) \<noteq> PB_LTYPE_SUBMESSAGE" using d that False by simp
    next
      fix gs assume g: "PB_LTYPE (?tab ! i) = PB_LTYPE_SUBMESSAGE" "view k' env (View_message (sub_index (?tab ! i)) (?q i)) m = Ok gs" "storable d tabs (sub_index (?tab ! i)) gs"
      note tb = singular_submessage(3) [OF f g(1)]
      then obtain d' where d': "d = Suc d'" by (cases d) auto
      have "all_fields (ee_tables env (sub_index (?tab ! i))) (\<lambda>g r. is_default j env g r m) (?q i) = Ok (gs = [])"
        using tb g(2) unfolding d' j singular_table_layout assms(1) [symmetric] by (rule view_default)
      then have "gs \<noteq> []" using d g(1) False by simp
      then show "gs \<noteq> [] \<and> message_fits d tabs (sub_index (?tab ! i)) gs" using Suc.IH [OF tb g(2,3)] by simp
    qed
    then show ?thesis using v(1) by (simp add: field_fits_def)
  qed (simp add: field_fits_def)
  then have fit: "\<forall>i < ?n. field_fits (message_fits d tabs) (?tab ! i) (of_field (?tab ! i) fs)" using of by simp
  have "map (\<lambda>i. of_field (?tab ! i) fs) [0..<?n] = map part [0..<?n]" using of by (intro map_cong) simp_all
  then have "concat (map (\<lambda>i. of_field (?tab ! i) fs) [0..<?n]) = fs" by (simp only: part(1) [symmetric])
  with fit show ?case unfolding message_fits_Suc by blast
qed simp

end
