(* ===== verification/Pb_Encode_Fields.thy ===== *)
theory Pb_Encode_Fields
  imports Pb_Encode_Values
begin

text \<open>Submessages, arrays and whole fields put out the bytes of what the view reads.\<close>

section \<open>Collected values\<close>

lemma collect_Ok: "collect g xs = Ok ys \<Longrightarrow> length ys = length xs \<and> (\<forall>y \<in> set ys. \<exists>x \<in> set xs. g x = Ok y)"
  by (induction xs arbitrary: ys) (fastforce simp: bind_out_eq_Ok)+

lemma collect_Fail: "collect g xs = Fail \<Longrightarrow> \<exists>x \<in> set xs. g x = Fail"
proof (induction xs)
  case (Cons x xs)
  then show ?case by (cases "g x"; cases "collect g xs") auto
qed simp

lemma scalar_view_size:
  assumes "scalar_view ptr f p m = Ok v" "PB_LTYPE f \<le> PB_LTYPE_LAST_PACKABLE"
  shows "length (wire_bytes v) \<le> 10"
    and "PB_LTYPE f = PB_LTYPE_FIXED32 \<Longrightarrow> length (wire_bytes v) = 4" and "PB_LTYPE f = PB_LTYPE_FIXED64 \<Longrightarrow> length (wire_bytes v) = 8"
  using assms(1) length_venc_64 length_venc_64 [of 0] length_venc_64 [of 1]
  by (auto simp: scalar_view_def Let_def bind_out_eq_Ok split: if_splits)

lemma scalar_view_Fail: "scalar_view ptr f p m = Fail \<Longrightarrow> PB_LTYPE f \<noteq> PB_LTYPE_FIXED32 \<and> PB_LTYPE f \<noteq> PB_LTYPE_FIXED64"
  using loads_no_Fail(7) [of p m] loads_no_Fail(3) [of p 8 m]
  by (cases "load_u32 p m"; cases "load_bytes p 8 m") (auto simp: scalar_view_def Let_def split: if_splits)

lemma concat_bounded: "(\<And>x. x \<in> set xs \<Longrightarrow> length (h x) \<le> n) \<Longrightarrow> length (concat (map h xs)) \<le> n * length xs"
  by (induction xs) (auto intro: add_mono)

lemma length_concat_eq: "(\<And>x. x \<in> set xs \<Longrightarrow> length (h x) = n) \<Longrightarrow> length (concat (map h xs)) = n * length xs"
  by (induction xs) auto

abbreviation packed_view :: "(addr \<Rightarrow> nat \<Rightarrow> byte) \<Rightarrow> pb_field \<Rightarrow> addr \<Rightarrow> nat \<Rightarrow> memory \<Rightarrow> wire_value list outcome" where
  "packed_view ptr f p n m \<equiv> collect (\<lambda>i. bind_out (entry_at f p i) (\<lambda>q. scalar_view ptr f q m)) [0..<n]"

lemma packed_view_entry:
  assumes "packed_view ptr f p n m = Ok vs" "v \<in> set vs"
  obtains q where "scalar_view ptr f q m = Ok v"
  using collect_Ok [OF assms(1)] assms(2) by (auto simp: bind_out_eq_Ok)

context pb_sink
begin

lemma delivers_cong:
  assumes "delivers env H m r" "\<And>call s. G call (s, m) = H call (s, m)" "\<And>st. grows (\<lambda>call. G call st)"
  shows "delivers env G m r"
proof (rule deliversI)
  fix s assume s: "usable s"
  show "\<exists>x. puts d s x \<and> enc.reach env (\<lambda>call. G call (s, m)) (fst x, snd x, m)" if "r = Ok d" for d
    unfolding assms(2) using delivers_OkE [OF assms(1) [unfolded that] s] by blast
  show "\<exists>s'. (fresh s \<longrightarrow> (\<exists>d. stopped d s s')) \<and> enc.reach env (\<lambda>call. G call (s, m)) (Fail, s', m)" if "r = Fail"
    unfolding assms(2) using delivers_FailE [OF assms(1) [unfolded that] s] by blast
qed (rule assms(3))

lemma delivers_fail: "delivers env (\<lambda>_ st. Some (Fail, st)) m Fail"
  by (rule deliversI) (auto intro: grows_rules stopped_self)

section \<open>Submessages\<close>

lemma delivers_submessage:
  assumes "delivers env (\<lambda>call. call (Encode_message t p)) m (bind_out r (\<lambda>fs. Ok (message_bytes fs)))"
  shows "delivers env (\<lambda>call. pb_encode_submessage call t p) m
    (bind_out r (\<lambda>fs. if fits_object (message_bytes fs) then Ok (wire_bytes (WString (message_bytes fs))) else Undef))"
proof (rule deliversI)
  show "grows (\<lambda>call. pb_encode_submessage call t p st)" for st by (intro grows_rules)
  fix s assume s: "usable s"
  { fix e assume "bind_out r (\<lambda>fs. if fits_object (message_bytes fs) then Ok (wire_bytes (WString (message_bytes fs))) else Undef) = Ok e"
    then obtain d where d: "bind_out r (\<lambda>fs. Ok (message_bytes fs)) = Ok d" "length d < 2 ^ 63" "e = venc (length d) @ d"
      by (auto simp: bind_out_eq_Ok fits_object_def split: if_splits)
    have n: "unat (of_nat (length d) :: u64) = length d" using d(2) by (simp add: unat_of_nat)
    note del = assms [unfolded d(1)]
    from delivers_OkE [OF del sizing_usable(2)] obtain x where x: "puts d PB_OSTREAM_SIZING x"
      "enc.reach env (\<lambda>call. call (Encode_message t p) (PB_OSTREAM_SIZING, m)) (fst x, snd x, m)" .
    have x': "x = (Ok (), counted d PB_OSTREAM_SIZING)" using x(1) sizing_usable(1) by (simp add: puts_def)
    have b: "bytes_written (counted d PB_OSTREAM_SIZING :: 'u pb_ostream) = of_nat (length d)" by (simp add: counted_def PB_OSTREAM_SIZING_def)
    note rest = delivers_seq [OF delivers_stream [where env = env and m = m, OF puts_varint [of "of_nat (length d)"]] submessage_body [OF del d(2)]]
    from delivers_OkE [OF rest [unfolded n bind_out.simps d(3) [symmetric]] s] obtain y where y: "puts e s y"
      "enc.reach env (\<lambda>call. step_ok (Some (on_stream (pb_encode_varint (of_nat (length d))) (s, m))) (\<lambda>_ (s, m).
         if os_callback s = Null_write then Some (on_stream (pb_write None (of_nat (length d))) (s, m))
         else if max_size s < bytes_written s + of_nat (length d) then Some (enc_error ''stream full'' (s, m))
         else map_option (after_substream s (of_nat (length d))) (call (Encode_message t p)
           (\<lparr>os_callback = os_callback s, os_state = os_state s, max_size = of_nat (length d), bytes_written = 0, os_errmsg = None\<rparr>, m)))) (fst y, snd y, m)" .
    have "enc.reach env (\<lambda>call. pb_encode_submessage call t p (s, m)) (fst y, snd y, m)"
      unfolding pb_encode_submessage_def snd_conv fst_conv
      by (rule enc.reach_bind [OF _ _ x(2)]) (use y(2) b x' in \<open>simp_all only: prod.case outcome.case step_ok_simps fst_conv snd_conv\<close>, intro grows_rules, intro grows_rules)
    then show "\<exists>x. puts e s x \<and> enc.reach env (\<lambda>call. pb_encode_submessage call t p (s, m)) (fst x, snd x, m)" using y(1) by blast }
  assume "bind_out r (\<lambda>fs. if fits_object (message_bytes fs) then Ok (wire_bytes (WString (message_bytes fs))) else Undef) = Fail"
  then have "r = Fail" by (cases r) (auto split: if_splits)
  then have "delivers env (\<lambda>call. call (Encode_message t p)) m Fail" using assms by simp
  from delivers_FailE [OF this sizing_usable(2)] obtain s' where s': "enc.reach env (\<lambda>call. call (Encode_message t p) (PB_OSTREAM_SIZING, m)) (Fail, s', m)" by blast
  have "enc.reach env (\<lambda>call. pb_encode_submessage call t p (s, m)) (Fail, s\<lparr>os_errmsg := os_errmsg s'\<rparr>, m)"
    unfolding pb_encode_submessage_def snd_conv fst_conv
    by (rule enc.reach_bind [OF _ _ s']) (simp_all only: prod.case outcome.case step_ok_simps enc.reach_Some, intro grows_rules, intro grows_rules)
  then show "\<exists>s'. (fresh s \<longrightarrow> (\<exists>d. stopped d s s')) \<and> enc.reach env (\<lambda>call. pb_encode_submessage call t p (s, m)) (Fail, s', m)"
    using stopped_Nil [of s "os_errmsg s'"] by blast
qed

section \<open>Packed arrays\<close>

lemma delivers_packed_items:
  "delivers env (\<lambda>_ st. Some (packed_items ptr f n p st)) m (bind_out (packed_view ptr f p n m) (\<lambda>vs. Ok (concat (map wire_bytes vs))))"
proof (induction n arbitrary: p)
  case 0
  then show ?case using delivers_nothing by simp
next
  case (Suc n)
  show ?case
  proof (cases p)
    case Null
    then show ?thesis unfolding Null collect_Null [OF zero_less_Suc] by (simp add: delivers_Undef grows_rules)
  next
    case (Addr b k)
    let ?q = "Addr b (k + int (unat (fd_data_size f)))"
    have "delivers env (\<lambda>_ st. Some (seq_ok (peek (\<lambda>_. shift p (int (unat (fd_data_size f)))) st) (packed_items ptr f n))) m
        (bind_out (shift p (int (unat (fd_data_size f)))) (\<lambda>q. bind_out (packed_view ptr f q n m) (\<lambda>vs. Ok (concat (map wire_bytes vs)))))"
      using Suc by (intro delivers_read) simp_all
    from delivers_seq [OF delivers_scalar [of env ptr f p m] this] have
      "delivers env (\<lambda>_ st. Some (packed_items ptr f (Suc n) p st)) m (bind_out (bind_out (scalar_view ptr f p m) (\<lambda>v. Ok (wire_bytes v))) (\<lambda>d.
         bind_out (bind_out (packed_view ptr f ?q n m) (\<lambda>vs. Ok (concat (map wire_bytes vs)))) (\<lambda>e. Ok (d @ e))))"
      by (simp add: Some_seq_ok Addr shift_def)
    then show ?thesis unfolding Addr collect_entries by (simp add: bind_out_assoc)
  qed
qed

lemma packed_items_sizing:
  shows "packed_view ptr f p n m = Ok vs \<Longrightarrow>
      packed_items ptr f n p (PB_OSTREAM_SIZING :: 'u pb_ostream, m) = (Ok (), (counted (concat (map wire_bytes vs)) PB_OSTREAM_SIZING, m))"
    and "packed_view ptr f p n m = Fail \<Longrightarrow> \<exists>s. packed_items ptr f n p (PB_OSTREAM_SIZING :: 'u pb_ostream, m) = (Fail, (s, m))"
proof -
  note del = delivers_packed_items [of undefined ptr f n p m]
  show "packed_items ptr f n p (PB_OSTREAM_SIZING :: 'u pb_ostream, m) = (Ok (), (counted (concat (map wire_bytes vs)) PB_OSTREAM_SIZING, m))"
    if "packed_view ptr f p n m = Ok vs"
    using delivers_OkE [OF del [unfolded that bind_out.simps] sizing_usable(2)] sizing_usable(1) by (auto simp: puts_def)
  show "\<exists>s. packed_items ptr f n p (PB_OSTREAM_SIZING :: 'u pb_ostream, m) = (Fail, (s, m))" if "packed_view ptr f p n m = Fail"
    using delivers_FailE [OF del [unfolded that bind_out.simps] sizing_usable(2)] by auto
qed

lemma packed_size_exact:
  fixes s :: "'u pb_ostream"
  assumes "PB_LTYPE f \<le> PB_LTYPE_LAST_PACKABLE"
  shows "packed_view ptr f p (unat count) m = Ok vs \<Longrightarrow>
      packed_size ptr f count p (s, m) = (Ok (of_nat (length (concat (map wire_bytes vs)))), (s, m))"
    and "packed_view ptr f p (unat count) m = Fail \<Longrightarrow> packed_size ptr f count p (s, m) = (Fail, (s, m))"
proof -
  show "packed_size ptr f count p (s, m) = (Ok (of_nat (length (concat (map wire_bytes vs)))), (s, m))" if v: "packed_view ptr f p (unat count) m = Ok vs"
  proof -
    have l: "length vs = unat count" using collect_Ok [OF v] by simp
    have c: "(ucast count :: u64) = of_nat (unat count)" by simp
    have "length (concat (map wire_bytes vs)) = 4 * unat count" if "PB_LTYPE f = PB_LTYPE_FIXED32"
      using scalar_view_size(2) [OF _ assms that] packed_view_entry [OF v] l by (subst length_concat_eq [of vs wire_bytes 4]) metis+
    moreover have "length (concat (map wire_bytes vs)) = 8 * unat count" if "PB_LTYPE f = PB_LTYPE_FIXED64"
      using scalar_view_size(3) [OF _ assms that] packed_view_entry [OF v] l by (subst length_concat_eq [of vs wire_bytes 8]) metis+
    ultimately show ?thesis using packed_items_sizing(1) [OF v]
      by (simp add: packed_size_def counted_def PB_OSTREAM_SIZING_def c del: length_concat of_nat_unat)
  qed
  show "packed_size ptr f count p (s, m) = (Fail, (s, m))" if v: "packed_view ptr f p (unat count) m = Fail"
  proof -
    obtain i where "bind_out (entry_at f p i) (\<lambda>q. scalar_view ptr f q m) = Fail" using collect_Fail [OF v] by blast
    then obtain q where "scalar_view ptr f q m = Fail"
      using loads_no_Fail(1) [of p "int (i * unat (fd_data_size f))"] by (cases "entry_at f p i") (simp_all add: entry_at_def)
    then show ?thesis using scalar_view_Fail packed_items_sizing(2) [OF v] by (auto simp: packed_size_def)
  qed
qed

lemma delivers_packed:
  assumes lt: "PB_LTYPE f \<le> PB_LTYPE_LAST_PACKABLE"
  shows "delivers env (\<lambda>_ st. Some (encode_packed ptr f p count st)) m
    (bind_out (packed_view ptr f p (unat count) m) (\<lambda>vs. Ok (field_bytes (fd_tag f) (to_wire (Packed vs)))))"
proof -
  let ?body = "\<lambda>n st. if os_callback (fst st) = Null_write then on_stream (pb_write None n) st else packed_items ptr f (unat count) p st"
  let ?rest = "\<lambda>st :: 'u est. seq_ok (packed_size ptr f count p st) (\<lambda>n st. seq_ok (on_stream (pb_encode_varint n) st) (\<lambda>_. ?body n))"
  have g: "grows (\<lambda>call. Some (?rest st))" for st by (intro grows_rules)
  have "delivers env (\<lambda>_ st. Some (?rest st)) m (bind_out (packed_view ptr f p (unat count) m) (\<lambda>vs. Ok (wire_bytes (to_wire (Packed vs)))))"
  proof (cases "packed_view ptr f p (unat count) m")
    case (Ok vs)
    let ?d = "concat (map wire_bytes vs)" and ?n = "of_nat (length (concat (map wire_bytes vs))) :: u64"
    have "length ?d \<le> 10 * unat count"
      using concat_bounded [of vs wire_bytes 10] scalar_view_size(1) [OF _ lt] packed_view_entry [OF Ok] collect_Ok [OF Ok] by (metis diff_zero length_upt)
    also have "\<dots> < 10 * 2 ^ 32" using unat_u32_less [of count] by linarith
    also have "\<dots> < (2 :: nat) ^ 63" by simp
    finally have "length ?d < 2 ^ 63" .
    then have n: "unat ?n = length ?d" by (simp add: unat_of_nat del: length_concat)
    have "delivers env (\<lambda>_ st. Some (?body ?n st)) m (Ok ?d)"
    proof (rule deliversI)
      fix s e assume s: "usable s" and e: "Ok ?d = Ok e"
      from delivers_OkE [OF delivers_packed_items [of env ptr f "unat count" p m, unfolded Ok bind_out.simps] s] obtain x where
        x: "puts ?d s x" "packed_items ptr f (unat count) p (s, m) = (fst x, snd x, m)" by (auto simp: enc.reach_Some)
      show "\<exists>x. puts e s x \<and> enc.reach env (\<lambda>call. Some (?body ?n (s, m))) (fst x, snd x, m)"
      proof (cases "os_callback s = Null_write")
        case True
        then have "counting s" using s not_null by (auto simp: usable_def fresh_def ok_def)
        then have "x = (Ok (), counted ?d s)" using x(1) by (simp add: puts_def)
        then show ?thesis using x(1) e True by (intro exI [of _ x]) (simp add: on_stream_def pb_write_sizing counted_def del: length_concat)
      qed (use x e in auto)
    qed (simp_all add: grows_rules)
    from delivers_seq [OF delivers_stream [OF puts_varint] this, of ?n] have
      "delivers env (\<lambda>_ st. Some (seq_ok (on_stream (pb_encode_varint ?n) st) (\<lambda>_. ?body ?n))) m (Ok (wire_bytes (to_wire (Packed vs))))"
      unfolding Some_seq_ok n by (simp del: length_concat)
    then show ?thesis unfolding Ok bind_out.simps by (rule delivers_cong) (simp_all only: packed_size_exact(1) [OF lt Ok] seq_ok_simps g)
  next
    case Fail
    then show ?thesis unfolding Fail bind_out.simps
      by (intro delivers_cong [OF delivers_fail]) (simp_all only: packed_size_exact(2) [OF lt Fail] seq_ok_simps g)
  qed (simp add: delivers_Undef grows_rules)
  from delivers_seq [OF delivers_stream [OF puts_tag [of PB_WT_STRING "fd_tag f"]] this] show ?thesis
    unfolding encode_packed_def Some_seq_ok [of "on_stream _ _"] by (simp add: field_bytes_def bind_out_assoc)
qed

section \<open>Tags and values\<close>

lemma le_packable: "(lt :: byte) \<le> 5 \<longleftrightarrow> lt = 0 \<or> lt = 1 \<or> lt = 2 \<or> lt = 3 \<or> lt = 4 \<or> lt = 5"
proof -
  have "lt \<le> 5 \<longleftrightarrow> unat lt \<le> 5" by (simp add: word_le_nat_alt)
  also have "\<dots> \<longleftrightarrow> unat lt = 0 \<or> unat lt = 1 \<or> unat lt = 2 \<or> unat lt = 3 \<or> unat lt = 4 \<or> unat lt = 5" by arith
  finally show ?thesis by (simp add: word_unat_eq_iff)
qed

lemma submessage_no_Fail [simp]: "submessage f \<noteq> Fail"
  by (simp add: submessage_def split: field_ptr.splits)

lemma value_wire_type: "value_view env sub f p m = Ok v \<Longrightarrow> field_wire_type f = Some (wire_type_of (to_wire v))"
  by (auto simp: value_view_def scalar_view_def field_wire_type_def Let_def bind_out_eq_Ok le_packable split: if_splits)

lemma delivers_encoder:
  assumes sub: "\<And>t q. delivers env (\<lambda>call. call (Encode_message t q)) m (bind_out (sub t q) (\<lambda>fs. Ok (message_bytes fs)))"
  shows "delivers env (\<lambda>call. PB_ENCODERS env call f p) m (bind_out (value_view env sub f p m) (\<lambda>v. Ok (wire_bytes (to_wire v))))"
proof -
  have "delivers env (\<lambda>call. pb_enc_submessage call f p) m (if fd_ptr f = No_ptr then Fail
      else bind_out (submessage f) (\<lambda>t. bind_out (sub t p) (\<lambda>fs.
        if fits_object (message_bytes fs) then Ok (wire_bytes (WString (message_bytes fs))) else Undef)))"
    unfolding pb_enc_submessage_def by (intro delivers_if delivers_error delivers_peek delivers_submessage sub grows_rules submessage_no_Fail)
  note d = this delivers_scalar delivers_bytes delivers_string delivers_fixed_bytes
  show ?thesis
    unfolding PB_ENCODERS_def value_view_def Let_def bind_out_if bind_out_assoc bind_out.simps to_wire.simps(1) to_wire_Nested
    by (intro delivers_if d delivers_Undef grows_rules)
qed

lemma delivers_tagged:
  assumes sub: "\<And>t q. delivers env (\<lambda>call. call (Encode_message t q)) m (bind_out (sub t q) (\<lambda>fs. Ok (message_bytes fs)))"
  shows "delivers env (\<lambda>call. tag_and_value env call f p) m (bind_out (single_view env sub f p m) (\<lambda>fs. Ok (message_bytes fs)))"
proof (cases "field_wire_type f")
  case None
  have "delivers env (\<lambda>call. tag_and_value env call f p) m Fail"
    unfolding tag_and_value_def pb_encode_tag_for_field_def None option.case using delivers_seq [OF delivers_error delivers_encoder [OF sub]] by simp
  then show ?thesis by (simp add: single_view_def None)
next
  case (Some w)
  have "w < 8" using Some by (auto simp: field_wire_type_def Let_def split: if_splits)
  from delivers_seq [OF delivers_stream [OF puts_tag [OF this]] delivers_encoder [OF sub], of "fd_tag f" f p] have
    "delivers env (\<lambda>call. tag_and_value env call f p) m (bind_out (value_view env sub f p m) (\<lambda>v. Ok (venc (8 * unat (fd_tag f) + w) @ wire_bytes (to_wire v))))"
    unfolding tag_and_value_def pb_encode_tag_for_field_def Some option.case by (simp add: bind_out_assoc)
  moreover have "bind_out (value_view env sub f p m) (\<lambda>v. Ok (venc (8 * unat (fd_tag f) + w) @ wire_bytes (to_wire v))) =
      bind_out (single_view env sub f p m) (\<lambda>fs. Ok (message_bytes fs))"
    using value_wire_type [of env sub f p m] by (cases "value_view env sub f p m") (simp_all add: single_view_def Some field_bytes_def)
  ultimately show ?thesis by simp
qed

section \<open>Arrays\<close>

lemma peek_if: "(if c then peek g st else (r, st)) = peek (if c then g else (\<lambda>_. r)) st"
  by (simp add: peek_def)

lemma delivers_unpacked:
  assumes sub: "\<And>t q. delivers env (\<lambda>call. call (Encode_message t q)) m (bind_out (sub t q) (\<lambda>fs. Ok (message_bytes fs)))"
  shows "delivers env (\<lambda>call. unpacked_items env call f n p) m
    (bind_out (collect (\<lambda>i. bind_out (entry_at f p i) (\<lambda>q.
       bind_out (if PB_ATYPE f = PB_ATYPE_POINTER \<and> (PB_LTYPE f = PB_LTYPE_STRING \<or> PB_LTYPE f = PB_LTYPE_BYTES) then load_ptr q m else Ok q) (\<lambda>q.
       single_view env sub f q m))) [0..<n]) (\<lambda>fs. Ok (message_bytes (concat fs))))"
    (is "delivers _ _ _ (bind_out (collect (\<lambda>i. bind_out _ ?view) _) _)")
proof (induction n arbitrary: p)
  case 0
  then show ?case using delivers_nothing unfolding unpacked_items.simps by simp
next
  case (Suc n)
  show ?case
  proof (cases p)
    case Null
    then show ?thesis unfolding Null collect_Null [OF zero_less_Suc] by (simp only: bind_out.simps, intro delivers_Undef grows_rules)
  next
    case (Addr b k)
    let ?c = "PB_ATYPE f = PB_ATYPE_POINTER \<and> (PB_LTYPE f = PB_LTYPE_STRING \<or> PB_LTYPE f = PB_LTYPE_BYTES)"
    let ?load = "if ?c then load_ptr p else (\<lambda>_. Ok p)"
    let ?rest = "bind_out (collect (\<lambda>i. bind_out (entry_at f (Addr b (k + int (unat (fd_data_size f)))) i) ?view) [0..<n]) (\<lambda>fs. Ok (message_bytes (concat fs)))"
    have "delivers env (\<lambda>call st. step_ok (Some (peek (\<lambda>_. shift p (int (unat (fd_data_size f)))) st)) (unpacked_items env call f n)) m ?rest"
      using delivers_peek [where f = "\<lambda>_. shift p (int (unat (fd_data_size f)))", OF Suc] by (simp add: Addr shift_def grows_rules)
    note rest = delivers_seq [OF delivers_encoder [OF sub] this]
    have load: "?load m \<noteq> Fail" by simp
    note body = delivers_peek [where f = ?load, OF rest _ load]
    let ?G = "\<lambda>call st. step_ok (Some (peek ?load st)) (\<lambda>item st. step_ok (PB_ENCODERS env call f item st) (\<lambda>_ st.
        step_ok (Some (peek (\<lambda>_. shift p (int (unat (fd_data_size f)))) st)) (unpacked_items env call f n)))"
    let ?r = "bind_out (?load m) (\<lambda>q. bind_out (bind_out (value_view env sub f q m) (\<lambda>v. Ok (wire_bytes (to_wire v)))) (\<lambda>d. bind_out ?rest (\<lambda>e. Ok (d @ e))))"
    have G: "delivers env ?G m ?r" by (rule body) (intro grows_rules)
    have u: "(\<lambda>call. unpacked_items env call f (Suc n) p) = (\<lambda>call st. step_ok (Some (on_stream (pb_encode_tag_for_field f) st)) (\<lambda>_. ?G call))"
      unfolding unpacked_items.simps peek_if ..
    have v: "bind_out (?load m) (\<lambda>q. single_view env sub f q m) = ?view p" unfolding if_distribR ..
    have e: "bind_out (collect (\<lambda>i. bind_out (entry_at f p i) ?view) [0..<Suc n]) (\<lambda>fs. Ok (message_bytes (concat fs))) =
        bind_out (?view p) (\<lambda>fs. bind_out ?rest (\<lambda>e. Ok (message_bytes fs @ e)))"
      unfolding Addr collect_entries by (simp only: bind_out_assoc bind_out.simps concat.simps message_bytes_simps)
    show ?thesis
    proof (cases "field_wire_type f")
      case None
      have "delivers env (\<lambda>call. unpacked_items env call f (Suc n) p) m Fail"
        unfolding u pb_encode_tag_for_field_def None option.case using delivers_seq [OF delivers_error G] by simp
      moreover have "?view p = Fail \<or> ?view p = Undef" using load unfolding v [symmetric] by (cases "?load m") (simp_all add: single_view_def None)
      ultimately show ?thesis unfolding e by (elim disjE) (simp_all only: bind_out.simps, intro delivers_Undef grows_rules)
    next
      case (Some w)
      have w: "w < 8" using Some by (auto simp: field_wire_type_def Let_def split: if_splits)
      have "delivers env (\<lambda>call. unpacked_items env call f (Suc n) p) m (bind_out ?r (\<lambda>e. Ok (venc (8 * unat (fd_tag f) + w) @ e)))"
        unfolding u pb_encode_tag_for_field_def Some option.case using delivers_seq [OF delivers_stream [OF puts_tag [OF w]] G] by simp
      moreover have "bind_out (bind_out L (\<lambda>q. bind_out (bind_out (value_view env sub f q m) (\<lambda>v. Ok (wire_bytes (to_wire v)))) (\<lambda>d. bind_out R (\<lambda>e. Ok (d @ e)))))
            (\<lambda>e. Ok (venc (8 * unat (fd_tag f) + w) @ e)) =
          bind_out (bind_out L (\<lambda>q. single_view env sub f q m)) (\<lambda>fs. bind_out R (\<lambda>e. Ok (message_bytes fs @ e)))" for L R
      proof (cases L)
        case (Ok q)
        then show ?thesis using value_wire_type [of env sub f q m]
          by (cases "value_view env sub f q m"; cases R) (simp_all add: single_view_def Some field_bytes_def)
      qed simp_all
      ultimately show ?thesis unfolding e v [symmetric] by (simp only:)
    qed
  qed
qed

lemma delivers_array:
  assumes sub: "\<And>t q. delivers env (\<lambda>call. call (Encode_message t q)) m (bind_out (sub t q) (\<lambda>fs. Ok (message_bytes fs)))"
  shows "delivers env (\<lambda>call. encode_array env call f p count) m (bind_out (array_view env sub f p count m) (\<lambda>fs. Ok (message_bytes fs)))"
proof -
  have p: "delivers env (\<lambda>_ st. Some (encode_packed (ee_pointer_byte env) f p count st)) m
      (bind_out (packed_view (ee_pointer_byte env) f p (unat count) m) (\<lambda>vs. Ok (message_bytes [(fd_tag f, Packed vs)])))"
    if "PB_LTYPE f \<le> PB_LTYPE_LAST_PACKABLE"
    using delivers_packed [OF that, of env "ee_pointer_byte env" p count m] by simp
  show ?thesis
    unfolding encode_array_def array_view_def bind_out_if bind_out_assoc bind_out.simps message_bytes_simps(1)
    by (intro delivers_if delivers_nothing delivers_error p delivers_unpacked [OF sub, unfolded bind_out_if bind_out.simps])
qed

end

end
