(* ===== verification/Pb_Encode_Message.thy ===== *)
theory Pb_Encode_Message
  imports Pb_Encode_Fields
begin

text \<open>Fields with their presence, default values, extensions, and whole messages: the encoder puts out the bytes of the view.\<close>

section \<open>Default values\<close>

lemma answer_Ok: "q m = Ok b \<Longrightarrow> answer q (s, m) = ((if b then Ok () else Fail), s, m)"
  by (simp add: answer_def peek_def)

lemma check_loop:
  assumes wf: "wf_table tab n" and g: "\<And>f q b. g f q = Ok b \<Longrightarrow> enc.reach env (\<lambda>call. call (Check_default f q) st) ((if b then Ok () else Fail), st)"
  shows "i < n \<Longrightarrow> all_out (\<lambda>j. g (tab ! j) (Addr b0 (k + int (field_off tab j)))) [i..<n] = Ok b \<Longrightarrow>
    enc.reach env (\<lambda>call. call (Check_fields (it_at tab b0 k i)) st) ((if b then Ok () else Fail), st)"
proof (induction "n - i" arbitrary: i)
  case (Suc d)
  have u: "[i..<n] = i # [Suc i..<n]" using Suc.prems(1) by (simp add: upt_conv_Cons)
  obtain c where c: "g (tab ! i) (Addr b0 (k + int (field_off tab i))) = Ok c"
    "(if c then all_out (\<lambda>j. g (tab ! j) (Addr b0 (k + int (field_off tab j)))) [Suc i..<n] else Ok False) = Ok b"
    using Suc.prems(2) unfolding u by (auto simp: bind_out_eq_Ok)
  note first = g [OF c(1)]
  have gr: "grows (\<lambda>call. call (Check_default (tab ! i) (Addr b0 (k + int (field_off tab i)))) st)"
    "grows (\<lambda>call. next_field Check_fields call (it_at tab b0 k i) st)" for st by (intro grows_rules)+
  have "enc.reach env (\<lambda>call. step_ok (call (Check_default (tab ! i) (Addr b0 (k + int (field_off tab i)))) st)
      (\<lambda>_. next_field Check_fields call (it_at tab b0 k i))) ((if b then Ok () else Fail), st)"
  proof (cases c)
    case True
    have "enc.reach env (\<lambda>call. next_field Check_fields call (it_at tab b0 k i) st) ((if b then Ok () else Fail), st)"
    proof (cases "Suc i < n")
      case rec: True
      have d: "d = n - Suc i" using Suc.hyps(2) by simp
      show ?thesis using Suc.hyps(1) [OF d rec] c(2) True rec by (simp add: next_field_def iter_next_at [OF wf Suc.prems(1)])
    next
      case False
      then show ?thesis using c(2) True by (simp add: next_field_def iter_next_at [OF wf Suc.prems(1)])
    qed
    moreover have "enc.reach env (\<lambda>call. call (Check_default (tab ! i) (Addr b0 (k + int (field_off tab i)))) st) (Ok (), st)" using first True by simp
    ultimately show ?thesis by (intro enc.reach_step(1) [OF gr])
  next
    case False
    then have "\<not> b" "enc.reach env (\<lambda>call. call (Check_default (tab ! i) (Addr b0 (k + int (field_off tab i)))) st) (Fail, st)" using first c(2) by auto
    then show ?thesis unfolding if_not_P [OF \<open>\<not> b\<close>] by (intro enc.reach_step(2) [OF gr])
  qed
  then show ?case by (intro enc.reach_call) (simp add: check_fields_def)
qed simp

lemma check_default_reach:
  "is_default n env f p m = Ok b \<Longrightarrow> enc.reach env (\<lambda>call. call (Check_default f p) (s, m)) ((if b then Ok () else Fail), s, m)"
proof (induction n arbitrary: f p b)
  case (Suc n)
  obtain b0 k where p: "p = Addr b0 k" using Suc.prems by (cases p) (auto simp: shift_def)
  have "enc.reach env (\<lambda>call. pb_check_proto3_default_value env call f p (s, m)) ((if b then Ok () else Fail), s, m)"
  proof (cases "PB_HTYPE f \<noteq> PB_HTYPE_REQUIRED \<and> \<not> (PB_HTYPE f = PB_HTYPE_REPEATED \<and> (fd_size_offset f \<noteq> 0 \<or> PB_ATYPE f = PB_ATYPE_STATIC)) \<and>
      PB_HTYPE f \<noteq> PB_HTYPE_ONEOF \<and> \<not> (PB_HTYPE f = PB_HTYPE_OPTIONAL \<and> fd_size_offset f \<noteq> 0) \<and> PB_ATYPE f = PB_ATYPE_STATIC \<and> PB_LTYPE f = PB_LTYPE_SUBMESSAGE")
    case True
    then obtain t where t: "submessage f = Ok t" "all_fields (ee_tables env t) (\<lambda>g r. is_default n env g r m) p = Ok b"
      using Suc.prems by (auto simp: Let_def p shift_def bind_out_eq_Ok)
    let ?tab = "ee_tables env t" let ?n = "length ?tab - 1"
    have wf: "wf_table ?tab ?n" and a: "all_out (\<lambda>j. is_default n env (?tab ! j) (Addr b0 (k + int (field_off ?tab j))) m) [0..<?n] = Ok b"
      using t(2) by (auto simp: all_fields_def p shift_def split: if_splits)
    have "enc.reach env (\<lambda>call. if 0 < ?n then call (Check_fields (it_at ?tab b0 k 0)) (s, m) else Some (Ok (), s, m)) ((if b then Ok () else Fail), s, m)"
    proof (cases "0 < ?n")
      case True
      then show ?thesis unfolding if_P [OF True] using Suc.IH a True by (intro check_loop [OF wf, where g = "\<lambda>f q. is_default n env f q m"]) auto
    next
      case False
      then have "[0..<?n] = []" by simp
      then show ?thesis using a unfolding if_not_P [OF False] by simp
    qed
    then show ?thesis using True t(1)
      by (auto simp: pb_check_proto3_default_value_def Let_def p shift_def peek_def iter_begin_at [OF wf])
  next
    case False
    then show ?thesis unfolding pb_check_proto3_default_value_def Let_def p shift_def addr.case peek_def step_ok_simps
      by (intro enc.reach_if; use Suc.prems in \<open>auto simp: Let_def p shift_def own_default_def answer_Ok split: if_splits\<close>)
  qed
  then show ?case by (intro enc.reach_call) simp
qed simp

lemma zero_chars_no_Fail: "zero_chars ptr n p m \<noteq> Fail"
proof (induction n arbitrary: p)
  case (Suc n)
  then show ?case using loads_no_Fail(5) [of ptr p m] by (cases "load_char ptr p m"; cases p) (auto simp: shift_def)
qed simp

lemma all_out_no_Fail: "(\<And>x. g x \<noteq> Fail) \<Longrightarrow> all_out g xs \<noteq> Fail"
proof (induction xs)
  case (Cons x xs)
  then show ?case by (cases "g x") auto
qed simp

lemma bind_out_no_Fail: "r \<noteq> Fail \<Longrightarrow> (\<And>a. k a \<noteq> Fail) \<Longrightarrow> bind_out r k \<noteq> Fail"
  by (cases r) simp_all

lemma is_default_no_Fail: "is_default n env f p m \<noteq> Fail"
proof (induction n arbitrary: f p)
  case (Suc n)
  have "own_default ptr f p m \<noteq> Fail" for ptr by (simp add: own_default_def Let_def zero_chars_no_Fail bind_out_no_Fail)
  moreover have "all_fields tab (\<lambda>g r. is_default n env g r m) p \<noteq> Fail" for tab
    using Suc by (simp add: all_fields_def all_out_no_Fail bind_out_no_Fail)
  ultimately show ?case by (simp add: Let_def bind_out_no_Fail)
qed simp

section \<open>Fields\<close>

lemma peek_seq: "seq_ok (peek g st) (\<lambda>a st. (Ok (h a), st)) = peek (\<lambda>m. bind_out (g m) (\<lambda>a. Ok (h a))) st"
  by (cases "g (snd st)") (simp_all add: peek_def)

lemma peek_if_peek: "(if c then peek g st else peek h st) = peek (if c then g else h) st"
  by simp

context pb_sink
begin

lemma delivers_flag:
  assumes chk: "\<And>s b. dflt f p = Ok b \<Longrightarrow> enc.reach env (\<lambda>call. call (Check_default f p) (s, m)) ((if b then Ok () else Fail), s, m)" "dflt f p \<noteq> Fail"
    and del: "\<And>flag. delivers env (\<lambda>call. G call flag) m (r flag)"
  shows "delivers env (\<lambda>call st. step_ok (implicit_flag call f p st) (G call)) m
    (bind_out (if fd_size_offset f = 0 \<and> PB_HTYPE f = PB_HTYPE_OPTIONAL then bind_out (dflt f p) (\<lambda>b. Ok (\<not> b)) else Ok True) r)"
    (is "delivers _ _ _ (bind_out ?flag r)")
proof -
  have g: "grows (\<lambda>call. implicit_flag call f p st)" "grows (\<lambda>call. G call flag st)" for flag st
    using delivers_grows [OF del, of flag st] by (simp_all add: grows_flag)
  have gs: "grows (\<lambda>call. step_ok (implicit_flag call f p st) (G call))" for st using g(2) by (intro grows_rules)
  show ?thesis
  proof (cases ?flag)
    case (Ok flag)
    have "enc.reach env (\<lambda>call. implicit_flag call f p (s, m)) (Ok flag, (s, m))" for s
    proof (cases "fd_size_offset f = 0 \<and> PB_HTYPE f = PB_HTYPE_OPTIONAL")
      case True
      then obtain b where b: "dflt f p = Ok b" "flag = (\<not> b)" using Ok by (auto simp: bind_out_eq_Ok)
      show ?thesis unfolding implicit_flag_def if_P [OF True]
        using enc.reach_map [OF chk(1) [OF b(1), of s], of "\<lambda>(r, st). (case r of Ok _ \<Rightarrow> Ok False | Fail \<Rightarrow> Ok True | Undef \<Rightarrow> Undef, st)"] b(2)
        by (cases b) simp_all
    qed (use Ok in \<open>auto simp: implicit_flag_def\<close>)
    then have r: "enc.reach env (\<lambda>call. G call flag (s, m)) x \<Longrightarrow> enc.reach env (\<lambda>call. step_ok (implicit_flag call f p (s, m)) (G call)) x" for s x
      by (rule enc.reach_step(1) [OF g])
    show ?thesis unfolding Ok bind_out.simps
    proof (rule deliversI)
      fix s assume s: "usable s"
      show "\<exists>x. puts d s x \<and> enc.reach env (\<lambda>call. step_ok (implicit_flag call f p (s, m)) (G call)) (fst x, snd x, m)" if "r flag = Ok d" for d
        by (rule delivers_OkE [OF del [of flag, unfolded that] s]) (intro exI conjI r)
      show "\<exists>s'. (fresh s \<longrightarrow> (\<exists>d. stopped d s s')) \<and> enc.reach env (\<lambda>call. step_ok (implicit_flag call f p (s, m)) (G call)) (Fail, s', m)" if "r flag = Fail"
        by (rule delivers_FailE [OF del [of flag, unfolded that] s]) (rule exI, rule conjI, blast, erule r)
    qed (rule gs)
  next
    case Fail
    then show ?thesis using chk(2) by (cases "dflt f p") (auto split: if_splits)
  next
    case Undef
    then show ?thesis using gs by (simp add: delivers_Undef)
  qed
qed

lemma delivers_basic:
  assumes sub: "\<And>t q. delivers env (\<lambda>call. call (Encode_message t q)) m (bind_out (sub t q) (\<lambda>fs. Ok (message_bytes fs)))"
    and chk: "\<And>f p s b. dflt f p = Ok b \<Longrightarrow> enc.reach env (\<lambda>call. call (Check_default f p) (s, m)) ((if b then Ok () else Fail), s, m)" "\<And>f p. dflt f p \<noteq> Fail"
  shows "delivers env (\<lambda>call. encode_basic_field env call f p) m (bind_out (basic_view env sub dflt f p m) (\<lambda>fs. Ok (message_bytes fs)))"
proof -
  have present: "delivers env (\<lambda>call. encode_present env call f p q flag) m (bind_out (present_view env sub f p q flag m) (\<lambda>fs. Ok (message_bytes fs)))" for q flag
    unfolding encode_present_def present_view_def Let_def bind_out_if bind_out_assoc bind_out.simps message_bytes_simps(1)
    by (intro delivers_if delivers_error delivers_tagged [OF sub] delivers_peek delivers_nothing delivers_array [OF sub] grows_rules size_member_no_Fail loads_no_Fail; simp)
  have "field_data f p flag m \<noteq> Fail" for flag by (simp add: field_data_def bind_out_no_Fail)
  then have "delivers env (\<lambda>call st. step_ok (Some (peek (field_data f p flag) st)) (\<lambda>(q, flag). encode_present env call f p q flag)) m
      (bind_out (field_data f p flag m) (\<lambda>(q, flag). bind_out (present_view env sub f p q flag m) (\<lambda>fs. Ok (message_bytes fs))))" for flag
    using present by (intro delivers_peek) (auto intro: grows_rules)
  from delivers_flag [OF chk this] have "delivers env (\<lambda>call. encode_basic_field env call f p) m
      (if PB_LTYPE_FIXED_LENGTH_BYTES < PB_LTYPE f then Undef
       else bind_out (if fd_size_offset f = 0 \<and> PB_HTYPE f = PB_HTYPE_OPTIONAL then bind_out (dflt f p) (\<lambda>b. Ok (\<not> b)) else Ok True) (\<lambda>flag.
         bind_out (field_data f p flag m) (\<lambda>(q, flag). bind_out (present_view env sub f p q flag m) (\<lambda>fs. Ok (message_bytes fs)))))"
    unfolding encode_basic_field_def by (intro delivers_if delivers_Undef grows_rules)
  moreover have "bind_out (basic_view env sub dflt f p m) (\<lambda>fs. Ok (message_bytes fs)) = (if PB_LTYPE_FIXED_LENGTH_BYTES < PB_LTYPE f then Undef
       else bind_out (if fd_size_offset f = 0 \<and> PB_HTYPE f = PB_HTYPE_OPTIONAL then bind_out (dflt f p) (\<lambda>b. Ok (\<not> b)) else Ok True) (\<lambda>flag.
         bind_out (field_data f p flag m) (\<lambda>(q, flag). bind_out (present_view env sub f p q flag m) (\<lambda>fs. Ok (message_bytes fs)))))"
    unfolding basic_view_def bind_out_if [of "PB_LTYPE_FIXED_LENGTH_BYTES < PB_LTYPE f"] bind_out_assoc bind_out.simps by (simp only: split_def)
  ultimately show ?thesis by simp
qed

lemma delivers_field:
  assumes sub: "\<And>t q. delivers env (\<lambda>call. call (Encode_message t q)) m (bind_out (sub t q) (\<lambda>fs. Ok (message_bytes fs)))"
    and chk: "\<And>f p s b. dflt f p = Ok b \<Longrightarrow> enc.reach env (\<lambda>call. call (Check_default f p) (s, m)) ((if b then Ok () else Fail), s, m)" "\<And>f p. dflt f p \<noteq> Fail"
  shows "delivers env (\<lambda>call. encode_field env call f p) m (bind_out (field_view env sub dflt f p m) (\<lambda>fs. Ok (message_bytes fs)))"
proof -
  have "delivers env (\<lambda>_ st. Some (encode_callback_field env f p st)) m (bind_out (callback_view p m) (\<lambda>fs. Ok (message_bytes fs)))"
    unfolding encode_callback_field_def callback_view_def bind_out_assoc
  proof (rule delivers_read)
    show "delivers env (\<lambda>_ st. Some (case func of Null \<Rightarrow> (Ok (), st)
       | Addr b _ \<Rightarrow> (case ee_callbacks env b of
             None \<Rightarrow> (Undef, st)
           | Some c \<Rightarrow> seq_ok (peek (\<lambda>_. shift p 8) st) (\<lambda>arg st.
               case c (fst st) f arg (snd st) of (good, st) \<Rightarrow> if good then (Ok (), st) else enc_error ''callback error'' st)))) m
      (bind_out (if func = Null then Ok [] else Undef) (\<lambda>fs. Ok (message_bytes fs)))" for func
      by (cases func) (simp_all add: delivers_nothing delivers_Undef grows_rules)
  qed simp
  then show ?thesis
    unfolding encode_field_def field_view_def bind_out_if bind_out.simps by (intro delivers_if delivers_basic [OF sub chk] delivers_error)
qed

section \<open>Messages\<close>

lemma enc_ext_type_no_Fail [simp]: "enc_ext_type_of env ext m \<noteq> Fail"
  by (simp add: enc_ext_type_of_def bind_out_no_Fail split: addr.splits option.splits)

lemma grows_enc_message [grows_rules]: "grows (\<lambda>call. pb_encode env call t p st)" "grows (\<lambda>call. encode_extensions env call ext st)"
  unfolding pb_encode_def encode_extensions_def by (intro grows_rules)+

lemma delivers_fields:
  assumes wf: "wf_table tab n"
    and del: "\<And>j. j < n \<Longrightarrow> delivers env (\<lambda>call st. if PB_LTYPE (tab ! j) = PB_LTYPE_EXTENSION
        then encode_extension_field call (Addr b (k + int (field_off tab j))) st
        else encode_field env call (tab ! j) (Addr b (k + int (field_off tab j))) st) m (bind_out (v j) (\<lambda>fs. Ok (message_bytes fs)))"
  shows "i < n \<Longrightarrow> delivers env (\<lambda>call. call (Encode_fields (it_at tab b k i))) m (bind_out (collect v [i..<n]) (\<lambda>fs. Ok (message_bytes (concat fs))))"
proof (induction "n - i" arbitrary: i)
  case (Suc d)
  have u: "[i..<n] = i # [Suc i..<n]" using Suc.prems by (simp add: upt_conv_Cons)
  have "delivers env (\<lambda>call. next_field Encode_fields call (it_at tab b k i)) m (bind_out (collect v [Suc i..<n]) (\<lambda>fs. Ok (message_bytes (concat fs))))"
  proof (cases "Suc i < n")
    case True
    have "d = n - Suc i" using Suc.hyps(2) by simp
    from Suc.hyps(1) [OF this True] show ?thesis unfolding next_field_def iter_next_at [OF wf Suc.prems] using True by simp
  next
    case False
    then show ?thesis unfolding next_field_def iter_next_at [OF wf Suc.prems] using delivers_nothing by simp
  qed
  from delivers_seq [OF del [OF Suc.prems] this] have "delivers env (\<lambda>call. enc_perform env call (Encode_fields (it_at tab b k i))) m
      (bind_out (bind_out (v i) (\<lambda>fs. Ok (message_bytes fs))) (\<lambda>d. bind_out (bind_out (collect v [Suc i..<n]) (\<lambda>fs. Ok (message_bytes (concat fs)))) (\<lambda>e. Ok (d @ e))))"
    unfolding enc_perform.simps encode_fields_def it_at_simps .
  then show ?case unfolding u by (intro delivers_call) (simp add: bind_out_assoc)
qed simp

lemma delivers_message_step:
  assumes ext: "\<And>e. delivers env (\<lambda>call. call (Encode_extensions e)) m (bind_out (sub (View_extensions e)) (\<lambda>fs. Ok (message_bytes fs)))"
    and field: "\<And>f q. delivers env (\<lambda>call. encode_field env call f q) m (bind_out (field_view env (\<lambda>t r. sub (View_message t r)) dflt f q m) (\<lambda>fs. Ok (message_bytes fs)))"
  shows "delivers env (\<lambda>call. pb_encode env call t p) m (bind_out (message_view env sub dflt t p m) (\<lambda>fs. Ok (message_bytes fs)))"
proof -
  let ?tab = "ee_tables env t" let ?n = "length ?tab - 1"
  let ?v = "\<lambda>i q. if PB_LTYPE (?tab ! i) = PB_LTYPE_EXTENSION then bind_out (load_ptr q m) (\<lambda>ext. sub (View_extensions ext))
              else field_view env (\<lambda>t r. sub (View_message t r)) dflt (?tab ! i) q m"
  consider "\<not> wf_table ?tab ?n" | "wf_table ?tab ?n" "p = Null" "?n = 0" | "wf_table ?tab ?n" "p = Null" "0 < ?n"
    | b k where "wf_table ?tab ?n" "p = Addr b k" by (cases p) blast+
  then show ?thesis
  proof cases
    case 2
    have "pb_field_iter_begin ?tab Null = Ok (False, \<lparr>it_start = ?tab, it_pos = 0, it_required = 0, it_dest = Null, it_data = Null, it_size = Null\<rparr>)"
      using 2 by (auto simp: pb_field_iter_begin_def wf_table_def Let_def)
    then show ?thesis using 2 delivers_nothing unfolding pb_encode_def message_view_def peek_def by (simp add: Let_def)
  next
    case 3
    then have "[0..<?n] = 0 # [1..<?n]" by (simp add: upt_conv_Cons)
    then show ?thesis using 3 by (simp add: message_view_def Let_def shift_def delivers_Undef grows_enc_message)
  next
    case (4 b k)
    note wf = 4(1) and p = 4(2)
    have d: "delivers env (\<lambda>call st. if PB_LTYPE (?tab ! j) = PB_LTYPE_EXTENSION then encode_extension_field call (Addr b (k + int (field_off ?tab j))) st
        else encode_field env call (?tab ! j) (Addr b (k + int (field_off ?tab j))) st) m
        (bind_out (?v j (Addr b (k + int (field_off ?tab j)))) (\<lambda>fs. Ok (message_bytes fs)))" for j
      unfolding encode_extension_field_def bind_out_if bind_out_assoc by (intro delivers_if delivers_peek ext field grows_rules) simp
    show ?thesis
    proof (cases "0 < ?n")
      case True
      show ?thesis using delivers_fields [OF wf d True] wf True
        unfolding pb_encode_def message_view_def p peek_def iter_begin_at [OF wf] by (simp add: Let_def shift_def bind_out_assoc)
    next
      case False
      then show ?thesis using delivers_nothing wf unfolding pb_encode_def message_view_def p peek_def iter_begin_at [OF wf] by (simp add: Let_def)
    qed
  qed (simp add: message_view_def Let_def delivers_Undef grows_enc_message)
qed

lemma delivers_extensions_step:
  assumes ext: "\<And>e. delivers env (\<lambda>call. call (Encode_extensions e)) m (bind_out (sub (View_extensions e)) (\<lambda>fs. Ok (message_bytes fs)))"
    and field: "\<And>f q. delivers env (\<lambda>call. encode_field env call f q) m (bind_out (field_view env (\<lambda>t r. sub (View_message t r)) dflt f q m) (\<lambda>fs. Ok (message_bytes fs)))"
  shows "delivers env (\<lambda>call. encode_extensions env call e) m (bind_out (extensions_view env sub dflt e m) (\<lambda>fs. Ok (message_bytes fs)))"
proof (cases "enc_ext_type_of env e m")
  case (Ok et)
  have rest: "delivers env (\<lambda>call st. step_ok (Some (peek (ext_member e 16) st)) (\<lambda>ext. call (Encode_extensions ext))) m
      (bind_out (ext_member e 16 m) (\<lambda>x. bind_out (sub (View_extensions x)) (\<lambda>fs. Ok (message_bytes fs))))"
    by (intro delivers_peek ext grows_rules) simp
  have none: ?thesis if "e = Null" using that delivers_nothing unfolding encode_extensions_def extensions_view_def by simp
  show ?thesis
  proof (cases "xt_encode et = None \<and> e \<noteq> Null \<and> ee_tables env (xt_arg et) \<noteq> []")
    case True
    then obtain f tl where tab: "ee_tables env (xt_arg et) = f # tl" by (auto simp: neq_Nil_conv)
    let ?load = "if PB_ATYPE f = PB_ATYPE_POINTER then (\<lambda>_. shift e 8) else ext_member e 8"
    have "delivers env (\<lambda>call st. step_ok (Some (peek ?load st)) (encode_field env call f)) m
        (bind_out (?load m) (\<lambda>q. bind_out (field_view env (\<lambda>t r. sub (View_message t r)) dflt f q m) (\<lambda>fs. Ok (message_bytes fs))))"
      by (intro delivers_peek field grows_rules) (simp add: if_distribR)
    from delivers_cong [OF this, of "\<lambda>call. default_extension_encoder env call e"] have
      "delivers env (\<lambda>call. default_extension_encoder env call e) m (bind_out (?load m) (\<lambda>q. bind_out (field_view env (\<lambda>t r. sub (View_message t r)) dflt f q m) (\<lambda>fs. Ok (message_bytes fs))))"
      using Ok tab by (simp add: default_extension_encoder_def peek_def grows_rules)
    from delivers_cong [OF delivers_seq [OF this rest], of "\<lambda>call. encode_extensions env call e"] show ?thesis
      using Ok tab True by (simp add: encode_extensions_def extensions_view_def peek_def grows_rules bind_out_assoc if_distribR)
  next
    case False
    then consider "e = Null" | "e \<noteq> Null" "xt_encode et \<noteq> None" | "e \<noteq> Null" "xt_encode et = None" "ee_tables env (xt_arg et) = []" by metis
    then show ?thesis
      by cases (use none in \<open>simp_all add: Ok extensions_view_def delivers_Undef grows_rules\<close>)
  qed
next
  case Undef
  then show ?thesis using delivers_nothing [of env m] unfolding encode_extensions_def extensions_view_def
    by (cases "e = Null") (simp_all add: Undef peek_def delivers_Undef grows_rules)
qed simp

lemma delivers_view:
  "delivers env (\<lambda>call. call (case job of View_message t p \<Rightarrow> Encode_message t p | View_extensions ext \<Rightarrow> Encode_extensions ext)) m
     (bind_out (view n env job m) (\<lambda>fs. Ok (message_bytes fs)))"
proof (induction n arbitrary: job)
  case (Suc n)
  let ?sub = "\<lambda>j. view n env j m" and ?dflt = "\<lambda>f q. is_default n env f q m"
  have ext: "delivers env (\<lambda>call. call (Encode_extensions e)) m (bind_out (?sub (View_extensions e)) (\<lambda>fs. Ok (message_bytes fs)))" for e
    using Suc [of "View_extensions e"] by simp
  have "delivers env (\<lambda>call. call (Encode_message t q)) m (bind_out (?sub (View_message t q)) (\<lambda>fs. Ok (message_bytes fs)))" for t q
    using Suc [of "View_message t q"] by simp
  note field = delivers_field [where sub = "\<lambda>t r. ?sub (View_message t r)" and dflt = ?dflt, OF this check_default_reach is_default_no_Fail]
  show ?case
    by (cases job; simp only: view.simps view_job.case; rule delivers_call)
      (simp_all only: enc_perform.simps delivers_message_step [OF ext field] delivers_extensions_step [OF ext field])
qed (simp add: delivers_Undef grows_rules)

end

end
