(* ===== verification/Pb_Encoded.thy ===== *)
theory Pb_Encoded
  imports Pb_Encode_Message
begin

text \<open>What encoding of a structure puts into a buffer, and what the library reports about its size, stated with the view of the message.\<close>

section \<open>Buffers\<close>

lemma buffer_fresh:
  assumes "unat sz \<le> length buf" "unat sz \<le> 2 ^ 63"
  shows "obuf.fresh (pb_ostream_from_buffer buf sz :: 'u pb_ostream)" "obuf.usable (pb_ostream_from_buffer buf sz :: 'u pb_ostream)"
proof -
  let ?s = "pb_ostream_from_buffer buf sz :: 'u pb_ostream"
  have "obuf.ok ?s" by (rule obuf_from_buffer(1) [OF assms(1)])
  moreover have "os_errmsg ?s = None" "max_size ?s = sz" by (simp_all add: pb_ostream_from_buffer_def)
  ultimately show "obuf.fresh ?s" using assms(2) by (simp add: obuf.fresh_def)
  then show "obuf.usable ?s" by (simp add: obuf.usable_def)
qed

lemma buffer_emit:
  "os_state (obuf.emit d (pb_ostream_from_buffer buf sz)) = Out_ptr (d @ drop (length d) buf) (length d)"
  by (simp add: obuf.emit_def pb_ostream_from_buffer_def obuf_put_def)

lemma delivers_message:
  assumes "view n env (View_message t p) m = r"
  shows "obuf.delivers env (\<lambda>call. call (Encode_message t p)) m (bind_out r (\<lambda>fs. Ok (message_bytes fs)))"
  using obuf.delivers_view [of env "View_message t p" m n] assms by simp

section \<open>Two messages\<close>

text \<open>A number, and a submessage with an allocated flag; the lowest byte of its address is a parameter. A counted array of two numbers.\<close>

definition number_field :: pb_field where
  "number_field = \<lparr>fd_tag = 1, fd_type = 0x11, fd_data_offset = 0, fd_size_offset = 0, fd_data_size = 4, fd_array_size = 0, fd_ptr = No_ptr\<rparr>"

definition inner_field :: pb_field where
  "inner_field = \<lparr>fd_tag = 2, fd_type = 0x18, fd_data_offset = 0, fd_size_offset = 0, fd_data_size = 8, fd_array_size = 0, fd_ptr = Sub_fields 1\<rparr>"

definition flag_field :: pb_field where
  "flag_field = \<lparr>fd_tag = 1, fd_type = 0x90, fd_data_offset = 0, fd_size_offset = 0, fd_data_size = 1, fd_array_size = 0, fd_ptr = No_ptr\<rparr>"

definition numbers_field :: pb_field where
  "numbers_field = \<lparr>fd_tag = 1, fd_type = 0x21, fd_data_offset = 4, fd_size_offset = -4, fd_data_size = 4, fd_array_size = 2, fd_ptr = No_ptr\<rparr>"

definition no_field :: pb_field where
  "no_field = \<lparr>fd_tag = 0, fd_type = 0, fd_data_offset = 0, fd_size_offset = 0, fd_data_size = 0, fd_array_size = 0, fd_ptr = No_ptr\<rparr>"

definition example_env :: "byte \<Rightarrow> unit enc_env" where
  "example_env low = \<lparr>ee_tables = (\<lambda>t. if t = 0 then [number_field, inner_field, no_field] else if t = 1 then [flag_field, no_field] else [numbers_field, no_field]),
     ee_callbacks = (\<lambda>_. None), ee_ext_types = (\<lambda>_. None), ee_pointer_byte = (\<lambda>p i. if i = 0 then low else 1)\<rparr>"

definition example_memory :: memory where
  "example_memory = \<lparr>mem_objects = (\<lambda>b. if b = 0 then Some (map Byte [150, 0, 0, 0] @ pointer_cells (Addr 1 0)) else if b = 1 then Some [Byte 1]
     else if b = 2 then Some (map Byte [3, 0, 0, 0, 1, 0, 0, 0, 2, 0, 0, 0]) else None), mem_fresh = 3, mem_answers = []\<rparr>"

lemma example_view: "view 4 (example_env 1) (View_message 0 (Addr 0 0)) example_memory = Ok [(1, Scalar (WVarint 150)), (2, Nested [(1, Scalar (WVarint 1))])]"
  by code_simp

lemma example_bytes: "message_bytes [(1, Scalar (WVarint 150)), (2, Nested [(1, Scalar (WVarint 1))])] = [0x08, 0x96, 0x01, 0x12, 0x02, 0x08, 0x01]"
  by code_simp

lemma refused_view: "view 4 (example_env 1) (View_message 2 (Addr 2 0)) example_memory = Fail"
  by code_simp

definition flag_env :: "byte \<Rightarrow> unit enc_env" where
  "flag_env low = \<lparr>ee_tables = (\<lambda>t. if t = 0 then [inner_field, no_field] else [flag_field, no_field]),
     ee_callbacks = (\<lambda>_. None), ee_ext_types = (\<lambda>_. None), ee_pointer_byte = (\<lambda>p i. if i = 0 then low else 1)\<rparr>"

definition flag_memory :: memory where
  "flag_memory = \<lparr>mem_objects = (\<lambda>b. if b = 0 then Some (pointer_cells (Addr 1 0)) else if b = 1 then Some [Byte 1] else None),
     mem_fresh = 2, mem_answers = []\<rparr>"

section \<open>Encoding\<close>

lemma encoded_buffer:
  fixes env :: "'u enc_env"
  assumes "view n env (View_message t p) m = Ok fs" "unat sz \<le> length buf" "unat sz \<le> 2 ^ 63"
  shows "\<exists>enough r w s. (\<forall>k \<ge> enough. erun k env (Encode_message t p) (pb_ostream_from_buffer buf sz, m) = Some (r, s, m)) \<and>
    os_state s = Out_ptr (w @ drop (length w) buf) (length w) \<and> length w \<le> unat sz \<and>
    (if length (message_bytes fs) \<le> unat sz then r = Ok () \<and> w = message_bytes fs else r = Fail \<and> (\<exists>rest. message_bytes fs = w @ rest))"
proof -
  let ?s = "pb_ostream_from_buffer buf sz :: 'u pb_ostream" and ?d = "message_bytes fs"
  note fresh = buffer_fresh [where 'u = 'u, OF assms(2,3)]
  from obuf.delivers_OkE [OF delivers_message [OF assms(1), unfolded bind_out.simps] fresh(2)] obtain x where
    x: "obuf.puts ?d ?s x" "enc.reach env (\<lambda>call. call (Encode_message t p) (?s, m)) (fst x, snd x, m)" .
  obtain enough where e: "\<forall>k \<ge> enough. erun k env (Encode_message t p) (?s, m) = Some (fst x, snd x, m)" using enc.reach_enough [OF x(2)] by blast
  have sp: "obuf.space ?s = unat sz" by (rule obuf_from_buffer(2) [OF assms(2)])
  show ?thesis
  proof (cases "length ?d \<le> unat sz")
    case True
    then have "x = (Ok (), obuf.emit ?d ?s)" using x(1) fresh(1) sp by (simp add: obuf.puts_def)
    then show ?thesis using e True buffer_emit [of ?d buf sz, where 'a = 'u] by (intro exI [of _ enough] exI [of _ "Ok ()"] exI [of _ ?d] exI [of _ "snd x"]) simp
  next
    case False
    then obtain w rest where w: "fst x = Fail" "?d = w @ rest" "obuf.stopped w ?s (snd x)" using x(1) fresh(1) sp by (auto simp: obuf.puts_def)
    then show ?thesis using e False sp buffer_emit [of w buf sz, where 'a = 'u]
      by (intro exI [of _ enough] exI [of _ Fail] exI [of _ w] exI [of _ "snd x"]) (auto simp: obuf.stopped_def)
  qed
qed

text \<open>C4: Encoding a structure writes exactly the wire format of the fields that are present in it: if the bytes fit into the buffer, encoding succeeds and
  they are there; otherwise it fails after a prefix of them. Nothing else of the buffer changes, nor does the memory.\<close>

theorem encode_message_exact:
  fixes env :: "'u enc_env"
  assumes "view n env (View_message t p) m = Ok fs" "unat sz \<le> length buf" "unat sz \<le> 2 ^ 63"
  shows "\<exists>enough r w s. (\<forall>k \<ge> enough. erun k env (Encode_message t p) (pb_ostream_from_buffer buf sz, m) = Some (r, s, m)) \<and>
    os_state s = Out_ptr (w @ drop (length w) buf) (length w) \<and> length w \<le> unat sz \<and>
    (if length (message_bytes fs) \<le> unat sz then r = Ok () \<and> w = message_bytes fs else r = Fail \<and> (\<exists>rest. message_bytes fs = w @ rest))"
  by (rule encoded_buffer [OF assms])

theorem encode_message_exact_witness:
  "\<exists>enough s. (\<forall>k \<ge> enough. erun k (example_env 1) (Encode_message 0 (Addr 0 0)) (pb_ostream_from_buffer [0, 0, 0, 0, 0, 0, 0, 9] 8, example_memory) =
      Some (Ok (), s, example_memory)) \<and> os_state s = Out_ptr [0x08, 0x96, 0x01, 0x12, 0x02, 0x08, 0x01, 9] 7"
  using encode_message_exact [OF example_view, of 8 "[0, 0, 0, 0, 0, 0, 0, 9]"] unfolding example_bytes by fastforce

text \<open>C6: The size that \<^verbatim>\<open>pb_get_encoded_size\<close> reports is the number of bytes of the wire format, as long as \<^verbatim>\<open>size_t\<close> can hold it.\<close>

theorem encoded_size_exact:
  fixes env :: "'u enc_env"
  assumes "view n env (View_message t p) m = Ok fs" "length (message_bytes fs) < 2 ^ 64"
  shows "\<exists>enough c. (\<forall>k \<ge> enough. pb_get_encoded_size env (erun k env) t p m = Some (Ok c, m)) \<and> unat c = length (message_bytes fs)"
proof -
  let ?d = "message_bytes fs"
  from obuf.delivers_OkE [OF delivers_message [OF assms(1), unfolded bind_out.simps] obuf.sizing_usable(2)] obtain x where
    x: "obuf.puts ?d PB_OSTREAM_SIZING x" "enc.reach env (\<lambda>call. call (Encode_message t p) (PB_OSTREAM_SIZING, m)) (fst x, snd x, m)" .
  obtain enough where e: "\<forall>k \<ge> enough. erun k env (Encode_message t p) (PB_OSTREAM_SIZING, m) = Some (fst x, snd x, m)" using enc.reach_enough [OF x(2)] by blast
  have "x = (Ok (), counted ?d PB_OSTREAM_SIZING)" using x(1) by (simp add: obuf.puts_def obuf.sizing_usable)
  then have "pb_get_encoded_size env (erun k env) t p m = Some (Ok (of_nat (length ?d)), m)" if "k \<ge> enough" for k
    using e [rule_format, of "Suc k"] that by (simp add: pb_get_encoded_size_def counted_def PB_OSTREAM_SIZING_def)
  then show ?thesis using assms(2) by (intro exI [of _ enough] exI [of _ "of_nat (length ?d)"]) (simp add: unat_of_nat)
qed

theorem encoded_size_exact_witness:
  "\<exists>enough c. (\<forall>k \<ge> enough. pb_get_encoded_size (example_env 1) (erun k (example_env 1)) 0 (Addr 0 0) example_memory = Some (Ok c, example_memory)) \<and> unat c = 7"
proof -
  have l: "length (message_bytes [(1, Scalar (WVarint 150)), (2, Nested [(1, Scalar (WVarint 1))])]) = 7" unfolding example_bytes by simp
  show ?thesis using encoded_size_exact [OF example_view, unfolded l] by simp
qed

text \<open>C5: A structure that has no wire format, because a required pointer is null, an array or byte string claims more than its capacity or a descriptor is
  not valid, is refused: encoding reports failure for every buffer, whatever was written before stays inside of the buffer, and no
  size is reported.\<close>

theorem encode_message_refused:
  fixes env :: "'u enc_env"
  assumes "view n env (View_message t p) m = Fail" "unat sz \<le> length buf" "unat sz \<le> 2 ^ 63"
  shows "\<exists>enough w s. (\<forall>k \<ge> enough. erun k env (Encode_message t p) (pb_ostream_from_buffer buf sz, m) = Some (Fail, s, m) \<and>
      pb_get_encoded_size env (erun k env) t p m = Some (Fail, m)) \<and>
    os_state s = Out_ptr (w @ drop (length w) buf) (length w) \<and> length w \<le> unat sz"
proof -
  let ?s = "pb_ostream_from_buffer buf sz :: 'u pb_ostream"
  note fresh = buffer_fresh [where 'u = 'u, OF assms(2,3)] and del = delivers_message [OF assms(1), unfolded bind_out.simps]
  from obuf.delivers_FailE [OF del fresh(2)] fresh(1) obtain s d where
    s: "obuf.stopped d ?s s" "enc.reach env (\<lambda>call. call (Encode_message t p) (?s, m)) (Fail, s, m)" by blast
  from obuf.delivers_FailE [OF del obuf.sizing_usable(2)] obtain c where
    c: "enc.reach env (\<lambda>call. call (Encode_message t p) (PB_OSTREAM_SIZING, m)) (Fail, c, m)" by blast
  obtain e1 where e1: "\<forall>k \<ge> e1. erun k env (Encode_message t p) (?s, m) = Some (Fail, s, m)" using enc.reach_enough [OF s(2)] by blast
  obtain e2 where e2: "\<forall>k \<ge> e2. erun k env (Encode_message t p) (PB_OSTREAM_SIZING, m) = Some (Fail, c, m)" using enc.reach_enough [OF c] by blast
  have "pb_get_encoded_size env (erun k env) t p m = Some (Fail, m)" if "k \<ge> e2" for k
    using e2 [rule_format, of "Suc k"] that by (simp add: pb_get_encoded_size_def)
  moreover have "obuf.space ?s = unat sz" by (rule obuf_from_buffer(2) [OF assms(2)])
  moreover have "os_state (obuf.emit d ?s) = Out_ptr (d @ drop (length d) buf) (length d)" by (rule buffer_emit)
  ultimately show ?thesis using e1 s(1)
    by (intro exI [of _ "max e1 e2"] exI [of _ d] exI [of _ s]) (auto simp: obuf.stopped_def)
qed

theorem encode_message_refused_witness:
  "\<exists>enough w s. (\<forall>k \<ge> enough. erun k (example_env 1) (Encode_message 2 (Addr 2 0)) (pb_ostream_from_buffer [0, 0] 2, example_memory) = Some (Fail, s, example_memory) \<and>
      pb_get_encoded_size (example_env 1) (erun k (example_env 1)) 2 (Addr 2 0) example_memory = Some (Fail, example_memory)) \<and>
    os_state s = Out_ptr (w @ drop (length w) [0, 0]) (length w) \<and> length w \<le> 2"
  using encode_message_refused [OF refused_view, of 2 "[0, 0]"] by simp

section \<open>Presence of allocated members\<close>

text \<open>A structure that is a submessage with an allocated flag.\<close>

lemma inner_table: "wf_table [inner_field, no_field] (Suc 0)" "fd_data_offset inner_field = 0"
    "PB_LTYPE inner_field = PB_LTYPE_SUBMESSAGE" "PB_ATYPE inner_field = PB_ATYPE_STATIC" "PB_HTYPE inner_field = PB_HTYPE_OPTIONAL"
    "fd_size_offset inner_field = 0" "fd_tag inner_field = 2" "fd_ptr inner_field = Sub_fields 1" "field_wire_type inner_field \<noteq> None"
    "submessage inner_field = Ok 1"
  by code_simp+

lemma flag_table: "wf_table [flag_field, no_field] (Suc 0)" "fd_data_offset flag_field = 0"
    "PB_LTYPE flag_field = PB_LTYPE_BOOL" "PB_ATYPE flag_field = PB_ATYPE_POINTER" "PB_HTYPE flag_field = PB_HTYPE_OPTIONAL"
    "fd_size_offset flag_field = 0" "fd_tag flag_field = 1" "fd_data_size flag_field = 1" "field_wire_type flag_field \<noteq> None"
  by code_simp+

definition allocated_flag :: "wire_value \<Rightarrow> pb_message" where
  "allocated_flag v = [(2, Nested [(1, Scalar v)])]"

lemma allocated_flag_bytes:
  "message_bytes (allocated_flag (WVarint (if v = 0 then 0 else 1))) = [0x12, 0x02, 0x08, if v = 0 then 0 else 1]"
proof -
  have "message_bytes (allocated_flag (WVarint 0)) = [0x12, 0x02, 0x08, 0]" "message_bytes (allocated_flag (WVarint 1)) = [0x12, 0x02, 0x08, 1]"
    by code_simp+
  then show ?thesis by simp
qed

lemma allocated_flag_view:
  fixes env :: "'u enc_env"
  assumes tables: "ee_tables env t = [inner_field, no_field]" "ee_tables env 1 = [flag_field, no_field]"
    and mem: "mem_objects m b = Some (pointer_cells (Addr q 0))" "mem_objects m q = Some [Byte v]"
  shows "view 3 env (View_message t (Addr b 0)) m =
    Ok (if ee_pointer_byte env (Addr q 0) 0 = 0 then [] else allocated_flag (WVarint (if v = 0 then 0 else 1)))"
proof -
  let ?lost = "ee_pointer_byte env (Addr q 0) 0 = 0" and ?w = "WVarint (if v = 0 then 0 else 1)"
  note table1 = tables(2) [unfolded One_nat_def]
  have ptr: "load_ptr (Addr b 0) m = Ok (Addr q 0)"
    using mem(1) by (simp add: load_ptr_def load_cells_def in_object_def pointer_cells_def upt_rec numeral_eq_Suc)
  have char: "load_char f (Addr b 0) m = Ok (f (Addr q 0) 0)" "load_char f (Addr q 0) m = Ok v" for f
    using mem by (simp_all add: load_char_def load_chars_def load_cells_def in_object_def pointer_cells_def upt_rec)
  have flag: "is_default (Suc n) env flag_field (Addr b 0) m = Ok ?lost" for n
    by (simp add: flag_table shift_def own_default_def char Let_def)
  have inner: "is_default (Suc (Suc n)) env inner_field (Addr b 0) m = Ok ?lost" for n
    by (subst is_default.simps) (simp add: inner_table flag_table shift_def all_fields_def table1 flag del: is_default.simps)
  have sub: "view (Suc (Suc n)) env (View_message 1 (Addr b 0)) m = Ok [(1, Scalar ?w)]" for n
    by (simp add: message_view_def table1 flag_table field_view_def basic_view_def shift_def flag field_data_def ptr
      present_view_def size_member_def single_view_def value_view_def scalar_view_def safe_read_bool_def char del: is_default.simps)
  have fits: "fits_object (message_bytes [(1, Scalar ?w)])"
  proof -
    have "fits_object (message_bytes [(1, Scalar (WVarint 0))])" "fits_object (message_bytes [(1, Scalar (WVarint 1))])" by code_simp+
    then show ?thesis by simp
  qed
  have "view (Suc (Suc (Suc 0))) env (View_message t (Addr b 0)) m = Ok (if ?lost then [] else allocated_flag ?w)"
    using fits unfolding view.simps(2) [of "Suc (Suc 0)"]
    by (simp add: message_view_def tables(1) inner_table field_view_def basic_view_def shift_def inner field_data_def
      present_view_def size_member_def single_view_def value_view_def sub [unfolded One_nat_def] allocated_flag_def del: is_default.simps view.simps message_bytes_simps)
  then show ?thesis by (simp only: numeral_3_eq_3)
qed

text \<open>C40: Whether a submessage is present is decided by looking at as many bytes of a pointer in it as the value has that it points to. For every
  structure that is a submessage with an allocated flag, wherever the two are, whatever the flag is and whatever the addresses
  of the platform look like: the flag is written if the lowest byte of its address is not zero, and encoding writes nothing and
  succeeds if that byte is zero.\<close>

theorem allocated_flag_lost:
  fixes env :: "'u enc_env"
  assumes "ee_tables env t = [inner_field, no_field]" "ee_tables env 1 = [flag_field, no_field]"
    and "mem_objects m b = Some (pointer_cells (Addr q 0))" "mem_objects m q = Some [Byte v]"
    and "4 \<le> unat sz" "unat sz \<le> length buf" "unat sz \<le> 2 ^ 63"
  shows "\<exists>enough s. (\<forall>k \<ge> enough. erun k env (Encode_message t (Addr b 0)) (pb_ostream_from_buffer buf sz, m) = Some (Ok (), s, m)) \<and>
    os_state s = (if ee_pointer_byte env (Addr q 0) 0 = 0 then Out_ptr buf 0
      else Out_ptr ([0x12, 0x02, 0x08, if v = 0 then 0 else 1] @ drop 4 buf) 4)"
proof -
  let ?w = "WVarint (if v = 0 then 0 else 1)"
  let ?fs = "if ee_pointer_byte env (Addr q 0) 0 = 0 then [] else allocated_flag ?w"
  have bytes: "message_bytes ?fs = (if ee_pointer_byte env (Addr q 0) 0 = 0 then [] else [0x12, 0x02, 0x08, if v = 0 then 0 else 1])"
    by (simp only: allocated_flag_bytes message_bytes_simps if_distrib [of message_bytes])
  then have "length (message_bytes ?fs) \<le> unat sz" using assms(5) by simp
  then show ?thesis
    using encoded_buffer [OF allocated_flag_view [OF assms(1-4)] assms(6,7)] unfolding bytes by (auto simp: numeral_eq_Suc split: if_splits)
qed

theorem allocated_flag_lost_witness:
  "\<exists>enough s. (\<forall>k \<ge> enough. erun k (flag_env 0) (Encode_message 0 (Addr 0 0)) (pb_ostream_from_buffer [9, 9, 9, 9] 4, flag_memory) = Some (Ok (), s, flag_memory)) \<and>
    os_state s = Out_ptr [9, 9, 9, 9] 0"
  using allocated_flag_lost [of "flag_env 0" 0 flag_memory 0 1 1 4 "[9, 9, 9, 9]"] by (simp add: flag_env_def flag_memory_def)

end
