(* ===== verification/Pb_Roundtrip.thy ===== *)
theory Pb_Roundtrip
  imports Pb_Restored Pb_View_Fits Pb_Encoded
begin

text \<open>What was written from one structure and read into another one is the same message.\<close>

section \<open>Structures in live memory\<close>

lemma live_occupies:
  assumes "live (cells b k sz) m" "0 < sz"
  obtains pre post x where "occupies pre post b x m" "length pre = k" "length x = sz"
proof -
  have lv: "\<exists>cs. mem_objects m b = Some cs \<and> i < length cs \<and> is_byte (cs ! i)" if "k \<le> i" "i < k + sz" for i
    using assms(1) that by (auto simp: live_def cells_def)
  obtain cs where cs: "mem_objects m b = Some cs" using lv [of k] assms(2) by auto
  have byte: "i < length cs \<and> is_byte (cs ! i)" if "k \<le> i" "i < k + sz" for i using lv [OF that] cs by simp
  have len: "k + sz \<le> length cs" using byte [of "k + sz - 1"] assms(2) by simp linarith
  have "\<exists>v. c = Byte v" if c: "c \<in> set (segment k sz cs)" for c
  proof -
    obtain j where j: "j < length (segment k sz cs)" "segment k sz cs ! j = c" using c unfolding in_set_conv_nth by blast
    then have "j < sz" "c = cs ! (k + j)" using len by (simp_all add: segment_def)
    then show ?thesis using byte [of "k + j"] by (simp add: is_byte_def)
  qed
  then have "segment k sz cs = map Byte (map (\<lambda>c. case c of Byte v \<Rightarrow> v) (segment k sz cs))"
    unfolding map_map by (intro map_idI [symmetric]) fastforce
  then obtain x where x: "segment k sz cs = map Byte x" by blast
  have "b < mem_fresh m" using assms(1) cs by (auto simp: live_def unused_above_def not_le [symmetric])
  then have "occupies (take k cs) (drop (k + sz) cs) b x m" using cs segment_split [OF len] x by (simp add: occupies_def)
  moreover have "length x = sz" using x length_segment [OF len] by (metis length_map)
  ultimately show thesis using that len by simp
qed

lemma singular_size: "singular_table d tabs t sz \<Longrightarrow> 0 < sz"
  by (cases d) (simp_all add: Let_def)

lemma decode_buffer:
  fixes env :: "'u env" and eenv :: "'v enc_env"
  assumes "ee_tables eenv = ev_tables env" "singular_table d (ev_tables env) t sz" "message_fits d (ev_tables env) t fs" "live (cells b k sz) m"
  obtains enough s m' where
    "\<forall>n \<ge> enough. run n env (Decode_message True t (Addr b (int k))) (pb_istream_from_buffer (message_bytes fs @ rest) (length (message_bytes fs)), m) = Some (Ok (), s, m')"
    "bytes_left s = 0" "\<forall>n > d. view n eenv (View_message t (Addr b (int k))) m' = Ok fs"
proof -
  let ?d = "message_bytes fs"
  let ?s = "pb_istream_from_buffer (?d @ rest) (length ?d) :: 'u pb_istream"
  from live_occupies [OF assms(4) singular_size [OF assms(2)]] obtain pre post x where o: "occupies pre post b x m" "length pre = k" "length x = sz" .
  have s: "buf.ok ?s" "buf.avail ?s = ?d" by (simp_all add: from_buffer_simps)
  have "buf.yields env (\<lambda>call. call (Decode_message True t (Addr b (int (length pre)))) (?s, m)) (buf.consume (length ?d) ?s) pre post b (length x)
    (\<lambda>y. message_image d (ev_tables env) t y fs)"
    using assms(2) o(3) by (intro buf.decode_restores [OF _ assms(3) o(1) s]) simp
  then obtain y m' where y: "dec.reach env (\<lambda>call. call (Decode_message True t (Addr b (int (length pre)))) (?s, m)) (Ok (), buf.consume (length ?d) ?s, m')"
    "occupies pre post b y m'" "length y = length x" "message_image d (ev_tables env) t y fs" unfolding buf.yields_def by blast
  have "view n eenv (View_message t (Addr b (int k))) m' = Ok fs" if "d < n" for n
  proof -
    obtain n' where n': "n = Suc n'" "d \<le> n'" using \<open>d < n\<close> by (cases n) auto
    show ?thesis using readableD(1) [OF readable_singular [OF assms(1) n'(2)] _ assms(3) y(4,2)] assms(2) y(3) o(2,3) n'(1) by simp
  qed
  moreover obtain enough where "\<forall>n \<ge> enough. run n env (Decode_message True t (Addr b (int k))) (?s, m) = Some (Ok (), buf.consume (length ?d) ?s, m')"
    using dec.reach_enough [OF y(1)] o(2) by blast
  ultimately show thesis using that by (simp add: pb_istream_from_buffer_def)
qed

section \<open>Two structures\<close>

text \<open>A number, a string of up to five characters and a submessage with a flag and up to three bytes.\<close>

definition letter_tables :: "nat \<Rightarrow> pb_field list" where
  "letter_tables t = (if t = 0 then
     [\<lparr>fd_tag = 1, fd_type = 0x11, fd_data_offset = 0, fd_size_offset = 0, fd_data_size = 4, fd_array_size = 0, fd_ptr = No_ptr\<rparr>,
      \<lparr>fd_tag = 2, fd_type = 0x17, fd_data_offset = 0, fd_size_offset = 0, fd_data_size = 6, fd_array_size = 0, fd_ptr = No_ptr\<rparr>,
      \<lparr>fd_tag = 3, fd_type = 0x18, fd_data_offset = 2, fd_size_offset = 0, fd_data_size = 12, fd_array_size = 0, fd_ptr = Sub_fields 1\<rparr>,
      no_field]
   else
     [\<lparr>fd_tag = 1, fd_type = 0x10, fd_data_offset = 0, fd_size_offset = 0, fd_data_size = 1, fd_array_size = 0, fd_ptr = No_ptr\<rparr>,
      \<lparr>fd_tag = 2, fd_type = 0x16, fd_data_offset = 3, fd_size_offset = 0, fd_data_size = 7, fd_array_size = 0, fd_ptr = No_ptr\<rparr>,
      no_field])"

definition letter_env :: "unit env" where
  "letter_env = \<lparr>ev_tables = letter_tables, ev_callbacks = (\<lambda>_. None), ev_ext_types = (\<lambda>_. None)\<rparr>"

definition letter_enc_env :: "unit enc_env" where
  "letter_enc_env = \<lparr>ee_tables = letter_tables, ee_callbacks = (\<lambda>_. None), ee_ext_types = (\<lambda>_. None), ee_pointer_byte = (\<lambda>_ _. 0)\<rparr>"

definition letter_memory :: memory where
  "letter_memory = \<lparr>mem_objects = (\<lambda>b. if b = 0 then Some (map Byte [150, 0, 0, 0, 97, 98, 0, 9, 9, 9, 9, 9, 1, 9, 9, 9, 2, 0, 0, 0, 7, 0, 9, 9])
     else if b = 1 then Some (map Byte (replicate 24 255)) else None), mem_fresh = 2, mem_answers = []\<rparr>"

definition letter :: pb_message where
  "letter = [(1, Scalar (WVarint 150)), (2, Scalar (WString [97, 98])), (3, Nested [(1, Scalar (WVarint 1)), (2, Scalar (WString [7, 0]))])]"

lemma letter_facts:
  "ee_tables letter_enc_env = ev_tables letter_env" "singular_table 2 (ev_tables letter_env) 0 24" "message_fits 2 (ev_tables letter_env) 0 letter"
  "storable 2 (ev_tables letter_env) 0 letter"
  by (simp add: letter_enc_env_def letter_env_def) code_simp+

lemma letter_view: "view 3 letter_enc_env (View_message 0 (Addr 0 0)) letter_memory = Ok letter"
  by code_simp

lemma letter_live: "live (cells 1 0 24) letter_memory"
  by (auto simp: live_def unused_above_def letter_memory_def cells_def)

section \<open>Decoding\<close>

text \<open>C3: Decoding the wire format of a message into a structure of singular fields, whatever the structure contained before, succeeds, takes the whole
  input, and leaves in the structure exactly that message: numbers, strings, byte arrays and submessages, and the default for every
  field that was not in the input.\<close>

theorem decode_message_exact:
  fixes env :: "'u env" and eenv :: "'v enc_env"
  assumes "ee_tables eenv = ev_tables env" "singular_table d (ev_tables env) t sz" "message_fits d (ev_tables env) t fs" "live (cells b k sz) m"
  shows "\<exists>enough s m'. (\<forall>n \<ge> enough. run n env (Decode_message True t (Addr b (int k)))
        (pb_istream_from_buffer (message_bytes fs @ rest) (length (message_bytes fs)), m) = Some (Ok (), s, m')) \<and>
    bytes_left s = 0 \<and> (\<forall>n > d. view n eenv (View_message t (Addr b (int k))) m' = Ok fs)"
  by (rule decode_buffer [OF assms, of rest]) (intro exI conjI; assumption)

theorem decode_message_exact_witness:
  "\<exists>enough s m'. (\<forall>n \<ge> enough. run n letter_env (Decode_message True 0 (Addr 1 0))
      (pb_istream_from_buffer (message_bytes letter @ [255]) (length (message_bytes letter)), letter_memory) = Some (Ok (), s, m')) \<and>
    bytes_left s = 0 \<and> (\<forall>n > 2. view n letter_enc_env (View_message 0 (Addr 1 0)) m' = Ok letter)"
  using decode_message_exact [OF letter_facts(1-3) letter_live, of "[255]"] by simp

section \<open>Round trip\<close>

text \<open>C2: What was encoded from one structure and is decoded into another one is the same message: whenever encoding into a buffer succeeds, decoding of what
  was written succeeds, and the second structure then has the same fields with the same values as the first, provided that
  the strings in it are terminated and submessages are shorter than four gigabytes.\<close>

theorem message_roundtrip:
  fixes env :: "'u env" and eenv :: "'u enc_env"
  assumes "ee_tables eenv = ev_tables env" "singular_table d (ev_tables env) t sz" "storable d (ev_tables env) t fs" "live (cells b k sz) m"
    and "view j eenv (View_message t (Addr a i)) m = Ok fs" "unat len \<le> length buf" "unat len \<le> 2 ^ 63"
    and "erun fuel eenv (Encode_message t (Addr a i)) (pb_ostream_from_buffer buf len, m) = Some (Ok (), out, m1)"
  shows "\<exists>enough s m'. (\<forall>n \<ge> enough. run n env (Decode_message True t (Addr b (int k))) (reread out [], m) = Some (Ok (), s, m')) \<and>
    bytes_left s = 0 \<and> (\<forall>n > d. view n eenv (View_message t (Addr b (int k))) m' = Ok fs)"
proof -
  let ?s = "pb_ostream_from_buffer buf len :: 'u pb_ostream" and ?d = "message_bytes fs"
  note fresh = buffer_fresh [where 'u = 'u, OF assms(6,7)]
  from obuf.delivers_OkE [OF delivers_message [OF assms(5), unfolded bind_out.simps] fresh(2)] obtain x where
    x: "obuf.puts ?d ?s x" "enc.reach eenv (\<lambda>call. call (Encode_message t (Addr a i)) (?s, m)) (fst x, snd x, m)" .
  obtain enough where "\<forall>k \<ge> enough. erun k eenv (Encode_message t (Addr a i)) (?s, m) = Some (fst x, snd x, m)" using enc.reach_enough [OF x(2)] by blast
  then have "erun (max enough fuel) eenv (Encode_message t (Addr a i)) (?s, m) = Some (fst x, snd x, m)" by simp
  moreover have "erun (max enough fuel) eenv (Encode_message t (Addr a i)) (?s, m) = Some (Ok (), out, m1)"
    by (rule enc.runner_more [OF grows_call assms(8)]) simp
  ultimately have out: "x = (Ok (), out)" by (cases x) simp
  have sp: "obuf.space ?s = unat len" by (rule obuf_from_buffer(2) [OF assms(6)])
  have fits: "length ?d \<le> unat len" using x(1) out fresh(1) sp by (auto simp: obuf.puts_def split: if_splits)
  then have "out = obuf.emit ?d ?s" using x(1) out fresh(1) sp by (simp add: obuf.puts_def)
  then have r: "reread out [] = pb_istream_from_buffer (?d @ []) (length ?d)" by (simp add: reread_emit [OF assms(6) fits])
  have "unused_above m" using assms(4) by (simp add: live_def)
  from view_fits [OF assms(1) this assms(2,5,3)] have "message_fits d (ev_tables env) t fs" .
  then show ?thesis unfolding r by (rule decode_buffer [OF assms(1,2) _ assms(4), of fs "[]"]) (intro exI conjI; assumption)
qed

theorem message_roundtrip_witness:
  "\<exists>out m1 enough s m'. erun 8 letter_enc_env (Encode_message 0 (Addr 0 0)) (pb_ostream_from_buffer (replicate 20 0) 20, letter_memory) = Some (Ok (), out, m1) \<and>
    (\<forall>n \<ge> enough. run n letter_env (Decode_message True 0 (Addr 1 0)) (reread out [], letter_memory) = Some (Ok (), s, m')) \<and>
    bytes_left s = 0 \<and> (\<forall>n > 2. view n letter_enc_env (View_message 0 (Addr 1 0)) m' = Ok letter)"
proof -
  have "map_option fst (erun 8 letter_enc_env (Encode_message 0 (Addr 0 0)) (pb_ostream_from_buffer (replicate 20 0) 20, letter_memory)) = Some (Ok ())" by code_simp
  then obtain out m1 where e: "erun 8 letter_enc_env (Encode_message 0 (Addr 0 0)) (pb_ostream_from_buffer (replicate 20 0) 20, letter_memory) = Some (Ok (), out, m1)" by auto
  from message_roundtrip [OF letter_facts(1,2,4) letter_live letter_view _ _ e] show ?thesis using e by simp
qed

end
