(* ===== verification/Cbs.thy ===== *)
theory Cbs
  imports C_Prelude
begin

text \<open>
  The byte-string reader of BoringSSL (\<^verbatim>\<open>crypto/bytestring/cbs.c\<close>), which parses every certificate
  and handshake message of a TLS connection.

  A \<^verbatim>\<open>CBS\<close> is a pointer into an object and a length. The pointer is the list of the bytes of the
  object from there on; the length is what the reader may use of them. Reading a byte the object
  does not have is \<open>Undef\<close>. A function that takes a \<^verbatim>\<open>CBS *\<close> returns the outcome and the \<^verbatim>\<open>CBS\<close> it leaves,
  also when it fails; \<^verbatim>\<open>unsigned\<close> is 32 bits wide and \<^verbatim>\<open>size_t\<close> 64. What a call stores through its
  output pointers before it fails is not part of the outcome: no caller in the sources reads it.
\<close>

section \<open>The reader\<close>

record CBS =
  cbs_data :: "byte list"
  cbs_len :: nat

definition CBS_init :: "byte list \<Rightarrow> nat \<Rightarrow> CBS" where
  "CBS_init data len = \<lparr>cbs_data = data, cbs_len = len\<rparr>"

text \<open>The first \<open>n\<close> bytes at a pointer.\<close>

definition fetch :: "nat \<Rightarrow> byte list \<Rightarrow> byte list outcome" where
  "fetch n p = (if n \<le> length p then Ok (take n p) else Undef)"

definition cbs_get :: "nat \<Rightarrow> CBS \<Rightarrow> byte list outcome \<times> CBS" where
  "cbs_get n cbs =
     (if cbs_len cbs < n then (Fail, cbs)
      else (Ok (cbs_data cbs), cbs\<lparr>cbs_data := drop n (cbs_data cbs), cbs_len := cbs_len cbs - n\<rparr>))"

definition CBS_skip :: "nat \<Rightarrow> CBS \<Rightarrow> unit outcome \<times> CBS" where
  "CBS_skip len cbs = seq_ok (cbs_get len cbs) (\<lambda>_ s. (Ok (), s))"

definition CBS_data :: "CBS \<Rightarrow> byte list" where
  "CBS_data cbs = cbs_data cbs"

definition CBS_len :: "CBS \<Rightarrow> nat" where
  "CBS_len cbs = cbs_len cbs"

text \<open>The bytes a \<^verbatim>\<open>CBS\<close> spans, as a function of the sources reads them.\<close>

definition cbs_contents :: "CBS \<Rightarrow> byte list outcome" where
  "cbs_contents cbs = fetch (cbs_len cbs) (cbs_data cbs)"

text \<open>\<open>malloc_ok\<close> is whether the allocation succeeds; the copy is \<open>None\<close> for an empty string.\<close>

definition CBS_stow :: "bool \<Rightarrow> CBS \<Rightarrow> byte list option outcome" where
  "CBS_stow malloc_ok cbs =
     (if cbs_len cbs = 0 then Ok None
      else if \<not> malloc_ok then Fail
      else case cbs_contents cbs of Ok bs \<Rightarrow> Ok (Some bs) | _ \<Rightarrow> Undef)"

text \<open>\<^verbatim>\<open>OPENSSL_strnlen\<close> and \<^verbatim>\<open>OPENSSL_strndup\<close>: up to the first zero byte, with a zero byte added.\<close>

fun OPENSSL_strnlen :: "byte list \<Rightarrow> nat \<Rightarrow> nat outcome" where
  "OPENSSL_strnlen s 0 = Ok 0"
| "OPENSSL_strnlen [] (Suc n) = Undef"
| "OPENSSL_strnlen (c # s) (Suc n) = (if c = 0 then Ok 0 else
     case OPENSSL_strnlen s n of Ok k \<Rightarrow> Ok (Suc k) | Fail \<Rightarrow> Fail | Undef \<Rightarrow> Undef)"

definition OPENSSL_strndup :: "bool \<Rightarrow> byte list \<Rightarrow> nat \<Rightarrow> byte list outcome" where
  "OPENSSL_strndup malloc_ok str sz = (case OPENSSL_strnlen str sz of
      Ok k \<Rightarrow> if (of_nat k + 1 :: u64) < of_nat k then Fail
              else if malloc_ok then Ok (take k str @ [0]) else Fail
    | Fail \<Rightarrow> Fail | Undef \<Rightarrow> Undef)"

definition CBS_strdup :: "bool \<Rightarrow> CBS \<Rightarrow> byte list outcome" where
  "CBS_strdup malloc_ok cbs = OPENSSL_strndup malloc_ok (cbs_data cbs) (cbs_len cbs)"

text \<open>The position of the first occurrence, as \<^verbatim>\<open>memchr\<close> finds it.\<close>

fun OPENSSL_memchr :: "byte list \<Rightarrow> byte \<Rightarrow> nat \<Rightarrow> nat option outcome" where
  "OPENSSL_memchr s c 0 = Ok None"
| "OPENSSL_memchr [] c (Suc n) = Undef"
| "OPENSSL_memchr (b # s) c (Suc n) = (if b = c then Ok (Some 0) else
     case OPENSSL_memchr s c n of Ok r \<Rightarrow> Ok (map_option Suc r) | Fail \<Rightarrow> Fail | Undef \<Rightarrow> Undef)"

definition CBS_contains_zero_byte :: "CBS \<Rightarrow> bool outcome" where
  "CBS_contains_zero_byte cbs = (case OPENSSL_memchr (cbs_data cbs) 0 (cbs_len cbs) of
      Ok r \<Rightarrow> Ok (r \<noteq> None) | Fail \<Rightarrow> Fail | Undef \<Rightarrow> Undef)"

text \<open>The accumulated difference of \<^verbatim>\<open>CRYPTO_memcmp\<close>, which looks at every byte.\<close>

definition CRYPTO_memcmp :: "byte list \<Rightarrow> byte list \<Rightarrow> nat \<Rightarrow> byte outcome" where
  "CRYPTO_memcmp a b len =
     (if length a < len \<or> length b < len then Undef
      else Ok (fold (\<lambda>i x. x OR (a ! i XOR b ! i)) [0..<len] 0))"

definition CBS_mem_equal :: "CBS \<Rightarrow> byte list \<Rightarrow> nat \<Rightarrow> bool outcome" where
  "CBS_mem_equal cbs data len =
     (if len \<noteq> cbs_len cbs then Ok False
      else case CRYPTO_memcmp (cbs_data cbs) data len of
          Ok x \<Rightarrow> Ok (x = 0) | Fail \<Rightarrow> Fail | Undef \<Rightarrow> Undef)"

section \<open>Integers\<close>

definition cbs_get_u :: "nat \<Rightarrow> CBS \<Rightarrow> u64 outcome \<times> CBS" where
  "cbs_get_u len cbs = seq_ok (cbs_get len cbs) (\<lambda>data s.
     case fetch len data of
       Ok bs \<Rightarrow> (Ok (foldl (\<lambda>result b. push_bit 8 result OR ucast b) 0 bs), s)
     | _ \<Rightarrow> (Undef, s))"

definition CBS_get_u8 :: "CBS \<Rightarrow> byte outcome \<times> CBS" where
  "CBS_get_u8 cbs = seq_ok (cbs_get 1 cbs) (\<lambda>v s.
     case v of b # _ \<Rightarrow> (Ok b, s) | [] \<Rightarrow> (Undef, s))"

definition CBS_get_u16 :: "CBS \<Rightarrow> u16 outcome \<times> CBS" where
  "CBS_get_u16 cbs = seq_ok (cbs_get_u 2 cbs) (\<lambda>v s. (Ok (ucast v), s))"

text \<open>\<^verbatim>\<open>CRYPTO_bswap2\<close>, \<^verbatim>\<open>CRYPTO_bswap4\<close> and \<^verbatim>\<open>CRYPTO_bswap8\<close> as the portable branch of
  \<^verbatim>\<open>crypto/internal.h\<close> writes them.\<close>

definition CRYPTO_bswap2 :: "u16 \<Rightarrow> u16" where
  "CRYPTO_bswap2 x = drop_bit 8 x OR push_bit 8 x"

definition CRYPTO_bswap4 :: "u32 \<Rightarrow> u32" where
  "CRYPTO_bswap4 x =
     (let x = drop_bit 16 x OR push_bit 16 x
      in drop_bit 8 (x AND 0xff00ff00) OR push_bit 8 (x AND 0x00ff00ff))"

definition CRYPTO_bswap8 :: "u64 \<Rightarrow> u64" where
  "CRYPTO_bswap8 x = ucast (CRYPTO_bswap4 (ucast (drop_bit 32 x))) OR
     push_bit 32 (ucast (CRYPTO_bswap4 (ucast x)))"

definition CBS_get_u16le :: "CBS \<Rightarrow> u16 outcome \<times> CBS" where
  "CBS_get_u16le cbs = seq_ok (CBS_get_u16 cbs) (\<lambda>v s. (Ok (CRYPTO_bswap2 v), s))"

definition CBS_get_u24 :: "CBS \<Rightarrow> u32 outcome \<times> CBS" where
  "CBS_get_u24 cbs = seq_ok (cbs_get_u 3 cbs) (\<lambda>v s. (Ok (ucast v), s))"

definition CBS_get_u32 :: "CBS \<Rightarrow> u32 outcome \<times> CBS" where
  "CBS_get_u32 cbs = seq_ok (cbs_get_u 4 cbs) (\<lambda>v s. (Ok (ucast v), s))"

definition CBS_get_u32le :: "CBS \<Rightarrow> u32 outcome \<times> CBS" where
  "CBS_get_u32le cbs = seq_ok (CBS_get_u32 cbs) (\<lambda>v s. (Ok (CRYPTO_bswap4 v), s))"

definition CBS_get_u64 :: "CBS \<Rightarrow> u64 outcome \<times> CBS" where
  "CBS_get_u64 cbs = cbs_get_u 8 cbs"

definition CBS_get_u64le :: "CBS \<Rightarrow> u64 outcome \<times> CBS" where
  "CBS_get_u64le cbs = seq_ok (cbs_get_u 8 cbs) (\<lambda>v s. (Ok (CRYPTO_bswap8 v), s))"

definition CBS_get_last_u8 :: "CBS \<Rightarrow> byte outcome \<times> CBS" where
  "CBS_get_last_u8 cbs =
     (if cbs_len cbs = 0 then (Fail, cbs)
      else if length (cbs_data cbs) < cbs_len cbs then (Undef, cbs)
      else (Ok (cbs_data cbs ! (cbs_len cbs - 1)), cbs\<lparr>cbs_len := cbs_len cbs - 1\<rparr>))"

section \<open>Strings of bytes\<close>

definition CBS_get_bytes :: "nat \<Rightarrow> CBS \<Rightarrow> CBS outcome \<times> CBS" where
  "CBS_get_bytes len cbs = seq_ok (cbs_get len cbs) (\<lambda>v s. (Ok (CBS_init v len), s))"

definition CBS_copy_bytes :: "nat \<Rightarrow> CBS \<Rightarrow> byte list outcome \<times> CBS" where
  "CBS_copy_bytes len cbs = seq_ok (cbs_get len cbs) (\<lambda>v s. (fetch len v, s))"

definition cbs_get_length_prefixed :: "nat \<Rightarrow> CBS \<Rightarrow> CBS outcome \<times> CBS" where
  "cbs_get_length_prefixed len_len cbs = seq_ok (cbs_get_u len_len cbs) (\<lambda>len s. CBS_get_bytes (unat len) s)"

definition CBS_get_u8_length_prefixed :: "CBS \<Rightarrow> CBS outcome \<times> CBS" where
  "CBS_get_u8_length_prefixed cbs = cbs_get_length_prefixed 1 cbs"

definition CBS_get_u16_length_prefixed :: "CBS \<Rightarrow> CBS outcome \<times> CBS" where
  "CBS_get_u16_length_prefixed cbs = cbs_get_length_prefixed 2 cbs"

definition CBS_get_u24_length_prefixed :: "CBS \<Rightarrow> CBS outcome \<times> CBS" where
  "CBS_get_u24_length_prefixed cbs = cbs_get_length_prefixed 3 cbs"

definition CBS_get_until_first :: "byte \<Rightarrow> CBS \<Rightarrow> CBS outcome \<times> CBS" where
  "CBS_get_until_first c cbs = (case OPENSSL_memchr (CBS_data cbs) c (CBS_len cbs) of
      Ok (Some split) \<Rightarrow> CBS_get_bytes split cbs
    | Ok None \<Rightarrow> (Fail, cbs)
    | Fail \<Rightarrow> (Fail, cbs)
    | Undef \<Rightarrow> (Undef, cbs))"

section \<open>Tags and elements of ASN.1\<close>

lemma CBS_get_u8_decreases: "fst (CBS_get_u8 cbs) = Ok b \<Longrightarrow> cbs_len (snd (CBS_get_u8 cbs)) < cbs_len cbs"
  by (auto simp: CBS_get_u8_def cbs_get_def split: if_splits list.splits)

text \<open>The loop of \<^verbatim>\<open>parse_base128_integer\<close> from the value accumulated so far.\<close>

function base128_loop :: "u64 \<Rightarrow> CBS \<Rightarrow> u64 outcome \<times> CBS" where
  "base128_loop v cbs = seq_ok (CBS_get_u8 cbs) (\<lambda>b s.
     if drop_bit (64 - 7) v \<noteq> 0 then (Fail, s)
     else if v = 0 \<and> b = 0x80 then (Fail, s)
     else let v' = push_bit 7 v OR ucast (b AND 0x7f)
          in if b AND 0x80 \<noteq> 0 then base128_loop v' s else (Ok v', s))"
  by pat_completeness auto
termination
  by (relation "measure (\<lambda>(v, cbs). cbs_len cbs)") (auto dest: CBS_get_u8_decreases)

declare base128_loop.simps [simp del]

definition parse_base128_integer :: "CBS \<Rightarrow> u64 outcome \<times> CBS" where
  "parse_base128_integer cbs = base128_loop 0 cbs"

definition CBS_ASN1_TAG_SHIFT :: nat where "CBS_ASN1_TAG_SHIFT = 24"
definition CBS_ASN1_CONSTRUCTED :: u32 where "CBS_ASN1_CONSTRUCTED = push_bit CBS_ASN1_TAG_SHIFT 0x20"
definition CBS_ASN1_TAG_NUMBER_MASK :: u32 where
  "CBS_ASN1_TAG_NUMBER_MASK = push_bit (5 + CBS_ASN1_TAG_SHIFT) 1 - 1"
definition CBS_ASN1_BOOLEAN :: u32 where "CBS_ASN1_BOOLEAN = 0x1"
definition CBS_ASN1_INTEGER :: u32 where "CBS_ASN1_INTEGER = 0x2"
definition CBS_ASN1_OCTETSTRING :: u32 where "CBS_ASN1_OCTETSTRING = 0x4"

lemmas asn1_consts = CBS_ASN1_TAG_SHIFT_def CBS_ASN1_CONSTRUCTED_def CBS_ASN1_TAG_NUMBER_MASK_def
  CBS_ASN1_BOOLEAN_def CBS_ASN1_INTEGER_def CBS_ASN1_OCTETSTRING_def

definition parse_asn1_tag :: "CBS \<Rightarrow> u32 outcome \<times> CBS" where
  "parse_asn1_tag cbs = seq_ok (CBS_get_u8 cbs) (\<lambda>tag_byte s.
     let tag = push_bit CBS_ASN1_TAG_SHIFT (ucast tag_byte AND 0xe0);
         tag_number = ucast (tag_byte AND 0x1f)
     in if tag_number = 0x1f
        then seq_ok (parse_base128_integer s) (\<lambda>v s1.
          if ucast CBS_ASN1_TAG_NUMBER_MASK < v \<or> v < 0x1f then (Fail, s1)
          else (Ok (tag OR ucast v), s1))
        else (Ok (tag OR tag_number), s))"

text \<open>A step on a copy of a \<^verbatim>\<open>CBS\<close>: a failure leaves the original.\<close>

definition on_copy :: "CBS \<Rightarrow> 'a outcome \<times> CBS \<Rightarrow> ('a \<Rightarrow> CBS \<Rightarrow> 'b outcome \<times> CBS) \<Rightarrow> 'b outcome \<times> CBS" where
  "on_copy orig r k = (case r of
      (Ok a, s) \<Rightarrow> k a s | (Fail, _) \<Rightarrow> (Fail, orig) | (Undef, _) \<Rightarrow> (Undef, orig))"

text \<open>
  The result holds the element with its header, the tag, the length of the header and whether the
  encoding is only legal in BER.
\<close>

definition cbs_get_any_asn1_element :: "bool \<Rightarrow> CBS \<Rightarrow> (CBS \<times> u32 \<times> nat \<times> bool) outcome \<times> CBS" where
  "cbs_get_any_asn1_element ber_ok cbs =
     (let element = (\<lambda>len tag header_len ber_found.
        seq_ok (CBS_get_bytes len cbs) (\<lambda>out s. (Ok (out, tag, header_len, ber_found), s)))
      in on_copy cbs (parse_asn1_tag cbs) (\<lambda>tag header.
         on_copy cbs (CBS_get_u8 header) (\<lambda>length_byte header.
           let header_len = CBS_len cbs - CBS_len header
           in if length_byte AND 0x80 = 0
              then element (unat length_byte + header_len) tag header_len False
              else let num_bytes = unat (length_byte AND 0x7f)
                in if ber_ok \<and> tag AND CBS_ASN1_CONSTRUCTED \<noteq> 0 \<and> num_bytes = 0
                   then element header_len tag header_len True
                   else if num_bytes = 0 \<or> 4 < num_bytes then (Fail, cbs)
                   else on_copy cbs (cbs_get_u num_bytes header) (\<lambda>len64 _.
                     if len64 < 128 \<and> \<not> ber_ok then (Fail, cbs)
                     else if drop_bit ((num_bytes - 1) * 8) len64 = 0 \<and> \<not> ber_ok then (Fail, cbs)
                     else if len64 + of_nat header_len + of_nat num_bytes < len64 then (Fail, cbs)
                     else element (unat (len64 + of_nat header_len + of_nat num_bytes)) tag
                            (header_len + num_bytes)
                            (len64 < 128 \<or> drop_bit ((num_bytes - 1) * 8) len64 = 0)))))"

definition CBS_get_any_asn1_element :: "CBS \<Rightarrow> (CBS \<times> u32 \<times> nat) outcome \<times> CBS" where
  "CBS_get_any_asn1_element cbs =
     seq_ok (cbs_get_any_asn1_element False cbs) (\<lambda>(out, tag, header_len, _) s. (Ok (out, tag, header_len), s))"

definition CBS_get_any_ber_asn1_element :: "CBS \<Rightarrow> (CBS \<times> u32 \<times> nat \<times> bool) outcome \<times> CBS" where
  "CBS_get_any_ber_asn1_element cbs = cbs_get_any_asn1_element True cbs"

text \<open>The failed skip that the sources assert not to happen is \<open>Undef\<close>.\<close>

definition skip_asserted :: "nat \<Rightarrow> CBS \<Rightarrow> CBS outcome" where
  "skip_asserted n out = (case CBS_skip n out of (Ok _, out1) \<Rightarrow> Ok out1 | _ \<Rightarrow> Undef)"

definition CBS_get_any_asn1 :: "CBS \<Rightarrow> (CBS \<times> u32) outcome \<times> CBS" where
  "CBS_get_any_asn1 cbs = seq_ok (CBS_get_any_asn1_element cbs) (\<lambda>(out, tag, header_len) s.
     seq_ok (skip_asserted header_len out, s) (\<lambda>out1 s. (Ok (out1, tag), s)))"

definition cbs_get_asn1 :: "u32 \<Rightarrow> bool \<Rightarrow> CBS \<Rightarrow> CBS outcome \<times> CBS" where
  "cbs_get_asn1 tag_value skip_header cbs =
     seq_ok (CBS_get_any_asn1_element cbs) (\<lambda>(out, tag, header_len) s.
       if tag \<noteq> tag_value then (Fail, s)
       else if skip_header then (skip_asserted header_len out, s)
       else (Ok out, s))"

definition CBS_get_asn1 :: "u32 \<Rightarrow> CBS \<Rightarrow> CBS outcome \<times> CBS" where
  "CBS_get_asn1 tag_value cbs = cbs_get_asn1 tag_value True cbs"

definition CBS_get_asn1_element :: "u32 \<Rightarrow> CBS \<Rightarrow> CBS outcome \<times> CBS" where
  "CBS_get_asn1_element tag_value cbs = cbs_get_asn1 tag_value False cbs"

definition CBS_peek_asn1_tag :: "u32 \<Rightarrow> CBS \<Rightarrow> bool outcome" where
  "CBS_peek_asn1_tag tag_value cbs =
     (if CBS_len cbs < 1 then Ok False
      else case fst (parse_asn1_tag cbs) of
          Ok actual_tag \<Rightarrow> Ok (tag_value = actual_tag) | Fail \<Rightarrow> Ok False | Undef \<Rightarrow> Undef)"

section \<open>Values of ASN.1\<close>

text \<open>On success the sign is returned.\<close>

definition CBS_is_valid_asn1_integer :: "CBS \<Rightarrow> bool outcome" where
  "CBS_is_valid_asn1_integer cbs = fst (seq_ok (CBS_get_u8 cbs) (\<lambda>first_byte copy.
     let is_negative = (first_byte AND 0x80 \<noteq> 0)
     in case CBS_get_u8 copy of
         (Fail, copy1) \<Rightarrow> (Ok is_negative, copy1)
       | (Undef, copy1) \<Rightarrow> (Undef, copy1)
       | (Ok second_byte, copy1) \<Rightarrow>
           if (first_byte = 0 \<and> second_byte AND 0x80 = 0) \<or>
              (first_byte = 0xff \<and> second_byte AND 0x80 \<noteq> 0)
           then (Fail, copy1) else (Ok is_negative, copy1)))"

definition CBS_is_unsigned_asn1_integer :: "CBS \<Rightarrow> bool outcome" where
  "CBS_is_unsigned_asn1_integer cbs = (case CBS_is_valid_asn1_integer cbs of
      Ok is_negative \<Rightarrow> Ok (\<not> is_negative) | Fail \<Rightarrow> Ok False | Undef \<Rightarrow> Undef)"

fun uint64_loop :: "byte list \<Rightarrow> u64 \<Rightarrow> u64 outcome" where
  "uint64_loop [] out = Ok out"
| "uint64_loop (b # bs) out =
     (if drop_bit 56 out \<noteq> 0 then Fail else uint64_loop bs (push_bit 8 out OR ucast b))"

definition CBS_get_asn1_uint64 :: "CBS \<Rightarrow> u64 outcome \<times> CBS" where
  "CBS_get_asn1_uint64 cbs = seq_ok (CBS_get_asn1 CBS_ASN1_INTEGER cbs) (\<lambda>bytes s.
     case CBS_is_unsigned_asn1_integer bytes of
       Ok True \<Rightarrow> (case cbs_contents bytes of Ok bs \<Rightarrow> (uint64_loop bs 0, s) | _ \<Rightarrow> (Undef, s))
     | Ok False \<Rightarrow> (Fail, s)
     | Fail \<Rightarrow> (Fail, s)
     | Undef \<Rightarrow> (Undef, s))"

text \<open>The union holds the bytes in memory order, the least significant one first on the
  little-endian platforms of the application; the result is the bit pattern of the \<^verbatim>\<open>int64_t\<close>.\<close>

definition CBS_get_asn1_int64 :: "CBS \<Rightarrow> u64 outcome \<times> CBS" where
  "CBS_get_asn1_int64 cbs = seq_ok (CBS_get_asn1 CBS_ASN1_INTEGER cbs) (\<lambda>bytes s.
     case CBS_is_valid_asn1_integer bytes of
       Ok is_negative \<Rightarrow>
         if 8 < CBS_len bytes then (Fail, s)
         else (case cbs_contents bytes of
             Ok bs \<Rightarrow> (Ok (le_word (rev bs @ replicate (8 - length bs) (if is_negative then 0xff else 0))), s)
           | _ \<Rightarrow> (Undef, s))
     | Fail \<Rightarrow> (Fail, s)
     | Undef \<Rightarrow> (Undef, s))"

definition CBS_get_asn1_bool :: "CBS \<Rightarrow> bool outcome \<times> CBS" where
  "CBS_get_asn1_bool cbs = seq_ok (CBS_get_asn1 CBS_ASN1_BOOLEAN cbs) (\<lambda>bytes s.
     if CBS_len bytes \<noteq> 1 then (Fail, s)
     else case CBS_data bytes of
         [] \<Rightarrow> (Undef, s)
       | value # _ \<Rightarrow> if value \<noteq> 0 \<and> value \<noteq> 0xff then (Fail, s) else (Ok (value \<noteq> 0), s))"

text \<open>\<open>None\<close> is an absent element.\<close>

definition CBS_get_optional_asn1 :: "u32 \<Rightarrow> CBS \<Rightarrow> CBS option outcome \<times> CBS" where
  "CBS_get_optional_asn1 tag cbs = (case CBS_peek_asn1_tag tag cbs of
      Ok True \<Rightarrow> seq_ok (CBS_get_asn1 tag cbs) (\<lambda>out s. (Ok (Some out), s))
    | Ok False \<Rightarrow> (Ok None, cbs)
    | Fail \<Rightarrow> (Ok None, cbs)
    | Undef \<Rightarrow> (Undef, cbs))"

text \<open>The child must be used up.\<close>

definition all_of :: "'a outcome \<times> CBS \<Rightarrow> 'a outcome" where
  "all_of r = (case r of
      (Ok a, child) \<Rightarrow> if CBS_len child \<noteq> 0 then Fail else Ok a
    | (Fail, _) \<Rightarrow> Fail | (Undef, _) \<Rightarrow> Undef)"

definition CBS_get_optional_asn1_octet_string :: "u32 \<Rightarrow> CBS \<Rightarrow> (CBS \<times> bool) outcome \<times> CBS" where
  "CBS_get_optional_asn1_octet_string tag cbs = seq_ok (CBS_get_optional_asn1 tag cbs) (\<lambda>child s.
     case child of
       Some c \<Rightarrow> seq_ok (all_of (CBS_get_asn1 CBS_ASN1_OCTETSTRING c), s) (\<lambda>out s. (Ok (out, True), s))
     | None \<Rightarrow> (Ok (CBS_init [] 0, False), s))"

definition CBS_get_optional_asn1_uint64 :: "u32 \<Rightarrow> u64 \<Rightarrow> CBS \<Rightarrow> u64 outcome \<times> CBS" where
  "CBS_get_optional_asn1_uint64 tag default_value cbs = seq_ok (CBS_get_optional_asn1 tag cbs) (\<lambda>child s.
     case child of
       Some c \<Rightarrow> (all_of (CBS_get_asn1_uint64 c), s)
     | None \<Rightarrow> (Ok default_value, s))"

definition CBS_get_optional_asn1_bool :: "u32 \<Rightarrow> bool \<Rightarrow> CBS \<Rightarrow> bool outcome \<times> CBS" where
  "CBS_get_optional_asn1_bool tag default_value cbs = seq_ok (CBS_get_optional_asn1 tag cbs) (\<lambda>child s.
     case child of
       Some c \<Rightarrow> (case CBS_get_asn1 CBS_ASN1_BOOLEAN c of
           (Ok child2, c1) \<Rightarrow>
             if CBS_len child2 \<noteq> 1 \<or> CBS_len c1 \<noteq> 0 then (Fail, s)
             else (case CBS_data child2 of
                 [] \<Rightarrow> (Undef, s)
               | boolean # _ \<Rightarrow> if boolean = 0 then (Ok False, s)
                   else if boolean = 0xff then (Ok True, s) else (Fail, s))
         | (Fail, _) \<Rightarrow> (Fail, s)
         | (Undef, _) \<Rightarrow> (Undef, s))
     | None \<Rightarrow> (Ok default_value, s))"

definition CBS_is_valid_asn1_bitstring :: "CBS \<Rightarrow> bool outcome" where
  "CBS_is_valid_asn1_bitstring cbs = (case CBS_get_u8 cbs of
      (Ok num_unused_bits, s) \<Rightarrow>
        if 7 < num_unused_bits then Ok False
        else if num_unused_bits = 0 then Ok True
        else (case CBS_get_last_u8 s of
            (Ok last_byte, _) \<Rightarrow> Ok (last_byte AND mask (unat num_unused_bits) = 0)
          | (Fail, _) \<Rightarrow> Ok False
          | (Undef, _) \<Rightarrow> Undef)
    | (Fail, _) \<Rightarrow> Ok False
    | (Undef, _) \<Rightarrow> Undef)"

definition CBS_asn1_bitstring_has_bit :: "u32 \<Rightarrow> CBS \<Rightarrow> bool outcome" where
  "CBS_asn1_bitstring_has_bit bit_no cbs = (case CBS_is_valid_asn1_bitstring cbs of
      Ok True \<Rightarrow>
        (let byte_num = unat (drop_bit 3 bit_no + 1); bit_num = unat (7 - (bit_no AND 7))
         in if byte_num < CBS_len cbs
            then if byte_num < length (CBS_data cbs)
                 then Ok ((CBS_data cbs ! byte_num) AND push_bit bit_num 1 \<noteq> 0) else Undef
            else Ok False)
    | Ok False \<Rightarrow> Ok False
    | Fail \<Rightarrow> Ok False
    | Undef \<Rightarrow> Undef)"

end
