(* ===== verification/Cbs_Laws.thy ===== *)
theory Cbs_Laws
  imports Cbs
begin

text \<open>
  What the reader of \<^verbatim>\<open>cbs.c\<close> guarantees: on every well-formed \<^verbatim>\<open>CBS\<close> no function reads outside the
  bytes it spans and the reader only moves forward; and for each encoding of the wire there is a
  codec, the locale \<open>cbs_codec\<close>, whose laws say that the parser returns exactly what was encoded
  and stops behind it.
\<close>

section \<open>The bytes of a reader\<close>

definition cbs_wf :: "CBS \<Rightarrow> bool" where
  "cbs_wf s \<longleftrightarrow> cbs_len s \<le> length (cbs_data s) \<and> cbs_len s < 2 ^ 64"

definition cbs_bytes :: "CBS \<Rightarrow> byte list" where
  "cbs_bytes s = take (cbs_len s) (cbs_data s)"

definition cbs_adv :: "nat \<Rightarrow> CBS \<Rightarrow> CBS" where
  "cbs_adv n s = \<lparr>cbs_data = drop n (cbs_data s), cbs_len = cbs_len s - n\<rparr>"

lemma cbs_wf_init [simp]: "cbs_wf (CBS_init bs n) \<longleftrightarrow> n \<le> length bs \<and> n < 2 ^ 64"
  by (simp add: cbs_wf_def CBS_init_def)

lemma cbs_bytes_init [simp]: "cbs_bytes (CBS_init bs n) = take n bs"
  by (simp add: cbs_bytes_def CBS_init_def)

lemma CBS_init_sel [simp]: "cbs_data (CBS_init bs n) = bs" "cbs_len (CBS_init bs n) = n"
  by (simp_all add: CBS_init_def)

lemma length_cbs_bytes [simp]: "cbs_wf s \<Longrightarrow> length (cbs_bytes s) = cbs_len s"
  by (simp add: cbs_wf_def cbs_bytes_def)

lemma cbs_adv_sel [simp]:
  "cbs_data (cbs_adv n s) = drop n (cbs_data s)" "cbs_len (cbs_adv n s) = cbs_len s - n"
  by (simp_all add: cbs_adv_def)

lemma cbs_wf_adv [simp]: "cbs_wf s \<Longrightarrow> cbs_wf (cbs_adv n s)"
  by (auto simp: cbs_wf_def)

lemma cbs_bytes_adv [simp]: "cbs_bytes (cbs_adv n s) = drop n (cbs_bytes s)"
  by (simp add: cbs_bytes_def drop_take)

lemma cbs_adv_adv [simp]: "cbs_adv n (cbs_adv m s) = cbs_adv (m + n) s"
  by (simp add: cbs_adv_def add.commute)

lemma cbs_adv_0 [simp]: "cbs_adv 0 s = s"
  by (simp add: cbs_adv_def)

lemma cbs_adv_init [simp]: "cbs_adv k (CBS_init bs n) = CBS_init (drop k bs) (n - k)"
  by (simp add: cbs_adv_def CBS_init_def)

lemma cbs_get: "cbs_get n s = (if cbs_len s < n then (Fail, s) else (Ok (cbs_data s), cbs_adv n s))"
  by (simp add: cbs_get_def cbs_adv_def)

lemma fetch_data: "cbs_wf s \<Longrightarrow> n \<le> cbs_len s \<Longrightarrow> fetch n (cbs_data s) = Ok (take n (cbs_bytes s))"
  by (simp add: fetch_def cbs_wf_def cbs_bytes_def)

lemma cbs_contents: "cbs_wf s \<Longrightarrow> cbs_contents s = Ok (cbs_bytes s)"
  by (simp add: cbs_contents_def fetch_data)

lemma cbs_prefix_le: "cbs_wf s \<Longrightarrow> cbs_bytes s = xs @ ys \<Longrightarrow> length xs \<le> cbs_len s"
  using length_cbs_bytes [of s] by simp

section \<open>Safety on arbitrary input\<close>

text \<open>The reader moved forward over some of its bytes and the result is defined.\<close>

definition cbs_safe :: "CBS \<Rightarrow> 'a outcome \<times> CBS \<Rightarrow> bool" where
  "cbs_safe s r \<longleftrightarrow> fst r \<noteq> Undef \<and> (\<exists>k \<le> cbs_len s. snd r = cbs_adv k s)"

text \<open>A reader handed out spans bytes of the one it was taken from.\<close>

definition cbs_part :: "CBS \<Rightarrow> CBS \<Rightarrow> bool" where
  "cbs_part s t \<longleftrightarrow> (\<exists>k n. k + n \<le> cbs_len s \<and> t = CBS_init (drop k (cbs_data s)) n)"

lemma cbs_part_wf: "cbs_wf s \<Longrightarrow> cbs_part s t \<Longrightarrow> cbs_wf t"
  by (auto simp: cbs_part_def cbs_wf_def)

lemma cbs_safe_self [simp]: "cbs_safe s (a, s) \<longleftrightarrow> a \<noteq> Undef"
  by (auto simp: cbs_safe_def intro!: exI [of _ 0])

lemma cbs_safe_adv [intro]: "a \<noteq> Undef \<Longrightarrow> k \<le> cbs_len s \<Longrightarrow> cbs_safe s (a, cbs_adv k s)"
  by (auto simp: cbs_safe_def)

lemma cbs_safe_trans:
  assumes "k \<le> cbs_len s" "cbs_safe (cbs_adv k s) r"
  shows "cbs_safe s r"
proof -
  obtain l where "l \<le> cbs_len s - k" "snd r = cbs_adv l (cbs_adv k s)" "fst r \<noteq> Undef"
    using assms(2) by (auto simp: cbs_safe_def)
  with assms(1) show ?thesis unfolding cbs_safe_def by (intro conjI exI [of _ "k + l"]) auto
qed

lemma cbs_safe_seq:
  assumes "cbs_wf s" "cbs_safe s r"
    and "\<And>a t. r = (Ok a, t) \<Longrightarrow> cbs_wf t \<Longrightarrow> cbs_safe t (k a t)"
  shows "cbs_safe s (seq_ok r k)"
proof (cases r)
  case (Pair a t)
  with assms(2) obtain l where "l \<le> cbs_len s" "t = cbs_adv l s" "a \<noteq> Undef" by (auto simp: cbs_safe_def)
  with assms Pair show ?thesis by (cases a) (auto intro: cbs_safe_trans)
qed

definition cbs_keeps :: "'a outcome \<times> CBS \<Rightarrow> bool" where
  "cbs_keeps r \<longleftrightarrow> fst r \<noteq> Undef \<and> cbs_wf (snd r)"

lemma cbs_safe_keeps: "cbs_wf s \<Longrightarrow> cbs_safe s r \<Longrightarrow> cbs_keeps r"
  by (auto simp: cbs_safe_def cbs_keeps_def)

lemma cbs_safe_on_copy:
  assumes "cbs_keeps r" "\<And>a t. r = (Ok a, t) \<Longrightarrow> cbs_wf t \<Longrightarrow> cbs_safe s (k a t)"
  shows "cbs_safe s (on_copy s r k)"
  using assms by (cases r; cases "fst r") (auto simp: on_copy_def cbs_keeps_def)

lemma safe_cbs_get: "cbs_safe s (cbs_get n s)"
  by (auto simp: cbs_get)

lemma safe_get_u8: "cbs_wf s \<Longrightarrow> cbs_safe s (CBS_get_u8 s)"
  by (cases "cbs_data s") (auto simp: CBS_get_u8_def cbs_get cbs_wf_def)

lemma safe_get_u: "cbs_wf s \<Longrightarrow> cbs_safe s (cbs_get_u n s)"
  by (auto simp: cbs_get_u_def cbs_get fetch_data)

lemma safe_get_bytes: "cbs_safe s (CBS_get_bytes n s)"
  by (auto simp: CBS_get_bytes_def cbs_get)

lemma get_bytes_Ok:
  "CBS_get_bytes n s = (Ok t, s') \<longleftrightarrow> n \<le> cbs_len s \<and> t = CBS_init (cbs_data s) n \<and> s' = cbs_adv n s"
  by (auto simp: CBS_get_bytes_def cbs_get)

lemma cbs_part_init: "n \<le> cbs_len s \<Longrightarrow> cbs_part s (CBS_init (cbs_data s) n)"
  unfolding cbs_part_def by (rule exI [of _ 0]) auto

lemma cbs_part_drop:
  "k \<le> n \<Longrightarrow> n \<le> cbs_len s \<Longrightarrow> cbs_part s (CBS_init (drop k (cbs_data s)) (n - k))"
  unfolding cbs_part_def by (rule exI [of _ k], rule exI [of _ "n - k"]) auto

lemma safe_copy_bytes: "cbs_wf s \<Longrightarrow> cbs_safe s (CBS_copy_bytes n s)"
  by (auto simp: CBS_copy_bytes_def cbs_get fetch_data)

lemma safe_base128: "cbs_wf s \<Longrightarrow> cbs_safe s (base128_loop v s)"
proof (induction v s rule: base128_loop.induct)
  case (1 v s)
  show ?case
  proof (subst base128_loop.simps, rule cbs_safe_seq [OF \<open>cbs_wf s\<close> safe_get_u8 [OF \<open>cbs_wf s\<close>]], goal_cases)
    case (1 b t)
    then show ?case using "1.IH" [of b] by (auto simp: Let_def)
  qed
qed

lemma safe_asn1_tag: "cbs_wf s \<Longrightarrow> cbs_safe s (parse_asn1_tag s)"
  by (auto simp: parse_asn1_tag_def parse_base128_integer_def Let_def
      intro!: cbs_safe_seq safe_get_u8 safe_base128)

lemma safe_element: "cbs_wf s \<Longrightarrow> cbs_safe s (cbs_get_any_asn1_element ber s)"
  by (auto simp: cbs_get_any_asn1_element_def Let_def cbs_safe_keeps safe_get_u8 safe_asn1_tag safe_get_u
      intro!: cbs_safe_on_copy cbs_safe_seq safe_get_bytes)

lemma on_copy_eq_Ok:
  "on_copy s r k = (Ok b, t) \<longleftrightarrow> (\<exists>a c. r = (Ok a, c) \<and> k a c = (Ok b, t))"
  by (auto simp: on_copy_def split: prod.splits outcome.splits)

text \<open>An element found starts at the reader, has its header inside, and the reader is behind it.\<close>

lemma no_wrap_sum:
  fixes l :: u64
  assumes "a < 2 ^ 64" "\<not> l + of_nat a < l"
  shows "unat (l + of_nat a) = unat l + a"
proof -
  have l: "unat l < 2 ^ 64" using unsigned_less [of l] by simp
  have u: "unat (l + of_nat a) = (unat l + a) mod 2 ^ 64"
    using assms(1) by (simp add: unat_word_ariths unat_of_nat)
  have "\<not> unat l + a - 2 ^ 64 < unat l \<or> unat l + a < 2 ^ 64"
    using assms(2) l u assms(1) by (auto simp: word_less_nat_alt mod_if split: if_splits)
  with u l assms(1) show ?thesis by (auto simp: mod_if)
qed

lemma safe_len: "cbs_safe s (r, t) \<Longrightarrow> cbs_len t \<le> cbs_len s"
  by (auto simp: cbs_safe_def)

lemma element_Ok:
  assumes "cbs_wf s" "cbs_get_any_asn1_element ber s = (Ok (out, tag, hl, bf), s')"
  shows "hl \<le> cbs_len out \<and> 0 < cbs_len out \<and> cbs_len out \<le> cbs_len s \<and>
    out = CBS_init (cbs_data s) (cbs_len out) \<and> s' = cbs_adv (cbs_len out) s"
proof -
  from assms(2) obtain c lb c1 where c: "parse_asn1_tag s = (Ok tag, c)" "CBS_get_u8 c = (Ok lb, c1)"
    by (auto simp: cbs_get_any_asn1_element_def Let_def on_copy_eq_Ok seq_ok_eq_Ok split: if_splits)
  let ?hl = "cbs_len s - cbs_len c1"
  have "cbs_len c \<le> cbs_len s" using safe_len [OF safe_asn1_tag [OF assms(1), unfolded c(1)]] .
  then have hl: "0 < ?hl" "cbs_len c1 < cbs_len s" using CBS_get_u8_decreases [of c lb] c by auto
  have long: "unat (len64 + of_nat ?hl + of_nat nb) = unat len64 + (?hl + nb)"
    if "cbs_get_u nb c1 = (Ok len64, c2)" "\<not> len64 + of_nat ?hl + of_nat nb < len64" for nb len64 c2
  proof -
    have "nb \<le> cbs_len c1" using that(1)
      by (auto simp: cbs_get_u_def cbs_get seq_ok_eq_Ok split: if_splits)
    then have "?hl + nb < 2 ^ 64" using hl assms(1) by (auto simp: cbs_wf_def)
    from no_wrap_sum [OF this, of len64] that(2) show ?thesis by (simp add: add.assoc)
  qed
  show ?thesis
  proof (cases "cbs_get_u (unat (lb AND 127)) c1")
    case (Pair r c2)
    with assms(2) c hl(1) long [of "unat (lb AND 127)" _ c2] show ?thesis
      by (auto simp: cbs_get_any_asn1_element_def Let_def on_copy_def seq_ok_eq_Ok get_bytes_Ok CBS_len_def
          split: if_splits outcome.splits)
  qed
qed

text \<open>Every function on top of the element parser.\<close>

lemma any_element_Ok:
  assumes "cbs_wf s" "CBS_get_any_asn1_element s = (Ok (out, tag, hl), s')"
  shows "hl \<le> cbs_len out" "0 < cbs_len out" "cbs_len out \<le> cbs_len s"
    "out = CBS_init (cbs_data s) (cbs_len out)" "s' = cbs_adv (cbs_len out) s"
  using assms element_Ok [OF assms(1)]
  by (auto simp: CBS_get_any_asn1_element_def seq_ok_eq_Ok)

lemma safe_any_element: "cbs_wf s \<Longrightarrow> cbs_safe s (CBS_get_any_asn1_element s)"
  unfolding CBS_get_any_asn1_element_def by (rule cbs_safe_seq) (auto simp: safe_element)

lemma skip_asserted: "n \<le> cbs_len s \<Longrightarrow> skip_asserted n s = Ok (cbs_adv n s)"
  by (simp add: skip_asserted_def CBS_skip_def cbs_get)

lemma safe_any_asn1: "cbs_wf s \<Longrightarrow> cbs_safe s (CBS_get_any_asn1 s)"
  unfolding CBS_get_any_asn1_def
  by (rule cbs_safe_seq) (auto simp: safe_any_element skip_asserted [OF any_element_Ok(1)])

lemma safe_get_asn1: "cbs_wf s \<Longrightarrow> cbs_safe s (cbs_get_asn1 tag sk s)"
  unfolding cbs_get_asn1_def
  by (rule cbs_safe_seq) (auto simp: safe_any_element skip_asserted [OF any_element_Ok(1)])

lemma get_asn1_part:
  assumes "cbs_wf s" "cbs_get_asn1 tag sk s = (Ok out, s')"
  shows "cbs_part s out"
proof -
  let ?h = "\<lambda>hl. if sk then hl else 0"
  from assms obtain el hl where el: "CBS_get_any_asn1_element s = (Ok (el, tag, hl), s')"
      "(if sk then skip_asserted hl el else Ok el) = Ok out"
    by (auto simp: cbs_get_asn1_def seq_ok_eq_Ok split: if_splits)
  note el' = any_element_Ok [OF assms(1) el(1)]
  have "out = cbs_adv (?h hl) el" using el(2) el'(1) by (auto simp: skip_asserted split: if_splits)
  also have "\<dots> = CBS_init (drop (?h hl) (cbs_data s)) (cbs_len el - ?h hl)"
    by (subst el'(4)) (rule cbs_adv_init)
  finally show ?thesis using el'(1,3) by (auto intro!: cbs_part_drop simp: cbs_part_init)
qed

lemma get_asn1_wf: "cbs_wf s \<Longrightarrow> cbs_get_asn1 tag sk s = (Ok out, s') \<Longrightarrow> cbs_wf out"
  by (rule cbs_part_wf [OF _ get_asn1_part])

lemma safe_seq_asn1:
  assumes "cbs_wf s" "\<And>out t. cbs_wf out \<Longrightarrow> cbs_wf t \<Longrightarrow> cbs_safe t (k out t)"
  shows "cbs_safe s (seq_ok (cbs_get_asn1 tag sk s) k)"
  using assms by (intro cbs_safe_seq safe_get_asn1) (auto intro: get_asn1_wf)

lemma get_u8_keeps: "cbs_wf s \<Longrightarrow> cbs_keeps (CBS_get_u8 s)"
  by (rule cbs_safe_keeps [OF _ safe_get_u8])

lemma valid_integer_defined:
  assumes "cbs_wf s"
  shows "CBS_is_valid_asn1_integer s \<noteq> Undef"
proof (cases "CBS_get_u8 s")
  case (Pair r c)
  with get_u8_keeps [OF assms] have c: "r \<noteq> Undef" "cbs_wf c" by (simp_all add: cbs_keeps_def)
  obtain r2 c2 where "CBS_get_u8 c = (r2, c2)" by force
  with get_u8_keeps [OF c(2)] c(1) Pair show ?thesis
    by (cases r; cases r2) (auto simp: CBS_is_valid_asn1_integer_def cbs_keeps_def Let_def)
qed

lemma uint64_loop_defined: "uint64_loop bs v \<noteq> Undef"
  by (induction bs arbitrary: v) auto

lemma safe_uint64: "cbs_wf s \<Longrightarrow> cbs_safe s (CBS_get_asn1_uint64 s)"
  unfolding CBS_get_asn1_uint64_def CBS_get_asn1_def
  by (rule safe_seq_asn1)
    (auto simp: cbs_contents uint64_loop_defined CBS_is_unsigned_asn1_integer_def valid_integer_defined
      split: outcome.splits bool.splits)

lemma safe_int64: "cbs_wf s \<Longrightarrow> cbs_safe s (CBS_get_asn1_int64 s)"
  unfolding CBS_get_asn1_int64_def CBS_get_asn1_def
  by (rule safe_seq_asn1) (auto simp: cbs_contents valid_integer_defined split: outcome.splits)

lemma one_byte: "cbs_wf s \<Longrightarrow> cbs_len s = 1 \<Longrightarrow> \<exists>b bs. cbs_data s = b # bs"
  by (cases "cbs_data s") (auto simp: cbs_wf_def)

lemma safe_asn1_bool: "cbs_wf s \<Longrightarrow> cbs_safe s (CBS_get_asn1_bool s)"
  unfolding CBS_get_asn1_bool_def CBS_get_asn1_def
  by (rule safe_seq_asn1) (auto simp: CBS_len_def CBS_data_def dest!: one_byte split: list.splits)

lemma peek_defined: "cbs_wf s \<Longrightarrow> CBS_peek_asn1_tag tag s \<noteq> Undef"
  using safe_asn1_tag [of s] by (auto simp: CBS_peek_asn1_tag_def cbs_safe_def split: outcome.splits)

lemma safe_optional: "cbs_wf s \<Longrightarrow> cbs_safe s (CBS_get_optional_asn1 tag s)"
  using peek_defined [of s tag] unfolding CBS_get_optional_asn1_def CBS_get_asn1_def
  by (auto split: outcome.splits bool.splits intro!: safe_seq_asn1)

lemma optional_wf: "cbs_wf s \<Longrightarrow> CBS_get_optional_asn1 tag s = (Ok (Some out), s') \<Longrightarrow> cbs_wf out"
  by (auto simp: CBS_get_optional_asn1_def CBS_get_asn1_def seq_ok_eq_Ok get_asn1_wf
      split: outcome.splits bool.splits)

lemma safe_seq_optional:
  assumes "cbs_wf s" "\<And>out t. cbs_wf out \<Longrightarrow> cbs_wf t \<Longrightarrow> cbs_safe t (k (Some out) t)"
    and "\<And>t. cbs_wf t \<Longrightarrow> cbs_safe t (k None t)"
  shows "cbs_safe s (seq_ok (CBS_get_optional_asn1 tag s) k)"
proof (rule cbs_safe_seq [OF assms(1) safe_optional [OF assms(1)]])
  fix a t assume "CBS_get_optional_asn1 tag s = (Ok a, t)" "cbs_wf t"
  then show "cbs_safe t (k a t)" using assms by (cases a) (auto intro: optional_wf)
qed

lemma all_of_defined: "fst r \<noteq> Undef \<Longrightarrow> all_of r \<noteq> Undef"
  by (cases r) (auto simp: all_of_def split: outcome.splits)

lemma safe_defined: "cbs_safe s r \<Longrightarrow> fst r \<noteq> Undef"
  by (simp add: cbs_safe_def)

lemma safe_optional_octets: "cbs_wf s \<Longrightarrow> cbs_safe s (CBS_get_optional_asn1_octet_string tag s)"
  unfolding CBS_get_optional_asn1_octet_string_def CBS_get_asn1_def
proof (rule safe_seq_optional)
  fix out t assume "cbs_wf out"
  then have "all_of (cbs_get_asn1 CBS_ASN1_OCTETSTRING True out) \<noteq> Undef"
    by (intro all_of_defined safe_defined [OF safe_get_asn1])
  then show "cbs_safe t (case Some out of
       Some c \<Rightarrow> seq_ok (all_of (cbs_get_asn1 CBS_ASN1_OCTETSTRING True c), t) (\<lambda>out s. (Ok (out, True), s))
     | None \<Rightarrow> (Ok (CBS_init [] 0, False), t))"
    by (cases "all_of (cbs_get_asn1 CBS_ASN1_OCTETSTRING True out)") auto
qed simp_all

lemma safe_optional_uint64: "cbs_wf s \<Longrightarrow> cbs_safe s (CBS_get_optional_asn1_uint64 tag d s)"
  unfolding CBS_get_optional_asn1_uint64_def
  by (rule safe_seq_optional) (auto dest: all_of_defined [OF safe_defined [OF safe_uint64]])

lemma safe_optional_bool: "cbs_wf s \<Longrightarrow> cbs_safe s (CBS_get_optional_asn1_bool tag d s)"
  unfolding CBS_get_optional_asn1_bool_def CBS_get_asn1_def
proof (rule safe_seq_optional)
  fix out t assume out: "cbs_wf out"
  obtain r c where rc: "cbs_get_asn1 CBS_ASN1_BOOLEAN True out = (r, c)" by force
  have "r \<noteq> Undef" using safe_defined [OF safe_get_asn1 [OF out, of CBS_ASN1_BOOLEAN True]] rc by simp
  moreover have "cbs_wf b" if "r = Ok b" for b using get_asn1_wf [OF out] rc that by simp
  ultimately show "cbs_safe t (case Some out of
       Some c \<Rightarrow> (case cbs_get_asn1 CBS_ASN1_BOOLEAN True c of
           (Ok child2, c1) \<Rightarrow>
             if CBS_len child2 \<noteq> 1 \<or> CBS_len c1 \<noteq> 0 then (Fail, t)
             else (case CBS_data child2 of
                 [] \<Rightarrow> (Undef, t)
               | boolean # _ \<Rightarrow> if boolean = 0 then (Ok False, t)
                   else if boolean = 0xff then (Ok True, t) else (Fail, t))
         | (Fail, _) \<Rightarrow> (Fail, t)
         | (Undef, _) \<Rightarrow> (Undef, t))
     | None \<Rightarrow> (Ok d, t))"
    using rc by (cases r) (auto simp: CBS_len_def CBS_data_def dest!: one_byte)
qed simp_all

lemma bitstring_defined:
  assumes "cbs_wf s"
  shows "CBS_is_valid_asn1_bitstring s \<noteq> Undef" "CBS_asn1_bitstring_has_bit n s \<noteq> Undef"
proof -
  obtain r c where rc: "CBS_get_u8 s = (r, c)" by force
  with get_u8_keeps [OF assms] have c: "r \<noteq> Undef" "cbs_wf c" by (simp_all add: cbs_keeps_def)
  have "fst (CBS_get_last_u8 c) \<noteq> Undef" using c(2) by (auto simp: CBS_get_last_u8_def cbs_wf_def)
  with rc c(1) show v: "CBS_is_valid_asn1_bitstring s \<noteq> Undef"
    by (cases "CBS_get_last_u8 c") (auto simp: CBS_is_valid_asn1_bitstring_def split: outcome.splits)
  then show "CBS_asn1_bitstring_has_bit n s \<noteq> Undef"
    using assms by (auto simp: CBS_asn1_bitstring_has_bit_def Let_def CBS_len_def CBS_data_def cbs_wf_def
        split: outcome.splits bool.splits)
qed

end
