(* ===== verification/Cbs_Safety.thy ===== *)
theory Cbs_Safety
  imports Cbs_Laws
begin

text \<open>
  Memory safety of the reader. A client holds a growing collection of \<^verbatim>\<open>CBS\<close> objects over one buffer:
  it starts with one that spans the buffer, calls functions of \<^verbatim>\<open>cbs.c\<close> on any of them in any order,
  goes on after failures, and keeps every \<^verbatim>\<open>CBS\<close> a call hands out. Whatever the bytes are, no call reads
  outside of the buffer and every \<^verbatim>\<open>CBS\<close> spans a part of it.
\<close>

section \<open>Clients\<close>

datatype cbs_call =
    Skip nat | U8 | U16 | U16le | U24 | U32 | U32le | U64 | U64le | LastU8
  | Bytes nat | Copy nat | U8Prefixed | U16Prefixed | U24Prefixed | UntilFirst byte
  | AnyElement | AnyBerElement | AnyAsn1 | Asn1 u32 | Asn1Element u32 | Peek u32
  | Uint64 | Int64 | Bool | Optional u32 | OptionalOctets u32 | OptionalUint64 u32 u64 | OptionalBool u32 bool
  | ZeroByte | ValidInteger | Unsigned | ValidBits | HasBit u32

text \<open>A call gives the readers it hands out, and the reader it leaves.\<close>

definition no_out :: "'a outcome \<times> CBS \<Rightarrow> CBS list outcome \<times> CBS" where
  "no_out r = seq_ok r (\<lambda>_ s. (Ok [], s))"

definition one_out :: "('a \<Rightarrow> CBS) \<Rightarrow> 'a outcome \<times> CBS \<Rightarrow> CBS list outcome \<times> CBS" where
  "one_out f r = seq_ok r (\<lambda>a s. (Ok [f a], s))"

fun cbs_exec :: "cbs_call \<Rightarrow> CBS \<Rightarrow> CBS list outcome \<times> CBS" where
  "cbs_exec (Skip n) s = no_out (CBS_skip n s)"
| "cbs_exec U8 s = no_out (CBS_get_u8 s)"
| "cbs_exec U16 s = no_out (CBS_get_u16 s)"
| "cbs_exec U16le s = no_out (CBS_get_u16le s)"
| "cbs_exec U24 s = no_out (CBS_get_u24 s)"
| "cbs_exec U32 s = no_out (CBS_get_u32 s)"
| "cbs_exec U32le s = no_out (CBS_get_u32le s)"
| "cbs_exec U64 s = no_out (CBS_get_u64 s)"
| "cbs_exec U64le s = no_out (CBS_get_u64le s)"
| "cbs_exec LastU8 s = no_out (CBS_get_last_u8 s)"
| "cbs_exec (Bytes n) s = one_out (\<lambda>t. t) (CBS_get_bytes n s)"
| "cbs_exec (Copy n) s = no_out (CBS_copy_bytes n s)"
| "cbs_exec U8Prefixed s = one_out (\<lambda>t. t) (CBS_get_u8_length_prefixed s)"
| "cbs_exec U16Prefixed s = one_out (\<lambda>t. t) (CBS_get_u16_length_prefixed s)"
| "cbs_exec U24Prefixed s = one_out (\<lambda>t. t) (CBS_get_u24_length_prefixed s)"
| "cbs_exec (UntilFirst c) s = one_out (\<lambda>t. t) (CBS_get_until_first c s)"
| "cbs_exec AnyElement s = one_out fst (CBS_get_any_asn1_element s)"
| "cbs_exec AnyBerElement s = one_out fst (CBS_get_any_ber_asn1_element s)"
| "cbs_exec AnyAsn1 s = one_out fst (CBS_get_any_asn1 s)"
| "cbs_exec (Asn1 t) s = one_out (\<lambda>t. t) (CBS_get_asn1 t s)"
| "cbs_exec (Asn1Element t) s = one_out (\<lambda>t. t) (CBS_get_asn1_element t s)"
| "cbs_exec (Peek t) s = no_out (CBS_peek_asn1_tag t s, s)"
| "cbs_exec Uint64 s = no_out (CBS_get_asn1_uint64 s)"
| "cbs_exec Int64 s = no_out (CBS_get_asn1_int64 s)"
| "cbs_exec Bool s = no_out (CBS_get_asn1_bool s)"
| "cbs_exec (Optional t) s = seq_ok (CBS_get_optional_asn1 t s) (\<lambda>a s1.
     (Ok (case a of Some c \<Rightarrow> [c] | None \<Rightarrow> []), s1))"
| "cbs_exec (OptionalOctets t) s = seq_ok (CBS_get_optional_asn1_octet_string t s) (\<lambda>(c, present) s1.
     (Ok (if present then [c] else []), s1))"
| "cbs_exec (OptionalUint64 t v) s = no_out (CBS_get_optional_asn1_uint64 t v s)"
| "cbs_exec (OptionalBool t v) s = no_out (CBS_get_optional_asn1_bool t v s)"
| "cbs_exec ZeroByte s = no_out (CBS_contains_zero_byte s, s)"
| "cbs_exec ValidInteger s = no_out (CBS_is_valid_asn1_integer s, s)"
| "cbs_exec Unsigned s = no_out (CBS_is_unsigned_asn1_integer s, s)"
| "cbs_exec ValidBits s = no_out (CBS_is_valid_asn1_bitstring s, s)"
| "cbs_exec (HasBit n) s = no_out (CBS_asn1_bitstring_has_bit n s, s)"

text \<open>A call on reader \<open>i\<close>; \<open>None\<close> is an access outside of the buffer.\<close>

definition cbs_step :: "nat \<times> cbs_call \<Rightarrow> CBS list \<Rightarrow> CBS list option" where
  "cbs_step c rs = (case c of (i, call) \<Rightarrow>
     if length rs \<le> i then Some rs
     else case cbs_exec call (rs ! i) of
         (Ok outs, s) \<Rightarrow> Some (rs[i := s] @ outs)
       | (Fail, s) \<Rightarrow> Some (rs[i := s])
       | (Undef, _) \<Rightarrow> None)"

fun cbs_run :: "(nat \<times> cbs_call) list \<Rightarrow> CBS list \<Rightarrow> CBS list option" where
  "cbs_run [] rs = Some rs"
| "cbs_run (c # cs) rs = (case cbs_step c rs of Some rs1 \<Rightarrow> cbs_run cs rs1 | None \<Rightarrow> None)"

section \<open>Every call stays inside its reader\<close>

text \<open>The outcome is defined, and what is left and what is handed out are parts of the reader.\<close>

definition cbs_inside :: "CBS \<Rightarrow> CBS list outcome \<times> CBS \<Rightarrow> bool" where
  "cbs_inside s r \<longleftrightarrow> fst r \<noteq> Undef \<and> cbs_part s (snd r) \<and> (\<forall>outs. fst r = Ok outs \<longrightarrow> list_all (cbs_part s) outs)"

lemma cbs_part_refl [simp]: "cbs_part s s"
  unfolding cbs_part_def CBS_init_def by (intro exI [of _ 0] exI [of _ "cbs_len s"]) simp

lemma cbs_part_trans: "cbs_part s t \<Longrightarrow> cbs_part t u \<Longrightarrow> cbs_part s u"
proof -
  assume "cbs_part s t" "cbs_part t u"
  then obtain k n l m where "k + n \<le> cbs_len s" "t = CBS_init (drop k (cbs_data s)) n"
      "l + m \<le> cbs_len t" "u = CBS_init (drop l (cbs_data t)) m" by (auto simp: cbs_part_def)
  then have "k + l + m \<le> cbs_len s" "u = CBS_init (drop (k + l) (cbs_data s)) m" by (simp_all add: add.commute)
  then show ?thesis unfolding cbs_part_def by blast
qed

lemma cbs_part_adv: "k \<le> cbs_len s \<Longrightarrow> cbs_part s (cbs_adv k s)"
  unfolding cbs_part_def CBS_init_def cbs_adv_def by (intro exI [of _ k] exI [of _ "cbs_len s - k"]) simp

lemma safe_part: "cbs_safe s r \<Longrightarrow> cbs_part s (snd r)"
  by (auto simp: cbs_safe_def intro: cbs_part_adv)

lemma inside_no_out: "fst r \<noteq> Undef \<Longrightarrow> cbs_part s (snd r) \<Longrightarrow> cbs_inside s (no_out r)"
  by (cases r; cases "fst r") (auto simp: no_out_def cbs_inside_def)

lemma inside_safe: "cbs_safe s r \<Longrightarrow> cbs_inside s (no_out r)"
  by (rule inside_no_out [OF safe_defined safe_part])

lemma inside_one_out:
  assumes "cbs_safe s r" "\<And>a t. r = (Ok a, t) \<Longrightarrow> cbs_part s (f a)"
  shows "cbs_inside s (one_out f r)"
  using assms safe_part [OF assms(1)] safe_defined [OF assms(1)]
  by (cases r; cases "fst r") (auto simp: one_out_def cbs_inside_def)

lemma get_bytes_part: "CBS_get_bytes n s = (Ok t, s') \<Longrightarrow> cbs_part s t"
  by (auto simp: get_bytes_Ok intro: cbs_part_init)

lemma safe_length_prefixed: "cbs_wf s \<Longrightarrow> cbs_safe s (cbs_get_length_prefixed n s)"
  unfolding cbs_get_length_prefixed_def by (intro cbs_safe_seq safe_get_u safe_get_bytes)

lemma length_prefixed_part:
  assumes "cbs_wf s" "cbs_get_length_prefixed n s = (Ok t, s')"
  shows "cbs_part s t"
proof -
  from assms(2) obtain len s1 where s1: "cbs_get_u n s = (Ok len, s1)" "CBS_get_bytes (unat len) s1 = (Ok t, s')"
    by (auto simp: cbs_get_length_prefixed_def seq_ok_eq_Ok)
  have "cbs_part s s1" using safe_part [OF safe_get_u [OF assms(1), of n]] s1(1) by simp
  then show ?thesis using get_bytes_part [OF s1(2)] by (rule cbs_part_trans)
qed

lemma memchr_defined:
  "n \<le> length bs \<Longrightarrow> \<exists>r. OPENSSL_memchr bs c n = Ok r \<and> (\<forall>k. r = Some k \<longrightarrow> k < n)"
  by (induction bs c n rule: OPENSSL_memchr.induct) auto

lemma until_first:
  assumes "cbs_wf s"
  shows "cbs_safe s (CBS_get_until_first c s)" "CBS_get_until_first c s = (Ok t, s') \<Longrightarrow> cbs_part s t"
  using memchr_defined [of "cbs_len s" "cbs_data s" c] assms
  by (auto simp: CBS_get_until_first_def CBS_data_def CBS_len_def cbs_wf_def safe_get_bytes
      split: option.splits intro: get_bytes_part)

lemma element_part:
  "cbs_wf s \<Longrightarrow> cbs_get_any_asn1_element ber s = (Ok (out, tag, hl, bf), s') \<Longrightarrow> cbs_part s out"
  using element_Ok by (metis cbs_part_init)

lemma any_element_part:
  "cbs_wf s \<Longrightarrow> CBS_get_any_asn1_element s = (Ok (out, tag, hl), s') \<Longrightarrow> cbs_part s out"
  by (auto simp: CBS_get_any_asn1_element_def seq_ok_eq_Ok intro: element_part)

lemma any_asn1_part:
  assumes "cbs_wf s" "CBS_get_any_asn1 s = (Ok (out, tag), s')"
  shows "cbs_part s out"
proof -
  from assms(2) obtain el hl where el: "CBS_get_any_asn1_element s = (Ok (el, tag, hl), s')"
      "skip_asserted hl el = Ok out"
    by (auto simp: CBS_get_any_asn1_def seq_ok_eq_Ok)
  note e = any_element_Ok [OF assms(1) el(1)]
  have "out = cbs_adv hl el" using el(2) e(1) by (simp add: skip_asserted)
  then show ?thesis using cbs_part_trans [OF cbs_part_init [OF e(3)]] cbs_part_adv [OF e(1)] e(4) by metis
qed

lemma optional_part: "cbs_wf s \<Longrightarrow> CBS_get_optional_asn1 tag s = (Ok (Some out), s') \<Longrightarrow> cbs_part s out"
  by (auto simp: CBS_get_optional_asn1_def CBS_get_asn1_def seq_ok_eq_Ok get_asn1_part
      split: outcome.splits bool.splits)

lemma optional_octets_part:
  assumes "cbs_wf s" "CBS_get_optional_asn1_octet_string tag s = (Ok (out, True), s')"
  shows "cbs_part s out"
proof -
  from assms(2) obtain c where c: "CBS_get_optional_asn1 tag s = (Ok (Some c), s')"
      "all_of (CBS_get_asn1 CBS_ASN1_OCTETSTRING c) = Ok out"
    by (auto simp: CBS_get_optional_asn1_octet_string_def seq_ok_eq_Ok split: option.splits)
  then obtain c1 where "CBS_get_asn1 CBS_ASN1_OCTETSTRING c = (Ok out, c1)"
    by (auto simp: all_of_def split: prod.splits outcome.splits if_splits)
  then have "cbs_part c out" using get_asn1_part [OF optional_wf [OF assms(1) c(1)]] by (simp add: CBS_get_asn1_def)
  then show ?thesis by (rule cbs_part_trans [OF optional_part [OF assms(1) c(1)]])
qed

lemma safe_map: "cbs_wf s \<Longrightarrow> cbs_safe s r \<Longrightarrow> cbs_safe s (seq_ok r (\<lambda>v t. (Ok (f v), t)))"
  by (rule cbs_safe_seq) auto

lemma safe_integers:
  assumes "cbs_wf s"
  shows "cbs_safe s (CBS_get_u16 s)" "cbs_safe s (CBS_get_u16le s)" "cbs_safe s (CBS_get_u24 s)"
    "cbs_safe s (CBS_get_u32 s)" "cbs_safe s (CBS_get_u32le s)" "cbs_safe s (CBS_get_u64 s)"
    "cbs_safe s (CBS_get_u64le s)" "cbs_safe s (CBS_skip n s)"
  using assms
  by (auto simp: CBS_get_u16_def CBS_get_u16le_def CBS_get_u24_def CBS_get_u32_def CBS_get_u32le_def
      CBS_get_u64_def CBS_get_u64le_def CBS_skip_def intro!: safe_map safe_get_u safe_cbs_get)

lemma last_u8_inside: "cbs_wf s \<Longrightarrow> cbs_inside s (no_out (CBS_get_last_u8 s))"
proof (rule inside_no_out)
  assume wf: "cbs_wf s"
  then show "fst (CBS_get_last_u8 s) \<noteq> Undef" by (auto simp: CBS_get_last_u8_def cbs_wf_def)
  have "cbs_part s (s\<lparr>cbs_len := cbs_len s - 1\<rparr>)"
    unfolding cbs_part_def CBS_init_def by (intro exI [of _ 0] exI [of _ "cbs_len s - 1"]) simp
  then show "cbs_part s (snd (CBS_get_last_u8 s))" by (auto simp: CBS_get_last_u8_def)
qed

lemma optional_inside: "cbs_wf s \<Longrightarrow> cbs_inside s (cbs_exec (Optional t) s)"
  using safe_optional [of s t, THEN safe_part] safe_optional [of s t, THEN safe_defined]
  by (cases "CBS_get_optional_asn1 t s"; cases "fst (CBS_get_optional_asn1 t s)")
    (auto simp: cbs_inside_def optional_part split: option.splits)

lemma optional_octets_inside: "cbs_wf s \<Longrightarrow> cbs_inside s (cbs_exec (OptionalOctets t) s)"
  using safe_optional_octets [of s t, THEN safe_part] safe_optional_octets [of s t, THEN safe_defined]
  by (cases "CBS_get_optional_asn1_octet_string t s"; cases "fst (CBS_get_optional_asn1_octet_string t s)")
    (auto simp: cbs_inside_def optional_octets_part)

lemma questions_defined:
  assumes "cbs_wf s"
  shows "CBS_contains_zero_byte s \<noteq> Undef" "CBS_is_unsigned_asn1_integer s \<noteq> Undef"
  using memchr_defined [of "cbs_len s" "cbs_data s" 0] valid_integer_defined [OF assms] assms
  by (auto simp: CBS_contains_zero_byte_def CBS_is_unsigned_asn1_integer_def cbs_wf_def split: outcome.splits)

lemma exec_inside:
  assumes "cbs_wf s"
  shows "cbs_inside s (cbs_exec call s)"
proof (cases call)
  case LastU8 then show ?thesis using last_u8_inside [OF assms] by simp
next case (Optional t) then show ?thesis using optional_inside [OF assms] by simp
next case (OptionalOctets t) then show ?thesis using optional_octets_inside [OF assms] by simp
qed (use assms in \<open>auto simp: CBS_get_u8_length_prefixed_def CBS_get_u16_length_prefixed_def
    CBS_get_u24_length_prefixed_def CBS_get_any_ber_asn1_element_def CBS_get_asn1_def CBS_get_asn1_element_def
    safe_integers safe_get_u8 safe_get_bytes safe_copy_bytes safe_length_prefixed until_first(1) safe_any_element
    safe_element safe_any_asn1 safe_get_asn1 safe_uint64 safe_int64 safe_asn1_bool safe_optional_uint64
    safe_optional_bool peek_defined valid_integer_defined questions_defined bitstring_defined
    intro!: inside_safe inside_one_out
    intro: inside_no_out get_bytes_part length_prefixed_part until_first(2) element_part any_asn1_part get_asn1_part
      any_element_part\<close>)

section \<open>Runs\<close>

lemma step_inside:
  assumes "cbs_wf s" "list_all (cbs_part s) rs"
  shows "\<exists>rs'. cbs_step c rs = Some rs' \<and> list_all (cbs_part s) rs'"
proof (cases c)
  case (Pair i call)
  show ?thesis
  proof (cases "i < length rs")
    case True
    then have p: "cbs_part s (rs ! i)" using assms(2) by (simp add: list_all_length)
    obtain r t where rt: "cbs_exec call (rs ! i) = (r, t)" by force
    have "cbs_inside (rs ! i) (r, t)" using exec_inside [OF cbs_part_wf [OF assms(1) p], of call] rt by simp
    then have d: "r \<noteq> Undef" and t: "cbs_part s t"
        and o: "\<And>outs. r = Ok outs \<Longrightarrow> list_all (cbs_part s) outs"
      using cbs_part_trans [OF p] by (auto simp: cbs_inside_def list_all_iff)
    have u: "list_all (cbs_part s) (rs[i := t])"
      using assms(2) t by (auto simp: list_all_iff dest: set_update_subset_insert [THEN subsetD])
    show ?thesis using True d o u by (cases r) (auto simp: Pair cbs_step_def rt)
  qed (use assms(2) in \<open>simp add: Pair cbs_step_def\<close>)
qed

lemma run_inside:
  "cbs_wf s \<Longrightarrow> list_all (cbs_part s) rs \<Longrightarrow> \<exists>rs'. cbs_run cs rs = Some rs' \<and> list_all (cbs_part s) rs'"
proof (induction cs arbitrary: rs)
  case (Cons c cs)
  with step_inside [of s rs c] show ?case by fastforce
qed simp

text \<open>C11: On a buffer with any contents, no sequence of calls of the reader functions on the reader of
  the buffer and the readers handed out on the way reads outside of the buffer, and every reader
  there is at the end spans consecutive bytes of the buffer.\<close>

theorem cbs_memory_safe:
  assumes "len \<le> length buf" "len < 2 ^ 64"
  shows "\<exists>rs. cbs_run calls [CBS_init buf len] = Some rs \<and>
    list_all (\<lambda>r. cbs_data r = drop (length buf - length (cbs_data r)) buf \<and>
      length buf - length (cbs_data r) + cbs_len r \<le> len) rs"
proof -
  let ?s = "CBS_init buf len"
  obtain rs where rs: "cbs_run calls [?s] = Some rs" "list_all (cbs_part ?s) rs"
    using run_inside [of ?s "[?s]" calls] assms by auto
  have "cbs_data r = drop (length buf - length (cbs_data r)) buf \<and>
      length buf - length (cbs_data r) + cbs_len r \<le> len" if part: "cbs_part ?s r" for r
  proof -
    obtain k n where k: "k + n \<le> len" "r = CBS_init (drop k buf) n" using part by (auto simp: cbs_part_def)
    then have "length buf - length (cbs_data r) = k" using assms(1) by simp
    then show ?thesis using k by simp
  qed
  then show ?thesis using rs by (auto simp: list_all_iff)
qed

theorem cbs_memory_safe_witness:
  "\<exists>rs. cbs_run [(0, AnyAsn1), (1, U8), (1, Uint64), (0, U16), (7, U8), (0, LastU8)]
      [CBS_init [0x30, 3, 2, 1, 5, 9] 6] = Some rs \<and>
    list_all (\<lambda>r. cbs_data r = drop (length [0x30, 3, 2, 1, 5, 9 :: byte] - length (cbs_data r)) [0x30, 3, 2, 1, 5, 9] \<and>
      length [0x30, 3, 2, 1, 5, 9 :: byte] - length (cbs_data r) + cbs_len r \<le> 6) rs"
  by (rule cbs_memory_safe) simp_all

end
