(* ===== verification/Cbb.thy ===== *)
theory Cbb
  imports Cbs
begin

text \<open>
  The byte-string builder of BoringSSL (\<^verbatim>\<open>crypto/bytestring/cbb.c\<close>).

  A top-level \<^verbatim>\<open>CBB\<close> and the chain of its open children share one \<^verbatim>\<open>cbb_buffer_st\<close>. The state holds
  that buffer (\<open>None\<close> is a null \<^verbatim>\<open>base\<close>) and the chain as a list, the top-level \<^verbatim>\<open>CBB\<close> first: the child of
  the \<^verbatim>\<open>CBB\<close> at position \<open>d\<close> is the one at position \<open>d + 1\<close>. A \<^verbatim>\<open>CBB *\<close> is its position. A child that was
  flushed has a null \<^verbatim>\<open>base\<close> in the sources; here its position is beyond the chain. \<^verbatim>\<open>CBB_discard_child\<close> takes the
  discarded child and all that hangs below it out of the chain; the descendants of that child keep their
  \<^verbatim>\<open>base\<close> in the sources, and since the documentation forbids to use them again no position stands for them.
  When the buffer is freed only the top-level \<^verbatim>\<open>CBB\<close> gets a null \<^verbatim>\<open>base\<close>: without a buffer the children that are
  left in the chain hold a dangling pointer, and using one is \<open>Undef\<close>. A child that was a local variable of a call
  that failed stays linked after the variable is gone (\<open>cb_gone\<close>); looking at it is \<open>Undef\<close>.
  The answers of the allocator are a list of Booleans, used up one per allocation (after its end
  every allocation succeeds); memory it hands out holds the unspecified byte \<open>cs_fill\<close>. A flush that
  ends in the error of the buffer leaves the child as it was in the model; the sources may have moved its
  offset by one, which no call looks at once the error is set.
\<close>

section \<open>The builder\<close>

record cbb_buffer =
  bb_buf :: "byte list"
  bb_len :: u64
  bb_cap :: u64
  bb_can_resize :: bool
  bb_error :: bool

record CBB =
  cb_offset :: u64
  cb_pending_len_len :: byte
  cb_pending_is_asn1 :: bool
  cb_is_child :: bool
  cb_gone :: bool

record cbb_state =
  cs_base :: "cbb_buffer option"
  cs_chain :: "CBB list"
  cs_mallocs :: "bool list"
  cs_fill :: byte

definition cbb_malloc :: "cbb_state \<Rightarrow> bool \<times> cbb_state" where
  "cbb_malloc st = (case cs_mallocs st of
      [] \<Rightarrow> (True, st) | r # rs \<Rightarrow> (r, st\<lparr>cs_mallocs := rs\<rparr>))"

definition CBB_zero :: "cbb_state \<Rightarrow> cbb_state" where
  "CBB_zero st = st\<lparr>cs_base := None,
     cs_chain := [\<lparr>cb_offset = 0, cb_pending_len_len = 0, cb_pending_is_asn1 = False, cb_is_child = False, cb_gone = False\<rparr>]\<rparr>"

definition cbb_init :: "byte list \<Rightarrow> u64 \<Rightarrow> cbb_state \<Rightarrow> unit outcome \<times> cbb_state" where
  "cbb_init buf cap st = (case cbb_malloc st of
      (True, st1) \<Rightarrow> (Ok (), st1\<lparr>cs_base := Some
         \<lparr>bb_buf = buf, bb_len = 0, bb_cap = cap, bb_can_resize = True, bb_error = False\<rparr>\<rparr>)
    | (False, st1) \<Rightarrow> (Fail, st1))"

definition CBB_init :: "u64 \<Rightarrow> cbb_state \<Rightarrow> unit outcome \<times> cbb_state" where
  "CBB_init initial_capacity st = (case cbb_malloc (CBB_zero st) of
      (r, st1) \<Rightarrow> if 0 < initial_capacity \<and> \<not> r then (Fail, st1)
        else cbb_init (replicate (unat initial_capacity) (cs_fill st)) initial_capacity st1)"

definition CBB_init_fixed :: "byte list \<Rightarrow> u64 \<Rightarrow> cbb_state \<Rightarrow> unit outcome \<times> cbb_state" where
  "CBB_init_fixed buf len st = seq_ok (cbb_init buf len (CBB_zero st)) (\<lambda>_ st1.
     (Ok (), st1\<lparr>cs_base := map_option (\<lambda>b. b\<lparr>bb_can_resize := False\<rparr>) (cs_base st1)\<rparr>))"

text \<open>The assertion that the \<^verbatim>\<open>CBB\<close> is not a child fails (\<open>Undef\<close>), or the buffer is freed and \<^verbatim>\<open>base\<close> of the top-level
  \<^verbatim>\<open>CBB\<close> is null; its children are not told.\<close>

definition CBB_cleanup :: "nat \<Rightarrow> cbb_state \<Rightarrow> unit outcome \<times> cbb_state" where
  "CBB_cleanup d st =
     (if d < length (cs_chain st) \<and> cb_is_child (cs_chain st ! d) then (Undef, st)
      else (Ok (), st\<lparr>cs_base := None\<rparr>))"

text \<open>The sticky error of the buffer.\<close>

definition cbb_fail :: "cbb_state \<Rightarrow> 'a outcome \<times> cbb_state" where
  "cbb_fail st = (Fail, st\<lparr>cs_base := map_option (\<lambda>b. b\<lparr>bb_error := True\<rparr>) (cs_base st)\<rparr>)"

text \<open>The result is the offset of the reserved space in the buffer.\<close>

definition cbb_buffer_reserve :: "u64 \<Rightarrow> cbb_state \<Rightarrow> u64 outcome \<times> cbb_state" where
  "cbb_buffer_reserve len st = (case cs_base st of
      None \<Rightarrow> (Fail, st)
    | Some b \<Rightarrow>
        let newlen = bb_len b + len
        in if newlen < bb_len b then cbb_fail st
           else if bb_cap b < newlen then
             if \<not> bb_can_resize b then cbb_fail st
             else let newcap = bb_cap b * 2;
                      newcap = (if newcap < bb_cap b \<or> newcap < newlen then newlen else newcap)
                  in (case cbb_malloc st of
                       (True, st1) \<Rightarrow> (Ok (bb_len b), st1\<lparr>cs_base := Some (b\<lparr>
                          bb_buf := take (unat newcap) (bb_buf b) @
                            replicate (unat newcap - length (bb_buf b)) (cs_fill st),
                          bb_cap := newcap\<rparr>)\<rparr>)
                     | (False, st1) \<Rightarrow> cbb_fail st1)
           else (Ok (bb_len b), st))"

definition cbb_buffer_add :: "u64 \<Rightarrow> cbb_state \<Rightarrow> u64 outcome \<times> cbb_state" where
  "cbb_buffer_add len st = seq_ok (cbb_buffer_reserve len st) (\<lambda>out st1.
     (Ok out, st1\<lparr>cs_base := map_option (\<lambda>b. b\<lparr>bb_len := bb_len b + len\<rparr>) (cs_base st1)\<rparr>))"

text \<open>Stores into the buffer object.\<close>

definition cbb_poke :: "u64 \<Rightarrow> byte list \<Rightarrow> cbb_state \<Rightarrow> unit outcome \<times> cbb_state" where
  "cbb_poke i data st = (case cs_base st of
      None \<Rightarrow> (Undef, st)
    | Some b \<Rightarrow>
        if unat i + length data \<le> length (bb_buf b)
        then (Ok (), st\<lparr>cs_base := Some (b\<lparr>bb_buf :=
                take (unat i) (bb_buf b) @ data @ drop (unat i + length data) (bb_buf b)\<rparr>)\<rparr>)
        else (Undef, st))"

text \<open>The loop that stores a value from its last byte to its first, and what is left of the value.\<close>

fun store_u :: "nat \<Rightarrow> u64 \<Rightarrow> byte list \<Rightarrow> byte list \<times> u64" where
  "store_u 0 v acc = (acc, v)"
| "store_u (Suc i) v acc = store_u i (drop_bit 8 v) (ucast v # acc)"

definition cbb_buffer_add_u :: "u64 \<Rightarrow> nat \<Rightarrow> cbb_state \<Rightarrow> unit outcome \<times> cbb_state" where
  "cbb_buffer_add_u v len_len st =
     (if len_len = 0 then (Ok (), st)
      else seq_ok (cbb_buffer_add (of_nat len_len) st) (\<lambda>buf st1.
        case store_u len_len v [] of (bytes, v') \<Rightarrow>
          seq_ok (cbb_poke buf bytes st1) (\<lambda>_ st2. if v' \<noteq> 0 then cbb_fail st2 else (Ok (), st2))))"

section \<open>Flushing\<close>

text \<open>
  The second half of \<^verbatim>\<open>CBB_flush\<close>: the pending length prefix of the child of \<open>d\<close> is written. For ASN.1
  the contents are moved along when the length needs more than the one byte kept for it.
\<close>

definition asn1_len_len :: "u64 \<Rightarrow> nat \<times> byte \<times> u64" where
  "asn1_len_len len =
     (if 0xffffff < len then (5, 0x80 OR 4, len)
      else if 0xffff < len then (4, 0x80 OR 3, len)
      else if 0xff < len then (3, 0x80 OR 2, len)
      else if 0x7f < len then (2, 0x80 OR 1, len)
      else (1, ucast len, 0))"

definition cbb_move :: "u64 \<Rightarrow> nat \<Rightarrow> u64 \<Rightarrow> cbb_state \<Rightarrow> unit outcome \<times> cbb_state" where
  "cbb_move from extra len st = (case cs_base st of
      None \<Rightarrow> (Undef, st)
    | Some b \<Rightarrow>
        if length (bb_buf b) < unat from + unat len then (Undef, st)
        else cbb_poke (from + of_nat extra) (take (unat len) (drop (unat from) (bb_buf b))) st)"

definition flush_prefix :: "nat \<Rightarrow> u64 \<Rightarrow> cbb_state \<Rightarrow> unit outcome \<times> cbb_state" where
  "flush_prefix d child_start st = (case cs_base st of
      None \<Rightarrow> (Undef, st)
    | Some b \<Rightarrow>
        let child = cs_chain st ! Suc d;
            len = bb_len b - child_start;
            finish = (\<lambda>offset pending len st.
              case store_u pending len [] of (bytes, len') \<Rightarrow>
                seq_ok (cbb_poke offset bytes st) (\<lambda>_ st1.
                  if len' \<noteq> 0 then cbb_fail st1
                  else (Ok (), st1\<lparr>cs_chain := take (Suc d) (cs_chain st1)\<rparr>)))
        in if cb_pending_is_asn1 child
           then if 0xfffffffe < len then cbb_fail st
                else case asn1_len_len len of (len_len, initial_length_byte, len1) \<Rightarrow>
                  seq_ok
                    (if len_len \<noteq> 1
                     then case cbb_buffer_add (of_nat (len_len - 1)) st of
                         (Ok _, st1) \<Rightarrow> cbb_move child_start (len_len - 1) len st1
                       | (Fail, st1) \<Rightarrow> cbb_fail st1
                       | (Undef, st1) \<Rightarrow> (Undef, st1)
                     else (Ok (), st))
                    (\<lambda>_ st2. seq_ok (cbb_poke (cb_offset child) [initial_length_byte] st2) (\<lambda>_ st3.
                      finish (cb_offset child + 1) (len_len - 1) len1 st3))
           else finish (cb_offset child) (unat (cb_pending_len_len child)) len st)"

function CBB_flush :: "nat \<Rightarrow> cbb_state \<Rightarrow> unit outcome \<times> cbb_state" where
  "CBB_flush d st = (case cs_base st of
      None \<Rightarrow> (if 0 < d \<and> d < length (cs_chain st) then Undef else Fail, st)
    | Some b \<Rightarrow>
        if length (cs_chain st) \<le> d \<or> bb_error b then (Fail, st)
        else if Suc d < length (cs_chain st) \<and> cb_gone (cs_chain st ! Suc d) then (Undef, st)
        else if length (cs_chain st) = Suc d \<or> cb_pending_len_len (cs_chain st ! Suc d) = 0 then (Ok (), st)
        else let child = cs_chain st ! Suc d;
                 child_start = cb_offset child + ucast (cb_pending_len_len child)
             in case CBB_flush (Suc d) st of
                 (Ok _, st1) \<Rightarrow> (case cs_base st1 of
                     None \<Rightarrow> (Undef, st1)
                   | Some b1 \<Rightarrow>
                       if child_start < cb_offset child \<or> bb_len b1 < child_start then cbb_fail st1
                       else flush_prefix d child_start st1)
               | (Fail, st1) \<Rightarrow> cbb_fail st1
               | (Undef, st1) \<Rightarrow> (Undef, st1))"
  by pat_completeness auto
termination
  by (relation "measure (\<lambda>(d, st). length (cs_chain st) - d)") auto

declare CBB_flush.simps [simp del]

text \<open>The results are the buffer and the number of its bytes that were written; \<open>outs\<close> says whether the
  output pointers are given.\<close>

definition CBB_finish :: "bool \<Rightarrow> cbb_state \<Rightarrow> (byte list \<times> u64) outcome \<times> cbb_state" where
  "CBB_finish outs st =
     (if cs_chain st = [] \<or> cb_is_child (hd (cs_chain st)) then (Fail, st)
      else seq_ok (CBB_flush 0 st) (\<lambda>_ st1. case cs_base st1 of
          None \<Rightarrow> (Undef, st1)
        | Some b \<Rightarrow> if bb_can_resize b \<and> \<not> outs then (Fail, st1)
            else seq_ok (CBB_cleanup 0 st1) (\<lambda>_ st2. (Ok (bb_buf b, bb_len b), st2))))"

text \<open>The bytes of the \<^verbatim>\<open>CBB\<close> at \<open>d\<close>, which must have no open child: from behind its length prefix to the end.\<close>

definition CBB_len :: "nat \<Rightarrow> cbb_state \<Rightarrow> u64 outcome" where
  "CBB_len d st = (case cs_base st of
      Some b \<Rightarrow> if length (cs_chain st) = Suc d \<and>
          cb_offset (cs_chain st ! d) + ucast (cb_pending_len_len (cs_chain st ! d)) \<le> bb_len b
        then Ok (bb_len b - cb_offset (cs_chain st ! d) - ucast (cb_pending_len_len (cs_chain st ! d)))
        else Undef
    | None \<Rightarrow> Undef)"

definition CBB_data :: "nat \<Rightarrow> cbb_state \<Rightarrow> byte list outcome" where
  "CBB_data d st = (case cs_base st of
      Some b \<Rightarrow> if length (cs_chain st) = Suc d
        then Ok (drop (unat (cb_offset (cs_chain st ! d) + ucast (cb_pending_len_len (cs_chain st ! d)))) (bb_buf b))
        else Undef
    | None \<Rightarrow> Undef)"

section \<open>Adding\<close>

definition open_child :: "nat \<Rightarrow> u64 \<Rightarrow> byte \<Rightarrow> bool \<Rightarrow> cbb_state \<Rightarrow> cbb_state" where
  "open_child d offset len_len is_asn1 st = st\<lparr>cs_chain := take (Suc d) (cs_chain st) @
     [\<lparr>cb_offset = offset, cb_pending_len_len = len_len, cb_pending_is_asn1 = is_asn1, cb_is_child = True, cb_gone = False\<rparr>]\<rparr>"

definition base_len :: "cbb_state \<Rightarrow> u64" where
  "base_len st = (case cs_base st of Some b \<Rightarrow> bb_len b | None \<Rightarrow> 0)"

definition cbb_add_length_prefixed :: "nat \<Rightarrow> byte \<Rightarrow> cbb_state \<Rightarrow> unit outcome \<times> cbb_state" where
  "cbb_add_length_prefixed d len_len st = seq_ok (CBB_flush d st) (\<lambda>_ st1.
     let offset = base_len st1
     in seq_ok (cbb_buffer_add (ucast len_len) st1) (\<lambda>prefix_bytes st2.
        seq_ok (cbb_poke prefix_bytes (replicate (unat len_len) 0) st2) (\<lambda>_ st3.
          (Ok (), open_child d offset len_len False st3))))"

definition CBB_add_u8_length_prefixed :: "nat \<Rightarrow> cbb_state \<Rightarrow> unit outcome \<times> cbb_state" where
  "CBB_add_u8_length_prefixed d st = cbb_add_length_prefixed d 1 st"

definition CBB_add_u16_length_prefixed :: "nat \<Rightarrow> cbb_state \<Rightarrow> unit outcome \<times> cbb_state" where
  "CBB_add_u16_length_prefixed d st = cbb_add_length_prefixed d 2 st"

definition CBB_add_u24_length_prefixed :: "nat \<Rightarrow> cbb_state \<Rightarrow> unit outcome \<times> cbb_state" where
  "CBB_add_u24_length_prefixed d st = cbb_add_length_prefixed d 3 st"

definition CBB_add_u8 :: "byte \<Rightarrow> nat \<Rightarrow> cbb_state \<Rightarrow> unit outcome \<times> cbb_state" where
  "CBB_add_u8 value d st = seq_ok (CBB_flush d st) (\<lambda>_ st1. cbb_buffer_add_u (ucast value) 1 st1)"

definition CBB_add_u16 :: "u16 \<Rightarrow> nat \<Rightarrow> cbb_state \<Rightarrow> unit outcome \<times> cbb_state" where
  "CBB_add_u16 value d st = seq_ok (CBB_flush d st) (\<lambda>_ st1. cbb_buffer_add_u (ucast value) 2 st1)"

definition CBB_add_u16le :: "u16 \<Rightarrow> nat \<Rightarrow> cbb_state \<Rightarrow> unit outcome \<times> cbb_state" where
  "CBB_add_u16le value d st = CBB_add_u16 (CRYPTO_bswap2 value) d st"

definition CBB_add_u24 :: "u32 \<Rightarrow> nat \<Rightarrow> cbb_state \<Rightarrow> unit outcome \<times> cbb_state" where
  "CBB_add_u24 value d st = seq_ok (CBB_flush d st) (\<lambda>_ st1. cbb_buffer_add_u (ucast value) 3 st1)"

definition CBB_add_u32 :: "u32 \<Rightarrow> nat \<Rightarrow> cbb_state \<Rightarrow> unit outcome \<times> cbb_state" where
  "CBB_add_u32 value d st = seq_ok (CBB_flush d st) (\<lambda>_ st1. cbb_buffer_add_u (ucast value) 4 st1)"

definition CBB_add_u32le :: "u32 \<Rightarrow> nat \<Rightarrow> cbb_state \<Rightarrow> unit outcome \<times> cbb_state" where
  "CBB_add_u32le value d st = CBB_add_u32 (CRYPTO_bswap4 value) d st"

definition CBB_add_u64 :: "u64 \<Rightarrow> nat \<Rightarrow> cbb_state \<Rightarrow> unit outcome \<times> cbb_state" where
  "CBB_add_u64 value d st = seq_ok (CBB_flush d st) (\<lambda>_ st1. cbb_buffer_add_u value 8 st1)"

definition CBB_add_u64le :: "u64 \<Rightarrow> nat \<Rightarrow> cbb_state \<Rightarrow> unit outcome \<times> cbb_state" where
  "CBB_add_u64le value d st = CBB_add_u64 (CRYPTO_bswap8 value) d st"

text \<open>\<^verbatim>\<open>data\<close> points to at least \<^verbatim>\<open>len\<close> bytes.\<close>

definition CBB_add_bytes :: "byte list \<Rightarrow> u64 \<Rightarrow> nat \<Rightarrow> cbb_state \<Rightarrow> unit outcome \<times> cbb_state" where
  "CBB_add_bytes data len d st = seq_ok (CBB_flush d st) (\<lambda>_ st1.
     seq_ok (cbb_buffer_add len st1) (\<lambda>dest st2.
       if length data < unat len then (Undef, st2) else cbb_poke dest (take (unat len) data) st2))"

definition CBB_add_space :: "u64 \<Rightarrow> nat \<Rightarrow> cbb_state \<Rightarrow> u64 outcome \<times> cbb_state" where
  "CBB_add_space len d st = seq_ok (CBB_flush d st) (\<lambda>_ st1. cbb_buffer_add len st1)"

definition CBB_add_zeros :: "u64 \<Rightarrow> nat \<Rightarrow> cbb_state \<Rightarrow> unit outcome \<times> cbb_state" where
  "CBB_add_zeros len d st = seq_ok (CBB_add_space len d st) (\<lambda>out st1.
     cbb_poke out (replicate (unat len) 0) st1)"

definition CBB_reserve :: "u64 \<Rightarrow> nat \<Rightarrow> cbb_state \<Rightarrow> u64 outcome \<times> cbb_state" where
  "CBB_reserve len d st = seq_ok (CBB_flush d st) (\<lambda>_ st1. cbb_buffer_reserve len st1)"

definition CBB_did_write :: "u64 \<Rightarrow> nat \<Rightarrow> cbb_state \<Rightarrow> unit outcome \<times> cbb_state" where
  "CBB_did_write len d st = (case cs_base st of
      None \<Rightarrow> (Undef, st)
    | Some b \<Rightarrow>
        let newlen = bb_len b + len
        in if length (cs_chain st) \<le> d then (Undef, st)
           else if Suc d < length (cs_chain st) \<or> newlen < bb_len b \<or> bb_cap b < newlen then (Fail, st)
           else (Ok (), st\<lparr>cs_base := Some (b\<lparr>bb_len := newlen\<rparr>)\<rparr>))"

text \<open>Nothing is tested but the child: a null or dangling \<^verbatim>\<open>base\<close> and a child that is gone are used as they are.\<close>

definition CBB_discard_child :: "nat \<Rightarrow> cbb_state \<Rightarrow> unit outcome \<times> cbb_state" where
  "CBB_discard_child d st =
     (if length (cs_chain st) \<le> Suc d then (Ok (), st)
      else case cs_base st of
          None \<Rightarrow> (Undef, st)
        | Some b \<Rightarrow> if cb_gone (cs_chain st ! Suc d) then (Undef, st) else (Ok (), st\<lparr>cs_base := Some (b\<lparr>bb_len := cb_offset (cs_chain st ! Suc d)\<rparr>),
              cs_chain := take (Suc d) (cs_chain st)\<rparr>))"

section \<open>ASN.1\<close>

function count_groups :: "u64 \<Rightarrow> nat \<Rightarrow> nat" where
  "count_groups copy len_len = (if 0 < copy then count_groups (drop_bit 7 copy) (Suc len_len) else len_len)"
  by pat_completeness auto
termination
proof (relation "measure (\<lambda>(copy, len_len). unat copy)", goal_cases)
  case (2 copy n)
  then have "0 < unat copy" by (simp add: word_less_nat_alt)
  then show ?case unfolding in_measure prod.case unat_drop_bit_div by simp
qed simp

declare count_groups.simps [simp del]

text \<open>The groups from number \<open>i - 1\<close> down to 0.\<close>

fun base128_groups :: "nat \<Rightarrow> u64 \<Rightarrow> nat \<Rightarrow> cbb_state \<Rightarrow> unit outcome \<times> cbb_state" where
  "base128_groups 0 v d st = (Ok (), st)"
| "base128_groups (Suc i) v d st =
     (let byte = ucast (drop_bit (7 * i) v AND 0x7f);
          byte = (if i \<noteq> 0 then byte OR 0x80 else byte)
      in seq_ok (CBB_add_u8 byte d st) (\<lambda>_ st1. base128_groups i v d st1))"

definition add_base128_integer :: "u64 \<Rightarrow> nat \<Rightarrow> cbb_state \<Rightarrow> unit outcome \<times> cbb_state" where
  "add_base128_integer v d st =
     (let len_len = count_groups v 0;
          len_len = (if len_len = 0 then 1 else len_len)
      in base128_groups len_len v d st)"

definition CBB_add_asn1 :: "u32 \<Rightarrow> nat \<Rightarrow> cbb_state \<Rightarrow> unit outcome \<times> cbb_state" where
  "CBB_add_asn1 tag d st = seq_ok (CBB_flush d st) (\<lambda>_ st1.
     let tag_bits = ucast (drop_bit CBS_ASN1_TAG_SHIFT tag) AND 0xe0;
         tag_number = tag AND CBS_ASN1_TAG_NUMBER_MASK
     in seq_ok
         (if 0x1f \<le> tag_number
          then seq_ok (CBB_add_u8 (tag_bits OR 0x1f) d st1) (\<lambda>_ st2. add_base128_integer (ucast tag_number) d st2)
          else CBB_add_u8 (tag_bits OR ucast tag_number) d st1)
         (\<lambda>_ st3. let offset = base_len st3
           in seq_ok (CBB_add_u8 0 d st3) (\<lambda>_ st4. (Ok (), open_child d offset 1 True st4))))"

text \<open>The child of \<open>d\<close> is a local variable of the function: when the function fails, the variable is gone and the
  \<^verbatim>\<open>CBB\<close> at \<open>d\<close> still points to it.\<close>

definition local_child :: "nat \<Rightarrow> 'a outcome \<times> cbb_state \<Rightarrow> 'a outcome \<times> cbb_state" where
  "local_child d r = (case r of
      (Fail, st) \<Rightarrow> (Fail, if Suc d < length (cs_chain st)
        then st\<lparr>cs_chain := (cs_chain st)[Suc d := (cs_chain st ! Suc d)\<lparr>cb_gone := True\<rparr>]\<rparr> else st)
    | r \<Rightarrow> r)"

text \<open>The bytes of an unsigned integer; the Boolean is \<^verbatim>\<open>started\<close>.\<close>

fun uint64_bytes :: "nat list \<Rightarrow> u64 \<Rightarrow> bool \<Rightarrow> nat \<Rightarrow> cbb_state \<Rightarrow> bool outcome \<times> cbb_state" where
  "uint64_bytes [] value started d st = (Ok started, st)"
| "uint64_bytes (i # is) value started d st =
     (let byte = ucast (drop_bit (8 * (7 - i)) value AND 0xff) :: byte
      in if \<not> started \<and> byte = 0 then uint64_bytes is value started d st
         else seq_ok (if \<not> started \<and> byte AND 0x80 \<noteq> 0 then CBB_add_u8 0 d st else (Ok (), st))
           (\<lambda>_ st1. seq_ok (CBB_add_u8 byte d st1) (\<lambda>_ st2. uint64_bytes is value True d st2)))"

definition CBB_add_asn1_uint64 :: "u64 \<Rightarrow> nat \<Rightarrow> cbb_state \<Rightarrow> unit outcome \<times> cbb_state" where
  "CBB_add_asn1_uint64 value d st = seq_ok (CBB_add_asn1 CBS_ASN1_INTEGER d st) (\<lambda>_ st1.
     local_child d (seq_ok (uint64_bytes [0..<8] value False (Suc d) st1) (\<lambda>started st2.
       seq_ok (if \<not> started then CBB_add_u8 0 (Suc d) st2 else (Ok (), st2)) (\<lambda>_ st3. CBB_flush d st3))))"

fun int64_start :: "byte list \<Rightarrow> nat \<Rightarrow> nat" where
  "int64_start bytes 0 = 0"
| "int64_start bytes (Suc k) =
     (if bytes ! Suc k = 0xff \<and> bytes ! k AND 0x80 \<noteq> 0 then int64_start bytes k else Suc k)"

fun int64_bytes :: "byte list \<Rightarrow> nat \<Rightarrow> cbb_state \<Rightarrow> unit outcome \<times> cbb_state" where
  "int64_bytes [] d st = (Ok (), st)"
| "int64_bytes (b # bs) d st = seq_ok (CBB_add_u8 b d st) (\<lambda>_ st1. int64_bytes bs d st1)"

text \<open>The bytes of the union in memory order, from \<^verbatim>\<open>start\<close> down to the first.\<close>

definition CBB_add_asn1_int64 :: "u64 \<Rightarrow> nat \<Rightarrow> cbb_state \<Rightarrow> unit outcome \<times> cbb_state" where
  "CBB_add_asn1_int64 value d st =
     (if 0 \<le> sint value then CBB_add_asn1_uint64 value d st
      else let bytes = le_bytes 8 (unat value); start = int64_start bytes 7
           in seq_ok (CBB_add_asn1 CBS_ASN1_INTEGER d st) (\<lambda>_ st1.
                local_child d
                  (seq_ok (int64_bytes (rev (take (Suc start) bytes)) (Suc d) st1) (\<lambda>_ st2. CBB_flush d st2))))"

definition CBB_add_asn1_octet_string :: "byte list \<Rightarrow> u64 \<Rightarrow> nat \<Rightarrow> cbb_state \<Rightarrow> unit outcome \<times> cbb_state" where
  "CBB_add_asn1_octet_string data data_len d st = seq_ok (CBB_add_asn1 CBS_ASN1_OCTETSTRING d st) (\<lambda>_ st1.
     local_child d (seq_ok (CBB_add_bytes data data_len (Suc d) st1) (\<lambda>_ st2. CBB_flush d st2)))"

definition CBB_add_asn1_bool :: "bool \<Rightarrow> nat \<Rightarrow> cbb_state \<Rightarrow> unit outcome \<times> cbb_state" where
  "CBB_add_asn1_bool value d st = seq_ok (CBB_add_asn1 CBS_ASN1_BOOLEAN d st) (\<lambda>_ st1.
     local_child d (seq_ok (CBB_add_u8 (if value then 0xff else 0) (Suc d) st1) (\<lambda>_ st2. CBB_flush d st2)))"

end
