(* ===== verification/Der.thy ===== *)
theory Der
  imports Cbs_Laws
begin

text \<open>
  The encodings of DER as lists of bytes, and the parsers of \<^verbatim>\<open>cbs.c\<close> as their inverses. The locale
  \<open>cbs_codec\<close> states what a parser and an encoding promise each other; from its one law follow
  that the encoding is uniquely decodable, also in sequences, and prefix-free. It is interpreted on
  the integer, length-prefix, tag and element parsers.
\<close>

section \<open>The contract of a codec\<close>

locale cbs_codec =
  fixes get :: "CBS \<Rightarrow> 'a outcome \<times> CBS"
    and put :: "'a \<Rightarrow> byte list"
    and good :: "'a \<Rightarrow> bool"
  assumes get_put: "cbs_wf s \<Longrightarrow> good x \<Longrightarrow> cbs_bytes s = put x @ rest \<Longrightarrow>
      get s = (Ok x, cbs_adv (length (put x)) s)"
    and put_nonempty: "good x \<Longrightarrow> put x \<noteq> []"
begin

lemma get_put_init:
  assumes "good x" "length (put x) + length rest < 2 ^ 64"
  shows "get (CBS_init (put x @ rest) (length (put x) + length rest)) =
    (Ok x, CBS_init rest (length rest))"
proof -
  let ?s = "CBS_init (put x @ rest) (length (put x) + length rest)"
  have "get ?s = (Ok x, cbs_adv (length (put x)) ?s)"
    by (rule get_put [of _ _ rest]) (use assms in simp_all)
  then show ?thesis by simp
qed

lemma prefix_free:
  assumes "good x" "good y" "put x @ r = put y @ q" "length (put x @ r) < 2 ^ 64"
  shows "x = y \<and> r = q"
proof -
  let ?s = "CBS_init (put x @ r) (length (put x @ r))"
  have wf: "cbs_wf ?s" and bs: "cbs_bytes ?s = put x @ r" using assms(4) by simp_all
  have x: "get ?s = (Ok x, cbs_adv (length (put x)) ?s)" by (rule get_put [OF wf assms(1) bs])
  have "get ?s = (Ok y, cbs_adv (length (put y)) ?s)"
    by (rule get_put [OF wf assms(2) trans [OF bs assms(3)]])
  then have "x = y" unfolding x by (simp only: prod.inject outcome.inject)
  with assms(3) show ?thesis by simp
qed

lemma concat_unique:
  assumes "concat (map put xs) = concat (map put ys)" "\<forall>x \<in> set xs. good x" "\<forall>y \<in> set ys. good y"
    and "length (concat (map put xs)) < 2 ^ 64"
  shows "xs = ys"
  using assms
proof (induction xs arbitrary: ys)
  case Nil
  then show ?case using put_nonempty by (cases ys) auto
next
  case (Cons x xs)
  then obtain y ys' where ys: "ys = y # ys'" using put_nonempty by (cases ys) auto
  have "x = y \<and> concat (map put xs) = concat (map put ys')"
    by (rule prefix_free) (use Cons.prems ys in simp_all)
  with Cons ys show ?case by simp
qed

end

section \<open>Integers of fixed width\<close>

lemma get_u_be:
  assumes "cbs_wf s" "cbs_bytes s = be_bytes n v @ rest" "n \<le> 8" "v < 256 ^ n"
  shows "cbs_get_u n s = (Ok (of_nat v), cbs_adv n s)"
proof -
  have n: "n \<le> cbs_len s" using cbs_prefix_le [OF assms(1,2)] by simp
  have "unat (foldl (\<lambda>r (b :: byte). push_bit 8 r OR ucast b) (0 :: u64) (be_bytes n v)) = v"
    using assms(3,4) by (subst unat_foldl_be) (simp_all add: be_value_be_bytes)
  then have "foldl (\<lambda>r (b :: byte). push_bit 8 r OR ucast b) (0 :: u64) (be_bytes n v) = of_nat v"
    by (rule unat_eq_of_nat)
  with n assms show ?thesis by (simp add: cbs_get_u_def cbs_get fetch_data)
qed

lemma get_u8_Cons: "cbs_wf s \<Longrightarrow> cbs_bytes s = b # rest \<Longrightarrow> CBS_get_u8 s = (Ok b, cbs_adv 1 s)"
  by (cases "cbs_data s"; cases "cbs_len s")
    (auto simp: CBS_get_u8_def cbs_get cbs_wf_def cbs_bytes_def)

interpretation u8: cbs_codec CBS_get_u8 "\<lambda>b. [b]" "\<lambda>_. True"
  by unfold_locales (auto simp: get_u8_Cons)

lemma get_u_word:
  assumes "cbs_wf s" "cbs_bytes s = be_bytes n (unat (x :: 'a::len word)) @ rest" "n \<le> 8" "LENGTH('a) = 8 * n"
  shows "cbs_get_u n s = (Ok (ucast x), cbs_adv n s)"
  using get_u_be [OF assms(1-3) unat_less_pow256 [OF assms(4)]] by simp

lemmas be_codec = get_u_word get_u_be word_less_nat_alt ucast_up_down

interpretation u16: cbs_codec CBS_get_u16 "\<lambda>v. be_bytes 2 (unat v)" "\<lambda>_. True"
  by unfold_locales (simp_all add: CBS_get_u16_def be_codec)

interpretation u24: cbs_codec CBS_get_u24 "\<lambda>v. be_bytes 3 (unat v)" "\<lambda>v. v < 2 ^ 24"
  by unfold_locales (simp_all add: CBS_get_u24_def be_codec)

interpretation u32: cbs_codec CBS_get_u32 "\<lambda>v. be_bytes 4 (unat v)" "\<lambda>_. True"
  by unfold_locales (simp_all add: CBS_get_u32_def be_codec)

interpretation u64: cbs_codec CBS_get_u64 "\<lambda>v. be_bytes 8 (unat v)" "\<lambda>_. True"
  by unfold_locales (simp_all add: CBS_get_u64_def be_codec)

section \<open>Base-128 integers\<close>

text \<open>The groups before the last, each with the continuation bit; no leading zero group.\<close>

fun b128_high :: "nat \<Rightarrow> byte list" where
  "b128_high n = (if n = 0 then [] else b128_high (n div 128) @ [of_nat (n mod 128 + 128)])"

declare b128_high.simps [simp del]

definition b128 :: "nat \<Rightarrow> byte list" where
  "b128 n = b128_high (n div 128) @ [of_nat (n mod 128)]"

lemma unat_shift7_or:
  fixes v :: u64
  assumes "unat v < 2 ^ 57"
  shows "unat (push_bit 7 v OR ucast ((b :: byte) AND 0x7f)) = unat v * 128 + unat b mod 128"
proof -
  have u: "unat (ucast (b AND 0x7f) :: u64) = unat b mod 128" by (simp add: unat_ucast_up unat_and_127)
  then have "unat (ucast (b AND 0x7f) OR push_bit 7 v) = unat b mod 128 + (unat v * 2 ^ 7) mod 2 ^ LENGTH(64)"
    by (subst unat_or_push_bit) simp_all
  with assms show ?thesis by (simp add: or.commute)
qed

lemma base128_step:
  assumes "cbs_wf s" "cbs_bytes s = b # rest" "unat v < 2 ^ 57" "\<not> (v = 0 \<and> b = 0x80)"
  shows "base128_loop v s =
     (let v' = of_nat (unat v * 128 + unat b mod 128)
      in if 128 \<le> unat b then base128_loop v' (cbs_adv 1 s) else (Ok v', cbs_adv 1 s))"
proof -
  have "unat (drop_bit 57 v) = 0" unfolding unat_drop_bit_div using assms(3) by simp
  then have "drop_bit 57 v = 0" by (simp add: unat_eq_0)
  moreover have "push_bit 7 v OR ucast (b AND 0x7f) = of_nat (unat v * 128 + unat b mod 128)"
    by (rule unat_eq_of_nat) (rule unat_shift7_or [OF assms(3)])
  ultimately show ?thesis using assms
    by (subst base128_loop.simps) (auto simp: get_u8_Cons byte_and_128_eq_0 not_less Let_def simp del: of_nat_add of_nat_mult)
qed

lemma base128_high:
  assumes "cbs_wf s" "cbs_bytes s = b128_high n @ rest" "n < 2 ^ 57"
  shows "base128_loop 0 s = base128_loop (of_nat n) (cbs_adv (length (b128_high n)) s)"
  using assms
proof (induction n arbitrary: rest rule: b128_high.induct)
  case (1 n)
  show ?case
  proof (cases "n = 0")
    case True
    then show ?thesis by (simp add: b128_high.simps)
  next
    case False
    let ?m = "n div 128" and ?b = "of_nat (n mod 128 + 128) :: byte"
    have b: "unat ?b = n mod 128 + 128" by (simp add: unat_of_nat del: of_nat_add)
    have hi: "b128_high n = b128_high ?m @ [?b]" using False by (simp add: b128_high.simps [of n])
    let ?t = "cbs_adv (length (b128_high ?m)) s"
    have "base128_loop 0 s = base128_loop (of_nat ?m) ?t"
      using 1 False hi by (intro "1.IH") auto
    also have "\<dots> = base128_loop (of_nat n) (cbs_adv 1 ?t)"
    proof -
      have m: "unat (of_nat ?m :: u64) = ?m" using "1.prems"(3) by (simp add: unat_of_nat)
      have "\<not> ((of_nat ?m :: u64) = 0 \<and> ?b = 0x80)"
      proof
        assume *: "(of_nat ?m :: u64) = 0 \<and> ?b = 0x80"
        then have "?m = 0" using m by (metis unsigned_0)
        moreover have "n mod 128 = 0" using * b by simp
        ultimately show False using False by simp
      qed
      moreover have "unat (of_nat ?m :: u64) < 2 ^ 57" using m "1.prems"(3) by simp
      ultimately show ?thesis
        using "1.prems" hi base128_step [of ?t ?b rest "of_nat ?m"] m b
        by (simp del: of_nat_add of_nat_mult)
    qed
    finally show ?thesis using hi by simp
  qed
qed

lemma parse_b128:
  assumes "cbs_wf s" "cbs_bytes s = b128 n @ rest" "n < 2 ^ 64"
  shows "parse_base128_integer s = (Ok (of_nat n), cbs_adv (length (b128 n)) s)"
proof -
  let ?m = "n div 128" and ?b = "of_nat (n mod 128) :: byte"
  let ?t = "cbs_adv (length (b128_high ?m)) s"
  have b: "unat ?b = n mod 128" by (simp add: unat_of_nat)
  then have nb: "?b \<noteq> 0x80" by (auto dest!: arg_cong [of _ _ unat])
  have lt: "?m < 2 ^ 57" using assms(3) by (simp add: less_mult_imp_div_less)
  then have m: "unat (of_nat ?m :: u64) = ?m" by (simp add: unat_of_nat)
  have nm: "\<not> 128 \<le> n mod 128" by (simp add: not_le)
  have "base128_loop 0 s = base128_loop (of_nat ?m) ?t"
    by (rule base128_high [OF assms(1) _ lt]) (use assms(2) in \<open>simp add: b128_def\<close>)
  also have "\<dots> = (Ok (of_nat n), cbs_adv 1 ?t)"
    using assms(1,2) base128_step [of ?t ?b rest "of_nat ?m"] m b lt nb nm
    by (simp add: b128_def Let_def del: of_nat_add of_nat_mult)
  finally show ?thesis by (simp add: parse_base128_integer_def b128_def)
qed

interpretation base128: cbs_codec parse_base128_integer "\<lambda>v. b128 (unat v)" "\<lambda>_. True"
proof
  fix s rest and x :: u64
  assume "cbs_wf s" "cbs_bytes s = b128 (unat x) @ rest"
  moreover have "unat x < 2 ^ 64" using unsigned_less [of x] by simp
  ultimately show "parse_base128_integer s = (Ok x, cbs_adv (length (b128 (unat x))) s)"
    using parse_b128 [of s "unat x" rest] by simp
qed (simp add: b128_def)

section \<open>Tags\<close>

text \<open>The three class and constructed bits, and the tag number in low or high form.\<close>

definition tag_bits :: "u32 \<Rightarrow> byte" where
  "tag_bits tag = ucast (drop_bit CBS_ASN1_TAG_SHIFT tag) AND 0xe0"

definition tag_number :: "u32 \<Rightarrow> u32" where
  "tag_number tag = tag AND CBS_ASN1_TAG_NUMBER_MASK"

definition der_tag :: "u32 \<Rightarrow> byte list" where
  "der_tag tag = (if 0x1f \<le> tag_number tag then (tag_bits tag OR 0x1f) # b128 (unat (tag_number tag))
     else [tag_bits tag OR ucast (tag_number tag)])"

lemma tag_number_mask: "tag_number tag = take_bit 29 tag"
proof -
  have "CBS_ASN1_TAG_NUMBER_MASK = mask 29" by (simp add: asn1_consts mask_eq_exp_minus_1)
  then show ?thesis by (simp add: tag_number_def take_bit_eq_mask)
qed

lemma tag_bits_field: "tag_bits tag = push_bit 5 (take_bit 3 (ucast (drop_bit 29 tag)))"
proof -
  have "(0xe0 :: byte) = push_bit 5 (mask 3)" by (simp add: mask_eq_exp_minus_1)
  then show ?thesis unfolding tag_bits_def CBS_ASN1_TAG_SHIFT_def
    by (intro bit_word_eqI) (simp only: bit_simps, auto)
qed

lemma tag_parts: "push_bit CBS_ASN1_TAG_SHIFT (ucast (tag_bits tag)) OR tag_number tag = tag"
  unfolding tag_number_mask tag_bits_field CBS_ASN1_TAG_SHIFT_def
  by (rule bit_word_eqI) (auto simp: bit_simps)

lemma tag_byte_fields:
  fixes x :: byte
  assumes "take_bit 5 x = x"
  shows "(ucast (tag_bits tag OR x) :: u32) AND 0xe0 = ucast (tag_bits tag)"
    and "(tag_bits tag OR x) AND 0x1f = x"
proof -
  have x: "\<not> bit x n" if "5 \<le> n" for n using assms that by (metis bit_take_bit_iff not_le)
  have c: "(0xe0 :: u32) = push_bit 5 (mask 3)" "(0x1f :: byte) = mask 5" by (simp_all add: mask_eq_exp_minus_1)
  show "(ucast (tag_bits tag OR x) :: u32) AND 0xe0 = ucast (tag_bits tag)"
    unfolding c tag_bits_field by (rule bit_word_eqI) (auto simp: bit_simps x)
  show "(tag_bits tag OR x) AND 0x1f = x"
    unfolding c tag_bits_field by (rule bit_word_eqI) (auto simp: bit_simps, use x not_le in blast)
qed

lemma ucast_small: "unat (w :: u32) < 32 \<Longrightarrow> take_bit 5 (ucast w :: byte) = ucast w"
  by (simp only: word_unat_eq_iff unat_take_bit_mod unat_ucast_down) simp

lemma parse_der_tag:
  assumes "cbs_wf s" "cbs_bytes s = der_tag tag @ rest"
  shows "parse_asn1_tag s = (Ok tag, cbs_adv (length (der_tag tag)) s)"
proof (cases "0x1f \<le> tag_number tag")
  case True
  let ?n = "tag_number tag"
  have n: "unat ?n < 2 ^ 29" unfolding tag_number_mask unat_take_bit_mod by simp
  have b: "cbs_bytes s = (tag_bits tag OR 0x1f) # b128 (unat ?n) @ rest"
    using assms(2) True by (simp add: der_tag_def)
  have "take_bit 5 (0x1f :: byte) = 0x1f" by simp
  note f = tag_byte_fields [OF this, of tag]
  have p: "parse_base128_integer (cbs_adv 1 s) =
      (Ok (ucast ?n), cbs_adv (length (b128 (unat ?n))) (cbs_adv 1 s))"
    using parse_b128 [of "cbs_adv 1 s" "unat ?n" rest] assms(1) b n by simp
  have u: "unat (ucast ?n :: u64) = unat ?n" by (simp add: unat_ucast_up)
  have "\<not> (ucast CBS_ASN1_TAG_NUMBER_MASK :: u64) < ucast ?n" "\<not> (ucast ?n :: u64) < 0x1f"
    using n True by (simp_all add: word_less_nat_alt word_le_nat_alt u asn1_consts)
  then show ?thesis using p f tag_parts [of tag] True
    by (simp add: parse_asn1_tag_def get_u8_Cons [OF assms(1) b] Let_def der_tag_def ucast_up_down del: push_bit_and)
next
  case False
  let ?n = "tag_number tag"
  have n: "unat ?n < 31" using False by (simp add: word_le_nat_alt)
  then have "take_bit 5 (ucast ?n :: byte) = ucast ?n" by (intro ucast_small) simp
  note f = tag_byte_fields [OF this, of tag]
  have b: "cbs_bytes s = (tag_bits tag OR ucast ?n) # rest" using assms(2) False by (simp add: der_tag_def)
  have "(ucast (ucast ?n :: byte) :: u32) = ?n"
    using n by (simp add: word_unat_eq_iff unat_ucast_up unat_ucast_down)
  moreover have "?n \<noteq> 0x1f" using n by auto
  ultimately show ?thesis using f tag_parts [of tag] False
    by (simp add: parse_asn1_tag_def get_u8_Cons [OF assms(1) b] Let_def der_tag_def del: push_bit_and)
qed

interpretation tag: cbs_codec parse_asn1_tag der_tag "\<lambda>_. True"
  by unfold_locales (simp_all add: parse_der_tag, simp add: der_tag_def)

section \<open>Elements\<close>

definition len_octets :: "nat \<Rightarrow> nat" where
  "len_octets n = (if n \<le> 0xff then 1 else if n \<le> 0xffff then 2 else if n \<le> 0xffffff then 3 else 4)"

definition der_length :: "nat \<Rightarrow> byte list" where
  "der_length n = (if n \<le> 0x7f then [of_nat n]
     else of_nat (128 + len_octets n) # be_bytes (len_octets n) n)"

definition der_element :: "u32 \<times> byte list \<Rightarrow> byte list" where
  "der_element e = (case e of (tag, c) \<Rightarrow> der_tag tag @ der_length (length c) @ c)"

lemma len_octets_bounds:
  assumes "n < 2 ^ 32"
  shows "0 < len_octets n" "len_octets n \<le> 4" "n < 256 ^ len_octets n"
    "128 \<le> n \<Longrightarrow> 256 ^ (len_octets n - 1) \<le> n"
  using assms by (auto simp: len_octets_def)

lemma der_tag_nonempty [simp]: "der_tag tag \<noteq> []"
  by (simp add: der_tag_def)

lemma der_length_nonempty [simp]: "der_length n \<noteq> []"
  by (simp add: der_length_def)

lemma get_element_short:
  assumes "cbs_wf s" "parse_asn1_tag s = (Ok tag, c)" "CBS_get_u8 c = (Ok lb, c1)" "unat lb < 128"
    and "unat lb + (cbs_len s - cbs_len c1) \<le> cbs_len s"
  shows "cbs_get_any_asn1_element ber s =
    (Ok (CBS_init (cbs_data s) (unat lb + (cbs_len s - cbs_len c1)), tag, cbs_len s - cbs_len c1, False),
     cbs_adv (unat lb + (cbs_len s - cbs_len c1)) s)"
proof -
  have "lb AND 128 = 0" using assms(4) by (simp add: byte_and_128_eq_0)
  moreover have "CBS_get_bytes (unat lb + (cbs_len s - cbs_len c1)) s =
     (Ok (CBS_init (cbs_data s) (unat lb + (cbs_len s - cbs_len c1))), cbs_adv (unat lb + (cbs_len s - cbs_len c1)) s)"
    using assms(5) by (simp add: get_bytes_Ok)
  ultimately show ?thesis using assms(2,3)
    by (simp add: cbs_get_any_asn1_element_def on_copy_def Let_def CBS_len_def)
qed

lemma get_element_long:
  assumes "cbs_wf s" "parse_asn1_tag s = (Ok tag, c)" "CBS_get_u8 c = (Ok lb, c1)" "unat lb = 128 + k"
    and "0 < k" "k \<le> 4" "cbs_get_u k c1 = (Ok (of_nat n), c2)" "128 \<le> n" "256 ^ (k - 1) \<le> n" "n < 2 ^ 32"
    and "hl = cbs_len s - cbs_len c1 + k" "n + hl \<le> cbs_len s"
  shows "cbs_get_any_asn1_element ber s =
    (Ok (CBS_init (cbs_data s) (n + hl), tag, hl, False), cbs_adv (n + hl) s)"
proof -
  let ?n = "of_nat n :: u64"
  have n: "unat ?n = n" using assms(10) by (simp add: unat_of_nat)
  have lb: "lb AND 128 \<noteq> 0" "unat (lb AND 127) = k"
    using assms(4,6) by (simp_all add: byte_and_128_eq_0 unat_and_127)
  have sum: "n + hl < 2 ^ 64" using assms(1,12) by (simp add: cbs_wf_def)
  have w: "?n + of_nat (cbs_len s - cbs_len c1) + of_nat k = of_nat (n + hl)"
    by (simp only: assms(11) of_nat_add add.assoc)
  have tot: "unat (of_nat (n + hl) :: u64) = n + hl" using sum by (simp add: unat_of_nat del: of_nat_add)
  have "\<not> (of_nat (n + hl) :: u64) < ?n" by (simp add: word_less_nat_alt tot n del: of_nat_add)
  moreover have "\<not> ?n < 128" using n assms(8) by (simp add: word_less_nat_alt)
  moreover have "drop_bit ((k - 1) * 8) ?n \<noteq> 0"
  proof
    assume "drop_bit ((k - 1) * 8) ?n = 0"
    then have "n div 2 ^ ((k - 1) * 8) = 0" using n by (metis unat_drop_bit_div unsigned_0)
    then have "n < 256 ^ (k - 1)" by (simp add: pow256 mult.commute div_eq_0_iff)
    with assms(9) show False by simp
  qed
  moreover have "CBS_get_bytes (n + hl) s = (Ok (CBS_init (cbs_data s) (n + hl)), cbs_adv (n + hl) s)"
    using assms(12) by (simp add: get_bytes_Ok)
  ultimately show ?thesis using assms(2,3,5,6,7) lb w tot assms(11)
    by (simp add: cbs_get_any_asn1_element_def on_copy_def Let_def CBS_len_def del: of_nat_add)
qed

text \<open>Any parser mode returns the element, its tag, the length of its header, and no BER finding.\<close>

lemma get_der_element:
  assumes wf: "cbs_wf s" and bs: "cbs_bytes s = der_tag tag @ der_length (length c) @ c @ rest"
    and len: "length c < 2 ^ 32"
  defines "hl \<equiv> length (der_tag tag) + length (der_length (length c))"
  shows "cbs_get_any_asn1_element ber s =
    (Ok (CBS_init (cbs_data s) (length c + hl), tag, hl, False), cbs_adv (length c + hl) s)"
proof -
  let ?c = "cbs_adv (length (der_tag tag)) s" and ?c1 = "cbs_adv (length (der_tag tag) + 1) s"
  have tot: "length c + hl \<le> cbs_len s"
    using length_cbs_bytes [OF wf] bs by (simp add: hl_def)
  have tag: "parse_asn1_tag s = (Ok tag, ?c)" by (rule parse_der_tag [OF wf bs])
  show ?thesis
  proof (cases "length c \<le> 0x7f")
    case True
    then have d: "der_length (length c) = [of_nat (length c)]" by (simp add: der_length_def)
    have "CBS_get_u8 ?c = (Ok (of_nat (length c)), ?c1)"
      using get_u8_Cons [of ?c "of_nat (length c)" "c @ rest"] wf bs d by simp
    moreover have "unat (of_nat (length c) :: byte) = length c" using True by (simp add: unat_of_nat)
    moreover have "cbs_len s - cbs_len ?c1 = hl" using tot d by (simp add: hl_def)
    ultimately show ?thesis
      using get_element_short [OF wf tag, of "of_nat (length c)" ?c1 ber] True tot by simp
  next
    case False
    let ?k = "len_octets (length c)"
    note k = len_octets_bounds [OF len]
    have d: "der_length (length c) = of_nat (128 + ?k) # be_bytes ?k (length c)"
      using False by (simp add: der_length_def)
    have u8: "CBS_get_u8 ?c = (Ok (of_nat (128 + ?k)), ?c1)"
      using get_u8_Cons [of ?c "of_nat (128 + ?k)" "be_bytes ?k (length c) @ c @ rest"] wf bs d by simp
    have "cbs_get_u ?k ?c1 = (Ok (of_nat (length c)), cbs_adv ?k ?c1)"
      by (rule get_u_be [of _ _ _ "c @ rest"]) (use wf bs d k in simp_all)
    moreover have "unat (of_nat (128 + ?k) :: byte) = 128 + ?k"
      using k(2) by (simp add: unat_of_nat del: of_nat_add)
    moreover have "hl = cbs_len s - cbs_len ?c1 + ?k" using tot d by (simp add: hl_def)
    ultimately show ?thesis
      using False k len tot by (intro get_element_long [OF wf tag u8]) simp_all
  qed
qed

text \<open>The parser of the contents, as a value.\<close>

definition get_asn1_value :: "CBS \<Rightarrow> (u32 \<times> byte list) outcome \<times> CBS" where
  "get_asn1_value s = seq_ok (CBS_get_any_asn1 s) (\<lambda>(out, tag) s1.
     seq_ok (cbs_contents out, s1) (\<lambda>bs s2. (Ok (tag, bs), s2)))"

lemma get_any_asn1_der:
  assumes wf: "cbs_wf s" and bs: "cbs_bytes s = der_element (tag, c) @ rest" and len: "length c < 2 ^ 32"
  shows "\<exists>out. CBS_get_any_asn1 s = (Ok (out, tag), cbs_adv (length (der_element (tag, c))) s) \<and>
     cbs_wf out \<and> cbs_bytes out = c"
proof -
  let ?hl = "length (der_tag tag) + length (der_length (length c))"
  have bs': "cbs_bytes s = der_tag tag @ der_length (length c) @ c @ rest" using bs by (simp add: der_element_def)
  have tot: "length c + ?hl \<le> cbs_len s" using length_cbs_bytes [OF wf] bs' by simp
  have el: "CBS_get_any_asn1_element s =
      (Ok (CBS_init (cbs_data s) (length c + ?hl), tag, ?hl), cbs_adv (length c + ?hl) s)"
    using get_der_element [OF wf bs' len, of False] by (simp add: CBS_get_any_asn1_element_def)
  let ?out = "CBS_init (drop ?hl (cbs_data s)) (length c)"
  have sk: "skip_asserted ?hl (CBS_init (cbs_data s) (length c + ?hl)) = Ok ?out"
    by (subst skip_asserted) simp_all
  have wfo: "cbs_wf ?out" using wf tot by (auto simp: cbs_wf_def)
  have "take (length c) (drop ?hl (cbs_data s)) = take (length c) (drop ?hl (cbs_bytes s))"
    using tot by (simp add: cbs_bytes_def drop_take)
  also have "\<dots> = c" unfolding bs' by simp
  finally have "cbs_bytes ?out = c" by simp
  moreover have ln: "length (der_element (tag, c)) = length c + ?hl" by (simp add: der_element_def)
  have "CBS_get_any_asn1 s = (Ok (?out, tag), cbs_adv (length (der_element (tag, c))) s)"
    unfolding CBS_get_any_asn1_def el ln by (simp only: seq_ok_simps prod.case sk)
  ultimately show ?thesis using wfo by blast
qed

interpretation der: cbs_codec get_asn1_value der_element "\<lambda>(tag, c). length c < 2 ^ 32"
proof (unfold_locales, goal_cases)
  case (1 s x rest)
  then obtain tag c where x: "x = (tag, c)" "length c < 2 ^ 32" by auto
  with get_any_asn1_der [of s tag c rest] 1 show ?case
    by (auto simp: get_asn1_value_def cbs_contents)
qed (auto simp: der_element_def)

end
