(* ===== verification/Cbb_Laws.thy ===== *)
theory Cbb_Laws
  imports Cbb Der
begin

text \<open>
  What the builder of \<^verbatim>\<open>cbb.c\<close> guarantees. \<open>cbb_ok\<close> is its invariant, \<open>cbb_out\<close> the bytes built so far,
  and \<open>cbb_room\<close> says that a number of further bytes can be had: the capacity is there, or the buffer
  may grow and the allocator delivers. An operation \<open>extends\<close> the output by the bytes it adds. The
  locale \<open>cbb_writer\<close> is the contract of an operation that writes a value; together with a
  \<open>cbs_codec\<close> it gives the round trip from the builder to the reader.
\<close>

section \<open>The invariant\<close>

definition cbb_ok :: "cbb_state \<Rightarrow> bool" where
  "cbb_ok st \<longleftrightarrow> (\<exists>b. cs_base st = Some b \<and> length (bb_buf b) = unat (bb_cap b) \<and>
     bb_len b \<le> bb_cap b \<and> \<not> bb_error b)"

definition cbb_out :: "cbb_state \<Rightarrow> byte list" where
  "cbb_out st = (case cs_base st of Some b \<Rightarrow> take (unat (bb_len b)) (bb_buf b) | None \<Rightarrow> [])"

definition cbb_room :: "nat \<Rightarrow> cbb_state \<Rightarrow> bool" where
  "cbb_room n st \<longleftrightarrow> (\<exists>b. cs_base st = Some b \<and> unat (bb_len b) + n < 2 ^ 64 \<and>
     (unat (bb_len b) + n \<le> unat (bb_cap b) \<or> bb_can_resize b \<and> cs_mallocs st = []))"

definition extends :: "cbb_state \<Rightarrow> byte list \<Rightarrow> cbb_state \<Rightarrow> bool" where
  "extends st xs st' \<longleftrightarrow> cbb_ok st' \<and> cbb_out st' = cbb_out st @ xs \<and> cs_chain st' = cs_chain st \<and>
     (\<forall>k. cbb_room (length xs + k) st \<longrightarrow> cbb_room k st')"

definition cbb_ready :: "nat \<Rightarrow> cbb_state \<Rightarrow> bool" where
  "cbb_ready d st \<longleftrightarrow> cbb_ok st \<and> length (cs_chain st) = Suc d"

lemma cbb_okE:
  assumes "cbb_ok st"
  obtains b where "cs_base st = Some b" "length (bb_buf b) = unat (bb_cap b)"
    "unat (bb_len b) \<le> unat (bb_cap b)" "\<not> bb_error b" "cbb_out st = take (unat (bb_len b)) (bb_buf b)"
    "length (cbb_out st) = unat (bb_len b)"
  using assms by (auto simp: cbb_ok_def cbb_out_def word_le_nat_alt)

lemma cbb_room_mono: "cbb_room n st \<Longrightarrow> m \<le> n \<Longrightarrow> cbb_room m st"
  by (auto simp: cbb_room_def)

lemma base_len_out: "cbb_ok st \<Longrightarrow> base_len st = of_nat (length (cbb_out st))"
  by (auto simp: base_len_def elim!: cbb_okE)

lemma extends_refl: "cbb_ok st \<Longrightarrow> extends st [] st"
  by (simp add: extends_def)

lemma extends_trans: "extends st xs st1 \<Longrightarrow> extends st1 ys st2 \<Longrightarrow> extends st (xs @ ys) st2"
  by (auto simp: extends_def add.assoc)

lemma extends_ok: "extends st xs st' \<Longrightarrow> cbb_ok st'"
  by (simp add: extends_def)

lemma extends_ready: "extends st xs st' \<Longrightarrow> cbb_ready d st \<Longrightarrow> cbb_ready d st'"
  by (simp add: extends_def cbb_ready_def)

lemma extends_room: "extends st xs st' \<Longrightarrow> cbb_room (length xs + k) st \<Longrightarrow> cbb_room k st'"
  by (simp add: extends_def)

lemma flush_ready: "cbb_ready d st \<Longrightarrow> CBB_flush d st = (Ok (), st)"
  by (subst CBB_flush.simps) (auto simp: cbb_ready_def cbb_ok_def)

section \<open>Space\<close>

lemma unat_add_no_wrap: "unat (a :: u64) + unat b < 2 ^ 64 \<Longrightarrow> unat (a + b) = unat a + unat b"
  by (simp add: unat_word_ariths)

lemma buffer_reserve:
  assumes "cbb_ok st" "cbb_room (unat n) st"
  shows "\<exists>st' b. cbb_buffer_reserve n st = (Ok (of_nat (length (cbb_out st))), st') \<and> extends st [] st' \<and>
     cs_base st' = Some b \<and> unat (bb_len b) + unat n \<le> unat (bb_cap b)"
proof -
  obtain b where b: "cs_base st = Some b" "length (bb_buf b) = unat (bb_cap b)"
      "unat (bb_len b) \<le> unat (bb_cap b)" "\<not> bb_error b" "cbb_out st = take (unat (bb_len b)) (bb_buf b)"
      "length (cbb_out st) = unat (bb_len b)"
    by (rule cbb_okE [OF assms(1)])
  have nw: "unat (bb_len b) + unat n < 2 ^ 64" using assms(2) b(1) by (auto simp: cbb_room_def)
  note new = unat_add_no_wrap [OF nw]
  have p: "of_nat (length (cbb_out st)) = bb_len b" using b(6) by simp
  have nl: "\<not> bb_len b + n < bb_len b" by (simp add: word_less_nat_alt new)
  show ?thesis
  proof (cases "bb_cap b < bb_len b + n")
    case False
    then have "cbb_buffer_reserve n st = (Ok (bb_len b), st)"
      using b(1) nl by (simp add: cbb_buffer_reserve_def)
    with False extends_refl [OF assms(1)] b(1) new p show ?thesis
      by (auto simp: word_less_nat_alt not_less)
  next
    case True
    then have grow: "bb_can_resize b" "cs_mallocs st = []"
      using assms(2) b(1) new by (auto simp: cbb_room_def word_less_nat_alt)
    let ?nc = "if bb_cap b * 2 < bb_cap b \<or> bb_cap b * 2 < bb_len b + n then bb_len b + n else bb_cap b * 2"
    let ?b = "b\<lparr>bb_buf := take (unat ?nc) (bb_buf b) @ replicate (unat ?nc - length (bb_buf b)) (cs_fill st),
      bb_cap := ?nc\<rparr>"
    let ?st = "st\<lparr>cs_base := Some ?b\<rparr>"
    have nc: "unat (bb_len b + n) \<le> unat ?nc" by (auto simp: word_less_nat_alt)
    then have cap: "unat (bb_len b) + unat n \<le> unat ?nc" "unat (bb_cap b) \<le> unat ?nc"
      using new True by (simp_all only: word_less_nat_alt)
    have eq: "cbb_buffer_reserve n st = (Ok (bb_len b), ?st)"
      using b(1) nl True grow by (simp add: cbb_buffer_reserve_def cbb_malloc_def Let_def)
    have "cbb_ok ?st" using b cap by (auto simp: cbb_ok_def word_le_nat_alt)
    moreover have "cbb_out ?st = cbb_out st" using b cap by (simp add: cbb_out_def)
    ultimately have "extends st [] ?st"
      using grow b(1) by (auto simp: extends_def cbb_room_def)
    with eq p cap show ?thesis by (intro exI [of _ ?st] exI [of _ ?b]) simp
  qed
qed

text \<open>New bytes at the end: the space is added and then stored into.\<close>

lemma buffer_append:
  assumes "cbb_ok st" "cbb_room (length xs) st"
  shows "\<exists>st1 st2. cbb_buffer_add (of_nat (length xs)) st = (Ok (of_nat (length (cbb_out st))), st1) \<and>
     cbb_poke (of_nat (length (cbb_out st))) xs st1 = (Ok (), st2) \<and> extends st xs st2"
proof -
  have lt: "length xs < 2 ^ 64" using assms(2) by (auto simp: cbb_room_def)
  then have n: "unat (of_nat (length xs) :: u64) = length xs" by (simp add: unat_of_nat)
  obtain st' b where r: "cbb_buffer_reserve (of_nat (length xs)) st = (Ok (of_nat (length (cbb_out st))), st')"
      "extends st [] st'" and b: "cs_base st' = Some b" "unat (bb_len b) + length xs \<le> unat (bb_cap b)"
    using buffer_reserve [of st "of_nat (length xs)"] assms n by auto
  have ok': "cbb_ok st'" by (rule extends_ok [OF r(2)])
  have b': "length (bb_buf b) = unat (bb_cap b)" "\<not> bb_error b"
      "cbb_out st' = take (unat (bb_len b)) (bb_buf b)" "length (cbb_out st') = unat (bb_len b)"
    by (rule cbb_okE [OF ok'], simp add: b(1))+
  have same: "cbb_out st' = cbb_out st" using r(2) by (simp add: extends_def)
  have p: "unat (of_nat (length (cbb_out st)) :: u64) = unat (bb_len b)" using b'(4) same by simp
  let ?b1 = "b\<lparr>bb_len := bb_len b + of_nat (length xs)\<rparr>"
  let ?b2 = "?b1\<lparr>bb_buf := take (unat (bb_len b)) (bb_buf b) @ xs @ drop (unat (bb_len b) + length xs) (bb_buf b)\<rparr>"
  let ?st1 = "st'\<lparr>cs_base := Some ?b1\<rparr>" and ?st2 = "st'\<lparr>cs_base := Some ?b2\<rparr>"
  have nl: "unat (bb_len b + of_nat (length xs)) = unat (bb_len b) + length xs"
  proof -
    have "unat (bb_cap b) < 2 ^ 64" using unsigned_less [of "bb_cap b"] by simp
    then show ?thesis using b(2) n unat_add_no_wrap [of "bb_len b" "of_nat (length xs)"] by simp
  qed
  have "cbb_buffer_add (of_nat (length xs)) st = (Ok (of_nat (length (cbb_out st))), ?st1)"
    using r(1) b(1) by (simp add: cbb_buffer_add_def)
  moreover have "cbb_poke (of_nat (length (cbb_out st))) xs ?st1 = (Ok (), ?st2)"
    using b(2) b'(1) by (simp add: cbb_poke_def p)
  moreover have "extends st xs ?st2"
  proof -
    have "cbb_ok ?st2" using b b' nl by (auto simp: cbb_ok_def word_le_nat_alt)
    moreover have "cbb_out ?st2 = take (unat (bb_len b)) (bb_buf b) @ xs"
      using b(2) b'(1) nl by (simp add: cbb_out_def)
    then have "cbb_out ?st2 = cbb_out st @ xs" unfolding b'(3) [symmetric] same .
    moreover have "cbb_room k ?st2" if "cbb_room (length xs + k) st" for k
      using extends_room [OF r(2), of "length xs + k"] that b(1) nl
      by (auto simp: cbb_room_def add.assoc)
    ultimately show ?thesis using r(2) by (simp add: extends_def)
  qed
  ultimately show ?thesis by blast
qed

lemma store_u: "store_u n v acc = (be_bytes n (unat v) @ acc, drop_bit (8 * n) v)"
proof (induction n arbitrary: v acc)
  case (Suc n)
  have "unat (drop_bit 8 v) = unat v div 256" unfolding unat_drop_bit_div by simp
  moreover have "drop_bit (8 * n) (drop_bit 8 v) = drop_bit (8 + 8 * n) v" by (simp only: drop_bit_drop_bit add.commute)
  ultimately show ?case using Suc by (simp add: be_bytes_Suc)
qed simp

lemma buffer_add_u:
  assumes "cbb_ok st" "cbb_room n st" "unat v < 256 ^ n"
  shows "\<exists>st'. cbb_buffer_add_u v n st = (Ok (), st') \<and> extends st (be_bytes n (unat v)) st'"
proof (cases "n = 0")
  case True
  then show ?thesis using extends_refl [OF assms(1)] by (simp add: cbb_buffer_add_u_def)
next
  case False
  have "unat (drop_bit (8 * n) v) = 0"
    unfolding unat_drop_bit_div using assms(3) by (simp add: pow256)
  then have "drop_bit (8 * n) v = 0" by (simp add: unat_eq_0)
  with False show ?thesis
    using buffer_append [of st "be_bytes n (unat v)"] assms(1,2)
    by (auto simp: cbb_buffer_add_u_def store_u)
qed

section \<open>The contract of a writer\<close>

locale cbb_writer =
  fixes op :: "'a \<Rightarrow> nat \<Rightarrow> cbb_state \<Rightarrow> unit outcome \<times> cbb_state"
    and put :: "'a \<Rightarrow> byte list"
    and good :: "'a \<Rightarrow> bool"
  assumes op_extends: "good x \<Longrightarrow> cbb_ready d st \<Longrightarrow> cbb_room (length (put x)) st \<Longrightarrow>
      \<exists>st'. op x d st = (Ok (), st') \<and> extends st (put x) st'"
begin

lemma op_then:
  assumes "good x" "cbb_ready d st" "cbb_room (length (put x) + n) st"
  obtains st' where "op x d st = (Ok (), st')" "extends st (put x) st'" "cbb_ready d st'" "cbb_room n st'"
  using op_extends [OF assms(1,2)] cbb_room_mono [OF assms(3)] extends_ready extends_room assms(2,3)
  by (metis le_add1)

end

interpretation wu8: cbb_writer CBB_add_u8 "\<lambda>b. [b]" "\<lambda>_. True"
proof
  fix b :: byte and d st assume "cbb_ready d st" "cbb_room (length [b]) st"
  moreover have "unat (ucast b :: u64) = unat b" by (simp add: unat_ucast_up)
  moreover have "be_bytes 1 (unat b) = [b]" by (simp add: be_bytes_def)
  ultimately show "\<exists>st'. CBB_add_u8 b d st = (Ok (), st') \<and> extends st [b] st'"
    using buffer_add_u [of st 1 "ucast b"] by (simp add: CBB_add_u8_def flush_ready cbb_ready_def)
qed

lemma add_u_writer:
  assumes "cbb_ready d st" "cbb_room n st" "unat v < 256 ^ n"
  shows "\<exists>st'. seq_ok (CBB_flush d st) (\<lambda>_ st1. cbb_buffer_add_u v n st1) = (Ok (), st') \<and>
     extends st (be_bytes n (unat v)) st'"
  using buffer_add_u [of st n v] assms by (simp add: flush_ready cbb_ready_def)

interpretation wu16: cbb_writer CBB_add_u16 "\<lambda>v. be_bytes 2 (unat v)" "\<lambda>_. True"
proof
  fix v :: u16 and d st assume "cbb_ready d st" "cbb_room (length (be_bytes 2 (unat v))) st"
  then show "\<exists>st'. CBB_add_u16 v d st = (Ok (), st') \<and> extends st (be_bytes 2 (unat v)) st'"
    using add_u_writer [of d st 2 "ucast v"] unat_less_pow256 [of 2 v]
    by (simp add: CBB_add_u16_def unat_ucast_up)
qed

interpretation wu24: cbb_writer CBB_add_u24 "\<lambda>v. be_bytes 3 (unat v)" "\<lambda>v. v < 2 ^ 24"
proof
  fix v :: u32 and d st
  assume "v < 2 ^ 24" "cbb_ready d st" "cbb_room (length (be_bytes 3 (unat v))) st"
  then show "\<exists>st'. CBB_add_u24 v d st = (Ok (), st') \<and> extends st (be_bytes 3 (unat v)) st'"
    using add_u_writer [of d st 3 "ucast v"]
    by (simp add: CBB_add_u24_def unat_ucast_up word_less_nat_alt)
qed

interpretation wu32: cbb_writer CBB_add_u32 "\<lambda>v. be_bytes 4 (unat v)" "\<lambda>_. True"
proof
  fix v :: u32 and d st assume "cbb_ready d st" "cbb_room (length (be_bytes 4 (unat v))) st"
  then show "\<exists>st'. CBB_add_u32 v d st = (Ok (), st') \<and> extends st (be_bytes 4 (unat v)) st'"
    using add_u_writer [of d st 4 "ucast v"] unat_less_pow256 [of 4 v]
    by (simp add: CBB_add_u32_def unat_ucast_up)
qed

interpretation wu64: cbb_writer CBB_add_u64 "\<lambda>v. be_bytes 8 (unat v)" "\<lambda>_. True"
proof
  fix v :: u64 and d st assume "cbb_ready d st" "cbb_room (length (be_bytes 8 (unat v))) st"
  then show "\<exists>st'. CBB_add_u64 v d st = (Ok (), st') \<and> extends st (be_bytes 8 (unat v)) st'"
    using add_u_writer [of d st 8 v] unat_less_pow256 [of 8 v]
    by (simp add: CBB_add_u64_def)
qed

interpretation wbytes: cbb_writer "\<lambda>bs. CBB_add_bytes bs (of_nat (length bs))" "\<lambda>bs. bs" "\<lambda>_. True"
proof
  fix bs :: "byte list" and d st assume *: "cbb_ready d st" "cbb_room (length bs) st"
  then have "length bs < 2 ^ 64" by (auto simp: cbb_room_def)
  then have "unat (of_nat (length bs) :: u64) = length bs" by (simp add: unat_of_nat)
  with buffer_append [of st bs] *
  show "\<exists>st'. CBB_add_bytes bs (of_nat (length bs)) d st = (Ok (), st') \<and> extends st bs st'"
    by (auto simp: CBB_add_bytes_def flush_ready cbb_ready_def)
qed

section \<open>Base-128 integers\<close>

lemma length_b128_high: "length (b128_high n) = count_groups (of_nat n) 0" if "n < 2 ^ 64"
  using that
proof -
  have "count_groups (of_nat n) k = length (b128_high n) + k" if "n < 2 ^ 64" for k
    using that
  proof (induction n arbitrary: k rule: b128_high.induct)
    case (1 n)
    have u: "unat (of_nat n :: u64) = n" using "1.prems" by (simp add: unat_of_nat)
    have "unat (drop_bit 7 (of_nat n :: u64)) = n div 128" unfolding unat_drop_bit_div u by simp
    then have dr: "drop_bit 7 (of_nat n :: u64) = of_nat (n div 128)" by (rule unat_eq_of_nat)
    show ?case
    proof (cases "n = 0")
      case False
      then have "0 < (of_nat n :: u64)" using u by (simp add: word_less_nat_alt)
      with False 1 dr show ?thesis
        by (subst count_groups.simps) (simp add: b128_high.simps [of n] div_less_dividend)
    qed (simp add: count_groups.simps b128_high.simps)
  qed
  with that show ?thesis by simp
qed

text \<open>The groups of a value with the continuation bit, from the highest of \<open>i\<close> down.\<close>

definition groups :: "nat \<Rightarrow> nat \<Rightarrow> byte list" where
  "groups i n = map (\<lambda>j. of_nat (n div 128 ^ j mod 128 + 128)) (rev [0..<i])"

lemma groups_Suc: "groups (Suc i) n = groups i (n div 128) @ [of_nat (n mod 128 + 128)]"
proof -
  have "[0..<Suc i] = 0 # map Suc [0..<i]" by (simp add: map_Suc_upt upt_conv_Cons del: upt_Suc)
  then have "rev [0..<Suc i] = map Suc (rev [0..<i]) @ [0]" by (simp only: rev.simps rev_map)
  then show ?thesis unfolding groups_def by (simp add: div_mult2_eq del: upt_Suc)
qed

lemma b128_high_groups: "b128_high n = groups (length (b128_high n)) n"
proof (induction n rule: b128_high.induct)
  case (1 n)
  show ?case
  proof (cases "n = 0")
    case True
    then show ?thesis by (simp add: b128_high.simps groups_def)
  next
    case False
    then have h: "b128_high n = b128_high (n div 128) @ [of_nat (n mod 128 + 128)]"
      by (simp add: b128_high.simps [of n])
    show ?thesis unfolding h length_append using 1 False groups_Suc by simp
  qed
qed

lemma base128_groups_writes:
  assumes "cbb_ready d st" "cbb_room (Suc i) st"
  shows "\<exists>st'. base128_groups (Suc i) v d st = (Ok (), st') \<and>
     extends st (groups i (unat v div 128) @ [of_nat (unat v mod 128)]) st'"
  using assms
proof (induction i arbitrary: st)
  case 0
  have "ucast (v AND 0x7f) = (of_nat (unat v mod 128) :: byte)" by (rule low7_byte)
  with 0 wu8.op_extends [of d st "of_nat (unat v mod 128)"] show ?case
    by (auto simp: groups_def)
next
  case (Suc i)
  let ?b = "of_nat (unat v div 128 ^ Suc i mod 128 + 128) :: byte"
  have "unat (drop_bit (7 * Suc i) v) = unat v div 128 ^ Suc i"
    unfolding unat_drop_bit_div power_mult by simp
  then have b: "ucast (drop_bit (7 * Suc i) v AND 0x7f) OR 0x80 = ?b" by (simp only: varint_byte)
  obtain st1 where st1: "CBB_add_u8 ?b d st = (Ok (), st1)" "extends st [?b] st1" "cbb_ready d st1"
      "cbb_room (Suc i) st1"
    using wu8.op_then [of d st ?b "Suc i"] Suc.prems by auto
  obtain st' where st': "base128_groups (Suc i) v d st1 = (Ok (), st')"
      "extends st1 (groups i (unat v div 128) @ [of_nat (unat v mod 128)]) st'"
    using Suc.IH [OF st1(3,4)] by blast
  have "groups (Suc i) (unat v div 128) = ?b # groups i (unat v div 128)"
    by (simp add: groups_def div_mult2_eq del: of_nat_add)
  then have "extends st (groups (Suc i) (unat v div 128) @ [of_nat (unat v mod 128)]) st'"
    using extends_trans [OF st1(2) st'(2)] by simp
  moreover have "base128_groups (Suc (Suc i)) v d st = (Ok (), st')"
    using st1(1) st'(1) b by (simp del: of_nat_add base128_groups.simps(2)
        add: base128_groups.simps(2) [of "Suc i"])
  ultimately show ?case by blast
qed

interpretation wbase128: cbb_writer add_base128_integer "\<lambda>v. b128 (unat v)" "\<lambda>_. True"
proof
  fix v :: u64 and d st assume *: "cbb_ready d st" "cbb_room (length (b128 (unat v))) st"
  let ?i = "length (b128_high (unat v div 128))"
  have "unat v < 2 ^ 64" using unsigned_less [of v] by simp
  from length_b128_high [OF this] have c: "count_groups v 0 = length (b128_high (unat v))" by simp
  then have "(if count_groups v 0 = 0 then 1 else count_groups v 0) = Suc ?i"
    by (cases "unat v = 0") (simp_all add: b128_high.simps [of "unat v"] b128_high.simps [of 0])
  then have "add_base128_integer v d st = base128_groups (Suc ?i) v d st"
    unfolding add_base128_integer_def Let_def by (simp only:)
  moreover have "b128 (unat v) = groups ?i (unat v div 128) @ [of_nat (unat v mod 128)]"
    unfolding b128_def using b128_high_groups [of "unat v div 128"] by simp
  ultimately show "\<exists>st'. add_base128_integer v d st = (Ok (), st') \<and> extends st (b128 (unat v)) st'"
    using base128_groups_writes [of d st ?i v] * by (simp add: b128_def del: base128_groups.simps)
qed

section \<open>Open children\<close>

text \<open>A store inside what was written, and space at the end with unspecified contents.\<close>

definition overwrites :: "cbb_state \<Rightarrow> byte list \<Rightarrow> cbb_state \<Rightarrow> bool" where
  "overwrites st out st' \<longleftrightarrow> cbb_ok st' \<and> cbb_out st' = out \<and> cs_chain st' = cs_chain st \<and>
     (\<forall>k. cbb_room k st \<longrightarrow> cbb_room k st')"

lemma out_less: "cbb_ok st \<Longrightarrow> length (cbb_out st) < 2 ^ 64"
proof (elim cbb_okE)
  fix b assume "length (cbb_out st) = unat (bb_len b)"
  then show ?thesis using unsigned_less [of "bb_len b"] by simp
qed

lemma poke_inside:
  assumes "cbb_ok st" "i + length xs \<le> length (cbb_out st)"
  shows "\<exists>st'. cbb_poke (of_nat i) xs st = (Ok (), st') \<and>
     overwrites st (take i (cbb_out st) @ xs @ drop (i + length xs) (cbb_out st)) st'"
proof -
  obtain b where b: "cs_base st = Some b" "length (bb_buf b) = unat (bb_cap b)"
      "unat (bb_len b) \<le> unat (bb_cap b)" "\<not> bb_error b" "cbb_out st = take (unat (bb_len b)) (bb_buf b)"
      "length (cbb_out st) = unat (bb_len b)"
    by (rule cbb_okE [OF assms(1)])
  have i: "unat (of_nat i :: u64) = i"
    using assms(2) out_less [OF assms(1)] by (simp add: unat_of_nat)
  let ?buf = "take i (bb_buf b) @ xs @ drop (i + length xs) (bb_buf b)"
  let ?st = "st\<lparr>cs_base := Some (b\<lparr>bb_buf := ?buf\<rparr>)\<rparr>"
  have le: "i + length xs \<le> unat (bb_len b)" using assms(2) b(6) by simp
  have "cbb_poke (of_nat i) xs st = (Ok (), ?st)" using b i le by (simp add: cbb_poke_def)
  moreover have "cbb_ok ?st" using b le by (auto simp: cbb_ok_def word_le_nat_alt)
  moreover have "cbb_out ?st = take i (cbb_out st) @ xs @ drop (i + length xs) (cbb_out st)"
    using take_store [OF le, of "bb_buf b"] b(2,3) unfolding b(5) by (simp add: cbb_out_def)
  ultimately show ?thesis using b(1) by (auto simp: overwrites_def cbb_room_def)
qed

lemma buffer_add:
  assumes "cbb_ok st" "cbb_room n st"
  shows "\<exists>st1 junk. cbb_buffer_add (of_nat n) st = (Ok (of_nat (length (cbb_out st))), st1) \<and>
     length junk = n \<and> extends st junk st1"
proof -
  have "n < 2 ^ 64" using assms(2) by (auto simp: cbb_room_def)
  then have n: "unat (of_nat n :: u64) = n" by (simp add: unat_of_nat)
  obtain st' b where r: "cbb_buffer_reserve (of_nat n) st = (Ok (of_nat (length (cbb_out st))), st')"
      "extends st [] st'" and b: "cs_base st' = Some b" "unat (bb_len b) + n \<le> unat (bb_cap b)"
    using buffer_reserve [of st "of_nat n"] assms n by auto
  have ok': "cbb_ok st'" by (rule extends_ok [OF r(2)])
  have b': "length (bb_buf b) = unat (bb_cap b)" "\<not> bb_error b" "cbb_out st' = take (unat (bb_len b)) (bb_buf b)"
    by (rule cbb_okE [OF ok'], simp add: b(1))+
  have same: "cbb_out st' = cbb_out st" using r(2) by (simp add: extends_def)
  let ?st1 = "st'\<lparr>cs_base := Some (b\<lparr>bb_len := bb_len b + of_nat n\<rparr>)\<rparr>"
  let ?junk = "take n (drop (unat (bb_len b)) (bb_buf b))"
  have nl: "unat (bb_len b + of_nat n) = unat (bb_len b) + n"
  proof -
    have "unat (bb_cap b) < 2 ^ 64" using unsigned_less [of "bb_cap b"] by simp
    then show ?thesis using b(2) n unat_add_no_wrap [of "bb_len b" "of_nat n"] by simp
  qed
  have "cbb_buffer_add (of_nat n) st = (Ok (of_nat (length (cbb_out st))), ?st1)"
    using r(1) b(1) by (simp add: cbb_buffer_add_def)
  moreover have len: "length ?junk = n" using b(2) b'(1) by simp
  moreover have "extends st ?junk ?st1"
  proof -
    have "cbb_ok ?st1" using b b' nl by (auto simp: cbb_ok_def word_le_nat_alt)
    moreover have "cbb_out ?st1 = take (unat (bb_len b)) (bb_buf b) @ ?junk"
      using nl by (simp add: cbb_out_def take_add)
    then have "cbb_out ?st1 = cbb_out st @ ?junk" unfolding b'(3) [symmetric] same .
    moreover have "cbb_room k ?st1" if "cbb_room (n + k) st" for k
      using extends_room [OF r(2), of "n + k"] that b(1) nl by (auto simp: cbb_room_def add.assoc)
    ultimately show ?thesis using r(2) len by (simp add: extends_def)
  qed
  ultimately show ?thesis by blast
qed

lemma asn1_len_len:
  assumes "n \<le> 0xfffffffe"
  shows "asn1_len_len (of_nat n) = (if n \<le> 0x7f then (1, of_nat n, 0)
     else (Suc (len_octets n), of_nat (128 + len_octets n), of_nat n))"
proof -
  have n: "unat (of_nat n :: u64) = n" using assms by (simp add: unat_of_nat)
  have "(ucast (of_nat n :: u64) :: byte) = of_nat n"
    using assms by (simp add: word_unat_eq_iff unat_ucast_down unat_of_nat)
  then show ?thesis using n
    by (auto simp: asn1_len_len_def len_octets_def word_less_nat_alt)
qed

lemma open_child_simps [simp]:
  "cs_base (open_child d off l a st) = cs_base st" "cs_mallocs (open_child d off l a st) = cs_mallocs st"
  "cbb_out (open_child d off l a st) = cbb_out st" "cbb_ok (open_child d off l a st) = cbb_ok st"
  "cbb_room n (open_child d off l a st) = cbb_room n st"
  by (simp_all add: open_child_def cbb_out_def cbb_ok_def cbb_room_def)

lemma open_child_ready: "cbb_ready d st \<Longrightarrow> cbb_ready (Suc d) (open_child d off l a st)"
  by (simp add: cbb_ready_def) (simp add: open_child_def)

section \<open>Flushing a child\<close>

text \<open>The chain has one open child, whose prefix of \<open>k\<close> bytes follows \<open>w\<close> and whose contents are \<open>c\<close>.\<close>

definition pending :: "nat \<Rightarrow> bool \<Rightarrow> byte \<Rightarrow> byte list \<Rightarrow> byte list \<Rightarrow> cbb_state \<Rightarrow> bool" where
  "pending d asn1 k w c st \<longleftrightarrow> cbb_ready (Suc d) st \<and> k \<noteq> 0 \<and>
     cs_chain st ! Suc d = \<lparr>cb_offset = of_nat (length w), cb_pending_len_len = k,
       cb_pending_is_asn1 = asn1, cb_is_child = True, cb_gone = False\<rparr> \<and>
     (\<exists>z. length z = unat k \<and> cbb_out st = w @ z @ c)"

lemma unat_of_nat_sum:
  assumes "n + unat (k :: byte) < 2 ^ 64"
  shows "unat (of_nat n + ucast k :: u64) = n + unat k"
proof -
  have "unat (of_nat n :: u64) = n" "unat (ucast k :: u64) = unat k"
    using assms by (simp_all add: unat_of_nat unat_ucast_up)
  then show ?thesis using assms unat_add_no_wrap [of "of_nat n" "ucast k"] by simp
qed

lemma flush_pending:
  assumes "pending d asn1 k w c st"
  shows "CBB_flush d st = flush_prefix d (of_nat (length w + unat k)) st"
    and "\<exists>b. cs_base st = Some b \<and> bb_len b - of_nat (length w + unat k) = of_nat (length c)"
proof -
  from assms have st: "cbb_ok st" "length (cs_chain st) = Suc (Suc d)" "k \<noteq> 0"
      "cs_chain st ! Suc d = \<lparr>cb_offset = of_nat (length w), cb_pending_len_len = k,
         cb_pending_is_asn1 = asn1, cb_is_child = True, cb_gone = False\<rparr>"
      and ready: "cbb_ready (Suc d) st"
    by (auto simp: pending_def cbb_ready_def)
  from assms obtain z where z: "length z = unat k" "cbb_out st = w @ z @ c" by (auto simp: pending_def)
  obtain b where b: "cs_base st = Some b" "\<not> bb_error b" "length (cbb_out st) = unat (bb_len b)"
    by (rule cbb_okE [OF st(1)])
  have bl: "unat (bb_len b) = length w + unat k + length c" using b(3) z by simp
  then have lt: "length w + unat k + length c < 2 ^ 64" using unat_u64_less [of "bb_len b"] by simp
  let ?cs = "of_nat (length w) + ucast k :: u64"
  have cs: "unat ?cs = length w + unat k" using lt by (intro unat_of_nat_sum) simp
  then have cs': "?cs = of_nat (length w + unat k)" by (rule unat_eq_of_nat)
  have w: "unat (of_nat (length w) :: u64) = length w" using lt by (simp add: unat_of_nat)
  have "\<not> ?cs < of_nat (length w)" "\<not> bb_len b < ?cs" using cs w bl by (simp_all add: word_less_nat_alt)
  then show "CBB_flush d st = flush_prefix d (of_nat (length w + unat k)) st"
    using st b flush_ready [OF ready] unfolding cs' [symmetric]
    by (subst CBB_flush.simps) (simp add: Let_def)
  have "unat (bb_len b - ?cs) = length c"
    using bl cs by (subst unat_sub) (simp_all add: word_le_nat_alt)
  then have "bb_len b - ?cs = of_nat (length c)" by (rule unat_eq_of_nat)
  then show "\<exists>b. cs_base st = Some b \<and> bb_len b - of_nat (length w + unat k) = of_nat (length c)"
    unfolding cs' using b(1) by blast
qed

text \<open>The last step of a flush: the length bytes are stored and the child is closed.\<close>

lemma store_length:
  assumes "cbb_ok st" "i + n \<le> length (cbb_out st)" "unat len < 256 ^ n"
  shows "\<exists>st'. (case store_u n len [] of (bytes, len') \<Rightarrow>
      seq_ok (cbb_poke (of_nat i) bytes st) (\<lambda>_ st1. if len' \<noteq> 0 then cbb_fail st1
        else (Ok (), st1\<lparr>cs_chain := take (Suc d) (cs_chain st1)\<rparr>))) =
      (Ok (), st'\<lparr>cs_chain := take (Suc d) (cs_chain st)\<rparr>) \<and>
    overwrites st (take i (cbb_out st) @ be_bytes n (unat len) @ drop (i + n) (cbb_out st)) st'"
proof -
  have "unat (drop_bit (8 * n) len) = 0"
    unfolding unat_drop_bit_div using assms(3) by (simp add: pow256)
  then have "drop_bit (8 * n) len = 0" by (simp add: unat_eq_0)
  then show ?thesis
    using poke_inside [of st i "be_bytes n (unat len)"] assms(1,2)
    by (auto simp: store_u overwrites_def)
qed

definition closes :: "nat \<Rightarrow> cbb_state \<Rightarrow> byte list \<Rightarrow> nat \<Rightarrow> cbb_state \<Rightarrow> bool" where
  "closes d st out used st' \<longleftrightarrow> cbb_ok st' \<and> cbb_out st' = out \<and> cs_chain st' = take (Suc d) (cs_chain st) \<and>
     (\<forall>k. cbb_room (used + k) st \<longrightarrow> cbb_room k st')"

lemma cs_chain_update_simps [simp]:
  "cbb_ok (st\<lparr>cs_chain := ch\<rparr>) = cbb_ok st" "cbb_out (st\<lparr>cs_chain := ch\<rparr>) = cbb_out st"
  "cbb_room n (st\<lparr>cs_chain := ch\<rparr>) = cbb_room n st"
  by (simp_all add: cbb_ok_def cbb_out_def cbb_room_def)

lemma flush_length_child:
  assumes p: "pending d False k w c st" and fits: "length c < 256 ^ unat k"
  shows "\<exists>st'. CBB_flush d st = (Ok (), st') \<and> closes d st (w @ be_bytes (unat k) (length c) @ c) 0 st'"
proof -
  from p obtain z where st: "cbb_ok st" "length z = unat k" "cbb_out st = w @ z @ c"
      and ch: "cs_chain st ! Suc d = \<lparr>cb_offset = of_nat (length w), cb_pending_len_len = k,
         cb_pending_is_asn1 = False, cb_is_child = True, cb_gone = False\<rparr>"
    by (auto simp: pending_def cbb_ready_def)
  obtain b where b: "cs_base st = Some b" "bb_len b - of_nat (length w + unat k) = of_nat (length c)"
    using flush_pending(2) [OF p] by blast
  have "length c < 2 ^ 64" using out_less [OF st(1)] st(3) by simp
  then have u: "unat (of_nat (length c) :: u64) = length c" by (simp add: unat_of_nat)
  then have "unat (of_nat (length c) :: u64) < 256 ^ unat k" using fits by simp
  from store_length [OF st(1) _ this, of "length w" d] st(2,3) obtain st' where
    "flush_prefix d (of_nat (length w + unat k)) st = (Ok (), st'\<lparr>cs_chain := take (Suc d) (cs_chain st)\<rparr>)"
    "overwrites st (w @ be_bytes (unat k) (length c) @ c) st'"
    unfolding flush_prefix_def Let_def b(1) option.case ch using b(2) u by auto
  then show ?thesis unfolding flush_pending(1) [OF p] by (auto simp: closes_def overwrites_def)
qed

lemma move_inside:
  assumes "cbb_ok st" "i + n \<le> length (cbb_out st)" "i + e + n \<le> length (cbb_out st)"
  shows "\<exists>st'. cbb_move (of_nat i) e (of_nat n) st = (Ok (), st') \<and>
     overwrites st (take (i + e) (cbb_out st) @ take n (drop i (cbb_out st)) @ drop (i + e + n) (cbb_out st)) st'"
proof -
  obtain b where b: "cs_base st = Some b" "length (bb_buf b) = unat (bb_cap b)"
      "unat (bb_len b) \<le> unat (bb_cap b)" "cbb_out st = take (unat (bb_len b)) (bb_buf b)"
      "length (cbb_out st) = unat (bb_len b)"
    by (rule cbb_okE [OF assms(1)])
  have lt: "i + e + n < 2 ^ 64" using assms(3) out_less [OF assms(1)] by simp
  then have u: "unat (of_nat i :: u64) = i" "unat (of_nat n :: u64) = n" by (simp_all add: unat_of_nat)
  have src: "take n (drop i (bb_buf b)) = take n (drop i (cbb_out st))"
    using assms(2) b(5) unfolding b(4) by (simp add: drop_take min_def)
  have len: "length (take n (drop i (cbb_out st))) = n" using assms(2) by simp
  have "cbb_move (of_nat i) e (of_nat n) st = cbb_poke (of_nat (i + e)) (take n (drop i (cbb_out st))) st"
    using b(1-3,5) assms(2) u src by (simp add: cbb_move_def)
  then show ?thesis using poke_inside [OF assms(1), of "i + e" "take n (drop i (cbb_out st))"] assms(3)
    unfolding len by simp
qed

lemma overwrites_trans: "overwrites st xs st1 \<Longrightarrow> overwrites st1 ys st2 \<Longrightarrow> overwrites st ys st2"
  by (auto simp: overwrites_def)

text \<open>The two stores at the end of the flush of an ASN.1 child, over the byte kept for the length.\<close>

lemma store_asn1_header:
  assumes "cbb_ok st" "cbb_out st = w @ z # zs @ c" "length zs = n" "unat len < 256 ^ n"
  shows "\<exists>st'. seq_ok (cbb_poke (of_nat (length w)) [h] st) (\<lambda>_ st1.
      case store_u n len [] of (bytes, len') \<Rightarrow>
        seq_ok (cbb_poke (of_nat (length w) + 1) bytes st1) (\<lambda>_ st2. if len' \<noteq> 0 then cbb_fail st2
          else (Ok (), st2\<lparr>cs_chain := take (Suc d) (cs_chain st2)\<rparr>))) =
      (Ok (), st'\<lparr>cs_chain := take (Suc d) (cs_chain st)\<rparr>) \<and>
    overwrites st (w @ h # be_bytes n (unat len) @ c) st'"
proof -
  obtain st1 where st1: "cbb_poke (of_nat (length w)) [h] st = (Ok (), st1)"
      "overwrites st (w @ h # zs @ c) st1"
    using poke_inside [OF assms(1), of "length w" "[h]"] assms(2) by auto
  have out1: "cbb_ok st1" "cbb_out st1 = w @ h # zs @ c" "cs_chain st1 = cs_chain st"
    using st1(2) by (simp_all add: overwrites_def)
  have "\<exists>st'. (case store_u n len [] of (bytes, len') \<Rightarrow>
        seq_ok (cbb_poke (of_nat (length w + 1)) bytes st1) (\<lambda>_ st2. if len' \<noteq> 0 then cbb_fail st2
          else (Ok (), st2\<lparr>cs_chain := take (Suc d) (cs_chain st2)\<rparr>))) =
      (Ok (), st'\<lparr>cs_chain := take (Suc d) (cs_chain st1)\<rparr>) \<and>
      overwrites st1 (take (length w + 1) (cbb_out st1) @ be_bytes n (unat len) @
        drop (length w + 1 + n) (cbb_out st1)) st'"
    by (rule store_length) (use out1 assms(3,4) in simp_all)
  then show ?thesis using st1 out1 assms(3)
    by (auto simp: add.commute intro: overwrites_trans)
qed

lemma der_length_octets:
  "der_length n = (if n \<le> 0x7f then [of_nat n] else of_nat (128 + len_octets n) # be_bytes (len_octets n) n)"
  by (rule der_length_def)

lemma flush_asn1_child:
  assumes p: "pending d True 1 w c st" and len: "length c \<le> 0xfffffffe"
    and room: "cbb_room (length (der_length (length c)) - 1) st"
  shows "\<exists>st'. CBB_flush d st = (Ok (), st') \<and>
     closes d st (w @ der_length (length c) @ c) (length (der_length (length c)) - 1) st'"
proof -
  let ?n = "length c"
  from p obtain z where st: "cbb_ok st" "cbb_out st = w @ z # c"
      and ch: "cs_chain st ! Suc d = \<lparr>cb_offset = of_nat (length w), cb_pending_len_len = 1,
         cb_pending_is_asn1 = True, cb_is_child = True, cb_gone = False\<rparr>"
    by (auto simp: pending_def cbb_ready_def length_Suc_conv)
  obtain b where b: "cs_base st = Some b" "bb_len b - of_nat (length w + 1) = of_nat ?n"
    using flush_pending(2) [OF p] by auto
  have u: "unat (of_nat ?n :: u64) = ?n" using len by (simp add: unat_of_nat)
  have small: "\<not> (0xfffffffe :: u64) < of_nat ?n" using u len by (simp add: word_less_nat_alt)
  have fl: "CBB_flush d st = flush_prefix d (of_nat (length w + 1)) st" using flush_pending(1) [OF p] by simp
  note unf = flush_prefix_def Let_def b(1) option.case ch CBB.simps if_True b(2)
  show ?thesis
  proof (cases "?n \<le> 0x7f")
    case True
    then have "asn1_len_len (of_nat ?n) = (1, of_nat ?n, 0)" using asn1_len_len [OF len] by simp
    moreover obtain st' where
      "seq_ok (cbb_poke (of_nat (length w)) [of_nat ?n] st) (\<lambda>_ st1.
        case store_u 0 0 [] of (bytes, len') \<Rightarrow>
          seq_ok (cbb_poke (of_nat (length w) + 1) bytes st1) (\<lambda>_ st2. if len' \<noteq> 0 then cbb_fail st2
            else (Ok (), st2\<lparr>cs_chain := take (Suc d) (cs_chain st2)\<rparr>))) =
        (Ok (), st'\<lparr>cs_chain := take (Suc d) (cs_chain st)\<rparr>)"
      "overwrites st (w @ of_nat ?n # be_bytes 0 0 @ c) st'"
      using store_asn1_header [OF st(1), of w z "[]" c 0 0 "of_nat ?n" d] st(2) by auto
    ultimately show ?thesis using True small
      unfolding fl unf by (auto simp: closes_def overwrites_def der_length_def)
  next
    case False
    let ?k = "len_octets ?n"
    have k: "0 < ?k" "?k \<le> 4" "?n < 256 ^ ?k" using len_octets_bounds [of ?n] len by simp_all
    have dl: "der_length ?n = of_nat (128 + ?k) # be_bytes ?k ?n" using False by (simp add: der_length_def)
    have al: "asn1_len_len (of_nat ?n) = (Suc ?k, of_nat (128 + ?k), of_nat ?n)"
      using asn1_len_len [OF len] False by simp
    obtain st1 junk where st1: "cbb_buffer_add (of_nat ?k) st = (Ok (of_nat (length (cbb_out st))), st1)"
        "length junk = ?k" "extends st junk st1"
      using buffer_add [OF st(1), of ?k] room dl by auto
    have out1: "cbb_ok st1" "cbb_out st1 = w @ z # c @ junk" "cs_chain st1 = cs_chain st"
      using st1(3) st(2) by (simp_all add: extends_def)
    obtain st2 where st2: "cbb_move (of_nat (length w + 1)) ?k (of_nat ?n) st1 = (Ok (), st2)"
        "overwrites st1 (take (length w + 1 + ?k) (cbb_out st1) @ c) st2"
      using move_inside [OF out1(1), of "length w + 1" ?n ?k] out1(2) st1(2) by auto
    have out2: "cbb_ok st2" "cbb_out st2 = w @ z # take ?k (c @ junk) @ c" "cs_chain st2 = cs_chain st"
      using st2(2) out1 by (simp_all add: overwrites_def)
    have zl: "length (take ?k (c @ junk)) = ?k" by (simp only: length_take length_append st1(2))
    obtain st' where st':
      "seq_ok (cbb_poke (of_nat (length w)) [of_nat (128 + ?k)] st2) (\<lambda>_ st1.
        case store_u ?k (of_nat ?n) [] of (bytes, len') \<Rightarrow>
          seq_ok (cbb_poke (of_nat (length w) + 1) bytes st1) (\<lambda>_ st2. if len' \<noteq> 0 then cbb_fail st2
            else (Ok (), st2\<lparr>cs_chain := take (Suc d) (cs_chain st2)\<rparr>))) =
        (Ok (), st'\<lparr>cs_chain := take (Suc d) (cs_chain st)\<rparr>)"
      "overwrites st2 (w @ of_nat (128 + ?k) # be_bytes ?k ?n @ c) st'"
      using store_asn1_header [OF out2(1,2) zl, of "of_nat ?n" "of_nat (128 + ?k)" d] k(3) out2(3)
      unfolding u by auto
    have "flush_prefix d (of_nat (length w + 1)) st = (Ok (), st'\<lparr>cs_chain := take (Suc d) (cs_chain st)\<rparr>)"
      unfolding unf using small al st1(1) st2(1) st'(1) k(1)
      by (simp del: of_nat_add store_u.simps)
    moreover have "cbb_room j st'" if "cbb_room (length (der_length ?n) - 1 + j) st" for j
      using that st1(2,3) st2(2) st'(2) dl by (simp add: extends_def overwrites_def)
    ultimately show ?thesis using st'(2) dl
      unfolding fl by (auto simp: closes_def overwrites_def simp del: of_nat_add)
  qed
qed

section \<open>Elements\<close>

lemma add_asn1_opens:
  assumes "cbb_ready d st" "cbb_room (length (der_tag tag) + 1 + n) st"
  shows "\<exists>st'. CBB_add_asn1 tag d st = (Ok (), st') \<and>
     pending d True 1 (cbb_out st @ der_tag tag) [] st' \<and> cbb_room n st' \<and>
     take (Suc d) (cs_chain st') = cs_chain st \<and>
     (\<forall>k. cbb_room (length (der_tag tag) + 1 + k) st \<longrightarrow> cbb_room k st')"
proof -
  let ?bits = "ucast (drop_bit CBS_ASN1_TAG_SHIFT tag) AND 0xe0 :: byte"
  let ?num = "tag AND CBS_ASN1_TAG_NUMBER_MASK"
  have room: "cbb_room (length (der_tag tag) + (1 + n)) st" using assms(2) by (simp add: add.assoc)
  have "\<exists>st1. (if 0x1f \<le> ?num
      then seq_ok (CBB_add_u8 (?bits OR 0x1f) d st) (\<lambda>_ st2. add_base128_integer (ucast ?num) d st2)
      else CBB_add_u8 (?bits OR ucast ?num) d st) = (Ok (), st1) \<and> extends st (der_tag tag) st1"
  proof (cases "0x1f \<le> ?num")
    case True
    then have dt: "der_tag tag = [?bits OR 0x1f] @ b128 (unat ?num)"
      by (simp add: der_tag_def tag_number_def tag_bits_def)
    have "cbb_room (length [?bits OR 0x1f] + length (b128 (unat ?num))) st"
      by (rule cbb_room_mono [OF room]) (simp add: dt)
    then obtain st2 where st2: "CBB_add_u8 (?bits OR 0x1f) d st = (Ok (), st2)"
        "extends st [?bits OR 0x1f] st2" "cbb_ready d st2" "cbb_room (length (b128 (unat ?num))) st2"
      by (rule wu8.op_then [OF TrueI assms(1)])
    have u: "unat (ucast ?num :: u64) = unat ?num" by (simp add: unat_ucast_up)
    obtain st3 where "add_base128_integer (ucast ?num) d st2 = (Ok (), st3)"
        "extends st2 (b128 (unat ?num)) st3"
      using wbase128.op_extends [OF TrueI st2(3), of "ucast ?num"] st2(4) unfolding u by blast
    with st2(1) True extends_trans [OF st2(2), of "b128 (unat ?num)" st3] show ?thesis
      unfolding dt by (intro exI [of _ st3]) simp
  next
    case False
    then have dt: "der_tag tag = [?bits OR ucast ?num]"
      by (simp add: der_tag_def tag_number_def tag_bits_def)
    have "cbb_room (length [?bits OR ucast ?num]) st" by (rule cbb_room_mono [OF room]) (simp add: dt)
    from wu8.op_extends [OF TrueI assms(1) this] False show ?thesis unfolding dt by simp
  qed
  then obtain st1 where st1: "(if 0x1f \<le> ?num
      then seq_ok (CBB_add_u8 (?bits OR 0x1f) d st) (\<lambda>_ st2. add_base128_integer (ucast ?num) d st2)
      else CBB_add_u8 (?bits OR ucast ?num) d st) = (Ok (), st1)" "extends st (der_tag tag) st1" by blast
  have r1: "cbb_ready d st1" "cbb_room (1 + n) st1"
    using extends_ready [OF st1(2) assms(1)] extends_room [OF st1(2) room] by simp_all
  obtain st2 where st2: "CBB_add_u8 0 d st1 = (Ok (), st2)" "extends st1 [0] st2" "cbb_ready d st2" "cbb_room n st2"
    using wu8.op_then [OF TrueI r1(1), of 0 n] r1(2) by auto
  let ?off = "base_len st1" and ?st = "open_child d (base_len st1) 1 True st2"
  have e: "extends st (der_tag tag @ [0]) st2" by (rule extends_trans [OF st1(2) st2(2)])
  have off: "?off = of_nat (length (cbb_out st @ der_tag tag))"
    using base_len_out [OF extends_ok [OF st1(2)]] st1(2) by (simp add: extends_def)
  have ch: "length (cs_chain st2) = Suc d" using st2(3) by (simp add: cbb_ready_def)
  have "CBB_add_asn1 tag d st = (Ok (), ?st)"
    unfolding CBB_add_asn1_def flush_ready [OF assms(1)] seq_ok_simps Let_def st1(1) st2(1) ..
  moreover have "pending d True 1 (cbb_out st @ der_tag tag) [] ?st"
    using open_child_ready [OF st2(3)] ch off e
    by (simp add: pending_def) (simp add: open_child_def extends_def nth_append)
  moreover have "take (Suc d) (cs_chain ?st) = cs_chain st"
    using ch e by (simp add: open_child_def extends_def)
  moreover have "cbb_room k st2" if "cbb_room (length (der_tag tag) + 1 + k) st" for k
    using extends_room [OF e, of k] that by simp
  ultimately show ?thesis using st2(4) by (intro exI [of _ ?st]) simp
qed

text \<open>A body that writes the contents, between the opening and the flush of an element.\<close>

lemma pending_extends:
  "pending d a k w c st \<Longrightarrow> extends st xs st' \<Longrightarrow> pending d a k w (c @ xs) st'"
  by (auto simp: pending_def extends_def cbb_ready_def)

lemma element_writes:
  assumes "cbb_ready d st" "cbb_room (length (der_element (tag, c))) st" "length c \<le> 0xfffffffe"
    and body: "\<And>st1. cbb_ready (Suc d) st1 \<Longrightarrow> cbb_room (length c) st1 \<Longrightarrow>
      \<exists>r st2. body st1 = (Ok r, st2) \<and> extends st1 c st2"
  shows "\<exists>st'. seq_ok (CBB_add_asn1 tag d st) (\<lambda>_ st1. seq_ok (body st1) (\<lambda>_ st2. CBB_flush d st2)) =
     (Ok (), st') \<and> extends st (der_element (tag, c)) st'"
proof -
  let ?l = "length (der_length (length c))"
  have l: "1 \<le> ?l" by (simp add: Suc_leI)
  have tot: "length (der_element (tag, c)) = length (der_tag tag) + 1 + (?l - 1 + length c)"
    using l by (simp add: der_element_def)
  obtain st1 where st1: "CBB_add_asn1 tag d st = (Ok (), st1)"
      "pending d True 1 (cbb_out st @ der_tag tag) [] st1" "cbb_room (?l - 1 + length c) st1"
      "take (Suc d) (cs_chain st1) = cs_chain st"
      "\<And>k. cbb_room (length (der_tag tag) + 1 + k) st \<Longrightarrow> cbb_room k st1"
    using add_asn1_opens [OF assms(1) assms(2) [unfolded tot]] by blast
  have r1: "cbb_ready (Suc d) st1" using st1(2) by (simp add: pending_def)
  obtain r st2 where st2: "body st1 = (Ok r, st2)" "extends st1 c st2"
    using body [OF r1 cbb_room_mono [OF st1(3)]] by auto
  have p2: "pending d True 1 (cbb_out st @ der_tag tag) c st2"
    using pending_extends [OF st1(2) st2(2)] by simp
  have "cbb_room (?l - 1) st2" using extends_room [OF st2(2), of "?l - 1"] st1(3) by (simp add: add.commute)
  from flush_asn1_child [OF p2 assms(3) this] obtain st' where
    st': "CBB_flush d st2 = (Ok (), st')" "closes d st2 ((cbb_out st @ der_tag tag) @ der_length (length c) @ c) (?l - 1) st'"
    by blast
  have "cbb_room k st'" if "cbb_room (length (der_element (tag, c)) + k) st" for k
  proof -
    have "cbb_room (?l - 1 + length c + k) st1" using that st1(5) unfolding tot by (simp add: add.assoc)
    then have "cbb_room (?l - 1 + k) st2"
      using extends_room [OF st2(2), of "?l - 1 + k"] by (simp add: ac_simps)
    then show ?thesis using st'(2) by (simp add: closes_def)
  qed
  then have "extends st (der_element (tag, c)) st'"
    using st'(2) st1(4) st2(2) by (simp add: extends_def closes_def der_element_def)
  moreover have "seq_ok (CBB_add_asn1 tag d st) (\<lambda>_ st1. seq_ok (body st1) (\<lambda>_ st2. CBB_flush d st2)) = (Ok (), st')"
    by (simp add: st1(1) st2(1) st'(1))
  ultimately show ?thesis by blast
qed

text \<open>A call that succeeds does not leave its local child behind.\<close>

lemma local_child_Ok [simp]: "local_child d (Ok a, st) = (Ok a, st)"
  by (simp add: local_child_def)

lemma local_element_writes:
  assumes "cbb_ready d st" "cbb_room (length (der_element (tag, c))) st" "length c \<le> 0xfffffffe"
    and "\<And>st1. cbb_ready (Suc d) st1 \<Longrightarrow> cbb_room (length c) st1 \<Longrightarrow>
      \<exists>r st2. body st1 = (Ok r, st2) \<and> extends st1 c st2"
  shows "\<exists>st'. seq_ok (CBB_add_asn1 tag d st) (\<lambda>_ st1.
      local_child d (seq_ok (body st1) (\<lambda>_ st2. CBB_flush d st2))) =
     (Ok (), st') \<and> extends st (der_element (tag, c)) st'"
proof -
  obtain st' where "seq_ok (CBB_add_asn1 tag d st) (\<lambda>_ st1. seq_ok (body st1) (\<lambda>_ st2. CBB_flush d st2)) = (Ok (), st')"
      "extends st (der_element (tag, c)) st'" using element_writes [OF assms] by blast
  then show ?thesis by (auto simp: seq_ok_eq_Ok)
qed

end
