(* ===== verification/Cbb_Safety.thy ===== *)
theory Cbb_Safety
  imports Cbb_Laws
begin

text \<open>
  Memory safety of the builder for all clients that keep the rules of \<^verbatim>\<open>bytestring.h\<close>: calls in any order on any
  open \<^verbatim>\<open>CBB\<close> of the chain, with a growing or a fixed buffer and an allocator that may fail at any time. No store
  leaves the buffer and no pointer is used that is null or dangling. The clients may even go on after a
  failure, which the header forbids, as long as they do not discard a child then. A call that fails puts the
  buffer into its error; from then on every call that adds, flushes or finishes fails.
\<close>

section \<open>The invariant\<close>

text \<open>Every \<^verbatim>\<open>CBB\<close> of the chain starts behind the length prefix of the one before it and has its own
  prefix inside what was written.\<close>

definition cb_end :: "CBB \<Rightarrow> nat" where
  "cb_end c = unat (cb_offset c) + unat (cb_pending_len_len c)"

definition chain_ok :: "CBB list \<Rightarrow> nat \<Rightarrow> bool" where
  "chain_ok ch n \<longleftrightarrow> sorted_wrt (\<lambda>a b. cb_end a \<le> unat (cb_offset b)) ch \<and>
     (\<forall>c \<in> set ch. cb_end c \<le> n \<and> (cb_pending_is_asn1 c \<longrightarrow> cb_pending_len_len c = 1)) \<and>
     (\<forall>c \<in> set (tl ch). cb_pending_len_len c \<noteq> 0)"

text \<open>A child that is gone is linked only after an error.\<close>

definition cbb_inv :: "cbb_state \<Rightarrow> bool" where
  "cbb_inv st \<longleftrightarrow> (\<forall>b. cs_base st = Some b \<longrightarrow> length (bb_buf b) = unat (bb_cap b) \<and>
     bb_len b \<le> bb_cap b \<and> chain_ok (cs_chain st) (unat (bb_len b)) \<and>
     ((\<exists>c \<in> set (cs_chain st). cb_gone c) \<longrightarrow> bb_error b))"

definition cbb_dead :: "cbb_state \<Rightarrow> bool" where
  "cbb_dead st \<longleftrightarrow> (case cs_base st of None \<Rightarrow> True | Some b \<Rightarrow> bb_error b)"

text \<open>Only defined behaviour, and a failure is on record in the buffer.\<close>

definition cbb_fine :: "'a outcome \<times> cbb_state \<Rightarrow> bool" where
  "cbb_fine r \<longleftrightarrow> fst r \<noteq> Undef \<and> cbb_inv (snd r) \<and> (fst r = Fail \<longrightarrow> cbb_dead (snd r))"

text \<open>The position is one of the chain, and without a buffer it is the first.\<close>

definition cbb_at :: "nat \<Rightarrow> cbb_state \<Rightarrow> bool" where
  "cbb_at d st \<longleftrightarrow> d < length (cs_chain st) \<and> (cs_base st = None \<longrightarrow> d = 0)"

lemma chain_ok_mono: "chain_ok ch n \<Longrightarrow> n \<le> m \<Longrightarrow> chain_ok ch m"
  unfolding chain_ok_def using le_trans by blast

lemma chain_ok_take: "chain_ok ch n \<Longrightarrow> chain_ok (take k ch) n"
  by (cases ch; cases k) (auto simp: chain_ok_def sorted_wrt_take dest: in_set_takeD)

lemma chain_ok_snoc:
  assumes "chain_ok ch (unat (cb_offset c))" "cb_end c \<le> n"
    and "cb_pending_is_asn1 c \<Longrightarrow> cb_pending_len_len c = 1" "cb_pending_len_len c \<noteq> 0"
  shows "chain_ok (ch @ [c]) n"
proof -
  have "unat (cb_offset c) \<le> n" using assms(2) by (simp add: cb_end_def)
  then show ?thesis using assms unfolding chain_ok_def by (cases ch) (force simp: sorted_wrt_append)+
qed

lemma cbb_invD:
  assumes "cbb_inv st" "cs_base st = Some b"
  shows "length (bb_buf b) = unat (bb_cap b)" "unat (bb_len b) \<le> unat (bb_cap b)"
    "chain_ok (cs_chain st) (unat (bb_len b))" "\<forall>c \<in> set (cs_chain st). cb_gone c \<longrightarrow> bb_error b"
  using assms by (auto simp: cbb_inv_def word_le_nat_alt)

lemma inv_not_gone: "cbb_inv st \<Longrightarrow> \<not> cbb_dead st \<Longrightarrow> c \<in> set (cs_chain st) \<Longrightarrow> \<not> cb_gone c"
  by (auto simp: cbb_inv_def cbb_dead_def split: option.splits)

lemma fine_fail: "cbb_inv st \<Longrightarrow> cbb_dead st \<Longrightarrow> cbb_fine (Fail, st)"
  and fine_Ok: "cbb_inv st \<Longrightarrow> cbb_fine (Ok a, st)"
  by (simp_all add: cbb_fine_def)

lemma ready_at: "cbb_ready d st \<Longrightarrow> cbb_at d st"
  by (auto simp: cbb_ready_def cbb_ok_def cbb_at_def)

lemma at_parent: "cbb_at (Suc d) st \<Longrightarrow> cbb_at d st"
  by (auto simp: cbb_at_def)

lemma dead_None: "cs_base st = None \<Longrightarrow> cbb_dead st"
  by (simp add: cbb_dead_def)

lemma fine_cbb_fail: "cbb_inv st \<Longrightarrow> cbb_fine (cbb_fail st)"
  by (cases "cs_base st") (auto simp: cbb_fail_def cbb_fine_def cbb_inv_def cbb_dead_def)

lemma chain_ok_gone:
  "k < length ch \<Longrightarrow> chain_ok (ch[k := (ch ! k)\<lparr>cb_gone := True\<rparr>]) n = chain_ok ch n"
  by (auto simp: chain_ok_def cb_end_def sorted_wrt_iff_nth_less all_set_conv_all_nth nth_list_update nth_tl)

lemma local_child_fine: "cbb_fine r \<Longrightarrow> cbb_fine (local_child d r)"
  by (cases r; cases "fst r")
    (auto simp: local_child_def cbb_fine_def cbb_inv_def cbb_dead_def chain_ok_gone split: option.splits)

lemma fine_seq:
  assumes "cbb_fine r" "\<And>a st. r = (Ok a, st) \<Longrightarrow> cbb_inv st \<Longrightarrow> cbb_fine (k a st)"
  shows "cbb_fine (seq_ok r k)"
  using assms by (cases r; cases "fst r") (auto simp: cbb_fine_def)

lemma malloc_fields [simp]:
  "cs_base (snd (cbb_malloc st)) = cs_base st" "cs_chain (snd (cbb_malloc st)) = cs_chain st"
  by (simp_all add: cbb_malloc_def split: list.splits)

section \<open>Space and stores\<close>

lemma unat_le_sum: "\<not> (a :: u64) + n < a \<Longrightarrow> unat (a + n) = unat a + unat n"
  using no_wrap_sum [of "unat n" a] unat_u64_less [of n] by simp

text \<open>Space that was reserved is inside the buffer; the bytes before it are kept.\<close>

lemma reserve_fine:
  assumes "cbb_inv st"
  shows "cbb_fine (cbb_buffer_reserve n st)"
    and "cbb_buffer_reserve n st = (Ok p, st') \<Longrightarrow> \<exists>b. cs_base st' = Some b \<and> p = bb_len b \<and>
      unat (bb_len b) + unat n \<le> unat (bb_cap b) \<and> cs_chain st' = cs_chain st \<and> cbb_inv st' \<and>
      (\<exists>b0. cs_base st = Some b0 \<and> bb_len b = bb_len b0 \<and> bb_error b = bb_error b0)"
proof -
  have *: "cbb_fine (cbb_buffer_reserve n st) \<and>
     (cbb_buffer_reserve n st = (Ok p, st') \<longrightarrow> (\<exists>b. cs_base st' = Some b \<and> p = bb_len b \<and>
      unat (bb_len b) + unat n \<le> unat (bb_cap b) \<and> cs_chain st' = cs_chain st \<and> cbb_inv st' \<and>
      (\<exists>b0. cs_base st = Some b0 \<and> bb_len b = bb_len b0 \<and> bb_error b = bb_error b0)))"
  proof (cases "cs_base st")
    case None
    then show ?thesis using assms by (simp add: cbb_buffer_reserve_def fine_fail dead_None)
  next
    case (Some b)
    note b = cbb_invD [OF assms Some]
    show ?thesis
    proof (cases "bb_len b + n < bb_len b \<or> bb_cap b < bb_len b + n \<and> \<not> bb_can_resize b")
      case True
      then show ?thesis using Some fine_cbb_fail [OF assms]
        by (auto simp: cbb_buffer_reserve_def Let_def cbb_fail_def)
    next
      case False
      then have new: "unat (bb_len b + n) = unat (bb_len b) + unat n" by (intro unat_le_sum) simp
      show ?thesis
      proof (cases "bb_cap b < bb_len b + n")
        case small: False
        then have "cbb_buffer_reserve n st = (Ok (bb_len b), st)"
          using Some False by (simp add: cbb_buffer_reserve_def)
        then show ?thesis using assms Some small new by (auto simp: fine_Ok word_less_nat_alt not_less)
      next
        case True
        let ?nc = "if bb_cap b * 2 < bb_cap b \<or> bb_cap b * 2 < bb_len b + n then bb_len b + n else bb_cap b * 2"
        let ?b = "b\<lparr>bb_buf := take (unat ?nc) (bb_buf b) @ replicate (unat ?nc - length (bb_buf b)) (cs_fill st),
          bb_cap := ?nc\<rparr>"
        obtain m st1 where m: "cbb_malloc st = (m, st1)" by force
        have st1: "cs_base st1 = Some b" "cs_chain st1 = cs_chain st"
          using malloc_fields [of st] m Some by simp_all
        then have inv1: "cbb_inv st1" using assms Some by (simp add: cbb_inv_def)
        have eq: "cbb_buffer_reserve n st = (if m then (Ok (bb_len b), st1\<lparr>cs_base := Some ?b\<rparr>) else cbb_fail st1)"
          using Some False True m by (cases m) (simp_all add: cbb_buffer_reserve_def Let_def)
        have "unat (bb_len b) + unat n \<le> unat ?nc" using new by (auto simp: word_less_nat_alt)
        moreover from this True new have "unat (bb_cap b) \<le> unat ?nc" by (simp only: word_less_nat_alt)
        ultimately show ?thesis unfolding eq using b st1 Some fine_cbb_fail [OF inv1]
          by (auto simp: cbb_fine_def cbb_inv_def word_le_nat_alt cbb_fail_def)
      qed
    qed
  qed
  then show "cbb_fine (cbb_buffer_reserve n st)" by blast
  show "cbb_buffer_reserve n st = (Ok p, st') \<Longrightarrow> \<exists>b. cs_base st' = Some b \<and> p = bb_len b \<and>
      unat (bb_len b) + unat n \<le> unat (bb_cap b) \<and> cs_chain st' = cs_chain st \<and> cbb_inv st' \<and>
      (\<exists>b0. cs_base st = Some b0 \<and> bb_len b = bb_len b0 \<and> bb_error b = bb_error b0)" using * by blast
qed

lemma add_Ok:
  assumes "cbb_inv st" "cbb_buffer_add n st = (Ok p, st')"
  shows "cbb_inv st'" "\<exists>b b0. cs_base st' = Some b \<and> cs_base st = Some b0 \<and> unat (bb_len b) = unat p + unat n \<and>
     p = bb_len b0 \<and> cs_chain st' = cs_chain st \<and> bb_error b = bb_error b0"
proof -
  from assms(2) obtain st1 where st1: "cbb_buffer_reserve n st = (Ok p, st1)"
      "st' = st1\<lparr>cs_base := map_option (\<lambda>b. b\<lparr>bb_len := bb_len b + n\<rparr>) (cs_base st1)\<rparr>"
    by (auto simp: cbb_buffer_add_def seq_ok_eq_Ok)
  obtain b b0 where b: "cs_base st1 = Some b" "p = bb_len b" "unat (bb_len b) + unat n \<le> unat (bb_cap b)"
      "cs_chain st1 = cs_chain st" "cbb_inv st1" "cs_base st = Some b0" "bb_len b = bb_len b0" "bb_error b = bb_error b0"
    using reserve_fine(2) [OF assms(1) st1(1)] by blast
  note inv = cbb_invD [OF b(5,1)]
  have "unat (bb_len b + n) = unat (bb_len b) + unat n"
    using b(3) unat_u64_less [of "bb_cap b"] by (intro unat_add_no_wrap) simp
  then show "cbb_inv st'" "\<exists>b b0. cs_base st' = Some b \<and> cs_base st = Some b0 \<and>
      unat (bb_len b) = unat p + unat n \<and> p = bb_len b0 \<and> cs_chain st' = cs_chain st \<and> bb_error b = bb_error b0"
    using b inv chain_ok_mono [OF inv(3)] by (auto simp: st1(2) cbb_inv_def word_le_nat_alt)
qed

lemma add_fine: "cbb_inv st \<Longrightarrow> cbb_fine (cbb_buffer_add n st)"
  using reserve_fine(1) [of st n] add_Ok(1) [of st n]
  by (cases "cbb_buffer_reserve n st"; cases "fst (cbb_buffer_reserve n st)")
    (auto simp: cbb_buffer_add_def cbb_fine_def)

lemma poke_fine_cap:
  assumes "cbb_inv st" "cs_base st = Some b" "unat i + length xs \<le> unat (bb_cap b)"
  shows "\<exists>st'. cbb_poke i xs st = (Ok (), st') \<and> cbb_inv st' \<and> cs_chain st' = cs_chain st \<and>
    (\<exists>b'. cs_base st' = Some b' \<and> bb_len b' = bb_len b \<and> bb_error b' = bb_error b)"
  using cbb_invD [OF assms(1,2)] assms by (auto simp: cbb_poke_def cbb_inv_def)

lemma poke_fine:
  assumes "cbb_inv st" "cs_base st = Some b" "unat i + length xs \<le> unat (bb_len b)"
  shows "\<exists>st'. cbb_poke i xs st = (Ok (), st') \<and> cbb_inv st' \<and> cs_chain st' = cs_chain st \<and>
    (\<exists>b'. cs_base st' = Some b' \<and> bb_len b' = bb_len b \<and> bb_error b' = bb_error b)"
  using poke_fine_cap [OF assms(1,2)] cbb_invD(2) [OF assms(1,2)] assms(3) by (meson le_trans)

lemma add_poke_fine:
  assumes "cbb_inv st" "\<And>p st1. length (xs p st1) \<le> unat n"
    and "\<And>p st2. cbb_inv st2 \<Longrightarrow> cbb_fine (k p st2)"
  shows "cbb_fine (seq_ok (cbb_buffer_add n st) (\<lambda>p st1. seq_ok (cbb_poke p (xs p st1) st1) (\<lambda>_ st2. k p st2)))"
proof (rule fine_seq [OF add_fine [OF assms(1)]])
  fix p st1 assume a: "cbb_buffer_add n st = (Ok p, st1)" "cbb_inv st1"
  then obtain b where "cs_base st1 = Some b" "unat (bb_len b) = unat p + unat n"
    using add_Ok(2) [OF assms(1)] by blast
  then show "cbb_fine (seq_ok (cbb_poke p (xs p st1) st1) (\<lambda>_ st2. k p st2))"
    using poke_fine [OF a(2), of b p "xs p st1"] assms(2) [of p st1] assms(3) by auto
qed

section \<open>Flushing\<close>

text \<open>The end of a flush: the length is stored inside what was written, and the child is closed.\<close>

lemma finish_flush_fine:
  fixes st i n len d
  defines "r \<equiv> case store_u n len [] of (bytes, len') \<Rightarrow>
      seq_ok (cbb_poke i bytes st) (\<lambda>_ st1. if len' \<noteq> 0 then cbb_fail st1
        else (Ok (), st1\<lparr>cs_chain := take (Suc d) (cs_chain st1)\<rparr>))"
  assumes "cbb_inv st" "cs_base st = Some b" "unat i + n \<le> unat (bb_len b)"
  shows "cbb_fine r"
    and "r = (Ok u, st') \<Longrightarrow> (\<exists>b'. cs_base st' = Some b' \<and> bb_error b' = bb_error b) \<and> cs_chain st' = take (Suc d) (cs_chain st)"
proof -
  obtain st1 b' where st1: "cbb_poke i (be_bytes n (unat len)) st = (Ok (), st1)" "cbb_inv st1"
      "cs_chain st1 = cs_chain st" "cs_base st1 = Some b'" "bb_error b' = bb_error b"
    using poke_fine [OF assms(2,3), of i "be_bytes n (unat len)"] assms(4) by auto
  have "cbb_inv (st1\<lparr>cs_chain := take (Suc d) (cs_chain st1)\<rparr>)"
    using st1(2) by (auto simp: cbb_inv_def chain_ok_take dest: in_set_takeD)
  then show "cbb_fine r" using fine_cbb_fail [OF st1(2)] by (auto simp: r_def store_u st1(1) fine_Ok)
  show "r = (Ok u, st') \<Longrightarrow> (\<exists>b'. cs_base st' = Some b' \<and> bb_error b' = bb_error b) \<and> cs_chain st' = take (Suc d) (cs_chain st)"
    using st1 by (auto simp: r_def store_u cbb_fail_def split: if_splits)
qed

lemma asn1_len_len_bounds:
  "asn1_len_len len = (k, b, len1) \<Longrightarrow> 1 \<le> k \<and> k \<le> 5"
  by (auto simp: asn1_len_len_def split: if_splits)

text \<open>Contents that are moved stay inside: the space was added behind them.\<close>

lemma move_fine:
  assumes "cbb_inv st" "cs_base st = Some b" "cs = c" "unat c + e \<le> unat (bb_len b)"
    and "unat n = unat (bb_len b) - e - unat c"
  shows "\<exists>st' b'. cbb_move c e n st = (Ok (), st') \<and> cbb_inv st' \<and> cs_chain st' = cs_chain st \<and>
    cs_base st' = Some b' \<and> bb_len b' = bb_len b \<and> bb_error b' = bb_error b"
proof -
  have lt: "unat c + e < 2 ^ 64" using assms(4) unat_u64_less [of "bb_len b"] by simp
  have ce: "unat (c + of_nat e) = unat c + e"
    using lt unat_add_no_wrap [of c "of_nat e"] by (simp add: unat_of_nat)
  note b = cbb_invD [OF assms(1,2)]
  have "unat c + unat n \<le> length (bb_buf b)" using assms(4,5) b by simp
  then show ?thesis
    using poke_fine [OF assms(1,2), of "c + of_nat e" "take (unat n) (drop (unat c) (bb_buf b))"] assms(2,4,5) ce
    by (auto simp: cbb_move_def)
qed

lemma flush_prefix_fine:
  assumes inv: "cbb_inv st" and b: "cs_base st = Some b" and d: "Suc d < length (cs_chain st)"
    and cs: "cs = cb_offset (cs_chain st ! Suc d) + ucast (cb_pending_len_len (cs_chain st ! Suc d))"
      "\<not> cs < cb_offset (cs_chain st ! Suc d)" "\<not> bb_len b < cs"
  shows "cbb_fine (flush_prefix d cs st)"
    and "flush_prefix d cs st = (Ok u, st') \<Longrightarrow> (\<exists>b'. cs_base st' = Some b' \<and> bb_error b' = bb_error b) \<and> cs_chain st' = take (Suc d) (cs_chain st)"
proof -
  let ?c = "cs_chain st ! Suc d" and ?len = "bb_len b - cs"
  have c: "?c \<in> set (cs_chain st)" using d by simp
  have start: "unat cs = cb_end ?c" unfolding cs(1) cb_end_def
    using cs(1,2) by (subst unat_le_sum) (simp_all add: unat_ucast_up)
  have le: "cb_end ?c \<le> unat (bb_len b)" using cs(3) start by (simp add: word_less_nat_alt)
  have len: "unat ?len = unat (bb_len b) - unat cs" using cs(3) by (simp add: unat_sub word_less_nat_alt not_less word_le_nat_alt)
  have "cbb_fine (flush_prefix d cs st) \<and>
    (flush_prefix d cs st = (Ok u, st') \<longrightarrow> (\<exists>b'. cs_base st' = Some b' \<and> bb_error b' = bb_error b) \<and> cs_chain st' = take (Suc d) (cs_chain st))"
  proof (cases "cb_pending_is_asn1 ?c")
    case False
    then show ?thesis
      using finish_flush_fine(1) [OF inv b, where i = "cb_offset ?c" and n = "unat (cb_pending_len_len ?c)" and len = ?len and d = d]
        finish_flush_fine(2) [OF inv b, where i = "cb_offset ?c" and n = "unat (cb_pending_len_len ?c)" and len = ?len
          and d = d and u = u and st' = st'] le
      by (simp add: flush_prefix_def b Let_def cb_end_def)
  next
    case True
    then have pl: "unat (cb_pending_len_len ?c) = 1"
      using cbb_invD(3) [OF inv b] c by (simp add: chain_ok_def)
    obtain k i len1 where k: "asn1_len_len ?len = (k, i, len1)" by (metis prod_cases3)
    note kb = asn1_len_len_bounds [OF k]
    have off: "unat (cb_offset ?c + 1) = unat (cb_offset ?c) + 1"
      using le pl unat_u64_less [of "bb_len b"] unat_add_no_wrap [of "cb_offset ?c" 1] by (simp add: cb_end_def)
    let ?grow = "if k \<noteq> 1 then case cbb_buffer_add (of_nat (k - 1)) st of
          (Ok _, st1) \<Rightarrow> cbb_move cs (k - 1) ?len st1 | (Fail, st1) \<Rightarrow> cbb_fail st1 | (Undef, st1) \<Rightarrow> (Undef, st1)
        else (Ok (), st)"
    let ?store = "\<lambda>st2. seq_ok (cbb_poke (cb_offset ?c) [i] st2) (\<lambda>_ st3. case store_u (k - 1) len1 [] of (bytes, len') \<Rightarrow>
        seq_ok (cbb_poke (cb_offset ?c + 1) bytes st3) (\<lambda>_ st4. if len' \<noteq> 0 then cbb_fail st4
          else (Ok (), st4\<lparr>cs_chain := take (Suc d) (cs_chain st4)\<rparr>)))"
    have grow: "cbb_fine ?grow \<and> (\<forall>st2. ?grow = (Ok (), st2) \<longrightarrow> cbb_inv st2 \<and> cs_chain st2 = cs_chain st \<and>
        (\<exists>b2. cs_base st2 = Some b2 \<and> cb_end ?c + (k - 1) \<le> unat (bb_len b2) \<and> bb_error b2 = bb_error b))"
    proof (cases "k = 1")
      case True then show ?thesis using inv b le by (auto simp: fine_Ok)
    next
      case False
      obtain r st1 where r: "cbb_buffer_add (of_nat (k - 1)) st = (r, st1)" by force
      have "k - 1 < 2 ^ 64" by (rule le_less_trans [of _ 5]) (use kb in auto)
      then have kn: "unat (of_nat (k - 1) :: u64) = k - 1" by (simp add: unat_of_nat del: of_nat_diff)
      have "cbb_fine (r, st1)" using add_fine [OF inv] r by metis
      then have r1: "r \<noteq> Undef" "cbb_inv st1" by (simp_all add: cbb_fine_def)
      show ?thesis
      proof (cases r)
        case (Ok p)
        obtain b1 where b1: "cs_base st1 = Some b1" "unat (bb_len b1) = unat (bb_len b) + (k - 1)"
            "cs_chain st1 = cs_chain st" "bb_error b1 = bb_error b"
          using add_Ok(2) [OF inv r [unfolded Ok]] b kn by auto
        obtain st2 b2 where "cbb_move cs (k - 1) ?len st1 = (Ok (), st2)" "cbb_inv st2" "cs_chain st2 = cs_chain st1"
            "cs_base st2 = Some b2" "bb_len b2 = bb_len b1" "bb_error b2 = bb_error b1"
          using move_fine [OF r1(2) b1(1) refl, of cs "k - 1" ?len] start le len b1(2) by auto
        then show ?thesis using False r Ok b1 le by (auto simp: fine_Ok)
      next
        case Fail
        then show ?thesis using False r fine_cbb_fail [OF r1(2), where 'a = unit] by (simp add: cbb_fail_def)
      qed (use r1 in simp)
    qed
    have store: "cbb_fine (?store st2) \<and>
        (?store st2 = (Ok u, st') \<longrightarrow> (\<exists>b'. cs_base st' = Some b' \<and> bb_error b' = bb_error b) \<and> cs_chain st' = take (Suc d) (cs_chain st))"
      if st2: "cbb_inv st2" "cs_chain st2 = cs_chain st" "cs_base st2 = Some b2" "cb_end ?c + (k - 1) \<le> unat (bb_len b2)"
        "bb_error b2 = bb_error b"
      for st2 b2
    proof -
      obtain st3 b3 where st3: "cbb_poke (cb_offset ?c) [i] st2 = (Ok (), st3)" "cbb_inv st3"
          "cs_chain st3 = cs_chain st2" "cs_base st3 = Some b3" "bb_len b3 = bb_len b2" "bb_error b3 = bb_error b2"
        using poke_fine [OF st2(1,3), of "cb_offset ?c" "[i]"] st2(4) pl by (auto simp: cb_end_def)
      have "unat (cb_offset ?c + 1) + (k - 1) \<le> unat (bb_len b3)" using st2(4) st3(5) off pl by (simp add: cb_end_def)
      from finish_flush_fine(1) [OF st3(2,4) this, where len = len1 and d = d]
        finish_flush_fine(2) [OF st3(2,4) this, where len = len1 and d = d and u = u and st' = st'] show ?thesis
        unfolding st3(1) seq_ok_simps st3(3,6) st2(2,5) by blast
    qed
    have eq: "flush_prefix d cs st = (if 0xfffffffe < ?len then cbb_fail st else seq_ok ?grow (\<lambda>_ st2. ?store st2))"
      unfolding flush_prefix_def b option.case Let_def k prod.case using True by simp
    show ?thesis
    proof (cases "0xfffffffe < ?len")
      case True
      then show ?thesis unfolding eq using fine_cbb_fail [OF inv] by (simp add: cbb_fail_def)
    next
      case False
      obtain r2 st2 where r2: "?grow = (r2, st2)" by (rule prod.exhaust)
      have eq2: "flush_prefix d cs st = seq_ok (r2, st2) (\<lambda>_ st2. ?store st2)"
        unfolding eq r2 by (simp only: False if_False)
      note g = grow [unfolded r2]
      show ?thesis
      proof (cases r2)
        case (Ok a)
        then obtain b2 where "cbb_inv st2" "cs_chain st2 = cs_chain st" "cs_base st2 = Some b2"
            "cb_end ?c + (k - 1) \<le> unat (bb_len b2)" "bb_error b2 = bb_error b" using g by auto
        from store [OF this] show ?thesis unfolding eq2 Ok seq_ok_simps .
      qed (use g in \<open>simp_all add: eq2 cbb_fine_def\<close>)
    qed
  qed
  then show "cbb_fine (flush_prefix d cs st)"
    "flush_prefix d cs st = (Ok u, st') \<Longrightarrow> (\<exists>b'. cs_base st' = Some b' \<and> bb_error b' = bb_error b) \<and> cs_chain st' = take (Suc d) (cs_chain st)"
    by blast+
qed

lemma inv_ready: "cbb_inv st \<Longrightarrow> cs_base st = Some b \<Longrightarrow> \<not> bb_error b \<Longrightarrow> length (cs_chain st) = Suc d \<Longrightarrow> cbb_ready d st"
  by (auto simp: cbb_inv_def cbb_ready_def cbb_ok_def)

lemma flush_fine:
  assumes "cbb_inv st" "cbb_at d st"
  shows "cbb_fine (CBB_flush d st) \<and>
    (\<forall>u st'. CBB_flush d st = (Ok u, st') \<longrightarrow> cbb_ready d st' \<and> cs_chain st' = take (Suc d) (cs_chain st))"
  using assms
proof (induction d st rule: CBB_flush.induct)
  case (1 d st)
  show ?case
  proof (cases "cs_base st")
    case None
    then show ?thesis using "1.prems" by (subst (1 2) CBB_flush.simps) (simp add: fine_fail dead_None cbb_at_def)
  next
    case (Some b)
    let ?c = "cs_chain st ! Suc d"
    let ?start = "cb_offset ?c + ucast (cb_pending_len_len ?c)"
    consider (dead) "bb_error b"
      | (flat) "length (cs_chain st) = Suc d" "\<not> bb_error b"
      | (deep) "Suc d < length (cs_chain st)" "\<not> bb_error b"
      using "1.prems"(2) unfolding cbb_at_def by linarith
    then show ?thesis
    proof cases
      case dead
      then have "CBB_flush d st = (Fail, st)" using Some by (subst CBB_flush.simps) simp
      then show ?thesis using "1.prems" dead Some by (simp add: fine_fail cbb_dead_def)
    next
      case flat
      have "cbb_ready d st" using "1.prems"(1) Some flat by (intro inv_ready)
      from flush_ready [OF this] this show ?thesis using "1.prems" flat by (simp add: fine_Ok)
    next
      case deep
      have "?c = tl (cs_chain st) ! d" using deep by (simp add: nth_tl)
      then have "?c \<in> set (tl (cs_chain st))" using deep by simp
      then have pl: "cb_pending_len_len ?c \<noteq> 0" using cbb_invD(3) [OF "1.prems"(1) Some] by (simp add: chain_ok_def)
      have ng: "\<not> cb_gone ?c" using inv_not_gone [OF "1.prems"(1)] Some deep by (simp add: cbb_dead_def)
      obtain r st1 where r: "CBB_flush (Suc d) st = (r, st1)" by force
      have eq: "CBB_flush d st = (case (r, st1) of
          (Ok _, st1) \<Rightarrow> (case cs_base st1 of
              None \<Rightarrow> (Undef, st1)
            | Some b1 \<Rightarrow> if ?start < cb_offset ?c \<or> bb_len b1 < ?start then cbb_fail st1
                else flush_prefix d ?start st1)
        | (Fail, st1) \<Rightarrow> cbb_fail st1
        | (Undef, st1) \<Rightarrow> (Undef, st1))"
        using Some deep pl ng r by (subst CBB_flush.simps) (simp add: Let_def)
      have at: "cbb_at (Suc d) st" using deep Some by (simp add: cbb_at_def)
      have IH: "cbb_fine (r, st1)" "\<And>u. r = Ok u \<Longrightarrow> cbb_ready (Suc d) st1 \<and> cs_chain st1 = take (Suc (Suc d)) (cs_chain st)"
        using "1.IH" [OF Some _ _ _ refl refl "1.prems"(1) at] deep pl ng r by auto
      have inv1: "cbb_inv st1" using IH(1) by (simp add: cbb_fine_def)
      show ?thesis
      proof (cases r)
        case (Ok u)
        with IH(2) have st1: "cbb_ready (Suc d) st1" "cs_chain st1 = take (Suc (Suc d)) (cs_chain st)" by blast+
        obtain b1 where b1: "cs_base st1 = Some b1" "\<not> bb_error b1" using st1(1) by (auto simp: cbb_ready_def cbb_ok_def)
        have c1: "cs_chain st1 ! Suc d = ?c" "Suc d < length (cs_chain st1)" using st1(2) deep by auto
        show ?thesis
        proof (cases "?start < cb_offset ?c \<or> bb_len b1 < ?start")
          case True
          then have "CBB_flush d st = cbb_fail st1" unfolding eq Ok using b1 by simp
          then show ?thesis using fine_cbb_fail [OF inv1, where 'a = unit] by (simp add: cbb_fail_def)
        next
          case False
          then have eq2: "CBB_flush d st = flush_prefix d ?start st1" unfolding eq Ok using b1 by simp
          have ns: "\<not> ?start < cb_offset (cs_chain st1 ! Suc d)" "\<not> bb_len b1 < ?start"
            "?start = cb_offset (cs_chain st1 ! Suc d) + ucast (cb_pending_len_len (cs_chain st1 ! Suc d))"
            using False c1(1) by simp_all
          note f = flush_prefix_fine [OF inv1 b1(1) c1(2) ns(3,1,2)]
          have "cbb_ready d st' \<and> cs_chain st' = take (Suc d) (cs_chain st)"
            if ok: "flush_prefix d ?start st1 = (Ok u, st')" for u st'
          proof -
            obtain b' where b': "cs_base st' = Some b'" "bb_error b' = bb_error b1" "cs_chain st' = take (Suc d) (cs_chain st1)"
              using f(2) [OF ok] by blast
            have "cbb_inv st'" using f(1) ok by (simp add: cbb_fine_def)
            with b' b1(2) c1(2) st1(2) show ?thesis by (auto intro!: inv_ready [of st' b'])
          qed
          then show ?thesis unfolding eq2 using f(1) by blast
        qed
      next
        case Fail
        then have "CBB_flush d st = cbb_fail st1" unfolding eq by simp
        then show ?thesis using fine_cbb_fail [OF inv1, where 'a = unit] by (simp add: cbb_fail_def)
      qed (use IH(1) in \<open>simp add: cbb_fine_def\<close>)
    qed
  qed
qed

section \<open>Adding\<close>

text \<open>On a \<^verbatim>\<open>CBB\<close> without an open child an operation leaves such a \<^verbatim>\<open>CBB\<close> and nothing is taken back, or it fails.\<close>

definition grows :: "nat \<Rightarrow> cbb_state \<Rightarrow> 'a outcome \<times> cbb_state \<Rightarrow> bool" where
  "grows d st r \<longleftrightarrow> cbb_fine r \<and> (\<forall>a st'. r = (Ok a, st') \<longrightarrow> cbb_ready d st' \<and>
     cs_chain st' = cs_chain st \<and> unat (base_len st) \<le> unat (base_len st'))"

lemma grows_fine: "grows d st r \<Longrightarrow> cbb_fine r"
  by (simp add: grows_def)

lemma grows_Ok: "cbb_inv st \<Longrightarrow> cbb_ready d st \<Longrightarrow> grows d st (Ok a, st)"
  by (simp add: grows_def cbb_fine_def)

lemma grows_seq:
  assumes "grows d st r"
    and "\<And>a st1. cbb_inv st1 \<Longrightarrow> cbb_ready d st1 \<Longrightarrow> grows d st1 (k a st1)"
  shows "grows d st (seq_ok r k)"
proof (cases r)
  case (Pair a st1)
  show ?thesis
  proof (cases a)
    case (Ok x)
    then have "cbb_inv st1" "cbb_ready d st1" "cs_chain st1 = cs_chain st" "unat (base_len st) \<le> unat (base_len st1)"
      using assms(1) Pair by (auto simp: grows_def cbb_fine_def)
    with assms(2) [of st1 x] show ?thesis using Pair Ok by (force simp: grows_def)
  qed (use assms(1) Pair in \<open>auto simp: grows_def cbb_fine_def\<close>)
qed

lemma fine_grows_seq:
  assumes "grows d st r"
    and "\<And>a st1. cbb_inv st1 \<Longrightarrow> cbb_ready d st1 \<Longrightarrow> cs_chain st1 = cs_chain st \<Longrightarrow> cbb_fine (k a st1)"
  shows "cbb_fine (seq_ok r k)"
  using assms(1) by (intro fine_seq [OF grows_fine]) (auto simp: grows_def intro: assms(2))

lemma ready_len:
  assumes "cbb_ready d st" "cs_base st = Some b"
  shows "base_len st = bb_len b" "\<not> bb_error b"
  using assms by (auto simp: cbb_ready_def cbb_ok_def base_len_def)

lemma add_poke_grows:
  assumes inv: "cbb_inv st" and ready: "cbb_ready d st" and len: "length xs \<le> unat n"
  shows "grows d st (seq_ok (cbb_buffer_add n st) (\<lambda>p st1. seq_ok (cbb_poke p xs st1) (\<lambda>_ st2.
     if bad then cbb_fail st2 else (Ok (), st2))))" (is "grows d st ?r")
proof -
  have "cbb_fine ?r" by (rule add_poke_fine [OF inv]) (auto simp: len fine_cbb_fail fine_Ok)
  moreover have "cbb_ready d st' \<and> cs_chain st' = cs_chain st \<and> unat (base_len st) \<le> unat (base_len st')"
    if r: "?r = (Ok u, st')" for u st'
  proof -
    from r obtain p st1 where p: "cbb_buffer_add n st = (Ok p, st1)" "cbb_poke p xs st1 = (Ok (), st')"
      by (auto simp: seq_ok_eq_Ok cbb_fail_def split: if_splits)
    obtain b b0 where b: "cs_base st1 = Some b" "cs_base st = Some b0" "unat (bb_len b) = unat p + unat n"
        "p = bb_len b0" "cs_chain st1 = cs_chain st" "bb_error b = bb_error b0"
      using add_Ok(2) [OF inv p(1)] by blast
    obtain b' where b': "cs_base st' = Some b'" "bb_len b' = bb_len b" "bb_error b' = bb_error b"
        "cbb_inv st'" "cs_chain st' = cs_chain st1"
      using poke_fine [OF add_Ok(1) [OF inv p(1)] b(1), of p xs] p(2) len b(3) by auto
    have "cbb_ready d st'"
      using inv_ready [OF b'(4,1)] ready_len(2) [OF ready b(2)] b b' ready by (simp add: cbb_ready_def)
    with b b' ready_len(1) [OF ready b(2)] ready_len(1) [OF _ b'(1)] show ?thesis by simp
  qed
  ultimately show ?thesis by (auto simp: grows_def)
qed

lemma add_poke_grows':
  assumes "cbb_inv st" "cbb_ready d st" "length xs \<le> unat n"
  shows "grows d st (seq_ok (cbb_buffer_add n st) (\<lambda>p st1. cbb_poke p xs st1))"
proof -
  have "seq_ok (cbb_poke p xs st1) (\<lambda>_ st2. (Ok (), st2)) = cbb_poke p xs st1" for p st1
    by (auto simp: cbb_poke_def split: option.splits)
  then show ?thesis using add_poke_grows [OF assms, of False] by simp
qed

lemma add_u_grows:
  assumes "cbb_inv st" "cbb_ready d st" "n \<le> 8"
  shows "grows d st (cbb_buffer_add_u v n st)"
proof -
  have "unat (of_nat n :: u64) = n" using assms(3) by (simp add: unat_of_nat)
  then show ?thesis
    using add_poke_grows [OF assms(1,2), of "be_bytes n (unat v)" "of_nat n" "drop_bit (8 * n) v \<noteq> 0"]
      grows_Ok [OF assms(1,2), of "()"]
    by (simp add: cbb_buffer_add_u_def store_u)
qed

lemma add_u8_grows: "cbb_inv st \<Longrightarrow> cbb_ready d st \<Longrightarrow> grows d st (CBB_add_u8 v d st)"
  by (simp add: CBB_add_u8_def flush_ready add_u_grows)

lemma base128_grows: "cbb_inv st \<Longrightarrow> cbb_ready d st \<Longrightarrow> grows d st (base128_groups i v d st)"
  by (induction i arbitrary: st) (auto simp: grows_Ok Let_def intro!: grows_seq add_u8_grows)

lemma uint64_bytes_grows: "cbb_inv st \<Longrightarrow> cbb_ready d st \<Longrightarrow> grows d st (uint64_bytes is v started d st)"
  by (induction "is" arbitrary: st started)
    (auto simp: grows_Ok Let_def intro!: grows_seq add_u8_grows)

lemma int64_bytes_grows: "cbb_inv st \<Longrightarrow> cbb_ready d st \<Longrightarrow> grows d st (int64_bytes bs d st)"
  by (induction bs arbitrary: st) (auto simp: grows_Ok intro!: grows_seq add_u8_grows)

section \<open>Children\<close>

lemma open_child_inv:
  assumes "cbb_inv st" "cbb_ready d st" "cs_base st = Some b" "chain_ok (cs_chain st) (unat off)"
    and "unat off + unat k \<le> unat (bb_len b)" "k \<noteq> 0" "a \<longrightarrow> k = 1"
  shows "cbb_inv (open_child d off k a st)" "cbb_ready (Suc d) (open_child d off k a st)"
proof -
  show "cbb_ready (Suc d) (open_child d off k a st)" by (rule open_child_ready [OF assms(2)])
  have "chain_ok (take (Suc d) (cs_chain st) @
     [\<lparr>cb_offset = off, cb_pending_len_len = k, cb_pending_is_asn1 = a, cb_is_child = True, cb_gone = False\<rparr>]) (unat (bb_len b))"
    by (rule chain_ok_snoc) (use assms in \<open>simp_all add: chain_ok_take cb_end_def\<close>)
  then show "cbb_inv (open_child d off k a st)"
    using assms(3) cbb_invD [OF assms(1,3)] by (auto simp: cbb_inv_def open_child_def word_le_nat_alt dest: in_set_takeD)
qed

text \<open>An operation that leaves a new child, or fails.\<close>

definition opens :: "nat \<Rightarrow> 'a outcome \<times> cbb_state \<Rightarrow> bool" where
  "opens d r \<longleftrightarrow> cbb_fine r \<and> (\<forall>a st'. r = (Ok a, st') \<longrightarrow> cbb_ready (Suc d) st')"

lemma opens_grows_seq:
  assumes "grows d st r"
    and "\<And>a st1. cbb_inv st1 \<Longrightarrow> cbb_ready d st1 \<Longrightarrow> cs_chain st1 = cs_chain st \<Longrightarrow> opens d (k a st1)"
  shows "opens d (seq_ok r k)"
proof (cases r)
  case (Pair a st1)
  with assms show ?thesis by (cases a) (auto simp: opens_def grows_def cbb_fine_def)
qed

lemma length_prefixed_opens:
  assumes "cbb_inv st" "cbb_ready d st" "k \<noteq> 0"
  shows "opens d (cbb_add_length_prefixed d k st)"
proof -
  have k: "unat (ucast k :: u64) = unat k" by (simp add: unat_ucast_up)
  let ?r = "seq_ok (cbb_buffer_add (ucast k) st) (\<lambda>p st1. cbb_poke p (replicate (unat k) 0) st1)"
  have g: "grows d st ?r" by (rule add_poke_grows' [OF assms(1,2)]) (simp add: k)
  obtain b where b: "cs_base st = Some b" using assms(2) by (auto simp: cbb_ready_def cbb_ok_def)
  note ch = cbb_invD(3) [OF assms(1) b]
  have off: "base_len st = bb_len b" by (rule ready_len(1) [OF assms(2) b])
  have eq: "cbb_add_length_prefixed d k st = seq_ok ?r (\<lambda>_ st3. (Ok (), open_child d (base_len st) k False st3))"
    by (simp add: cbb_add_length_prefixed_def flush_ready [OF assms(2)] Let_def seq_ok_assoc)
  have "opens d (Ok (), open_child d (base_len st) k False st3)" if r: "?r = (Ok u, st3)" for u st3
  proof -
    have s3: "cbb_inv st3" "cbb_ready d st3" "cs_chain st3 = cs_chain st"
      using g r by (auto simp: grows_def cbb_fine_def)
    obtain b3 where b3: "cs_base st3 = Some b3" using s3(2) by (auto simp: cbb_ready_def cbb_ok_def)
    from r obtain p st1 where p: "cbb_buffer_add (ucast k) st = (Ok p, st1)" "cbb_poke p (replicate (unat k) 0) st1 = (Ok u, st3)"
      by (auto simp: seq_ok_eq_Ok)
    then have "unat (bb_len b3) = unat (bb_len b) + unat k"
      using add_Ok(2) [OF assms(1) p(1)] b b3 k by (auto simp: cbb_poke_def split: option.splits if_splits)
    then show ?thesis using open_child_inv [OF s3(1,2) b3, of "base_len st" k False] ch assms(3) s3(3) off
      by (simp add: opens_def cbb_fine_def)
  qed
  then show ?thesis unfolding eq using g by (cases ?r; cases "fst ?r") (auto simp: grows_def opens_def cbb_fine_def)
qed

lemma base_len_add_u8:
  assumes "cbb_inv st" "cbb_ready d st" "CBB_add_u8 v d st = (Ok u, st')"
  shows "unat (base_len st') = unat (base_len st) + 1"
proof -
  obtain b where b: "cs_base st = Some b" using assms(2) by (auto simp: cbb_ready_def cbb_ok_def)
  have s': "cbb_ready d st'" using add_u8_grows [OF assms(1,2), of v] assms(3) by (auto simp: grows_def)
  then obtain b' where b': "cs_base st' = Some b'" by (auto simp: cbb_ready_def cbb_ok_def)
  from assms(3) obtain p st1 st2 where p: "cbb_buffer_add 1 st = (Ok p, st1)" "cbb_poke p [v] st1 = (Ok (), st2)" "st' = st2"
    by (auto simp: CBB_add_u8_def flush_ready [OF assms(2)] cbb_buffer_add_u_def seq_ok_eq_Ok cbb_fail_def
        ucast_up_down split: if_splits)
  then have "unat (bb_len b') = unat (bb_len b) + 1"
    using add_Ok(2) [OF assms(1) p(1)] b b' by (auto simp: cbb_poke_def split: option.splits if_splits)
  then show ?thesis using ready_len(1) [OF assms(2) b] ready_len(1) [OF s' b'] by simp
qed

lemma add_asn1_opens_fine:
  assumes "cbb_inv st" "cbb_ready d st"
  shows "opens d (CBB_add_asn1 tag d st)"
proof -
  let ?bits = "ucast (drop_bit CBS_ASN1_TAG_SHIFT tag) AND 0xe0 :: byte"
  let ?num = "tag AND CBS_ASN1_TAG_NUMBER_MASK"
  let ?hd = "if 0x1f \<le> ?num
      then seq_ok (CBB_add_u8 (?bits OR 0x1f) d st) (\<lambda>_ st2. add_base128_integer (ucast ?num) d st2)
      else CBB_add_u8 (?bits OR ucast ?num) d st"
  have hd: "grows d st ?hd"
    using assms by (auto simp: add_base128_integer_def Let_def intro!: grows_seq add_u8_grows base128_grows)
  have "opens d (seq_ok (CBB_add_u8 0 d st3) (\<lambda>_ st4. (Ok (), open_child d (base_len st3) 1 True st4)))"
    if st3: "cbb_inv st3" "cbb_ready d st3" for st3
  proof -
    obtain b3 where b3: "cs_base st3 = Some b3" using st3(2) by (auto simp: cbb_ready_def cbb_ok_def)
    note g = add_u8_grows [OF st3, of 0]
    have "opens d (Ok (), open_child d (base_len st3) 1 True st4)" if r: "CBB_add_u8 0 d st3 = (Ok u, st4)" for u st4
    proof -
      have s4: "cbb_inv st4" "cbb_ready d st4" "cs_chain st4 = cs_chain st3"
        using g r by (auto simp: grows_def cbb_fine_def)
      obtain b4 where b4: "cs_base st4 = Some b4" using s4(2) by (auto simp: cbb_ready_def cbb_ok_def)
      have "unat (bb_len b4) = unat (base_len st3) + 1"
        using base_len_add_u8 [OF st3 r] ready_len(1) [OF s4(2) b4] by simp
      then show ?thesis
        using open_child_inv [OF s4(1,2) b4, of "base_len st3" 1 True] cbb_invD(3) [OF st3(1) b3] s4(3)
          ready_len(1) [OF st3(2) b3]
        by (simp add: opens_def cbb_fine_def)
    qed
    then show ?thesis using g
      by (cases "CBB_add_u8 0 d st3"; cases "fst (CBB_add_u8 0 d st3)") (auto simp: grows_def opens_def cbb_fine_def)
  qed
  then have "opens d (seq_ok ?hd (\<lambda>_ st3. let offset = base_len st3
      in seq_ok (CBB_add_u8 0 d st3) (\<lambda>_ st4. (Ok (), open_child d offset 1 True st4))))"
    unfolding Let_def by (rule opens_grows_seq [OF hd])
  then show ?thesis unfolding CBB_add_asn1_def flush_ready [OF assms(2)] seq_ok_simps Let_def .
qed

section \<open>Clients\<close>

text \<open>The calls of a client on the \<^verbatim>\<open>CBB\<close> at some position. \<open>Space\<close> and \<open>Reserve\<close> hand out a pointer, through which
  the client stores bytes of its own, at most as many as it asked for. \<^verbatim>\<open>CBB_finish\<close> on a child fails.\<close>

datatype cbb_call =
    AddU8 byte | AddU16 u16 | AddU16le u16 | AddU24 u32 | AddU32 u32 | AddU32le u32 | AddU64 u64 | AddU64le u64
  | AddBytes "byte list" | Zeros u64 | Space u64 "byte list" | Reserve u64 "byte list" | DidWrite u64
  | U8Child | U16Child | U24Child | Asn1Child u32
  | AddUint64 u64 | AddInt64 u64 | AddOctets "byte list" | AddBool bool
  | Flush | Discard | Finish bool | Cleanup

fun cbb_exec :: "cbb_call \<Rightarrow> nat \<Rightarrow> cbb_state \<Rightarrow> unit outcome \<times> cbb_state" where
  "cbb_exec (AddU8 v) d st = CBB_add_u8 v d st"
| "cbb_exec (AddU16 v) d st = CBB_add_u16 v d st"
| "cbb_exec (AddU16le v) d st = CBB_add_u16le v d st"
| "cbb_exec (AddU24 v) d st = CBB_add_u24 v d st"
| "cbb_exec (AddU32 v) d st = CBB_add_u32 v d st"
| "cbb_exec (AddU32le v) d st = CBB_add_u32le v d st"
| "cbb_exec (AddU64 v) d st = CBB_add_u64 v d st"
| "cbb_exec (AddU64le v) d st = CBB_add_u64le v d st"
| "cbb_exec (AddBytes bs) d st = CBB_add_bytes bs (of_nat (length bs)) d st"
| "cbb_exec (Zeros n) d st = CBB_add_zeros n d st"
| "cbb_exec (Space n bs) d st = seq_ok (CBB_add_space n d st) (\<lambda>p st1. cbb_poke p (take (unat n) bs) st1)"
| "cbb_exec (Reserve n bs) d st = seq_ok (CBB_reserve n d st) (\<lambda>p st1. cbb_poke p (take (unat n) bs) st1)"
| "cbb_exec (DidWrite n) d st = CBB_did_write n d st"
| "cbb_exec U8Child d st = CBB_add_u8_length_prefixed d st"
| "cbb_exec U16Child d st = CBB_add_u16_length_prefixed d st"
| "cbb_exec U24Child d st = CBB_add_u24_length_prefixed d st"
| "cbb_exec (Asn1Child t) d st = CBB_add_asn1 t d st"
| "cbb_exec (AddUint64 v) d st = CBB_add_asn1_uint64 v d st"
| "cbb_exec (AddInt64 v) d st = CBB_add_asn1_int64 v d st"
| "cbb_exec (AddOctets bs) d st = CBB_add_asn1_octet_string bs (of_nat (length bs)) d st"
| "cbb_exec (AddBool v) d st = CBB_add_asn1_bool v d st"
| "cbb_exec Flush d st = CBB_flush d st"
| "cbb_exec Discard d st = CBB_discard_child d st"
| "cbb_exec (Finish outs) d st =
     (if cb_is_child (cs_chain st ! d) then (Fail, st) else seq_ok (CBB_finish outs st) (\<lambda>_ st1. (Ok (), st1)))"
| "cbb_exec Cleanup d st = CBB_cleanup d st"

text \<open>\<open>None\<close> is a store outside of the buffer, the use of a null or dangling pointer, or a failed assertion.\<close>

fun cbb_run :: "(nat \<times> cbb_call) list \<Rightarrow> cbb_state \<Rightarrow> cbb_state option" where
  "cbb_run [] st = Some st"
| "cbb_run ((d, c) # cs) st = (case cbb_exec c d st of
     (Undef, _) \<Rightarrow> None | (_, st1) \<Rightarrow> cbb_run cs st1)"

text \<open>
  The rules of \<^verbatim>\<open>bytestring.h\<close>. A call is made on an open \<^verbatim>\<open>CBB\<close>: the top-level one, or a child that was not closed by
  the use of an ancestor, that is not a local variable of a library function, and whose buffer was not
  freed. \<^verbatim>\<open>CBB_cleanup\<close> is for the top-level \<^verbatim>\<open>CBB\<close>, and \<^verbatim>\<open>CBB_did_write\<close> needs a buffer. After a failure the header
  allows \<^verbatim>\<open>CBB_cleanup\<close> only; here everything is allowed then but \<^verbatim>\<open>CBB_discard_child\<close>.
\<close>

definition cbb_open :: "nat \<Rightarrow> cbb_state \<Rightarrow> bool" where
  "cbb_open d st \<longleftrightarrow> cbb_at d st \<and> \<not> cb_gone (cs_chain st ! d)"

fun cbb_may :: "cbb_call \<Rightarrow> nat \<Rightarrow> cbb_state \<Rightarrow> bool" where
  "cbb_may Discard d st \<longleftrightarrow> cbb_open d st \<and> \<not> cbb_dead st"
| "cbb_may (DidWrite n) d st \<longleftrightarrow> cbb_open d st \<and> cs_base st \<noteq> None"
| "cbb_may Cleanup d st \<longleftrightarrow> cbb_open d st \<and> \<not> cb_is_child (cs_chain st ! d)"
| "cbb_may _ d st \<longleftrightarrow> cbb_open d st"

fun cbb_client :: "(nat \<times> cbb_call) list \<Rightarrow> cbb_state \<Rightarrow> bool" where
  "cbb_client [] st \<longleftrightarrow> True"
| "cbb_client ((d, c) # cs) st \<longleftrightarrow> cbb_may c d st \<and> cbb_client cs (snd (cbb_exec c d st))"

text \<open>The calls that begin with a flush, apart from \<^verbatim>\<open>CBB_finish\<close>.\<close>

fun is_adding :: "cbb_call \<Rightarrow> bool" where
  "is_adding (DidWrite _) \<longleftrightarrow> False"
| "is_adding Discard \<longleftrightarrow> False"
| "is_adding (Finish _) \<longleftrightarrow> False"
| "is_adding Cleanup \<longleftrightarrow> False"
| "is_adding _ \<longleftrightarrow> True"

lemma may_at: "cbb_may c d st \<Longrightarrow> cbb_at d st"
  by (cases c) (simp_all add: cbb_open_def)

lemma flushed_fine:
  assumes "cbb_inv st" "cbb_at d st" "\<And>st1. cbb_inv st1 \<Longrightarrow> cbb_ready d st1 \<Longrightarrow> cbb_fine (k st1)"
  shows "cbb_fine (seq_ok (CBB_flush d st) (\<lambda>_ st1. k st1))"
  using flush_fine [OF assms(1,2)] by (intro fine_seq) (auto intro: assms(3))

text \<open>What begins with a flush may be looked at from a flushed state.\<close>

lemma fine_from_ready:
  assumes "cbb_inv st" "cbb_at d st" "\<And>st1. op st1 = seq_ok (CBB_flush d st1) (\<lambda>_ st2. k st2)"
    and "\<And>st1. cbb_inv st1 \<Longrightarrow> cbb_ready d st1 \<Longrightarrow> cbb_fine (op st1)"
  shows "cbb_fine (op st)"
  unfolding assms(3) [of st]
proof (rule flushed_fine [OF assms(1,2)])
  fix st1 assume st1: "cbb_inv st1" "cbb_ready d st1"
  have "op st1 = k st1" unfolding assms(3) [of st1] flush_ready [OF st1(2)] by simp
  then show "cbb_fine (k st1)" using assms(4) [OF st1] by simp
qed

lemma Ok_from_ready:
  assumes "cbb_inv st" "cbb_at d st" "\<And>st1. op st1 = seq_ok (CBB_flush d st1) (\<lambda>_ st2. k st2)" "op st = (Ok a, st')"
  shows "\<exists>st1. cbb_inv st1 \<and> cbb_ready d st1 \<and> op st1 = (Ok a, st')"
proof -
  from assms(4) obtain u st1 where st1: "CBB_flush d st = (Ok u, st1)" "k st1 = (Ok a, st')"
    unfolding assms(3) [of st] by (auto simp: seq_ok_eq_Ok)
  then have "cbb_inv st1" "cbb_ready d st1" using flush_fine [OF assms(1,2)] by (auto simp: cbb_fine_def)
  moreover from this(2) have "op st1 = (Ok a, st')" unfolding assms(3) [of st1] by (simp add: flush_ready st1(2))
  ultimately show ?thesis by blast
qed

text \<open>The child of the call itself: it is used, and it is closed by the flush at the end.\<close>

lemma opens_then:
  assumes "opens d r" "\<And>st1. cbb_inv st1 \<Longrightarrow> cbb_ready (Suc d) st1 \<Longrightarrow> grows (Suc d) st1 (k st1)"
  shows "cbb_fine (seq_ok r (\<lambda>_ st1. local_child d (seq_ok (k st1) (\<lambda>_ st2. CBB_flush d st2))))"
proof (rule fine_seq)
  show "cbb_fine r" using assms(1) by (simp add: opens_def)
  fix a st1 assume r: "r = (Ok a, st1)" "cbb_inv st1"
  then have ready: "cbb_ready (Suc d) st1" using assms(1) by (simp add: opens_def)
  show "cbb_fine (local_child d (seq_ok (k st1) (\<lambda>_ st2. CBB_flush d st2)))"
  proof (rule local_child_fine, rule fine_grows_seq [OF assms(2) [OF r(2) ready]])
    fix st2 :: cbb_state assume "cbb_inv st2" "cbb_ready (Suc d) st2"
    moreover from this(2) have "cbb_at d st2" by (auto simp: cbb_ready_def cbb_ok_def cbb_at_def)
    ultimately show "cbb_fine (CBB_flush d st2)" using flush_fine by blast
  qed
qed

lemma opens_fine: "opens d r \<Longrightarrow> cbb_fine r"
  by (simp add: opens_def)

lemma add_u_fine:
  "cbb_inv st \<Longrightarrow> cbb_at d st \<Longrightarrow> n \<le> 8 \<Longrightarrow> cbb_fine (seq_ok (CBB_flush d st) (\<lambda>_ st1. cbb_buffer_add_u v n st1))"
  by (rule flushed_fine) (auto intro: grows_fine [OF add_u_grows])

lemma add_bytes_grows:
  assumes "cbb_inv st" "cbb_ready d st"
  shows "grows d st (CBB_add_bytes bs (of_nat (length bs)) d st)"
proof -
  have "unat (of_nat (length bs) :: u64) \<le> length bs" by (simp add: unat_of_nat)
  then show ?thesis
    using add_poke_grows' [OF assms, of "take (unat (of_nat (length bs) :: u64)) bs" "of_nat (length bs)"]
    by (simp add: CBB_add_bytes_def flush_ready [OF assms(2)])
qed

lemma element_fine:
  assumes "cbb_inv st" "cbb_at d st" "\<And>st1. cbb_inv st1 \<Longrightarrow> cbb_ready (Suc d) st1 \<Longrightarrow> grows (Suc d) st1 (k st1)"
  shows "cbb_fine (seq_ok (CBB_add_asn1 t d st) (\<lambda>_ st1. local_child d (seq_ok (k st1) (\<lambda>_ st2. CBB_flush d st2))))"
proof (rule fine_from_ready [OF assms(1,2)])
  show "cbb_fine (seq_ok (CBB_add_asn1 t d st1) (\<lambda>_ st1. local_child d (seq_ok (k st1) (\<lambda>_ st2. CBB_flush d st2))))"
    if "cbb_inv st1" "cbb_ready d st1" for st1
    by (rule opens_then [OF add_asn1_opens_fine [OF that] assms(3)])
qed (simp only: CBB_add_asn1_def seq_ok_assoc)

lemma uint64_fine: "cbb_inv st \<Longrightarrow> cbb_at d st \<Longrightarrow> cbb_fine (CBB_add_asn1_uint64 v d st)"
proof -
  assume inv: "cbb_inv st" "cbb_at d st"
  have eq: "CBB_add_asn1_uint64 v d st = seq_ok (CBB_add_asn1 CBS_ASN1_INTEGER d st) (\<lambda>_ st1.
     local_child d (seq_ok (seq_ok (uint64_bytes [0..<8] v False (Suc d) st1) (\<lambda>started st2.
       if \<not> started then CBB_add_u8 0 (Suc d) st2 else (Ok (), st2))) (\<lambda>_ st3. CBB_flush d st3)))"
    by (simp only: CBB_add_asn1_uint64_def seq_ok_assoc)
  show ?thesis unfolding eq
    by (rule element_fine [OF inv]) (auto intro!: grows_seq uint64_bytes_grows add_u8_grows grows_Ok)
qed

lemma reserve_write_fine:
  assumes "cbb_inv st" "cbb_at d st"
  shows "cbb_fine (cbb_exec (Reserve n bs) d st)"
proof -
  have "cbb_fine (seq_ok (cbb_buffer_reserve n st1) (\<lambda>p st2. cbb_poke p (take (unat n) bs) st2))"
    if st1: "cbb_inv st1" "cbb_ready d st1" for st1
  proof (rule fine_seq [OF reserve_fine(1) [OF st1(1)]])
    fix p st2 assume r: "cbb_buffer_reserve n st1 = (Ok p, st2)" "cbb_inv st2"
    then obtain b where b: "cs_base st2 = Some b" "p = bb_len b" "unat (bb_len b) + unat n \<le> unat (bb_cap b)"
      using reserve_fine(2) [OF st1(1)] by blast
    then have "unat p + length (take (unat n) bs) \<le> unat (bb_cap b)" by simp
    with poke_fine_cap [OF r(2) b(1), of p "take (unat n) bs"]
    show "cbb_fine (cbb_poke p (take (unat n) bs) st2)" by (auto simp: fine_Ok)
  qed
  then show ?thesis unfolding cbb_exec.simps CBB_reserve_def seq_ok_assoc by (rule flushed_fine [OF assms])
qed

section \<open>The other calls\<close>

text \<open>They may fail without an error of the buffer.\<close>

definition cbb_safe :: "'a outcome \<times> cbb_state \<Rightarrow> bool" where
  "cbb_safe r \<longleftrightarrow> fst r \<noteq> Undef \<and> cbb_inv (snd r)"

lemma fine_safe: "cbb_fine r \<Longrightarrow> cbb_safe r"
  by (simp add: cbb_fine_def cbb_safe_def)

lemma did_write_safe:
  assumes "cbb_inv st" "cbb_may (DidWrite n) d st"
  shows "cbb_safe (CBB_did_write n d st)"
proof -
  obtain b where b: "cs_base st = Some b" and d: "d < length (cs_chain st)"
    using assms(2) by (auto simp: cbb_open_def cbb_at_def)
  show ?thesis
  proof (cases "Suc d < length (cs_chain st) \<or> bb_len b + n < bb_len b \<or> bb_cap b < bb_len b + n")
    case True
    then show ?thesis using b d assms(1) by (simp add: CBB_did_write_def Let_def cbb_safe_def)
  next
    case False
    then have "unat (bb_len b) \<le> unat (bb_len b + n)" by (simp add: word_less_nat_alt)
    then show ?thesis using False b d chain_ok_mono cbb_invD [OF assms(1) b]
      by (auto simp: CBB_did_write_def Let_def cbb_safe_def cbb_inv_def not_less)
  qed
qed

lemma discard_safe:
  assumes inv: "cbb_inv st" and may: "cbb_may Discard d st"
  shows "cbb_safe (CBB_discard_child d st)"
proof (cases "length (cs_chain st) \<le> Suc d")
  case True
  then show ?thesis using inv by (simp add: CBB_discard_child_def cbb_safe_def)
next
  case False
  then have d: "Suc d < length (cs_chain st)" by simp
  obtain b where b: "cs_base st = Some b" "\<not> bb_error b" using may by (auto simp: cbb_dead_def split: option.splits)
  let ?ch = "cs_chain st"
  note i = cbb_invD [OF inv b(1)]
  have ng: "\<not> cb_gone (?ch ! Suc d)" using i(4) b(2) d nth_mem by blast
  have "cb_end c \<le> unat (cb_offset (?ch ! Suc d))" if c: "c \<in> set (take (Suc d) ?ch)" for c
  proof -
    obtain j where "j < Suc d" "c = ?ch ! j" using c d by (auto simp: in_set_conv_nth)
    then show ?thesis using i(3) d by (auto simp: chain_ok_def sorted_wrt_iff_nth_less)
  qed
  then have "chain_ok (take (Suc d) ?ch) (unat (cb_offset (?ch ! Suc d)))"
    using chain_ok_take [OF i(3), of "Suc d"] by (auto simp: chain_ok_def)
  moreover have "cb_end (?ch ! Suc d) \<le> unat (bb_len b)" using i(3) d by (simp add: chain_ok_def)
  then have "unat (cb_offset (?ch ! Suc d)) \<le> unat (bb_len b)" by (simp add: cb_end_def)
  ultimately show ?thesis using b d i ng
    by (auto simp: CBB_discard_child_def cbb_safe_def cbb_inv_def word_le_nat_alt dest: in_set_takeD)
qed

lemma CBB_finish_safe:
  assumes inv: "cbb_inv st" and at: "cbb_at 0 st"
  shows "cbb_safe (CBB_finish outs st)"
proof (cases "cs_chain st = [] \<or> cb_is_child (hd (cs_chain st))")
  case top: False
  obtain r st1 where r: "CBB_flush 0 st = (r, st1)" by force
  note f = flush_fine [OF inv at, unfolded r]
  show ?thesis
  proof (cases r)
    case (Ok u)
    with f have st1: "cbb_ready 0 st1" "cs_chain st1 = take 1 (cs_chain st)" "cbb_inv st1"
      by (auto simp: cbb_fine_def)
    then obtain b where "cs_base st1 = Some b" by (auto simp: cbb_ready_def cbb_ok_def)
    then show ?thesis using top r Ok st1
      by (cases "cs_chain st") (auto simp: CBB_finish_def CBB_cleanup_def cbb_safe_def cbb_inv_def)
  qed (use f r top in \<open>auto simp: CBB_finish_def cbb_safe_def cbb_fine_def\<close>)
qed (use inv in \<open>simp add: CBB_finish_def cbb_safe_def\<close>)

lemma finish_safe:
  assumes "cbb_inv st" "cbb_at d st"
  shows "cbb_safe (cbb_exec (Finish outs) d st)"
proof -
  have "cbb_safe (CBB_finish outs st)" using assms by (intro CBB_finish_safe) (auto simp: cbb_at_def)
  then show ?thesis using assms(1)
    by (cases "CBB_finish outs st"; cases "fst (CBB_finish outs st)") (auto simp: cbb_safe_def)
qed

lemma adding_fine:
  assumes "cbb_inv st" "cbb_at d st" "is_adding c"
  shows "cbb_fine (cbb_exec c d st)"
proof (cases c)
  case (AddBytes bs)
  show ?thesis unfolding AddBytes cbb_exec.simps
    by (rule fine_from_ready [OF assms(1,2) CBB_add_bytes_def]) (rule grows_fine [OF add_bytes_grows])
next
  case (Zeros n)
  show ?thesis unfolding Zeros cbb_exec.simps CBB_add_zeros_def CBB_add_space_def seq_ok_assoc
    by (rule flushed_fine [OF assms(1,2)]) (auto intro: grows_fine [OF add_poke_grows'])
next
  case (Space n bs)
  show ?thesis unfolding Space cbb_exec.simps CBB_add_space_def seq_ok_assoc
    by (rule flushed_fine [OF assms(1,2)]) (auto intro: grows_fine [OF add_poke_grows'])
next
  case (Reserve n bs) then show ?thesis using reserve_write_fine [OF assms(1,2)] by simp
next
  case U8Child
  show ?thesis unfolding U8Child cbb_exec.simps CBB_add_u8_length_prefixed_def
    by (rule fine_from_ready [OF assms(1,2) cbb_add_length_prefixed_def])
      (simp add: opens_fine [OF length_prefixed_opens])
next
  case U16Child
  show ?thesis unfolding U16Child cbb_exec.simps CBB_add_u16_length_prefixed_def
    by (rule fine_from_ready [OF assms(1,2) cbb_add_length_prefixed_def])
      (simp add: opens_fine [OF length_prefixed_opens])
next
  case U24Child
  show ?thesis unfolding U24Child cbb_exec.simps CBB_add_u24_length_prefixed_def
    by (rule fine_from_ready [OF assms(1,2) cbb_add_length_prefixed_def])
      (simp add: opens_fine [OF length_prefixed_opens])
next
  case (Asn1Child t)
  show ?thesis unfolding Asn1Child cbb_exec.simps
    by (rule fine_from_ready [OF assms(1,2) CBB_add_asn1_def]) (rule opens_fine [OF add_asn1_opens_fine])
next
  case (AddUint64 v) then show ?thesis using uint64_fine [OF assms(1,2)] by simp
next
  case (AddInt64 v)
  then show ?thesis using uint64_fine [OF assms(1,2)]
    by (auto simp: CBB_add_asn1_int64_def Let_def intro!: element_fine [OF assms(1,2)] int64_bytes_grows)
next
  case (AddOctets bs)
  then show ?thesis by (auto simp: CBB_add_asn1_octet_string_def intro!: element_fine [OF assms(1,2)] add_bytes_grows)
next
  case (AddBool v)
  then show ?thesis by (auto simp: CBB_add_asn1_bool_def intro!: element_fine [OF assms(1,2)] add_u8_grows)
next
  case Flush then show ?thesis using flush_fine [OF assms(1,2)] by simp
qed (use assms in \<open>auto simp: CBB_add_u8_def CBB_add_u16_def CBB_add_u16le_def CBB_add_u24_def CBB_add_u32_def
    CBB_add_u32le_def CBB_add_u64_def CBB_add_u64le_def intro!: add_u_fine\<close>)

lemma exec_safe:
  assumes "cbb_inv st" "cbb_may c d st"
  shows "cbb_safe (cbb_exec c d st)"
proof (cases "is_adding c")
  case True then show ?thesis by (rule fine_safe [OF adding_fine [OF assms(1) may_at [OF assms(2)]]])
next
  case False
  then consider n where "c = DidWrite n" | "c = Discard" | outs where "c = Finish outs" | "c = Cleanup"
    by (cases c) auto
  then show ?thesis
  proof cases
    case 1 then show ?thesis using did_write_safe assms by simp
  next
    case 2 then show ?thesis using discard_safe assms by simp
  next
    case 3 then show ?thesis using finish_safe [OF assms(1) may_at [OF assms(2)]] by blast
  next
    case 4 then show ?thesis using assms by (simp add: CBB_cleanup_def cbb_safe_def cbb_inv_def)
  qed
qed

section \<open>Runs\<close>

lemma run_safe: "cbb_inv st \<Longrightarrow> cbb_client cs st \<Longrightarrow> \<exists>st'. cbb_run cs st = Some st' \<and> cbb_inv st'"
proof (induction cs arbitrary: st)
  case (Cons c cs)
  obtain d call where c: "c = (d, call)" by force
  obtain r st1 where r: "cbb_exec call d st = (r, st1)" by force
  have "cbb_may call d st" "cbb_client cs st1" using Cons.prems(2) c r by simp_all
  with exec_safe [OF Cons.prems(1), of call d] r have "r \<noteq> Undef" "cbb_inv st1" by (simp_all add: cbb_safe_def)
  with Cons.IH [of st1] \<open>cbb_client cs st1\<close> r c show ?case by (cases r) auto
qed simp

lemma init_inv: "cbb_inv (snd (CBB_init cap st))"
  by (auto simp: CBB_init_def cbb_malloc_def CBB_zero_def cbb_init_def cbb_inv_def chain_ok_def cb_end_def
      split: list.splits bool.splits)

lemma init_at: "cbb_at 0 (snd (CBB_init cap st))"
  by (auto simp: CBB_init_def cbb_malloc_def CBB_zero_def cbb_init_def cbb_at_def split: list.splits bool.splits)

lemma init_fixed_inv: "length buf = unat n \<Longrightarrow> cbb_inv (snd (CBB_init_fixed buf n st))"
  by (auto simp: CBB_init_fixed_def cbb_malloc_def CBB_zero_def cbb_init_def cbb_inv_def chain_ok_def cb_end_def
      split: list.splits bool.splits)

lemma start_inv:
  "length buf = unat len \<Longrightarrow> st = snd (CBB_init cap fresh) \<or> st = snd (CBB_init_fixed buf len fresh) \<Longrightarrow> cbb_inv st"
  using init_inv init_fixed_inv by blast


definition blank :: "bool list \<Rightarrow> cbb_state" where
  "blank mallocs = \<lparr>cs_base = None, cs_chain = [], cs_mallocs = mallocs, cs_fill = 0xcc\<rparr>"

text \<open>The last number does not fit, its child is left behind, and the client goes on.\<close>

definition sample_calls :: "(nat \<times> cbb_call) list" where
  "sample_calls = [(0, Asn1Child 0x30), (1, AddU16 7), (1, U8Child), (2, AddBytes [1, 2]), (1, Discard), (0, Reserve 1 [9]),
     (0, DidWrite 1), (0, AddUint64 0x10203), (0, AddU32 9), (0, DidWrite 1), (0, Cleanup), (0, Flush)]"


section \<open>Errors are sticky\<close>

lemma flush_dead: "cbb_dead st \<Longrightarrow> cbb_at d st \<Longrightarrow> CBB_flush d st = (Fail, st)"
  by (subst CBB_flush.simps) (auto simp: cbb_dead_def cbb_at_def split: option.splits)

lemma asn1_dead: "cbb_dead st \<Longrightarrow> cbb_at d st \<Longrightarrow> CBB_add_asn1 t d st = (Fail, st)"
  by (simp add: CBB_add_asn1_def flush_dead)

lemma at_first: "cbb_at d st \<Longrightarrow> cbb_at 0 st"
  by (auto simp: cbb_at_def)

lemma exec_dead: "cbb_dead st \<Longrightarrow> cbb_at d st \<Longrightarrow> is_adding c \<or> (\<exists>outs. c = Finish outs) \<Longrightarrow> cbb_exec c d st = (Fail, st)"
  using at_first [of d st]
  by (cases c) (simp_all add: CBB_add_u8_def CBB_add_u16_def CBB_add_u16le_def CBB_add_u24_def CBB_add_u32_def
      CBB_add_u32le_def CBB_add_u64_def CBB_add_u64le_def CBB_add_bytes_def CBB_add_zeros_def CBB_add_space_def
      CBB_reserve_def CBB_add_u8_length_prefixed_def CBB_add_u16_length_prefixed_def CBB_add_u24_length_prefixed_def
      cbb_add_length_prefixed_def CBB_add_asn1_uint64_def CBB_add_asn1_int64_def CBB_add_asn1_octet_string_def
      CBB_add_asn1_bool_def CBB_finish_def asn1_dead flush_dead Let_def)

lemma exec_stays_dead: "cbb_dead st \<Longrightarrow> cbb_may c d st \<Longrightarrow> cbb_dead (snd (cbb_exec c d st))"
proof (cases "is_adding c \<or> (\<exists>outs. c = Finish outs)")
  case False
  moreover assume "cbb_dead st" "cbb_may c d st"
  ultimately show ?thesis
    by (cases c) (auto simp: CBB_did_write_def CBB_cleanup_def cbb_dead_def Let_def split: option.splits)
qed (simp add: exec_dead may_at)

lemma run_stays_dead: "cbb_dead st \<Longrightarrow> cbb_client cs st \<Longrightarrow> cbb_run cs st = Some st' \<Longrightarrow> cbb_dead st'"
proof (induction cs arbitrary: st)
  case (Cons c cs)
  obtain d call where c: "c = (d, call)" by force
  obtain r st1 where r: "cbb_exec call d st = (r, st1)" by force
  have "cbb_dead st1" using exec_stays_dead [OF Cons.prems(1), of call d] Cons.prems(2) r c by simp
  moreover have "cbb_run cs st1 = Some st'" using Cons.prems(3) r c by (cases r) auto
  moreover have "cbb_client cs st1" using Cons.prems(2) c r by simp
  ultimately show ?case using Cons.IH by blast
qed simp


text \<open>The third byte does not fit; \<^verbatim>\<open>CBB_did_write\<close> still succeeds.\<close>

definition full_state :: cbb_state where
  "full_state = snd (cbb_exec (AddU8 1) 0 (snd (CBB_init_fixed [0, 0] 2 (blank []))))"


end
