(* ===== verification/Cbb_Values.thy ===== *)
theory Cbb_Values
  imports Cbb_Laws
begin

text \<open>
  The ASN.1 values of \<^verbatim>\<open>cbb.c\<close> and \<^verbatim>\<open>cbs.c\<close>: Booleans, integers and octet strings. Each has one
  encoding; the writer of the builder and the parser of the reader are interpretations of the two
  contracts with that encoding. The locale \<open>der_value\<close> joins them: what is built is parsed back, one
  value or a sequence.
\<close>

section \<open>From the builder to the reader\<close>

text \<open>A sequence of values written one after the other and parsed one after the other.\<close>

fun write_all :: "('a \<Rightarrow> nat \<Rightarrow> cbb_state \<Rightarrow> unit outcome \<times> cbb_state) \<Rightarrow> 'a list \<Rightarrow> nat \<Rightarrow> cbb_state \<Rightarrow>
    unit outcome \<times> cbb_state" where
  "write_all op [] d st = (Ok (), st)"
| "write_all op (x # xs) d st = seq_ok (op x d st) (\<lambda>_ st1. write_all op xs d st1)"

primrec read_all :: "(CBS \<Rightarrow> 'a outcome \<times> CBS) \<Rightarrow> nat \<Rightarrow> CBS \<Rightarrow> 'a list outcome \<times> CBS" where
  "read_all get 0 s = (Ok [], s)"
| "read_all get (Suc n) s = seq_ok (get s) (\<lambda>x s1. seq_ok (read_all get n s1) (\<lambda>xs s2. (Ok (x # xs), s2)))"

locale der_value = writer: cbb_writer op put good + reader: cbs_codec get put good
  for op :: "'a \<Rightarrow> nat \<Rightarrow> cbb_state \<Rightarrow> unit outcome \<times> cbb_state"
    and get :: "CBS \<Rightarrow> 'a outcome \<times> CBS" and put good
begin

lemma write_all_extends:
  assumes "\<forall>x \<in> set xs. good x" "cbb_ready d st" "cbb_room (length (concat (map put xs))) st"
  shows "\<exists>st'. write_all op xs d st = (Ok (), st') \<and> extends st (concat (map put xs)) st'"
  using assms
proof (induction xs arbitrary: st)
  case Nil
  then show ?case by (simp add: cbb_ready_def extends_refl)
next
  case (Cons x xs)
  obtain st1 where st1: "op x d st = (Ok (), st1)" "extends st (put x) st1" "cbb_ready d st1"
      "cbb_room (length (concat (map put xs))) st1"
    using writer.op_then [of x d st "length (concat (map put xs))"] Cons.prems by auto
  with Cons.IH [of st1] Cons.prems(1) show ?case by (auto intro: extends_trans)
qed

lemma read_all_put:
  assumes "\<forall>x \<in> set xs. good x" "cbs_wf s" "cbs_bytes s = concat (map put xs) @ rest"
  shows "read_all get (length xs) s = (Ok xs, cbs_adv (length (concat (map put xs))) s)"
  using assms
proof (induction xs arbitrary: s)
  case (Cons x xs)
  have "get s = (Ok x, cbs_adv (length (put x)) s)"
    using Cons.prems by (intro reader.get_put [of s x "concat (map put xs) @ rest"]) auto
  with Cons show ?case by simp
qed simp

text \<open>Built on an empty top-level builder and finished, the values come back from the reader, and
  nothing is left.\<close>

lemma build_parse:
  assumes "\<forall>x \<in> set xs. good x" "cbb_ready 0 st" "cbb_out st = []"
    and "\<not> cb_is_child (cs_chain st ! 0)" "cbb_room (length (concat (map put xs))) st"
  shows "\<exists>st1 buf len st2 rest. write_all op xs 0 st = (Ok (), st1) \<and>
     CBB_finish True st1 = (Ok (buf, len), st2) \<and> take (unat len) buf = concat (map put xs) \<and>
     read_all get (length xs) (CBS_init buf (unat len)) = (Ok xs, rest) \<and> CBS_len rest = 0"
proof -
  obtain st1 where st1: "write_all op xs 0 st = (Ok (), st1)" "extends st (concat (map put xs)) st1"
    using write_all_extends [OF assms(1,2,5)] by blast
  have r1: "cbb_ready 0 st1" by (rule extends_ready [OF st1(2) assms(2)])
  then have ok: "cbb_ok st1" by (simp add: cbb_ready_def)
  obtain b where b: "cs_base st1 = Some b" "length (bb_buf b) = unat (bb_cap b)"
      "unat (bb_len b) \<le> unat (bb_cap b)" "cbb_out st1 = take (unat (bb_len b)) (bb_buf b)"
      "length (cbb_out st1) = unat (bb_len b)"
    by (rule cbb_okE [OF ok])
  have out: "take (unat (bb_len b)) (bb_buf b) = concat (map put xs)"
    using st1(2) assms(3) b(4) by (simp add: extends_def)
  have ch: "cs_chain st1 = cs_chain st" using st1(2) by (simp add: extends_def)
  then have "cs_chain st1 \<noteq> []" "\<not> cb_is_child (hd (cs_chain st1))"
    using assms(2,4) by (auto simp: cbb_ready_def hd_conv_nth length_Suc_conv)
  then have fin: "CBB_finish True st1 = (Ok (bb_buf b, bb_len b), st1\<lparr>cs_base := None\<rparr>)"
    by (simp add: CBB_finish_def CBB_cleanup_def hd_conv_nth flush_ready [OF r1] b(1))
  let ?s = "CBS_init (bb_buf b) (unat (bb_len b))"
  have wf: "cbs_wf ?s" using b(2,3) unat_u64_less [of "bb_len b"] by simp
  have "cbs_bytes ?s = concat (map put xs) @ []" using out by simp
  from read_all_put [OF assms(1) wf this]
  have "read_all get (length xs) ?s = (Ok xs, cbs_adv (length (concat (map put xs))) ?s)" .
  moreover have "length (concat (map put xs)) = unat (bb_len b)" using b(5) out b(4) by metis
  ultimately show ?thesis using st1(1) fin out
    by (intro exI [of _ st1] exI [of _ "bb_buf b"] exI [of _ "bb_len b"] exI [of _ "st1\<lparr>cs_base := None\<rparr>"]
        exI [of _ "cbs_adv (unat (bb_len b)) ?s"]) (simp add: CBS_len_def)
qed

end

interpretation v8: der_value CBB_add_u8 CBS_get_u8 "\<lambda>b. [b]" "\<lambda>_. True" ..
interpretation v16: der_value CBB_add_u16 CBS_get_u16 "\<lambda>v. be_bytes 2 (unat v)" "\<lambda>_. True" ..
interpretation v24: der_value CBB_add_u24 CBS_get_u24 "\<lambda>v. be_bytes 3 (unat v)" "\<lambda>v. v < 2 ^ 24" ..
interpretation v32: der_value CBB_add_u32 CBS_get_u32 "\<lambda>v. be_bytes 4 (unat v)" "\<lambda>_. True" ..
interpretation v64: der_value CBB_add_u64 CBS_get_u64 "\<lambda>v. be_bytes 8 (unat v)" "\<lambda>_. True" ..
interpretation v128: der_value add_base128_integer parse_base128_integer "\<lambda>v. b128 (unat v)" "\<lambda>_. True" ..

section \<open>Elements of a known tag\<close>

lemma get_asn1_der:
  assumes "cbs_wf s" "cbs_bytes s = der_element (tag, c) @ rest" "length c < 2 ^ 32"
  shows "\<exists>out. CBS_get_asn1 tag s = (Ok out, cbs_adv (length (der_element (tag, c))) s) \<and>
     cbs_wf out \<and> cbs_bytes out = c"
proof -
  obtain out where out: "CBS_get_any_asn1 s = (Ok (out, tag), cbs_adv (length (der_element (tag, c))) s)"
      "cbs_wf out" "cbs_bytes out = c"
    using get_any_asn1_der [OF assms] by blast
  from out(1) have "CBS_get_asn1 tag s = (Ok out, cbs_adv (length (der_element (tag, c))) s)"
    by (auto simp: CBS_get_any_asn1_def CBS_get_asn1_def cbs_get_asn1_def seq_ok_eq_Ok)
  with out(2,3) show ?thesis by blast
qed

subsection \<open>Booleans\<close>

definition bool_content :: "bool \<Rightarrow> byte list" where
  "bool_content v = [if v then 0xff else 0]"

interpretation vbool: der_value CBB_add_asn1_bool CBS_get_asn1_bool
  "\<lambda>v. der_element (CBS_ASN1_BOOLEAN, bool_content v)" "\<lambda>_. True"
proof (unfold_locales, goal_cases)
  case (1 v d st)
  then show ?case unfolding CBB_add_asn1_bool_def
    by (intro local_element_writes) (auto simp: bool_content_def intro: wu8.op_extends)
next
  case (2 s v rest)
  then obtain out where out: "CBS_get_asn1 CBS_ASN1_BOOLEAN s =
      (Ok out, cbs_adv (length (der_element (CBS_ASN1_BOOLEAN, bool_content v))) s)"
      "cbs_wf out" "cbs_bytes out = bool_content v"
    using get_asn1_der [of s CBS_ASN1_BOOLEAN "bool_content v" rest] by (auto simp: bool_content_def)
  then have "cbs_len out = 1" using length_cbs_bytes [OF out(2)] by (simp add: bool_content_def)
  moreover from one_byte [OF out(2) this] obtain b bs where "cbs_data out = b # bs" by blast
  ultimately show ?case using out(1,3)
    by (auto simp: CBS_get_asn1_bool_def CBS_len_def CBS_data_def cbs_bytes_def bool_content_def)
qed (auto simp: der_element_def)

subsection \<open>Octet strings\<close>

definition get_octets :: "CBS \<Rightarrow> byte list outcome \<times> CBS" where
  "get_octets s = seq_ok (CBS_get_asn1 CBS_ASN1_OCTETSTRING s) (\<lambda>out s1. (cbs_contents out, s1))"

interpretation voctets: der_value "\<lambda>bs. CBB_add_asn1_octet_string bs (of_nat (length bs))" get_octets
  "\<lambda>bs. der_element (CBS_ASN1_OCTETSTRING, bs)" "\<lambda>bs. length bs \<le> 0xfffffffe"
proof (unfold_locales, goal_cases)
  case (1 bs d st)
  then show ?case unfolding CBB_add_asn1_octet_string_def
    by (intro local_element_writes) (auto intro: wbytes.op_extends)
next
  case (2 s bs rest)
  then show ?case
    using get_asn1_der [of s CBS_ASN1_OCTETSTRING bs rest] by (auto simp: get_octets_def cbs_contents)
qed (auto simp: der_element_def)

subsection \<open>Unsigned integers\<close>

text \<open>The bytes without leading zeros, with a zero byte in front when the first has its top bit set.\<close>

definition uint_content :: "nat \<Rightarrow> byte list" where
  "uint_content n = (let m = dropWhile (\<lambda>b. b = 0) (be_bytes 8 n)
     in if m = [] then [0] else if 128 \<le> unat (hd m) then 0 # m else m)"

definition started_bytes :: "byte list \<Rightarrow> byte list" where
  "started_bytes bs = (let m = dropWhile (\<lambda>b. b = 0) bs
     in if m = [] then [] else if 128 \<le> unat (hd m) then 0 # m else m)"

definition uint64_byte :: "u64 \<Rightarrow> nat \<Rightarrow> byte" where
  "uint64_byte v i = ucast (drop_bit (8 * (7 - i)) v AND 0xff)"

lemma uint64_bytes_started:
  assumes "cbb_ready d st" "cbb_room (length is) st"
  shows "\<exists>st'. uint64_bytes is v True d st = (Ok True, st') \<and> extends st (map (uint64_byte v) is) st'"
  using assms
proof (induction "is" arbitrary: st)
  case Nil
  then show ?case by (simp add: cbb_ready_def extends_refl)
next
  case (Cons i "is")
  obtain st1 where st1: "CBB_add_u8 (uint64_byte v i) d st = (Ok (), st1)" "extends st [uint64_byte v i] st1"
      "cbb_ready d st1" "cbb_room (length is) st1"
    using wu8.op_then [of d st "uint64_byte v i" "length is"] Cons.prems by auto
  obtain st2 where st2: "uint64_bytes is v True d st1 = (Ok True, st2)" "extends st1 (map (uint64_byte v) is) st2"
    using Cons.IH [OF st1(3,4)] by blast
  have "uint64_bytes (i # is) v True d st = (Ok True, st2)"
    using st1(1) st2(1) by (simp add: Let_def uint64_byte_def)
  with extends_trans [OF st1(2) st2(2)] show ?case by auto
qed

lemma uint64_bytes_fresh:
  assumes "cbb_ready d st" "cbb_room (length (started_bytes (map (uint64_byte v) is))) st"
  shows "\<exists>st'. uint64_bytes is v False d st = (Ok (started_bytes (map (uint64_byte v) is) \<noteq> []), st') \<and>
    extends st (started_bytes (map (uint64_byte v) is)) st'"
  using assms
proof (induction "is" arbitrary: st)
  case Nil
  then show ?case by (simp add: cbb_ready_def extends_refl started_bytes_def)
next
  case (Cons i "is")
  let ?b = "uint64_byte v i" and ?rest = "map (uint64_byte v) is"
  show ?case
  proof (cases "?b = 0")
    case True
    with Cons show ?thesis by (simp add: started_bytes_def uint64_byte_def)
  next
    case False
    let ?pad = "if 128 \<le> unat ?b then [0] else []"
    have sb: "started_bytes (map (uint64_byte v) (i # is)) = ?pad @ ?b # ?rest"
      using False by (simp add: started_bytes_def)
    have pad: "\<exists>st1. (if ?b AND 0x80 \<noteq> 0 then CBB_add_u8 0 d st else (Ok (), st)) = (Ok (), st1) \<and>
        extends st ?pad st1"
      using wu8.op_extends [OF TrueI Cons.prems(1), of 0] cbb_room_mono [OF Cons.prems(2), of 1] Cons.prems(1)
      unfolding sb by (auto simp: byte_and_128_eq_0 extends_refl cbb_ready_def not_less)
    then obtain st1 where st1: "(if ?b AND 0x80 \<noteq> 0 then CBB_add_u8 0 d st else (Ok (), st)) = (Ok (), st1)"
        "extends st ?pad st1" by blast
    have r1: "cbb_ready d st1" by (rule extends_ready [OF st1(2) Cons.prems(1)])
    have "cbb_room (length ?pad + (1 + length is)) st"
      by (rule cbb_room_mono [OF Cons.prems(2)], unfold sb) simp
    from extends_room [OF st1(2) this] have room1: "cbb_room (length [?b] + length is) st1" by simp
    obtain st2 where st2: "CBB_add_u8 ?b d st1 = (Ok (), st2)" "extends st1 [?b] st2" "cbb_ready d st2"
        "cbb_room (length is) st2" by (rule wu8.op_then [OF TrueI r1 room1])
    obtain st3 where st3: "uint64_bytes is v True d st2 = (Ok True, st3)" "extends st2 ?rest st3"
      using uint64_bytes_started [OF st2(3,4)] by blast
    have "uint64_bytes (i # is) v False d st = (Ok True, st3)"
      using st1(1) st2(1) st3(1) False unfolding uint64_byte_def [symmetric]
      by (simp add: Let_def uint64_byte_def [symmetric])
    moreover have "extends st (?pad @ [?b] @ ?rest) st3"
      by (rule extends_trans [OF st1(2) extends_trans [OF st2(2) st3(2)]])
    ultimately show ?thesis unfolding sb by simp
  qed
qed

lemma map_uint64_byte: "map (uint64_byte v) [0..<8] = be_bytes 8 (unat v)"
proof -
  have b: "uint64_byte v i = of_nat (unat v div 2 ^ (8 * (7 - i)))" for i
    unfolding uint64_byte_def by (simp add: low_byte ucast_drop_bit)
  have "[0..<8] = [0, 1, 2, 3, 4, 5, 6, 7 :: nat]" by (simp add: upt_rec)
  then show ?thesis unfolding be_bytes_def le_bytes_8 by (simp add: b)
qed

lemma uint_content_started:
  "uint_content n = (if started_bytes (be_bytes 8 n) = [] then [0] else started_bytes (be_bytes 8 n))"
  by (simp add: uint_content_def started_bytes_def Let_def)

lemma uint64_body:
  assumes "cbb_ready d st" "cbb_room (length (uint_content (unat v))) st"
  shows "\<exists>r st'. seq_ok (uint64_bytes [0..<8] v False d st) (\<lambda>started st2.
      if \<not> started then CBB_add_u8 0 d st2 else (Ok (), st2)) = (Ok r, st') \<and>
    extends st (uint_content (unat v)) st'"
proof -
  let ?sb = "started_bytes (be_bytes 8 (unat v))"
  have "length ?sb \<le> length (uint_content (unat v))" by (simp add: uint_content_started)
  from uint64_bytes_fresh [OF assms(1) cbb_room_mono [OF assms(2)], of v "[0..<8]"] this
  obtain st1 where st1: "uint64_bytes [0..<8] v False d st = (Ok (?sb \<noteq> []), st1)" "extends st ?sb st1"
    unfolding map_uint64_byte by blast
  show ?thesis
  proof (cases "?sb = []")
    case True
    have "cbb_room (length ?sb + 1) st" using assms(2) True by (simp add: uint_content_started)
    from wu8.op_extends [OF TrueI extends_ready [OF st1(2) assms(1)], of 0] extends_room [OF st1(2) this]
    obtain st2 where "CBB_add_u8 0 d st1 = (Ok (), st2)" "extends st1 [0] st2" by auto
    with extends_trans [OF st1(2)] True st1(1) show ?thesis by (fastforce simp: uint_content_started)
  qed (use st1 in \<open>simp add: uint_content_started\<close>)
qed

lemma be_value_Cons: "be_value (b # bs) = unat b * 256 ^ length bs + be_value bs"
  by (simp add: be_value_def le_value_append)

lemma be_value_strip: "be_value (dropWhile (\<lambda>b. b = 0) bs) = be_value bs"
  by (induction bs) (simp_all add: be_value_Cons)

lemma be_value_uint: "n < 2 ^ 64 \<Longrightarrow> be_value (uint_content n) = n"
proof -
  assume "n < 2 ^ 64"
  then have "be_value (dropWhile (\<lambda>b. b = 0) (be_bytes 8 n)) = n"
    by (simp add: be_value_strip be_value_be_bytes)
  then show ?thesis
    by (cases "dropWhile (\<lambda>b. b = 0) (be_bytes 8 n)") (auto simp: uint_content_def Let_def be_value_Cons)
qed

lemma uint64_loop_be:
  "unat out * 256 ^ length bs + be_value bs < 2 ^ 64 \<Longrightarrow>
   uint64_loop bs out = Ok (of_nat (unat out * 256 ^ length bs + be_value bs))"
proof (induction bs arbitrary: out)
  case (Cons b bs)
  let ?o = "push_bit 8 out OR ucast b"
  have "unat out * 256 * 1 \<le> unat out * 256 * 256 ^ length bs" by (intro mult_le_mono2) simp
  also have "\<dots> \<le> unat out * 256 ^ length (b # bs)" by simp
  finally have lt: "unat out * 256 < 2 ^ 64" using Cons.prems by linarith
  then have o: "unat ?o = unat out * 256 + unat b" by (intro unat_shift_or_byte) simp_all
  have "unat (drop_bit 56 out) = 0" unfolding unat_drop_bit_div using lt by simp
  then have "drop_bit 56 out = 0" by (simp add: unat_eq_0)
  moreover have "unat ?o * 256 ^ length bs + be_value bs = unat out * 256 ^ length (b # bs) + be_value (b # bs)"
    unfolding o by (simp add: be_value_Cons algebra_simps)
  ultimately show ?case using Cons.IH [of ?o] Cons.prems by (simp del: of_nat_add of_nat_mult)
qed simp

lemma uint_content_cases:
  obtains b where "uint_content n = [b]" "unat b < 128"
  | b c bs where "uint_content n = b # c # bs" "unat b < 128" "\<not> (b = 0 \<and> unat c < 128)"
proof -
  let ?m = "dropWhile (\<lambda>b. b = 0) (be_bytes 8 n)"
  show thesis
  proof (cases ?m)
    case Nil
    then show thesis using that(1) [of 0] by (simp add: uint_content_def)
  next
    case (Cons b bs)
    then have nz: "b \<noteq> 0" using hd_dropWhile [of "\<lambda>b. b = 0" "be_bytes 8 n"] by fastforce
    show thesis
    proof (cases "128 \<le> unat b")
      case True
      then show thesis using that(2) [of 0 b bs] Cons by (simp add: uint_content_def)
    next
      case False
      then show thesis using that(1) [of b] that(2) [of b "hd bs" "tl bs"] Cons nz
        by (cases bs) (simp_all add: uint_content_def)
    qed
  qed
qed

lemma valid_integer_content:
  assumes "cbs_wf s"
  shows "cbs_bytes s = [b] \<Longrightarrow> CBS_is_valid_asn1_integer s = Ok (128 \<le> unat b)"
    and "cbs_bytes s = b # c # bs \<Longrightarrow> \<not> (b = 0 \<and> unat c < 128) \<Longrightarrow> \<not> (b = 0xff \<and> 128 \<le> unat c) \<Longrightarrow>
      CBS_is_valid_asn1_integer s = Ok (128 \<le> unat b)"
proof -
  show "cbs_bytes s = [b] \<Longrightarrow> CBS_is_valid_asn1_integer s = Ok (128 \<le> unat b)"
  proof -
    assume bs: "cbs_bytes s = [b]"
    have "cbs_len s = 1" using length_cbs_bytes [OF assms] bs by simp
    then have "CBS_get_u8 (cbs_adv 1 s) = (Fail, cbs_adv 1 s)" by (simp add: CBS_get_u8_def cbs_get)
    then show ?thesis using get_u8_Cons [OF assms bs]
      by (simp add: CBS_is_valid_asn1_integer_def byte_and_128_eq_0 not_less)
  qed
  show "cbs_bytes s = b # c # bs \<Longrightarrow> \<not> (b = 0 \<and> unat c < 128) \<Longrightarrow> \<not> (b = 0xff \<and> 128 \<le> unat c) \<Longrightarrow>
      CBS_is_valid_asn1_integer s = Ok (128 \<le> unat b)"
  proof -
    assume bs: "cbs_bytes s = b # c # bs" and *: "\<not> (b = 0 \<and> unat c < 128)" "\<not> (b = 0xff \<and> 128 \<le> unat c)"
    have "CBS_get_u8 (cbs_adv 1 s) = (Ok c, cbs_adv 1 (cbs_adv 1 s))"
      using assms bs by (intro get_u8_Cons) simp_all
    then show ?thesis using get_u8_Cons [OF assms bs] *
      by (auto simp: CBS_is_valid_asn1_integer_def byte_and_128_eq_0 not_less)
  qed
qed

lemma uint_content_valid:
  assumes "cbs_wf s" "cbs_bytes s = uint_content n"
  shows "CBS_is_valid_asn1_integer s = Ok False"
proof (rule uint_content_cases [of n])
  fix b assume "uint_content n = [b]" "unat b < 128"
  then show ?thesis using valid_integer_content(1) [OF assms(1)] assms(2) by simp
next
  fix b c bs assume *: "uint_content n = b # c # bs" "unat b < 128" "\<not> (b = 0 \<and> unat c < 128)"
  then have "\<not> (b = 0xff \<and> 128 \<le> unat c)" by auto
  then show ?thesis using valid_integer_content(2) [OF assms(1)] assms(2) * by simp
qed

lemma length_uint_content: "length (uint_content n) \<le> 9"
proof -
  have "length (dropWhile (\<lambda>b. b = 0) (be_bytes 8 n)) \<le> 8"
    using length_dropWhile_le [of _ "be_bytes 8 n"] by simp
  then show ?thesis by (auto simp: uint_content_def Let_def)
qed

lemma parse_uint64:
  assumes "cbs_wf s" "cbs_bytes s = der_element (CBS_ASN1_INTEGER, uint_content (unat v)) @ rest"
  shows "CBS_get_asn1_uint64 s =
    (Ok v, cbs_adv (length (der_element (CBS_ASN1_INTEGER, uint_content (unat v)))) s)"
proof -
  have "length (uint_content (unat v)) < 2 ^ 32" using length_uint_content [of "unat v"] by simp
  from get_asn1_der [OF assms this] obtain out where out:
    "CBS_get_asn1 CBS_ASN1_INTEGER s =
      (Ok out, cbs_adv (length (der_element (CBS_ASN1_INTEGER, uint_content (unat v)))) s)"
    "cbs_wf out" "cbs_bytes out = uint_content (unat v)" by blast
  have "uint64_loop (uint_content (unat v)) 0 = Ok v"
    using uint64_loop_be [of 0 "uint_content (unat v)"] unat_u64_less [of v]
    by (simp add: be_value_uint)
  then show ?thesis using out uint_content_valid [OF out(2,3)]
    by (simp add: CBS_get_asn1_uint64_def CBS_is_unsigned_asn1_integer_def cbs_contents)
qed

interpretation vuint: der_value CBB_add_asn1_uint64 CBS_get_asn1_uint64
  "\<lambda>v. der_element (CBS_ASN1_INTEGER, uint_content (unat v))" "\<lambda>_. True"
proof (unfold_locales, goal_cases)
  case (1 v d st)
  have len: "length (uint_content (unat v)) \<le> 0xfffffffe" using length_uint_content [of "unat v"] by simp
  have eq: "CBB_add_asn1_uint64 v d st = seq_ok (CBB_add_asn1 CBS_ASN1_INTEGER d st) (\<lambda>_ st1.
     local_child d (seq_ok (seq_ok (uint64_bytes [0..<8] v False (Suc d) st1) (\<lambda>started st2.
       if \<not> started then CBB_add_u8 0 (Suc d) st2 else (Ok (), st2))) (\<lambda>_ st3. CBB_flush d st3)))"
    by (simp only: CBB_add_asn1_uint64_def seq_ok_assoc)
  show ?case unfolding eq by (rule local_element_writes [OF 1(2,3) len]) (rule uint64_body)
qed (auto simp: parse_uint64 der_element_def)

subsection \<open>Signed integers\<close>

definition int_content :: "u64 \<Rightarrow> byte list" where
  "int_content v = (if 0 \<le> sint v then uint_content (unat v)
     else rev (take (Suc (int64_start (le_bytes 8 (unat v)) 7)) (le_bytes 8 (unat v))))"

lemma int64_bytes_writes:
  assumes "cbb_ready d st" "cbb_room (length bs) st"
  shows "\<exists>st'. int64_bytes bs d st = (Ok (), st') \<and> extends st bs st'"
  using assms
proof (induction bs arbitrary: st)
  case Nil
  then show ?case by (simp add: cbb_ready_def extends_refl)
next
  case (Cons b bs)
  obtain st1 where st1: "CBB_add_u8 b d st = (Ok (), st1)" "extends st [b] st1" "cbb_ready d st1"
      "cbb_room (length bs) st1"
    using wu8.op_then [of d st b "length bs"] Cons.prems by auto
  obtain st2 where "int64_bytes bs d st1 = (Ok (), st2)" "extends st1 bs st2"
    using Cons.IH [OF st1(3,4)] by blast
  with st1(1) extends_trans [OF st1(2)] show ?case by fastforce
qed

text \<open>The skipped bytes are all \<open>0xff\<close>, the first kept one has the sign bit, and it is needed.\<close>

lemma int64_start:
  assumes "128 \<le> unat (bytes ! k)"
  shows "int64_start bytes k \<le> k"
    and "\<forall>j. int64_start bytes k < j \<and> j \<le> k \<longrightarrow> bytes ! j = 0xff"
    and "128 \<le> unat (bytes ! int64_start bytes k)"
    and "\<forall>i. int64_start bytes k = Suc i \<longrightarrow> \<not> (bytes ! Suc i = 0xff \<and> 128 \<le> unat (bytes ! i))"
  using assms
proof (induction k)
  case (Suc k)
  { case 1 show ?case using Suc(1) 1 by (auto simp: byte_and_128_eq_0 le_Suc_eq)
  next case 2 show ?case using Suc(2) 2 by (auto simp: byte_and_128_eq_0 le_Suc_eq)
  next case 3 show ?case using Suc(3) 3 by (auto simp: byte_and_128_eq_0)
  next case 4 show ?case using Suc(4) 4 by (auto simp: byte_and_128_eq_0) }
qed auto

lemma sint_neg_top:
  fixes v :: u64
  assumes "\<not> 0 \<le> sint v"
  shows "128 \<le> unat (le_bytes 8 (unat v) ! 7)"
proof -
  have "bit v 63" using assms sint_neg_iff_bit [of v] by simp
  then have "2 ^ 63 \<le> unat v" by (simp add: bit_top_iff)
  then have "2 ^ 63 div 72057594037927936 \<le> unat v div 72057594037927936" by (intro div_le_mono) simp
  moreover have "unat v div 72057594037927936 < 256" using unat_u64_less [of v]
    by (simp add: div_less_iff_less_mult)
  ultimately show ?thesis by (simp add: le_bytes_8 unat_of_nat)
qed

lemma le_word_all: "(le_word (le_bytes 8 (unat (v :: u64))) :: u64) = v"
  using unat_u64_less [of v] by (simp add: word_unat_eq_iff unat_le_word le_value_le_bytes)

lemma int_content_negative:
  assumes neg: "\<not> 0 \<le> sint v" and s: "cbs_wf s" "cbs_bytes s = int_content v"
  shows "CBS_is_valid_asn1_integer s = Ok True" "length (int_content v) \<le> 8"
    "(le_word (rev (int_content v) @ replicate (8 - length (int_content v)) 0xff) :: u64) = v"
proof -
  let ?bs = "le_bytes 8 (unat v)"
  let ?k = "int64_start ?bs 7"
  note k = int64_start [OF sint_neg_top [OF neg]]
  have c: "int_content v = rev (take (Suc ?k) ?bs)" using neg by (simp add: int_content_def)
  have tk: "take (Suc ?k) ?bs = take ?k ?bs @ [?bs ! ?k]" using k(1) by (simp add: take_Suc_conv_app_nth)
  show "length (int_content v) \<le> 8" using c k(1) by simp
  have len: "length (int_content v) = Suc ?k" using c k(1) by simp
  have "drop (Suc ?k) ?bs = replicate (7 - ?k) 0xff"
    using k(2) by (intro nth_equalityI) auto
  then have "take (Suc ?k) ?bs @ replicate (7 - ?k) 0xff = ?bs" by (metis append_take_drop_id)
  then show "(le_word (rev (int_content v) @ replicate (8 - length (int_content v)) 0xff) :: u64) = v"
    using le_word_all [of v] len c by simp
  show "CBS_is_valid_asn1_integer s = Ok True"
  proof (cases ?k)
    case 0
    then have "cbs_bytes s = [?bs ! 0]" using s(2) c tk by simp
    then show ?thesis using valid_integer_content(1) [OF s(1)] k(3) 0 by simp
  next
    case (Suc i)
    have "take ?k ?bs = take i ?bs @ [?bs ! i]" using Suc k(1) by (simp add: take_Suc_conv_app_nth)
    then have "cbs_bytes s = ?bs ! ?k # ?bs ! i # rev (take i ?bs)" using s(2) c tk by simp
    moreover have "?bs ! ?k \<noteq> 0" using k(3) by auto
    moreover have "\<not> (?bs ! ?k = 0xff \<and> 128 \<le> unat (?bs ! i))" using k(4) Suc by simp
    ultimately show ?thesis using valid_integer_content(2) [OF s(1)] k(3) by simp
  qed
qed

lemma int_content_nonneg:
  assumes nn: "0 \<le> sint v"
  shows "length (uint_content (unat v)) \<le> 8"
    "(le_word (rev (uint_content (unat v)) @ replicate (8 - length (uint_content (unat v))) 0) :: u64) = v"
proof -
  let ?m = "dropWhile (\<lambda>b. b = 0) (be_bytes 8 (unat v))"
  have "\<not> bit v 63" using nn sint_neg_iff_bit [of v] by simp
  then have lt: "unat v < 2 ^ 63" by (simp add: bit_top_iff)
  have m: "length ?m \<le> 8" using length_dropWhile_le [of _ "be_bytes 8 (unat v)"] by simp
  have "\<not> (length ?m = 8 \<and> 128 \<le> unat (hd ?m))"
  proof
    assume *: "length ?m = 8 \<and> 128 \<le> unat (hd ?m)"
    then obtain b bs where b: "?m = b # bs" "length bs = 7" "128 \<le> unat b" by (cases ?m) auto
    have "be_value ?m = unat v" using unat_u64_less [of v] by (simp add: be_value_strip be_value_be_bytes)
    then have "unat b * 256 ^ 7 \<le> unat v" using b by (simp add: be_value_Cons)
    moreover have "128 * 256 ^ 7 \<le> unat b * 256 ^ 7" using b(3) by (intro mult_le_mono1)
    ultimately show False using lt by simp
  qed
  with m show len: "length (uint_content (unat v)) \<le> 8"
    by (auto simp: uint_content_def Let_def)
  have z: "le_value (xs @ replicate j 0) = le_value xs" for xs j
    by (induction j) (simp_all add: le_value_append)
  have "unat (le_word (rev (uint_content (unat v)) @ replicate (8 - length (uint_content (unat v))) 0) :: u64) =
      le_value (rev (uint_content (unat v)))"
    using len by (subst unat_le_word) (simp_all add: z)
  also have "\<dots> = unat v" using be_value_uint [of "unat v"] unat_u64_less [of v] by (simp add: be_value_def)
  finally show "(le_word (rev (uint_content (unat v)) @ replicate (8 - length (uint_content (unat v))) 0) :: u64) = v"
    by (simp add: word_unat_eq_iff)
qed

lemma int_content_parse:
  assumes "cbs_wf s" "cbs_bytes s = int_content v"
  shows "\<exists>neg. CBS_is_valid_asn1_integer s = Ok neg \<and> length (int_content v) \<le> 8 \<and>
    (le_word (rev (int_content v) @ replicate (8 - length (int_content v)) (if neg then 0xff else 0)) :: u64) = v"
proof (cases "0 \<le> sint v")
  case True
  then have c: "int_content v = uint_content (unat v)" by (simp add: int_content_def)
  show ?thesis using uint_content_valid [OF assms(1), of "unat v"] assms(2) int_content_nonneg [OF True]
    unfolding c by auto
next
  case False
  from int_content_negative [OF False assms] show ?thesis by auto
qed

lemma int_content_length: "length (int_content v) \<le> 9"
  using length_uint_content [of "unat v"] by (auto simp: int_content_def min_def)

interpretation vint: der_value CBB_add_asn1_int64 CBS_get_asn1_int64
  "\<lambda>v. der_element (CBS_ASN1_INTEGER, int_content v)" "\<lambda>_. True"
proof (unfold_locales, goal_cases)
  case (1 v d st)
  have len: "length (int_content v) \<le> 0xfffffffe" using int_content_length [of v] by simp
  show ?case
  proof (cases "0 \<le> sint v")
    case True
    with vuint.writer.op_extends [OF TrueI 1(2), of v] 1(3) show ?thesis
      by (simp add: CBB_add_asn1_int64_def int_content_def)
  next
    case False
    then have eq: "CBB_add_asn1_int64 v d st = seq_ok (CBB_add_asn1 CBS_ASN1_INTEGER d st) (\<lambda>_ st1.
        local_child d (seq_ok (int64_bytes (int_content v) (Suc d) st1) (\<lambda>_ st2. CBB_flush d st2)))"
      by (simp add: CBB_add_asn1_int64_def int_content_def Let_def)
    show ?thesis unfolding eq
      by (rule local_element_writes [OF 1(2,3) len]) (use int64_bytes_writes in blast)
  qed
next
  case (2 s v rest)
  have "length (int_content v) < 2 ^ 32" using int_content_length [of v] by simp
  from get_asn1_der [OF 2(1,3) this] obtain out where out:
    "CBS_get_asn1 CBS_ASN1_INTEGER s = (Ok out, cbs_adv (length (der_element (CBS_ASN1_INTEGER, int_content v))) s)"
    "cbs_wf out" "cbs_bytes out = int_content v" by blast
  have "cbs_len out = length (int_content v)" using length_cbs_bytes [OF out(2)] out(3) by simp
  with int_content_parse [OF out(2,3)] out show ?case
    by (auto simp: CBS_get_asn1_int64_def CBS_len_def cbs_contents)
qed (auto simp: der_element_def)

end
