(* ===== verification/Der_Sound.thy ===== *)
theory Der_Sound
  imports Der
begin

text \<open>
  The parsers of DER accept nothing but DER: whatever element \<^verbatim>\<open>cbs.c\<close> takes off a reader, the bytes
  it consumed are the one encoding of the tag and contents it returned. Together with the codecs
  this makes the parser and the encoding inverse to each other.
\<close>

lemma get_u8_Ok:
  assumes "cbs_wf s" "CBS_get_u8 s = (Ok b, s')"
  shows "cbs_bytes s = b # cbs_bytes s'" "cbs_wf s'" "s' = cbs_adv 1 s"
proof -
  have both: "cbs_bytes s = b # cbs_bytes s' \<and> s' = cbs_adv 1 s"
  proof (cases "cbs_bytes s")
    case Nil
    then have "cbs_len s = 0" using length_cbs_bytes [OF assms(1)] by simp
    with assms(2) show ?thesis by (simp add: CBS_get_u8_def cbs_get)
  next
    case (Cons c cs)
    with get_u8_Cons [OF assms(1) Cons] assms(2) show ?thesis by simp
  qed
  from both show "cbs_bytes s = b # cbs_bytes s'" by (rule conjunct1)
  from both show s': "s' = cbs_adv 1 s" by (rule conjunct2)
  show "cbs_wf s'" unfolding s' by (rule cbs_wf_adv [OF assms(1)])
qed

lemma of_nat_unat_byte: "unat b = n \<Longrightarrow> of_nat n = (b :: byte)"
  by auto

lemma base128_loop_sound:
  assumes "cbs_wf s" "base128_loop v s = (Ok w, s')"
  shows "\<exists>used. cbs_bytes s = used @ cbs_bytes s' \<and> b128 (unat w) = b128_high (unat v) @ used"
  using assms
proof (induction v s rule: base128_loop.induct)
  case (1 v s)
  from "1.prems"(2) obtain b s1 where b: "CBS_get_u8 s = (Ok b, s1)"
    by (subst (asm) base128_loop.simps) (auto simp: seq_ok_eq_Ok)
  note s1 = get_u8_Ok [OF "1.prems"(1) b]
  let ?v = "push_bit 7 v OR ucast (b AND 0x7f)"
  have "base128_loop v s = (if drop_bit (64 - 7) v \<noteq> 0 then (Fail, s1) else if v = 0 \<and> b = 0x80 then (Fail, s1)
      else if b AND 0x80 \<noteq> 0 then base128_loop ?v s1 else (Ok ?v, s1))"
    by (subst base128_loop.simps) (simp only: b seq_ok_simps Let_def)
  with "1.prems"(2) have ok: "drop_bit 57 v = 0" "\<not> (v = 0 \<and> b = 0x80)"
      "(if b AND 0x80 \<noteq> 0 then base128_loop ?v s1 else (Ok ?v, s1)) = (Ok w, s')"
    by (auto split: if_splits)
  have "unat v div 2 ^ 57 = 0" using ok(1) by (metis unat_drop_bit_div unsigned_0)
  then have lt: "unat v < 2 ^ 57" by (simp add: div_eq_0_iff)
  have v: "unat ?v = unat v * 128 + unat b mod 128" by (rule unat_shift7_or [OF lt])
  show ?case
  proof (cases "b AND 0x80 = 0")
    case True
    then have "unat b < 128" by (simp add: byte_and_128_eq_0)
    then have "b128 (unat ?v) = b128_high (unat v) @ [b]" unfolding v by (simp add: b128_def)
    with True ok(3) s1 show ?thesis by auto
  next
    case False
    then have hi: "128 \<le> unat b" by (simp add: byte_and_128_eq_0)
    have m: "unat b mod 128 + 128 = unat b" by (rule byte_high [OF hi])
    have "unat ?v \<noteq> 0"
    proof
      assume "unat ?v = 0"
      then have "unat v = 0" "unat b mod 128 = 0" unfolding v by simp_all
      then have "v = 0" "unat b = unat (0x80 :: byte)" using m by (simp_all add: unat_eq_0)
      then show False using ok(2) by (simp add: word_unat_eq_iff)
    qed
    then have "b128_high (unat ?v) = b128_high (unat v) @ [b]"
      using of_nat_unat_byte [OF m [symmetric]] by (subst b128_high.simps) (simp add: v del: of_nat_add)
    moreover have "\<exists>used. cbs_bytes s1 = used @ cbs_bytes s' \<and> b128 (unat w) = b128_high (unat ?v) @ used"
      using "1.IH" [of b, OF _ _ _ refl] False ok s1(2) b by simp
    ultimately show ?thesis using s1(1) by auto
  qed
qed

lemma parse_base128_sound:
  assumes "cbs_wf s" "parse_base128_integer s = (Ok w, s')"
  shows "cbs_bytes s = b128 (unat w) @ cbs_bytes s'"
  using base128_loop_sound [OF assms(1), of 0 w s'] assms(2)
  by (auto simp: parse_base128_integer_def b128_high.simps [of 0])

section \<open>Tags\<close>

lemma tag_byte_split:
  fixes b :: byte and n :: u32
  defines "tag \<equiv> push_bit CBS_ASN1_TAG_SHIFT ((ucast b :: u32) AND 0xe0) OR n"
  assumes "unat n < 2 ^ 29"
  shows "tag_number tag = n" "tag_bits tag = b AND 0xe0"
proof -
  have "take_bit 29 n = n" unfolding word_unat_eq_iff unat_take_bit_mod using assms(2) by simp
  then have n: "\<not> bit n i" if "29 \<le> i" for i using that by (metis bit_take_bit_iff not_le)
  have c: "(0xe0 :: u32) = push_bit 5 (mask 3)" "(0xe0 :: byte) = push_bit 5 (mask 3)"
    by (simp_all add: mask_eq_exp_minus_1)
  show "tag_number tag = n"
    unfolding tag_number_mask tag_def c CBS_ASN1_TAG_SHIFT_def
    by (rule bit_word_eqI) (auto simp: bit_simps n)
  show "tag_bits tag = b AND 0xe0"
    unfolding tag_bits_field tag_def c CBS_ASN1_TAG_SHIFT_def
    by (rule bit_word_eqI) (auto simp: bit_simps n)
qed

lemma byte_split: "((b :: byte) AND 0xe0) OR (b AND 0x1f) = b"
proof -
  have c: "(0xe0 :: byte) = push_bit 5 (mask 3)" "(0x1f :: byte) = mask 5" by (simp_all add: mask_eq_exp_minus_1)
  show ?thesis unfolding c by (rule bit_word_eqI) (auto simp: bit_simps)
qed

lemma unat_low5: "unat ((b :: byte) AND 0x1f) < 32"
  using unat_and_field [of 0 5 b] by (simp add: mask_eq_exp_minus_1)

lemma parse_tag_sound:
  assumes "cbs_wf s" "parse_asn1_tag s = (Ok tag, s')"
  shows "cbs_bytes s = der_tag tag @ cbs_bytes s'"
proof -
  from assms(2) obtain b s1 where b: "CBS_get_u8 s = (Ok b, s1)"
    by (auto simp: parse_asn1_tag_def seq_ok_eq_Ok)
  note s1 = get_u8_Ok [OF assms(1) b]
  let ?hi = "push_bit CBS_ASN1_TAG_SHIFT ((ucast b :: u32) AND 0xe0)" and ?n = "ucast (b AND 0x1f) :: u32"
  have nb: "unat ?n = unat (b AND 0x1f)" by (simp add: unat_ucast_up)
  show ?thesis
  proof (cases "?n = 0x1f")
    case False
    then have tag: "tag = ?hi OR ?n" "s' = s1"
      using assms(2) by (simp_all add: parse_asn1_tag_def b Let_def del: push_bit_and)
    have "unat ?n < 2 ^ 29" using nb unat_low5 [of b] by simp
    note parts = tag_byte_split [OF this]
    have "unat ?n \<noteq> 31" using False by (metis unat_eq_of_nat of_nat_numeral)
    then have "\<not> 0x1f \<le> ?n" using nb unat_low5 [of b] by (simp add: word_le_nat_alt)
    then have "der_tag tag = [b]"
      using parts byte_split [of b] unfolding der_tag_def tag(1) by (simp add: ucast_up_down)
    with s1 tag(2) show ?thesis by simp
  next
    case True
    with assms(2) obtain v where v: "parse_base128_integer s1 = (Ok v, s')"
        "\<not> ucast CBS_ASN1_TAG_NUMBER_MASK < v" "\<not> v < 0x1f" "tag = ?hi OR ucast v"
      by (auto simp: parse_asn1_tag_def b Let_def seq_ok_eq_Ok simp del: push_bit_and split: if_splits)
    have vr: "unat v < 2 ^ 29" "31 \<le> unat v"
      using v(2,3) by (simp_all add: word_less_nat_alt asn1_consts unat_ucast_up)
    then have uv: "unat (ucast v :: u32) = unat v" by (simp add: unat_ucast_down)
    note parts = tag_byte_split [of "ucast v" b, unfolded uv, OF vr(1)]
    have "b AND 0x1f = 0x1f" using True nb by (simp add: word_unat_eq_iff)
    then have "tag_bits tag OR 0x1f = b" using parts(2) byte_split [of b] v(4) by simp
    moreover have "0x1f \<le> (ucast v :: u32)" using vr(2) uv by (simp add: word_le_nat_alt)
    ultimately have "der_tag tag = b # b128 (unat v)"
      using parts(1) uv unfolding der_tag_def v(4) by simp
    with s1(1) parse_base128_sound [OF s1(2) v(1)] show ?thesis by simp
  qed
qed

section \<open>Elements\<close>

lemma get_u_Ok:
  assumes "cbs_wf s" "cbs_get_u n s = (Ok v, s')" "n \<le> 8"
  shows "cbs_bytes s = be_bytes n (unat v) @ cbs_bytes s'" "s' = cbs_adv n s" "unat v < 256 ^ n"
proof -
  have n: "n \<le> cbs_len s" and s': "s' = cbs_adv n s"
    using assms(2) by (auto simp: cbs_get_u_def cbs_get split: if_splits outcome.splits)
  let ?bs = "take n (cbs_bytes s)"
  have len: "length ?bs = n" using n assms(1) by simp
  have "v = foldl (\<lambda>r (b :: byte). push_bit 8 r OR ucast b) 0 ?bs"
    using assms(2) n fetch_data [OF assms(1) n] by (simp add: cbs_get_u_def cbs_get)
  then have v: "unat v = be_value ?bs" using unat_foldl_be [of ?bs, where 'a = 64] len assms(3) by simp
  show "s' = cbs_adv n s" by (rule s')
  show "unat v < 256 ^ n" unfolding v using be_value_less [of ?bs] unfolding len .
  show "cbs_bytes s = be_bytes n (unat v) @ cbs_bytes s'"
    unfolding v be_bytes_be_value [OF len] s' cbs_bytes_adv by simp
qed

lemma len_octets_unique:
  assumes "128 \<le> n" "0 < k" "k \<le> 4" "n < 256 ^ k" "256 ^ (k - 1) \<le> n"
  shows "len_octets n = k"
proof -
  have "k = 1 \<or> k = 2 \<or> k = 3 \<or> k = 4" using assms(2,3) by linarith
  then show ?thesis using assms by (auto simp: len_octets_def)
qed

text \<open>The length octets after the tag, read in DER mode, are the encoding of the length they give.\<close>

lemma element_header_sound:
  assumes wf: "cbs_wf s" and el: "cbs_get_any_asn1_element False s = (Ok (out, tag, hl, bf), s')"
  shows "\<exists>n. cbs_bytes s = der_tag tag @ der_length n @ cbs_bytes (cbs_adv hl s) \<and>
    hl = length (der_tag tag @ der_length n) \<and> cbs_len out = n + hl \<and> n < 2 ^ 32 \<and> \<not> bf"
proof -
  from el obtain c lb c1 where c: "parse_asn1_tag s = (Ok tag, c)" "CBS_get_u8 c = (Ok lb, c1)"
    by (auto simp: cbs_get_any_asn1_element_def Let_def on_copy_eq_Ok seq_ok_eq_Ok split: if_splits)
  have tag: "cbs_bytes s = der_tag tag @ cbs_bytes c" by (rule parse_tag_sound [OF wf c(1)])
  have wfc: "cbs_wf c" using safe_asn1_tag [OF wf] c(1) wf by (auto simp: cbs_safe_def)
  note lb = get_u8_Ok [OF wfc c(2)]
  let ?hl = "cbs_len s - cbs_len c1"
  obtain k where k: "k \<le> cbs_len s" "c = cbs_adv k s" using safe_asn1_tag [OF wf] c(1) by (auto simp: cbs_safe_def)
  have "length (cbs_bytes s) = length (der_tag tag) + length (cbs_bytes c)" unfolding tag by simp
  then have "k = length (der_tag tag)" using k wf by simp
  moreover have "cbs_len c \<noteq> 0" using length_cbs_bytes [OF wfc] lb(1) by auto
  ultimately have hl: "?hl = length (der_tag tag) + 1" and c1: "c1 = cbs_adv ?hl s"
    using k lb(3) by auto
  show ?thesis
  proof (cases "lb AND 0x80 = 0")
    case True
    then have *: "hl = ?hl" "cbs_len out = unat lb + ?hl" "\<not> bf"
      using el c by (auto simp: cbs_get_any_asn1_element_def on_copy_def Let_def CBS_len_def seq_ok_eq_Ok get_bytes_Ok)
    have "unat lb < 128" using True by (simp add: byte_and_128_eq_0)
    then have "der_length (unat lb) = [lb]" by (simp add: der_length_def)
    moreover have "unat lb < 2 ^ 32" by (rule less_trans [OF byte_lt_256]) simp
    ultimately show ?thesis using * tag lb(1) hl c1
      by (intro exI [of _ "unat lb"]) simp
  next
    case False
    let ?k = "unat (lb AND 0x7f)"
    obtain r c2 where rc: "cbs_get_u ?k c1 = (r, c2)" by force
    from el c rc False obtain v where r: "r = Ok v"
        and kb: "0 < ?k" "?k \<le> 4" and v: "\<not> v < 128" "drop_bit ((?k - 1) * 8) v \<noteq> 0"
          "\<not> v + of_nat ?hl + of_nat ?k < v" and hl': "hl = ?hl + ?k" "\<not> bf"
        and out: "cbs_len out = unat (v + of_nat ?hl + of_nat ?k)"
      by (cases r)
        (auto simp: cbs_get_any_asn1_element_def on_copy_def Let_def CBS_len_def seq_ok_eq_Ok get_bytes_Ok
          split: if_splits)
    have wf1: "cbs_wf c1" by (rule lb(2))
    have k8: "?k \<le> 8" using kb by simp
    note u = get_u_Ok [OF wf1 rc [unfolded r] k8]
    have n128: "128 \<le> unat v" using v(1) by (simp add: word_less_nat_alt)
    have "(256::nat) ^ ?k \<le> 256 ^ 4" using kb(2) by (intro power_increasing) simp_all
    then have n32: "unat v < 2 ^ 32" using u(3) by simp
    have "unat v div 2 ^ ((?k - 1) * 8) \<noteq> 0" using v(2) by (metis unat_drop_bit_div unsigned_0 unsigned_eq_0_iff)
    then have "256 ^ (?k - 1) \<le> unat v" by (simp add: pow256 mult.commute div_eq_0_iff not_less)
    then have oct: "len_octets (unat v) = ?k" using n128 kb u(3) by (intro len_octets_unique)
    have "unat lb = 128 + ?k"
      using False byte_high [of lb] by (simp add: byte_and_128_eq_0 unat_and_127)
    then have "lb = of_nat (128 + ?k)" by (rule unat_eq_of_nat)
    then have d: "der_length (unat v) = lb # be_bytes ?k (unat v)" using n128 oct by (simp add: der_length_def)
    have "length (cbs_bytes c1) = ?k + length (cbs_bytes c2)" unfolding u(1) by simp
    then have kl: "?k \<le> cbs_len c1" using wf1 by simp
    then have "?hl + ?k < 2 ^ 64" using wf hl k c1 by (auto simp: cbs_wf_def)
    from no_wrap_sum [OF this, of v] v(3) have "cbs_len out = unat v + hl"
      using out hl' by (simp add: add.assoc)
    moreover have "cbs_bytes s = der_tag tag @ der_length (unat v) @ cbs_bytes (cbs_adv hl s)"
      using tag lb(1) u(1) d u(2) c1 hl' by (metis append_Cons cbs_adv_adv append.assoc)
    ultimately show ?thesis using d hl hl' n32 by (intro exI [of _ "unat v"]) simp
  qed
qed

lemma element_sound:
  assumes wf: "cbs_wf s" and el: "cbs_get_any_asn1_element False s = (Ok (out, tag, hl, bf), s')"
  shows "\<exists>c. length c < 2 ^ 32 \<and> cbs_bytes s = der_element (tag, c) @ cbs_bytes s' \<and>
     cbs_bytes out = der_element (tag, c) \<and> cbs_bytes (cbs_adv hl out) = c"
proof -
  note e = element_Ok [OF wf el]
  obtain n where n: "cbs_bytes s = der_tag tag @ der_length n @ cbs_bytes (cbs_adv hl s)"
      "hl = length (der_tag tag @ der_length n)" "cbs_len out = n + hl" "n < 2 ^ 32"
    using element_header_sound [OF wf el] by blast
  let ?c = "take n (cbs_bytes (cbs_adv hl s))"
  have "n + hl \<le> cbs_len s" using e n(3) by simp
  then have len: "length ?c = n" using wf by simp
  have out: "cbs_bytes out = take (n + hl) (cbs_bytes s)"
    using e n(3) by (metis cbs_bytes_init cbs_bytes_def min.absorb1 take_take)
  have "take (n + hl) (cbs_bytes s) = der_tag tag @ der_length n @ ?c"
    by (subst n(1)) (simp add: n(2))
  then have el: "cbs_bytes out = der_element (tag, ?c)" using out len by (simp add: der_element_def)
  have s': "cbs_bytes s' = drop (n + hl) (cbs_bytes s)" using e n(3) by simp
  have "cbs_bytes s = take (n + hl) (cbs_bytes s) @ drop (n + hl) (cbs_bytes s)" by simp
  then have "cbs_bytes s = der_element (tag, ?c) @ cbs_bytes s'" unfolding out [symmetric] el s' .
  moreover have "cbs_bytes (cbs_adv hl out) = ?c" unfolding cbs_bytes_adv el using len n(2) by (simp add: der_element_def)
  ultimately show ?thesis using el len n(4) by (intro exI [of _ ?c]) simp
qed

end
