(* ===== verification/Oid.thy ===== *)
theory Oid
  imports Cbb_Values Der_Sound
begin

text \<open>
  Object identifiers: \<^verbatim>\<open>CBB_add_asn1_oid_from_text\<close> and \<^verbatim>\<open>parse_dotted_decimal\<close> of \<^verbatim>\<open>cbb.c\<close>,
  \<^verbatim>\<open>CBS_asn1_oid_to_text\<close> and \<^verbatim>\<open>add_decimal\<close> of \<^verbatim>\<open>cbs.c\<close>. A text that is accepted is encoded as one base-128
  integer per component, the first two joined; printing the encoding gives the text back.
\<close>

section \<open>The functions\<close>

lemma base128_loop_decreases: "base128_loop v s = (Ok w, s') \<Longrightarrow> cbs_len s' < cbs_len s"
proof (induction v s rule: base128_loop.induct)
  case (1 v s)
  from "1.prems" obtain b s1 where b: "CBS_get_u8 s = (Ok b, s1)"
    by (subst (asm) base128_loop.simps) (auto simp: seq_ok_eq_Ok)
  have lt: "cbs_len s1 < cbs_len s" using CBS_get_u8_decreases [of s b] b by simp
  let ?v = "push_bit 7 v OR ucast (b AND 0x7f)"
  have "base128_loop v s = (if drop_bit (64 - 7) v \<noteq> 0 then (Fail, s1) else if v = 0 \<and> b = 0x80 then (Fail, s1)
      else if b AND 0x80 \<noteq> 0 then base128_loop ?v s1 else (Ok ?v, s1))"
    by (subst base128_loop.simps) (simp only: b seq_ok_simps Let_def)
  with "1.prems" lt "1.IH" [of b, OF _ _ _ refl] b show ?case
    by (auto split: if_splits)
qed

lemma parse_base128_decreases: "(Ok v, s') = parse_base128_integer s \<Longrightarrow> cbs_len s' < cbs_len s"
  by (auto simp: parse_base128_integer_def dest: base128_loop_decreases [OF sym])

lemma get_u8_decreases: "(Ok b, s') = CBS_get_u8 s \<Longrightarrow> cbs_len s' < cbs_len s"
  using CBS_get_u8_decreases [of s b] by (metis fst_conv snd_conv)

text \<open>A 64-bit number has at most 20 decimal digits, which the stack buffer of \<^verbatim>\<open>add_decimal\<close> holds.\<close>

definition add_decimal :: "u64 \<Rightarrow> nat \<Rightarrow> cbb_state \<Rightarrow> unit outcome \<times> cbb_state" where
  "add_decimal v d st = (let buf = decimal (unat v) in CBB_add_bytes buf (of_nat (length buf)) d st)"

text \<open>The components after the first, each with a dot in front.\<close>

function oid_rest :: "CBS \<Rightarrow> cbb_state \<Rightarrow> unit outcome \<times> cbb_state" where
  "oid_rest copy st =
     (if CBS_len copy = 0 then (Ok (), st)
      else case parse_base128_integer copy of
          (Ok v, copy1) \<Rightarrow> seq_ok (CBB_add_u8 46 0 st) (\<lambda>_ st1.
             seq_ok (add_decimal v 0 st1) (\<lambda>_ st2. oid_rest copy1 st2))
        | (Fail, _) \<Rightarrow> (Fail, st)
        | (Undef, _) \<Rightarrow> (Undef, st))"
  by pat_completeness auto
termination
  by (relation "measure (\<lambda>(copy, st). cbs_len copy)") (auto dest: parse_base128_decreases)

declare oid_rest.simps [simp del]

text \<open>\<open>fresh\<close> is the memory of the local builder. The result is the text with its final zero byte.\<close>

definition CBS_asn1_oid_to_text :: "cbb_state \<Rightarrow> CBS \<Rightarrow> byte list outcome" where
  "CBS_asn1_oid_to_text fresh cbs = fst (seq_ok (CBB_init 32 fresh) (\<lambda>_ st.
     case parse_base128_integer cbs of
       (Ok v, copy) \<Rightarrow>
         seq_ok (if 80 \<le> v
             then seq_ok (CBB_add_bytes [50, 46] 2 0 st) (\<lambda>_ st1. add_decimal (v - 80) 0 st1)
             else seq_ok (add_decimal (v div 40) 0 st) (\<lambda>_ st1.
               seq_ok (CBB_add_u8 46 0 st1) (\<lambda>_ st2. add_decimal (v mod 40) 0 st2)))
           (\<lambda>_ st3. seq_ok (oid_rest copy st3) (\<lambda>_ st4.
             seq_ok (CBB_add_u8 0 0 st4) (\<lambda>_ st5.
               seq_ok (CBB_finish True st5) (\<lambda>(txt, txt_len) st6. (Ok (take (unat txt_len) txt), st6)))))
     | (Fail, _) \<Rightarrow> (Fail, st)
     | (Undef, _) \<Rightarrow> (Undef, st)))"

text \<open>One component of the text. The loop ends at the end of the string or at a dot that is not the
  last character; both leave what was read so far.\<close>

function dotted_loop :: "u64 \<Rightarrow> bool \<Rightarrow> CBS \<Rightarrow> u64 outcome \<times> CBS" where
  "dotted_loop out seen_digit cbs = (case CBS_get_u8 cbs of
      (Fail, s) \<Rightarrow> (if seen_digit then Ok out else Fail, s)
    | (Undef, s) \<Rightarrow> (Undef, s)
    | (Ok u, s) \<Rightarrow>
        if u = 46 \<and> 0 < CBS_len s then (if seen_digit then Ok out else Fail, s)
        else if u < 48 \<or> 57 < u \<or> (seen_digit \<and> out = 0) \<or> (2 ^ 64 - 1) div 10 < unat out \<or>
          2 ^ 64 - 1 - unat (u - 48) < unat (out * 10) then (Fail, s)
        else dotted_loop (out * 10 + ucast (u - 48)) True s)"
  by pat_completeness auto
termination
  by (relation "measure (\<lambda>(out, seen_digit, cbs). cbs_len cbs)") (auto dest: get_u8_decreases)

declare dotted_loop.simps [simp del]

definition parse_dotted_decimal :: "CBS \<Rightarrow> u64 outcome \<times> CBS" where
  "parse_dotted_decimal cbs = dotted_loop 0 False cbs"

lemma dotted_loop_decreases:
  "dotted_loop out seen s = (Ok v, s') \<Longrightarrow> cbs_len s' \<le> cbs_len s \<and> (\<not> seen \<longrightarrow> cbs_len s' < cbs_len s)"
proof (induction out seen s rule: dotted_loop.induct)
  case (1 out seen s)
  obtain r s1 where r: "CBS_get_u8 s = (r, s1)" by force
  have lt: "cbs_len s1 < cbs_len s" if "r = Ok u" for u using CBS_get_u8_decreases [of s u] r that by simp
  have le: "cbs_len s1 \<le> cbs_len s" if "r = Fail"
    using r that by (auto simp: CBS_get_u8_def cbs_get_def split: if_splits list.splits)
  show ?case
  proof (cases r)
    case (Ok u)
    with "1.prems" r lt "1.IH" [of r s1 u] show ?thesis
      by (subst (asm) dotted_loop.simps) (fastforce split: if_splits)
  qed (use "1.prems" r le in \<open>auto simp: dotted_loop.simps [of out seen s] split: if_splits\<close>)
qed

lemma parse_dotted_decreases: "(Ok v, s') = parse_dotted_decimal s \<Longrightarrow> cbs_len s' < cbs_len s"
  by (auto simp: parse_dotted_decimal_def dest: dotted_loop_decreases [OF sym])

function oid_components :: "nat \<Rightarrow> CBS \<Rightarrow> cbb_state \<Rightarrow> unit outcome \<times> cbb_state" where
  "oid_components d cbs st =
     (if \<not> 0 < CBS_len cbs then (Ok (), st)
      else case parse_dotted_decimal cbs of
          (Ok a, cbs1) \<Rightarrow> seq_ok (add_base128_integer a d st) (\<lambda>_ st1. oid_components d cbs1 st1)
        | (Fail, _) \<Rightarrow> (Fail, st)
        | (Undef, _) \<Rightarrow> (Undef, st))"
  by pat_completeness auto
termination
  by (relation "measure (\<lambda>(d, cbs, st). cbs_len cbs)") (auto dest: parse_dotted_decreases)

declare oid_components.simps [simp del]

definition CBB_add_asn1_oid_from_text :: "byte list \<Rightarrow> nat \<Rightarrow> nat \<Rightarrow> cbb_state \<Rightarrow> unit outcome \<times> cbb_state" where
  "CBB_add_asn1_oid_from_text text len d st = seq_ok (CBB_flush d st) (\<lambda>_ st1.
     case parse_dotted_decimal (CBS_init text len) of
       (Ok a, cbs1) \<Rightarrow> (case parse_dotted_decimal cbs1 of
           (Ok b, cbs2) \<Rightarrow>
             if 2 < a \<or> (a < 2 \<and> 39 < b) \<or> 2 ^ 64 - 1 - 80 < unat b then (Fail, st1)
             else seq_ok (add_base128_integer (40 * a + b) d st1) (\<lambda>_ st2. oid_components d cbs2 st2)
         | (Fail, _) \<Rightarrow> (Fail, st1)
         | (Undef, _) \<Rightarrow> (Undef, st1))
     | (Fail, _) \<Rightarrow> (Fail, st1)
     | (Undef, _) \<Rightarrow> (Undef, st1))"

section \<open>Reading decimal numbers\<close>

lemma get_u8_empty: "cbs_wf s \<Longrightarrow> cbs_bytes s = [] \<Longrightarrow> CBS_get_u8 s = (Fail, s)"
  using length_cbs_bytes [of s] by (simp add: CBS_get_u8_def cbs_get)

lemma dotted_digit:
  assumes "cbs_wf s" "cbs_bytes s = of_nat (48 + k) # rest" "k < 10" "unat out * 10 + k < 2 ^ 64"
    and "\<not> (seen \<and> out = 0)"
  shows "dotted_loop out seen s = dotted_loop (of_nat (unat out * 10 + k)) True (cbs_adv 1 s)"
proof -
  let ?u = "of_nat (48 + k) :: byte"
  have u: "unat ?u = 48 + k" using assms(3) by (simp add: unat_of_nat del: of_nat_add)
  then have d: "unat (?u - 48) = k" by (subst unat_sub) (simp_all add: word_le_nat_alt del: of_nat_add)
  have m: "unat (out * 10) = unat out * 10" using assms(4) by (simp add: unat_word_ariths)
  have "unat (ucast (?u - 48) :: u64) = k" using d by (simp add: unat_ucast_up del: of_nat_add)
  then have "unat (out * 10 + ucast (?u - 48)) = unat out * 10 + k"
    using unat_add_no_wrap [of "out * 10" "ucast (?u - 48)"] m assms(4) by (simp del: of_nat_add)
  then have acc: "out * 10 + ucast (?u - 48) = of_nat (unat out * 10 + k)" by (rule unat_eq_of_nat)
  have "\<not> ?u < 48" "\<not> 57 < ?u" "?u \<noteq> 46"
    using u assms(3) by (auto simp: word_less_nat_alt simp del: of_nat_add dest: arg_cong [of _ _ unat])
  moreover have "\<not> (2 ^ 64 - 1) div 10 < unat out" "\<not> 2 ^ 64 - 1 - unat (?u - 48) < unat (out * 10)"
    unfolding d m using assms(4) by simp_all
  ultimately show ?thesis using assms(5)
    unfolding dotted_loop.simps [of out seen s] get_u8_Cons [OF assms(1,2)] acc prod.case outcome.case by auto
qed

lemma dotted_decimal:
  assumes "cbs_wf s" "cbs_bytes s = decimal n @ rest" "n < 2 ^ 64"
  shows "dotted_loop 0 False s = dotted_loop (of_nat n) True (cbs_adv (length (decimal n)) s)"
  using assms
proof (induction n arbitrary: rest rule: decimal.induct)
  case (1 n)
  show ?case
  proof (cases "n < 10")
    case True
    then have "decimal n = [of_nat (48 + n)]" by (simp add: decimal.simps)
    with dotted_digit [of s n rest 0 False] 1 True show ?thesis by (simp del: of_nat_add)
  next
    case False
    let ?q = "n div 10" and ?r = "n mod 10"
    have dec: "decimal n = decimal ?q @ [of_nat (48 + ?r)]" using False by (simp add: decimal.simps [of n])
    let ?t = "cbs_adv (length (decimal ?q)) s"
    have "dotted_loop 0 False s = dotted_loop (of_nat ?q) True ?t"
      using "1.IH" [OF False, of "of_nat (48 + ?r) # rest"] "1.prems" dec by simp
    also have "\<dots> = dotted_loop (of_nat n) True (cbs_adv 1 ?t)"
    proof -
      have q: "unat (of_nat ?q :: u64) = ?q" using "1.prems"(3) by (simp add: unat_of_nat)
      have "0 < ?q" using False by simp
      then have "(of_nat ?q :: u64) \<noteq> 0" using q by (metis less_irrefl unsigned_0)
      moreover have "unat (of_nat ?q :: u64) * 10 + ?r = n" unfolding q by simp
      ultimately show ?thesis
        using dotted_digit [of ?t ?r rest "of_nat ?q" True] "1.prems" dec by (simp del: of_nat_add)
    qed
    finally show ?thesis using dec by simp
  qed
qed

lemma parse_component_dot:
  assumes "cbs_wf s" "cbs_bytes s = decimal n @ 46 # rest" "n < 2 ^ 64" "rest \<noteq> []"
  shows "parse_dotted_decimal s = (Ok (of_nat n), cbs_adv (Suc (length (decimal n))) s)"
proof -
  let ?t = "cbs_adv (length (decimal n)) s"
  have t: "cbs_wf ?t" "cbs_bytes ?t = 46 # rest" using assms by simp_all
  have "cbs_wf (cbs_adv 1 ?t)" "cbs_bytes (cbs_adv 1 ?t) = rest"
    by (rule cbs_wf_adv [OF t(1)]) (unfold cbs_bytes_adv [of 1 ?t] t(2), simp)
  then have "cbs_len (cbs_adv 1 ?t) = length rest" using length_cbs_bytes by metis
  then have "0 < CBS_len (cbs_adv 1 ?t)" using assms(4) unfolding CBS_len_def by simp
  then show ?thesis
    unfolding parse_dotted_decimal_def dotted_decimal [OF assms(1-3)] dotted_loop.simps [of _ _ ?t]
      get_u8_Cons [OF t] prod.case outcome.case by simp
qed

lemma parse_component_end:
  assumes "cbs_wf s" "cbs_bytes s = decimal n" "n < 2 ^ 64"
  shows "parse_dotted_decimal s = (Ok (of_nat n), cbs_adv (length (decimal n)) s)"
proof -
  let ?t = "cbs_adv (length (decimal n)) s"
  have t: "cbs_wf ?t" "cbs_bytes ?t = []" using assms by simp_all
  have "cbs_bytes s = decimal n @ []" using assms(2) by simp
  from dotted_decimal [OF assms(1) this assms(3)] show ?thesis
    unfolding parse_dotted_decimal_def dotted_loop.simps [of _ _ ?t] get_u8_empty [OF t] by simp
qed

section \<open>Text to encoding\<close>

definition dotted :: "nat list \<Rightarrow> byte list" where
  "dotted cs = concat (map (\<lambda>c. 46 # decimal c) cs)"

lemma dotted_simps [simp]: "dotted [] = []" "dotted (c # cs) = 46 # decimal c @ dotted cs"
  by (simp_all add: dotted_def)

lemma decimal_nonempty [simp]: "decimal n \<noteq> []"
  by (simp add: decimal.simps [of n])

text \<open>A component with the rest of the text behind it, of which the dot is consumed.\<close>

lemma parse_component:
  assumes "cbs_wf s" "cbs_bytes s = decimal c @ dotted cs" "c < 2 ^ 64"
  shows "\<exists>s'. parse_dotted_decimal s = (Ok (of_nat c), s') \<and> cbs_wf s' \<and> cbs_bytes s' = tl (dotted cs)"
proof (cases cs)
  case Nil
  with parse_component_end [of s c] assms show ?thesis by simp
next
  case (Cons d ds)
  with parse_component_dot [of s c "decimal d @ dotted ds"] assms show ?thesis by simp
qed

lemma oid_components_writes:
  assumes "cbs_wf s" "cbs_bytes s = tl (dotted cs)" "\<forall>c \<in> set cs. c < 2 ^ 64"
    and "cbb_ready d st" "cbb_room (length (concat (map b128 cs))) st"
  shows "\<exists>st'. oid_components d s st = (Ok (), st') \<and> extends st (concat (map b128 cs)) st'"
  using assms
proof (induction cs arbitrary: s st)
  case Nil
  then have "cbs_len s = 0" using length_cbs_bytes [of s] by simp
  with Nil show ?case by (simp add: oid_components.simps CBS_len_def cbb_ready_def extends_refl)
next
  case (Cons c cs)
  have "cbs_bytes s \<noteq> []" using Cons.prems(2) by simp
  then have "cbs_len s \<noteq> 0" using length_cbs_bytes [OF Cons.prems(1)] by (metis length_0_conv)
  then have ne: "0 < CBS_len s" by (simp add: CBS_len_def)
  obtain s1 where s1: "parse_dotted_decimal s = (Ok (of_nat c), s1)" "cbs_wf s1" "cbs_bytes s1 = tl (dotted cs)"
    using parse_component [of s c cs] Cons.prems by auto
  have u: "unat (of_nat c :: u64) = c" using Cons.prems(3) by (simp add: unat_of_nat)
  have "cbb_room (length (b128 (unat (of_nat c :: u64))) + length (concat (map b128 cs))) st"
    unfolding u using Cons.prems(5) by simp
  then obtain st1 where st1: "add_base128_integer (of_nat c) d st = (Ok (), st1)"
      "extends st (b128 (unat (of_nat c :: u64))) st1" "cbb_ready d st1" "cbb_room (length (concat (map b128 cs))) st1"
    by (rule wbase128.op_then [OF TrueI Cons.prems(4)])
  obtain st2 where st2: "oid_components d s1 st1 = (Ok (), st2)" "extends st1 (concat (map b128 cs)) st2"
    using Cons.IH [OF s1(2,3) _ st1(3,4)] Cons.prems(3) by auto
  have "oid_components d s st = (Ok (), st2)"
    using ne s1(1) st1(1) st2(1) by (subst oid_components.simps) simp
  with extends_trans [OF st1(2) st2(2)] show ?case unfolding u by auto
qed

text \<open>The components of an object identifier as \<^verbatim>\<open>CBB_add_asn1_oid_from_text\<close> accepts them.\<close>

definition oid_good :: "nat \<Rightarrow> nat \<Rightarrow> nat list \<Rightarrow> bool" where
  "oid_good a b cs \<longleftrightarrow> a \<le> 2 \<and> (a < 2 \<longrightarrow> b \<le> 39) \<and> b + 80 < 2 ^ 64 \<and> (\<forall>c \<in> set cs. c < 2 ^ 64)"

definition oid_text :: "nat \<Rightarrow> nat \<Rightarrow> nat list \<Rightarrow> byte list" where
  "oid_text a b cs = decimal a @ dotted (b # cs)"

definition oid_der :: "nat \<Rightarrow> nat \<Rightarrow> nat list \<Rightarrow> byte list" where
  "oid_der a b cs = concat (map b128 ((40 * a + b) # cs))"

lemma oid_from_text:
  assumes good: "oid_good a b cs" and len: "length (oid_text a b cs) < 2 ^ 64"
    and st: "cbb_ready d st" "cbb_room (length (oid_der a b cs)) st"
  shows "\<exists>st'. CBB_add_asn1_oid_from_text (oid_text a b cs) (length (oid_text a b cs)) d st = (Ok (), st') \<and>
     extends st (oid_der a b cs) st'"
proof -
  let ?t = "oid_text a b cs" let ?s = "CBS_init ?t (length ?t)"
  have wf: "cbs_wf ?s" and bs: "cbs_bytes ?s = decimal a @ dotted (b # cs)"
    using len by (simp_all add: oid_text_def)
  have ab: "a < 2 ^ 64" "b < 2 ^ 64" "40 * a + b < 2 ^ 64" using good by (auto simp: oid_good_def)
  obtain s1 where s1: "parse_dotted_decimal ?s = (Ok (of_nat a), s1)" "cbs_wf s1" "cbs_bytes s1 = tl (dotted (b # cs))"
    using parse_component [OF wf bs ab(1)] by blast
  obtain s2 where s2: "parse_dotted_decimal s1 = (Ok (of_nat b), s2)" "cbs_wf s2" "cbs_bytes s2 = tl (dotted cs)"
    using parse_component [OF s1(2) _ ab(2), of cs] s1(3) by auto
  have ua: "unat (of_nat a :: u64) = a" "unat (of_nat b :: u64) = b" using ab by (simp_all add: unat_of_nat)
  have chk: "\<not> (2 < (of_nat a :: u64) \<or> (of_nat a :: u64) < 2 \<and> 39 < (of_nat b :: u64) \<or> 2 ^ 64 - 1 - 80 < unat (of_nat b :: u64))"
    using good ua by (auto simp: oid_good_def word_less_nat_alt)
  have v: "40 * (of_nat a :: u64) + of_nat b = of_nat (40 * a + b)" by simp
  have uv: "unat (of_nat (40 * a + b) :: u64) = 40 * a + b" using ab(3) by (simp add: unat_of_nat del: of_nat_add of_nat_mult)
  have "cbb_room (length (b128 (unat (of_nat (40 * a + b) :: u64))) + length (concat (map b128 cs))) st"
    unfolding uv using st(2) by (simp add: oid_der_def)
  then obtain st1 where st1: "add_base128_integer (of_nat (40 * a + b)) d st = (Ok (), st1)"
      "extends st (b128 (unat (of_nat (40 * a + b) :: u64))) st1" "cbb_ready d st1" "cbb_room (length (concat (map b128 cs))) st1"
    by (rule wbase128.op_then [OF TrueI st(1)])
  obtain st2 where st2: "oid_components d s2 st1 = (Ok (), st2)" "extends st1 (concat (map b128 cs)) st2"
    using oid_components_writes [OF s2(2,3) _ st1(3,4)] good by (auto simp: oid_good_def)
  have "CBB_add_asn1_oid_from_text ?t (length ?t) d st = (Ok (), st2)"
    using chk st1(1) st2(1)
    by (simp add: CBB_add_asn1_oid_from_text_def flush_ready [OF st(1)] s1(1) s2(1) v del: of_nat_add of_nat_mult)
  with extends_trans [OF st1(2) st2(2)] show ?thesis unfolding uv by (auto simp: oid_der_def)
qed

section \<open>Encoding to text\<close>

interpretation wdecimal: cbb_writer add_decimal "\<lambda>v. decimal (unat v)" "\<lambda>_. True"
  by unfold_locales (auto simp: add_decimal_def Let_def intro: wbytes.op_extends)

lemma oid_rest_writes:
  assumes "cbs_wf s" "cbs_bytes s = concat (map b128 cs)" "\<forall>c \<in> set cs. c < 2 ^ 64"
    and "cbb_ready 0 st" "cbb_room (length (dotted cs)) st"
  shows "\<exists>st'. oid_rest s st = (Ok (), st') \<and> extends st (dotted cs) st'"
  using assms
proof (induction cs arbitrary: s st)
  case Nil
  then have "cbs_len s = 0" using length_cbs_bytes [of s] by simp
  with Nil show ?case by (simp add: oid_rest.simps CBS_len_def cbb_ready_def extends_refl)
next
  case (Cons c cs)
  have "cbs_bytes s \<noteq> []" using Cons.prems(2) by (simp add: b128_def)
  then have "cbs_len s \<noteq> 0" using length_cbs_bytes [OF Cons.prems(1)] by (metis length_0_conv)
  then have ne: "CBS_len s \<noteq> 0" by (simp add: CBS_len_def)
  let ?s1 = "cbs_adv (length (b128 c)) s"
  have p: "parse_base128_integer s = (Ok (of_nat c), ?s1)"
    by (rule parse_b128 [of s c "concat (map b128 cs)"]) (use Cons.prems in simp_all)
  have u: "unat (of_nat c :: u64) = c" using Cons.prems(3) by (simp add: unat_of_nat)
  obtain st1 where st1: "CBB_add_u8 46 0 st = (Ok (), st1)" "extends st [46] st1" "cbb_ready 0 st1"
      "cbb_room (length (decimal c) + length (dotted cs)) st1"
    using wu8.op_then [OF TrueI Cons.prems(4), of 46 "length (decimal c) + length (dotted cs)"] Cons.prems(5) by auto
  obtain st2 where st2: "add_decimal (of_nat c) 0 st1 = (Ok (), st2)" "extends st1 (decimal c) st2"
      "cbb_ready 0 st2" "cbb_room (length (dotted cs)) st2"
    using wdecimal.op_then [OF TrueI st1(3), of "of_nat c" "length (dotted cs)"] st1(4) unfolding u by auto
  obtain st3 where st3: "oid_rest ?s1 st2 = (Ok (), st3)" "extends st2 (dotted cs) st3"
    using Cons.IH [OF _ _ _ st2(3,4), of ?s1] Cons.prems(1-3) by auto
  have "oid_rest s st = (Ok (), st3)"
    using ne p st1(1) st2(1) st3(1) by (subst oid_rest.simps) simp
  with extends_trans [OF st1(2) extends_trans [OF st2(2) st3(2)]] show ?case by auto
qed

text \<open>A builder as \<^verbatim>\<open>CBB_init\<close> leaves it, when the allocator delivers.\<close>

lemma CBB_init_ready:
  assumes "cs_mallocs fresh = []"
  shows "\<exists>st. CBB_init cap fresh = (Ok (), st) \<and> cbb_ready 0 st \<and> cbb_out st = [] \<and>
     \<not> cb_is_child (cs_chain st ! 0) \<and> (\<forall>n < 2 ^ 64. cbb_room n st)"
  using assms
  by (simp add: CBB_init_def cbb_malloc_def CBB_zero_def cbb_init_def cbb_ready_def cbb_ok_def cbb_out_def cbb_room_def)

lemma finish_ready:
  assumes "cbb_ready 0 st" "\<not> cb_is_child (cs_chain st ! 0)"
  shows "\<exists>buf len st'. CBB_finish True st = (Ok (buf, len), st') \<and> take (unat len) buf = cbb_out st \<and>
     unat len = length (cbb_out st) \<and> unat len \<le> length buf"
proof -
  have "cbb_ok st" using assms(1) by (simp add: cbb_ready_def)
  then obtain b where b: "cs_base st = Some b" "length (bb_buf b) = unat (bb_cap b)"
      "unat (bb_len b) \<le> unat (bb_cap b)" "cbb_out st = take (unat (bb_len b)) (bb_buf b)"
      "length (cbb_out st) = unat (bb_len b)" by (rule cbb_okE)
  have "cs_chain st \<noteq> []" "\<not> cb_is_child (hd (cs_chain st))"
    using assms by (auto simp: cbb_ready_def hd_conv_nth length_Suc_conv)
  then show ?thesis using b flush_ready [OF assms(1)] by (simp add: CBB_finish_def CBB_cleanup_def hd_conv_nth)
qed

lemma first_component_writes:
  assumes "oid_good a b cs" "cbb_ready 0 st" "cbb_room (length (decimal a @ 46 # decimal b) + n) st"
    and v: "v = (of_nat (40 * a + b) :: u64)"
  shows "\<exists>st'. (if 80 \<le> v
        then seq_ok (CBB_add_bytes [50, 46] 2 0 st) (\<lambda>_ st1. add_decimal (v - 80) 0 st1)
        else seq_ok (add_decimal (v div 40) 0 st) (\<lambda>_ st1.
          seq_ok (CBB_add_u8 46 0 st1) (\<lambda>_ st2. add_decimal (v mod 40) 0 st2))) = (Ok (), st') \<and>
     extends st (decimal a @ 46 # decimal b) st' \<and> cbb_ready 0 st' \<and> cbb_room n st'"
proof -
  have ab: "a \<le> 2" "a < 2 \<Longrightarrow> b \<le> 39" "40 * a + b < 2 ^ 64" using assms(1) by (auto simp: oid_good_def)
  have uv: "unat v = 40 * a + b" using ab(3) unfolding v by (simp add: unat_of_nat del: of_nat_add of_nat_mult)
  have "\<exists>st'. (if 80 \<le> v
        then seq_ok (CBB_add_bytes [50, 46] 2 0 st) (\<lambda>_ st1. add_decimal (v - 80) 0 st1)
        else seq_ok (add_decimal (v div 40) 0 st) (\<lambda>_ st1.
          seq_ok (CBB_add_u8 46 0 st1) (\<lambda>_ st2. add_decimal (v mod 40) 0 st2))) = (Ok (), st') \<and>
     extends st (decimal a @ 46 # decimal b) st'"
  proof (cases "a = 2")
    case True
    then have big: "80 \<le> v" using uv by (simp add: word_le_nat_alt)
    have u: "unat (v - 80) = b" using uv True big by (subst unat_sub) simp_all
    have da: "decimal a = [50]" using True by (simp add: decimal.simps)
    obtain st1 where st1: "CBB_add_bytes [50, 46] 2 0 st = (Ok (), st1)" "extends st [50, 46] st1" "cbb_ready 0 st1"
        "cbb_room (length (decimal b)) st1"
      using wbytes.op_then [OF TrueI assms(2), of "[50, 46]" "length (decimal b)"]
        cbb_room_mono [OF assms(3)] da by auto
    obtain st2 where "add_decimal (v - 80) 0 st1 = (Ok (), st2)" "extends st1 (decimal b) st2"
      using wdecimal.op_extends [OF TrueI st1(3), of "v - 80"] st1(4) unfolding u by blast
    with big st1(1) extends_trans [OF st1(2)] show ?thesis unfolding da by fastforce
  next
    case False
    then have small: "\<not> 80 \<le> v" and ub: "b \<le> 39" using uv ab by (auto simp: word_le_nat_alt)
    have u: "unat (v div 40) = a" "unat (v mod 40) = b"
      using uv ub by (simp_all add: unat_div_distrib unat_mod_distrib)
    have "cbb_room (length (decimal a) + (1 + length (decimal b))) st"
      by (rule cbb_room_mono [OF assms(3)]) simp
    then obtain st1 where st1: "add_decimal (v div 40) 0 st = (Ok (), st1)" "extends st (decimal a) st1" "cbb_ready 0 st1"
        "cbb_room (1 + length (decimal b)) st1"
      using wdecimal.op_then [OF TrueI assms(2), of "v div 40"] unfolding u by blast
    obtain st2 where st2: "CBB_add_u8 46 0 st1 = (Ok (), st2)" "extends st1 [46] st2" "cbb_ready 0 st2"
        "cbb_room (length (decimal b)) st2"
      using wu8.op_then [OF TrueI st1(3), of 46 "length (decimal b)"] st1(4) by auto
    obtain st3 where st3: "add_decimal (v mod 40) 0 st2 = (Ok (), st3)" "extends st2 (decimal b) st3"
      using wdecimal.op_extends [OF TrueI st2(3), of "v mod 40"] st2(4) unfolding u by blast
    have "extends st (decimal a @ [46] @ decimal b) st3"
      by (rule extends_trans [OF st1(2) extends_trans [OF st2(2) st3(2)]])
    with small st1(1) st2(1) st3(1) show ?thesis by auto
  qed
  then show ?thesis using extends_ready assms(2) extends_room [OF _ assms(3)] by blast
qed

lemma oid_to_text:
  assumes good: "oid_good a b cs" and s: "cbs_wf s" "cbs_bytes s = oid_der a b cs"
    and len: "length (oid_text a b cs) + 1 < 2 ^ 64" and mem: "cs_mallocs fresh = []"
  shows "CBS_asn1_oid_to_text fresh s = Ok (oid_text a b cs @ [0])"
proof -
  obtain st where st: "CBB_init 32 fresh = (Ok (), st)" "cbb_ready 0 st" "cbb_out st = []"
      "\<not> cb_is_child (cs_chain st ! 0)" "\<And>n. n < 2 ^ 64 \<Longrightarrow> cbb_room n st"
    using CBB_init_ready [OF mem, of 32] by blast
  let ?v = "of_nat (40 * a + b) :: u64" let ?s1 = "cbs_adv (length (b128 (40 * a + b))) s"
  have p: "parse_base128_integer s = (Ok ?v, ?s1)"
    by (rule parse_b128 [of s _ "concat (map b128 cs)"]) (use s good in \<open>auto simp: oid_der_def oid_good_def\<close>)
  have s1: "cbs_wf ?s1" "cbs_bytes ?s1 = concat (map b128 cs)" using s by (simp_all add: oid_der_def)
  have room: "cbb_room (length (decimal a @ 46 # decimal b) + (length (dotted cs) + 1)) st"
    using len by (intro st(5)) (simp add: oid_text_def)
  obtain st1 where st1: "(if 80 \<le> ?v
        then seq_ok (CBB_add_bytes [50, 46] 2 0 st) (\<lambda>_ st1. add_decimal (?v - 80) 0 st1)
        else seq_ok (add_decimal (?v div 40) 0 st) (\<lambda>_ st1.
          seq_ok (CBB_add_u8 46 0 st1) (\<lambda>_ st2. add_decimal (?v mod 40) 0 st2))) = (Ok (), st1)"
      "extends st (decimal a @ 46 # decimal b) st1" "cbb_ready 0 st1" "cbb_room (length (dotted cs) + 1) st1"
    using first_component_writes [OF good st(2) room refl] by blast
  obtain st2 where st2: "oid_rest ?s1 st1 = (Ok (), st2)" "extends st1 (dotted cs) st2"
    using oid_rest_writes [OF s1 _ st1(3) cbb_room_mono [OF st1(4)]] good by (auto simp: oid_good_def)
  have r2: "cbb_ready 0 st2" "cbb_room 1 st2"
    using extends_ready [OF st2(2) st1(3)] extends_room [OF st2(2) st1(4)] by simp_all
  obtain st3 where st3: "CBB_add_u8 0 0 st2 = (Ok (), st3)" "extends st2 [0] st3" "cbb_ready 0 st3"
    using wu8.op_then [OF TrueI r2(1), of 0 0] r2(2) by auto
  have e: "extends st ((decimal a @ 46 # decimal b) @ dotted cs @ [0]) st3"
    by (rule extends_trans [OF st1(2) extends_trans [OF st2(2) st3(2)]])
  then have out: "cbb_out st3 = oid_text a b cs @ [0]" and ch: "cs_chain st3 = cs_chain st"
    using st(3) by (simp_all add: extends_def oid_text_def)
  obtain buf l st4 where fin: "CBB_finish True st3 = (Ok (buf, l), st4)" "take (unat l) buf = cbb_out st3"
    using finish_ready [OF st3(3)] st(4) ch by auto
  show ?thesis
    unfolding CBS_asn1_oid_to_text_def st(1) seq_ok_simps p prod.case outcome.case st1(1) st2(1) st3(1) fin
    by (simp add: out)
qed

end
