(* ===== verification/Bytestring.thy ===== *)
theory Bytestring
  imports Cbs_Safety Cbb_Safety Oid
begin

text \<open>
  What the reader and the builder of \<^verbatim>\<open>crypto/bytestring\<close> promise each other: length-prefixed strings, the
  values of ASN.1, nested elements and object identifiers go from one to the other unchanged, and the
  reader accepts exactly the DER encodings.
\<close>

section \<open>Length-prefixed strings\<close>

text \<open>A child with a length prefix of \<open>k\<close> bytes and the given contents, opened, filled and flushed.\<close>

definition add_prefixed :: "byte \<Rightarrow> byte list \<Rightarrow> nat \<Rightarrow> cbb_state \<Rightarrow> unit outcome \<times> cbb_state" where
  "add_prefixed k bs d st = seq_ok (cbb_add_length_prefixed d k st) (\<lambda>_ st1.
     seq_ok (CBB_add_bytes bs (of_nat (length bs)) (Suc d) st1) (\<lambda>_ st2. CBB_flush d st2))"

definition get_prefixed :: "nat \<Rightarrow> CBS \<Rightarrow> byte list outcome \<times> CBS" where
  "get_prefixed k s = seq_ok (cbs_get_length_prefixed k s) (\<lambda>out s1. (cbs_contents out, s1))"

definition prefixed :: "nat \<Rightarrow> byte list \<Rightarrow> byte list" where
  "prefixed k bs = be_bytes k (length bs) @ bs"

lemma length_prefixed_pending:
  assumes "cbb_ready d st" "cbb_room (unat k + n) st" "k \<noteq> 0"
  shows "\<exists>st'. cbb_add_length_prefixed d k st = (Ok (), st') \<and> pending d False k (cbb_out st) [] st' \<and>
     cbb_room n st' \<and> take (Suc d) (cs_chain st') = cs_chain st \<and>
     (\<forall>j. cbb_room (unat k + j) st \<longrightarrow> cbb_room j st')"
proof -
  have ok: "cbb_ok st" using assms(1) by (simp add: cbb_ready_def)
  let ?z = "replicate (unat k) (0 :: byte)"
  have "cbb_room (length ?z) st" using cbb_room_mono [OF assms(2)] by simp
  from buffer_append [OF ok this] obtain st1 st2 where st:
      "cbb_buffer_add (of_nat (unat k)) st = (Ok (of_nat (length (cbb_out st))), st1)"
      "cbb_poke (of_nat (length (cbb_out st))) ?z st1 = (Ok (), st2)" "extends st ?z st2" by auto
  have k: "(of_nat (unat k) :: u64) = ucast k" by (rule unat_eq_of_nat [symmetric]) (simp add: unat_ucast_up)
  let ?st = "open_child d (of_nat (length (cbb_out st))) k False st2"
  have r2: "cbb_ready d st2" by (rule extends_ready [OF st(3) assms(1)])
  have eq: "cbb_add_length_prefixed d k st = (Ok (), ?st)"
    using st(1,2) by (simp add: cbb_add_length_prefixed_def flush_ready [OF assms(1)] Let_def k base_len_out [OF ok])
  have ch: "length (cs_chain st2) = Suc d" "cs_chain st2 = cs_chain st"
    using r2 st(3) by (simp_all add: cbb_ready_def extends_def)
  have "pending d False k (cbb_out st) [] ?st"
    using open_child_ready [OF r2] ch st(3) assms(3)
    by (simp add: pending_def) (simp add: open_child_def extends_def nth_append)
  moreover have "cbb_room j st2" if "cbb_room (unat k + j) st" for j
    using extends_room [OF st(3), of j] that by simp
  ultimately show ?thesis using eq ch assms(2)
    by (intro exI [of _ ?st]) (simp add: open_child_def [of d _ k False st2])
qed

lemma add_prefixed_pending:
  assumes "cbb_ready d st" "cbb_room (unat k + length bs) st" "k \<noteq> 0"
  obtains st2 where "add_prefixed k bs d st = CBB_flush d st2" "pending d False k (cbb_out st) bs st2"
    "take (Suc d) (cs_chain st2) = cs_chain st" "\<And>j. cbb_room (unat k + length bs + j) st \<Longrightarrow> cbb_room j st2"
proof -
  obtain st1 where st1: "cbb_add_length_prefixed d k st = (Ok (), st1)" "pending d False k (cbb_out st) [] st1"
      "cbb_room (length bs) st1" "take (Suc d) (cs_chain st1) = cs_chain st"
      "\<And>j. cbb_room (unat k + j) st \<Longrightarrow> cbb_room j st1"
    using length_prefixed_pending [OF assms] by blast
  have "cbb_ready (Suc d) st1" using st1(2) by (simp add: pending_def)
  from wbytes.op_extends [OF TrueI this st1(3)] obtain st2 where
    st2: "CBB_add_bytes bs (of_nat (length bs)) (Suc d) st1 = (Ok (), st2)" "extends st1 bs st2" by blast
  show thesis
  proof
    show "add_prefixed k bs d st = CBB_flush d st2" by (simp add: add_prefixed_def st1(1) st2(1))
    show "pending d False k (cbb_out st) bs st2" using pending_extends [OF st1(2) st2(2)] by simp
    show "take (Suc d) (cs_chain st2) = cs_chain st" using st1(4) st2(2) by (simp add: extends_def)
    show "cbb_room j st2" if "cbb_room (unat k + length bs + j) st" for j
      using extends_room [OF st2(2), of j] st1(5) that by (simp add: add.assoc)
  qed
qed

lemma add_prefixed_extends:
  assumes "k \<noteq> 0" "length bs < 256 ^ unat k" "cbb_ready d st" "cbb_room (length (prefixed (unat k) bs)) st"
  shows "\<exists>st'. add_prefixed k bs d st = (Ok (), st') \<and> extends st (prefixed (unat k) bs) st'"
proof -
  have len: "length (prefixed (unat k) bs) = unat k + length bs" by (simp add: prefixed_def)
  obtain st2 where st2: "add_prefixed k bs d st = CBB_flush d st2" "pending d False k (cbb_out st) bs st2"
      "take (Suc d) (cs_chain st2) = cs_chain st" "\<And>j. cbb_room (unat k + length bs + j) st \<Longrightarrow> cbb_room j st2"
    using add_prefixed_pending [OF assms(3) _ assms(1), of bs] assms(4) len by metis
  obtain st' where "CBB_flush d st2 = (Ok (), st')" "closes d st2 (cbb_out st @ be_bytes (unat k) (length bs) @ bs) 0 st'"
    using flush_length_child [OF st2(2) assms(2)] by blast
  then show ?thesis using st2 len by (auto simp: extends_def closes_def prefixed_def)
qed

lemma get_prefixed_put:
  assumes "cbs_wf s" "length bs < 256 ^ k" "k \<le> 8" "cbs_bytes s = prefixed k bs @ rest"
  shows "get_prefixed k s = (Ok bs, cbs_adv (length (prefixed k bs)) s)"
proof -
  have b: "cbs_bytes s = be_bytes k (length bs) @ bs @ rest" using assms(4) by (simp add: prefixed_def)
  have "(256 :: nat) ^ k \<le> 256 ^ 8" using assms(3) by (intro power_increasing) simp_all
  then have lt: "length bs < 2 ^ 64" using assms(2) by simp
  let ?t = "cbs_adv k s" let ?o = "CBS_init (cbs_data ?t) (length bs)"
  have u: "cbs_get_u k s = (Ok (of_nat (length bs)), ?t)" by (rule get_u_be [OF assms(1) b assms(3,2)])
  have t: "cbs_wf ?t" "cbs_bytes ?t = bs @ rest" using assms(1) b by simp_all
  have le: "length bs \<le> cbs_len ?t" by (rule cbs_prefix_le [OF t])
  have "cbs_wf ?o" by (rule cbs_part_wf [OF t(1) cbs_part_init [OF le]])
  moreover have "take (length bs) (cbs_data ?t) = take (length bs) (cbs_bytes ?t)"
    using le by (simp add: cbs_bytes_def min_def)
  then have "cbs_bytes ?o = bs" using t(2) by simp
  ultimately have c: "cbs_contents ?o = Ok bs" by (simp add: cbs_contents)
  have "CBS_get_bytes (length bs) ?t = (Ok ?o, cbs_adv (length bs) ?t)" using le by (simp add: get_bytes_Ok)
  then show ?thesis using u c lt
    by (simp add: get_prefixed_def cbs_get_length_prefixed_def unat_of_nat prefixed_def)
qed

lemma prefixed_value:
  assumes "k \<noteq> 0" "unat k \<le> 8"
  shows "der_value (add_prefixed k) (get_prefixed (unat k)) (prefixed (unat k)) (\<lambda>bs. length bs < 256 ^ unat k)"
proof (unfold_locales, goal_cases)
  case (1 bs d st) then show ?case using add_prefixed_extends [OF assms(1)] by blast
next
  case (2 s bs rest) then show ?case by (intro get_prefixed_put [OF _ _ assms(2)])
next
  case (3 bs)
  have "unat k \<noteq> 0" using assms(1) by (simp add: unat_eq_0)
  then show ?case by (simp add: prefixed_def)
qed

interpretation vp8: der_value "add_prefixed 1" "get_prefixed 1" "prefixed 1" "\<lambda>bs. length bs < 256"
  using prefixed_value [of 1] by simp
interpretation vp16: der_value "add_prefixed 2" "get_prefixed 2" "prefixed 2" "\<lambda>bs. length bs < 256 ^ 2"
  using prefixed_value [of 2] by simp
interpretation vp24: der_value "add_prefixed 3" "get_prefixed 3" "prefixed 3" "\<lambda>bs. length bs < 256 ^ 3"
  using prefixed_value [of 3] by simp

text \<open>Contents too long for the prefix put the buffer into its error.\<close>

lemma add_prefixed_too_long:
  assumes "cbb_ready d st" "cbb_room (unat k + length bs) st" "k \<noteq> 0" "256 ^ unat k \<le> length bs"
  shows "\<exists>st'. add_prefixed k bs d st = (Fail, st') \<and> cbb_dead st'"
proof -
  obtain st2 where st2: "add_prefixed k bs d st = CBB_flush d st2" "pending d False k (cbb_out st) bs st2"
    using add_prefixed_pending [OF assms(1-3)] by metis
  let ?w = "cbb_out st"
  from st2(2) obtain z where z: "cbb_ok st2" "length z = unat k" "cbb_out st2 = ?w @ z @ bs"
      "cs_chain st2 ! Suc d = \<lparr>cb_offset = of_nat (length ?w), cb_pending_len_len = k,
         cb_pending_is_asn1 = False, cb_is_child = True, cb_gone = False\<rparr>"
    by (auto simp: pending_def cbb_ready_def)
  obtain b where b: "cs_base st2 = Some b" "bb_len b - of_nat (length ?w + unat k) = of_nat (length bs)"
    using flush_pending(2) [OF st2(2)] by blast
  have "length bs < 2 ^ 64" using out_less [OF z(1)] z(3) by simp
  then have u: "unat (of_nat (length bs) :: u64) = length bs" by (simp add: unat_of_nat)
  have "unat (drop_bit (8 * unat k) (of_nat (length bs) :: u64)) \<noteq> 0"
    unfolding unat_drop_bit_div u using assms(4) by (simp add: pow256 div_eq_0_iff)
  then have ne: "drop_bit (8 * unat k) (of_nat (length bs) :: u64) \<noteq> 0" by (metis unsigned_0)
  obtain st3 where st3: "cbb_poke (of_nat (length ?w)) (be_bytes (unat k) (length bs)) st2 = (Ok (), st3)" "cbb_ok st3"
    using poke_inside [OF z(1), of "length ?w" "be_bytes (unat k) (length bs)"] z(2,3) by (auto simp: overwrites_def)
  have "CBB_flush d st2 = cbb_fail st3"
    unfolding flush_pending(1) [OF st2(2)] flush_prefix_def b(1) option.case z(4) Let_def
    using b(2) st3(1) ne u by (simp add: store_u)
  moreover have "cbb_dead (snd (cbb_fail st3))" using st3(2) by (auto simp: cbb_fail_def cbb_dead_def cbb_ok_def)
  ultimately show ?thesis using st2(1) by (simp add: cbb_fail_def)
qed

section \<open>From a fresh builder\<close>

context der_value
begin

lemma init_build_parse:
  assumes "cs_mallocs fresh = []" "list_all good xs" "length (concat (map put xs)) < 2 ^ 64"
  shows "\<exists>st st1 buf len st2 rest. CBB_init cap fresh = (Ok (), st) \<and> write_all op xs 0 st = (Ok (), st1) \<and>
     CBB_finish True st1 = (Ok (buf, len), st2) \<and> take (unat len) buf = concat (map put xs) \<and>
     read_all get (length xs) (CBS_init buf (unat len)) = (Ok xs, rest) \<and> CBS_len rest = 0"
proof -
  obtain st where st: "CBB_init cap fresh = (Ok (), st)" "cbb_ready 0 st" "cbb_out st = []"
      "\<not> cb_is_child (cs_chain st ! 0)" "\<And>n. n < 2 ^ 64 \<Longrightarrow> cbb_room n st"
    using CBB_init_ready [OF assms(1), of cap] by blast
  show ?thesis
    using build_parse [of xs st] st assms by (simp add: list_all_iff)
qed

end

lemma length_concat_le: "(\<And>x. x \<in> set xs \<Longrightarrow> length (f x) \<le> n) \<Longrightarrow> length (concat (map f xs)) \<le> n * length xs"
  by (induction xs) (auto simp: add_le_mono)

lemma short_element: "length c \<le> 9 \<Longrightarrow> length (der_element (CBS_ASN1_INTEGER, c)) \<le> 11"
  by (simp add: der_element_def der_tag_def der_length_def tag_number_def asn1_consts)

text \<open>Any sequence of signed 64-bit integers written with \<^verbatim>\<open>CBB_add_asn1_int64\<close> into a fresh builder and
  finished is read back with \<^verbatim>\<open>CBS_get_asn1_int64\<close>, the same values in the same order with nothing left
  over. (Values are the bit patterns of the \<^verbatim>\<open>int64_t\<close>.)\<close>

theorem asn1_int64_roundtrip:
  assumes "cs_mallocs fresh = []" "length vs < 2 ^ 60"
  shows "\<exists>st st1 buf len st2 rest. CBB_init cap fresh = (Ok (), st) \<and>
     write_all CBB_add_asn1_int64 vs 0 st = (Ok (), st1) \<and> CBB_finish True st1 = (Ok (buf, len), st2) \<and>
     read_all CBS_get_asn1_int64 (length vs) (CBS_init buf (unat len)) = (Ok vs, rest) \<and> CBS_len rest = 0"
proof -
  have "length (concat (map (\<lambda>v. der_element (CBS_ASN1_INTEGER, int_content v)) vs)) \<le> 11 * length vs"
    by (rule length_concat_le) (rule short_element [OF int_content_length])
  then have "length (concat (map (\<lambda>v. der_element (CBS_ASN1_INTEGER, int_content v)) vs)) < 2 ^ 64"
    using assms(2) by simp
  from vint.init_build_parse [OF assms(1) _ this, of cap] show ?thesis by (auto simp: list_all_iff)
qed

theorem asn1_int64_roundtrip_witness:
  "\<exists>st st1 buf len st2 rest. CBB_init 0 (blank []) = (Ok (), st) \<and>
     write_all CBB_add_asn1_int64 [0, - 1, 128, - 129] 0 st = (Ok (), st1) \<and> CBB_finish True st1 = (Ok (buf, len), st2) \<and>
     read_all CBS_get_asn1_int64 (length [0, - 1, 128, - 129 :: u64]) (CBS_init buf (unat len)) = (Ok [0, - 1, 128, - 129], rest) \<and>
     CBS_len rest = 0"
  by (rule asn1_int64_roundtrip) (simp_all add: blank_def)

text \<open>A client that opens a child with a one-, two- or three-byte length prefix, fills it and flushes gets
  the prefix and the contents behind what was there, and the reader splits them again; contents that
  the prefix cannot count fail the flush and leave the buffer in its error, never a truncated length.\<close>

theorem length_prefixed_exact:
  assumes "k \<in> {1, 2, 3}" "cbb_ready d st" "cbb_room (unat k + length bs) st"
  shows "if length bs < 256 ^ unat k
    then (\<exists>st'. add_prefixed k bs d st = (Ok (), st') \<and> cbb_out st' = cbb_out st @ prefixed (unat k) bs \<and>
            cs_chain st' = cs_chain st \<and>
            get_prefixed (unat k) (CBS_init (prefixed (unat k) bs) (unat k + length bs)) = (Ok bs, CBS_init [] 0))
    else (\<exists>st'. add_prefixed k bs d st = (Fail, st') \<and> cbb_dead st')"
proof -
  have k: "k \<noteq> 0" "unat k \<le> 3" using assms(1) by auto
  have len: "length (prefixed (unat k) bs) = unat k + length bs" by (simp add: prefixed_def)
  show ?thesis
  proof (cases "length bs < 256 ^ unat k")
    case True
    have lt: "unat k + length bs < 2 ^ 64" using assms(3) by (auto simp: cbb_room_def)
    let ?s = "CBS_init (prefixed (unat k) bs) (unat k + length bs)"
    have "get_prefixed (unat k) ?s = (Ok bs, cbs_adv (length (prefixed (unat k) bs)) ?s)"
      using k lt len True by (intro get_prefixed_put [where rest = "[]"]) simp_all
    then have "get_prefixed (unat k) ?s = (Ok bs, CBS_init [] 0)" by (simp add: len)
    then show ?thesis using True add_prefixed_extends [OF k(1) True assms(2)] assms(3) len
      by (auto simp: extends_def)
  next
    case False
    then show ?thesis using add_prefixed_too_long [OF assms(2,3) k(1)] by simp
  qed
qed

theorem length_prefixed_exact_witness:
  "\<exists>st. cbb_ready 0 st \<and> (\<exists>st'. add_prefixed 1 [7, 8] 0 st = (Ok (), st') \<and> cbb_out st' = cbb_out st @ prefixed 1 [7, 8] \<and>
     cs_chain st' = cs_chain st \<and> get_prefixed 1 (CBS_init (prefixed 1 [7, 8]) 3) = (Ok [7, 8], CBS_init [] 0))"
proof -
  obtain st where st: "cbb_ready 0 st" "\<And>n. n < 2 ^ 64 \<Longrightarrow> cbb_room n st"
    using CBB_init_ready [of "blank []" 0] by (auto simp: blank_def)
  have "cbb_room (unat (1 :: byte) + length [7, 8 :: byte]) st" by (rule st(2)) simp
  from length_prefixed_exact [OF _ st(1) this] have
    "\<exists>st'. add_prefixed 1 [7, 8] 0 st = (Ok (), st') \<and> cbb_out st' = cbb_out st @ prefixed 1 [7, 8] \<and>
      cs_chain st' = cs_chain st \<and> get_prefixed 1 (CBS_init (prefixed 1 [7, 8]) 3) = (Ok [7, 8], CBS_init [] 0)"
    by (simp add: numeral_3_eq_3)
  with st(1) show ?thesis by blast
qed

section \<open>The reader accepts exactly DER\<close>

text \<open>C13: \<^verbatim>\<open>CBS_get_any_asn1\<close> succeeds on a string of bytes exactly when it starts with the DER encoding of an
  element whose contents are shorter than \<open>2\<^sup>3\<^sup>2\<close> bytes: the tag in its short or minimal long form, the length in
  its minimal form, then the contents. It then returns that tag and those contents and is left with
  the rest; no other encoding of a tag or length is accepted.\<close>

theorem der_parser_exact:
  assumes "cbs_wf s"
  shows "(\<exists>out s'. CBS_get_any_asn1 s = (Ok (out, tag), s') \<and> cbs_bytes out = c \<and> cbs_bytes s' = rest) \<longleftrightarrow>
    length c < 2 ^ 32 \<and> cbs_bytes s = der_element (tag, c) @ rest"
proof
  assume "\<exists>out s'. CBS_get_any_asn1 s = (Ok (out, tag), s') \<and> cbs_bytes out = c \<and> cbs_bytes s' = rest"
  then obtain out s' where o: "CBS_get_any_asn1 s = (Ok (out, tag), s')" "cbs_bytes out = c" "cbs_bytes s' = rest" by blast
  then obtain el hl bf where el: "cbs_get_any_asn1_element False s = (Ok (el, tag, hl, bf), s')" "skip_asserted hl el = Ok out"
    by (auto simp: CBS_get_any_asn1_def CBS_get_any_asn1_element_def seq_ok_eq_Ok)
  have "out = cbs_adv hl el" using el(2) element_Ok [OF assms el(1)] by (simp add: skip_asserted)
  moreover obtain c' where "length c' < 2 ^ 32" "cbs_bytes s = der_element (tag, c') @ cbs_bytes s'" "cbs_bytes (cbs_adv hl el) = c'"
    using element_sound [OF assms el(1)] by blast
  ultimately show "length c < 2 ^ 32 \<and> cbs_bytes s = der_element (tag, c) @ rest" using o(2,3) by metis
next
  assume c: "length c < 2 ^ 32 \<and> cbs_bytes s = der_element (tag, c) @ rest"
  then obtain out where "CBS_get_any_asn1 s = (Ok (out, tag), cbs_adv (length (der_element (tag, c))) s)" "cbs_bytes out = c"
    using get_any_asn1_der [OF assms] by blast
  with c show "\<exists>out s'. CBS_get_any_asn1 s = (Ok (out, tag), s') \<and> cbs_bytes out = c \<and> cbs_bytes s' = rest" by auto
qed

theorem der_parser_exact_witness:
  "(\<exists>out s'. CBS_get_any_asn1 (CBS_init [4, 1, 7, 9] 4) = (Ok (out, 4), s') \<and> cbs_bytes out = [7] \<and> cbs_bytes s' = [9]) \<and>
   \<not> (\<exists>out s'. CBS_get_any_asn1 (CBS_init [4, 0x81, 1, 7] 4) = (Ok (out, 4), s') \<and> cbs_bytes out = [7] \<and> cbs_bytes s' = [])"
  using der_parser_exact [of "CBS_init [4, 1, 7, 9] 4" 4 "[7]" "[9]"]
    der_parser_exact [of "CBS_init [4, 0x81, 1, 7] 4" 4 "[7]" "[]"]
  by (simp add: der_element_def der_tag_def der_length_def tag_number_def tag_bits_def asn1_consts)

section \<open>Nested elements\<close>

text \<open>A value of ASN.1 as a tree; how a client builds it with nested \<^verbatim>\<open>CBB\<close> objects, one open child per
  level; and how a client descends into it with nested \<^verbatim>\<open>CBS\<close> objects. \<open>f\<close> bounds the number of nested
  calls of the reading client; the number of bytes is always enough.\<close>

datatype asn1 = Prim u32 "byte list" | Constr u32 "asn1 list"

declare seq_ok_cong [fundef_cong del]

fun build :: "asn1 \<Rightarrow> nat \<Rightarrow> cbb_state \<Rightarrow> unit outcome \<times> cbb_state"
  and build_list :: "asn1 list \<Rightarrow> nat \<Rightarrow> cbb_state \<Rightarrow> unit outcome \<times> cbb_state" where
  "build (Prim tag bs) d st = seq_ok (CBB_add_asn1 tag d st) (\<lambda>_ st1.
     seq_ok (CBB_add_bytes bs (of_nat (length bs)) (Suc d) st1) (\<lambda>_ st2. CBB_flush d st2))"
| "build (Constr tag ts) d st = seq_ok (CBB_add_asn1 tag d st) (\<lambda>_ st1.
     seq_ok (build_list ts (Suc d) st1) (\<lambda>_ st2. CBB_flush d st2))"
| "build_list [] d st = (Ok (), st)"
| "build_list (t # ts) d st = seq_ok (build t d st) (\<lambda>_ st1. build_list ts d st1)"

fun parse :: "nat \<Rightarrow> CBS \<Rightarrow> asn1 outcome \<times> CBS"
  and parse_list :: "nat \<Rightarrow> CBS \<Rightarrow> asn1 list outcome \<times> CBS" where
  "parse 0 s = (Fail, s)"
| "parse (Suc f) s = seq_ok (CBS_get_any_asn1 s) (\<lambda>(out, tag) s1.
     if tag AND CBS_ASN1_CONSTRUCTED \<noteq> 0
     then seq_ok (fst (parse_list f out), s1) (\<lambda>ts s2. (Ok (Constr tag ts), s2))
     else seq_ok (cbs_contents out, s1) (\<lambda>bs s2. (Ok (Prim tag bs), s2)))"
| "parse_list 0 s = (Fail, s)"
| "parse_list (Suc f) s = (if CBS_len s = 0 then (Ok [], s)
     else seq_ok (parse f s) (\<lambda>t s1. seq_ok (parse_list f s1) (\<lambda>ts s2. (Ok (t # ts), s2))))"

declare seq_ok_cong [fundef_cong]

fun der_tree :: "asn1 \<Rightarrow> byte list" and der_trees :: "asn1 list \<Rightarrow> byte list" where
  "der_tree (Prim tag bs) = der_element (tag, bs)"
| "der_tree (Constr tag ts) = der_element (tag, der_trees ts)"
| "der_trees [] = []"
| "der_trees (t # ts) = der_tree t @ der_trees ts"

text \<open>The constructed bit says which is which, and no contents are longer than the builder allows.\<close>

fun tree_ok :: "asn1 \<Rightarrow> bool" and trees_ok :: "asn1 list \<Rightarrow> bool" where
  "tree_ok (Prim tag bs) \<longleftrightarrow> tag AND CBS_ASN1_CONSTRUCTED = 0 \<and> length bs \<le> 0xfffffffe"
| "tree_ok (Constr tag ts) \<longleftrightarrow> tag AND CBS_ASN1_CONSTRUCTED \<noteq> 0 \<and> length (der_trees ts) \<le> 0xfffffffe \<and> trees_ok ts"
| "trees_ok [] \<longleftrightarrow> True"
| "trees_ok (t # ts) \<longleftrightarrow> tree_ok t \<and> trees_ok ts"

lemma build_extends:
  "tree_ok t \<Longrightarrow> cbb_ready d st \<Longrightarrow> cbb_room (length (der_tree t)) st \<Longrightarrow>
     \<exists>st'. build t d st = (Ok (), st') \<and> extends st (der_tree t) st'"
  "trees_ok ts \<Longrightarrow> cbb_ready d st \<Longrightarrow> cbb_room (length (der_trees ts)) st \<Longrightarrow>
     \<exists>st'. build_list ts d st = (Ok (), st') \<and> extends st (der_trees ts) st'"
proof (induction t and ts arbitrary: d st and d st rule: der_tree_der_trees.induct)
  case (1 tag bs)
  have "\<exists>st'. seq_ok (CBB_add_asn1 tag d st) (\<lambda>_ st1. seq_ok (CBB_add_bytes bs (of_nat (length bs)) (Suc d) st1)
      (\<lambda>_ st2. CBB_flush d st2)) = (Ok (), st') \<and> extends st (der_element (tag, bs)) st'"
    by (rule element_writes) (use 1 wbytes.op_extends in auto)
  then show ?case by simp
next
  case (2 tag ts)
  have "\<exists>st'. seq_ok (CBB_add_asn1 tag d st) (\<lambda>_ st1. seq_ok (build_list ts (Suc d) st1)
      (\<lambda>_ st2. CBB_flush d st2)) = (Ok (), st') \<and> extends st (der_element (tag, der_trees ts)) st'"
    by (rule element_writes) (use 2 in auto)
  then show ?case by simp
next
  case 3
  then show ?case by (simp add: cbb_ready_def extends_refl)
next
  case (4 t ts)
  then obtain st1 where st1: "build t d st = (Ok (), st1)" "extends st (der_tree t) st1"
    using cbb_room_mono [OF "4.prems"(3)] by fastforce
  have "cbb_ready d st1" "cbb_room (length (der_trees ts)) st1"
    using extends_ready [OF st1(2)] extends_room [OF st1(2)] "4.prems" by simp_all
  then obtain st2 where "build_list ts d st1 = (Ok (), st2)" "extends st1 (der_trees ts) st2"
    using "4.IH"(2) "4.prems"(1) by auto
  with st1 show ?case by (auto intro: extends_trans)
qed

lemma der_element_length: "length c + 2 \<le> length (der_element (tag, c))"
  by (simp add: der_element_def) (metis Suc_leI add_mono der_length_nonempty der_tag_nonempty length_greater_0_conv one_add_one
      Suc_eq_plus1 One_nat_def)

lemma length_b128_high_le: "n < 128 ^ k \<Longrightarrow> length (b128_high n) \<le> k"
proof (induction k arbitrary: n)
  case (Suc k)
  then have "length (b128_high (n div 128)) \<le> k" by (simp add: less_mult_imp_div_less mult.commute)
  then show ?case by (subst b128_high.simps) simp
qed (simp add: b128_high.simps)

lemma der_element_length_le: "length (der_element (tag, c)) \<le> 25 + length c"
proof -
  have "length (b128 (unat (tag_number tag))) \<le> 6"
    using length_b128_high_le [of "unat (tag_number tag) div 128" 5] unat_u32_less [of "tag_number tag"]
    by (simp add: b128_def less_mult_imp_div_less)
  then have "length (der_tag tag) \<le> 7" by (simp add: der_tag_def)
  moreover have "length (der_length (length c)) \<le> 5" by (simp add: der_length_def len_octets_def)
  ultimately show ?thesis by (simp add: der_element_def)
qed

lemma parse_tree:
  "tree_ok t \<Longrightarrow> cbs_wf s \<Longrightarrow> cbs_bytes s = der_tree t @ rest \<Longrightarrow> length (der_tree t) \<le> f \<Longrightarrow>
     parse f s = (Ok t, cbs_adv (length (der_tree t)) s)"
  "trees_ok ts \<Longrightarrow> cbs_wf s \<Longrightarrow> cbs_bytes s = der_trees ts \<Longrightarrow> Suc (length (der_trees ts)) \<le> f \<Longrightarrow>
     fst (parse_list f s) = Ok ts"
proof (induction t and ts arbitrary: s f rest and s f rule: der_tree_der_trees.induct)
  case (1 tag bs)
  then obtain g where f: "f = Suc g" using der_element_length [of bs tag] by (cases f) auto
  obtain out where "CBS_get_any_asn1 s = (Ok (out, tag), cbs_adv (length (der_element (tag, bs))) s)" "cbs_wf out" "cbs_bytes out = bs"
    using get_any_asn1_der [of s tag bs rest] 1 by auto
  then show ?case using 1(1) by (simp add: f cbs_contents)
next
  case (2 tag ts)
  then obtain g where f: "f = Suc g" using der_element_length [of "der_trees ts" tag] by (cases f) auto
  obtain out where out: "CBS_get_any_asn1 s = (Ok (out, tag), cbs_adv (length (der_element (tag, der_trees ts))) s)"
      "cbs_wf out" "cbs_bytes out = der_trees ts"
    using get_any_asn1_der [of s tag "der_trees ts" rest] 2 by auto
  have "fst (parse_list g out) = Ok ts"
    using "2.IH" [OF _ out(2,3), of g] "2.prems" der_element_length [of "der_trees ts" tag] f by simp
  then show ?case using out "2.prems"(1) by (simp add: f)
next
  case 3
  then have "cbs_len s = 0" using length_cbs_bytes [of s] by simp
  then show ?case using 3(4) by (cases f) (simp_all add: CBS_len_def)
next
  case (4 t ts)
  then obtain g where f: "f = Suc g" by (cases f) auto
  have pos: "2 \<le> length (der_tree t)"
  proof (cases t)
    case (Prim tag bs) then show ?thesis using der_element_length [of bs tag] by simp
  next
    case (Constr tag us) then show ?thesis using der_element_length [of "der_trees us" tag] by simp
  qed
  have "cbs_len s \<noteq> 0" using length_cbs_bytes [OF "4.prems"(2)] "4.prems"(3) pos by auto
  moreover have "parse g s = (Ok t, cbs_adv (length (der_tree t)) s)"
    by (rule "4.IH"(1)) (use "4.prems" f in auto)
  moreover have "fst (parse_list g (cbs_adv (length (der_tree t)) s)) = Ok ts"
    by (rule "4.IH"(2)) (use "4.prems" f pos in auto)
  ultimately show ?case
    by (cases "parse_list g (cbs_adv (length (der_tree t)) s)") (simp add: f CBS_len_def)
qed

text \<open>C14: A tree of ASN.1 values built with nested builders, one open child per level and every length left
  to \<^verbatim>\<open>CBB_flush\<close>, is finished as its DER encoding, and a client that descends into the result with
  \<^verbatim>\<open>CBS_get_any_asn1\<close> gets the tree back with nothing left over.\<close>

theorem asn1_tree_roundtrip:
  assumes "cs_mallocs fresh = []" "tree_ok t"
  shows "\<exists>st st1 buf len st2 rest. CBB_init cap fresh = (Ok (), st) \<and> build t 0 st = (Ok (), st1) \<and>
     CBB_finish True st1 = (Ok (buf, len), st2) \<and> take (unat len) buf = der_tree t \<and>
     parse (unat len) (CBS_init buf (unat len)) = (Ok t, rest) \<and> CBS_len rest = 0"
proof -
  obtain st where st: "CBB_init cap fresh = (Ok (), st)" "cbb_ready 0 st" "cbb_out st = []"
      "\<not> cb_is_child (cs_chain st ! 0)" "\<And>n. n < 2 ^ 64 \<Longrightarrow> cbb_room n st"
    using CBB_init_ready [OF assms(1), of cap] by blast
  have "length (der_tree t) \<le> 25 + 0xfffffffe"
    using assms(2) by (cases t) (force intro: le_trans [OF der_element_length_le])+
  then have lt: "length (der_tree t) < 2 ^ 64" by simp
  obtain st1 where st1: "build t 0 st = (Ok (), st1)" "extends st (der_tree t) st1"
    using build_extends(1) [OF assms(2) st(2) st(5) [OF lt]] by blast
  have r1: "cbb_ready 0 st1" by (rule extends_ready [OF st1(2) st(2)])
  have "\<not> cb_is_child (cs_chain st1 ! 0)" using st(4) st1(2) by (simp add: extends_def)
  from finish_ready [OF r1 this] obtain buf len st2 where fin: "CBB_finish True st1 = (Ok (buf, len), st2)"
      "take (unat len) buf = cbb_out st1" "unat len = length (cbb_out st1)" "unat len \<le> length buf" by blast
  have out: "cbb_out st1 = der_tree t" using st1(2) st(3) by (simp add: extends_def)
  let ?s = "CBS_init buf (unat len)"
  have wf: "cbs_wf ?s" using fin(4) unat_u64_less [of len] by simp
  have "parse (unat len) ?s = (Ok t, cbs_adv (length (der_tree t)) ?s)"
    by (rule parse_tree(1) [OF assms(2) wf, where rest = "[]"]) (use fin out in simp_all)
  then show ?thesis using st(1) st1(1) fin out
    by (intro exI [of _ st] exI [of _ st1] exI [of _ buf] exI [of _ len] exI [of _ st2]) (simp add: CBS_len_def)
qed

theorem asn1_tree_roundtrip_witness:
  "\<exists>st st1 buf len st2 rest. CBB_init 16 (blank []) = (Ok (), st) \<and>
     build (Constr 0x20000010 [Prim 2 [5], Constr 0x20000011 [Prim 4 [1, 2]]]) 0 st = (Ok (), st1) \<and>
     CBB_finish True st1 = (Ok (buf, len), st2) \<and>
     take (unat len) buf = der_tree (Constr 0x20000010 [Prim 2 [5], Constr 0x20000011 [Prim 4 [1, 2]]]) \<and>
     parse (unat len) (CBS_init buf (unat len)) =
       (Ok (Constr 0x20000010 [Prim 2 [5], Constr 0x20000011 [Prim 4 [1, 2]]]), rest) \<and> CBS_len rest = 0"
  by (rule asn1_tree_roundtrip)
    (simp_all add: blank_def asn1_consts der_element_def der_tag_def der_length_def tag_number_def)

section \<open>Object identifiers\<close>

text \<open>C16: The text of an object identifier (dotted decimal numbers, the first at most 2, the second at most 39
  below 2, all below \<open>2\<^sup>6\<^sup>4\<close>) is accepted by \<^verbatim>\<open>CBB_add_asn1_oid_from_text\<close>, which adds one base-128 integer per component,
  the first two joined; \<^verbatim>\<open>CBS_asn1_oid_to_text\<close> on these bytes gives the text back, with its final zero byte.\<close>

theorem oid_text_roundtrip:
  assumes "oid_good a b cs" "length (oid_text a b cs) < 2 ^ 64 - 1"
    and "cbb_ready d st" "cbb_room (length (oid_der a b cs)) st" "cs_mallocs fresh = []"
  shows "\<exists>st'. CBB_add_asn1_oid_from_text (oid_text a b cs) (length (oid_text a b cs)) d st = (Ok (), st') \<and>
    cbb_out st' = cbb_out st @ oid_der a b cs \<and>
    CBS_asn1_oid_to_text fresh (CBS_init (oid_der a b cs) (length (oid_der a b cs))) = Ok (oid_text a b cs @ [0])"
proof -
  have "length (oid_der a b cs) < 2 ^ 64" using assms(4) by (auto simp: cbb_room_def)
  then have "CBS_asn1_oid_to_text fresh (CBS_init (oid_der a b cs) (length (oid_der a b cs))) = Ok (oid_text a b cs @ [0])"
    using assms by (intro oid_to_text) simp_all
  moreover obtain st' where "CBB_add_asn1_oid_from_text (oid_text a b cs) (length (oid_text a b cs)) d st = (Ok (), st')"
      "extends st (oid_der a b cs) st'"
    using oid_from_text [OF assms(1) _ assms(3,4)] assms(2) by auto
  ultimately show ?thesis by (auto simp: extends_def)
qed

theorem oid_text_roundtrip_witness:
  "\<exists>st. cbb_ready 0 st \<and> (\<exists>st'. CBB_add_asn1_oid_from_text (oid_text 1 2 [840, 113549]) (length (oid_text 1 2 [840, 113549])) 0 st = (Ok (), st') \<and>
    cbb_out st' = cbb_out st @ oid_der 1 2 [840, 113549] \<and>
    CBS_asn1_oid_to_text (blank []) (CBS_init (oid_der 1 2 [840, 113549]) (length (oid_der 1 2 [840, 113549]))) =
      Ok (oid_text 1 2 [840, 113549] @ [0]))"
proof -
  obtain st where st: "cbb_ready 0 st" "\<And>n. n < 2 ^ 64 \<Longrightarrow> cbb_room n st"
    using CBB_init_ready [of "blank []" 0] by (auto simp: blank_def)
  have l: "length (oid_text 1 2 [840, 113549]) = 14" by (simp add: oid_text_def decimal.simps)
  have "length (oid_der 1 2 [840, 113549]) = 6"
    by (simp add: oid_der_def b128_def b128_high.simps)
  then have "cbb_room (length (oid_der 1 2 [840, 113549])) st" by (intro st(2)) simp
  with st(1) oid_text_roundtrip [OF _ _ st(1) this, of "blank []"] l show ?thesis
    by (auto simp: oid_good_def blank_def)
qed

end
