(* ===== verification/Ber.thy ===== *)
theory Ber
  imports Bytestring
begin

text \<open>
  Conversion of BER to DER (\<^verbatim>\<open>crypto/bytestring/ber.c\<close>). \<^verbatim>\<open>cbs_find_ber\<close> walks the input for encodings that only BER
  allows; \<^verbatim>\<open>cbs_convert_ber\<close> rewrites it with a builder. The walk terminates because every element is
  shorter than what it is read from; the conversion is a partial function in the option monad, which
  is shown to return on every input.
\<close>

section \<open>Finding BER\<close>

definition kMaxDepth :: nat where "kMaxDepth = 2048"

definition CBS_ASN1_UTF8STRING :: u32 where "CBS_ASN1_UTF8STRING = 0xc"
definition CBS_ASN1_NUMERICSTRING :: u32 where "CBS_ASN1_NUMERICSTRING = 0x12"
definition CBS_ASN1_PRINTABLESTRING :: u32 where "CBS_ASN1_PRINTABLESTRING = 0x13"
definition CBS_ASN1_T61STRING :: u32 where "CBS_ASN1_T61STRING = 0x14"
definition CBS_ASN1_VIDEOTEXSTRING :: u32 where "CBS_ASN1_VIDEOTEXSTRING = 0x15"
definition CBS_ASN1_IA5STRING :: u32 where "CBS_ASN1_IA5STRING = 0x16"
definition CBS_ASN1_GRAPHICSTRING :: u32 where "CBS_ASN1_GRAPHICSTRING = 0x19"
definition CBS_ASN1_VISIBLESTRING :: u32 where "CBS_ASN1_VISIBLESTRING = 0x1a"
definition CBS_ASN1_GENERALSTRING :: u32 where "CBS_ASN1_GENERALSTRING = 0x1b"
definition CBS_ASN1_UNIVERSALSTRING :: u32 where "CBS_ASN1_UNIVERSALSTRING = 0x1c"
definition CBS_ASN1_BMPSTRING :: u32 where "CBS_ASN1_BMPSTRING = 0x1e"

lemmas string_consts = CBS_ASN1_OCTETSTRING_def CBS_ASN1_UTF8STRING_def CBS_ASN1_NUMERICSTRING_def
  CBS_ASN1_PRINTABLESTRING_def CBS_ASN1_T61STRING_def CBS_ASN1_VIDEOTEXSTRING_def CBS_ASN1_IA5STRING_def
  CBS_ASN1_GRAPHICSTRING_def CBS_ASN1_VISIBLESTRING_def CBS_ASN1_GENERALSTRING_def CBS_ASN1_UNIVERSALSTRING_def
  CBS_ASN1_BMPSTRING_def

definition is_string_type :: "u32 \<Rightarrow> bool" where
  "is_string_type tag \<longleftrightarrow> tag AND NOT CBS_ASN1_CONSTRUCTED \<in> {CBS_ASN1_OCTETSTRING, CBS_ASN1_UTF8STRING,
     CBS_ASN1_NUMERICSTRING, CBS_ASN1_PRINTABLESTRING, CBS_ASN1_T61STRING, CBS_ASN1_VIDEOTEXSTRING,
     CBS_ASN1_IA5STRING, CBS_ASN1_GRAPHICSTRING, CBS_ASN1_VISIBLESTRING, CBS_ASN1_GENERALSTRING,
     CBS_ASN1_UNIVERSALSTRING, CBS_ASN1_BMPSTRING}"

lemma ber_element_shrinks:
  assumes "cbs_wf s" "CBS_get_any_ber_asn1_element s = (Ok (contents, tag, hl, bf), s')"
  shows "cbs_len s' < cbs_len s" "CBS_skip hl contents = (Ok (), c1) \<Longrightarrow> cbs_len c1 \<le> cbs_len s"
    "cbs_wf s'" "cbs_wf contents" "hl \<le> cbs_len contents" "0 < cbs_len contents"
    "contents = CBS_init (cbs_data s) (cbs_len contents)" "s' = cbs_adv (cbs_len contents) s"
proof -
  note e = element_Ok [OF assms(1) assms(2) [unfolded CBS_get_any_ber_asn1_element_def]]
  show s': "s' = cbs_adv (cbs_len contents) s" using e by simp
  show "cbs_len s' < cbs_len s" unfolding s' using e by simp
  show "cbs_wf s'" unfolding s' by (rule cbs_wf_adv [OF assms(1)])
  show "cbs_wf contents" using e cbs_part_wf [OF assms(1)] cbs_part_init by metis
  show "hl \<le> cbs_len contents" "0 < cbs_len contents" "contents = CBS_init (cbs_data s) (cbs_len contents)" using e by simp_all
  show "CBS_skip hl contents = (Ok (), c1) \<Longrightarrow> cbs_len c1 \<le> cbs_len s"
    using e by (auto simp: CBS_skip_def cbs_get)
qed

text \<open>A header has at least two bytes, so the contents are shorter than the input.\<close>

lemma header_pos:
  assumes "cbs_wf s" "cbs_get_any_asn1_element ber s = (Ok (contents, tag, hl, bf), s')"
  shows "0 < hl"
proof -
  from assms(2) obtain c lb c1 where c: "parse_asn1_tag s = (Ok tag, c)" "CBS_get_u8 c = (Ok lb, c1)"
    by (auto simp: cbs_get_any_asn1_element_def Let_def on_copy_eq_Ok seq_ok_eq_Ok split: if_splits)
  have "cbs_len c \<le> cbs_len s" using safe_len [OF safe_asn1_tag [OF assms(1), unfolded c(1)]] .
  then have "0 < cbs_len s - cbs_len c1" using CBS_get_u8_decreases [of c lb] c by auto
  then show ?thesis using assms(2) c
    by (auto simp: cbs_get_any_asn1_element_def Let_def on_copy_def seq_ok_eq_Ok CBS_len_def split: if_splits outcome.splits prod.splits)
qed

lemma skip_shrinks:
  assumes "cbs_wf s" "CBS_get_any_ber_asn1_element s = (Ok (contents, tag, hl, bf), s')" "CBS_skip hl contents = (Ok u, c1)"
  shows "cbs_len c1 < cbs_len s"
proof -
  note e = element_Ok [OF assms(1) assms(2) [unfolded CBS_get_any_ber_asn1_element_def]]
  have "0 < hl" by (rule header_pos [OF assms(1) assms(2) [unfolded CBS_get_any_ber_asn1_element_def]])
  then show ?thesis using e assms(3) by (auto simp: CBS_skip_def cbs_get split: if_splits)
qed

text \<open>The loop carries the value \<^verbatim>\<open>*ber_found\<close> has. A reader that is not inside of its object is undefined.\<close>

function cbs_find_ber :: "CBS \<Rightarrow> nat \<Rightarrow> bool outcome"
  and find_ber_loop :: "CBS \<Rightarrow> bool \<Rightarrow> nat \<Rightarrow> bool outcome" where
  "cbs_find_ber orig_in depth =
     (if kMaxDepth < depth then Fail
      else find_ber_loop (CBS_init (CBS_data orig_in) (CBS_len orig_in)) False depth)"
| "find_ber_loop inp ber_found depth =
     (if \<not> 0 < CBS_len inp then Ok ber_found
      else if \<not> cbs_wf inp then Undef
      else case CBS_get_any_ber_asn1_element inp of
          (Ok (contents, tag, header_len, found), inp1) \<Rightarrow>
            if found then Ok True
            else if tag AND CBS_ASN1_CONSTRUCTED \<noteq> 0
              then if is_string_type tag then Ok True
                else (case CBS_skip header_len contents of
                    (Ok _, contents1) \<Rightarrow> (case cbs_find_ber contents1 (depth + 1) of
                        Ok found1 \<Rightarrow> find_ber_loop inp1 found1 depth
                      | Fail \<Rightarrow> Fail | Undef \<Rightarrow> Undef)
                  | (Fail, _) \<Rightarrow> Fail | (Undef, _) \<Rightarrow> Undef)
              else find_ber_loop inp1 False depth
        | (Fail, _) \<Rightarrow> Fail | (Undef, _) \<Rightarrow> Undef)"
  by pat_completeness auto
termination
proof (relation "measures [case_sum (\<lambda>(s, d). cbs_len s) (\<lambda>(s, f, d). cbs_len s), case_sum (\<lambda>_. 1) (\<lambda>_. 0)]", goal_cases)
  case 1 then show ?case by simp
next
  case 2 then show ?case by (simp add: CBS_len_def)
qed (auto dest!: sym [of _ "CBS_get_any_ber_asn1_element _"] sym [of _ "CBS_skip _ _"] dest: ber_element_shrinks(1) skip_shrinks)

declare cbs_find_ber.simps [simp del] find_ber_loop.simps [simp del]

section \<open>Conversion\<close>

definition is_eoc :: "nat \<Rightarrow> CBS \<Rightarrow> bool outcome" where
  "is_eoc header_len contents =
     (if header_len = 2 \<and> CBS_len contents = 2
      then (case fetch 2 (CBS_data contents) of Ok bs \<Rightarrow> Ok (bs = [0, 0]) | Fail \<Rightarrow> Fail | Undef \<Rightarrow> Undef)
      else Ok False)"

text \<open>Whether the element is only the header of one of indefinite length.\<close>

definition is_indefinite :: "nat \<Rightarrow> CBS \<Rightarrow> bool outcome" where
  "is_indefinite header_len contents =
     (if CBS_len contents = header_len \<and> 0 < header_len
      then if header_len - 1 < length (CBS_data contents) then Ok (CBS_data contents ! (header_len - 1) = 0x80) else Undef
      else Ok False)"

text \<open>The element that the pieces of the current one go to: the same builder inside of a constructed
  string, a new child otherwise. The results are its position and the string tag of its children.\<close>

definition open_element :: "nat \<Rightarrow> u32 \<Rightarrow> u32 \<Rightarrow> cbb_state \<Rightarrow> (nat \<times> u32) outcome \<times> cbb_state" where
  "open_element d string_tag tag st =
     (if string_tag \<noteq> 0
      then if tag AND NOT CBS_ASN1_CONSTRUCTED \<noteq> string_tag then (Fail, st) else (Ok (d, string_tag), st)
      else let constructed_string = (tag AND CBS_ASN1_CONSTRUCTED \<noteq> 0 \<and> is_string_type tag);
               out_tag = (if constructed_string then tag AND NOT CBS_ASN1_CONSTRUCTED else tag)
           in seq_ok (CBB_add_asn1 out_tag d st) (\<lambda>_ st1.
                (Ok (Suc d, if constructed_string then out_tag else string_tag), st1)))"

text \<open>The steps of the conversion work on the pair of \<^verbatim>\<open>in\<close> and the builder; the option says whether they
  return.\<close>

definition on_in :: "(CBS \<Rightarrow> 'a outcome \<times> CBS) \<Rightarrow> CBS \<times> cbb_state \<Rightarrow> ('a outcome \<times> CBS \<times> cbb_state) option" where
  "on_in f s = (case f (fst s) of (r, inp) \<Rightarrow> Some (r, inp, snd s))"

definition on_out :: "(cbb_state \<Rightarrow> 'a outcome \<times> cbb_state) \<Rightarrow> CBS \<times> cbb_state \<Rightarrow> ('a outcome \<times> CBS \<times> cbb_state) option" where
  "on_out f s = (case f (snd s) of (r, st) \<Rightarrow> Some (r, fst s, st))"

text \<open>A call on a reader of its own: what is left of it is dropped.\<close>

definition with_in :: "CBS \<Rightarrow> (CBS \<times> cbb_state \<Rightarrow> ('a outcome \<times> CBS \<times> cbb_state) option) \<Rightarrow> CBS \<times> cbb_state \<Rightarrow> ('a outcome \<times> CBS \<times> cbb_state) option" where
  "with_in c m s = Option.bind (m (c, snd s)) (\<lambda>r. Some (fst r, fst s, snd (snd r)))"

lemma with_in_mono [partial_function_mono]:
  assumes "\<And>s. mono_option (\<lambda>g. m g s)"
  shows "mono_option (\<lambda>g. with_in c (m g) s)"
  unfolding with_in_def by (rule bind_mono [OF assms]) (rule option.const_mono)

text \<open>What \<^verbatim>\<open>cbs_convert_ber\<close> checks before its loop.\<close>

definition enter :: "u32 \<Rightarrow> nat \<Rightarrow> ('s \<Rightarrow> ('a outcome \<times> 's) option) \<Rightarrow> 's \<Rightarrow> ('a outcome \<times> 's) option" where
  "enter string_tag depth m s =
     (if string_tag AND CBS_ASN1_CONSTRUCTED \<noteq> 0 then Some (Undef, s)
      else if kMaxDepth < depth then Some (Fail, s)
      else m s)"

lemma enter_mono [partial_function_mono]:
  assumes "\<And>s. mono_option (\<lambda>g. m g s)"
  shows "mono_option (\<lambda>g. enter string_tag depth (m g) s)"
  unfolding enter_def by (intro partial_function_mono assms)

text \<open>\<open>Ok ()\<close> is a return of one. The contents of a primitive element are read through \<^verbatim>\<open>CBS_data\<close>.\<close>

partial_function (option) convert_loop ::
  "nat \<Rightarrow> u32 \<Rightarrow> bool \<Rightarrow> nat \<Rightarrow> CBS \<times> cbb_state \<Rightarrow> (unit outcome \<times> CBS \<times> cbb_state) option" where
  "convert_loop d string_tag looking_for_eoc depth s =
     (if \<not> 0 < CBS_len (fst s) then Some (if looking_for_eoc then Fail else Ok (), s)
      else step_ok (on_in CBS_get_any_ber_asn1_element s) (\<lambda>el s1.
        let contents = fst el; tag = fst (snd el); header_len = fst (snd (snd el))
        in step_ok (Some (is_eoc header_len contents, s1)) (\<lambda>eoc s2.
          if eoc then Some (if looking_for_eoc then Ok () else Fail, s2)
          else step_ok (on_out (open_element d string_tag tag) s2) (\<lambda>oc s3.
            let d1 = fst oc; child_string_tag = snd oc
            in step_ok (Some (is_indefinite header_len contents, s3)) (\<lambda>indef s4.
              if indef
              then step_ok (enter child_string_tag (depth + 1) (convert_loop d1 child_string_tag True (depth + 1)) s4) (\<lambda>_ s5.
                   step_ok (on_out (CBB_flush d) s5) (\<lambda>_ s6.
                   convert_loop d string_tag looking_for_eoc depth s6))
              else step_ok (Some (fst (CBS_skip header_len contents), s4)) (\<lambda>_ s5.
                let contents1 = snd (CBS_skip header_len contents)
                in step_ok
                     (if tag AND CBS_ASN1_CONSTRUCTED \<noteq> 0
                      then with_in contents1 (enter child_string_tag (depth + 1) (convert_loop d1 child_string_tag False (depth + 1))) s5
                      else on_out (CBB_add_bytes (CBS_data contents1) (of_nat (CBS_len contents1)) d1) s5)
                     (\<lambda>_ s6. step_ok (on_out (CBB_flush d) s6) (\<lambda>_ s7.
                       convert_loop d string_tag looking_for_eoc depth s7))))))))"

definition cbs_convert_ber ::
  "nat \<Rightarrow> u32 \<Rightarrow> bool \<Rightarrow> nat \<Rightarrow> CBS \<times> cbb_state \<Rightarrow> (unit outcome \<times> CBS \<times> cbb_state) option" where
  "cbs_convert_ber d string_tag looking_for_eoc depth =
     enter string_tag depth (convert_loop d string_tag looking_for_eoc depth)"

text \<open>The result is the output reader and the storage, if any was needed; \<open>fresh\<close> is the memory of the local
  builder.\<close>

definition CBS_asn1_ber_to_der :: "cbb_state \<Rightarrow> CBS \<Rightarrow> ((CBS \<times> byte list option) outcome \<times> CBS) option" where
  "CBS_asn1_ber_to_der fresh inp = (case cbs_find_ber inp 0 of
      Fail \<Rightarrow> Some (Fail, inp)
    | Undef \<Rightarrow> Some (Undef, inp)
    | Ok False \<Rightarrow> Some (seq_ok (CBS_get_any_asn1_element inp) (\<lambda>(out, _, _) inp1. (Ok (out, None), inp1)))
    | Ok True \<Rightarrow> (case CBB_init (of_nat (CBS_len inp)) fresh of
          (Fail, _) \<Rightarrow> Some (Fail, inp)
        | (Undef, _) \<Rightarrow> Some (Undef, inp)
        | (Ok _, cbb) \<Rightarrow> Option.bind (cbs_convert_ber 0 0 False 0 (inp, cbb)) (\<lambda>(r, inp1, cbb1). case r of
              Fail \<Rightarrow> Some (Fail, inp1)
            | Undef \<Rightarrow> Some (Undef, inp1)
            | Ok _ \<Rightarrow> (case CBB_finish True cbb1 of
                  (Ok (out_storage, len), _) \<Rightarrow> Some (Ok (CBS_init out_storage (unat len), Some out_storage), inp1)
                | (Fail, _) \<Rightarrow> Some (Fail, inp1)
                | (Undef, _) \<Rightarrow> Some (Undef, inp1)))))"

lemma get_asn1_decreases:
  assumes "cbs_wf s" "CBS_get_asn1 tag s = (Ok out, s')"
  shows "cbs_len s' < cbs_len s"
proof -
  obtain el hl where "CBS_get_any_asn1_element s = (Ok (el, tag, hl), s')"
    using assms(2) by (auto simp: CBS_get_asn1_def cbs_get_asn1_def seq_ok_eq_Ok split: if_splits)
  from any_element_Ok [OF assms(1) this] show ?thesis by simp
qed

function implicit_chunks :: "CBS \<Rightarrow> u32 \<Rightarrow> cbb_state \<Rightarrow> unit outcome \<times> cbb_state" where
  "implicit_chunks child inner_tag st =
     (if \<not> 0 < CBS_len child then (Ok (), st)
      else if \<not> cbs_wf child then (Undef, st)
      else case CBS_get_asn1 inner_tag child of
          (Ok chunk, child1) \<Rightarrow> seq_ok (CBB_add_bytes (CBS_data chunk) (of_nat (CBS_len chunk)) 0 st) (\<lambda>_ st1.
             implicit_chunks child1 inner_tag st1)
        | (Fail, _) \<Rightarrow> (Fail, st)
        | (Undef, _) \<Rightarrow> (Undef, st))"
  by pat_completeness auto
termination
  by (relation "measure (\<lambda>(child, t, st). cbs_len child)") (auto dest: get_asn1_decreases [OF _ sym])

declare implicit_chunks.simps [simp del]

definition CBS_get_asn1_implicit_string :: "cbb_state \<Rightarrow> u32 \<Rightarrow> u32 \<Rightarrow> CBS \<Rightarrow> (CBS \<times> byte list option) outcome \<times> CBS" where
  "CBS_get_asn1_implicit_string fresh outer_tag inner_tag inp =
     (if outer_tag AND CBS_ASN1_CONSTRUCTED \<noteq> 0 \<or> inner_tag AND CBS_ASN1_CONSTRUCTED \<noteq> 0 \<or> \<not> is_string_type inner_tag
      then (Undef, inp)
      else case CBS_peek_asn1_tag outer_tag inp of
          Ok True \<Rightarrow> seq_ok (CBS_get_asn1 outer_tag inp) (\<lambda>out inp1. (Ok (out, None), inp1))
        | Undef \<Rightarrow> (Undef, inp)
        | _ \<Rightarrow> (case CBB_init (of_nat (CBS_len inp)) fresh of
              (Fail, _) \<Rightarrow> (Fail, inp)
            | (Undef, _) \<Rightarrow> (Undef, inp)
            | (Ok _, result) \<Rightarrow> seq_ok (CBS_get_asn1 (outer_tag OR CBS_ASN1_CONSTRUCTED) inp) (\<lambda>child inp1.
                case implicit_chunks child inner_tag result of
                  (Ok _, result1) \<Rightarrow> (case CBB_finish True result1 of
                      (Ok (data, len), _) \<Rightarrow> (Ok (CBS_init data (unat len), Some data), inp1)
                    | (Fail, _) \<Rightarrow> (Fail, inp1)
                    | (Undef, _) \<Rightarrow> (Undef, inp1))
                | (Fail, _) \<Rightarrow> (Fail, inp1)
                | (Undef, _) \<Rightarrow> (Undef, inp1))))"

end
