(* ===== verification/Ber_Laws.thy ===== *)
theory Ber_Laws
  imports Ber
begin

text \<open>
  What the conversion of BER promises: it returns on every input, whatever the allocator does, without
  ever leaving its buffers, and DER goes through it unchanged.
\<close>

section \<open>The conversion returns\<close>

text \<open>A call of the conversion that returns, is defined, has not gone back in its input and leaves a builder
  in order.\<close>

definition conv_ok :: "nat \<Rightarrow> nat \<Rightarrow> ('a outcome \<times> CBS \<times> cbb_state) option \<Rightarrow> bool" where
  "conv_ok d n m \<longleftrightarrow> (case m of None \<Rightarrow> False
     | Some (r, inp, st) \<Rightarrow> r \<noteq> Undef \<and> cbs_wf inp \<and> cbs_len inp \<le> n \<and> cbb_inv st \<and> (r \<noteq> Fail \<longrightarrow> cbb_at d st))"

lemma conv_ok_Some [simp]:
  "conv_ok d n (Some (r, inp, st)) \<longleftrightarrow>
     r \<noteq> Undef \<and> cbs_wf inp \<and> cbs_len inp \<le> n \<and> cbb_inv st \<and> (r \<noteq> Fail \<longrightarrow> cbb_at d st)"
  by (simp add: conv_ok_def)

lemma conv_ok_cases:
  assumes "conv_ok d n m"
  obtains r inp st where "m = Some (r, inp, st)" "r \<noteq> Undef" "cbs_wf inp" "cbs_len inp \<le> n" "cbb_inv st"
    "r \<noteq> Fail \<longrightarrow> cbb_at d st"
  using assms by (auto simp: conv_ok_def split: option.splits)

lemma conv_ok_step:
  assumes "conv_ok d1 n m"
    and "\<And>a inp st. m = Some (Ok a, inp, st) \<Longrightarrow> cbs_wf inp \<Longrightarrow> cbs_len inp \<le> n \<Longrightarrow> cbb_inv st \<Longrightarrow> cbb_at d1 st \<Longrightarrow>
      conv_ok d n (k a (inp, st))"
  shows "conv_ok d n (step_ok m k)"
  using assms(1)
proof (rule conv_ok_cases)
  fix r inp st assume m: "m = Some (r, inp, st)" "r \<noteq> Undef" "cbs_wf inp" "cbs_len inp \<le> n" "cbb_inv st"
    "r \<noteq> Fail \<longrightarrow> cbb_at d1 st"
  then show ?thesis using assms(2) by (cases r) auto
qed

lemma conv_ok_mono: "conv_ok d n m \<Longrightarrow> n \<le> n' \<Longrightarrow> conv_ok d n' m"
  by (auto simp: conv_ok_def split: option.splits)

lemma conv_ok_parent: "conv_ok (Suc d) n m \<Longrightarrow> conv_ok d n m"
  by (auto simp: conv_ok_def at_parent split: option.splits)

lemma conv_ok_out:
  assumes "cbs_wf inp" "cbs_len inp \<le> n" "cbb_safe (f st)" "\<And>a st'. f st = (Ok a, st') \<Longrightarrow> cbb_at d st'"
  shows "conv_ok d n (on_out f (inp, st))"
  using assms by (cases "f st"; cases "fst (f st)") (auto simp: on_out_def cbb_safe_def)

lemma conv_ok_with_in:
  assumes "cbs_wf inp" "cbs_len inp \<le> n" "conv_ok d k (m (c, st))"
  shows "conv_ok d n (with_in c m (inp, st))"
  using assms(3) by (rule conv_ok_cases) (use assms in \<open>auto simp: with_in_def\<close>)

lemma conv_ok_enter:
  assumes "cbs_wf (fst s)" "cbs_len (fst s) \<le> n" "cbb_inv (snd s)" "t AND CBS_ASN1_CONSTRUCTED = 0" "conv_ok d n (m s)"
  shows "conv_ok d n (enter t depth m s)"
  using assms by (cases s) (simp add: enter_def)

text \<open>The calls on the builder.\<close>

lemma add_bytes_safe:
  assumes "cbb_inv st" "cbb_at d st" "unat n \<le> length data"
  shows "cbb_safe (CBB_add_bytes data n d st)" "CBB_add_bytes data n d st = (Ok a, st') \<Longrightarrow> cbb_at d st'"
proof -
  let ?bs = "take (unat n) data"
  have len: "length ?bs = unat n" using assms(3) by simp
  have eq: "CBB_add_bytes data n d st = CBB_add_bytes ?bs (of_nat (length ?bs)) d st" for st
    unfolding CBB_add_bytes_def len using assms(3) by (simp add: not_less)
  show "cbb_safe (CBB_add_bytes data n d st)"
    using fine_safe [OF adding_fine [OF assms(1,2), of "AddBytes ?bs"]] by (simp add: eq)
  assume "CBB_add_bytes data n d st = (Ok a, st')"
  then obtain st1 where "cbb_inv st1" "cbb_ready d st1" "CBB_add_bytes data n d st1 = (Ok a, st')"
    using Ok_from_ready [OF assms(1,2) CBB_add_bytes_def] by blast
  moreover from this have "cbb_ready d st'" using add_bytes_grows [of st1 d ?bs] unfolding eq [symmetric] grows_def by blast
  ultimately show "cbb_at d st'" using ready_at by blast
qed

lemma flush_safe:
  assumes "cbb_inv st" "cbb_at d st"
  shows "cbb_safe (CBB_flush d st)" "CBB_flush d st = (Ok a, st') \<Longrightarrow> cbb_at d st'"
  using flush_fine [OF assms] fine_safe ready_at by blast+

lemma child_tag_primitive: "(tag AND NOT CBS_ASN1_CONSTRUCTED) AND CBS_ASN1_CONSTRUCTED = 0"
  by (simp add: asn1_consts bit_eq_iff bit_simps)

lemma add_asn1_safe:
  assumes "cbb_inv st" "cbb_at d st"
  shows "cbb_safe (CBB_add_asn1 t d st)" "CBB_add_asn1 t d st = (Ok a, st') \<Longrightarrow> cbb_at (Suc d) st'"
proof -
  show "cbb_safe (CBB_add_asn1 t d st)" using fine_safe [OF adding_fine [OF assms, of "Asn1Child t"]] by simp
  assume "CBB_add_asn1 t d st = (Ok a, st')"
  then obtain st1 where "cbb_inv st1" "cbb_ready d st1" "CBB_add_asn1 t d st1 = (Ok a, st')"
    using Ok_from_ready [OF assms CBB_add_asn1_def] by blast
  then show "cbb_at (Suc d) st'" using add_asn1_opens_fine [of st1 d t] ready_at by (auto simp: opens_def)
qed

lemma open_element_safe:
  assumes "cbb_inv st" "cbb_at d st" "string_tag AND CBS_ASN1_CONSTRUCTED = 0"
  shows "cbb_safe (open_element d string_tag tag st)"
    "open_element d string_tag tag st = (Ok (d1, ct), st1) \<Longrightarrow>
      ct AND CBS_ASN1_CONSTRUCTED = 0 \<and> cbb_at d1 st1 \<and> (d1 = d \<or> d1 = Suc d)"
proof -
  have seq: "cbb_safe (seq_ok r (\<lambda>_ st1. (Ok (e, f), st1)))" if "cbb_safe r" for r :: "unit outcome \<times> cbb_state" and e f
    using that by (cases r; cases "fst r") (auto simp: cbb_safe_def)
  show "cbb_safe (open_element d string_tag tag st)"
    unfolding open_element_def Let_def
    using assms(1) seq [OF add_asn1_safe(1) [OF assms(1,2)]] by (auto simp: cbb_safe_def [of "(_, _)"])
  show "open_element d string_tag tag st = (Ok (d1, ct), st1) \<Longrightarrow>
      ct AND CBS_ASN1_CONSTRUCTED = 0 \<and> cbb_at d1 st1 \<and> (d1 = d \<or> d1 = Suc d)"
    using assms add_asn1_safe(2) [OF assms(1,2)]
    by (auto simp: open_element_def Let_def seq_ok_eq_Ok child_tag_primitive split: if_splits)
qed

lemma open_element_keeps:
  assumes "open_element d string_tag tag st = (Ok (d1, ct), st1)" "cbb_inv st" "cbb_at d st" "string_tag AND CBS_ASN1_CONSTRUCTED = 0"
  shows "cbb_at d st1"
  using open_element_safe(2) [OF assms(2-4,1)] at_parent by blast

lemma eoc_defined: "cbs_wf c \<Longrightarrow> is_eoc hl c \<noteq> Undef"
  by (auto simp: is_eoc_def fetch_def CBS_len_def CBS_data_def cbs_wf_def)

lemma indefinite_defined: "cbs_wf c \<Longrightarrow> is_indefinite hl c \<noteq> Undef"
  by (auto simp: is_indefinite_def CBS_len_def CBS_data_def cbs_wf_def)

lemma convert_loop_ok:
  assumes "cbs_wf inp" "cbb_inv st" "string_tag AND CBS_ASN1_CONSTRUCTED = 0" "cbb_at d st"
  shows "conv_ok d (cbs_len inp) (convert_loop d string_tag looking depth (inp, st))"
  using assms
proof (induction "cbs_len inp" arbitrary: inp d string_tag looking depth st rule: less_induct)
  case less
  note wf = less.prems(1) and inv = less.prems(2) and tag0 = less.prems(3) and at = less.prems(4)
  have IH: "conv_ok d1 n (convert_loop d1 t l dep (inp1, st1))"
    if "cbs_len inp1 < cbs_len inp" "cbs_len inp1 \<le> n" "cbs_wf inp1" "cbb_inv st1" "t AND CBS_ASN1_CONSTRUCTED = 0" "cbb_at d1 st1"
    for d1 t l dep inp1 st1 n
    using conv_ok_mono [OF less.hyps [OF that(1,3,4,5,6)] that(2)] .
  show ?case
  proof (cases "cbs_len inp = 0")
    case True
    then show ?thesis using wf inv at by (simp add: convert_loop.simps CBS_len_def)
  next
    case False
    obtain r inp1 where r: "CBS_get_any_ber_asn1_element inp = (r, inp1)" by force
    have safe: "cbs_safe inp (r, inp1)" using safe_element [OF wf, of True] r by (simp add: CBS_get_any_ber_asn1_element_def)
    have rest: "cbs_wf inp1" "r \<noteq> Undef" using cbs_safe_keeps [OF wf safe] safe_defined [OF safe] by (auto simp: cbs_keeps_def)
    show ?thesis
    proof (cases r)
      case Undef then show ?thesis using rest by simp
    next
      case Fail
      then show ?thesis using r False rest inv safe_len [OF safe] by (simp add: convert_loop.simps [of d] CBS_len_def on_in_def)
    next
      case (Ok el)
      obtain contents tag hl bf where el: "el = (contents, tag, hl, bf)" by (rule prod_cases4)
      note shr = ber_element_shrinks [OF wf r [unfolded Ok el]]
      have skip: "CBS_skip hl contents = (Ok (), cbs_adv hl contents)" using shr(5) by (simp add: CBS_skip_def cbs_get)
      have smaller: "cbs_len (cbs_adv hl contents) < cbs_len inp"
        by (rule skip_shrinks [OF wf r [unfolded Ok el] skip])
      let ?c = "cbs_adv hl contents"
      have bytes: "unat (of_nat (cbs_len ?c) :: u64) \<le> length (cbs_data ?c)"
        using cbs_wf_adv [OF shr(4), of hl] by (auto simp: cbs_wf_def unat_of_nat intro: le_trans [OF mod_less_eq_dividend])
      have loop: "conv_ok d (cbs_len inp) (step_ok m (\<lambda>_ s6. step_ok (on_out (CBB_flush d) s6) (\<lambda>_ s7.
          convert_loop d string_tag looking depth s7)))"
        if m: "conv_ok d (cbs_len inp1) m" for m :: "(unit outcome \<times> CBS \<times> cbb_state) option"
      proof (rule conv_ok_step [OF conv_ok_mono [OF m less_imp_le [OF shr(1)]]])
        fix u inp2 st2 assume s2: "m = Some (Ok u, inp2, st2)" "cbs_wf inp2" "cbb_inv st2" "cbb_at d st2"
        with m have small: "cbs_len inp2 < cbs_len inp" using shr(1) by simp
        show "conv_ok d (cbs_len inp) (step_ok (on_out (CBB_flush d) (inp2, st2)) (\<lambda>_ s7.
            convert_loop d string_tag looking depth s7))"
        proof (rule conv_ok_step [where ?d1.0 = d])
          show "conv_ok d (cbs_len inp) (on_out (CBB_flush d) (inp2, st2))"
            using flush_safe [OF s2(3,4)] s2(2) small by (intro conv_ok_out) simp_all
          fix a inp3 st3 assume "on_out (CBB_flush d) (inp2, st2) = Some (Ok a, inp3, st3)" "cbb_inv st3" "cbb_at d st3"
          moreover from this(1) have "inp3 = inp2" by (auto simp: on_out_def split: prod.splits)
          ultimately show "conv_ok d (cbs_len inp) (convert_loop d string_tag looking depth (inp3, st3))"
            using small s2(2) tag0 by (intro IH) simp_all
        qed
      qed
      have inner: "conv_ok d1 (cbs_len inp1) (enter ct (depth + 1) (convert_loop d1 ct True (depth + 1)) (inp1, st1))"
          "conv_ok d1 (cbs_len inp1) (with_in ?c (enter ct (depth + 1) (convert_loop d1 ct False (depth + 1))) (inp1, st1))"
          "conv_ok d1 (cbs_len inp1) (on_out (CBB_add_bytes (cbs_data ?c) (of_nat (cbs_len ?c)) d1) (inp1, st1))"
        if st1: "cbb_inv st1" "ct AND CBS_ASN1_CONSTRUCTED = 0" "cbb_at d1 st1" for st1 ct d1
        using st1 shr smaller cbs_wf_adv [OF shr(4), of hl] bytes
        by (auto simp del: cbs_adv_sel intro!: conv_ok_enter conv_ok_out add_bytes_safe(1) IH
            conv_ok_with_in [where k = "cbs_len ?c"] dest: add_bytes_safe(2) [rotated 3])
      have near: "conv_ok d n m" if "conv_ok d1 n m" "d1 = d \<or> d1 = Suc d"
        for d1 n and m :: "(unit outcome \<times> CBS \<times> cbb_state) option" using that conv_ok_parent by blast
      show ?thesis
        apply (subst convert_loop.simps)
        apply (simp add: False r Ok el on_in_def CBS_len_def Let_def split del: if_split)
        apply (rule conv_ok_step [where ?d1.0 = d])
        subgoal using rest inv at shr by (simp add: eoc_defined)
        subgoal for eoc inp2 st2
          apply (cases eoc)
          subgoal by (simp add: rest inv at less_imp_le [OF shr(1)])
          apply (simp split del: if_split)
          apply (rule conv_ok_step [where ?d1.0 = d])
          subgoal using rest inv at shr(1) tag0
            by (intro conv_ok_out open_element_safe(1)) (auto dest: open_element_keeps)
          apply (simp only: Let_def)
          apply (rule conv_ok_step [where ?d1.0 = d])
          subgoal using shr by (simp add: indefinite_defined)
          subgoal for oc inp3 st3 indef inp4 st4
            using open_element_safe(2) [OF inv at tag0, of tag "fst oc" "snd oc"] loop
              near [OF inner(1) [of st3 "snd oc" "fst oc"]] near [OF inner(2) [of st3 "snd oc" "fst oc"]]
              near [OF inner(3) [of st3 "snd oc" "fst oc"]]
            by (auto simp: on_out_def skip CBS_len_def CBS_data_def simp del: cbs_adv_sel split: prod.splits)
          done
        done
    qed
  qed
qed

lemma find_ber_loop_defined: "cbs_wf inp \<Longrightarrow> find_ber_loop inp found depth \<noteq> Undef"
proof (induction "cbs_len inp" arbitrary: inp found depth rule: less_induct)
  case less
  obtain r inp1 where r: "CBS_get_any_ber_asn1_element inp = (r, inp1)" by force
  have "r \<noteq> Undef" using safe_defined [OF safe_element [OF less.prems, of True]] r
    by (simp add: CBS_get_any_ber_asn1_element_def)
  show ?case
  proof (cases r)
    case Undef then show ?thesis using \<open>r \<noteq> Undef\<close> by simp
  next
    case Fail then show ?thesis using r by (subst find_ber_loop.simps) (simp add: less.prems)
  next
    case (Ok el)
    obtain contents tag hl bf where el: "el = (contents, tag, hl, bf)" by (rule prod_cases4)
    note e = r [unfolded Ok el]
    note shr = ber_element_shrinks [OF less.prems e]
    have skip: "CBS_skip hl contents = (Ok (), cbs_adv hl contents)" using shr(5) by (simp add: CBS_skip_def cbs_get)
    have next_ok: "find_ber_loop inp1 f depth \<noteq> Undef" for f by (rule less.hyps [OF shr(1,3)])
    let ?c = "CBS_init (cbs_data (cbs_adv hl contents)) (cbs_len (cbs_adv hl contents))"
    have "find_ber_loop ?c False (Suc depth) \<noteq> Undef"
      by (rule less.hyps) (use skip_shrinks [OF less.prems e skip] cbs_wf_adv [OF shr(4), of hl] in \<open>simp_all add: cbs_wf_def\<close>)
    then have "cbs_find_ber (cbs_adv hl contents) (Suc depth) \<noteq> Undef"
      by (subst cbs_find_ber.simps) (simp add: CBS_data_def CBS_len_def)
    then show ?thesis using e skip next_ok less.prems
      by (subst find_ber_loop.simps) (auto split: outcome.splits)
  qed
qed

lemma find_ber_defined: "cbs_wf s \<Longrightarrow> cbs_find_ber s depth \<noteq> Undef"
  by (subst cbs_find_ber.simps) (simp add: CBS_data_def CBS_len_def cbs_wf_def find_ber_loop_defined)

text \<open>C19: On every input and whatever the allocator answers, \<^verbatim>\<open>CBS_asn1_ber_to_der\<close> returns: the walk and the
  conversion end, never read outside of the input nor write outside of the buffer, no assertion fails, and the
  reader has only moved forwards.\<close>

theorem ber_to_der_total:
  assumes "cbs_wf inp"
  shows "\<exists>r inp'. CBS_asn1_ber_to_der fresh inp = Some (r, inp') \<and> r \<noteq> Undef \<and> cbs_wf inp' \<and> CBS_len inp' \<le> CBS_len inp"
proof (cases "cbs_find_ber inp 0")
  case Undef then show ?thesis using find_ber_defined [OF assms] by blast
next
  case Fail then show ?thesis using assms by (simp add: CBS_asn1_ber_to_der_def)
next
  case (Ok b)
  show ?thesis
  proof (cases b)
    case False
    have s: "cbs_safe inp (CBS_get_any_asn1_element inp)" by (rule safe_any_element [OF assms])
    obtain r inp1 where r: "CBS_get_any_asn1_element inp = (r, inp1)" by force
    have "cbs_wf inp1" "r \<noteq> Undef" "cbs_len inp1 \<le> cbs_len inp"
      using cbs_safe_keeps [OF assms s] safe_defined [OF s] safe_len s r by (auto simp: cbs_keeps_def)
    then show ?thesis using Ok False r
      by (cases r) (auto simp: CBS_asn1_ber_to_der_def CBS_len_def)
  next
    case True
    obtain i cbb where i: "CBB_init (of_nat (CBS_len inp)) fresh = (i, cbb)" by force
    have inv: "cbb_inv cbb" "cbb_at 0 cbb"
      using init_inv [of "of_nat (CBS_len inp)" fresh] init_at [of "of_nat (CBS_len inp)" fresh] i by simp_all
    have "i \<noteq> Undef" using i by (auto simp: CBB_init_def cbb_init_def split: if_splits prod.splits bool.splits)
    moreover have "conv_ok 0 (cbs_len inp) (cbs_convert_ber 0 0 False 0 (inp, cbb))"
      unfolding cbs_convert_ber_def using assms inv by (intro conv_ok_enter convert_loop_ok) simp_all
    then obtain r inp1 cbb1 where c: "cbs_convert_ber 0 0 False 0 (inp, cbb) = Some (r, inp1, cbb1)" "r \<noteq> Undef"
        "cbs_wf inp1" "cbs_len inp1 \<le> cbs_len inp" "cbb_inv cbb1" "r \<noteq> Fail \<longrightarrow> cbb_at 0 cbb1" by (rule conv_ok_cases)
    moreover obtain f cbb2 where f: "CBB_finish True cbb1 = (f, cbb2)" by force
    have "r \<noteq> Fail \<Longrightarrow> f \<noteq> Undef" using CBB_finish_safe [OF c(5), of True] c(6) f by (auto simp: cbb_safe_def)
    ultimately show ?thesis using Ok True i f assms
      by (cases i; cases r; cases f) (auto simp: CBS_asn1_ber_to_der_def CBS_len_def)
  qed
qed

section \<open>DER is left alone\<close>

text \<open>No constructed strings, and not nested deeper than the walk goes.\<close>

fun der_fit :: "nat \<Rightarrow> asn1 \<Rightarrow> bool" and der_fits :: "nat \<Rightarrow> asn1 list \<Rightarrow> bool" where
  "der_fit k (Prim tag bs) \<longleftrightarrow> True"
| "der_fit k (Constr tag ts) \<longleftrightarrow> \<not> is_string_type tag \<and> 0 < k \<and> der_fits (k - 1) ts"
| "der_fits k [] \<longleftrightarrow> True"
| "der_fits k (t # ts) \<longleftrightarrow> der_fit k t \<and> der_fits k ts"

lemma find_ber_element:
  assumes wf: "cbs_wf s" and bs: "cbs_bytes s = der_element (tag, c) @ rest" and len: "length c < 2 ^ 32"
  shows "\<exists>el hl. CBS_get_any_ber_asn1_element s = (Ok (el, tag, hl, False), cbs_adv (length (der_element (tag, c))) s) \<and>
    CBS_skip hl el = (Ok (), cbs_adv hl el) \<and> cbs_wf (cbs_adv hl el) \<and> cbs_bytes (cbs_adv hl el) = c \<and> 0 < cbs_len s"
proof -
  let ?hl = "length (der_tag tag) + length (der_length (length c))"
  let ?el = "CBS_init (cbs_data s) (length c + ?hl)"
  have bs': "cbs_bytes s = der_tag tag @ der_length (length c) @ c @ rest" using bs by (simp add: der_element_def)
  have tot: "length c + ?hl \<le> cbs_len s" using length_cbs_bytes [OF wf] bs' by simp
  have el: "CBS_get_any_ber_asn1_element s = (Ok (?el, tag, ?hl, False), cbs_adv (length (der_element (tag, c))) s)"
    using get_der_element [OF wf bs' len, of True] by (simp add: CBS_get_any_ber_asn1_element_def der_element_def add.commute add.left_commute)
  have "cbs_wf ?el" using wf tot by (simp add: cbs_wf_def)
  then have w: "cbs_wf (cbs_adv ?hl ?el)" by (rule cbs_wf_adv)
  have "take (length c) (drop ?hl (cbs_data s)) = take (length c) (drop ?hl (cbs_bytes s))"
    using tot by (simp add: cbs_bytes_def drop_take)
  also have "\<dots> = c" unfolding bs' by simp
  finally have "cbs_bytes (cbs_adv ?hl ?el) = c" by simp
  moreover have "CBS_skip ?hl ?el = (Ok (), cbs_adv ?hl ?el)" by (simp add: CBS_skip_def cbs_get del: cbs_adv_init)
  moreover have "0 < cbs_len s" using tot der_tag_nonempty [of tag] by (cases "der_tag tag") auto
  ultimately show ?thesis using el w by blast
qed

lemma find_ber_der:
  "tree_ok t \<Longrightarrow> der_fit (kMaxDepth - depth) t \<Longrightarrow> depth \<le> kMaxDepth \<Longrightarrow> cbs_wf s \<Longrightarrow> cbs_bytes s = der_tree t @ rest \<Longrightarrow>
     find_ber_loop s f depth = find_ber_loop (cbs_adv (length (der_tree t)) s) False depth"
  "trees_ok ts \<Longrightarrow> der_fits (kMaxDepth - depth) ts \<Longrightarrow> depth \<le> kMaxDepth \<Longrightarrow> cbs_wf s \<Longrightarrow> cbs_bytes s = der_trees ts \<Longrightarrow>
     find_ber_loop s False depth = Ok False"
proof (induction t and ts arbitrary: s depth f rest and s depth rule: der_tree_der_trees.induct)
  case (1 tag bs)
  obtain el hl where "CBS_get_any_ber_asn1_element s = (Ok (el, tag, hl, False), cbs_adv (length (der_element (tag, bs))) s)" "0 < cbs_len s"
    using find_ber_element [of s tag bs rest] 1 by auto
  then show ?case using 1 by (subst find_ber_loop.simps) (simp add: CBS_len_def)
next
  case (2 tag ts)
  have fits: "\<not> is_string_type tag" "depth < kMaxDepth" "der_fits (kMaxDepth - Suc depth) ts" "tag AND CBS_ASN1_CONSTRUCTED \<noteq> 0"
      "trees_ok ts" "length (der_trees ts) < 2 ^ 32"
    using "2.prems" by auto
  obtain el hl where e: "CBS_get_any_ber_asn1_element s = (Ok (el, tag, hl, False), cbs_adv (length (der_element (tag, der_trees ts))) s)"
      "CBS_skip hl el = (Ok (), cbs_adv hl el)" "cbs_wf (cbs_adv hl el)" "cbs_bytes (cbs_adv hl el) = der_trees ts" "0 < cbs_len s"
    using find_ber_element [of s tag "der_trees ts" rest] "2.prems" fits by auto
  let ?c = "CBS_init (CBS_data (cbs_adv hl el)) (CBS_len (cbs_adv hl el))"
  have "find_ber_loop ?c False (Suc depth) = Ok False"
    using "2.IH" [OF fits(5,3) _ , of ?c] fits(2) e(3,4) by (simp add: cbs_wf_def CBS_data_def CBS_len_def cbs_bytes_def del: cbs_adv_sel)
  then have "cbs_find_ber (cbs_adv hl el) (Suc depth) = Ok False"
    using fits(2) by (subst cbs_find_ber.simps) simp
  then show ?case using e fits "2.prems" by (subst find_ber_loop.simps) (simp add: CBS_len_def)
next
  case (3 s depth)
  then have "cbs_len s = 0" using length_cbs_bytes [of s] by simp
  then show ?case by (subst find_ber_loop.simps) (simp add: CBS_len_def)
next
  case (4 t ts)
  have "find_ber_loop s False depth = find_ber_loop (cbs_adv (length (der_tree t)) s) False depth"
    by (rule "4.IH"(1) [where rest = "der_trees ts"]) (use "4.prems" in auto)
  also have "\<dots> = Ok False" by (rule "4.IH"(2)) (use "4.prems" in auto)
  finally show ?case .
qed

text \<open>Input that is DER, without constructed strings and not nested too deeply, is not converted: the first
  element is returned as it stands, with no storage, and the reader is left with the rest.\<close>

theorem ber_to_der_keeps_der:
  assumes "cbs_wf inp" "cbs_bytes inp = der_trees (t # ts)" "trees_ok (t # ts)" "der_fits kMaxDepth (t # ts)"
  shows "\<exists>out inp'. CBS_asn1_ber_to_der fresh inp = Some (Ok (out, None), inp') \<and>
    cbs_bytes out = der_tree t \<and> cbs_bytes inp' = der_trees ts"
proof -
  obtain tag c where c: "der_tree t = der_element (tag, c)" "length c < 2 ^ 32"
    using assms(3) by (cases t) auto
  have "cbs_find_ber inp 0 = Ok False"
    using find_ber_der(2) [of "t # ts" 0 "CBS_init (CBS_data inp) (CBS_len inp)"] assms
    by (subst cbs_find_ber.simps) (simp add: CBS_data_def CBS_len_def cbs_wf_def cbs_bytes_def)
  moreover have bs: "cbs_bytes inp = der_tag tag @ der_length (length c) @ c @ der_trees ts"
    using assms(2) c by (simp add: der_element_def)
  let ?hl = "length (der_tag tag) + length (der_length (length c))"
  have "CBS_get_any_asn1_element inp =
      (Ok (CBS_init (cbs_data inp) (length c + ?hl), tag, ?hl), cbs_adv (length c + ?hl) inp)"
    using get_der_element [OF assms(1) bs c(2), of False] by (simp add: CBS_get_any_asn1_element_def)
  moreover have tot: "length c + ?hl \<le> cbs_len inp" using length_cbs_bytes [OF assms(1)] bs by simp
  have "take (length c + ?hl) (cbs_data inp) = take (length c + ?hl) (cbs_bytes inp)"
    using tot by (simp add: cbs_bytes_def min_def)
  then have "take (length c + ?hl) (cbs_data inp) = der_tree t" unfolding bs c by (simp add: der_element_def)
  moreover have "drop (length c + ?hl) (cbs_bytes inp) = der_trees ts" unfolding bs by simp
  ultimately show ?thesis by (simp add: CBS_asn1_ber_to_der_def)
qed

theorem ber_to_der_keeps_der_witness:
  "\<exists>out inp'. CBS_asn1_ber_to_der (blank []) (CBS_init [0x30, 3, 2, 1, 5, 4, 0] 7) = Some (Ok (out, None), inp') \<and>
    cbs_bytes out = der_tree (Constr 0x20000010 [Prim 2 [5]]) \<and> cbs_bytes inp' = der_trees [Prim 4 []]"
  by (rule ber_to_der_keeps_der)
    (simp_all add: asn1_consts der_element_def der_tag_def der_length_def tag_number_def tag_bits_def is_string_type_def
      string_consts kMaxDepth_def)

theorem ber_to_der_total_witness:
  "\<exists>r inp'. CBS_asn1_ber_to_der (blank [True, False]) (CBS_init [0x30, 0x80, 4, 0x81, 1, 7, 0, 0] 8) = Some (r, inp') \<and>
     r \<noteq> Undef \<and> cbs_wf inp' \<and> CBS_len inp' \<le> CBS_len (CBS_init [0x30, 0x80, 4, 0x81, 1, 7, 0, 0] 8)"
  by (rule ber_to_der_total) simp

end
