(* ===== verification/Ber_Convert.thy ===== *)
theory Ber_Convert
  imports Ber_Laws
begin

text \<open>
  What the conversion of BER computes: the DER encoding of the value that the input encodes. BER is given by a grammar of
  its encodings; the walk that decides whether a conversion is needed misses BER that is nested in front of a sibling.
\<close>

section \<open>Elements of BER\<close>

text \<open>BER allows a length in more octets than it needs: \<open>k\<close> is their number, and 0 is the shortest form.\<close>

definition ber_length :: "nat \<Rightarrow> nat \<Rightarrow> byte list" where
  "ber_length k n = (if k = 0 then der_length n else of_nat (128 + k) # be_bytes k n)"

definition ber_length_ok :: "nat \<Rightarrow> nat \<Rightarrow> bool" where
  "ber_length_ok k n \<longleftrightarrow> k \<le> 4 \<and> n < 2 ^ 32 \<and> (k = 0 \<or> n < 256 ^ k)"

lemma get_element_long_ber:
  assumes "cbs_wf s" "parse_asn1_tag s = (Ok tag, c)" "CBS_get_u8 c = (Ok lb, c1)" "unat lb = 128 + k"
    and "0 < k" "k \<le> 4" "cbs_get_u k c1 = (Ok (of_nat n), c2)" "n < 2 ^ 32"
    and "hl = cbs_len s - cbs_len c1 + k" "n + hl \<le> cbs_len s"
  shows "CBS_get_any_ber_asn1_element s =
    (Ok (CBS_init (cbs_data s) (n + hl), tag, hl, n < 128 \<or> n < 256 ^ (k - 1)), cbs_adv (n + hl) s)"
proof -
  let ?n = "of_nat n :: u64"
  have n: "unat ?n = n" using assms(8) by (simp add: unat_of_nat)
  have lb: "lb AND 128 \<noteq> 0" "unat (lb AND 127) = k"
    using assms(4,6) by (simp_all add: byte_and_128_eq_0 unat_and_127)
  have sum: "n + hl < 2 ^ 64" using assms(1,10) by (simp add: cbs_wf_def)
  have w: "?n + of_nat (cbs_len s - cbs_len c1) + of_nat k = of_nat (n + hl)"
    by (simp only: assms(9) of_nat_add add.assoc)
  have tot: "unat (of_nat (n + hl) :: u64) = n + hl" using sum by (simp add: unat_of_nat del: of_nat_add)
  have "\<not> (of_nat (n + hl) :: u64) < ?n" by (simp add: word_less_nat_alt tot n del: of_nat_add)
  moreover have "?n < 128 \<longleftrightarrow> n < 128" using n by (simp add: word_less_nat_alt)
  moreover have "drop_bit ((k - 1) * 8) ?n = 0 \<longleftrightarrow> n < 256 ^ (k - 1)"
  proof -
    have "drop_bit ((k - 1) * 8) ?n = 0 \<longleftrightarrow> unat (drop_bit ((k - 1) * 8) ?n) = 0" by (simp add: unat_eq_zero)
    also have "\<dots> \<longleftrightarrow> n div 2 ^ ((k - 1) * 8) = 0" unfolding unat_drop_bit_div n ..
    finally show ?thesis by (simp add: pow256 mult.commute div_eq_0_iff)
  qed
  moreover have "CBS_get_bytes (n + hl) s = (Ok (CBS_init (cbs_data s) (n + hl)), cbs_adv (n + hl) s)"
    using assms(10) by (simp add: get_bytes_Ok)
  ultimately show ?thesis using assms(2,3,5,6,7) lb w tot assms(9)
    by (simp add: CBS_get_any_ber_asn1_element_def cbs_get_any_asn1_element_def on_copy_def Let_def CBS_len_def del: of_nat_add)
qed

lemma get_ber_element:
  assumes wf: "cbs_wf s" and bs: "cbs_bytes s = der_tag tag @ ber_length k (length c) @ c @ rest"
    and ok: "ber_length_ok k (length c)"
  defines "hl \<equiv> length (der_tag tag) + length (ber_length k (length c))"
  shows "CBS_get_any_ber_asn1_element s =
    (Ok (CBS_init (cbs_data s) (length c + hl), tag, hl, k \<noteq> 0 \<and> (length c < 128 \<or> length c < 256 ^ (k - 1))),
     cbs_adv (length c + hl) s)"
proof (cases "k = 0")
  case True
  then show ?thesis using get_der_element [OF wf, of tag c rest True] bs ok
    by (simp add: hl_def ber_length_def ber_length_ok_def CBS_get_any_ber_asn1_element_def)
next
  case False
  let ?c = "cbs_adv (length (der_tag tag)) s" and ?c1 = "cbs_adv (length (der_tag tag) + 1) s"
  have k: "0 < k" "k \<le> 4" "length c < 2 ^ 32" "length c < 256 ^ k" using False ok by (simp_all add: ber_length_ok_def)
  have d: "ber_length k (length c) = of_nat (128 + k) # be_bytes k (length c)" using False by (simp add: ber_length_def)
  have u8: "CBS_get_u8 ?c = (Ok (of_nat (128 + k)), ?c1)"
    using get_u8_Cons [of ?c "of_nat (128 + k)" "be_bytes k (length c) @ c @ rest"] wf bs d by simp
  have u: "cbs_get_u k ?c1 = (Ok (of_nat (length c)), cbs_adv k ?c1)"
    by (rule get_u_be [of _ _ _ "c @ rest"]) (use wf bs d k in simp_all)
  have tot: "length c + hl \<le> cbs_len s" using length_cbs_bytes [OF wf] bs by (simp add: hl_def)
  have hl: "hl = cbs_len s - cbs_len ?c1 + k" using tot d by (simp add: hl_def)
  have lb: "unat (of_nat (128 + k) :: byte) = 128 + k" using k(2) by (simp add: unat_of_nat del: of_nat_add)
  show ?thesis using get_element_long_ber [OF wf parse_der_tag [OF wf bs] u8 lb k(1,2) u k(3) hl tot] False by simp
qed

lemma get_ber_indefinite:
  assumes wf: "cbs_wf s" and bs: "cbs_bytes s = der_tag tag @ 0x80 # rest" and c: "tag AND CBS_ASN1_CONSTRUCTED \<noteq> 0"
  defines "hl \<equiv> Suc (length (der_tag tag))"
  shows "CBS_get_any_ber_asn1_element s = (Ok (CBS_init (cbs_data s) hl, tag, hl, True), cbs_adv hl s)"
proof -
  let ?c = "cbs_adv (length (der_tag tag)) s"
  have u8: "CBS_get_u8 ?c = (Ok 0x80, cbs_adv hl s)"
    using get_u8_Cons [of ?c "0x80" rest] wf bs by (simp add: hl_def)
  have tot: "hl \<le> cbs_len s" using length_cbs_bytes [OF wf] bs by (simp add: hl_def)
  have "CBS_get_bytes hl s = (Ok (CBS_init (cbs_data s) hl), cbs_adv hl s)" using tot by (simp add: get_bytes_Ok)
  moreover have "cbs_len s - (cbs_len s - hl) = hl" using tot by simp
  ultimately show ?thesis using parse_der_tag [OF wf bs] u8 c
    by (simp add: CBS_get_any_ber_asn1_element_def cbs_get_any_asn1_element_def on_copy_def Let_def CBS_len_def)
qed

section \<open>A grammar of BER\<close>

text \<open>Elements with a definite length, and constructed elements that are ended by an end-of-contents marker.\<close>

datatype ber = BPrim u32 nat "byte list" | BConstr u32 nat "ber list" | BIndef u32 "ber list"

fun ber_bytes :: "ber \<Rightarrow> byte list" and bers_bytes :: "ber list \<Rightarrow> byte list" where
  "ber_bytes (BPrim tag k bs) = der_tag tag @ ber_length k (length bs) @ bs"
| "ber_bytes (BConstr tag k ts) = der_tag tag @ ber_length k (length (bers_bytes ts)) @ bers_bytes ts"
| "ber_bytes (BIndef tag ts) = der_tag tag @ 0x80 # bers_bytes ts @ [0, 0]"
| "bers_bytes [] = []"
| "bers_bytes (t # ts) = ber_bytes t @ bers_bytes ts"

text \<open>The value: the pieces of a constructed string are put together.\<close>

fun ber_string :: "ber \<Rightarrow> byte list" and ber_strings :: "ber list \<Rightarrow> byte list" where
  "ber_string (BPrim tag k bs) = bs"
| "ber_string (BConstr tag k ts) = ber_strings ts"
| "ber_string (BIndef tag ts) = ber_strings ts"
| "ber_strings [] = []"
| "ber_strings (t # ts) = ber_string t @ ber_strings ts"

abbreviation prim_tag :: "u32 \<Rightarrow> u32" where "prim_tag tag \<equiv> tag AND NOT CBS_ASN1_CONSTRUCTED"

fun ber_value :: "ber \<Rightarrow> asn1" and ber_values :: "ber list \<Rightarrow> asn1 list" where
  "ber_value (BPrim tag k bs) = Prim tag bs"
| "ber_value (BConstr tag k ts) =
     (if is_string_type tag then Prim (prim_tag tag) (ber_strings ts) else Constr tag (ber_values ts))"
| "ber_value (BIndef tag ts) =
     (if is_string_type tag then Prim (prim_tag tag) (ber_strings ts) else Constr tag (ber_values ts))"
| "ber_values [] = []"
| "ber_values (t # ts) = ber_value t # ber_values ts"

text \<open>What is written for an element inside of a constructed string (\<open>st\<close> is its tag), or elsewhere (\<open>st\<close> is 0).\<close>

definition ber_out :: "u32 \<Rightarrow> ber list \<Rightarrow> byte list" where
  "ber_out st ts = (if st \<noteq> 0 then ber_strings ts else der_trees (ber_values ts))"

definition child_tag :: "u32 \<Rightarrow> u32 \<Rightarrow> u32" where
  "child_tag st tag = (if st \<noteq> 0 then st else if is_string_type tag then prim_tag tag else 0)"

fun ber_ok :: "nat \<Rightarrow> u32 \<Rightarrow> ber \<Rightarrow> bool" and bers_ok :: "nat \<Rightarrow> u32 \<Rightarrow> ber list \<Rightarrow> bool" where
  "ber_ok n st (BPrim tag k bs) \<longleftrightarrow> tag AND CBS_ASN1_CONSTRUCTED = 0 \<and> ber_length_ok k (length bs) \<and>
     (tag = 0 \<and> bs = [] \<longrightarrow> k \<noteq> 0) \<and> length bs \<le> 0xfffffffe \<and> (st \<noteq> 0 \<longrightarrow> tag = st)"
| "ber_ok n st (BConstr tag k ts) \<longleftrightarrow> tag AND CBS_ASN1_CONSTRUCTED \<noteq> 0 \<and> ber_length_ok k (length (bers_bytes ts)) \<and>
     0 < n \<and> length (ber_out (child_tag st tag) ts) \<le> 0xfffffffe \<and> (st \<noteq> 0 \<longrightarrow> prim_tag tag = st) \<and>
     bers_ok (n - 1) (child_tag st tag) ts"
| "ber_ok n st (BIndef tag ts) \<longleftrightarrow> tag AND CBS_ASN1_CONSTRUCTED \<noteq> 0 \<and>
     0 < n \<and> length (ber_out (child_tag st tag) ts) \<le> 0xfffffffe \<and> (st \<noteq> 0 \<longrightarrow> prim_tag tag = st) \<and>
     bers_ok (n - 1) (child_tag st tag) ts"
| "bers_ok n st [] \<longleftrightarrow> True"
| "bers_ok n st (t # ts) \<longleftrightarrow> ber_ok n st t \<and> bers_ok n st ts"

lemma ber_length_nonempty [simp]: "ber_length k n \<noteq> []"
  by (simp add: ber_length_def)

lemma der_tag_zero: "der_tag tag = [0] \<longleftrightarrow> tag = 0"
proof
  assume "der_tag tag = [0]"
  moreover have z: "der_tag 0 = [0]" by (simp add: der_tag_def tag_number_def tag_bits_def)
  ultimately show "tag = 0"
    using parse_der_tag [of "CBS_init [0] 1" tag "[]"] parse_der_tag [of "CBS_init [0] 1" 0 "[]"] by simp
qed (simp add: der_tag_def tag_number_def tag_bits_def)

lemma ber_length_zero: "ber_length k 0 ! (length (ber_length k 0) - 1) = 0" "ber_length k n = [0] \<Longrightarrow> k = 0"
proof -
  have "le_bytes k 0 = replicate k 0" by (induction k) simp_all
  then have "be_bytes k 0 = replicate k 0" by (simp add: be_bytes_def)
  then show "ber_length k 0 ! (length (ber_length k 0) - 1) = 0"
    by (cases k) (simp_all add: ber_length_def der_length_def nth_Cons')
  show "ber_length k n = [0] \<Longrightarrow> k = 0" by (cases k) (auto simp: ber_length_def be_bytes_def)
qed

text \<open>What the conversion sees of an element of definite length.\<close>

lemma ber_head:
  assumes wf: "cbs_wf s" and bs: "cbs_bytes s = der_tag tag @ ber_length k (length c) @ c @ rest"
    and ok: "ber_length_ok k (length c)" and eoc: "tag = 0 \<Longrightarrow> c = [] \<Longrightarrow> k \<noteq> 0"
  shows "\<exists>el hl bf c1. CBS_get_any_ber_asn1_element s =
        (Ok (el, tag, hl, bf), cbs_adv (length (der_tag tag @ ber_length k (length c) @ c)) s) \<and>
      is_eoc hl el = Ok False \<and> is_indefinite hl el = Ok False \<and> CBS_skip hl el = (Ok (), c1) \<and>
      cbs_wf c1 \<and> cbs_bytes c1 = c \<and> 0 < cbs_len s"
proof -
  let ?l = "ber_length k (length c)"
  let ?hl = "length (der_tag tag) + length ?l" and ?el = "CBS_init (cbs_data s) (length c + (length (der_tag tag) + length ?l))"
  have tot: "length c + ?hl \<le> cbs_len s" using length_cbs_bytes [OF wf] bs by simp
  have pos: "0 < length (der_tag tag)" "0 < length ?l" by simp_all
  have data: "take n (cbs_data s) = take n (der_tag tag @ ?l @ c)" if "n \<le> length c + ?hl" for n
  proof -
    have "take n (cbs_data s) = take n (cbs_bytes s)" using that tot by (simp add: cbs_bytes_def min_def)
    then show ?thesis using that unfolding bs by simp
  qed
  have long: "?hl \<le> length (cbs_data s)" using tot wf by (simp add: cbs_wf_def)
  have "is_eoc ?hl ?el = Ok False"
  proof (cases "?hl = 2 \<and> c = []")
    case True
    have "take 2 (cbs_data s) \<noteq> [0, 0]"
    proof
      assume "take 2 (cbs_data s) = [0, 0]"
      then have z: "der_tag tag @ ?l = [0, 0]" using data [of 2] True by (metis append_Nil2 list.size(3) add_0 order_refl take_all_iff length_append)
      then have "der_tag tag = [0]" "?l = [0]" using pos by (auto simp: append_eq_Cons_conv)
      then show False using der_tag_zero ber_length_zero(2) eoc True by blast
    qed
    then show ?thesis using True long by (simp add: is_eoc_def fetch_def CBS_len_def CBS_data_def)
  qed (auto simp: is_eoc_def CBS_len_def)
  moreover have "is_indefinite ?hl ?el = Ok False"
  proof (cases "c = []")
    case True
    have "cbs_data s ! (?hl - 1) = take ?hl (cbs_data s) ! (?hl - 1)" using pos by simp
    also have "\<dots> = (der_tag tag @ ?l) ! (?hl - 1)" using data [of ?hl] True by simp
    also have "\<dots> = 0" using ber_length_zero(1) [of k] True ber_length_nonempty [of k 0]
      by (cases "ber_length k 0") (simp_all add: nth_append)
    finally have "cbs_data s ! (?hl - 1) = 0" .
    moreover have "?hl - 1 < length (cbs_data s)" using long pos by linarith
    ultimately show ?thesis by (simp add: is_indefinite_def CBS_len_def CBS_data_def True)
  qed (simp add: is_indefinite_def CBS_len_def)
  moreover have "CBS_skip ?hl ?el = (Ok (), cbs_adv ?hl ?el)" by (simp add: CBS_skip_def cbs_get del: cbs_adv_init)
  moreover have "cbs_wf (cbs_adv ?hl ?el)" by (rule cbs_wf_adv) (use wf tot in \<open>simp add: cbs_wf_def\<close>)
  moreover have "cbs_bytes (cbs_adv ?hl ?el) = drop ?hl (take (length c + ?hl) (cbs_data s))" by (simp add: drop_take)
  then have "cbs_bytes (cbs_adv ?hl ?el) = c" using data [of "length c + ?hl"] by simp
  moreover have "length c + ?hl = length (der_tag tag @ ?l @ c)" by simp
  moreover have "0 < cbs_len s" using tot pos by linarith
  ultimately show ?thesis using get_ber_element [OF wf bs ok] by metis
qed

section \<open>The conversion\<close>

lemma element_conv:
  assumes "cbb_ready d st" "cbb_room (length (der_element (tag, c))) st" "length c \<le> 0xfffffffe"
    and body: "\<And>st1. cbb_ready (Suc d) st1 \<Longrightarrow> cbb_room (length c) st1 \<Longrightarrow>
      \<exists>st2. m st1 = Some (Ok (), i, st2) \<and> extends st1 c st2"
  shows "\<exists>st1 st2 st'. CBB_add_asn1 tag d st = (Ok (), st1) \<and> m st1 = Some (Ok (), i, st2) \<and>
    CBB_flush d st2 = (Ok (), st') \<and> extends st (der_element (tag, c)) st'"
proof -
  define b where "b = (\<lambda>st1. case m st1 of Some (Ok u, j, st2) \<Rightarrow> if j = i then (Ok (), st2) else (Fail, st1) | _ \<Rightarrow> (Fail, st1))"
  have "\<exists>r st2. b st1 = (Ok r, st2) \<and> extends st1 c st2" if "cbb_ready (Suc d) st1" "cbb_room (length c) st1" for st1
    using body [OF that] by (auto simp: b_def)
  from element_writes [OF assms(1-3) this] obtain st' where
    w: "seq_ok (CBB_add_asn1 tag d st) (\<lambda>_ st1. seq_ok (b st1) (\<lambda>_ st2. CBB_flush d st2)) = (Ok (), st')"
      "extends st (der_element (tag, c)) st'" by blast
  from w(1) obtain st1 st2 where "CBB_add_asn1 tag d st = (Ok (), st1)" "b st1 = (Ok (), st2)" "CBB_flush d st2 = (Ok (), st')"
    by (auto simp: seq_ok_eq_Ok)
  moreover from this have "m st1 = Some (Ok (), i, st2)"
    by (auto simp: b_def split: option.splits outcome.splits if_splits prod.splits)
  ultimately show ?thesis using w(2) by blast
qed

text \<open>One element: opening it, its contents by \<open>m\<close>, and flushing.\<close>

lemma open_convert:
  assumes "cbb_ready d st" "stag AND CBS_ASN1_CONSTRUCTED = 0" "stag \<noteq> 0 \<Longrightarrow> prim_tag tag = stag"
    and "length c \<le> 0xfffffffe"
    and out: "out = (if stag \<noteq> 0 then c
       else der_element (if tag AND CBS_ASN1_CONSTRUCTED \<noteq> 0 \<and> is_string_type tag then prim_tag tag else tag, c))"
    and "cbb_room (length out) st"
    and ct: "ct = (if stag = 0 \<and> tag AND CBS_ASN1_CONSTRUCTED \<noteq> 0 \<and> is_string_type tag then prim_tag tag else stag)"
    and d1: "d1 = (if stag \<noteq> 0 then d else Suc d)"
    and body: "\<And>st1. cbb_ready d1 st1 \<Longrightarrow> cbb_room (length c) st1 \<Longrightarrow>
      \<exists>st2. m st1 = Some (Ok (), i, st2) \<and> extends st1 c st2"
  shows "\<exists>st1 st2 st'. open_element d stag tag st = (Ok (d1, ct), st1) \<and> m st1 = Some (Ok (), i, st2) \<and>
    CBB_flush d st2 = (Ok (), st') \<and> extends st out st'"
proof (cases "stag = 0")
  case False
  then obtain st2 where "m st = Some (Ok (), i, st2)" "extends st c st2" using body [of st] assms(1,6) out d1 by auto
  moreover have "CBB_flush d st2 = (Ok (), st2)" by (rule flush_ready [OF extends_ready [OF calculation(2) assms(1)]])
  ultimately show ?thesis using False assms(3) out ct d1 by (auto simp: open_element_def)
next
  case True
  let ?ot = "if tag AND CBS_ASN1_CONSTRUCTED \<noteq> 0 \<and> is_string_type tag then prim_tag tag else tag"
  have "\<exists>st1 st2 st'. CBB_add_asn1 ?ot d st = (Ok (), st1) \<and> m st1 = Some (Ok (), i, st2) \<and>
      CBB_flush d st2 = (Ok (), st') \<and> extends st (der_element (?ot, c)) st'"
    by (rule element_conv [OF assms(1) _ assms(4)]) (use assms(6) out d1 True body in auto)
  then show ?thesis using True out ct d1 by (auto simp: open_element_def Let_def)
qed

text \<open>The loop takes one element, and the loop with all its input.\<close>

lemma ber_out_simps:
  "ber_out st [] = []" "ber_out st (t # ts) = ber_out st [t] @ ber_out st ts"
  by (simp_all add: ber_out_def)

lemma prim_tag_primitive: "tag AND CBS_ASN1_CONSTRUCTED = 0 \<Longrightarrow> prim_tag tag = tag"
  by (auto simp: asn1_consts bit_eq_iff bit_simps)

lemma string_tag_nonzero: "is_string_type tag \<Longrightarrow> prim_tag tag \<noteq> 0"
  by (auto simp: is_string_type_def string_consts)

lemma ber_out_constr:
  assumes "ber_value t = (if is_string_type tag then Prim (prim_tag tag) (ber_strings ts) else Constr tag (ber_values ts))"
    and "ber_string t = ber_strings ts"
  shows "ber_out st [t] = (if st \<noteq> 0 then ber_out (child_tag st tag) ts
     else der_element (if is_string_type tag then prim_tag tag else tag, ber_out (child_tag st tag) ts))"
  using assms string_tag_nonzero [of tag] by (simp add: ber_out_def child_tag_def)

lemma child_tag_prim: "st AND CBS_ASN1_CONSTRUCTED = 0 \<Longrightarrow> child_tag st tag AND CBS_ASN1_CONSTRUCTED = 0"
  by (simp add: child_tag_def child_tag_primitive)

lemma convert_definite:
  assumes "CBS_get_any_ber_asn1_element s = (Ok (el, tag, hl, bf), s')" "0 < cbs_len s" "is_eoc hl el = Ok False"
    and "is_indefinite hl el = Ok False" "CBS_skip hl el = (Ok (), c1)" "open_element d stag tag st = (Ok (d1, ct), st1)"
    and "(if tag AND CBS_ASN1_CONSTRUCTED \<noteq> 0
          then with_in c1 (enter ct (Suc depth) (convert_loop d1 ct False (Suc depth))) (s', st1)
          else on_out (CBB_add_bytes (CBS_data c1) (of_nat (CBS_len c1)) d1) (s', st1)) = Some (Ok (), s', st2)"
    and "CBB_flush d st2 = (Ok (), st')"
  shows "convert_loop d stag l depth (s, st) = convert_loop d stag l depth (s', st')"
proof -
  have "on_in CBS_get_any_ber_asn1_element (s, st) = Some (Ok (el, tag, hl, bf), s', st)"
    "on_out (open_element d stag tag) (s', st) = Some (Ok (d1, ct), s', st1)"
    "on_out (CBB_flush d) (s', st2) = Some (Ok (), s', st')"
    using assms by (simp_all add: on_in_def on_out_def)
  moreover have "0 < CBS_len s" using assms(2) by (simp add: CBS_len_def)
  ultimately show ?thesis using assms(3-5,7)
    by (subst convert_loop.simps) (simp only: fst_conv snd_conv step_ok_simps Let_def if_False if_True not_True_eq_False not_False_eq_True Suc_eq_plus1)
qed

lemma convert_indefinite:
  assumes "CBS_get_any_ber_asn1_element s = (Ok (el, tag, hl, bf), s')" "0 < cbs_len s" "is_eoc hl el = Ok False"
    and "is_indefinite hl el = Ok True" "open_element d stag tag st = (Ok (d1, ct), st1)"
    and "enter ct (Suc depth) (convert_loop d1 ct True (Suc depth)) (s', st1) = Some (Ok (), s2, st2)"
    and "CBB_flush d st2 = (Ok (), st')"
  shows "convert_loop d stag l depth (s, st) = convert_loop d stag l depth (s2, st')"
proof -
  have "on_in CBS_get_any_ber_asn1_element (s, st) = Some (Ok (el, tag, hl, bf), s', st)"
    "on_out (open_element d stag tag) (s', st) = Some (Ok (d1, ct), s', st1)"
    "on_out (CBB_flush d) (s2, st2) = Some (Ok (), s2, st')"
    using assms by (simp_all add: on_in_def on_out_def)
  moreover have "0 < CBS_len s" using assms(2) by (simp add: CBS_len_def)
  ultimately show ?thesis using assms(3,4,6)
    by (subst convert_loop.simps) (simp only: fst_conv snd_conv step_ok_simps Let_def if_False if_True not_True_eq_False not_False_eq_True Suc_eq_plus1)
qed

lemma ber_indefinite_head:
  assumes wf: "cbs_wf s" and bs: "cbs_bytes s = der_tag tag @ 0x80 # rest" and c: "tag AND CBS_ASN1_CONSTRUCTED \<noteq> 0"
  shows "\<exists>el hl bf. CBS_get_any_ber_asn1_element s = (Ok (el, tag, hl, bf), cbs_adv (Suc (length (der_tag tag))) s) \<and>
    is_eoc hl el = Ok False \<and> is_indefinite hl el = Ok True \<and> 0 < cbs_len s"
proof -
  let ?hl = "Suc (length (der_tag tag))"
  have tot: "?hl \<le> cbs_len s" using length_cbs_bytes [OF wf] bs by simp
  have "take ?hl (cbs_data s) = take ?hl (cbs_bytes s)" using tot by (simp add: cbs_bytes_def min_def)
  then have data: "take ?hl (cbs_data s) = der_tag tag @ [0x80]" unfolding bs by simp
  have long: "?hl \<le> length (cbs_data s)" using tot wf by (simp add: cbs_wf_def)
  have "cbs_data s ! length (der_tag tag) = take ?hl (cbs_data s) ! length (der_tag tag)" by simp
  then have "is_indefinite ?hl (CBS_init (cbs_data s) ?hl) = Ok True"
    unfolding data using long by (simp add: is_indefinite_def CBS_len_def CBS_data_def)
  moreover have "take 2 (cbs_data s) \<noteq> [0, 0]" if "?hl = 2"
    using data [unfolded that] by (cases "der_tag tag") auto
  then have "is_eoc ?hl (CBS_init (cbs_data s) ?hl) = Ok False"
    using long by (auto simp: is_eoc_def fetch_def CBS_len_def CBS_data_def)
  moreover have "0 < cbs_len s" using tot by linarith
  ultimately show ?thesis using get_ber_indefinite [OF assms] by blast
qed

lemma convert_end:
  assumes wf: "cbs_wf s" and bs: "cbs_bytes s = (if l then 0 # 0 # rest else [])"
  shows "convert_loop d stag l depth (s, st) = Some (Ok (), cbs_adv (if l then 2 else 0) s, st)"
proof (cases l)
  case False
  then have "cbs_len s = 0" using length_cbs_bytes [OF wf] bs by simp
  then show ?thesis using False by (subst convert_loop.simps) (simp add: CBS_len_def)
next
  case True
  have tot: "2 \<le> cbs_len s" using length_cbs_bytes [OF wf] bs True by simp
  have "CBS_get_any_ber_asn1_element s = (Ok (CBS_init (cbs_data s) (Suc (Suc 0)), 0, Suc (Suc 0), False), cbs_adv (Suc (Suc 0)) s)"
    using get_der_element [OF wf, of 0 "[]" rest True] bs True
    by (simp add: CBS_get_any_ber_asn1_element_def der_tag_def der_length_def tag_number_def tag_bits_def)
  then have "CBS_get_any_ber_asn1_element s = (Ok (CBS_init (cbs_data s) 2, 0, 2, False), cbs_adv 2 s)"
    by (simp only: numeral_2_eq_2)
  moreover have "take 2 (cbs_data s) = take 2 (cbs_bytes s)" using tot by (simp add: cbs_bytes_def min_def)
  then have "is_eoc 2 (CBS_init (cbs_data s) 2) = Ok True"
    using tot wf bs True by (simp add: is_eoc_def fetch_def CBS_len_def CBS_data_def cbs_wf_def)
  moreover have "cbs_len s \<noteq> 0" using tot by linarith
  ultimately show ?thesis using True by (subst convert_loop.simps) (simp add: on_in_def CBS_len_def)
qed

lemma convert_bers:
  "ber_ok (kMaxDepth - depth) stag t \<Longrightarrow> depth \<le> kMaxDepth \<Longrightarrow> stag AND CBS_ASN1_CONSTRUCTED = 0 \<Longrightarrow> cbs_wf s \<Longrightarrow>
     cbs_bytes s = ber_bytes t @ rest \<Longrightarrow> cbb_ready d st \<Longrightarrow> cbb_room (length (ber_out stag [t])) st \<Longrightarrow>
     \<exists>st'. extends st (ber_out stag [t]) st' \<and>
       convert_loop d stag l depth (s, st) = convert_loop d stag l depth (cbs_adv (length (ber_bytes t)) s, st')"
  "bers_ok (kMaxDepth - depth) stag ts \<Longrightarrow> depth \<le> kMaxDepth \<Longrightarrow> stag AND CBS_ASN1_CONSTRUCTED = 0 \<Longrightarrow> cbs_wf s \<Longrightarrow>
     cbs_bytes s = bers_bytes ts @ (if l then 0 # 0 # rest else []) \<Longrightarrow> cbb_ready d st \<Longrightarrow> cbb_room (length (ber_out stag ts)) st \<Longrightarrow>
     \<exists>st'. extends st (ber_out stag ts) st' \<and>
       convert_loop d stag l depth (s, st) = Some (Ok (), cbs_adv (length (bers_bytes ts) + (if l then 2 else 0)) s, st')"
proof (induction t and ts arbitrary: depth stag s rest d st l and depth stag s rest d st l rule: ber_bytes_bers_bytes.induct)
  case (1 tag k bs)
  note ok = "1.prems"(1) [unfolded ber_ok.simps]
  obtain el hl bf c1 where h: "CBS_get_any_ber_asn1_element s =
        (Ok (el, tag, hl, bf), cbs_adv (length (der_tag tag @ ber_length k (length bs) @ bs)) s)"
      "is_eoc hl el = Ok False" "is_indefinite hl el = Ok False" "CBS_skip hl el = (Ok (), c1)"
      "cbs_wf c1" "cbs_bytes c1 = bs" "0 < cbs_len s"
    using ber_head [of s tag k bs rest] "1.prems" by auto
  define d1 where "d1 = (if stag \<noteq> 0 then d else Suc d)"
  let ?s = "cbs_adv (length (der_tag tag @ ber_length k (length bs) @ bs)) s"
  have c1: "cbs_len c1 = length bs" "take (length bs) (cbs_data c1) = bs" "length bs \<le> length (cbs_data c1)"
    using length_cbs_bytes [OF h(5)] h(5,6) by (auto simp: cbs_bytes_def cbs_wf_def)
  have add: "CBB_add_bytes (cbs_data c1) (of_nat (length bs)) d1 st = CBB_add_bytes bs (of_nat (length bs)) d1 st" if "length bs < 2 ^ 64" for st
    using c1 that by (simp add: CBB_add_bytes_def unat_of_nat not_less)
  have "\<exists>st1 st2 st'. open_element d stag tag st = (Ok (d1, stag), st1) \<and>
      on_out (CBB_add_bytes (cbs_data c1) (of_nat (length bs)) d1) (?s, st1) = Some (Ok (), ?s, st2) \<and>
      CBB_flush d st2 = (Ok (), st') \<and> extends st (ber_out stag [BPrim tag k bs]) st'"
  proof (rule open_convert [where c = bs])
    show "\<exists>st2. on_out (CBB_add_bytes (cbs_data c1) (of_nat (length bs)) d1) (?s, st1) = Some (Ok (), ?s, st2) \<and> extends st1 bs st2"
      if "cbb_ready d1 st1" "cbb_room (length bs) st1" for st1
      using wbytes.op_extends [OF _ that] add ok by (auto simp: on_out_def ber_length_ok_def)
  qed (use "1.prems" ok d1_def in \<open>auto simp: ber_out_def prim_tag_primitive\<close>)
  then obtain st1 st2 st' where o: "open_element d stag tag st = (Ok (d1, stag), st1)"
      "on_out (CBB_add_bytes (cbs_data c1) (of_nat (length bs)) d1) (?s, st1) = Some (Ok (), ?s, st2)"
      "CBB_flush d st2 = (Ok (), st')" "extends st (ber_out stag [BPrim tag k bs]) st'" by blast
  have "convert_loop d stag l depth (s, st) = convert_loop d stag l depth (?s, st')"
    by (rule convert_definite [OF h(1,7,2,3,4) o(1) _ o(3)]) (use o(2) ok c1 in \<open>simp add: CBS_len_def CBS_data_def\<close>)
  then show ?case using o(4) by auto
next
  case (2 tag k ts)
  let ?ct = "child_tag stag tag"
  note ok = "2.prems"(1) [unfolded ber_ok.simps]
  have n0: "tag \<noteq> 0" using ok by auto
  obtain el hl bf c1 where h: "CBS_get_any_ber_asn1_element s =
        (Ok (el, tag, hl, bf), cbs_adv (length (der_tag tag @ ber_length k (length (bers_bytes ts)) @ bers_bytes ts)) s)"
      "is_eoc hl el = Ok False" "is_indefinite hl el = Ok False" "CBS_skip hl el = (Ok (), c1)"
      "cbs_wf c1" "cbs_bytes c1 = bers_bytes ts" "0 < cbs_len s"
    using ber_head [of s tag k "bers_bytes ts" rest] "2.prems" n0 by auto
  define d1 where "d1 = (if stag \<noteq> 0 then d else Suc d)"
  let ?s = "cbs_adv (length (der_tag tag @ ber_length k (length (bers_bytes ts)) @ bers_bytes ts)) s"
  have "\<exists>st1 st2 st'. open_element d stag tag st = (Ok (d1, ?ct), st1) \<and>
      with_in c1 (enter ?ct (Suc depth) (convert_loop d1 ?ct False (Suc depth))) (?s, st1) = Some (Ok (), ?s, st2) \<and>
      CBB_flush d st2 = (Ok (), st') \<and> extends st (ber_out stag [BConstr tag k ts]) st'"
  proof (rule open_convert [where c = "ber_out ?ct ts"])
    show "\<exists>st2. with_in c1 (enter ?ct (Suc depth) (convert_loop d1 ?ct False (Suc depth))) (?s, st1) = Some (Ok (), ?s, st2) \<and>
        extends st1 (ber_out ?ct ts) st2"
      if "cbb_ready d1 st1" "cbb_room (length (ber_out ?ct ts)) st1" for st1
      using "2.IH" [of "Suc depth" ?ct c1 False undefined d1 st1] that h(5,6) ok "2.prems"(2,3) child_tag_prim [of stag tag]
      by (auto simp: with_in_def enter_def)
  qed (use "2.prems" ok d1_def in \<open>auto simp: ber_out_constr [where tag = tag and ts = ts] child_tag_def\<close>)
  then obtain st1 st2 st' where o: "open_element d stag tag st = (Ok (d1, ?ct), st1)"
      "with_in c1 (enter ?ct (Suc depth) (convert_loop d1 ?ct False (Suc depth))) (?s, st1) = Some (Ok (), ?s, st2)"
      "CBB_flush d st2 = (Ok (), st')" "extends st (ber_out stag [BConstr tag k ts]) st'" by blast
  have "convert_loop d stag l depth (s, st) = convert_loop d stag l depth (?s, st')"
    by (rule convert_definite [OF h(1,7,2,3,4) o(1) _ o(3)]) (use o(2) ok in simp)
  then show ?case using o(4) by auto
next
  case (3 tag ts)
  let ?ct = "child_tag stag tag"
  note ok = "3.prems"(1) [unfolded ber_ok.simps]
  obtain el hl bf where h: "CBS_get_any_ber_asn1_element s = (Ok (el, tag, hl, bf), cbs_adv (Suc (length (der_tag tag))) s)"
      "is_eoc hl el = Ok False" "is_indefinite hl el = Ok True" "0 < cbs_len s"
    using ber_indefinite_head [of s tag "bers_bytes ts @ 0 # 0 # rest"] "3.prems" ok by auto
  define d1 where "d1 = (if stag \<noteq> 0 then d else Suc d)"
  let ?s = "cbs_adv (Suc (length (der_tag tag))) s" and ?s2 = "cbs_adv (length (ber_bytes (BIndef tag ts))) s"
  have s: "cbs_wf ?s" "cbs_bytes ?s = bers_bytes ts @ 0 # 0 # rest" "cbs_adv (length (bers_bytes ts) + 2) ?s = ?s2"
    using "3.prems" by simp_all
  have "\<exists>st1 st2 st'. open_element d stag tag st = (Ok (d1, ?ct), st1) \<and>
      enter ?ct (Suc depth) (convert_loop d1 ?ct True (Suc depth)) (?s, st1) = Some (Ok (), ?s2, st2) \<and>
      CBB_flush d st2 = (Ok (), st') \<and> extends st (ber_out stag [BIndef tag ts]) st'"
  proof (rule open_convert [where c = "ber_out ?ct ts"])
    show "\<exists>st2. enter ?ct (Suc depth) (convert_loop d1 ?ct True (Suc depth)) (?s, st1) = Some (Ok (), ?s2, st2) \<and>
        extends st1 (ber_out ?ct ts) st2"
      if "cbb_ready d1 st1" "cbb_room (length (ber_out ?ct ts)) st1" for st1
      using "3.IH" [of "Suc depth" ?ct ?s True rest d1 st1] that s ok "3.prems"(2,3) child_tag_prim [of stag tag]
      by (auto simp: enter_def)
  qed (use "3.prems" ok d1_def in \<open>auto simp: ber_out_constr [where tag = tag and ts = ts] child_tag_def\<close>)
  then obtain st1 st2 st' where o: "open_element d stag tag st = (Ok (d1, ?ct), st1)"
      "enter ?ct (Suc depth) (convert_loop d1 ?ct True (Suc depth)) (?s, st1) = Some (Ok (), ?s2, st2)"
      "CBB_flush d st2 = (Ok (), st')" "extends st (ber_out stag [BIndef tag ts]) st'" by blast
  have "convert_loop d stag l depth (s, st) = convert_loop d stag l depth (?s2, st')"
    by (rule convert_indefinite [OF h(1,4,2,3) o(1,2,3)])
  then show ?case using o(4) by blast
next
  case 4
  then show ?case using convert_end [OF "4.prems"(4), of l rest d stag depth st]
    by (auto simp: ber_out_simps extends_refl cbb_ready_def)
next
  case (5 t ts)
  have room: "cbb_room (length (ber_out stag [t]) + length (ber_out stag ts)) st"
    using "5.prems"(7) by (simp add: ber_out_simps(2) [of stag t ts])
  obtain st1 where st1: "extends st (ber_out stag [t]) st1"
      "convert_loop d stag l depth (s, st) = convert_loop d stag l depth (cbs_adv (length (ber_bytes t)) s, st1)"
    using "5.IH"(1) [of depth stag s _ d st l] "5.prems" cbb_room_mono [OF room] by fastforce
  have "\<exists>st'. extends st1 (ber_out stag ts) st' \<and>
      convert_loop d stag l depth (cbs_adv (length (ber_bytes t)) s, st1) =
        Some (Ok (), cbs_adv (length (bers_bytes ts) + (if l then 2 else 0)) (cbs_adv (length (ber_bytes t)) s), st')"
    by (rule "5.IH"(2)) (use "5.prems" extends_ready [OF st1(1)] extends_room [OF st1(1) room] in auto)
  then show ?case using st1 extends_trans [OF st1(1)] by (auto simp: ber_out_simps(2) [of stag t ts] add.assoc)
qed


lemmas walk_eval = CBS_data_def CBS_len_def kMaxDepth_def asn1_consts der_element_def der_tag_def der_length_def
  tag_number_def tag_bits_def is_string_type_def string_consts

text \<open>A constructed octet string of two pieces inside of a sequence of indefinite length.\<close>

definition ber_sample :: "ber list" where
  "ber_sample = [BIndef 0x20000010 [BConstr 0x20000004 0 [BPrim 4 0 [1, 2], BPrim 4 1 [3]]]]"


section \<open>Implicitly tagged strings\<close>

lemma implicit_chunks_der:
  "cbs_wf s \<Longrightarrow> cbs_bytes s = concat (map (\<lambda>c. der_element (tag, c)) cs) \<Longrightarrow> list_all (\<lambda>c. length c < 2 ^ 32) cs \<Longrightarrow>
     cbb_ready 0 st \<Longrightarrow> cbb_room (length (concat cs)) st \<Longrightarrow>
     \<exists>st'. implicit_chunks s tag st = (Ok (), st') \<and> extends st (concat cs) st'"
proof (induction cs arbitrary: s st)
  case Nil
  then have "cbs_len s = 0" using length_cbs_bytes [of s] by simp
  then show ?case using Nil by (subst implicit_chunks.simps) (simp add: CBS_len_def extends_refl cbb_ready_def)
next
  case (Cons c cs)
  let ?n = "length (der_element (tag, c))"
  obtain out where out: "CBS_get_asn1 tag s = (Ok out, cbs_adv ?n s)" "cbs_wf out" "cbs_bytes out = c"
    using get_asn1_der [OF Cons.prems(1), of tag c "concat (map (\<lambda>c. der_element (tag, c)) cs)"] Cons.prems by auto
  have c: "cbs_len out = length c" "take (length c) (cbs_data out) = c" "length c \<le> length (cbs_data out)"
    using length_cbs_bytes [OF out(2)] out(2,3) by (auto simp: cbs_bytes_def cbs_wf_def)
  have "length c < 2 ^ 64" using Cons.prems(3) by simp
  then have add: "CBB_add_bytes (cbs_data out) (of_nat (length c)) 0 st = CBB_add_bytes c (of_nat (length c)) 0 st"
    using c by (simp add: CBB_add_bytes_def unat_of_nat not_less)
  obtain st1 where st1: "CBB_add_bytes c (of_nat (length c)) 0 st = (Ok (), st1)" "extends st c st1"
    using wbytes.op_extends [where x = c, of 0 st] Cons.prems(4) cbb_room_mono [OF Cons.prems(5)] by auto
  have "\<exists>st'. implicit_chunks (cbs_adv ?n s) tag st1 = (Ok (), st') \<and> extends st1 (concat cs) st'"
    by (rule Cons.IH) (use Cons.prems extends_ready [OF st1(2)] extends_room [OF st1(2)] in auto)
  moreover have "0 < cbs_len s" using length_cbs_bytes [OF Cons.prems(1)] Cons.prems(2) der_element_length [of c tag] by simp
  ultimately show ?case using out c add st1 Cons.prems(1)
    by (subst implicit_chunks.simps) (auto simp: CBS_len_def CBS_data_def intro: extends_trans)
qed

text \<open>An implicitly tagged string in constructed form, that is one level of pieces that carry the tag of the string,
  is read as the concatenation of the pieces, in storage of its own, and the reader is left with the rest.\<close>

theorem implicit_string_concat:
  assumes "cs_mallocs fresh = []" "cbs_wf inp" "outer_tag AND CBS_ASN1_CONSTRUCTED = 0" "inner_tag AND CBS_ASN1_CONSTRUCTED = 0"
    and "is_string_type inner_tag" "list_all (\<lambda>c. length c < 2 ^ 32) cs"
    and "length (concat (map (\<lambda>c. der_element (inner_tag, c)) cs)) < 2 ^ 32"
    and "cbs_bytes inp = der_element (outer_tag OR CBS_ASN1_CONSTRUCTED, concat (map (\<lambda>c. der_element (inner_tag, c)) cs)) @ rest"
  shows "\<exists>out storage inp'. CBS_get_asn1_implicit_string fresh outer_tag inner_tag inp = (Ok (out, Some storage), inp') \<and>
    cbs_bytes out = concat cs \<and> cbs_bytes inp' = rest"
proof -
  let ?ot = "outer_tag OR CBS_ASN1_CONSTRUCTED" and ?body = "concat (map (\<lambda>c. der_element (inner_tag, c)) cs)"
  have "bit ?ot 29" by (simp add: asn1_consts bit_simps)
  moreover have "\<not> bit outer_tag 29"
  proof
    assume "bit outer_tag 29"
    then have "bit (outer_tag AND CBS_ASN1_CONSTRUCTED) 29" by (simp add: asn1_consts bit_simps)
    then show False using assms(3) by simp
  qed
  ultimately have ne: "outer_tag \<noteq> ?ot" by metis
  have bs: "cbs_bytes inp = der_tag ?ot @ der_length (length ?body) @ ?body @ rest" using assms(8) by (simp add: der_element_def)
  have "parse_asn1_tag inp = (Ok ?ot, cbs_adv (length (der_tag ?ot)) inp)" by (rule parse_der_tag [OF assms(2) bs])
  then have peek: "CBS_peek_asn1_tag outer_tag inp = Ok False" using ne by (simp add: CBS_peek_asn1_tag_def)
  obtain child where child: "CBS_get_asn1 ?ot inp = (Ok child, cbs_adv (length (der_element (?ot, ?body))) inp)" "cbs_wf child"
      "cbs_bytes child = ?body" using get_asn1_der [OF assms(2,8,7)] by blast
  obtain st where st: "CBB_init (of_nat (CBS_len inp)) fresh = (Ok (), st)" "cbb_ready 0 st" "cbb_out st = []"
      "\<not> cb_is_child (cs_chain st ! 0)" "\<And>n. n < 2 ^ 64 \<Longrightarrow> cbb_room n st"
    using CBB_init_ready [OF assms(1)] by blast
  have "length (concat cs) \<le> length ?body"
  proof (induction cs)
    case (Cons c cs) then show ?case using der_element_length [of c inner_tag] by simp
  qed simp
  then have "length (concat cs) < 2 ^ 64" using assms(7) by simp
  then obtain st1 where st1: "implicit_chunks child inner_tag st = (Ok (), st1)" "extends st (concat cs) st1"
    using implicit_chunks_der [OF child(2,3) assms(6) st(2)] st(5) by blast
  have "\<not> cb_is_child (cs_chain st1 ! 0)" using st(4) st1(2) by (simp add: extends_def)
  from finish_ready [OF extends_ready [OF st1(2) st(2)] this] obtain buf n st2 where fin: "CBB_finish True st1 = (Ok (buf, n), st2)"
      "take (unat n) buf = cbb_out st1" by blast
  have "cbb_out st1 = concat cs" using st1(2) st(3) by (simp add: extends_def)
  then show ?thesis using assms(3,4,5,8) peek child(1) st(1) st1(1) fin
    by (simp add: CBS_get_asn1_implicit_string_def)
qed

theorem implicit_string_concat_witness:
  "\<exists>out storage inp'. CBS_get_asn1_implicit_string (blank []) 0x80000000 4 (CBS_init [0xa0, 7, 4, 2, 1, 2, 4, 1, 3, 9] 10) =
      (Ok (out, Some storage), inp') \<and> cbs_bytes out = [1, 2, 3] \<and> cbs_bytes inp' = [9]"
  using implicit_string_concat [of "blank []" "CBS_init [0xa0, 7, 4, 2, 1, 2, 4, 1, 3, 9] 10" "0x80000000" 4 "[[1, 2], [3]]" "[9]"]
  by (simp add: walk_eval blank_def)

section \<open>The walk forgets what it found in a child\<close>

text \<open>The outer element holds an element with BER contents (an octet string with a long-form length of one) and, behind
  it, an element of DER.\<close>

definition nested_ber :: CBS where
  "nested_ber = CBS_init [0x30, 0x09, 0x30, 0x04, 0x04, 0x81, 0x01, 0x07, 0x02, 0x01, 0x05] 11"

lemma find_octets: "cbs_find_ber (CBS_init (4 # 0x81 # 1 # 7 # rest) 4) 1 = Ok True" "cbs_find_ber (CBS_init (4 # 0x81 # 1 # 7 # rest) 4) 2 = Ok True"
proof -
  let ?s = "CBS_init (4 # 0x81 # 1 # 7 # rest) 4"
  have "CBS_get_any_ber_asn1_element ?s = (Ok (?s, 4, 3, True), CBS_init rest 0)"
    using get_ber_element [of ?s 4 1 "[7]" "[]"]
    by (simp add: walk_eval ber_length_def ber_length_ok_def be_bytes_def)
  then have "find_ber_loop ?s f depth = Ok True" for f depth by (subst find_ber_loop.simps) (simp add: walk_eval)
  then show "cbs_find_ber ?s 1 = Ok True" "cbs_find_ber ?s 2 = Ok True"
    by (simp_all add: cbs_find_ber.simps walk_eval)
qed

lemma walk_sequence:
  "CBS_get_any_ber_asn1_element (CBS_init [0x30, 4, 4, 0x81, 1, 7] 6) =
     (Ok (CBS_init [0x30, 4, 4, 0x81, 1, 7] 6, 0x20000010, 2, False), CBS_init [] 0)"
  "CBS_get_any_ber_asn1_element (CBS_init [0x30, 4, 4, 0x81, 1, 7, 2, 1, 5] 9) =
     (Ok (CBS_init [0x30, 4, 4, 0x81, 1, 7, 2, 1, 5] 6, 0x20000010, 2, False), CBS_init [2, 1, 5] 3)"
  "CBS_get_any_ber_asn1_element (CBS_init [2, 1, 5] 3) = (Ok (CBS_init [2, 1, 5] 3, 2, 2, False), CBS_init [] 0)"
  "CBS_get_any_ber_asn1_element nested_ber = (Ok (nested_ber, 0x20000010, 2, False), CBS_init [] 0)"
  "CBS_get_any_asn1_element nested_ber = (Ok (nested_ber, 0x20000010, 2), CBS_init [] 0)"
  using get_der_element [of "CBS_init [0x30, 4, 4, 0x81, 1, 7] 6" "0x20000010" "[4, 0x81, 1, 7]" "[]" True]
    get_der_element [of "CBS_init [0x30, 4, 4, 0x81, 1, 7, 2, 1, 5] 9" "0x20000010" "[4, 0x81, 1, 7]" "[2, 1, 5]" True]
    get_der_element [of "CBS_init [2, 1, 5] 3" 2 "[5]" "[]" True]
    get_der_element [of nested_ber "0x20000010" "[0x30, 4, 4, 0x81, 1, 7, 2, 1, 5]" "[]" True]
    get_der_element [of nested_ber "0x20000010" "[0x30, 4, 4, 0x81, 1, 7, 2, 1, 5]" "[]" False]
  by (simp_all add: walk_eval nested_ber_def CBS_get_any_ber_asn1_element_def CBS_get_any_asn1_element_def)

lemma walk_nested:
  "cbs_find_ber (CBS_init [0x30, 4, 4, 0x81, 1, 7] 6) 0 = Ok True"
  "cbs_find_ber (CBS_init [0x30, 4, 4, 0x81, 1, 7, 2, 1, 5] 9) 1 = Ok False"
  "cbs_find_ber nested_ber 0 = Ok False"
proof -
  have nil: "find_ber_loop (CBS_init [] 0) f depth = Ok f" for f depth
    by (subst find_ber_loop.simps) (simp add: walk_eval)
  have int: "find_ber_loop (CBS_init [2, 1, 5] 3) f depth = Ok False" for f depth
    by (subst find_ber_loop.simps) (simp add: walk_eval walk_sequence nil)
  have skip: "CBS_skip 2 (CBS_init (a # b # bs) n) = (Ok (), CBS_init bs (n - 2))" if "2 \<le> n" for a b bs n
    using that by (simp add: CBS_skip_def cbs_get)
  show "cbs_find_ber (CBS_init [0x30, 4, 4, 0x81, 1, 7] 6) 0 = Ok True"
    by (subst cbs_find_ber.simps, simp add: walk_eval, subst find_ber_loop.simps)
      (simp add: walk_eval walk_sequence nil skip find_octets [unfolded One_nat_def])
  show seq: "cbs_find_ber (CBS_init [0x30, 4, 4, 0x81, 1, 7, 2, 1, 5] 9) 1 = Ok False"
    by (subst cbs_find_ber.simps, simp add: walk_eval, subst find_ber_loop.simps)
      (simp add: walk_eval walk_sequence int skip find_octets [unfolded numeral_2_eq_2])
  show "cbs_find_ber nested_ber 0 = Ok False"
    by (subst cbs_find_ber.simps, simp add: walk_eval nested_ber_def, subst find_ber_loop.simps)
      (simp add: walk_eval walk_sequence(4) [unfolded nested_ber_def] nil skip seq [unfolded One_nat_def])
qed

text \<open>C20: \<^verbatim>\<open>cbs_find_ber\<close> goes on after a recursive call that found BER, and the parser of the next element resets
  \<^verbatim>\<open>*ber_found\<close>: an outer element whose first child has BER contents and whose second child is DER is reported to
  need no conversion. \<^verbatim>\<open>CBS_asn1_ber_to_der\<close> returns it as it stands, although the first child is found to
  be BER when walked alone, and the reader of DER refuses the contents of that child.\<close>

theorem nested_ber_missed:
  "CBS_asn1_ber_to_der fresh nested_ber = Some (Ok (nested_ber, None), CBS_init [] 0) \<and>
   cbs_find_ber (CBS_init [0x30, 0x04, 0x04, 0x81, 0x01, 0x07] 6) 0 = Ok True \<and>
   fst (CBS_get_any_asn1 (CBS_init [0x04, 0x81, 0x01, 0x07] 4)) = Fail"
proof (intro conjI)
  show "CBS_asn1_ber_to_der fresh nested_ber = Some (Ok (nested_ber, None), CBS_init [] 0)"
    by (simp add: CBS_asn1_ber_to_der_def walk_nested walk_sequence)
  show "cbs_find_ber (CBS_init [0x30, 0x04, 0x04, 0x81, 0x01, 0x07] 6) 0 = Ok True" using walk_nested(1) by simp
  let ?s = "CBS_init [0x04, 0x81, 0x01, 0x07 :: byte] 4"
  have "parse_asn1_tag ?s = (Ok 4, cbs_adv 1 ?s)" using parse_der_tag [of ?s 4 "[0x81, 1, 7]"] by (simp add: walk_eval)
  moreover have "CBS_get_u8 (cbs_adv 1 ?s) = (Ok 0x81, cbs_adv 2 ?s)"
    using get_u8_Cons [of "cbs_adv 1 ?s" "0x81" "[1, 7]"] by simp
  moreover have "cbs_get_u 1 (cbs_adv 2 ?s) = (Ok 1, cbs_adv 3 ?s)"
    using get_u_be [of "cbs_adv 2 ?s" 1 1 "[7]"] by (simp add: be_bytes_def)
  ultimately show "fst (CBS_get_any_asn1 ?s) = Fail"
    by (simp add: CBS_get_any_asn1_def CBS_get_any_asn1_element_def cbs_get_any_asn1_element_def on_copy_def Let_def)
qed

end
