(* ===== verification/Unicode.thy ===== *)
theory Unicode
  imports Oid
begin

text \<open>
  The characters of ASN.1 strings (\<^verbatim>\<open>crypto/bytestring/unicode.c\<close>): code points read and written as UTF-8,
  Latin-1, UCS-2 and UTF-32. Each encoding is a \<open>der_value\<close>; the UTF-8 reader accepts exactly the
  shortest encodings of valid code points.
\<close>

section \<open>The functions\<close>

definition is_valid_code_point :: "u32 \<Rightarrow> bool" where
  "is_valid_code_point v \<longleftrightarrow> \<not> (0x10ffff < v \<or> v AND 0xfffe = 0xfffe \<or> (0xfdd0 \<le> v \<and> v \<le> 0xfdef) \<or>
     (0xd800 \<le> v \<and> v \<le> 0xdfff))"

definition BOTTOM_BITS :: "nat \<Rightarrow> byte" where
  "BOTTOM_BITS n = ucast (push_bit n 1 - 1 :: u32)"

definition TOP_BITS :: "nat \<Rightarrow> byte" where
  "TOP_BITS n = NOT (BOTTOM_BITS (8 - n))"

fun utf8_loop :: "nat \<Rightarrow> u32 \<Rightarrow> CBS \<Rightarrow> u32 outcome \<times> CBS" where
  "utf8_loop 0 v cbs = (Ok v, cbs)"
| "utf8_loop (Suc len) v cbs = seq_ok (CBS_get_u8 cbs) (\<lambda>c s.
     if c AND TOP_BITS 2 \<noteq> TOP_BITS 1 then (Fail, s)
     else utf8_loop len (push_bit 6 v OR ucast (c AND BOTTOM_BITS 6)) s)"

definition cbs_get_utf8 :: "CBS \<Rightarrow> u32 outcome \<times> CBS" where
  "cbs_get_utf8 cbs = seq_ok (CBS_get_u8 cbs) (\<lambda>c s.
     let rest = (\<lambda>v len lower_bound. seq_ok (utf8_loop len v s) (\<lambda>v s1.
       if \<not> is_valid_code_point v \<or> v < lower_bound then (Fail, s1) else (Ok v, s1)))
     in if c \<le> 0x7f then (Ok (ucast c), s)
        else if c AND TOP_BITS 3 = TOP_BITS 2 then rest (ucast (c AND BOTTOM_BITS 5)) 1 0x80
        else if c AND TOP_BITS 4 = TOP_BITS 3 then rest (ucast (c AND BOTTOM_BITS 4)) 2 0x800
        else if c AND TOP_BITS 5 = TOP_BITS 4 then rest (ucast (c AND BOTTOM_BITS 3)) 3 0x10000
        else (Fail, s))"

definition cbs_get_latin1 :: "CBS \<Rightarrow> u32 outcome \<times> CBS" where
  "cbs_get_latin1 cbs = seq_ok (CBS_get_u8 cbs) (\<lambda>c s. (Ok (ucast c), s))"

definition cbs_get_ucs2_be :: "CBS \<Rightarrow> u32 outcome \<times> CBS" where
  "cbs_get_ucs2_be cbs = seq_ok (CBS_get_u16 cbs) (\<lambda>c s.
     if \<not> is_valid_code_point (ucast c) then (Fail, s) else (Ok (ucast c), s))"

definition cbs_get_utf32_be :: "CBS \<Rightarrow> u32 outcome \<times> CBS" where
  "cbs_get_utf32_be cbs = seq_ok (CBS_get_u32 cbs) (\<lambda>out s.
     if is_valid_code_point out then (Ok out, s) else (Fail, s))"

definition cbb_get_utf8_len :: "u32 \<Rightarrow> nat" where
  "cbb_get_utf8_len u = (if u \<le> 0x7f then 1 else if u \<le> 0x7ff then 2 else if u \<le> 0xffff then 3 else 4)"

definition cbb_add_utf8 :: "u32 \<Rightarrow> nat \<Rightarrow> cbb_state \<Rightarrow> unit outcome \<times> cbb_state" where
  "cbb_add_utf8 u d st =
     (let lead = (\<lambda>n k. ucast (ucast (TOP_BITS n) OR drop_bit k u) :: byte);
          cont = (\<lambda>k. ucast (ucast (TOP_BITS 1) OR (drop_bit k u AND ucast (BOTTOM_BITS 6))) :: byte)
      in if \<not> is_valid_code_point u then (Fail, st)
         else if u \<le> 0x7f then CBB_add_u8 (ucast u) d st
         else if u \<le> 0x7ff then
           seq_ok (CBB_add_u8 (lead 2 6) d st) (\<lambda>_ st1. CBB_add_u8 (cont 0) d st1)
         else if u \<le> 0xffff then
           seq_ok (CBB_add_u8 (lead 3 12) d st) (\<lambda>_ st1.
             seq_ok (CBB_add_u8 (cont 6) d st1) (\<lambda>_ st2. CBB_add_u8 (cont 0) d st2))
         else if u \<le> 0x10ffff then
           seq_ok (CBB_add_u8 (lead 4 18) d st) (\<lambda>_ st1.
             seq_ok (CBB_add_u8 (cont 12) d st1) (\<lambda>_ st2.
               seq_ok (CBB_add_u8 (cont 6) d st2) (\<lambda>_ st3. CBB_add_u8 (cont 0) d st3)))
         else (Fail, st))"

definition cbb_add_latin1 :: "u32 \<Rightarrow> nat \<Rightarrow> cbb_state \<Rightarrow> unit outcome \<times> cbb_state" where
  "cbb_add_latin1 u d st = (if u \<le> 0xff then CBB_add_u8 (ucast u) d st else (Fail, st))"

definition cbb_add_ucs2_be :: "u32 \<Rightarrow> nat \<Rightarrow> cbb_state \<Rightarrow> unit outcome \<times> cbb_state" where
  "cbb_add_ucs2_be u d st =
     (if u \<le> 0xffff \<and> is_valid_code_point u then CBB_add_u16 (ucast u) d st else (Fail, st))"

definition cbb_add_utf32_be :: "u32 \<Rightarrow> nat \<Rightarrow> cbb_state \<Rightarrow> unit outcome \<times> cbb_state" where
  "cbb_add_utf32_be u d st = (if is_valid_code_point u then CBB_add_u32 u d st else (Fail, st))"

section \<open>The UTF-8 encoding\<close>

fun utf8_tail :: "nat \<Rightarrow> nat \<Rightarrow> byte list" where
  "utf8_tail 0 n = []"
| "utf8_tail (Suc k) n = of_nat (128 + n div 64 ^ k mod 64) # utf8_tail k n"

definition utf8 :: "nat \<Rightarrow> byte list" where
  "utf8 n = (if n < 0x80 then [of_nat n]
     else if n < 0x800 then of_nat (192 + n div 64) # utf8_tail 1 n
     else if n < 0x10000 then of_nat (224 + n div 64 ^ 2) # utf8_tail 2 n
     else of_nat (240 + n div 64 ^ 3) # utf8_tail 3 n)"

lemma length_utf8_tail: "length (utf8_tail k n) = k"
  by (induction k) simp_all

lemma bits_masks:
  "BOTTOM_BITS 6 = mask 6" "BOTTOM_BITS 5 = mask 5" "BOTTOM_BITS 4 = mask 4" "BOTTOM_BITS 3 = mask 3"
  "TOP_BITS 1 = push_bit 7 (mask 1)" "TOP_BITS 2 = push_bit 6 (mask 2)" "TOP_BITS 3 = push_bit 5 (mask 3)"
  "TOP_BITS 4 = push_bit 4 (mask 4)" "TOP_BITS 5 = push_bit 3 (mask 5)"
  by (simp_all add: TOP_BITS_def BOTTOM_BITS_def mask_eq_exp_minus_1)

lemma byte_div_less: "unat (c :: byte) div 2 ^ k < 2 ^ (8 - k)" if "k \<le> 8"
proof -
  have "unat c < 2 ^ (8 - k) * 2 ^ k" using that by (simp add: power_add [symmetric])
  then show ?thesis by (rule less_mult_imp_div_less)
qed

lemma and_top:
  assumes "k \<le> 8"
  shows "unat ((c :: byte) AND push_bit k (mask (8 - k))) = unat c div 2 ^ k * 2 ^ k"
  using unat_and_field [of k "8 - k" c] assms byte_div_less [OF assms, of c] by simp

lemma byte_class:
  fixes c :: byte
  shows "c AND TOP_BITS 2 = TOP_BITS 1 \<longleftrightarrow> unat c div 64 = 2"
    "c AND TOP_BITS 3 = TOP_BITS 2 \<longleftrightarrow> unat c div 32 = 6"
    "c AND TOP_BITS 4 = TOP_BITS 3 \<longleftrightarrow> unat c div 16 = 14"
    "c AND TOP_BITS 5 = TOP_BITS 4 \<longleftrightarrow> unat c div 8 = 30"
  unfolding word_unat_eq_iff bits_masks
  using and_top [of 6 c] and_top [of 5 c] and_top [of 4 c] and_top [of 3 c]
  by (auto simp: mask_eq_exp_minus_1)

lemma and_bottom: "unat ((c :: byte) AND mask k) = unat c mod 2 ^ k"
  by (simp add: take_bit_eq_mask [symmetric] unat_take_bit_mod)

lemma unat_shift6:
  fixes v :: u32 and c :: byte
  assumes "unat v < 2 ^ 26"
  shows "unat (push_bit 6 v OR ucast (c AND BOTTOM_BITS 6)) = unat v * 64 + unat c mod 64"
proof -
  let ?x = "ucast (c AND BOTTOM_BITS 6) :: u32"
  have x: "unat ?x = unat c mod 64" by (simp add: unat_ucast_up bits_masks and_bottom)
  have "unat (?x OR push_bit 6 v) = unat ?x + (unat v * 2 ^ 6) mod 2 ^ LENGTH(32)"
    by (rule unat_or_push_bit) (simp add: x)
  then show ?thesis using assms x by (simp add: or.commute)
qed

lemma tail_mod: "utf8_tail k (n mod 64 ^ k) = utf8_tail k n"
proof -
  have "utf8_tail j (n mod 64 ^ k) = utf8_tail j n" if "j \<le> k" for j
    using that
  proof (induction j)
    case (Suc j)
    have "n mod 64 ^ k div 64 ^ j mod 64 = n div 64 ^ j mod 64"
    proof -
      have "n mod 64 ^ k = n mod (64 ^ j * 64 ^ (k - j))" using Suc.prems by (simp add: power_add [symmetric])
      then have "n mod 64 ^ k div 64 ^ j = n div 64 ^ j mod 64 ^ (k - j)" by (simp add: mod_mult2_eq)
      moreover have "(64 :: nat) dvd 64 ^ (k - j)" using Suc.prems by (simp add: dvd_power)
      ultimately show ?thesis by (simp add: mod_mod_cancel)
    qed
    with Suc show ?case by simp
  qed simp
  then show ?thesis by simp
qed

lemma tail_step: "(n :: nat) mod 64 ^ Suc k = n div 64 ^ k mod 64 * 64 ^ k + n mod 64 ^ k"
  using mod_mult2_eq [of n "64 ^ k" 64] by (simp add: mult.commute)

lemma cont_byte: "unat (of_nat (128 + n mod 64) :: byte) = 128 + n mod 64"
  by (simp add: unat_of_nat del: of_nat_add)

lemma factor_bound: "(a + 1) * 64 ^ k \<le> 2 ^ 26 \<Longrightarrow> a < (2 :: nat) ^ 26"
proof -
  assume le: "(a + 1) * 64 ^ k \<le> 2 ^ 26"
  have "(a + 1) * 1 \<le> (a + 1) * 64 ^ k" by (intro mult_le_mono2) simp
  also note le
  finally show ?thesis by simp
qed

lemma factor_step:
  assumes "(a + 1) * 64 ^ Suc k \<le> 2 ^ 26" "m < 64"
  shows "(a * 64 + m + 1) * 64 ^ k \<le> (2 :: nat) ^ 26"
proof -
  have "(a * 64 + m + 1) * 64 ^ k \<le> ((a + 1) * 64) * 64 ^ k" using assms(2) by (intro mult_le_mono1) simp
  also have "\<dots> = (a + 1) * 64 ^ Suc k" by (simp only: power_Suc mult.assoc)
  also note assms(1)
  finally show ?thesis .
qed

lemma cont_mod: "(128 + x mod 64) mod 64 = x mod (64 :: nat)"
proof -
  have "(2 * 64 + x mod 64) mod 64 = x mod 64 mod 64" by (rule mod_mult_self3)
  then show ?thesis by simp
qed

text \<open>The loop inverts the tail: forwards and, whatever it accepts, backwards.\<close>

lemma utf8_loop_tail:
  assumes "cbs_wf s" "cbs_bytes s = utf8_tail k n @ rest" "(unat v + 1) * 64 ^ k \<le> 2 ^ 26"
  shows "utf8_loop k v s = (Ok (of_nat (unat v * 64 ^ k + n mod 64 ^ k)), cbs_adv k s)"
  using assms
proof (induction k arbitrary: v s)
  case (Suc k)
  let ?m = "n div 64 ^ k mod 64" let ?b = "of_nat (128 + ?m) :: byte"
  have b: "unat ?b = 128 + ?m" by (rule cont_byte)
  have g: "CBS_get_u8 s = (Ok ?b, cbs_adv 1 s)"
    using Suc.prems(1,2) by (intro get_u8_Cons) simp_all
  have "unat ?b div 64 = 2" unfolding b by simp
  then have c: "?b AND TOP_BITS 2 = TOP_BITS 1" by (simp only: byte_class)
  note v1 = factor_bound [OF Suc.prems(3)]
  have mm: "unat ?b mod 64 = ?m" unfolding b by (rule cont_mod)
  let ?v = "push_bit 6 v OR ucast (?b AND BOTTOM_BITS 6)"
  have uv: "unat ?v = unat v * 64 + ?m" using unat_shift6 [of v ?b] v1 mm by simp
  have "utf8_loop (Suc k) v s = utf8_loop k ?v (cbs_adv 1 s)" by (simp only: utf8_loop.simps g seq_ok_simps c simp_thms if_False)
  also have "\<dots> = (Ok (of_nat (unat ?v * 64 ^ k + n mod 64 ^ k)), cbs_adv k (cbs_adv 1 s))"
  proof (rule Suc.IH)
    show "(unat ?v + 1) * 64 ^ k \<le> 2 ^ 26" unfolding uv by (rule factor_step [OF Suc.prems(3)]) simp
  qed (use Suc.prems(1,2) in simp_all)
  also have "unat ?v * 64 ^ k + n mod 64 ^ k = unat v * 64 ^ Suc k + n mod 64 ^ Suc k"
    unfolding uv tail_step by (simp add: algebra_simps)
  finally show ?case by simp
qed simp

lemma utf8_loop_Ok:
  assumes "cbs_wf s" "utf8_loop k v s = (Ok w, s')" "(unat v + 1) * 64 ^ k \<le> 2 ^ 26"
  shows "\<exists>n < 64 ^ k. unat w = unat v * 64 ^ k + n \<and> cbs_bytes s = utf8_tail k n @ cbs_bytes s' \<and> cbs_wf s'"
  using assms
proof (induction k arbitrary: v s)
  case 0
  then show ?case by auto
next
  case (Suc k)
  then obtain c s1 where c: "CBS_get_u8 s = (Ok c, s1)" "c AND TOP_BITS 2 = TOP_BITS 1"
      "utf8_loop k (push_bit 6 v OR ucast (c AND BOTTOM_BITS 6)) s1 = (Ok w, s')"
    by (auto simp: seq_ok_eq_Ok split: if_splits)
  note s1 = get_u8_Ok [OF Suc.prems(1) c(1)]
  have c2: "unat c div 64 = 2" using c(2) by (simp only: byte_class)
  then have cm: "128 + unat c mod 64 = unat c" using div_mult_mod_eq [of "unat c" 64] by simp
  note v1 = factor_bound [OF Suc.prems(3)]
  let ?v = "push_bit 6 v OR ucast (c AND BOTTOM_BITS 6)"
  have uv: "unat ?v = unat v * 64 + unat c mod 64" by (rule unat_shift6 [OF v1])
  have "(unat ?v + 1) * 64 ^ k \<le> 2 ^ 26" unfolding uv by (rule factor_step [OF Suc.prems(3)]) simp
  from Suc.IH [OF s1(2) c(3) this] obtain n where n: "n < 64 ^ k" "unat w = unat ?v * 64 ^ k + n"
      "cbs_bytes s1 = utf8_tail k n @ cbs_bytes s'" "cbs_wf s'" by blast
  let ?n = "unat c mod 64 * 64 ^ k + n"
  have m: "?n mod 64 ^ k = n" "?n div 64 ^ k = unat c mod 64" using n(1) by simp_all
  have "?n < (unat c mod 64 + 1) * 64 ^ k" using n(1) by simp
  also have "\<dots> \<le> 64 * 64 ^ k" by (intro mult_le_mono1) (simp add: Suc_leI)
  finally have lt: "?n < 64 ^ Suc k" by simp
  have "(of_nat (128 + unat c mod 64) :: byte) = c" unfolding cm by simp
  moreover have "utf8_tail k ?n = utf8_tail k n" using tail_mod [of k ?n] m(1) by simp
  ultimately have "utf8_tail (Suc k) ?n = c # utf8_tail k n" using m(2) by (simp del: of_nat_add)
  moreover have "unat w = unat v * 64 ^ Suc k + ?n" using n(2) unfolding uv by (simp add: algebra_simps)
  ultimately show ?case using lt n(3,4) s1(1) by (intro exI [of _ ?n]) simp
qed

section \<open>Reading UTF-8\<close>

lemma valid_bounds: "is_valid_code_point u \<Longrightarrow> unat u \<le> 0x10ffff"
  by (simp add: is_valid_code_point_def word_less_nat_alt)

text \<open>The part of the reader behind a lead byte that announces \<open>k\<close> more.\<close>

lemma utf8_rest:
  assumes "cbs_wf s" "cbs_bytes s = utf8_tail k (unat u) @ rest" "unat v = unat u div 64 ^ k"
    and "(unat v + 1) * 64 ^ k \<le> 2 ^ 26"
  shows "utf8_loop k v s = (Ok u, cbs_adv k s)"
proof -
  have "unat v * 64 ^ k + unat u mod 64 ^ k = unat u" unfolding assms(3) by (rule div_mult_mod_eq)
  with utf8_loop_tail [OF assms(1,2,4)] show ?thesis by simp
qed

lemma lead_byte:
  assumes "m < 2 ^ k" "t + m < 256" "t mod 2 ^ k = 0"
  shows "unat (of_nat (t + m) :: byte) = t + m" "unat (of_nat (t + m) :: byte) div 2 ^ k = t div 2 ^ k"
    "unat (of_nat (t + m) :: byte) mod 2 ^ k = m"
proof -
  show u: "unat (of_nat (t + m) :: byte) = t + m" using assms(2) by (simp add: unat_of_nat del: of_nat_add)
  obtain q where "t = 2 ^ k * q" using assms(3) by (auto simp: mod_eq_0_iff_dvd)
  then show "unat (of_nat (t + m) :: byte) div 2 ^ k = t div 2 ^ k" "unat (of_nat (t + m) :: byte) mod 2 ^ k = m"
    unfolding u using assms(1) by simp_all
qed

lemma get_utf8_put:
  assumes wf: "cbs_wf s" and valid: "is_valid_code_point u" and bs: "cbs_bytes s = utf8 (unat u) @ rest"
  shows "cbs_get_utf8 s = (Ok u, cbs_adv (length (utf8 (unat u))) s)"
proof -
  let ?n = "unat u"
  note n = valid_bounds [OF valid]
  consider (one) "?n < 0x80" | (two) "0x80 \<le> ?n" "?n < 0x800" | (three) "0x800 \<le> ?n" "?n < 0x10000" | (four) "0x10000 \<le> ?n"
    by linarith
  then show ?thesis
  proof cases
    case one
    then have e: "utf8 ?n = [of_nat ?n]" by (simp add: utf8_def)
    have b: "unat (of_nat ?n :: byte) = ?n" by (subst unat_of_nat) (use one in simp)
    have "(ucast (of_nat ?n :: byte) :: u32) = u" using b by (simp add: word_unat_eq_iff unat_ucast_up)
    moreover have "(of_nat ?n :: byte) \<le> 0x7f" using b one by (simp add: word_le_nat_alt)
    ultimately show ?thesis using get_u8_Cons [OF wf, of "of_nat ?n" rest] bs e by (simp add: cbs_get_utf8_def)
  next
    case two
    let ?b = "of_nat (192 + ?n div 64) :: byte"
    have d: "?n div 64 < 32" using two by (simp add: less_mult_imp_div_less)
    then have b: "unat ?b = 192 + ?n div 64" "unat ?b div 32 = 6" "unat ?b mod 32 = ?n div 64"
      using lead_byte [of "?n div 64" 5 192] by simp_all
    have e: "utf8 ?n = ?b # utf8_tail 1 ?n" using two by (simp add: utf8_def del: of_nat_add)
    have g: "CBS_get_u8 s = (Ok ?b, cbs_adv 1 s)" using bs e by (intro get_u8_Cons [OF wf]) (simp del: of_nat_add)
    have v: "unat (ucast (?b AND BOTTOM_BITS 5) :: u32) = ?n div 64 ^ 1"
      using b(3) by (simp add: bits_masks and_bottom unat_ucast_up)
    have "utf8_loop 1 (ucast (?b AND BOTTOM_BITS 5)) (cbs_adv 1 s) = (Ok u, cbs_adv 1 (cbs_adv 1 s))"
      by (rule utf8_rest [where rest = rest]) (use wf bs e v d in \<open>simp_all del: of_nat_add utf8_tail.simps\<close>)
    moreover have "\<not> ?b \<le> 0x7f" "?b AND TOP_BITS 3 = TOP_BITS 2" "\<not> u < 0x80"
      using b two by (simp_all only: byte_class word_le_nat_alt word_less_nat_alt) simp_all
    ultimately show ?thesis using g valid e by (simp add: cbs_get_utf8_def Let_def del: of_nat_add utf8_loop.simps)
  next
    case three
    let ?b = "of_nat (224 + ?n div 64 ^ 2) :: byte"
    have d: "?n div 64 ^ 2 < 16" using three by (simp add: less_mult_imp_div_less)
    then have b: "unat ?b = 224 + ?n div 64 ^ 2" "unat ?b div 16 = 14" "unat ?b div 32 = 7" "unat ?b mod 16 = ?n div 64 ^ 2"
      using lead_byte [of "?n div 64 ^ 2" 4 224] lead_byte [of "?n div 64 ^ 2" 5 224] by simp_all
    have e: "utf8 ?n = ?b # utf8_tail 2 ?n" using three by (simp add: utf8_def del: of_nat_add)
    have g: "CBS_get_u8 s = (Ok ?b, cbs_adv 1 s)" using bs e by (intro get_u8_Cons [OF wf]) (simp del: of_nat_add)
    have v: "unat (ucast (?b AND BOTTOM_BITS 4) :: u32) = ?n div 64 ^ 2"
      using b(4) by (simp add: bits_masks and_bottom unat_ucast_up)
    have "utf8_loop 2 (ucast (?b AND BOTTOM_BITS 4)) (cbs_adv 1 s) = (Ok u, cbs_adv 2 (cbs_adv 1 s))"
      by (rule utf8_rest [where rest = rest]) (use wf bs e v d in \<open>simp_all del: of_nat_add utf8_tail.simps\<close>)
    moreover have "\<not> ?b \<le> 0x7f" "?b AND TOP_BITS 3 \<noteq> TOP_BITS 2" "?b AND TOP_BITS 4 = TOP_BITS 3" "\<not> u < 0x800"
      using b three by (simp_all only: byte_class word_le_nat_alt word_less_nat_alt) simp_all
    ultimately show ?thesis using g valid e
      by (simp add: cbs_get_utf8_def Let_def numeral_2_eq_2 del: of_nat_add utf8_loop.simps)
  next
    case four
    let ?b = "of_nat (240 + ?n div 64 ^ 3) :: byte"
    have d: "?n div 64 ^ 3 < 8" using n by (simp add: less_mult_imp_div_less)
    then have b0: "unat ?b = 240 + ?n div 64 ^ 3" "unat ?b mod 8 = ?n div 64 ^ 3"
      using lead_byte [of "?n div 64 ^ 3" 3 240] by simp_all
    have b: "unat ?b = 240 + ?n div 64 ^ 3" "unat ?b div 8 = 30" "unat ?b div 16 = 15" "unat ?b div 32 = 7"
        "unat ?b mod 8 = ?n div 64 ^ 3"
      using b0 d by (auto intro!: div_nat_eqI simp del: of_nat_add)
    have e: "utf8 ?n = ?b # utf8_tail 3 ?n" using four by (simp add: utf8_def del: of_nat_add)
    have g: "CBS_get_u8 s = (Ok ?b, cbs_adv 1 s)" using bs e by (intro get_u8_Cons [OF wf]) (simp del: of_nat_add)
    have v: "unat (ucast (?b AND BOTTOM_BITS 3) :: u32) = ?n div 64 ^ 3"
      using b(5) by (simp add: bits_masks and_bottom unat_ucast_up)
    have "utf8_loop 3 (ucast (?b AND BOTTOM_BITS 3)) (cbs_adv 1 s) = (Ok u, cbs_adv 3 (cbs_adv 1 s))"
      by (rule utf8_rest [where rest = rest]) (use wf bs e v d in \<open>simp_all del: of_nat_add utf8_tail.simps\<close>)
    moreover have "\<not> ?b \<le> 0x7f" "?b AND TOP_BITS 3 \<noteq> TOP_BITS 2" "?b AND TOP_BITS 4 \<noteq> TOP_BITS 3"
        "?b AND TOP_BITS 5 = TOP_BITS 4" "\<not> u < 0x10000"
      using b four by (simp_all only: byte_class word_le_nat_alt word_less_nat_alt) simp_all
    ultimately show ?thesis using g valid e
      by (simp add: cbs_get_utf8_def Let_def numeral_3_eq_3 del: of_nat_add utf8_loop.simps)
  qed
qed

lemma low_bits:
  fixes c :: byte
  assumes "unat c div 2 ^ k = q" "k \<le> 8"
  shows "unat (ucast (c AND mask k) :: u32) = unat c mod 2 ^ k" "of_nat (q * 2 ^ k + unat c mod 2 ^ k) = c"
proof -
  show "unat (ucast (c AND mask k) :: u32) = unat c mod 2 ^ k" by (simp add: unat_ucast_up and_bottom)
  have "q * 2 ^ k + unat c mod 2 ^ k = unat c" using assms(1) div_mult_mod_eq [of "unat c" "2 ^ k"] by simp
  then show "of_nat (q * 2 ^ k + unat c mod 2 ^ k) = c" by simp
qed

text \<open>What the reader accepts behind a lead byte.\<close>

lemma utf8_rest_sound:
  assumes "cbs_wf s" "utf8_loop k v s = (Ok u, s')" "(unat v + 1) * 64 ^ k \<le> 2 ^ 26"
  shows "cbs_bytes s = utf8_tail k (unat u) @ cbs_bytes s'" "unat u div 64 ^ k = unat v"
proof -
  obtain n where n: "n < 64 ^ k" "unat u = unat v * 64 ^ k + n" "cbs_bytes s = utf8_tail k n @ cbs_bytes s'"
    using utf8_loop_Ok [OF assms] by blast
  have "utf8_tail k (unat u) = utf8_tail k n" using tail_mod [of k "unat u"] n(1,2) by simp
  with n(3) show "cbs_bytes s = utf8_tail k (unat u) @ cbs_bytes s'" by simp
  show "unat u div 64 ^ k = unat v" using n(1,2) by simp
qed

lemma get_utf8_sound:
  assumes wf: "cbs_wf s" and get: "cbs_get_utf8 s = (Ok u, s')"
  shows "is_valid_code_point u \<and> cbs_bytes s = utf8 (unat u) @ cbs_bytes s'"
proof -
  obtain c s1 where c: "CBS_get_u8 s = (Ok c, s1)" using get by (auto simp: cbs_get_utf8_def seq_ok_eq_Ok)
  note s1 = get_u8_Ok [OF wf c]
  let ?R = "\<lambda>k j lo. seq_ok (utf8_loop k (ucast (c AND mask j)) s1) (\<lambda>v s1.
      if \<not> is_valid_code_point v \<or> v < lo then (Fail, s1) else (Ok v, s1))"
  have eq: "cbs_get_utf8 s = (if c \<le> 0x7f then (Ok (ucast c), s1) else if unat c div 32 = 6 then ?R 1 5 0x80
      else if unat c div 16 = 14 then ?R 2 4 0x800 else if unat c div 8 = 30 then ?R 3 3 0x10000 else (Fail, s1))"
    unfolding cbs_get_utf8_def c seq_ok_simps Let_def byte_class bits_masks(2-4) ..
  have tail: "is_valid_code_point u \<and> unat lo \<le> unat u \<and> cbs_bytes s1 = utf8_tail k (unat u) @ cbs_bytes s' \<and>
      of_nat (q * 2 ^ j + unat u div 64 ^ k) = c \<and> unat u < 2 ^ j * 64 ^ k"
    if "?R k j lo = (Ok u, s')" "unat c div 2 ^ j = q" "j \<le> 8" "2 ^ j * 64 ^ k \<le> (2 :: nat) ^ 26" for k j q lo
  proof -
    have l: "utf8_loop k (ucast (c AND mask j)) s1 = (Ok u, s')" "is_valid_code_point u" "\<not> u < lo"
      using that(1) by (auto simp: seq_ok_eq_Ok split: if_splits)
    note b = low_bits [OF that(2,3)]
    have lt: "unat c mod 2 ^ j < 2 ^ j" by simp
    then have "(unat (ucast (c AND mask j) :: u32) + 1) * 64 ^ k \<le> 2 ^ j * 64 ^ k"
      unfolding b(1) by (intro mult_le_mono1) (simp add: Suc_leI)
    then have "(unat (ucast (c AND mask j) :: u32) + 1) * 64 ^ k \<le> 2 ^ 26" using that(4) by (rule le_trans)
    note r = utf8_rest_sound [OF s1(2) l(1) this]
    have "unat u < 2 ^ j * 64 ^ k" using r(2) lt unfolding b(1) by (metis dividend_less_times_div div_less_iff_less_mult zero_less_numeral zero_less_power)
    then show ?thesis using l(2,3) b r by (simp add: word_less_nat_alt not_less)
  qed
  consider (ascii) "c \<le> 0x7f"
    | (two) "\<not> c \<le> 0x7f" "unat c div 32 = 6"
    | (three) "\<not> c \<le> 0x7f" "unat c div 32 \<noteq> 6" "unat c div 16 = 14"
    | (four) "\<not> c \<le> 0x7f" "unat c div 32 \<noteq> 6" "unat c div 16 \<noteq> 14" "unat c div 8 = 30"
    | (bad) "\<not> c \<le> 0x7f" "unat c div 32 \<noteq> 6" "unat c div 16 \<noteq> 14" "unat c div 8 \<noteq> 30" by blast
  then show ?thesis
  proof cases
    case ascii
    then have u: "u = ucast c" "s' = s1" using get c by (simp_all add: cbs_get_utf8_def)
    have lt: "unat u < 0x80" using ascii u by (simp add: unat_ucast_up word_le_nat_alt)
    have "(0xfffe :: u32) = push_bit 1 (mask 15)" by (simp add: mask_eq_exp_minus_1)
    then have "unat (u AND 0xfffe) = unat u div 2 ^ 1 mod 2 ^ 15 * 2 ^ 1" using unat_and_field [of 1 15 u] by simp
    then have "u AND 0xfffe \<noteq> 0xfffe" using lt by (auto dest!: arg_cong [of _ _ unat])
    then have "is_valid_code_point u" using lt by (auto simp: is_valid_code_point_def word_le_nat_alt word_less_nat_alt)
    moreover have "utf8 (unat u) = [c]" using lt u by (simp add: utf8_def unat_ucast_up)
    ultimately show ?thesis using s1(1) u(2) by simp
  next
    case two
    then have "?R 1 5 0x80 = (Ok u, s')" using get unfolding eq by simp
    from tail [OF this, of 6] two have t: "is_valid_code_point u" "0x80 \<le> unat u" "unat u < 2 ^ 5 * 64 ^ 1"
      "cbs_bytes s1 = utf8_tail 1 (unat u) @ cbs_bytes s'" "of_nat (192 + unat u div 64 ^ 1) = c" by (simp_all del: utf8_tail.simps)
    then have "utf8 (unat u) = c # utf8_tail 1 (unat u)" by (simp add: utf8_def del: of_nat_add utf8_tail.simps)
    then show ?thesis using t(1,4) s1(1) by simp
  next
    case three
    then have "?R 2 4 0x800 = (Ok u, s')" using get unfolding eq by simp
    from tail [OF this, of 14] three have t: "is_valid_code_point u" "0x800 \<le> unat u" "unat u < 2 ^ 4 * 64 ^ 2"
      "cbs_bytes s1 = utf8_tail 2 (unat u) @ cbs_bytes s'" "of_nat (224 + unat u div 64 ^ 2) = c" by (simp_all del: utf8_tail.simps)
    then have "utf8 (unat u) = c # utf8_tail 2 (unat u)" by (simp add: utf8_def del: of_nat_add utf8_tail.simps)
    then show ?thesis using t(1,4) s1(1) by simp
  next
    case four
    then have "?R 3 3 0x10000 = (Ok u, s')" using get unfolding eq by simp
    from tail [OF this, of 30] four have t: "is_valid_code_point u" "0x10000 \<le> unat u" "unat u < 2 ^ 3 * 64 ^ 3"
      "cbs_bytes s1 = utf8_tail 3 (unat u) @ cbs_bytes s'" "of_nat (240 + unat u div 64 ^ 3) = c" by (simp_all del: utf8_tail.simps)
    then have "utf8 (unat u) = c # utf8_tail 3 (unat u)" by (simp add: utf8_def del: of_nat_add utf8_tail.simps)
    then show ?thesis using t(1,4) s1(1) by simp
  next
    case bad
    then show ?thesis using get unfolding eq by simp
  qed
qed

section \<open>Writing UTF-8\<close>

lemma or_byte:
  fixes w a :: u32
  assumes "unat w < 2 ^ m" "unat a * 2 ^ m + unat w < 256"
  shows "(ucast (push_bit m a OR w) :: byte) = of_nat (unat a * 2 ^ m + unat w)"
proof -
  have "unat (w OR push_bit m a) = unat w + (unat a * 2 ^ m) mod 2 ^ LENGTH(32)"
    by (rule unat_or_push_bit [OF assms(1)])
  also have "\<dots> = unat a * 2 ^ m + unat w" using assms(2) by simp
  finally show ?thesis using assms(2)
    by (simp add: word_unat_eq_iff unat_ucast_down unat_of_nat or.commute del: of_nat_add of_nat_mult)
qed

lemma utf8_bytes:
  fixes u :: u32
  shows "ucast (ucast (TOP_BITS 1) OR (drop_bit k u AND ucast (BOTTOM_BITS 6))) = (of_nat (128 + unat u div 2 ^ k mod 64) :: byte)"
    "unat u div 2 ^ k < 32 \<Longrightarrow> ucast (ucast (TOP_BITS 2) OR drop_bit k u) = (of_nat (192 + unat u div 2 ^ k) :: byte)"
    "unat u div 2 ^ k < 16 \<Longrightarrow> ucast (ucast (TOP_BITS 3) OR drop_bit k u) = (of_nat (224 + unat u div 2 ^ k) :: byte)"
    "unat u div 2 ^ k < 8 \<Longrightarrow> ucast (ucast (TOP_BITS 4) OR drop_bit k u) = (of_nat (240 + unat u div 2 ^ k) :: byte)"
proof -
  have t: "(ucast (TOP_BITS 1) :: u32) = push_bit 7 1" "(ucast (TOP_BITS 2) :: u32) = push_bit 6 3"
      "(ucast (TOP_BITS 3) :: u32) = push_bit 5 7" "(ucast (TOP_BITS 4) :: u32) = push_bit 4 15"
      "(ucast (BOTTOM_BITS 6) :: u32) = mask 6"
    by (simp_all add: TOP_BITS_def BOTTOM_BITS_def mask_eq_exp_minus_1)
  have d: "unat (drop_bit k u) = unat u div 2 ^ k" by (rule unat_drop_bit_div)
  have c: "unat (drop_bit k u AND mask 6) = unat u div 2 ^ k mod 64"
    by (simp add: take_bit_eq_mask [symmetric] unat_take_bit_mod d)
  show "ucast (ucast (TOP_BITS 1) OR (drop_bit k u AND ucast (BOTTOM_BITS 6))) = (of_nat (128 + unat u div 2 ^ k mod 64) :: byte)"
    using or_byte [of "drop_bit k u AND mask 6" 7 1] c unfolding t by (simp add: trans_less_add2 less_trans [of _ 64])
  show "unat u div 2 ^ k < 32 \<Longrightarrow> ucast (ucast (TOP_BITS 2) OR drop_bit k u) = (of_nat (192 + unat u div 2 ^ k) :: byte)"
    using or_byte [of "drop_bit k u" 6 3] d unfolding t by simp
  show "unat u div 2 ^ k < 16 \<Longrightarrow> ucast (ucast (TOP_BITS 3) OR drop_bit k u) = (of_nat (224 + unat u div 2 ^ k) :: byte)"
    using or_byte [of "drop_bit k u" 5 7] d unfolding t by simp
  show "unat u div 2 ^ k < 8 \<Longrightarrow> ucast (ucast (TOP_BITS 4) OR drop_bit k u) = (of_nat (240 + unat u div 2 ^ k) :: byte)"
    using or_byte [of "drop_bit k u" 4 15] d unfolding t by simp
qed

text \<open>Bytes written one by one.\<close>

lemma int64_bytes_then: "int64_bytes [b] d st = CBB_add_u8 b d st"
  "int64_bytes (b # c # bs) d st = seq_ok (CBB_add_u8 b d st) (\<lambda>_ st1. int64_bytes (c # bs) d st1)"
  by (cases "CBB_add_u8 b d st"; cases "fst (CBB_add_u8 b d st)"; simp)+

lemma add_utf8_bytes:
  assumes "is_valid_code_point u"
  shows "cbb_add_utf8 u d st = int64_bytes (utf8 (unat u)) d st"
proof -
  let ?n = "unat u"
  note n = valid_bounds [OF assms]
  note le = word_le_nat_alt
  have tails: "utf8_tail 2 ?n = [of_nat (128 + ?n div 64 mod 64), of_nat (128 + ?n mod 64)]"
      "utf8_tail 3 ?n = [of_nat (128 + ?n div 4096 mod 64), of_nat (128 + ?n div 64 mod 64), of_nat (128 + ?n mod 64)]"
    by (simp_all add: numeral_2_eq_2 numeral_3_eq_3)
  have last: "ucast (ucast (TOP_BITS 1) OR (u AND ucast (BOTTOM_BITS 6))) = (of_nat (128 + ?n mod 64) :: byte)"
    using utf8_bytes(1) [of 0 u] by simp
  consider (one) "?n < 0x80" | (two) "0x80 \<le> ?n" "?n < 0x800" | (three) "0x800 \<le> ?n" "?n < 0x10000" | (four) "0x10000 \<le> ?n"
    by linarith
  then show ?thesis
  proof cases
    case one
    have "(of_nat ?n :: byte) = ucast u" by simp
    then show ?thesis using assms one by (simp add: cbb_add_utf8_def utf8_def le int64_bytes_then del: int64_bytes.simps)
  next
    case two
    have "?n div 2 ^ 6 < 32" using two by (simp add: less_mult_imp_div_less)
    then show ?thesis using assms two
      by (simp add: cbb_add_utf8_def utf8_def le int64_bytes_then utf8_bytes(2-) utf8_bytes(1) [unfolded One_nat_def] last [unfolded One_nat_def] Let_def del: int64_bytes.simps of_nat_add)
  next
    case three
    have "?n div 2 ^ 12 < 16" using three by (simp add: less_mult_imp_div_less)
    then show ?thesis using assms three
      by (simp add: cbb_add_utf8_def utf8_def le int64_bytes_then utf8_bytes(2-) utf8_bytes(1) [unfolded One_nat_def] last [unfolded One_nat_def] Let_def tails del: int64_bytes.simps of_nat_add)
  next
    case four
    have "?n div 2 ^ 18 < 8" using n by (simp add: less_mult_imp_div_less)
    then show ?thesis using assms four n
      by (simp add: cbb_add_utf8_def utf8_def le int64_bytes_then utf8_bytes(2-) utf8_bytes(1) [unfolded One_nat_def] last [unfolded One_nat_def] Let_def tails del: int64_bytes.simps of_nat_add)
  qed
qed

interpretation vutf8: der_value cbb_add_utf8 cbs_get_utf8 "\<lambda>u. utf8 (unat u)" is_valid_code_point
proof (unfold_locales, goal_cases)
  case (1 u d st) then show ?case using int64_bytes_writes by (simp add: add_utf8_bytes)
next
  case (2 s u rest) then show ?case by (intro get_utf8_put)
next
  case (3 u) then show ?case by (simp add: utf8_def)
qed

interpretation vlatin1: der_value cbb_add_latin1 cbs_get_latin1 "\<lambda>u. [ucast u]" "\<lambda>u. u \<le> 0xff"
proof (unfold_locales, goal_cases)
  case (1 u d st)
  then show ?case using wu8.op_extends [OF TrueI] by (simp add: cbb_add_latin1_def)
next
  case (2 s u rest)
  have "(ucast (ucast u :: byte) :: u32) = u"
    using 2(2) by (simp add: word_unat_eq_iff unat_ucast_up unat_ucast_down word_le_nat_alt)
  then show ?case using get_u8_Cons [OF 2(1), of "ucast u" rest] 2(3) by (simp add: cbs_get_latin1_def)
qed simp

lemma ucs2_small: "u \<le> 0xffff \<Longrightarrow> unat (ucast (u :: u32) :: u16) = unat u"
  by (simp add: unat_ucast_down word_le_nat_alt)

interpretation vucs2: der_value cbb_add_ucs2_be cbs_get_ucs2_be "\<lambda>u. be_bytes 2 (unat u)" "\<lambda>u. u \<le> 0xffff \<and> is_valid_code_point u"
proof (unfold_locales, goal_cases)
  case (1 u d st)
  then show ?case using wu16.op_extends [OF TrueI, of d st "ucast u"] by (simp add: cbb_add_ucs2_be_def ucs2_small)
next
  case (2 s u rest)
  have "(ucast (ucast u :: u16) :: u32) = u" using 2(2) by (simp add: word_unat_eq_iff unat_ucast_up ucs2_small)
  then show ?case using u16.get_put [OF 2(1) TrueI, of "ucast u" rest] 2(2,3) by (simp add: cbs_get_ucs2_be_def ucs2_small)
qed simp

interpretation vutf32: der_value cbb_add_utf32_be cbs_get_utf32_be "\<lambda>u. be_bytes 4 (unat u)" is_valid_code_point
proof (unfold_locales, goal_cases)
  case (1 u d st)
  then show ?case using wu32.op_extends [OF TrueI, of d st u] by (simp add: cbb_add_utf32_be_def)
next
  case (2 s u rest)
  then show ?case using u32.get_put [OF 2(1) TrueI, of u rest] by (simp add: cbs_get_utf32_be_def)
qed simp

text \<open>C17: \<^verbatim>\<open>cbs_get_utf8\<close> accepts exactly the UTF-8 encodings of valid code points: it returns \<open>u\<close> and leaves \<open>rest\<close> if
  and only if \<open>u\<close> is valid and the bytes are its one shortest encoding followed by \<open>rest\<close>. Over-long forms,
  surrogates, non-characters, values beyond \<open>0x10ffff\<close> and truncated sequences are refused.\<close>

theorem utf8_reader_exact:
  assumes "cbs_wf s"
  shows "(\<exists>s'. cbs_get_utf8 s = (Ok u, s') \<and> cbs_bytes s' = rest) \<longleftrightarrow>
    is_valid_code_point u \<and> cbs_bytes s = utf8 (unat u) @ rest"
proof
  assume "\<exists>s'. cbs_get_utf8 s = (Ok u, s') \<and> cbs_bytes s' = rest"
  then show "is_valid_code_point u \<and> cbs_bytes s = utf8 (unat u) @ rest" using get_utf8_sound [OF assms] by blast
next
  assume "is_valid_code_point u \<and> cbs_bytes s = utf8 (unat u) @ rest"
  then show "\<exists>s'. cbs_get_utf8 s = (Ok u, s') \<and> cbs_bytes s' = rest" using get_utf8_put [OF assms] by force
qed

theorem utf8_reader_exact_witness:
  "(\<exists>s'. cbs_get_utf8 (CBS_init [0xc3, 0xa9, 0x21] 3) = (Ok 0xe9, s') \<and> cbs_bytes s' = [0x21]) \<and>
   \<not> (\<exists>s'. cbs_get_utf8 (CBS_init [0xc1, 0xa1] 2) = (Ok 0x61, s') \<and> cbs_bytes s' = [])"
  using utf8_reader_exact [of "CBS_init [0xc3, 0xa9, 0x21] 3" "0xe9" "[0x21]"]
    utf8_reader_exact [of "CBS_init [0xc1, 0xa1] 2" "0x61" "[]"]
  by (simp add: utf8_def is_valid_code_point_def)

text \<open>A valid code point written with \<^verbatim>\<open>cbb_add_utf8\<close> adds its UTF-8 encoding, of the length \<^verbatim>\<open>cbb_get_utf8_len\<close> announces.\<close>

lemma add_utf8_ok:
  assumes "is_valid_code_point u" "cbb_ready d st" "cbb_room 4 st"
  shows "\<exists>st'. cbb_add_utf8 u d st = (Ok (), st') \<and> cbb_out st' = cbb_out st @ utf8 (unat u) \<and> length (utf8 (unat u)) = cbb_get_utf8_len u"
proof -
  have len: "length (utf8 (unat u)) = cbb_get_utf8_len u"
    by (auto simp: utf8_def cbb_get_utf8_len_def word_le_nat_alt length_utf8_tail simp del: utf8_tail.simps)
  moreover have "cbb_get_utf8_len u \<le> 4" by (simp add: cbb_get_utf8_len_def)
  ultimately have "cbb_room (length (utf8 (unat u))) st" using cbb_room_mono [OF assms(3)] by simp
  from vutf8.writer.op_extends [OF assms(1,2) this] len show ?thesis by (auto simp: extends_def)
qed

end
