(* ===== verification/Const_Time.thy ===== *)
theory Const_Time
  imports C_Prelude
begin

text \<open>
  The constant-time primitives of BoringSSL (\<^verbatim>\<open>crypto/internal.h\<close>): comparisons that return a mask of
  all ones or all zeros, and selection by a mask, without a branch. \<^verbatim>\<open>crypto_word_t\<close> is 64 bits wide; an
  \<^verbatim>\<open>int\<close> is 32 bits wide and sign-extended when it is converted to it.
\<close>

definition value_barrier_w :: "u64 \<Rightarrow> u64" where "value_barrier_w a = a"

definition constant_time_msb_w :: "u64 \<Rightarrow> u64" where "constant_time_msb_w a = 0 - drop_bit 63 a"

definition constant_time_lt_w :: "u64 \<Rightarrow> u64 \<Rightarrow> u64" where
  "constant_time_lt_w a b = constant_time_msb_w (a XOR ((a XOR b) OR ((a - b) XOR a)))"

definition constant_time_lt_8 :: "u64 \<Rightarrow> u64 \<Rightarrow> byte" where "constant_time_lt_8 a b = ucast (constant_time_lt_w a b)"

definition constant_time_ge_w :: "u64 \<Rightarrow> u64 \<Rightarrow> u64" where "constant_time_ge_w a b = NOT (constant_time_lt_w a b)"

definition constant_time_ge_8 :: "u64 \<Rightarrow> u64 \<Rightarrow> byte" where "constant_time_ge_8 a b = ucast (constant_time_ge_w a b)"

definition constant_time_is_zero_w :: "u64 \<Rightarrow> u64" where
  "constant_time_is_zero_w a = constant_time_msb_w (NOT a AND (a - 1))"

definition constant_time_is_zero_8 :: "u64 \<Rightarrow> byte" where
  "constant_time_is_zero_8 a = ucast (constant_time_is_zero_w a)"

definition constant_time_eq_w :: "u64 \<Rightarrow> u64 \<Rightarrow> u64" where
  "constant_time_eq_w a b = constant_time_is_zero_w (a XOR b)"

definition constant_time_eq_8 :: "u64 \<Rightarrow> u64 \<Rightarrow> byte" where "constant_time_eq_8 a b = ucast (constant_time_eq_w a b)"

definition constant_time_eq_int :: "u32 \<Rightarrow> u32 \<Rightarrow> u64" where
  "constant_time_eq_int a b = constant_time_eq_w (scast a) (scast b)"

definition constant_time_eq_int_8 :: "u32 \<Rightarrow> u32 \<Rightarrow> byte" where
  "constant_time_eq_int_8 a b = constant_time_eq_8 (scast a) (scast b)"

definition constant_time_select_w :: "u64 \<Rightarrow> u64 \<Rightarrow> u64 \<Rightarrow> u64" where
  "constant_time_select_w m a b = (value_barrier_w m AND a) OR (value_barrier_w (NOT m) AND b)"

definition constant_time_select_8 :: "byte \<Rightarrow> byte \<Rightarrow> byte \<Rightarrow> byte" where
  "constant_time_select_8 m a b = ucast (constant_time_select_w (ucast m) (ucast a) (ucast b))"

definition constant_time_select_int :: "u64 \<Rightarrow> u32 \<Rightarrow> u32 \<Rightarrow> u32" where
  "constant_time_select_int m a b = ucast (constant_time_select_w m (scast a) (scast b))"

section \<open>What they compute\<close>

text \<open>A mask of all ones or of all zeros.\<close>

definition all_ones :: "bool \<Rightarrow> 'a::len word" where "all_ones p = (if p then -1 else 0)"

lemma msb_mask: "constant_time_msb_w a = all_ones (bit a 63)"
proof -
  have "unat (drop_bit 63 a) = unat a div 2 ^ 63" by (rule unat_drop_bit_div)
  moreover have "unat a div 2 ^ 63 < 2" using unat_u64_less [of a] by (simp add: div_less_iff_less_mult)
  moreover have "bit a 63 \<longleftrightarrow> 2 ^ 63 \<le> unat a" by (rule bit_top_iff) simp
  ultimately have "unat (drop_bit 63 a) = (if bit a 63 then 1 else 0)"
    using div_greater_zero_iff [of "unat a" "2 ^ 63"] by (auto simp: less_2_cases_iff)
  then have "drop_bit 63 a = (if bit a 63 then 1 else 0)"
    by (auto simp: word_unat_eq_iff split: if_splits)
  then show ?thesis by (simp add: constant_time_msb_w_def all_ones_def)
qed

lemma bit_minus_63:
  assumes "bit a 63 \<longleftrightarrow> bit b 63"
  shows "bit ((a :: u64) - b) 63 \<longleftrightarrow> a < b"
proof -
  have top: "bit x 63 \<longleftrightarrow> 2 ^ 63 \<le> unat x" for x :: u64 by (rule bit_top_iff) simp
  have "unat (a - b) = (if b \<le> a then unat a - unat b else unat a + 2 ^ 64 - unat b)"
    by (simp add: unat_sub_if' word_le_nat_alt)
  then show ?thesis using assms unat_u64_less [of a] unat_u64_less [of b]
    by (auto simp: top word_less_nat_alt word_le_nat_alt split: if_splits)
qed

lemma lt_w_mask: "constant_time_lt_w a b = all_ones (a < b)"
proof -
  have top: "bit x 63 \<longleftrightarrow> 2 ^ 63 \<le> unat x" for x :: u64 by (rule bit_top_iff) simp
  have "bit (a XOR ((a XOR b) OR ((a - b) XOR a))) 63 \<longleftrightarrow> a < b"
  proof (cases "bit a 63 \<longleftrightarrow> bit b 63")
    case True
    then show ?thesis using bit_minus_63 [OF True] by (auto simp: bit_simps)
  next
    case False
    then have "bit (a XOR ((a XOR b) OR ((a - b) XOR a))) 63 \<longleftrightarrow> bit b 63" by (auto simp: bit_simps)
    also have "\<dots> \<longleftrightarrow> a < b" using False by (auto simp: top word_less_nat_alt)
    finally show ?thesis .
  qed
  then show ?thesis by (simp add: constant_time_lt_w_def msb_mask)
qed

lemma is_zero_w_mask: "constant_time_is_zero_w a = all_ones (a = 0)"
proof -
  have top: "bit x 63 \<longleftrightarrow> 2 ^ 63 \<le> unat x" for x :: u64 by (rule bit_top_iff) simp
  have "bit (NOT a AND (a - 1)) 63 \<longleftrightarrow> a = 0"
  proof (cases "a = 0")
    case False
    then have "unat (a - 1) = unat a - 1" by (simp add: unat_minus_one)
    then have "\<not> (\<not> bit a 63 \<and> bit (a - 1) 63)" by (auto simp: top)
    then show ?thesis using False by (simp add: bit_simps)
  qed (simp add: bit_simps)
  then show ?thesis by (simp add: constant_time_is_zero_w_def msb_mask)
qed

lemma eq_w_mask: "constant_time_eq_w a b = all_ones (a = b)"
proof -
  have "a XOR b = 0 \<longleftrightarrow> a = b" by (auto simp: bit_eq_iff bit_simps)
  then show ?thesis by (simp add: constant_time_eq_w_def is_zero_w_mask)
qed

lemma ucast_all_ones [simp]: "LENGTH('b) \<le> LENGTH('a) \<Longrightarrow> ucast (all_ones p :: 'a::len word) = (all_ones p :: 'b::len word)"
  by (auto simp: all_ones_def bit_eq_iff bit_simps)

lemma not_all_ones [simp]: "NOT (all_ones p) = all_ones (\<not> p)"
  by (simp add: all_ones_def)

lemma and_all_ones [simp]: "all_ones p AND a = (if p then a else 0)"
  by (simp add: all_ones_def)

lemma select_w_mask: "constant_time_select_w (all_ones p) a b = (if p then a else b)"
  by (simp add: constant_time_select_w_def value_barrier_w_def)

lemma select_8_mask: "constant_time_select_8 (all_ones p) a b = (if p then a else b)"
  by (auto simp: constant_time_select_8_def constant_time_select_w_def value_barrier_w_def all_ones_def bit_eq_iff bit_simps)

lemma select_int_mask: "constant_time_select_int (all_ones p) a b = (if p then a else b)"
  by (auto simp: constant_time_select_int_def select_w_mask bit_eq_iff bit_simps)

lemma scast_int_inject: "(scast (a :: u32) :: u64) = scast b \<longleftrightarrow> a = b"
proof
  assume "(scast a :: u64) = scast b"
  then have "(ucast (scast a :: u64) :: u32) = ucast (scast b :: u64)" by simp
  moreover have "(ucast (scast x :: u64) :: u32) = x" for x :: u32 by (auto simp: bit_eq_iff bit_simps)
  ultimately show "a = b" by simp
qed simp

lemmas const_time_masks = lt_w_mask is_zero_w_mask eq_w_mask select_w_mask select_8_mask select_int_mask
  constant_time_lt_8_def constant_time_ge_w_def constant_time_ge_8_def constant_time_is_zero_8_def
  constant_time_eq_8_def constant_time_eq_int_def constant_time_eq_int_8_def scast_int_inject

text \<open>C23: The branch-free comparisons return the mask of all ones exactly when the comparison holds, at every width, and
  the selections by such a mask return their first or second argument accordingly, for all values.\<close>

theorem const_time_exact:
  "constant_time_lt_w a b = all_ones (a < b) \<and> constant_time_lt_8 a b = all_ones (a < b) \<and>
   constant_time_ge_w a b = all_ones (b \<le> a) \<and> constant_time_ge_8 a b = all_ones (b \<le> a) \<and>
   constant_time_is_zero_w a = all_ones (a = 0) \<and> constant_time_is_zero_8 a = all_ones (a = 0) \<and>
   constant_time_eq_w a b = all_ones (a = b) \<and> constant_time_eq_8 a b = all_ones (a = b) \<and>
   constant_time_eq_int i j = all_ones (i = j) \<and> constant_time_eq_int_8 i j = all_ones (i = j) \<and>
   constant_time_select_w (all_ones p) a b = (if p then a else b) \<and>
   constant_time_select_8 (all_ones p) x y = (if p then x else y) \<and>
   constant_time_select_int (all_ones p) i j = (if p then i else j)"
  by (simp add: const_time_masks not_less)

end
