(* ===== verification/Base64.thy ===== *)
theory Base64
  imports Const_Time
begin

text \<open>
  Base64 of BoringSSL (\<^verbatim>\<open>crypto/base64/base64.c\<close>): the branch-free conversion of characters, encoding and decoding of
  blocks, and the streaming interface with its context. An output object is the list of the bytes that may be
  written from the pointer on; a position in it stands for the pointer as it is advanced; stores and loads
  outside of an object are \<open>Undef\<close>. A \<^verbatim>\<open>size_t\<close> is a natural number, except where the sources look for wrap-around.
\<close>

section \<open>Memory\<close>

definition poke :: "nat \<Rightarrow> byte list \<Rightarrow> byte list \<Rightarrow> byte list" where
  "poke i bs out = take i out @ bs @ drop (i + length bs) out"

definition put :: "nat \<Rightarrow> byte list \<Rightarrow> byte list \<Rightarrow> unit outcome \<times> byte list" where
  "put i bs out = (if i + length bs \<le> length out then (Ok (), poke i bs out) else (Undef, out))"

section \<open>Characters\<close>

definition constant_time_lt_args_8 :: "byte \<Rightarrow> byte \<Rightarrow> byte" where
  "constant_time_lt_args_8 a b = ucast (constant_time_msb_w (ucast a - ucast b))"

definition constant_time_in_range_8 :: "byte \<Rightarrow> byte \<Rightarrow> byte \<Rightarrow> byte" where
  "constant_time_in_range_8 a lo hi = constant_time_lt_args_8 (a - lo) (hi - lo + 1)"

text \<open>The characters are their codes: \<^verbatim>\<open>'+'\<close> is 43, \<^verbatim>\<open>'/'\<close> 47, \<^verbatim>\<open>'0'\<close> 48, \<^verbatim>\<open>'A'\<close> 65, \<^verbatim>\<open>'a'\<close> 97 and \<^verbatim>\<open>'='\<close> 61.\<close>

definition conv_bin2ascii :: "byte \<Rightarrow> byte" where
  "conv_bin2ascii a0 =
     (let a = a0 AND 0x3f;
          ret = constant_time_select_8 (constant_time_eq_8 (ucast a) 62) 43 47;
          ret = constant_time_select_8 (constant_time_lt_args_8 a 62) (a - 52 + 48) ret;
          ret = constant_time_select_8 (constant_time_lt_args_8 a 52) (a - 26 + 97) ret
      in constant_time_select_8 (constant_time_lt_args_8 a 26) (a + 65) ret)"

definition base64_ascii_to_bin :: "byte \<Rightarrow> byte" where
  "base64_ascii_to_bin a =
     (let is_upper = constant_time_in_range_8 a 65 90;
          is_lower = constant_time_in_range_8 a 97 122;
          is_digit = constant_time_in_range_8 a 48 57;
          is_plus = constant_time_eq_8 (ucast a) 43;
          is_slash = constant_time_eq_8 (ucast a) 47;
          is_equals = constant_time_eq_8 (ucast a) 61;
          ret = (is_upper AND (a - 65)) OR (is_lower AND (a - 97 + 26)) OR (is_digit AND (a - 48 + 52)) OR
                (is_plus AND 62) OR (is_slash AND 63);
          is_valid = is_upper OR is_lower OR is_digit OR is_plus OR is_slash OR is_equals
      in ret OR NOT is_valid)"

section \<open>Encoding\<close>

definition EVP_EncodedLength :: "u64 \<Rightarrow> u64 outcome" where
  "EVP_EncodedLength len0 =
     (if len0 + 2 < len0 then Fail
      else let len = (len0 + 2) div 3
        in if drop_bit 2 (push_bit 2 len) \<noteq> len then Fail
           else let len = push_bit 2 len
             in if len + 1 < len then Fail else Ok (len + 1))"

text \<open>The four characters of up to three bytes.\<close>

definition encode_quad :: "byte list \<Rightarrow> nat \<Rightarrow> byte list" where
  "encode_quad src remaining =
     (if 3 \<le> remaining
      then let l = push_bit 16 (ucast (src ! 0)) OR push_bit 8 (ucast (src ! 1)) OR ucast (src ! 2) :: u32
           in [conv_bin2ascii (ucast (drop_bit 18 l)), conv_bin2ascii (ucast (drop_bit 12 l)),
               conv_bin2ascii (ucast (drop_bit 6 l)), conv_bin2ascii (ucast l)]
      else let l = push_bit 16 (ucast (src ! 0)) :: u32;
               l = (if remaining = 2 then l OR push_bit 8 (ucast (src ! 1)) else l)
           in [conv_bin2ascii (ucast (drop_bit 18 l)), conv_bin2ascii (ucast (drop_bit 12 l)),
               if remaining = 1 then 61 else conv_bin2ascii (ucast (drop_bit 6 l)), 61])"

function encode_loop :: "byte list \<Rightarrow> nat \<Rightarrow> nat \<Rightarrow> nat \<Rightarrow> byte list \<Rightarrow> nat outcome \<times> byte list" where
  "encode_loop src remaining ret dst out =
     (if remaining = 0 then seq_ok (put (dst + ret) [0] out) (\<lambda>_ out1. (Ok ret, out1))
      else if length src < min remaining 3 then (Undef, out)
      else seq_ok (put (dst + ret) (encode_quad src remaining) out) (\<lambda>_ out1.
        encode_loop (drop 3 src) (if 3 \<le> remaining then remaining - 3 else 0) (ret + 4) dst out1))"
  by pat_completeness auto
termination
  by (relation "measure (\<lambda>(src, remaining, ret, dst, out). remaining)") auto

declare encode_loop.simps [simp del]

definition EVP_EncodeBlock :: "nat \<Rightarrow> byte list \<Rightarrow> nat \<Rightarrow> byte list \<Rightarrow> nat outcome \<times> byte list" where
  "EVP_EncodeBlock dst src src_len out = encode_loop src src_len 0 dst out"

record EVP_ENCODE_CTX =
  data_used :: nat
  ec_data :: "byte list"
  eof_seen :: bool
  error_encountered :: bool

definition EVP_EncodeInit :: EVP_ENCODE_CTX where
  "EVP_EncodeInit = \<lparr>data_used = 0, ec_data = replicate 48 0, eof_seen = False, error_encountered = False\<rparr>"

definition EVP_ENCODE_CTX_new :: "bool \<Rightarrow> EVP_ENCODE_CTX option" where
  "EVP_ENCODE_CTX_new malloc_ok = (if malloc_ok then Some EVP_EncodeInit else None)"

definition INT_MAX :: nat where "INT_MAX = 2 ^ 31 - 1"

text \<open>One full line at a position: the block and a newline, then a terminator that the next store overwrites.\<close>

definition encode_line :: "nat \<Rightarrow> byte list \<Rightarrow> byte list \<Rightarrow> nat outcome \<times> byte list" where
  "encode_line pos src out = seq_ok (EVP_EncodeBlock pos src 48 out) (\<lambda>encoded out1.
     seq_ok (put (pos + encoded) [10] out1) (\<lambda>_ out2.
     seq_ok (put (pos + encoded + 1) [0] out2) (\<lambda>_ out3. (Ok encoded, out3))))"

text \<open>The loop over full lines; the result is what is left of the input, the position and the total (\<open>tot\<close>), or nothing when the
  total wraps around.\<close>

function encode_lines :: "byte list \<Rightarrow> nat \<Rightarrow> nat \<Rightarrow> u64 \<Rightarrow> byte list \<Rightarrow>
    (byte list \<times> nat \<times> u64) option outcome \<times> byte list" where
  "encode_lines inp in_len pos tot out =
     (if 48 \<le> in_len
      then seq_ok (encode_line pos inp out) (\<lambda>encoded out1.
        if tot + of_nat encoded + 1 < tot then (Ok None, out1)
        else encode_lines (drop 48 inp) (in_len - 48) (pos + encoded + 1) (tot + of_nat encoded + 1) out1)
      else (Ok (Some (inp, in_len, tot)), out))"
  by pat_completeness auto
termination
  by (relation "measure (\<lambda>(inp, in_len, pos, tot, out). in_len)") auto

declare encode_lines.simps [simp del]

text \<open>The result is \<^verbatim>\<open>*out_len\<close>.\<close>

definition EVP_EncodeUpdate :: "nat \<Rightarrow> byte list \<Rightarrow> nat \<Rightarrow> EVP_ENCODE_CTX \<times> byte list \<Rightarrow> nat outcome \<times> (EVP_ENCODE_CTX \<times> byte list)" where
  "EVP_EncodeUpdate pos inp in_len s =
     (case s of (ctx, out) \<Rightarrow>
       if in_len = 0 then (Ok 0, s)
       else if \<not> data_used ctx < 48 \<or> length inp < in_len then (Undef, s)
       else if in_len < 48 - data_used ctx
         then (Ok 0, (ctx\<lparr>ec_data := poke (data_used ctx) (take in_len inp) (ec_data ctx),
                         data_used := data_used ctx + in_len\<rparr>, out))
       else
         let todo = 48 - data_used ctx; used = (data_used ctx \<noteq> 0);
             data1 = (if used then poke (data_used ctx) (take todo inp) (ec_data ctx) else ec_data ctx);
             inp1 = (if used then drop todo inp else inp); in_len1 = (if used then in_len - todo else in_len)
         in case (if used then encode_line pos data1 out else (Ok 0, out)) of
             (Ok encoded, out1) \<Rightarrow>
               let tot = (if used then of_nat encoded + 1 else 0) :: u64;
                   pos1 = (if used then pos + encoded + 1 else pos)
               in (case encode_lines inp1 in_len1 pos1 tot out1 of
                   (Ok (Some (inp2, in_len2, tot2)), out2) \<Rightarrow>
                     (Ok (if INT_MAX < unat tot2 then 0 else unat tot2),
                       (ctx\<lparr>ec_data := poke 0 (take in_len2 inp2) data1, data_used := in_len2\<rparr>, out2))
                 | (Ok None, out2) \<Rightarrow> (Ok 0, (ctx\<lparr>ec_data := data1, data_used := 0\<rparr>, out2))
                 | (Fail, out2) \<Rightarrow> (Fail, (ctx, out2))
                 | (Undef, out2) \<Rightarrow> (Undef, (ctx, out2)))
           | (Fail, out1) \<Rightarrow> (Fail, (ctx, out1))
           | (Undef, out1) \<Rightarrow> (Undef, (ctx, out1)))"

definition EVP_EncodeFinal :: "nat \<Rightarrow> EVP_ENCODE_CTX \<times> byte list \<Rightarrow> nat outcome \<times> (EVP_ENCODE_CTX \<times> byte list)" where
  "EVP_EncodeFinal pos s =
     (case s of (ctx, out) \<Rightarrow>
       if data_used ctx = 0 then (Ok 0, s)
       else case seq_ok (EVP_EncodeBlock pos (ec_data ctx) (data_used ctx) out) (\<lambda>encoded out1.
              seq_ok (put (pos + encoded) [10] out1) (\<lambda>_ out2.
              seq_ok (put (pos + encoded + 1) [0] out2) (\<lambda>_ out3. (Ok (encoded + 1), out3)))) of
           (Ok n, out3) \<Rightarrow> if n \<le> INT_MAX then (Ok n, (ctx\<lparr>data_used := 0\<rparr>, out3)) else (Undef, (ctx, out3))
         | (Fail, out3) \<Rightarrow> (Fail, (ctx, out3))
         | (Undef, out3) \<Rightarrow> (Undef, (ctx, out3)))"

section \<open>Decoding\<close>

definition EVP_DecodedLength :: "nat \<Rightarrow> nat outcome" where
  "EVP_DecodedLength len = (if len mod 4 \<noteq> 0 then Fail else Ok (len div 4 * 3))"

definition EVP_DecodeInit :: EVP_ENCODE_CTX where "EVP_DecodeInit = EVP_EncodeInit"

text \<open>The bytes that are stored to \<^verbatim>\<open>out\<close>.\<close>

definition base64_decode_quad :: "byte list \<Rightarrow> byte list outcome" where
  "base64_decode_quad inp =
     (if length inp < 4 then Undef
      else let a = base64_ascii_to_bin (inp ! 0); b = base64_ascii_to_bin (inp ! 1);
               c = base64_ascii_to_bin (inp ! 2); d = base64_ascii_to_bin (inp ! 3)
        in if a = 0xff \<or> b = 0xff \<or> c = 0xff \<or> d = 0xff then Fail
           else let v = push_bit 18 (ucast a) OR push_bit 12 (ucast b) OR push_bit 6 (ucast c) OR ucast d :: u32;
                    padding_pattern = (of_bool (inp ! 0 = 61) * 8 + of_bool (inp ! 1 = 61) * 4 +
                      of_bool (inp ! 2 = 61) * 2 + of_bool (inp ! 3 = 61) :: nat)
             in if padding_pattern = 0 then Ok [ucast (drop_bit 16 v), ucast (drop_bit 8 v), ucast v]
                else if padding_pattern = 1 then Ok [ucast (drop_bit 16 v), ucast (drop_bit 8 v)]
                else if padding_pattern = 3 then Ok [ucast (drop_bit 16 v)]
                else Fail)"

definition is_b64_space :: "byte \<Rightarrow> bool" where
  "is_b64_space c \<longleftrightarrow> c = 32 \<or> c = 9 \<or> c = 13 \<or> c = 10"

text \<open>The loop of \<^verbatim>\<open>EVP_DecodeUpdate\<close>; \<open>n\<close> is the number of characters left and the position is \<^verbatim>\<open>bytes_out\<close> on from the
  start. A return of -1 is \<open>Fail\<close>.\<close>

fun decode_loop :: "nat \<Rightarrow> byte list \<Rightarrow> nat \<Rightarrow> nat \<Rightarrow> EVP_ENCODE_CTX \<times> byte list \<Rightarrow> nat outcome \<times> (EVP_ENCODE_CTX \<times> byte list)" where
  "decode_loop 0 inp pos bytes_out s = (Ok bytes_out, s)"
| "decode_loop (Suc n) [] pos bytes_out s = (Undef, s)"
| "decode_loop (Suc n) (c # inp) pos bytes_out s =
     (case s of (ctx, out) \<Rightarrow>
       if is_b64_space c then decode_loop n inp pos bytes_out s
       else if eof_seen ctx then (Fail, (ctx\<lparr>error_encountered := True\<rparr>, out))
       else if \<not> data_used ctx < 48 then (Undef, s)
       else let ctx1 = ctx\<lparr>ec_data := (ec_data ctx)[data_used ctx := c], data_used := data_used ctx + 1\<rparr>
         in if data_used ctx1 = 4
            then (case base64_decode_quad (ec_data ctx1) of
                Fail \<Rightarrow> (Fail, (ctx1\<lparr>error_encountered := True\<rparr>, out))
              | Undef \<Rightarrow> (Undef, (ctx1, out))
              | Ok bs \<Rightarrow> (case put (pos + bytes_out) bs out of
                  (Ok _, out1) \<Rightarrow> decode_loop n inp pos (bytes_out + length bs)
                    (ctx1\<lparr>data_used := 0, eof_seen := eof_seen ctx1 \<or> length bs < 3\<rparr>, out1)
                | (Fail, out1) \<Rightarrow> (Fail, (ctx1, out1))
                | (Undef, out1) \<Rightarrow> (Undef, (ctx1, out1))))
            else decode_loop n inp pos bytes_out (ctx1, out))"

text \<open>The result is \<^verbatim>\<open>*out_len\<close> and whether more may follow (a return of one) or not (of zero).\<close>

definition EVP_DecodeUpdate :: "nat \<Rightarrow> byte list \<Rightarrow> nat \<Rightarrow> EVP_ENCODE_CTX \<times> byte list \<Rightarrow>
    (nat \<times> bool) outcome \<times> (EVP_ENCODE_CTX \<times> byte list)" where
  "EVP_DecodeUpdate pos inp in_len s =
     (if error_encountered (fst s) then (Fail, s)
      else seq_ok (decode_loop in_len inp pos 0 s) (\<lambda>bytes_out (ctx, out).
        if INT_MAX < bytes_out then (Fail, (ctx\<lparr>error_encountered := True\<rparr>, out))
        else (Ok (bytes_out, \<not> eof_seen ctx), (ctx, out))))"

definition EVP_DecodeFinal :: "EVP_ENCODE_CTX \<Rightarrow> unit outcome" where
  "EVP_DecodeFinal ctx = (if error_encountered ctx \<or> data_used ctx \<noteq> 0 then Fail else Ok ())"

text \<open>The loop over quads, on what is left of the input.\<close>

function decode_quads :: "nat \<Rightarrow> byte list \<Rightarrow> nat \<Rightarrow> byte list \<Rightarrow> nat outcome \<times> byte list" where
  "decode_quads left inp bytes_out out =
     (if left = 0 then (Ok bytes_out, out)
      else case base64_decode_quad inp of
          Fail \<Rightarrow> (Fail, out)
        | Undef \<Rightarrow> (Undef, out)
        | Ok bs \<Rightarrow> seq_ok (put bytes_out bs out) (\<lambda>_ out1.
            if length bs \<noteq> 3 \<and> left \<noteq> 4 then (Fail, out1)
            else decode_quads (left - 4) (drop 4 inp) (bytes_out + length bs) out1))"
  by pat_completeness auto
termination
  by (relation "measure (\<lambda>(left, inp, bytes_out, out). left)") auto

declare decode_quads.simps [simp del]

definition EVP_DecodeBase64 :: "nat \<Rightarrow> byte list \<Rightarrow> nat \<Rightarrow> byte list \<Rightarrow> nat outcome \<times> byte list" where
  "EVP_DecodeBase64 max_out inp in_len out =
     (if in_len mod 4 \<noteq> 0 then (Fail, out)
      else seq_ok (EVP_DecodedLength in_len, out) (\<lambda>max_len out.
        if max_out < max_len then (Fail, out) else decode_quads in_len inp 0 out))"

fun trim_front :: "byte list \<Rightarrow> nat \<Rightarrow> (byte list \<times> nat) outcome" where
  "trim_front src 0 = Ok (src, 0)"
| "trim_front [] (Suc n) = Undef"
| "trim_front (c # src) (Suc n) = (if c \<noteq> 32 \<and> c \<noteq> 9 then Ok (c # src, Suc n) else trim_front src n)"

fun trim_back :: "byte list \<Rightarrow> nat \<Rightarrow> nat outcome" where
  "trim_back src 0 = Ok 0"
| "trim_back src (Suc n) =
     (if length src \<le> n then Undef else if is_b64_space (src ! n) then trim_back src n else Ok (Suc n))"

definition pad_zeros :: "nat \<Rightarrow> byte list \<Rightarrow> nat outcome \<times> byte list" where
  "pad_zeros dst_len out =
     (let k = (if dst_len mod 3 = 0 then 0 else 3 - dst_len mod 3)
      in seq_ok (put dst_len (replicate k 0) out) (\<lambda>_ out1. (Ok (dst_len + k), out1)))"

definition EVP_DecodeBlock :: "byte list \<Rightarrow> nat \<Rightarrow> byte list \<Rightarrow> nat outcome \<times> byte list" where
  "EVP_DecodeBlock src src_len out =
     seq_ok (trim_front src src_len, out) (\<lambda>(src1, len1) out.
     seq_ok (trim_back src1 len1, out) (\<lambda>len2 out.
     seq_ok (EVP_DecodedLength len2, out) (\<lambda>dst_len out.
       if INT_MAX < dst_len then (Fail, out)
       else seq_ok (EVP_DecodeBase64 dst_len src1 len2 out) (\<lambda>n out1.
         seq_ok (pad_zeros n out1) (\<lambda>m out2. if m \<le> INT_MAX then (Ok m, out2) else (Undef, out2))))))"

end
