(* ===== verification/Base64_Laws.thy ===== *)
theory Base64_Laws
  imports Base64
begin

text \<open>
  Base64 against a reference definition: the alphabet, the text of a list of bytes, and its lines. Encoding computes that
  text, decoding inverts it, and the streaming interface does the same for every way to cut the input into chunks.
\<close>

section \<open>The alphabet\<close>

definition char64 :: "nat \<Rightarrow> byte" where
  "char64 n = (if n < 26 then of_nat (n + 65) else if n < 52 then of_nat (n + 71)
     else if n < 62 then of_nat (n - 4) else if n = 62 then 43 else 47)"

lemma lt_args_mask: "constant_time_lt_args_8 a b = all_ones (a < b)"
proof -
  have "\<not> bit (ucast x :: u64) 63" for x :: byte by (auto simp: bit_simps dest: bit_imp_le_length)
  then have "bit (ucast a - ucast b :: u64) 63 \<longleftrightarrow> (ucast a :: u64) < ucast b" by (intro bit_minus_63) simp
  moreover have "(ucast a :: u64) < ucast b \<longleftrightarrow> a < b" by (simp add: word_less_nat_alt unat_ucast_up)
  ultimately show ?thesis by (simp add: constant_time_lt_args_8_def msb_mask)
qed

lemma in_range_mask: "constant_time_in_range_8 a lo hi = all_ones (a - lo < hi - lo + 1)"
  by (simp add: constant_time_in_range_8_def lt_args_mask)

lemma eq_8_byte: "constant_time_eq_8 (ucast (a :: byte)) (ucast b) = all_ones (a = b)"
proof -
  have "(ucast a :: u64) = ucast b \<longleftrightarrow> a = b" by (simp add: word_unat_eq_iff unat_ucast_up)
  then show ?thesis by (simp add: const_time_masks)
qed

lemma eq_8_numeral:
  "constant_time_eq_8 (ucast (a :: byte)) 43 = all_ones (a = 43)" "constant_time_eq_8 (ucast a) 47 = all_ones (a = 47)"
  "constant_time_eq_8 (ucast a) 61 = all_ones (a = 61)" "constant_time_eq_8 (ucast a) 62 = all_ones (a = 62)"
  using eq_8_byte [of a 43] eq_8_byte [of a 47] eq_8_byte [of a 61] eq_8_byte [of a 62] by simp_all

lemma unat_and_63: "unat ((a :: byte) AND 0x3f) = unat a mod 64"
proof -
  have "a AND 0x3f = take_bit 6 a" by (simp add: take_bit_eq_mask mask_eq_exp_minus_1)
  then show ?thesis by (simp add: unat_take_bit_mod)
qed

lemma bin2ascii: "conv_bin2ascii a = char64 (unat a mod 64)"
proof -
  let ?a = "a AND 0x3f"
  let ?n = "unat ?a"
  have n: "?n = unat a mod 64" "?n < 64" by (simp_all add: unat_and_63)
  have a: "?a = of_nat ?n" by simp
  have c: "?a < 62 \<longleftrightarrow> ?n < 62" "?a < 52 \<longleftrightarrow> ?n < 52" "?a < 26 \<longleftrightarrow> ?n < 26" "?a = 62 \<longleftrightarrow> ?n = 62"
    by (simp_all add: word_less_nat_alt word_unat_eq_iff)
  have "conv_bin2ascii a = (if ?n < 26 then ?a + 65 else if ?n < 52 then ?a - 26 + 97 else if ?n < 62 then ?a - 52 + 48
      else if ?n = 62 then 43 else 47)"
    by (simp add: conv_bin2ascii_def Let_def lt_args_mask eq_8_numeral select_8_mask c del: of_nat_unat unat_eq_zero)
  also have "\<dots> = char64 ?n"
  proof -
    have "?a - 52 + 48 = of_nat (?n - 4)" if "\<not> ?n < 52"
      using that by (simp add: of_nat_diff)
    moreover have "?a - 26 + 97 = of_nat (?n + 71)" "?a + 65 = of_nat (?n + 65)" by simp_all
    ultimately show ?thesis by (simp only: char64_def split: if_split) auto
  qed
  finally show ?thesis using n(1) by simp
qed

lemma ascii_to_bin_char64: "n < 64 \<Longrightarrow> base64_ascii_to_bin (char64 n) = of_nat n \<and> char64 n \<noteq> 61 \<and> \<not> is_b64_space (char64 n)"
proof -
  have "list_all (\<lambda>n. base64_ascii_to_bin (char64 n) = of_nat n \<and> char64 n \<noteq> 61 \<and> \<not> is_b64_space (char64 n)) [0..<64]"
    by (simp add: upt_rec char64_def base64_ascii_to_bin_def Let_def in_range_mask eq_8_numeral all_ones_def is_b64_space_def)
  then show "n < 64 \<Longrightarrow> base64_ascii_to_bin (char64 n) = of_nat n \<and> char64 n \<noteq> 61 \<and> \<not> is_b64_space (char64 n)"
    by (auto simp: list_all_iff)
qed

lemma ascii_to_bin_pad: "base64_ascii_to_bin 61 = 0" "\<not> is_b64_space 61"
  using eq_8_numeral [of 61]
  by (simp_all add: base64_ascii_to_bin_def Let_def in_range_mask all_ones_def is_b64_space_def)

section \<open>Quads\<close>

text \<open>The reference: three bytes are a number of 24 bits and four digits to the base 64; missing bytes are zero, and missing
  digits are padding.\<close>

definition digit64 :: "nat \<Rightarrow> nat \<Rightarrow> byte" where "digit64 k v = char64 (v div 64 ^ k mod 64)"

fun b64 :: "byte list \<Rightarrow> byte list" where
  "b64 [] = []"
| "b64 [a] = (let v = unat a * 65536 in [digit64 3 v, digit64 2 v, 61, 61])"
| "b64 [a, b] = (let v = unat a * 65536 + unat b * 256 in [digit64 3 v, digit64 2 v, digit64 1 v, 61])"
| "b64 (a # b # c # rest) =
     (let v = unat a * 65536 + unat b * 256 + unat c in [digit64 3 v, digit64 2 v, digit64 1 v, digit64 0 v] @ b64 rest)"

lemma bin2ascii_digit:
  "conv_bin2ascii (ucast (drop_bit 18 (l :: u32))) = digit64 3 (unat l)"
  "conv_bin2ascii (ucast (drop_bit 12 l)) = digit64 2 (unat l)"
  "conv_bin2ascii (ucast (drop_bit 6 l)) = digit64 1 (unat l)"
  "conv_bin2ascii (ucast l) = digit64 0 (unat l)"
proof -
  have "conv_bin2ascii (ucast (drop_bit k l)) = char64 (unat l div 2 ^ k mod 64)" for k
    unfolding bin2ascii unat_ucast_down unat_drop_bit_div by (simp add: mod_mod_cancel)
  from this [of 18] this [of 12] this [of 6] this [of 0]
  show "conv_bin2ascii (ucast (drop_bit 18 l)) = digit64 3 (unat l)" "conv_bin2ascii (ucast (drop_bit 12 l)) = digit64 2 (unat l)"
    "conv_bin2ascii (ucast (drop_bit 6 l)) = digit64 1 (unat l)" "conv_bin2ascii (ucast l) = digit64 0 (unat l)"
    by (simp_all add: digit64_def)
qed

lemma unat_triple:
  "unat (push_bit 16 (ucast (a :: byte)) OR push_bit 8 (ucast (b :: byte)) OR ucast (c :: byte) :: u32) = unat a * 65536 + unat b * 256 + unat c"
  "unat (push_bit 16 (ucast a) OR push_bit 8 (ucast b) :: u32) = unat a * 65536 + unat b * 256"
  "unat (push_bit 16 (ucast a) :: u32) = unat a * 65536"
proof -
  have T: "unat (push_bit 16 (ucast a) OR push_bit 8 (ucast b) OR ucast c :: u32) = unat a * 65536 + unat b * 256 + unat c"
    for a b c :: byte
  proof -
    have "push_bit 16 (ucast a) OR push_bit 8 (ucast b) OR ucast c = (le_word [c, b, a] :: u32)"
      by (simp add: push_bit_or push_bit_push_bit or.commute or.left_commute)
    moreover have "unat (le_word [c, b, a] :: u32) = unat a * 65536 + unat b * 256 + unat c" by (subst unat_le_word) simp_all
    ultimately show ?thesis by simp
  qed
  show "unat (push_bit 16 (ucast a) OR push_bit 8 (ucast b) OR ucast c :: u32) = unat a * 65536 + unat b * 256 + unat c" by (rule T)
  show "unat (push_bit 16 (ucast a) OR push_bit 8 (ucast b) :: u32) = unat a * 65536 + unat b * 256"
    using T [of a b 0] by simp
  show "unat (push_bit 16 (ucast a) :: u32) = unat a * 65536" using T [of a 0 0] by simp
qed

lemma encode_quad_b64:
  assumes "0 < n" "min n 3 \<le> length src"
  shows "encode_quad src n = b64 (take (min n 3) src)"
proof -
  consider "n = 1" | "n = 2" | "3 \<le> n" using assms(1) by linarith
  then show ?thesis
  proof cases
    case 1
    then obtain a xs where "src = a # xs" using assms(2) by (cases src) auto
    then show ?thesis using 1 by (simp add: encode_quad_def Let_def bin2ascii_digit(1-3) unat_triple)
  next
    case 2
    then obtain a b xs where "src = a # b # xs" using assms(2) by (cases src; cases "tl src") auto
    then show ?thesis using 2 by (simp add: encode_quad_def Let_def bin2ascii_digit(1-3) unat_triple numeral_2_eq_2)
  next
    case 3
    then obtain a b c xs where s: "src = a # b # c # xs" using assms(2)
      by (cases src; cases "tl src"; cases "tl (tl src)") auto
    have "take (min n 3) src = [a, b, c]" using 3 s by (simp add: min_def numeral_3_eq_3)
    moreover have "encode_quad src n = b64 [a, b, c]" using 3 s
      bin2ascii_digit(4) [of "push_bit 16 (ucast a) OR push_bit 8 (ucast b) OR ucast c"]
      by (simp add: encode_quad_def Let_def bin2ascii_digit(1-3) unat_triple)
    ultimately show ?thesis by simp
  qed
qed

lemma digits_value:
  fixes v :: nat
  assumes "v < 2 ^ 24"
  shows "v div 64 ^ 3 mod 64 * 262144 + v div 64 ^ 2 mod 64 * 4096 + v div 64 ^ 1 mod 64 * 64 + v div 64 ^ 0 mod 64 = v"
proof -
  have "v div 262144 mod 64 = v div 262144" using assms by simp
  moreover have "v div 4096 = v div 262144 * 64 + v div 4096 mod 64"
    using div_mult2_eq [of v 4096 64] div_mult_mod_eq [of "v div 4096" 64] by simp
  moreover have "v div 64 = v div 4096 * 64 + v div 64 mod 64"
    using div_mult2_eq [of v 64 64] div_mult_mod_eq [of "v div 64" 64] by simp
  moreover have "v = v div 64 * 64 + v mod 64" by simp
  ultimately have "v div 262144 mod 64 * 262144 + v div 4096 mod 64 * 4096 + v div 64 mod 64 * 64 + v mod 64 = v"
    by linarith
  then show ?thesis by (simp del: mod_less)
qed

lemma unat_sextets:
  assumes "unat a < 64" "unat b < 64" "unat c < 64" "unat d < 64"
  shows "unat (push_bit 18 (ucast (a :: byte)) OR push_bit 12 (ucast (b :: byte)) OR push_bit 6 (ucast (c :: byte)) OR
    ucast (d :: byte) :: u32) = unat a * 262144 + unat b * 4096 + unat c * 64 + unat d"
proof -
  have u: "unat (ucast x :: u32) = unat x" for x :: byte by (simp add: unat_ucast_up)
  have s: "unat (ucast x OR push_bit 6 w :: u32) = unat x + unat w * 64" if "unat x < 64" "unat w < 2 ^ 26" for x :: byte and w :: u32
    using unat_or_push_bit [of "ucast x :: u32" 6 w] that by (simp add: u)
  have "push_bit 18 (ucast a) OR push_bit 12 (ucast b) OR push_bit 6 (ucast c) OR ucast d =
      (ucast d OR push_bit 6 (ucast c OR push_bit 6 (ucast b OR push_bit 6 (ucast a))) :: u32)"
    by (simp add: push_bit_or push_bit_push_bit or.commute or.left_commute)
  moreover have "unat (ucast d OR push_bit 6 (ucast c OR push_bit 6 (ucast b OR push_bit 6 (ucast a))) :: u32) =
      unat a * 262144 + unat b * 4096 + unat c * 64 + unat d"
    using assms by (simp add: s u del: push_bit_or)
  ultimately show ?thesis by (simp only:)
qed

lemma digit64_props:
  "base64_ascii_to_bin (digit64 k v) = of_nat (v div 64 ^ k mod 64)" "digit64 k v \<noteq> 61" "\<not> is_b64_space (digit64 k v)"
  using ascii_to_bin_char64 [of "v div 64 ^ k mod 64"] by (simp_all add: digit64_def)

lemma sextet_valid: "n < 64 \<Longrightarrow> (of_nat n :: byte) \<noteq> 0xff \<and> unat (of_nat n :: byte) = n"
  by (auto simp: unat_of_nat word_unat_eq_iff)

lemma decode_quad_word:
  assumes "base64_ascii_to_bin d3 = of_nat (v div 64 ^ 3 mod 64)" "base64_ascii_to_bin d2 = of_nat (v div 64 ^ 2 mod 64)"
    and "base64_ascii_to_bin d1 = of_nat (v div 64 ^ 1 mod 64)" "base64_ascii_to_bin d0 = of_nat (v div 64 ^ 0 mod 64)"
    and "v < 2 ^ 24" "d3 \<noteq> 61" "d2 \<noteq> 61" "d1 = 61 \<Longrightarrow> d0 = 61"
  shows "base64_decode_quad (d3 # d2 # d1 # d0 # rest) = Ok (take (if d0 \<noteq> 61 then 3 else if d1 \<noteq> 61 then 2 else 1)
    [of_nat (v div 65536), of_nat (v div 256), of_nat v])"
proof -
  define a b c d where bins: "a = base64_ascii_to_bin d3" "b = base64_ascii_to_bin d2" "c = base64_ascii_to_bin d1" "d = base64_ascii_to_bin d0"
  define w where "w = (push_bit 18 (ucast a) OR push_bit 12 (ucast b) OR push_bit 6 (ucast c) OR ucast d :: u32)"
  have u: "unat a = v div 64 ^ 3 mod 64" "unat b = v div 64 ^ 2 mod 64" "unat c = v div 64 ^ 1 mod 64" "unat d = v div 64 ^ 0 mod 64"
    unfolding bins assms(1-4) by (simp_all only: sextet_valid mod_less_divisor zero_less_numeral)
  have ne: "a \<noteq> 0xff" "b \<noteq> 0xff" "c \<noteq> 0xff" "d \<noteq> 0xff"
    unfolding bins assms(1-4) by (simp_all only: sextet_valid mod_less_divisor zero_less_numeral not_False_eq_True)
  have "unat w = v" unfolding w_def
    by (subst unat_sextets) (simp_all only: u digits_value [OF assms(5)] mod_less_divisor zero_less_numeral)
  then have w: "ucast (drop_bit 16 w) = (of_nat (v div 65536) :: byte)" "ucast (drop_bit 8 w) = (of_nat (v div 256) :: byte)"
      "ucast w = (of_nat v :: byte)"
    using ucast_drop_bit [of 16 w] ucast_drop_bit [of 8 w] ucast_drop_bit [of 0 w] by simp_all
  have "base64_decode_quad (d3 # d2 # d1 # d0 # rest) =
     (let padding_pattern = (of_bool (d1 = 61) * 2 + of_bool (d0 = 61) :: nat)
      in if padding_pattern = 0 then Ok [ucast (drop_bit 16 w), ucast (drop_bit 8 w), ucast w]
         else if padding_pattern = 1 then Ok [ucast (drop_bit 16 w), ucast (drop_bit 8 w)]
         else if padding_pattern = 3 then Ok [ucast (drop_bit 16 w)]
         else Fail)"
    using ne assms(6,7) by (simp add: base64_decode_quad_def Let_def w_def bins del: drop_bit_or push_bit_or)
  then show ?thesis using assms(8) by (auto simp: w Let_def numeral_3_eq_3)
qed

lemma decode_quad_digits:
  assumes "v < 2 ^ 24" "d3 = digit64 3 v" "d2 = digit64 2 v"
    and "d1 = digit64 1 v \<or> d1 = 61 \<and> v mod 4096 = 0 \<and> d0 = 61" "d0 = digit64 0 v \<or> d0 = 61 \<and> v mod 64 = 0"
  shows "base64_decode_quad (d3 # d2 # d1 # d0 # rest) = Ok (take (if d0 \<noteq> 61 then 3 else if d1 \<noteq> 61 then 2 else 1)
    [of_nat (v div 65536), of_nat (v div 256), of_nat v])"
proof (rule decode_quad_word)
  have "v div 64 mod 64 = 0" if "v mod 4096 = 0" using that mod_mult2_eq [of v 64 64] by simp
  then show "base64_ascii_to_bin d1 = of_nat (v div 64 ^ 1 mod 64)" "base64_ascii_to_bin d0 = of_nat (v div 64 ^ 0 mod 64)"
    using assms(4,5) digit64_props [of 1 v] digit64_props [of 0 v] ascii_to_bin_pad by auto
  show "d1 = 61 \<Longrightarrow> d0 = 61" using assms(4) digit64_props(2) [of 1 v] by auto
qed (use assms digit64_props in simp_all)

lemma triple_div:
  fixes a b c :: byte
  defines "v \<equiv> unat a * 65536 + unat b * 256 + unat c"
  shows "v < 2 ^ 24" "v div 65536 = unat a" "v div 256 = unat a * 256 + unat b"
proof -
  have lt: "unat b * 256 + unat c < 65536" "unat c < 256" "unat a < 256"
    using byte_lt_256 [of a] byte_lt_256 [of b] byte_lt_256 [of c] by linarith+
  then have "v < 16777216" unfolding v_def by linarith
  then show "v < 2 ^ 24" by simp
  have "v = (unat b * 256 + unat c) + unat a * 65536" by (simp add: v_def)
  then show "v div 65536 = unat a" using lt(1) by simp
  define x where "x = unat a * 256 + unat b"
  have "v = unat c + x * 256" by (simp add: v_def x_def algebra_simps)
  then show "v div 256 = unat a * 256 + unat b" using lt(2) by (simp add: x_def [symmetric])
qed

lemma byte_low:
  "of_nat (unat a * 256 + unat b) = (b :: byte)" "of_nat (256 * unat a + unat b) = (b :: byte)"
  "of_nat (unat a * 65536 + unat b * 256 + unat c) = (c :: byte)"
  by (simp_all add: word_unat_eq_iff unat_of_nat mod_add_left_eq [symmetric] del: of_nat_add of_nat_mult)

lemma decode_quad_b64:
  assumes "0 < length bs" "length bs \<le> 3"
  shows "base64_decode_quad (b64 bs @ rest) = Ok bs" "length (b64 bs) = 4"
proof -
  consider a where "bs = [a]" | a b where "bs = [a, b]" | a b c where "bs = [a, b, c]"
    using assms by (cases bs; cases "tl bs"; cases "tl (tl bs)"; cases "tl (tl (tl bs))") auto
  then have "base64_decode_quad (b64 bs @ rest) = Ok bs \<and> length (b64 bs) = 4"
  proof cases
    case 1
    show ?thesis unfolding 1 using decode_quad_digits [of "unat a * 65536" _ _ 61 61 rest] triple_div [of a 0 0]
      by (simp add: Let_def del: of_nat_add of_nat_mult)
  next
    case 2
    let ?v = "unat a * 65536 + unat b * 256"
    have "?v mod 64 = 0" using mod_mult_self2 [of 0 64 "unat a * 1024 + unat b * 4"] by (simp add: algebra_simps)
    then show ?thesis unfolding 2 using decode_quad_digits [of ?v _ _ _ 61 rest] digit64_props(2) triple_div [of a b 0]
      by (simp add: Let_def byte_low del: of_nat_add of_nat_mult)
  next
    case 3
    let ?v = "unat a * 65536 + unat b * 256 + unat c"
    show ?thesis unfolding 3 using decode_quad_digits [of ?v _ _ _ _ rest] digit64_props(2) triple_div [of a b c]
      by (simp add: Let_def byte_low del: of_nat_add of_nat_mult)
  qed
  then show "base64_decode_quad (b64 bs @ rest) = Ok bs" "length (b64 bs) = 4" by simp_all
qed

section \<open>Blocks\<close>

lemma length_poke [simp]: "i + length bs \<le> length out \<Longrightarrow> length (poke i bs out) = length out"
  by (simp add: poke_def)

lemma poke_poke:
  assumes "i + length a + length b \<le> length out" "length c \<le> length b"
  shows "poke (i + length a) b (poke i (a @ c) out) = poke i (a @ b) out"
proof -
  have t: "length (take i out) = i" using assms(1) by simp
  show ?thesis unfolding poke_def using assms by (simp add: t ac_simps)
qed

lemma poke_nil [simp]: "i \<le> length out \<Longrightarrow> poke i [] out = out"
  by (simp add: poke_def)

lemma take_poke: "i + length bs \<le> length out \<Longrightarrow> take (i + length bs) (poke i bs out) = take i out @ bs"
  by (simp add: poke_def)

lemma b64_step: "bs \<noteq> [] \<Longrightarrow> b64 bs = b64 (take 3 bs) @ b64 (drop 3 bs)"
  by (cases bs rule: b64.cases) (simp_all add: Let_def numeral_3_eq_3)

lemma length_b64: "length (b64 bs) = 4 * ((length bs + 2) div 3)"
proof (induction bs rule: b64.induct)
  case (4 a b c bs)
  have "(5 + length bs) div 3 = (length bs + 2) div 3 + 1" by presburger
  then show ?case using 4 by (simp add: Let_def)
qed (simp_all add: Let_def)

lemma encode_loop_b64:
  "n \<le> length src \<Longrightarrow> dst + ret + length (b64 (take n src)) < length out \<Longrightarrow>
     encode_loop src n ret dst out = (Ok (ret + length (b64 (take n src))), poke (dst + ret) (b64 (take n src) @ [0]) out)"
proof (induction n arbitrary: src ret out rule: less_induct)
  case (less n)
  show ?case
  proof (cases "n = 0")
    case True
    then show ?thesis using less.prems by (subst encode_loop.simps) (simp add: put_def)
  next
    case False
    let ?q = "b64 (take (min n 3) src)" and ?r = "if 3 \<le> n then n - 3 else 0"
    have ne: "take n src \<noteq> []" using False less.prems(1) by auto
    have split: "b64 (take n src) = ?q @ b64 (take ?r (drop 3 src))"
    proof -
      have "take 3 (take n src) = take (min n 3) src" "drop 3 (take n src) = take ?r (drop 3 src)"
        by (simp_all add: min.commute drop_take)
      then show ?thesis using b64_step [OF ne] by (simp only:)
    qed
    have len: "length ?q = 4" using decode_quad_b64(2) [of "take (min n 3) src"] False less.prems(1) by simp
    let ?out1 = "poke (dst + ret) ?q out"
    have room: "dst + ret + 4 + length (b64 (take ?r (drop 3 src))) < length out" using less.prems(2) split len by simp
    have p: "put (dst + ret) ?q out = (Ok (), ?out1)" using room len by (simp add: put_def)
    have "encode_loop (drop 3 src) ?r (ret + 4) dst ?out1 =
        (Ok (ret + 4 + length (b64 (take ?r (drop 3 src)))), poke (dst + (ret + 4)) (b64 (take ?r (drop 3 src)) @ [0]) ?out1)"
      by (rule less.IH) (use False less.prems(1) room len in auto)
    moreover have "poke (dst + (ret + 4)) (b64 (take ?r (drop 3 src)) @ [0]) ?out1 = poke (dst + ret) (b64 (take n src) @ [0]) out"
      using poke_poke [of "dst + ret" ?q "b64 (take ?r (drop 3 src)) @ [0]" out "[]"] room len split by (simp add: add.assoc)
    moreover have "encode_quad src n = ?q" by (rule encode_quad_b64) (use False less.prems(1) in auto)
    ultimately show ?thesis using False less.prems(1) p split len
      by (subst encode_loop.simps) (simp add: min_def not_less)
  qed
qed

lemma encode_block:
  assumes "n \<le> length src" "dst + length (b64 (take n src)) < length out"
  shows "EVP_EncodeBlock dst src n out = (Ok (length (b64 (take n src))), poke dst (b64 (take n src) @ [0]) out)"
  using encode_loop_b64 [of n src dst 0 out] assms by (simp add: EVP_EncodeBlock_def)

lemma decode_quads_b64:
  "inp = b64 bs @ rest \<Longrightarrow> pos + length bs \<le> length out \<Longrightarrow>
     decode_quads (length (b64 bs)) inp pos out = (Ok (pos + length bs), poke pos bs out)"
proof (induction bs arbitrary: inp pos out rule: b64.induct)
  case 1
  then show ?case by (subst decode_quads.simps) simp
next
  case (2 a)
  then show ?case using decode_quad_b64(1) [of "[a]" rest] decode_quad_b64(2) [of "[a]"]
    by (subst decode_quads.simps, subst decode_quads.simps) (simp add: put_def)
next
  case (3 a b)
  then show ?case using decode_quad_b64(1) [of "[a, b]" rest] decode_quad_b64(2) [of "[a, b]"]
    by (subst decode_quads.simps, subst decode_quads.simps) (simp add: put_def)
next
  case (4 a b c bs)
  let ?out1 = "poke pos [a, b, c] out" and ?q = "b64 [a, b, c]"
  have inp: "inp = ?q @ b64 bs @ rest" using "4.prems"(1) by (simp add: Let_def)
  have q: "base64_decode_quad inp = Ok [a, b, c]" "length ?q = 4"
    using decode_quad_b64(1) [of "[a, b, c]" "b64 bs @ rest"] decode_quad_b64(2) [of "[a, b, c]"] inp by simp_all
  have "decode_quads (length (b64 bs)) (drop 4 inp) (pos + 3) ?out1 = (Ok (pos + 3 + length bs), poke (pos + 3) bs ?out1)"
    by (rule "4.IH") (use "4.prems" inp q in \<open>simp_all add: Let_def\<close>)
  moreover have "poke (pos + 3) bs ?out1 = poke pos (a # b # c # bs) out"
    using poke_poke [of pos "[a, b, c]" bs out "[]"] "4.prems"(2) by (simp add: numeral_3_eq_3)
  ultimately show ?case using q "4.prems"(2)
    by (subst decode_quads.simps) (simp add: put_def Let_def numeral_3_eq_3)
qed

text \<open>Encoding a block writes its base64 text and a terminator, and decoding that text gives the block back; both return
  the number of bytes written, and stay inside of buffers of the announced sizes.\<close>

theorem base64_block_roundtrip:
  assumes "src_len \<le> length src" "4 * ((src_len + 2) div 3) < length dst" "3 * ((src_len + 2) div 3) \<le> max_out" "max_out \<le> length out"
  shows "\<exists>n dst' out'. EVP_EncodeBlock 0 src src_len dst = (Ok n, dst') \<and> n = 4 * ((src_len + 2) div 3) \<and>
    take (n + 1) dst' = b64 (take src_len src) @ [0] \<and>
    EVP_DecodeBase64 max_out dst' n out = (Ok src_len, out') \<and> take src_len out' = take src_len src"
proof -
  let ?b = "take src_len src"
  have len: "length ?b = src_len" "length (b64 ?b) = 4 * ((src_len + 2) div 3)" using assms(1) by (simp_all add: length_b64)
  let ?dst = "poke 0 (b64 ?b @ [0]) dst"
  have enc: "EVP_EncodeBlock 0 src src_len dst = (Ok (length (b64 ?b)), ?dst)"
    by (rule encode_block) (use assms len in simp_all)
  have d: "?dst = b64 ?b @ 0 # drop (Suc (length (b64 ?b))) dst" by (simp add: poke_def)
  have room: "0 + length ?b \<le> length out" using assms(3,4) len(1) by linarith
  have "decode_quads (length (b64 ?b)) ?dst 0 out = (Ok (0 + length ?b), poke 0 ?b out)"
    by (rule decode_quads_b64 [OF d room])
  then have "EVP_DecodeBase64 max_out ?dst (length (b64 ?b)) out = (Ok src_len, poke 0 ?b out)"
    using assms(3) len by (simp add: EVP_DecodeBase64_def EVP_DecodedLength_def mult.commute)
  moreover have "take src_len (poke 0 ?b out) = ?b" using take_poke [OF room] len(1) by simp
  moreover have "take (length (b64 ?b) + 1) ?dst = b64 ?b @ [0]" unfolding d by simp
  ultimately show ?thesis using enc len by blast
qed

theorem base64_block_roundtrip_witness:
  "\<exists>n dst' out'. EVP_EncodeBlock 0 [77, 97, 110, 33] 4 (replicate 9 0) = (Ok n, dst') \<and> n = 4 * ((4 + 2) div 3) \<and>
    take (n + 1) dst' = b64 (take 4 [77, 97, 110, 33]) @ [0] \<and>
    EVP_DecodeBase64 6 dst' n (replicate 6 0) = (Ok 4, out') \<and> take 4 out' = take 4 [77, 97, 110, 33]"
  by (rule base64_block_roundtrip) simp_all

end
