(* ===== verification/Base64_Stream.thy ===== *)
theory Base64_Stream
  imports Base64_Laws
begin

text \<open>
  The streaming interface of base64: a client hands its input over in chunks of any sizes. Encoding writes the lines of
  the whole input and decoding inverts it, however either side is cut into chunks.
\<close>

section \<open>Lines\<close>

function pem :: "byte list \<Rightarrow> byte list" where
  "pem bs = (if bs = [] then [] else b64 (take 48 bs) @ 10 # pem (drop 48 bs))"
  by pat_completeness auto
termination by (relation "measure length") auto

declare pem.simps [simp del]

lemma pem_Nil [simp]: "pem [] = []" by (simp add: pem.simps)

lemma b64_append: "3 dvd length xs \<Longrightarrow> b64 (xs @ ys) = b64 xs @ b64 ys"
proof (induction xs rule: b64.induct)
  case (4 a b c rest)
  have "3 dvd length rest + 3 * 1" using "4.prems" by (simp add: numeral_3_eq_3)
  then have "3 dvd length rest" by presburger
  with 4 show ?case by (simp add: Let_def)
qed (simp_all add: nat_dvd_not_less)

lemma pem_append: "48 dvd length xs \<Longrightarrow> pem (xs @ ys) = pem xs @ pem ys"
proof (induction xs rule: pem.induct)
  case (1 xs)
  show ?case
  proof (cases "xs = []")
    case False
    then have len: "48 \<le> length xs" using "1.prems" by (simp add: dvd_imp_le)
    have "48 dvd length (drop 48 xs)" using "1.prems" len by (simp add: dvd_diff_nat)
    then show ?thesis using 1 False len by (simp add: pem.simps [of "xs @ ys"] pem.simps [of xs])
  qed simp
qed

lemma pem_line: "xs \<noteq> [] \<Longrightarrow> length xs \<le> 48 \<Longrightarrow> pem xs = b64 xs @ [10]"
  by (simp add: pem.simps)

lemma length_pem_lines: "length xs = 48 * k \<Longrightarrow> length (pem xs) = 65 * k"
proof (induction k arbitrary: xs)
  case (Suc k)
  have "length (pem (drop 48 xs)) = 65 * k" by (rule Suc.IH) (use Suc.prems in simp)
  moreover have "length (b64 (take 48 xs)) = 64" using Suc.prems by (simp add: length_b64)
  ultimately show ?case using Suc.prems by (subst pem.simps) auto
qed simp

section \<open>Encoding\<close>

lemma encode_line_ok:
  assumes "48 \<le> length src" "pos + 65 < length out"
  shows "\<exists>out'. encode_line pos src out = (Ok 64, out') \<and> length out' = length out \<and>
    take (pos + 65) out' = take pos out @ pem (take 48 src)"
proof -
  let ?e = "b64 (take 48 src)"
  have len: "length ?e = 64" using assms(1) by (simp add: length_b64)
  let ?o1 = "poke pos (?e @ [0]) out"
  have e: "EVP_EncodeBlock pos src 48 out = (Ok 64, ?o1)" using encode_block [of 48 src pos out] assms len by simp
  have o2: "poke (pos + 64) [10] ?o1 = poke pos (?e @ [10]) out"
    using poke_poke [of pos ?e "[10]" out "[0]"] assms(2) len by simp
  have o3: "poke (pos + 65) [0] (poke pos (?e @ [10]) out) = poke pos ((?e @ [10]) @ [0]) out"
    using poke_poke [of pos "?e @ [10]" "[0]" out "[]"] assms(2) len by simp
  have "encode_line pos src out = (Ok 64, poke pos ((?e @ [10]) @ [0]) out)"
    using assms(2) len by (simp add: encode_line_def e put_def o2 o3 [simplified] add.commute [of 65 pos])
  moreover have "take (pos + 65) (poke pos ((?e @ [10]) @ [0]) out) = take pos out @ ?e @ [10]"
    using assms(2) len by (simp add: poke_def)
  moreover have "pem (take 48 src) = ?e @ [10]" using assms(1) by (subst pem_line) auto
  ultimately show ?thesis using assms(2) len by simp
qed

lemma encode_lines_ok:
  "n \<le> length inp \<Longrightarrow> pos + 65 * (n div 48) < length out \<Longrightarrow> unat tot + 65 * (n div 48) \<le> INT_MAX \<Longrightarrow>
     \<exists>out'. encode_lines inp n pos tot out = (Ok (Some (drop (48 * (n div 48)) inp, n mod 48, tot + of_nat (65 * (n div 48)))), out') \<and>
       length out' = length out \<and> take (pos + 65 * (n div 48)) out' = take pos out @ pem (take (48 * (n div 48)) inp)"
proof (induction n arbitrary: inp pos tot out rule: less_induct)
  case (less n)
  show ?case
  proof (cases "48 \<le> n")
    case False
    then have "n div 48 = 0" "n mod 48 = n" by simp_all
    then show ?thesis using False by (subst encode_lines.simps) simp
  next
    case True
    let ?k = "(n - 48) div 48"
    have k: "n div 48 = Suc ?k" "n mod 48 = (n - 48) mod 48" using True by (simp_all add: le_div_geq le_mod_geq)
    obtain out1 where o: "encode_line pos inp out = (Ok 64, out1)" "length out1 = length out"
        "take (pos + 65) out1 = take pos out @ pem (take 48 inp)"
      using encode_line_ok [of inp pos out] True less.prems k by auto
    have "unat tot + 65 < 2 ^ 64" using less.prems(3) k(1) by (simp add: INT_MAX_def)
    then have u: "unat (tot + 65) = unat tot + 65" by (simp add: unat_word_ariths unat_of_nat)
    then have nw: "\<not> tot + 64 + 1 < tot" by (simp add: word_less_nat_alt add.commute [of 65 tot])
    have "\<exists>out'. encode_lines (drop 48 inp) (n - 48) (pos + 65) (tot + 65) out1 =
        (Ok (Some (drop (48 * ?k) (drop 48 inp), (n - 48) mod 48, tot + 65 + of_nat (65 * ?k))), out') \<and>
        length out' = length out1 \<and> take (pos + 65 + 65 * ?k) out' = take (pos + 65) out1 @ pem (take (48 * ?k) (drop 48 inp))"
      by (rule less.IH) (use True less.prems k o(2) u in \<open>auto simp: diff_le_mono\<close>)
    then obtain out' where o': "encode_lines (drop 48 inp) (n - 48) (pos + 65) (tot + 65) out1 =
        (Ok (Some (drop (48 * ?k) (drop 48 inp), (n - 48) mod 48, tot + 65 + of_nat (65 * ?k))), out')"
        "length out' = length out1" "take (pos + 65 + 65 * ?k) out' = take (pos + 65) out1 @ pem (take (48 * ?k) (drop 48 inp))"
      by blast
    have "48 dvd length (take 48 inp)" using True less.prems(1) by simp
    from pem_append [OF this, of "take (48 * ?k) (drop 48 inp)"]
    have "pem (take (48 * Suc ?k) inp) = pem (take 48 inp) @ pem (take (48 * ?k) (drop 48 inp))"
      by (simp add: take_add [symmetric])
    moreover have "encode_lines inp n pos tot out = encode_lines (drop 48 inp) (n - 48) (pos + 65) (tot + 65) out1"
      using True o(1) nw by (subst encode_lines.simps) (simp add: add.assoc add.commute [of 65 pos])
    ultimately show ?thesis using o o' k by (auto simp: algebra_simps)
  qed
qed

text \<open>What the context and the output hold after the bytes \<open>xs\<close>: the full lines are written, the rest is in the context.\<close>

abbreviation full_lines :: "byte list \<Rightarrow> byte list" where "full_lines xs \<equiv> take (48 * (length xs div 48)) xs"

abbreviation last_line :: "byte list \<Rightarrow> byte list" where "last_line xs \<equiv> drop (48 * (length xs div 48)) xs"

definition enc_inv :: "byte list \<Rightarrow> nat \<Rightarrow> EVP_ENCODE_CTX \<times> byte list \<Rightarrow> bool" where
  "enc_inv xs pos s \<longleftrightarrow> length (ec_data (fst s)) = 48 \<and> data_used (fst s) = length xs mod 48 \<and>
     take (length xs mod 48) (ec_data (fst s)) = last_line xs \<and>
     pos = 65 * (length xs div 48) \<and> take pos (snd s) = pem (full_lines xs)"

lemma enc_inv_init: "enc_inv [] 0 (EVP_EncodeInit, out)"
  by (simp add: enc_inv_def EVP_EncodeInit_def)

lemma length_last_line: "length (last_line xs) = length xs mod 48"
  by (simp add: minus_mult_div_eq_mod)

lemma lines_append:
  assumes "length xs = 48 * k"
  shows "full_lines (xs @ ys) = xs @ full_lines ys" "last_line (xs @ ys) = last_line ys"
    "length (xs @ ys) div 48 = k + length ys div 48" "length (xs @ ys) mod 48 = length ys mod 48"
proof -
  show d: "length (xs @ ys) div 48 = k + length ys div 48" using assms by simp
  show "full_lines (xs @ ys) = xs @ full_lines ys" unfolding d using assms by (simp add: algebra_simps)
  show "last_line (xs @ ys) = last_line ys" unfolding d using assms by (simp add: algebra_simps)
  show "length (xs @ ys) mod 48 = length ys mod 48" using assms by simp
qed

lemma enc_inv_lines:
  assumes "length xs = 48 * k" "length d = 48" "length out' = length out" "65 * k \<le> pos" "pos = 65 * (k + n div 48)" "length inp = n"
    and "take pos out' = pem xs @ pem (full_lines inp)"
  shows "enc_inv (xs @ inp) pos (ctx\<lparr>ec_data := poke 0 (last_line inp) d, data_used := n mod 48\<rparr>, out')"
proof -
  note l = lines_append [OF assms(1), of inp]
  have "pem (xs @ full_lines inp) = pem xs @ pem (full_lines inp)" by (rule pem_append) (simp add: assms(1))
  moreover have "take (n mod 48) (poke 0 (last_line inp) d) = last_line inp"
    using length_last_line [of inp] assms(6) by (simp add: poke_def)
  moreover have "length (poke 0 (last_line inp) d) = 48"
    using length_last_line [of inp] assms(2) by (subst length_poke) (simp_all add: less_imp_le)
  ultimately show ?thesis unfolding enc_inv_def l using assms l(3) by simp
qed

lemma encode_rest:
  assumes "length xs = 48 * k" "take (65 * k) out = pem xs" "length d = 48" "65 * (k + length inp div 48) < length out"
    and "unat tot + 65 * (length inp div 48) \<le> INT_MAX"
  shows "\<exists>out2 tot2. encode_lines inp (length inp) (65 * k) tot out = (Ok (Some (last_line inp, length inp mod 48, tot2)), out2) \<and>
    unat tot2 = unat tot + 65 * (length inp div 48) \<and> length out2 = length out \<and>
    enc_inv (xs @ inp) (65 * (k + length inp div 48))
      (ctx\<lparr>ec_data := poke 0 (last_line inp) d, data_used := length inp mod 48\<rparr>, out2)"
proof -
  let ?m = "length inp div 48"
  obtain out2 where o: "encode_lines inp (length inp) (65 * k) tot out =
        (Ok (Some (last_line inp, length inp mod 48, tot + of_nat (65 * ?m))), out2)"
      "length out2 = length out" "take (65 * k + 65 * ?m) out2 = pem xs @ pem (full_lines inp)"
    using encode_lines_ok [of "length inp" inp "65 * k" out tot] assms by (auto simp: algebra_simps)
  have "65 * ?m < 2 ^ 64" "unat tot + 65 * ?m < 2 ^ 64" using assms(5) by (simp_all add: INT_MAX_def)
  then have "unat (tot + of_nat (65 * ?m)) = unat tot + 65 * ?m"
    by (simp add: unat_word_ariths unat_of_nat del: of_nat_mult)
  moreover have "enc_inv (xs @ inp) (65 * (k + ?m)) (ctx\<lparr>ec_data := poke 0 (last_line inp) d, data_used := length inp mod 48\<rparr>, out2)"
    by (rule enc_inv_lines [OF assms(1,3) o(2)]) (use o(3) in \<open>simp_all add: algebra_simps\<close>)
  ultimately show ?thesis using o by blast
qed

lemma encode_update_ok:
  assumes inv: "enc_inv xs pos (ctx, out)" and room: "65 * (length (xs @ inp) div 48) < length out"
    and max: "65 * (length (xs @ inp) div 48) \<le> INT_MAX"
  shows "\<exists>n s'. EVP_EncodeUpdate pos inp (length inp) (ctx, out) = (Ok n, s') \<and> enc_inv (xs @ inp) (pos + n) s' \<and>
    length (snd s') = length out"
proof -
  let ?u = "data_used ctx" and ?n = "length inp"
  note i = inv [unfolded enc_inv_def, simplified]
  have u: "?u < 48" using i by simp
  show ?thesis
  proof (cases "?n = 0")
    case True then show ?thesis using inv by (simp add: EVP_EncodeUpdate_def)
  next
    case ne: False
    define k where "k = length xs div 48"
    define r where "r = last_line xs"
    have xs: "xs = full_lines xs @ r" "length (full_lines xs) = 48 * k" "length r = ?u"
      using i length_last_line [of xs] times_div_less_eq_dividend [of 48 "length xs"] by (simp_all add: k_def r_def)
    have data: "take ?u (ec_data ctx) = r" "length (ec_data ctx) = 48" using i by (simp_all add: r_def)
    have app: "xs @ inp = full_lines xs @ (r @ inp)" using xs(1) by (metis append.assoc)
    note l = lines_append [OF xs(2), of "r @ inp", folded app]
    show ?thesis
    proof (cases "?n < 48 - ?u")
      case True
      have z: "length (r @ inp) div 48 = 0" "length (r @ inp) mod 48 = ?u + ?n" using True xs(3) by simp_all
      have "take (?u + ?n) (poke ?u inp (ec_data ctx)) = r @ inp"
        using take_poke [of ?u inp "ec_data ctx"] data True by simp
      moreover have "length (poke ?u inp (ec_data ctx)) = 48" using data True by simp
      moreover have "full_lines (xs @ inp) = full_lines xs" "last_line (xs @ inp) = r @ inp" using l z by simp_all
      ultimately have "enc_inv (xs @ inp) pos (ctx\<lparr>ec_data := poke ?u inp (ec_data ctx), data_used := ?u + ?n\<rparr>, out)"
        unfolding enc_inv_def l using i z by (auto simp: k_def)
      then show ?thesis using ne True u by (simp add: EVP_EncodeUpdate_def)
    next
      case False
      have tl: "take (m mod 48) (last_line ys) = last_line ys" if "length ys = m" for ys :: "byte list" and m
        using length_last_line [of ys] that by simp
      have full: "take (65 * k) out = pem (full_lines xs)" "pos = 65 * k" using i by (auto simp: k_def)
      show ?thesis
      proof (cases "?u = 0")
        case True
        then have r0: "r = []" using xs(3) by simp
        have "65 * (k + ?n div 48) < length out" "unat (0 :: u64) + 65 * (?n div 48) \<le> INT_MAX"
          using room max l(3) r0 by simp_all
        from encode_rest [OF xs(2) full(1) data(2) this, of ctx] obtain out2 tot2 where
          e: "encode_lines inp ?n pos 0 out = (Ok (Some (last_line inp, ?n mod 48, tot2)), out2)" "unat tot2 = 65 * (?n div 48)"
            "length out2 = length out"
            "enc_inv (full_lines xs @ inp) (65 * (k + ?n div 48)) (ctx\<lparr>ec_data := poke 0 (last_line inp) (ec_data ctx), data_used := ?n mod 48\<rparr>, out2)"
          unfolding full(2) by auto
        have "unat tot2 \<le> INT_MAX" using e(2) max l(3) r0 by simp
        then show ?thesis using e True ne False app r0 full(2) tl [of inp] u
          by (simp add: EVP_EncodeUpdate_def Let_def not_less algebra_simps)
      next
        case used: False
        let ?todo = "48 - ?u"
        let ?d = "poke ?u (take ?todo inp) (ec_data ctx)" and ?xs = "full_lines xs @ r @ take ?todo inp" and ?inp = "drop ?todo inp"
        have d: "?d = r @ take ?todo inp" using data False by (simp add: poke_def)
        have len: "length ?d = 48" "length ?xs = 48 * Suc k" using d xs(2,3) False u by simp_all
        have app': "xs @ inp = ?xs @ ?inp" using app by simp
        note l' = lines_append [OF len(2), of ?inp, folded app']
        have "pos + 65 < length out" using room l'(3) full(2) by simp
        from encode_line_ok [OF _ this, of ?d] len(1) obtain out1 where
          o: "encode_line pos ?d out = (Ok 64, out1)" "length out1 = length out" "take (pos + 65) out1 = take pos out @ pem ?d" by auto
        have "pem ?xs = pem (full_lines xs) @ pem ?d" unfolding d by (rule pem_append) (use xs(2) in simp)
        then have t1: "take (65 * Suc k) out1 = pem ?xs" using o(3) full by (simp add: add.commute)
        have "65 * (Suc k + length ?inp div 48) < length out1" "unat (65 :: u64) + 65 * (length ?inp div 48) \<le> INT_MAX"
          using room max l'(3) o(2) by simp_all
        from encode_rest [OF len(2) t1 len(1) this, of ctx] obtain out2 tot2 where
          e: "encode_lines ?inp (length ?inp) (65 * Suc k) 65 out1 = (Ok (Some (last_line ?inp, length ?inp mod 48, tot2)), out2)"
            "unat tot2 = 65 + 65 * (length ?inp div 48)" "length out2 = length out1"
            "enc_inv (?xs @ ?inp) (65 * (Suc k + length ?inp div 48)) (ctx\<lparr>ec_data := poke 0 (last_line ?inp) ?d, data_used := length ?inp mod 48\<rparr>, out2)"
          by auto
        have "unat tot2 \<le> INT_MAX" using e(2) max l'(3) by simp
        moreover have "pos + 64 + 1 = 65 * Suc k" using full(2) by simp
        ultimately have "EVP_EncodeUpdate pos inp ?n (ctx, out) =
            (Ok (unat tot2), ctx\<lparr>ec_data := poke 0 (last_line ?inp) ?d, data_used := length ?inp mod 48\<rparr>, out2)"
          using e(1) o(1) used ne False tl [of ?inp] u by (simp add: EVP_EncodeUpdate_def Let_def not_less)
        moreover have "pos + unat tot2 = 65 * (Suc k + length ?inp div 48)" using e(2) full(2) by simp
        ultimately show ?thesis using e(3,4) o(2) unfolding app' by (metis snd_conv)
      qed
    qed
  qed
qed

text \<open>The client: it hands over the chunks, advances its pointer by what was written, and finishes.\<close>

fun encode_chunks :: "byte list list \<Rightarrow> nat \<Rightarrow> EVP_ENCODE_CTX \<times> byte list \<Rightarrow> nat outcome \<times> (EVP_ENCODE_CTX \<times> byte list)" where
  "encode_chunks [] pos s = seq_ok (EVP_EncodeFinal pos s) (\<lambda>n s1. (Ok (pos + n), s1))"
| "encode_chunks (c # cs) pos s = seq_ok (EVP_EncodeUpdate pos c (length c) s) (\<lambda>n s1. encode_chunks cs (pos + n) s1)"

lemma pem_split: "pem xs = pem (full_lines xs) @ pem (last_line xs)"
proof -
  have "48 dvd length (full_lines xs)" using times_div_less_eq_dividend [of 48 "length xs"] by simp
  from pem_append [OF this, of "last_line xs"] show ?thesis by simp
qed

lemma length_pem_ge: "65 * (length xs div 48) \<le> length (pem xs)"
  using pem_split [of xs] length_pem_lines [of "full_lines xs" "length xs div 48"]
    times_div_less_eq_dividend [of 48 "length xs"] by simp

lemma encode_final_ok:
  assumes inv: "enc_inv xs pos (ctx, out)" and room: "length (pem xs) < length out"
  shows "\<exists>n s'. EVP_EncodeFinal pos (ctx, out) = (Ok n, s') \<and> pos + n = length (pem xs) \<and> take (pos + n) (snd s') = pem xs"
proof -
  let ?r = "last_line xs"
  have i: "length (ec_data ctx) = 48" "data_used ctx = length xs mod 48" "take (length xs mod 48) (ec_data ctx) = ?r"
      "take pos out = pem (full_lines xs)" "pos = 65 * (length xs div 48)"
    using inv by (auto simp: enc_inv_def)
  have lp: "length (pem (full_lines xs)) = pos"
    using length_pem_lines [of "full_lines xs" "length xs div 48"] times_div_less_eq_dividend [of 48 "length xs"] i(5) by simp
  show ?thesis
  proof (cases "?r = []")
    case True
    then have "length xs mod 48 = 0" using length_last_line [of xs] by simp
    then have "EVP_EncodeFinal pos (ctx, out) = (Ok 0, (ctx, out))" using i(2) by (simp add: EVP_EncodeFinal_def)
    moreover have "pem xs = pem (full_lines xs)" by (subst pem_split) (simp add: True del: drop_eq_Nil)
    ultimately show ?thesis using i(4) lp by (intro exI [of _ 0] exI [of _ "(ctx, out)"]) simp
  next
    case False
    have rl: "length ?r = length xs mod 48" "length ?r \<le> 48" "length xs mod 48 \<noteq> 0"
      using False length_last_line [of xs] mod_less_divisor [of 48 "length xs"] by auto
    have pr: "pem ?r = b64 ?r @ [10]" by (rule pem_line [OF False rl(2)])
    have split: "pem xs = pem (full_lines xs) @ b64 ?r @ [10]" using pem_split [of xs] pr by (simp only:)
    have lt: "pos + length (b64 ?r) + 1 < length out" using room lp unfolding split by simp
    let ?o1 = "poke pos (b64 ?r @ [0]) out"
    have e: "EVP_EncodeBlock pos (ec_data ctx) (data_used ctx) out = (Ok (length (b64 ?r)), ?o1)"
      using encode_block [of "length xs mod 48" "ec_data ctx" pos out] i lt by simp
    have o2: "poke (pos + length (b64 ?r)) [10] ?o1 = poke pos (b64 ?r @ [10]) out"
      using poke_poke [of pos "b64 ?r" "[10]" out "[0]"] lt by simp
    have o3: "poke (pos + length (b64 ?r) + 1) [0] (poke pos (b64 ?r @ [10]) out) = poke pos ((b64 ?r @ [10]) @ [0]) out"
      using poke_poke [of pos "b64 ?r @ [10]" "[0]" out "[]"] lt by simp
    have small: "length (b64 ?r) + 1 \<le> INT_MAX"
    proof -
      have "(length ?r + 2) div 3 \<le> 16" using rl(2) by presburger
      then show ?thesis unfolding length_b64 by (simp add: INT_MAX_def)
    qed
    have "EVP_EncodeFinal pos (ctx, out) = (Ok (length (b64 ?r) + 1), (ctx\<lparr>data_used := 0\<rparr>, poke pos ((b64 ?r @ [10]) @ [0]) out))"
      using e o2 o3 lt rl i(2) small by (simp add: EVP_EncodeFinal_def put_def)
    moreover have "take (pos + (length (b64 ?r) + 1)) (poke pos ((b64 ?r @ [10]) @ [0]) out) = take pos out @ b64 ?r @ [10]"
      using lt by (simp add: poke_def)
    ultimately show ?thesis using i(4) lp unfolding split by simp
  qed
qed

lemma encode_chunks_ok:
  "enc_inv xs pos (ctx, out) \<Longrightarrow> length (pem (xs @ concat cs)) < length out \<Longrightarrow> length (pem (xs @ concat cs)) \<le> INT_MAX \<Longrightarrow>
     \<exists>s'. encode_chunks cs pos (ctx, out) = (Ok (length (pem (xs @ concat cs))), s') \<and>
       take (length (pem (xs @ concat cs))) (snd s') = pem (xs @ concat cs)"
proof (induction cs arbitrary: xs pos ctx out)
  case Nil
  then show ?case using encode_final_ok [of xs pos ctx out] by auto
next
  case (Cons c cs)
  have "65 * (length (xs @ c) div 48) \<le> 65 * (length (xs @ concat (c # cs)) div 48)"
    by (intro mult_le_mono div_le_mono) simp_all
  also have "\<dots> \<le> length (pem (xs @ concat (c # cs)))" by (rule length_pem_ge)
  finally have le: "65 * (length (xs @ c) div 48) < length out" "65 * (length (xs @ c) div 48) \<le> INT_MAX"
    using Cons.prems(2,3) by linarith+
  obtain n ctx1 out1 where u: "EVP_EncodeUpdate pos c (length c) (ctx, out) = (Ok n, (ctx1, out1))"
      "enc_inv (xs @ c) (pos + n) (ctx1, out1)" "length out1 = length out"
    using encode_update_ok [OF Cons.prems(1) le] by auto
  show ?case using Cons.IH [OF u(2)] Cons.prems(2,3) u(1,3) by simp
qed

section \<open>Decoding\<close>

text \<open>The characters \<open>p\<close> are in the context, and the text still to come, with them, encodes \<open>bs\<close>.\<close>

definition dec_inv :: "byte list \<Rightarrow> byte list \<Rightarrow> EVP_ENCODE_CTX \<Rightarrow> bool" where
  "dec_inv p bs ctx \<longleftrightarrow> length (ec_data ctx) = 48 \<and> data_used ctx = length p \<and> take (length p) (ec_data ctx) = p \<and>
     length p < 4 \<and> \<not> error_encountered ctx \<and> (eof_seen ctx \<longrightarrow> bs = [])"

lemma b64_eq_Nil [simp]: "b64 bs = [] \<longleftrightarrow> bs = []"
  by (cases bs rule: b64.cases) (simp_all add: Let_def)

lemma decode_loop_b64:
  "dec_inv p bs ctx \<Longrightarrow> b64 bs = p @ filter (\<lambda>c. \<not> is_b64_space c) ts @ rest \<Longrightarrow> pos + bo + length bs \<le> length out \<Longrightarrow>
     \<exists>bs1 bs2 p' ctx'. bs = bs1 @ bs2 \<and> dec_inv p' bs2 ctx' \<and> b64 bs2 = p' @ rest \<and>
       decode_loop (length ts) ts pos bo (ctx, out) = (Ok (bo + length bs1), (ctx', poke (pos + bo) bs1 out))"
proof (induction ts arbitrary: p bs bo ctx out)
  case Nil
  then show ?case by (intro exI [of _ "[]"] exI [of _ bs] exI [of _ p] exI [of _ ctx]) auto
next
  case (Cons c ts)
  note d = Cons.prems(1) [unfolded dec_inv_def]
  show ?case
  proof (cases "is_b64_space c")
    case True
    then show ?thesis using Cons.IH [OF Cons.prems(1) _ Cons.prems(3)] Cons.prems(2) by simp
  next
    case False
    have bs: "b64 bs = (p @ [c]) @ filter (\<lambda>c. \<not> is_b64_space c) ts @ rest" using Cons.prems(2) False by simp
    then have ne: "bs \<noteq> []" by auto
    then have eof: "\<not> eof_seen ctx" "data_used ctx < 48" using d by auto
    let ?c1 = "ctx\<lparr>ec_data := (ec_data ctx)[length p := c], data_used := Suc (length p)\<rparr>"
    have data1: "take (Suc (length p)) (ec_data ?c1) = p @ [c]" using d by (simp add: take_Suc_conv_app_nth)
    show ?thesis
    proof (cases "length p = 3")
      case less: False
      have "dec_inv (p @ [c]) bs ?c1" using d less data1 by (simp add: dec_inv_def)
      from Cons.IH [OF this bs Cons.prems(3)] show ?thesis using False eof d less by (simp add: Let_def)
    next
      case True
      have q: "length (b64 (take 3 bs)) = 4" using decode_quad_b64(2) [of "take 3 bs"] ne by simp
      have split: "b64 (take 3 bs) @ b64 (drop 3 bs) = (p @ [c]) @ filter (\<lambda>c. \<not> is_b64_space c) ts @ rest"
        using bs b64_step [OF ne] by (simp only:)
      have "length (b64 (take 3 bs)) = length (p @ [c])" using q True by simp
      then have "b64 (take 3 bs) = p @ [c] \<and> b64 (drop 3 bs) = filter (\<lambda>c. \<not> is_b64_space c) ts @ rest"
        using split append_eq_append_conv by blast
      then have parts: "b64 (take 3 bs) = p @ [c]" "b64 (drop 3 bs) = filter (\<lambda>c. \<not> is_b64_space c) ts @ rest" by blast+
      have "ec_data ?c1 = b64 (take 3 bs) @ drop 4 (ec_data ?c1)"
        using data1 True parts(1) append_take_drop_id [of 4 "ec_data ?c1"] by simp
      from decode_quad_b64(1) [of "take 3 bs" "drop 4 (ec_data ?c1)", folded this]
      have dq: "base64_decode_quad (ec_data ?c1) = Ok (take 3 bs)" using ne by simp
      let ?b = "take 3 bs" and ?c2 = "?c1\<lparr>data_used := 0, eof_seen := length (take 3 bs) < 3\<rparr>"
      have p: "put (pos + bo) ?b out = (Ok (), poke (pos + bo) ?b out)" using Cons.prems(3) by (simp add: put_def)
      have inv: "dec_inv [] (drop 3 bs) ?c2" using d by (auto simp: dec_inv_def)
      have room: "pos + (bo + length ?b) + length (drop 3 bs) \<le> length (poke (pos + bo) ?b out)"
        using Cons.prems(3) by (subst length_poke) auto
      obtain bs1 bs2 p' ctx' where IH: "drop 3 bs = bs1 @ bs2" "dec_inv p' bs2 ctx'" "b64 bs2 = p' @ rest"
          "decode_loop (length ts) ts pos (bo + length ?b) (?c2, poke (pos + bo) ?b out) =
           (Ok (bo + length ?b + length bs1), (ctx', poke (pos + (bo + length ?b)) bs1 (poke (pos + bo) ?b out)))"
        using Cons.IH [OF inv _ room] parts(2) by auto
      have bs': "bs = (?b @ bs1) @ bs2" using IH(1) append_take_drop_id [of 3 bs] by simp
      have "poke (pos + (bo + length ?b)) bs1 (poke (pos + bo) ?b out) = poke (pos + bo) (?b @ bs1) out"
      proof -
        have "length bs = length ?b + length bs1 + length bs2" using bs' by (metis length_append)
        then have "pos + bo + length ?b + length bs1 \<le> length out" using Cons.prems(3) by linarith
        from poke_poke [OF this, of "[]"] show ?thesis by (simp add: add.assoc)
      qed
      moreover have "decode_loop (length (c # ts)) (c # ts) pos bo (ctx, out) =
          decode_loop (length ts) ts pos (bo + length ?b) (?c2, poke (pos + bo) ?b out)"
        using False eof d True dq p by (simp add: Let_def)
      ultimately show ?thesis using IH bs' by (intro exI [of _ "?b @ bs1"] exI [of _ bs2] exI [of _ p'] exI [of _ ctx']) (simp add: add.assoc)
    qed
  qed
qed

fun decode_chunks :: "byte list list \<Rightarrow> nat \<Rightarrow> EVP_ENCODE_CTX \<times> byte list \<Rightarrow> nat outcome \<times> (EVP_ENCODE_CTX \<times> byte list)" where
  "decode_chunks [] pos s = (case EVP_DecodeFinal (fst s) of Ok _ \<Rightarrow> (Ok pos, s) | Fail \<Rightarrow> (Fail, s) | Undef \<Rightarrow> (Undef, s))"
| "decode_chunks (c # cs) pos s = seq_ok (EVP_DecodeUpdate pos c (length c) s) (\<lambda>(n, _) s1. decode_chunks cs (pos + n) s1)"

lemma decode_chunks_ok:
  "dec_inv p bs ctx \<Longrightarrow> b64 bs = p @ filter (\<lambda>c. \<not> is_b64_space c) (concat cs) \<Longrightarrow> pos + length bs \<le> length out \<Longrightarrow>
     length bs \<le> INT_MAX \<Longrightarrow>
     \<exists>ctx'. decode_chunks cs pos (ctx, out) = (Ok (pos + length bs), (ctx', poke pos bs out))"
proof (induction cs arbitrary: p bs pos ctx out)
  case Nil
  have "bs = []"
  proof (rule ccontr)
    assume "bs \<noteq> []"
    then have "4 \<le> length (b64 bs)" by (cases bs rule: b64.cases) (simp_all add: Let_def)
    then show False using Nil by (simp add: dec_inv_def)
  qed
  then show ?case using Nil by (simp add: dec_inv_def EVP_DecodeFinal_def)
next
  case (Cons c cs)
  obtain bs1 bs2 p' ctx' where d: "bs = bs1 @ bs2" "dec_inv p' bs2 ctx'" "b64 bs2 = p' @ filter (\<lambda>c. \<not> is_b64_space c) (concat cs)"
      "decode_loop (length c) c pos 0 (ctx, out) = (Ok (length bs1), (ctx', poke pos bs1 out))"
    using decode_loop_b64 [OF Cons.prems(1), of c "filter (\<lambda>c. \<not> is_b64_space c) (concat cs)" pos 0 out] Cons.prems by auto
  have u: "EVP_DecodeUpdate pos c (length c) (ctx, out) = (Ok (length bs1, \<not> eof_seen ctx'), (ctx', poke pos bs1 out))"
    using d(1,4) Cons.prems(1,4) by (simp add: EVP_DecodeUpdate_def dec_inv_def)
  have room: "pos + length bs1 + length bs2 \<le> length (poke pos bs1 out)"
    using Cons.prems(3) d(1) by (subst length_poke) simp_all
  obtain ctx2 where "decode_chunks cs (pos + length bs1) (ctx', poke pos bs1 out) =
      (Ok (pos + length bs1 + length bs2), (ctx2, poke (pos + length bs1) bs2 (poke pos bs1 out)))"
    using Cons.IH [OF d(2,3) room] Cons.prems(4) d(1) by auto
  moreover have "poke (pos + length bs1) bs2 (poke pos bs1 out) = poke pos bs out"
    using poke_poke [of pos bs1 bs2 out "[]"] Cons.prems(3) d(1) by simp
  ultimately show ?case using u d(1) by simp
qed

lemma filter_b64: "filter (\<lambda>c. \<not> is_b64_space c) (b64 bs) = b64 bs"
  by (induction bs rule: b64.induct) (simp_all add: Let_def digit64_props ascii_to_bin_pad)

lemma filter_pem: "filter (\<lambda>c. \<not> is_b64_space c) (pem bs) = b64 bs"
proof (induction bs rule: pem.induct)
  case (1 bs)
  show ?case
  proof (cases "bs = []")
    case False
    have "b64 bs = b64 (take 48 bs) @ b64 (drop 48 bs)"
    proof (cases "48 \<le> length bs")
      case True then show ?thesis using b64_append [of "take 48 bs" "drop 48 bs"] by simp
    qed simp
    moreover have "is_b64_space 10" by (simp add: is_b64_space_def)
    ultimately show ?thesis using 1 False by (subst pem.simps) (simp add: filter_b64)
  qed simp
qed

text \<open>C21: Base64 through the streaming interface: whatever chunks the input is handed over in, encoding writes the
  base64 lines of the whole input, and whatever chunks that text is handed over in, decoding it gives the input
  back. Both sides announce the right lengths, never leave buffers that are large enough, and end without error.\<close>

theorem base64_stream_roundtrip:
  assumes "concat ins = bs" "length (pem bs) < length dst" "length (pem bs) \<le> INT_MAX" "length bs \<le> length out"
  shows "\<exists>n s. encode_chunks ins 0 (EVP_EncodeInit, dst) = (Ok n, s) \<and> take n (snd s) = pem bs \<and>
    (\<forall>texts. concat texts = take n (snd s) \<longrightarrow>
      (\<exists>s'. decode_chunks texts 0 (EVP_DecodeInit, out) = (Ok (length bs), s') \<and> take (length bs) (snd s') = bs))"
proof -
  obtain s where s: "encode_chunks ins 0 (EVP_EncodeInit, dst) = (Ok (length (pem bs)), s)" "take (length (pem bs)) (snd s) = pem bs"
    using encode_chunks_ok [OF enc_inv_init, of ins dst] assms(1-3) by auto
  have "length bs \<le> length (b64 bs)" unfolding length_b64 by presburger
  also have "\<dots> \<le> length (pem bs)" using filter_pem [of bs] length_filter_le [of "\<lambda>c. \<not> is_b64_space c" "pem bs"] by simp
  finally have max: "length bs \<le> INT_MAX" using assms(3) by linarith
  have "\<exists>s'. decode_chunks texts 0 (EVP_DecodeInit, out) = (Ok (length bs), s') \<and> take (length bs) (snd s') = bs"
    if "concat texts = take (length (pem bs)) (snd s)" for texts
  proof -
    have "dec_inv [] bs EVP_DecodeInit" by (simp add: dec_inv_def EVP_DecodeInit_def EVP_EncodeInit_def)
    from decode_chunks_ok [OF this, of texts 0 out] show ?thesis
      using that s(2) filter_pem [of bs] assms(4) max by (auto simp: poke_def)
  qed
  then show ?thesis using s by blast
qed

theorem base64_stream_roundtrip_witness:
  "\<exists>n s. encode_chunks [[77], [97, 110, 33]] 0 (EVP_EncodeInit, replicate 20 0) = (Ok n, s) \<and> take n (snd s) = pem [77, 97, 110, 33] \<and>
    (\<forall>texts. concat texts = take n (snd s) \<longrightarrow>
      (\<exists>s'. decode_chunks texts 0 (EVP_DecodeInit, replicate 6 0) = (Ok (length [77, 97, 110, 33 :: byte]), s') \<and>
        take (length [77, 97, 110, 33 :: byte]) (snd s') = [77, 97, 110, 33]))"
  by (rule base64_stream_roundtrip) (simp_all add: pem.simps Let_def INT_MAX_def)

section \<open>Errors\<close>

text \<open>What a text without white space means: quads up to the first that ends in padding, which must be the last. The
  Boolean says whether such a quad was seen.\<close>

fun b64_text :: "bool \<Rightarrow> byte list \<Rightarrow> byte list option" where
  "b64_text eof [] = Some []"
| "b64_text True (x # xs) = None"
| "b64_text False (a # b # c # d # xs) = (case base64_decode_quad [a, b, c, d] of
     Ok bs \<Rightarrow> map_option (append bs) (b64_text (length bs < 3) xs) | Fail \<Rightarrow> None | Undef \<Rightarrow> None)"
| "b64_text False _ = None"

text \<open>A client that does not look at the results of the updates until the end.\<close>

fun decode_all :: "byte list list \<Rightarrow> nat \<Rightarrow> EVP_ENCODE_CTX \<times> byte list \<Rightarrow>
    (nat \<times> bool) outcome list \<times> nat \<times> EVP_ENCODE_CTX \<times> byte list" where
  "decode_all [] pos s = ([], pos, s)"
| "decode_all (c # cs) pos s =
     (case EVP_DecodeUpdate pos c (length c) s of (r, s1) \<Rightarrow>
      case decode_all cs (case r of Ok (n, _) \<Rightarrow> pos + n | _ \<Rightarrow> pos) s1 of (rs, end, s2) \<Rightarrow> (r # rs, end, s2))"

lemma decode_quad_take: "4 \<le> length xs \<Longrightarrow> base64_decode_quad xs = base64_decode_quad (take 4 xs)"
  unfolding base64_decode_quad_def by (simp add: min_def)

lemma decode_quad_props:
  "4 \<le> length xs \<Longrightarrow> base64_decode_quad xs \<noteq> Undef" "base64_decode_quad xs = Ok bs \<Longrightarrow> length bs \<le> 3"
  unfolding base64_decode_quad_def by (auto simp: Let_def split: if_splits)

definition dec_pend :: "byte list \<Rightarrow> EVP_ENCODE_CTX \<Rightarrow> bool" where
  "dec_pend p ctx \<longleftrightarrow> length (ec_data ctx) = 48 \<and> data_used ctx = length p \<and> take (length p) (ec_data ctx) = p \<and>
     length p < 4 \<and> \<not> error_encountered ctx \<and> (eof_seen ctx \<longrightarrow> p = [])"

text \<open>One update: it takes its characters off the text, or fails, and then no continuation makes the text valid.\<close>

lemma decode_loop_text:
  "dec_pend p ctx \<Longrightarrow> pos + bo + length p + length ts \<le> length out \<Longrightarrow>
   (\<exists>ctx' out'. decode_loop (length ts) ts pos bo (ctx, out) = (Fail, (ctx', out')) \<and> error_encountered ctx' \<and>
      (\<forall>rest. b64_text (eof_seen ctx) (p @ filter (\<lambda>c. \<not> is_b64_space c) ts @ rest) = None)) \<or>
   (\<exists>bs p' ctx'. decode_loop (length ts) ts pos bo (ctx, out) = (Ok (bo + length bs), (ctx', poke (pos + bo) bs out)) \<and>
      dec_pend p' ctx' \<and> length bs + length p' \<le> length p + length ts \<and>
      (\<forall>rest. b64_text (eof_seen ctx) (p @ filter (\<lambda>c. \<not> is_b64_space c) ts @ rest) =
         map_option (append bs) (b64_text (eof_seen ctx') (p' @ rest))))"
proof (induction ts arbitrary: p bo ctx out)
  case Nil
  then show ?case by (intro disjI2 exI [of _ "[]"] exI [of _ p] exI [of _ ctx]) (auto simp: option.map_ident)
next
  case (Cons c ts)
  note d = Cons.prems(1) [unfolded dec_pend_def]
  consider (space) "is_b64_space c" | (eof) "\<not> is_b64_space c" "eof_seen ctx"
    | (char) "\<not> is_b64_space c" "\<not> eof_seen ctx" by blast
  then show ?case
  proof cases
    case space
    have "pos + bo + length p + length ts \<le> length out" using Cons.prems(2) by simp
    from Cons.IH [OF Cons.prems(1) this] show ?thesis
    proof (elim disjE exE conjE)
      fix bs p' ctx'
      assume "decode_loop (length ts) ts pos bo (ctx, out) = (Ok (bo + length bs), (ctx', poke (pos + bo) bs out))"
        "dec_pend p' ctx'" "length bs + length p' \<le> length p + length ts"
        "\<forall>rest. b64_text (eof_seen ctx) (p @ filter (\<lambda>c. \<not> is_b64_space c) ts @ rest) =
           map_option (append bs) (b64_text (eof_seen ctx') (p' @ rest))"
      then show ?thesis using space by (intro disjI2 exI [of _ bs] exI [of _ p'] exI [of _ ctx']) simp
    qed (use space in auto)
  next
    case eof
    then show ?thesis using d by (intro disjI1) simp
  next
    case char
    let ?c1 = "ctx\<lparr>ec_data := (ec_data ctx)[length p := c], data_used := Suc (length p)\<rparr>"
    have data1: "take (Suc (length p)) (ec_data ?c1) = p @ [c]" using d by (simp add: take_Suc_conv_app_nth)
    show ?thesis
    proof (cases "length p = 3")
      case less: False
      have "dec_pend (p @ [c]) ?c1" using d less data1 char by (simp add: dec_pend_def)
      from Cons.IH [OF this, of bo out] show ?thesis using char d less Cons.prems(2) by (simp add: Let_def)
    next
      case True
      have "base64_decode_quad (ec_data ?c1) = base64_decode_quad (take 4 (ec_data ?c1))"
        by (rule decode_quad_take) (use d in simp)
      also have "take 4 (ec_data ?c1) = p @ [c]" using data1 True by simp
      finally have q: "base64_decode_quad (ec_data ?c1) = base64_decode_quad (p @ [c])" .
      obtain x y z where p: "p = [x, y, z]" using True by (auto simp: numeral_eq_Suc length_Suc_conv)
      have text_eq: "b64_text (eof_seen ctx) (p @ filter (\<lambda>c. \<not> is_b64_space c) (c # ts) @ rest) =
          (case base64_decode_quad (p @ [c]) of
             Ok bs \<Rightarrow> map_option (append bs) (b64_text (length bs < 3) (filter (\<lambda>c. \<not> is_b64_space c) ts @ rest))
           | Fail \<Rightarrow> None | Undef \<Rightarrow> None)" for rest
        using char by (simp add: p)
      show ?thesis
      proof (cases "base64_decode_quad (p @ [c])")
        case Undef then show ?thesis using decode_quad_props(1) [of "p @ [c]"] True by simp
      next
        case Fail
        then show ?thesis unfolding text_eq using char d True q by (intro disjI1) (simp add: Let_def)
      next
        case (Ok bs)
        have len: "length bs \<le> 3" by (rule decode_quad_props(2) [OF Ok])
        have pt: "put (pos + bo) bs out = (Ok (), poke (pos + bo) bs out)"
          using Cons.prems(2) len True by (simp add: put_def)
        let ?c2 = "?c1\<lparr>data_used := 0, eof_seen := length bs < 3\<rparr>"
        have step: "decode_loop (length (c # ts)) (c # ts) pos bo (ctx, out) =
            decode_loop (length ts) ts pos (bo + length bs) (?c2, poke (pos + bo) bs out)"
          using char d True q Ok pt by (simp add: Let_def)
        have pend: "dec_pend [] ?c2" using d by (simp add: dec_pend_def)
        have lp: "length (poke (pos + bo) bs out) = length out" using Cons.prems(2) len True by (subst length_poke) simp_all
        have room: "pos + (bo + length bs) + length ([] :: byte list) + length ts \<le> length (poke (pos + bo) bs out)"
          using Cons.prems(2) len True lp by simp
        have two: "poke (pos + (bo + length bs)) bs1 (poke (pos + bo) bs out) = poke (pos + bo) (bs @ bs1) out"
          if "length bs1 \<le> length ts" for bs1
        proof -
          have "pos + bo + length bs + length bs1 \<le> length out" using Cons.prems(2) len True that by simp
          from poke_poke [OF this, of "[]"] show ?thesis by (simp add: add.assoc)
        qed
        from Cons.IH [OF pend room] show ?thesis
        proof (elim disjE exE conjE)
          fix ctx' out'
          assume "decode_loop (length ts) ts pos (bo + length bs) (?c2, poke (pos + bo) bs out) = (Fail, (ctx', out'))"
            "error_encountered ctx'"
            "\<forall>rest. b64_text (eof_seen ?c2) ([] @ filter (\<lambda>c. \<not> is_b64_space c) ts @ rest) = None"
          then show ?thesis unfolding step text_eq Ok by (intro disjI1) simp
        next
          fix bs1 p' ctx'
          assume IH: "decode_loop (length ts) ts pos (bo + length bs) (?c2, poke (pos + bo) bs out) =
              (Ok (bo + length bs + length bs1), (ctx', poke (pos + (bo + length bs)) bs1 (poke (pos + bo) bs out)))"
            "dec_pend p' ctx'" "length bs1 + length p' \<le> length ([] :: byte list) + length ts"
            "\<forall>rest. b64_text (eof_seen ?c2) ([] @ filter (\<lambda>c. \<not> is_b64_space c) ts @ rest) =
               map_option (append bs1) (b64_text (eof_seen ctx') (p' @ rest))"
          have "b64_text (length bs < 3) (filter (\<lambda>c. \<not> is_b64_space c) ts @ rest) =
              map_option (append bs1) (b64_text (eof_seen ctx') (p' @ rest))" for rest using IH(4) by simp
          then show ?thesis unfolding step text_eq Ok IH(1) using IH(2,3) len True two [of bs1]
            by (intro disjI2 exI [of _ "bs @ bs1"] exI [of _ p'] exI [of _ ctx'])
              (simp add: option.map_comp comp_def add.assoc)
        qed
      qed
    qed
  qed
qed

lemma failed_updates:
  "error_encountered ctx \<Longrightarrow> decode_all cs pos (ctx, out) = (replicate (length cs) Fail, pos, (ctx, out))"
  by (induction cs) (simp_all add: EVP_DecodeUpdate_def)

lemma b64_text_short: "length p < 4 \<Longrightarrow> p \<noteq> [] \<Longrightarrow> b64_text eof p = None"
  by (cases "(eof, p)" rule: b64_text.cases) simp_all

lemma decode_all_text:
  "dec_pend p ctx \<Longrightarrow> pos + length p + length (concat cs) \<le> length out \<Longrightarrow> length p + length (concat cs) \<le> INT_MAX \<Longrightarrow>
   \<exists>k rs n ctx' out'. decode_all cs pos (ctx, out) = (map Ok rs @ replicate k Fail, n, (ctx', out')) \<and>
     (error_encountered ctx' \<longleftrightarrow> 0 < k) \<and>
     (case b64_text (eof_seen ctx) (p @ filter (\<lambda>c. \<not> is_b64_space c) (concat cs)) of
        None \<Rightarrow> EVP_DecodeFinal ctx' = Fail
      | Some bs \<Rightarrow> EVP_DecodeFinal ctx' = Ok () \<and> k = 0 \<and> n = pos + length bs \<and> out' = poke pos bs out \<and>
          length bs \<le> length p + length (concat cs))"
proof (induction cs arbitrary: p pos ctx out)
  case Nil
  then show ?case using b64_text_short [of p "eof_seen ctx"]
    by (intro exI [of _ 0] exI [of _ "[]"] exI [of _ pos] exI [of _ ctx] exI [of _ out])
      (cases p; auto simp: EVP_DecodeFinal_def dec_pend_def poke_def)
next
  case (Cons c cs)
  have ne: "\<not> error_encountered ctx" using Cons.prems(1) by (simp add: dec_pend_def)
  have room: "pos + 0 + length p + length c \<le> length out" using Cons.prems(2) by simp
  from decode_loop_text [OF Cons.prems(1) room] show ?case
  proof (elim disjE exE conjE)
    fix ctx' out'
    assume f: "decode_loop (length c) c pos 0 (ctx, out) = (Fail, (ctx', out'))" "error_encountered ctx'"
      "\<forall>rest. b64_text (eof_seen ctx) (p @ filter (\<lambda>c. \<not> is_b64_space c) c @ rest) = None"
    then show ?case using ne failed_updates [OF f(2), of cs pos out']
      by (intro exI [of _ "Suc (length cs)"] exI [of _ "[]"] exI [of _ pos] exI [of _ ctx'] exI [of _ out'])
        (simp add: EVP_DecodeUpdate_def EVP_DecodeFinal_def)
  next
    fix bs p' ctx'
    assume u: "decode_loop (length c) c pos 0 (ctx, out) = (Ok (0 + length bs), (ctx', poke (pos + 0) bs out))"
      "dec_pend p' ctx'" "length bs + length p' \<le> length p + length c"
      "\<forall>rest. b64_text (eof_seen ctx) (p @ filter (\<lambda>c. \<not> is_b64_space c) c @ rest) =
         map_option (append bs) (b64_text (eof_seen ctx') (p' @ rest))"
    have up: "EVP_DecodeUpdate pos c (length c) (ctx, out) = (Ok (length bs, \<not> eof_seen ctx'), (ctx', poke pos bs out))"
      using u(1,3) ne Cons.prems(3) by (simp add: EVP_DecodeUpdate_def)
    have lp: "length (poke pos bs out) = length out" using Cons.prems(2) u(3) by (subst length_poke) simp_all
    have room1: "pos + length bs + length p' + length (concat cs) \<le> length (poke pos bs out)"
      and max1: "length p' + length (concat cs) \<le> INT_MAX"
      using Cons.prems(2,3) u(3) lp by simp_all
    from Cons.IH [OF u(2) room1 max1] obtain k rs n ctx2 out2 where IH:
      "decode_all cs (pos + length bs) (ctx', poke pos bs out) = (map Ok rs @ replicate k Fail, n, (ctx2, out2))"
      "error_encountered ctx2 \<longleftrightarrow> 0 < k"
      "case b64_text (eof_seen ctx') (p' @ filter (\<lambda>c. \<not> is_b64_space c) (concat cs)) of
        None \<Rightarrow> EVP_DecodeFinal ctx2 = Fail
      | Some bs' \<Rightarrow> EVP_DecodeFinal ctx2 = Ok () \<and> k = 0 \<and> n = pos + length bs + length bs' \<and>
          out2 = poke (pos + length bs) bs' (poke pos bs out) \<and> length bs' \<le> length p' + length (concat cs)" by blast
    have two: "poke (pos + length bs) bs' (poke pos bs out) = poke pos (bs @ bs') out"
      if "length bs' \<le> length p' + length (concat cs)" for bs'
      using poke_poke [of pos bs bs' out "[]"] room1 lp that by simp
    show ?case using u(3) up IH(1,2) u(4) IH(3) two
      by (intro exI [of _ k] exI [of _ "(length bs, \<not> eof_seen ctx') # rs"] exI [of _ n] exI [of _ ctx2] exI [of _ out2])
        (auto split: option.splits)
  qed
qed

text \<open>C22: The streaming decoder accepts exactly the valid texts, and errors stay. Whatever chunks a text is handed over
  in, a client that ignores the results of \<^verbatim>\<open>EVP_DecodeUpdate\<close> sees \<^verbatim>\<open>EVP_DecodeFinal\<close> succeed exactly when the text without
  its white space is a sequence of valid quads of which only the last ends in padding; then no update has failed and the
  output is the decoded bytes, the rest of the buffer being unchanged. Once an update has failed, every later update and
  the final call fail. The buffer has a byte for each character and the text is not longer than \<^verbatim>\<open>INT_MAX\<close>.\<close>

theorem base64_decoder_exact:
  assumes "length (concat chunks) \<le> length out" "length (concat chunks) \<le> INT_MAX"
  shows "\<exists>oks k n ctx out'. decode_all chunks 0 (EVP_DecodeInit, out) = (map Ok oks @ replicate k Fail, n, (ctx, out')) \<and>
    (0 < k \<longrightarrow> EVP_DecodeFinal ctx = Fail) \<and>
    (case b64_text False (filter (\<lambda>c. \<not> is_b64_space c) (concat chunks)) of
       None \<Rightarrow> EVP_DecodeFinal ctx = Fail
     | Some bs \<Rightarrow> EVP_DecodeFinal ctx = Ok () \<and> k = 0 \<and> n = length bs \<and> out' = bs @ drop (length bs) out)"
proof -
  have pend: "dec_pend [] EVP_DecodeInit" "eof_seen EVP_DecodeInit = False"
    by (simp_all add: dec_pend_def EVP_DecodeInit_def EVP_EncodeInit_def)
  obtain k rs n ctx' out' where d: "decode_all chunks 0 (EVP_DecodeInit, out) = (map Ok rs @ replicate k Fail, n, (ctx', out'))"
     "error_encountered ctx' \<longleftrightarrow> 0 < k"
     "case b64_text False (filter (\<lambda>c. \<not> is_b64_space c) (concat chunks)) of
        None \<Rightarrow> EVP_DecodeFinal ctx' = Fail
      | Some bs \<Rightarrow> EVP_DecodeFinal ctx' = Ok () \<and> k = 0 \<and> n = length bs \<and> out' = poke 0 bs out"
    using decode_all_text [OF pend(1), of 0 chunks out] assms pend(2) by (auto split: option.splits)
  moreover have "0 < k \<longrightarrow> EVP_DecodeFinal ctx' = Fail" using d(2) by (simp add: EVP_DecodeFinal_def)
  ultimately show ?thesis 
    by (intro exI [of _ rs] exI [of _ k] exI [of _ n] exI [of _ ctx'] exI [of _ out']) (auto simp: poke_def split: option.splits)
qed

text \<open>A second quad behind the padding.\<close>

theorem base64_decoder_exact_witness:
  "\<exists>oks k n ctx out'. decode_all [[81, 81], [61, 61], [10], [81], [82, 83, 84]] 0 (EVP_DecodeInit, replicate 12 0) =
      (map Ok oks @ replicate k Fail, n, (ctx, out')) \<and>
    (0 < k \<longrightarrow> EVP_DecodeFinal ctx = Fail) \<and>
    (case b64_text False (filter (\<lambda>c. \<not> is_b64_space c) (concat [[81, 81], [61, 61], [10], [81], [82, 83, 84]])) of
       None \<Rightarrow> EVP_DecodeFinal ctx = Fail
     | Some bs \<Rightarrow> EVP_DecodeFinal ctx = Ok () \<and> k = 0 \<and> n = length bs \<and> out' = bs @ drop (length bs) (replicate 12 0))"
  by (rule base64_decoder_exact) (simp_all add: INT_MAX_def)

section \<open>Lengths\<close>

text \<open>The length that \<^verbatim>\<open>EVP_EncodedLength\<close> announces is exactly that of the base64 text and its terminator, and it fails
  exactly when that length does not fit into 64 bits.\<close>

theorem encoded_length_exact:
  "EVP_EncodedLength len = (if 4 * ((unat len + 2) div 3) + 1 < 2 ^ 64 then Ok (of_nat (4 * ((unat len + 2) div 3) + 1)) else Fail)"
proof (cases "unat len + 2 < 2 ^ 64")
  case False
  then have "unat (len + 2) < unat len" using unat_u64_less [of len] by (simp add: unat_plus_if')
  then have "EVP_EncodedLength len = Fail" by (simp add: EVP_EncodedLength_def word_less_nat_alt)
  moreover have "\<not> 4 * ((unat len + 2) div 3) + 1 < 2 ^ 64"
  proof -
    have "(2 ^ 64 :: nat) div 3 \<le> (unat len + 2) div 3" using False by (intro div_le_mono) simp
    then show ?thesis by simp
  qed
  ultimately show ?thesis by simp
next
  case True
  let ?m = "(unat len + 2) div 3"
  have u: "unat (len + 2) = unat len + 2" using True by (simp add: unat_plus_if')
  define q where "q = (len + 2) div 3"
  have q: "unat q = ?m" unfolding q_def unat_div_distrib u by simp
  have nw: "\<not> len + 2 < len" using u by (simp add: word_less_nat_alt)
  have sh: "unat (push_bit 2 q) = (4 * ?m) mod 2 ^ 64" by (simp add: push_bit_eq_mult unat_word_ariths q mult.commute)
  show ?thesis
  proof (cases "4 * ?m < 2 ^ 64")
    case False
    have "unat (drop_bit 2 (push_bit 2 q)) < 2 ^ 62" unfolding unat_drop_bit_div sh by simp
    moreover have "2 ^ 62 \<le> unat q" using False q by simp
    ultimately have "drop_bit 2 (push_bit 2 q) \<noteq> q" by auto
    then show ?thesis using nw False by (simp add: EVP_EncodedLength_def q_def [symmetric] Let_def)
  next
    case small: True
    have sh': "unat (push_bit 2 q) = 4 * ?m" using sh small by simp
    then have "unat (drop_bit 2 (push_bit 2 q)) = unat q" unfolding unat_drop_bit_div using q by simp
    then have d: "drop_bit 2 (push_bit 2 q) = q" by (simp add: word_unat_eq_iff)
    have lt: "4 * ?m + 1 < 2 ^ 64"
    proof -
      have "4 * m + 1 < 2 ^ 64" if "4 * m < 2 ^ 64" for m :: nat
      proof -
        have "m < 2 ^ 62" using that by simp
        then show ?thesis by simp
      qed
      then show ?thesis using small .
    qed
    then have s1: "unat (push_bit 2 q + 1) = 4 * ?m + 1" using sh' by (simp add: unat_plus_if')
    then have "\<not> push_bit 2 q + 1 < push_bit 2 q" using sh' by (simp add: word_less_nat_alt)
    moreover have "push_bit 2 q + 1 = of_nat (4 * ?m + 1)" by (rule unat_eq_of_nat [OF s1])
    ultimately have "EVP_EncodedLength len = Ok (of_nat (4 * ?m + 1))" using nw d
      by (simp only: EVP_EncodedLength_def q_def [symmetric] Let_def if_False not_True_eq_False simp_thms)
    then show ?thesis using lt by (simp only: if_True)
  qed
qed

end
