(* ===== verification/Set_Of.thy ===== *)
theory Set_Of
  imports Bytestring "HOL-Library.List_Lexorder"
begin

text \<open>
  \<^verbatim>\<open>CBB_flush_asn1_set_of\<close> (\<^verbatim>\<open>crypto/bytestring/cbb.c\<close>) puts the elements of a SET OF into the order of DER, and \<^verbatim>\<open>CBB_finish_i2d\<close>
  (\<^verbatim>\<open>crypto/bytestring/asn1_compat.c\<close>) hands a finished encoding out the way the old \<^verbatim>\<open>i2d\<close> functions do. \<^verbatim>\<open>qsort\<close> is an
  insertion sort; elements that compare equal have the same bytes, so every sort writes the same bytes back.
\<close>

section \<open>Sorting\<close>

text \<open>The sign of \<^verbatim>\<open>memcmp\<close> on as many bytes as both have.\<close>

fun memcmp_sign :: "byte list \<Rightarrow> byte list \<Rightarrow> int" where
  "memcmp_sign (a # as) (b # bs) = (if a < b then -1 else if b < a then 1 else memcmp_sign as bs)"
| "memcmp_sign _ _ = 0"

definition compare_set_of_element :: "CBS \<Rightarrow> CBS \<Rightarrow> int" where
  "compare_set_of_element a b =
     (let a_len = CBS_len a; b_len = CBS_len b; min_len = (if a_len < b_len then a_len else b_len);
          ret = memcmp_sign (take min_len (CBS_data a)) (take min_len (CBS_data b))
      in if ret \<noteq> 0 then ret else if a_len = b_len then 0 else if a_len < b_len then -1 else 1)"

fun set_insert :: "CBS \<Rightarrow> CBS list \<Rightarrow> CBS list" where
  "set_insert x [] = [x]"
| "set_insert x (y # ys) = (if compare_set_of_element x y \<le> 0 then x # y # ys else y # set_insert x ys)"

fun qsort :: "CBS list \<Rightarrow> CBS list" where
  "qsort [] = []"
| "qsort (x # xs) = set_insert x (qsort xs)"

section \<open>SET OF\<close>

lemma any_element_decreases:
  "cbs_wf s \<Longrightarrow> CBS_get_any_asn1_element s = (Ok el, s') \<Longrightarrow> cbs_len s' < cbs_len s"
  using any_element_Ok [of s "fst el" "fst (snd el)" "snd (snd el)" s'] by simp

function count_children :: "CBS \<Rightarrow> nat \<Rightarrow> nat outcome" where
  "count_children cbs num_children =
     (if CBS_len cbs = 0 then Ok num_children
      else if \<not> cbs_wf cbs then Undef
      else case CBS_get_any_asn1_element cbs of
          (Ok _, cbs1) \<Rightarrow> count_children cbs1 (num_children + 1)
        | (Fail, _) \<Rightarrow> Fail
        | (Undef, _) \<Rightarrow> Undef)"
  by pat_completeness auto
termination
  by (relation "measure (\<lambda>(s, n). cbs_len s)") (auto dest: any_element_decreases [OF _ sym])

declare count_children.simps [simp del]

fun get_children :: "nat \<Rightarrow> CBS \<Rightarrow> CBS list outcome" where
  "get_children 0 cbs = Ok []"
| "get_children (Suc n) cbs = (case CBS_get_any_asn1_element cbs of
      (Ok (el, _, _), cbs1) \<Rightarrow> (case get_children n cbs1 of Ok els \<Rightarrow> Ok (el # els) | Fail \<Rightarrow> Fail | Undef \<Rightarrow> Undef)
    | (Fail, _) \<Rightarrow> Fail
    | (Undef, _) \<Rightarrow> Undef)"

fun add_children :: "CBS list \<Rightarrow> nat \<Rightarrow> cbb_state \<Rightarrow> unit outcome \<times> cbb_state" where
  "add_children [] d st = (Ok (), st)"
| "add_children (c # cs) d st = seq_ok (CBB_add_bytes (CBS_data c) (of_nat (CBS_len c)) d st) (\<lambda>_ st1. add_children cs d st1)"

text \<open>\<^verbatim>\<open>cbb->base->len = cbb->offset + cbb->pending_len_len\<close>\<close>

definition rewind :: "nat \<Rightarrow> cbb_state \<Rightarrow> cbb_state" where
  "rewind d st = st\<lparr>cs_base := map_option (\<lambda>b. b\<lparr>bb_len :=
     cb_offset (cs_chain st ! d) + ucast (cb_pending_len_len (cs_chain st ! d))\<rparr>) (cs_base st)\<rparr>"

definition sizeof_CBS :: nat where "sizeof_CBS = 16"

definition set_of_children :: "nat \<Rightarrow> nat \<Rightarrow> byte list \<Rightarrow> u64 \<Rightarrow> cbb_state \<Rightarrow> unit outcome \<times> cbb_state" where
  "set_of_children d num_children data buf_len st =
     (case cbb_malloc st of (buf_ok, st1) \<Rightarrow> (case cbb_malloc st1 of (children_ok, st2) \<Rightarrow>
        if length data < unat buf_len then (Undef, st2)
        else if \<not> buf_ok \<or> \<not> children_ok then (Fail, st2)
        else (case get_children num_children (CBS_init (take (unat buf_len) data) (unat buf_len)) of
            Ok children \<Rightarrow> seq_ok (add_children (qsort children) d (rewind d st2)) (\<lambda>_ st3.
              if CBB_len d st3 = Ok buf_len then (Ok (), st3) else (Undef, st3))
          | Fail \<Rightarrow> (Fail, st2)
          | Undef \<Rightarrow> (Undef, st2))))"

definition CBB_flush_asn1_set_of :: "nat \<Rightarrow> cbb_state \<Rightarrow> unit outcome \<times> cbb_state" where
  "CBB_flush_asn1_set_of d st = seq_ok (CBB_flush d st) (\<lambda>_ st1.
     case (CBB_data d st1, CBB_len d st1) of
       (Ok data, Ok len) \<Rightarrow> (case count_children (CBS_init data (unat len)) 0 of
           Ok num_children \<Rightarrow>
             if num_children < 2 then (Ok (), st1)
             else if (2 ^ 64 - 1) div sizeof_CBS < num_children then (Fail, st1)
             else set_of_children d num_children data len st1
         | Fail \<Rightarrow> (Fail, st1)
         | Undef \<Rightarrow> (Undef, st1))
     | _ \<Rightarrow> (Undef, st1))"

section \<open>Handing out an encoding\<close>

text \<open>The output pointer: not given, a null pointer that is set, or a buffer that is written and advanced.\<close>

datatype outp = NoOut | NullOut | BufOut "byte list"

text \<open>The results are the number of bytes, and the object that \<^verbatim>\<open>*outp\<close> points into with the position it points to. A
  negative return is \<open>Fail\<close>.\<close>

definition CBB_finish_i2d :: "outp \<Rightarrow> cbb_state \<Rightarrow> (nat \<times> (byte list \<times> nat) option) outcome \<times> cbb_state" where
  "CBB_finish_i2d outp st = (case cs_base st of
      None \<Rightarrow> (Undef, st)
    | Some b \<Rightarrow>
        if \<not> bb_can_resize b then (Undef, st)
        else case CBB_finish True st of
            (Fail, st1) \<Rightarrow> seq_ok (CBB_cleanup 0 st1) (\<lambda>_ st2. (Fail, st2))
          | (Undef, st1) \<Rightarrow> (Undef, st1)
          | (Ok (der, der_len), st1) \<Rightarrow>
              if 2 ^ 31 - 1 < unat der_len then (Fail, st1)
              else (case outp of
                  NoOut \<Rightarrow> (Ok (unat der_len, None), st1)
                | NullOut \<Rightarrow> (Ok (unat der_len, Some (der, 0)), st1)
                | BufOut buf \<Rightarrow>
                    if length buf < unat der_len \<or> length der < unat der_len then (Undef, st1)
                    else (Ok (unat der_len, Some (take (unat der_len) der @ drop (unat der_len) buf, unat der_len)), st1)))"

section \<open>The order\<close>

lemma memcmp_take: "memcmp_sign (take (min (length as) (length bs)) as) (take (min (length as) (length bs)) bs) = memcmp_sign as bs"
  by (induction as bs rule: memcmp_sign.induct) simp_all

lemma memcmp_le:
  "(let ret = memcmp_sign as bs in if ret \<noteq> 0 then ret else if length as = length bs then 0
     else if length as < length bs then -1 else 1 :: int) \<le> 0 \<longleftrightarrow> as \<le> bs"
  by (induction as bs rule: memcmp_sign.induct) (auto simp: Let_def neq_Nil_conv split: if_splits)

lemma compare_le:
  assumes "cbs_wf a" "cbs_wf b"
  shows "compare_set_of_element a b \<le> 0 \<longleftrightarrow> cbs_bytes a \<le> cbs_bytes b"
proof -
  have len: "CBS_len a = length (cbs_bytes a)" "CBS_len b = length (cbs_bytes b)" using assms by (simp_all add: CBS_len_def)
  have m: "(if CBS_len a < CBS_len b then CBS_len a else CBS_len b) = min (length (cbs_bytes a)) (length (cbs_bytes b))"
    by (simp add: len min_def)
  have "take n (CBS_data a) = take n (cbs_bytes a)" "take n (CBS_data b) = take n (cbs_bytes b)"
    if "n = min (length (cbs_bytes a)) (length (cbs_bytes b))" for n
    using that assms by (simp_all add: CBS_data_def cbs_bytes_def)
  then have "compare_set_of_element a b = (let ret = memcmp_sign (cbs_bytes a) (cbs_bytes b) in if ret \<noteq> 0 then ret
      else if length (cbs_bytes a) = length (cbs_bytes b) then 0 else if length (cbs_bytes a) < length (cbs_bytes b) then -1 else 1)"
    unfolding compare_set_of_element_def Let_def m by (simp add: memcmp_take len)
  then show ?thesis using memcmp_le [of "cbs_bytes a" "cbs_bytes b"] by simp
qed

lemma set_insert_bytes:
  "cbs_wf x \<Longrightarrow> list_all cbs_wf ys \<Longrightarrow> list_all cbs_wf (set_insert x ys) \<and> map cbs_bytes (set_insert x ys) = insort (cbs_bytes x) (map cbs_bytes ys)"
  by (induction ys) (auto simp: compare_le)

lemma qsort_bytes:
  "list_all cbs_wf xs \<Longrightarrow> list_all cbs_wf (qsort xs) \<and> map cbs_bytes (qsort xs) = sort (map cbs_bytes xs)"
  by (induction xs) (simp_all add: set_insert_bytes)

section \<open>The elements\<close>

abbreviation elements :: "(u32 \<times> byte list) list \<Rightarrow> byte list" where "elements es \<equiv> concat (map der_element es)"

lemma any_element_der:
  assumes "cbs_wf s" "cbs_bytes s = der_element e @ rest" "length (snd e) < 2 ^ 32"
  shows "\<exists>el tag hl. CBS_get_any_asn1_element s = (Ok (el, tag, hl), cbs_adv (length (der_element e)) s) \<and>
    cbs_wf el \<and> cbs_bytes el = der_element e \<and> CBS_len s \<noteq> 0"
proof -
  obtain tag c where e: "e = (tag, c)" by force
  let ?hl = "length (der_tag tag) + length (der_length (length c))"
  have bs: "cbs_bytes s = der_tag tag @ der_length (length c) @ c @ rest" using assms(2) by (simp add: e der_element_def)
  have tot: "length c + ?hl \<le> cbs_len s" using length_cbs_bytes [OF assms(1)] bs by simp
  have len: "length (der_element e) = length c + ?hl" by (simp add: e der_element_def)
  have "CBS_get_any_asn1_element s = (Ok (CBS_init (cbs_data s) (length c + ?hl), tag, ?hl), cbs_adv (length (der_element e)) s)"
    using get_der_element [OF assms(1) bs, of False] assms(3) len by (simp add: CBS_get_any_asn1_element_def e)
  moreover have "cbs_wf (CBS_init (cbs_data s) (length c + ?hl))" using assms(1) tot by (simp add: cbs_wf_def)
  moreover have "take (length c + ?hl) (cbs_data s) = take (length c + ?hl) (cbs_bytes s)" using tot by (simp add: cbs_bytes_def min_def)
  then have "cbs_bytes (CBS_init (cbs_data s) (length c + ?hl)) = der_element e" unfolding bs by (simp add: e der_element_def)
  moreover have "CBS_len s \<noteq> 0" using tot der_element_length [of c tag] len by (simp add: CBS_len_def e)
  ultimately show ?thesis by blast
qed

lemma count_elements:
  "cbs_wf s \<Longrightarrow> cbs_bytes s = elements es \<Longrightarrow> list_all (\<lambda>e. length (snd e) < 2 ^ 32) es \<Longrightarrow>
     count_children s n = Ok (n + length es)"
proof (induction es arbitrary: s n)
  case Nil
  then show ?case using length_cbs_bytes [of s] by (subst count_children.simps) (simp add: CBS_len_def)
next
  case (Cons e es)
  obtain el tag hl where el: "CBS_get_any_asn1_element s = (Ok (el, tag, hl), cbs_adv (length (der_element e)) s)" "CBS_len s \<noteq> 0"
    using any_element_der [of s e "elements es"] Cons.prems by auto
  have "count_children (cbs_adv (length (der_element e)) s) (Suc n) = Ok (Suc n + length es)"
    by (rule Cons.IH) (use Cons.prems in auto)
  then show ?case using el Cons.prems(1) by (subst count_children.simps) simp
qed

lemma get_elements:
  "cbs_wf s \<Longrightarrow> cbs_bytes s = elements es \<Longrightarrow> list_all (\<lambda>e. length (snd e) < 2 ^ 32) es \<Longrightarrow>
     \<exists>cs. get_children (length es) s = Ok cs \<and> list_all cbs_wf cs \<and> map cbs_bytes cs = map der_element es"
proof (induction es arbitrary: s)
  case (Cons e es)
  obtain el tag hl where el: "CBS_get_any_asn1_element s = (Ok (el, tag, hl), cbs_adv (length (der_element e)) s)"
      "cbs_wf el" "cbs_bytes el = der_element e" using any_element_der [of s e "elements es"] Cons.prems by auto
  have "\<exists>cs. get_children (length es) (cbs_adv (length (der_element e)) s) = Ok cs \<and> list_all cbs_wf cs \<and> map cbs_bytes cs = map der_element es"
    by (rule Cons.IH) (use Cons.prems in auto)
  then show ?case using el by auto
qed simp

lemma add_children_extends:
  "list_all cbs_wf cs \<Longrightarrow> cbb_ready d st \<Longrightarrow> cbb_room (length (concat (map cbs_bytes cs))) st \<Longrightarrow>
     \<exists>st'. add_children cs d st = (Ok (), st') \<and> extends st (concat (map cbs_bytes cs)) st'"
proof (induction cs arbitrary: st)
  case Nil
  then show ?case by (simp add: cbb_ready_def extends_refl)
next
  case (Cons c cs)
  have wf: "cbs_wf c" "cbs_len c < 2 ^ 64" using Cons.prems(1) by (simp_all add: cbs_wf_def)
  have "CBB_add_bytes (CBS_data c) (of_nat (CBS_len c)) d st = CBB_add_bytes (cbs_bytes c) (of_nat (length (cbs_bytes c))) d st"
    using wf by (simp add: CBB_add_bytes_def CBS_len_def CBS_data_def unat_of_nat not_less cbs_bytes_def cbs_wf_def)
  moreover obtain st1 where st1: "CBB_add_bytes (cbs_bytes c) (of_nat (length (cbs_bytes c))) d st = (Ok (), st1)" "extends st (cbs_bytes c) st1"
    using wbytes.op_extends [where x = "cbs_bytes c", of d st] Cons.prems(2) cbb_room_mono [OF Cons.prems(3)] by auto
  moreover have "\<exists>st'. add_children cs d st1 = (Ok (), st') \<and> extends st1 (concat (map cbs_bytes cs)) st'"
    by (rule Cons.IH) (use Cons.prems extends_ready [OF st1(2)] extends_room [OF st1(2)] in auto)
  ultimately show ?case by (auto intro: extends_trans)
qed

section \<open>The contents are sorted\<close>

abbreviation child_start :: "nat \<Rightarrow> cbb_state \<Rightarrow> u64" where
  "child_start d st \<equiv> cb_offset (cs_chain st ! d) + ucast (cb_pending_len_len (cs_chain st ! d))"

lemma rewind_ready:
  assumes "cbb_ready d st" "cbb_out st = pre @ body" "unat (child_start d st) = length pre"
  shows "cbb_ready d (rewind d st)" "cbb_out (rewind d st) = pre" "cbb_room (length body) (rewind d st)"
    "cs_chain (rewind d st) = cs_chain st"
    "CBB_len d st = Ok (of_nat (length body))" "\<exists>data. CBB_data d st = Ok data \<and> take (length body) data = body \<and> length body \<le> length data"
    "length (pre @ body) < 2 ^ 64"
proof -
  obtain b where b: "cs_base st = Some b" "length (bb_buf b) = unat (bb_cap b)" "unat (bb_len b) \<le> unat (bb_cap b)"
      "\<not> bb_error b" "cbb_out st = take (unat (bb_len b)) (bb_buf b)"
    using assms(1) by (auto simp: cbb_ready_def elim: cbb_okE)
  have len: "unat (bb_len b) = length pre + length body"
    using arg_cong [OF assms(2), of length] b by simp
  have buf: "take (length pre + length body) (bb_buf b) = pre @ body" using assms(2) b(5) len by simp
  have tp: "take (length pre) (bb_buf b) = pre" using arg_cong [OF buf, of "take (length pre)"] by simp
  have td: "take (length body) (drop (length pre) (bb_buf b)) = body" using arg_cong [OF buf, of "drop (length pre)"] by (simp add: drop_take)
  have chain: "length (cs_chain st) = Suc d" using assms(1) by (simp add: cbb_ready_def)
  have r: "rewind d st = st\<lparr>cs_base := Some (b\<lparr>bb_len := child_start d st\<rparr>)\<rparr>" by (simp add: rewind_def b)
  have cap: "length pre + length body \<le> unat (bb_cap b)" using b(3) len by simp
  show "cbb_ready d (rewind d st)" using assms(1,3) b cap chain by (simp add: cbb_ready_def cbb_ok_def r word_le_nat_alt)
  show "cbb_out (rewind d st) = pre" using assms(3) tp by (simp add: cbb_out_def r)
  show "cbb_room (length body) (rewind d st)" using assms(3) cap unat_u64_less [of "bb_cap b"] by (simp add: cbb_room_def r)
  show "cs_chain (rewind d st) = cs_chain st" by (simp add: r)
  have le: "child_start d st \<le> bb_len b" using assms(3) len by (simp add: word_le_nat_alt)
  have "bb_len b - cb_offset (cs_chain st ! d) - ucast (cb_pending_len_len (cs_chain st ! d)) = bb_len b - child_start d st" by simp
  also have "\<dots> = of_nat (length body)" using le assms(3) len by (intro unat_eq_of_nat) (simp add: unat_sub)
  finally show "CBB_len d st = Ok (of_nat (length body))" using b(1) chain le by (simp add: CBB_len_def)
  show "\<exists>data. CBB_data d st = Ok data \<and> take (length body) data = body \<and> length body \<le> length data"
    using b(1,2) chain assms(3) td cap by (simp add: CBB_data_def)
  show "length (pre @ body) < 2 ^ 64" using len unat_u64_less [of "bb_len b"] by simp
qed

lemma length_concat_sort: "length (concat (sort xs)) = length (concat (xs :: byte list list))"
proof -
  have "length (concat (insort x ys)) = length x + length (concat ys)" for x :: "byte list" and ys
    by (induction ys) auto
  then show ?thesis by (induction xs) simp_all
qed

text \<open>C24: \<^verbatim>\<open>CBB_flush_asn1_set_of\<close> on an element whose contents are DER elements leaves exactly these elements, in ascending
  order of their encodings, as the contents; what was written before them stays, and the element stays open.\<close>

theorem set_of_sorted:
  assumes "cbb_ready d st" "cs_mallocs st = []" "cbb_out st = pre @ elements es" "unat (child_start d st) = length pre"
    and "list_all (\<lambda>e. length (snd e) < 2 ^ 32) es" "length es < 2 ^ 60"
  shows "\<exists>st'. CBB_flush_asn1_set_of d st = (Ok (), st') \<and> cbb_ready d st' \<and> cs_chain st' = cs_chain st \<and>
    cbb_out st' = pre @ concat (sort (map der_element es))"
proof -
  note r = rewind_ready [OF assms(1,3,4)]
  let ?n = "length (elements es)"
  obtain data where data: "CBB_data d st = Ok data" "take ?n data = elements es" "?n \<le> length data" using r(6) by blast
  have n: "unat (of_nat ?n :: u64) = ?n" using r(7) by (simp add: unat_of_nat)
  have wf: "cbs_wf (CBS_init xs ?n)" if "?n \<le> length xs" for xs using that r(7) by simp
  have cnt: "count_children (CBS_init data ?n) 0 = Ok (length es)"
    using count_elements [OF wf [OF data(3)] _ assms(5), of 0] data(2) by simp
  have fl: "CBB_flush d st = (Ok (), st)" by (rule flush_ready [OF assms(1)])
  show ?thesis
  proof (cases "length es < 2")
    case True
    then have "concat (sort (map der_element es)) = elements es" by (cases es; cases "tl es") auto
    then show ?thesis using True fl data(1) r(5) cnt n assms(1,3) by (simp add: CBB_flush_asn1_set_of_def)
  next
    case False
    obtain cs where cs: "get_children (length es) (CBS_init (take ?n data) ?n) = Ok cs" "list_all cbs_wf cs"
        "map cbs_bytes cs = map der_element es"
      using get_elements [OF wf _ assms(5), of "take ?n data"] data(2,3) by auto
    let ?sorted = "concat (sort (map der_element es))"
    have q: "list_all cbs_wf (qsort cs)" "concat (map cbs_bytes (qsort cs)) = ?sorted" using qsort_bytes [OF cs(2)] cs(3) by simp_all
    have len: "length ?sorted = ?n" using length_concat_sort [of "map der_element es"] by simp
    obtain st' where st': "add_children (qsort cs) d (rewind d st) = (Ok (), st')" "extends (rewind d st) ?sorted st'"
      using add_children_extends [OF q(1) r(1)] r(3) q(2) len by auto
    have out: "cbb_out st' = pre @ ?sorted" "cs_chain st' = cs_chain st" "cbb_ready d st'"
      using st'(2) r(2,4) extends_ready [OF st'(2) r(1)] by (simp_all add: extends_def)
    have "CBB_len d st' = Ok (of_nat ?n)" using rewind_ready(5) [OF out(3,1)] assms(4) out(2) len by simp
    moreover have "\<not> (2 ^ 64 - 1) div sizeof_CBS < length es" using assms(6) by (simp add: sizeof_CBS_def)
    moreover have "cbb_malloc st = (True, st)" using assms(2) by (simp add: cbb_malloc_def)
    ultimately show ?thesis using False fl data(1,3) r(5) cnt n cs(1) st'(1) out
      by (simp add: CBB_flush_asn1_set_of_def set_of_children_def not_less)
  qed
qed

definition set_state :: cbb_state where
  "set_state = (blank [])\<lparr>cs_base := Some \<lparr>bb_buf = [4, 1, 9, 4, 1, 3, 2, 0], bb_len = 8, bb_cap = 8, bb_can_resize = True, bb_error = False\<rparr>,
     cs_chain := [\<lparr>cb_offset = 0, cb_pending_len_len = 0, cb_pending_is_asn1 = False, cb_is_child = False, cb_gone = False\<rparr>]\<rparr>"

theorem set_of_sorted_witness:
  "\<exists>st'. CBB_flush_asn1_set_of 0 set_state = (Ok (), st') \<and> cbb_ready 0 st' \<and> cs_chain st' = cs_chain set_state \<and>
    cbb_out st' = [] @ concat (sort (map der_element [(4, [9]), (4, [3]), (2, [])]))"
  by (rule set_of_sorted)
    (simp_all add: set_state_def blank_def cbb_ready_def cbb_ok_def cbb_out_def der_element_def der_tag_def der_length_def
      tag_number_def tag_bits_def asn1_consts)

text \<open>\<^verbatim>\<open>CBB_finish_i2d\<close> on a builder without open children returns the length of what was written, or fails when it
  does not fit an \<^verbatim>\<open>int\<close>. The bytes are handed out as a new object, or written to the buffer of the caller, whose
  pointer is advanced behind them; the rest of that buffer stays as it is.\<close>

theorem finish_i2d_exact:
  assumes "cbb_ready 0 st" "\<not> cb_is_child (cs_chain st ! 0)" "cs_base st = Some b" "bb_can_resize b"
  shows "if 2 ^ 31 \<le> length (cbb_out st) then fst (CBB_finish_i2d outp st) = Fail
    else case outp of
        NoOut \<Rightarrow> fst (CBB_finish_i2d outp st) = Ok (length (cbb_out st), None)
      | NullOut \<Rightarrow> \<exists>der. fst (CBB_finish_i2d outp st) = Ok (length (cbb_out st), Some (der, 0)) \<and>
          take (length (cbb_out st)) der = cbb_out st
      | BufOut buf \<Rightarrow> length (cbb_out st) \<le> length buf \<longrightarrow>
          fst (CBB_finish_i2d outp st) = Ok (length (cbb_out st),
            Some (cbb_out st @ drop (length (cbb_out st)) buf, length (cbb_out st)))"
proof -
  obtain der n st1 where f: "CBB_finish True st = (Ok (der, n), st1)" "take (unat n) der = cbb_out st"
      "unat n = length (cbb_out st)" "unat n \<le> length der" using finish_ready [OF assms(1,2)] by blast
  then show ?thesis using assms(3,4)
    by (auto simp: CBB_finish_i2d_def not_le not_less split: outp.splits)
qed

theorem finish_i2d_exact_witness:
  "fst (CBB_finish_i2d (BufOut [7, 7, 7, 7, 7, 7, 7, 7, 7, 7]) set_state) = Ok (8, Some ([4, 1, 9, 4, 1, 3, 2, 0, 7, 7], 8))"
  using finish_i2d_exact [of set_state "the (cs_base set_state)" "BufOut [7, 7, 7, 7, 7, 7, 7, 7, 7, 7]"]
  by (simp add: set_state_def blank_def cbb_ready_def cbb_ok_def cbb_out_def)

end
