(* ===== verification/Uv_Errno.thy ===== *)
theory Uv_Errno
  imports C_Prelude
begin

text \<open>The codes that libuv returns: the negated error numbers of Darwin, which the pods are built for.\<close>

abbreviation UV_EINVAL :: int where "UV_EINVAL \<equiv> -22"
abbreviation UV_E2BIG :: int where "UV_E2BIG \<equiv> -7"
abbreviation UV_ENOSPC :: int where "UV_ENOSPC \<equiv> -28"
abbreviation UV_EAFNOSUPPORT :: int where "UV_EAFNOSUPPORT \<equiv> -47"

end
