(* ===== verification/Uv_Heap.thy ===== *)
theory Uv_Heap
  imports C_Prelude
begin

text \<open>
  The binary heap of libuv (\<^verbatim>\<open>src/heap-inl.h\<close>): nodes linked by \<^verbatim>\<open>left\<close>, \<^verbatim>\<open>right\<close> and \<^verbatim>\<open>parent\<close> pointers, kept as a complete binary
  tree. The memory of the nodes is a map from their addresses; a null pointer is \<open>None\<close>, and following it is \<open>Undef\<close>. A
  \<^verbatim>\<open>struct heap_node **\<close> is the place it points to. Loops that follow the pointers may not return on a corrupted
  tree; they are partial functions.
\<close>

section \<open>Nodes\<close>

type_synonym node = nat

record heap_node =
  hn_left :: "node option"
  hn_right :: "node option"
  hn_parent :: "node option"

record heap =
  hp_min :: "node option"
  hp_nelts :: u32
  hp_nodes :: "node \<Rightarrow> heap_node"

definition heap_init :: "heap \<Rightarrow> heap" where
  "heap_init h = h\<lparr>hp_min := None, hp_nelts := 0\<rparr>"

definition heap_min :: "heap \<Rightarrow> node option" where
  "heap_min h = hp_min h"

definition upd_node :: "node \<Rightarrow> (heap_node \<Rightarrow> heap_node) \<Rightarrow> heap \<Rightarrow> heap" where
  "upd_node x f h = h\<lparr>hp_nodes := (hp_nodes h)(x := f (hp_nodes h x))\<rparr>"

text \<open>\<^verbatim>\<open>if (q != NULL) q->parent = v;\<close>\<close>

definition set_parent :: "node option \<Rightarrow> node option \<Rightarrow> heap \<Rightarrow> heap" where
  "set_parent q v h = (case q of None \<Rightarrow> h | Some x \<Rightarrow> upd_node x (hn_parent_update (\<lambda>_. v)) h)"

text \<open>The pointer of \<open>g\<close> (or of the heap) to \<open>old\<close> is made to point to \<open>new\<close>.\<close>

definition relink :: "node option \<Rightarrow> node \<Rightarrow> node \<Rightarrow> heap \<Rightarrow> heap" where
  "relink g old new h = (case g of
      None \<Rightarrow> h\<lparr>hp_min := Some new\<rparr>
    | Some x \<Rightarrow> if hn_left (hp_nodes h x) = Some old then upd_node x (hn_left_update (\<lambda>_. Some new)) h
        else upd_node x (hn_right_update (\<lambda>_. Some new)) h)"

definition heap_node_swap :: "node \<Rightarrow> node \<Rightarrow> heap \<Rightarrow> heap" where
  "heap_node_swap parent child h =
     (let t = hp_nodes h parent;
          h = upd_node parent (\<lambda>_. hp_nodes h child) h;
          h = upd_node child (\<lambda>_. t) h;
          h = upd_node parent (hn_parent_update (\<lambda>_. Some child)) h;
          is_left = (hn_left (hp_nodes h child) = Some child);
          h = (if is_left then upd_node child (hn_left_update (\<lambda>_. Some parent)) h
               else upd_node child (hn_right_update (\<lambda>_. Some parent)) h);
          sibling = (if is_left then hn_right (hp_nodes h child) else hn_left (hp_nodes h child));
          h = set_parent sibling (Some child) h;
          h = set_parent (hn_left (hp_nodes h parent)) (Some parent) h;
          h = set_parent (hn_right (hp_nodes h parent)) (Some parent) h
      in relink (hn_parent (hp_nodes h child)) parent child h)"

section \<open>Paths\<close>

text \<open>The places that hold pointers.\<close>

datatype slot = SMin | SLeft node | SRight node

fun read_slot :: "slot \<Rightarrow> heap \<Rightarrow> node option" where
  "read_slot SMin h = hp_min h"
| "read_slot (SLeft x) h = hn_left (hp_nodes h x)"
| "read_slot (SRight x) h = hn_right (hp_nodes h x)"

fun write_slot :: "slot \<Rightarrow> node option \<Rightarrow> heap \<Rightarrow> heap" where
  "write_slot SMin v h = h\<lparr>hp_min := v\<rparr>"
| "write_slot (SLeft x) v h = upd_node x (hn_left_update (\<lambda>_. v)) h"
| "write_slot (SRight x) v h = upd_node x (hn_right_update (\<lambda>_. v)) h"

function path_loop :: "u32 \<Rightarrow> u32 \<Rightarrow> nat \<Rightarrow> u32 \<times> nat" where
  "path_loop n path k = (if 2 \<le> n then path_loop (n div 2) (push_bit 1 path OR (n AND 1)) (k + 1) else (path, k))"
  by pat_completeness auto
termination
proof (relation "measure (\<lambda>(n, path, k). unat n)", goal_cases)
  case (2 n path k)
  then have "2 \<le> unat n" by (simp add: word_le_nat_alt)
  then show ?case by (simp add: unat_div_distrib)
qed simp

declare path_loop.simps [simp del]

text \<open>The walk along a path; the results are \<^verbatim>\<open>parent\<close> and \<^verbatim>\<open>child\<close>.\<close>

fun walk :: "nat \<Rightarrow> u32 \<Rightarrow> slot \<Rightarrow> slot \<Rightarrow> heap \<Rightarrow> (slot \<times> slot) outcome" where
  "walk 0 path parent child h = Ok (parent, child)"
| "walk (Suc k) path parent child h = (case read_slot child h of
      None \<Rightarrow> Undef
    | Some x \<Rightarrow> walk k (drop_bit 1 path) child (if path AND 1 \<noteq> 0 then SRight x else SLeft x) h)"

section \<open>Operations\<close>

partial_function (option) sift_up :: "(node \<Rightarrow> node \<Rightarrow> bool) \<Rightarrow> node \<Rightarrow> heap \<Rightarrow> heap option" where
  "sift_up lt x h = (case hn_parent (hp_nodes h x) of
      None \<Rightarrow> Some h
    | Some p \<Rightarrow> if lt x p then sift_up lt x (heap_node_swap p x h) else Some h)"

definition smallest_child :: "(node \<Rightarrow> node \<Rightarrow> bool) \<Rightarrow> node \<Rightarrow> heap \<Rightarrow> node" where
  "smallest_child lt child h =
     (let smallest = child;
          smallest = (case hn_left (hp_nodes h child) of
             Some l \<Rightarrow> if lt l smallest then l else smallest | None \<Rightarrow> smallest)
      in case hn_right (hp_nodes h child) of
             Some r \<Rightarrow> if lt r smallest then r else smallest | None \<Rightarrow> smallest)"

partial_function (option) sift_down :: "(node \<Rightarrow> node \<Rightarrow> bool) \<Rightarrow> node \<Rightarrow> heap \<Rightarrow> heap option" where
  "sift_down lt child h =
     (if smallest_child lt child h = child then Some h
      else sift_down lt child (heap_node_swap child (smallest_child lt child h) h))"

definition heap_insert :: "(node \<Rightarrow> node \<Rightarrow> bool) \<Rightarrow> node \<Rightarrow> heap \<Rightarrow> (unit outcome \<times> heap) option" where
  "heap_insert lt newnode h0 =
     (let h = upd_node newnode (\<lambda>_. \<lparr>hn_left = None, hn_right = None, hn_parent = None\<rparr>) h0
      in case path_loop (1 + hp_nelts h) 0 0 of (path, k) \<Rightarrow> (case walk k path SMin SMin h of
          Ok (parent, child) \<Rightarrow>
            let h = upd_node newnode (hn_parent_update (\<lambda>_. read_slot parent h)) h;
                h = write_slot child (Some newnode) h;
                h = h\<lparr>hp_nelts := hp_nelts h + 1\<rparr>
            in map_option (\<lambda>h. (Ok (), h)) (sift_up lt newnode h)
        | Fail \<Rightarrow> Some (Fail, h)
        | Undef \<Rightarrow> Some (Undef, h)))"

text \<open>The node \<open>child\<close> takes the place of \<open>x\<close>.\<close>

definition replace_node :: "node \<Rightarrow> node \<Rightarrow> heap \<Rightarrow> heap" where
  "replace_node x child h =
     (let h = upd_node child (\<lambda>_. hp_nodes h x) h;
          h = set_parent (hn_left (hp_nodes h child)) (Some child) h;
          h = set_parent (hn_right (hp_nodes h child)) (Some child) h
      in relink (hn_parent (hp_nodes h x)) x child h)"

definition heap_remove :: "(node \<Rightarrow> node \<Rightarrow> bool) \<Rightarrow> node \<Rightarrow> heap \<Rightarrow> (unit outcome \<times> heap) option" where
  "heap_remove lt x h =
     (if hp_nelts h = 0 then Some (Ok (), h)
      else case path_loop (hp_nelts h) 0 0 of (path, k) \<Rightarrow> (case walk k path SMin SMin h of
          Ok (_, mx) \<Rightarrow>
            let h1 = h\<lparr>hp_nelts := hp_nelts h - 1\<rparr>; child = read_slot mx h1; h2 = write_slot mx None h1
            in if child = Some x
               then Some (Ok (), if child = hp_min h2 then h2\<lparr>hp_min := None\<rparr> else h2)
               else (case child of
                   None \<Rightarrow> Some (Undef, h2)
                 | Some c \<Rightarrow> Option.bind (sift_down lt c (replace_node x c h2)) (\<lambda>h3.
                     map_option (\<lambda>h. (Ok (), h)) (sift_up lt c h3)))
        | Fail \<Rightarrow> Some (Fail, h)
        | Undef \<Rightarrow> Some (Undef, h)))"

definition heap_dequeue :: "(node \<Rightarrow> node \<Rightarrow> bool) \<Rightarrow> heap \<Rightarrow> (unit outcome \<times> heap) option" where
  "heap_dequeue lt h =
     (if hp_nelts h = 0 then Some (Ok (), h)
      else case hp_min h of None \<Rightarrow> Some (Undef, h) | Some m \<Rightarrow> heap_remove lt m h)"

section \<open>Shape\<close>

text \<open>
  The tree is represented by the map from positions to nodes: the root is at position 1, and the children of the node at
  position \<open>i\<close> are at \<open>2 * i\<close> and \<open>2 * i + 1\<close>.
\<close>

definition node_at :: "(nat \<Rightarrow> node option) \<Rightarrow> nat \<Rightarrow> heap_node" where
  "node_at f i = \<lparr>hn_left = f (2 * i), hn_right = f (2 * i + 1), hn_parent = f (i div 2)\<rparr>"

definition heap_rep :: "heap \<Rightarrow> (nat \<Rightarrow> node option) \<Rightarrow> nat \<Rightarrow> bool" where
  "heap_rep h f n \<longleftrightarrow> dom f = {1..n} \<and> inj_on f {1..n} \<and> unat (hp_nelts h) = n \<and> hp_min h = f 1 \<and>
     (\<forall>i x. f i = Some x \<longrightarrow> hp_nodes h x = node_at f i)"

lemma rep_inj: "heap_rep h f n \<Longrightarrow> f k = Some x \<Longrightarrow> f m = Some x \<longleftrightarrow> m = k"
  unfolding heap_rep_def inj_on_def by (metis domI)

lemma rep_dom: "heap_rep h f n \<Longrightarrow> f i = None \<longleftrightarrow> i < 1 \<or> n < i"
  unfolding heap_rep_def by (metis atLeastAtMost_iff domIff not_le)

lemma upd_node_fields [simp]:
  "hp_nodes (upd_node x g h) y = (if x = y then g (hp_nodes h x) else hp_nodes h y)"
  "hp_min (upd_node x g h) = hp_min h" "hp_nelts (upd_node x g h) = hp_nelts h"
  by (simp_all add: upd_node_def)

lemma set_parent_fields [simp]:
  "hp_nodes (set_parent q v h) y = (if q = Some y then hn_parent_update (\<lambda>_. v) (hp_nodes h y) else hp_nodes h y)"
  "hp_min (set_parent q v h) = hp_min h" "hp_nelts (set_parent q v h) = hp_nelts h"
  by (simp_all add: set_parent_def split: option.splits)

lemma relink_fields [simp]:
  "hp_nodes (relink g old new h) y = (if g = Some y then if hn_left (hp_nodes h y) = Some old
     then hn_left_update (\<lambda>_. Some new) (hp_nodes h y) else hn_right_update (\<lambda>_. Some new) (hp_nodes h y) else hp_nodes h y)"
  "hp_min (relink g old new h) = (if g = None then Some new else hp_min h)" "hp_nelts (relink g old new h) = hp_nelts h"
  by (auto simp: relink_def split: option.splits)

lemma half_cases: "i = j div 2 \<Longrightarrow> j = 2 * i \<or> j = 2 * i + 1" for i j :: nat
  by presburger

lemma swap_nodes:
  assumes "p \<noteq> c" and "hp_nodes h p = P" "hp_nodes h c = C"
    and "sib = (if hn_left P = Some c then hn_right P else hn_left P)"
    and "sib \<noteq> Some p" "sib \<noteq> Some c" "hn_left C \<noteq> Some p" "hn_left C \<noteq> Some c" "hn_right C \<noteq> Some p" "hn_right C \<noteq> Some c"
    and "hn_parent P \<noteq> Some p" "hn_parent P \<noteq> Some c"
  shows "hp_nodes (heap_node_swap p c h) p = C\<lparr>hn_parent := Some c\<rparr>"
    "hp_nodes (heap_node_swap p c h) c = (if hn_left P = Some c then P\<lparr>hn_left := Some p\<rparr> else P\<lparr>hn_right := Some p\<rparr>)"
    "x \<noteq> p \<Longrightarrow> x \<noteq> c \<Longrightarrow> hp_nodes (heap_node_swap p c h) x =
      (let y = hp_nodes h x;
           y = (if sib = Some x then y\<lparr>hn_parent := Some c\<rparr> else y);
           y = (if hn_left C = Some x \<or> hn_right C = Some x then y\<lparr>hn_parent := Some p\<rparr> else y)
       in if hn_parent P = Some x then if hn_left y = Some p then y\<lparr>hn_left := Some c\<rparr> else y\<lparr>hn_right := Some c\<rparr> else y)"
    "hp_min (heap_node_swap p c h) = (if hn_parent P = None then Some c else hp_min h)"
    "hp_nelts (heap_node_swap p c h) = hp_nelts h"
proof -
  define h1 where "h1 = upd_node p (\<lambda>_. C) h"
  define h2 where "h2 = upd_node c (\<lambda>_. P) h1"
  define h3 where "h3 = upd_node p (hn_parent_update (\<lambda>_. Some c)) h2"
  define h4 where "h4 = (if hn_left P = Some c then upd_node c (hn_left_update (\<lambda>_. Some p)) h3
     else upd_node c (hn_right_update (\<lambda>_. Some p)) h3)"
  have n3: "hp_nodes h3 p = C\<lparr>hn_parent := Some c\<rparr>" "hp_nodes h3 c = P" "x \<noteq> p \<Longrightarrow> x \<noteq> c \<Longrightarrow> hp_nodes h3 x = hp_nodes h x" for x
    using assms(1) by (auto simp: h3_def h2_def h1_def)
  have n4: "hp_nodes h4 p = C\<lparr>hn_parent := Some c\<rparr>"
      "hp_nodes h4 c = (if hn_left P = Some c then P\<lparr>hn_left := Some p\<rparr> else P\<lparr>hn_right := Some p\<rparr>)"
      "x \<noteq> p \<Longrightarrow> x \<noteq> c \<Longrightarrow> hp_nodes h4 x = hp_nodes h x" for x
    using assms(1) n3 by (auto simp: h4_def)
  define h5 where "h5 = set_parent sib (Some c) h4"
  define h6 where "h6 = set_parent (hn_left C) (Some p) h5"
  define h7 where "h7 = set_parent (hn_right C) (Some p) h6"
  have n7: "hp_nodes h7 p = C\<lparr>hn_parent := Some c\<rparr>" "hp_nodes h6 p = C\<lparr>hn_parent := Some c\<rparr>" "hp_nodes h5 p = C\<lparr>hn_parent := Some c\<rparr>"
      "hp_nodes h7 c = (if hn_left P = Some c then P\<lparr>hn_left := Some p\<rparr> else P\<lparr>hn_right := Some p\<rparr>)"
    using assms(5-10) n4(1,2) by (simp_all add: h7_def h6_def h5_def)
  have hm: "hp_min h7 = hp_min h" "hp_nelts h7 = hp_nelts h"
    by (auto simp: h7_def h6_def h5_def h4_def h3_def h2_def h1_def)
  have eq: "heap_node_swap p c h = relink (hn_parent P) p c h7"
  proof -
    have p7: "hn_parent (hp_nodes h7 c) = hn_parent P" using n7(4) by simp
    have c56: "hn_left (hp_nodes h5 p) = hn_left C" "hn_right (hp_nodes h6 p) = hn_right C" using n7(2,3) by simp_all
    show ?thesis
    proof (cases "hn_left P = Some c")
      case True
      have h4: "upd_node c (hn_left_update (\<lambda>_. Some p)) h3 = h4" by (simp add: h4_def True)
      have sib: "hn_right (hp_nodes h4 c) = sib" using True n4(2) assms(4) by simp
      show ?thesis unfolding heap_node_swap_def Let_def assms(2,3) h1_def [symmetric] h2_def [symmetric] h3_def [symmetric] n3(2)
        by (simp only: True simp_thms if_True h4 sib h5_def [symmetric] c56 h6_def [symmetric] h7_def [symmetric] p7)
    next
      case False
      have h4: "upd_node c (hn_right_update (\<lambda>_. Some p)) h3 = h4" by (simp add: h4_def False)
      have sib: "hn_left (hp_nodes h4 c) = sib" using False n4(2) assms(4) by simp
      show ?thesis unfolding heap_node_swap_def Let_def assms(2,3) h1_def [symmetric] h2_def [symmetric] h3_def [symmetric] n3(2)
        by (simp only: False if_False h4 sib h5_def [symmetric] c56 h6_def [symmetric] h7_def [symmetric] p7)
    qed
  qed
  show "hp_nodes (heap_node_swap p c h) p = C\<lparr>hn_parent := Some c\<rparr>" unfolding eq using assms(11) n7 by simp
  show "hp_nodes (heap_node_swap p c h) c = (if hn_left P = Some c then P\<lparr>hn_left := Some p\<rparr> else P\<lparr>hn_right := Some p\<rparr>)"
    unfolding eq using assms(12) n7 by simp
  show "x \<noteq> p \<Longrightarrow> x \<noteq> c \<Longrightarrow> hp_nodes (heap_node_swap p c h) x =
      (let y = hp_nodes h x;
           y = (if sib = Some x then y\<lparr>hn_parent := Some c\<rparr> else y);
           y = (if hn_left C = Some x \<or> hn_right C = Some x then y\<lparr>hn_parent := Some p\<rparr> else y)
       in if hn_parent P = Some x then if hn_left y = Some p then y\<lparr>hn_left := Some c\<rparr> else y\<lparr>hn_right := Some c\<rparr> else y)"
    unfolding eq Let_def using n4(3) [of x] by (simp add: h7_def h6_def h5_def)
  show "hp_min (heap_node_swap p c h) = (if hn_parent P = None then Some c else hp_min h)" unfolding eq by (simp add: hm)
  show "hp_nelts (heap_node_swap p c h) = hp_nelts h" unfolding eq by (simp add: hm)
qed

lemma rep_node: "heap_rep h f n \<Longrightarrow> f i = Some x \<Longrightarrow> hp_nodes h x = node_at f i"
  by (simp add: heap_rep_def)

lemma node_eqI: "hn_left a = hn_left b \<Longrightarrow> hn_right a = hn_right b \<Longrightarrow> hn_parent a = hn_parent b \<Longrightarrow> a = (b :: heap_node)"
  by (cases a; cases b) simp

lemma swap_dom:
  assumes "dom f = {1..n}" "inj_on f {1..n}" "f i = Some p" "f j = Some c" "i \<noteq> j"
  shows "dom (f(i := Some c, j := Some p)) = {1..n}" "inj_on (f(i := Some c, j := Some p)) {1..n}"
proof -
  have d: "i \<in> {1..n}" "j \<in> {1..n}" using assms(1,3,4) by blast+
  then show "dom (f(i := Some c, j := Some p)) = {1..n}" using assms(1) by auto
  have eq: "f a = Some x \<Longrightarrow> f b = Some x \<Longrightarrow> a = b" for a b x
    using assms(1,2) unfolding inj_on_def by (metis domI)
  show "inj_on (f(i := Some c, j := Some p)) {1..n}"
  proof (rule inj_onI)
    fix a b assume ab: "a \<in> {1..n}" "b \<in> {1..n}" "(f(i := Some c, j := Some p)) a = (f(i := Some c, j := Some p)) b"
    obtain x y where "f a = Some x" "f b = Some y" using ab(1,2) assms(1) by blast
    then show "a = b" using ab(3) assms(3-5) eq by (auto split: if_splits)
  qed
qed

lemma swap_rep:
  assumes rep: "heap_rep h f n" and j: "2 \<le> j" "i = j div 2" "f i = Some p" "f j = Some c"
  shows "heap_rep (heap_node_swap p c h) (f(i := Some c, j := Some p)) n"
proof -
  let ?f = "f(i := Some c, j := Some p)" and ?h = "heap_node_swap p c h"
  have ij: "1 \<le> i" "i < j" "j = 2 * i \<or> j = 2 * i + 1" using j by auto
  define s where "s = (if j = 2 * i then 2 * i + 1 else 2 * i)"
  have ip: "f m = Some p \<longleftrightarrow> m = i" for m by (rule rep_inj [OF rep j(3)])
  have ic: "f m = Some c \<longleftrightarrow> m = j" for m by (rule rep_inj [OF rep j(4)])
  have ne: "p \<noteq> c" using ip [of j] j(4) ij by auto
  have sib: "f s = (if hn_left (node_at f i) = Some c then hn_right (node_at f i) else hn_left (node_at f i))"
    using ij(3) by (auto simp: node_at_def ic s_def)
  have "s \<noteq> i" "s \<noteq> j" "2 * j \<noteq> i" "2 * j \<noteq> j" "2 * j + 1 \<noteq> i" "2 * j + 1 \<noteq> j" "i div 2 \<noteq> i" "i div 2 \<noteq> j"
    using ij by (auto simp: s_def)
  then have al: "f s \<noteq> Some p" "f s \<noteq> Some c" "hn_left (node_at f j) \<noteq> Some p" "hn_left (node_at f j) \<noteq> Some c"
      "hn_right (node_at f j) \<noteq> Some p" "hn_right (node_at f j) \<noteq> Some c" "hn_parent (node_at f i) \<noteq> Some p" "hn_parent (node_at f i) \<noteq> Some c"
    by (simp_all add: node_at_def ip ic)
  note sw = swap_nodes [OF ne rep_node [OF rep j(3)] rep_node [OF rep j(4)] sib al]
  have new: "hp_nodes ?h x = node_at ?f k" if x: "?f k = Some x" for x k
  proof -
    consider "k = j" "x = p" | "k = i" "x = c" | "k \<noteq> i" "k \<noteq> j" "f k = Some x" using x ij by (auto split: if_splits)
    then show ?thesis
    proof cases
      case 1
      then show ?thesis unfolding 1 sw(1) using ij j(2) by (intro node_eqI) (auto simp: node_at_def)
    next
      case 2
      then show ?thesis unfolding 2 sw(2) using ij by (intro node_eqI) (auto simp: node_at_def ic)
    next
      case 3
      have eq: "f m = Some x \<longleftrightarrow> m = k" for m by (rule rep_inj [OF rep 3(3)])
      have xne: "x \<noteq> p" "x \<noteq> c" using eq [of i] eq [of j] j(3,4) 3 by auto
      have cond: "f s = Some x \<longleftrightarrow> k div 2 = i" "hn_left (node_at f j) = Some x \<or> hn_right (node_at f j) = Some x \<longleftrightarrow> k div 2 = j"
          "hn_parent (node_at f i) = Some x \<longleftrightarrow> i div 2 = k"
        using 3 ij by (auto simp: node_at_def eq s_def)
      have k: "1 \<le> k" using rep_dom [OF rep, of k] 3(3) by simp
      have kids: "2 * k \<noteq> j" "2 * k + 1 \<noteq> j" using 3(1) j(2) by auto
      show ?thesis
      proof (cases "i div 2 = k")
        case True
        have up: "k div 2 \<noteq> i" "k div 2 \<noteq> j" using True k ij(1,2) by linarith+
        have or: "i = 2 * k \<or> i = 2 * k + 1" using True by linarith
        show ?thesis unfolding sw(3) [OF xne] cond rep_node [OF rep 3(3)] Let_def
          by (rule node_eqI) (use True up kids or in \<open>auto simp: node_at_def ip\<close>)
      next
        case False
        have kids2: "2 * k \<noteq> i" "2 * k + 1 \<noteq> i" using False by auto
        show ?thesis unfolding sw(3) [OF xne] cond rep_node [OF rep 3(3)] Let_def
          by (rule node_eqI) (use False kids kids2 ij(2) in \<open>simp_all add: node_at_def\<close>)
      qed
    qed
  qed
  have "hp_min ?h = ?f 1" unfolding sw(4) using rep ij(1,2) rep_dom [OF rep, of "i div 2"] rep_dom [OF rep, of i] j(3)
    by (auto simp: heap_rep_def node_at_def)
  then show ?thesis using new swap_dom [of f n i p j c] rep j ij(2) sw(5) by (auto simp: heap_rep_def)
qed

lemma rep_range: "heap_rep h f n \<Longrightarrow> f i = Some x \<Longrightarrow> 1 \<le> i \<and> i \<le> n"
  using rep_dom [of h f n i] by simp

lemma replace_rep:
  assumes rep: "heap_rep h f n" and i: "f i = Some x" and c: "c \<notin> ran f"
  shows "heap_rep (replace_node x c h) (f(i := Some c)) n"
proof -
  let ?f = "f(i := Some c)" and ?h = "replace_node x c h"
  have ix: "f m = Some x \<longleftrightarrow> m = i" for m by (rule rep_inj [OF rep i])
  have nc: "f m \<noteq> Some c" for m using c by (auto simp: ran_def)
  have ne: "x \<noteq> c" using nc i by auto
  have i1: "1 \<le> i" "i \<le> n" using rep_range [OF rep i] by auto
  have kid: "2 * i \<noteq> i" "2 * i + 1 \<noteq> i" "i div 2 \<noteq> i" using i1 by auto
  note X = rep_node [OF rep i]
  define h1 where "h1 = upd_node c (\<lambda>_. hp_nodes h x) h"
  define h2 where "h2 = set_parent (f (2 * i)) (Some c) h1"
  define h3 where "h3 = set_parent (f (2 * i + 1)) (Some c) h2"
  have n1: "hp_nodes h1 c = node_at f i" "y \<noteq> c \<Longrightarrow> hp_nodes h1 y = hp_nodes h y" for y
    using X by (simp_all add: h1_def)
  have n2: "hp_nodes h2 c = node_at f i" "hp_nodes h3 c = node_at f i" "hp_nodes h3 x = node_at f i"
    using n1 X nc ix kid ne by (simp_all add: h2_def h3_def)
  have eq: "?h = relink (f (i div 2)) x c h3"
  proof -
    have "hn_left (hp_nodes h1 c) = f (2 * i)" "hn_right (hp_nodes h2 c) = f (2 * i + 1)" "hn_parent (hp_nodes h3 x) = f (i div 2)"
      using n1(1) n2 by (simp_all add: node_at_def)
    then show ?thesis unfolding replace_node_def Let_def h1_def [symmetric] by (simp only: h2_def [symmetric] h3_def [symmetric])
  qed
  have new: "hp_nodes ?h y = node_at ?f k" if y: "?f k = Some y" for y k
  proof (cases "k = i")
    case True
    then have "y = c" using y by simp
    then show ?thesis unfolding eq using True n2(2) nc kid by (simp add: node_at_def)
  next
    case False
    have fk: "f k = Some y" and yc: "y \<noteq> c" using y False nc by auto
    have iy: "f m = Some y \<longleftrightarrow> m = k" for m by (rule rep_inj [OF rep fk])
    have kids: "2 * i = k \<or> 2 * i + 1 = k \<longleftrightarrow> k div 2 = i" by auto
    have n3: "hp_nodes h3 y = (if k div 2 = i then (node_at f k)\<lparr>hn_parent := Some c\<rparr> else node_at f k)"
      unfolding kids [symmetric] using n1(2) [OF yc] rep_node [OF rep fk] by (auto simp: h3_def h2_def iy)
    have k: "1 \<le> k" using rep_range [OF rep fk] by simp
    show ?thesis
    proof (cases "i div 2 = k")
      case True
      have up: "k div 2 \<noteq> i" and two: "i = 2 * k \<or> i = 2 * k + 1" using True k i1 by linarith+
      show ?thesis unfolding eq relink_fields(1) n3 iy
        by (rule node_eqI) (use True up two False in \<open>auto simp: node_at_def ix\<close>)
    next
      case False
      have "2 * k \<noteq> i" "2 * k + 1 \<noteq> i" using False by auto
      then show ?thesis unfolding eq relink_fields(1) n3 iy
        by (intro node_eqI) (use False in \<open>simp_all add: node_at_def\<close>)
    qed
  qed
  have "f (i div 2) = None \<longleftrightarrow> i = 1" using rep_dom [OF rep, of "i div 2"] i1 by auto
  then have mn: "hp_min ?h = ?f 1" "unat (hp_nelts ?h) = n" unfolding eq using rep by (auto simp: heap_rep_def h3_def h2_def h1_def)
  have "dom ?f = {1..n}" using rep i1 by (auto simp: heap_rep_def)
  moreover have "inj_on ?f {1..n}" using rep nc [symmetric] nc unfolding heap_rep_def inj_on_def by (metis fun_upd_apply)
  ultimately show ?thesis using new mn by (simp add: heap_rep_def)
qed

section \<open>Paths and positions\<close>

definition slot_of :: "(nat \<Rightarrow> node option) \<Rightarrow> nat \<Rightarrow> slot" where
  "slot_of f q = (if q \<le> 1 then SMin else if even q then SLeft (the (f (q div 2))) else SRight (the (f (q div 2))))"

lemma read_slot_of:
  assumes rep: "heap_rep h f n" and q: "1 \<le> q" "q \<le> n + 1"
  shows "read_slot (slot_of f q) h = f q"
proof (cases "q = 1")
  case True
  then show ?thesis using rep by (simp add: slot_of_def heap_rep_def)
next
  case False
  then obtain x where x: "f (q div 2) = Some x" using rep_dom [OF rep, of "q div 2"] q by (cases "f (q div 2)") auto
  have "even q \<Longrightarrow> 2 * (q div 2) = q" "odd q \<Longrightarrow> Suc (2 * (q div 2)) = q" by auto
  then show ?thesis using False q rep_node [OF rep x] x by (auto simp: slot_of_def node_at_def)
qed

lemma bit_odd_unat: "bit w k \<longleftrightarrow> odd (unat w div 2 ^ k)" for w :: u32
proof -
  have "bit (unat w) k \<longleftrightarrow> bit w k" by (simp add: bit_unsigned_iff)
  then show ?thesis by (simp add: bit_iff_odd)
qed

lemma path_loop_bits:
  assumes "path_loop n p k = (path, d)" "unat n = unat (N :: u32) div 2 ^ k" "1 \<le> n" "\<And>t. t < k \<Longrightarrow> bit p t = bit N (k - 1 - t)"
  shows "unat N div 2 ^ d = 1 \<and> (\<forall>t<d. bit path t = bit N (d - 1 - t))"
  using assms
proof (induction n p k rule: path_loop.induct)
  case (1 n p k)
  show ?case
  proof (cases "2 \<le> n")
    case False
    then have "unat n < 2" "1 \<le> unat n" using "1.prems"(3) by (simp_all add: word_le_nat_alt)
    then show ?thesis using False "1.prems" by (simp add: path_loop.simps [of n])
  next
    case True
    have half: "unat (n div 2) = unat N div 2 ^ (k + 1)"
      using "1.prems"(2) by (simp add: unat_div_distrib power_Suc2 div_mult2_eq del: power_Suc)
    have one: "1 \<le> n div 2" using True by (simp add: word_le_nat_alt unat_div_distrib)
    have k: "k < 31"
    proof (rule ccontr)
      assume "\<not> k < 31"
      then have "2 ^ 31 \<le> (2 :: nat) ^ k" by (intro power_increasing) simp_all
      moreover have "2 \<le> unat N div 2 ^ k" using True "1.prems"(2) by (simp add: word_le_nat_alt)
      then have "2 * 2 ^ k \<le> unat N" by (metis div_le_mono2 less_eq_div_iff_mult_less_eq zero_less_numeral zero_less_power)
      ultimately show False using unat_u32_less [of N] by simp
    qed
    have bits: "bit (push_bit 1 p OR (n AND 1)) t = bit N (k + 1 - 1 - t)" if t: "t < k + 1" for t
    proof (cases t)
      case 0
      have "bit n 0 = bit N k" using "1.prems"(2) by (simp add: bit_odd_unat [of n] bit_odd_unat [of N])
      moreover have "\<not> bit (p * 2) 0" by (simp add: bit_0)
      ultimately show ?thesis using 0 by (simp add: bit_simps)
    next
      case (Suc s)
      have "bit (push_bit 1 p) (Suc s) \<longleftrightarrow> bit p s" using Suc t k unfolding bit_push_bit_iff by simp
      then show ?thesis using Suc "1.prems"(4) [of s] t by (simp add: bit_simps)
    qed
    show ?thesis
      by (rule "1.IH" [OF True _ half one bits]) (use "1.prems"(1) True in \<open>simp_all add: path_loop.simps [of n]\<close>)
  qed
qed

end
