(* ===== verification/Uv_Heap_Laws.thy ===== *)
theory Uv_Heap_Laws
  imports Uv_Heap
begin

text \<open>
  The heap of libuv as a priority queue: the walks along a path end at the position whose number is the path, inserting and
  unlinking keep the tree complete, and the loops that restore the order end with it restored. The comparison function is a
  parameter; its law is the locale \<open>heap_order\<close>.
\<close>

section \<open>The walk to a position\<close>

lemma slot_of_child: "1 \<le> q \<Longrightarrow> f q = Some x \<Longrightarrow> (if b then SRight x else SLeft x) = slot_of f (2 * q + of_bool b)"
  by (auto simp: slot_of_def)

lemma walk_position:
  assumes rep: "heap_rep h f n" and N: "unat (N :: u32) \<le> n + 1"
    and "unat N div 2 ^ k = q" "1 \<le> q" "\<And>t. t < k \<Longrightarrow> bit path t = bit N (k - 1 - t)"
  shows "walk k path parent (slot_of f q) h = Ok (if k = 0 then parent else slot_of f (unat N div 2), slot_of f (unat N))"
  using assms(3-)
proof (induction k arbitrary: path parent q)
  case 0
  then show ?case by simp
next
  case (Suc k)
  define m where "m = unat N div 2 ^ k"
  have q: "q = m div 2" using Suc.prems(1) by (simp add: m_def power_Suc2 div_mult2_eq del: power_Suc)
  have "m \<le> unat N" by (simp add: m_def)
  then have "q \<le> n" using N q Suc.prems(2) by linarith
  then obtain x where x: "f q = Some x" using rep_dom [OF rep, of q] Suc.prems(2) by (cases "f q") auto
  have rd: "read_slot (slot_of f q) h = Some x" using read_slot_of [OF rep, of q] x Suc.prems(2) \<open>q \<le> n\<close> by simp
  have "bit path 0 \<longleftrightarrow> odd m" using Suc.prems(3) [of 0] by (simp add: bit_odd_unat [of N] m_def)
  then have b: "(path AND 1 \<noteq> 0) \<longleftrightarrow> odd m" by (simp add: bit_0 and_one_eq odd_iff_mod_2_eq_one)
  have mq: "2 * q + of_bool (odd m) = m" unfolding q by (cases "odd m") simp_all
  have sl: "(if path AND 1 \<noteq> 0 then SRight x else SLeft x) = slot_of f m"
    unfolding b slot_of_child [where f = f and q = q, OF Suc.prems(2) x] mq ..
  have m1: "1 \<le> m" using q Suc.prems(2) by linarith
  have bits: "bit (drop_bit 1 path) t = bit N (k - 1 - t)" if "t < k" for t
    using Suc.prems(3) [of "Suc t"] that by (simp add: bit_drop_bit_eq)
  have "k = 0 \<Longrightarrow> q = unat N div 2" using q by (simp add: m_def)
  then show ?case using Suc.IH [of m "drop_bit 1 path", OF m_def [symmetric] m1 bits] rd sl by simp
qed

lemma path_walk:
  assumes rep: "heap_rep h f n" and N: "1 \<le> unat N" "unat N \<le> n + 1"
  obtains path k where "path_loop N 0 0 = (path, k)"
    "walk k path SMin SMin h = Ok (slot_of f (unat N div 2), slot_of f (unat N))"
proof -
  obtain path k where p: "path_loop N 0 0 = (path, k)" by fastforce
  have "unat N div 2 ^ k = 1 \<and> (\<forall>t<k. bit path t = bit N (k - 1 - t))"
    by (rule path_loop_bits [OF p, of N]) (use N(1) in \<open>simp_all add: word_le_nat_alt\<close>)
  then have *: "unat N div 2 ^ k = 1" "\<And>t. t < k \<Longrightarrow> bit path t = bit N (k - 1 - t)" by blast+
  have k0: "k = 0 \<Longrightarrow> unat N div 2 = 0" using *(1) by simp
  have "slot_of f 1 = SMin" "slot_of f 0 = SMin" by (simp_all add: slot_of_def)
  then have "walk k path SMin SMin h = Ok (slot_of f (unat N div 2), slot_of f (unat N))"
    using walk_position [OF rep N(2) *(1) _ *(2), of SMin] k0 by (cases "k = 0") simp_all
  then show thesis using that p by blast
qed

section \<open>Linking and unlinking the last position\<close>

lemma rep_fresh:
  assumes "heap_rep h f n" "x \<notin> ran f"
  shows "heap_rep (upd_node x g h) f n"
  using assms by (auto simp: heap_rep_def ran_def)

lemma write_slot_fields [simp]:
  "hp_nelts (write_slot s v h) = hp_nelts h"
  "hp_min (write_slot s v h) = (if s = SMin then v else hp_min h)"
  "hp_nodes (write_slot s v h) y = (if s = SLeft y then (hp_nodes h y)\<lparr>hn_left := v\<rparr>
     else if s = SRight y then (hp_nodes h y)\<lparr>hn_right := v\<rparr> else hp_nodes h y)"
  by (cases s; simp)+

lemma write_slot_node:
  assumes rep: "heap_rep h f n" and N: "1 \<le> N" "N \<le> n + 1" and k: "f k = Some y" "k \<noteq> N"
  shows "hp_nodes (write_slot (slot_of f N) v h) y = (node_at f k)\<lparr>
    hn_left := (f(N := v)) (2 * k), hn_right := (f(N := v)) (2 * k + 1)\<rparr>"
proof -
  have k1: "1 \<le> k" using rep_range [OF rep k(1)] by simp
  have iy: "f m = Some y \<longleftrightarrow> m = k" for m by (rule rep_inj [OF rep k(1)])
  have sl: "slot_of f N = SLeft y \<longleftrightarrow> N = 2 * k" "slot_of f N = SRight y \<longleftrightarrow> N = 2 * k + 1"
  proof -
    have "N \<le> 1 \<or> (\<exists>x. f (N div 2) = Some x)" using rep_dom [OF rep, of "N div 2"] N by (cases "f (N div 2)") auto
    then have *: "N \<le> 1 \<or> (the (f (N div 2)) = y \<longleftrightarrow> N div 2 = k)" using iy [of "N div 2"] by auto
    show "slot_of f N = SLeft y \<longleftrightarrow> N = 2 * k" using * k1 by (auto simp: slot_of_def)
    show "slot_of f N = SRight y \<longleftrightarrow> N = 2 * k + 1" using * k1 by (auto simp: slot_of_def)
  qed
  show ?thesis unfolding write_slot_fields(3) rep_node [OF rep k(1)] sl
    by (rule node_eqI) (auto simp: node_at_def)
qed

lemma append_rep:
  assumes rep: "heap_rep h f n" and x: "x \<notin> ran f" and n: "n + 1 < 2 ^ 32"
    and new: "hp_nodes h x = \<lparr>hn_left = None, hn_right = None, hn_parent = f ((n + 1) div 2)\<rparr>"
  shows "heap_rep ((write_slot (slot_of f (n + 1)) (Some x) h)\<lparr>hp_nelts := hp_nelts h + 1\<rparr>) (f(n + 1 := Some x)) (n + 1)"
proof -
  let ?f = "f(n + 1 := Some x)" and ?h = "write_slot (slot_of f (n + 1)) (Some x) h"
  have d: "dom f = {1..n}" "inj_on f {1..n}" "unat (hp_nelts h) = n" "hp_min h = f 1" using rep by (simp_all add: heap_rep_def)
  have nx: "f m \<noteq> Some x" for m using x by (auto simp: ran_def)
  have fn: "f (2 * (n + 1)) = None" "f (2 * (n + 1) + 1) = None" "f (n + 1) = None"
    using rep_dom [OF rep] by auto
  have node: "hp_nodes ?h y = node_at ?f k" if y: "?f k = Some y" for y k
  proof (cases "k = n + 1")
    case True
    have "n \<noteq> 0 \<Longrightarrow> \<exists>z. f ((n + 1) div 2) = Some z"
      using rep_dom [OF rep, of "(n + 1) div 2"] by (cases "f ((n + 1) div 2)") auto
    then have "n = 0 \<or> the (f ((n + 1) div 2)) \<noteq> x" using nx [of "(n + 1) div 2"] by auto
    then have "slot_of f (n + 1) \<noteq> SLeft x \<and> slot_of f (n + 1) \<noteq> SRight x" by (auto simp: slot_of_def)
    then show ?thesis using True y new fn by (simp add: node_at_def)
  next
    case False
    then have fk: "f k = Some y" using y by simp
    have "k div 2 \<noteq> n + 1" using rep_range [OF rep fk] by linarith
    then show ?thesis using write_slot_node [OF rep _ _ fk False, of "Some x"] by (simp add: node_at_def del: write_slot_fields)
  qed
  have "unat (hp_nelts h + 1) = n + 1" using d(3) n by (simp add: unat_plus_if')
  moreover have "hp_min ?h = ?f 1" using d(4) by (auto simp: slot_of_def)
  moreover have "dom ?f = {1..n + 1}" using d(1) by auto
  moreover have "inj_on ?f {1..n + 1}"
    using d(2) nx nx [symmetric] unfolding inj_on_def by (metis atLeastAtMost_iff fun_upd_apply le_antisym not_less_eq_eq Suc_eq_plus1)
  ultimately show ?thesis using node by (simp add: heap_rep_def)
qed

lemma unlink_rep:
  assumes rep: "heap_rep h f n" and n: "1 \<le> n"
  shows "heap_rep (write_slot (slot_of f n) None (h\<lparr>hp_nelts := hp_nelts h - 1\<rparr>)) (f(n := None)) (n - 1)"
proof -
  let ?f = "f(n := None)" and ?h = "write_slot (slot_of f n) None (h\<lparr>hp_nelts := hp_nelts h - 1\<rparr>)"
  have d: "dom f = {1..n}" "inj_on f {1..n}" "unat (hp_nelts h) = n" "hp_min h = f 1" using rep by (simp_all add: heap_rep_def)
  have node: "hp_nodes ?h y = node_at ?f k" if y: "?f k = Some y" for y k
  proof -
    have fk: "f k = Some y" "k \<noteq> n" using y by (auto split: if_splits)
    have "k div 2 \<noteq> n" using rep_range [OF rep fk(1)] n by linarith
    moreover have "hp_nodes ?h y = hp_nodes (write_slot (slot_of f n) None h) y" by simp
    ultimately show ?thesis using write_slot_node [OF rep n _ fk, of None] by (simp add: node_at_def del: write_slot_fields)
  qed
  have "hp_nelts h \<noteq> 0" using d(3) n by auto
  then have "unat (hp_nelts ?h) = n - 1" using d(3) by (simp add: unat_minus_one)
  moreover have "hp_min ?h = ?f 1" using d(4) n by (auto simp: slot_of_def)
  moreover have "dom ?f = {1..n - 1}" using d(1) n by auto
  moreover have "inj_on ?f {1..n - 1} \<longleftrightarrow> inj_on f {1..n - 1}" by (rule inj_on_cong) auto
  moreover have "inj_on f {1..n - 1}" by (rule inj_on_subset [OF d(2)]) auto
  ultimately show ?thesis using node unfolding heap_rep_def by blast
qed

section \<open>The order\<close>

definition opt_le :: "(node \<Rightarrow> node \<Rightarrow> bool) \<Rightarrow> node option \<Rightarrow> node option \<Rightarrow> bool" where
  "opt_le lt a b = (case a of None \<Rightarrow> True | Some x \<Rightarrow> (case b of None \<Rightarrow> True | Some y \<Rightarrow> \<not> lt y x))"

text \<open>No node precedes its parent.\<close>

definition heap_ordered :: "(node \<Rightarrow> node \<Rightarrow> bool) \<Rightarrow> (nat \<Rightarrow> node option) \<Rightarrow> bool" where
  "heap_ordered lt f \<longleftrightarrow> (\<forall>k. opt_le lt (f (k div 2)) (f k))"

text \<open>The order holds but for the node at position \<open>i\<close>, which may precede its parent.\<close>

definition order_up :: "(node \<Rightarrow> node \<Rightarrow> bool) \<Rightarrow> (nat \<Rightarrow> node option) \<Rightarrow> nat \<Rightarrow> bool" where
  "order_up lt f i \<longleftrightarrow> (\<forall>k. k \<noteq> i \<longrightarrow> opt_le lt (f (k div 2)) (f k)) \<and> (\<forall>k. k div 2 = i \<longrightarrow> opt_le lt (f (i div 2)) (f k))"

text \<open>The order holds but for the node at position \<open>i\<close>, which may precede its parent or be preceded by its children.\<close>

definition order_around :: "(node \<Rightarrow> node \<Rightarrow> bool) \<Rightarrow> (nat \<Rightarrow> node option) \<Rightarrow> nat \<Rightarrow> bool" where
  "order_around lt f i \<longleftrightarrow> (\<forall>k. k \<noteq> i \<and> k div 2 \<noteq> i \<longrightarrow> opt_le lt (f (k div 2)) (f k)) \<and>
     (\<forall>k. k div 2 = i \<longrightarrow> opt_le lt (f (i div 2)) (f k))"

lemma opt_le_simps [simp]:
  "opt_le lt None b" "opt_le lt a None" "opt_le lt (Some x) (Some y) \<longleftrightarrow> \<not> lt y x"
  by (simp_all add: opt_le_def split: option.splits)

lemma ran_swap: "f i = Some p \<Longrightarrow> f j = Some c \<Longrightarrow> i \<noteq> j \<Longrightarrow> ran (f(i := Some c, j := Some p)) = ran f"
proof (intro equalityI subsetI)
  assume f: "f i = Some p" "f j = Some c" "i \<noteq> j"
  { fix x assume "x \<in> ran (f(i := Some c, j := Some p))"
    then show "x \<in> ran f" using f by (auto simp: ran_def split: if_splits) }
  fix x assume "x \<in> ran f"
  then obtain a where "f a = Some x" by (auto simp: ran_def)
  then have "(f(i := Some c, j := Some p)) (if a = i then j else if a = j then i else a) = Some x" using f by auto
  then show "x \<in> ran (f(i := Some c, j := Some p))" by (rule ranI)
qed

text \<open>What the heap relies on of its comparison function: it compares keys of a linear order.\<close>

locale heap_order =
  fixes lt :: "node \<Rightarrow> node \<Rightarrow> bool" and key :: "node \<Rightarrow> 'k :: linorder"
  assumes lt_key: "lt a b \<longleftrightarrow> key a < key b"
begin

lemma opt_le_trans: "opt_le lt a (Some x) \<Longrightarrow> opt_le lt (Some x) b \<Longrightarrow> opt_le lt a b"
  by (cases a; cases b) (auto simp: lt_key)

lemma lt_le: "lt x y \<Longrightarrow> opt_le lt (Some x) (Some y)"
  by (simp add: lt_key)

lemma up_swap:
  assumes up: "order_up lt f j" and j: "2 \<le> j" "i = j div 2" "f i = Some p" "f j = Some x" "lt x p"
  shows "order_up lt (f(i := Some x, j := Some p)) i"
proof -
  let ?f = "f(i := Some x, j := Some p)"
  have ij: "1 \<le> i" "i < j" using j by auto
  have edge: "k \<noteq> j \<Longrightarrow> opt_le lt (f (k div 2)) (f k)" and below: "k div 2 = j \<Longrightarrow> opt_le lt (Some p) (f k)" for k
    using up j(2,3) by (auto simp: order_up_def)
  have xp: "opt_le lt (Some x) (Some p)" by (rule lt_le [OF j(5)])
  have sib: "opt_le lt (Some p) (f k)" if "k div 2 = i" "k \<noteq> j" for k using edge [OF that(2)] that(1) j(3) by simp
  have top: "opt_le lt (f (i div 2)) (Some p)" using edge [of i] j(3) ij by simp
  have "opt_le lt (?f (k div 2)) (?f k)" if k: "k \<noteq> i" for k
  proof -
    consider "k = j" | "k \<noteq> j" "k div 2 = i" | "k div 2 = j" | "k \<noteq> j" "k div 2 \<noteq> i" "k div 2 \<noteq> j" by blast
    then show ?thesis
    proof cases
      case 1
      moreover have "j div 2 \<noteq> j" using j(1) by simp
      ultimately show ?thesis using xp j(2) by simp
    next
      case 2
      then show ?thesis using opt_le_trans [OF xp sib] k ij by simp
    next
      case 3
      then show ?thesis using below [of k] k ij by auto
    qed (use edge k in simp)
  qed
  moreover have "opt_le lt (?f (i div 2)) (?f k)" if k: "k div 2 = i" for k
  proof -
    have d: "i div 2 \<noteq> i" "i div 2 \<noteq> j" "k \<noteq> i" using k ij by auto
    then show ?thesis using top sib [OF k] opt_le_trans [OF top sib [OF k]] by (cases "k = j") simp_all
  qed
  ultimately show ?thesis by (simp add: order_up_def)
qed

lemma down_swap:
  assumes ar: "order_around lt f i" and i: "1 \<le> i" "j div 2 = i" "f j = Some s"
    and least: "\<And>k. k div 2 = i \<Longrightarrow> opt_le lt (Some s) (f k)"
  shows "order_around lt (f(i := Some s, j := Some c)) j"
proof -
  let ?f = "f(i := Some s, j := Some c)"
  have ij: "i < j" using i by auto
  have edge: "k \<noteq> i \<Longrightarrow> k div 2 \<noteq> i \<Longrightarrow> opt_le lt (f (k div 2)) (f k)"
    and below: "k div 2 = i \<Longrightarrow> opt_le lt (f (i div 2)) (f k)" for k
    using ar by (auto simp: order_around_def)
  have d: "i div 2 \<noteq> i" "i div 2 \<noteq> j" using i ij by auto
  have "opt_le lt (?f (k div 2)) (?f k)" if k: "k \<noteq> j" "k div 2 \<noteq> j" for k
  proof -
    consider "k = i" | "k \<noteq> i" "k div 2 = i" | "k \<noteq> i" "k div 2 \<noteq> i" by blast
    then show ?thesis
    proof cases
      case 1
      then show ?thesis using below [of j] i d ij by simp
    qed (use least edge k ij in simp_all)
  qed
  moreover have "opt_le lt (?f (j div 2)) (?f k)" if k: "k div 2 = j" for k
  proof -
    have "k \<noteq> i" "k \<noteq> j" "k div 2 \<noteq> i" using k ij by auto
    then show ?thesis using edge [of k] k i ij by simp
  qed
  ultimately show ?thesis by (simp add: order_around_def)
qed

lemma smallest_child_cases:
  assumes rep: "heap_rep h f n" and c: "f i = Some c"
  obtains "smallest_child lt c h = c" "\<And>k. k div 2 = i \<Longrightarrow> opt_le lt (Some c) (f k)"
  | j where "j div 2 = i" "f j = Some (smallest_child lt c h)" "lt (smallest_child lt c h) c" "smallest_child lt c h \<noteq> c"
      "\<And>k. k div 2 = i \<Longrightarrow> opt_le lt (Some (smallest_child lt c h)) (f k)"
proof -
  let ?s = "smallest_child lt c h"
  have kids: "hn_left (hp_nodes h c) = f (2 * i)" "hn_right (hp_nodes h c) = f (2 * i + 1)"
    using rep_node [OF rep c] by (simp_all add: node_at_def)
  have low: "(?s = c \<or> (f (2 * i) = Some ?s \<or> f (2 * i + 1) = Some ?s) \<and> lt ?s c) \<and>
      opt_le lt (Some ?s) (f (2 * i)) \<and> opt_le lt (Some ?s) (f (2 * i + 1))"
    unfolding smallest_child_def Let_def kids by (auto simp: lt_key split: option.splits)
  have "k div 2 = i \<Longrightarrow> k = 2 * i \<or> k = 2 * i + 1" for k by auto
  then have all: "\<And>k. k div 2 = i \<Longrightarrow> opt_le lt (Some ?s) (f k)" using low by metis
  show thesis
  proof (cases "?s = c")
    case True
    then show ?thesis using that(1) all by simp
  next
    case False
    then obtain j where "j = 2 * i \<or> j = 2 * i + 1" "f j = Some ?s" "lt ?s c" using low by blast
    then show ?thesis using that(2) [of j] all False by auto
  qed
qed

text \<open>The loops return, with the order restored above, respectively below, the node.\<close>

lemma sift_up_ok:
  assumes "heap_rep h f n" "f i = Some x" "order_up lt f i"
  shows "\<exists>h' f'. sift_up lt x h = Some h' \<and> heap_rep h' f' n \<and> ran f' = ran f \<and> heap_ordered lt f'"
  using assms
proof (induction i arbitrary: h f rule: less_induct)
  case (less i)
  have node: "hn_parent (hp_nodes h x) = f (i div 2)" using rep_node [OF less.prems(1,2)] by (simp add: node_at_def)
  show ?case
  proof (cases "f (i div 2)")
    case None
    have "opt_le lt (f (k div 2)) (f k)" for k using less.prems(3) None by (cases "k = i") (simp_all add: order_up_def)
    then have "heap_ordered lt f" by (simp add: heap_ordered_def)
    then show ?thesis using node None less.prems(1) by (subst sift_up.simps) auto
  next
    case (Some p)
    then have i2: "2 \<le> i" using rep_range [OF less.prems(1) Some] by linarith
    show ?thesis
    proof (cases "lt x p")
      case False
      have "opt_le lt (f (k div 2)) (f k)" for k
        using less.prems(2,3) Some False by (cases "k = i") (auto simp: order_up_def)
      then show ?thesis using node Some False less.prems(1) by (subst sift_up.simps) (auto simp: heap_ordered_def)
    next
      case True
      let ?f = "f(i div 2 := Some x, i := Some p)"
      have rep: "heap_rep (heap_node_swap p x h) ?f n" by (rule swap_rep [OF less.prems(1) i2 refl Some less.prems(2)])
      have ord: "order_up lt ?f (i div 2)" by (rule up_swap [OF less.prems(3) i2 refl Some less.prems(2) True])
      have ran: "ran ?f = ran f" by (rule ran_swap [of f, OF Some less.prems(2)]) (use i2 in simp)
      have "i div 2 < i" using i2 by simp
      moreover have "?f (i div 2) = Some x" using i2 by auto
      ultimately show ?thesis using less.IH [OF _ rep _ ord] node Some True unfolding ran by (subst sift_up.simps) simp
    qed
  qed
qed

lemma sift_down_ok:
  assumes "heap_rep h f n" "f i = Some c" "order_around lt f i"
  shows "\<exists>h' f' j. sift_down lt c h = Some h' \<and> heap_rep h' f' n \<and> ran f' = ran f \<and> f' j = Some c \<and> order_up lt f' j"
  using assms
proof (induction "n - i" arbitrary: h f i rule: less_induct)
  case less
  have i1: "1 \<le> i" using rep_range [OF less.prems(1,2)] by simp
  show ?case
  proof (cases rule: smallest_child_cases [OF less.prems(1,2)])
    case 1
    have "opt_le lt (f (k div 2)) (f k)" if "k \<noteq> i" for k
      using 1(2) [of k] less.prems(2,3) that by (cases "k div 2 = i") (auto simp: order_around_def)
    then have "order_up lt f i" using less.prems(3) by (simp add: order_up_def order_around_def)
    then show ?thesis using 1(1) less.prems by (subst sift_down.simps) auto
  next
    case (2 j)
    let ?s = "smallest_child lt c h"
    let ?f = "f(i := Some ?s, j := Some c)"
    have j: "2 \<le> j" "i < j" "j \<le> n" using 2(1) i1 rep_range [OF less.prems(1) 2(2)] by auto
    have rep: "heap_rep (heap_node_swap c ?s h) ?f n"
      by (rule swap_rep [OF less.prems(1) j(1) 2(1) [symmetric] less.prems(2) 2(2)])
    have ord: "order_around lt ?f j" by (rule down_swap [OF less.prems(3) i1 2(1,2,5)])
    have ran: "ran ?f = ran f" by (rule ran_swap [of f, OF less.prems(2) 2(2)]) (use j in simp)
    have "n - j < n - i" using j by simp
    from less.hyps [OF this rep _ ord] show ?thesis using ran 2(4) by (subst sift_down.simps) simp
  qed
qed

end

section \<open>The heap as a set of nodes\<close>

definition heap_set :: "(node \<Rightarrow> node \<Rightarrow> bool) \<Rightarrow> heap \<Rightarrow> node set \<Rightarrow> bool" where
  "heap_set lt h S \<longleftrightarrow> (\<exists>f n. heap_rep h f n \<and> heap_ordered lt f \<and> ran f = S)"

lemma heap_set_empty: "heap_set lt (heap_init h) {}"
  unfolding heap_set_def
  by (rule exI [of _ Map.empty], rule exI [of _ 0]) (simp add: heap_rep_def heap_init_def heap_ordered_def)

lemma heap_set_cong:
  assumes "heap_set lt h S" "\<And>a b. a \<in> S \<Longrightarrow> b \<in> S \<Longrightarrow> lt' a b \<longleftrightarrow> lt a b"
  shows "heap_set lt' h S"
proof -
  obtain f n where f: "heap_rep h f n" "heap_ordered lt f" "ran f = S" using assms(1) by (auto simp: heap_set_def)
  have "opt_le lt' (f (k div 2)) (f k)" for k
    using f(2,3) assms(2) by (cases "f (k div 2)"; cases "f k") (auto simp: heap_ordered_def ran_def, metis opt_le_simps(3))
  then show ?thesis using f unfolding heap_set_def heap_ordered_def by blast
qed

lemma rep_card: "heap_rep h f n \<Longrightarrow> card (ran f) = n \<and> finite (ran f)"
proof -
  assume rep: "heap_rep h f n"
  have img: "Some ` ran f = f ` {1..n}"
  proof -
    have d: "dom f = {1..n}" using rep by (simp add: heap_rep_def)
    show ?thesis
    proof (intro equalityI subsetI)
      fix y assume "y \<in> Some ` ran f"
      then obtain a x where "f a = Some x" "y = Some x" by (auto simp: ran_def)
      then show "y \<in> f ` {1..n}" using d by (metis domI image_eqI)
    next
      fix y assume "y \<in> f ` {1..n}"
      then obtain a where "a \<in> dom f" "y = f a" using d by blast
      then obtain x where "f a = Some x" "y = Some x" by auto
      then show "y \<in> Some ` ran f" by (simp add: ranI)
    qed
  qed
  have "card (Some ` ran f) = n" unfolding img using rep by (simp add: heap_rep_def card_image)
  moreover have "finite (Some ` ran f)" unfolding img by simp
  ultimately show ?thesis by (simp add: card_image finite_image_iff)
qed

lemma heap_set_nelts: "heap_set lt h S \<Longrightarrow> unat (hp_nelts h) = card S \<and> finite S"
proof -
  assume "heap_set lt h S"
  then obtain f n where "heap_rep h f n" "ran f = S" by (auto simp: heap_set_def)
  then show ?thesis using rep_card [of h f n] by (simp add: heap_rep_def)
qed

lemma ran_append: "f m = None \<Longrightarrow> ran (f(m := Some x)) = insert x (ran f)"
  by (rule ran_map_upd)

lemma ran_unset: "f n = Some x \<Longrightarrow> (\<And>a. f a = Some x \<Longrightarrow> a = n) \<Longrightarrow> ran (f(n := None)) = ran f - {x}"
proof (intro equalityI subsetI)
  assume f: "f n = Some x" "\<And>a. f a = Some x \<Longrightarrow> a = n"
  { fix y assume "y \<in> ran (f(n := None))"
    then obtain a where a: "a \<noteq> n" "f a = Some y" by (auto simp: ran_def split: if_splits)
    then have "y \<noteq> x" using f(2) [of a] by auto
    then show "y \<in> ran f - {x}" using a(2) by (simp add: ranI) }
  fix y assume "y \<in> ran f - {x}"
  then obtain a where "f a = Some y" "y \<noteq> x" by (auto simp: ran_def)
  then have "(f(n := None)) a = Some y" using f(1) by auto
  then show "y \<in> ran (f(n := None))" by (rule ranI)
qed

context heap_order
begin

lemma min_position:
  assumes rep: "heap_rep h f n" and ord: "heap_ordered lt f" and "f i = Some x"
  shows "\<exists>m. f 1 = Some m \<and> \<not> lt x m"
  using assms(3)
proof (induction i arbitrary: x rule: less_induct)
  case (less i)
  show ?case
  proof (cases "i = 1")
    case True
    then show ?thesis using less.prems by (simp add: lt_key)
  next
    case False
    have i: "2 \<le> i" "i \<le> n" using rep_range [OF rep less.prems] False by auto
    then obtain y where y: "f (i div 2) = Some y" using rep_dom [OF rep, of "i div 2"] by (cases "f (i div 2)") auto
    have "opt_le lt (f (i div 2)) (f i)" using ord by (simp add: heap_ordered_def)
    then have "\<not> lt x y" using y less.prems by simp
    then show ?thesis using less.IH [OF _ y] i by (force simp: lt_key)
  qed
qed

lemma heap_min_least:
  assumes "heap_set lt h S"
  shows "case heap_min h of None \<Rightarrow> S = {} | Some m \<Rightarrow> m \<in> S \<and> (\<forall>x\<in>S. \<not> lt x m)"
proof -
  obtain f n where f: "heap_rep h f n" "heap_ordered lt f" "ran f = S" using assms by (auto simp: heap_set_def)
  have min: "heap_min h = f 1" using f(1) by (simp add: heap_rep_def heap_min_def)
  have least: "\<exists>m. f 1 = Some m \<and> \<not> lt x m" if "x \<in> S" for x
    using that f(3) min_position [OF f(1,2)] by (auto simp: ran_def)
  show ?thesis
  proof (cases "f 1")
    case None
    then show ?thesis using least min by fastforce
  next
    case (Some m)
    then show ?thesis using least min f(3) by (auto simp: ran_def)
  qed
qed

lemma insert_order_up:
  assumes rep: "heap_rep h f n" and ord: "heap_ordered lt f"
  shows "order_up lt (f(n + 1 := Some x)) (n + 1)"
proof -
  let ?f = "f(n + 1 := Some x)"
  have none: "f (n + 1) = None" "k div 2 = n + 1 \<Longrightarrow> f k = None" for k
    using rep_dom [OF rep, of "n + 1"] rep_dom [OF rep, of k] by auto
  have "opt_le lt (?f (k div 2)) (?f k)" if k: "k \<noteq> n + 1" for k
  proof (cases "k div 2 = n + 1")
    case False
    then show ?thesis using ord k by (simp add: heap_ordered_def)
  qed (use none(2) k in simp)
  moreover have "opt_le lt (?f ((n + 1) div 2)) (?f k)" if k: "k div 2 = n + 1" for k
  proof -
    have "k \<noteq> n + 1" using k by auto
    then show ?thesis using none(2) [OF k] by simp
  qed
  ultimately show ?thesis by (simp add: order_up_def)
qed

lemma heap_insert_ok:
  assumes set: "heap_set lt h S" and x: "x \<notin> S" and size: "card S + 1 < 2 ^ 32"
  shows "\<exists>h'. heap_insert lt x h = Some (Ok (), h') \<and> heap_set lt h' (insert x S)"
proof -
  obtain f n where f: "heap_rep h f n" "heap_ordered lt f" "ran f = S" using set by (auto simp: heap_set_def)
  have n: "card S = n" using rep_card [OF f(1)] f(3) by simp
  define h1 where "h1 = upd_node x (\<lambda>_. \<lparr>hn_left = None, hn_right = None, hn_parent = None\<rparr>) h"
  have r1: "heap_rep h1 f n" unfolding h1_def by (rule rep_fresh) (use f x in simp_all)
  have N: "unat (1 + hp_nelts h1) = n + 1" 
  proof -
    have "unat (hp_nelts h1) = n" using r1 by (simp add: heap_rep_def)
    then show ?thesis using n size by (simp add: unat_plus_if')
  qed
  obtain path k where p: "path_loop (1 + hp_nelts h1) 0 0 = (path, k)"
      "walk k path SMin SMin h1 = Ok (slot_of f ((n + 1) div 2), slot_of f (n + 1))"
    using path_walk [OF r1, of "1 + hp_nelts h1"] N by auto
  have rd: "read_slot (slot_of f ((n + 1) div 2)) h1 = f ((n + 1) div 2)"
  proof (cases "n = 0")
    case True
    then show ?thesis using r1 rep_dom [OF r1] by (simp add: slot_of_def heap_rep_def)
  qed (use read_slot_of [OF r1, of "(n + 1) div 2"] in simp)
  define h2 where "h2 = upd_node x (hn_parent_update (\<lambda>_. f ((n + 1) div 2))) h1"
  have r2: "heap_rep h2 f n" unfolding h2_def by (rule rep_fresh [OF r1]) (use f x in simp)
  have nx: "hp_nodes h2 x = \<lparr>hn_left = None, hn_right = None, hn_parent = f ((n + 1) div 2)\<rparr>" by (simp add: h2_def h1_def)
  let ?f = "f(n + 1 := Some x)"
  let ?h3 = "(write_slot (slot_of f (n + 1)) (Some x) h2)\<lparr>hp_nelts := hp_nelts h2 + 1\<rparr>"
  have r3: "heap_rep ?h3 ?f (n + 1)" by (rule append_rep [OF r2 _ _ nx]) (use f x n size in simp_all)
  obtain h' f' where h': "sift_up lt x ?h3 = Some h'" "heap_rep h' f' (n + 1)" "ran f' = ran ?f" "heap_ordered lt f'"
    using sift_up_ok [OF r3 _ insert_order_up [OF f(1,2)]] by auto
  have "ran ?f = insert x S" unfolding f(3) [symmetric] by (rule ran_append) (use rep_dom [OF f(1)] in simp)
  then have "ran f' = insert x S" using h'(3) by simp
  then have "heap_set lt h' (insert x S)" using h'(2,4) unfolding heap_set_def by blast
  moreover have "heap_insert lt x h = Some (Ok (), h')"
    unfolding heap_insert_def Let_def h1_def [symmetric] p(1) prod.case p(2) outcome.case rd h2_def [symmetric]
    using h'(1) by (simp del: write_slot_fields add: write_slot_fields(1))
  ultimately show ?thesis by blast
qed

lemma replace_order:
  assumes "heap_ordered lt f" "f i = Some x" "1 \<le> i"
  shows "order_around lt (f(n := None, i := Some c)) i"
proof -
  let ?f = "f(n := None, i := Some c)"
  have edge: "opt_le lt (f (k div 2)) (f k)" for k using assms(1) by (simp add: heap_ordered_def)
  have "opt_le lt (f (i div 2)) (f k)" if "k div 2 = i" for k
    using opt_le_trans [of "f (i div 2)" x "f k"] edge [of i] edge [of k] assms(2) that by simp
  then have "opt_le lt (?f (i div 2)) (?f k)" if "k div 2 = i" for k using that assms(3) by auto
  moreover have "opt_le lt (?f (k div 2)) (?f k)" if "k \<noteq> i" "k div 2 \<noteq> i" for k using edge [of k] that by simp
  ultimately show ?thesis by (simp add: order_around_def)
qed

lemma heap_remove_ok:
  assumes set: "heap_set lt h S" and x: "x \<in> S"
  shows "\<exists>h'. heap_remove lt x h = Some (Ok (), h') \<and> heap_set lt h' (S - {x})"
proof -
  obtain f n where f: "heap_rep h f n" "heap_ordered lt f" "ran f = S" using set by (auto simp: heap_set_def)
  obtain i where i: "f i = Some x" using x f(3) by (auto simp: ran_def)
  have ir: "1 \<le> i" "i \<le> n" using rep_range [OF f(1) i] by auto
  have n: "unat (hp_nelts h) = n" "hp_nelts h \<noteq> 0" using f(1) ir by (auto simp: heap_rep_def)
  obtain path k where p: "path_loop (hp_nelts h) 0 0 = (path, k)"
      "walk k path SMin SMin h = Ok (slot_of f (n div 2), slot_of f n)"
    using path_walk [OF f(1), of "hp_nelts h"] n ir by auto
  define h1 where "h1 = h\<lparr>hp_nelts := hp_nelts h - 1\<rparr>"
  define h2 where "h2 = write_slot (slot_of f n) None h1"
  have "read_slot s h1 = read_slot s h" for s by (cases s) (simp_all add: h1_def)
  then have rd: "read_slot (slot_of f n) h1 = f n" using read_slot_of [OF f(1), of n] ir by simp
  have r2: "heap_rep h2 (f(n := None)) (n - 1)" unfolding h2_def h1_def by (rule unlink_rep [OF f(1)]) (use ir in simp)
  have inj: "f a = Some y \<Longrightarrow> f b = Some y \<Longrightarrow> a = b" for a b y using rep_inj [OF f(1)] by blast
  have ord: "heap_ordered lt (f(n := None))" using f(2) by (auto simp: heap_ordered_def)
  have eq: "heap_remove lt x h = (if f n = Some x then Some (Ok (), if f n = hp_min h2 then h2\<lparr>hp_min := None\<rparr> else h2)
      else (case f n of None \<Rightarrow> Some (Undef, h2) | Some c \<Rightarrow> Option.bind (sift_down lt c (replace_node x c h2)) (\<lambda>h3.
         map_option (\<lambda>h. (Ok (), h)) (sift_up lt c h3))))"
    unfolding heap_remove_def Let_def p(1) prod.case p(2) outcome.case h1_def [symmetric] h2_def [symmetric] rd
    using n(2) by (simp only: if_False)
  show ?thesis
  proof (cases "f n = Some x")
    case True
    have "hp_min h2 = (f(n := None)) 1" using r2 by (simp add: heap_rep_def)
    then have "f n \<noteq> hp_min h2" using True inj [of n x 1] by (auto split: if_splits)
    then have "heap_remove lt x h = Some (Ok (), h2)" using eq True by simp
    moreover have "ran (f(n := None)) = S - {x}" using ran_unset [of f n x] True f(3) inj [OF _ True] by blast
    ultimately show ?thesis using r2 ord unfolding heap_set_def by blast
  next
    case False
    then have i_n: "i < n" using i ir by (cases "i = n") auto
    obtain c where c: "f n = Some c" using rep_dom [OF f(1), of n] ir by (cases "f n") auto
    have cr: "c \<notin> ran (f(n := None))" using c inj by (auto simp: ran_def)
    let ?f = "f(n := None, i := Some c)"
    have r3: "heap_rep (replace_node x c h2) ?f (n - 1)"
      by (rule replace_rep [OF r2 _ cr]) (use i i_n in simp)
    have rn: "ran ?f = S - {x}"
    proof -
      have "ran (f(n := None)) = S - {c}" using ran_unset [of f n c] c inj [OF _ c] f(3) by blast
      moreover have "(f(n := None)) i = Some x" using i i_n by simp
      moreover have "a = i" if "(f(n := None)) a = Some x" for a using that inj [OF _ i] by (auto split: if_splits)
      ultimately have "ran (f(n := None, i := None)) = S - {c} - {x}" using ran_unset [of "f(n := None)" i x] by blast
      moreover have "ran ?f = insert c (ran (f(n := None, i := None)))"
        using ran_append [of "f(n := None, i := None)" i c] by simp
      moreover have "c \<in> S" "c \<noteq> x" using c f(3) False by (auto simp: ran_def)
      ultimately show ?thesis by auto
    qed
    obtain h3 f3 j where h3: "sift_down lt c (replace_node x c h2) = Some h3" "heap_rep h3 f3 (n - 1)" "ran f3 = ran ?f"
        "f3 j = Some c" "order_up lt f3 j"
      using sift_down_ok [OF r3 _ replace_order [OF f(2) i ir(1)]] by auto
    obtain h4 f4 where h4: "sift_up lt c h3 = Some h4" "heap_rep h4 f4 (n - 1)" "ran f4 = ran f3" "heap_ordered lt f4"
      using sift_up_ok [OF h3(2,4,5)] by blast
    have "heap_remove lt x h = Some (Ok (), h4)" unfolding eq using False c h3(1) h4(1) by simp
    moreover have "ran f4 = S - {x}" using h4(3) h3(3) rn by simp
    ultimately show ?thesis using h4(2,4) unfolding heap_set_def by blast
  qed
qed

end

section \<open>Properties\<close>

text \<open>C27: The operations of the heap are those of a set of nodes. Inserting a node returns, with a complete tree in heap order that holds the
  old nodes and the new one; removing a node, and taking out the minimum, returns with a complete tree in heap order of the other
  nodes; the minimum is a node of the heap that no other node precedes.\<close>

theorem heap_is_set:
  fixes key :: "node \<Rightarrow> 'k :: linorder"
  assumes "\<And>a b. lt a b \<longleftrightarrow> key a < key b" and "heap_set lt h S" "card S + 1 < 2 ^ 32"
  shows "(x \<notin> S \<longrightarrow> (\<exists>h'. heap_insert lt x h = Some (Ok (), h') \<and> heap_set lt h' (insert x S))) \<and>
    (x \<in> S \<longrightarrow> (\<exists>h'. heap_remove lt x h = Some (Ok (), h') \<and> heap_set lt h' (S - {x}))) \<and>
    (S \<noteq> {} \<longrightarrow> (\<exists>m h'. heap_min h = Some m \<and> m \<in> S \<and> (\<forall>y\<in>S. \<not> lt y m) \<and> heap_dequeue lt h = Some (Ok (), h') \<and> heap_set lt h' (S - {m})))"
proof -
  have ord: "heap_order lt key" by (rule heap_order.intro) (rule assms(1))
  have "\<exists>m h'. heap_min h = Some m \<and> m \<in> S \<and> (\<forall>y\<in>S. \<not> lt y m) \<and> heap_dequeue lt h = Some (Ok (), h') \<and> heap_set lt h' (S - {m})" if ne: "S \<noteq> {}"
  proof -
    obtain m where m: "heap_min h = Some m" "m \<in> S" "\<forall>y\<in>S. \<not> lt y m"
      using heap_order.heap_min_least [OF ord assms(2)] ne by (cases "heap_min h") auto
    have "card S \<noteq> 0" using ne heap_set_nelts [OF assms(2)] by auto
    then have "hp_nelts h \<noteq> 0" using heap_set_nelts [OF assms(2)] by auto
    then have "heap_dequeue lt h = heap_remove lt m h" using m(1) by (simp add: heap_dequeue_def heap_min_def)
    then show ?thesis using heap_order.heap_remove_ok [OF ord assms(2) m(2)] m by auto
  qed
  then show ?thesis using heap_order.heap_insert_ok [OF ord assms(2)] heap_order.heap_remove_ok [OF ord assms(2)] assms(3) by blast
qed

theorem heap_is_set_witness:
  "\<exists>h h'. heap_set (<) h {7} \<and> heap_remove (<) 7 h = Some (Ok (), h') \<and> heap_set (<) h' {} \<and> heap_min h = Some 7"
proof -
  have ord: "heap_order (<) (\<lambda>x. x)" by (rule heap_order.intro) simp
  obtain h where h: "heap_set (<) h {7}"
    using heap_order.heap_insert_ok [OF ord heap_set_empty, of 7] by auto
  then show ?thesis using heap_is_set [of "(<)" "\<lambda>x. x" h "{7}" 7] by auto
qed

end
