(* ===== verification/Uv_Queue.thy ===== *)
theory Uv_Queue
  imports C_Prelude
begin

text \<open>
  The intrusive queues of libuv (\<^verbatim>\<open>src/queue.h\<close>): rings of nodes with a next and a previous pointer, threaded through a
  header. The memory is a map from the addresses of the nodes. A ring is read as the list of its nodes behind the header;
  the lemmas say what each macro does to that list.
\<close>

record qnode =
  q_next :: nat
  q_prev :: nat

type_synonym qmem = "nat \<Rightarrow> qnode"

definition QUEUE_NEXT :: "qmem \<Rightarrow> nat \<Rightarrow> nat" where
  "QUEUE_NEXT m q = q_next (m q)"

definition QUEUE_PREV :: "qmem \<Rightarrow> nat \<Rightarrow> nat" where
  "QUEUE_PREV m q = q_prev (m q)"

text \<open>Assignments to \<^verbatim>\<open>QUEUE_NEXT(q)\<close> and \<^verbatim>\<open>QUEUE_PREV(q)\<close>.\<close>

definition set_next :: "nat \<Rightarrow> nat \<Rightarrow> qmem \<Rightarrow> qmem" where
  "set_next q v m = m(q := (m q)\<lparr>q_next := v\<rparr>)"

definition set_prev :: "nat \<Rightarrow> nat \<Rightarrow> qmem \<Rightarrow> qmem" where
  "set_prev q v m = m(q := (m q)\<lparr>q_prev := v\<rparr>)"

definition QUEUE_EMPTY :: "nat \<Rightarrow> qmem \<Rightarrow> bool" where
  "QUEUE_EMPTY q m \<longleftrightarrow> q = QUEUE_NEXT m q"

definition QUEUE_HEAD :: "nat \<Rightarrow> qmem \<Rightarrow> nat" where
  "QUEUE_HEAD q m = QUEUE_NEXT m q"

definition QUEUE_INIT :: "nat \<Rightarrow> qmem \<Rightarrow> qmem" where
  "QUEUE_INIT q m = set_prev q q (set_next q q m)"

definition QUEUE_ADD :: "nat \<Rightarrow> nat \<Rightarrow> qmem \<Rightarrow> qmem" where
  "QUEUE_ADD h n m =
     (let m = set_next (QUEUE_PREV m h) (QUEUE_NEXT m n) m;
          m = set_prev (QUEUE_NEXT m n) (QUEUE_PREV m h) m;
          m = set_prev h (QUEUE_PREV m n) m
      in set_next (QUEUE_PREV m h) h m)"

definition QUEUE_SPLIT :: "nat \<Rightarrow> nat \<Rightarrow> nat \<Rightarrow> qmem \<Rightarrow> qmem" where
  "QUEUE_SPLIT h q n m =
     (let m = set_prev n (QUEUE_PREV m h) m;
          m = set_next (QUEUE_PREV m n) n m;
          m = set_next n q m;
          m = set_prev h (QUEUE_PREV m q) m;
          m = set_next (QUEUE_PREV m h) h m
      in set_prev q n m)"

definition QUEUE_MOVE :: "nat \<Rightarrow> nat \<Rightarrow> qmem \<Rightarrow> qmem" where
  "QUEUE_MOVE h n m = (if QUEUE_EMPTY h m then QUEUE_INIT n m else QUEUE_SPLIT h (QUEUE_HEAD h m) n m)"

definition QUEUE_INSERT_HEAD :: "nat \<Rightarrow> nat \<Rightarrow> qmem \<Rightarrow> qmem" where
  "QUEUE_INSERT_HEAD h q m =
     (let m = set_next q (QUEUE_NEXT m h) m;
          m = set_prev q h m;
          m = set_prev (QUEUE_NEXT m q) q m
      in set_next h q m)"

definition QUEUE_INSERT_TAIL :: "nat \<Rightarrow> nat \<Rightarrow> qmem \<Rightarrow> qmem" where
  "QUEUE_INSERT_TAIL h q m =
     (let m = set_next q h m;
          m = set_prev q (QUEUE_PREV m h) m;
          m = set_next (QUEUE_PREV m q) q m
      in set_prev h q m)"

definition QUEUE_REMOVE :: "nat \<Rightarrow> qmem \<Rightarrow> qmem" where
  "QUEUE_REMOVE q m =
     (let m = set_next (QUEUE_PREV m q) (QUEUE_NEXT m q) m
      in set_prev (QUEUE_NEXT m q) (QUEUE_PREV m q) m)"

section \<open>Chains and rings\<close>

text \<open>The nodes \<open>xs\<close> are linked in this order between \<open>a\<close> and \<open>b\<close>.\<close>

fun chain :: "qmem \<Rightarrow> nat \<Rightarrow> nat list \<Rightarrow> nat \<Rightarrow> bool" where
  "chain m a [] b \<longleftrightarrow> q_next (m a) = b \<and> q_prev (m b) = a"
| "chain m a (x # xs) b \<longleftrightarrow> q_next (m a) = x \<and> q_prev (m x) = a \<and> chain m x xs b"

definition ring :: "qmem \<Rightarrow> nat \<Rightarrow> nat list \<Rightarrow> bool" where
  "ring m h xs \<longleftrightarrow> distinct (h # xs) \<and> chain m h xs h"

lemma set_fields [simp]:
  "q_next (set_next a v m b) = (if a = b then v else q_next (m b))" "q_prev (set_next a v m b) = q_prev (m b)"
  "q_prev (set_prev a v m b) = (if a = b then v else q_prev (m b))" "q_next (set_prev a v m b) = q_next (m b)"
  by (auto simp: set_next_def set_prev_def)

lemmas queue_defs = QUEUE_NEXT_def QUEUE_PREV_def QUEUE_EMPTY_def QUEUE_HEAD_def QUEUE_INIT_def QUEUE_ADD_def
  QUEUE_SPLIT_def QUEUE_MOVE_def QUEUE_INSERT_HEAD_def QUEUE_INSERT_TAIL_def QUEUE_REMOVE_def Let_def

lemma chain_append: "chain m a (xs @ y # ys) b \<longleftrightarrow> chain m a xs y \<and> chain m y ys b"
  by (induction xs arbitrary: a) auto

lemma chain_frame:
  assumes "\<And>x. x \<in> set (a # xs) \<Longrightarrow> q_next (m' x) = q_next (m x)" "\<And>x. x \<in> set (b # xs) \<Longrightarrow> q_prev (m' x) = q_prev (m x)"
  shows "chain m' a xs b \<longleftrightarrow> chain m a xs b"
  using assms by (induction xs arbitrary: a) auto

lemma chain_ends: "chain m a xs b \<Longrightarrow> q_next (m a) = hd (xs @ [b]) \<and> q_prev (m b) = List.last (a # xs)"
  by (induction xs arbitrary: a) auto

lemma ring_frame:
  assumes "ring m h xs" "\<And>x. x \<in> set (h # xs) \<Longrightarrow> m' x = m x"
  shows "ring m' h xs"
  using assms chain_frame [of h xs m' m h] by (simp add: ring_def)

lemma ring_empty: "ring m h xs \<Longrightarrow> QUEUE_EMPTY h m \<longleftrightarrow> xs = []"
  by (cases xs) (auto simp: ring_def queue_defs)

lemma ring_head: "ring m h (x # xs) \<Longrightarrow> QUEUE_HEAD h m = x"
  by (simp add: ring_def queue_defs)

lemma ring_init: "ring (QUEUE_INIT h m) h []"
  by (simp add: ring_def queue_defs)

lemma ring_insert_head:
  assumes "ring m h xs" "q \<notin> set (h # xs)"
  shows "ring (QUEUE_INSERT_HEAD h q m) h (q # xs)"
proof (cases xs)
  case Nil
  then show ?thesis using assms by (auto simp: ring_def queue_defs)
next
  case (Cons y ys)
  let ?m = "QUEUE_INSERT_HEAD h q m"
  have "chain ?m y ys h \<longleftrightarrow> chain m y ys h"
    by (rule chain_frame) (use assms Cons in \<open>auto simp: ring_def queue_defs\<close>)
  then show ?thesis using assms Cons by (auto simp: ring_def queue_defs)
qed

text \<open>The far end of a chain may be linked to another node.\<close>

lemma chain_redirect:
  assumes "chain m a xs b" "distinct (a # xs)" "e = List.last (a # xs)" "\<And>x. x \<in> set (a # xs) \<Longrightarrow> x \<noteq> e \<Longrightarrow> q_next (m' x) = q_next (m x)"
    "\<And>x. x \<in> set xs \<Longrightarrow> q_prev (m' x) = q_prev (m x)" "q_next (m' e) = c" "q_prev (m' c) = e"
  shows "chain m' a xs c"
  using assms
proof (induction xs arbitrary: a)
  case (Cons x xs)
  have "a \<noteq> e" using Cons.prems(2,3) by (metis distinct.simps(2) last.simps last_in_set list.distinct(1))
  then have "q_next (m' a) = x" "q_prev (m' x) = a" using Cons.prems(1,4,5) by simp_all
  moreover have "chain m' x xs c" by (rule Cons.IH) (use Cons.prems in auto)
  ultimately show ?case by simp
qed simp

lemma ring_insert_tail:
  assumes "ring m h xs" "q \<notin> set (h # xs)"
  shows "ring (QUEUE_INSERT_TAIL h q m) h (xs @ [q])"
proof -
  define e where "e = List.last (h # xs)"
  let ?m = "QUEUE_INSERT_TAIL h q m"
  have c: "chain m h xs h" and d: "distinct (h # xs)" using assms(1) by (auto simp: ring_def)
  have "q_prev (m h) = e" using chain_ends [OF c] by (simp add: e_def)
  moreover have "e \<in> set (h # xs)" by (simp add: e_def)
  ultimately have p: "q_next (?m x) = (if x = e then q else if x = q then h else q_next (m x))"
      "q_prev (?m x) = (if x = h then q else if x = q then e else q_prev (m x))" and ne: "e \<noteq> q" "h \<noteq> q" for x
    using assms(2) by (auto simp: queue_defs)
  have "chain ?m h xs q"
    by (rule chain_redirect [OF c d e_def]) (use assms(2) ne d in \<open>auto simp: p\<close>)
  then show ?thesis using assms(2) d ne by (simp add: ring_def chain_append p)
qed

lemma ring_remove:
  assumes "ring m h (xs @ q # ys)"
  shows "ring (QUEUE_REMOVE q m) h (xs @ ys)"
proof -
  define e where "e = List.last (h # xs)"
  define f where "f = hd (ys @ [h])"
  let ?m = "QUEUE_REMOVE q m"
  have c: "chain m h xs q" "chain m q ys h" and d: "distinct (h # xs @ q # ys)"
    using assms by (auto simp: ring_def chain_append)
  have ends: "q_prev (m q) = e" "q_next (m q) = f" using chain_ends [OF c(1)] chain_ends [OF c(2)] by (simp_all add: e_def f_def)
  have mem: "e \<in> set (h # xs)" "f \<in> set (h # ys)" by (simp add: e_def) (cases ys; simp add: f_def)
  have ne: "e \<noteq> q" "f \<noteq> q" using mem d by auto
  have p: "q_next (?m x) = (if x = e then f else q_next (m x))" "q_prev (?m x) = (if x = f then e else q_prev (m x))" for x
    using ends ne by (auto simp: queue_defs)
  have xs: "chain ?m h xs f"
    by (rule chain_redirect [OF c(1) _ e_def]) (use d mem(2) in \<open>auto simp: p\<close>)
  have "chain ?m h (xs @ ys) h"
  proof (cases ys)
    case Nil
    then show ?thesis using xs by (simp add: f_def)
  next
    case (Cons y zs)
    have "chain ?m y zs h \<longleftrightarrow> chain m y zs h"
      by (rule chain_frame) (use d mem(1) Cons in \<open>auto simp: p f_def\<close>)
    then show ?thesis using xs c(2) Cons by (simp add: chain_append f_def)
  qed
  then show ?thesis using d by (auto simp: ring_def)
qed

lemma ring_move:
  assumes "ring m h xs" "n \<notin> set (h # xs)"
  shows "ring (QUEUE_MOVE h n m) n xs \<and> ring (QUEUE_MOVE h n m) h []"
proof (cases xs)
  case Nil
  then show ?thesis using assms ring_empty [OF assms(1)] by (auto simp: ring_def queue_defs)
next
  case (Cons y zs)
  define u where "u = List.last (y # zs)"
  let ?m = "QUEUE_MOVE h n m"
  have d: "distinct (h # y # zs)" and c: "chain m h (y # zs) h" using assms(1) Cons by (auto simp: ring_def)
  have eq: "?m = QUEUE_SPLIT h y n m"
    unfolding QUEUE_MOVE_def using ring_empty [OF assms(1)] ring_head [of m h y zs] assms(1) Cons by simp
  have ends: "q_prev (m h) = u" "q_prev (m y) = h" using chain_ends [OF c] c by (simp_all add: u_def)
  have mem: "u \<in> set (y # zs)" by (simp add: u_def)
  have ne: "n \<noteq> h" "n \<noteq> u" "n \<noteq> y" "h \<noteq> u" "h \<noteq> y" using assms(2) d mem Cons by auto
  have p: "q_next (?m x) = (if x = h then h else if x = u then n else if x = n then y else q_next (m x))"
      "q_prev (?m x) = (if x = h then h else if x = y then n else if x = n then u else q_prev (m x))" for x
    unfolding eq using ends ne by (auto simp: queue_defs)
  have "chain m y zs h" using c by simp
  then have "chain ?m y zs n"
    by (rule chain_redirect [OF _ _ u_def]) (use d ne assms(2) Cons in \<open>auto simp: p\<close>)
  then have "ring ?m n xs" using d ne assms(2) Cons by (simp add: ring_def p)
  moreover have "ring ?m h []" by (simp add: ring_def p)
  ultimately show ?thesis by blast
qed

lemma ring_add:
  assumes "ring m h xs" "ring m n (y # zs)" "set (h # xs) \<inter> set (n # y # zs) = {}"
  shows "ring (QUEUE_ADD h n m) h (xs @ y # zs)"
proof -
  define e where "e = List.last (h # xs)"
  define u where "u = List.last (y # zs)"
  let ?m = "QUEUE_ADD h n m"
  have c: "chain m h xs h" "chain m y zs n" "q_next (m n) = y" "q_prev (m n) = u" and d: "distinct (h # xs)" "distinct (n # y # zs)"
    using assms(1,2) chain_ends [of m n "y # zs" n] by (auto simp: ring_def u_def)
  have eh: "q_prev (m h) = e" using chain_ends [OF c(1)] by (simp add: e_def)
  have mem: "e \<in> set (h # xs)" "u \<in> set (y # zs)" by (simp_all add: e_def u_def)
  then have ne: "e \<noteq> n" "e \<noteq> y" "e \<noteq> u" "h \<noteq> n" "h \<noteq> y" "h \<noteq> u" "n \<noteq> y" "n \<noteq> u" using assms(3) d by auto
  have p: "q_next (?m x) = (if x = u then h else if x = e then y else q_next (m x))"
      "q_prev (?m x) = (if x = h then u else if x = y then e else q_prev (m x))" for x
    using c(3,4) eh ne by (auto simp: queue_defs)
  have "chain ?m h xs y"
    by (rule chain_redirect [OF c(1) d(1) e_def]) (use ne mem d assms(3) in \<open>auto simp: p\<close>)
  moreover have "chain ?m y zs h"
    by (rule chain_redirect [OF c(2) _ u_def]) (use ne mem d assms(3) in \<open>auto simp: p\<close>)
  ultimately show ?thesis using d assms(3) by (auto simp: ring_def chain_append)
qed

section \<open>Properties\<close>

text \<open>C29: The macros of \<^verbatim>\<open>queue.h\<close> are operations on lists: on a ring with the nodes \<open>xs\<close> behind the header, inserting at the head
  or the tail adds the node at that end, removing a node takes out that node and keeps the order of the others, and moving a
  queue to another header leaves an empty queue behind and the nodes, in their order, behind the new header.\<close>

theorem queue_is_list:
  assumes "ring m h xs" "q \<notin> set (h # xs)"
  shows "ring (QUEUE_INSERT_HEAD h q m) h (q # xs) \<and> ring (QUEUE_INSERT_TAIL h q m) h (xs @ [q]) \<and>
    ring (QUEUE_MOVE h q m) q xs \<and> ring (QUEUE_MOVE h q m) h [] \<and>
    (\<forall>i<length xs. ring (QUEUE_REMOVE (xs ! i) m) h (take i xs @ drop (Suc i) xs)) \<and>
    QUEUE_EMPTY h m = (xs = []) \<and> (xs \<noteq> [] \<longrightarrow> QUEUE_HEAD h m = hd xs)"
proof -
  have "ring (QUEUE_REMOVE (xs ! i) m) h (take i xs @ drop (Suc i) xs)" if "i < length xs" for i
    by (rule ring_remove) (use assms(1) that in \<open>simp add: id_take_nth_drop [symmetric]\<close>)
  moreover have "xs \<noteq> [] \<longrightarrow> QUEUE_HEAD h m = hd xs" using assms(1) ring_head [of m h] by (cases xs) auto
  ultimately show ?thesis
    using ring_insert_head [OF assms] ring_insert_tail [OF assms] ring_move [OF assms] ring_empty [OF assms(1)] by blast
qed

theorem queue_is_list_witness:
  "ring (QUEUE_INSERT_TAIL 1 4 (QUEUE_INSERT_TAIL 1 3 (QUEUE_INIT 1 (\<lambda>_. \<lparr>q_next = 0, q_prev = 0\<rparr>)))) 1 [3, 4]"
proof -
  have "ring (QUEUE_INSERT_TAIL 1 3 (QUEUE_INIT 1 (\<lambda>_. \<lparr>q_next = 0, q_prev = 0\<rparr>))) 1 [3]"
    using ring_insert_tail [OF ring_init, of 3 1] by simp
  from queue_is_list [OF this, of 4] show ?thesis by simp
qed

end
