(* ===== verification/Uv_Timer.thy ===== *)
theory Uv_Timer
  imports Uv_Errno Uv_Heap_Laws Uv_Queue "HOL-Library.Product_Lexorder"
begin

text \<open>
  The timers of a libuv loop: \<^verbatim>\<open>src/timer.c\<close> and the handle macros of \<^verbatim>\<open>src/uv-common.h\<close> it uses. A timer is named by the
  address of its heap node, so that \<^verbatim>\<open>container_of\<close> is the identity; its node in the queue of the handles has the same name.
  There is one loop, which every handle belongs to. The code of a callback is a parameter of the loop that runs the timers.
\<close>

section \<open>Handles\<close>

datatype uv_handle_type = UV_UNKNOWN_HANDLE | UV_ASYNC | UV_CHECK | UV_FS_EVENT | UV_FS_POLL | UV_HANDLE | UV_IDLE | UV_NAMED_PIPE
  | UV_POLL | UV_PREPARE | UV_PROCESS | UV_STREAM | UV_TCP | UV_TIMER | UV_TTY | UV_UDP | UV_SIGNAL | UV_FILE | UV_HANDLE_TYPE_MAX

type_synonym cb = nat

record uv_timer =
  t_type :: uv_handle_type
  t_flags :: u32
  t_next_closing :: "node option"
  t_timer_cb :: "cb option"
  t_timeout :: u64
  t_repeat :: u64
  t_start_id :: u64

record uv_loop =
  lp_active_handles :: u32
  lp_handle_queue :: nat
  lp_queues :: qmem
  lp_timer_heap :: heap
  lp_timer_counter :: u64
  lp_time :: u64
  lp_timers :: "node \<Rightarrow> uv_timer"

abbreviation UV_HANDLE_CLOSING :: u32 where "UV_HANDLE_CLOSING \<equiv> 1"
abbreviation UV_HANDLE_CLOSED :: u32 where "UV_HANDLE_CLOSED \<equiv> 2"
abbreviation UV_HANDLE_ACTIVE :: u32 where "UV_HANDLE_ACTIVE \<equiv> 4"
abbreviation UV_HANDLE_REF :: u32 where "UV_HANDLE_REF \<equiv> 8"

abbreviation flags :: "uv_loop \<Rightarrow> node \<Rightarrow> u32" where "flags L x \<equiv> t_flags (lp_timers L x)"

definition upd_timer :: "node \<Rightarrow> (uv_timer \<Rightarrow> uv_timer) \<Rightarrow> uv_loop \<Rightarrow> uv_loop" where
  "upd_timer x f L = L\<lparr>lp_timers := (lp_timers L)(x := f (lp_timers L x))\<rparr>"

definition uv__active_handle_add :: "uv_loop \<Rightarrow> uv_loop" where
  "uv__active_handle_add L = L\<lparr>lp_active_handles := lp_active_handles L + 1\<rparr>"

definition uv__active_handle_rm :: "uv_loop \<Rightarrow> uv_loop" where
  "uv__active_handle_rm L = L\<lparr>lp_active_handles := lp_active_handles L - 1\<rparr>"

definition uv__has_active_handles :: "uv_loop \<Rightarrow> bool" where
  "uv__has_active_handles L \<longleftrightarrow> 0 < lp_active_handles L"

definition uv__is_active :: "uv_loop \<Rightarrow> node \<Rightarrow> bool" where
  "uv__is_active L x \<longleftrightarrow> flags L x AND UV_HANDLE_ACTIVE \<noteq> 0"

definition uv__is_closing :: "uv_loop \<Rightarrow> node \<Rightarrow> bool" where
  "uv__is_closing L x \<longleftrightarrow> flags L x AND (UV_HANDLE_CLOSING OR UV_HANDLE_CLOSED) \<noteq> 0"

definition uv__has_ref :: "uv_loop \<Rightarrow> node \<Rightarrow> bool" where
  "uv__has_ref L x \<longleftrightarrow> flags L x AND UV_HANDLE_REF \<noteq> 0"

definition uv__handle_start :: "node \<Rightarrow> uv_loop \<Rightarrow> uv_loop" where
  "uv__handle_start x L =
     (if flags L x AND UV_HANDLE_ACTIVE \<noteq> 0 then L
      else let L = upd_timer x (t_flags_update (\<lambda>f. f OR UV_HANDLE_ACTIVE)) L
        in if flags L x AND UV_HANDLE_REF \<noteq> 0 then uv__active_handle_add L else L)"

definition uv__handle_stop :: "node \<Rightarrow> uv_loop \<Rightarrow> uv_loop" where
  "uv__handle_stop x L =
     (if flags L x AND UV_HANDLE_ACTIVE = 0 then L
      else let L = upd_timer x (t_flags_update (\<lambda>f. f AND NOT UV_HANDLE_ACTIVE)) L
        in if flags L x AND UV_HANDLE_REF \<noteq> 0 then uv__active_handle_rm L else L)"

definition uv__handle_ref :: "node \<Rightarrow> uv_loop \<Rightarrow> uv_loop" where
  "uv__handle_ref x L =
     (if flags L x AND UV_HANDLE_REF \<noteq> 0 then L
      else let L = upd_timer x (t_flags_update (\<lambda>f. f OR UV_HANDLE_REF)) L
        in if flags L x AND UV_HANDLE_CLOSING \<noteq> 0 then L
           else if flags L x AND UV_HANDLE_ACTIVE \<noteq> 0 then uv__active_handle_add L else L)"

definition uv__handle_unref :: "node \<Rightarrow> uv_loop \<Rightarrow> uv_loop" where
  "uv__handle_unref x L =
     (if flags L x AND UV_HANDLE_REF = 0 then L
      else let L = upd_timer x (t_flags_update (\<lambda>f. f AND NOT UV_HANDLE_REF)) L
        in if flags L x AND UV_HANDLE_CLOSING \<noteq> 0 then L
           else if flags L x AND UV_HANDLE_ACTIVE \<noteq> 0 then uv__active_handle_rm L else L)"

definition uv__handle_platform_init :: "node \<Rightarrow> uv_loop \<Rightarrow> uv_loop" where
  "uv__handle_platform_init x L = upd_timer x (t_next_closing_update (\<lambda>_. None)) L"

definition uv__handle_init :: "node \<Rightarrow> uv_handle_type \<Rightarrow> uv_loop \<Rightarrow> uv_loop" where
  "uv__handle_init x type L =
     (let L = upd_timer x (t_type_update (\<lambda>_. type)) L;
          L = upd_timer x (t_flags_update (\<lambda>_. UV_HANDLE_REF)) L;
          L = L\<lparr>lp_queues := QUEUE_INSERT_TAIL (lp_handle_queue L) x (lp_queues L)\<rparr>
      in uv__handle_platform_init x L)"

section \<open>Timers\<close>

abbreviation INT_MAX :: u64 where "INT_MAX \<equiv> 0x7FFFFFFF"

definition timer_less_than :: "(node \<Rightarrow> uv_timer) \<Rightarrow> node \<Rightarrow> node \<Rightarrow> bool" where
  "timer_less_than T a b =
     (if t_timeout (T a) < t_timeout (T b) then True
      else if t_timeout (T b) < t_timeout (T a) then False
      else t_start_id (T a) < t_start_id (T b))"

definition uv_timer_init :: "node \<Rightarrow> uv_loop \<Rightarrow> int \<times> uv_loop" where
  "uv_timer_init x L =
     (let L = uv__handle_init x UV_TIMER L;
          L = upd_timer x (t_timer_cb_update (\<lambda>_. None)) L;
          L = upd_timer x (t_repeat_update (\<lambda>_. 0)) L
      in (0, L))"

text \<open>An operation on the heap of the loop.\<close>

definition on_heap :: "(heap \<Rightarrow> (unit outcome \<times> heap) option) \<Rightarrow> uv_loop \<Rightarrow> (unit outcome \<times> uv_loop) option" where
  "on_heap f L = map_option (\<lambda>(r, h). (r, L\<lparr>lp_timer_heap := h\<rparr>)) (f (lp_timer_heap L))"

definition uv_timer_stop :: "node \<Rightarrow> uv_loop \<Rightarrow> (int outcome \<times> uv_loop) option" where
  "uv_timer_stop x L =
     (if \<not> uv__is_active L x then Some (Ok 0, L)
      else step_ok (on_heap (heap_remove (timer_less_than (lp_timers L)) x) L) (\<lambda>_ L.
        Some (Ok 0, uv__handle_stop x L)))"

definition uv_timer_start :: "node \<Rightarrow> cb option \<Rightarrow> u64 \<Rightarrow> u64 \<Rightarrow> uv_loop \<Rightarrow> (int outcome \<times> uv_loop) option" where
  "uv_timer_start x cb timeout repeat L =
     (if uv__is_closing L x \<or> cb = None then Some (Ok UV_EINVAL, L)
      else step_ok (if uv__is_active L x then uv_timer_stop x L else Some (Ok 0, L)) (\<lambda>_ L.
        let clamped_timeout = lp_time L + timeout;
            clamped_timeout = (if clamped_timeout < timeout then -1 else clamped_timeout);
            L = upd_timer x (t_timer_cb_update (\<lambda>_. cb)) L;
            L = upd_timer x (t_timeout_update (\<lambda>_. clamped_timeout)) L;
            L = upd_timer x (t_repeat_update (\<lambda>_. repeat)) L;
            L = upd_timer x (t_start_id_update (\<lambda>_. lp_timer_counter L)) L;
            L = L\<lparr>lp_timer_counter := lp_timer_counter L + 1\<rparr>
        in step_ok (on_heap (heap_insert (timer_less_than (lp_timers L)) x) L) (\<lambda>_ L.
             Some (Ok 0, uv__handle_start x L))))"

definition uv_timer_again :: "node \<Rightarrow> uv_loop \<Rightarrow> (int outcome \<times> uv_loop) option" where
  "uv_timer_again x L =
     (if t_timer_cb (lp_timers L x) = None then Some (Ok UV_EINVAL, L)
      else if t_repeat (lp_timers L x) \<noteq> 0
      then step_ok (uv_timer_stop x L) (\<lambda>_ L.
           step_ok (uv_timer_start x (t_timer_cb (lp_timers L x)) (t_repeat (lp_timers L x)) (t_repeat (lp_timers L x)) L) (\<lambda>_ L.
           Some (Ok 0, L)))
      else Some (Ok 0, L))"

definition uv_timer_set_repeat :: "node \<Rightarrow> u64 \<Rightarrow> uv_loop \<Rightarrow> uv_loop" where
  "uv_timer_set_repeat x repeat L = upd_timer x (t_repeat_update (\<lambda>_. repeat)) L"

definition uv_timer_get_repeat :: "node \<Rightarrow> uv_loop \<Rightarrow> u64" where
  "uv_timer_get_repeat x L = t_repeat (lp_timers L x)"

definition uv__next_timeout :: "uv_loop \<Rightarrow> int" where
  "uv__next_timeout L = (case heap_min (lp_timer_heap L) of
      None \<Rightarrow> -1
    | Some x \<Rightarrow>
        if t_timeout (lp_timers L x) \<le> lp_time L then 0
        else let diff = t_timeout (lp_timers L x) - lp_time L;
                 diff = (if INT_MAX < diff then INT_MAX else diff)
             in sint (ucast diff :: 32 word))"

text \<open>
  The callbacks run on the state \<open>u\<close> of the program and on the loop; calling a null pointer is \<open>Undef\<close>.
\<close>

definition run_cb :: "(cb \<Rightarrow> node \<Rightarrow> 'u \<times> uv_loop \<Rightarrow> 'u \<times> uv_loop) \<Rightarrow> node \<Rightarrow> 'u \<times> uv_loop \<Rightarrow> (unit outcome \<times> 'u \<times> uv_loop) option" where
  "run_cb call x s = (case t_timer_cb (lp_timers (snd s) x) of
      None \<Rightarrow> Some (Undef, s) | Some c \<Rightarrow> Some (Ok (), call c x s))"

definition on_loop :: "(uv_loop \<Rightarrow> ('a outcome \<times> uv_loop) option) \<Rightarrow> 'u \<times> uv_loop \<Rightarrow> ('a outcome \<times> 'u \<times> uv_loop) option" where
  "on_loop f s = map_option (\<lambda>(r, L). (r, fst s, L)) (f (snd s))"

partial_function (option) uv__run_timers ::
  "(cb \<Rightarrow> node \<Rightarrow> 'u \<times> uv_loop \<Rightarrow> 'u \<times> uv_loop) \<Rightarrow> 'u \<times> uv_loop \<Rightarrow> (unit outcome \<times> 'u \<times> uv_loop) option" where
  "uv__run_timers call s = (case heap_min (lp_timer_heap (snd s)) of
      None \<Rightarrow> Some (Ok (), s)
    | Some x \<Rightarrow>
        if lp_time (snd s) < t_timeout (lp_timers (snd s) x) then Some (Ok (), s)
        else step_ok (on_loop (uv_timer_stop x) s) (\<lambda>_ s.
             step_ok (on_loop (uv_timer_again x) s) (\<lambda>_ s.
             step_ok (run_cb call x s) (\<lambda>_ s.
             uv__run_timers call s))))"

definition uv__timer_close :: "node \<Rightarrow> uv_loop \<Rightarrow> (unit outcome \<times> uv_loop) option" where
  "uv__timer_close x L = step_ok (uv_timer_stop x L) (\<lambda>_ L. Some (Ok (), L))"

end
