(* ===== verification/Uv_Timer_Laws.thy ===== *)
theory Uv_Timer_Laws
  imports Uv_Timer
begin

text \<open>
  The timers as a component: in every state that the operations reach, the heap of the loop holds exactly the active timers,
  in the order of their time-outs, and the loop counts the active timers that keep it alive. The laws of the heap are used
  through its locale, interpreted on the comparison function of the timers.
\<close>

section \<open>Flags\<close>

lemma flag_simps [simp]:
  "(f AND - 5) AND 4 = (0 :: u32)" "(f AND - 5) AND 8 = f AND (8 :: u32)" "(f AND - 5) AND 3 = f AND (3 :: u32)"
  "(f OR 4) AND 4 = (4 :: u32)" "(f OR 4) AND 8 = f AND (8 :: u32)" "(f OR 4) AND 3 = f AND (3 :: u32)"
  "(f OR 8) AND 4 = f AND (4 :: u32)" "(f OR 8) AND 8 = (8 :: u32)" "(f AND - 9) AND 4 = f AND (4 :: u32)" "(f AND - 9) AND 8 = (0 :: u32)"
  "(f AND - 5) OR 4 = f OR (4 :: u32)" "(f OR 4) AND 1 = f AND (1 :: u32)" "(f OR 8) AND 1 = f AND (1 :: u32)" "(f AND - 9) AND 1 = f AND (1 :: u32)"
  by (simp_all add: and.assoc bit.conj_disj_distrib2 bit.disj_conj_distrib2)

lemma flag_unset: "f AND 4 = 0 \<Longrightarrow> f AND - 5 = (f :: u32)"
proof -
  assume "f AND 4 = 0"
  have "f = (f AND - 5) OR (f AND 4)" by (simp flip: bit.conj_disj_distrib)
  then show ?thesis using \<open>f AND 4 = 0\<close> by simp
qed

section \<open>The invariant\<close>

definition timer_key :: "(node \<Rightarrow> uv_timer) \<Rightarrow> node \<Rightarrow> u64 \<times> u64" where
  "timer_key T x = (t_timeout (T x), t_start_id (T x))"

interpretation timer: heap_order "timer_less_than T" "timer_key T" for T
  by unfold_locales (auto simp: timer_less_than_def timer_key_def)

definition active_timers :: "uv_loop \<Rightarrow> node set" where
  "active_timers L = {x. uv__is_active L x}"

definition counted_timers :: "uv_loop \<Rightarrow> node set" where
  "counted_timers L = {x \<in> active_timers L. uv__has_ref L x}"

text \<open>\<open>others\<close> is what the handles that are not timers add to the count of active handles.\<close>

definition timers_ok :: "u32 \<Rightarrow> uv_loop \<Rightarrow> bool" where
  "timers_ok others L \<longleftrightarrow>
     heap_set (timer_less_than (lp_timers L)) (lp_timer_heap L) (active_timers L) \<and>
     (\<forall>x\<in>active_timers L. t_timer_cb (lp_timers L x) \<noteq> None) \<and>
     lp_active_handles L = others + of_nat (card (counted_timers L))"

lemma upd_timer_fields [simp]:
  "lp_timers (upd_timer x f L) = (lp_timers L)(x := f (lp_timers L x))"
  "lp_active_handles (upd_timer x f L) = lp_active_handles L" "lp_timer_heap (upd_timer x f L) = lp_timer_heap L"
  "lp_timer_counter (upd_timer x f L) = lp_timer_counter L" "lp_time (upd_timer x f L) = lp_time L"
  "lp_queues (upd_timer x f L) = lp_queues L" "lp_handle_queue (upd_timer x f L) = lp_handle_queue L"
  by (simp_all add: upd_timer_def)

lemma finite_timers: "timers_ok c L \<Longrightarrow> finite (active_timers L) \<and> finite (counted_timers L)"
  using heap_set_nelts by (fastforce simp: timers_ok_def counted_timers_def)

lemma active_less: "timers_ok c L \<Longrightarrow> card (active_timers L) < 2 ^ 32"
  using heap_set_nelts [of _ "lp_timer_heap L" "active_timers L"] unat_u32_less [of "hp_nelts (lp_timer_heap L)"]
  by (auto simp: timers_ok_def)

section \<open>Stopping and starting\<close>

definition stopped :: "uv_timer \<Rightarrow> uv_timer" where
  "stopped t = t\<lparr>t_flags := t_flags t AND NOT UV_HANDLE_ACTIVE\<rparr>"

lemma handle_stop_fields:
  assumes "uv__is_active L x"
  shows "lp_timers (uv__handle_stop x L) = (lp_timers L)(x := stopped (lp_timers L x))"
    "lp_active_handles (uv__handle_stop x L) = lp_active_handles L - of_bool (uv__has_ref L x)"
    "lp_timer_heap (uv__handle_stop x L) = lp_timer_heap L" "lp_timer_counter (uv__handle_stop x L) = lp_timer_counter L"
    "lp_time (uv__handle_stop x L) = lp_time L"
  using assms
  by (simp_all add: uv__handle_stop_def uv__is_active_def uv__has_ref_def uv__active_handle_rm_def stopped_def Let_def fun_eq_iff)

lemma card_unset: "finite A \<Longrightarrow> (of_nat (card (A - {x})) :: u32) = of_nat (card A) - of_bool (x \<in> A)"
proof (cases "x \<in> A")
  case True
  assume "finite A"
  then have "card A = Suc (card (A - {x}))" using True by (rule card_Suc_Diff1 [symmetric])
  then show ?thesis using True by simp
qed simp

lemma stop_ok:
  assumes inv: "timers_ok c L"
  shows "\<exists>L'. uv_timer_stop x L = Some (Ok 0, L') \<and> timers_ok c L' \<and> active_timers L' = active_timers L - {x} \<and>
    lp_timers L' = (lp_timers L)(x := stopped (lp_timers L x)) \<and> lp_time L' = lp_time L \<and> lp_timer_counter L' = lp_timer_counter L"
proof (cases "uv__is_active L x")
  case False
  then have "stopped (lp_timers L x) = lp_timers L x" by (simp add: uv__is_active_def stopped_def flag_unset)
  then show ?thesis using False inv by (auto simp: uv_timer_stop_def active_timers_def)
next
  case True
  then have x: "x \<in> active_timers L" by (simp add: active_timers_def)
  obtain h where h: "heap_remove (timer_less_than (lp_timers L)) x (lp_timer_heap L) = Some (Ok (), h)"
      "heap_set (timer_less_than (lp_timers L)) h (active_timers L - {x})"
    using timer.heap_remove_ok [OF _ x] inv unfolding timers_ok_def by blast
  let ?L = "L\<lparr>lp_timer_heap := h\<rparr>"
  let ?L' = "uv__handle_stop x ?L"
  have a: "uv__is_active ?L x" and r: "uv__has_ref ?L x = uv__has_ref L x"
    using True by (simp_all add: uv__is_active_def uv__has_ref_def)
  note f = handle_stop_fields [OF a, unfolded r, simplified]
  have act: "active_timers ?L' = active_timers L - {x}"
    by (auto simp: active_timers_def uv__is_active_def f stopped_def split: if_splits)
  have "counted_timers ?L' = counted_timers L - {x}"
    unfolding counted_timers_def act by (auto simp: uv__has_ref_def f)
  moreover have "x \<in> counted_timers L \<longleftrightarrow> uv__has_ref L x" using x by (simp add: counted_timers_def)
  ultimately have "(of_nat (card (counted_timers ?L')) :: u32) = of_nat (card (counted_timers L)) - of_bool (uv__has_ref L x)"
    using card_unset [of "counted_timers L" x] finite_timers [OF inv] by simp
  then have cnt: "lp_active_handles ?L' = c + of_nat (card (counted_timers ?L'))" using inv by (simp add: f timers_ok_def)
  have "heap_set (timer_less_than (lp_timers ?L')) h (active_timers L - {x})"
    by (rule heap_set_cong [OF h(2)]) (auto simp: f timer_less_than_def)
  then have "timers_ok c ?L'" using cnt inv unfolding timers_ok_def act by (auto simp: f)
  moreover have "uv_timer_stop x L = Some (Ok 0, ?L')" using True h(1) by (simp add: uv_timer_stop_def on_heap_def)
  ultimately show ?thesis using act f by auto
qed

text \<open>What starting makes of a timer; the sum of the time and the time-out is cut off at the largest number.\<close>

definition due_time :: "u64 \<Rightarrow> u64 \<Rightarrow> u64" where
  "due_time now timeout = of_nat (min (unat now + unat timeout) (2 ^ 64 - 1))"

definition started :: "uv_loop \<Rightarrow> cb option \<Rightarrow> u64 \<Rightarrow> u64 \<Rightarrow> uv_timer \<Rightarrow> uv_timer" where
  "started L cb timeout repeat t = t\<lparr>t_timer_cb := cb, t_timeout := due_time (lp_time L) timeout, t_repeat := repeat,
     t_start_id := lp_timer_counter L, t_flags := t_flags t OR UV_HANDLE_ACTIVE\<rparr>"

lemma clamped_timeout: "(if now + timeout < timeout then -1 else now + timeout) = due_time now timeout"
proof -
  have n: "unat now < 2 ^ 64" "unat timeout < 2 ^ 64" by (rule unat_u64_less)+
  show ?thesis
  proof (cases "unat now + unat timeout < 2 ^ 64")
    case True
    then have u: "unat (now + timeout) = unat now + unat timeout" by (simp add: unat_plus_if')
    then have "\<not> now + timeout < timeout" by (simp add: word_less_nat_alt)
    moreover have "now + timeout = of_nat (unat now + unat timeout)" using u by (metis unat_eq_of_nat word_unat_eq_iff)
    moreover have "min (unat now + unat timeout) (2 ^ 64 - 1) = unat now + unat timeout" using True by simp
    ultimately show ?thesis by (simp only: due_time_def if_False)
  next
    case False
    then have "unat (now + timeout) = unat now + unat timeout - 2 ^ 64" using n by (simp add: unat_plus_if')
    then have "now + timeout < timeout" using n False by (simp add: word_less_nat_alt)
    moreover have "min (unat now + unat timeout) (2 ^ 64 - 1) = 2 ^ 64 - 1" using False by simp
    then have "due_time now timeout = of_nat (2 ^ 64 - 1)" by (simp only: due_time_def)
    ultimately show ?thesis by simp
  qed
qed

lemma handle_start_fields:
  assumes "\<not> uv__is_active L x"
  shows "lp_timers (uv__handle_start x L) = (lp_timers L)(x := (lp_timers L x)\<lparr>t_flags := t_flags (lp_timers L x) OR UV_HANDLE_ACTIVE\<rparr>)"
    "lp_active_handles (uv__handle_start x L) = lp_active_handles L + of_bool (uv__has_ref L x)"
    "lp_timer_heap (uv__handle_start x L) = lp_timer_heap L" "lp_timer_counter (uv__handle_start x L) = lp_timer_counter L"
    "lp_time (uv__handle_start x L) = lp_time L"
  using assms
  by (simp_all add: uv__handle_start_def uv__is_active_def uv__has_ref_def uv__active_handle_add_def Let_def fun_eq_iff)

lemma start_inactive:
  assumes inv: "timers_ok c L" and na: "\<not> uv__is_active L x" and cl: "\<not> uv__is_closing L x" and cb: "cb \<noteq> None"
    and room: "card (active_timers L) + 1 < 2 ^ 32"
  shows "\<exists>L'. uv_timer_start x cb timeout repeat L = Some (Ok 0, L') \<and> timers_ok c L' \<and> active_timers L' = insert x (active_timers L) \<and>
    lp_timers L' = (lp_timers L)(x := started L cb timeout repeat (lp_timers L x)) \<and> lp_time L' = lp_time L \<and>
    lp_timer_counter L' = lp_timer_counter L + 1"
proof -
  let ?S = "active_timers L"
  define t where "t = (lp_timers L x)\<lparr>t_timer_cb := cb, t_timeout := due_time (lp_time L) timeout, t_repeat := repeat,
     t_start_id := lp_timer_counter L\<rparr>"
  define L1 where "L1 = L\<lparr>lp_timers := (lp_timers L)(x := t), lp_timer_counter := lp_timer_counter L + 1\<rparr>"
  have x: "x \<notin> ?S" using na by (simp add: active_timers_def)
  have "heap_set (timer_less_than (lp_timers L)) (lp_timer_heap L) ?S" using inv by (simp add: timers_ok_def)
  then have "heap_set (timer_less_than (lp_timers L1)) (lp_timer_heap L) ?S"
    by (rule heap_set_cong) (use x in \<open>auto simp: L1_def timer_less_than_def\<close>)
  from timer.heap_insert_ok [OF this x room] obtain h where
    h: "heap_insert (timer_less_than (lp_timers L1)) x (lp_timer_heap L) = Some (Ok (), h)"
      "heap_set (timer_less_than (lp_timers L1)) h (insert x ?S)" by blast
  let ?L = "L1\<lparr>lp_timer_heap := h\<rparr>"
  let ?L' = "uv__handle_start x ?L"
  have tf: "t_flags t = flags L x" by (simp add: t_def)
  have a: "\<not> uv__is_active ?L x" and r: "uv__has_ref ?L x = uv__has_ref L x"
    using na tf by (simp_all add: uv__is_active_def uv__has_ref_def L1_def)
  note f = handle_start_fields [OF a, unfolded r]
  have ti: "lp_timers ?L' = (lp_timers L)(x := started L cb timeout repeat (lp_timers L x))"
    unfolding f(1) by (simp add: L1_def t_def started_def)
  have act: "active_timers ?L' = insert x ?S" unfolding active_timers_def uv__is_active_def ti by (auto simp: started_def)
  have "counted_timers ?L' = (if uv__has_ref L x then insert x (counted_timers L) else counted_timers L)"
    using x unfolding counted_timers_def act uv__has_ref_def ti by (auto simp: started_def)
  moreover have "finite (counted_timers L)" "x \<notin> counted_timers L" using finite_timers [OF inv] x by (auto simp: counted_timers_def)
  ultimately have "(of_nat (card (counted_timers ?L')) :: u32) = of_nat (card (counted_timers L)) + of_bool (uv__has_ref L x)" by simp
  then have cnt: "lp_active_handles ?L' = c + of_nat (card (counted_timers ?L'))"
  proof -
    have "lp_active_handles ?L = lp_active_handles L" by (simp add: L1_def)
    then show ?thesis unfolding f(2) using inv \<open>of_nat (card (counted_timers ?L')) = _\<close> by (simp add: timers_ok_def add.assoc)
  qed
  have "heap_set (timer_less_than (lp_timers ?L')) h (insert x ?S)"
    by (rule heap_set_cong [OF h(2)]) (auto simp: f(1) timer_less_than_def)
  then have ok: "timers_ok c ?L'" using cnt inv cb unfolding timers_ok_def act ti by (auto simp: f(3) started_def)
  have "uv_timer_start x cb timeout repeat L =
      step_ok (on_heap (heap_insert (timer_less_than (lp_timers L1)) x) L1) (\<lambda>_ L. Some (Ok 0, uv__handle_start x L))"
    unfolding uv_timer_start_def using na cl cb by (auto simp: Let_def clamped_timeout upd_timer_def L1_def t_def)
  also have "\<dots> = Some (Ok 0, ?L')" using h(1) by (simp add: on_heap_def L1_def)
  finally show ?thesis using ok act ti f(4,5) by (auto simp: L1_def)
qed

lemma start_ok:
  assumes inv: "timers_ok c L" and cl: "\<not> uv__is_closing L x" and cb: "cb \<noteq> None"
    and room: "card (insert x (active_timers L)) < 2 ^ 32"
  shows "\<exists>L'. uv_timer_start x cb timeout repeat L = Some (Ok 0, L') \<and> timers_ok c L' \<and> active_timers L' = insert x (active_timers L) \<and>
    lp_timers L' = (lp_timers L)(x := started L cb timeout repeat (lp_timers L x)) \<and> lp_time L' = lp_time L \<and>
    lp_timer_counter L' = lp_timer_counter L + 1"
proof -
  have fin: "finite (active_timers L)" using finite_timers [OF inv] by simp
  obtain L1 where L1: "uv_timer_stop x L = Some (Ok 0, L1)" "timers_ok c L1" "active_timers L1 = active_timers L - {x}"
      "lp_timers L1 = (lp_timers L)(x := stopped (lp_timers L x))" "lp_time L1 = lp_time L" "lp_timer_counter L1 = lp_timer_counter L"
    using stop_ok [OF inv, of x] by blast
  have na: "\<not> uv__is_active L1 x" using L1(3) by (auto simp: active_timers_def)
  have cl1: "\<not> uv__is_closing L1 x" using cl by (simp add: uv__is_closing_def L1(4) stopped_def)
  have "card (active_timers L1) + 1 < 2 ^ 32" using room fin L1(3) by (simp add: card_insert_if card_Diff_singleton_if card_gt_0_iff split: if_splits)
  from start_inactive [OF L1(2) na cl1 cb this, of timeout repeat] obtain L2 where
    L2: "uv_timer_start x cb timeout repeat L1 = Some (Ok 0, L2)" "timers_ok c L2" "active_timers L2 = insert x (active_timers L1)"
      "lp_timers L2 = (lp_timers L1)(x := started L1 cb timeout repeat (lp_timers L1 x))" "lp_time L2 = lp_time L1"
      "lp_timer_counter L2 = lp_timer_counter L1 + 1" by blast
  have eq: "uv_timer_start x cb timeout repeat L = uv_timer_start x cb timeout repeat L1"
  proof (cases "uv__is_active L x")
    case True
    then show ?thesis using cl cl1 cb na L1(1) unfolding uv_timer_start_def by (simp only: if_True if_False simp_thms step_ok_simps)
  next
    case False
    then have "L1 = L" using L1(1) by (simp add: uv_timer_stop_def)
    then show ?thesis by simp
  qed
  have "started L1 cb timeout repeat (lp_timers L1 x) = started L cb timeout repeat (lp_timers L x)"
    by (simp add: started_def L1 stopped_def)
  then show ?thesis using eq L2 L1 by auto
qed

text \<open>What \<^verbatim>\<open>uv_timer_again\<close> makes of a timer.\<close>

definition rearmed :: "uv_loop \<Rightarrow> node \<Rightarrow> uv_timer" where
  "rearmed L x =
     (let t = lp_timers L x
      in if t_timer_cb t = None \<or> t_repeat t = 0 then t
         else if uv__is_closing L x then stopped t
         else started L (t_timer_cb t) (t_repeat t) (t_repeat t) t)"

lemma again_ok:
  assumes inv: "timers_ok c L" and room: "card (insert x (active_timers L)) < 2 ^ 32"
  shows "\<exists>L'. uv_timer_again x L = Some (Ok (if t_timer_cb (lp_timers L x) = None then UV_EINVAL else 0), L') \<and> timers_ok c L' \<and>
    lp_timers L' = (lp_timers L)(x := rearmed L x) \<and> lp_time L' = lp_time L"
proof (cases "t_timer_cb (lp_timers L x) = None \<or> t_repeat (lp_timers L x) = 0")
  case True
  then have "rearmed L x = lp_timers L x" by (simp add: rearmed_def)
  then show ?thesis using True inv by (auto simp: uv_timer_again_def)
next
  case False
  let ?t = "lp_timers L x"
  have fin: "finite (active_timers L)" using finite_timers [OF inv] by simp
  obtain L1 where L1: "uv_timer_stop x L = Some (Ok 0, L1)" "timers_ok c L1" "active_timers L1 = active_timers L - {x}"
      "lp_timers L1 = (lp_timers L)(x := stopped ?t)" "lp_time L1 = lp_time L" "lp_timer_counter L1 = lp_timer_counter L"
    using stop_ok [OF inv, of x] by blast
  have t1: "t_timer_cb (lp_timers L1 x) = t_timer_cb ?t" "t_repeat (lp_timers L1 x) = t_repeat ?t"
    by (simp_all add: L1(4) stopped_def)
  have cl: "uv__is_closing L1 x = uv__is_closing L x" by (simp add: uv__is_closing_def L1(4) stopped_def)
  have eq: "uv_timer_again x L = step_ok (uv_timer_start x (t_timer_cb ?t) (t_repeat ?t) (t_repeat ?t) L1) (\<lambda>_ L. Some (Ok 0, L))"
    using False L1(1) t1 by (auto simp: uv_timer_again_def)
  show ?thesis
  proof (cases "uv__is_closing L x")
    case True
    then have "rearmed L x = stopped ?t" using False by (auto simp: rearmed_def Let_def)
    then show ?thesis using eq True cl L1 False by (auto simp: uv_timer_start_def)
  next
    case nc: False
    have "insert x (active_timers L1) = insert x (active_timers L)" using L1(3) by auto
    then have "card (insert x (active_timers L1)) < 2 ^ 32" using room by simp
    from start_ok [OF L1(2) _ _ this, of "t_timer_cb ?t" "t_repeat ?t" "t_repeat ?t"] nc cl False obtain L2 where
      L2: "uv_timer_start x (t_timer_cb ?t) (t_repeat ?t) (t_repeat ?t) L1 = Some (Ok 0, L2)" "timers_ok c L2"
        "lp_timers L2 = (lp_timers L1)(x := started L1 (t_timer_cb ?t) (t_repeat ?t) (t_repeat ?t) (lp_timers L1 x))" "lp_time L2 = lp_time L1"
      by auto
    have "started L1 (t_timer_cb ?t) (t_repeat ?t) (t_repeat ?t) (lp_timers L1 x) = rearmed L x"
      using False nc by (auto simp: rearmed_def started_def L1 stopped_def Let_def)
    then show ?thesis using eq L2 L1 False by auto
  qed
qed

section \<open>The next time-out and the due timers\<close>

definition due_timers :: "uv_loop \<Rightarrow> node set" where
  "due_timers L = {x \<in> active_timers L. t_timeout (lp_timers L x) \<le> lp_time L}"

lemma min_timer:
  assumes "timers_ok c L"
  obtains "heap_min (lp_timer_heap L) = None" "active_timers L = {}"
  | x where "heap_min (lp_timer_heap L) = Some x" "x \<in> active_timers L"
      "\<And>y. y \<in> active_timers L \<Longrightarrow> timer_key (lp_timers L) x \<le> timer_key (lp_timers L) y"
proof (cases "heap_min (lp_timer_heap L)")
  case None
  then show ?thesis using timer.heap_min_least assms that(1) by (fastforce simp: timers_ok_def)
next
  case (Some x)
  have *: "x \<in> active_timers L \<and> (\<forall>y\<in>active_timers L. \<not> timer_less_than (lp_timers L) y x)"
    using timer.heap_min_least [of "lp_timers L" "lp_timer_heap L" "active_timers L"] assms Some by (simp add: timers_ok_def)
  then have "timer_key (lp_timers L) x \<le> timer_key (lp_timers L) y" if "y \<in> active_timers L" for y
    using that by (simp add: timer.lt_key not_less)
  then show ?thesis using that(2) Some * by blast
qed

lemma key_timeout: "timer_key T x \<le> timer_key T y \<Longrightarrow> t_timeout (T x) \<le> t_timeout (T y)"
  by (auto simp: timer_key_def)

lemma due_time_later:
  assumes "now \<noteq> -1" "repeat \<noteq> 0"
  shows "now < due_time now repeat"
proof -
  have "unat now \<noteq> 2 ^ 64 - 1" using assms(1) unat_eq_of_nat [of now "2 ^ 64 - 1"] by auto
  moreover have "unat now < 2 ^ 64" by (rule unat_u64_less)
  moreover have "unat repeat \<noteq> 0" using assms(2) by (simp add: unat_eq_0)
  ultimately have "unat now < min (unat now + unat repeat) (2 ^ 64 - 1)" "min (unat now + unat repeat) (2 ^ 64 - 1) < 2 ^ 64" by simp_all
  moreover have "unat (due_time now repeat) = min (unat now + unat repeat) (2 ^ 64 - 1)"
    unfolding due_time_def unat_of_nat by (rule mod_less) (use calculation(2) in simp)
  ultimately show ?thesis by (simp add: word_less_nat_alt)
qed

text \<open>One turn of the loop on the timer \<open>m\<close> whose time-out is the first.\<close>

definition turned :: "uv_loop \<Rightarrow> node \<Rightarrow> uv_timer \<Rightarrow> bool" where
  "turned L x t \<longleftrightarrow> t_timer_cb t = t_timer_cb (lp_timers L x) \<and> t_repeat t = t_repeat (lp_timers L x) \<and>
     (if t_repeat (lp_timers L x) = 0 \<or> uv__is_closing L x then t_flags t AND UV_HANDLE_ACTIVE = 0
      else t_flags t AND UV_HANDLE_ACTIVE \<noteq> 0 \<and> t_timeout t = due_time (lp_time L) (t_repeat (lp_timers L x)))"

lemma turn_ok:
  assumes inv: "timers_ok c L" and x: "x \<in> active_timers L"
  shows "\<exists>L1 r L2 t. uv_timer_stop x L = Some (Ok 0, L1) \<and> uv_timer_again x L1 = Some (Ok r, L2) \<and> timers_ok c L2 \<and>
    lp_timers L2 = (lp_timers L)(x := t) \<and> turned L x t \<and> lp_time L2 = lp_time L"
proof -
  obtain L1 where L1: "uv_timer_stop x L = Some (Ok 0, L1)" "timers_ok c L1" "active_timers L1 = active_timers L - {x}"
      "lp_timers L1 = (lp_timers L)(x := stopped (lp_timers L x))" "lp_time L1 = lp_time L"
    using stop_ok [OF inv, of x] by blast
  have "insert x (active_timers L1) = active_timers L" using L1(3) x by auto
  then have "card (insert x (active_timers L1)) < 2 ^ 32" using active_less [OF inv] by simp
  then obtain r L2 where L2: "uv_timer_again x L1 = Some (Ok r, L2)" "timers_ok c L2"
      "lp_timers L2 = (lp_timers L1)(x := rearmed L1 x)" "lp_time L2 = lp_time L1"
    using again_ok [OF L1(2), of x] by blast
  have "t_timer_cb (lp_timers L x) \<noteq> None" using inv x by (simp add: timers_ok_def)
  moreover have "uv__is_closing L1 x = uv__is_closing L x" by (simp add: uv__is_closing_def L1(4) stopped_def)
  ultimately have "turned L x (rearmed L1 x)" by (auto simp: turned_def rearmed_def started_def stopped_def L1(4,5) Let_def)
  moreover have "lp_timers L2 = (lp_timers L)(x := rearmed L1 x)" using L2(3) L1(4) by simp
  ultimately show ?thesis using L1 L2 by auto
qed

lemma turn_due:
  assumes "lp_timers L2 = (lp_timers L)(x := t)" "turned L x t" "lp_time L2 = lp_time L" "lp_time L \<noteq> -1"
  shows "due_timers L2 = due_timers L - {x}"
proof -
  have "t_flags t AND UV_HANDLE_ACTIVE = 0 \<or> lp_time L < t_timeout t"
    using assms(2) due_time_later [OF assms(4), of "t_repeat (lp_timers L x)"] by (auto simp: turned_def split: if_splits)
  then show ?thesis using assms(1,3) by (auto simp: due_timers_def active_timers_def uv__is_active_def not_le split: if_splits)
qed

text \<open>
  What is asked of the callbacks. They may use every operation on timers, stop and restart their own timer or others, and
  start further handles; they keep the invariant, do not set the clock of the loop, and start no timer that is due at once: a
  timer that is due after the callback was so before, with the same time-out and the same start.
\<close>

definition calm :: "uv_loop \<Rightarrow> uv_loop \<Rightarrow> bool" where
  "calm M M' \<longleftrightarrow> (\<exists>others. timers_ok others M') \<and> lp_time M' = lp_time M \<and>
     (\<forall>y\<in>due_timers M'. y \<in> due_timers M \<and> timer_key (lp_timers M') y = timer_key (lp_timers M) y)"

lemma calm_trans: "calm L M \<Longrightarrow> calm M N \<Longrightarrow> calm L N"
  unfolding calm_def by auto

lemma calm_stop:
  assumes "timers_ok c L" "uv_timer_stop x L = Some (r, L')"
  shows "calm L L'"
proof -
  have "timers_ok c L'" "active_timers L' = active_timers L - {x}" "lp_timers L' = (lp_timers L)(x := stopped (lp_timers L x))"
    "lp_time L' = lp_time L" using stop_ok [OF assms(1), of x] assms(2) by auto
  then show ?thesis by (auto simp: calm_def due_timers_def timer_key_def)
qed

lemma calm_start:
  assumes "timers_ok c L" "uv_timer_start x cb timeout repeat L = Some (r, L')" "timeout \<noteq> 0" "lp_time L \<noteq> -1"
    "card (insert x (active_timers L)) < 2 ^ 32"
  shows "calm L L'"
proof (cases "uv__is_closing L x \<or> cb = None")
  case True
  then show ?thesis using assms(1,2) by (auto simp: uv_timer_start_def calm_def)
next
  case False
  then have L': "timers_ok c L'" "active_timers L' = insert x (active_timers L)"
    "lp_timers L' = (lp_timers L)(x := started L cb timeout repeat (lp_timers L x))" "lp_time L' = lp_time L"
    using start_ok [OF assms(1) _ _ assms(5), of cb timeout repeat] assms(2) by auto
  have "lp_time L < t_timeout (lp_timers L' x)" using due_time_later [OF assms(4,3)] by (simp add: L'(3) started_def)
  then have "x \<notin> due_timers L'" by (simp add: due_timers_def L'(4) not_le)
  then show ?thesis using L' by (auto simp: calm_def due_timers_def timer_key_def)
qed

text \<open>One turn of the loop on a timer: it is stopped, started again when it repeats, and its callback is called.\<close>

definition turn :: "(cb \<Rightarrow> node \<Rightarrow> 'u \<times> uv_loop \<Rightarrow> 'u \<times> uv_loop) \<Rightarrow> node \<Rightarrow> 'u \<times> uv_loop \<Rightarrow> 'u \<times> uv_loop" where
  "turn call x s = (case step_ok (on_loop (uv_timer_stop x) s) (\<lambda>_ s. step_ok (on_loop (uv_timer_again x) s) (\<lambda>_ s. run_cb call x s)) of
     Some (_, s') \<Rightarrow> s' | None \<Rightarrow> s)"

definition untouched :: "(cb \<Rightarrow> node \<Rightarrow> 'u \<times> uv_loop \<Rightarrow> 'u \<times> uv_loop) \<Rightarrow> node \<Rightarrow> bool" where
  "untouched call x \<longleftrightarrow> (\<forall>cb z s. lp_timers (snd (call cb z s)) x = lp_timers (snd s) x)"

lemma turn_calm:
  assumes inv: "timers_ok c L" and x: "x \<in> active_timers L" and now: "lp_time L \<noteq> -1"
    and calm: "\<And>cb x u M. \<exists>others. timers_ok others M \<Longrightarrow> lp_time M = lp_time L \<Longrightarrow> calm M (snd (call cb x (u, M)))"
  obtains c' L3 u3 t where "turn call x (u, L) = (u3, L3)" "timers_ok c' L3" "lp_time L3 = lp_time L"
    "due_timers L3 \<subseteq> due_timers L - {x}" "\<forall>y\<in>due_timers L3. timer_key (lp_timers L3) y = timer_key (lp_timers L) y"
    "\<forall>y. untouched call y \<longrightarrow> due_timers L3 \<inter> {y} = (due_timers L - {x}) \<inter> {y} \<and> lp_timers L3 y = (if y = x then t else lp_timers L y)"
    "turned L x t" "step_ok (on_loop (uv_timer_stop x) (u, L)) (\<lambda>_ s. step_ok (on_loop (uv_timer_again x) s) (\<lambda>_ s. run_cb call x s)) =
      Some (Ok (), u3, L3)"
proof -
  obtain L1 r L2 t where t: "uv_timer_stop x L = Some (Ok 0, L1)" "uv_timer_again x L1 = Some (Ok r, L2)" "timers_ok c L2"
      "lp_timers L2 = (lp_timers L)(x := t)" "turned L x t" "lp_time L2 = lp_time L"
    using turn_ok [OF inv x] by blast
  have due: "due_timers L2 = due_timers L - {x}" by (rule turn_due [OF t(4,5,6) now])
  obtain k where k: "t_timer_cb (lp_timers L x) = Some k" using inv x by (auto simp: timers_ok_def)
  obtain u3 L3 where s3: "call k x (u, L2) = (u3, L3)" by force
  have "calm L2 (snd (call k x (u, L2)))" using t(3,6) by (intro calm) auto
  then obtain c' where L3: "timers_ok c' L3" "lp_time L3 = lp_time L2"
      "\<forall>y\<in>due_timers L3. y \<in> due_timers L2 \<and> timer_key (lp_timers L3) y = timer_key (lp_timers L2) y"
    unfolding s3 calm_def by auto
  have run: "step_ok (on_loop (uv_timer_stop x) (u, L)) (\<lambda>_ s. step_ok (on_loop (uv_timer_again x) s) (\<lambda>_ s. run_cb call x s)) =
      Some (Ok (), u3, L3)"
    using t(1,2,4,5) k s3 by (simp add: on_loop_def run_cb_def turned_def)
  moreover have "turn call x (u, L) = (u3, L3)" unfolding turn_def run by simp
  moreover have "due_timers L3 \<subseteq> due_timers L - {x}" using L3(3) due by blast
  moreover have "\<forall>y\<in>due_timers L3. timer_key (lp_timers L3) y = timer_key (lp_timers L) y"
    using L3(3) due t(4) by (auto simp: timer_key_def)
  moreover have "due_timers L3 \<inter> {y} = (due_timers L - {x}) \<inter> {y} \<and> lp_timers L3 y = (if y = x then t else lp_timers L y)"
    if "untouched call y" for y
  proof -
    have "lp_timers (snd (call k x (u, L2))) y = lp_timers (snd (u, L2)) y" using that unfolding untouched_def by blast
    then have eq: "lp_timers L3 y = lp_timers L2 y" by (simp add: s3)
    then have "y \<in> due_timers L3 \<longleftrightarrow> y \<in> due_timers L2"
      using L3(2) by (simp add: due_timers_def active_timers_def uv__is_active_def)
    then show ?thesis using due eq t(4) by auto
  qed
  ultimately show thesis using L3(1,2) t(5,6) by (intro that [of u3 L3 _ t]) simp_all
qed

lemma run_timers_calm:
  assumes "timers_ok c L" "lp_time L \<noteq> -1"
    and "\<And>cb x u M. \<exists>others. timers_ok others M \<Longrightarrow> lp_time M = lp_time L \<Longrightarrow> calm M (snd (call cb x (u, M)))"
  shows "\<exists>ys u' L'. uv__run_timers call (u, L) = Some (Ok (), u', L') \<and> (u', L') = fold (turn call) ys (u, L) \<and>
    distinct ys \<and> set ys \<subseteq> due_timers L \<and> sorted (map (timer_key (lp_timers L)) ys) \<and>
    (\<exists>others. timers_ok others L') \<and> due_timers L' = {} \<and> lp_time L' = lp_time L \<and>
    (\<forall>x. untouched call x \<longrightarrow> (if x \<in> due_timers L then x \<in> set ys \<and> turned L x (lp_timers L' x) else lp_timers L' x = lp_timers L x))"
  using assms
proof (induction "card (due_timers L)" arbitrary: c L u rule: less_induct)
  case less
  note inv = less.prems(1)
  have fin: "finite (due_timers L)" using finite_timers [OF inv] by (simp add: due_timers_def)
  show ?case
  proof (cases "due_timers L = {}")
    case True
    then have "uv__run_timers call (u, L) = Some (Ok (), u, L)"
      by (subst uv__run_timers.simps, cases rule: min_timer [OF inv]) (auto simp: due_timers_def not_le)
    then show ?thesis using True inv by (intro exI [of _ "[]"] exI [of _ u] exI [of _ L]) auto
  next
    case False
    then obtain e where e: "e \<in> due_timers L" by blast
    then obtain x where x: "heap_min (lp_timer_heap L) = Some x" "x \<in> active_timers L"
        "\<And>y. y \<in> active_timers L \<Longrightarrow> timer_key (lp_timers L) x \<le> timer_key (lp_timers L) y"
      by (cases rule: min_timer [OF inv]) (auto simp: due_timers_def)
    have xd: "x \<in> due_timers L" using e x(2) key_timeout [OF x(3) [of e]] by (auto simp: due_timers_def)
    obtain c' L3 u3 t where t: "turn call x (u, L) = (u3, L3)" "timers_ok c' L3" "lp_time L3 = lp_time L"
      "due_timers L3 \<subseteq> due_timers L - {x}" "\<forall>y\<in>due_timers L3. timer_key (lp_timers L3) y = timer_key (lp_timers L) y"
      "\<forall>y. untouched call y \<longrightarrow> due_timers L3 \<inter> {y} = (due_timers L - {x}) \<inter> {y} \<and> lp_timers L3 y = (if y = x then t else lp_timers L y)"
      "turned L x t" "step_ok (on_loop (uv_timer_stop x) (u, L)) (\<lambda>_ s. step_ok (on_loop (uv_timer_again x) s) (\<lambda>_ s. run_cb call x s)) =
        Some (Ok (), u3, L3)"
      by (rule turn_calm [OF inv x(2) less.prems(2,3)])
    have "uv__run_timers call (u, L) = step_ok (step_ok (on_loop (uv_timer_stop x) (u, L)) (\<lambda>_ s.
        step_ok (on_loop (uv_timer_again x) s) (\<lambda>_ s. run_cb call x s))) (\<lambda>_ s. uv__run_timers call s)"
      using x(1) xd by (subst uv__run_timers.simps) (simp add: due_timers_def leD step_ok_assoc)
    then have step: "uv__run_timers call (u, L) = uv__run_timers call (u3, L3)" unfolding t(8) by simp
    have "card (due_timers L3) < card (due_timers L)" using t(4) xd fin by (intro psubset_card_mono) auto
    moreover have "lp_time L3 \<noteq> -1" using t(3) less.prems(2) by simp
    moreover have "calm M (snd (call cb x (u, M)))" if "\<exists>others. timers_ok others M" "lp_time M = lp_time L3" for cb x u M
      using less.prems(3) that t(3) by simp
    ultimately have "\<exists>ys u' L'. uv__run_timers call (u3, L3) = Some (Ok (), u', L') \<and> (u', L') = fold (turn call) ys (u3, L3) \<and>
        distinct ys \<and> set ys \<subseteq> due_timers L3 \<and> sorted (map (timer_key (lp_timers L3)) ys) \<and>
        (\<exists>others. timers_ok others L') \<and> due_timers L' = {} \<and> lp_time L' = lp_time L3 \<and>
        (\<forall>x. untouched call x \<longrightarrow> (if x \<in> due_timers L3 then x \<in> set ys \<and> turned L3 x (lp_timers L' x) else lp_timers L' x = lp_timers L3 x))"
      by (intro less.hyps [OF _ t(2)])
    then obtain ys u' L' where
      ys: "uv__run_timers call (u3, L3) = Some (Ok (), u', L')" "(u', L') = fold (turn call) ys (u3, L3)"
        "distinct ys" "set ys \<subseteq> due_timers L3" "sorted (map (timer_key (lp_timers L3)) ys)" "\<exists>others. timers_ok others L'"
        "due_timers L' = {}" "lp_time L' = lp_time L3"
        "\<forall>y. untouched call y \<longrightarrow> (if y \<in> due_timers L3 then y \<in> set ys \<and> turned L3 y (lp_timers L' y) else lp_timers L' y = lp_timers L3 y)"
      by blast
    have keys: "map (timer_key (lp_timers L3)) ys = map (timer_key (lp_timers L)) ys" using ys(4) t(5) by auto
    have "set ys \<subseteq> active_timers L" using ys(4) t(4) by (auto simp: due_timers_def)
    then have sort: "sorted (map (timer_key (lp_timers L)) (x # ys))" using ys(5) [unfolded keys] x(3) by auto
    have "if y \<in> due_timers L then y \<in> set (x # ys) \<and> turned L y (lp_timers L' y) else lp_timers L' y = lp_timers L y"
      if y: "untouched call y" for y
    proof (cases "y = x")
      case True
      have "due_timers L3 \<inter> {x} = {}" "lp_timers L3 x = t" using t(6) y True by auto
      then show ?thesis using ys(9) [rule_format, OF y] t(7) xd True by simp
    next
      case False
      have y3: "y \<in> due_timers L3 \<longleftrightarrow> y \<in> due_timers L" "lp_timers L3 y = lp_timers L y" using t(6) y False by auto
      then have "turned L3 y (lp_timers L' y) = turned L y (lp_timers L' y)"
        using t(3) by (simp add: turned_def uv__is_closing_def)
      then show ?thesis using ys(9) [rule_format, OF y] y3 by (simp split: if_splits)
    qed
    then have rest: "\<forall>y. untouched call y \<longrightarrow>
        (if y \<in> due_timers L then y \<in> set (x # ys) \<and> turned L y (lp_timers L' y) else lp_timers L' y = lp_timers L y)" by blast
    have set: "distinct (x # ys)" "set (x # ys) \<subseteq> due_timers L" using ys(3,4) t(4) xd by auto
    have run: "uv__run_timers call (u, L) = Some (Ok (), u', L')" "(u', L') = fold (turn call) (x # ys) (u, L)"
      using step ys(1,2) t(1) by simp_all
    have time: "lp_time L' = lp_time L" using ys(8) t(3) by simp
    show ?thesis
      by (intro exI [of _ "x # ys"] exI [of _ u'] exI [of _ L'] conjI run set sort ys(6,7) time rest)
  qed
qed

section \<open>Histories of a loop\<close>

text \<open>
  The operations on the timers of a loop, in any order, between ticks of its clock. A handle is initialised when it is not
  active, there are never more active timers than the heap can count, and a handle that is being closed, so that it is not
  active any more, is not referenced.
\<close>

inductive timer_step :: "uv_loop \<Rightarrow> int outcome \<Rightarrow> uv_loop \<Rightarrow> bool" where
  init: "\<not> uv__is_active L x \<Longrightarrow> uv_timer_init x L = (r, L') \<Longrightarrow> timer_step L (Ok r) L'"
| start: "card (insert x (active_timers L)) < 2 ^ 32 \<Longrightarrow> uv_timer_start x cb timeout repeat L = Some (r, L') \<Longrightarrow> timer_step L r L'"
| stop: "uv_timer_stop x L = Some (r, L') \<Longrightarrow> timer_step L r L'"
| again: "card (insert x (active_timers L)) < 2 ^ 32 \<Longrightarrow> uv_timer_again x L = Some (r, L') \<Longrightarrow> timer_step L r L'"
| set_repeat: "timer_step L (Ok 0) (uv_timer_set_repeat x repeat L)"
| ref: "\<not> uv__is_closing L x \<Longrightarrow> timer_step L (Ok 0) (uv__handle_ref x L)"
| unref: "\<not> uv__is_closing L x \<Longrightarrow> timer_step L (Ok 0) (uv__handle_unref x L)"
| close: "uv__timer_close x L = Some (r, L') \<Longrightarrow> timer_step L (case r of Ok _ \<Rightarrow> Ok 0 | Fail \<Rightarrow> Fail | Undef \<Rightarrow> Undef) L'"
| tick: "timer_step L (Ok 0) (L\<lparr>lp_time := now\<rparr>)"

inductive timer_run :: "uv_loop \<Rightarrow> int outcome list \<Rightarrow> uv_loop \<Rightarrow> bool" where
  refl: "timer_run L [] L"
| step: "timer_run L rs L1 \<Longrightarrow> timer_step L1 r L2 \<Longrightarrow> timer_run L (rs @ [r]) L2"

lemma same_timers:
  assumes "timers_ok c L" "lp_timer_heap L' = lp_timer_heap L" "lp_active_handles L' = lp_active_handles L"
    "\<And>x. uv__is_active L' x = uv__is_active L x \<and> uv__has_ref L' x = uv__has_ref L x"
    "\<And>x. uv__is_active L x \<Longrightarrow> t_timeout (lp_timers L' x) = t_timeout (lp_timers L x) \<and>
       t_start_id (lp_timers L' x) = t_start_id (lp_timers L x) \<and> t_timer_cb (lp_timers L' x) = t_timer_cb (lp_timers L x)"
  shows "timers_ok c L'"
proof -
  have act: "active_timers L' = active_timers L" and cnt: "counted_timers L' = counted_timers L"
    using assms(4) by (auto simp: active_timers_def counted_timers_def)
  have "heap_set (timer_less_than (lp_timers L')) (lp_timer_heap L') (active_timers L')"
    unfolding act assms(2)
    by (rule heap_set_cong [of "timer_less_than (lp_timers L)"]) (use assms(1,5) in \<open>auto simp: timers_ok_def active_timers_def timer_less_than_def\<close>)
  then show ?thesis using assms(1,3,5) unfolding timers_ok_def act cnt by (auto simp: active_timers_def)
qed

lemma ref_flag:
  assumes inv: "timers_ok c L" and "lp_timer_heap L' = lp_timer_heap L"
    and ti: "lp_timers L' = (lp_timers L)(x := (lp_timers L x)\<lparr>t_flags := f\<rparr>)" and f: "f AND 4 = flags L x AND 4"
    and n: "lp_active_handles L' = lp_active_handles L +
      (if uv__is_active L x then of_bool (f AND 8 \<noteq> 0) - of_bool (uv__has_ref L x) else 0)"
  shows "timers_ok c L'"
proof -
  have act: "active_timers L' = active_timers L" using f by (auto simp: active_timers_def uv__is_active_def ti)
  define C where "C = counted_timers L - {x}"
  have fin: "finite C" "x \<notin> C" using finite_timers [OF inv] by (simp_all add: C_def)
  have old: "counted_timers L = (if uv__is_active L x \<and> uv__has_ref L x then insert x C else C)"
    by (auto simp: C_def counted_timers_def active_timers_def)
  have new: "counted_timers L' = (if uv__is_active L x \<and> f AND 8 \<noteq> 0 then insert x C else C)"
    unfolding C_def counted_timers_def act by (auto simp: active_timers_def uv__has_ref_def ti split: if_splits)
  have co: "(of_nat (card (counted_timers L)) :: u32) = of_nat (card C) + of_bool (uv__is_active L x \<and> uv__has_ref L x)"
    unfolding old using fin by simp
  have cn: "(of_nat (card (counted_timers L')) :: u32) = of_nat (card C) + of_bool (uv__is_active L x \<and> f AND 8 \<noteq> 0)"
    unfolding new using fin by simp
  have "lp_active_handles L = c + of_nat (card (counted_timers L))" using inv by (simp add: timers_ok_def)
  then have "lp_active_handles L' = c + of_nat (card (counted_timers L'))"
    unfolding n cn co by (cases "uv__is_active L x"; cases "uv__has_ref L x"; cases "f AND 8 \<noteq> 0") simp_all
  moreover have "heap_set (timer_less_than (lp_timers L')) (lp_timer_heap L') (active_timers L')"
    unfolding act assms(2) by (rule heap_set_cong [of "timer_less_than (lp_timers L)"]) (use inv in \<open>auto simp: timers_ok_def timer_less_than_def ti\<close>)
  ultimately show ?thesis using inv unfolding timers_ok_def act ti by auto
qed

lemma not_closing: "\<not> uv__is_closing L x \<Longrightarrow> flags L x AND 1 = 0"
proof -
  assume "\<not> uv__is_closing L x"
  then have "(flags L x AND 3) AND 1 = 0" by (simp add: uv__is_closing_def)
  then show ?thesis by (simp add: and.assoc)
qed

lemma flags_eq: "t_flags_update g t = t\<lparr>t_flags := g (t_flags t)\<rparr>"
  by (cases t) simp

lemma ref_ok: "timers_ok c L \<Longrightarrow> \<not> uv__is_closing L x \<Longrightarrow> timers_ok c (uv__handle_ref x L)"
proof (cases "uv__has_ref L x")
  case False
  assume inv: "timers_ok c L" and "\<not> uv__is_closing L x"
  then have cl: "flags L x AND 1 = 0" by (rule_tac not_closing)
  show ?thesis
    by (rule ref_flag [OF inv, of _ x "flags L x OR 8"])
      (use False cl in \<open>simp_all add: uv__handle_ref_def uv__has_ref_def uv__is_active_def uv__active_handle_add_def Let_def upd_timer_def flags_eq [of "\<lambda>f. f OR 8"]\<close>)
qed (simp add: uv__handle_ref_def uv__has_ref_def)

lemma unref_ok: "timers_ok c L \<Longrightarrow> \<not> uv__is_closing L x \<Longrightarrow> timers_ok c (uv__handle_unref x L)"
proof (cases "uv__has_ref L x")
  case True
  assume inv: "timers_ok c L" and "\<not> uv__is_closing L x"
  then have cl: "flags L x AND 1 = 0" by (rule_tac not_closing)
  show ?thesis
    by (rule ref_flag [OF inv, of _ x "flags L x AND - 9"])
      (use True cl in \<open>simp_all add: uv__handle_unref_def uv__has_ref_def uv__is_active_def uv__active_handle_rm_def Let_def upd_timer_def flags_eq [of "\<lambda>f. f AND - 9"]\<close>)
qed (simp add: uv__handle_unref_def uv__has_ref_def)

lemma init_ok:
  assumes "timers_ok c L" "\<not> uv__is_active L x"
  shows "timers_ok c (snd (uv_timer_init x L)) \<and> fst (uv_timer_init x L) = 0"
proof -
  let ?L = "snd (uv_timer_init x L)"
  have f: "lp_timers ?L = (lp_timers L)(x := (lp_timers L x)\<lparr>t_type := UV_TIMER, t_flags := 8, t_next_closing := None, t_timer_cb := None, t_repeat := 0\<rparr>)"
      "lp_timer_heap ?L = lp_timer_heap L" "lp_active_handles ?L = lp_active_handles L"
    by (simp_all add: uv_timer_init_def uv__handle_init_def uv__handle_platform_init_def Let_def)
  have act: "active_timers ?L = active_timers L" using assms(2) by (auto simp: active_timers_def uv__is_active_def f)
  have na: "x \<notin> active_timers L" using assms(2) by (simp add: active_timers_def)
  have cnt: "counted_timers ?L = counted_timers L" unfolding counted_timers_def act using na by (auto simp: uv__has_ref_def f)
  have "heap_set (timer_less_than (lp_timers ?L)) (lp_timer_heap ?L) (active_timers ?L)"
    unfolding act f(2)
    by (rule heap_set_cong [of "timer_less_than (lp_timers L)"]) (use assms(1) na in \<open>auto simp: timers_ok_def timer_less_than_def f\<close>)
  moreover have "\<forall>y\<in>active_timers L. t_timer_cb (lp_timers ?L y) \<noteq> None" using assms(1) na by (auto simp: timers_ok_def f)
  moreover have "fst (uv_timer_init x L) = 0" by (simp add: uv_timer_init_def Let_def)
  ultimately show ?thesis using assms(1) unfolding timers_ok_def act cnt f(3) by simp
qed

lemma step_timers_ok:
  assumes "timer_step L r L'" "timers_ok c L"
  shows "timers_ok c L' \<and> r \<noteq> Undef"
  using assms
proof (cases rule: timer_step.cases)
  case (init x r)
  then show ?thesis using init_ok [OF assms(2), of x] by simp
next
  case (start x cb timeout repeat)
  show ?thesis
  proof (cases "uv__is_closing L x \<or> cb = None")
    case True
    then show ?thesis using start(2) assms(2) by (auto simp: uv_timer_start_def)
  next
    case False
    then show ?thesis using start start_ok [OF assms(2), of x cb timeout repeat] by auto
  qed
next
  case (stop x)
  then show ?thesis using stop_ok [OF assms(2), of x] by auto
next
  case (again x)
  then show ?thesis using again_ok [OF assms(2), of x] by (auto split: if_splits)
next
  case (set_repeat x repeat)
  then have "timers_ok c L'" using assms(2)
    by (rule_tac same_timers [of c L]) (auto simp: uv_timer_set_repeat_def uv__is_active_def uv__has_ref_def)
  then show ?thesis using set_repeat by simp
next
  case (ref x)
  then show ?thesis using ref_ok [OF assms(2), of x] by simp
next
  case (unref x)
  then show ?thesis using unref_ok [OF assms(2), of x] by simp
next
  case (close x q)
  obtain M where M: "uv_timer_stop x L = Some (Ok 0, M)" "timers_ok c M" using stop_ok [OF assms(2), of x] by blast
  then have "L' = M" "q = Ok ()" using close(2) by (simp_all add: uv__timer_close_def)
  then show ?thesis using M(2) close(1) by simp
next
  case (tick now)
  then have "timers_ok c L'" using assms(2)
    by (rule_tac same_timers [of c L]) (auto simp: uv__is_active_def uv__has_ref_def)
  then show ?thesis using tick by simp
qed

lemma run_timers_ok:
  assumes "timer_run L rs L'" "timers_ok c L"
  shows "timers_ok c L' \<and> Undef \<notin> set rs"
  using assms by (induction rule: timer_run.induct) (auto dest: step_timers_ok)

section \<open>Properties\<close>

definition idle_timer :: uv_timer where
  "idle_timer = \<lparr>t_type = UV_TIMER, t_flags = UV_HANDLE_REF, t_next_closing = None, t_timer_cb = None, t_timeout = 0, t_repeat = 0, t_start_id = 0\<rparr>"

definition fresh_loop :: "u64 \<Rightarrow> uv_loop" where
  "fresh_loop now = \<lparr>lp_active_handles = 0, lp_handle_queue = 0, lp_queues = QUEUE_INIT 0 (\<lambda>_. \<lparr>q_next = 0, q_prev = 0\<rparr>),
     lp_timer_heap = heap_init \<lparr>hp_min = None, hp_nelts = 0, hp_nodes = \<lambda>_. \<lparr>hn_left = None, hn_right = None, hn_parent = None\<rparr>\<rparr>,
     lp_timer_counter = 0, lp_time = now, lp_timers = \<lambda>_. idle_timer\<rparr>"

lemma fresh_timers: "active_timers (fresh_loop now) = {}" "timers_ok 0 (fresh_loop now)"
proof -
  show act: "active_timers (fresh_loop now) = {}" by (simp add: active_timers_def uv__is_active_def fresh_loop_def idle_timer_def)
  have "heap_set (timer_less_than (lp_timers (fresh_loop now))) (lp_timer_heap (fresh_loop now)) {}"
    by (simp add: fresh_loop_def heap_set_empty)
  then show "timers_ok 0 (fresh_loop now)" unfolding timers_ok_def counted_timers_def act by (simp add: fresh_loop_def)
qed

lemma one_timer:
  obtains L where "uv_timer_start 7 (Some 1) 5 0 (fresh_loop 100) = Some (Ok 0, L)" "timers_ok 0 L" "active_timers L = {7}" "lp_time L = 100"
    "t_timeout (lp_timers L 7) = 105"
proof -
  have "\<not> uv__is_closing (fresh_loop 100) 7" by (simp add: uv__is_closing_def fresh_loop_def idle_timer_def)
  then obtain L where L: "uv_timer_start 7 (Some 1) 5 0 (fresh_loop 100) = Some (Ok 0, L)" "timers_ok 0 L" "active_timers L = {7}"
      "lp_timers L = (lp_timers (fresh_loop 100))(7 := started (fresh_loop 100) (Some 1) 5 0 (lp_timers (fresh_loop 100) 7))"
      "lp_time L = lp_time (fresh_loop 100)"
    using start_ok [OF fresh_timers(2), of 100 7 "Some 1" 5 0] by (auto simp: fresh_timers(1))
  moreover have "t_timeout (lp_timers L 7) = 105" "lp_time L = 100"
    unfolding L by (simp_all add: started_def due_time_def fresh_loop_def)
  ultimately show thesis using that by blast
qed

text \<open>C25: Whatever the order of the operations on the timers of a loop, the heap of the loop holds exactly the active timers in the
  order of their time-outs, every active timer has a callback, the loop counts the active timers that keep it alive, no
  operation follows a dangling pointer, and stopping a timer returns.\<close>

theorem timers_invariant:
  assumes "timer_run L rs L'" "timers_ok others L"
  shows "timers_ok others L' \<and> Undef \<notin> set rs \<and> (\<exists>L''. uv_timer_stop x L' = Some (Ok 0, L'') \<and> active_timers L'' = active_timers L' - {x})"
  using run_timers_ok [OF assms] stop_ok [of others L' x] by blast

theorem timers_invariant_witness:
  "\<exists>L L''. timer_run (fresh_loop 100) [Ok 0, Ok 0] L \<and> active_timers L = {7} \<and> timers_ok 0 L \<and>
    uv_timer_stop 7 L = Some (Ok 0, L'') \<and> active_timers L'' = {}"
proof (rule one_timer)
  fix L assume L: "uv_timer_start 7 (Some 1) 5 0 (fresh_loop 100) = Some (Ok 0, L)" "active_timers L = {7}"
  let ?L = "L\<lparr>lp_time := 105\<rparr>"
  have act: "active_timers ?L = {7}" using L(2) by (simp add: active_timers_def uv__is_active_def)
  have "timer_run (fresh_loop 100) ([] @ [Ok 0]) L"
    by (rule timer_run.step [OF timer_run.refl timer_step.start [OF _ L(1)]]) (simp add: fresh_timers(1))
  from timer_run.step [OF this timer_step.tick] have run: "timer_run (fresh_loop 100) [Ok 0, Ok 0] ?L" by simp
  from timers_invariant [OF this fresh_timers(2), of 7] act have "timers_ok 0 ?L"
    "\<exists>L''. uv_timer_stop 7 ?L = Some (Ok 0, L'') \<and> active_timers L'' = {}" by simp_all
  with run act show ?thesis by blast
qed

lemma sint_small:
  fixes d :: u64
  assumes "unat d \<le> 2 ^ 31 - 1"
  shows "sint (ucast d :: 32 word) = int (unat d)"
proof -
  have "unat d \<le> 2147483647" using assms by simp
  then have "int (unat d) \<le> 2147483647" by linarith
  then have b: "0 \<le> uint d" "uint d \<le> 2 ^ 31 - 1" by simp_all
  then have "uint (ucast d :: 32 word) = uint d" by (simp add: unsigned_ucast_eq take_bit_int_eq_self)
  moreover have "- (2 ^ 31) \<le> uint d" using b(1) by (rule order_trans [rotated]) simp
  then have "signed_take_bit 31 (uint d) = uint d" by (rule signed_take_bit_int_eq_self) (use b(2) in simp)
  ultimately show ?thesis unfolding sint_uint by simp
qed

text \<open>C28: The time that the loop may block in its poll is the time until the earliest time-out, cut off at the largest
  \<^verbatim>\<open>int\<close>: zero when a timer is due, and -1, forever, when there is no active timer.\<close>

theorem next_timeout_exact:
  assumes "timers_ok others L"
  shows "uv__next_timeout L = (if active_timers L = {} then -1
    else int (min (Min ((\<lambda>x. unat (t_timeout (lp_timers L x))) ` active_timers L) - unat (lp_time L)) (2 ^ 31 - 1)))"
proof (cases rule: min_timer [OF assms])
  case 1
  then show ?thesis by (simp add: uv__next_timeout_def)
next
  case (2 x)
  let ?t = "t_timeout (lp_timers L x)" and ?f = "\<lambda>x. unat (t_timeout (lp_timers L x))"
  have "Min (?f ` active_timers L) = ?f x"
    by (rule Min_eqI) (use 2 finite_timers [OF assms] key_timeout in \<open>auto simp: word_le_nat_alt\<close>)
  moreover have "uv__next_timeout L = int (min (unat ?t - unat (lp_time L)) (2 ^ 31 - 1))"
  proof (cases "?t \<le> lp_time L")
    case True
    then show ?thesis using 2(1) by (simp add: uv__next_timeout_def word_le_nat_alt)
  next
    case False
    have d: "unat (?t - lp_time L) = unat ?t - unat (lp_time L)" using False by (simp add: unat_sub word_le_nat_alt)
    show ?thesis
    proof (cases "INT_MAX < ?t - lp_time L")
      case True
      then have "2 ^ 31 - 1 < unat ?t - unat (lp_time L)" using d by (simp add: word_less_nat_alt)
      then show ?thesis using True False 2(1) by (simp add: uv__next_timeout_def)
    next
      case le: False
      then have n: "unat (?t - lp_time L) \<le> 2 ^ 31 - 1" by (simp add: word_less_nat_alt)
      have "sint (ucast (?t - lp_time L) :: 32 word) = int (unat (?t - lp_time L))" by (rule sint_small) (rule n)
      then show ?thesis using le False 2(1) n d by (simp add: uv__next_timeout_def)
    qed
  qed
  ultimately show ?thesis using 2(2) by auto
qed

theorem next_timeout_exact_witness:
  "\<exists>L. active_timers L = {7} \<and> uv__next_timeout L = 5"
proof (rule one_timer)
  fix L assume L: "timers_ok 0 L" "active_timers L = {7}" "lp_time L = 100" "t_timeout (lp_timers L 7) = 105"
  from next_timeout_exact [OF L(1)] have "uv__next_timeout L = 5" by (simp add: L)
  then show ?thesis using L(2) by blast
qed

text \<open>C26: Running the timers with callbacks that may themselves start, stop and restart timers, as long as they keep the invariant and
  the clock of the loop and start no timer that is due at once (\<open>calm\<close>), when the clock is not at its largest value. The loop
  returns and no timer is due then. It consists of one turn (stop, again, callback) for each of a list of timers: each of
  them was due at the start, none comes twice, and they come in the order of their time-outs and, among equal time-outs, of
  the calls that started them. A timer that no callback touches has its turn exactly when it was due; then it runs again
  after its interval if it repeats and is stopped otherwise, and if it was not due it is as it was.\<close>

theorem run_timers_exact:
  assumes "timers_ok others L" "lp_time L \<noteq> -1"
    and "\<And>cb x u M. \<exists>others. timers_ok others M \<Longrightarrow> lp_time M = lp_time L \<Longrightarrow> calm M (snd (call cb x (u, M)))"
  shows "\<exists>ys u' L'. uv__run_timers call (u, L) = Some (Ok (), u', L') \<and> (u', L') = fold (turn call) ys (u, L) \<and>
    distinct ys \<and> set ys \<subseteq> due_timers L \<and> sorted (map (timer_key (lp_timers L)) ys) \<and>
    (\<exists>others. timers_ok others L') \<and> due_timers L' = {} \<and> lp_time L' = lp_time L \<and>
    (\<forall>x. untouched call x \<longrightarrow> (if x \<in> due_timers L then x \<in> set ys \<and> turned L x (lp_timers L' x) else lp_timers L' x = lp_timers L x))"
  by (rule run_timers_calm [OF assms])

text \<open>A callback that notes its timer and stops the timer 8.\<close>

definition stop_8 :: "cb \<Rightarrow> node \<Rightarrow> node list \<times> uv_loop \<Rightarrow> node list \<times> uv_loop" where
  "stop_8 cb x s = (fst s @ [x], case uv_timer_stop 8 (snd s) of Some (_, L) \<Rightarrow> L | None \<Rightarrow> snd s)"

lemma stop_8_calm: "\<exists>others. timers_ok others M \<Longrightarrow> calm M (snd (stop_8 cb x (u, M)))"
proof -
  assume "\<exists>others. timers_ok others M"
  then obtain c where "timers_ok c M" by blast
  moreover from stop_ok [OF this, of 8] obtain M' where "uv_timer_stop 8 M = Some (Ok 0, M')" by blast
  ultimately show ?thesis using calm_stop by (simp add: stop_8_def)
qed

lemma stop_other: "uv_timer_stop z L = Some (r, L') \<Longrightarrow> x \<noteq> z \<Longrightarrow> lp_timers L' x = lp_timers L x"
  by (cases "heap_remove (timer_less_than (lp_timers L)) z (lp_timer_heap L)";
      cases "fst (the (heap_remove (timer_less_than (lp_timers L)) z (lp_timer_heap L)))")
    (auto simp: uv_timer_stop_def on_heap_def step_ok_def uv__handle_stop_def Let_def uv__active_handle_rm_def split: if_splits)

lemma stop_8_untouched: "x \<noteq> 8 \<Longrightarrow> untouched stop_8 x"
  by (auto simp: untouched_def stop_8_def stop_other split: option.splits)

lemma turn_stop_8:
  assumes "timers_ok c L" "x \<in> active_timers L"
  shows "fst (turn stop_8 x (u, L)) = u @ [x]"
proof -
  obtain L1 r L2 t where t: "uv_timer_stop x L = Some (Ok 0, L1)" "uv_timer_again x L1 = Some (Ok r, L2)"
      "lp_timers L2 = (lp_timers L)(x := t)" "turned L x t"
    using turn_ok [OF assms] by blast
  obtain k where "t_timer_cb (lp_timers L x) = Some k" using assms by (auto simp: timers_ok_def)
  then show ?thesis using t by (simp add: turn_def on_loop_def run_cb_def turned_def stop_8_def)
qed

theorem run_timers_exact_witness:
  "\<exists>L L'. active_timers L = {7} \<and> uv__run_timers stop_8 ([], L) = Some (Ok (), [7], L') \<and> due_timers L' = {}"
proof (rule one_timer)
  fix L assume L: "timers_ok 0 L" "active_timers L = {7}" "lp_time L = 100" "t_timeout (lp_timers L 7) = 105"
  let ?L = "L\<lparr>lp_time := 105\<rparr>"
  have ok: "timers_ok 0 ?L" by (rule same_timers [OF L(1)]) (simp_all add: uv__is_active_def uv__has_ref_def)
  have act: "active_timers ?L = {7}" using L(2) by (simp add: active_timers_def uv__is_active_def)
  then have due: "due_timers ?L = {7}" using L(4) by (auto simp: due_timers_def)
  have "lp_time ?L \<noteq> -1" by simp
  from run_timers_exact [of 0 ?L stop_8 "[]", OF ok this stop_8_calm] obtain ys u' L' where
    r: "uv__run_timers stop_8 ([], ?L) = Some (Ok (), u', L')" "(u', L') = fold (turn stop_8) ys ([], ?L)" "distinct ys"
      "set ys \<subseteq> due_timers ?L" "due_timers L' = {}" "\<forall>x. untouched stop_8 x \<longrightarrow> (if x \<in> due_timers ?L then x \<in> set ys \<and> turned ?L x (lp_timers L' x) else lp_timers L' x = lp_timers ?L x)"
    by blast
  have "set ys = {7}" using r(4) r(6) [THEN spec [of _ 7]] due stop_8_untouched [of 7] by auto
  then have "length ys = 1" using distinct_card [OF r(3)] by simp
  then obtain y where "ys = [y]" by (cases ys) auto
  then have "ys = [7]" using \<open>set ys = {7}\<close> by simp
  then have "u' = fst (turn stop_8 7 ([], ?L))" using r(2) by (metis fold_simps(1,2) fst_conv)
  then have "u' = [7]" using turn_stop_8 [OF ok, of 7 "[]"] act by simp
  then show ?thesis using r(1,5) act by auto
qed

end
