(* ===== verification/Uv_Inet.thy ===== *)
theory Uv_Inet
  imports Uv_Errno
begin

text \<open>
  Internet addresses as text (\<^verbatim>\<open>src/inet.c\<close>) and the string copy it uses (\<^verbatim>\<open>src/strscpy.c\<close>). A string is the bytes from its pointer to
  the end of its object; reading on where no terminator was found is \<open>Undef\<close>. A local buffer that is written from the front
  is the list of the bytes written so far.
\<close>

section \<open>Copying strings\<close>

abbreviation SSIZE_MAX :: nat where "SSIZE_MAX \<equiv> 2 ^ 63 - 1"

function strscpy_loop :: "nat \<Rightarrow> byte list \<Rightarrow> byte list \<Rightarrow> nat \<Rightarrow> int outcome \<times> byte list" where
  "strscpy_loop i d s n =
     (if i < n
      then if length s \<le> i \<or> length d \<le> i then (Undef, d)
           else let d = d[i := s ! i]
                in if d ! i = 0 then (Ok (if SSIZE_MAX < i then UV_E2BIG else int i), d) else strscpy_loop (i + 1) d s n
      else if i = 0 then (Ok 0, d)
      else if length d \<le> i - 1 then (Undef, d) else (Ok UV_E2BIG, d[i - 1 := 0]))"
  by pat_completeness auto
termination by (relation "measure (\<lambda>(i, d, s, n). n - i)") auto

declare strscpy_loop.simps [simp del]

definition uv__strscpy :: "byte list \<Rightarrow> byte list \<Rightarrow> nat \<Rightarrow> int outcome \<times> byte list" where
  "uv__strscpy d s n = strscpy_loop 0 d s n"

text \<open>The position of a character in a string constant.\<close>

fun strchr_index :: "byte list \<Rightarrow> byte \<Rightarrow> nat option" where
  "strchr_index [] c = None"
| "strchr_index (x # xs) c = (if x = c then Some 0 else map_option Suc (strchr_index xs c))"

definition digits :: "byte list" where "digits = [48, 49, 50, 51, 52, 53, 54, 55, 56, 57]"
definition xdigits_l :: "byte list" where "xdigits_l = digits @ [97, 98, 99, 100, 101, 102]"
definition xdigits_u :: "byte list" where "xdigits_u = digits @ [65, 66, 67, 68, 69, 70]"

section \<open>Printing\<close>

abbreviation UV__INET_ADDRSTRLEN :: nat where "UV__INET_ADDRSTRLEN \<equiv> 16"
abbreviation UV__INET6_ADDRSTRLEN :: nat where "UV__INET6_ADDRSTRLEN \<equiv> 46"

definition quad_text :: "byte list \<Rightarrow> byte list" where
  "quad_text src = decimal (unat (src ! 0)) @ 46 # decimal (unat (src ! 1)) @ 46 # decimal (unat (src ! 2)) @ 46 # decimal (unat (src ! 3))"

definition inet_ntop4 :: "byte list \<Rightarrow> byte list \<Rightarrow> nat \<Rightarrow> int outcome \<times> byte list" where
  "inet_ntop4 src dst sz =
     (if length src < 4 then (Undef, dst)
      else let text = quad_text src;
               tmp = take (UV__INET_ADDRSTRLEN - 1) text @ [0];
               l = length text
           in if l \<le> 0 \<or> sz \<le> l then (Ok UV_ENOSPC, dst)
              else seq_ok (uv__strscpy dst tmp sz) (\<lambda>_ dst. (Ok 0, dst)))"

text \<open>A run of zero words: the base, or -1, and the length.\<close>

type_synonym run = "int \<times> nat"

definition words_of :: "byte list \<Rightarrow> u32 list" where
  "words_of src = fold (\<lambda>i words. words[i div 2 := words ! (i div 2) OR push_bit ((1 - i mod 2) * 8) (ucast (src ! i))]) [0..<16] (replicate 8 0)"

definition scan_run :: "u32 list \<Rightarrow> nat \<Rightarrow> run \<times> run \<Rightarrow> run \<times> run" where
  "scan_run words i st = (case st of (best, cur) \<Rightarrow>
     if words ! i = 0
     then (best, if fst cur = -1 then (int i, 1) else (fst cur, snd cur + 1))
     else if fst cur \<noteq> -1
          then (if fst best = -1 \<or> snd best < snd cur then cur else best, (-1, snd cur))
          else (best, cur))"

definition best_run :: "u32 list \<Rightarrow> run" where
  "best_run words = (case fold (scan_run words) [0..<8] ((-1, 0), (-1, 0)) of (best, cur) \<Rightarrow>
     let best = (if fst cur \<noteq> -1 \<and> (fst best = -1 \<or> snd best < snd cur) then cur else best)
     in if fst best \<noteq> -1 \<and> snd best < 2 then (-1, snd best) else best)"

text \<open>Stores at \<^verbatim>\<open>tp\<close>; \<open>out\<close> is what is in \<^verbatim>\<open>tmp\<close> before \<^verbatim>\<open>tp\<close>.\<close>

definition put6 :: "byte list \<Rightarrow> byte list \<Rightarrow> byte list outcome" where
  "put6 bs out = (if length out + length bs \<le> UV__INET6_ADDRSTRLEN then Ok (out @ bs) else Undef)"

function format6 :: "byte list \<Rightarrow> u32 list \<Rightarrow> run \<Rightarrow> nat \<Rightarrow> byte list \<Rightarrow> byte list outcome" where
  "format6 src words best i out =
     (if 8 \<le> i then Ok out
      else if fst best \<noteq> -1 \<and> fst best \<le> int i \<and> int i < fst best + int (snd best)
      then bind_out (if int i = fst best then put6 [58] out else Ok out) (\<lambda>out. format6 src words best (i + 1) out)
      else bind_out (if i \<noteq> 0 then put6 [58] out else Ok out) (\<lambda>out.
        if i = 6 \<and> fst best = 0 \<and> (snd best = 6 \<or> (snd best = 7 \<and> words ! 7 \<noteq> 1) \<or> (snd best = 5 \<and> words ! 5 = 0xffff))
        then (case inet_ntop4 (drop 12 src) (replicate (46 - length out) 0) (46 - length out) of
            (Ok err, text) \<Rightarrow> if err \<noteq> 0 then Fail else Ok (out @ takeWhile (\<lambda>c. c \<noteq> 0) text)
          | (_, text) \<Rightarrow> Undef)
        else bind_out (put6 (hexadecimal (unat (words ! i))) out) (\<lambda>out.
          bind_out (if length out < UV__INET6_ADDRSTRLEN then Ok out else Undef) (\<lambda>out.
          format6 src words best (i + 1) out))))"
  by pat_completeness auto
termination by (relation "measure (\<lambda>(src, words, best, i, out). 8 - i)") auto

declare format6.simps [simp del]

definition inet_ntop6 :: "byte list \<Rightarrow> byte list \<Rightarrow> nat \<Rightarrow> int outcome \<times> byte list" where
  "inet_ntop6 src dst sz =
     (if length src < 16 then (Undef, dst)
      else let words = words_of src; best = best_run words
        in case bind_out (format6 src words best 0 []) (\<lambda>out.
             bind_out (if fst best \<noteq> -1 \<and> fst best + int (snd best) = 8 then put6 [58] out else Ok out) (put6 [0])) of
             Ok tmp \<Rightarrow> seq_ok (uv__strscpy dst tmp sz) (\<lambda>r dst. (Ok (if r = UV_E2BIG then UV_ENOSPC else 0), dst))
           | Fail \<Rightarrow> (Ok UV_ENOSPC, dst)
           | Undef \<Rightarrow> (Undef, dst))"

section \<open>Parsing\<close>

text \<open>\<open>Fail\<close> is the return of \<^verbatim>\<open>UV_EINVAL\<close>; \<open>tmp\<close> ends at \<^verbatim>\<open>tp\<close>.\<close>

fun pton4_loop :: "byte list \<Rightarrow> byte list \<Rightarrow> bool \<Rightarrow> nat \<Rightarrow> (byte list \<times> nat) outcome" where
  "pton4_loop [] tmp saw_digit octets = Undef"
| "pton4_loop (ch # src) tmp saw_digit octets =
     (if ch = 0 then Ok (tmp, octets)
      else case strchr_index digits ch of
        Some pch \<Rightarrow>
          let nw = ucast (List.last tmp) * 10 + of_nat pch :: u32
          in if saw_digit \<and> List.last tmp = 0 then Fail
             else if 255 < nw then Fail
             else let tmp = butlast tmp @ [ucast nw]
               in if \<not> saw_digit
                  then if 4 < octets + 1 then Fail else pton4_loop src tmp True (octets + 1)
                  else pton4_loop src tmp saw_digit octets
      | None \<Rightarrow>
          if ch = 46 \<and> saw_digit
          then if octets = 4 then Fail
               else if 4 \<le> length tmp then Undef else pton4_loop src (tmp @ [0]) False octets
          else Fail)"

definition inet_pton4 :: "byte list \<Rightarrow> byte list outcome" where
  "inet_pton4 src = bind_out (pton4_loop src [0] False 0) (\<lambda>(tmp, octets).
     if octets < 4 then Fail else if length tmp = 4 then Ok tmp else Undef)"

definition xdigit :: "byte \<Rightarrow> nat option" where
  "xdigit ch = (case strchr_index xdigits_l ch of Some k \<Rightarrow> Some k | None \<Rightarrow> strchr_index xdigits_u ch)"

definition word_bytes :: "u32 \<Rightarrow> byte list" where
  "word_bytes val = [ucast (drop_bit 8 val) AND 0xff, ucast val AND 0xff]"

fun pton6_loop :: "byte list \<Rightarrow> byte list \<Rightarrow> byte list \<Rightarrow> nat option \<Rightarrow> nat \<Rightarrow> u32 \<Rightarrow> (byte list \<times> nat option \<times> nat \<times> u32) outcome" where
  "pton6_loop [] curtok tmp colonp seen_xdigits val = Undef"
| "pton6_loop (ch # src) curtok tmp colonp seen_xdigits val =
     (if ch = 0 then Ok (tmp, colonp, seen_xdigits, val)
      else case xdigit ch of
        Some k \<Rightarrow>
          if 4 < seen_xdigits + 1 then Fail
          else pton6_loop src curtok tmp colonp (seen_xdigits + 1) (push_bit 4 val OR of_nat k)
      | None \<Rightarrow>
          if ch = 58
          then if seen_xdigits = 0
               then if colonp \<noteq> None then Fail else pton6_loop src src tmp (Some (length tmp)) seen_xdigits val
               else if src = [] then Undef
               else if hd src = 0 then Fail
               else if 16 < length tmp + 2 then Fail
               else pton6_loop src src (tmp @ word_bytes val) colonp 0 0
          else if ch = 46 \<and> length tmp + 4 \<le> 16
          then bind_out (inet_pton4 curtok) (\<lambda>quad. Ok (tmp @ quad, colonp, 0, val))
          else Fail)"

definition shift_byte :: "nat \<Rightarrow> nat \<Rightarrow> nat \<Rightarrow> byte list \<Rightarrow> byte list" where
  "shift_byte c n i t = (t[16 - i := t ! (c + n - i)])[c + n - i := 0]"

definition inet_pton6 :: "byte list \<Rightarrow> byte list outcome" where
  "inet_pton6 src =
     (case src of [] \<Rightarrow> Undef
      | ch # src1 \<Rightarrow> bind_out (if ch = 58 then if src1 = [] then Undef else if hd src1 \<noteq> 58 then Fail else Ok src1 else Ok src) (\<lambda>src.
        bind_out (pton6_loop src src [] None 0 0) (\<lambda>(tmp, colonp, seen_xdigits, val).
        bind_out (if seen_xdigits \<noteq> 0 then if 16 < length tmp + 2 then Fail else Ok (tmp @ word_bytes val) else Ok tmp) (\<lambda>tmp.
        case colonp of
          Some c \<Rightarrow>
            if length tmp = 16 then Fail
            else Ok (fold (shift_byte c (length tmp - c)) [1..<length tmp - c + 1] (tmp @ replicate (16 - length tmp) 0))
        | None \<Rightarrow> if length tmp \<noteq> 16 then Fail else Ok tmp))))"

section \<open>The interface\<close>

abbreviation AF_INET :: int where "AF_INET \<equiv> 2"
abbreviation AF_INET6 :: int where "AF_INET6 \<equiv> 30"

definition uv_inet_ntop :: "int \<Rightarrow> byte list \<Rightarrow> byte list \<Rightarrow> nat \<Rightarrow> int outcome \<times> byte list" where
  "uv_inet_ntop af src dst sz =
     (if af = AF_INET then inet_ntop4 src dst sz
      else if af = AF_INET6 then inet_ntop6 src dst sz
      else (Ok UV_EAFNOSUPPORT, dst))"

text \<open>The copy of a result to \<^verbatim>\<open>dst\<close>.\<close>

definition store_addr :: "byte list outcome \<Rightarrow> byte list \<Rightarrow> int outcome \<times> byte list" where
  "store_addr r dst = (case r of
      Ok bs \<Rightarrow> if length bs \<le> length dst then (Ok 0, bs @ drop (length bs) dst) else (Undef, dst)
    | Fail \<Rightarrow> (Ok UV_EINVAL, dst)
    | Undef \<Rightarrow> (Undef, dst))"

text \<open>The distance to the percent sign is converted to a 32-bit \<^verbatim>\<open>int\<close>. A negative length is an enormous one for \<^verbatim>\<open>memcpy\<close>.\<close>

definition uv_inet_pton :: "int \<Rightarrow> byte list option \<Rightarrow> byte list option \<Rightarrow> int outcome \<times> byte list option" where
  "uv_inet_pton af src dst = (case (src, dst) of
      (Some s, Some d) \<Rightarrow>
        let stored = (\<lambda>r. case store_addr r d of (v, d) \<Rightarrow> (v, Some d))
        in if af = AF_INET then stored (inet_pton4 s)
           else if af = AF_INET6
           then if 0 \<notin> set s then (Undef, dst)
                else let str = takeWhile (\<lambda>c. c \<noteq> 0) s
                  in if 37 \<in> set str
                     then let head = takeWhile (\<lambda>c. c \<noteq> 37) str; len = sint (of_nat (length head) :: u32)
                          in if int UV__INET6_ADDRSTRLEN - 1 < len then (Ok UV_EINVAL, dst)
                             else if len < 0 then (Undef, dst)
                             else stored (inet_pton6 (take (nat len) head @ [0]))
                     else stored (inet_pton6 s)
           else (Ok UV_EAFNOSUPPORT, dst)
    | _ \<Rightarrow> (Ok UV_EINVAL, dst))"

end
