(* ===== verification/Uv_Inet_Laws.thy ===== *)
theory Uv_Inet_Laws
  imports Uv_Inet
begin

text \<open>
  Internet addresses go from bytes to text and back: what the printers write is parsed to the address it was printed from, the
  parsers read no further than the terminator, and a buffer that is too small is refused.
\<close>

lemma takeWhile_stop: "z \<notin> set t \<Longrightarrow> takeWhile (\<lambda>c. c \<noteq> z) (t @ z # xs) = t"
  by (induction t) auto

section \<open>Copying\<close>

lemma strscpy_fits:
  assumes s: "s = t @ 0 # junk" and t: "0 \<notin> set t" and n: "length t < n" "length t < length d" "length t \<le> SSIZE_MAX"
  shows "uv__strscpy d s n = (Ok (int (length t)), t @ 0 # drop (Suc (length t)) d)"
proof -
  have "strscpy_loop i (take i t @ drop i d) s n = (Ok (int (length t)), t @ 0 # drop (Suc (length t)) d)" if "i \<le> length t" for i
    using that
  proof (induction "length t - i" arbitrary: i)
    case 0
    have "(t @ drop i d)[i := 0] = t @ 0 # drop (Suc i) d" using 0 n by (simp add: list_update_append Cons_nth_drop_Suc [symmetric])
    then show ?case using 0 s n by (subst strscpy_loop.simps) (simp add: Let_def nth_append)
  next
    case (Suc k)
    have i: "i < length t" using Suc.hyps(2) by simp
    have si: "s ! i = t ! i" "t ! i \<noteq> 0" using i s t by (auto simp: nth_append dest: nth_mem)
    have d: "(take i t @ drop i d)[i := t ! i] = take (Suc i) t @ drop (Suc i) d"
      using i n by (simp add: list_update_append Cons_nth_drop_Suc [symmetric] take_Suc_conv_app_nth)
    have "strscpy_loop i (take i t @ drop i d) s n = strscpy_loop (i + 1) (take (Suc i) t @ drop (Suc i) d) s n"
      using i n s si d by (subst strscpy_loop.simps) (simp add: Let_def nth_append)
    then show ?case using Suc.hyps(1) [of "Suc i"] Suc.hyps(2) i by simp
  qed
  from this [of 0] show ?thesis by (simp add: uv__strscpy_def)
qed

lemma strscpy_cut:
  assumes s: "s = t @ junk" and t: "0 \<notin> set t" and n: "0 < n" "n \<le> length t" "n \<le> length d"
  shows "uv__strscpy d s n = (Ok UV_E2BIG, take (n - 1) t @ 0 # drop n d)"
proof -
  have "strscpy_loop i (take i t @ drop i d) s n = (Ok UV_E2BIG, take (n - 1) t @ 0 # drop n d)" if "i \<le> n" for i
    using that
  proof (induction "n - i" arbitrary: i)
    case 0
    have "take n t = take (n - 1) t @ [t ! (n - 1)]" using n take_Suc_conv_app_nth [of "n - 1" t] by simp
    then have "(take n t @ drop n d)[n - 1 := 0] = take (n - 1) t @ 0 # drop n d" using n by (simp add: list_update_append)
    then show ?case using 0 n by (subst strscpy_loop.simps) simp
  next
    case (Suc k)
    have i: "i < n" using Suc.hyps(2) by simp
    have it: "i < length t" using i n by simp
    then have si: "s ! i = t ! i" "t ! i \<noteq> 0" using s t by (auto simp: nth_append dest: nth_mem)
    have d: "(take i t @ drop i d)[i := t ! i] = take (Suc i) t @ drop (Suc i) d"
      using i n by (simp add: list_update_append Cons_nth_drop_Suc [symmetric] take_Suc_conv_app_nth)
    have "strscpy_loop i (take i t @ drop i d) s n = strscpy_loop (i + 1) (take (Suc i) t @ drop (Suc i) d) s n"
      using i n s si d by (subst strscpy_loop.simps) (simp add: Let_def nth_append)
    then show ?case using Suc.hyps(1) [of "Suc i"] Suc.hyps(2) i by simp
  qed
  from this [of 0] show ?thesis by (simp add: uv__strscpy_def)
qed

section \<open>Digits\<close>

lemma digit_index: "d < 10 \<Longrightarrow> strchr_index digits (of_nat (48 + d)) = Some d"
  by (rule all_below [of 10]) code_simp

lemma xdigit_index: "d < 16 \<Longrightarrow> xdigit (hex_digit d) = Some d"
  by (rule all_below [of 16]) code_simp

lemma digit_chars: "d < 10 \<Longrightarrow> of_nat (48 + d) \<notin> {0 :: byte, 37, 46, 58}"
  by (rule all_below [of 10]) code_simp

lemma hex_chars: "d < 16 \<Longrightarrow> hex_digit d \<notin> {0 :: byte, 37, 46, 58}"
  by (rule all_below [of 16]) code_simp

lemma digit_is_hex: "d < 10 \<Longrightarrow> of_nat (48 + d) = hex_digit d"
  by (simp add: hex_digit_def)

lemma decimal_chars: "set (decimal n) \<inter> {0, 37, 46, 58} = {}"
proof (induction n rule: decimal.induct)
  case (1 n)
  have "of_nat (48 + n mod 10) \<notin> {0 :: byte, 37, 46, 58}" by (rule digit_chars) simp
  then show ?case using 1 digit_chars [of n] by (cases "n < 10") (auto simp: decimal.simps [of n])
qed

lemma hexadecimal_chars: "set (hexadecimal n) \<inter> {0, 37, 46, 58} = {}"
proof (induction n rule: hexadecimal.induct)
  case (1 n)
  have "hex_digit (n mod 16) \<notin> {0 :: byte, 37, 46, 58}" by (rule hex_chars) simp
  then show ?case using 1 hex_chars [of n] by (cases "n < 16") (auto simp: hexadecimal.simps [of n])
qed

lemma decimal_length: "n < 10 ^ Suc k \<Longrightarrow> length (decimal n) \<le> Suc k \<and> decimal n \<noteq> []"
proof (induction k arbitrary: n)
  case 0
  then show ?case by (simp add: decimal.simps)
next
  case (Suc k)
  have "n div 10 < 10 ^ Suc k" using Suc.prems by (simp add: div_less_iff_less_mult)
  then show ?case using Suc.IH [of "n div 10"] by (simp add: decimal.simps [of n])
qed

lemma hexadecimal_length: "n < 16 ^ Suc k \<Longrightarrow> length (hexadecimal n) \<le> Suc k \<and> hexadecimal n \<noteq> []"
proof (induction k arbitrary: n)
  case 0
  then show ?case by (simp add: hexadecimal.simps)
next
  case (Suc k)
  have "n div 16 < 16 ^ Suc k" using Suc.prems by (simp add: div_less_iff_less_mult)
  then show ?case using Suc.IH [of "n div 16"] by (simp add: hexadecimal.simps [of n])
qed

section \<open>Four numbers\<close>

lemma pton4_digit:
  assumes d: "d < 10" and b: "10 * unat b + d < 256" and saw: "saw \<longrightarrow> b \<noteq> 0" and oc: "\<not> saw \<longrightarrow> oc < 4"
  shows "pton4_loop (of_nat (48 + d) # rest) (tmp @ [b]) saw oc = pton4_loop rest (tmp @ [of_nat (10 * unat b + d)]) True (if saw then oc else oc + 1)"
proof -
  have nz: "(of_nat (48 + d) :: byte) \<noteq> 0" using digit_chars [OF d] by auto
  define nw :: u32 where "nw = ucast b * 10 + of_nat d"
  have "nw = of_nat (10 * unat b + d)" by (simp add: nw_def word_unat_eq_iff unat_ucast_up mult.commute)
  then have u: "unat nw = 10 * unat b + d" using b by (simp add: unat_of_nat del: of_nat_add of_nat_mult)
  then have le: "\<not> 255 < nw" using b by (simp add: word_less_nat_alt)
  have "(ucast nw :: byte) = of_nat (10 * unat b + d)" using u by (simp add: word_unat_eq_iff unat_ucast_down unat_of_nat del: of_nat_add of_nat_mult)
  then show ?thesis using nz le saw oc digit_index [OF d] by (cases saw) (simp_all add: Let_def nw_def [symmetric] del: of_nat_add of_nat_mult)
qed

lemma pton4_number:
  assumes "n < 256" "oc < 4"
  shows "pton4_loop (decimal n @ rest) (tmp @ [0]) False oc = pton4_loop rest (tmp @ [of_nat n]) True (oc + 1)"
  using assms
proof (induction n arbitrary: rest rule: decimal.induct)
  case (1 n)
  show ?case
  proof (cases "n < 10")
    case True
    then show ?thesis using pton4_digit [of n 0 False oc rest tmp] "1.prems" by (simp add: decimal.simps [of n])
  next
    case False
    let ?q = "n div 10"
    have q: "unat (of_nat ?q :: byte) = ?q" using "1.prems"(1) by (simp add: unat_of_nat)
    then have nz: "(of_nat ?q :: byte) \<noteq> 0" using False by (metis div_eq_0_iff unat_0 zero_neq_numeral)
    have "pton4_loop (decimal n @ rest) (tmp @ [0]) False oc = pton4_loop (of_nat (48 + n mod 10) # rest) (tmp @ [of_nat ?q]) True (oc + 1)"
      using "1.IH" [OF False, of "of_nat (48 + n mod 10) # rest"] "1.prems" False by (simp add: decimal.simps [of n])
    also have "\<dots> = pton4_loop rest (tmp @ [of_nat (10 * unat (of_nat ?q :: byte) + n mod 10)]) True (oc + 1)"
      using pton4_digit [of "n mod 10" "of_nat ?q" True "oc + 1" rest tmp] nz "1.prems" unfolding q by simp
    finally show ?thesis unfolding q by simp
  qed
qed

lemma pton4_dot:
  assumes "length tmp < 4" "oc \<noteq> 4"
  shows "pton4_loop (46 # rest) tmp True oc = pton4_loop rest (tmp @ [0]) False oc"
  using assms by (simp add: digits_def)

lemma pton4_quad:
  assumes "length src = 4"
  shows "inet_pton4 (quad_text src @ 0 # junk) = Ok src"
proof -
  obtain a b c d where src: "src = [a, b, c, d]" using assms by (auto simp: numeral_eq_Suc length_Suc_conv)
  have num: "pton4_loop (decimal (unat x) @ rest) (tmp @ [0]) False oc = pton4_loop rest (tmp @ [x]) True (oc + 1)" if "oc < 4" for x tmp oc rest
    using pton4_number [of "unat x" oc rest tmp] that by simp
  have q: "quad_text src @ 0 # junk = decimal (unat a) @ 46 # decimal (unat b) @ 46 # decimal (unat c) @ 46 # decimal (unat d) @ 0 # junk"
    by (simp add: quad_text_def src)
  have "pton4_loop (quad_text src @ 0 # junk) ([] @ [0]) False 0 =
      pton4_loop (46 # decimal (unat b) @ 46 # decimal (unat c) @ 46 # decimal (unat d) @ 0 # junk) ([] @ [a]) True (0 + 1)"
    unfolding q by (rule num) simp
  also have "\<dots> = pton4_loop (decimal (unat b) @ 46 # decimal (unat c) @ 46 # decimal (unat d) @ 0 # junk) ([a] @ [0]) False 1"
    by (subst pton4_dot) simp_all
  also have "\<dots> = pton4_loop (46 # decimal (unat c) @ 46 # decimal (unat d) @ 0 # junk) [a, b] True 2"
    by (subst num) (simp_all add: numeral_2_eq_2 del: pton4_loop.simps)
  also have "\<dots> = pton4_loop (decimal (unat c) @ 46 # decimal (unat d) @ 0 # junk) ([a, b] @ [0]) False 2"
    by (subst pton4_dot) simp_all
  also have "\<dots> = pton4_loop (46 # decimal (unat d) @ 0 # junk) [a, b, c] True 3"
    by (subst num) (simp_all del: pton4_loop.simps)
  also have "\<dots> = pton4_loop (decimal (unat d) @ 0 # junk) ([a, b, c] @ [0]) False 3"
    by (subst pton4_dot) simp_all
  also have "\<dots> = Ok (src, 4)"
    by (subst num) (simp_all add: src)
  finally have "pton4_loop (quad_text src @ 0 # junk) [0] False 0 = Ok (src, 4)" by simp
  then show ?thesis using assms by (simp add: inet_pton4_def)
qed

lemma quad_text_length: "length (quad_text src) \<le> 15 \<and> quad_text src \<noteq> []"
proof -
  have "length (decimal (unat (b :: byte))) \<le> 3 \<and> decimal (unat b) \<noteq> []" for b
  proof -
    have "unat b < 10 ^ Suc 2" using byte_lt_256 [of b] by (simp del: byte_lt_256)
    then show ?thesis using decimal_length [of "unat b" 2] by simp
  qed
  then have "length (decimal (unat (src ! 0))) \<le> 3" "length (decimal (unat (src ! 1))) \<le> 3" "length (decimal (unat (src ! 2))) \<le> 3"
      "length (decimal (unat (src ! 3))) \<le> 3" by blast+
  then show ?thesis by (simp add: quad_text_def)
qed

lemma quad_text_chars: "set (quad_text src) \<inter> {0, 37, 58} = {}"
  using decimal_chars by (fastforce simp: quad_text_def)

lemma ntop4_exact:
  assumes "4 \<le> length src" "length dst = sz"
  shows "inet_ntop4 src dst sz = (if length (quad_text src) < sz then (Ok 0, quad_text src @ 0 # drop (Suc (length (quad_text src))) dst)
    else (Ok UV_ENOSPC, dst))"
proof -
  let ?t = "quad_text src"
  have l: "length ?t \<le> 15" "?t \<noteq> []" "0 \<notin> set ?t" using quad_text_length [of src] quad_text_chars [of src] by auto
  have "uv__strscpy dst (?t @ [0]) sz = (Ok (int (length ?t)), ?t @ 0 # drop (Suc (length ?t)) dst)" if "length ?t < sz"
    by (rule strscpy_fits [OF refl l(3) that]) (use that assms l in simp_all)
  then show ?thesis using assms l by (simp add: inet_ntop4_def Let_def)
qed

section \<open>Eight groups\<close>

lemma words_of_list:
  "words_of (a0 # a1 # a2 # a3 # a4 # a5 # a6 # a7 # a8 # a9 # a10 # a11 # a12 # a13 # a14 # a15 # rest) =
    [ucast a1 OR push_bit 8 (ucast a0), ucast a3 OR push_bit 8 (ucast a2), ucast a5 OR push_bit 8 (ucast a4), ucast a7 OR push_bit 8 (ucast a6),
     ucast a9 OR push_bit 8 (ucast a8), ucast a11 OR push_bit 8 (ucast a10), ucast a13 OR push_bit 8 (ucast a12), ucast a15 OR push_bit 8 (ucast a14)]"
proof -
  have "replicate 8 0 = [0, 0, 0, 0, 0, 0, 0, 0 :: u32]" by (simp add: numeral_eq_Suc)
  then show ?thesis by (simp add: words_of_def upt_rec or.commute)
qed

lemma unat_group: "unat (ucast (b :: byte) OR push_bit 8 (ucast (a :: byte)) :: u32) = unat b + unat a * 256"
proof -
  have u: "unat (ucast b :: u32) = unat b" "unat (ucast a :: u32) = unat a" by (simp_all add: unat_ucast_up)
  have "unat (ucast b :: u32) < 2 ^ 8" unfolding u by simp
  have "unat a * 2 ^ 8 < 2 ^ 32" using byte_lt_256 [of a] by (simp del: byte_lt_256)
  note this [unfolded u] \<open>unat (ucast b :: u32) < 2 ^ 8\<close>
  from unat_or_push_bit [OF this(2), of "ucast a"] this(1) show ?thesis unfolding u by simp
qed

lemma length_word_bytes [simp]: "length (word_bytes w) = 2"
  by (simp add: word_bytes_def)

lemma word_bytes_nat: "word_bytes w = [of_nat (unat w div 256), of_nat (unat w mod 256)]"
proof -
  have "(0xff :: byte) = -1" by simp
  then have m: "x AND 0xff = x" for x :: byte by (simp only: bit.conj_one_right)
  show ?thesis unfolding word_bytes_def m by (simp add: word_unat_eq_iff unat_ucast_down unat_drop_bit_div unat_of_nat del: of_nat_mod)
qed

lemma word_bytes_group: "word_bytes (ucast b OR push_bit 8 (ucast a)) = [a, b]"
proof -
  have "unat b < 256" by simp
  then have "(unat b + unat a * 256) div 256 = unat a" "(unat b + unat a * 256) mod 256 = unat b" by simp_all
  then show ?thesis unfolding word_bytes_nat unat_group by simp
qed

lemma words_of_bytes:
  assumes "length src = 16"
  shows "length (words_of src) = 8" "concat (map word_bytes (words_of src)) = src" "\<forall>w\<in>set (words_of src). unat w < 65536"
proof -
  obtain a0 a1 a2 a3 a4 a5 a6 a7 a8 a9 a10 a11 a12 a13 a14 a15 where
    src: "src = [a0, a1, a2, a3, a4, a5, a6, a7, a8, a9, a10, a11, a12, a13, a14, a15]"
    using assms by (auto simp: numeral_eq_Suc length_Suc_conv)
  show "length (words_of src) = 8" unfolding src words_of_list by simp
  show "concat (map word_bytes (words_of src)) = src" unfolding src words_of_list by (simp add: word_bytes_group)
  have "unat b + unat a * 256 < 65536" for a b :: byte using byte_lt_256 [of a] byte_lt_256 [of b] by linarith
  then show "\<forall>w\<in>set (words_of src). unat w < 65536" unfolding src words_of_list by (simp add: unat_group)
qed

text \<open>The run of zero groups that is left out.\<close>

definition zero_run :: "u32 list \<Rightarrow> nat \<Rightarrow> run \<Rightarrow> bool" where
  "zero_run words m r \<longleftrightarrow> fst r = -1 \<or> (\<exists>b. fst r = int b \<and> b + snd r \<le> m \<and> (\<forall>i. b \<le> i \<longrightarrow> i < b + snd r \<longrightarrow> words ! i = 0))"

lemma scan_runs:
  "case fold (scan_run words) [0..<m] ((-1, 0), (-1, 0)) of (best, cur) \<Rightarrow>
     zero_run words m best \<and> zero_run words m cur \<and> (fst cur \<noteq> -1 \<longrightarrow> fst cur + int (snd cur) = int m)"
proof (induction m)
  case 0
  then show ?case by (simp add: zero_run_def)
next
  case (Suc m)
  obtain best cur where st: "fold (scan_run words) [0..<m] ((-1, 0), (-1, 0)) = (best, cur)" by (rule prod.exhaust)
  have inv: "zero_run words m best" "zero_run words m cur" "fst cur \<noteq> -1 \<longrightarrow> fst cur + int (snd cur) = int m" using Suc st by simp_all
  have mono: "zero_run words m r \<Longrightarrow> zero_run words (Suc m) r" for r unfolding zero_run_def by (metis le_SucI)
  have fold: "fold (scan_run words) [0..<Suc m] ((-1, 0), (-1, 0)) = scan_run words m (best, cur)" using st by simp
  show ?case
  proof (cases "words ! m = 0")
    case False
    have none: "zero_run words (Suc m) (-1, k)" for k by (simp add: zero_run_def)
    show ?thesis unfolding fold using False none mono [OF inv(1)] mono [OF inv(2)] by (simp add: scan_run_def)
  next
    case True
    show ?thesis
    proof (cases "fst cur = -1")
      case new: True
      have "zero_run words (Suc m) (int m, 1)" using True by (auto simp: zero_run_def le_less_Suc_eq)
      then show ?thesis unfolding fold using new True mono [OF inv(1)] by (simp add: scan_run_def)
    next
      case False
      then obtain b where b: "fst cur = int b" "b + snd cur \<le> m" "\<forall>i. b \<le> i \<longrightarrow> i < b + snd cur \<longrightarrow> words ! i = 0"
        using inv(2) by (auto simp: zero_run_def)
      have m: "b + snd cur = m" using inv(3) False b(1) by linarith
      then have "words ! i = 0" if "b \<le> i" "i < b + (snd cur + 1)" for i using b(3) that True by (cases "i = m") auto
      then have "zero_run words (Suc m) (fst cur, snd cur + 1)" using b(1) m by (auto simp: zero_run_def)
      then show ?thesis unfolding fold using False True mono [OF inv(1)] inv(3) by (simp add: scan_run_def)
    qed
  qed
qed

lemma best_run_cases:
  obtains "fst (best_run words) = -1"
  | b l where "best_run words = (int b, l)" "2 \<le> l" "b + l \<le> 8" "\<And>i. b \<le> i \<Longrightarrow> i < b + l \<Longrightarrow> words ! i = 0"
proof -
  obtain best cur where st: "fold (scan_run words) [0..<8] ((-1, 0), (-1, 0)) = (best, cur)" by (rule prod.exhaust)
  then have inv: "zero_run words 8 best" "zero_run words 8 cur" using scan_runs [of words 8] by simp_all
  define r where "r = (if fst cur \<noteq> -1 \<and> (fst best = -1 \<or> snd best < snd cur) then cur else best)"
  have r: "zero_run words 8 r" using inv by (simp add: r_def)
  have eq: "best_run words = (if fst r \<noteq> -1 \<and> snd r < 2 then (-1, snd r) else r)" by (simp add: best_run_def st r_def Let_def)
  show thesis
  proof (cases "fst r = -1 \<or> snd r < 2")
    case True
    then show ?thesis using that(1) eq by auto
  next
    case False
    then obtain b where b: "fst r = int b" "b + snd r \<le> 8" "\<forall>i. b \<le> i \<longrightarrow> i < b + snd r \<longrightarrow> words ! i = 0"
      using r by (auto simp: zero_run_def)
    have "best_run words = (int b, snd r)" using eq False b(1) by (cases r) simp
    then show ?thesis using that(2) [of b "snd r"] b False by simp
  qed
qed

section \<open>The text of eight groups\<close>

definition colons :: "u32 list \<Rightarrow> byte list" where
  "colons ws = concat (map (\<lambda>w. 58 # hexadecimal (unat w)) ws)"

lemma colons_simps [simp]:
  "colons [] = []" "colons (w # ws) = 58 # hexadecimal (unat w) @ colons ws" "colons (ws @ vs) = colons ws @ colons vs"
  by (simp_all add: colons_def)

definition in_run :: "run \<Rightarrow> nat \<Rightarrow> bool" where
  "in_run best i \<longleftrightarrow> fst best \<noteq> -1 \<and> fst best \<le> int i \<and> int i < fst best + int (snd best)"

definition embeds :: "u32 list \<Rightarrow> run \<Rightarrow> bool" where
  "embeds words best \<longleftrightarrow> fst best = 0 \<and> (snd best = 6 \<or> (snd best = 7 \<and> words ! 7 \<noteq> 1) \<or> (snd best = 5 \<and> words ! 5 = 0xffff))"

lemma group_length: "unat w < 65536 \<Longrightarrow> length (hexadecimal (unat w)) \<le> 4 \<and> hexadecimal (unat w) \<noteq> []" for w :: u32
  using hexadecimal_length [of "unat w" 3] by simp

lemma format_group:
  assumes "i < 8" "\<not> in_run best i" "\<not> (i = 6 \<and> embeds words best)" "unat (words ! i) < 65536" "length out \<le> 5 * i"
  shows "format6 src words best i out = format6 src words best (i + 1) (out @ (if i = 0 then [] else [58]) @ hexadecimal (unat (words ! i)))"
proof -
  have "length out + 6 \<le> 46" using assms(1,5) by linarith
  then show ?thesis using assms(1-3) group_length [OF assms(4)]
    by (subst format6.simps) (auto simp: put6_def in_run_def embeds_def)
qed

lemma format_groups:
  assumes "1 \<le> i" "i \<le> m" "m \<le> 8" "\<And>j. i \<le> j \<Longrightarrow> j < m \<Longrightarrow> \<not> in_run best j" "i \<le> 6 \<Longrightarrow> 6 < m \<Longrightarrow> \<not> embeds words best" "\<forall>w\<in>set words. unat w < 65536"
    "length words = 8" "length out \<le> 5 * i"
  shows "format6 src words best i out = format6 src words best m (out @ colons (take (m - i) (drop i words)))"
  using assms
proof (induction "m - i" arbitrary: i out)
  case 0
  then show ?case by simp
next
  case (Suc k)
  have i: "i < m" "i < 8" using Suc.hyps(2) Suc.prems(3) by simp_all
  have w: "unat (words ! i) < 65536" using Suc.prems(6,7) i by (auto dest: nth_mem)
  have "take (m - i) (drop i words) = words ! i # take (m - (i + 1)) (drop (i + 1) words)"
    using i Suc.prems(7) by (simp add: Cons_nth_drop_Suc [symmetric] Suc_diff_Suc [symmetric])
  moreover have "format6 src words best i out = format6 src words best (i + 1) (out @ 58 # hexadecimal (unat (words ! i)))"
    using format_group [OF i(2) Suc.prems(4) _ w Suc.prems(8)] Suc.prems(1,5) i by simp
  moreover have "\<dots> = format6 src words best m ((out @ 58 # hexadecimal (unat (words ! i))) @ colons (take (m - (i + 1)) (drop (i + 1) words)))"
    by (rule Suc.hyps(1)) (use Suc.hyps(2) Suc.prems i group_length [OF w] in auto)
  ultimately show ?case by simp
qed

lemma format_run:
  assumes "fst best = int b" "b < i" "i \<le> b + snd best" "b + snd best \<le> 8"
  shows "format6 src words best i out = format6 src words best (b + snd best) out"
  using assms
proof (induction "b + snd best - i" arbitrary: i)
  case (Suc k)
  have "int i < int b + int (snd best)" "i < 8" using Suc.prems Suc.hyps(2) by linarith+
  then have "format6 src words best i out = format6 src words best (i + 1) out"
    using Suc.prems by (subst format6.simps) simp
  then show ?case using Suc.hyps(1) [of "i + 1"] Suc.prems Suc.hyps(2) by simp
qed simp

text \<open>Without a run, with a run, and with an embedded address of version 4.\<close>

lemma format_plain:
  assumes "fst best = -1" "\<forall>w\<in>set words. unat w < 65536" "length words = 8"
  shows "format6 src words best 0 [] = Ok (tl (colons words))"
proof -
  have no: "\<not> in_run best j" "\<not> embeds words best" for j using assms(1) by (simp_all add: in_run_def embeds_def)
  have w: "unat (words ! 0) < 65536" using assms(2,3) by (auto dest: nth_mem)
  have "format6 src words best 0 [] = format6 src words best 1 (hexadecimal (unat (words ! 0)))"
    using format_group [of 0 best words "[]"] no w by simp
  also have "\<dots> = format6 src words best 8 (hexadecimal (unat (words ! 0)) @ colons (take 7 (drop 1 words)))"
    using format_groups [of 1 8 best words "hexadecimal (unat (words ! 0))"] no assms group_length [OF w] by simp
  also have "\<dots> = Ok (hexadecimal (unat (words ! 0)) @ colons (drop 1 words))" using assms(3) by (subst format6.simps) simp
  also have "hexadecimal (unat (words ! 0)) @ colons (drop 1 words) = tl (colons words)" using assms(3) by (cases words) auto
  finally show ?thesis .
qed

lemma format_omit:
  assumes best: "best = (int b, l)" "2 \<le> l" "b + l \<le> 8" and ne: "b + l \<le> 6 \<Longrightarrow> \<not> embeds words best" and w: "\<forall>w\<in>set words. unat w < 65536" "length words = 8"
  shows "format6 src words best 0 [] = Ok (tl (colons (take b words)) @ 58 # colons (drop (b + l) words))"
proof -
  have out: "\<not> in_run best j" if "j < b \<or> b + l \<le> j" for j using that best by (auto simp: in_run_def)
  have wn: "unat (words ! i) < 65536" if "i < 8" for i using w that by (auto dest: nth_mem)
  let ?h = "tl (colons (take b words))"
  have len: "length (colons ws) \<le> 5 * length ws" if "\<forall>w\<in>set ws. unat w < 65536" for ws
    using that by (induction ws) (use group_length in \<open>auto simp: add_le_mono\<close>)
  have hl: "length ?h \<le> 5 * b"
  proof -
    have "\<forall>w\<in>set (take b words). unat w < 65536" using w(1) by (auto dest: in_set_takeD)
    from len [OF this] have "length (colons (take b words)) \<le> 5 * b" by simp
    then show ?thesis by simp
  qed
  have "format6 src words best 0 [] = format6 src words best b ?h"
  proof (cases "b = 0")
    case False
    have "format6 src words best 0 [] = format6 src words best 1 (hexadecimal (unat (words ! 0)))"
      using format_group [of 0 best words "[]"] out [of 0] False wn [of 0] by simp
    also have "\<dots> = format6 src words best b (hexadecimal (unat (words ! 0)) @ colons (take (b - 1) (drop 1 words)))"
      by (rule format_groups) (use False best out w group_length [OF wn, of 0] in \<open>auto simp: embeds_def\<close>)
    also have "hexadecimal (unat (words ! 0)) @ colons (take (b - 1) (drop 1 words)) = ?h"
      using False w(2) by (cases words; cases b) auto
    finally show ?thesis .
  qed simp
  also have "\<dots> = format6 src words best (b + 1) (?h @ [58])"
    using best hl by (subst format6.simps) (simp add: put6_def)
  also have "\<dots> = format6 src words best (b + l) (?h @ [58])"
    using format_run [of best b "b + 1"] best by simp
  also have "\<dots> = format6 src words best 8 ((?h @ [58]) @ colons (take (8 - (b + l)) (drop (b + l) words)))"
    by (rule format_groups) (use best out ne w hl in auto)
  also have "\<dots> = Ok (?h @ 58 # colons (drop (b + l) words))" using w(2) by (subst format6.simps) simp
  finally show ?thesis .
qed

lemma format_embed:
  assumes "best = (0, l)" "l = 5 \<and> words ! 5 = 0xffff \<or> l = 6" "length src = 16" "length words = 8"
  shows "format6 src words best 0 [] = Ok ((if l = 5 then 58 # 58 # hexadecimal 0xffff @ [58] else [58, 58]) @ quad_text (drop 12 src))"
proof -
  let ?q = "quad_text (drop 12 src)"
  have q: "length ?q \<le> 15" "takeWhile (\<lambda>c. c \<noteq> 0) (?q @ 0 # xs) = ?q" for xs
    using quad_text_length [of "drop 12 src"] quad_text_chars [of "drop 12 src"] takeWhile_stop [of 0 ?q xs] by auto
  have quad: "format6 src words best 6 out = Ok (out @ 58 # ?q)" if "length out \<le> 6" for out
  proof -
    have "\<not> in_run best 6" "embeds words best" using assms(1,2) by (auto simp: in_run_def embeds_def)
    then show ?thesis using that assms(3) q ntop4_exact [of "drop 12 src" "replicate (45 - length out) 0" "45 - length out"]
      by (subst format6.simps) (auto simp: put6_def in_run_def embeds_def)
  qed
  have start: "format6 src words best 0 [] = format6 src words best l [58]"
  proof -
    have "format6 src words best 0 [] = format6 src words best 1 [58]" using assms(1,2) by (subst format6.simps) (auto simp: put6_def)
    then show ?thesis using format_run [of best 0 1 src words "[58]"] assms(1,2) by auto
  qed
  show ?thesis
  proof (cases "l = 6")
    case True
    then show ?thesis using start quad [of "[58]"] by simp
  next
    case False
    then have l: "l = 5" "words ! 5 = 0xffff" using assms(2) by auto
    have ff: "hexadecimal 0xffff = [102, 102, 102, 102]" by (simp add: hexadecimal.simps hex_digit_def)
    have "format6 src words best 5 [58] = format6 src words best 6 ([58] @ 58 # hexadecimal 0xffff)"
      using format_group [of 5 best words "[58]" src] assms(1) l by (simp add: in_run_def)
    then show ?thesis using start quad [of "[58] @ 58 # hexadecimal 0xffff"] l(1) ff by simp
  qed
qed

section \<open>Parsing groups\<close>

lemma hex_step:
  assumes "d < 16" "seen < 4"
  shows "pton6_loop (hex_digit d # rest) cur tmp col seen val = pton6_loop rest cur tmp col (seen + 1) (push_bit 4 val OR of_nat d)"
  using xdigit_index [OF assms(1)] hex_chars [OF assms(1)] assms(2) by simp

lemma hex_val:
  assumes "n < 65536"
  shows "push_bit 4 (of_nat (n div 16)) OR of_nat (n mod 16) = (of_nat n :: u32)"
proof -
  have u: "unat (of_nat (n div 16) :: u32) = n div 16" "unat (of_nat (n mod 16) :: u32) = n mod 16" using assms by (simp_all add: unat_of_nat)
  have "unat (of_nat (n mod 16) :: u32) < 2 ^ 4" unfolding u by simp
  from unat_or_push_bit [OF this, of "of_nat (n div 16)"]
  have "unat (of_nat (n mod 16) OR push_bit 4 (of_nat (n div 16)) :: u32) = n mod 16 + n div 16 * 16 mod 2 ^ 32" unfolding u by simp
  also have "n div 16 * 16 mod 2 ^ 32 = n div 16 * 16" using assms by simp
  finally have "unat (push_bit 4 (of_nat (n div 16)) OR of_nat (n mod 16) :: u32) = n" by (simp add: or.commute)
  then show ?thesis by (rule unat_eq_of_nat)
qed

lemma hex_number:
  assumes "n < 65536"
  shows "pton6_loop (hexadecimal n @ rest) cur tmp col 0 0 = pton6_loop rest cur tmp col (length (hexadecimal n)) (of_nat n)"
  using assms
proof (induction n arbitrary: rest rule: hexadecimal.induct)
  case (1 n)
  show ?case
  proof (cases "n < 16")
    case True
    then show ?thesis using hex_step [of n 0] by (simp add: hexadecimal.simps [of n])
  next
    case False
    have "n div 16 < 16 ^ Suc 2" using "1.prems" by (simp add: div_less_iff_less_mult)
    from hexadecimal_length [OF this] have l: "length (hexadecimal (n div 16)) < 4" by simp
    have "pton6_loop (hexadecimal n @ rest) cur tmp col 0 0 = pton6_loop (hex_digit (n mod 16) # rest) cur tmp col (length (hexadecimal (n div 16))) (of_nat (n div 16))"
      using "1.IH" [OF False, of "hex_digit (n mod 16) # rest"] "1.prems" False by (simp add: hexadecimal.simps [of n])
    also have "\<dots> = pton6_loop rest cur tmp col (length (hexadecimal (n div 16)) + 1) (of_nat n)"
      using hex_step [OF _ l] hex_val [OF "1.prems"] by simp
    finally show ?thesis using False by (simp add: hexadecimal.simps [of n])
  qed
qed

lemma colon_not_hex: "xdigit 58 = None" "xdigit 46 = None"
  by code_simp+

lemma colon_step:
  assumes "seen \<noteq> 0" "rest \<noteq> []" "hd rest \<noteq> 0" "length tmp + 2 \<le> 16"
  shows "pton6_loop (58 # rest) cur tmp col seen val = pton6_loop rest rest (tmp @ word_bytes val) col 0 0"
  using assms by (simp add: colon_not_hex)

lemma omit_step: "pton6_loop (58 # rest) cur tmp None 0 val = pton6_loop rest rest tmp (Some (length tmp)) 0 val"
  by (simp add: colon_not_hex)

lemma group_hd: "unat w < 65536 \<Longrightarrow> hd (hexadecimal (unat w) @ xs) \<noteq> 0" for w :: u32
  using group_length [of w] hexadecimal_chars [of "unat w"] by (cases "hexadecimal (unat w)") auto

text \<open>Groups that are followed by a colon, and groups that end the text.\<close>

lemma groups_colon:
  assumes "\<forall>v\<in>set (w # ws). unat v < 65536" "length tmp + 2 * length (w # ws) \<le> 16" "rest \<noteq> []" "hd rest \<noteq> 0"
  shows "pton6_loop (hexadecimal (unat w) @ colons ws @ 58 # rest) cur tmp col 0 0 =
    pton6_loop rest rest (tmp @ concat (map word_bytes (w # ws))) col 0 0"
  using assms
proof (induction ws arbitrary: w tmp cur)
  case Nil
  then show ?case using group_length [of w] by (simp add: hex_number colon_step del: pton6_loop.simps)
next
  case (Cons v ws)
  let ?r = "hexadecimal (unat v) @ colons ws @ 58 # rest"
  have w: "unat w < 65536" "unat v < 65536" using Cons.prems(1) by simp_all
  have "pton6_loop (hexadecimal (unat w) @ 58 # ?r) cur tmp col 0 0 = pton6_loop (58 # ?r) cur tmp col (length (hexadecimal (unat w))) w"
    using hex_number [OF w(1), of "58 # ?r"] by simp
  also have "\<dots> = pton6_loop ?r ?r (tmp @ word_bytes w) col 0 0"
    by (rule colon_step) (use group_length [OF w(1)] group_hd [OF w(2)] Cons.prems(2) in auto)
  also have "\<dots> = pton6_loop rest rest ((tmp @ word_bytes w) @ concat (map word_bytes (v # ws))) col 0 0"
    by (rule Cons.IH) (use Cons.prems in \<open>auto simp: word_bytes_def\<close>)
  finally show ?case by simp
qed

lemma groups_end:
  assumes "\<forall>v\<in>set (w # ws). unat v < 65536" "length tmp + 2 * length (w # ws) \<le> 16"
  shows "\<exists>t s v. pton6_loop (hexadecimal (unat w) @ colons ws @ 0 # junk) cur tmp col 0 0 = Ok (t, col, s, v) \<and> s \<noteq> 0 \<and>
    length t + 2 \<le> 16 \<and> t @ word_bytes v = tmp @ concat (map word_bytes (w # ws))"
proof (cases ws rule: rev_cases)
  case Nil
  have "pton6_loop (hexadecimal (unat w) @ 0 # junk) cur tmp col 0 0 = Ok (tmp, col, length (hexadecimal (unat w)), w)"
    using hex_number [of "unat w" "0 # junk"] assms(1) by simp
  then show ?thesis using Nil group_length [of w] assms by auto
next
  case (snoc vs v)
  have v: "unat v < 65536" using assms(1) snoc by simp
  let ?r = "hexadecimal (unat v) @ 0 # junk" and ?t = "tmp @ concat (map word_bytes (w # vs))"
  have "pton6_loop (hexadecimal (unat w) @ colons vs @ 58 # ?r) cur tmp col 0 0 = pton6_loop ?r ?r ?t col 0 0"
    by (rule groups_colon) (use assms snoc group_hd [OF v] in auto)
  also have "\<dots> = Ok (?t, col, length (hexadecimal (unat v)), v)" using hex_number [OF v, of "0 # junk" ?r] by simp
  finally have loop: "pton6_loop (hexadecimal (unat w) @ colons ws @ 0 # junk) cur tmp col 0 0 = Ok (?t, col, length (hexadecimal (unat v)), v)"
    using snoc by simp
  have "length (concat (map word_bytes xs)) = 2 * length xs" for xs by (induction xs) (simp_all add: word_bytes_def)
  then have "length ?t + 2 \<le> 16" using assms(2) snoc by simp
  then show ?thesis using loop group_length [OF v] snoc by auto
qed

text \<open>A dotted quad at the end: its first number is read as a group before the dot is seen.\<close>

lemma decimal_seen:
  assumes "n < 1000"
  shows "\<exists>s v. pton6_loop (decimal n @ rest) cur tmp col 0 0 = pton6_loop rest cur tmp col s v \<and> s = length (decimal n)"
  using assms
proof (induction n arbitrary: rest rule: decimal.induct)
  case (1 n)
  show ?case
  proof (cases "n < 10")
    case True
    then show ?thesis using hex_step [of n 0 rest cur tmp col 0] digit_is_hex [OF True] by (auto simp: decimal.simps [of n])
  next
    case False
    let ?c = "of_nat (48 + n mod 10) :: byte"
    have small: "n div 10 < 1000" using "1.prems" by simp
    have "n div 10 < 10 ^ Suc 1" using "1.prems" by (simp add: div_less_iff_less_mult)
    from decimal_length [OF this] have l: "length (decimal (n div 10)) < 4" by simp
    have c: "?c = hex_digit (n mod 10)" by (rule digit_is_hex) simp
    obtain v where "pton6_loop (decimal (n div 10) @ ?c # rest) cur tmp col 0 0 = pton6_loop (?c # rest) cur tmp col (length (decimal (n div 10))) v"
      using "1.IH" [OF False _, of "?c # rest"] small by blast
    also have "\<dots> = pton6_loop rest cur tmp col (length (decimal (n div 10)) + 1) (push_bit 4 v OR of_nat (n mod 10))"
      unfolding c by (rule hex_step [OF _ l]) simp
    finally have "pton6_loop (decimal n @ rest) cur tmp col 0 0 = pton6_loop rest cur tmp col (length (decimal n)) (push_bit 4 v OR of_nat (n mod 10))"
      using False by (simp add: decimal.simps [of n])
    then show ?thesis by blast
  qed
qed

lemma quad_end:
  assumes "length q = 4" "length tmp + 4 \<le> 16"
  shows "\<exists>v. pton6_loop (quad_text q @ 0 # junk) (quad_text q @ 0 # junk) tmp col 0 0 = Ok (tmp @ q, col, 0, v)"
proof -
  let ?t = "quad_text q @ 0 # junk"
  obtain rest where t: "?t = decimal (unat (q ! 0)) @ 46 # rest" by (simp add: quad_text_def)
  have "unat (q ! 0) < 1000" using byte_lt_256 [of "q ! 0"] by (simp del: byte_lt_256)
  then obtain s v where "pton6_loop (decimal (unat (q ! 0)) @ 46 # rest) ?t tmp col 0 0 = pton6_loop (46 # rest) ?t tmp col s v"
    using decimal_seen [of "unat (q ! 0)" "46 # rest" ?t tmp col] by blast
  then have "pton6_loop ?t ?t tmp col 0 0 = pton6_loop (46 # rest) ?t tmp col s v" unfolding t [symmetric] .
  also have "\<dots> = Ok (tmp @ q, col, 0, v)" using assms pton4_quad [OF assms(1), of junk] by (simp add: colon_not_hex)
  finally show ?thesis by blast
qed

section \<open>The omitted groups\<close>

lemma shift_bytes:
  assumes "c + n = length tmp" "length tmp < 16" "k \<le> n"
  shows "fold (shift_byte c n) [1..<k + 1] (tmp @ replicate (16 - length tmp) 0) =
    take (length tmp - k) tmp @ replicate (16 - length tmp) 0 @ drop (length tmp - k) tmp"
  using assms(3)
proof (induction k)
  case 0
  then show ?case by simp
next
  case (Suc k)
  define g where "g = 16 - length tmp"
  define m where "m = length tmp - Suc k"
  have m: "m < length tmp" "length tmp - k = Suc m" "m + g = 16 - Suc k" "c + n - Suc k = m" "0 < g"
    using assms Suc.prems by (auto simp: g_def m_def)
  have T: "take (Suc m) tmp @ replicate g 0 @ drop (Suc m) tmp = take m tmp @ tmp ! m # replicate (g - 1) 0 @ 0 # drop (Suc m) tmp"
    using m by (cases g) (simp_all add: take_Suc_conv_app_nth replicate_app_Cons_same)
  have "fold (shift_byte c n) [1..<Suc k + 1] (tmp @ replicate g 0) = shift_byte c n (Suc k) (take (Suc m) tmp @ replicate g 0 @ drop (Suc m) tmp)"
    using Suc m(2) by (simp add: g_def)
  also have "\<dots> = take m tmp @ 0 # replicate (g - 1) 0 @ tmp ! m # drop (Suc m) tmp"
  proof -
    let ?a = "take m tmp" and ?x = "tmp ! m" and ?z = "replicate (g - 1) 0" and ?d = "drop (Suc m) tmp"
    let ?T = "?a @ ?x # ?z @ 0 # ?d"
    have la: "length ?a = m" using m by simp
    have "?T ! m = ?x" using la by (simp add: nth_append)
    moreover have "?T[m + g := ?x] = ?a @ ?x # ?z @ ?x # ?d" using la m(5) by (cases g) (simp_all add: list_update_append)
    moreover have "(?a @ ?x # ?z @ ?x # ?d)[m := 0] = ?a @ 0 # ?z @ ?x # ?d" using la by (simp add: list_update_append)
    ultimately show ?thesis unfolding T shift_byte_def m(3) [symmetric] m(4) by simp
  qed
  also have "\<dots> = take m tmp @ replicate g 0 @ drop m tmp" using m by (cases g) (simp_all add: Cons_nth_drop_Suc [symmetric])
  finally show ?case by (simp add: g_def m_def)
qed

lemma pton6_result:
  assumes "src = 58 # s0 \<and> s0 \<noteq> [] \<and> hd s0 = 58 \<or> src = s0 \<and> src \<noteq> [] \<and> hd src \<noteq> 58"
    and loop: "pton6_loop s0 s0 [] None 0 0 = Ok (t, col, s, v)" and u: "(if s \<noteq> 0 then t @ word_bytes v else t) = u"
    and len: "s \<noteq> 0 \<longrightarrow> length t + 2 \<le> 16" "\<And>c. col = Some c \<Longrightarrow> c \<le> length u \<and> length u < 16"
  shows "inet_pton6 src = (case col of
      Some c \<Rightarrow> Ok (take c u @ replicate (16 - length u) 0 @ drop c u)
    | None \<Rightarrow> if length u \<noteq> 16 then Fail else Ok u)"
proof -
  have "bind_out (case src of [] \<Rightarrow> Undef | ch # src1 \<Rightarrow> if ch = 58 then if src1 = [] then Undef else if hd src1 \<noteq> 58 then Fail else Ok src1 else Ok src) k = k s0" for k :: "byte list \<Rightarrow> byte list outcome"
    using assms(1) by (cases src) auto
  moreover have "bind_out (if s \<noteq> 0 then if 16 < length t + 2 then Fail else Ok (t @ word_bytes v) else Ok t) k = k u" for k :: "byte list \<Rightarrow> byte list outcome"
    using u len(1) by auto
  moreover have "fold (shift_byte c (length u - c)) [1..<length u - c + 1] (u @ replicate (16 - length u) 0) = take c u @ replicate (16 - length u) 0 @ drop c u"
    if "col = Some c" for c
    using shift_bytes [of c "length u - c" u "length u - c"] len(2) [OF that] by simp
  ultimately show ?thesis
    using len(2) loop assms(1) unfolding inet_pton6_def by (cases src; cases col) (auto simp: loop)
qed

lemma length_bytes [simp]: "length (concat (map word_bytes ws)) = 2 * length ws"
  by (induction ws) simp_all

text \<open>What follows the first colon of an omission.\<close>

lemma omit_tail:
  assumes "\<forall>w\<in>set ws. unat w < 65536" "length tmp + 2 * length ws \<le> 14"
  shows "\<exists>t s v. pton6_loop (colons ws @ (if ws = [] then [58] else []) @ 0 # junk) cur tmp None 0 0 = Ok (t, Some (length tmp), s, v) \<and>
    (s \<noteq> 0 \<longrightarrow> length t + 2 \<le> 16) \<and> (if s \<noteq> 0 then t @ word_bytes v else t) = tmp @ concat (map word_bytes ws)"
proof (cases ws)
  case Nil
  then show ?thesis using omit_step [of "0 # junk" cur tmp 0] by simp
next
  case (Cons w vs)
  let ?r = "hexadecimal (unat w) @ colons vs @ 0 # junk"
  obtain t s v where "pton6_loop ?r ?r tmp (Some (length tmp)) 0 0 = Ok (t, Some (length tmp), s, v)" "s \<noteq> 0" "length t + 2 \<le> 16"
      "t @ word_bytes v = tmp @ concat (map word_bytes (w # vs))"
    using groups_end [of w vs tmp junk ?r "Some (length tmp)"] assms Cons by auto
  moreover have "pton6_loop (58 # ?r) cur tmp None 0 0 = pton6_loop ?r ?r tmp (Some (length tmp)) 0 0" by (rule omit_step)
  ultimately show ?thesis using Cons by (simp del: pton6_loop.simps)
qed

lemma pton6_omit:
  assumes w: "\<forall>w\<in>set (pre @ ws). unat w < 65536" and len: "length pre + length ws \<le> 7"
  shows "inet_pton6 (tl (colons pre) @ 58 # (colons ws @ (if ws = [] then [58] else [])) @ 0 # junk) =
    Ok (concat (map word_bytes pre) @ replicate (16 - 2 * length (pre @ ws)) 0 @ concat (map word_bytes ws))"
proof -
  let ?r = "colons ws @ (if ws = [] then [58] else []) @ 0 # junk" and ?p = "concat (map word_bytes pre)"
  have hr: "?r \<noteq> []" "hd ?r = 58" by (cases ws; simp)+
  have "\<exists>t s v. pton6_loop ?r cur ?p None 0 0 = Ok (t, Some (length ?p), s, v) \<and> (s \<noteq> 0 \<longrightarrow> length t + 2 \<le> 16) \<and>
      (if s \<noteq> 0 then t @ word_bytes v else t) = ?p @ concat (map word_bytes ws)" for cur
    by (rule omit_tail) (use w len in auto)
  then obtain t s v where tail: "pton6_loop ?r ?r ?p None 0 0 = Ok (t, Some (length ?p), s, v)" "s \<noteq> 0 \<longrightarrow> length t + 2 \<le> 16"
      "(if s \<noteq> 0 then t @ word_bytes v else t) = ?p @ concat (map word_bytes ws)" by blast
  let ?src = "tl (colons pre) @ 58 # ?r"
  have "\<exists>s0. (?src = 58 # s0 \<and> s0 \<noteq> [] \<and> hd s0 = 58 \<or> ?src = s0 \<and> ?src \<noteq> [] \<and> hd ?src \<noteq> 58) \<and> pton6_loop s0 s0 [] None 0 0 = pton6_loop ?r ?r ?p None 0 0"
  proof (cases pre)
    case Nil
    then show ?thesis using hr by (intro exI [of _ ?r]) simp
  next
    case (Cons x xs)
    let ?s = "hexadecimal (unat x) @ colons xs @ 58 # ?r"
    have x: "unat x < 65536" using w Cons by simp
    have "pton6_loop ?s ?s [] None 0 0 = pton6_loop ?r ?r ([] @ concat (map word_bytes (x # xs))) None 0 0"
      by (rule groups_colon) (use w len Cons hr in auto)
    moreover have "hd ?s \<noteq> 58" using group_length [OF x] hexadecimal_chars [of "unat x"] by (cases "hexadecimal (unat x)") auto
    ultimately show ?thesis using Cons group_length [OF x] by (intro exI [of _ ?s]) (simp del: pton6_loop.simps)
  qed
  then obtain s0 where s0: "?src = 58 # s0 \<and> s0 \<noteq> [] \<and> hd s0 = 58 \<or> ?src = s0 \<and> ?src \<noteq> [] \<and> hd ?src \<noteq> 58"
      "pton6_loop s0 s0 [] None 0 0 = Ok (t, Some (length ?p), s, v)" using tail(1) by metis
  have "inet_pton6 ?src = (case Some (length ?p) of Some c \<Rightarrow> Ok (take c (?p @ concat (map word_bytes ws)) @
      replicate (16 - length (?p @ concat (map word_bytes ws))) 0 @ drop c (?p @ concat (map word_bytes ws))) | None \<Rightarrow>
      if length (?p @ concat (map word_bytes ws)) \<noteq> 16 then Fail else Ok (?p @ concat (map word_bytes ws)))"
    by (rule pton6_result [OF s0 tail(3,2)]) (use len in auto)
  then show ?thesis by simp
qed

section \<open>Printing and parsing again\<close>

definition text6 :: "byte list \<Rightarrow> byte list" where
  "text6 src = (let words = words_of src; best = best_run words; b = nat (fst best); l = snd best
     in if fst best = -1 then tl (colons words)
        else if embeds words best \<and> b + l \<le> 6 then (if l = 5 then 58 # 58 # hexadecimal 0xffff @ [58] else [58, 58]) @ quad_text (drop 12 src)
        else tl (colons (take b words)) @ 58 # colons (drop (b + l) words) @ (if b + l = 8 then [58] else []))"

lemma colons_length: "\<forall>w\<in>set ws. unat w < 65536 \<Longrightarrow> length (colons ws) \<le> 5 * length ws"
  by (induction ws) (use group_length in \<open>auto simp: add_le_mono\<close>)

lemma colons_chars: "set (colons ws) \<inter> {0, 37} = {}"
proof (induction ws)
  case (Cons w ws)
  then show ?case using hexadecimal_chars [of "unat w"] by auto
qed simp

lemma tl_chars: "set xs \<inter> A = {} \<Longrightarrow> set (tl xs) \<inter> A = {}"
  by (cases xs) auto

lemma text6_chars: "set (text6 src) \<inter> {0, 37} = {}"
proof -
  have "set (colons ws) \<inter> {0, 37} = {}" "set (tl (colons ws)) \<inter> {0, 37} = {}" for ws
    by (rule colons_chars) (rule tl_chars [OF colons_chars])
  moreover have "set (quad_text (drop 12 src)) \<inter> {0, 37} = {}" using quad_text_chars [of "drop 12 src"] by blast
  moreover have "set (hexadecimal 0xffff) \<inter> {0, 37} = {}" using hexadecimal_chars [of 65535] by blast
  ultimately show ?thesis by (simp add: text6_def Let_def Int_Un_distrib2)
qed

lemma embeds_cases: "embeds words (int b, l) \<Longrightarrow> b + l \<le> 6 \<Longrightarrow> b = 0 \<and> (l = 5 \<and> words ! 5 = 0xffff \<or> l = 6)"
  by (auto simp: embeds_def)

lemma ntop6_text:
  assumes "length src = 16"
  shows "length (text6 src) \<le> 45"
    "bind_out (format6 src (words_of src) (best_run (words_of src)) 0 []) (\<lambda>out.
       bind_out (if fst (best_run (words_of src)) \<noteq> -1 \<and> fst (best_run (words_of src)) + int (snd (best_run (words_of src))) = 8
         then put6 [58] out else Ok out) (put6 [0])) = Ok (text6 src @ [0])"
proof -
  let ?w = "words_of src" and ?best = "best_run (words_of src)"
  note w = words_of_bytes [OF assms]
  have cl: "length (colons (take k ?w)) \<le> 5 * k" "length (colons (drop k ?w)) \<le> 5 * (8 - k)" if "k \<le> 8" for k
    using colons_length [of "take k ?w"] colons_length [of "drop k ?w"] w(1,3) that by (auto dest: in_set_takeD in_set_dropD)
  have "length (text6 src) \<le> 45 \<and> bind_out (format6 src ?w ?best 0 []) (\<lambda>out.
       bind_out (if fst ?best \<noteq> -1 \<and> fst ?best + int (snd ?best) = 8 then put6 [58] out else Ok out) (put6 [0])) = Ok (text6 src @ [0])"
  proof (cases rule: best_run_cases [of ?w])
    case 1
    then have t: "text6 src = tl (colons ?w)" by (simp add: text6_def Let_def)
    have "length (text6 src) \<le> 45" using cl(2) [of 0] t by simp
    then show ?thesis using format_plain [OF 1 w(3,1)] 1 t by (simp add: put6_def)
  next
    case (2 b l)
    show ?thesis
    proof (cases "embeds ?w ?best \<and> b + l \<le> 6")
      case True
      then have bl: "b = 0" "l = 5 \<and> ?w ! 5 = 0xffff \<or> l = 6" using embeds_cases [of ?w b l] 2(1) by auto
      have t: "text6 src = (if l = 5 then 58 # 58 # hexadecimal 0xffff @ [58] else [58, 58]) @ quad_text (drop 12 src)"
        using True 2(1) by (simp add: text6_def Let_def)
      have "length (hexadecimal 0xffff) \<le> 4" using hexadecimal_length [of 65535 3] by simp
      then have "length (text6 src) \<le> 45" using quad_text_length [of "drop 12 src"] unfolding t by simp
      then show ?thesis using format_embed [of ?best l ?w src] 2(1) bl assms w(1) t by (auto simp: put6_def)
    next
      case False
      have t: "text6 src = tl (colons (take b ?w)) @ 58 # colons (drop (b + l) ?w) @ (if b + l = 8 then [58] else [])"
        using False 2(1) by (auto simp: text6_def Let_def)
      have f: "format6 src ?w ?best 0 [] = Ok (tl (colons (take b ?w)) @ 58 # colons (drop (b + l) ?w))"
        by (rule format_omit [OF 2(1-3) _ w(3,1)]) (use False in blast)
      have "length (text6 src) \<le> 45" unfolding t using cl(1) [of b] cl(2) [of "b + l"] 2(2,3) by auto
      then show ?thesis using f 2(1) t by (auto simp: put6_def)
    qed
  qed
  then show "length (text6 src) \<le> 45"
    "bind_out (format6 src ?w ?best 0 []) (\<lambda>out.
       bind_out (if fst ?best \<noteq> -1 \<and> fst ?best + int (snd ?best) = 8 then put6 [58] out else Ok out) (put6 [0])) = Ok (text6 src @ [0])"
    by blast+
qed

lemma ntop6_exact:
  assumes "length src = 16" "length dst = sz" "0 < sz"
  shows "inet_ntop6 src dst sz = (if length (text6 src) < sz then (Ok 0, text6 src @ 0 # drop (Suc (length (text6 src))) dst)
    else (Ok UV_ENOSPC, take (sz - 1) (text6 src) @ [0]))"
proof -
  let ?t = "text6 src"
  have nz: "0 \<notin> set ?t" using text6_chars [of src] by blast
  have eq: "inet_ntop6 src dst sz = seq_ok (uv__strscpy dst (?t @ [0]) sz) (\<lambda>r dst. (Ok (if r = UV_E2BIG then UV_ENOSPC else 0), dst))"
    unfolding inet_ntop6_def Let_def ntop6_text(2) [OF assms(1)] using assms(1) by simp
  show ?thesis
  proof (cases "length ?t < sz")
    case True
    have "uv__strscpy dst (?t @ [0]) sz = (Ok (int (length ?t)), ?t @ 0 # drop (Suc (length ?t)) dst)"
      by (rule strscpy_fits [OF refl nz True]) (use True assms(2) ntop6_text(1) [OF assms(1)] in simp_all)
    then show ?thesis using True eq by simp
  next
    case False
    have "uv__strscpy dst (?t @ [0]) sz = (Ok UV_E2BIG, take (sz - 1) ?t @ 0 # drop sz dst)"
      by (rule strscpy_cut [OF refl nz assms(3)]) (use False assms(2) in simp_all)
    then show ?thesis using False eq assms(2) by simp
  qed
qed

lemma zero_bytes: "(\<And>i. i < length ws \<Longrightarrow> ws ! i = 0) \<Longrightarrow> concat (map word_bytes ws) = replicate (2 * length ws) 0"
proof (induction ws)
  case (Cons w ws)
  have "w = 0" using Cons.prems [of 0] by simp
  moreover have "concat (map word_bytes ws) = replicate (2 * length ws) 0" by (rule Cons.IH) (use Cons.prems [of "Suc _"] in auto)
  moreover have "word_bytes 0 = [0, 0]" by (simp add: word_bytes_def)
  ultimately show ?case by simp
qed simp

lemma run_bytes:
  assumes "length src = 16" "b + l \<le> 8" "\<And>i. b \<le> i \<Longrightarrow> i < b + l \<Longrightarrow> words_of src ! i = 0"
  shows "src = concat (map word_bytes (take b (words_of src))) @ replicate (2 * l) 0 @ concat (map word_bytes (drop (b + l) (words_of src)))"
proof -
  let ?w = "words_of src"
  note w = words_of_bytes [OF assms(1)]
  have "?w = take b ?w @ take l (drop b ?w) @ drop (b + l) ?w" by (simp add: drop_drop [symmetric] add.commute [of b l] del: drop_drop)
  then have "src = concat (map word_bytes (take b ?w @ take l (drop b ?w) @ drop (b + l) ?w))" using w(2) by simp
  moreover have "concat (map word_bytes (take l (drop b ?w))) = replicate (2 * l) 0"
    using zero_bytes [of "take l (drop b ?w)"] w(1) assms(2,3) by simp
  ultimately show ?thesis by simp
qed

lemma pton6_text:
  assumes "length src = 16"
  shows "inet_pton6 (text6 src @ 0 # junk) = Ok src"
proof -
  let ?w = "words_of src" and ?best = "best_run (words_of src)"
  note w = words_of_bytes [OF assms]
  show ?thesis
  proof (cases rule: best_run_cases [of ?w])
    case 1
    obtain x xs where x: "?w = x # xs" using w(1) by (cases ?w) auto
    let ?s = "hexadecimal (unat x) @ colons xs @ 0 # junk"
    have t: "text6 src @ 0 # junk = ?s" using 1 x by (simp add: text6_def Let_def)
    have xl: "unat x < 65536" using w(3) x by simp
    obtain t s v where l: "pton6_loop ?s ?s [] None 0 0 = Ok (t, None, s, v)" "s \<noteq> 0" "length t + 2 \<le> 16"
        "t @ word_bytes v = [] @ concat (map word_bytes (x # xs))"
      using groups_end [of x xs "[]" junk ?s None] w(1,3) x by auto
    have "hd ?s \<noteq> 58" using group_length [OF xl] hexadecimal_chars [of "unat x"] by (cases "hexadecimal (unat x)") auto
    then have "inet_pton6 ?s = (case None of Some c \<Rightarrow> Ok (take c src @ replicate (16 - length src) 0 @ drop c src) | None \<Rightarrow> if length src \<noteq> 16 then Fail else Ok src)"
      by (intro pton6_result [OF _ l(1)]) (use l(2-4) x w(2) in auto)
    then show ?thesis using t assms by simp
  next
    case (2 b l)
    show ?thesis
    proof (cases "embeds ?w ?best \<and> b + l \<le> 6")
      case True
      then have bl: "b = 0" "l = 5 \<and> ?w ! 5 = 0xffff \<or> l = 6" using embeds_cases [of ?w b l] 2(1) by auto
      let ?q = "drop 12 src"
      let ?Q = "quad_text ?q @ 0 # junk"
      have q: "length ?q = 4" using assms by simp
      have Q: "?Q \<noteq> []" "hd ?Q \<noteq> 0" using quad_text_length [of ?q] quad_text_chars [of ?q] by (cases "quad_text ?q"; auto)+
      have src: "src = replicate (2 * l) 0 @ concat (map word_bytes (drop l ?w))" using run_bytes [OF assms 2(3,4)] bl(1) by simp
      show ?thesis
      proof (cases "l = 6")
        case True
        obtain v where v: "pton6_loop ?Q ?Q [] (Some 0) 0 0 = Ok (?q, Some 0, 0, v)" using quad_end [OF q, of "[]" junk "Some 0"] by auto
        have t: "text6 src @ 0 # junk = 58 # 58 # ?Q" using \<open>embeds ?w ?best \<and> b + l \<le> 6\<close> True 2(1) by (auto simp: text6_def Let_def)
        have "pton6_loop (58 # ?Q) (58 # ?Q) [] None 0 0 = Ok (?q, Some 0, 0, v)" using omit_step [of ?Q "58 # ?Q" "[]" 0] v by simp
        from pton6_result [of "58 # 58 # ?Q", OF _ this, of ?q] have "inet_pton6 (58 # 58 # ?Q) = Ok (replicate 12 0 @ ?q)" using q by simp
        moreover have "src = replicate 12 0 @ ?q"
        proof -
          have "take 12 src = replicate 12 0" using arg_cong [OF src, of "take 12"] True by simp
          then show ?thesis using append_take_drop_id [of 12 src] by simp
        qed
        ultimately show ?thesis using t by simp
      next
        case False
        then have l: "l = 5" "?w ! 5 = 0xffff" using bl by auto
        have ff: "unat (0xffff :: u32) = 65535" "word_bytes 0xffff = [255, 255]" by (simp_all add: word_bytes_def)
        let ?f = "hexadecimal 65535 @ 58 # ?Q"
        obtain v where v: "pton6_loop ?Q ?Q [255, 255] (Some 0) 0 0 = Ok ([255, 255] @ ?q, Some 0, 0, v)"
          using quad_end [OF q, of "[255, 255]" junk "Some 0"] by auto
        have "pton6_loop (58 # ?f) (58 # ?f) [] None 0 0 = pton6_loop ?f ?f [] (Some 0) 0 0" using omit_step [of ?f "58 # ?f" "[]" 0] by simp
        also have "\<dots> = pton6_loop ?Q ?Q [255, 255] (Some 0) 0 0"
          using groups_colon [of "0xffff" "[]" "[]" ?Q ?f "Some 0"] Q ff by simp
        finally have loop: "pton6_loop (58 # ?f) (58 # ?f) [] None 0 0 = Ok ([255, 255] @ ?q, Some 0, 0, v)" using v by simp
        have t: "text6 src @ 0 # junk = 58 # 58 # ?f" using \<open>embeds ?w ?best \<and> b + l \<le> 6\<close> l 2(1) by (auto simp: text6_def Let_def)
        from pton6_result [of "58 # 58 # ?f", OF _ loop, of "[255, 255] @ ?q"]
        have "inet_pton6 (58 # 58 # ?f) = Ok (replicate 10 0 @ [255, 255] @ ?q)" using q by simp
        moreover have "src = replicate 10 0 @ [255, 255] @ ?q"
        proof -
          have "drop 5 ?w = 0xffff # drop 6 ?w" using Cons_nth_drop_Suc [of 5 ?w] w(1) l(2) by simp
          then have s: "src = replicate 10 0 @ [255, 255] @ concat (map word_bytes (drop 6 ?w))" using src l(1) ff by simp
          have "?q = concat (map word_bytes (drop 6 ?w))" using arg_cong [OF s, of "drop 12"] by simp
          then show ?thesis using s by simp
        qed
        ultimately show ?thesis using t by simp
      qed
    next
      case False
      let ?d = "drop (b + l) ?w"
      have t: "text6 src @ 0 # junk = tl (colons (take b ?w)) @ 58 # (colons ?d @ (if ?d = [] then [58] else [])) @ 0 # junk"
        using False 2(1,3) w(1) by (auto simp: text6_def Let_def)
      have "inet_pton6 (text6 src @ 0 # junk) = Ok (concat (map word_bytes (take b ?w)) @ replicate (16 - 2 * length (take b ?w @ ?d)) 0 @ concat (map word_bytes ?d))"
        unfolding t by (rule pton6_omit) (use w(1,3) 2(2,3) in \<open>auto dest: in_set_takeD in_set_dropD\<close>)
      moreover have "16 - 2 * length (take b ?w @ ?d) = 2 * l" using w(1) 2(3) by auto
      ultimately show ?thesis using run_bytes [OF assms 2(3,4)] by simp
    qed
  qed
qed

section \<open>Reading no further than the terminator\<close>

lemma pton4_loop_safe:
  assumes "0 \<in> set src" "octets \<le> 4" "if saw then length tmp = octets \<and> tmp \<noteq> [] else length tmp = octets + 1 \<and> octets < 4"
  shows "pton4_loop src tmp saw octets \<noteq> Undef \<and>
    (\<forall>t oc. pton4_loop src tmp saw octets = Ok (t, oc) \<longrightarrow> oc < 4 \<or> length t = 4)"
  using assms
proof (induction src arbitrary: tmp saw octets)
  case (Cons ch src)
  show ?case
  proof (cases "ch = 0")
    case True
    then show ?thesis using Cons.prems by (auto split: if_splits)
  next
    case False
    then have z: "0 \<in> set src" using Cons.prems(1) by simp
    note IH = Cons.IH [OF z]
    show ?thesis
    proof (cases "strchr_index digits ch")
      case None
      then show ?thesis using False Cons.prems IH [of octets False "tmp @ [0]"] by (auto split: if_splits)
    next
      case (Some k)
      define t1 where "t1 = butlast tmp @ [ucast (ucast (List.last tmp) * 10 + of_nat k :: u32)]"
      have "tmp \<noteq> []" using Cons.prems(3) by (auto split: if_splits)
      then have "length t1 = length tmp" "t1 \<noteq> []" by (simp_all add: t1_def)
      then show ?thesis using Some False Cons.prems(2,3) IH [of octets True t1] IH [of "octets + 1" True t1]
        by (cases saw) (simp_all add: Let_def t1_def [symmetric])
    qed
  qed
qed simp

lemma pton4_safe:
  assumes "0 \<in> set src"
  shows "inet_pton4 src \<noteq> Undef \<and> (\<forall>t. inet_pton4 src = Ok t \<longrightarrow> length t = 4)"
proof -
  have "pton4_loop src [0] False 0 \<noteq> Undef \<and> (\<forall>t oc. pton4_loop src [0] False 0 = Ok (t, oc) \<longrightarrow> oc < 4 \<or> length t = 4)"
    by (rule pton4_loop_safe) (use assms in simp_all)
  then show ?thesis by (cases "pton4_loop src [0] False 0") (auto simp: inet_pton4_def split: if_splits)
qed

lemma pton6_loop_safe:
  assumes "0 \<in> set src" "0 \<in> set cur" "length tmp \<le> 16" "\<And>c. col = Some c \<Longrightarrow> c \<le> length tmp"
  shows "pton6_loop src cur tmp col seen val \<noteq> Undef \<and>
    (\<forall>t c s v. pton6_loop src cur tmp col seen val = Ok (t, c, s, v) \<longrightarrow> length t \<le> 16 \<and> (\<forall>k. c = Some k \<longrightarrow> k \<le> length t))"
  using assms
proof (induction src arbitrary: cur tmp col seen val)
  case (Cons ch src)
  show ?case
  proof (cases "ch = 0")
    case True
    then show ?thesis using Cons.prems by auto
  next
    case False
    then have z: "0 \<in> set src" "src \<noteq> []" using Cons.prems(1) by auto
    show ?thesis
    proof (cases "xdigit ch")
      case (Some k)
      then show ?thesis using False Cons.IH [where seen = "seen + 1" and val = "push_bit 4 val OR of_nat k", OF z(1) Cons.prems(2-4)] by auto
    next
      case None
      have colon: "pton6_loop src src t c 0 v \<noteq> Undef \<and> (\<forall>t' c' s v'. pton6_loop src src t c 0 v = Ok (t', c', s, v') \<longrightarrow> length t' \<le> 16 \<and> (\<forall>k. c' = Some k \<longrightarrow> k \<le> length t'))"
        if "length t \<le> 16" "\<And>k. c = Some k \<Longrightarrow> k \<le> length t" for t c v
        by (rule Cons.IH) (use z that in auto)
      have quad: "inet_pton4 cur \<noteq> Undef" "\<And>q. inet_pton4 cur = Ok q \<Longrightarrow> length q = 4" using pton4_safe [OF Cons.prems(2)] by auto
      show ?thesis
      proof (cases "ch = 58")
        case True
        then show ?thesis using None False z(2) colon [of tmp "Some (length tmp)" val] colon [of "tmp @ word_bytes val" col 0] Cons.prems(3,4)
          by (auto simp: colon_not_hex simp del: length_word_bytes) (auto simp: le_SucI)
      next
        case ne: False
        show ?thesis using None False ne quad Cons.prems(3,4) by (cases "inet_pton4 cur") auto
      qed
    qed
  qed
qed simp

lemma fold_shift_length: "length (fold (shift_byte c n) is t) = length t"
  by (induction "is" arbitrary: t) (simp_all add: shift_byte_def)

lemma pton6_safe:
  assumes "0 \<in> set src"
  shows "inet_pton6 src \<noteq> Undef \<and> (\<forall>t. inet_pton6 src = Ok t \<longrightarrow> length t = 16)"
proof -
  obtain ch src1 where src: "src = ch # src1" using assms by (cases src) auto
  have src1: "ch = 58 \<Longrightarrow> src1 \<noteq> [] \<and> 0 \<in> set src1" using assms src by auto
  define s where "s = (if ch = 58 then src1 else src)"
  have s: "0 \<in> set s" using src1 assms by (simp add: s_def)
  show ?thesis
  proof (cases "ch = 58 \<and> hd src1 \<noteq> 58")
    case True
    then show ?thesis using src src1 by (simp add: inet_pton6_def)
  next
    case False
    then have eq: "(if ch = 58 then if src1 = [] then Undef else if hd src1 \<noteq> 58 then Fail else Ok src1 else Ok src) = Ok s"
      using src1 by (simp add: s_def)
    have "pton6_loop s s [] None 0 0 \<noteq> Undef \<and>
        (\<forall>t c q v. pton6_loop s s [] None 0 0 = Ok (t, c, q, v) \<longrightarrow> length t \<le> 16 \<and> (\<forall>k. c = Some k \<longrightarrow> k \<le> length t))"
      by (rule pton6_loop_safe) (use s in simp_all)
    then show ?thesis unfolding inet_pton6_def src list.case unfolding src [symmetric] eq
      by (cases "pton6_loop s s [] None 0 0") (auto simp: fold_shift_length simp del: upt_Suc split: option.splits if_splits)
  qed
qed

section \<open>Properties\<close>

text \<open>C32: An address of either family that is printed into a buffer of the announced size is parsed back unchanged.\<close>

theorem inet_roundtrip:
  assumes "af = AF_INET \<and> length src = 4 \<and> UV__INET_ADDRSTRLEN \<le> sz \<or> af = AF_INET6 \<and> length src = 16 \<and> UV__INET6_ADDRSTRLEN \<le> sz"
    and "length dst = sz" "length out = length src"
  shows "\<exists>dst'. uv_inet_ntop af src dst sz = (Ok 0, dst') \<and> uv_inet_pton af (Some dst') (Some out) = (Ok 0, Some src)"
  using assms(1)
proof (elim disjE conjE)
  assume a: "af = AF_INET" "length src = 4" "16 \<le> sz"
  have "length (quad_text src) < sz" using quad_text_length [of src] a(3) by linarith
  then have "uv_inet_ntop af src dst sz = (Ok 0, quad_text src @ 0 # drop (Suc (length (quad_text src))) dst)"
    using ntop4_exact [of src dst sz] a assms(2) by (simp add: uv_inet_ntop_def)
  then show ?thesis using pton4_quad [OF a(2)] a assms(3) by (simp add: uv_inet_pton_def store_addr_def)
next
  assume a: "af = AF_INET6" "length src = 16" "46 \<le> sz"
  let ?t = "text6 src"
  have ch: "0 \<notin> set ?t" "37 \<notin> set ?t" using text6_chars [of src] by blast+
  have "length ?t < sz" using ntop6_text(1) [OF a(2)] a(3) by linarith
  then have "uv_inet_ntop af src dst sz = (Ok 0, ?t @ 0 # drop (Suc (length ?t)) dst)"
    using ntop6_exact [OF a(2) assms(2)] a by (simp add: uv_inet_ntop_def)
  moreover have "uv_inet_pton af (Some (?t @ 0 # junk)) (Some out) = (Ok 0, Some src)" for junk
    using ch takeWhile_stop [OF ch(1), of junk] pton6_text [OF a(2), of junk] a assms(3)
    by (simp add: uv_inet_pton_def store_addr_def Let_def)
  ultimately show ?thesis by blast
qed

theorem inet_roundtrip_witness:
  "\<exists>dst'. uv_inet_ntop AF_INET [127, 0, 0, 1] (replicate 16 0) 16 = (Ok 0, dst') \<and> uv_inet_pton AF_INET (Some dst') (Some [0, 0, 0, 0]) = (Ok 0, Some [127, 0, 0, 1])"
  using inet_roundtrip [of AF_INET "[127, 0, 0, 1]" 16 "replicate 16 0" "[0, 0, 0, 0]"] by simp

text \<open>The conversion to \<^verbatim>\<open>int\<close>.\<close>

lemma int_of_offset: "n < 2 ^ 31 \<Longrightarrow> sint (of_nat n :: u32) = int n"
  by (subst signed_of_nat) (simp add: signed_take_bit_int_eq_self)

lemma int_of_offset_wraps: "2 ^ 31 \<le> n \<Longrightarrow> n < 2 ^ 32 \<Longrightarrow> sint (of_nat n :: u32) < 0"
proof -
  assume n: "2 ^ 31 \<le> n" "n < 2 ^ 32"
  then have "int n div 2 ^ 31 = 1" by simp
  then show ?thesis using n by (subst signed_of_nat)
    (simp add: signed_take_bit_eq_take_bit_minus bit_iff_odd take_bit_eq_mod)
qed

text \<open>C33: Parsing a terminated string of less than 2 GiB never reads behind its terminator nor stores outside of the address; it
  returns zero or an error, and after an error the address is as it was.\<close>

theorem inet_pton_safe:
  assumes "0 \<in> set s" "length out = (if af = AF_INET then 4 else 16)" "length (takeWhile (\<lambda>c. c \<noteq> 0) s) < 2 ^ 31"
  shows "\<exists>r out'. uv_inet_pton af (Some s) (Some out) = (Ok r, Some out') \<and> r \<in> {0, UV_EINVAL, UV_EAFNOSUPPORT} \<and> length out' = length out \<and>
    (r \<noteq> 0 \<longrightarrow> out' = out)"
proof -
  have store: "\<exists>r out'. (case store_addr q out of (v, d) \<Rightarrow> (v, Some d)) = (Ok r, Some out') \<and> r \<in> {0, UV_EINVAL, UV_EAFNOSUPPORT} \<and>
      length out' = length out \<and> (r \<noteq> 0 \<longrightarrow> out' = out)" if "q \<noteq> Undef \<and> (\<forall>t. q = Ok t \<longrightarrow> length t = length out)" for q
    using that by (cases q) (auto simp: store_addr_def)
  consider "af = AF_INET" | "af = AF_INET6" | "af \<noteq> AF_INET" "af \<noteq> AF_INET6" by blast
  then show ?thesis
  proof cases
    case 1
    then show ?thesis using store [of "inet_pton4 s"] pton4_safe [OF assms(1)] assms(2) by (simp add: uv_inet_pton_def)
  next
    case 2
    let ?head = "takeWhile (\<lambda>c. c \<noteq> 37) (takeWhile (\<lambda>c. c \<noteq> 0) s)"
    have "length ?head < 2 ^ 31" using length_takeWhile_le [of "\<lambda>c. c \<noteq> 37" "takeWhile (\<lambda>c. c \<noteq> 0) s"] assms(3) by linarith
    from int_of_offset [OF this] 2 show ?thesis
      using store [of "inet_pton6 s"] pton6_safe [OF assms(1)] assms(1,2)
        store [of "inet_pton6 (takeWhile (\<lambda>c. c \<noteq> 37) (takeWhile (\<lambda>c. c \<noteq> 0) s) @ [0])"]
        pton6_safe [of "takeWhile (\<lambda>c. c \<noteq> 37) (takeWhile (\<lambda>c. c \<noteq> 0) s) @ [0]"]
      by (simp add: uv_inet_pton_def Let_def)
  next
    case 3
    then show ?thesis by (simp add: uv_inet_pton_def Let_def)
  qed
qed

theorem inet_pton_safe_witness:
  "\<exists>r out'. uv_inet_pton AF_INET (Some [49, 46, 0]) (Some [1, 2, 3, 4]) = (Ok r, Some out') \<and> r \<in> {0, UV_EINVAL, UV_EAFNOSUPPORT} \<and> length out' = 4"
  using inet_pton_safe [of "[49, 46, 0]" "[1, 2, 3, 4]" AF_INET] by auto

text \<open>The distance to a percent sign between 2 and 4 GiB into the string becomes a negative length, which passes the test
  and reaches \<^verbatim>\<open>memcpy\<close>.\<close>

theorem inet_pton_length_wraps:
  assumes "0 \<notin> set head" "37 \<notin> set head" "2 ^ 31 \<le> length head" "length head < 2 ^ 32"
  shows "uv_inet_pton AF_INET6 (Some (head @ 37 # zone @ [0])) (Some out) = (Undef, Some out)"
proof -
  have "takeWhile (\<lambda>c. c \<noteq> 37) (takeWhile (\<lambda>c. c \<noteq> 0) (head @ 37 # zone @ [0])) = head"
    using assms(1,2) by (subst takeWhile_append2) (auto intro: takeWhile_append2 [THEN trans])
  moreover have "37 \<in> set (takeWhile (\<lambda>c. c \<noteq> 0) (head @ 37 # zone @ [0]))"
    using assms(1) by (subst takeWhile_append2) auto
  ultimately show ?thesis using int_of_offset_wraps [OF assms(3,4)]
    by (simp add: uv_inet_pton_def Let_def)
qed

end
