(* ===== verification/Uv_Idna.thy ===== *)
theory Uv_Idna
  imports Uv_Inet
begin

text \<open>
  Domain names in ASCII (\<^verbatim>\<open>src/idna.c\<close>): the decoder of UTF-8, the encoding of a label in Punycode and of a name label by label. The
  name is a part of an object, given by two positions in it; a read behind the end of the object is \<open>Undef\<close>. The output is the
  list of the bytes written, which never grows beyond the space behind \<^verbatim>\<open>d\<close>.
\<close>

section \<open>UTF-8\<close>

definition byte_at :: "byte list \<Rightarrow> nat \<Rightarrow> u32 outcome" where
  "byte_at buf p = (if p < length buf then Ok (ucast (buf ! p)) else Undef)"

definition utf8_join :: "u32 \<Rightarrow> u32 \<Rightarrow> u32 \<Rightarrow> u32 \<Rightarrow> u32 \<Rightarrow> u32" where
  "utf8_join lo a b c d =
     (if 0x80 \<noteq> 0xC0 AND (b XOR c XOR d) then -1
      else let b = b AND 63; c = c AND 63; d = d AND 63;
               a = push_bit 18 a OR push_bit 12 b OR push_bit 6 c OR d
           in if a < lo then -1 else if 0x10FFFF < a then -1 else if 0xD800 \<le> a \<and> a \<le> 0xDFFF then -1 else a)"

definition uv__utf8_decode1_slow :: "byte list \<Rightarrow> nat \<Rightarrow> nat \<Rightarrow> u32 \<Rightarrow> (u32 \<times> nat) outcome" where
  "uv__utf8_decode1_slow buf p pe a =
     (if 0xF7 < a then Ok (-1, p)
      else let left = int p - int pe
        in if left \<noteq> 2 \<and> left \<noteq> 1 \<and> 0xEF < a
           then bind_out (byte_at buf p) (\<lambda>b. bind_out (byte_at buf (p + 1)) (\<lambda>c. bind_out (byte_at buf (p + 2)) (\<lambda>d.
                Ok (utf8_join 0x10000 (a AND 7) b c d, p + 3))))
           else if left \<noteq> 1 \<and> 0xDF < a
           then bind_out (byte_at buf p) (\<lambda>c. bind_out (byte_at buf (p + 1)) (\<lambda>d.
                Ok (utf8_join 0x800 0 (0x80 OR (a AND 15)) c d, p + 2)))
           else if 0xBF < a
           then bind_out (byte_at buf p) (\<lambda>d. Ok (utf8_join 0x80 0 0x80 (0x80 OR (a AND 31)) d, p + 1))
           else Ok (-1, p))"

definition uv__utf8_decode1 :: "byte list \<Rightarrow> nat \<Rightarrow> nat \<Rightarrow> (u32 \<times> nat) outcome" where
  "uv__utf8_decode1 buf p pe = bind_out (byte_at buf p) (\<lambda>a.
     if a < 128 then Ok (a, p + 1) else uv__utf8_decode1_slow buf (p + 1) pe a)"

lemma slow_forward: "uv__utf8_decode1_slow buf p pe a = Ok (c, p') \<Longrightarrow> p \<le> p' \<and> p' \<le> p + 3"
  unfolding uv__utf8_decode1_slow_def by (cases "byte_at buf p"; cases "byte_at buf (p + 1)"; cases "byte_at buf (p + 2)") (auto simp: Let_def split: if_splits)

lemma decode1_forward: "uv__utf8_decode1 buf p pe = Ok (c, p') \<Longrightarrow> p < p' \<and> p' \<le> p + 4"
  unfolding uv__utf8_decode1_def by (cases "byte_at buf p") (auto dest: slow_forward split: if_splits)

section \<open>Labels\<close>

text \<open>The code points that the loop \<^verbatim>\<open>foreach_codepoint\<close> runs its body on. The loop decodes at \<^verbatim>\<open>*p <= pe\<close>, so also what
  follows the label, and leaves out a code point that ends behind \<open>pe\<close>.\<close>

function foreach_codepoint :: "byte list \<Rightarrow> nat \<Rightarrow> nat \<Rightarrow> u32 list outcome" where
  "foreach_codepoint buf p pe =
     (if p \<le> pe
      then case uv__utf8_decode1 buf p pe of
          Ok (c, p') \<Rightarrow> if p' \<le> pe then bind_out (foreach_codepoint buf p' pe) (\<lambda>cs. Ok (c # cs)) else Ok []
        | Fail \<Rightarrow> Fail
        | Undef \<Rightarrow> Undef
      else Ok [])"
  by pat_completeness auto
termination by (relation "measure (\<lambda>(buf, p, pe). Suc pe - p)") (auto dest!: decode1_forward)

declare foreach_codepoint.simps [simp del]

text \<open>The first pass over a label leaves the loop at the first invalid code point; the results are \<^verbatim>\<open>h\<close> and \<^verbatim>\<open>todo\<close>.\<close>

function count_loop :: "byte list \<Rightarrow> nat \<Rightarrow> nat \<Rightarrow> u32 \<Rightarrow> u32 \<Rightarrow> (u32 \<times> u32) outcome" where
  "count_loop buf p pe h todo =
     (if p \<le> pe
      then case uv__utf8_decode1 buf p pe of
          Ok (c, p') \<Rightarrow>
            if p' \<le> pe
            then if c < 128 then count_loop buf p' pe (h + 1) todo
                 else if c = -1 then Fail
                 else count_loop buf p' pe h (todo + 1)
            else Ok (h, todo)
        | Fail \<Rightarrow> Fail
        | Undef \<Rightarrow> Undef
      else Ok (h, todo))"
  by pat_completeness auto
termination by (relation "measure (\<lambda>(buf, p, pe, h, todo). Suc pe - p)") (auto dest!: decode1_forward)

declare count_loop.simps [simp del]

definition emit_char :: "nat \<Rightarrow> byte \<Rightarrow> byte list \<Rightarrow> byte list" where
  "emit_char cap c out = (if length out < cap then out @ [c] else out)"

text \<open>The characters below 128, up to the last one.\<close>

fun copy_ascii :: "nat \<Rightarrow> u32 list \<Rightarrow> u32 \<Rightarrow> u32 \<Rightarrow> byte list \<Rightarrow> byte list" where
  "copy_ascii cap [] x h out = out"
| "copy_ascii cap (c # cs) x h out =
     (if 127 < c then copy_ascii cap cs x h out
      else let out = emit_char cap (ucast c) out
           in if x + 1 = h then out else copy_ascii cap cs (x + 1) h out)"

definition alphabet :: "byte list" where
  "alphabet = [97, 98, 99, 100, 101, 102, 103, 104, 105, 106, 107, 108, 109, 110, 111, 112, 113, 114, 115, 116, 117, 118, 119, 120, 121, 122,
     48, 49, 50, 51, 52, 53, 54, 55, 56, 57]"

definition emit_digit :: "nat \<Rightarrow> u32 \<Rightarrow> byte list \<Rightarrow> byte list outcome" where
  "emit_digit cap t out =
     (if length out < cap then if unat t < length alphabet then Ok (emit_char cap (alphabet ! unat t) out) else Undef else Ok out)"

definition threshold :: "u32 \<Rightarrow> u32 \<Rightarrow> u32" where
  "threshold k bias = (let t = (if bias < k then k - bias else 1) in if 26 < t then 26 else t)"

lemma threshold_range: "1 \<le> unat (threshold k bias) \<and> unat (threshold k bias) \<le> 26"
proof -
  have "1 \<le> unat (k - bias)" if "bias < k" using that by (simp add: word_less_nat_alt unat_sub_if')
  then show ?thesis by (auto simp: threshold_def Let_def word_less_nat_alt)
qed

lemma digit_quotient: "\<not> q < threshold k bias \<Longrightarrow> unat ((q - threshold k bias) div (36 - threshold k bias)) = (unat q - unat (threshold k bias)) div (36 - unat (threshold k bias))"
proof -
  assume "\<not> q < threshold k bias"
  then have "threshold k bias \<le> q" by simp
  moreover have "threshold k bias \<le> 36" using threshold_range [of k bias] by (simp add: word_le_nat_alt)
  ultimately show ?thesis by (simp add: unat_div_distrib unat_sub)
qed

function digits_loop :: "nat \<Rightarrow> u32 \<Rightarrow> u32 \<Rightarrow> u32 \<Rightarrow> byte list \<Rightarrow> byte list outcome" where
  "digits_loop cap bias k q out =
     (let t = threshold k bias
      in if q < t then emit_digit cap q out
         else let x = q - t; y = 36 - t
           in bind_out (emit_digit cap (t + x mod y) out) (digits_loop cap bias (k + 36) (x div y)))"
  by pat_completeness auto
termination
proof (relation "measure (\<lambda>(cap, bias, k, q, out). unat q)", goal_cases)
  case (2 cap bias k q out t x y)
  have r: "1 \<le> unat t" "unat t \<le> 26" using threshold_range [of k bias] 2(1) by simp_all
  have "unat (x div y) = (unat q - unat t) div (36 - unat t)" using digit_quotient [of q k bias] 2 by simp
  also have "\<dots> \<le> unat q - unat t" by simp
  also have "\<dots> < unat q" using r 2(1,2) by (simp add: word_less_nat_alt)
  finally show ?case by simp
qed simp

declare digits_loop.simps [simp del]

function bias_loop :: "u32 \<Rightarrow> u32 \<Rightarrow> u32 \<times> u32" where
  "bias_loop bias delta = (if 455 < delta then bias_loop (bias + 36) (delta div 35) else (bias, delta))"
  by pat_completeness auto
termination by (relation "measure (\<lambda>(bias, delta). unat delta)") (auto simp: word_less_nat_alt unat_div_distrib)

declare bias_loop.simps [simp del]

record puny =
  py_delta :: u32
  py_h :: u32
  py_bias :: u32
  py_first :: bool
  py_todo :: u32
  py_out :: "byte list"

definition least_from :: "u32 \<Rightarrow> u32 list \<Rightarrow> u32" where
  "least_from n cs = fold (\<lambda>c m. if n \<le> c then if c < m then c else m else m) cs (-1)"

definition adapt :: "puny \<Rightarrow> puny outcome" where
  "adapt st =
     (let delta = py_delta st div 2;
          delta = (if py_first st then delta div 350 else delta);
          h = py_h st + 1
      in if h = 0 then Undef
         else let delta = delta + delta div h
           in case bias_loop 0 delta of (bias, delta) \<Rightarrow>
                if delta + 38 = 0 then Undef
                else Ok (st\<lparr>py_first := False, py_h := h, py_bias := bias + 36 * delta div (delta + 38), py_delta := 0, py_todo := py_todo st - 1\<rparr>))"

text \<open>The pass that encodes the code point \<open>n\<close>; \<open>Fail\<close> is the return of \<^verbatim>\<open>UV_E2BIG\<close>, which leaves what was written before.\<close>

fun punycode_pass :: "nat \<Rightarrow> u32 \<Rightarrow> u32 list \<Rightarrow> puny \<Rightarrow> unit outcome \<times> puny" where
  "punycode_pass cap n [] st = (Ok (), st)"
| "punycode_pass cap n (c # cs) st =
     (let st = (if c < n then st\<lparr>py_delta := py_delta st + 1\<rparr> else st)
      in if c < n \<and> py_delta st = 0 then (Fail, st)
         else if c \<noteq> n then punycode_pass cap n cs st
         else case bind_out (digits_loop cap (py_bias st) 36 (py_delta st) (py_out st)) (\<lambda>out. adapt (st\<lparr>py_out := out\<rparr>)) of
             Ok st \<Rightarrow> punycode_pass cap n cs st
           | Fail \<Rightarrow> (Fail, st)
           | Undef \<Rightarrow> (Undef, st))"

definition punycode_round :: "nat \<Rightarrow> u32 list \<Rightarrow> u32 \<Rightarrow> puny \<Rightarrow> u32 outcome \<times> puny" where
  "punycode_round cap cs n st =
     (let m = least_from n cs; x = m - n; y = py_h st + 1
      in if y = 0 then (Undef, st)
         else if NOT (py_delta st) div y < x then (Fail, st)
         else seq_ok (punycode_pass cap m cs (st\<lparr>py_delta := py_delta st + x * y\<rparr>)) (\<lambda>_ st.
              (Ok (m + 1), st\<lparr>py_delta := py_delta st + 1\<rparr>)))"

partial_function (option) punycode_loop :: "nat \<Rightarrow> u32 list \<Rightarrow> u32 \<Rightarrow> puny \<Rightarrow> (unit outcome \<times> puny) option" where
  "punycode_loop cap cs n st =
     (if py_todo st = 0 then Some (Ok (), st)
      else case punycode_round cap cs n st of
          (Ok n, st) \<Rightarrow> punycode_loop cap cs n st
        | (Fail, st) \<Rightarrow> Some (Fail, st)
        | (Undef, st) \<Rightarrow> Some (Undef, st))"

definition uv__idna_toascii_label :: "byte list \<Rightarrow> nat \<Rightarrow> nat \<Rightarrow> nat \<Rightarrow> byte list \<Rightarrow> (int outcome \<times> byte list) option" where
  "uv__idna_toascii_label buf s se cap d = (case count_loop buf s se 0 0 of
      Undef \<Rightarrow> Some (Undef, d)
    | Fail \<Rightarrow> Some (Ok UV_EINVAL, d)
    | Ok (h, todo) \<Rightarrow> (case foreach_codepoint buf s se of
        Undef \<Rightarrow> Some (Undef, d)
      | Fail \<Rightarrow> Some (Undef, d)
      | Ok cs \<Rightarrow>
          let d = (if 0 < todo then emit_char cap 45 (emit_char cap 45 (emit_char cap 110 (emit_char cap 120 d))) else d);
              d = copy_ascii cap cs 0 h d
          in if todo = 0 then Some (Ok (sint h), d)
             else let d = (if 0 < h then emit_char cap 45 d else d)
               in map_option (\<lambda>(r, st). case r of
                     Ok _ \<Rightarrow> (Ok 0, py_out st)
                   | Fail \<Rightarrow> (Ok UV_E2BIG, py_out st)
                   | Undef \<Rightarrow> (Undef, py_out st))
                  (punycode_loop cap cs 128 \<lparr>py_delta = 0, py_h = h, py_bias = 72, py_first = True, py_todo = todo, py_out = d\<rparr>)))"

section \<open>Names\<close>

definition is_dot :: "u32 \<Rightarrow> bool" where
  "is_dot c \<longleftrightarrow> c = 46 \<or> c = 0x3002 \<or> c = 0xFF0E \<or> c = 0xFF61"

text \<open>A label that ends at \<open>st\<close>; a negative result is passed on as \<open>Fail\<close> with its code.\<close>

partial_function (option) labels_loop ::
  "byte list \<Rightarrow> nat \<Rightarrow> nat \<Rightarrow> nat \<Rightarrow> nat \<Rightarrow> byte list \<Rightarrow> (int outcome \<times> nat \<times> byte list) option" where
  "labels_loop buf s si se cap d =
     (if si < se
      then case uv__utf8_decode1 buf si se of
          Ok (c, si') \<Rightarrow>
            if \<not> is_dot c then labels_loop buf s si' se cap d
            else (case uv__idna_toascii_label buf s si cap d of
                None \<Rightarrow> None
              | Some (Ok rc, d) \<Rightarrow> if rc < 0 then Some (Ok rc, s, d) else labels_loop buf si' si' se cap (emit_char cap 46 d)
              | Some (Fail, d) \<Rightarrow> Some (Undef, s, d)
              | Some (Undef, d) \<Rightarrow> Some (Undef, s, d))
        | Fail \<Rightarrow> Some (Undef, s, d)
        | Undef \<Rightarrow> Some (Undef, s, d)
      else Some (Ok 0, s, d))"

definition uv__idna_toascii :: "byte list \<Rightarrow> nat \<Rightarrow> nat \<Rightarrow> nat \<Rightarrow> (int outcome \<times> byte list) option" where
  "uv__idna_toascii buf s se cap = (case labels_loop buf s s se cap [] of
      None \<Rightarrow> None
    | Some (Ok rc, s, d) \<Rightarrow>
        if rc < 0 then Some (Ok rc, d)
        else if s < se
        then (case uv__idna_toascii_label buf s se cap d of
            None \<Rightarrow> None
          | Some (Ok rc, d) \<Rightarrow> if rc < 0 then Some (Ok rc, d) else let d = emit_char cap 0 d in Some (Ok (int (length d)), d)
          | Some (r, d) \<Rightarrow> Some (Undef, d))
        else let d = emit_char cap 0 d in Some (Ok (int (length d)), d)
    | Some (r, s, d) \<Rightarrow> Some (Undef, d))"

end
