(* ===== verification/Uv_Idna_Laws.thy ===== *)
theory Uv_Idna_Laws
  imports Uv_Idna
begin

text \<open>
  What \<^verbatim>\<open>src/idna.c\<close> guarantees: the loops return and stay inside of the objects when three bytes follow the name, and why they need
  those bytes; labels in ASCII are copied.
\<close>

section \<open>Decoding\<close>

lemma byte_at_ok [simp]: "p < length buf \<Longrightarrow> byte_at buf p = Ok (ucast (buf ! p))"
  by (simp add: byte_at_def)

lemma decode1_ok:
  assumes "p \<le> pe" "pe + 3 \<le> length buf"
  shows "\<exists>c p'. uv__utf8_decode1 buf p pe = Ok (c, p')"
proof (cases "p = pe")
  case True
  then show ?thesis using assms by (auto simp: uv__utf8_decode1_def uv__utf8_decode1_slow_def Let_def)
next
  case False
  then have "p + 4 \<le> length buf" using assms by simp
  then show ?thesis by (auto simp: uv__utf8_decode1_def uv__utf8_decode1_slow_def Let_def)
qed

lemma foreach_ok:
  "pe + 3 \<le> length buf \<Longrightarrow> \<exists>cs. foreach_codepoint buf p pe = Ok cs \<and> length cs \<le> pe - p"
proof (induction buf p pe rule: foreach_codepoint.induct)
  case (1 buf p pe)
  show ?case
  proof (cases "p \<le> pe")
    case True
    then obtain c p' where d: "uv__utf8_decode1 buf p pe = Ok (c, p')" using decode1_ok 1(2) by blast
    have "p < p'" using decode1_forward [OF d] by simp
    moreover have "\<exists>cs. foreach_codepoint buf p' pe = Ok cs \<and> length cs \<le> pe - p'" if "p' \<le> pe" using 1 True d that by blast
    ultimately show ?thesis using True d by (cases "p' \<le> pe") (fastforce simp: foreach_codepoint.simps [of buf p])+
  qed (simp add: foreach_codepoint.simps)
qed

definition ascii_count :: "u32 list \<Rightarrow> nat" where
  "ascii_count cs = length (filter (\<lambda>c. c < 128) cs)"

definition from_count :: "u32 \<Rightarrow> u32 list \<Rightarrow> nat" where
  "from_count n cs = length (filter (\<lambda>c. n \<le> c) cs)"

lemma count_simps [simp]:
  "ascii_count [] = 0" "ascii_count (c # cs) = (if c < 128 then 1 else 0) + ascii_count cs"
  "from_count n [] = 0" "from_count n (c # cs) = (if n \<le> c then 1 else 0) + from_count n cs"
  by (simp_all add: ascii_count_def from_count_def)

lemma ascii_from_count: "ascii_count cs + from_count 128 cs = length cs"
  by (induction cs) (auto simp: not_less [symmetric])

lemma count_loop_foreach:
  "foreach_codepoint buf p pe = Ok cs \<Longrightarrow>
   count_loop buf p pe h todo = (if -1 \<in> set cs then Fail else Ok (h + of_nat (ascii_count cs), todo + of_nat (from_count 128 cs)))"
proof (induction buf p pe arbitrary: cs h todo rule: foreach_codepoint.induct)
  case (1 buf p pe)
  show ?case
  proof (cases "p \<le> pe")
    case True
    show ?thesis
    proof (cases "uv__utf8_decode1 buf p pe")
      case (Ok r)
      obtain c p' where r: "r = (c, p')" by (rule prod.exhaust)
      show ?thesis
      proof (cases "p' \<le> pe")
        case True
        have f: "foreach_codepoint buf p pe = bind_out (foreach_codepoint buf p' pe) (\<lambda>cs. Ok (c # cs))"
          using True \<open>p \<le> pe\<close> Ok r by (simp add: foreach_codepoint.simps [of buf p])
        then obtain cs' where cs: "foreach_codepoint buf p' pe = Ok cs'" "cs = c # cs'"
          using 1(2) by (cases "foreach_codepoint buf p' pe") auto
        have "count_loop buf p' pe h todo = (if -1 \<in> set cs' then Fail else Ok (h + of_nat (ascii_count cs'), todo + of_nat (from_count 128 cs')))" for h todo
          using 1(1) [OF \<open>p \<le> pe\<close> Ok r [symmetric] True cs(1)] by simp
        then show ?thesis using True \<open>p \<le> pe\<close> Ok r cs(2) by (auto simp: count_loop.simps [of buf p] not_less [symmetric] ac_simps)
      next
        case False
        then show ?thesis using \<open>p \<le> pe\<close> Ok r 1(2) by (simp add: foreach_codepoint.simps [of buf p] count_loop.simps [of buf p])
      qed
    qed (use True 1(2) in \<open>simp_all add: foreach_codepoint.simps [of buf p]\<close>)
  next
    case False
    then show ?thesis using 1(2) by (simp add: foreach_codepoint.simps [of buf p] count_loop.simps [of buf p])
  qed
qed

section \<open>Writing\<close>

lemma emit_char_length [simp]: "length (emit_char cap c out) \<le> cap \<longleftrightarrow> length out \<le> cap"
  by (auto simp: emit_char_def)

lemma copy_ascii_length [simp]: "length out \<le> cap \<Longrightarrow> length (copy_ascii cap cs x h out) \<le> cap"
  by (induction cs arbitrary: x out) (auto simp: Let_def)

lemma emit_digit_ok: "unat t < 36 \<Longrightarrow> length out \<le> cap \<Longrightarrow> \<exists>out'. emit_digit cap t out = Ok out' \<and> length out' \<le> cap"
  by (auto simp: emit_digit_def alphabet_def)

lemma digit_small:
  assumes "\<not> q < threshold k bias"
  shows "unat (threshold k bias + (q - threshold k bias) mod (36 - threshold k bias)) = unat (threshold k bias) + (unat q - unat (threshold k bias)) mod (36 - unat (threshold k bias))"
    and "unat (threshold k bias + (q - threshold k bias) mod (36 - threshold k bias)) < 36"
proof -
  let ?t = "threshold k bias"
  have r: "1 \<le> unat ?t" "unat ?t \<le> 26" using threshold_range by auto
  have y: "unat (36 - ?t) = 36 - unat ?t" using r by (simp add: unat_sub word_le_nat_alt)
  have x: "unat (q - ?t) = unat q - unat ?t" using assms by (simp add: unat_sub)
  have m: "unat ((q - ?t) mod (36 - ?t)) = (unat q - unat ?t) mod (36 - unat ?t)" using x y by (simp add: unat_mod_distrib)
  have "(unat q - unat ?t) mod (36 - unat ?t) < 36 - unat ?t" using r by (intro mod_less_divisor) linarith
  then have l: "unat ?t + (unat q - unat ?t) mod (36 - unat ?t) < 36" using r by linarith
  then show e: "unat (?t + (q - ?t) mod (36 - ?t)) = unat ?t + (unat q - unat ?t) mod (36 - unat ?t)"
    unfolding unat_plus_if' m by simp
  show "unat (?t + (q - ?t) mod (36 - ?t)) < 36" using l unfolding e .
qed

lemma digits_loop_ok: "length out \<le> cap \<Longrightarrow> \<exists>out'. digits_loop cap bias k q out = Ok out' \<and> length out' \<le> cap"
proof (induction cap bias k q out rule: digits_loop.induct)
  case (1 cap bias k q out)
  let ?t = "threshold k bias"
  show ?case
  proof (cases "q < ?t")
    case True
    then have "unat q < 36" using threshold_range [of k bias] by (simp add: word_less_nat_alt)
    then show ?thesis using True emit_digit_ok 1(2) by (simp add: digits_loop.simps [of cap bias k])
  next
    case False
    obtain out' where o: "emit_digit cap (?t + (q - ?t) mod (36 - ?t)) out = Ok out'" "length out' \<le> cap"
      using emit_digit_ok [OF digit_small(2) [OF False] 1(2)] by blast
    show ?thesis using 1(1) [OF refl False refl refl o] False o(1) by (simp add: digits_loop.simps [of cap bias k] Let_def)
  qed
qed

lemma bias_loop_small: "unat (snd (bias_loop bias delta)) \<le> 455"
proof (induction bias delta rule: bias_loop.induct)
  case (1 bias delta)
  then show ?case by (cases "455 < delta") (simp_all add: bias_loop.simps [of bias delta] word_less_nat_alt)
qed

lemma adapt_ok:
  assumes "unat (py_h st) + 1 < 2 ^ 32"
  shows "\<exists>bias. adapt st = Ok (st\<lparr>py_first := False, py_h := py_h st + 1, py_bias := bias, py_delta := 0, py_todo := py_todo st - 1\<rparr>)"
proof -
  have "unat (py_h st + 1) = unat (py_h st) + 1" using assms by (simp add: unat_plus_if')
  then have "py_h st + 1 \<noteq> 0" by (metis Suc_eq_plus1 nat.distinct(1) unat_0)
  moreover have "d + 38 \<noteq> 0" if "bias_loop 0 delta = (b, d)" for b d delta
  proof -
    have "unat d \<le> 455" using bias_loop_small [of 0 delta] that by simp
    then have "unat (d + 38) = unat d + 38" by (simp add: unat_plus_if')
    then show ?thesis by (metis add_eq_0_iff_both_eq_0 unat_0 zero_neq_numeral)
  qed
  ultimately show ?thesis by (auto simp: adapt_def Let_def split: prod.splits)
qed

section \<open>Encoding a label\<close>

lemma punycode_pass_ok:
  assumes "length (py_out st) \<le> cap" "unat (py_h st) + count_list cs m + 1 < 2 ^ 32" "count_list cs m \<le> unat (py_todo st)"
  shows "(\<exists>st'. punycode_pass cap m cs st = (Fail, st') \<and> length (py_out st') \<le> cap) \<or>
    (\<exists>st'. punycode_pass cap m cs st = (Ok (), st') \<and> length (py_out st') \<le> cap \<and> unat (py_h st') = unat (py_h st) + count_list cs m \<and>
      unat (py_todo st') = unat (py_todo st) - count_list cs m)"
  using assms
proof (induction cs arbitrary: st)
  case (Cons c cs)
  define st1 where "st1 = (if c < m then st\<lparr>py_delta := py_delta st + 1\<rparr> else st)"
  have st1: "py_h st1 = py_h st" "py_todo st1 = py_todo st" "py_out st1 = py_out st" by (simp_all add: st1_def)
  show ?case
  proof (cases "c = m")
    case False
    then have "punycode_pass cap m (c # cs) st = (if c < m \<and> py_delta st1 = 0 then (Fail, st1) else punycode_pass cap m cs st1)"
      by (simp add: st1_def Let_def)
    then show ?thesis using Cons.IH [of st1] Cons.prems st1 False by auto
  next
    case True
    obtain out where o: "digits_loop cap (py_bias st) 36 (py_delta st) (py_out st) = Ok out" "length out \<le> cap"
      using digits_loop_ok Cons.prems(1) by blast
    obtain bias where a: "adapt (st\<lparr>py_out := out\<rparr>) = Ok (st\<lparr>py_out := out, py_first := False, py_h := py_h st + 1, py_bias := bias, py_delta := 0, py_todo := py_todo st - 1\<rparr>)"
      using adapt_ok [of "st\<lparr>py_out := out\<rparr>"] Cons.prems(2) by auto
    have "unat (py_h st + 1) = unat (py_h st) + 1" using Cons.prems(2) by (simp add: unat_plus_if')
    moreover have "unat (py_todo st - 1) = unat (py_todo st) - 1" using Cons.prems(3) True by (subst unat_sub) (simp_all add: word_le_nat_alt)
    ultimately show ?thesis
      using Cons.IH [of "st\<lparr>py_out := out, py_first := False, py_h := py_h st + 1, py_bias := bias, py_delta := 0, py_todo := py_todo st - 1\<rparr>"]
        Cons.prems True o a by simp
  qed
qed simp

lemma least_fold:
  fixes m :: u32 and n :: u32 and cs :: "u32 list"
  defines "r \<equiv> fold (\<lambda>c m. if n \<le> c then if c < m then c else m else m) cs m"
  shows "(r = m \<or> r \<in> set cs \<and> n \<le> r) \<and> r \<le> m \<and> (\<forall>c \<in> set cs. n \<le> c \<longrightarrow> r \<le> c)"
  unfolding r_def
proof (induction cs arbitrary: m)
  case (Cons c cs)
  show ?case using Cons [of "if n \<le> c then if c < m then c else m else m"] by (auto split: if_splits)
qed simp

lemma least_from:
  assumes "from_count n cs \<noteq> 0"
  shows "least_from n cs \<in> set cs" "n \<le> least_from n cs" "\<And>c. c \<in> set cs \<Longrightarrow> n \<le> c \<Longrightarrow> least_from n cs \<le> c"
proof -
  obtain c where c: "c \<in> set cs" "n \<le> c" using assms by (auto simp: from_count_def filter_empty_conv)
  note l = least_fold [of n cs "-1", folded least_from_def]
  have "least_from n cs = c" if "least_from n cs = -1" using l c that by (simp add: word_order.extremum_unique)
  then show "least_from n cs \<in> set cs" "n \<le> least_from n cs" using l c by auto
  show "least_from n cs \<le> c" if "c \<in> set cs" "n \<le> c" for c using l that by blast
qed

lemma word_Suc_le: "m \<noteq> -1 \<Longrightarrow> m + 1 \<le> c \<longleftrightarrow> m < (c :: u32)"
proof -
  assume "m \<noteq> -1"
  then have "unat m \<noteq> 2 ^ 32 - 1" using unat_eq_of_nat [of m "2 ^ 32 - 1"] by auto
  then have "unat (m + 1) = unat m + 1" using unat_u32_less [of m] by (simp add: unat_plus_if')
  then show ?thesis by (simp add: word_le_nat_alt word_less_nat_alt Suc_le_eq)
qed

lemma from_count_split:
  assumes "n \<le> m" "m \<noteq> -1" "\<And>c. c \<in> set cs \<Longrightarrow> n \<le> c \<Longrightarrow> m \<le> c"
  shows "from_count n cs = count_list cs m + from_count (m + 1) cs"
  using assms
proof (induction cs)
  case (Cons c cs)
  have "m + 1 \<le> c \<longleftrightarrow> m < c" using Cons.prems(2) by (simp add: word_Suc_le)
  moreover have "n \<le> c \<longleftrightarrow> m \<le> c" using Cons.prems(1,3) by (metis list.set_intros(1) order_trans)
  ultimately show ?case using Cons by (auto simp: order_le_less)
qed simp

text \<open>Between two rounds: every code point below \<open>n\<close> is counted in \<^verbatim>\<open>h\<close>, and \<^verbatim>\<open>todo\<close> counts the others.\<close>

definition round_inv :: "nat \<Rightarrow> u32 list \<Rightarrow> u32 \<Rightarrow> puny \<Rightarrow> bool" where
  "round_inv cap cs n st \<longleftrightarrow> -1 \<notin> set cs \<and> length cs + 1 < 2 ^ 32 \<and> unat (py_h st) + unat (py_todo st) = length cs \<and>
     unat (py_todo st) = from_count n cs \<and> length (py_out st) \<le> cap"

lemma round_least:
  assumes "round_inv cap cs n st" "py_todo st \<noteq> 0"
  defines "m \<equiv> least_from n cs"
  shows "m \<in> set cs" "n \<le> m" "m \<noteq> -1" "from_count n cs = count_list cs m + from_count (m + 1) cs"
proof -
  have "from_count n cs \<noteq> 0" using assms(1,2) unat_eq_of_nat [of "py_todo st" 0] by (auto simp: round_inv_def)
  note l = least_from [OF this, folded m_def]
  show "m \<in> set cs" "n \<le> m" using l by simp_all
  show ne: "m \<noteq> -1" using l(1) assms(1) by (auto simp: round_inv_def)
  show "from_count n cs = count_list cs m + from_count (m + 1) cs" using l(2) ne l(3) by (rule from_count_split)
qed

lemma punycode_round_ok:
  assumes "round_inv cap cs n st" "py_todo st \<noteq> 0"
  shows "(\<exists>st'. punycode_round cap cs n st = (Fail, st') \<and> length (py_out st') \<le> cap) \<or>
    (\<exists>n' st'. punycode_round cap cs n st = (Ok n', st') \<and> round_inv cap cs n' st' \<and> unat (py_todo st') < unat (py_todo st))"
proof -
  define m where "m = least_from n cs"
  define st1 where "st1 = st\<lparr>py_delta := py_delta st + (m - n) * (py_h st + 1)\<rparr>"
  note i = assms(1) [unfolded round_inv_def] and l = round_least [OF assms, folded m_def]
  have pos: "0 < count_list cs m" using l(1) count_list_0_iff [of cs m] by auto
  have "unat (py_h st + 1) = unat (py_h st) + 1" using i by (simp add: unat_plus_if')
  then have "py_h st + 1 \<noteq> 0" by (metis Suc_eq_plus1 nat.distinct(1) unat_0)
  then have e: "punycode_round cap cs n st = (if NOT (py_delta st) div (py_h st + 1) < m - n then (Fail, st)
      else seq_ok (punycode_pass cap m cs st1) (\<lambda>_ st. (Ok (m + 1), st\<lparr>py_delta := py_delta st + 1\<rparr>)))"
    by (simp add: punycode_round_def Let_def m_def st1_def)
  have "(\<exists>st'. punycode_pass cap m cs st1 = (Fail, st') \<and> length (py_out st') \<le> cap) \<or> (\<exists>st'. punycode_pass cap m cs st1 = (Ok (), st') \<and> length (py_out st') \<le> cap \<and>
      unat (py_h st') = unat (py_h st1) + count_list cs m \<and> unat (py_todo st') = unat (py_todo st1) - count_list cs m)"
    using i l(4) by (intro punycode_pass_ok) (simp_all add: st1_def)
  then show ?thesis
  proof (elim disjE exE conjE, goal_cases)
    case (2 st')
    then have "round_inv cap cs (m + 1) (st'\<lparr>py_delta := py_delta st' + 1\<rparr>)" using i l(4) by (simp add: round_inv_def st1_def)
    moreover have "unat (py_todo st') < unat (py_todo st)" using 2 i l(4) pos by (simp add: st1_def)
    ultimately show ?case using e 2(1) i by simp
  qed (use i in \<open>simp add: e\<close>)
qed

lemma punycode_loop_ok:
  assumes "round_inv cap cs n st"
  shows "(\<exists>st'. punycode_loop cap cs n st = Some (Fail, st') \<and> length (py_out st') \<le> cap) \<or>
    (\<exists>n' st'. punycode_loop cap cs n st = Some (Ok (), st') \<and> round_inv cap cs n' st' \<and> py_todo st' = 0)"
  using assms
proof (induction "unat (py_todo st)" arbitrary: n st rule: less_induct)
  case less
  show ?case
  proof (cases "py_todo st = 0")
    case True
    then show ?thesis using less.prems by (auto simp: punycode_loop.simps)
  next
    case False
    from punycode_round_ok [OF less.prems False] show ?thesis
    proof (elim disjE exE conjE, goal_cases)
      case (2 n' st')
      then show ?case using less.hyps [of st' n'] False by (simp add: punycode_loop.simps [of cap cs n])
    qed (use False in \<open>simp add: punycode_loop.simps [of cap cs n]\<close>)
  qed
qed

text \<open>The state in which a label with characters beyond ASCII is encoded.\<close>

definition puny_start :: "nat \<Rightarrow> u32 list \<Rightarrow> byte list \<Rightarrow> puny" where
  "puny_start cap cs d =
     (let h = of_nat (ascii_count cs);
          d = copy_ascii cap cs 0 h (emit_char cap 45 (emit_char cap 45 (emit_char cap 110 (emit_char cap 120 d))))
      in \<lparr>py_delta = 0, py_h = h, py_bias = 72, py_first = True, py_todo = of_nat (from_count 128 cs), py_out = if 0 < h then emit_char cap 45 d else d\<rparr>)"

lemma unat_counts:
  assumes "length cs + 1 < 2 ^ 31"
  shows "unat (of_nat (ascii_count cs) :: u32) = ascii_count cs" "unat (of_nat (from_count 128 cs) :: u32) = from_count 128 cs"
    "0 \<le> sint (of_nat (ascii_count cs) :: u32)"
proof -
  let ?h = "of_nat (ascii_count cs) :: u32"
  note sm = ascii_from_count [of cs]
  show h: "unat ?h = ascii_count cs" "unat (of_nat (from_count 128 cs) :: u32) = from_count 128 cs"
    using assms sm by (simp_all add: unat_of_nat)
  show "0 \<le> sint ?h" using assms sm h sint_neg_iff_bit [of ?h] bit_top_iff [where w = ?h and n = 31] by simp
qed

lemma label_encodes:
  assumes "foreach_codepoint buf s se = Ok cs" "-1 \<notin> set cs" "from_count 128 cs \<noteq> 0" "length cs + 1 < 2 ^ 31"
  shows "uv__idna_toascii_label buf s se cap d = map_option (\<lambda>(r, st). case r of
      Ok _ \<Rightarrow> (Ok 0, py_out st) | Fail \<Rightarrow> (Ok UV_E2BIG, py_out st) | Undef \<Rightarrow> (Undef, py_out st))
      (punycode_loop cap cs 128 (puny_start cap cs d))"
proof -
  let ?todo = "of_nat (from_count 128 cs) :: u32"
  have "?todo \<noteq> 0" using unat_counts(2) [OF assms(4)] assms(3) by (metis unat_0)
  then have "?todo \<noteq> 0" "0 < ?todo" by (simp_all add: word_neq_0_conv)
  then show ?thesis using count_loop_foreach [OF assms(1), of 0 0] assms(1,2)
    unfolding uv__idna_toascii_label_def puny_start_def Let_def puny.select_convs by simp
qed

lemma round_inv_start:
  assumes "-1 \<notin> set cs" "length cs + 1 < 2 ^ 31" "length d \<le> cap"
  shows "round_inv cap cs 128 (puny_start cap cs d)"
  using assms unat_counts [OF assms(2)] ascii_from_count [of cs] by (simp add: round_inv_def puny_start_def Let_def)

lemma label_ok:
  assumes "se + 3 \<le> length buf" "length buf < 2 ^ 31" "length d \<le> cap"
  shows "\<exists>rc d'. uv__idna_toascii_label buf s se cap d = Some (Ok rc, d') \<and> length d' \<le> cap \<and> (rc < 0 \<longrightarrow> rc = UV_EINVAL \<or> rc = UV_E2BIG)"
proof -
  obtain cs where cs: "foreach_codepoint buf s se = Ok cs" "length cs \<le> se - s" using foreach_ok assms(1) by blast
  have len: "length cs + 1 < 2 ^ 31" using cs(2) assms(1,2) by linarith
  note c = count_loop_foreach [OF cs(1), of 0 0, simplified]
  show ?thesis
  proof (cases "-1 \<in> set cs \<or> from_count 128 cs = 0")
    case True
    then show ?thesis using c cs(1) assms(3) unat_counts(3) [OF len] by (auto simp: uv__idna_toascii_label_def Let_def)
  next
    case False
    then have i: "round_inv cap cs 128 (puny_start cap cs d)" using round_inv_start len assms(3) by blast
    show ?thesis using label_encodes [OF cs(1) _ _ len] False punycode_loop_ok [OF i] i by (auto simp: round_inv_def)
  qed
qed

section \<open>Names\<close>

lemma labels_ok:
  assumes "se + 3 \<le> length buf" "length buf < 2 ^ 31" "length d \<le> cap"
  shows "\<exists>rc s' d'. labels_loop buf s si se cap d = Some (Ok rc, s', d') \<and> length d' \<le> cap \<and> (rc = 0 \<or> rc = UV_EINVAL \<or> rc = UV_E2BIG)"
  using assms(3)
proof (induction "se - si" arbitrary: s si d rule: less_induct)
  case less
  show ?case
  proof (cases "si < se")
    case True
    then obtain c si' where c: "uv__utf8_decode1 buf si se = Ok (c, si')" using decode1_ok [of si se buf] assms(1) by auto
    have less': "se - si' < se - si" using decode1_forward [OF c] True by linarith
    obtain rc d1 where l: "uv__idna_toascii_label buf s si cap d = Some (Ok rc, d1)" "length d1 \<le> cap" "rc < 0 \<longrightarrow> rc = UV_EINVAL \<or> rc = UV_E2BIG"
      using label_ok [of si buf d cap s] True assms(1,2) less.prems by auto
    show ?thesis
      using less.hyps [OF less', of d s] less.hyps [OF less', of "emit_char cap 46 d1" si'] less.prems True c l
      by (auto simp: labels_loop.simps [of buf s si])
  qed (use less.prems in \<open>simp add: labels_loop.simps [of buf s si]\<close>)
qed

text \<open>C31: The conversion of a domain name to ASCII returns and stays inside of its buffers when three readable bytes follow the name: it
  does not fill more than the output it has been given, and returns how many bytes it has written, or that the name is invalid or too big.\<close>

theorem idna_returns:
  assumes "s \<le> se" "se + 3 \<le> length buf" "length buf < 2 ^ 31"
  shows "\<exists>r out. uv__idna_toascii buf s se cap = Some (Ok r, out) \<and> length out \<le> cap \<and>
    (r = int (length out) \<or> r = UV_EINVAL \<or> r = UV_E2BIG)"
proof -
  obtain rc s' d where l: "labels_loop buf s s se cap [] = Some (Ok rc, s', d)" "length d \<le> cap" "rc = 0 \<or> rc = UV_EINVAL \<or> rc = UV_E2BIG"
    using labels_ok [OF assms(2,3), of "[]" cap s s] by auto
  obtain rc' d' where l': "uv__idna_toascii_label buf s' se cap d = Some (Ok rc', d')" "length d' \<le> cap" "rc' < 0 \<longrightarrow> rc' = UV_EINVAL \<or> rc' = UV_E2BIG"
    using label_ok [OF assms(2,3) l(2)] by blast
  show ?thesis using l l' by (auto simp: uv__idna_toascii_def Let_def)
qed

theorem idna_returns_witness:
  "\<exists>r out. uv__idna_toascii [0xC3, 0xA9, 46, 99, 0, 0, 0] 0 4 20 = Some (Ok r, out) \<and> length out \<le> 20 \<and>
    (r = int (length out) \<or> r = UV_EINVAL \<or> r = UV_E2BIG)"
  by (rule idna_returns) simp_all

section \<open>Labels in ASCII\<close>

lemma take_emit: "emit_char cap c (take cap out) = take cap (out @ [c])"
  by (auto simp: emit_char_def)

lemma ascii_small: "unat (b :: byte) < 128 \<Longrightarrow> ucast b < (128 :: u32) \<and> \<not> 127 < (ucast b :: u32)"
  by (simp add: word_less_nat_alt unat_ucast_up)

lemma copy_ascii_take:
  "unat x + ascii_count cs = unat h \<Longrightarrow> copy_ascii cap cs x h (take cap out) = take cap (out @ map ucast (filter (\<lambda>c. c < 128) cs))"
proof (induction cs arbitrary: x out)
  case (Cons c cs)
  have "127 < c \<longleftrightarrow> \<not> c < 128" by (auto simp: word_less_nat_alt)
  moreover have "unat (x + 1) = unat x + 1" if "c < 128" using that Cons.prems unat_u32_less [of h] by (simp add: unat_plus_if')
  moreover have "ascii_count cs = 0" if "c < 128" "x + 1 = h" using that Cons.prems calculation by simp
  moreover have "filter (\<lambda>c. c < 128) cs = []" if "ascii_count cs = 0" using that by (simp add: ascii_count_def)
  ultimately show ?case using Cons.IH [of "x + 1" "out @ [ucast c]"] Cons.IH [of x out] Cons.prems
    by (cases "x + 1 = h") (auto simp: take_emit [of cap _ out] Let_def simp del: take_append)
qed simp

lemma label_plain:
  assumes "foreach_codepoint buf s se = Ok cs" "\<forall>c \<in> set cs. c < 128" "length cs + 1 < 2 ^ 31"
  shows "\<exists>rc. uv__idna_toascii_label buf s se cap (take cap d) = Some (Ok rc, take cap (d @ map ucast cs)) \<and> 0 \<le> rc"
proof -
  have f: "filter (\<lambda>c. c < 128) cs = cs" using assms(2) by (intro filter_True) auto
  then have a: "ascii_count cs = length cs" "from_count 128 cs = 0" using ascii_from_count [of cs] by (simp_all add: ascii_count_def)
  have "-1 \<notin> set cs" using assms(2) by (metis word_order.extremum_strict)
  moreover note unat_counts [OF assms(3)]
  ultimately show ?thesis
    using count_loop_foreach [OF assms(1), of 0 0] copy_ascii_take [of 0 cs "of_nat (ascii_count cs)" cap d] a f assms(1)
    by (simp add: uv__idna_toascii_label_def)
qed

lemma is_dot_ascii: "unat (b :: byte) < 128 \<Longrightarrow> is_dot (ucast b) \<longleftrightarrow> b = 46"
proof -
  assume "unat b < 128"
  moreover have "(ucast b :: u32) = 46 \<longleftrightarrow> b = 46"
    using unat_ucast_up [where 'b = 32, of b] unat_eq_of_nat [of b 46] by auto
  ultimately show ?thesis using ascii_small [of b] by (auto simp: is_dot_def)
qed

section \<open>The bytes behind the name\<close>

lemma lead_undef:
  assumes "240 \<le> unat (buf ! p)" "unat (buf ! p) \<le> 247" "length buf = p + 2" "pe = p + 1"
  shows "uv__utf8_decode1 buf p pe = Undef"
proof -
  have "unat (ucast (buf ! p) :: u32) = unat (buf ! p)" by (simp add: unat_ucast_up)
  then have "\<not> ucast (buf ! p) < (128 :: u32)" "\<not> 247 < (ucast (buf ! p) :: u32)" "239 < (ucast (buf ! p) :: u32)"
    using assms(1,2) by (simp_all add: word_less_nat_alt)
  then show ?thesis using assms(3,4) by (simp add: uv__utf8_decode1_def uv__utf8_decode1_slow_def byte_at_def Let_def)
qed

lemma labels_lead_undef:
  assumes "length buf = se + 1" "0 < se" "240 \<le> unat (buf ! (se - 1))" "unat (buf ! (se - 1)) \<le> 247"
    and "\<forall>i < se - 1. unat (buf ! i) < 128 \<and> buf ! i \<noteq> 46" "si \<le> se - 1"
  shows "labels_loop buf s si se cap d = Some (Undef, s, d)"
  using assms(6)
proof (induction "se - 1 - si" arbitrary: si)
  case 0
  then have si: "se - 1 = si" "si < se" "se = si + 1" using assms(2) by linarith+
  have "uv__utf8_decode1 buf si se = Undef"
    using assms(1) assms(3,4) [unfolded si(1)] si(3) by (intro lead_undef) linarith+
  then show ?case using si(2) by (subst labels_loop.simps) simp
next
  case (Suc n)
  have lt: "si < se" using Suc.hyps(2) by simp
  have b: "unat (buf ! si) < 128" "buf ! si \<noteq> 46" using assms(5) Suc.hyps(2) by auto
  have "uv__utf8_decode1 buf si se = Ok (ucast (buf ! si), si + 1)"
    using b(1) Suc.prems assms(1) ascii_small [OF b(1)] by (simp add: uv__utf8_decode1_def)
  then have "labels_loop buf s si se cap d = labels_loop buf s (si + 1) se cap d"
    using b is_dot_ascii [OF b(1)] lt by (simp add: labels_loop.simps [of buf s si])
  also have "\<dots> = Some (Undef, s, d)" using Suc.hyps(2) by (intro Suc.hyps(1)) simp_all
  finally show ?case .
qed

text \<open>C35: Without those bytes the decoder reads behind the end of a string: the switch in \<^verbatim>\<open>uv__utf8_decode1_slow\<close> is on \<^verbatim>\<open>*p - pe\<close>, which is not
  the number of bytes left. A zero-terminated name that ends with the first byte of a sequence of four is read beyond its terminating zero.\<close>

theorem idna_overread:
  assumes "\<forall>b \<in> set xs. unat b < 128 \<and> b \<noteq> 46" "240 \<le> unat a" "unat a \<le> 247"
  shows "uv__idna_toascii (xs @ [a, 0]) 0 (length xs + 1) cap = Some (Undef, [])"
proof -
  have "labels_loop (xs @ [a, 0]) 0 0 (length xs + 1) cap [] = Some (Undef, 0, [])"
    using assms by (intro labels_lead_undef) (auto simp: nth_append)
  then show ?thesis by (simp add: uv__idna_toascii_def)
qed

theorem idna_overread_witness: "uv__idna_toascii ([97] @ [0xF0, 0]) 0 (length [97 :: byte] + 1) 10 = Some (Undef, [])"
  by (rule idna_overread) simp_all

end
