(* ===== verification/Uv_Utf8.thy ===== *)
theory Uv_Utf8
  imports Uv_Idna_Laws Unicode
begin

text \<open>
  The decoder of UTF-8 in \<^verbatim>\<open>src/idna.c\<close> against the encoding that \<^verbatim>\<open>crypto/bytestring/unicode.c\<close> reads and writes: it decodes every
  encoded character, and also accepts sequences that are none.
\<close>

section \<open>Joining the bits\<close>

definition top2 :: "u32 \<Rightarrow> u32" where
  "top2 x = take_bit 2 (drop_bit 6 x)"

lemma unat_top2: "unat (top2 x) = unat x div 64 mod 4"
  by (simp add: top2_def unat_take_bit_mod unat_drop_bit_div)

lemma top2_eq_2: "top2 x = 2 \<longleftrightarrow> unat x div 64 mod 4 = 2"
  using unat_top2 [of x] unat_eq_of_nat [of "top2 x" 2] by auto

lemma top2_xor: "top2 (b XOR c XOR d) = top2 b XOR top2 c XOR top2 d"
  by (simp add: top2_def)

lemma top_test: "0x80 = 0xC0 AND x \<longleftrightarrow> top2 x = (2 :: u32)"
proof -
  have "0xC0 = push_bit 6 (mask 2 :: u32)" by (simp add: mask_eq_exp_minus_1)
  then have "unat (0xC0 AND x) = unat x div 64 mod 4 * 64" using unat_and_field [of 6 2 x] by (simp add: and.commute)
  then show ?thesis unfolding top2_eq_2 word_unat_eq_iff [of "0x80"] by auto
qed

lemma unat_and_mask: "m = mask k \<Longrightarrow> unat ((x :: u32) AND m) = unat x mod 2 ^ k"
  by (simp add: take_bit_eq_mask [symmetric] unat_take_bit_mod)

lemma unat_u32_and_63: "unat ((x :: u32) AND 63) = unat x mod 64"
  using unat_and_mask [of 63 6 x] by (simp add: mask_eq_exp_minus_1)

lemma join_bits:
  fixes a b c d :: u32
  assumes "unat a < 8" "unat b < 64" "unat c < 64" "unat d < 64"
  shows "unat (push_bit 18 a OR push_bit 12 b OR push_bit 6 c OR d) = unat a * 2 ^ 18 + unat b * 2 ^ 12 + unat c * 64 + unat d"
proof -
  let ?cd = "d OR push_bit 6 c" let ?bcd = "?cd OR push_bit 12 b"
  have cd: "unat ?cd = unat d + unat c * 64" using unat_or_push_bit [of d 6 c] assms by simp
  have bcd: "unat ?bcd = unat d + unat c * 64 + unat b * 2 ^ 12" using unat_or_push_bit [of ?cd 12 b] assms by (simp add: cd)
  have "unat (?bcd OR push_bit 18 a) = unat d + unat c * 64 + unat b * 2 ^ 12 + unat a * 2 ^ 18"
    using unat_or_push_bit [of ?bcd 18 a] assms by (simp add: bcd)
  then show ?thesis by (simp add: ac_simps or.commute or.left_commute)
qed

lemma join_cases:
  fixes a b c d lo :: u32
  defines "v \<equiv> push_bit 18 a OR push_bit 12 (b AND 63) OR push_bit 6 (c AND 63) OR d AND 63"
  shows "utf8_join lo a b c d = (if top2 b XOR top2 c XOR top2 d \<noteq> 2 then -1 else if v < lo then -1 else if 0x10FFFF < v then -1
    else if 0xD800 \<le> v \<and> v \<le> 0xDFFF then -1 else v)"
  unfolding utf8_join_def Let_def v_def top_test top2_xor by (rule refl)

lemma join_value:
  assumes "unat a < 8" "top2 b XOR top2 c XOR top2 d = 2"
    and "unat a * 2 ^ 18 + unat b mod 64 * 2 ^ 12 + unat c mod 64 * 64 + unat d mod 64 = n"
    and "unat lo \<le> n" "n \<le> 0x10FFFF" "\<not> (0xD800 \<le> n \<and> n \<le> 0xDFFF)"
  shows "utf8_join lo a b c d = of_nat n"
proof -
  define v where "v = push_bit 18 a OR push_bit 12 (b AND 63) OR push_bit 6 (c AND 63) OR d AND 63"
  have v: "unat v = n"
    using join_bits [OF assms(1), of "b AND 63" "c AND 63" "d AND 63"] assms(3) unfolding v_def unat_u32_and_63 by simp
  have "\<not> v < lo" "\<not> 0x10FFFF < v" "\<not> (0xD800 \<le> v \<and> v \<le> 0xDFFF)"
    unfolding word_less_nat_alt word_le_nat_alt v using assms(4-6) by simp_all
  then show ?thesis using join_cases [of lo a b c d, folded v_def] unat_eq_of_nat [OF v] assms(2) by (auto simp del: not_less not_le)
qed

definition code_range :: "u32 \<Rightarrow> bool" where
  "code_range c \<longleftrightarrow> c = -1 \<or> unat c \<le> 0x10FFFF"

lemma join_range [simp]: "code_range (utf8_join lo a b c d)"
  unfolding join_cases by (auto simp: code_range_def word_less_nat_alt)

lemma ascii_range: "c < 128 \<Longrightarrow> code_range c"
  by (simp add: code_range_def word_less_nat_alt)

section \<open>One character\<close>

lemma slow_range: "uv__utf8_decode1_slow buf p pe a = Ok (c, p') \<Longrightarrow> code_range c"
  unfolding uv__utf8_decode1_slow_def Let_def by (auto simp: bind_out_eq_Ok split: if_splits) (simp_all add: code_range_def)

lemma decode1_range: "uv__utf8_decode1 buf p pe = Ok (c, p') \<Longrightarrow> code_range c"
  unfolding uv__utf8_decode1_def by (auto simp: bind_out_eq_Ok dest: slow_range ascii_range split: if_splits)

lemma foreach_range: "foreach_codepoint buf p pe = Ok cs \<Longrightarrow> c \<in> set cs \<Longrightarrow> code_range c"
proof (induction buf p pe arbitrary: cs rule: foreach_codepoint.induct)
  case (1 buf p pe)
  show ?case
  proof (cases "p \<le> pe \<and> (\<exists>c p'. uv__utf8_decode1 buf p pe = Ok (c, p') \<and> p' \<le> pe)")
    case True
    then obtain c' p' where d: "p \<le> pe" "uv__utf8_decode1 buf p pe = Ok (c', p')" "p' \<le> pe" by blast
    then obtain cs' where "foreach_codepoint buf p' pe = Ok cs'" "cs = c' # cs'"
      using 1(2) by (cases "foreach_codepoint buf p' pe") (simp_all add: foreach_codepoint.simps [of buf p])
    then show ?thesis using 1(1) [OF d(1,2) refl d(3)] decode1_range [OF d(2)] 1(3) by auto
  next
    case False
    then have "cs = []" using 1(2) by (cases "uv__utf8_decode1 buf p pe") (auto simp: foreach_codepoint.simps [of buf p] split: if_splits)
    then show ?thesis using 1(3) by simp
  qed
qed

definition scalar :: "nat \<Rightarrow> bool" where
  "scalar n \<longleftrightarrow> n \<le> 0x10FFFF \<and> \<not> (0xD800 \<le> n \<and> n \<le> 0xDFFF)"

lemma unat_of_byte: "k < 256 \<Longrightarrow> unat (ucast (of_nat k :: byte) :: u32) = k"
  by (simp add: unat_ucast_up unat_of_nat)

lemma unat_cont: "unat (ucast (of_nat (128 + n mod 64) :: byte) :: u32) = 128 + n mod 64"
  by (rule unat_of_byte) (simp add: trans_less_add1 order_less_le_trans [of _ 64])

lemma top2_cont: "top2 (ucast (of_nat (128 + n mod 64) :: byte)) = 2"
  unfolding top2_eq_2 unat_cont by simp

lemma or_128: "unat (x :: u32) < 64 \<Longrightarrow> unat (0x80 OR x) mod 64 = unat x \<and> top2 (0x80 OR x) = 2"
proof -
  assume x: "unat x < 64"
  have "(0x80 :: u32) = push_bit 7 1" by simp
  then have "unat (0x80 OR x) = 128 + unat x" using unat_or_push_bit [of x 7 1] x by (simp add: or.commute)
  then show ?thesis using x cont_mod [of "unat x"] by (simp add: top2_eq_2)
qed

text \<open>What the decoder makes of two, three and four bytes in front of its end.\<close>

lemma decode1_two:
  fixes a :: u32 and pre :: "byte list"
  assumes "p = length pre" "p < pe" "unat x \<ge> 192" "unat x \<le> 223"
  shows "uv__utf8_decode1 (pre @ [x, y] @ post) p pe = Ok (utf8_join 0x80 0 0x80 (0x80 OR (ucast x AND 31)) (ucast y), p + 2)"
proof -
  have "unat (ucast x :: u32) = unat x" by (simp add: unat_ucast_up)
  then have "\<not> (ucast x :: u32) < 128" "\<not> 247 < (ucast x :: u32)" "\<not> 239 < (ucast x :: u32)" "\<not> 223 < (ucast x :: u32)" "191 < (ucast x :: u32)"
    using assms(3,4) by (simp_all add: word_less_nat_alt)
  then show ?thesis using assms(1,2) by (simp add: uv__utf8_decode1_def uv__utf8_decode1_slow_def Let_def nth_append byte_at_def)
qed

lemma decode1_three:
  fixes pre :: "byte list"
  assumes "p = length pre" "p < pe" "unat x \<ge> 224" "unat x \<le> 239"
  shows "uv__utf8_decode1 (pre @ [x, y, z] @ post) p pe = Ok (utf8_join 0x800 0 (0x80 OR (ucast x AND 15)) (ucast y) (ucast z), p + 3)"
proof -
  have "unat (ucast x :: u32) = unat x" by (simp add: unat_ucast_up)
  then have "\<not> (ucast x :: u32) < 128" "\<not> 247 < (ucast x :: u32)" "\<not> 239 < (ucast x :: u32)" "223 < (ucast x :: u32)"
    using assms(3,4) by (simp_all add: word_less_nat_alt)
  then show ?thesis using assms(1,2) by (simp add: uv__utf8_decode1_def uv__utf8_decode1_slow_def Let_def nth_append byte_at_def)
qed

lemma decode1_four:
  fixes pre :: "byte list"
  assumes "p = length pre" "p < pe" "unat x \<ge> 240" "unat x \<le> 247"
  shows "uv__utf8_decode1 (pre @ [x, y, z, w] @ post) p pe = Ok (utf8_join 0x10000 (ucast x AND 7) (ucast y) (ucast z) (ucast w), p + 4)"
proof -
  have "unat (ucast x :: u32) = unat x" by (simp add: unat_ucast_up)
  then have "\<not> (ucast x :: u32) < 128" "\<not> 247 < (ucast x :: u32)" "239 < (ucast x :: u32)"
    using assms(3,4) by (simp_all add: word_less_nat_alt)
  then show ?thesis using assms(1,2) by (simp add: uv__utf8_decode1_def uv__utf8_decode1_slow_def Let_def nth_append byte_at_def)
qed

lemma lead_and:
  assumes "k < 2 ^ j" "B mod 2 ^ j = 0" "B + k < 256" "m = mask j"
  shows "unat (ucast (of_nat (B + k) :: byte) AND m :: u32) = k"
proof -
  have "unat (ucast (of_nat (B + k) :: byte) AND m :: u32) = (B + k) mod 2 ^ j"
    unfolding unat_and_mask [OF assms(4)] using unat_of_byte [OF assms(3)] by simp
  also have "\<dots> = k" using assms(1,2) by (metis add_0 mod_add_left_eq mod_less)
  finally show ?thesis .
qed

lemma base_64:
  "n = n div 64 * 64 + n mod (64 :: nat)" "n = n div 64 ^ 2 * 2 ^ 12 + n div 64 mod 64 * 64 + n mod 64"
  "n = n div 64 ^ 3 * 2 ^ 18 + n div 64 ^ 2 mod 64 * 2 ^ 12 + n div 64 mod 64 * 64 + n mod 64"
proof -
  have 1: "m = m div 64 * 64 + m mod 64" for m :: nat by simp
  have d: "n div 64 ^ 2 = n div 64 div 64" "n div 64 ^ 3 = n div 64 div 64 div 64" by (simp_all add: div_mult2_eq [symmetric])
  have w: "(2 :: nat) ^ 12 = 4096" "(2 :: nat) ^ 18 = 262144" by simp_all
  show "n = n div 64 * 64 + n mod 64" by simp
  show "n = n div 64 ^ 2 * 2 ^ 12 + n div 64 mod 64 * 64 + n mod 64"
    unfolding d w using 1 [of n] 1 [of "n div 64"] by linarith
  show "n = n div 64 ^ 3 * 2 ^ 18 + n div 64 ^ 2 mod 64 * 2 ^ 12 + n div 64 mod 64 * 64 + n mod 64"
    unfolding d w using 1 [of n] 1 [of "n div 64"] 1 [of "n div 64 div 64"] by linarith
qed

lemma utf8_tails:
  "utf8_tail 1 n = [of_nat (128 + n mod 64)]"
  "utf8_tail 2 n = [of_nat (128 + n div 64 mod 64), of_nat (128 + n mod 64)]"
  "utf8_tail 3 n = [of_nat (128 + n div 64 ^ 2 mod 64), of_nat (128 + n div 64 mod 64), of_nat (128 + n mod 64)]"
proof -
  show 1: "utf8_tail 1 n = [of_nat (128 + n mod 64)]" by simp
  have "utf8_tail (Suc 1) n = of_nat (128 + n div 64 ^ 1 mod 64) # utf8_tail 1 n" by (rule utf8_tail.simps)
  then show 2: "utf8_tail 2 n = [of_nat (128 + n div 64 mod 64), of_nat (128 + n mod 64)]" unfolding 1 power_one_right Suc_1 .
  have "utf8_tail (Suc 2) n = of_nat (128 + n div 64 ^ 2 mod 64) # utf8_tail 2 n" by (rule utf8_tail.simps)
  then show "utf8_tail 3 n = [of_nat (128 + n div 64 ^ 2 mod 64), of_nat (128 + n div 64 mod 64), of_nat (128 + n mod 64)]"
    unfolding 2 by simp
qed

lemma decode1_utf8:
  assumes n: "scalar n" and p: "p = length pre" "p < pe"
  shows "uv__utf8_decode1 (pre @ utf8 n @ post) p pe = Ok (of_nat n, p + length (utf8 n))"
proof -
  note r = n [unfolded scalar_def]
  consider (1) "n < 0x80" | (2) "0x80 \<le> n" "n < 0x800" | (3) "0x800 \<le> n" "n < 0x10000" | (4) "0x10000 \<le> n" "n \<le> 0x10FFFF"
    using r by linarith
  then show ?thesis
  proof cases
    case 1
    then have "unat (ucast (of_nat n :: byte) :: u32) = n" by (intro unat_of_byte) simp
    then have "ucast (of_nat n :: byte) = (of_nat n :: u32)" "(of_nat n :: u32) < 128"
      using 1 unat_eq_of_nat [of "ucast (of_nat n :: byte) :: u32" n] by (simp_all add: word_less_nat_alt unat_of_nat)
    then show ?thesis using 1 p by (simp add: uv__utf8_decode1_def utf8_def nth_append)
  next
    case 2
    let ?x = "of_nat (192 + n div 64) :: byte" and ?z = "of_nat (128 + n mod 64) :: byte"
    have u: "utf8 n = [?x, ?z]" using 2 unfolding utf8_def utf8_tails by simp
    have k: "n div 64 < 32" using 2 by simp
    have x: "unat ?x = 192 + n div 64" using k by (simp add: unat_of_nat del: of_nat_add)
    have a: "unat (ucast ?x AND 31 :: u32) = n div 64" using k by (intro lead_and [of _ 5]) (simp_all add: mask_eq_exp_minus_1)
    have "utf8_join 0x80 0 0x80 (0x80 OR (ucast ?x AND 31)) (ucast ?z) = of_nat n"
      using or_128 [of "ucast ?x AND 31"] a k top2_cont [of n] unat_cont [of n] 2 base_64(1) [of n, symmetric]
      by (intro join_value) (simp_all add: top2_eq_2 [THEN iffD2] cont_mod)
    then show ?thesis using decode1_two [OF p, of ?x ?z post] x k unfolding u by simp
  next
    case 3
    let ?x = "of_nat (224 + n div 64 ^ 2) :: byte" and ?y = "of_nat (128 + n div 64 mod 64) :: byte" and ?z = "of_nat (128 + n mod 64) :: byte"
    have u: "utf8 n = [?x, ?y, ?z]" using 3 unfolding utf8_def utf8_tails by simp
    have k: "n div 64 ^ 2 < 16" using 3 by simp
    have x: "unat ?x = 224 + n div 64 ^ 2" using k by (simp add: unat_of_nat del: of_nat_add)
    have a: "unat (ucast ?x AND 15 :: u32) = n div 64 ^ 2" using k by (intro lead_and [of _ 4]) (simp_all add: mask_eq_exp_minus_1)
    have "utf8_join 0x800 0 (0x80 OR (ucast ?x AND 15)) (ucast ?y) (ucast ?z) = of_nat n"
      using or_128 [of "ucast ?x AND 15"] a k top2_cont [of n] top2_cont [of "n div 64"] unat_cont [of n] unat_cont [of "n div 64"] 3 r base_64(2) [of n, symmetric]
      by (intro join_value) (simp_all add: cont_mod)
    then show ?thesis using decode1_three [OF p, of ?x ?y ?z post] x k unfolding u by simp
  next
    case 4
    let ?x = "of_nat (240 + n div 64 ^ 3) :: byte" and ?w = "of_nat (128 + n div 64 ^ 2 mod 64) :: byte"
      and ?y = "of_nat (128 + n div 64 mod 64) :: byte" and ?z = "of_nat (128 + n mod 64) :: byte"
    have u: "utf8 n = [?x, ?w, ?y, ?z]" using 4 unfolding utf8_def utf8_tails by simp
    have k: "n div 64 ^ 3 < 8" using 4 by simp
    have x: "unat ?x = 240 + n div 64 ^ 3" using k by (simp add: unat_of_nat del: of_nat_add)
    have a: "unat (ucast ?x AND 7 :: u32) = n div 64 ^ 3" using k by (intro lead_and [of _ 3]) (simp_all add: mask_eq_exp_minus_1)
    have "utf8_join 0x10000 (ucast ?x AND 7) (ucast ?w) (ucast ?y) (ucast ?z) = of_nat n"
    proof (rule join_value)
      show "unat (ucast ?x AND 7 :: u32) < 8" unfolding a by (rule k)
      show "top2 (ucast ?w) XOR top2 (ucast ?y) XOR top2 (ucast ?z) = 2" unfolding top2_cont by simp
      show "unat (ucast ?x AND 7 :: u32) * 2 ^ 18 + unat (ucast ?w :: u32) mod 64 * 2 ^ 12 + unat (ucast ?y :: u32) mod 64 * 64 + unat (ucast ?z :: u32) mod 64 = n"
        unfolding a unat_cont cont_mod by (rule base_64(3) [symmetric])
    qed (use 4 r in simp_all)
    then show ?thesis using decode1_four [OF p, of ?x ?w ?y ?z post] x k unfolding u by simp
  qed
qed

section \<open>Strings\<close>

definition utf8s :: "nat list \<Rightarrow> byte list" where
  "utf8s vs = concat (map utf8 vs)"

lemma utf8s_simps [simp]: "utf8s [] = []" "utf8s (v # vs) = utf8 v @ utf8s vs" "utf8s (vs @ ws) = utf8s vs @ utf8s ws"
  by (simp_all add: utf8s_def)

lemma length_utf8_pos: "0 < length (utf8 n)"
  by (simp add: utf8_def)

text \<open>At its end the loop decodes what follows the string, at most two bytes of it.\<close>

definition ends_well :: "byte list \<Rightarrow> bool" where
  "ends_well post \<longleftrightarrow> (\<exists>e rest. post = e # rest \<and> (unat e < 128 \<or> rest \<noteq> []))"

lemma decode1_end:
  assumes "ends_well post" "p = length pre"
  shows "\<exists>c p'. uv__utf8_decode1 (pre @ post) p p = Ok (c, p')"
proof -
  obtain e rest where e: "post = e # rest" "unat e < 128 \<or> rest \<noteq> []" using assms(1) by (auto simp: ends_well_def)
  show ?thesis
  proof (cases "unat e < 128")
    case True
    then show ?thesis using ascii_small [of e] e(1) assms(2) by (simp add: uv__utf8_decode1_def)
  next
    case False
    then show ?thesis using e assms(2) by (auto simp: uv__utf8_decode1_def uv__utf8_decode1_slow_def Let_def)
  qed
qed

lemma foreach_utf8s:
  assumes "\<forall>v \<in> set vs. scalar v" "ends_well post"
  shows "foreach_codepoint (pre @ utf8s vs @ post) (length pre) (length pre + length (utf8s vs)) = Ok (map of_nat vs)"
  using assms(1)
proof (induction vs arbitrary: pre)
  case Nil
  obtain c p' where d: "uv__utf8_decode1 (pre @ post) (length pre) (length pre) = Ok (c, p')" using decode1_end [OF assms(2)] by blast
  then have "\<not> p' \<le> length pre" using decode1_forward by fastforce
  then show ?case using d by (simp add: foreach_codepoint.simps)
next
  case (Cons v vs)
  let ?buf = "pre @ utf8s (v # vs) @ post" and ?pe = "length pre + length (utf8s (v # vs))"
  have d: "uv__utf8_decode1 ?buf (length pre) ?pe = Ok (of_nat v, length pre + length (utf8 v))"
    using decode1_utf8 [of v "length pre" pre ?pe "utf8s vs @ post"] Cons.prems length_utf8_pos [of v] by simp
  have "foreach_codepoint ?buf (length pre + length (utf8 v)) ?pe = Ok (map of_nat vs)"
    using Cons.IH [of "pre @ utf8 v"] Cons.prems by (simp add: add.assoc)
  then show ?case using d by (subst foreach_codepoint.simps) simp
qed

lemma valid_scalar: "is_valid_code_point u \<Longrightarrow> scalar (unat u)"
  using valid_bounds [of u] by (auto simp: is_valid_code_point_def scalar_def word_le_nat_alt)

text \<open>C34: Text that BoringSSL writes is text for libuv: a valid code point that \<^verbatim>\<open>cbb_add_utf8\<close> adds to a builder is what \<^verbatim>\<open>uv__utf8_decode1\<close> reads at
  that place, leaving off at the end of the character; an invalid one is refused with the builder unchanged.\<close>

theorem utf8_written_decodes:
  assumes "cbb_ready d st" "cbb_room 4 st" "length (cbb_out st) < pe"
  shows "if is_valid_code_point u
    then (\<exists>st'. cbb_add_utf8 u d st = (Ok (), st') \<and> length (cbb_out st') = length (cbb_out st) + cbb_get_utf8_len u \<and>
      uv__utf8_decode1 (cbb_out st' @ post) (length (cbb_out st)) pe = Ok (u, length (cbb_out st')))
    else cbb_add_utf8 u d st = (Fail, st)"
proof (cases "is_valid_code_point u")
  case True
  obtain st' where st': "cbb_add_utf8 u d st = (Ok (), st')" "cbb_out st' = cbb_out st @ utf8 (unat u)" "length (utf8 (unat u)) = cbb_get_utf8_len u"
    using add_utf8_ok [OF True assms(1,2)] by blast
  have "uv__utf8_decode1 (cbb_out st @ utf8 (unat u) @ post) (length (cbb_out st)) pe = Ok (of_nat (unat u), length (cbb_out st) + length (utf8 (unat u)))"
    using valid_scalar [OF True] assms(3) by (intro decode1_utf8) simp_all
  then show ?thesis using True st' by auto
qed (simp add: cbb_add_utf8_def)

theorem utf8_written_decodes_witness:
  "\<exists>st st'. cbb_ready 0 st \<and> cbb_add_utf8 0x20ac 0 st = (Ok (), st') \<and> uv__utf8_decode1 (cbb_out st' @ [0]) (length (cbb_out st)) 100 = Ok (0x20ac, length (cbb_out st'))"
proof -
  obtain st where st: "cbb_ready 0 st" "cbb_room 4 st" "cbb_out st = []"
    using CBB_init_ready [of "\<lparr>cs_base = None, cs_chain = [], cs_mallocs = [], cs_fill = 0\<rparr>" 0] by fastforce
  from utf8_written_decodes [OF st(1,2), of 100 "0x20ac" "[0]"] st(1,3) show ?thesis by (auto simp: is_valid_code_point_def)
qed

text \<open>C36: The decoder also accepts sequences that are not UTF-8. It tests the top bits of the exclusive or of the bytes, so two bytes that are no
  continuation bytes pass when their top bits agree, and a dot or a letter is taken for a part of a character of three bytes.\<close>

theorem utf8_malformed_accepted:
  assumes "225 \<le> unat x" "unat x \<le> 236" "unat y div 64 = unat z div 64"
  shows "uv__utf8_decode1 [x, y, z] 0 3 = Ok (of_nat ((unat x - 224) * 4096 + unat y mod 64 * 64 + unat z mod 64), 3)"
proof -
  let ?n = "(unat x - 224) * 4096 + unat y mod 64 * 64 + unat z mod 64"
  have k: "unat x - 224 < 13" "1 \<le> unat x - 224" "x = of_nat (224 + (unat x - 224))" using assms(1,2) by simp_all
  have a: "unat (ucast x AND 15 :: u32) = unat x - 224"
    by (subst k(3), rule lead_and [of _ 4]) (use k in \<open>simp_all add: mask_eq_exp_minus_1\<close>)
  have u: "unat (ucast y :: u32) = unat y" "unat (ucast z :: u32) = unat z" by (simp_all add: unat_ucast_up)
  then have t: "top2 (ucast y) = top2 (ucast z)" unfolding word_unat_eq_iff unat_top2 using assms(3) by simp
  have m: "unat y mod 64 < 64" "unat z mod 64 < 64" by simp_all
  have o: "unat (0x80 OR (ucast x AND 15) :: u32) mod 64 = unat x - 224" "top2 (0x80 OR (ucast x AND 15)) = 2"
    using or_128 [of "ucast x AND 15"] k(1) unfolding a by simp_all
  have "utf8_join 0x800 0 (0x80 OR (ucast x AND 15)) (ucast y) (ucast z) = of_nat ?n"
    using o k(1,2) t u m by (intro join_value) simp_all
  then show ?thesis using decode1_three [of 0 "[]" 3 x y z "[]"] assms(1,2) by simp
qed

theorem utf8_malformed_accepted_witness:
  "uv__utf8_decode1 [0xE1, 46, 46] 0 3 = Ok (of_nat ((unat (0xE1 :: byte) - 224) * 4096 + unat (46 :: byte) mod 64 * 64 + unat (46 :: byte) mod 64), 3)"
  by (rule utf8_malformed_accepted) simp_all

end
