(* ===== verification/Punycode.thy ===== *)
theory Punycode
  imports Uv_Utf8
begin

text \<open>
  The encoding of a label (\<^verbatim>\<open>uv__idna_toascii_label\<close> in \<^verbatim>\<open>src/idna.c\<close>) against Punycode as RFC 3492 specifies it: the decoder of the RFC, on
  natural numbers, gives back the code points of every label that has been encoded.
\<close>

section \<open>The decoder of RFC 3492\<close>

definition puny_threshold :: "nat \<Rightarrow> nat \<Rightarrow> nat" where
  "puny_threshold bias k = (if k \<le> bias + 1 then 1 else if bias + 26 \<le> k then 26 else k - bias)"

fun puny_integer :: "nat \<Rightarrow> nat \<Rightarrow> nat list \<Rightarrow> (nat \<times> nat list) option" where
  "puny_integer bias k [] = None"
| "puny_integer bias k (d # ds) =
     (let t = puny_threshold bias k
      in if d < t then Some (d, ds) else map_option (\<lambda>(v, ds). (d + (36 - t) * v, ds)) (puny_integer bias (k + 36) ds))"

function puny_scale :: "nat \<Rightarrow> nat \<Rightarrow> nat \<times> nat" where
  "puny_scale k delta = (if 455 < delta then puny_scale (k + 36) (delta div 35) else (k, delta))"
  by pat_completeness auto
termination by (relation "measure snd") auto

declare puny_scale.simps [simp del]

definition puny_adapt :: "nat \<Rightarrow> nat \<Rightarrow> bool \<Rightarrow> nat" where
  "puny_adapt delta points first =
     (let delta = (if first then delta div 700 else delta div 2); delta = delta + delta div points
      in case puny_scale 0 delta of (k, delta) \<Rightarrow> k + 36 * delta div (delta + 38))"

definition insert_at :: "nat \<Rightarrow> 'a \<Rightarrow> 'a list \<Rightarrow> 'a list" where
  "insert_at i x xs = take i xs @ x # drop i xs"

lemma puny_integer_shorter: "puny_integer bias k ds = Some (v, ds') \<Longrightarrow> length ds' < length ds"
  by (induction bias k ds arbitrary: v rule: puny_integer.induct) (fastforce simp: Let_def split: if_splits)+

function puny_decode :: "nat \<Rightarrow> nat \<Rightarrow> nat \<Rightarrow> nat list \<Rightarrow> nat list \<Rightarrow> nat list option" where
  "puny_decode n i bias out ds =
     (if ds = [] then Some out
      else case puny_integer bias 36 ds of
          None \<Rightarrow> None
        | Some (v, ds) \<Rightarrow>
            let points = length out + 1; j = i + v; n = n + j div points; i' = j mod points
            in puny_decode n (i' + 1) (puny_adapt v points (i = 0)) (insert_at i' n out) ds)"
  by pat_completeness auto
termination by (relation "measure (\<lambda>(n, i, bias, out, ds). length ds)") (auto dest: puny_integer_shorter)

declare puny_decode.simps [simp del]

definition digit_of :: "byte \<Rightarrow> nat option" where
  "digit_of b =
     (if 97 \<le> b \<and> b \<le> 122 then Some (unat b - 97)
      else if 65 \<le> b \<and> b \<le> 90 then Some (unat b - 65)
      else if 48 \<le> b \<and> b \<le> 57 then Some (unat b - 48 + 26)
      else None)"

text \<open>What is before the last hyphen is copied, what follows it is read as digits.\<close>

definition punycode_decode :: "byte list \<Rightarrow> nat list option" where
  "punycode_decode text =
     (let ds = rev (takeWhile (\<lambda>b. b \<noteq> 45) (rev text))
      in case those (map digit_of ds) of
          None \<Rightarrow> None
        | Some ts \<Rightarrow> puny_decode 128 0 72 (map unat (take (length text - length ds - 1) text)) ts)"

section \<open>Integers and bias\<close>

lemma unat_threshold: "unat (threshold k bias) = puny_threshold (unat bias) (unat k)"
proof (cases "bias < k")
  case True
  then have "unat (k - bias) = unat k - unat bias" by (simp add: unat_sub word_less_nat_alt word_le_nat_alt)
  then show ?thesis using True by (auto simp: threshold_def puny_threshold_def Let_def word_less_nat_alt)
qed (auto simp: threshold_def puny_threshold_def Let_def word_less_nat_alt)

definition letters :: "nat list \<Rightarrow> byte list" where
  "letters ts = map (\<lambda>t. alphabet ! t) ts"

lemma letters_simps [simp]: "letters [] = []" "letters (t # ts) = alphabet ! t # letters ts" "letters (ts @ us) = letters ts @ letters us"
  by (simp_all add: letters_def)

lemma emit_digit_take: "unat t < 36 \<Longrightarrow> emit_digit cap t (take cap out) = Ok (take cap (out @ letters [unat t]))"
  by (auto simp: emit_digit_def alphabet_def [THEN arg_cong, of length] take_emit [symmetric] emit_char_def)

lemma digits_exact:
  assumes "unat q < 10 ^ j" "unat k + 36 * j < 2 ^ 32"
  shows "\<exists>ts. digits_loop cap bias k q (take cap out) = Ok (take cap (out @ letters ts)) \<and> (\<forall>t \<in> set ts. t < 36) \<and>
    (\<forall>rest. puny_integer (unat bias) (unat k) (ts @ rest) = Some (unat q, rest)) \<and> ts \<noteq> []"
  using assms
proof (induction j arbitrary: k q out)
  case 0
  have "1 \<le> unat (threshold k bias)" "unat (threshold k bias) \<le> 26" using threshold_range by auto
  moreover have "unat q = 0" using 0 by simp
  ultimately have "q < threshold k bias" "unat q < 36" by (simp_all add: word_less_nat_alt)
  then show ?case using emit_digit_take [of q cap out] unat_threshold [of k bias] digits_loop.simps [of cap bias k q]
    by (intro exI [of _ "[unat q]"]) (simp add: word_less_nat_alt)
next
  case (Suc j)
  let ?t = "threshold k bias"
  have r: "1 \<le> unat ?t" "unat ?t \<le> 26" using threshold_range by auto
  show ?case
  proof (cases "q < ?t")
    case True
    then have "unat q < 36" using r by (simp add: word_less_nat_alt)
    then show ?thesis using True emit_digit_take [of q cap out] unat_threshold [of k bias] digits_loop.simps [of cap bias k q]
      by (intro exI [of _ "[unat q]"]) (simp add: word_less_nat_alt)
  next
    case False
    define t where "t = ?t + (q - ?t) mod (36 - ?t)"
    define q' where "q' = (q - ?t) div (36 - ?t)"
    have ge: "unat ?t \<le> unat q" using False by (simp add: word_less_nat_alt)
    note dt = digit_small [OF False, folded t_def] and dq = digit_quotient [OF False, folded q'_def]
    have "unat q' * 10 \<le> (unat q - unat ?t) div (36 - unat ?t) * (36 - unat ?t)" unfolding dq using r by (intro mult_le_mono) auto
    also have "\<dots> \<le> unat q - unat ?t" by simp
    finally have "unat q' < 10 ^ j" using Suc.prems(1) by simp
    moreover have k: "unat (k + 36) = unat k + 36" using Suc.prems(2) by (simp add: unat_plus_if')
    ultimately obtain ts where ts: "digits_loop cap bias (k + 36) q' (take cap (out @ letters [unat t])) = Ok (take cap ((out @ letters [unat t]) @ letters ts))"
      "\<forall>t \<in> set ts. t < 36" "\<forall>rest. puny_integer (unat bias) (unat k + 36) (ts @ rest) = Some (unat q', rest)" "ts \<noteq> []"
      using Suc.IH [of q' "k + 36" "out @ letters [unat t]"] Suc.prems(2) by auto
    have "digits_loop cap bias k q (take cap out) = Ok (take cap (out @ letters (unat t # ts)))"
      using False ts(1) emit_digit_take [OF dt(2), of cap out] digits_loop.simps [of cap bias k q] unfolding t_def q'_def by (simp add: Let_def)
    moreover have "unat t + (36 - unat ?t) * unat q' = unat q" using dt(1) dq ge mult_div_mod_eq [of "36 - unat ?t" "unat q - unat ?t"] by simp
    moreover have "\<not> unat t < puny_threshold (unat bias) (unat k)" using dt(1) unat_threshold [of k bias] by simp
    ultimately show ?thesis using ts(2,3) dt(2) unat_threshold [of k bias] by (intro exI [of _ "unat t # ts"]) (simp add: Let_def)
  qed
qed

lemma bias_exact:
  "unat bias + unat delta < 2 ^ 32 \<Longrightarrow> map_prod unat unat (bias_loop bias delta) = puny_scale (unat bias) (unat delta)"
proof (induction bias delta rule: bias_loop.induct)
  case (1 bias delta)
  show ?case
  proof (cases "455 < delta")
    case True
    then have d: "455 < unat delta" by (simp add: word_less_nat_alt)
    have q: "unat (delta div 35) = unat delta div 35" by (simp add: unat_div_distrib)
    have "unat delta div 35 + 36 \<le> unat delta" using d by linarith
    moreover from this have "unat (bias + 36) = unat bias + 36" using 1(2) by (simp add: unat_plus_if')
    ultimately show ?thesis using 1 True d q by (simp add: bias_loop.simps [of bias] puny_scale.simps [of "unat bias"])
  next
    case False
    then show ?thesis by (simp add: bias_loop.simps [of bias] puny_scale.simps [of "unat bias"] word_less_nat_alt)
  qed
qed

lemma puny_scale_bound: "10 * fst (puny_scale k delta) \<le> 10 * k + delta \<and> snd (puny_scale k delta) \<le> 455"
proof (induction k delta rule: puny_scale.induct)
  case (1 k delta)
  show ?case
  proof (cases "455 < delta")
    case True
    then have "360 + delta div 35 \<le> delta" by linarith
    then show ?thesis using 1 True by (simp add: puny_scale.simps [of k])
  qed (simp add: puny_scale.simps [of k])
qed

lemma adapt_exact:
  assumes "unat (py_h st) + 1 < 2 ^ 32"
  shows "\<exists>bias. adapt st = Ok (st\<lparr>py_first := False, py_h := py_h st + 1, py_bias := bias, py_delta := 0, py_todo := py_todo st - 1\<rparr>) \<and>
    unat bias = puny_adapt (unat (py_delta st)) (unat (py_h st) + 1) (py_first st)"
proof -
  define half where "half = (if py_first st then py_delta st div 2 div 350 else py_delta st div 2)"
  define delta where "delta = half + half div (py_h st + 1)"
  have h: "unat (py_h st + 1) = unat (py_h st) + 1" using assms by (simp add: unat_plus_if')
  then have h0: "py_h st + 1 \<noteq> 0" by (metis Suc_eq_plus1 nat.distinct(1) unat_0)
  have half: "unat half = (if py_first st then unat (py_delta st) div 700 else unat (py_delta st) div 2)"
    by (simp add: half_def unat_div_distrib div_mult2_eq [symmetric])
  have q: "unat (half div (py_h st + 1)) = unat half div (unat (py_h st) + 1)" using h by (simp add: unat_div_distrib)
  have "unat half < 2 ^ 31" using half unat_u32_less [of "py_delta st"] by (auto split: if_splits)
  moreover have "unat half div (unat (py_h st) + 1) \<le> unat half" by (rule div_le_dividend)
  ultimately have "unat half + unat half div (unat (py_h st) + 1) < 2 ^ 31 + 2 ^ 31" by (meson add_less_le_mono le_less_trans less_imp_le)
  then have delta: "unat delta = unat half + unat half div (unat (py_h st) + 1)" unfolding delta_def unat_plus_if' q by simp
  obtain b d where bd: "bias_loop 0 delta = (b, d)" by (rule prod.exhaust)
  have sc: "puny_scale 0 (unat delta) = (unat b, unat d)" using bias_exact [of 0 delta] bd unat_u32_less [of delta] by simp
  have d: "unat d \<le> 455" using puny_scale_bound [of 0 "unat delta"] sc by simp
  then have d38: "unat (d + 38) = unat d + 38" "unat (36 * d) = 36 * unat d" by (simp_all add: unat_plus_if' unat_mult_lem [THEN iffD1])
  then have d0: "d + 38 \<noteq> 0" by (metis add_eq_0_iff_both_eq_0 unat_0 zero_neq_numeral)
  have "10 * unat b \<le> unat delta" using puny_scale_bound [of 0 "unat delta"] sc by simp
  then have "unat b < 2 ^ 30" using unat_u32_less [of delta] by simp
  moreover have "unat (36 * d div (d + 38)) = 36 * unat d div (unat d + 38)" using d38 by (simp add: unat_div_distrib)
  moreover have "36 * unat d div (unat d + 38) \<le> 2 ^ 30" using d div_le_dividend [of "36 * unat d" "unat d + 38"] by (simp del: div_le_dividend)
  ultimately have "unat (b + 36 * d div (d + 38)) = unat b + 36 * unat d div (unat d + 38)" unfolding unat_plus_if' by simp
  moreover have "adapt st = Ok (st\<lparr>py_first := False, py_h := py_h st + 1, py_bias := b + 36 * d div (d + 38), py_delta := 0, py_todo := py_todo st - 1\<rparr>)"
    using h0 d0 bd unfolding adapt_def Let_def delta_def half_def by simp
  ultimately show ?thesis using sc delta half by (auto simp: puny_adapt_def Let_def)
qed

section \<open>The encoder drives the decoder\<close>

text \<open>The digits written so far take the decoder of the RFC to the state of the record, with the bias of the encoder.\<close>

record ghost =
  g_n :: nat
  g_i :: nat
  g_done :: "u32 list"
  g_digits :: "nat list"

definition driven :: "nat \<Rightarrow> byte list \<Rightarrow> u32 list \<Rightarrow> puny \<Rightarrow> ghost \<Rightarrow> bool" where
  "driven cap d basic st g \<longleftrightarrow>
     py_out st = take cap (d @ letters (g_digits g)) \<and> (\<forall>t \<in> set (g_digits g). t < 36) \<and>
     (\<forall>rest. puny_decode 128 0 72 (map unat basic) (g_digits g @ rest) =
        puny_decode (g_n g) (g_i g) (unat (py_bias st)) (map unat (g_done g)) rest) \<and>
     unat (py_h st) = length (g_done g) \<and> (py_first st \<longleftrightarrow> g_i g = 0)"

lemma driven_delta [simp]: "driven cap d basic (st\<lparr>py_delta := x\<rparr>) g = driven cap d basic st g"
  by (simp add: driven_def)

text \<open>One code point is written: the decoder inserts it behind the part \<open>xs\<close> of what it has.\<close>

lemma driven_step:
  assumes g: "driven cap d basic st g" and fin: "g_done g = xs @ ys" and h: "unat (py_h st) + 1 < 2 ^ 32"
    and delta: "unat (py_delta st) + g_i g = (unat m - g_n g) * (unat (py_h st) + 1) + length xs" and n: "g_n g \<le> unat m"
  shows "\<exists>out bias ts. digits_loop cap (py_bias st) 36 (py_delta st) (py_out st) = Ok out \<and>
    adapt (st\<lparr>py_out := out\<rparr>) = Ok (st\<lparr>py_out := out, py_first := False, py_h := py_h st + 1, py_bias := bias, py_delta := 0, py_todo := py_todo st - 1\<rparr>) \<and>
    driven cap d basic (st\<lparr>py_out := out, py_first := False, py_h := py_h st + 1, py_bias := bias, py_delta := 0, py_todo := py_todo st - 1\<rparr>)
      \<lparr>g_n = unat m, g_i = length xs + 1, g_done = xs @ m # ys, g_digits = g_digits g @ ts\<rparr>"
proof -
  note g' = g [unfolded driven_def]
  have "unat (py_delta st) < 10 ^ 10" using unat_u32_less [of "py_delta st"] by simp
  then obtain ts where ts: "digits_loop cap (py_bias st) 36 (py_delta st) (take cap (d @ letters (g_digits g))) = Ok (take cap ((d @ letters (g_digits g)) @ letters ts))"
    "\<forall>t \<in> set ts. t < 36" "\<forall>rest. puny_integer (unat (py_bias st)) 36 (ts @ rest) = Some (unat (py_delta st), rest)" "ts \<noteq> []"
    using digits_exact [of "py_delta st" 10 36 cap "py_bias st" "d @ letters (g_digits g)"] by auto
  define out where "out = take cap ((d @ letters (g_digits g)) @ letters ts)"
  obtain bias where bias: "adapt (st\<lparr>py_out := out\<rparr>) = Ok (st\<lparr>py_out := out, py_first := False, py_h := py_h st + 1, py_bias := bias, py_delta := 0, py_todo := py_todo st - 1\<rparr>)"
    "unat bias = puny_adapt (unat (py_delta st)) (unat (py_h st) + 1) (py_first st)"
    using adapt_exact [of "st\<lparr>py_out := out\<rparr>"] h by auto
  have len: "unat (py_h st) = length xs + length ys" using g' fin by simp
  have j: "g_i g + unat (py_delta st) = (unat m - g_n g) * (unat (py_h st) + 1) + length xs" using delta by linarith
  have "(g_i g + unat (py_delta st)) div (unat (py_h st) + 1) = unat m - g_n g" "(g_i g + unat (py_delta st)) mod (unat (py_h st) + 1) = length xs"
    unfolding j using len by (simp_all del: mult_Suc_right)
  then have "puny_decode (g_n g) (g_i g) (unat (py_bias st)) (map unat (g_done g)) (ts @ rest) =
      puny_decode (unat m) (length xs + 1) (unat bias) (map unat (xs @ m # ys)) rest" for rest
    using ts(3,4) g' bias(2) n len fin by (simp add: puny_decode.simps [of _ _ _ _ "ts @ rest"] insert_at_def Let_def)
  moreover have "unat (py_h st + 1) = unat (py_h st) + 1" using h by (simp add: unat_plus_if')
  ultimately have "driven cap d basic (st\<lparr>py_out := out, py_first := False, py_h := py_h st + 1, py_bias := bias, py_delta := 0, py_todo := py_todo st - 1\<rparr>)
      \<lparr>g_n = unat m, g_i = length xs + 1, g_done = xs @ m # ys, g_digits = g_digits g @ ts\<rparr>"
    using g' ts(2) len by (auto simp: driven_def out_def)
  moreover have "digits_loop cap (py_bias st) 36 (py_delta st) (py_out st) = Ok out" using ts(1) g' by (simp add: out_def)
  ultimately show ?thesis using bias(1) by blast
qed

text \<open>In a pass for the code point \<open>m\<close>: \<open>pre\<close> has been visited, \<open>suf\<close> has not. The delta is the way of the decoder to the current position.\<close>

definition pass_inv :: "nat \<Rightarrow> byte list \<Rightarrow> u32 list \<Rightarrow> u32 \<Rightarrow> u32 list \<Rightarrow> u32 list \<Rightarrow> puny \<Rightarrow> ghost \<Rightarrow> bool" where
  "pass_inv cap d basic m pre suf st g \<longleftrightarrow> driven cap d basic st g \<and>
     g_done g = filter (\<lambda>c. c \<le> m) pre @ filter (\<lambda>c. c < m) suf \<and> g_n g \<le> unat m \<and> (m \<in> set pre \<longrightarrow> g_n g = unat m) \<and>
     unat (py_delta st) + g_i g = (unat m - g_n g) * (unat (py_h st) + 1) + length (filter (\<lambda>c. c \<le> m) pre)"

text \<open>Labels whose deltas fit into 32 bits.\<close>

definition compact :: "u32 list \<Rightarrow> bool" where
  "compact cs \<longleftrightarrow> length cs < 3800 \<and> (\<forall>c \<in> set cs. unat c \<le> 0x10FFFF)"

lemma pass_length: "pass_inv cap d basic m pre suf st g \<Longrightarrow> unat (py_h st) \<le> length pre + length suf"
  by (simp add: pass_inv_def driven_def add_mono)

lemma compact_product:
  assumes "compact cs" "m \<in> set cs" "h \<le> length cs" "l \<le> length cs"
  shows "(unat m - n) * (h + 1) + l < 2 ^ 32 - 1"
proof -
  have "(unat m - n) * (h + 1) \<le> 0x10FFFF * 3800" using assms(1-3) by (intro mult_le_mono) (auto simp: compact_def)
  then show ?thesis using assms(1,4) by (simp add: compact_def)
qed

lemma pass_delta:
  assumes "pass_inv cap d basic m pre suf st g" "compact (pre @ suf)" "m \<in> set (pre @ suf)"
  shows "unat (py_delta st) < 2 ^ 32 - 1"
proof -
  have "(unat m - g_n g) * (unat (py_h st) + 1) + length (filter (\<lambda>c. c \<le> m) pre) < 2 ^ 32 - 1"
    using assms pass_length [OF assms(1)] by (intro compact_product [of "pre @ suf"]) (simp_all add: trans_le_add1)
  then show ?thesis using assms(1) unfolding pass_inv_def by linarith
qed

lemma pass_exact:
  assumes "pass_inv cap d basic m pre suf st g" "length pre + length suf + 1 < 2 ^ 32" "m \<in> set (pre @ suf)"
  shows "fst (punycode_pass cap m suf st) = Fail \<and> \<not> compact (pre @ suf) \<or>
    (\<exists>st' g'. punycode_pass cap m suf st = (Ok (), st') \<and> pass_inv cap d basic m (pre @ suf) [] st' g')"
  using assms
proof (induction suf arbitrary: pre st g)
  case (Cons c suf)
  note p = Cons.prems(1) [unfolded pass_inv_def]
  have IH: "fst (punycode_pass cap m suf st') = Fail \<and> \<not> compact (pre @ c # suf) \<or>
      (\<exists>st'' g''. punycode_pass cap m suf st' = (Ok (), st'') \<and> pass_inv cap d basic m (pre @ c # suf) [] st'' g'')"
    if "pass_inv cap d basic m (pre @ [c]) suf st' g'" for st' g'
    using Cons.IH [OF that] Cons.prems(2,3) by simp
  consider (less) "c < m" | (same) "c = m" | (more) "m < c" by (rule linorder_cases)
  then show ?case
  proof cases
    case less
    show ?thesis
    proof (cases "py_delta st + 1 = 0")
      case True
      have "\<not> compact (pre @ c # suf)"
      proof
        assume "compact (pre @ c # suf)"
        then have "unat (py_delta st) < 2 ^ 32 - 1" using pass_delta Cons.prems(1,3) by blast
        then have "unat (py_delta st + 1) = unat (py_delta st) + 1" by (simp add: unat_plus_if')
        then show False using True by simp
      qed
      then show ?thesis using less True by simp
    next
      case False
      then have "unat (py_delta st + 1) = unat (py_delta st) + 1" using unatSuc [of "py_delta st"] by (simp add: add.commute)
      then have "pass_inv cap d basic m (pre @ [c]) suf (st\<lparr>py_delta := py_delta st + 1\<rparr>) g"
        using p less by (auto simp: pass_inv_def)
      then show ?thesis using IH less False by (auto simp: Let_def)
    qed
  next
    case same
    have h: "unat (py_h st) + 1 < 2 ^ 32" using pass_length [OF Cons.prems(1)] Cons.prems(2) by linarith
    obtain out bias ts where o: "digits_loop cap (py_bias st) 36 (py_delta st) (py_out st) = Ok out"
      "adapt (st\<lparr>py_out := out\<rparr>) = Ok (st\<lparr>py_out := out, py_first := False, py_h := py_h st + 1, py_bias := bias, py_delta := 0, py_todo := py_todo st - 1\<rparr>)"
      "driven cap d basic (st\<lparr>py_out := out, py_first := False, py_h := py_h st + 1, py_bias := bias, py_delta := 0, py_todo := py_todo st - 1\<rparr>)
        \<lparr>g_n = unat m, g_i = length (filter (\<lambda>c. c \<le> m) pre) + 1, g_done = filter (\<lambda>c. c \<le> m) pre @ m # filter (\<lambda>c. c < m) (c # suf), g_digits = g_digits g @ ts\<rparr>"
      using driven_step [of cap d basic st g "filter (\<lambda>c. c \<le> m) pre" "filter (\<lambda>c. c < m) (c # suf)" m] p h by auto
    then have "pass_inv cap d basic m (pre @ [c]) suf (st\<lparr>py_out := out, py_first := False, py_h := py_h st + 1, py_bias := bias, py_delta := 0, py_todo := py_todo st - 1\<rparr>)
        \<lparr>g_n = unat m, g_i = length (filter (\<lambda>c. c \<le> m) pre) + 1, g_done = filter (\<lambda>c. c \<le> m) pre @ m # filter (\<lambda>c. c < m) (c # suf), g_digits = g_digits g @ ts\<rparr>"
      using same by (simp add: pass_inv_def)
    then show ?thesis using IH same o(1,2) by auto
  next
    case more
    then have "pass_inv cap d basic m (pre @ [c]) suf st g" using p by (auto simp: pass_inv_def)
    then show ?thesis using IH more by (auto simp: Let_def)
  qed
qed auto

text \<open>Between two rounds the decoder has the code points below \<open>n\<close>, and the delta leads it to the first place for \<open>n\<close>.\<close>

definition round_rel :: "nat \<Rightarrow> byte list \<Rightarrow> u32 list \<Rightarrow> u32 list \<Rightarrow> u32 \<Rightarrow> puny \<Rightarrow> ghost \<Rightarrow> bool" where
  "round_rel cap d basic cs n st g \<longleftrightarrow> driven cap d basic st g \<and> g_done g = filter (\<lambda>c. c < n) cs \<and> g_n g \<le> unat n \<and>
     unat (py_delta st) + g_i g = (unat n - g_n g) * (unat (py_h st) + 1)"

lemma unat_not: "unat (NOT (w :: u32)) = 2 ^ 32 - 1 - unat w"
proof -
  have "NOT w = -1 - w" by (simp add: not_eq_complement)
  moreover have "w \<le> -1" by (rule word_order.extremum)
  moreover have "unat (-1 :: u32) = 2 ^ 32 - 1" by (simp add: unsigned_minus_1_eq_mask mask_eq_exp_minus_1)
  ultimately show ?thesis by (simp add: unat_sub)
qed

lemma round_exact:
  assumes inv: "round_inv cap cs n st" and todo: "py_todo st \<noteq> 0" and rel: "round_rel cap d basic cs n st g"
  shows "fst (punycode_round cap cs n st) = Fail \<and> \<not> compact cs \<or>
    (\<exists>n' st' g'. punycode_round cap cs n st = (Ok n', st') \<and> round_rel cap d basic cs n' st' g')"
proof -
  define m where "m = least_from n cs"
  note i = inv [unfolded round_inv_def] and r = rel [unfolded round_rel_def] and l = round_least [OF inv todo, folded m_def]
  have least: "m \<le> c" if "c \<in> set cs" "n \<le> c" for c
    using least_from(3) [of n cs c] that i todo by (auto simp: m_def unat_eq_zero [symmetric])
  have h: "unat (py_h st + 1) = unat (py_h st) + 1" using i by (simp add: unat_plus_if')
  then have h0: "py_h st + 1 \<noteq> 0" by (metis Suc_eq_plus1 nat.distinct(1) unat_0)
  have x: "unat (m - n) = unat m - unat n" using l(2) by (simp add: unat_sub)
  have le: "unat n \<le> unat m" using l(2) by (simp add: word_le_nat_alt)
  have goal: "unat (py_delta st) + unat (m - n) * (unat (py_h st) + 1) + g_i g = (unat m - g_n g) * (unat (py_h st) + 1)"
  proof -
    have "unat m - g_n g = (unat n - g_n g) + (unat m - unat n)" using le r by linarith
    then have "(unat m - g_n g) * (unat (py_h st) + 1) = (unat n - g_n g) * (unat (py_h st) + 1) + (unat m - unat n) * (unat (py_h st) + 1)"
      by (simp only: add_mult_distrib)
    moreover have "unat (py_delta st) + g_i g = (unat n - g_n g) * (unat (py_h st) + 1)" using r by blast
    ultimately show ?thesis unfolding x by linarith
  qed
  define st1 where "st1 = st\<lparr>py_delta := py_delta st + (m - n) * (py_h st + 1)\<rparr>"
  have e: "punycode_round cap cs n st = (if NOT (py_delta st) div (py_h st + 1) < m - n then (Fail, st)
      else seq_ok (punycode_pass cap m cs st1) (\<lambda>_ st. (Ok (m + 1), st\<lparr>py_delta := py_delta st + 1\<rparr>)))"
    using h0 by (simp add: punycode_round_def Let_def m_def st1_def)
  have guard: "NOT (py_delta st) div (py_h st + 1) < m - n \<longleftrightarrow> 2 ^ 32 - 1 - unat (py_delta st) < unat (m - n) * (unat (py_h st) + 1)"
    using h by (simp add: word_less_nat_alt unat_div_distrib unat_not less_mult_imp_div_less div_less_iff_less_mult)
  show ?thesis
  proof (cases "NOT (py_delta st) div (py_h st + 1) < m - n")
    case True
    have "\<not> compact cs"
    proof
      assume "compact cs"
      then have "(unat m - g_n g) * (unat (py_h st) + 1) + 0 < 2 ^ 32 - 1" using l(1) i by (intro compact_product [of cs]) simp_all
      then show False using True guard goal by linarith
    qed
    then show ?thesis using e True by simp
  next
    case False
    have fits: "unat (py_delta st) + unat (m - n) * (unat (py_h st) + 1) < 2 ^ 32"
      using False guard unat_u32_less [of "py_delta st"] by linarith
    then have "unat ((m - n) * (py_h st + 1)) = unat (m - n) * (unat (py_h st) + 1)" using h by (subst unat_mult_lem [THEN iffD1]) auto
    then have d1: "unat (py_delta st1) = unat (py_delta st) + unat (m - n) * (unat (py_h st) + 1)" using fits by (simp add: st1_def unat_plus_if')
    have "filter (\<lambda>c. c < m) cs = filter (\<lambda>c. c < n) cs" using least l(2) by (intro filter_cong) (auto simp: not_le [symmetric])
    then have "pass_inv cap d basic m [] cs st1 g" using r d1 goal le by (simp add: pass_inv_def st1_def)
    then have "fst (punycode_pass cap m cs st1) = Fail \<and> \<not> compact cs \<or> (\<exists>st' g'. punycode_pass cap m cs st1 = (Ok (), st') \<and> pass_inv cap d basic m cs [] st' g')"
      using pass_exact [of cap d basic m "[]" cs st1 g] i l(1) by auto
    then show ?thesis
    proof (elim disjE exE conjE, goal_cases)
      case (2 st' g')
      note q = 2(2) [unfolded pass_inv_def]
      have gn: "g_n g' = unat m" using q l(1) by simp
      have s: "unat (m + 1) = unat m + 1" using word_Suc_le [OF l(3), of "m + 1"] unatSuc [of m] l(3)
        by (metis add.commute add_diff_cancel_left' diff_0 Suc_eq_plus1)
      have "length (filter (\<lambda>c. c \<le> m) cs) \<le> length cs" by (rule length_filter_le)
      moreover have "unat (py_delta st') + g_i g' = length (filter (\<lambda>c. c \<le> m) cs)" using q gn by simp
      ultimately have "unat (py_delta st') + 1 < 2 ^ 32" using i by linarith
      then have d2: "unat (py_delta st' + 1) = unat (py_delta st') + 1" by (simp add: unat_plus_if')
      have "filter (\<lambda>c. c < m + 1) cs = filter (\<lambda>c. c \<le> m) cs"
        by (intro filter_cong) (simp_all add: word_Suc_le [OF l(3)] flip: not_le)
      then have "round_rel cap d basic cs (m + 1) (st'\<lparr>py_delta := py_delta st' + 1\<rparr>) g'"
        using q gn s d2 by (simp add: round_rel_def driven_def)
      then show ?case using e False 2(1) by auto
    qed (use e False in \<open>simp add: seq_ok_def\<close>)
  qed
qed

lemma loop_exact:
  assumes "round_inv cap cs n st" "round_rel cap d basic cs n st g"
  shows "map_option fst (punycode_loop cap cs n st) = Some Fail \<and> \<not> compact cs \<or>
    (\<exists>st' g'. punycode_loop cap cs n st = Some (Ok (), st') \<and> driven cap d basic st' g' \<and> g_done g' = cs)"
  using assms
proof (induction "unat (py_todo st)" arbitrary: n st g rule: less_induct)
  case less
  show ?case
  proof (cases "py_todo st = 0")
    case True
    then have "from_count n cs = 0" using less.prems(1) by (simp add: round_inv_def)
    then have "filter (\<lambda>c. c < n) cs = cs" by (intro filter_True) (auto simp: from_count_def filter_empty_conv not_le)
    then show ?thesis using True less.prems(2) by (auto simp: punycode_loop.simps round_rel_def)
  next
    case False
    note ok = punycode_round_ok [OF less.prems(1) False]
    from round_exact [OF less.prems(1) False less.prems(2)] show ?thesis
    proof (elim disjE exE conjE, goal_cases)
      case (2 n' st' g')
      then show ?case using ok less.hyps [of st' n' g'] False by (simp add: punycode_loop.simps [of cap cs n])
    qed (use False in \<open>auto simp: punycode_loop.simps [of cap cs n] split: prod.splits\<close>)
  qed
qed

section \<open>Labels\<close>

lemma letters_of: "\<forall>t \<in> set ts. t < 36 \<Longrightarrow> those (map digit_of (letters ts)) = Some ts \<and> 45 \<notin> set (letters ts)"
proof (induction ts)
  case (Cons t ts)
  have "digit_of (alphabet ! t) = Some t \<and> alphabet ! t \<noteq> 45"
    by (rule all_below [of 36]) (code_simp, use Cons.prems in simp)
  then show ?case using Cons by auto
qed simp

lemma takeWhile_letters: "45 \<notin> set ls \<Longrightarrow> takeWhile (\<lambda>b. b \<noteq> (45 :: byte)) (rev (basic @ 45 # ls)) = rev ls"
  using takeWhile_append2 [of "rev ls" "\<lambda>b. b \<noteq> 45" "45 # rev basic"] by auto

lemma punycode_text:
  assumes "\<forall>t \<in> set ts. t < 36"
  shows "punycode_decode ((if basic = [] then [] else basic @ [45]) @ letters ts) = puny_decode 128 0 72 (map unat basic) ts"
proof -
  note l = letters_of [OF assms]
  have tw: "takeWhile (\<lambda>b. b \<noteq> 45) (rev (letters ts)) = rev (letters ts)" using l by (auto simp: takeWhile_eq_all_conv)
  show ?thesis
  proof (cases "basic = []")
    case True
    then show ?thesis using l by (simp add: punycode_decode_def tw)
  next
    case False
    then show ?thesis using l takeWhile_letters [of "letters ts" basic] by (simp add: punycode_decode_def)
  qed
qed

lemma unat_ucast_ascii: "(c :: u32) < 128 \<Longrightarrow> unat (ucast c :: byte) = unat c"
  by (subst unat_ucast_down) (simp_all add: word_less_nat_alt)

lemma start_text:
  fixes cs :: "u32 list"
  defines "basic \<equiv> map ucast (filter (\<lambda>c. c < 128) cs) :: byte list"
  assumes "length cs + 1 < 2 ^ 31" "length d \<le> cap"
  shows "py_out (puny_start cap cs d) = take cap (d @ [120, 110, 45, 45] @ (if basic = [] then [] else basic @ [45]))"
proof -
  let ?h = "of_nat (ascii_count cs) :: u32"
  have h: "unat ?h = ascii_count cs" using unat_counts(1) assms(2) .
  have pos: "0 < ?h \<longleftrightarrow> basic \<noteq> []" using h by (auto simp: basic_def ascii_count_def word_less_nat_alt)
  have "d = take cap d" using assms(3) by simp
  then have "emit_char cap 45 (emit_char cap 45 (emit_char cap 110 (emit_char cap 120 d))) = take cap (d @ [120, 110, 45, 45])"
    using take_emit [of cap 120 d] take_emit [of cap 110 "d @ [120]"] take_emit [of cap 45 "d @ [120, 110]"] take_emit [of cap 45 "d @ [120, 110, 45]"] by simp
  then have "copy_ascii cap cs 0 ?h (emit_char cap 45 (emit_char cap 45 (emit_char cap 110 (emit_char cap 120 d)))) = take cap ((d @ [120, 110, 45, 45]) @ basic)"
    using copy_ascii_take [of 0 cs ?h cap "d @ [120, 110, 45, 45]"] h by (simp add: basic_def)
  then show ?thesis using pos take_emit [of cap 45 "(d @ [120, 110, 45, 45]) @ basic"] by (auto simp: puny_start_def)
qed

lemma start_rel:
  assumes "length cs + 1 < 2 ^ 31" "length d \<le> cap"
  shows "round_rel cap (d @ [120, 110, 45, 45] @ (if filter (\<lambda>c. c < 128) cs = [] then [] else map ucast (filter (\<lambda>c. c < 128) cs) @ [45]))
    (filter (\<lambda>c. c < 128) cs) cs 128 (puny_start cap cs d) \<lparr>g_n = 128, g_i = 0, g_done = filter (\<lambda>c. c < 128) cs, g_digits = []\<rparr>"
proof -
  have "unat (py_h (puny_start cap cs d)) = length (filter (\<lambda>c. c < 128) cs)"
    using unat_counts(1) [OF assms(1)] by (simp add: puny_start_def ascii_count_def Let_def)
  moreover have "py_bias (puny_start cap cs d) = 72" "py_first (puny_start cap cs d)" "py_delta (puny_start cap cs d) = 0"
    by (simp_all add: puny_start_def Let_def)
  ultimately show ?thesis using start_text [OF assms] by (simp add: round_rel_def driven_def)
qed

lemma label_punycode:
  assumes "foreach_codepoint buf s se = Ok cs" "\<forall>c \<in> set cs. unat c \<le> 0x10FFFF" "\<exists>c \<in> set cs. 128 \<le> c" "length cs < 3800" "length d \<le> cap"
  shows "\<exists>text. uv__idna_toascii_label buf s se cap d = Some (Ok 0, take cap (d @ [120, 110, 45, 45] @ text)) \<and>
    punycode_decode text = Some (map unat cs)"
proof -
  let ?basic = "filter (\<lambda>c. c < 128) cs"
  let ?pre = "if map ucast ?basic = ([] :: byte list) then [] else map ucast ?basic @ [45]"
  have comp: "compact cs" using assms(2,4) by (simp add: compact_def)
  have valid: "-1 \<notin> set cs" using assms(2) by (auto simp: unsigned_minus_1_eq_mask mask_eq_exp_minus_1)
  have len: "length cs + 1 < 2 ^ 31" using assms(4) by simp
  have todo: "from_count 128 cs \<noteq> 0" using assms(3) by (auto simp: from_count_def filter_empty_conv)
  obtain st g where l: "punycode_loop cap cs 128 (puny_start cap cs d) = Some (Ok (), st)" "driven cap (d @ [120, 110, 45, 45] @ ?pre) ?basic st g" "g_done g = cs"
    using loop_exact [OF round_inv_start [OF valid len assms(5)] start_rel [OF len assms(5)]] comp by auto
  note g = l(2) [unfolded driven_def]
  have "puny_decode 128 0 72 (map unat ?basic) (g_digits g) = Some (map unat cs)"
  proof -
    have "puny_decode 128 0 72 (map unat ?basic) (g_digits g @ []) = puny_decode (g_n g) (g_i g) (unat (py_bias st)) (map unat (g_done g)) []"
      using g by blast
    then show ?thesis using l(3) by (simp add: puny_decode.simps [where ds = "[]"])
  qed
  moreover have "map unat (map ucast ?basic :: byte list) = map unat ?basic" using unat_ucast_ascii by simp
  ultimately have "punycode_decode (?pre @ letters (g_digits g)) = Some (map unat cs)"
    using punycode_text [of "g_digits g" "map ucast ?basic"] conjunct1 [OF conjunct2 [OF g]] by (simp only:)
  moreover have "uv__idna_toascii_label buf s se cap d = Some (Ok 0, take cap (d @ [120, 110, 45, 45] @ ?pre @ letters (g_digits g)))"
    using label_encodes [OF assms(1) valid todo len, of cap d] l(1) g by simp
  ultimately show ?thesis by blast
qed

text \<open>The text of a label in ASCII: itself, or the prefix and its Punycode.\<close>

definition label_text :: "nat list \<Rightarrow> byte list \<Rightarrow> bool" where
  "label_text vs t \<longleftrightarrow>
     (if \<forall>v \<in> set vs. v < 128 then t = map of_nat vs
      else take 4 t = [120, 110, 45, 45] \<and> punycode_decode (drop 4 t) = Some vs)"

lemma scalar_small: "scalar v \<Longrightarrow> unat (of_nat v :: u32) = v"
  by (simp add: scalar_def unat_of_nat)

lemma label_exact:
  assumes "\<forall>v \<in> set vs. scalar v" "length vs < 3800" "ends_well post" "s = length pre" "se = length pre + length (utf8s vs)"
  shows "\<exists>rc t. uv__idna_toascii_label (pre @ utf8s vs @ post) s se cap (take cap d) = Some (Ok rc, take cap (d @ t)) \<and> 0 \<le> rc \<and> label_text vs t"
proof -
  note f = foreach_utf8s [OF assms(1,3), of pre, folded assms(4,5)]
  show ?thesis
  proof (cases "\<forall>v \<in> set vs. v < 128")
    case True
    then have c: "\<forall>c \<in> set (map of_nat vs). c < (128 :: u32)" using scalar_small assms(1) by (auto simp: word_less_nat_alt)
    have "ucast (of_nat v :: u32) = (of_nat v :: byte)" if "v \<in> set vs" for v
      using unat_ucast_ascii [of "of_nat v"] c scalar_small [of v] assms(1) that by (intro unat_eq_of_nat) auto
    then have u: "map ucast (map of_nat vs :: u32 list) = (map of_nat vs :: byte list)" by simp
    have "length (map of_nat vs :: u32 list) + 1 < 2 ^ 31" using assms(2) by simp
    from label_plain [OF f c this, of cap d] show ?thesis using True unfolding u by (auto simp: label_text_def)
  next
    case False
    then have "\<exists>c \<in> set (map of_nat vs). (128 :: u32) \<le> c" using scalar_small assms(1) by (fastforce simp: word_le_nat_alt)
    moreover have "\<forall>c \<in> set (map of_nat vs :: u32 list). unat c \<le> 0x10FFFF" using scalar_small assms(1) by (auto simp: scalar_def)
    moreover have "map unat (map of_nat vs :: u32 list) = vs" using scalar_small assms(1) by (simp add: map_idI)
    ultimately obtain code where t: "uv__idna_toascii_label (pre @ utf8s vs @ post) s se cap (take cap d) = Some (Ok 0, take cap (take cap d @ [120, 110, 45, 45] @ code))"
      "punycode_decode code = Some vs" using label_punycode [OF f, of "take cap d" cap] assms(2) by auto
    have "take cap (take cap d @ xs) = take cap (d @ xs)" for xs by (simp add: min_def)
    then show ?thesis using t False unfolding label_text_def by (intro exI [of _ 0] exI [of _ "[120, 110, 45, 45] @ code"]) auto
  qed
qed

section \<open>Names\<close>

definition dot :: "nat \<Rightarrow> bool" where
  "dot v \<longleftrightarrow> v = 46 \<or> v = 0x3002 \<or> v = 0xFF0E \<or> v = 0xFF61"

lemma is_dot_of_nat: "scalar v \<Longrightarrow> is_dot (of_nat v) \<longleftrightarrow> dot v"
  using scalar_small [of v] unfolding is_dot_def dot_def word_unat_eq_iff by simp

lemma labels_skip:
  assumes "\<forall>v \<in> set vs. scalar v \<and> \<not> dot v" "length pre + length (utf8s vs) \<le> se"
  shows "labels_loop (pre @ utf8s vs @ post) s (length pre) se cap d = labels_loop (pre @ utf8s vs @ post) s (length pre + length (utf8s vs)) se cap d"
  using assms
proof (induction vs arbitrary: pre)
  case (Cons v vs)
  let ?buf = "pre @ utf8s (v # vs) @ post"
  have "length pre < se" using Cons.prems(2) length_utf8_pos [of v] unfolding utf8s_simps length_append by linarith
  then have "labels_loop ?buf s (length pre) se cap d = labels_loop ?buf s (length pre + length (utf8 v)) se cap d"
    using decode1_utf8 [of v "length pre" pre se "utf8s vs @ post"] is_dot_of_nat [of v] Cons.prems(1) by (subst labels_loop.simps) simp
  then show ?case using Cons.IH [of "pre @ utf8 v"] Cons.prems by (simp add: add.assoc)
qed simp

text \<open>Labels with the dots that end them, and the texts that are written for them.\<close>

definition dotted_name :: "(nat list \<times> nat) list \<Rightarrow> nat list" where
  "dotted_name ls = concat (map (\<lambda>(vs, v). vs @ [v]) ls)"

definition labels :: "(nat list \<times> nat) list \<Rightarrow> bool" where
  "labels ls \<longleftrightarrow> (\<forall>(vs, v) \<in> set ls. dot v \<and> length vs < 3800 \<and> (\<forall>v \<in> set vs. scalar v \<and> \<not> dot v))"

lemma dot_scalar: "dot v \<Longrightarrow> scalar v"
  by (auto simp: dot_def scalar_def)

lemma ends_dot: "dot v \<Longrightarrow> ends_well (utf8 v @ post)"
  by (auto simp: dot_def ends_well_def utf8_def utf8_tails [simplified])

lemma labels_exact:
  assumes "labels ls" "\<forall>v \<in> set vs. scalar v \<and> \<not> dot v" "se = length pre + length (utf8s (dotted_name ls @ vs))"
  shows "\<exists>ts. labels_loop (pre @ utf8s (dotted_name ls @ vs) @ post) (length pre) (length pre) se cap (take cap d) =
      Some (Ok 0, length pre + length (utf8s (dotted_name ls)), take cap (d @ concat (map (\<lambda>t. t @ [46]) ts))) \<and> list_all2 label_text (map fst ls) ts"
  using assms
proof (induction ls arbitrary: pre d)
  case Nil
  have "labels_loop b s se se cap d = Some (Ok 0, s, d)" for b s d by (simp add: labels_loop.simps)
  then show ?case using Nil labels_skip [of vs pre se post] by (auto simp: dotted_name_def)
next
  case (Cons l ls)
  obtain ws v where l: "l = (ws, v)" by (rule prod.exhaust)
  have w: "dot v" "length ws < 3800" "\<forall>v \<in> set ws. scalar v \<and> \<not> dot v" "labels ls" using Cons.prems(1) l by (auto simp: labels_def)
  let ?tail = "utf8 v @ utf8s (dotted_name ls @ vs) @ post" let ?buf = "pre @ utf8s ws @ ?tail" let ?si = "length pre + length (utf8s ws)"
  have buf: "pre @ utf8s (dotted_name (l # ls) @ vs) @ post = ?buf" and len: "se = ?si + length (utf8 v) + length (utf8s (dotted_name ls @ vs))"
    using Cons.prems(3) by (simp_all add: dotted_name_def l)
  have lt: "?si < se" using len length_utf8_pos [of v] by linarith
  have skip: "labels_loop ?buf (length pre) (length pre) se cap (take cap d) = labels_loop ?buf (length pre) ?si se cap (take cap d)"
    using labels_skip [OF w(3), of pre se ?tail] lt by simp
  have dec: "uv__utf8_decode1 ?buf ?si se = Ok (of_nat v, ?si + length (utf8 v))"
    using decode1_utf8 [OF dot_scalar [OF w(1)], of ?si "pre @ utf8s ws" se] lt by simp
  obtain rc t where t: "uv__idna_toascii_label ?buf (length pre) ?si cap (take cap d) = Some (Ok rc, take cap (d @ t))" "0 \<le> rc" "label_text ws t"
    using label_exact [of ws ?tail "length pre" pre ?si cap d] w ends_dot by blast
  have "labels_loop ?buf (length pre) ?si se cap (take cap d) =
      labels_loop ?buf (?si + length (utf8 v)) (?si + length (utf8 v)) se cap (take cap (d @ t @ [46]))"
    using lt dec t(1,2) is_dot_of_nat [OF dot_scalar] w(1) take_emit [of cap 46 "d @ t"] by (subst labels_loop.simps) simp
  moreover obtain ts where "labels_loop ?buf (?si + length (utf8 v)) (?si + length (utf8 v)) se cap (take cap (d @ t @ [46])) =
      Some (Ok 0, ?si + length (utf8 v) + length (utf8s (dotted_name ls)), take cap ((d @ t @ [46]) @ concat (map (\<lambda>t. t @ [46]) ts)))"
    "list_all2 label_text (map fst ls) ts"
    using Cons.IH [OF w(4) Cons.prems(2), of "pre @ utf8s ws @ utf8 v" "d @ t @ [46]"] len by (auto simp: add.assoc)
  ultimately show ?case using skip t(3) l unfolding buf
    by (intro exI [of _ "t # ts"]) (simp add: dotted_name_def add.assoc)
qed

text \<open>C30: A name in UTF-8 is converted label by label: a label of ASCII characters is copied, a label with others is written as \<^verbatim>\<open>xn--\<close> and a text
  from which the decoder of RFC 3492 gives back the label; the dots, also the three ideographic ones, become full stops. The conversion
  succeeds for all labels of less than 3800 characters, with one readable byte behind the name.\<close>

theorem idna_name:
  assumes "labels ls" "\<forall>v \<in> set vs. scalar v \<and> \<not> dot v" "length vs < 3800"
  shows "\<exists>ts t. uv__idna_toascii (utf8s (dotted_name ls @ vs) @ [0]) 0 (length (utf8s (dotted_name ls @ vs))) cap =
      (let out = take cap (concat (map (\<lambda>t. t @ [46]) ts) @ t @ [0]) in Some (Ok (int (length out)), out)) \<and>
    list_all2 label_text (map fst ls) ts \<and> label_text vs t"
proof -
  let ?buf = "utf8s (dotted_name ls @ vs) @ [0]" and ?se = "length (utf8s (dotted_name ls @ vs))" and ?s = "length (utf8s (dotted_name ls))"
  obtain ts where l: "labels_loop ?buf 0 0 ?se cap (take cap []) = Some (Ok 0, ?s, take cap (concat (map (\<lambda>t. t @ [46]) ts)))" "list_all2 label_text (map fst ls) ts"
    using labels_exact [OF assms(1,2), of ?se "[]" "[0]" cap "[]"] by auto
  let ?d = "concat (map (\<lambda>t. t @ [46]) ts)"
  obtain rc t where t: "uv__idna_toascii_label ?buf ?s ?se cap (take cap ?d) = Some (Ok rc, take cap (?d @ t))" "0 \<le> rc" "label_text vs t"
    using label_exact [of vs "[0]" ?s "utf8s (dotted_name ls)" ?se cap ?d] assms(2,3) by (auto simp: ends_well_def)
  show ?thesis
  proof (cases "?s < ?se")
    case True
    then show ?thesis using l t take_emit [of cap 0 "?d @ t"] by (intro exI [of _ ts] exI [of _ t]) (simp add: uv__idna_toascii_def)
  next
    case False
    then have "utf8s vs = []" by simp
    then have "vs = []" using length_utf8_pos by (cases vs) auto
    then show ?thesis using l False take_emit [of cap 0 ?d] by (intro exI [of _ ts] exI [of _ "[]"]) (simp add: uv__idna_toascii_def label_text_def)
  qed
qed

theorem idna_name_witness:
  "\<exists>ts t. uv__idna_toascii (utf8s (dotted_name [([98, 252, 99, 104, 101, 114], 0x3002)] @ [100, 101]) @ [0]) 0
        (length (utf8s (dotted_name [([98, 252, 99, 104, 101, 114], 0x3002)] @ [100, 101]))) 64 =
      (let out = take 64 (concat (map (\<lambda>t. t @ [46]) ts) @ t @ [0]) in Some (Ok (int (length out)), out)) \<and>
    list_all2 label_text (map fst [([98, 252, 99, 104, 101, 114], 0x3002 :: nat)]) ts \<and> label_text [100, 101] t"
  by (rule idna_name) (simp_all add: labels_def dot_def scalar_def)

end
