(* ===== verification/Spec2Isabelle.thy ===== *)
theory Spec2Isabelle
  imports Pb_Streams Pb_Messages Pb_Roundtrip Ber_Convert Unicode Base64_Stream Set_Of Uv_Timer_Laws Uv_Inet_Laws Punycode
begin

text \<open>
  The C code that the application \<^verbatim>\<open>mock_project\<close> links through its pods, as far as it parses, builds and schedules: the
  streams of nanopb and its decoder and encoder of structures, which carry the Firestore protocol; the byte-string, ASN.1, text and base64 layer of
  BoringSSL, which carries certificates and keys; and, of the libuv under gRPC, the timers of the event loop and the text of
  addresses and domain names. The sources are under \<^verbatim>\<open>src/mock_project/Pods\<close>; paths below are relative to it.

  \<^bold>\<open>How the code is modelled.\<close> A C function is a HOL function of the same name from its arguments and the objects it updates to an
  outcome and the updated objects (\<^verbatim>\<open>C_Prelude\<close>). \<open>Ok\<close> carries what the function returns or stores through output pointers,
  \<open>Fail\<close> is a return of false, and \<open>Undef\<close> is what C leaves undefined: an access outside of an object, or through a null pointer.
  Integers are words of their width, and wrap as they do in C; lengths that no code computes with are natural numbers.
  Structures are records, enumerations and pointers to one of several objects are datatypes. Loops are structural recursion
  or functions with a termination measure. Loops that may in principle run forever are partial functions into an option, where
  \<open>None\<close> is not returning: the conversion of BER, the two loops that restore the order of the heap, the loop that runs the
  timers, the two loops over the labels of a name and the characters of a label, and of nanopb the search in a table of fields and
  the loops over packed arrays and over the calls of a callback; theorems say that they return, the last two apart, which are up to the
  callback and the allocator. The functions of nanopb that call each other through submessages are closed by \<open>run\<close> (\<^verbatim>\<open>Pb_Decode\<close>), whose
  fuel bounds the number of nested calls, and by \<open>erun\<close> (\<^verbatim>\<open>Pb_Encode\<close>) for the encoder: \<^verbatim>\<open>Pb_Fuel\<close> shows that more fuel never changes a result, and
  the theorems on messages that there is enough. Code that is not in the repository is a
  parameter: the callbacks of streams and timers, the comparison function of the heap, and the allocator, which is a list of
  answers.

  \<^bold>\<open>nanopb streams\<close> (\<^verbatim>\<open>nanopb/pb_decode.c\<close>, \<^verbatim>\<open>nanopb/pb_encode.c\<close>). \<^verbatim>\<open>Pb_Istream\<close> has \<^verbatim>\<open>pb_istream_t\<close>, the callback of a buffer and of a
  client, and the decoders of varints, fixed-width numbers, tags, strings and substreams; \<^verbatim>\<open>Pb_Ostream\<close> has \<^verbatim>\<open>pb_ostream_t\<close>, with
  the counting stream that has no callback, and the encoders. What a decoder relies on its callback for is the locale
  \<open>pb_source\<close> (\<^verbatim>\<open>Pb_Source\<close>), what an encoder relies on it for is \<open>pb_sink\<close> (\<^verbatim>\<open>Pb_Sink\<close>); both are interpreted on the buffer callbacks of
  the library. \<^verbatim>\<open>Pb_Wire\<close> shows that the decoders invert the encoders and that unknown fields are skipped exactly; \<^verbatim>\<open>Pb_Streams\<close>
  shows that no sequence of calls leaves its buffer, that counting measures what writing writes, and what the varint
  decoders do on arbitrary bytes, among it that the 32-bit decoder accepts over-long numbers.

  \<^bold>\<open>nanopb structures\<close> (\<^verbatim>\<open>nanopb/pb.h\<close>, \<^verbatim>\<open>pb_common.c\<close>, \<^verbatim>\<open>pb_decode.c\<close>). \<^verbatim>\<open>Pb_Memory\<close> is a memory of objects of bytes and stored pointers, where every
  access is checked. \<^verbatim>\<open>Pb_Common\<close> has the descriptors and the iterator over them, and shows that it finds each field and points to its
  member. \<^verbatim>\<open>Pb_Fields\<close> has the decoders of single values, defaults, releasing, extensions and unions; \<^verbatim>\<open>Pb_Decode\<close> has static, allocated
  and callback fields and the loop over the fields of a message with its required and fixed count fields. \<^verbatim>\<open>Pb_Regions\<close> says what a
  call may do to a region of memory, with rules for sequences of calls; \<^verbatim>\<open>Pb_Decode_Safe\<close>, \<^verbatim>\<open>Pb_Static\<close>, \<^verbatim>\<open>Pb_Static_Safe\<close>, \<^verbatim>\<open>Pb_Static_Decode\<close> and
  \<^verbatim>\<open>Pb_Static_Message\<close> apply them, from values to messages, to tables whose members lie inside of their structure (\<open>static_table\<close>), on every
  source that keeps the contract \<open>pb_source\<close>. \<^verbatim>\<open>Pb_Messages\<close> has the resulting theorem on buffers, the arithmetic of allocation, and two
  places where the code leaves or misuses a structure. Descriptors have fields of 32 bits and pointers eight bytes, as the pod is built.

  \<^bold>\<open>nanopb structures to the wire\<close> (\<^verbatim>\<open>nanopb/pb_encode.c\<close>). \<^verbatim>\<open>Pb_Encode\<close> has the encoders of values, arrays, fields, extensions and submessages, with the
  decision whether a field is present and the pass that counts before it writes; \<open>erun\<close> closes the recursion. \<^verbatim>\<open>Pb_View\<close> is the
  specification: the message that a structure in memory stands for, as a list of numbered values, and its bytes. \<^verbatim>\<open>Pb_Delivers\<close> says, in the
  locale \<open>pb_sink\<close>, what it means that a part of the encoder puts bytes onto any stream, with rules for putting parts together;
  \<^verbatim>\<open>Pb_Encode_Values\<close>, \<^verbatim>\<open>Pb_Encode_Fields\<close> and \<^verbatim>\<open>Pb_Encode_Message\<close> go through the encoder with them, and \<^verbatim>\<open>Pb_Encoded\<close> has the results on buffers:
  exactly the bytes of the view are written, counting measures them, what has no view is refused, and a submessage with an
  allocated member may be taken for absent.

  \<^bold>\<open>nanopb there and back.\<close> For tables whose fields are all singular fields of proto3 stored in their structure, submessages of such tables included
  (\<open>singular_table\<close>, \<^verbatim>\<open>Pb_Image\<close>), the decoder is also compared with the view. \<^verbatim>\<open>Pb_Image\<close> says which bytes of a structure represent a
  message and which messages a table has (\<open>message_fits\<close>); \<^verbatim>\<open>Pb_Image_View\<close> shows that the view reads the represented message. \<^verbatim>\<open>Pb_Restore\<close> and
  \<^verbatim>\<open>Pb_Restored\<close> follow the decoder, in the locale \<open>pb_source\<close>, member by member: the defaults give the image of the empty message, and every field read
  gives the image of its value. \<^verbatim>\<open>Pb_View_Fits\<close> shows that what the view reads fits the table. \<^verbatim>\<open>Pb_Roundtrip\<close> has the results: decoding yields
  exactly the message on the wire, and a structure that was encoded and decoded into another one is the same message. The depth
  of nesting of the tables bounds the fuel of the view. A string without a terminator and a submessage of four gigabytes
  are excluded (\<open>storable\<close>): they are written but refused when read.

  \<^bold>\<open>Readers and builders of byte strings\<close> (\<^verbatim>\<open>BoringSSL-GRPC/src/crypto/bytestring\<close>). \<^verbatim>\<open>Cbs\<close> is \<^verbatim>\<open>cbs.c\<close>: a \<^verbatim>\<open>CBS\<close> is the bytes from its
  pointer to the end of the object and its length. \<^verbatim>\<open>Cbb\<close> is \<^verbatim>\<open>cbb.c\<close>: the buffer that a chain of open \<^verbatim>\<open>CBB\<close>s shares, the chain with
  its pending length prefixes, growth through the allocator, the sticky error, and the \<^verbatim>\<open>CBB\<close>s that must not be used any more: those whose
  buffer was freed under them, and those of a function that has returned. \<^verbatim>\<open>Cbs_Laws\<close> and \<^verbatim>\<open>Cbb_Laws\<close> hold the invariants
  and the effect of each operation; \<^verbatim>\<open>Cbs_Safety\<close> and \<^verbatim>\<open>Cbb_Safety\<close> are about sequences of calls: any sequence on a reader stays inside of its
  buffer, and so does, whatever the allocator answers, any sequence on a builder by a client that keeps the rules of \<^verbatim>\<open>bytestring.h\<close>, which is
  that it uses the \<^verbatim>\<open>CBB\<close>s that are open, cleans up the top one, and does not discard a child after a failure (\<open>cbb_client\<close>). A failure is
  remembered: whatever a client does afterwards, no adding or finishing call succeeds. \<^verbatim>\<open>Der\<close> gives the encodings of DER as lists of bytes, with the locale
  \<open>cbs_codec\<close> of a parser that inverts an encoding; \<open>cbb_writer\<close> (\<^verbatim>\<open>Cbb_Laws\<close>) is an operation that appends an encoding, and
  \<open>der_value\<close> (\<^verbatim>\<open>Cbb_Values\<close>) joins the two, interpreted on every value that both sides support. \<^verbatim>\<open>Der_Sound\<close> and \<^verbatim>\<open>Bytestring\<close> show that
  the element parser accepts exactly DER and that nested elements, integers and length-prefixed strings go through builder
  and reader unchanged. \<^verbatim>\<open>Oid\<close> is the text form of object identifiers, \<^verbatim>\<open>Unicode\<close> is \<^verbatim>\<open>unicode.c\<close>, \<^verbatim>\<open>Set_Of\<close> the sorting of a SET OF and
  \<^verbatim>\<open>asn1_compat.c\<close>.

  \<^bold>\<open>BER\<close> (\<^verbatim>\<open>crypto/bytestring/ber.c\<close>). \<^verbatim>\<open>Ber\<close> models the walk that looks for BER and the conversion; \<^verbatim>\<open>Ber_Laws\<close> shows that it
  returns on every input and keeps DER as it is; \<^verbatim>\<open>Ber_Convert\<close> gives a grammar of BER and shows that the conversion yields the DER
  of the same value. It also shows an input with BER inside that the walk takes for DER.

  \<^bold>\<open>Base64\<close> (\<^verbatim>\<open>crypto/base64/base64.c\<close>, \<^verbatim>\<open>crypto/internal.h\<close>). \<^verbatim>\<open>Const_Time\<close> shows the branch-free comparisons and selections equal to
  the plain ones; \<^verbatim>\<open>Base64\<close> models the file; \<^verbatim>\<open>Base64_Laws\<close> and \<^verbatim>\<open>Base64_Stream\<close> compare it with a reference text and show that the
  streaming interface does not depend on how its input is cut, and that the streaming decoder accepts exactly the texts whose characters, line
  breaks apart, are complete groups with padding in the last one only.

  \<^bold>\<open>Timers\<close> (\<^verbatim>\<open>Libuv-gRPC/src\<close>). \<^verbatim>\<open>Uv_Queue\<close> is \<^verbatim>\<open>queue.h\<close>, rings of pointers in a memory, read as lists. \<^verbatim>\<open>Uv_Heap\<close> is \<^verbatim>\<open>heap-inl.h\<close>, a binary heap
  of nodes with pointers to their parents and children; \<open>heap_rep\<close> maps the positions of the complete tree to the nodes, and
  \<^verbatim>\<open>Uv_Heap_Laws\<close> shows, for a comparison function with the law of the locale \<open>heap_order\<close>, that inserting and removing return,
  keep the tree complete and ordered, and change the set of its nodes by the one node. \<^verbatim>\<open>Uv_Timer\<close> is \<^verbatim>\<open>timer.c\<close> with the handle
  macros of \<^verbatim>\<open>uv-common.h\<close>; \<^verbatim>\<open>Uv_Timer_Laws\<close> interprets the locale on the comparison of timers, keeps the invariant of the loop
  in every history of operations, and shows what the loop waits for and which callbacks it runs in which order, for callbacks that
  may themselves start, stop and restart timers (\<open>calm\<close>).

  \<^bold>\<open>Addresses and names\<close> (\<^verbatim>\<open>Libuv-gRPC/src\<close>). \<^verbatim>\<open>Uv_Inet\<close> is \<^verbatim>\<open>inet.c\<close> with the string copy of \<^verbatim>\<open>strscpy.c\<close>; \<^verbatim>\<open>Uv_Inet_Laws\<close> shows that
  printed addresses of both families are parsed back and that parsing stays inside of its string and of the address, for strings below
  two gigabytes: beyond that the length before a zone, an \<^verbatim>\<open>int\<close>, wraps. \<^verbatim>\<open>Uv_Idna\<close> is
  \<^verbatim>\<open>idna.c\<close>; \<^verbatim>\<open>Uv_Idna_Laws\<close> shows that the conversion returns and stays inside of its buffers when three bytes can be read behind the
  name, and the read beyond the terminator when they can not. \<^verbatim>\<open>Uv_Utf8\<close> compares the decoder of UTF-8 with the encoding that BoringSSL
  writes, and shows which malformed sequences it accepts. \<^verbatim>\<open>Punycode\<close> has the decoder of RFC 3492 as the specification of the encoder:
  the encoder is followed state by state, so that the decoder gives back every label. \<^verbatim>\<open>Uv_Errno\<close> has the error codes, with the
  numbers of the platform of the application.

  \<^bold>\<open>Assumptions.\<close> A buffer has fewer than \<open>2 ^ 64\<close> bytes, for encoding of structures at most \<open>2 ^ 63\<close> (beyond that a test
  in \<^verbatim>\<open>pb_encode_submessage\<close> wraps), and a heap fewer than \<open>2 ^ 32\<close> nodes. A stream callback of a client
  obeys its documentation where a theorem says so. There is one thread. The timers of one loop are modelled; a callback is
  an arbitrary function on the loop. The theorem on running the timers is about callbacks that keep the invariant of the loop and its clock and leave no timer due
  but those that were due before, since a callback that restarts its timer without a delay is called forever, and about a clock that has not reached its
  maximum.

  \<^bold>\<open>Not modelled.\<close> The ciphers, digests, big numbers and curves of BoringSSL are arithmetic against standards outside of the repository,
  partly in assembly; X.509 and TLS are clients of the modelled layers. Of libuv, the poll loop, streams, threads
  and file requests are system calls. upb and the core of gRPC decode through generated tables; the Firebase libraries and
  the application are C++, Objective-C and Swift.
\<close>

end
